(* ===== verification/Prelude.thy ===== *)
theory Prelude
  imports Main "HOL-Library.Word" "HOL-Library.Char_ord" "HOL-Library.List_Lexorder"
begin

text \<open>
  The vocabulary the component theories share: the parts of Rust's standard library that the
  modelled code calls (saturating machine arithmetic, Unicode text as code points, list and
  option helpers), with the generic lemmas that the component proofs rest on. The collection
  \<open>rust_text\<close> gathers the definitions a witness unfolds to evaluate text operations, and
  \<open>sat_defs\<close> those of saturating arithmetic.
\<close>

named_theorems rust_text "definitions of the text operations, for evaluation"
named_theorems sat_defs "definitions of saturating arithmetic"

section \<open>Machine integers\<close>

text \<open>
  Unsigned integers are natural numbers kept within their width: every addition or
  multiplication of the code that saturates is written with the bound it saturates at.
  Rust's \<open>saturating_sub\<close> on unsigned values is exactly subtraction on \<open>nat\<close>. Lengths of
  in-memory collections are plain \<open>nat\<close>: a collection never holds \<open>usize::MAX\<close> elements.
\<close>

type_synonym u64 = nat
type_synonym u32 = nat
type_synonym usize = nat

definition u64_max :: nat where
  "u64_max = 18446744073709551615"

definition u32_max :: nat where
  "u32_max = 4294967295"

definition i64_max :: int where
  "i64_max = 9223372036854775807"

definition sat_add64 :: "u64 \<Rightarrow> u64 \<Rightarrow> u64" where
  "sat_add64 a b = min u64_max (a + b)"

definition sat_mul64 :: "u64 \<Rightarrow> u64 \<Rightarrow> u64" where
  "sat_mul64 a b = min u64_max (a * b)"

definition sat_add32 :: "u32 \<Rightarrow> u32 \<Rightarrow> u32" where
  "sat_add32 a b = min u32_max (a + b)"

lemmas [sat_defs] = sat_add64_def sat_mul64_def sat_add32_def u64_max_def u32_max_def

lemma u64_max_pos [simp]: "0 < u64_max"
  by (simp add: u64_max_def)

lemma sat_add64_le [simp, intro]: "sat_add64 a b \<le> u64_max"
  by (simp add: sat_add64_def)

lemma sat_mul64_le [simp, intro]: "sat_mul64 a b \<le> u64_max"
  by (simp add: sat_mul64_def)

lemma sat_add32_le [simp, intro]: "sat_add32 a b \<le> u32_max"
  by (simp add: sat_add32_def)

lemma sat_add64_exact: "a + b \<le> u64_max \<Longrightarrow> sat_add64 a b = a + b"
  by (simp add: sat_add64_def)

lemma sat_add64_ge: "a \<le> u64_max \<Longrightarrow> a \<le> sat_add64 a b"
  by (simp add: sat_add64_def)

lemma sat_add64_one_less [simp]: "a < u64_max \<Longrightarrow> sat_add64 a (Suc 0) = Suc a"
  by (simp add: sat_add64_def)

section \<open>Text\<close>

text \<open>
  A Rust \<open>char\<close> is a Unicode scalar value, modelled by its code point; a \<open>String\<close> that the
  code takes apart character by character is the list of its code points. \<open>lit\<close> turns an
  ASCII literal of the source into such a list. Where the code only compares, stores or orders
  identifiers the component theories use HOL's \<open>string\<close>, read as the UTF-8 bytes, whose
  lexicographic order is the order of Rust's \<open>String\<close>.
\<close>

type_synonym uchar = nat
type_synonym ustr = "uchar list"

definition lit :: "string \<Rightarrow> ustr" where
  [rust_text]: "lit s = map of_char s"

definition is_ascii_whitespace :: "uchar \<Rightarrow> bool" where
  [rust_text]: "is_ascii_whitespace c = (c = 9 \<or> c = 10 \<or> c = 12 \<or> c = 13 \<or> c = 32)"

text \<open>\<open>char::is_whitespace\<close>: the code points with the Unicode property White\_Space.\<close>

definition is_whitespace :: "uchar \<Rightarrow> bool" where
  [rust_text]: "is_whitespace c \<longleftrightarrow>
     (9 \<le> c \<and> c \<le> 13) \<or> c = 32 \<or> c = 133 \<or> c = 160 \<or> c = 5760 \<or>
     (8192 \<le> c \<and> c \<le> 8202) \<or> c = 8232 \<or> c = 8233 \<or> c = 8239 \<or> c = 8287 \<or> c = 12288"

definition ascii_lower :: "uchar \<Rightarrow> uchar" where
  [rust_text]: "ascii_lower c = (if 65 \<le> c \<and> c \<le> 90 then c + 32 else c)"

definition to_ascii_lowercase :: "ustr \<Rightarrow> ustr" where
  [rust_text]: "to_ascii_lowercase s = map ascii_lower s"

definition trim_start :: "ustr \<Rightarrow> ustr" where
  [rust_text]: "trim_start s = dropWhile is_whitespace s"

definition trim_end :: "ustr \<Rightarrow> ustr" where
  [rust_text]: "trim_end s = rev (dropWhile is_whitespace (rev s))"

definition trim :: "ustr \<Rightarrow> ustr" where
  [rust_text]: "trim s = trim_end (trim_start s)"

fun strip_prefix :: "'a list \<Rightarrow> 'a list \<Rightarrow> 'a list option" where
  "strip_prefix [] s = Some s"
| "strip_prefix (p # ps) [] = None"
| "strip_prefix (p # ps) (c # cs) = (if p = c then strip_prefix ps cs else None)"

text \<open>\<open>str::split_once\<close> on a single character: the text before and after its first occurrence.\<close>

fun split_once :: "'a \<Rightarrow> 'a list \<Rightarrow> ('a list \<times> 'a list) option" where
  "split_once d [] = None"
| "split_once d (c # cs) =
     (if c = d then Some ([], cs)
      else (case split_once d cs of None \<Rightarrow> None | Some (a, b) \<Rightarrow> Some (c # a, b)))"

text \<open>\<open>str::split\<close> at line feeds, and lines joined by them.\<close>

fun split_lines :: "ustr \<Rightarrow> ustr list" where
  "split_lines [] = [[]]"
| "split_lines (c # cs) =
     (if c = 10 then [] # split_lines cs else (case split_lines cs of l # ls \<Rightarrow> (c # l) # ls | [] \<Rightarrow> [[c]]))"

fun join_lines :: "ustr list \<Rightarrow> ustr" where
  "join_lines [] = []"
| "join_lines [l] = l"
| "join_lines (l # ls) = l @ 10 # join_lines ls"

text \<open>A number in decimal, as \<open>format!\<close> writes it.\<close>

fun decimal :: "nat \<Rightarrow> ustr" where
  "decimal n = (if n < 10 then [48 + n] else decimal (n div 10) @ [48 + n mod 10])"

declare decimal.simps [simp del]

lemma strip_prefix_Some_iff: "strip_prefix p s = Some r \<longleftrightarrow> s = p @ r"
  by (induction p s rule: strip_prefix.induct) auto

lemma strip_prefix_append [simp]: "strip_prefix p (p @ r) = Some r"
  by (simp add: strip_prefix_Some_iff)

lemma split_once_SomeD:
  "split_once d s = Some (a, b) \<Longrightarrow> s = a @ d # b \<and> d \<notin> set a"
  by (induction s arbitrary: a b) (auto split: if_splits option.splits)

lemma split_once_append [simp]: "d \<notin> set a \<Longrightarrow> split_once d (a @ d # b) = Some (a, b)"
  by (induction a) auto

lemma split_once_None_iff: "split_once d s = None \<longleftrightarrow> d \<notin> set s"
  by (induction s) (auto split: option.splits)

lemma is_ascii_whitespace_imp: "is_ascii_whitespace c \<Longrightarrow> is_whitespace c"
  by (auto simp: is_ascii_whitespace_def is_whitespace_def)

lemma ascii_lower_idem [simp]: "ascii_lower (ascii_lower c) = ascii_lower c"
  by (simp add: ascii_lower_def)

lemma to_ascii_lowercase_idem [simp]:
  "to_ascii_lowercase (to_ascii_lowercase s) = to_ascii_lowercase s"
  by (simp add: to_ascii_lowercase_def)

lemma to_ascii_lowercase_append [simp]:
  "to_ascii_lowercase (s @ t) = to_ascii_lowercase s @ to_ascii_lowercase t"
  by (simp add: to_ascii_lowercase_def)

lemma lit_append: "lit (s @ t) = lit s @ lit t"
  by (simp add: lit_def)

lemma trim_start_no_space: "s \<noteq> [] \<Longrightarrow> \<not> is_whitespace (hd s) \<Longrightarrow> trim_start s = s"
  by (cases s) (auto simp: trim_start_def)

lemma trim_end_no_space:
  assumes "s \<noteq> []" and "\<not> is_whitespace (last s)"
  shows "trim_end s = s"
proof -
  from assms obtain b c where "s = b @ [c]" and "\<not> is_whitespace c"
    by (metis append_butlast_last_id)
  then show ?thesis by (simp add: trim_end_def)
qed

lemma trim_no_space:
  assumes "s \<noteq> []" and "\<not> is_whitespace (hd s)" and "\<not> is_whitespace (last s)"
  shows "trim s = s"
  using assms by (simp add: trim_def trim_start_no_space trim_end_no_space)

section \<open>Lists\<close>

text \<open>\<open>Iterator::position\<close> and \<open>Vec::remove\<close> of the first match, as the queue code uses them.\<close>

lemma remove1_set_distinct: "distinct xs \<Longrightarrow> set (remove1 x xs) = set xs - {x}"
  by (simp add: set_remove1_eq)

lemma length_remove1_le: "length (remove1 x xs) \<le> length xs"
  by (simp add: length_remove1)

text \<open>The first element that satisfies a test, Rust's \<open>Iterator::find\<close>, is HOL's \<open>find\<close>.\<close>

lemma find_SomeD': "find P xs = Some x \<Longrightarrow> x \<in> set xs \<and> P x"
  by (auto simp: find_Some_iff)

lemma find_None_ball: "find P xs = None \<longleftrightarrow> (\<forall>x \<in> set xs. \<not> P x)"
  by (auto simp: find_None_iff)

end
