(* ===== verification/Tool_Effects.thy ===== *)
theory Tool_Effects
  imports Prelude
begin

unbundle bit_operations_syntax

text \<open>
  The side effects a tool declares (\<open>ToolEffects\<close> in \<open>src/src/tools.rs\<close>) and the planner of
  the agent loop that groups consecutive tool calls into batches which may run concurrently
  (\<open>plan_tool_effect_batches\<close> in \<open>src/src/agent.rs\<close>). An effect set is the byte of flags the
  code keeps; the planner is the loop over the effects of the calls in their order.
\<close>

section \<open>Effect sets\<close>

record tool_effects =
  bits :: "8 word"

definition eff_READ :: "8 word" where "eff_READ = push_bit 0 1"
definition eff_WRITE :: "8 word" where "eff_WRITE = push_bit 1 1"
definition eff_APPEND :: "8 word" where "eff_APPEND = push_bit 2 1"
definition eff_NETWORK :: "8 word" where "eff_NETWORK = push_bit 3 1"
definition eff_PROCESS :: "8 word" where "eff_PROCESS = push_bit 4 1"
definition eff_PERMISSION :: "8 word" where "eff_PERMISSION = push_bit 5 1"

definition eff_BARRIER :: "8 word" where
  "eff_BARRIER = eff_WRITE OR eff_APPEND OR eff_PROCESS OR eff_PERMISSION"

lemmas eff_flags = eff_READ_def eff_WRITE_def eff_APPEND_def eff_NETWORK_def eff_PROCESS_def
  eff_PERMISSION_def

definition effects_read :: tool_effects where "effects_read = \<lparr>bits = eff_READ\<rparr>"
definition effects_write :: tool_effects where "effects_write = \<lparr>bits = eff_WRITE\<rparr>"
definition effects_append :: tool_effects where "effects_append = \<lparr>bits = eff_APPEND\<rparr>"
definition effects_network :: tool_effects where "effects_network = \<lparr>bits = eff_NETWORK\<rparr>"
definition effects_process :: tool_effects where "effects_process = \<lparr>bits = eff_PROCESS\<rparr>"
definition effects_permission :: tool_effects where "effects_permission = \<lparr>bits = eff_PERMISSION\<rparr>"

definition effects_union :: "tool_effects \<Rightarrow> tool_effects \<Rightarrow> tool_effects" where
  "effects_union a b = \<lparr>bits = bits a OR bits b\<rparr>"

definition reads :: "tool_effects \<Rightarrow> bool" where
  "reads e = (bits e AND eff_READ \<noteq> 0)"

definition writes :: "tool_effects \<Rightarrow> bool" where
  "writes e = (bits e AND eff_WRITE \<noteq> 0)"

definition appends :: "tool_effects \<Rightarrow> bool" where
  "appends e = (bits e AND eff_APPEND \<noteq> 0)"

definition networks :: "tool_effects \<Rightarrow> bool" where
  "networks e = (bits e AND eff_NETWORK \<noteq> 0)"

definition processes :: "tool_effects \<Rightarrow> bool" where
  "processes e = (bits e AND eff_PROCESS \<noteq> 0)"

definition changes_permissions :: "tool_effects \<Rightarrow> bool" where
  "changes_permissions e = (bits e AND eff_PERMISSION \<noteq> 0)"

definition effect_labels :: "tool_effects \<Rightarrow> string list" where
  "effect_labels e =
     (if reads e then [''read''] else []) @
     (if writes e then [''write''] else []) @
     (if appends e then [''append''] else []) @
     (if networks e then [''network''] else []) @
     (if processes e then [''process''] else []) @
     (if changes_permissions e then [''permission''] else [])"

definition parallel_safe :: "tool_effects \<Rightarrow> bool" where
  "parallel_safe e = (bits e \<noteq> 0 \<and> bits e AND eff_BARRIER = 0)"

definition compatible_with :: "tool_effects \<Rightarrow> tool_effects \<Rightarrow> bool" where
  "compatible_with a b = (parallel_safe a \<and> parallel_safe b)"

section \<open>Effect sets as sets of flags\<close>

named_theorems effect_bits "each test of an effect set as a test of one bit"

lemma flag_bit: "((x :: 'a::len word) AND push_bit n 1 = 0) = (\<not> bit x n)"
  by (simp add: push_bit_of_1 and_exp_eq_0_iff_not_bit)

lemma reads_bit [effect_bits]: "reads e = bit (bits e) 0"
  and writes_bit [effect_bits]: "writes e = bit (bits e) 1"
  and appends_bit [effect_bits]: "appends e = bit (bits e) 2"
  and networks_bit [effect_bits]: "networks e = bit (bits e) 3"
  and processes_bit [effect_bits]: "processes e = bit (bits e) 4"
  and changes_permissions_bit [effect_bits]: "changes_permissions e = bit (bits e) 5"
  unfolding reads_def writes_def appends_def networks_def processes_def
    changes_permissions_def eff_flags flag_bit by simp_all

lemma and_or_eq_0: "(x :: 'a::len word) AND (y OR z) = 0 \<longleftrightarrow> x AND y = 0 \<and> x AND z = 0"
  by (simp add: bit.conj_disj_distrib or_eq_0_iff)

lemma parallel_safe_iff:
  "parallel_safe e \<longleftrightarrow>
     bits e \<noteq> 0 \<and> \<not> writes e \<and> \<not> appends e \<and> \<not> processes e \<and> \<not> changes_permissions e"
  by (auto simp: parallel_safe_def eff_BARRIER_def and_or_eq_0 writes_def appends_def
      processes_def changes_permissions_def)

lemma effects_union_flags [simp]:
  "reads (effects_union a b) \<longleftrightarrow> reads a \<or> reads b"
  "writes (effects_union a b) \<longleftrightarrow> writes a \<or> writes b"
  "appends (effects_union a b) \<longleftrightarrow> appends a \<or> appends b"
  "networks (effects_union a b) \<longleftrightarrow> networks a \<or> networks b"
  "processes (effects_union a b) \<longleftrightarrow> processes a \<or> processes b"
  "changes_permissions (effects_union a b) \<longleftrightarrow> changes_permissions a \<or> changes_permissions b"
  by (simp_all add: effect_bits effects_union_def bit_or_iff)

lemma effects_union_parallel_safe:
  "parallel_safe a \<Longrightarrow> parallel_safe b \<Longrightarrow> parallel_safe (effects_union a b)"
  by (auto simp: parallel_safe_iff) (simp add: effects_union_def or_eq_0_iff)

section \<open>The batch planner\<close>

record tool_effect_batch =
  batch_start :: usize
  batch_end :: usize

text \<open>
  The loop of \<open>plan_tool_effect_batches\<close>: \<open>start\<close> and \<open>active\<close> are the loop's variables, \<open>index\<close>
  the position of the candidate; after the loop the last batch ends at the number of calls.
\<close>

fun plan_loop ::
  "tool_effects list \<Rightarrow> usize \<Rightarrow> usize \<Rightarrow> usize \<Rightarrow> tool_effects \<Rightarrow> tool_effect_batch list" where
  "plan_loop [] index len start active = [\<lparr>batch_start = start, batch_end = len\<rparr>]"
| "plan_loop (candidate # rest) index len start active =
     (if compatible_with active candidate
      then plan_loop rest (index + 1) len start (effects_union active candidate)
      else \<lparr>batch_start = start, batch_end = index\<rparr>
             # plan_loop rest (index + 1) len index candidate)"

definition plan_tool_effect_batches :: "tool_effects list \<Rightarrow> tool_effect_batch list" where
  "plan_tool_effect_batches effects =
     (case effects of
        [] \<Rightarrow> []
      | first # remaining \<Rightarrow> plan_loop remaining 1 (length effects) 0 first)"

definition combined_tool_effects :: "tool_effects list \<Rightarrow> tool_effects option" where
  "combined_tool_effects effects =
     (case effects of [] \<Rightarrow> None | e # es \<Rightarrow> Some (fold (\<lambda>x acc. effects_union acc x) es e))"

definition tool_effect_barrier_reason :: "tool_effects \<Rightarrow> string option" where
  "tool_effect_barrier_reason e =
     (if parallel_safe e then None
      else (case (writes e, appends e, processes e) of
          (True, True, True) \<Rightarrow> Some ''write_append_process_barrier''
        | (True, True, False) \<Rightarrow> Some ''write_append_barrier''
        | (True, False, True) \<Rightarrow> Some ''write_process_barrier''
        | (False, True, True) \<Rightarrow> Some ''append_process_barrier''
        | (True, False, False) \<Rightarrow> Some ''write_barrier''
        | (False, True, False) \<Rightarrow> Some ''append_barrier''
        | (False, False, True) \<Rightarrow> Some ''process_barrier''
        | (False, False, False) \<Rightarrow> Some ''undeclared_effects_barrier''))"

record batch_evidence =
  ev_start :: usize
  ev_end :: usize
  ev_len :: usize
  ev_combined_effects :: "string list"
  ev_parallel_safe :: bool
  ev_barrier_reason :: "string option"

text \<open>A slice of a vector by \<open>get(start..end)\<close>: \<open>None\<close> when the range is out of bounds.\<close>

definition get_range :: "'a list \<Rightarrow> usize \<Rightarrow> usize \<Rightarrow> 'a list option" where
  "get_range xs i j = (if i \<le> j \<and> j \<le> length xs then Some (take (j - i) (drop i xs)) else None)"

definition tool_effect_batch_plan_evidence :: "tool_effects list \<Rightarrow> batch_evidence list" where
  "tool_effect_batch_plan_evidence effects =
     map (\<lambda>b.
       let combined = (case Option.bind (get_range effects (batch_start b) (batch_end b))
                               combined_tool_effects of
                         None \<Rightarrow> effects_read | Some c \<Rightarrow> c)
       in \<lparr>ev_start = batch_start b, ev_end = batch_end b,
           ev_len = batch_end b - batch_start b,
           ev_combined_effects = effect_labels combined,
           ev_parallel_safe = parallel_safe combined,
           ev_barrier_reason = tool_effect_barrier_reason combined\<rparr>)
     (plan_tool_effect_batches effects)"

section \<open>What the planner guarantees\<close>

text \<open>The batches cover a range of positions without gap or overlap, in order.\<close>

fun contiguous_from :: "usize \<Rightarrow> tool_effect_batch list \<Rightarrow> usize \<Rightarrow> bool" where
  "contiguous_from i [] j = (i = j)"
| "contiguous_from i (b # bs) j =
     (batch_start b = i \<and> i < batch_end b \<and> contiguous_from (batch_end b) bs j)"

definition batch_slice :: "'a list \<Rightarrow> tool_effect_batch \<Rightarrow> 'a list" where
  "batch_slice xs b = take (batch_end b - batch_start b) (drop (batch_start b) xs)"

lemma plan_loop_contiguous:
  "start < index \<Longrightarrow> len = index + length rest \<Longrightarrow>
     contiguous_from start (plan_loop rest index len start active) len"
  by (induction rest index len start active rule: plan_loop.induct) auto

text \<open>
  The loop's invariant about the open batch: everything from \<open>start\<close> to \<open>index\<close> is one call, or
  all of it and the accumulated effect set are safe to run in parallel.
\<close>

definition open_batch_ok :: "tool_effects list \<Rightarrow> usize \<Rightarrow> usize \<Rightarrow> tool_effects \<Rightarrow> bool" where
  "open_batch_ok effects start index active \<longleftrightarrow>
     start < index \<and> index \<le> length effects \<and>
     (index = Suc start \<and> active = effects ! start \<or>
      parallel_safe active \<and> (\<forall>k. start \<le> k \<and> k < index \<longrightarrow> parallel_safe (effects ! k)))"

definition batch_ok :: "tool_effects list \<Rightarrow> tool_effect_batch \<Rightarrow> bool" where
  "batch_ok effects b \<longleftrightarrow>
     batch_end b = Suc (batch_start b) \<or>
     (\<forall>k. batch_start b \<le> k \<and> k < batch_end b \<longrightarrow> parallel_safe (effects ! k))"

lemma open_batch_ok_extend:
  assumes "open_batch_ok effects start index active" and "index < length effects"
    and "compatible_with active (effects ! index)"
  shows "open_batch_ok effects start (Suc index) (effects_union active (effects ! index))"
proof -
  from assms(3) have "parallel_safe active" and "parallel_safe (effects ! index)"
    by (auto simp: compatible_with_def)
  with assms(1,2) show ?thesis
    by (auto simp: open_batch_ok_def effects_union_parallel_safe less_Suc_eq)
qed

lemma open_batch_ok_closed:
  "open_batch_ok effects start index active \<Longrightarrow>
     batch_ok effects \<lparr>batch_start = start, batch_end = index\<rparr>"
  by (auto simp: open_batch_ok_def batch_ok_def)

lemma open_batch_ok_single:
  "i < length effects \<Longrightarrow> open_batch_ok effects i (Suc i) (effects ! i)"
  by (simp add: open_batch_ok_def)

lemma plan_loop_batches_ok:
  assumes "open_batch_ok effects start index active" and "rest = drop index effects"
    and "len = length effects"
  shows "\<forall>b \<in> set (plan_loop rest index len start active). batch_ok effects b"
  using assms
proof (induction rest index len start active rule: plan_loop.induct)
  case (1 index len start active)
  then have "index = len" by (auto simp: open_batch_ok_def)
  with 1 show ?case by (auto dest: open_batch_ok_closed)
next
  case (2 candidate rest index len start active)
  have in_range: "index < length effects"
    using "2.prems"(2) by (metis drop_eq_Nil linorder_not_le list.distinct(1))
  then have here: "effects ! index = candidate" and later: "rest = drop (index + 1) effects"
    using "2.prems"(2) Cons_nth_drop_Suc [OF in_range] by (metis list.sel Suc_eq_plus1)+
  show ?case
  proof (cases "compatible_with active candidate")
    case True
    then have "open_batch_ok effects start (index + 1) (effects_union active candidate)"
      using "2.prems"(1) in_range here open_batch_ok_extend by fastforce
    with True "2.IH"(1) later "2.prems"(3) show ?thesis by simp
  next
    case False
    have "open_batch_ok effects index (index + 1) candidate"
      using in_range here open_batch_ok_single by fastforce
    then have "\<forall>b \<in> set (plan_loop rest (index + 1) len index candidate). batch_ok effects b"
      using False "2.IH"(2) later "2.prems"(3) by blast
    with False open_batch_ok_closed [OF "2.prems"(1)] show ?thesis by simp
  qed
qed

lemma plan_batches_ok:
  "b \<in> set (plan_tool_effect_batches effects) \<Longrightarrow> batch_ok effects b"
proof (cases effects)
  case Nil
  then show "b \<in> set (plan_tool_effect_batches effects) \<Longrightarrow> batch_ok effects b"
    by (simp add: plan_tool_effect_batches_def)
next
  case (Cons e es)
  assume b: "b \<in> set (plan_tool_effect_batches effects)"
  have "open_batch_ok effects 0 1 e" using Cons by (simp add: open_batch_ok_def)
  then have "\<forall>b \<in> set (plan_loop es 1 (length effects) 0 e). batch_ok effects b"
    by (rule plan_loop_batches_ok) (simp_all add: Cons)
  with b Cons show ?thesis by (simp add: plan_tool_effect_batches_def)
qed

lemma contiguous_le: "contiguous_from i bs j \<Longrightarrow> i \<le> j"
  by (induction i bs j rule: contiguous_from.induct) auto

lemma contiguous_bounds:
  "contiguous_from i bs j \<Longrightarrow> b \<in> set bs \<Longrightarrow> batch_start b < batch_end b \<and> batch_end b \<le> j"
  by (induction i bs j rule: contiguous_from.induct) (auto dest: contiguous_le)

text \<open>Concatenating the slices of contiguous batches gives the covered range back.\<close>

lemma contiguous_slices:
  "contiguous_from i bs (length xs) \<Longrightarrow> concat (map (batch_slice xs) bs) = drop i xs"
proof (induction i bs "length xs" rule: contiguous_from.induct)
  case (1 i)
  then show ?case by simp
next
  case (2 i b bs)
  then have IH: "concat (map (batch_slice xs) bs) = drop (batch_end b) xs"
    and b: "batch_start b = i" "i < batch_end b" by auto
  have "drop i xs = take (batch_end b - i) (drop i xs) @ drop (batch_end b - i) (drop i xs)"
    by (simp only: append_take_drop_id)
  also have "\<dots> = batch_slice xs b @ drop (batch_end b) xs"
    using b by (simp add: batch_slice_def add.commute)
  finally show ?case using IH by simp
qed

lemma plan_contiguous:
  "contiguous_from 0 (plan_tool_effect_batches effects) (length effects)"
  by (cases effects) (auto simp: plan_tool_effect_batches_def intro!: plan_loop_contiguous)

section \<open>Properties\<close>

text \<open>
  C4: The batch plan of a list of tool calls covers every call exactly once and in order (the
  slices of the batches concatenate to the list of calls), no batch is empty, and a batch with
  more than one call holds only calls whose effects are safe to run in parallel: a call that
  writes, appends, starts a process, changes permissions or declares nothing runs alone.
\<close>

theorem plan_batches_partition_and_isolate_barriers:
  fixes effects :: "tool_effects list" and calls :: "'c list"
  assumes "length calls = length effects"
  shows "concat (map (batch_slice calls) (plan_tool_effect_batches effects)) = calls \<and>
         (\<forall>b \<in> set (plan_tool_effect_batches effects).
           batch_start b < batch_end b \<and> batch_end b \<le> length effects \<and>
           (batch_end b = Suc (batch_start b) \<or>
            (\<forall>k. batch_start b \<le> k \<and> k < batch_end b \<longrightarrow> parallel_safe (effects ! k))))"
proof
  have cont: "contiguous_from 0 (plan_tool_effect_batches effects) (length calls)"
    using plan_contiguous assms by simp
  show "concat (map (batch_slice calls) (plan_tool_effect_batches effects)) = calls"
    using contiguous_slices [OF cont] by simp
  show "\<forall>b \<in> set (plan_tool_effect_batches effects).
           batch_start b < batch_end b \<and> batch_end b \<le> length effects \<and>
           (batch_end b = Suc (batch_start b) \<or>
            (\<forall>k. batch_start b \<le> k \<and> k < batch_end b \<longrightarrow> parallel_safe (effects ! k)))"
    using contiguous_bounds [OF plan_contiguous] plan_batches_ok unfolding batch_ok_def by blast
qed

theorem plan_batches_partition_witness:
  "concat (map (batch_slice [10, 20, 30 :: nat])
     (plan_tool_effect_batches [effects_read, effects_network, effects_process])) = [10, 20, 30]"
  using plan_batches_partition_and_isolate_barriers
    [of "[10, 20, 30 :: nat]" "[effects_read, effects_network, effects_process]"] by simp

end
