(* ===== verification/Tool_Policy.thy ===== *)
theory Tool_Policy
  imports Tool_Effects
begin

text \<open>
  The permission policy that decides whether one tool call may run (\<open>src/src/tool_policy.rs\<close>):
  the permission modes, the normal form of shell commands, glob matching, the parser of rules,
  rule matching and the decision. The input of a call is a JSON value that only the third-party
  \<open>serde_json\<close> can read: it is a parameter of the model, the function that gives for a field
  name what \<open>input.get(name).and_then(Value::as_str)\<close> returns.
\<close>

section \<open>Modes and decisions\<close>

datatype permission_mode = DefaultMode | AcceptEdits | Plan | ReadOnly

fun mode_next :: "permission_mode \<Rightarrow> permission_mode" where
  "mode_next DefaultMode = AcceptEdits"
| "mode_next AcceptEdits = Plan"
| "mode_next Plan = ReadOnly"
| "mode_next ReadOnly = DefaultMode"

definition indicator_glyphs :: ustr where
  "indicator_glyphs = [9205, 9205]"

fun mode_indicator :: "permission_mode \<Rightarrow> ustr option" where
  "mode_indicator DefaultMode = None"
| "mode_indicator AcceptEdits = Some (indicator_glyphs @ lit '' accept edits on'')"
| "mode_indicator Plan = Some (indicator_glyphs @ lit '' plan mode on'')"
| "mode_indicator ReadOnly = Some (indicator_glyphs @ lit '' read-only on'')"

fun mode_display :: "permission_mode \<Rightarrow> ustr" where
  "mode_display DefaultMode = lit ''default''"
| "mode_display AcceptEdits = lit ''accept-edits''"
| "mode_display Plan = lit ''plan''"
| "mode_display ReadOnly = lit ''read-only''"

datatype decision = Allow | Deny (reason: ustr) | Ask

datatype rule_error = Empty ustr | Unterminated ustr | NoToolName ustr

datatype target_kind = Command | PathTarget

fun separator :: "target_kind \<Rightarrow> uchar option" where
  "separator Command = None"
| "separator PathTarget = Some 47"

section \<open>The text a rule is matched against\<close>

type_synonym json_input = "ustr \<Rightarrow> ustr option"

definition COMMAND_KEYS :: "ustr list" where "COMMAND_KEYS = [lit ''command'']"
definition PATH_KEYS :: "ustr list" where "PATH_KEYS = [lit ''path'', lit ''file_path'']"
definition URL_KEYS :: "ustr list" where "URL_KEYS = [lit ''url'']"
definition QUERY_KEYS :: "ustr list" where "QUERY_KEYS = [lit ''query'']"

lemmas key_defs = COMMAND_KEYS_def PATH_KEYS_def URL_KEYS_def QUERY_KEYS_def

fun string_field :: "json_input \<Rightarrow> ustr list \<Rightarrow> ustr option" where
  "string_field input [] = None"
| "string_field input (key # keys) =
     (case input key of Some v \<Rightarrow> Some v | None \<Rightarrow> string_field input keys)"

text \<open>
  \<open>normalize_command\<close>: the loop over the remaining characters, \<open>prev\<close> being
  \<open>previous_was_space\<close>. The helper \<open>strip_ifs\<close> is the loop's first test.
\<close>

definition strip_ifs :: "ustr \<Rightarrow> ustr option" where
  "strip_ifs s =
     (case strip_prefix (lit ''${ifs}'') s of
        Some rest \<Rightarrow> Some rest
      | None \<Rightarrow> strip_prefix (lit ''$ifs'') s)"

definition is_quote :: "uchar \<Rightarrow> bool" where
  "is_quote c = (c = 39 \<or> c = 34)"

lemma strip_ifs_shorter: "strip_ifs s = Some rest \<Longrightarrow> length rest < length s"
  by (auto simp: strip_ifs_def strip_prefix_Some_iff lit_def split: option.splits)

function normalize_loop :: "ustr \<Rightarrow> bool \<Rightarrow> ustr" where
  "normalize_loop s prev =
     (case s of [] \<Rightarrow> [] | c # cs \<Rightarrow>
        (case strip_ifs s of
           Some rest \<Rightarrow> (if prev then [] else [32]) @ normalize_loop rest True
         | None \<Rightarrow>
             if is_quote c then normalize_loop cs prev
             else if c = 92 then
               (case cs of
                  [] \<Rightarrow> 92 # normalize_loop [] False
                | n # rest \<Rightarrow>
                    if n = 10 \<or> n = 13 then normalize_loop rest prev
                    else if is_ascii_whitespace n
                      then (if prev then [] else [32]) @ normalize_loop rest True
                    else if is_quote n then normalize_loop rest prev
                    else n # normalize_loop rest False)
             else if is_ascii_whitespace c
               then (if prev then [] else [32]) @ normalize_loop cs True
             else c # normalize_loop cs False))"
  by pat_completeness auto
termination
  by (relation "measure (\<lambda>(s, prev). length s)") (auto dest: strip_ifs_shorter)

declare normalize_loop.simps [simp del]

definition normalize_command :: "ustr \<Rightarrow> ustr" where
  "normalize_command command = normalize_loop command False"

definition command_target :: "json_input \<Rightarrow> (target_kind \<times> ustr) option" where
  "command_target input =
     map_option (\<lambda>cmd. (Command, normalize_command (to_ascii_lowercase cmd)))
       (string_field input COMMAND_KEYS)"

definition path_target :: "json_input \<Rightarrow> (target_kind \<times> ustr) option" where
  "path_target input = map_option (\<lambda>p. (PathTarget, p)) (string_field input PATH_KEYS)"

definition match_target :: "ustr \<Rightarrow> json_input \<Rightarrow> (target_kind \<times> ustr) option" where
  "match_target tool_name input =
     (if tool_name = lit ''bash'' then command_target input
      else if tool_name \<in> set (map lit [''read'', ''edit'', ''write'', ''grep'', ''find'', ''ls'',
                                       ''hashline_edit''])
        then path_target input
      else if tool_name = lit ''web_fetch''
        then map_option (\<lambda>url. (PathTarget, url)) (string_field input URL_KEYS)
      else if tool_name = lit ''web_search''
        then map_option (\<lambda>q. (Command, to_ascii_lowercase q)) (string_field input QUERY_KEYS)
      else if tool_name = lit ''subagent'' \<or> tool_name = lit ''todo'' then None
      else (case command_target input of Some t \<Rightarrow> Some t | None \<Rightarrow> path_target input))"

section \<open>Glob matching\<close>

text \<open>
  \<open>glob_match\<close> recurses on the pattern; \<open>glob_scan\<close> is its loop over the text, which tries the
  rest of the pattern after each further character and stops at a separator unless the star is
  a double one. The character 42 is the star.
\<close>

fun glob_match :: "uchar list \<Rightarrow> uchar list \<Rightarrow> uchar option \<Rightarrow> bool"
  and glob_scan :: "uchar list \<Rightarrow> uchar list \<Rightarrow> bool \<Rightarrow> uchar option \<Rightarrow> bool" where
  "glob_match [] tx sep = (tx = [])"
| "glob_match (p # ps) tx sep =
     (if p = 42 then
        (let crosses = (ps \<noteq> [] \<and> hd ps = 42);
             rest = (if crosses then tl ps else ps)
         in glob_match rest tx sep \<or> glob_scan rest tx crosses sep)
      else (case tx of [] \<Rightarrow> False | t # ts \<Rightarrow> t = p \<and> glob_match ps ts sep))"
| "glob_scan rest [] crosses sep = False"
| "glob_scan rest (ch # tx) crosses sep =
     (if \<not> crosses \<and> Some ch = sep then False
      else glob_match rest tx sep \<or> glob_scan rest tx crosses sep)"

section \<open>Rules\<close>

record pattern =
  pat_prefix :: "ustr option"
  pat_glob :: "uchar list"

definition pattern_parse :: "ustr \<Rightarrow> pattern" where
  "pattern_parse raw =
     (case split_once 58 raw of
        Some (pre, glob) \<Rightarrow> \<lparr>pat_prefix = Some (to_ascii_lowercase (trim pre)), pat_glob = glob\<rparr>
      | None \<Rightarrow> \<lparr>pat_prefix = None, pat_glob = raw\<rparr>)"

definition pattern_matches :: "pattern \<Rightarrow> target_kind \<Rightarrow> ustr \<Rightarrow> bool" where
  "pattern_matches p kind target =
     (case pat_prefix p of
        None \<Rightarrow> glob_match (pat_glob p) target (separator kind)
      | Some pre \<Rightarrow>
          (case strip_prefix pre target of
             None \<Rightarrow> False
           | Some rest \<Rightarrow>
               if rest \<noteq> [] \<and> \<not> is_whitespace (hd rest) then False
               else glob_match (pat_glob p) (trim_start rest) (separator kind)))"

record rule =
  rule_tool :: ustr
  rule_pattern :: "pattern option"
  rule_source :: ustr

definition rule_parse :: "ustr \<Rightarrow> rule_error + rule" where
  "rule_parse raw =
     (let trimmed = trim raw in
      if trimmed = [] then Inl (Empty raw)
      else (case split_once 40 trimmed of
          None \<Rightarrow> Inr \<lparr>rule_tool = to_ascii_lowercase trimmed, rule_pattern = None,
                       rule_source = trimmed\<rparr>
        | Some (before, after) \<Rightarrow>
            if last trimmed \<noteq> 41 then Inl (Unterminated raw)
            else if trim before = [] then Inl (NoToolName raw)
            else Inr \<lparr>rule_tool = to_ascii_lowercase (trim before),
                      rule_pattern = Some (pattern_parse (butlast after)),
                      rule_source = trimmed\<rparr>))"

definition rule_matches ::
  "rule \<Rightarrow> ustr \<Rightarrow> (target_kind \<times> ustr) option \<Rightarrow> bool \<Rightarrow> bool" where
  "rule_matches r tool_name target fail_closed =
     (if rule_tool r \<noteq> tool_name then False
      else (case rule_pattern r of
          None \<Rightarrow> True
        | Some p \<Rightarrow>
            (case target of
               Some (kind, value) \<Rightarrow> pattern_matches p kind value
             | None \<Rightarrow> fail_closed)))"

fun collect_rules :: "ustr list \<Rightarrow> rule_error + rule list" where
  "collect_rules [] = Inr []"
| "collect_rules (r # rs) =
     (case rule_parse r of
        Inl e \<Rightarrow> Inl e
      | Inr rule \<Rightarrow> (case collect_rules rs of Inl e \<Rightarrow> Inl e | Inr rules \<Rightarrow> Inr (rule # rules)))"

definition parse_rules :: "ustr list option \<Rightarrow> rule_error + rule list" where
  "parse_rules raw = (case raw of None \<Rightarrow> Inr [] | Some rules \<Rightarrow> collect_rules rules)"

section \<open>The policy\<close>

record permissions_config =
  cfg_mode :: "permission_mode option"
  cfg_deny :: "ustr list option"
  cfg_allow :: "ustr list option"
  cfg_ask :: "ustr list option"

record tool_policy =
  pol_mode :: permission_mode
  pol_deny :: "rule list"
  pol_allow :: "rule list"
  pol_ask :: "rule list"

definition default_policy :: tool_policy where
  "default_policy = \<lparr>pol_mode = DefaultMode, pol_deny = [], pol_allow = [], pol_ask = []\<rparr>"

definition from_config :: "permissions_config option \<Rightarrow> rule_error + tool_policy" where
  "from_config config =
     (case config of
        None \<Rightarrow> Inr default_policy
      | Some c \<Rightarrow>
          (case parse_rules (cfg_deny c) of Inl e \<Rightarrow> Inl e | Inr deny \<Rightarrow>
          (case parse_rules (cfg_allow c) of Inl e \<Rightarrow> Inl e | Inr allow \<Rightarrow>
          (case parse_rules (cfg_ask c) of Inl e \<Rightarrow> Inl e | Inr ask \<Rightarrow>
             Inr \<lparr>pol_mode = (case cfg_mode c of None \<Rightarrow> DefaultMode | Some m \<Rightarrow> m),
                  pol_deny = deny, pol_allow = allow, pol_ask = ask\<rparr>))))"

definition set_mode :: "permission_mode \<Rightarrow> tool_policy \<Rightarrow> tool_policy" where
  "set_mode m p = p\<lparr>pol_mode := m\<rparr>"

definition allow_for_session :: "ustr \<Rightarrow> tool_policy \<Rightarrow> rule_error + tool_policy" where
  "allow_for_session raw p =
     (case rule_parse raw of Inl e \<Rightarrow> Inl e | Inr r \<Rightarrow> Inr (p\<lparr>pol_allow := pol_allow p @ [r]\<rparr>))"

definition denied_by_mode :: "permission_mode \<Rightarrow> ustr \<Rightarrow> ustr \<Rightarrow> decision" where
  "denied_by_mode mode tool_name what =
     Deny (mode_display mode @ lit '' mode does not allow `'' @ tool_name @ lit ''`, which '' @ what)"

definition mode_default :: "permission_mode \<Rightarrow> ustr \<Rightarrow> tool_effects \<Rightarrow> decision" where
  "mode_default mode tool_name effects =
     (if changes_permissions effects then
        (case mode of
           Plan \<Rightarrow> Ask
         | _ \<Rightarrow> denied_by_mode mode tool_name
                 (lit ''only applies while the session is in plan mode''))
      else if processes effects then
        (case mode of
           Plan \<Rightarrow> denied_by_mode mode tool_name (lit ''starts a process'')
         | ReadOnly \<Rightarrow> denied_by_mode mode tool_name (lit ''starts a process'')
         | _ \<Rightarrow> Ask)
      else if writes effects \<or> appends effects then
        (case mode of
           Plan \<Rightarrow> denied_by_mode mode tool_name (lit ''modifies files'')
         | ReadOnly \<Rightarrow> denied_by_mode mode tool_name (lit ''modifies files'')
         | DefaultMode \<Rightarrow> Ask
         | AcceptEdits \<Rightarrow> Allow)
      else if networks effects then
        (case mode of
           ReadOnly \<Rightarrow> denied_by_mode mode tool_name (lit ''performs network I/O'')
         | _ \<Rightarrow> Ask)
      else Allow)"

definition decide :: "tool_policy \<Rightarrow> ustr \<Rightarrow> tool_effects \<Rightarrow> json_input \<Rightarrow> decision" where
  "decide p name effects input =
     (let tool_name = to_ascii_lowercase name;
          target = match_target tool_name input
      in case find (\<lambda>r. rule_matches r tool_name target True) (pol_deny p) of
           Some r \<Rightarrow> Deny (lit ''denied by permission rule `'' @ rule_source r @ lit ''`'')
         | None \<Rightarrow>
             if \<exists>r \<in> set (pol_allow p). rule_matches r tool_name target False then Allow
             else if \<exists>r \<in> set (pol_ask p). rule_matches r tool_name target False then Ask
             else mode_default (pol_mode p) tool_name effects)"

section \<open>How settings files and flags are combined\<close>

text \<open>\<open>merge_permissions\<close> of \<open>config.rs\<close> and \<open>build_tool_policy\<close> of \<open>main.rs\<close>.\<close>

fun push_missing :: "'a list \<Rightarrow> 'a list \<Rightarrow> 'a list" where
  "push_missing merged [] = merged"
| "push_missing merged (r # rs) =
     push_missing (if r \<in> set merged then merged else merged @ [r]) rs"

fun merge_rule_list :: "ustr list option \<Rightarrow> ustr list option \<Rightarrow> ustr list option" where
  "merge_rule_list (Some base) (Some other) = Some (push_missing base other)"
| "merge_rule_list None other = other"
| "merge_rule_list base None = base"

fun merge_permissions ::
  "permissions_config option \<Rightarrow> permissions_config option \<Rightarrow> permissions_config option" where
  "merge_permissions (Some base) (Some other) = Some
     \<lparr>cfg_mode = (case cfg_mode other of None \<Rightarrow> cfg_mode base | Some m \<Rightarrow> Some m),
      cfg_deny = merge_rule_list (cfg_deny base) (cfg_deny other),
      cfg_allow = merge_rule_list (cfg_allow base) (cfg_allow other),
      cfg_ask = merge_rule_list (cfg_ask base) (cfg_ask other)\<rparr>"
| "merge_permissions None (Some other) = Some other"
| "merge_permissions (Some base) None = Some base"
| "merge_permissions None None = None"

datatype policy_build_error = UnknownMode ustr | BadRule rule_error

definition parse_mode :: "ustr \<Rightarrow> permission_mode option" where
  "parse_mode s =
     (if s = lit ''default'' then Some DefaultMode
      else if s = lit ''accept-edits'' then Some AcceptEdits
      else if s = lit ''plan'' then Some Plan
      else if s = lit ''read-only'' then Some ReadOnly
      else None)"

definition extend_rules :: "ustr list option \<Rightarrow> ustr list \<Rightarrow> ustr list option" where
  "extend_rules rules extra =
     (if extra = [] then rules
      else Some ((case rules of None \<Rightarrow> [] | Some rs \<Rightarrow> rs) @ extra))"

definition build_tool_policy ::
  "ustr option \<Rightarrow> ustr list \<Rightarrow> ustr list \<Rightarrow> permissions_config option
     \<Rightarrow> policy_build_error + tool_policy" where
  "build_tool_policy cli_mode cli_deny cli_allow config =
     (let permissions = (case config of
            None \<Rightarrow> \<lparr>cfg_mode = None, cfg_deny = None, cfg_allow = None, cfg_ask = None\<rparr>
          | Some c \<Rightarrow> c);
          finish = (\<lambda>c. case from_config (Some (c\<lparr>cfg_deny := extend_rules (cfg_deny c) cli_deny,
                                                 cfg_allow := extend_rules (cfg_allow c) cli_allow\<rparr>)) of
                          Inl e \<Rightarrow> Inl (BadRule e) | Inr p \<Rightarrow> Inr p)
      in case cli_mode of
           None \<Rightarrow> finish permissions
         | Some m \<Rightarrow> (case parse_mode m of
                        None \<Rightarrow> Inl (UnknownMode m)
                      | Some mode \<Rightarrow> finish (permissions\<lparr>cfg_mode := Some mode\<rparr>)))"

section \<open>Glob matching against its language\<close>

text \<open>
  The meaning of a pattern, independent of the matcher: a pattern is a sequence of tokens, a
  single star stands for any text without the separator, a double star for any text.
\<close>

datatype glob_token = Star | DoubleStar | Char uchar

fun glob_tokens :: "uchar list \<Rightarrow> glob_token list" where
  "glob_tokens [] = []"
| "glob_tokens (p # ps) =
     (if p = 42 then
        (if ps \<noteq> [] \<and> hd ps = 42 then DoubleStar # glob_tokens (tl ps) else Star # glob_tokens ps)
      else Char p # glob_tokens ps)"

fun glob_language :: "glob_token list \<Rightarrow> uchar option \<Rightarrow> uchar list set" where
  "glob_language [] sep = {[]}"
| "glob_language (Char c # ts) sep = {c # w | w. w \<in> glob_language ts sep}"
| "glob_language (Star # ts) sep =
     {u @ w | u w. (\<forall>c \<in> set u. Some c \<noteq> sep) \<and> w \<in> glob_language ts sep}"
| "glob_language (DoubleStar # ts) sep = {u @ w | u w. w \<in> glob_language ts sep}"

lemma glob_scan_iff:
  "glob_scan rest tx crosses sep \<longleftrightarrow>
     (\<exists>u w. tx = u @ w \<and> u \<noteq> [] \<and> (crosses \<or> (\<forall>c \<in> set u. Some c \<noteq> sep)) \<and>
            glob_match rest w sep)"
proof (induction tx)
  case Nil
  then show ?case by simp
next
  case (Cons ch tx)
  have split: "(\<exists>u w. ch # tx = u @ w \<and> u \<noteq> [] \<and> P u w) \<longleftrightarrow> (\<exists>u w. tx = u @ w \<and> P (ch # u) w)"
    for P by (auto simp: Cons_eq_append_conv)
  have head: "(\<exists>u w. tx = u @ w \<and> P u w) \<longleftrightarrow>
      P [] tx \<or> (\<exists>u w. tx = u @ w \<and> u \<noteq> [] \<and> P u w)" for P :: "uchar list \<Rightarrow> uchar list \<Rightarrow> bool"
    by (metis append_Nil)
  show ?case
    unfolding split
    by (subst head) (auto simp: Cons.IH)
qed

lemma glob_star_iff:
  "glob_match rest tx sep \<or> glob_scan rest tx crosses sep \<longleftrightarrow>
     (\<exists>u w. tx = u @ w \<and> (crosses \<or> (\<forall>c \<in> set u. Some c \<noteq> sep)) \<and> glob_match rest w sep)"
  unfolding glob_scan_iff by (metis append_Nil empty_iff empty_set)

lemma glob_match_language: "glob_match p tx sep \<longleftrightarrow> tx \<in> glob_language (glob_tokens p) sep"
proof (induction p arbitrary: tx rule: glob_tokens.induct)
  case 1
  then show ?case by simp
next
  case (2 p ps)
  show ?case
  proof (cases "p = 42")
    case True
    define crosses where "crosses = (ps \<noteq> [] \<and> hd ps = 42)"
    define rest where "rest = (if crosses then tl ps else ps)"
    have IH: "glob_match rest t sep \<longleftrightarrow> t \<in> glob_language (glob_tokens rest) sep" for t
      using "2.IH" True by (auto simp: rest_def crosses_def)
    have "glob_match (p # ps) tx sep \<longleftrightarrow>
        (\<exists>u w. tx = u @ w \<and> (crosses \<or> (\<forall>c \<in> set u. Some c \<noteq> sep)) \<and> glob_match rest w sep)"
      using True glob_star_iff [of rest tx sep crosses]
      by (simp add: crosses_def [symmetric] rest_def [symmetric] Let_def del: glob_scan.simps)
    moreover have "tx \<in> glob_language (glob_tokens (p # ps)) sep \<longleftrightarrow>
        (\<exists>u w. tx = u @ w \<and> (crosses \<or> (\<forall>c \<in> set u. Some c \<noteq> sep)) \<and>
               w \<in> glob_language (glob_tokens rest) sep)"
      using True by (auto simp: rest_def crosses_def)
    ultimately show ?thesis by (simp only: IH)
  next
    case False
    with 2 show ?thesis by (cases tx) auto
  qed
qed

lemma glob_match_any: "glob_match [42, 42] tx sep"
  and glob_match_star: "glob_match [42] tx None"
  by (simp_all add: glob_match_language)

section \<open>Shell commands in normal form\<close>

text \<open>
  In the normal form every run of white space is one space and no quote is left, so the word a
  rule is anchored at stands where the shell would see it.
\<close>

definition plain_char :: "uchar \<Rightarrow> bool" where
  "plain_char c \<longleftrightarrow> \<not> is_quote c \<and> (is_ascii_whitespace c \<longrightarrow> c = 32)"

fun no_double_space :: "ustr \<Rightarrow> bool" where
  "no_double_space (a # b # s) = (\<not> (a = 32 \<and> b = 32) \<and> no_double_space (b # s))"
| "no_double_space s = True"

definition normal_command :: "bool \<Rightarrow> ustr \<Rightarrow> bool" where
  "normal_command prev s \<longleftrightarrow>
     (\<forall>c \<in> set s. plain_char c) \<and> no_double_space s \<and> (prev \<and> s \<noteq> [] \<longrightarrow> hd s \<noteq> 32)"

lemma normal_command_space: "normal_command True s \<Longrightarrow> normal_command False (32 # s)"
  by (cases s) (auto simp: normal_command_def plain_char_def is_quote_def)

lemma normal_command_weaken: "normal_command True s \<Longrightarrow> normal_command prev s"
  by (auto simp: normal_command_def)

lemma normal_command_char:
  "normal_command False s \<Longrightarrow> \<not> is_quote c \<Longrightarrow> \<not> is_ascii_whitespace c \<Longrightarrow>
     normal_command prev (c # s)"
  by (cases s) (auto simp: normal_command_def plain_char_def is_ascii_whitespace_def)

lemma normal_command_sep:
  "normal_command True s \<Longrightarrow> normal_command prev ((if prev then [] else [32]) @ s)"
  by (cases prev) (auto intro: normal_command_space normal_command_weaken)

lemmas normal_command_intros = normal_command_sep normal_command_char normal_command_space
  normal_command_weaken

lemma normalize_loop_Nil [simp]: "normalize_loop [] prev = []"
  by (simp add: normalize_loop.simps)

lemmas normalize_loop_Cons = normalize_loop.simps [of "c # cs" for c cs, simplified]

lemma normalize_loop_normal: "normal_command prev (normalize_loop s prev)"
proof (induction s prev rule: normalize_loop.induct)
  case (1 s prev)
  show ?case
  proof (cases s)
    case Nil
    then show ?thesis by (simp add: normal_command_def)
  next
    case (Cons c cs)
    show ?thesis
    proof (cases "strip_ifs s")
      case (Some rest)
      then show ?thesis
        using Cons "1.IH"(9) [OF Cons Some] by (simp add: normalize_loop_Cons normal_command_space
            normal_command_weaken)
    next
      case None
      note IH = "1.IH" [OF Cons] and here = normalize_loop_Cons
      consider (quote) "is_quote c" | (escape) "c = 92" "\<not> is_quote c"
        | (space) "is_ascii_whitespace c" "c \<noteq> 92" "\<not> is_quote c"
        | (char) "\<not> is_ascii_whitespace c" "c \<noteq> 92" "\<not> is_quote c" by blast
      then show ?thesis
      proof cases
        case quote
        then show ?thesis using Cons None IH(1) [OF None] by (simp add: here)
      next
        case escape
        show ?thesis
        proof (cases cs)
          case Nil
          then show ?thesis
            using Cons None escape
            by (simp add: here normal_command_def plain_char_def
                is_ascii_whitespace_def)
        next
          case (Cons n rest)
          note IHe = IH(3,4,5,6) [OF None escape(2,1) Cons]
          show ?thesis
            using \<open>s = c # cs\<close> None escape Cons IHe
            by (auto simp: here intro: normal_command_intros)
        qed
      next
        case space
        then show ?thesis
          using Cons None IH(7) [OF None space(3,2,1)] normal_command_sep by (simp add: here)
      next
        case char
        then show ?thesis
          using Cons None IH(8) [OF None char(3,2,1)] normal_command_char by (simp add: here)
      qed
    qed
  qed
qed

text \<open>A word of plain characters followed by any spelling of a separator reads as itself.\<close>

definition word_char :: "uchar \<Rightarrow> bool" where
  "word_char c \<longleftrightarrow> \<not> is_quote c \<and> \<not> is_ascii_whitespace c \<and> c \<noteq> 92 \<and> c \<noteq> 36"

lemma strip_ifs_word: "word_char c \<Longrightarrow> strip_ifs (c # cs) = None"
  by (simp add: strip_ifs_def lit_def word_char_def)

lemma normalize_loop_word_char:
  "word_char c \<Longrightarrow> normalize_loop (c # cs) prev = c # normalize_loop cs False"
  by (subst normalize_loop.simps) (auto simp: strip_ifs_word, auto simp: word_char_def)

lemma normalize_loop_word:
  "\<forall>c \<in> set w. word_char c \<Longrightarrow> w \<noteq> [] \<Longrightarrow>
     normalize_loop (w @ s) prev = w @ normalize_loop s False"
proof (induction w arbitrary: prev)
  case Nil
  then show ?case by simp
next
  case (Cons c w)
  then show ?case
    by (cases "w = []") (auto simp: normalize_loop_word_char)
qed

definition shell_separators :: "ustr set" where
  "shell_separators = {[32], [9], [10], [12], [13], [92, 32], [92, 9], [92, 12], lit ''$ifs'', lit ''${ifs}''}"

lemma normalize_loop_separator:
  assumes "sep \<in> shell_separators"
  shows "normalize_loop (sep @ s) False = 32 # normalize_loop s True"
  using assms unfolding shell_separators_def
  by (auto simp: normalize_loop_Cons strip_ifs_def lit_def is_quote_def is_ascii_whitespace_def)

text \<open>
  Ways to spell a word: a character as it is, a character after a backslash, an opening or
  closing quote, a backslash that continues the line.
\<close>

datatype spelling = Plain uchar | Escaped uchar | Quoting uchar | Continued uchar

fun spelling_ok :: "spelling \<Rightarrow> bool" where
  "spelling_ok (Plain c) = word_char c"
| "spelling_ok (Escaped c) = (\<not> is_ascii_whitespace c \<and> \<not> is_quote c)"
| "spelling_ok (Quoting c) = is_quote c"
| "spelling_ok (Continued c) = (c = 10 \<or> c = 13)"

fun spelling_text :: "spelling list \<Rightarrow> ustr" where
  "spelling_text [] = []"
| "spelling_text (Plain c # ps) = c # spelling_text ps"
| "spelling_text (Escaped c # ps) = 92 # c # spelling_text ps"
| "spelling_text (Quoting c # ps) = c # spelling_text ps"
| "spelling_text (Continued c # ps) = 92 # c # spelling_text ps"

fun spelling_word :: "spelling list \<Rightarrow> ustr" where
  "spelling_word [] = []"
| "spelling_word (Plain c # ps) = c # spelling_word ps"
| "spelling_word (Escaped c # ps) = c # spelling_word ps"
| "spelling_word (Quoting c # ps) = spelling_word ps"
| "spelling_word (Continued c # ps) = spelling_word ps"

lemma normalize_loop_spelling:
  "\<forall>x \<in> set ps. spelling_ok x \<Longrightarrow>
     normalize_loop (spelling_text ps @ s) prev =
       spelling_word ps @ normalize_loop s (prev \<and> spelling_word ps = [])"
proof (induction ps arbitrary: prev)
  case Nil
  then show ?case by simp
next
  case (Cons x ps)
  have IH: "normalize_loop (spelling_text ps @ s) b =
      spelling_word ps @ normalize_loop s (b \<and> spelling_word ps = [])" for b
    using Cons by simp
  show ?case
  proof (cases x)
    case (Plain c)
    then show ?thesis using Cons.prems IH by (simp add: normalize_loop_word_char)
  next
    case (Escaped c)
    then show ?thesis
      using Cons.prems IH
      by (auto simp: normalize_loop_Cons strip_ifs_def lit_def is_quote_def is_ascii_whitespace_def)
  next
    case (Quoting c)
    then show ?thesis
      using Cons.prems IH by (auto simp: normalize_loop_Cons strip_ifs_def lit_def is_quote_def)
  next
    case (Continued c)
    then show ?thesis
      using Cons.prems IH by (auto simp: normalize_loop_Cons strip_ifs_def lit_def is_quote_def)
  qed
qed

lemma normalize_command_leading_separator:
  "sep \<in> shell_separators \<Longrightarrow> normalize_command (sep @ rest) = 32 # normalize_loop rest True"
  by (simp add: normalize_command_def normalize_loop_separator)

section \<open>Rules and decisions\<close>

lemma decide_deny_iff_rule:
  "(\<exists>r \<in> set (pol_deny p). rule_matches r (to_ascii_lowercase name)
       (match_target (to_ascii_lowercase name) input) True) \<Longrightarrow>
   \<exists>r \<in> set (pol_deny p). decide p name effects input =
       Deny (lit ''denied by permission rule `'' @ rule_source r @ lit ''`'')"
  by (auto simp: decide_def Let_def find_None_ball dest: find_SomeD' split: option.splits)

lemma decide_no_deny:
  assumes "\<forall>r \<in> set (pol_deny p). \<not> rule_matches r (to_ascii_lowercase name)
       (match_target (to_ascii_lowercase name) input) True"
  shows "decide p name effects input =
     (if \<exists>r \<in> set (pol_allow p). rule_matches r (to_ascii_lowercase name)
           (match_target (to_ascii_lowercase name) input) False then Allow
      else if \<exists>r \<in> set (pol_ask p). rule_matches r (to_ascii_lowercase name)
           (match_target (to_ascii_lowercase name) input) False then Ask
      else mode_default (pol_mode p) (to_ascii_lowercase name) effects)"
  using assms by (simp add: decide_def Let_def find_None_ball [THEN iffD2])

lemma rule_matches_fail_closed_mono:
  "rule_matches r tool target False \<Longrightarrow> rule_matches r tool target True"
  by (auto simp: rule_matches_def split: option.splits if_splits)

lemma mode_default_Allow_iff:
  "mode_default mode tool effects = Allow \<longleftrightarrow>
     \<not> changes_permissions effects \<and> \<not> processes effects \<and>
     ((writes effects \<or> appends effects) \<and> mode = AcceptEdits \<or>
      \<not> writes effects \<and> \<not> appends effects \<and> \<not> networks effects)"
  by (cases mode) (auto simp: mode_default_def denied_by_mode_def)

lemma rule_parse_not_empty:
  "rule_parse raw = Inr r \<Longrightarrow> rule_tool r \<noteq> []"
  by (auto simp: rule_parse_def Let_def to_ascii_lowercase_def split: if_splits option.splits)

lemma collect_rules_set:
  "collect_rules raws = Inr rules \<Longrightarrow>
     set rules = {r. \<exists>raw \<in> set raws. rule_parse raw = Inr r}"
  by (induction raws arbitrary: rules) (auto split: sum.splits)

lemma collect_rules_ok_iff:
  "(\<exists>rules. collect_rules raws = Inr rules) \<longleftrightarrow> (\<forall>raw \<in> set raws. \<exists>r. rule_parse raw = Inr r)"
proof (induction raws)
  case Nil
  then show ?case by simp
next
  case (Cons raw raws)
  then show ?case by (auto split: sum.splits)
qed

lemma set_push_missing: "set (push_missing base other) = set base \<union> set other"
  by (induction base other rule: push_missing.induct) auto

lemma push_missing_prefix: "\<exists>rest. push_missing base other = base @ rest"
proof (induction base other rule: push_missing.induct)
  case (1 merged)
  then show ?case by simp
next
  case (2 merged r rs)
  then show ?case by (cases "r \<in> set merged") (simp_all, metis append_assoc)
qed

text \<open>The raw rules a configuration lists under one heading, an absent list being empty.\<close>

definition raw_rules :: "ustr list option \<Rightarrow> ustr set" where
  "raw_rules rules = (case rules of None \<Rightarrow> {} | Some rs \<Rightarrow> set rs)"

lemma raw_rules_merge [simp]: "raw_rules (merge_rule_list a b) = raw_rules a \<union> raw_rules b"
  by (cases a; cases b) (auto simp: raw_rules_def set_push_missing)

lemma raw_rules_extend [simp]: "raw_rules (extend_rules a new) = raw_rules a \<union> set new"
  by (cases a) (auto simp: raw_rules_def extend_rules_def)

lemma parse_rules_set:
  "parse_rules raw = Inr rules \<Longrightarrow> set rules = {r. \<exists>x \<in> raw_rules raw. rule_parse x = Inr r}"
  by (auto simp: parse_rules_def raw_rules_def collect_rules_set split: option.splits)

lemma from_config_fields:
  assumes "from_config (Some c) = Inr p"
  shows "parse_rules (cfg_deny c) = Inr (pol_deny p)"
    and "parse_rules (cfg_allow c) = Inr (pol_allow p)"
    and "parse_rules (cfg_ask c) = Inr (pol_ask p)"
    and "pol_mode p = (case cfg_mode c of None \<Rightarrow> DefaultMode | Some m \<Rightarrow> m)"
  using assms by (auto simp: from_config_def split: sum.splits)

lemmas from_config_sets = from_config_fields(1,2,3) [THEN parse_rules_set]

section \<open>Words that rules are anchored at\<close>

text \<open>A command name as deny rules write it: lower case, nothing the shell or the rule syntax reads.\<close>

definition command_word :: "ustr \<Rightarrow> bool" where
  "command_word w \<longleftrightarrow>
     w \<noteq> [] \<and> (\<forall>c \<in> set w. word_char c \<and> \<not> is_whitespace c \<and> c \<noteq> 58 \<and> ascii_lower c = c)"

lemma command_word_trim: "command_word w \<Longrightarrow> trim w = w"
  by (rule trim_no_space) (auto simp: command_word_def)

lemma command_word_lower: "command_word w \<Longrightarrow> to_ascii_lowercase w = w"
  by (auto simp: command_word_def to_ascii_lowercase_def map_idI)

lemma pattern_parse_word:
  assumes "command_word w"
  shows "pattern_parse (w @ lit '':*'') = \<lparr>pat_prefix = Some w, pat_glob = [42]\<rparr>"
proof -
  have "58 \<notin> set w" using assms by (auto simp: command_word_def)
  then have "split_once 58 (w @ lit '':*'') = Some (w, [42])"
    by (simp add: lit_def)
  then show ?thesis
    using assms by (simp add: pattern_parse_def command_word_trim command_word_lower)
qed

lemma rule_parse_word:
  assumes "command_word w" and "tool \<noteq> []" and "40 \<notin> set tool" and "\<forall>c \<in> set tool. \<not> is_whitespace c"
  shows "rule_parse (tool @ lit ''('' @ w @ lit '':*)'') =
     Inr \<lparr>rule_tool = to_ascii_lowercase tool,
          rule_pattern = Some \<lparr>pat_prefix = Some w, pat_glob = [42]\<rparr>,
          rule_source = tool @ lit ''('' @ w @ lit '':*)''\<rparr>"
proof -
  let ?raw = "tool @ lit ''('' @ w @ lit '':*)''"
  have "hd ?raw \<in> set tool" using assms(2) by simp
  then have trim: "trim ?raw = ?raw"
    using assms by (intro trim_no_space) (auto simp: lit_def is_whitespace_def)
  have split: "split_once 40 ?raw = Some (tool, w @ lit '':*)'')"
    using assms(3) by (simp add: lit_def)
  have tool: "trim tool = tool"
    using assms(2,4) by (intro trim_no_space) auto
  have body: "butlast (w @ lit '':*)'') = w @ lit '':*''"
    by (simp add: lit_def butlast_append)
  have last: "last ?raw = 41"
    by (simp add: lit_def)
  show ?thesis
    unfolding rule_parse_def Let_def trim split
    using assms(2) by (simp add: last tool body pattern_parse_word [OF assms(1)] del: append_assoc)
qed

lemma word_pattern_matches_iff:
  "pattern_matches \<lparr>pat_prefix = Some w, pat_glob = [42]\<rparr> Command target \<longleftrightarrow>
     (\<exists>rest. target = w @ rest \<and> (rest = [] \<or> is_whitespace (hd rest)))"
proof (cases "strip_prefix w target")
  case None
  then have "\<nexists>rest. target = w @ rest" by auto
  with None show ?thesis by (simp add: pattern_matches_def)
next
  case (Some rest)
  then have "target = w @ rest" by (simp add: strip_prefix_Some_iff)
  then show ?thesis by (simp add: pattern_matches_def glob_match_star del: glob_match.simps)
qed

lemma bash_target:
  "input (lit ''command'') = Some cmd \<Longrightarrow>
     match_target (lit ''bash'') input = Some (Command, normalize_command (to_ascii_lowercase cmd))"
  by (simp add: match_target_def command_target_def COMMAND_KEYS_def)

text \<open>The rule \<open>Bash(w:*)\<close> as parsed, and the commands it covers.\<close>

lemma bash_word_rule:
  assumes "command_word w" and "rule_parse (lit ''Bash('' @ w @ lit '':*)'') = Inr r"
  shows "rule_tool r = lit ''bash''"
    and "rule_pattern r = Some \<lparr>pat_prefix = Some w, pat_glob = [42]\<rparr>"
proof -
  have "lit ''Bash('' = lit ''Bash'' @ lit ''(''" by (simp add: lit_def)
  then show "rule_tool r = lit ''bash''"
    and "rule_pattern r = Some \<lparr>pat_prefix = Some w, pat_glob = [42]\<rparr>"
    using rule_parse_word [OF assms(1), of "lit ''Bash''"] assms(2)
    by (auto simp: lit_def is_whitespace_def to_ascii_lowercase_def ascii_lower_def)
qed

lemma bash_word_rule_matches_iff:
  assumes "command_word w" and "rule_parse (lit ''Bash('' @ w @ lit '':*)'') = Inr r"
    and "input (lit ''command'') = Some cmd"
  shows "rule_matches r (lit ''bash'') (match_target (lit ''bash'') input) fail_closed \<longleftrightarrow>
     (\<exists>rest. normalize_command (to_ascii_lowercase cmd) = w @ rest \<and>
        (rest = [] \<or> is_whitespace (hd rest)))"
  by (simp add: rule_matches_def bash_word_rule [OF assms(1,2)] bash_target [of input cmd] assms(3)
      word_pattern_matches_iff)

lemma normalize_command_word_separator:
  assumes "command_word w" and "sep \<in> shell_separators"
  shows "normalize_command (w @ sep @ rest) = w @ 32 # normalize_loop rest True"
  using assms normalize_loop_word [of w "sep @ rest" False] normalize_loop_separator
  by (simp add: normalize_command_def command_word_def)

section \<open>Properties\<close>

text \<open>
  C17: The glob matcher accepts exactly the language of its pattern: a literal character matches
  itself, a single star any text without the separator, a double star any text.
\<close>

theorem glob_match_correct:
  "glob_match p tx sep \<longleftrightarrow> tx \<in> glob_language (glob_tokens p) sep"
  by (rule glob_match_language)

text \<open>
  The normal form of a shell command holds no quote, its only ASCII white space is the
  single space, and two spaces never follow each other, so every spelling of a separator is
  seen as one space by the rules.
\<close>

theorem normalize_command_normal_form:
  "(\<forall>c \<in> set (normalize_command cmd). \<not> is_quote c \<and> (is_ascii_whitespace c \<longrightarrow> c = 32)) \<and>
   no_double_space (normalize_command cmd)"
  using normalize_loop_normal [of False cmd]
  by (simp add: normalize_command_def normal_command_def plain_char_def)

theorem normalize_command_normal_form_witness:
  "normalize_command (lit ''rm${ifs}-rf   /'') = lit ''rm -rf /'' \<and>
   no_double_space (normalize_command (lit ''rm${ifs}-rf   /''))"
  using normalize_command_normal_form [of "lit ''rm${ifs}-rf   /''"]
  by (simp add: normalize_command_def normalize_loop_Cons strip_ifs_def lit_def is_quote_def
      is_ascii_whitespace_def)

text \<open>
  C18: A deny rule \<open>Bash(w:*)\<close> of the policy refuses a command that starts with the word \<open>w\<close> and
  either ends there or goes on with a separator, whatever follows, and whatever other rules,
  mode and effects are in force. The word may be in any case and spelled with quotes around or
  inside it, backslashes before its characters, and continued lines; the separators are a
  space, tab, newline, form feed or carriage return, an escaped space, tab or form feed,
  \<open>$IFS\<close> and \<open>${IFS}\<close>. No other spelling is claimed: a command that starts with white space, with
  another word, or in which \<open>w\<close> is followed by a redirection or another expansion such as
  \<open>${IFS:0:1}\<close> is not covered.
\<close>

theorem deny_rule_catches_listed_spellings:
  assumes "command_word w"
    and "rule_parse (lit ''Bash('' @ w @ lit '':*)'') = Inr r" and "r \<in> set (pol_deny p)"
    and "to_ascii_lowercase name = lit ''bash''"
    and "input (lit ''command'') = Some cmd"
    and "to_ascii_lowercase cmd = spelling_text ps @ tail"
    and "\<forall>x \<in> set ps. spelling_ok x" and "spelling_word ps = w"
    and "tail = [] \<or> (\<exists>sep \<in> shell_separators. \<exists>rest. tail = sep @ rest)"
  shows "\<exists>why. decide p name effects input = Deny why"
proof -
  have "w \<noteq> []" using assms(1) by (simp add: command_word_def)
  then have "normalize_command (to_ascii_lowercase cmd) = w @ normalize_loop tail False"
    using normalize_loop_spelling [OF assms(7), of tail False] assms(6,8)
    by (simp add: normalize_command_def)
  moreover have "normalize_loop tail False = [] \<or> is_whitespace (hd (normalize_loop tail False))"
    using assms(9) by (auto simp: normalize_loop_separator is_whitespace_def)
  ultimately have "rule_matches r (lit ''bash'') (match_target (lit ''bash'') input) True"
    using bash_word_rule_matches_iff [OF assms(1,2), of input cmd] assms(5) by blast
  then show ?thesis
    using decide_deny_iff_rule [of p name input effects] assms(3,4) by auto
qed

theorem deny_rule_catches_listed_spellings_witness:
  "\<exists>r why. rule_parse (lit ''Bash(rm:*)'') = Inr r \<and>
     decide (default_policy\<lparr>pol_deny := [r]\<rparr>) (lit ''Bash'') effects_process
       ((\<lambda>_. None)(lit ''command'' \<mapsto> [34] @ lit ''R'' @ [34, 92] @ lit ''m${IFS}-rf /'')) = Deny why"
proof -
  have w: "command_word (lit ''rm'')"
    by (simp add: command_word_def word_char_def is_quote_def rust_text)
  obtain r where r: "rule_parse (lit ''Bash('' @ lit ''rm'' @ lit '':*)'') = Inr r"
    using rule_parse_word [OF w, of "lit ''Bash''"]
    by (auto simp: lit_def is_whitespace_def)
  let ?ps = "[Quoting 34, Plain 114, Quoting 34, Escaped 109]"
  have "\<exists>why. decide (default_policy\<lparr>pol_deny := [r]\<rparr>) (lit ''Bash'') effects_process
       ((\<lambda>_. None)(lit ''command'' \<mapsto> [34] @ lit ''R'' @ [34, 92] @ lit ''m${IFS}-rf /'')) = Deny why"
    by (rule deny_rule_catches_listed_spellings
          [OF w r, where ps = ?ps and tail = "lit ''${ifs}'' @ lit ''-rf /''"])
      (auto simp: shell_separators_def rust_text word_char_def is_quote_def)
  with r show ?thesis by (auto simp: lit_def)
qed

text \<open>
  In plan and read-only mode a call that writes, appends or starts a process is allowed only
  when an explicit allow rule matches it and no deny rule does; and in every mode a call that
  starts a process without a matching allow rule is never run without being asked for.
\<close>

theorem restricted_modes_need_an_allow_rule:
  assumes "decide p name effects input = Allow"
    and "processes effects \<or>
         (pol_mode p = Plan \<or> pol_mode p = ReadOnly) \<and> (writes effects \<or> appends effects)"
  shows "(\<exists>r \<in> set (pol_allow p). rule_matches r (to_ascii_lowercase name)
            (match_target (to_ascii_lowercase name) input) False) \<and>
         (\<forall>r \<in> set (pol_deny p). \<not> rule_matches r (to_ascii_lowercase name)
            (match_target (to_ascii_lowercase name) input) True)"
proof -
  have no_deny: "\<forall>r \<in> set (pol_deny p). \<not> rule_matches r (to_ascii_lowercase name)
            (match_target (to_ascii_lowercase name) input) True"
    using assms(1) decide_deny_iff_rule [of p name input effects] by fastforce
  moreover have "mode_default (pol_mode p) (to_ascii_lowercase name) effects \<noteq> Allow"
    using assms(2) by (auto simp: mode_default_Allow_iff)
  ultimately show ?thesis
    using decide_no_deny [OF no_deny, of effects] assms(1) by (auto split: if_splits)
qed

theorem restricted_modes_witness:
  "\<exists>r \<in> set [\<lparr>rule_tool = lit ''bash'', rule_pattern = None, rule_source = lit ''bash''\<rparr>].
     rule_matches r (to_ascii_lowercase (lit ''bash''))
       (match_target (to_ascii_lowercase (lit ''bash'')) (\<lambda>_. None)) False"
  using restricted_modes_need_an_allow_rule
    [of "default_policy\<lparr>pol_mode := Plan, pol_allow :=
          [\<lparr>rule_tool = lit ''bash'', rule_pattern = None, rule_source = lit ''bash''\<rparr>]\<rparr>"
        "lit ''bash''" effects_process "\<lambda>_. None"]
  by (simp add: default_policy_def decide_def Let_def rule_matches_def rust_text
      processes_def effects_process_def)

text \<open>
  Merging a project's settings over the global ones keeps every deny rule of both: a call
  that the deny rules of either file refuse is refused by the policy of the merged settings.
\<close>

theorem merge_permissions_keeps_denials:
  assumes "from_config (Some base) = Inr pb"
    and "from_config (merge_permissions (Some base) (Some other)) = Inr pm"
    and "\<exists>r \<in> set (pol_deny pb). rule_matches r (to_ascii_lowercase name)
           (match_target (to_ascii_lowercase name) input) True"
  shows "\<exists>why. decide pm name effects input = Deny why"
proof -
  have "set (pol_deny pb) \<subseteq> set (pol_deny pm)"
    using from_config_sets(1) [OF assms(1)] from_config_sets(1) [OF assms(2) [unfolded merge_permissions.simps]]
    by auto
  then have "\<exists>r \<in> set (pol_deny pm). rule_matches r (to_ascii_lowercase name)
           (match_target (to_ascii_lowercase name) input) True"
    using assms(3) by blast
  then show ?thesis using decide_deny_iff_rule by blast
qed

theorem merge_permissions_keeps_denials_witness:
  "\<exists>pm why. from_config (merge_permissions
       (Some \<lparr>cfg_mode = None, cfg_deny = Some [lit ''bash''], cfg_allow = None, cfg_ask = None\<rparr>)
       (Some \<lparr>cfg_mode = Some AcceptEdits, cfg_deny = None, cfg_allow = Some [lit ''bash''], cfg_ask = None\<rparr>))
       = Inr pm \<and> decide pm (lit ''bash'') effects_process (\<lambda>_. None) = Deny why"
proof -
  let ?base = "\<lparr>cfg_mode = None, cfg_deny = Some [lit ''bash''], cfg_allow = None, cfg_ask = None\<rparr>"
  let ?other = "\<lparr>cfg_mode = Some AcceptEdits, cfg_deny = None, cfg_allow = Some [lit ''bash''], cfg_ask = None\<rparr>"
  let ?r = "\<lparr>rule_tool = lit ''bash'', rule_pattern = None, rule_source = lit ''bash''\<rparr>"
  have parse: "rule_parse (lit ''bash'') = Inr ?r"
    by (simp add: rule_parse_def Let_def rust_text)
  obtain pm where pm: "from_config (merge_permissions (Some ?base) (Some ?other)) = Inr pm"
    by (simp add: from_config_def parse_rules_def parse)
  have "\<exists>why. decide pm (lit ''bash'') effects_process (\<lambda>_. None) = Deny why"
    by (rule merge_permissions_keeps_denials [OF _ pm, where pb = "default_policy\<lparr>pol_deny := [?r]\<rparr>"])
      (simp_all add: from_config_def parse_rules_def parse rule_matches_def default_policy_def,
       code_simp)
  with pm show ?thesis by blast
qed

end
