(* ===== verification/Tool_Gate.thy ===== *)
theory Tool_Gate
  imports Tool_Policy
begin

text \<open>
  The gate every tool call passes in the agent loop (\<open>src/src/agent.rs\<close>): the doom-loop guard
  over the ring of recent calls, the permission policy, the approval handler, the shell hooks
  and the extension hooks, in the order \<open>execute_tool\<close> calls them, with the session grants
  that answering an approval installs (\<open>src/src/interactive/state.rs\<close>, \<open>keybindings.rs\<close>).
  What lies outside the repository or is another process is a parameter: the fingerprints of
  calls and results (std's \<open>DefaultHasher\<close> over serialized JSON), the answers of the approval
  handler, of hooks and of extensions, and the tool itself.
\<close>

section \<open>The doom-loop ring\<close>

record recent_tool_call =
  rc_call :: u64
  rc_result :: u64
  rc_is_error :: bool
  rc_denied :: bool

definition DOOM_LOOP_RING :: usize where "DOOM_LOOP_RING = 32"
definition DOOM_LOOP_N :: usize where "DOOM_LOOP_N = 3"

text \<open>The ring update of \<open>record_tool_result\<close>.\<close>

definition ring_push :: "recent_tool_call \<Rightarrow> recent_tool_call list \<Rightarrow> recent_tool_call list" where
  "ring_push e ring = (if length ring \<ge> DOOM_LOOP_RING then tl ring else ring) @ [e]"

definition doom_loop_message :: "ustr \<Rightarrow> ustr" where
  "doom_loop_message tool_name =
     lit ''the same `'' @ tool_name @
     lit ''` call with identical arguments has failed 2 times in a row with the same result; do not repeat it '' @
     [8212] @ lit '' change the arguments or the approach, or ask the user''"

definition doom_loop_denial :: "recent_tool_call list \<Rightarrow> u64 \<Rightarrow> ustr \<Rightarrow> ustr option" where
  "doom_loop_denial ring call tool_name =
     (case take (DOOM_LOOP_N - 1) (filter (\<lambda>e. rc_call e = call \<and> \<not> rc_denied e) (rev ring)) of
        latest # before # _ \<Rightarrow>
          if rc_is_error latest \<and> rc_is_error before \<and> rc_result latest = rc_result before
          then Some (doom_loop_message tool_name) else None
      | _ \<Rightarrow> None)"

section \<open>Approval\<close>

datatype approval_decision = ApprovalAllow | ApprovalDeny ustr

record tool_call =
  tc_name :: ustr
  tc_arguments :: json_input

record tool_output =
  out_content :: "ustr list"
  out_details :: "(ustr \<times> ustr) list option"
  out_is_error :: bool

definition TOOL_APPROVAL_DENIED_SCHEMA_V1 :: ustr where
  "TOOL_APPROVAL_DENIED_SCHEMA_V1 = lit ''pi.tool.approval_denied.v1''"

definition tool_approval_denied_output :: "ustr \<Rightarrow> tool_output" where
  "tool_approval_denied_output why =
     (let trimmed = trim why;
          r = (if trimmed = [] then lit ''tool approval denied'' else trimmed)
      in \<lparr>out_content = [lit ''Tool execution denied: '' @ r],
          out_details = Some [(lit ''schema'', TOOL_APPROVAL_DENIED_SCHEMA_V1),
                              (lit ''status'', lit ''denied''), (lit ''reason'', r)],
          out_is_error = True\<rparr>)"

text \<open>
  What the agent consults for one call. \<open>env_tools\<close> gives the declared effects of a registered
  tool; extensions and tools may fail, the error being the text they report.
\<close>

record tool_call_event_result =
  tcr_block :: bool
  tcr_reason :: "ustr option"

record tool_result_event_result =
  trr_content :: "ustr list option"
  trr_details :: "(ustr \<times> ustr) list option"

record gate_env =
  env_policy :: "tool_policy option"
  env_approval :: "(tool_call \<Rightarrow> approval_decision) option"
  env_tools :: "ustr \<Rightarrow> tool_effects option"
  env_ring :: "recent_tool_call list"
  env_fingerprint :: "tool_call \<Rightarrow> u64"
  env_pre_hook :: "(tool_call \<Rightarrow> ustr option) option"
  env_ext_hook :: "(tool_call \<Rightarrow> ustr + tool_call_event_result option) option"
  env_fail_closed :: bool
  env_ext_result :: "tool_call \<Rightarrow> tool_output \<Rightarrow> bool \<Rightarrow> ustr + tool_result_event_result option"
  env_post_hook :: "(tool_call \<Rightarrow> tool_output \<Rightarrow> bool \<Rightarrow> ustr option) option"
  env_run :: "tool_call \<Rightarrow> ustr + tool_output"

definition policy_effects :: "gate_env \<Rightarrow> ustr \<Rightarrow> tool_effects" where
  "policy_effects env name =
     (case env_tools env name of None \<Rightarrow> effects_write | Some e \<Rightarrow> e)"

definition no_handler_reason :: ustr where
  "no_handler_reason =
     lit ''this tool call needs approval and no approval handler is installed''"

text \<open>The steps an execution takes outside the agent, in order.\<close>

datatype gate_step = AskedHandler | Approved | PreHookRun | ExtensionHookRun | ToolRun
  | ResultHookRun | PostHookRun

definition ask_handler :: "gate_env \<Rightarrow> tool_call \<Rightarrow> gate_step list \<times> tool_output option" where
  "ask_handler env call =
     (case env_approval env of
        None \<Rightarrow> ([], None)
      | Some approval \<Rightarrow>
          (case approval call of
             ApprovalAllow \<Rightarrow> ([AskedHandler, Approved], None)
           | ApprovalDeny why \<Rightarrow> ([AskedHandler], Some (tool_approval_denied_output why))))"

definition request_tool_approval ::
  "gate_env \<Rightarrow> tool_call \<Rightarrow> gate_step list \<times> tool_output option" where
  "request_tool_approval env call =
     (case doom_loop_denial (env_ring env) (env_fingerprint env call) (tc_name call) of
        Some why \<Rightarrow> ([], Some (tool_approval_denied_output why))
      | None \<Rightarrow>
          (case env_policy env of
             None \<Rightarrow> ask_handler env call
           | Some policy \<Rightarrow>
               (case decide policy (tc_name call) (policy_effects env (tc_name call))
                       (tc_arguments call) of
                  Allow \<Rightarrow> ([Approved], None)
                | Deny why \<Rightarrow> ([], Some (tool_approval_denied_output why))
                | Ask \<Rightarrow>
                    if env_approval env = None
                    then ([], Some (tool_approval_denied_output no_handler_reason))
                    else ask_handler env call)))"

definition run_pre_tool_use_hook ::
  "gate_env \<Rightarrow> tool_call \<Rightarrow> gate_step list \<times> tool_output option" where
  "run_pre_tool_use_hook env call =
     (case env_pre_hook env of
        None \<Rightarrow> ([], None)
      | Some hook \<Rightarrow>
          ([PreHookRun],
           map_option (\<lambda>why. \<lparr>out_content = [why],
               out_details = Some [(lit ''status'', lit ''blocked''),
                                   (lit ''source'', lit ''PreToolUse hook''), (lit ''reason'', why)],
               out_is_error = True\<rparr>) (hook call)))"

definition tool_call_blocked_output :: "ustr option \<Rightarrow> tool_output" where
  "tool_call_blocked_output why =
     (let message =
        (case map_option trim why of
           None \<Rightarrow> lit ''Tool execution was blocked by an extension''
         | Some trimmed \<Rightarrow>
             if trimmed = [] then lit ''Tool execution was blocked by an extension''
             else lit ''Tool execution blocked: '' @ trimmed)
      in \<lparr>out_content = [message], out_details = None, out_is_error = True\<rparr>)"

definition dispatch_tool_call_hook ::
  "(tool_call \<Rightarrow> ustr + tool_call_event_result option) \<Rightarrow> tool_call \<Rightarrow> bool \<Rightarrow> tool_output option" where
  "dispatch_tool_call_hook extensions call fail_closed_hooks =
     (case extensions call of
        Inr None \<Rightarrow> None
      | Inr (Some result) \<Rightarrow>
          if tcr_block result then Some (tool_call_blocked_output (tcr_reason result)) else None
      | Inl err \<Rightarrow>
          if fail_closed_hooks
          then Some (tool_call_blocked_output (Some (lit ''extension hook failed''))) else None)"

definition tool_not_found_output :: "ustr \<Rightarrow> tool_output" where
  "tool_not_found_output tool_name =
     \<lparr>out_content = [lit ''Error: Tool '' @ [39] @ tool_name @ [39] @ lit '' not found''],
      out_details = None, out_is_error = True\<rparr>"

definition execute_tool_without_hooks ::
  "gate_env \<Rightarrow> tool_call \<Rightarrow> gate_step list \<times> tool_output \<times> bool" where
  "execute_tool_without_hooks env call =
     (case env_tools env (tc_name call) of
        None \<Rightarrow> ([], tool_not_found_output (tc_name call), True)
      | Some _ \<Rightarrow>
          (case env_run env call of
             Inr output \<Rightarrow> ([ToolRun], output, out_is_error output)
           | Inl e \<Rightarrow>
               ([ToolRun],
                \<lparr>out_content = [lit ''Error: '' @ e], out_details = None, out_is_error = True\<rparr>, True)))"

definition apply_tool_result_hook ::
  "gate_env \<Rightarrow> tool_call \<Rightarrow> tool_output \<Rightarrow> bool \<Rightarrow> tool_output" where
  "apply_tool_result_hook env call output is_error =
     (case env_ext_result env call output is_error of
        Inr (Some result) \<Rightarrow>
          output\<lparr>out_content := (case trr_content result of None \<Rightarrow> out_content output | Some c \<Rightarrow> c),
                 out_details := (case trr_details result of None \<Rightarrow> out_details output | Some d \<Rightarrow> Some d)\<rparr>
      | Inr None \<Rightarrow> output
      | Inl err \<Rightarrow> output)"

definition run_post_tool_use_hook ::
  "gate_env \<Rightarrow> tool_call \<Rightarrow> tool_output \<Rightarrow> bool \<Rightarrow> gate_step list \<times> tool_output \<times> bool" where
  "run_post_tool_use_hook env call output is_error =
     (case env_post_hook env of
        None \<Rightarrow> ([], output, is_error)
      | Some hook \<Rightarrow>
          (case hook call output is_error of
             None \<Rightarrow> ([PostHookRun], output, is_error)
           | Some why \<Rightarrow> ([PostHookRun], output\<lparr>out_content := out_content output @ [why]\<rparr>, True)))"

text \<open>
  \<open>execute_tool\<close>: the four outcomes of its central \<open>if\<close>, then the extension's result hook and,
  on the paths that set \<open>tool_ran\<close>, the post hook. Returns the steps taken, the output and its
  error flag. \<open>tool_ran\<close> is set before the tool is looked up, so it is also true when
  \<open>execute_tool_without_hooks\<close> finds no tool of that name and runs nothing.
\<close>

definition run_or_block ::
  "gate_env \<Rightarrow> tool_call \<Rightarrow> tool_output option \<Rightarrow> tool_output option
     \<Rightarrow> gate_step list \<times> bool \<times> tool_output \<times> bool" where
  "run_or_block env call approval_denied hook_blocked =
     (case approval_denied of
        Some output \<Rightarrow> ([], False, output, True)
      | None \<Rightarrow>
          (case hook_blocked of
             Some output \<Rightarrow> ([], False, output, True)
           | None \<Rightarrow>
               (case env_ext_hook env of
                  None \<Rightarrow>
                    (let (steps, outcome) = execute_tool_without_hooks env call
                     in (steps, True, outcome))
                | Some extensions \<Rightarrow>
                    (case dispatch_tool_call_hook extensions call (env_fail_closed env) of
                       Some blocked_output \<Rightarrow> ([ExtensionHookRun], False, blocked_output, True)
                     | None \<Rightarrow>
                         (let (steps, outcome) = execute_tool_without_hooks env call
                          in (ExtensionHookRun # steps, True, outcome))))))"

definition execute_tool :: "gate_env \<Rightarrow> tool_call \<Rightarrow> gate_step list \<times> tool_output \<times> bool" where
  "execute_tool env call =
     (let (s1, approval_denied) = request_tool_approval env call;
          (s2, hook_blocked) =
            (if approval_denied \<noteq> None then ([], None) else run_pre_tool_use_hook env call);
          (s3, tool_ran, output, is_error) = run_or_block env call approval_denied hook_blocked;
          (s4, output') =
            (if env_ext_hook env = None then ([], output)
             else ([ResultHookRun], apply_tool_result_hook env call output is_error));
          (s5, output'', is_error') =
            (if tool_ran then run_post_tool_use_hook env call output' is_error
             else ([], output', is_error))
      in (s1 @ s2 @ s3 @ s4 @ s5, output'', is_error'))"

text \<open>How \<open>record_tool_result\<close> files an outcome in the ring; the result's hash is given.\<close>

definition is_denied_output :: "tool_output \<Rightarrow> bool" where
  "is_denied_output output =
     (case out_details output of
        None \<Rightarrow> False
      | Some details \<Rightarrow> map_of details (lit ''schema'') = Some TOOL_APPROVAL_DENIED_SCHEMA_V1)"

definition record_tool_result ::
  "gate_env \<Rightarrow> tool_call \<Rightarrow> tool_output \<Rightarrow> bool \<Rightarrow> u64 \<Rightarrow> gate_env" where
  "record_tool_result env call output is_error result_fingerprint =
     env\<lparr>env_ring := ring_push \<lparr>rc_call = env_fingerprint env call, rc_result = result_fingerprint,
            rc_is_error = is_error, rc_denied = is_denied_output output\<rparr> (env_ring env)\<rparr>"

text \<open>\<open>run_loop\<close> starts every prompt with an empty ring.\<close>

definition begin_prompt :: "gate_env \<Rightarrow> gate_env" where
  "begin_prompt env = env\<lparr>env_ring := []\<rparr>"

section \<open>Session grants\<close>

definition spawns_a_process :: "ustr \<Rightarrow> bool" where
  "spawns_a_process tool_name \<longleftrightarrow>
     to_ascii_lowercase tool_name = lit ''bash'' \<or> to_ascii_lowercase tool_name = lit ''shell''"

text \<open>\<open>split_whitespace().next()\<close>: the first maximal run of characters that are not white space.\<close>

definition first_word :: "ustr \<Rightarrow> ustr option" where
  "first_word s =
     (case takeWhile (\<lambda>c. \<not> is_whitespace c) (dropWhile is_whitespace s) of
        [] \<Rightarrow> None | w \<Rightarrow> Some w)"

text \<open>\<open>char::is_alphanumeric\<close> is a table of the standard library, given as a parameter.\<close>

definition session_rule_for :: "(uchar \<Rightarrow> bool) \<Rightarrow> ustr \<Rightarrow> json_input \<Rightarrow> ustr" where
  "session_rule_for is_alphanumeric tool_name arguments =
     (if \<not> spawns_a_process tool_name then tool_name
      else
        let command = (case arguments (lit ''command'') of None \<Rightarrow> [] | Some c \<Rightarrow> c) in
        case first_word command of
          None \<Rightarrow> tool_name
        | Some word \<Rightarrow>
            if \<forall>c \<in> set word. is_alphanumeric c \<or> c \<in> set (lit ''-_./'')
            then tool_name @ lit ''('' @ word @ lit '':*)'' else tool_name)"

datatype approval_action = Once | Session | DenyCall

text \<open>
  \<open>answer_tool_approval\<close>: the policy after the answer, the reply sent to the waiting call and
  whether the choice could not be remembered.
\<close>

definition answer_tool_approval ::
  "approval_action \<Rightarrow> ustr \<Rightarrow> tool_policy \<Rightarrow> tool_policy \<times> approval_decision \<times> rule_error option" where
  "answer_tool_approval action session_rule policy =
     (let (policy', err) =
            (if action = Session
             then (case allow_for_session session_rule policy of
                     Inl e \<Rightarrow> (policy, Some e) | Inr p \<Rightarrow> (p, None))
             else (policy, None));
          reply = (if action = DenyCall
                   then ApprovalDeny (lit ''the user rejected this tool call'') else ApprovalAllow)
      in (policy', reply, err))"

section \<open>What the gate relies on\<close>

text \<open>
  The contract between the gate and the permission policy: a denied call is refused, and a
  grant leaves denials as they are and never takes an allowance back. The lemmas hold for any
  sequence of grants, and the interpretation provides them for \<open>decide\<close>.
\<close>

fun apply_grants :: "('g \<Rightarrow> 'p \<Rightarrow> 'e + 'p) \<Rightarrow> 'p \<Rightarrow> 'g list \<Rightarrow> 'p" where
  "apply_grants grant p [] = p"
| "apply_grants grant p (g # gs) =
     apply_grants grant (case grant g p of Inl e \<Rightarrow> p | Inr p' \<Rightarrow> p') gs"

locale permission_policy =
  fixes decision_for :: "'p \<Rightarrow> 'c \<Rightarrow> decision"
    and denies :: "'p \<Rightarrow> 'c \<Rightarrow> bool"
    and grant :: "'g \<Rightarrow> 'p \<Rightarrow> 'e + 'p"
  assumes denied: "denies p c \<Longrightarrow> \<exists>why. decision_for p c = Deny why"
    and grant_denies: "grant g p = Inr p' \<Longrightarrow> denies p' c = denies p c"
    and grant_allows: "grant g p = Inr p' \<Longrightarrow> decision_for p c = Allow \<Longrightarrow> decision_for p' c = Allow"
begin

lemma grants_denies: "denies (apply_grants grant p gs) c = denies p c"
  by (induction gs arbitrary: p) (auto simp: grant_denies split: sum.splits)

lemma grants_denied: "denies p c \<Longrightarrow> \<exists>why. decision_for (apply_grants grant p gs) c = Deny why"
  by (rule denied) (simp add: grants_denies)

lemma grants_allows:
  "decision_for p c = Allow \<Longrightarrow> decision_for (apply_grants grant p gs) c = Allow"
  by (induction gs arbitrary: p) (auto simp: grant_allows split: sum.splits)

end

type_synonym policy_call = "ustr \<times> tool_effects \<times> json_input"

definition decide_call :: "tool_policy \<Rightarrow> policy_call \<Rightarrow> decision" where
  "decide_call p c = (case c of (name, effects, input) \<Rightarrow> decide p name effects input)"

definition denies_call :: "tool_policy \<Rightarrow> policy_call \<Rightarrow> bool" where
  "denies_call p c = (case c of (name, effects, input) \<Rightarrow>
     \<exists>r \<in> set (pol_deny p). rule_matches r (to_ascii_lowercase name)
       (match_target (to_ascii_lowercase name) input) True)"

interpretation tp: permission_policy decide_call denies_call allow_for_session
proof (unfold_locales, goal_cases)
  case (1 p c)
  then show ?case
    using decide_deny_iff_rule by (force simp: decide_call_def denies_call_def split: prod.splits)
next
  case (2 g p p' c)
  then show ?case by (auto simp: denies_call_def allow_for_session_def split: sum.splits)
next
  case (3 g p p' c)
  then show ?case
    by (auto simp: decide_call_def allow_for_session_def decide_def Let_def
        split: sum.splits prod.splits option.splits if_splits)
qed

section \<open>The doom-loop guard\<close>

definition failing :: "u64 \<Rightarrow> u64 \<Rightarrow> recent_tool_call \<Rightarrow> bool" where
  "failing call result e \<longleftrightarrow>
     rc_call e = call \<and> rc_result e = result \<and> rc_is_error e \<and> \<not> rc_denied e"

definition denied_entry :: "u64 \<Rightarrow> recent_tool_call \<Rightarrow> bool" where
  "denied_entry call e \<longleftrightarrow> rc_call e = call \<and> rc_denied e"

fun ring_pushes :: "recent_tool_call list \<Rightarrow> recent_tool_call list \<Rightarrow> recent_tool_call list" where
  "ring_pushes ring [] = ring"
| "ring_pushes ring (e # es) = ring_pushes (ring_push e ring) es"

text \<open>Pushing keeps the newest 32 entries of everything ever pushed.\<close>

lemma ring_push_last:
  "length ring \<le> DOOM_LOOP_RING \<Longrightarrow>
     ring_push e ring = drop (length ring + 1 - DOOM_LOOP_RING) (ring @ [e])"
  by (cases ring) (auto simp: ring_push_def DOOM_LOOP_RING_def not_le)

lemma ring_push_length: "length ring \<le> DOOM_LOOP_RING \<Longrightarrow> length (ring_push e ring) \<le> DOOM_LOOP_RING"
  by (auto simp: ring_push_def DOOM_LOOP_RING_def)

lemma ring_pushes_last:
  "length ring \<le> DOOM_LOOP_RING \<Longrightarrow>
     ring_pushes ring es = drop (length ring + length es - DOOM_LOOP_RING) (ring @ es)"
proof (induction es arbitrary: ring)
  case Nil
  then show ?case by simp
next
  case (Cons e es)
  let ?n = "length ring + 1 - DOOM_LOOP_RING"
  have "ring_pushes ring (e # es) = ring_pushes (drop ?n (ring @ [e])) es"
    using Cons.prems by (simp add: ring_push_last)
  also have "\<dots> = drop (length (drop ?n (ring @ [e])) + length es - DOOM_LOOP_RING)
                       (drop ?n (ring @ [e]) @ es)"
    using ring_push_length [OF Cons.prems, of e] Cons.prems
    by (intro Cons.IH) (simp add: ring_push_last)
  also have "drop ?n (ring @ [e]) @ es = drop ?n (ring @ e # es)"
    using Cons.prems by (simp add: DOOM_LOOP_RING_def)
  also have "drop (length (drop ?n (ring @ [e])) + length es - DOOM_LOOP_RING)
                   (drop ?n (ring @ e # es)) = drop (length ring + length (e # es) - DOOM_LOOP_RING) (ring @ e # es)"
  proof -
    have "length (drop ?n (ring @ [e])) + length es - DOOM_LOOP_RING + ?n =
          length ring + length (e # es) - DOOM_LOOP_RING"
      using Cons.prems by (simp add: DOOM_LOOP_RING_def)
    then show ?thesis by (simp only: drop_drop)
  qed
  finally show ?case .
qed

lemma filter_denied_entries:
  "\<forall>e \<in> set es. denied_entry call e \<Longrightarrow> filter (\<lambda>e. rc_call e = call \<and> \<not> rc_denied e) es = []"
  by (auto simp: filter_empty_conv denied_entry_def)

lemma doom_loop_denial_shape:
  assumes "failing call result a" and "failing call result b"
    and "filter (\<lambda>e. rc_call e = call \<and> \<not> rc_denied e) between = []"
    and "\<forall>e \<in> set denials. denied_entry call e"
  shows "doom_loop_denial (before @ a # between @ b # denials) call name = Some (doom_loop_message name)"
proof -
  have shape: "filter (\<lambda>e. rc_call e = call \<and> \<not> rc_denied e) (rev (before @ a # between @ b # denials)) =
        b # a # filter (\<lambda>e. rc_call e = call \<and> \<not> rc_denied e) (rev before)"
    using assms filter_denied_entries [of "rev denials" call]
    by (simp add: failing_def rev_filter [symmetric])
  show ?thesis
    using assms(1,2) unfolding doom_loop_denial_def shape by (simp add: DOOM_LOOP_N_def failing_def)
qed

section \<open>Who may run a tool\<close>

text \<open>
  The authorisation a call needs: the doom-loop guard is open, the policy allows the call or
  leaves it to a handler that allows it, and no hook objects. An extension hook objects by
  asking for a block, and by failing when hooks fail closed.
\<close>

definition extension_objects :: "gate_env \<Rightarrow> tool_call \<Rightarrow> bool" where
  "extension_objects env call \<longleftrightarrow>
     (\<exists>extensions. env_ext_hook env = Some extensions \<and>
        ((\<exists>result. extensions call = Inr (Some result) \<and> tcr_block result) \<or>
         (\<exists>err. extensions call = Inl err) \<and> env_fail_closed env))"

definition authorised :: "gate_env \<Rightarrow> tool_call \<Rightarrow> bool" where
  "authorised env call \<longleftrightarrow>
     doom_loop_denial (env_ring env) (env_fingerprint env call) (tc_name call) = None \<and>
     (case env_policy env of
        None \<Rightarrow> (\<forall>approval. env_approval env = Some approval \<longrightarrow> approval call = ApprovalAllow)
      | Some policy \<Rightarrow>
          (let d = decide policy (tc_name call) (policy_effects env (tc_name call)) (tc_arguments call)
           in d = Allow \<or>
              d = Ask \<and> (\<exists>approval. env_approval env = Some approval \<and> approval call = ApprovalAllow))) \<and>
     (\<forall>hook. env_pre_hook env = Some hook \<longrightarrow> hook call = None) \<and>
     \<not> extension_objects env call"

text \<open>The tool the call names is registered.\<close>

definition registered :: "gate_env \<Rightarrow> tool_call \<Rightarrow> bool" where
  "registered env call \<longleftrightarrow> env_tools env (tc_name call) \<noteq> None"

lemma ask_handler_no_run: "ToolRun \<notin> set (fst (ask_handler env call))"
  by (auto simp: ask_handler_def split: option.splits approval_decision.splits)

lemma request_no_run: "ToolRun \<notin> set (fst (request_tool_approval env call))"
  using ask_handler_no_run [of env call]
  by (auto simp: request_tool_approval_def split: option.splits decision.splits)

lemma request_denied_is_error:
  "snd (request_tool_approval env call) = Some output \<Longrightarrow>
     out_is_error output \<and> is_denied_output output"
  by (auto simp: request_tool_approval_def ask_handler_def tool_approval_denied_output_def
      is_denied_output_def Let_def lit_def
      split: option.splits decision.splits approval_decision.splits if_splits)

lemma request_granted_iff:
  "snd (request_tool_approval env call) = None \<longleftrightarrow>
     doom_loop_denial (env_ring env) (env_fingerprint env call) (tc_name call) = None \<and>
     (case env_policy env of
        None \<Rightarrow> (\<forall>approval. env_approval env = Some approval \<longrightarrow> approval call = ApprovalAllow)
      | Some policy \<Rightarrow>
          (let d = decide policy (tc_name call) (policy_effects env (tc_name call)) (tc_arguments call)
           in d = Allow \<or>
              d = Ask \<and> (\<exists>approval. env_approval env = Some approval \<and> approval call = ApprovalAllow)))"
  by (auto simp: request_tool_approval_def ask_handler_def Let_def
      split: option.splits decision.splits approval_decision.splits)

lemma pre_hook_no_run: "ToolRun \<notin> set (fst (run_pre_tool_use_hook env call))"
  by (auto simp: run_pre_tool_use_hook_def split: option.splits)

lemma pre_hook_passes_iff:
  "snd (run_pre_tool_use_hook env call) = None \<longleftrightarrow>
     (\<forall>hook. env_pre_hook env = Some hook \<longrightarrow> hook call = None)"
  by (auto simp: run_pre_tool_use_hook_def split: option.splits)

lemma post_hook_no_run: "ToolRun \<notin> set (fst (run_post_tool_use_hook env call output is_error))"
  by (auto simp: run_post_tool_use_hook_def split: option.splits)

lemma post_hook_steps:
  "PostHookRun \<in> set (fst (run_post_tool_use_hook env call output is_error)) \<longleftrightarrow> env_post_hook env \<noteq> None"
  by (auto simp: run_post_tool_use_hook_def split: option.splits)

lemma post_hook_keeps_error: "snd (snd (run_post_tool_use_hook env call output True))"
  by (auto simp: run_post_tool_use_hook_def split: option.splits)

lemma ask_handler_no_post: "PostHookRun \<notin> set (fst (ask_handler env call))"
  by (auto simp: ask_handler_def split: option.splits approval_decision.splits)

lemma request_no_post: "PostHookRun \<notin> set (fst (request_tool_approval env call))"
  using ask_handler_no_post [of env call]
  by (auto simp: request_tool_approval_def split: option.splits decision.splits)

lemma pre_hook_no_post: "PostHookRun \<notin> set (fst (run_pre_tool_use_hook env call))"
  by (auto simp: run_pre_tool_use_hook_def split: option.splits)

lemma extension_hook_passes_iff:
  "(\<forall>extensions. env_ext_hook env = Some extensions \<longrightarrow>
      dispatch_tool_call_hook extensions call (env_fail_closed env) = None) \<longleftrightarrow>
   \<not> extension_objects env call"
  by (auto simp: dispatch_tool_call_hook_def extension_objects_def split: sum.splits option.splits)

lemma execute_without_hooks_steps:
  assumes "execute_tool_without_hooks env call = (steps, output, err)"
  shows "set steps \<subseteq> {ToolRun}" and "ToolRun \<in> set steps \<longleftrightarrow> registered env call"
    and "ToolRun \<notin> set steps \<Longrightarrow> err"
  using assms
  by (auto simp: execute_tool_without_hooks_def registered_def split: option.splits sum.splits)

lemma run_or_block_ran:
  assumes "run_or_block env call d h = (steps, did, output, err)"
  shows "did \<longleftrightarrow> d = None \<and> h = None \<and> \<not> extension_objects env call"
    and "ToolRun \<in> set steps \<longleftrightarrow> did \<and> registered env call"
    and "PostHookRun \<notin> set steps"
    and "ToolRun \<notin> set steps \<Longrightarrow> err"
proof -
  obtain steps' output' err' where run: "execute_tool_without_hooks env call = (steps', output', err')"
    by (rule prod_cases3)
  show "did \<longleftrightarrow> d = None \<and> h = None \<and> \<not> extension_objects env call"
    and "ToolRun \<in> set steps \<longleftrightarrow> did \<and> registered env call"
    and "PostHookRun \<notin> set steps"
    and "ToolRun \<notin> set steps \<Longrightarrow> err"
    using assms execute_without_hooks_steps [OF run] extension_hook_passes_iff [of env call]
    by (auto simp: run_or_block_def run split: option.splits)
qed

lemma execute_tool_parts:
  obtains s1 s2 s3 s4 s5 where "fst (execute_tool env call) = s1 @ s2 @ s3 @ s4 @ s5"
    and "ToolRun \<notin> set (s1 @ s2 @ s4 @ s5)" and "PostHookRun \<notin> set (s1 @ s2 @ s3 @ s4)"
    and "ToolRun \<in> set s3 \<longleftrightarrow> authorised env call \<and> registered env call"
    and "PostHookRun \<in> set s5 \<longleftrightarrow> authorised env call \<and> env_post_hook env \<noteq> None"
    and "ToolRun \<notin> set s3 \<Longrightarrow> snd (snd (execute_tool env call))"
proof -
  obtain s1 d where req: "request_tool_approval env call = (s1, d)" by fastforce
  obtain s2 h where pre: "(if d \<noteq> None then ([], None) else run_pre_tool_use_hook env call) = (s2, h)"
    by fastforce
  obtain s3 did out err where run: "run_or_block env call d h = (s3, did, out, err)"
    by (cases "run_or_block env call d h") auto
  obtain s4 out' where result: "(if env_ext_hook env = None then ([], out)
      else ([ResultHookRun], apply_tool_result_hook env call out err)) = (s4, out')" by fastforce
  obtain s5 out'' err' where post: "(if did then run_post_tool_use_hook env call out' err
      else ([], out', err)) = (s5, out'', err')" by (rule prod_cases3)
  have whole: "execute_tool env call = (s1 @ s2 @ s3 @ s4 @ s5, out'', err')"
    by (simp only: execute_tool_def Let_def req pre run result post prod.case)
  have did: "did \<longleftrightarrow> authorised env call"
    using run_or_block_ran(1) [OF run] request_granted_iff [of env call]
      pre_hook_passes_iff [of env call] req pre
    by (auto simp: authorised_def split: if_splits)
  have quiet: "x \<notin> set s1" "x \<notin> set s2" "x \<notin> set s4" if "x = ToolRun \<or> x = PostHookRun" for x
    using that request_no_run [of env call] request_no_post [of env call] pre_hook_no_run [of env call]
      pre_hook_no_post [of env call] req pre result by (auto split: if_splits)
  have "ToolRun \<notin> set s5" "PostHookRun \<in> set s5 \<longleftrightarrow> did \<and> env_post_hook env \<noteq> None" "err \<Longrightarrow> err'"
    using post_hook_no_run [of env call out' err] post_hook_steps [of env call out' err]
      post_hook_keeps_error [of env call out'] post
    by (auto split: if_splits)
  then show ?thesis
    using that [of s1 s2 s3 s4 s5] whole quiet did run_or_block_ran(2,3,4) [OF run] by auto
qed

lemma execute_tool_runs_iff:
  "ToolRun \<in> set (fst (execute_tool env call)) \<longleftrightarrow> authorised env call \<and> registered env call"
  by (rule execute_tool_parts [of env call]) auto

lemma execute_tool_post_iff:
  "PostHookRun \<in> set (fst (execute_tool env call)) \<longleftrightarrow> authorised env call \<and> env_post_hook env \<noteq> None"
  by (rule execute_tool_parts [of env call]) auto

lemma execute_tool_not_run_is_error:
  "ToolRun \<notin> set (fst (execute_tool env call)) \<Longrightarrow> snd (snd (execute_tool env call))"
  by (rule execute_tool_parts [of env call]) auto

text \<open>An agent with the given policy, tools and extensions and no handler, shell hooks or history.\<close>

definition headless_env :: "tool_policy option \<Rightarrow> (ustr \<Rightarrow> tool_effects option) \<Rightarrow> gate_env" where
  "headless_env policy tools =
     \<lparr>env_policy = policy, env_approval = None, env_tools = tools, env_ring = [],
      env_fingerprint = (\<lambda>_. 0), env_pre_hook = None, env_ext_hook = None, env_fail_closed = False,
      env_ext_result = (\<lambda>_ _ _. Inr None), env_post_hook = None,
      env_run = (\<lambda>_. Inr \<lparr>out_content = [], out_details = None, out_is_error = False\<rparr>)\<rparr>"

section \<open>The scope of a session grant\<close>

text \<open>
  What the code relies on of \<open>char::is_alphanumeric\<close>: brackets, colons and white space are not
  alphanumeric.
\<close>

definition alphanumeric_table :: "(uchar \<Rightarrow> bool) \<Rightarrow> bool" where
  "alphanumeric_table is_alphanumeric \<longleftrightarrow>
     (\<forall>c. is_alphanumeric c \<longrightarrow>
        \<not> is_whitespace c \<and> c \<noteq> 34 \<and> c \<noteq> 36 \<and> c \<noteq> 39 \<and> c \<noteq> 40 \<and> c \<noteq> 41 \<and> c \<noteq> 58 \<and> c \<noteq> 92)"

lemma first_word_no_space: "first_word s = Some w \<Longrightarrow> w \<noteq> [] \<and> (\<forall>c \<in> set w. \<not> is_whitespace c)"
  by (auto simp: first_word_def split: list.splits dest: set_takeWhileD)

lemma session_rule_parse:
  assumes "\<forall>c \<in> set w. c \<noteq> 58 \<and> \<not> is_whitespace c" and "w \<noteq> []"
  shows "rule_parse (lit ''bash('' @ w @ lit '':*)'') =
     Inr \<lparr>rule_tool = lit ''bash'',
          rule_pattern = Some \<lparr>pat_prefix = Some (to_ascii_lowercase w), pat_glob = [42]\<rparr>,
          rule_source = lit ''bash('' @ w @ lit '':*)''\<rparr>"
proof -
  let ?raw = "lit ''bash('' @ w @ lit '':*)''"
  have trim: "trim ?raw = ?raw"
    by (rule trim_no_space) (simp_all add: lit_def is_whitespace_def)
  have split: "split_once 40 ?raw = Some (lit ''bash'', w @ lit '':*)'')"
    by (simp add: lit_def)
  have last: "last ?raw = 41" and body: "butlast (w @ lit '':*)'') = w @ lit '':*''"
    by (simp_all add: lit_def butlast_append)
  have tool: "trim (lit ''bash'') = lit ''bash''" "to_ascii_lowercase (lit ''bash'') = lit ''bash''"
    "lit ''bash'' \<noteq> []" by (simp_all add: rust_text)
  have "split_once 58 (w @ lit '':*'') = Some (w, [42])"
    using assms(1) by (auto simp: lit_def)
  moreover have "trim w = w"
    using assms by (intro trim_no_space) auto
  ultimately have "pattern_parse (w @ lit '':*'') =
      \<lparr>pat_prefix = Some (to_ascii_lowercase w), pat_glob = [42]\<rparr>"
    by (simp add: pattern_parse_def)
  then show ?thesis
    unfolding rule_parse_def Let_def trim split
    using assms(2) by (simp add: last tool body del: append_assoc)
qed

lemma session_rule_for_bash:
  assumes "arguments (lit ''command'') = Some cmd" and "first_word cmd = Some w"
    and "\<forall>c \<in> set w. is_alphanumeric c \<or> c \<in> set (lit ''-_./'')"
  shows "session_rule_for is_alphanumeric (lit ''bash'') arguments = lit ''bash('' @ w @ lit '':*)''"
proof -
  have "spawns_a_process (lit ''bash'')" by (simp add: spawns_a_process_def rust_text)
  moreover have "lit ''bash'' @ lit ''('' = lit ''bash(''" by (simp add: rust_text)
  ultimately show ?thesis
    using assms by (simp add: session_rule_for_def flip: append_assoc)
qed

text \<open>
  Answering an approval of a \<open>bash\<close> call with "don't ask again" installs a rule that covers
  exactly the commands whose normal form starts with the first word of the approved command,
  followed by white space or nothing, when that word is a plain program name.
\<close>

theorem session_grant_scope:
  assumes "alphanumeric_table is_alphanumeric"
    and "arguments (lit ''command'') = Some cmd" and "first_word cmd = Some w"
    and "\<forall>c \<in> set w. is_alphanumeric c \<or> c \<in> set (lit ''-_./'')"
    and "answer_tool_approval Session (session_rule_for is_alphanumeric (lit ''bash'') arguments) p
           = (p', reply, err)"
  shows "reply = ApprovalAllow \<and> err = None \<and> pol_deny p' = pol_deny p \<and> pol_ask p' = pol_ask p \<and>
         (\<exists>r. pol_allow p' = pol_allow p @ [r] \<and>
            (\<forall>tool target. rule_matches r tool (Some (Command, target)) False \<longleftrightarrow>
               tool = lit ''bash'' \<and>
               (\<exists>rest. target = to_ascii_lowercase w @ rest \<and> (rest = [] \<or> is_whitespace (hd rest)))))"
proof -
  have plain: "c \<noteq> 58 \<and> \<not> is_whitespace c" if "c \<in> set w" for c
    using assms(1,4) that first_word_no_space [OF assms(3)]
    by (auto simp: alphanumeric_table_def lit_def)
  have "w \<noteq> []" using first_word_no_space [OF assms(3)] by simp
  then have "rule_parse (session_rule_for is_alphanumeric (lit ''bash'') arguments) =
     Inr \<lparr>rule_tool = lit ''bash'',
          rule_pattern = Some \<lparr>pat_prefix = Some (to_ascii_lowercase w), pat_glob = [42]\<rparr>,
          rule_source = lit ''bash('' @ w @ lit '':*)''\<rparr>"
    using session_rule_for_bash [of arguments cmd w is_alphanumeric] assms(2-4)
      session_rule_parse [of w] plain by simp
  then show ?thesis
    using assms(5)
    by (auto simp: answer_tool_approval_def allow_for_session_def rule_matches_def
        word_pattern_matches_iff split: if_splits)
qed

lemma word_boundary_unique:
  assumes "w @ 32 # t = v @ s" and "s = [] \<or> is_whitespace (hd s)"
    and "command_word w" and "command_word v"
  shows "v = w"
proof -
  have no: "\<not> is_whitespace c" if "c \<in> set w \<union> set v" for c
    using assms(3,4) that by (auto simp: command_word_def)
  obtain us where "w = v @ us \<and> us @ 32 # t = s \<or> w @ us = v \<and> 32 # t = us @ s"
    using assms(1) unfolding append_eq_append_conv2 by blast
  moreover have "is_whitespace 32" by (simp add: is_whitespace_def)
  ultimately show ?thesis
    using no assms(2) by (cases us) auto
qed

lemma leading_separator_hides_word:
  assumes "command_word v" and "rule_parse (lit ''Bash('' @ v @ lit '':*)'') = Inr r"
    and "input (lit ''command'') = Some cmd" and "to_ascii_lowercase cmd = sep @ rest"
    and "sep \<in> shell_separators"
  shows "\<not> rule_matches r (lit ''bash'') (match_target (lit ''bash'') input) fail_closed"
proof -
  have "v \<noteq> []" and "hd v \<noteq> 32"
    using assms(1) by (cases v; force simp: command_word_def word_char_def is_ascii_whitespace_def)+
  then have "\<nexists>s. 32 # normalize_loop rest True = v @ s" by (cases v) auto
  then show ?thesis
    using bash_word_rule_matches_iff [OF assms(1,2), of input cmd] assms(3-5)
    by (simp add: normalize_command_leading_separator)
qed

lemma other_word_not_matched:
  assumes "command_word w" and "command_word v" and "v \<noteq> w"
    and "rule_parse (lit ''Bash('' @ v @ lit '':*)'') = Inr r"
  shows "\<not> rule_matches r (lit ''bash'') (Some (Command, w @ 32 # t)) fail_closed"
  using word_boundary_unique [of w t v] assms(1-3)
  by (auto simp: rule_matches_def bash_word_rule [OF assms(2,4)] word_pattern_matches_iff)

section \<open>Properties\<close>

text \<open>
  C3: A tool runs for a call exactly when the call is authorised and names a registered tool:
  the doom-loop guard is open, the policy allows the call or leaves it to an installed approval
  handler that allows it, the shell hook does not object, and no extension hook blocks the call
  or fails while hooks fail closed. A call that does not run is answered with an error. The
  post hook runs for every authorised call, one for an unregistered name included. With a policy
  installed and no handler (a headless run), a call that needs to be asked for never runs.
\<close>

theorem tool_runs_iff_authorised:
  "(ToolRun \<in> set (fst (execute_tool env call)) \<longleftrightarrow> authorised env call \<and> registered env call) \<and>
   (ToolRun \<notin> set (fst (execute_tool env call)) \<longrightarrow> snd (snd (execute_tool env call))) \<and>
   (PostHookRun \<in> set (fst (execute_tool env call)) \<longleftrightarrow>
      authorised env call \<and> env_post_hook env \<noteq> None) \<and>
   (env_policy env = Some policy \<and> env_approval env = None \<and>
    decide policy (tc_name call) (policy_effects env (tc_name call)) (tc_arguments call) = Ask \<longrightarrow>
    ToolRun \<notin> set (fst (execute_tool env call)))"
  using execute_tool_not_run_is_error [of env call]
  by (auto simp: execute_tool_runs_iff execute_tool_post_iff authorised_def Let_def)

text \<open>
  A headless agent with the default policy and the tools \<open>read\<close> and \<open>bash\<close>: the read runs, the
  shell command does not; and without a policy a call for a tool nobody registered is authorised
  and does not run.
\<close>

theorem tool_runs_iff_authorised_witness:
  "\<exists>tools read_call bash_call other_call.
     ToolRun \<in> set (fst (execute_tool (headless_env (Some default_policy) tools) read_call)) \<and>
     ToolRun \<notin> set (fst (execute_tool (headless_env (Some default_policy) tools) bash_call)) \<and>
     authorised (headless_env None tools) other_call \<and>
     ToolRun \<notin> set (fst (execute_tool (headless_env None tools) other_call)) \<and>
     snd (snd (execute_tool (headless_env None tools) other_call))"
proof -
  let ?tools = "[lit ''read'' \<mapsto> effects_read, lit ''bash'' \<mapsto> effects_process]"
  let ?env = "headless_env (Some default_policy) ?tools"
  let ?call = "\<lambda>name. \<lparr>tc_name = name, tc_arguments = (\<lambda>_. None)\<rparr>"
  have "decide default_policy (lit ''read'') effects_read (\<lambda>_. None) = Allow"
    by (simp add: decide_def Let_def default_policy_def mode_default_def eff_flags effects_read_def
        changes_permissions_def processes_def writes_def appends_def networks_def)
  then have "authorised ?env (?call (lit ''read'')) \<and> registered ?env (?call (lit ''read''))"
    by (simp add: authorised_def registered_def headless_env_def policy_effects_def
        doom_loop_denial_def extension_objects_def rust_text)
  then have 1: "ToolRun \<in> set (fst (execute_tool ?env (?call (lit ''read''))))"
    using tool_runs_iff_authorised [of ?env "?call (lit ''read'')"] by blast
  have "decide default_policy (lit ''bash'') effects_process (\<lambda>_. None) = Ask"
    by (simp add: decide_def Let_def default_policy_def mode_default_def changes_permissions_def
        processes_def effects_process_def eff_flags)
  then have "env_policy ?env = Some default_policy \<and> env_approval ?env = None \<and>
      decide default_policy (tc_name (?call (lit ''bash''))) (policy_effects ?env (tc_name (?call (lit ''bash''))))
        (tc_arguments (?call (lit ''bash''))) = Ask"
    by (simp add: policy_effects_def headless_env_def)
  then have 2: "ToolRun \<notin> set (fst (execute_tool ?env (?call (lit ''bash''))))"
    using tool_runs_iff_authorised [of ?env "?call (lit ''bash'')" default_policy] by blast
  have "authorised (headless_env None ?tools) (?call (lit ''nope''))"
    and "\<not> registered (headless_env None ?tools) (?call (lit ''nope''))"
    by (simp_all add: authorised_def registered_def headless_env_def doom_loop_denial_def
        extension_objects_def rust_text)
  with 1 2 show ?thesis
    using tool_runs_iff_authorised [of "headless_env None ?tools" "?call (lit ''nope'')"] by blast
qed

text \<open>
  No sequence of session grants lets a call run that a deny rule of the policy refuses.
\<close>

theorem session_grants_never_override_denials:
  assumes "\<exists>r \<in> set (pol_deny p). rule_matches r (to_ascii_lowercase (tc_name call))
             (match_target (to_ascii_lowercase (tc_name call)) (tc_arguments call)) True"
    and "env_policy env = Some (apply_grants allow_for_session p grants)"
  shows "ToolRun \<notin> set (fst (execute_tool env call))"
proof -
  obtain why where "decide_call (apply_grants allow_for_session p grants)
      (tc_name call, policy_effects env (tc_name call), tc_arguments call) = Deny why"
    using tp.grants_denied [of p "(tc_name call, policy_effects env (tc_name call), tc_arguments call)" grants]
      assms(1) by (auto simp: denies_call_def)
  then show ?thesis
    using assms(2) by (simp add: execute_tool_runs_iff authorised_def decide_call_def)
qed

theorem session_grants_never_override_witness:
  "\<exists>env call. env_policy env = Some (apply_grants allow_for_session
       (default_policy\<lparr>pol_deny := [\<lparr>rule_tool = lit ''bash'', rule_pattern = None,
          rule_source = lit ''bash''\<rparr>]\<rparr>) [lit ''bash'']) \<and>
     ToolRun \<notin> set (fst (execute_tool env call))"
proof -
  let ?r = "\<lparr>rule_tool = lit ''bash'', rule_pattern = None, rule_source = lit ''bash''\<rparr>"
  let ?p = "default_policy\<lparr>pol_deny := [?r]\<rparr>"
  let ?env = "headless_env (Some (apply_grants allow_for_session ?p [lit ''bash''])) (\<lambda>_. Some effects_process)"
  let ?call = "\<lparr>tc_name = lit ''bash'', tc_arguments = (\<lambda>_. None)\<rparr>"
  have "to_ascii_lowercase (lit ''bash'') = lit ''bash''" by (simp add: rust_text)
  then have "ToolRun \<notin> set (fst (execute_tool ?env ?call))"
    by (intro session_grants_never_override_denials [of ?p ?call ?env "[lit ''bash'']"])
      (simp_all add: rule_matches_def headless_env_def)
  then show ?thesis by (intro exI [of _ ?env] exI [of _ ?call]) (simp add: headless_env_def)
qed

theorem session_grant_scope_witness:
  "\<exists>is_alphanumeric p'.
     answer_tool_approval Session (session_rule_for is_alphanumeric (lit ''bash'')
       ((\<lambda>_. None)(lit ''command'' \<mapsto> lit ''git status''))) default_policy = (p', ApprovalAllow, None)"
proof -
  let ?alnum = "\<lambda>c. (48 \<le> c \<and> c \<le> 57) \<or> (65 \<le> c \<and> c \<le> 90) \<or> (97 \<le> c \<and> c \<le> (122 :: nat))"
  let ?args = "(\<lambda>_. None)(lit ''command'' \<mapsto> lit ''git status'')"
  have table: "alphanumeric_table ?alnum"
    by (auto simp: alphanumeric_table_def is_whitespace_def)
  have word: "first_word (lit ''git status'') = Some (lit ''git'')" by (simp add: first_word_def rust_text)
  obtain p' reply err where ans: "answer_tool_approval Session
      (session_rule_for ?alnum (lit ''bash'') ?args) default_policy = (p', reply, err)"
    by (rule prod_cases3)
  have "?args (lit ''command'') = Some (lit ''git status'')"
    and "\<forall>c \<in> set (lit ''git''). ?alnum c \<or> c \<in> set (lit ''-_./'')"
    by (simp_all add: lit_def)
  then have "reply = ApprovalAllow" and "err = None"
    using session_grant_scope [of ?alnum ?args "lit ''git status''" "lit ''git''" default_policy p' reply err]
      table word ans by simp_all
  with ans show ?thesis by blast
qed

text \<open>
  C19: Word rules read only the start of a command line. Let every deny rule of the policy be a
  rule \<open>Bash(v:*)\<close>. A command that starts with a separator (a leading space or newline) is decided
  as if there were no deny rules. And after "don't ask again" for a command whose first word is
  \<open>w\<close>, every command line that starts with \<open>w\<close> and a separator is allowed without a prompt, whatever
  follows and whichever other words are denied.
\<close>

theorem word_rules_read_only_the_start:
  assumes "\<forall>r \<in> set (pol_deny p). \<exists>v. command_word v \<and> v \<noteq> w \<and>
             rule_parse (lit ''Bash('' @ v @ lit '':*)'') = Inr r"
    and "to_ascii_lowercase name = lit ''bash''" and "input (lit ''command'') = Some cmd"
    and "sep \<in> shell_separators"
  shows "(to_ascii_lowercase cmd = sep @ rest \<longrightarrow>
            decide p name effects input = decide (p\<lparr>pol_deny := []\<rparr>) name effects input) \<and>
         (to_ascii_lowercase cmd = w @ sep @ rest \<and> command_word w \<and>
          alphanumeric_table is_alphanumeric \<and>
          approved (lit ''command'') = Some acmd \<and> first_word acmd = Some w \<and>
          (\<forall>c \<in> set w. is_alphanumeric c \<or> c \<in> set (lit ''-_./'')) \<and>
          answer_tool_approval Session (session_rule_for is_alphanumeric (lit ''bash'') approved) p
            = (p', reply, err) \<longrightarrow>
            decide p' name effects input = Allow)"
proof (intro conjI impI)
  assume "to_ascii_lowercase cmd = sep @ rest"
  then have "\<not> rule_matches r (lit ''bash'') (match_target (lit ''bash'') input) True"
    if "r \<in> set (pol_deny p)" for r
    using leading_separator_hides_word [of _ r input cmd sep rest] assms(1,3,4) that by blast
  then show "decide p name effects input = decide (p\<lparr>pol_deny := []\<rparr>) name effects input"
    using assms(2) by (simp add: decide_no_deny)
next
  assume *: "to_ascii_lowercase cmd = w @ sep @ rest \<and> command_word w \<and>
      alphanumeric_table is_alphanumeric \<and>
      approved (lit ''command'') = Some acmd \<and> first_word acmd = Some w \<and>
      (\<forall>c \<in> set w. is_alphanumeric c \<or> c \<in> set (lit ''-_./'')) \<and>
      answer_tool_approval Session (session_rule_for is_alphanumeric (lit ''bash'') approved) p
        = (p', reply, err)"
  have target: "match_target (lit ''bash'') input = Some (Command, w @ 32 # normalize_loop rest True)"
    using bash_target [of input cmd] normalize_command_word_separator [of w sep rest] assms(3,4) *
    by simp
  obtain r where r: "pol_deny p' = pol_deny p" "pol_allow p' = pol_allow p @ [r]"
    "rule_matches r (lit ''bash'') (match_target (lit ''bash'') input) False"
    using session_grant_scope [of is_alphanumeric approved acmd w p p' reply err] *
    by (auto simp: target command_word_lower is_whitespace_def)
  have "\<not> rule_matches r (lit ''bash'') (match_target (lit ''bash'') input) True"
    if "r \<in> set (pol_deny p)" for r
    using other_word_not_matched [of w _ r] assms(1) that * unfolding target by blast
  then show "decide p' name effects input = Allow"
    using assms(2) r by (simp add: decide_no_deny)
qed

theorem word_rules_read_only_the_start_witness:
  "\<exists>deny_rm p'. rule_parse (lit ''Bash(rm:*)'') = Inr deny_rm \<and> pol_deny p' = [deny_rm] \<and>
     decide p' (lit ''bash'') effects_process
       ((\<lambda>_. None)(lit ''command'' \<mapsto> lit ''git status; rm -rf /'')) = Allow \<and>
     decide (default_policy\<lparr>pol_deny := [deny_rm]\<rparr>) (lit ''bash'') effects_process
       ((\<lambda>_. None)(lit ''command'' \<mapsto> lit '' rm -rf /'')) = Ask"
proof -
  let ?alnum = "\<lambda>c. (48 \<le> c \<and> c \<le> 57) \<or> (65 \<le> c \<and> c \<le> 90) \<or> (97 \<le> c \<and> c \<le> (122 :: nat))"
  let ?args = "\<lambda>cmd. (\<lambda>_. None)(lit ''command'' \<mapsto> lit cmd)"
  have words: "command_word (lit ''rm'')" "command_word (lit ''git'')"
    by (simp_all add: command_word_def word_char_def is_quote_def rust_text)
  obtain r where r: "rule_parse (lit ''Bash('' @ lit ''rm'' @ lit '':*)'') = Inr r"
    using rule_parse_word [OF words(1), of "lit ''Bash''"] by (auto simp: lit_def is_whitespace_def)
  let ?p = "default_policy\<lparr>pol_deny := [r]\<rparr>"
  obtain p' reply err where ans: "answer_tool_approval Session
      (session_rule_for ?alnum (lit ''bash'') (?args ''git status'')) ?p = (p', reply, err)"
    by (rule prod_cases3)
  have table: "alphanumeric_table ?alnum"
    by (auto simp: alphanumeric_table_def is_whitespace_def)
  have deny: "\<forall>x \<in> set (pol_deny ?p). \<exists>v. command_word v \<and> v \<noteq> lit ''git'' \<and>
      rule_parse (lit ''Bash('' @ v @ lit '':*)'') = Inr x"
    using words(1) r by (auto simp: lit_def)
  have lower: "to_ascii_lowercase (lit ''bash'') = lit ''bash''"
    "to_ascii_lowercase (lit ''git status; rm -rf /'') = lit ''git'' @ [32] @ lit ''status; rm -rf /''"
    "to_ascii_lowercase (lit '' rm -rf /'') = [32] @ lit ''rm -rf /''" by (simp_all add: rust_text)
  have first: "first_word (lit ''git status'') = Some (lit ''git'')"
    "\<forall>c \<in> set (lit ''git''). ?alnum c \<or> c \<in> set (lit ''-_./'')"
    by (simp_all add: first_word_def rust_text)
  have sep: "[32] \<in> shell_separators" by (simp add: shell_separators_def)
  note start = word_rules_read_only_the_start [of ?p "lit ''git''" "lit ''bash''", OF deny lower(1) _ sep]
  have "decide p' (lit ''bash'') effects_process (?args ''git status; rm -rf /'') = Allow"
    using start [of "?args ''git status; rm -rf /''" "lit ''git status; rm -rf /''"
        "lit ''status; rm -rf /''" effects_process ?alnum "?args ''git status''" "lit ''git status''" p' reply err]
      lower(2) words(2) table first ans by simp
  moreover have "decide ?p (lit ''bash'') effects_process (?args '' rm -rf /'') =
      decide (?p\<lparr>pol_deny := []\<rparr>) (lit ''bash'') effects_process (?args '' rm -rf /'')"
    using start [of "?args '' rm -rf /''" "lit '' rm -rf /''" "lit ''rm -rf /''" effects_process] lower(3)
    by simp
  moreover have "\<dots> = Ask"
    by (simp add: decide_def Let_def default_policy_def mode_default_def changes_permissions_def
        processes_def effects_process_def eff_flags)
  moreover have "pol_deny p' = [r]"
    using session_grant_scope [of ?alnum "?args ''git status''" "lit ''git status''" "lit ''git''" ?p p' reply err]
      table first ans by simp
  ultimately show ?thesis
    using r by (intro exI [of _ r] exI [of _ p']) (simp add: lit_def)
qed

text \<open>
  C20: After two runs of a call failed with the same result, every further identical call is
  denied while at most thirty denials follow them; the thirty-first denial pushes the older
  failure out of the ring of thirty-two and the guard opens again.
\<close>

theorem doom_loop_shut_for_thirty_denials:
  assumes "length ring \<le> DOOM_LOOP_RING"
    and "failing call result a" and "failing call result b"
    and "\<forall>e \<in> set denials. denied_entry call e"
  shows "(length denials \<le> 30 \<longrightarrow>
            doom_loop_denial (ring_pushes ring (a # b # denials)) call name = Some (doom_loop_message name)) \<and>
         (length denials = 31 \<longrightarrow>
            doom_loop_denial (ring_pushes ring (a # b # denials)) call name = None)"
proof (intro conjI impI)
  let ?n = "length ring + length (a # b # denials) - DOOM_LOOP_RING"
  have pushed: "ring_pushes ring (a # b # denials) = drop ?n (ring @ a # b # denials)"
    using assms(1) by (rule ring_pushes_last)
  assume "length denials \<le> 30"
  then have "?n \<le> length ring" by (simp add: DOOM_LOOP_RING_def)
  then have "ring_pushes ring (a # b # denials) = drop ?n ring @ a # [] @ b # denials"
    unfolding pushed by simp
  then show "doom_loop_denial (ring_pushes ring (a # b # denials)) call name =
      Some (doom_loop_message name)"
    using doom_loop_denial_shape [OF assms(2,3), of "[]" denials] assms(4) by simp
next
  assume len: "length denials = 31"
  have "ring_pushes ring (a # b # denials) = b # denials"
    using ring_pushes_last [OF assms(1), of "a # b # denials"] len by (simp add: DOOM_LOOP_RING_def)
  moreover have "filter (\<lambda>e. rc_call e = call \<and> \<not> rc_denied e) (rev (b # denials)) = [b]"
    using filter_denied_entries [of "rev denials" call] assms(3,4) by (simp add: failing_def)
  ultimately show "doom_loop_denial (ring_pushes ring (a # b # denials)) call name = None"
    unfolding doom_loop_denial_def by (simp add: DOOM_LOOP_N_def)
qed

theorem doom_loop_shut_witness:
  "doom_loop_denial (ring_pushes []
     (\<lparr>rc_call = 7, rc_result = 1, rc_is_error = True, rc_denied = False\<rparr>
      # \<lparr>rc_call = 7, rc_result = 1, rc_is_error = True, rc_denied = False\<rparr>
      # replicate 31 \<lparr>rc_call = 7, rc_result = 2, rc_is_error = True, rc_denied = True\<rparr>)) 7 [] = None"
  using doom_loop_shut_for_thirty_denials
    [of "[]" 7 1 "\<lparr>rc_call = 7, rc_result = 1, rc_is_error = True, rc_denied = False\<rparr>"
        "\<lparr>rc_call = 7, rc_result = 1, rc_is_error = True, rc_denied = False\<rparr>"
        "replicate 31 \<lparr>rc_call = 7, rc_result = 2, rc_is_error = True, rc_denied = True\<rparr>" "[]"]
  by (simp add: failing_def denied_entry_def)

end
