(* ===== verification/Ordered_Map.thy ===== *)
theory Ordered_Map
  imports Prelude
begin

text \<open>
  Rust's \<open>BTreeMap\<close> as the components use it: an ordered list of key-value pairs, which is what
  iterating the map yields. The locale \<open>ordered_map\<close> states what a client relies on (lookups
  after an insertion or a removal, the length, the smallest entry, the order of the entries);
  its lemmas are proved once there, and the interpretation \<open>bt\<close> makes them available for the
  representation that the component models compute with.
\<close>

section \<open>The interface\<close>

locale ordered_map =
  fixes wf :: "'m \<Rightarrow> bool"
    and empty :: 'm
    and get :: "'m \<Rightarrow> 'k::linorder \<Rightarrow> 'v option"
    and insert :: "'k \<Rightarrow> 'v \<Rightarrow> 'm \<Rightarrow> 'm"
    and remove :: "'k \<Rightarrow> 'm \<Rightarrow> 'm"
    and len :: "'m \<Rightarrow> nat"
    and first :: "'m \<Rightarrow> ('k \<times> 'v) option"
  assumes wf_empty: "wf empty"
    and wf_insert: "wf m \<Longrightarrow> wf (insert k v m)"
    and wf_remove: "wf m \<Longrightarrow> wf (remove k m)"
    and get_empty: "get empty k = None"
    and get_insert: "wf m \<Longrightarrow> get (insert k v m) k' = (if k' = k then Some v else get m k')"
    and get_remove: "wf m \<Longrightarrow> get (remove k m) k' = (if k' = k then None else get m k')"
    and finite_dom: "finite (dom (get m))"
    and len_card: "wf m \<Longrightarrow> len m = card (dom (get m))"
    and first_None: "wf m \<Longrightarrow> first m = None \<longleftrightarrow> dom (get m) = {}"
    and first_Some: "wf m \<Longrightarrow> first m = Some (k, v) \<Longrightarrow>
      get m k = Some v \<and> (\<forall>k' \<in> dom (get m). k \<le> k')"
begin

lemma dom_insert: "wf m \<Longrightarrow> dom (get (insert k v m)) = Set.insert k (dom (get m))"
  by (auto simp: get_insert dom_def)

lemma dom_remove: "wf m \<Longrightarrow> dom (get (remove k m)) = dom (get m) - {k}"
  by (auto simp: get_remove dom_def split: if_splits)

lemma len_empty: "len empty = 0"
  by (simp add: len_card wf_empty get_empty dom_def)

lemma len_insert:
  "wf m \<Longrightarrow> len (insert k v m) = (if get m k = None then Suc (len m) else len m)"
  by (auto simp: len_card wf_insert dom_insert finite_dom card_insert_if domIff)

lemma len_remove:
  "wf m \<Longrightarrow> len (remove k m) = (if get m k = None then len m else len m - 1)"
  by (auto simp: len_card wf_remove dom_remove finite_dom domIff card_Diff_singleton_if)

lemma len_zero_iff: "wf m \<Longrightarrow> len m = 0 \<longleftrightarrow> (\<forall>k. get m k = None)"
  by (auto simp: len_card finite_dom card_eq_0_iff)

lemma first_in_dom: "wf m \<Longrightarrow> first m = Some (k, v) \<Longrightarrow> k \<in> dom (get m)"
  by (auto dest: first_Some)

end

section \<open>The ordered list\<close>

type_synonym ('k, 'v) btree = "('k \<times> 'v) list"

definition bt_wf :: "('k::linorder, 'v) btree \<Rightarrow> bool" where
  "bt_wf m = sorted_wrt (<) (map fst m)"

definition bt_empty :: "('k, 'v) btree" where
  "bt_empty = []"

fun bt_get :: "('k, 'v) btree \<Rightarrow> 'k \<Rightarrow> 'v option" where
  "bt_get [] k = None"
| "bt_get ((k', v) # m) k = (if k = k' then Some v else bt_get m k)"

fun bt_insert :: "'k::linorder \<Rightarrow> 'v \<Rightarrow> ('k, 'v) btree \<Rightarrow> ('k, 'v) btree" where
  "bt_insert k v [] = [(k, v)]"
| "bt_insert k v ((k', v') # m) =
     (if k < k' then (k, v) # (k', v') # m
      else if k = k' then (k, v) # m
      else (k', v') # bt_insert k v m)"

fun bt_remove :: "'k \<Rightarrow> ('k, 'v) btree \<Rightarrow> ('k, 'v) btree" where
  "bt_remove k [] = []"
| "bt_remove k ((k', v') # m) = (if k = k' then m else (k', v') # bt_remove k m)"

definition bt_len :: "('k, 'v) btree \<Rightarrow> nat" where
  "bt_len m = length m"

definition bt_first :: "('k, 'v) btree \<Rightarrow> ('k \<times> 'v) option" where
  "bt_first m = (case m of [] \<Rightarrow> None | e # _ \<Rightarrow> Some e)"

definition bt_contains :: "('k, 'v) btree \<Rightarrow> 'k \<Rightarrow> bool" where
  "bt_contains m k = (bt_get m k \<noteq> None)"

lemma bt_get_map_of: "bt_get m k = map_of m k"
  by (induction m) auto

lemma dom_bt_get: "dom (bt_get m) = fst ` set m"
  by (simp add: fun_eq_iff [of "bt_get m" "map_of m", THEN iffD2] bt_get_map_of dom_map_of_conv_image_fst)

lemma bt_wf_Cons [simp]:
  "bt_wf ((k, v) # m) \<longleftrightarrow> (\<forall>k' \<in> fst ` set m. k < k') \<and> bt_wf m"
  by (auto simp: bt_wf_def)

lemma bt_wf_Nil [simp]: "bt_wf []"
  by (simp add: bt_wf_def)

lemma set_bt_insert: "fst ` set (bt_insert k v m) = insert k (fst ` set m)"
  by (induction k v m rule: bt_insert.induct) auto

lemma set_bt_remove: "set (bt_remove k m) \<subseteq> set m"
  by (induction k m rule: bt_remove.induct) auto

lemma bt_wf_insert: "bt_wf m \<Longrightarrow> bt_wf (bt_insert k v m)"
  by (induction k v m rule: bt_insert.induct) (auto simp: set_bt_insert)

lemma bt_wf_remove: "bt_wf m \<Longrightarrow> bt_wf (bt_remove k m)"
proof (induction m)
  case Nil
  then show ?case by simp
next
  case (Cons e m)
  then show ?case using set_bt_remove [of k m] by (cases e) fastforce
qed

lemma bt_get_outside: "bt_get m k \<noteq> None \<Longrightarrow> k \<in> fst ` set m"
  using dom_bt_get [of m] by blast

lemma bt_get_insert:
  "bt_wf m \<Longrightarrow> bt_get (bt_insert k v m) k' = (if k' = k then Some v else bt_get m k')"
  by (induction k v m rule: bt_insert.induct) auto

lemma bt_get_remove:
  "bt_wf m \<Longrightarrow> bt_get (bt_remove k m) k' = (if k' = k then None else bt_get m k')"
proof (induction m)
  case Nil
  then show ?case by simp
next
  case (Cons e m)
  then show ?case
    by (cases e) (auto dest: bt_get_outside)
qed

lemma bt_wf_distinct: "bt_wf m \<Longrightarrow> distinct (map fst m)"
  by (auto simp: bt_wf_def strict_sorted_iff)

lemma bt_len_card: "bt_wf m \<Longrightarrow> bt_len m = card (dom (bt_get m))"
  using distinct_card [OF bt_wf_distinct, of m] by (simp add: bt_len_def dom_bt_get)

interpretation bt: ordered_map bt_wf bt_empty bt_get bt_insert bt_remove bt_len bt_first
proof (unfold_locales, goal_cases)
  case 1 show ?case by (simp add: bt_empty_def)
next
  case (2 m k v) then show ?case by (rule bt_wf_insert)
next
  case (3 m k) then show ?case by (rule bt_wf_remove)
next
  case 4 show ?case by (simp add: bt_empty_def)
next
  case (5 m k v k') then show ?case by (rule bt_get_insert)
next
  case (6 m k k') then show ?case by (rule bt_get_remove)
next
  case 7 show ?case by (simp add: dom_bt_get)
next
  case (8 m) then show ?case by (rule bt_len_card)
next
  case (9 m) show ?case by (cases m) (auto simp: bt_first_def dom_bt_get)
next
  case (10 m k v)
  then show ?case by (cases m) (auto simp: bt_first_def dom_bt_get)
qed

lemmas bt_simps [simp] = bt.wf_empty bt.wf_insert bt.wf_remove bt.get_empty
  bt.get_insert bt.get_remove bt.finite_dom

lemma bt_contains_iff [simp]: "bt_contains m k \<longleftrightarrow> bt_get m k \<noteq> None"
  by (simp add: bt_contains_def)

text \<open>The entries of the map, as iteration yields them, are exactly the lookups that succeed.\<close>

lemma bt_entries: "bt_wf m \<Longrightarrow> (k, v) \<in> set m \<longleftrightarrow> bt_get m k = Some v"
  by (simp add: bt_get_map_of bt_wf_distinct)

text \<open>Two well-formed maps with the same lookups are the same list: the order is canonical.\<close>

lemma bt_ext:
  assumes m: "bt_wf m" and n: "bt_wf n" and same: "\<And>k. bt_get m k = bt_get n k"
  shows "m = n"
proof -
  have "set m = set n"
    using bt_entries [OF m] bt_entries [OF n] same by auto
  moreover have "sorted (map fst m)" and "sorted (map fst n)"
    using m n by (auto simp: bt_wf_def strict_sorted_iff)
  moreover have "inj_on fst (set m)"
    using bt_wf_distinct [OF m] by (simp add: distinct_map)
  ultimately show ?thesis
    using bt_wf_distinct [OF m] bt_wf_distinct [OF n]
    by (auto intro!: map_sorted_distinct_set_unique [of fst m n] simp: distinct_map)
qed

end
