(* ===== verification/Machines.thy ===== *)
theory Machines
  imports Prelude
begin

text \<open>
  What the stateful components have in common. A component is a state and a step for each
  event that reaches it; the locale \<open>invariant_machine\<close> is the contract that every step keeps
  the component's invariant, and \<open>bounded_machine\<close> adds that the invariant bounds a size by a
  capacity which no step changes. The lemmas speak of arbitrary sequences of events; each
  component interprets the locale with its own operations and takes its bounds from there.
\<close>

locale invariant_machine =
  fixes inv :: "'s \<Rightarrow> bool"
    and step :: "'e \<Rightarrow> 's \<Rightarrow> 's"
  assumes inv_step: "inv s \<Longrightarrow> inv (step e s)"
begin

lemma inv_run: "inv s \<Longrightarrow> inv (fold step es s)"
  by (induction es arbitrary: s) (auto intro: inv_step)

lemma inv_prefix: "inv s \<Longrightarrow> inv (fold step (take n es) s)"
  by (rule inv_run)

end

locale bounded_machine = invariant_machine inv step
  for inv :: "'s \<Rightarrow> bool" and step :: "'e \<Rightarrow> 's \<Rightarrow> 's" +
  fixes depth :: "'s \<Rightarrow> nat"
    and capacity :: "'s \<Rightarrow> nat"
  assumes depth_le: "inv s \<Longrightarrow> depth s \<le> capacity s"
    and capacity_step: "inv s \<Longrightarrow> capacity (step e s) = capacity s"
begin

lemma capacity_run: "inv s \<Longrightarrow> capacity (fold step es s) = capacity s"
  by (induction es arbitrary: s) (auto simp: capacity_step inv_step)

lemma depth_run: "inv s \<Longrightarrow> depth (fold step es s) \<le> capacity s"
  using depth_le [OF inv_run, of s es] capacity_run [of s es] by simp

end

end
