(* ===== verification/S3_Fifo.thy ===== *)
theory S3_Fifo
  imports Ordered_Map Machines
begin

text \<open>
  The S3-FIFO admission policy of the hostcall queues (\<open>src/src/hostcall_s3_fifo.rs\<close>): two
  live queues (\<open>small\<close>, probationary, and \<open>main\<close>, protected), the ghost list of recently evicted
  keys, a budget of live entries per owner and the fallback that disables the policy when its
  signals are poor. The state is the record of \<open>S3FifoPolicy\<close>, keys are of any ordered type, and
  each method is one function on the state. The evicting loops are recursive functions whose
  termination is proved from the queue they shorten.
\<close>

section \<open>Data\<close>

datatype s3_fallback_reason = SignalQualityInsufficient | FairnessInstability

datatype s3_tier = TierSmall | TierMain | TierGhost | TierFallback

datatype s3_decision_kind = AdmitSmall | PromoteSmallToMain | HitMain | AdmitFromGhost
  | RejectFairnessBudget | FallbackBypass

record s3_decision =
  dec_kind :: s3_decision_kind
  dec_tier :: s3_tier
  dec_ghost_hit :: bool
  dec_fallback_reason :: "s3_fallback_reason option"
  dec_live_depth :: usize
  dec_small_depth :: usize
  dec_main_depth :: usize
  dec_ghost_depth :: usize

record s3_config =
  live_capacity :: usize
  small_capacity :: usize
  ghost_capacity :: usize
  max_entries_per_owner :: usize
  fallback_window :: usize
  min_ghost_hits_in_window :: usize
  max_budget_rejections_in_window :: usize

definition s3_default_config :: s3_config where
  "s3_default_config = \<lparr>live_capacity = 256, small_capacity = 64, ghost_capacity = 512,
     max_entries_per_owner = 64, fallback_window = 32, min_ghost_hits_in_window = 2,
     max_budget_rejections_in_window = 12\<rparr>"

datatype live_tier = LiveSmall | LiveMain

record decision_signal =
  sig_ghost_hit :: bool
  sig_budget_rejected :: bool

record s3_telemetry =
  tel_fallback_reason :: "s3_fallback_reason option"
  tel_small_depth :: usize
  tel_main_depth :: usize
  tel_ghost_depth :: usize
  tel_live_depth :: usize
  tel_ghost_hits_total :: u64
  tel_admissions_total :: u64
  tel_promotions_total :: u64
  tel_budget_rejections_total :: u64
  tel_owner_live_counts :: "(string, usize) btree"

record 'k s3_policy =
  cfg :: s3_config
  small :: "'k list"
  main :: "'k list"
  ghost_order :: "(u64, 'k) btree"
  ghost_lookup :: "('k, u64) btree"
  ghost_gen :: u64
  live_tiers :: "('k, live_tier) btree"
  live_owners :: "('k, string) btree"
  owner_live_counts :: "(string, usize) btree"
  recent_signals :: "decision_signal list"
  fallback_reason :: "s3_fallback_reason option"
  ghost_hits_total :: u64
  admissions_total :: u64
  promotions_total :: u64
  budget_rejections_total :: u64

section \<open>Operations\<close>

definition s3_new :: "s3_config \<Rightarrow> 'k s3_policy" where
  "s3_new config =
     (let live = max (live_capacity config) 2;
          small_cap_floor = max (live - 1) 1;
          sm = min (max (small_capacity config) 1) small_cap_floor;
          window = max (fallback_window config) 1
      in \<lparr>cfg = \<lparr>live_capacity = live, small_capacity = sm,
                 ghost_capacity = max (ghost_capacity config) 1,
                 max_entries_per_owner = max (max_entries_per_owner config) 1,
                 fallback_window = window,
                 min_ghost_hits_in_window = min (min_ghost_hits_in_window config) window,
                 max_budget_rejections_in_window =
                   min (max_budget_rejections_in_window config) window\<rparr>,
          small = [], main = [], ghost_order = bt_empty, ghost_lookup = bt_empty, ghost_gen = 0,
          live_tiers = bt_empty, live_owners = bt_empty, owner_live_counts = bt_empty,
          recent_signals = [], fallback_reason = None, ghost_hits_total = 0,
          admissions_total = 0, promotions_total = 0, budget_rejections_total = 0\<rparr>)"

definition live_depth :: "'k s3_policy \<Rightarrow> usize" where
  "live_depth s = length (small s) + length (main s)"

definition s3_telemetry_of :: "'k s3_policy \<Rightarrow> s3_telemetry" where
  "s3_telemetry_of s =
     \<lparr>tel_fallback_reason = fallback_reason s, tel_small_depth = length (small s),
      tel_main_depth = length (main s), tel_ghost_depth = bt_len (ghost_lookup s),
      tel_live_depth = live_depth s, tel_ghost_hits_total = ghost_hits_total s,
      tel_admissions_total = admissions_total s, tel_promotions_total = promotions_total s,
      tel_budget_rejections_total = budget_rejections_total s,
      tel_owner_live_counts = owner_live_counts s\<rparr>"

definition clear_fallback :: "'k s3_policy \<Rightarrow> 'k s3_policy" where
  "clear_fallback s = s\<lparr>fallback_reason := None, recent_signals := []\<rparr>"

definition remove_from_queue :: "'k list \<Rightarrow> 'k \<Rightarrow> 'k list" where
  "remove_from_queue queue key = remove1 key queue"

definition main_capacity :: "'k s3_policy \<Rightarrow> usize" where
  "main_capacity s = live_capacity (cfg s) - small_capacity (cfg s)"

definition owner_at_budget :: "string \<Rightarrow> 'k s3_policy \<Rightarrow> bool" where
  "owner_at_budget owner s =
     ((case bt_get (owner_live_counts s) owner of None \<Rightarrow> 0 | Some n \<Rightarrow> n)
        \<ge> max_entries_per_owner (cfg s))"

definition increment_owner :: "string \<Rightarrow> 'k s3_policy \<Rightarrow> 'k s3_policy" where
  "increment_owner owner s =
     s\<lparr>owner_live_counts :=
        (case bt_get (owner_live_counts s) owner of
           Some count \<Rightarrow> bt_insert owner (count + 1) (owner_live_counts s)
         | None \<Rightarrow> bt_insert owner 1 (owner_live_counts s))\<rparr>"

definition decrement_owner :: "string \<Rightarrow> 'k s3_policy \<Rightarrow> 'k s3_policy" where
  "decrement_owner owner s =
     (case bt_get (owner_live_counts s) owner of
        None \<Rightarrow> s
      | Some count \<Rightarrow>
          if count > 1
          then s\<lparr>owner_live_counts := bt_insert owner (count - 1) (owner_live_counts s)\<rparr>
          else s\<lparr>owner_live_counts := bt_remove owner (owner_live_counts s)\<rparr>)"

definition remove_owner_for_key :: "'k::linorder \<Rightarrow> 'k s3_policy \<Rightarrow> 'k s3_policy" where
  "remove_owner_for_key key s =
     (case bt_get (live_owners s) key of
        None \<Rightarrow> s
      | Some owner \<Rightarrow> decrement_owner owner (s\<lparr>live_owners := bt_remove key (live_owners s)\<rparr>))"

definition remove_ghost :: "'k::linorder \<Rightarrow> 'k s3_policy \<Rightarrow> 'k s3_policy" where
  "remove_ghost key s =
     (case bt_get (ghost_lookup s) key of
        None \<Rightarrow> s
      | Some generation \<Rightarrow> s\<lparr>ghost_lookup := bt_remove key (ghost_lookup s),
                             ghost_order := bt_remove generation (ghost_order s)\<rparr>)"

text \<open>The loop at the end of \<open>push_ghost\<close>, on the pair of ghost maps.\<close>

fun trim_ghosts ::
  "usize \<Rightarrow> (u64, 'k::linorder) btree \<Rightarrow> ('k, u64) btree \<Rightarrow> (u64, 'k) btree \<times> ('k, u64) btree" where
  "trim_ghosts capacity order lookup =
     (if bt_len lookup > capacity then
        (case order of
           [] \<Rightarrow> (order, lookup)
         | (generation, popped) # order' \<Rightarrow> trim_ghosts capacity order' (bt_remove popped lookup))
      else (order, lookup))"

declare trim_ghosts.simps [simp del]

definition push_ghost :: "'k::linorder \<Rightarrow> 'k s3_policy \<Rightarrow> 'k s3_policy" where
  "push_ghost key s =
     (let s0 = (if ghost_gen s = u64_max
                then s\<lparr>ghost_gen := 0, ghost_order := bt_empty, ghost_lookup := bt_empty\<rparr> else s);
          s1 = s0\<lparr>ghost_gen := sat_add64 (ghost_gen s0) 1\<rparr>;
          s2 = (case bt_get (ghost_lookup s1) key of
                  Some old_gen \<Rightarrow>
                    (let s2 = s1\<lparr>ghost_lookup := bt_insert key (ghost_gen s1) (ghost_lookup s1)\<rparr> in
                     case bt_get (ghost_order s2) old_gen of
                       Some k_reused \<Rightarrow>
                         s2\<lparr>ghost_order := bt_insert (ghost_gen s2) k_reused
                                              (bt_remove old_gen (ghost_order s2))\<rparr>
                     | None \<Rightarrow> s2)
                | None \<Rightarrow>
                    s1\<lparr>ghost_lookup := bt_insert key (ghost_gen s1) (ghost_lookup s1),
                       ghost_order := bt_insert (ghost_gen s1) key (ghost_order s1)\<rparr>);
          (order, lookup) = trim_ghosts (ghost_capacity (cfg s2)) (ghost_order s2) (ghost_lookup s2)
      in s2\<lparr>ghost_order := order, ghost_lookup := lookup\<rparr>)"

definition evict_small_front_to_ghost :: "'k::linorder s3_policy \<Rightarrow> 'k s3_policy" where
  "evict_small_front_to_ghost s =
     (case small s of
        [] \<Rightarrow> s
      | key # rest \<Rightarrow>
          push_ghost key (remove_owner_for_key key
            (s\<lparr>small := rest, live_tiers := bt_remove key (live_tiers s)\<rparr>)))"

definition evict_main_front_to_ghost :: "'k::linorder s3_policy \<Rightarrow> 'k s3_policy" where
  "evict_main_front_to_ghost s =
     (case main s of
        [] \<Rightarrow> s
      | key # rest \<Rightarrow>
          push_ghost key (remove_owner_for_key key
            (s\<lparr>main := rest, live_tiers := bt_remove key (live_tiers s)\<rparr>)))"

lemma decrement_owner_frame [simp]:
  "small (decrement_owner ow s) = small s" "main (decrement_owner ow s) = main s"
  "cfg (decrement_owner ow s) = cfg s" "live_tiers (decrement_owner ow s) = live_tiers s"
  "live_owners (decrement_owner ow s) = live_owners s"
  "ghost_lookup (decrement_owner ow s) = ghost_lookup s"
  "ghost_order (decrement_owner ow s) = ghost_order s"
  "ghost_gen (decrement_owner ow s) = ghost_gen s"
  "recent_signals (decrement_owner ow s) = recent_signals s"
  "fallback_reason (decrement_owner ow s) = fallback_reason s"
  by (auto simp: decrement_owner_def split: option.splits)

lemma remove_owner_frame [simp]:
  "small (remove_owner_for_key k s) = small s" "main (remove_owner_for_key k s) = main s"
  "cfg (remove_owner_for_key k s) = cfg s" "live_tiers (remove_owner_for_key k s) = live_tiers s"
  "ghost_lookup (remove_owner_for_key k s) = ghost_lookup s"
  "ghost_order (remove_owner_for_key k s) = ghost_order s"
  "ghost_gen (remove_owner_for_key k s) = ghost_gen s"
  "recent_signals (remove_owner_for_key k s) = recent_signals s"
  "fallback_reason (remove_owner_for_key k s) = fallback_reason s"
  by (auto simp: remove_owner_for_key_def split: option.splits)

lemma push_ghost_frame [simp]:
  "small (push_ghost k s) = small s" "main (push_ghost k s) = main s"
  "cfg (push_ghost k s) = cfg s" "live_tiers (push_ghost k s) = live_tiers s"
  "live_owners (push_ghost k s) = live_owners s"
  "owner_live_counts (push_ghost k s) = owner_live_counts s"
  "recent_signals (push_ghost k s) = recent_signals s"
  "fallback_reason (push_ghost k s) = fallback_reason s"
  by (auto simp: push_ghost_def Let_def split: option.splits prod.splits)

lemma evict_small_queues [simp]:
  "small (evict_small_front_to_ghost s) = tl (small s)"
  "main (evict_small_front_to_ghost s) = main s"
  "cfg (evict_small_front_to_ghost s) = cfg s"
  "recent_signals (evict_small_front_to_ghost s) = recent_signals s"
  "fallback_reason (evict_small_front_to_ghost s) = fallback_reason s"
  by (auto simp: evict_small_front_to_ghost_def split: list.splits)

lemma evict_main_queues [simp]:
  "main (evict_main_front_to_ghost s) = tl (main s)"
  "small (evict_main_front_to_ghost s) = small s"
  "cfg (evict_main_front_to_ghost s) = cfg s"
  "recent_signals (evict_main_front_to_ghost s) = recent_signals s"
  "fallback_reason (evict_main_front_to_ghost s) = fallback_reason s"
  by (auto simp: evict_main_front_to_ghost_def split: list.splits)

function enforce_small_capacity :: "'k::linorder s3_policy \<Rightarrow> 'k s3_policy" where
  "enforce_small_capacity s =
     (if length (small s) > small_capacity (cfg s)
      then enforce_small_capacity (evict_small_front_to_ghost s) else s)"
  by pat_completeness auto
termination
  by (relation "measure (\<lambda>s. length (small s))") auto

function enforce_main_capacity :: "'k::linorder s3_policy \<Rightarrow> 'k s3_policy" where
  "enforce_main_capacity s =
     (if length (main s) > main_capacity s
      then enforce_main_capacity (evict_main_front_to_ghost s) else s)"
  by pat_completeness auto
termination
  by (relation "measure (\<lambda>s. length (main s))") auto

function enforce_live_capacity :: "'k::linorder s3_policy \<Rightarrow> 'k s3_policy" where
  "enforce_live_capacity s =
     (if live_depth s > live_capacity (cfg s)
      then enforce_live_capacity
             (if small s = [] then evict_main_front_to_ghost s else evict_small_front_to_ghost s)
      else s)"
  by pat_completeness auto
termination
  by (relation "measure (\<lambda>s. length (small s) + length (main s))")
    (auto simp: live_depth_def neq_Nil_conv)

declare enforce_small_capacity.simps [simp del]
declare enforce_main_capacity.simps [simp del]
declare enforce_live_capacity.simps [simp del]

definition remove_live_key :: "'k::linorder \<Rightarrow> 'k s3_policy \<Rightarrow> 'k s3_policy" where
  "remove_live_key key s =
     (case bt_get (live_tiers s) key of
        None \<Rightarrow> s
      | Some tier \<Rightarrow>
          (let s1 = s\<lparr>live_tiers := bt_remove key (live_tiers s)\<rparr>;
               s2 = (case tier of
                       LiveSmall \<Rightarrow> s1\<lparr>small := remove_from_queue (small s1) key\<rparr>
                     | LiveMain \<Rightarrow> s1\<lparr>main := remove_from_queue (main s1) key\<rparr>)
           in remove_owner_for_key key s2))"

definition purge_key :: "'k::linorder \<Rightarrow> 'k s3_policy \<Rightarrow> 'k s3_policy" where
  "purge_key key s = remove_ghost key (remove_live_key key s)"

definition touch_main :: "'k \<Rightarrow> 'k s3_policy \<Rightarrow> 'k s3_policy" where
  "touch_main key s = s\<lparr>main := remove_from_queue (main s) key @ [key]\<rparr>"

definition promote_small_to_main :: "'k::linorder \<Rightarrow> 'k s3_policy \<Rightarrow> 'k s3_policy" where
  "promote_small_to_main key s =
     enforce_live_capacity (enforce_main_capacity
       (s\<lparr>small := remove_from_queue (small s) key, main := main s @ [key],
          live_tiers := bt_insert key LiveMain (live_tiers s)\<rparr>))"

definition admit_small :: "string \<Rightarrow> 'k::linorder \<Rightarrow> 'k s3_policy \<Rightarrow> 'k s3_policy" where
  "admit_small owner key s =
     (let s1 = purge_key key s;
          s2 = s1\<lparr>small := small s1 @ [key], live_tiers := bt_insert key LiveSmall (live_tiers s1),
                 live_owners := bt_insert key owner (live_owners s1)\<rparr>
      in enforce_live_capacity (enforce_small_capacity (increment_owner owner s2)))"

definition admit_from_ghost :: "string \<Rightarrow> 'k::linorder \<Rightarrow> 'k s3_policy \<Rightarrow> 'k s3_policy" where
  "admit_from_ghost owner key s =
     (let s1 = remove_ghost key s;
          s2 = s1\<lparr>main := main s1 @ [key], live_tiers := bt_insert key LiveMain (live_tiers s1),
                 live_owners := bt_insert key owner (live_owners s1)\<rparr>
      in enforce_live_capacity (enforce_main_capacity (increment_owner owner s2)))"

definition s3_decision_of ::
  "'k s3_policy \<Rightarrow> s3_decision_kind \<Rightarrow> s3_tier \<Rightarrow> bool \<Rightarrow> s3_fallback_reason option \<Rightarrow> s3_decision" where
  "s3_decision_of s kind tier ghost_hit why =
     \<lparr>dec_kind = kind, dec_tier = tier, dec_ghost_hit = ghost_hit, dec_fallback_reason = why,
      dec_live_depth = live_depth s, dec_small_depth = length (small s),
      dec_main_depth = length (main s), dec_ghost_depth = bt_len (ghost_lookup s)\<rparr>"

fun resolve_tier :: "s3_decision_kind \<Rightarrow> bool \<Rightarrow> s3_tier" where
  "resolve_tier HitMain _ = TierMain"
| "resolve_tier PromoteSmallToMain _ = TierMain"
| "resolve_tier AdmitFromGhost _ = TierMain"
| "resolve_tier AdmitSmall _ = TierSmall"
| "resolve_tier RejectFairnessBudget ghost_hit = (if ghost_hit then TierGhost else TierSmall)"
| "resolve_tier FallbackBypass _ = TierFallback"

definition record_signal :: "decision_signal \<Rightarrow> 'k s3_policy \<Rightarrow> 'k s3_policy" where
  "record_signal sg s =
     s\<lparr>recent_signals := drop (length (recent_signals s) + 1 - fallback_window (cfg s))
                             (recent_signals s @ [sg])\<rparr>"

definition evaluate_fallback :: "'k s3_policy \<Rightarrow> 'k s3_policy" where
  "evaluate_fallback s =
     (if fallback_reason s \<noteq> None \<or> length (recent_signals s) < fallback_window (cfg s) then s
      else
        let ghost_hits = length (filter sig_ghost_hit (recent_signals s));
            budget_rejections = length (filter sig_budget_rejected (recent_signals s))
        in if ghost_hits < min_ghost_hits_in_window (cfg s)
           then s\<lparr>fallback_reason := Some SignalQualityInsufficient\<rparr>
           else if budget_rejections > max_budget_rejections_in_window (cfg s)
           then s\<lparr>fallback_reason := Some FairnessInstability\<rparr>
           else s)"

text \<open>The branches of \<open>access\<close>: what happened to the key, with the ghost flag and the new state.\<close>

definition classify_access ::
  "string \<Rightarrow> 'k::linorder \<Rightarrow> 'k s3_policy \<Rightarrow> s3_decision_kind \<times> bool \<times> 'k s3_policy" where
  "classify_access owner key s =
     (case bt_get (live_tiers s) key of
        Some LiveMain \<Rightarrow> (HitMain, False, touch_main key s)
      | Some LiveSmall \<Rightarrow>
          (let s1 = promote_small_to_main key s in
           (PromoteSmallToMain, False, s1\<lparr>promotions_total := sat_add64 (promotions_total s1) 1\<rparr>))
      | None \<Rightarrow>
          if bt_contains (ghost_lookup s) key then
            (let s1 = s\<lparr>ghost_hits_total := sat_add64 (ghost_hits_total s) 1\<rparr> in
             if owner_at_budget owner s1 then
               (RejectFairnessBudget, True,
                s1\<lparr>budget_rejections_total := sat_add64 (budget_rejections_total s1) 1\<rparr>)
             else
               (let s2 = admit_from_ghost owner key s1 in
                (AdmitFromGhost, True, s2\<lparr>admissions_total := sat_add64 (admissions_total s2) 1\<rparr>)))
          else if owner_at_budget owner s then
            (RejectFairnessBudget, False,
             s\<lparr>budget_rejections_total := sat_add64 (budget_rejections_total s) 1\<rparr>)
          else
            (let s1 = admit_small owner key s in
             (AdmitSmall, False, s1\<lparr>admissions_total := sat_add64 (admissions_total s1) 1\<rparr>)))"

definition access :: "string \<Rightarrow> 'k::linorder \<Rightarrow> 'k s3_policy \<Rightarrow> s3_decision \<times> 'k s3_policy" where
  "access owner key s =
     (case fallback_reason s of
        Some why \<Rightarrow> (s3_decision_of s FallbackBypass TierFallback False (Some why), s)
      | None \<Rightarrow>
          (let (kind, ghost_hit, s1) = classify_access owner key s;
               s2 = evaluate_fallback (record_signal
                      \<lparr>sig_ghost_hit = ghost_hit,
                       sig_budget_rejected = (kind = RejectFairnessBudget)\<rparr> s1)
           in (s3_decision_of s2 kind (resolve_tier kind ghost_hit) ghost_hit (fallback_reason s2), s2)))"

section \<open>Well-formed states\<close>

text \<open>The owner counters against the owners of the live keys, on the two maps alone.\<close>

definition owned :: "('k, string) btree \<Rightarrow> string \<Rightarrow> 'k set" where
  "owned owners ow = {k. bt_get owners k = Some ow}"

definition counts_ok :: "(string, usize) btree \<Rightarrow> ('k::linorder, string) btree \<Rightarrow> bool" where
  "counts_ok counts owners \<longleftrightarrow>
     bt_wf counts \<and> bt_wf owners \<and>
     (\<forall>ow. bt_get counts ow =
       (if owned owners ow = {} then None else Some (card (owned owners ow))))"

lemma finite_owned [simp]: "finite (owned (owners :: ('k::linorder, string) btree) ow)"
  by (rule finite_subset [OF _ bt.finite_dom [of owners]]) (auto simp: owned_def)

lemma owned_insert:
  "bt_wf owners \<Longrightarrow> bt_get owners k = None \<Longrightarrow>
     owned (bt_insert k ow owners) ow' = (if ow' = ow then insert k (owned owners ow) else owned owners ow')"
  by (auto simp: owned_def)

lemma owned_remove:
  "bt_wf owners \<Longrightarrow> bt_get owners k = Some ow \<Longrightarrow>
     owned (bt_remove k owners) ow' = (if ow' = ow then owned owners ow - {k} else owned owners ow')"
  by (auto simp: owned_def)

lemma counts_ok_insert:
  assumes "counts_ok counts owners" and "bt_get owners k = None"
  shows "counts_ok (bt_insert ow (case bt_get counts ow of None \<Rightarrow> 1 | Some n \<Rightarrow> n + 1) counts)
           (bt_insert k ow owners)"
proof -
  have "k \<notin> owned owners ow" using assms(2) by (simp add: owned_def)
  then show ?thesis
    using assms by (auto simp: counts_ok_def owned_insert)
qed

lemma counts_ok_remove:
  assumes "counts_ok counts owners" and "bt_get owners k = Some ow"
  shows "counts_ok (case bt_get counts ow of None \<Rightarrow> counts
             | Some n \<Rightarrow> if n > 1 then bt_insert ow (n - 1) counts else bt_remove ow counts)
           (bt_remove k owners)"
proof -
  have k: "k \<in> owned owners ow" using assms(2) by (simp add: owned_def)
  then have some: "bt_get counts ow = Some (card (owned owners ow))"
    using assms(1) by (auto simp: counts_ok_def)
  have pos: "card (owned owners ow) > 0" using k by (auto simp: card_gt_0_iff)
  have card: "card (owned owners ow - {k}) = card (owned owners ow) - 1"
    using k by simp
  have none: "owned owners ow - {k} = {} \<longleftrightarrow> card (owned owners ow) = 1"
    using card pos card_eq_0_iff [of "owned owners ow - {k}"] by auto
  show ?thesis
    using assms some pos card none by (auto simp: counts_ok_def owned_remove)
qed

text \<open>The live part of the state: each queue holds exactly the keys of its tier, once each.\<close>

definition live_wf :: "'k::linorder s3_policy \<Rightarrow> bool" where
  "live_wf s \<longleftrightarrow>
     bt_wf (live_tiers s) \<and> distinct (small s) \<and> distinct (main s) \<and>
     set (small s) = {k. bt_get (live_tiers s) k = Some LiveSmall} \<and>
     set (main s) = {k. bt_get (live_tiers s) k = Some LiveMain} \<and>
     dom (bt_get (live_owners s)) = dom (bt_get (live_tiers s)) \<and>
     counts_ok (owner_live_counts s) (live_owners s)"

text \<open>The ghost part: the two maps are inverse to each other and within the capacity.\<close>

definition ghosts_ok :: "u64 \<Rightarrow> (u64, 'k::linorder) btree \<Rightarrow> ('k, u64) btree \<Rightarrow> bool" where
  "ghosts_ok gen order lookup \<longleftrightarrow>
     bt_wf order \<and> bt_wf lookup \<and>
     (\<forall>k g. bt_get lookup k = Some g \<longleftrightarrow> bt_get order g = Some k) \<and>
     (\<forall>g \<in> dom (bt_get order). g \<le> gen)"

definition ghost_wf :: "'k::linorder s3_policy \<Rightarrow> bool" where
  "ghost_wf s \<longleftrightarrow>
     ghosts_ok (ghost_gen s) (ghost_order s) (ghost_lookup s) \<and> ghost_gen s \<le> u64_max \<and>
     bt_len (ghost_lookup s) \<le> ghost_capacity (cfg s)"

definition ghosts_not_live :: "'k::linorder s3_policy \<Rightarrow> bool" where
  "ghosts_not_live s \<longleftrightarrow> dom (bt_get (ghost_lookup s)) \<inter> dom (bt_get (live_tiers s)) = {}"

definition cfg_ok :: "s3_config \<Rightarrow> bool" where
  "cfg_ok c \<longleftrightarrow>
     1 \<le> small_capacity c \<and> small_capacity c < live_capacity c \<and> 1 \<le> ghost_capacity c \<and>
     1 \<le> max_entries_per_owner c \<and> 1 \<le> fallback_window c"

text \<open>What holds even between the steps of an operation.\<close>

definition s3_wf :: "'k::linorder s3_policy \<Rightarrow> bool" where
  "s3_wf s \<longleftrightarrow> cfg_ok (cfg s) \<and> live_wf s \<and> ghost_wf s \<and> ghosts_not_live s"

subsection \<open>Ghosts\<close>

lemma ghosts_okD:
  assumes "ghosts_ok gen order lookup"
  shows "bt_wf order" and "bt_wf lookup"
    and "bt_get lookup k = Some g \<longleftrightarrow> bt_get order g = Some k"
    and "g \<in> dom (bt_get order) \<Longrightarrow> g \<le> gen"
  using assms by (auto simp: ghosts_ok_def)

lemma ghosts_ok_remove:
  assumes "ghosts_ok gen order lookup" and "bt_get lookup k = Some g"
  shows "ghosts_ok gen (bt_remove g order) (bt_remove k lookup)"
proof -
  note inverse = ghosts_okD [OF assms(1)]
  have there: "bt_get order g = Some k" using assms(2) inverse(3) by simp
  have "bt_get (bt_remove k lookup) k' = Some g' \<longleftrightarrow> bt_get (bt_remove g order) g' = Some k'" for k' g'
    using inverse(3) [of k' g'] assms(2) there
    by (cases "k' = k"; cases "g' = g") (auto simp: inverse(1,2))
  then show ?thesis
    using inverse(1,2,4) by (auto simp: ghosts_ok_def bt.dom_remove)
qed

lemma ghosts_ok_add:
  assumes "ghosts_ok gen order lookup" and "bt_get lookup k = None"
  shows "ghosts_ok (Suc gen) (bt_insert (Suc gen) k order) (bt_insert k (Suc gen) lookup)"
proof -
  note inverse = ghosts_okD [OF assms(1)]
  have fresh: "bt_get order (Suc gen) = None"
    using inverse(4) [of "Suc gen"] by (cases "bt_get order (Suc gen)") auto
  have "bt_get (bt_insert k (Suc gen) lookup) k' = Some g' \<longleftrightarrow>
        bt_get (bt_insert (Suc gen) k order) g' = Some k'" for k' g'
    using inverse(3) [of k' g'] assms(2) fresh
    by (cases "k' = k"; cases "g' = Suc gen") (auto simp: inverse(1,2))
  then show ?thesis
    using inverse(1,2) inverse(4) [THEN le_SucI] by (auto simp: ghosts_ok_def bt.dom_insert)
qed

lemma trim_ghosts_ok:
  assumes "ghosts_ok gen order lookup"
  shows "ghosts_ok gen (fst (trim_ghosts c order lookup)) (snd (trim_ghosts c order lookup)) \<and>
         bt_len (snd (trim_ghosts c order lookup)) \<le> c \<and>
         dom (bt_get (snd (trim_ghosts c order lookup))) \<subseteq> dom (bt_get lookup)"
  using assms
proof (induction c order lookup rule: trim_ghosts.induct)
  case (1 c order lookup)
  show ?case
  proof (cases "bt_len lookup > c")
    case False
    with "1.prems" show ?thesis by (simp add: trim_ghosts.simps [of c order lookup])
  next
    case True
    show ?thesis
    proof (cases order)
      case Nil
      with "1.prems" have "\<forall>k. bt_get lookup k = None" by (auto simp: ghosts_ok_def)
      then have "bt_len lookup = 0"
        using "1.prems" by (simp add: bt.len_zero_iff ghosts_ok_def)
      with True show ?thesis by simp
    next
      case (Cons e order')
      obtain g k where e: "e = (g, k)" by fastforce
      have "bt_get order g = Some k" using Cons e by simp
      then have look: "bt_get lookup k = Some g" using "1.prems" by (simp add: ghosts_ok_def)
      moreover have "bt_remove g order = order'" using Cons e by simp
      ultimately have ok: "ghosts_ok gen order' (bt_remove k lookup)"
        using ghosts_ok_remove [OF "1.prems"] by fastforce
      have "trim_ghosts c order lookup = trim_ghosts c order' (bt_remove k lookup)"
        using True Cons e by (subst trim_ghosts.simps) simp
      moreover have "dom (bt_get (bt_remove k lookup)) \<subseteq> dom (bt_get lookup)"
        using "1.prems" by (auto simp: ghosts_ok_def bt.dom_remove)
      ultimately show ?thesis
        using "1.IH" [OF True Cons e [symmetric] ok] by simp blast
    qed
  qed
qed

lemma push_ghost_new:
  assumes "ghost_wf s" and "bt_get (ghost_lookup s) key = None"
  shows "ghost_wf (push_ghost key s) \<and>
         dom (bt_get (ghost_lookup (push_ghost key s))) \<subseteq> insert key (dom (bt_get (ghost_lookup s)))"
proof -
  define order where "order = (if ghost_gen s = u64_max then bt_empty else ghost_order s)"
  define lookup where "lookup = (if ghost_gen s = u64_max then bt_empty else ghost_lookup s)"
  define gen where "gen = (if ghost_gen s = u64_max then 0 else ghost_gen s)"
  have gen: "gen < u64_max" "sat_add64 gen 1 = Suc gen"
    using assms(1) by (auto simp: gen_def ghost_wf_def)
  have ok: "ghosts_ok gen order lookup" and none: "bt_get lookup key = None"
    using assms by (auto simp: order_def lookup_def gen_def ghost_wf_def ghosts_ok_def dom_def)
  have dom: "dom (bt_get lookup) \<subseteq> dom (bt_get (ghost_lookup s))"
    by (auto simp: lookup_def)
  let ?order = "bt_insert (Suc gen) key order" and ?lookup = "bt_insert key (Suc gen) lookup"
  let ?trim = "trim_ghosts (ghost_capacity (cfg s)) ?order ?lookup"
  have pushed: "ghost_order (push_ghost key s) = fst ?trim"
      "ghost_lookup (push_ghost key s) = snd ?trim" "ghost_gen (push_ghost key s) = Suc gen"
    using none gen(2)
    by (auto simp: push_ghost_def Let_def order_def lookup_def gen_def split: prod.splits if_splits)
  have "dom (bt_get ?lookup) = insert key (dom (bt_get lookup))"
    using ok by (simp add: ghosts_ok_def bt.dom_insert)
  then show ?thesis
    using trim_ghosts_ok [OF ghosts_ok_add [OF ok none], of "ghost_capacity (cfg s)"] gen(1) dom
    by (simp add: ghost_wf_def pushed) blast
qed

lemma remove_ghost_wf:
  assumes "ghost_wf s"
  shows "ghost_wf (remove_ghost key s) \<and>
         bt_get (ghost_lookup (remove_ghost key s)) = (bt_get (ghost_lookup s))(key := None)"
proof (cases "bt_get (ghost_lookup s) key")
  case None
  then show ?thesis using assms by (auto simp: remove_ghost_def)
next
  case (Some g)
  have wf: "bt_wf (ghost_lookup s)" using assms by (simp add: ghost_wf_def ghosts_ok_def)
  have "bt_len (bt_remove key (ghost_lookup s)) \<le> bt_len (ghost_lookup s)"
    using wf by (simp add: bt.len_remove)
  then show ?thesis
    using assms Some wf ghosts_ok_remove [of _ _ _ key g]
    by (auto simp: remove_ghost_def ghost_wf_def fun_eq_iff)
qed

lemma remove_ghost_frame [simp]:
  "small (remove_ghost k s) = small s" "main (remove_ghost k s) = main s"
  "cfg (remove_ghost k s) = cfg s" "live_tiers (remove_ghost k s) = live_tiers s"
  "live_owners (remove_ghost k s) = live_owners s"
  "owner_live_counts (remove_ghost k s) = owner_live_counts s"
  "recent_signals (remove_ghost k s) = recent_signals s"
  "fallback_reason (remove_ghost k s) = fallback_reason s"
  by (auto simp: remove_ghost_def split: option.splits)

subsection \<open>Live keys\<close>

lemma remove_owner_fields:
  "bt_get (live_owners s) k = Some ow \<Longrightarrow>
     live_owners (remove_owner_for_key k s) = bt_remove k (live_owners s) \<and>
     owner_live_counts (remove_owner_for_key k s) =
       (case bt_get (owner_live_counts s) ow of None \<Rightarrow> owner_live_counts s
        | Some n \<Rightarrow> if n > 1 then bt_insert ow (n - 1) (owner_live_counts s)
                    else bt_remove ow (owner_live_counts s))"
  by (auto simp: remove_owner_for_key_def decrement_owner_def split: option.splits)

lemma live_wfD:
  assumes "live_wf s"
  shows "bt_wf (live_tiers s)" and "distinct (small s)" and "distinct (main s)"
    and "k \<in> set (small s) \<longleftrightarrow> bt_get (live_tiers s) k = Some LiveSmall"
    and "k \<in> set (main s) \<longleftrightarrow> bt_get (live_tiers s) k = Some LiveMain"
    and "bt_get (live_owners s) k = None \<longleftrightarrow> bt_get (live_tiers s) k = None"
    and "counts_ok (owner_live_counts s) (live_owners s)"
proof -
  show "bt_get (live_owners s) k = None \<longleftrightarrow> bt_get (live_tiers s) k = None"
    using assms unfolding live_wf_def by (metis domIff)
qed (use assms in \<open>auto simp: live_wf_def\<close>)

text \<open>Taking a key out of its queue, out of the tiers and from its owner.\<close>

lemma live_wf_drop:
  assumes "live_wf s" and "bt_get (live_tiers s) k \<noteq> None"
    and "t = s\<lparr>small := remove1 k (small s), main := remove1 k (main s),
              live_tiers := bt_remove k (live_tiers s)\<rparr>"
  shows "live_wf (remove_owner_for_key k t)"
proof -
  note wf = live_wfD [OF assms(1)]
  obtain ow where ow: "bt_get (live_owners s) k = Some ow"
    using wf(6) [of k] assms(2) by auto
  have owners: "bt_wf (live_owners s)" using wf(7) by (simp add: counts_ok_def)
  have same: "live_owners t = live_owners s" "owner_live_counts t = owner_live_counts s"
    using assms(3) by simp_all
  have "live_owners (remove_owner_for_key k t) = bt_remove k (live_owners s)"
    and counts: "counts_ok (owner_live_counts (remove_owner_for_key k t)) (bt_remove k (live_owners s))"
    using remove_owner_fields [of t k ow, unfolded same] ow counts_ok_remove [OF wf(7) ow] by auto
  then show ?thesis
    using wf(1-3) assms(1,3) counts owners
    by (auto simp: live_wf_def set_remove1_eq bt.dom_remove distinct_remove1)
qed

lemma live_wf_add:
  assumes "live_wf s" and "bt_get (live_tiers s) k = None"
    and "t = s\<lparr>small := small s @ (if tier = LiveSmall then [k] else []),
              main := main s @ (if tier = LiveMain then [k] else []),
              live_tiers := bt_insert k tier (live_tiers s),
              live_owners := bt_insert k ow (live_owners s)\<rparr>"
  shows "live_wf (increment_owner ow t)"
proof -
  note wf = live_wfD [OF assms(1)]
  have none: "bt_get (live_owners s) k = None" using wf(6) assms(2) by blast
  have "owner_live_counts (increment_owner ow t) =
      bt_insert ow (case bt_get (owner_live_counts s) ow of None \<Rightarrow> 1 | Some n \<Rightarrow> n + 1) (owner_live_counts s)"
    using assms(3) by (auto simp: increment_owner_def split: option.splits)
  then have counts: "counts_ok (owner_live_counts (increment_owner ow t)) (bt_insert k ow (live_owners s))"
    using counts_ok_insert [OF wf(7) none] by simp
  have owners: "bt_wf (live_owners s)" using wf(7) by (simp add: counts_ok_def)
  have fresh: "k \<notin> set (small s)" "k \<notin> set (main s)" using wf(4,5) assms(2) by auto
  show ?thesis
    using wf(1-3) assms(1-3) counts owners fresh
    by (cases tier) (auto simp: live_wf_def increment_owner_def bt.dom_insert)
qed

lemma live_wf_retier:
  assumes "live_wf s" and "bt_get (live_tiers s) k \<noteq> None"
  shows "live_wf (s\<lparr>small := remove1 k (small s), main := remove1 k (main s) @ [k],
                    live_tiers := bt_insert k LiveMain (live_tiers s)\<rparr>)"
proof -
  note wf = live_wfD [OF assms(1)]
  show ?thesis
    using wf(1-3) assms
    by (auto simp: live_wf_def set_remove1_eq bt.dom_insert distinct_remove1 domIff insert_absorb)
qed

lemma increment_owner_frame [simp]:
  "small (increment_owner ow s) = small s" "main (increment_owner ow s) = main s"
  "cfg (increment_owner ow s) = cfg s" "live_tiers (increment_owner ow s) = live_tiers s"
  "live_owners (increment_owner ow s) = live_owners s"
  "ghost_lookup (increment_owner ow s) = ghost_lookup s"
  "ghost_order (increment_owner ow s) = ghost_order s"
  "ghost_gen (increment_owner ow s) = ghost_gen s"
  "recent_signals (increment_owner ow s) = recent_signals s"
  "fallback_reason (increment_owner ow s) = fallback_reason s"
  by (simp_all add: increment_owner_def)

lemma ghost_wf_cong:
  "ghost_wf s \<Longrightarrow> ghost_gen t = ghost_gen s \<Longrightarrow> ghost_order t = ghost_order s \<Longrightarrow>
     ghost_lookup t = ghost_lookup s \<Longrightarrow> cfg t = cfg s \<Longrightarrow> ghost_wf t"
  by (simp add: ghost_wf_def)

lemma live_wf_cong:
  "live_wf s \<Longrightarrow> live_tiers t = live_tiers s \<Longrightarrow> small t = small s \<Longrightarrow> main t = main s \<Longrightarrow>
     live_owners t = live_owners s \<Longrightarrow> owner_live_counts t = owner_live_counts s \<Longrightarrow> live_wf t"
  by (simp add: live_wf_def)

subsection \<open>Evictions\<close>

text \<open>Evicting the front of either queue is dropping a live key and pushing it to the ghosts.\<close>

lemma disjoint_move: "A \<inter> B = {} \<Longrightarrow> A' \<subseteq> insert k A \<Longrightarrow> B' = B - {k} \<Longrightarrow> A' \<inter> B' = {}"
  by auto

lemma evict_wf:
  assumes "s3_wf s" and "bt_get (live_tiers s) k \<noteq> None"
    and "t = remove_owner_for_key k (s\<lparr>small := remove1 k (small s), main := remove1 k (main s),
              live_tiers := bt_remove k (live_tiers s)\<rparr>)"
  shows "s3_wf (push_ghost k t)"
proof -
  have live: "live_wf t"
    unfolding assms(3) by (rule live_wf_drop [OF _ assms(2) refl]) (use assms(1) in \<open>simp add: s3_wf_def\<close>)
  have ghost: "ghost_wf t"
    by (rule ghost_wf_cong [of s]) (use assms(1) in \<open>simp_all add: s3_wf_def assms(3)\<close>)
  have tiers: "bt_get (live_tiers t) = (bt_get (live_tiers s))(k := None)"
    using assms(1,3) live_wfD(1) [of s] by (auto simp: s3_wf_def fun_eq_iff)
  have lookup: "ghost_lookup t = ghost_lookup s" using assms(3) by simp
  have none: "bt_get (ghost_lookup t) k = None"
    using assms(1,2) lookup by (auto simp: s3_wf_def ghosts_not_live_def)
  note pushed = push_ghost_new [OF ghost none]
  have tiers': "dom (bt_get (live_tiers (push_ghost k t))) = dom (bt_get (live_tiers s)) - {k}"
    using tiers by simp
  have apart: "dom (bt_get (ghost_lookup s)) \<inter> dom (bt_get (live_tiers s)) = {}"
    using assms(1) by (simp only: s3_wf_def ghosts_not_live_def)
  have "ghosts_not_live (push_ghost k t)"
    unfolding ghosts_not_live_def
    by (rule disjoint_move [OF apart conjunct2 [OF pushed, unfolded lookup] tiers'])
  moreover have "live_wf (push_ghost k t)"
    using live by (rule live_wf_cong) simp_all
  moreover have "cfg (push_ghost k t) = cfg s" using assms(3) by simp
  moreover have "cfg_ok (cfg s)" using assms(1) by (simp add: s3_wf_def)
  ultimately show ?thesis
    using conjunct1 [OF pushed] by (simp only: s3_wf_def)
qed

lemma queue_front:
  assumes "live_wf s"
  shows "small s = k # rest \<Longrightarrow> bt_get (live_tiers s) k = Some LiveSmall \<and> k \<notin> set (main s)"
    and "main s = k # rest \<Longrightarrow> bt_get (live_tiers s) k = Some LiveMain \<and> k \<notin> set (small s)"
  using live_wfD(4,5) [OF assms, of k] by auto

lemma evict_small_wf:
  assumes "s3_wf s"
  shows "s3_wf (evict_small_front_to_ghost s)"
proof (cases "small s")
  case Nil
  then show ?thesis using assms by (simp add: evict_small_front_to_ghost_def)
next
  case (Cons k rest)
  have "live_wf s" using assms by (simp add: s3_wf_def)
  from queue_front(1) [OF this Cons] have k: "bt_get (live_tiers s) k \<noteq> None" and "remove1 k (main s) = main s"
    by (auto simp: remove1_idem)
  then have "s\<lparr>small := rest, live_tiers := bt_remove k (live_tiers s)\<rparr> =
      s\<lparr>small := remove1 k (small s), main := remove1 k (main s), live_tiers := bt_remove k (live_tiers s)\<rparr>"
    using Cons by simp
  then show ?thesis
    using evict_wf [OF assms k refl] Cons by (simp add: evict_small_front_to_ghost_def)
qed

lemma evict_main_wf:
  assumes "s3_wf s"
  shows "s3_wf (evict_main_front_to_ghost s)"
proof (cases "main s")
  case Nil
  then show ?thesis using assms by (simp add: evict_main_front_to_ghost_def)
next
  case (Cons k rest)
  have "live_wf s" using assms by (simp add: s3_wf_def)
  from queue_front(2) [OF this Cons] have k: "bt_get (live_tiers s) k \<noteq> None" and "remove1 k (small s) = small s"
    by (auto simp: remove1_idem)
  then have "s\<lparr>main := rest, live_tiers := bt_remove k (live_tiers s)\<rparr> =
      s\<lparr>small := remove1 k (small s), main := remove1 k (main s), live_tiers := bt_remove k (live_tiers s)\<rparr>"
    using Cons by simp
  then show ?thesis
    using evict_wf [OF assms k refl] Cons by (simp add: evict_main_front_to_ghost_def)
qed

text \<open>What an eviction leaves alone, and that it takes owned keys away only.\<close>

definition shrinks_to :: "'k::linorder s3_policy \<Rightarrow> 'k s3_policy \<Rightarrow> bool" where
  "shrinks_to s t \<longleftrightarrow>
     s3_wf t \<and> cfg t = cfg s \<and> recent_signals t = recent_signals s \<and>
     fallback_reason t = fallback_reason s \<and>
     (\<forall>ow. owned (live_owners t) ow \<subseteq> owned (live_owners s) ow)"

lemma shrinks_to_refl: "s3_wf s \<Longrightarrow> shrinks_to s s"
  by (simp add: shrinks_to_def)

lemma shrinks_to_trans: "shrinks_to s t \<Longrightarrow> shrinks_to t u \<Longrightarrow> shrinks_to s u"
  by (auto simp: shrinks_to_def)

lemma owned_remove_owner:
  "bt_wf (live_owners s) \<Longrightarrow> owned (live_owners (remove_owner_for_key k s)) ow \<subseteq> owned (live_owners s) ow"
  by (auto simp: remove_owner_for_key_def owned_def split: option.splits if_splits)

lemma s3_wf_owners: "s3_wf s \<Longrightarrow> bt_wf (live_owners s)"
  by (simp add: s3_wf_def live_wf_def counts_ok_def)

lemma evict_small_shrinks:
  assumes "s3_wf s"
  shows "shrinks_to s (evict_small_front_to_ghost s)"
proof (cases "small s")
  case Nil
  then show ?thesis
    using assms by (simp add: evict_small_front_to_ghost_def shrinks_to_refl)
next
  case (Cons k rest)
  let ?s = "s\<lparr>small := rest, live_tiers := bt_remove k (live_tiers s)\<rparr>"
  have "owned (live_owners (remove_owner_for_key k ?s)) ow \<subseteq> owned (live_owners s) ow" for ow
    using owned_remove_owner [of ?s k ow] s3_wf_owners [OF assms] by simp
  moreover have "evict_small_front_to_ghost s = push_ghost k (remove_owner_for_key k ?s)"
    using Cons by (simp add: evict_small_front_to_ghost_def)
  ultimately show ?thesis
    using evict_small_wf [OF assms] by (simp add: shrinks_to_def)
qed

lemma evict_main_shrinks:
  assumes "s3_wf s"
  shows "shrinks_to s (evict_main_front_to_ghost s)"
proof (cases "main s")
  case Nil
  then show ?thesis
    using assms by (simp add: evict_main_front_to_ghost_def shrinks_to_refl)
next
  case (Cons k rest)
  let ?s = "s\<lparr>main := rest, live_tiers := bt_remove k (live_tiers s)\<rparr>"
  have "owned (live_owners (remove_owner_for_key k ?s)) ow \<subseteq> owned (live_owners s) ow" for ow
    using owned_remove_owner [of ?s k ow] s3_wf_owners [OF assms] by simp
  moreover have "evict_main_front_to_ghost s = push_ghost k (remove_owner_for_key k ?s)"
    using Cons by (simp add: evict_main_front_to_ghost_def)
  ultimately show ?thesis
    using evict_main_wf [OF assms] by (simp add: shrinks_to_def)
qed

lemma enforce_small_spec:
  "s3_wf s \<Longrightarrow>
     shrinks_to s (enforce_small_capacity s) \<and> main (enforce_small_capacity s) = main s \<and>
     small (enforce_small_capacity s) = drop (length (small s) - small_capacity (cfg s)) (small s)"
proof (induction s rule: enforce_small_capacity.induct)
  case (1 s)
  show ?case
  proof (cases "length (small s) > small_capacity (cfg s)")
    case True
    let ?t = "evict_small_front_to_ghost s"
    have "shrinks_to s ?t" using "1.prems" by (rule evict_small_shrinks)
    moreover have "drop (length (tl (small s)) - small_capacity (cfg s)) (tl (small s)) =
        drop (length (small s) - small_capacity (cfg s)) (small s)"
      using True by (cases "small s") (auto simp: Suc_diff_le)
    ultimately show ?thesis
      using "1.IH" [OF True] True evict_small_wf [OF "1.prems"] shrinks_to_trans
      by (fastforce simp: enforce_small_capacity.simps [of s])
  next
    case False
    then show ?thesis
      using "1.prems" by (simp add: enforce_small_capacity.simps [of s] shrinks_to_refl)
  qed
qed

lemma enforce_main_spec:
  "s3_wf s \<Longrightarrow>
     shrinks_to s (enforce_main_capacity s) \<and> small (enforce_main_capacity s) = small s \<and>
     main (enforce_main_capacity s) = drop (length (main s) - main_capacity s) (main s)"
proof (induction s rule: enforce_main_capacity.induct)
  case (1 s)
  show ?case
  proof (cases "length (main s) > main_capacity s")
    case True
    let ?t = "evict_main_front_to_ghost s"
    have "shrinks_to s ?t" using "1.prems" by (rule evict_main_shrinks)
    moreover have cap: "main_capacity ?t = main_capacity s" by (simp add: main_capacity_def)
    moreover have "drop (length (tl (main s)) - main_capacity s) (tl (main s)) =
        drop (length (main s) - main_capacity s) (main s)"
      using True by (cases "main s") (auto simp: Suc_diff_le)
    ultimately show ?thesis
      using "1.IH" [OF True] True evict_main_wf [OF "1.prems"] shrinks_to_trans
      by (fastforce simp: enforce_main_capacity.simps [of s])
  next
    case False
    then show ?thesis
      using "1.prems" by (simp add: enforce_main_capacity.simps [of s] shrinks_to_refl)
  qed
qed

lemma enforce_live_id:
  "length (small s) \<le> small_capacity (cfg s) \<Longrightarrow> length (main s) \<le> main_capacity s \<Longrightarrow>
     cfg_ok (cfg s) \<Longrightarrow> enforce_live_capacity s = s"
  by (subst enforce_live_capacity.simps) (auto simp: live_depth_def main_capacity_def cfg_ok_def)

section \<open>The invariant\<close>

definition s3_inv :: "'k::linorder s3_policy \<Rightarrow> bool" where
  "s3_inv s \<longleftrightarrow>
     s3_wf s \<and> length (small s) \<le> small_capacity (cfg s) \<and> length (main s) \<le> main_capacity s \<and>
     (\<forall>ow. card (owned (live_owners s) ow) \<le> max_entries_per_owner (cfg s)) \<and>
     length (recent_signals s) \<le> fallback_window (cfg s)"

lemma card_owned_mono: "owned owners ow \<subseteq> owned (owners' :: ('k::linorder, string) btree) ow \<Longrightarrow>
    card (owned owners ow) \<le> card (owned owners' ow)"
  by (rule card_mono) simp_all

lemma owner_at_budget_iff:
  assumes "s3_wf s" and "1 \<le> max_entries_per_owner (cfg s)"
  shows "owner_at_budget ow s \<longleftrightarrow> max_entries_per_owner (cfg s) \<le> card (owned (live_owners s) ow)"
  using assms by (auto simp: owner_at_budget_def s3_wf_def live_wf_def counts_ok_def)

lemma s3_wfI:
  "cfg_ok (cfg t) \<Longrightarrow> live_wf t \<Longrightarrow> ghost_wf t \<Longrightarrow>
     dom (bt_get (ghost_lookup t)) \<inter> dom (bt_get (live_tiers t)) = {} \<Longrightarrow> s3_wf t"
  by (simp add: s3_wf_def ghosts_not_live_def)

lemma s3_wfD:
  assumes "s3_wf s"
  shows "cfg_ok (cfg s)" and "live_wf s" and "ghost_wf s"
    and "dom (bt_get (ghost_lookup s)) \<inter> dom (bt_get (live_tiers s)) = {}"
  using assms by (simp_all add: s3_wf_def ghosts_not_live_def)

lemma drop_last: "1 \<le> c \<Longrightarrow> k \<in> set (drop (length (xs @ [k]) - c) (xs @ [k]))"
  by simp

text \<open>
  The two ends of every admission: from a well-formed state whose queues are at most one entry
  over, cutting the grown queue restores the capacities and keeps the newest key.
\<close>

lemma cut_main:
  assumes "s3_wf t" and "length (small t) \<le> small_capacity (cfg t)" and "main t = xs @ [k]"
    and "u = enforce_live_capacity (enforce_main_capacity t)"
  shows "shrinks_to t u \<and> small u = small t \<and> length (main u) \<le> main_capacity t \<and> k \<in> set (main u)"
proof -
  let ?e = "enforce_main_capacity t"
  note spec = enforce_main_spec [OF assms(1)]
  have cfg: "cfg ?e = cfg t" using spec by (simp add: shrinks_to_def)
  have cap: "1 \<le> main_capacity t"
    using s3_wfD(1) [OF assms(1)] by (auto simp: main_capacity_def cfg_ok_def)
  have "u = ?e"
    unfolding assms(4)
    by (rule enforce_live_id) (use spec cfg assms(2) s3_wfD(1) [OF assms(1)] in \<open>simp_all add: main_capacity_def\<close>)
  then show ?thesis
    using spec cfg cap drop_last [OF cap, of k xs] assms(3) by (simp add: main_capacity_def)
qed

lemma cut_small:
  assumes "s3_wf t" and "length (main t) \<le> main_capacity t" and "small t = xs @ [k]"
    and "u = enforce_live_capacity (enforce_small_capacity t)"
  shows "shrinks_to t u \<and> main u = main t \<and> length (small u) \<le> small_capacity (cfg t) \<and> k \<in> set (small u)"
proof -
  let ?e = "enforce_small_capacity t"
  note spec = enforce_small_spec [OF assms(1)]
  have cfg: "cfg ?e = cfg t" using spec by (simp add: shrinks_to_def)
  have cap: "1 \<le> small_capacity (cfg t)"
    using s3_wfD(1) [OF assms(1)] by (simp add: cfg_ok_def)
  have "u = ?e"
    unfolding assms(4)
    by (rule enforce_live_id) (use spec cfg assms(2) s3_wfD(1) [OF assms(1)] in \<open>simp_all add: main_capacity_def\<close>)
  then show ?thesis
    using spec cfg cap drop_last [OF cap, of k xs] assms(3) by simp
qed

lemma touch_main_wf:
  assumes "s3_wf s" and "bt_get (live_tiers s) k = Some LiveMain"
  shows "s3_wf (touch_main k s)"
proof (rule s3_wfI)
  show "live_wf (touch_main k s)"
    using live_wfD [OF s3_wfD(2) [OF assms(1)]] s3_wfD(2) [OF assms(1)] assms(2)
    by (auto simp: live_wf_def touch_main_def remove_from_queue_def set_remove1_eq distinct_remove1)
  show "ghost_wf (touch_main k s)"
    by (rule ghost_wf_cong [OF s3_wfD(3) [OF assms(1)]]) (simp_all add: touch_main_def)
qed (use s3_wfD [OF assms(1)] in \<open>simp_all add: touch_main_def\<close>)

lemma touch_main_inv:
  assumes "s3_inv s" and "bt_get (live_tiers s) k = Some LiveMain"
  shows "s3_inv (touch_main k s) \<and> k \<in> set (main (touch_main k s))"
proof -
  have wf: "s3_wf s" using assms(1) by (simp add: s3_inv_def)
  have "k \<in> set (main s)" using live_wfD(5) [OF s3_wfD(2) [OF wf]] assms(2) by simp
  then have "length (main (touch_main k s)) = length (main s)"
    by (simp add: touch_main_def remove_from_queue_def length_remove1)
       (metis Suc_pred length_pos_if_in_set)
  then show ?thesis
    using assms touch_main_wf [OF wf assms(2)]
    by (auto simp: s3_inv_def touch_main_def main_capacity_def)
qed

lemma budget_kept:
  assumes "shrinks_to t u" and "\<forall>ow. card (owned (live_owners t) ow) \<le> n"
  shows "\<forall>ow. card (owned (live_owners u) ow) \<le> n"
  using assms card_owned_mono unfolding shrinks_to_def by (metis order_trans)

lemma shrunk_inv:
  assumes "shrinks_to t u" and "length (small u) \<le> small_capacity (cfg t)"
    and "length (main u) \<le> main_capacity t"
    and "\<forall>ow. card (owned (live_owners t) ow) \<le> max_entries_per_owner (cfg t)"
    and "length (recent_signals t) \<le> fallback_window (cfg t)"
  shows "s3_inv u"
  using assms budget_kept [OF assms(1,4)] by (simp add: s3_inv_def shrinks_to_def main_capacity_def)

lemma promote_inv:
  assumes "s3_inv s" and "bt_get (live_tiers s) k = Some LiveSmall"
  shows "s3_inv (promote_small_to_main k s) \<and> k \<in> set (main (promote_small_to_main k s))"
proof -
  have wf: "s3_wf s" using assms(1) by (simp add: s3_inv_def)
  note live = live_wfD [OF s3_wfD(2) [OF wf]]
  have notmain: "remove1 k (main s) = main s" using live(5) [of k] assms(2) by (simp add: remove1_idem)
  let ?t = "s\<lparr>small := remove1 k (small s), main := main s @ [k],
             live_tiers := bt_insert k LiveMain (live_tiers s)\<rparr>"
  have t: "s3_wf ?t"
  proof (rule s3_wfI)
    show "live_wf ?t"
      using live_wf_retier [OF s3_wfD(2) [OF wf], of k] assms(2) by (simp add: notmain)
    show "ghost_wf ?t" by (rule ghost_wf_cong [OF s3_wfD(3) [OF wf]]) simp_all
    have "dom (bt_get (live_tiers ?t)) = dom (bt_get (live_tiers s))"
      using live(1) assms(2) by (simp add: bt.dom_insert domI insert_absorb)
    then show "dom (bt_get (ghost_lookup ?t)) \<inter> dom (bt_get (live_tiers ?t)) = {}"
      using s3_wfD(4) [OF wf] by simp
  qed (use s3_wfD(1) [OF wf] in simp)
  have room: "length (small ?t) \<le> small_capacity (cfg ?t)"
    using assms(1) by (auto simp: s3_inv_def length_remove1)
  note cut = cut_main [OF t room, of "main s" k, OF _ refl]
  have "promote_small_to_main k s = enforce_live_capacity (enforce_main_capacity ?t)"
    by (simp add: promote_small_to_main_def remove_from_queue_def)
  moreover have "s3_inv (enforce_live_capacity (enforce_main_capacity ?t))"
    by (rule shrunk_inv [of ?t]) (use cut room assms(1) in \<open>simp_all add: s3_inv_def\<close>)
  ultimately show ?thesis using cut by simp
qed

text \<open>The new entry of an admission, before the cut: well formed, one more key for its owner.\<close>

lemma add_key_wf:
  assumes "s3_wf s" and "bt_get (live_tiers s) k = None" and "bt_get (ghost_lookup s) k = None"
    and "t = increment_owner ow (s\<lparr>small := small s @ (if tier = LiveSmall then [k] else []),
              main := main s @ (if tier = LiveMain then [k] else []),
              live_tiers := bt_insert k tier (live_tiers s),
              live_owners := bt_insert k ow (live_owners s)\<rparr>)"
  shows "s3_wf t"
proof (rule s3_wfI)
  show "live_wf t"
    unfolding assms(4) by (rule live_wf_add [OF s3_wfD(2) [OF assms(1)] assms(2) refl])
  show "ghost_wf t"
    by (rule ghost_wf_cong [OF s3_wfD(3) [OF assms(1)]]) (simp_all add: assms(4))
  have "dom (bt_get (live_tiers t)) = insert k (dom (bt_get (live_tiers s)))"
    using live_wfD(1) [OF s3_wfD(2) [OF assms(1)]] by (simp add: assms(4) bt.dom_insert)
  then show "dom (bt_get (ghost_lookup t)) \<inter> dom (bt_get (live_tiers t)) = {}"
    using s3_wfD(4) [OF assms(1)] assms(3) by (simp add: assms(4) domIff)
qed (use s3_wfD(1) [OF assms(1)] in \<open>simp add: assms(4)\<close>)

lemma add_key_budget:
  assumes "s3_inv s" and "\<not> owner_at_budget ow s" and "bt_get (live_tiers s) k = None"
    and "live_owners t = bt_insert k ow (live_owners s)"
  shows "\<forall>ow'. card (owned (live_owners t) ow') \<le> max_entries_per_owner (cfg s)"
proof
  fix ow'
  have wf: "s3_wf s" using assms(1) by (simp add: s3_inv_def)
  have one: "1 \<le> max_entries_per_owner (cfg s)" using s3_wfD(1) [OF wf] by (simp add: cfg_ok_def)
  have "bt_get (live_owners s) k = None" using live_wfD(6) [OF s3_wfD(2) [OF wf]] assms(3) by blast
  then have "owned (live_owners t) ow' =
      (if ow' = ow then insert k (owned (live_owners s) ow) else owned (live_owners s) ow')"
    using owned_insert [OF s3_wf_owners [OF wf]] assms(4) by simp
  moreover have "card (owned (live_owners s) ow) < max_entries_per_owner (cfg s)"
    using owner_at_budget_iff [OF wf one] assms(2) by simp
  moreover have "card (owned (live_owners s) ow') \<le> max_entries_per_owner (cfg s)"
    using assms(1) by (simp add: s3_inv_def)
  ultimately show "card (owned (live_owners t) ow') \<le> max_entries_per_owner (cfg s)"
    using card_insert_le_m1 [of "max_entries_per_owner (cfg s)" "owned (live_owners s) ow" k] one by auto
qed

lemma purge_key_absent:
  "bt_get (live_tiers s) k = None \<Longrightarrow> bt_get (ghost_lookup s) k = None \<Longrightarrow> purge_key k s = s"
  by (simp add: purge_key_def remove_live_key_def remove_ghost_def)

lemma admit_small_inv:
  assumes "s3_inv s" and "\<not> owner_at_budget ow s"
    and "bt_get (live_tiers s) k = None" and "bt_get (ghost_lookup s) k = None"
  shows "s3_inv (admit_small ow k s) \<and> k \<in> set (small (admit_small ow k s))"
proof -
  have wf: "s3_wf s" using assms(1) by (simp add: s3_inv_def)
  let ?t = "increment_owner ow (s\<lparr>small := small s @ [k], live_tiers := bt_insert k LiveSmall (live_tiers s),
              live_owners := bt_insert k ow (live_owners s)\<rparr>)"
  have t: "s3_wf ?t" by (rule add_key_wf [OF wf assms(3,4), of _ _ LiveSmall]) simp
  have room: "length (main ?t) \<le> main_capacity ?t"
    using assms(1) by (simp add: s3_inv_def main_capacity_def)
  note cut = cut_small [OF t room, of "small s" k, OF _ refl]
  have "admit_small ow k s = enforce_live_capacity (enforce_small_capacity ?t)"
    by (simp add: admit_small_def purge_key_absent [OF assms(3,4)])
  moreover have "s3_inv (enforce_live_capacity (enforce_small_capacity ?t))"
    by (rule shrunk_inv [of ?t])
      (use cut room assms(1) add_key_budget [OF assms(1-3), of ?t] in \<open>simp_all add: s3_inv_def\<close>)
  ultimately show ?thesis using cut by simp
qed

lemma small_same: "small t = xs \<Longrightarrow> t\<lparr>small := xs\<rparr> = t"
  by (cases t) simp

lemma admit_from_ghost_inv:
  assumes "s3_inv s" and "\<not> owner_at_budget ow s" and "bt_get (live_tiers s) k = None"
  shows "s3_inv (admit_from_ghost ow k s) \<and> k \<in> set (main (admit_from_ghost ow k s))"
proof -
  have wf: "s3_wf s" using assms(1) by (simp add: s3_inv_def)
  let ?g = "remove_ghost k s"
  note ghost = remove_ghost_wf [OF s3_wfD(3) [OF wf], of k]
  have owners: "owner_live_counts ?g = owner_live_counts s" by simp
  have g: "s3_wf ?g"
  proof (rule s3_wfI)
    show "live_wf ?g" by (rule live_wf_cong [OF s3_wfD(2) [OF wf]]) simp_all
    show "dom (bt_get (ghost_lookup ?g)) \<inter> dom (bt_get (live_tiers ?g)) = {}"
      using ghost s3_wfD(4) [OF wf] by auto
  qed (use ghost s3_wfD(1) [OF wf] in simp_all)
  let ?t = "increment_owner ow (?g\<lparr>main := main s @ [k], live_tiers := bt_insert k LiveMain (live_tiers s),
              live_owners := bt_insert k ow (live_owners s)\<rparr>)"
  have t: "s3_wf ?t"
    by (rule add_key_wf [OF g, of k _ ow LiveMain]) (use ghost assms(3) in \<open>simp_all add: small_same\<close>)
  have room: "length (small ?t) \<le> small_capacity (cfg ?t)" using assms(1) by (simp add: s3_inv_def)
  note cut = cut_main [OF t room, of "main s" k, OF _ refl]
  have "admit_from_ghost ow k s = enforce_live_capacity (enforce_main_capacity ?t)"
    by (simp add: admit_from_ghost_def)
  moreover have "s3_inv (enforce_live_capacity (enforce_main_capacity ?t))"
    by (rule shrunk_inv [of ?t])
      (use cut room assms(1) add_key_budget [OF assms, of ?t] in \<open>simp_all add: s3_inv_def\<close>)
  ultimately show ?thesis using cut by simp
qed

text \<open>The counters and the signal window are no part of the queues.\<close>

lemma s3_inv_cong:
  assumes "s3_inv s" and "cfg t = cfg s" and "small t = small s" and "main t = main s"
    and "ghost_order t = ghost_order s" and "ghost_lookup t = ghost_lookup s"
    and "ghost_gen t = ghost_gen s" and "live_tiers t = live_tiers s"
    and "live_owners t = live_owners s" and "owner_live_counts t = owner_live_counts s"
    and "length (recent_signals t) \<le> fallback_window (cfg s)"
  shows "s3_inv t"
  using assms
  by (simp add: s3_inv_def s3_wf_def live_wf_def ghost_wf_def ghosts_not_live_def main_capacity_def)

lemma record_signal_window:
  "length (recent_signals (record_signal sg s)) \<le> fallback_window (cfg s)"
  by (simp add: record_signal_def)

lemma s3_inv_window: "s3_inv s \<Longrightarrow> length (recent_signals s) \<le> fallback_window (cfg s)"
  by (simp add: s3_inv_def)

lemma record_signal_inv: "s3_inv s \<Longrightarrow> s3_inv (record_signal sg s)"
  by (erule s3_inv_cong) (simp_all add: record_signal_def)

lemma s3_inv_bookkeeping:
  "s3_inv s \<Longrightarrow> s3_inv (clear_fallback s)"
  "s3_inv s \<Longrightarrow> s3_inv (evaluate_fallback s)"
  "s3_inv s \<Longrightarrow> s3_inv (s\<lparr>promotions_total := n\<rparr>)"
  "s3_inv s \<Longrightarrow> s3_inv (s\<lparr>admissions_total := n\<rparr>)"
  "s3_inv s \<Longrightarrow> s3_inv (s\<lparr>ghost_hits_total := n\<rparr>)"
  "s3_inv s \<Longrightarrow> s3_inv (s\<lparr>budget_rejections_total := n\<rparr>)"
  subgoal by (erule s3_inv_cong) (simp_all add: clear_fallback_def)
  subgoal by (rule s3_inv_cong [of s]) (simp_all add: s3_inv_window evaluate_fallback_def Let_def)
  subgoal by (rule s3_inv_cong [of s]) (simp_all add: s3_inv_window)
  subgoal by (rule s3_inv_cong [of s]) (simp_all add: s3_inv_window)
  subgoal by (rule s3_inv_cong [of s]) (simp_all add: s3_inv_window)
  subgoal by (rule s3_inv_cong [of s]) (simp_all add: s3_inv_window)
  done

lemma evaluate_fallback_frame [simp]:
  "small (evaluate_fallback s) = small s" "main (evaluate_fallback s) = main s"
  "cfg (evaluate_fallback s) = cfg s" "live_tiers (evaluate_fallback s) = live_tiers s"
  "live_owners (evaluate_fallback s) = live_owners s" "ghost_lookup (evaluate_fallback s) = ghost_lookup s"
  "owner_live_counts (evaluate_fallback s) = owner_live_counts s"
  "recent_signals (evaluate_fallback s) = recent_signals s"
  by (simp_all add: evaluate_fallback_def Let_def)

lemma record_signal_frame [simp]:
  "small (record_signal sg s) = small s" "main (record_signal sg s) = main s"
  "cfg (record_signal sg s) = cfg s" "live_tiers (record_signal sg s) = live_tiers s"
  "live_owners (record_signal sg s) = live_owners s" "ghost_lookup (record_signal sg s) = ghost_lookup s"
  "owner_live_counts (record_signal sg s) = owner_live_counts s"
  "fallback_reason (record_signal sg s) = fallback_reason s"
  by (simp_all add: record_signal_def)

lemma s3_new_inv: "s3_inv (s3_new config)"
  by (auto simp: s3_inv_def s3_wf_def s3_new_def Let_def cfg_ok_def live_wf_def ghost_wf_def
      ghosts_ok_def ghosts_not_live_def counts_ok_def owned_def bt_len_def bt_empty_def)

text \<open>Where the key of an access is afterwards, by the decision that was taken.\<close>

fun placed :: "s3_decision_kind \<Rightarrow> 'k \<Rightarrow> 'k s3_policy \<Rightarrow> bool" where
  "placed HitMain k s = (k \<in> set (main s))"
| "placed PromoteSmallToMain k s = (k \<in> set (main s))"
| "placed AdmitFromGhost k s = (k \<in> set (main s))"
| "placed AdmitSmall k s = (k \<in> set (small s))"
| "placed RejectFairnessBudget k s = (k \<notin> set (small s) \<union> set (main s))"
| "placed FallbackBypass k s = True"

lemma classify_access_inv:
  assumes "s3_inv s" and "classify_access ow k s = (kind, hit, t)"
  shows "s3_inv t \<and> placed kind k t"
proof -
  have wf: "s3_wf s" using assms(1) by (simp add: s3_inv_def)
  note live = live_wfD(4,5) [OF s3_wfD(2) [OF wf], of k]
  show ?thesis
  proof (cases "bt_get (live_tiers s) k")
    case (Some tier)
    then show ?thesis
      using assms touch_main_inv [OF assms(1), of k] promote_inv [OF assms(1), of k]
      by (cases tier) (auto simp: classify_access_def Let_def s3_inv_bookkeeping)
  next
    case None
    let ?s = "s\<lparr>ghost_hits_total := sat_add64 (ghost_hits_total s) 1\<rparr>"
    have "s3_inv ?s" using assms(1) by (rule s3_inv_bookkeeping)
    note ghost = admit_from_ghost_inv [OF this, of ow k]
    have same: "owner_at_budget ow ?s = owner_at_budget ow s" by (simp add: owner_at_budget_def)
    show ?thesis
      using assms None live ghost admit_small_inv [OF assms(1), of ow k] same
      by (auto simp: classify_access_def Let_def bt_contains_def s3_inv_bookkeeping split: if_splits option.splits)
  qed
qed

lemma access_cases:
  assumes "fallback_reason s = None"
  obtains kind hit t where "classify_access ow k s = (kind, hit, t)"
    and "snd (access ow k s) = evaluate_fallback (record_signal
           \<lparr>sig_ghost_hit = hit, sig_budget_rejected = (kind = RejectFairnessBudget)\<rparr> t)"
    and "dec_kind (fst (access ow k s)) = kind" and "dec_ghost_hit (fst (access ow k s)) = hit"
    and "dec_tier (fst (access ow k s)) = resolve_tier kind hit"
    and "dec_fallback_reason (fst (access ow k s)) = fallback_reason (snd (access ow k s))"
proof -
  obtain kind hit t where "classify_access ow k s = (kind, hit, t)" by (metis prod_cases3)
  then show thesis using assms by (intro that) (auto simp: access_def Let_def s3_decision_of_def)
qed

lemma access_inv:
  assumes "s3_inv s"
  shows "s3_inv (snd (access ow k s)) \<and>
         placed (dec_kind (fst (access ow k s))) k (snd (access ow k s))"
proof (cases "fallback_reason s")
  case None
  then obtain kind hit t where c: "classify_access ow k s = (kind, hit, t)"
    and s': "snd (access ow k s) = evaluate_fallback (record_signal
           \<lparr>sig_ghost_hit = hit, sig_budget_rejected = (kind = RejectFairnessBudget)\<rparr> t)"
    and kind: "dec_kind (fst (access ow k s)) = kind"
    by (rule access_cases)
  have "s3_inv t" "placed kind k t" using classify_access_inv [OF assms c] by auto
  then show ?thesis
    unfolding s' kind by (cases kind) (auto intro: s3_inv_bookkeeping record_signal_inv)
next
  case (Some why)
  then show ?thesis using assms by (simp add: access_def s3_decision_of_def)
qed

section \<open>Runs\<close>

datatype 'k s3_event = Access string 'k | ClearFallback

fun s3_step :: "'k::linorder s3_event \<Rightarrow> 'k s3_policy \<Rightarrow> 'k s3_policy" where
  "s3_step (Access owner key) s = snd (access owner key s)"
| "s3_step ClearFallback s = clear_fallback s"

lemma enforce_frame [simp]:
  "cfg (enforce_small_capacity s) = cfg s"
  "cfg (enforce_main_capacity s) = cfg s"
  "cfg (enforce_live_capacity s) = cfg s"
  "recent_signals (enforce_small_capacity s) = recent_signals s"
  "recent_signals (enforce_main_capacity s) = recent_signals s"
  "recent_signals (enforce_live_capacity s) = recent_signals s"
  "fallback_reason (enforce_small_capacity s) = fallback_reason s"
  "fallback_reason (enforce_main_capacity s) = fallback_reason s"
  "fallback_reason (enforce_live_capacity s) = fallback_reason s"
  subgoal by (induction s rule: enforce_small_capacity.induct) (subst enforce_small_capacity.simps, simp)
  subgoal by (induction s rule: enforce_main_capacity.induct) (subst enforce_main_capacity.simps, simp)
  subgoal by (induction s rule: enforce_live_capacity.induct) (subst enforce_live_capacity.simps, simp)
  subgoal by (induction s rule: enforce_small_capacity.induct) (subst enforce_small_capacity.simps, simp)
  subgoal by (induction s rule: enforce_main_capacity.induct) (subst enforce_main_capacity.simps, simp)
  subgoal by (induction s rule: enforce_live_capacity.induct) (subst enforce_live_capacity.simps, simp)
  subgoal by (induction s rule: enforce_small_capacity.induct) (subst enforce_small_capacity.simps, simp)
  subgoal by (induction s rule: enforce_main_capacity.induct) (subst enforce_main_capacity.simps, simp)
  subgoal by (induction s rule: enforce_live_capacity.induct) (subst enforce_live_capacity.simps, simp)
  done

lemma purge_key_frame [simp]:
  "cfg (purge_key k s) = cfg s" "recent_signals (purge_key k s) = recent_signals s"
  "fallback_reason (purge_key k s) = fallback_reason s"
  by (auto simp: purge_key_def remove_live_key_def Let_def split: option.splits live_tier.splits)

text \<open>The branches of an access touch neither the configuration nor the signals.\<close>

lemma classify_access_frame:
  assumes "classify_access ow k s = (kind, hit, t)"
  shows "cfg t = cfg s" and "recent_signals t = recent_signals s"
    and "fallback_reason t = fallback_reason s" and "kind \<noteq> FallbackBypass"
  using assms by (auto simp: classify_access_def Let_def touch_main_def promote_small_to_main_def
      admit_small_def admit_from_ghost_def split: option.splits live_tier.splits if_splits)

lemma s3_step_cfg: "cfg (s3_step e s) = cfg s"
proof (cases e)
  case (Access ow k)
  obtain kind hit t where c: "classify_access ow k s = (kind, hit, t)" by (metis prod_cases3)
  with classify_access_frame(1) [OF c] show ?thesis
    by (cases "fallback_reason s") (simp_all add: Access access_def Let_def)
qed (simp add: clear_fallback_def)

interpretation s3: bounded_machine s3_inv s3_step live_depth "\<lambda>s. live_capacity (cfg s)"
proof
  fix s :: "'a s3_policy" and e
  assume inv: "s3_inv s"
  show "s3_inv (s3_step e s)"
    using inv by (cases e) (auto simp: access_inv s3_inv_bookkeeping)
  show "live_depth s \<le> live_capacity (cfg s)"
    using inv by (auto simp: s3_inv_def live_depth_def main_capacity_def s3_wf_def cfg_ok_def)
qed (simp add: s3_step_cfg)

lemma s3_run_cfg: "cfg (fold s3_step es s) = cfg s"
  by (induction es arbitrary: s) (simp_all add: s3_step_cfg)

text \<open>What the invariant says of a state, spelled out over its fields.\<close>

lemma s3_inv_fields:
  assumes "s3_inv s"
  shows "distinct (small s @ main s)"
    and "set (small s) \<union> set (main s) = dom (bt_get (live_owners s))"
    and "(set (small s) \<union> set (main s)) \<inter> dom (bt_get (ghost_lookup s)) = {}"
    and "bt_len (ghost_lookup s) \<le> ghost_capacity (cfg s)"
    and "bt_get (owner_live_counts s) ow =
           (let n = card {k. bt_get (live_owners s) k = Some ow} in if n = 0 then None else Some n)"
    and "card {k. bt_get (live_owners s) k = Some ow} \<le> max_entries_per_owner (cfg s)"
proof -
  have wf: "s3_wf s" using assms by (simp add: s3_inv_def)
  note live = live_wfD [OF s3_wfD(2) [OF wf]]
  have "set (small s) \<inter> set (main s) = {}" using live(4,5) by (simp add: disjoint_iff)
  then show "distinct (small s @ main s)" using live(2,3) by simp
  have tiers: "set (small s) \<union> set (main s) = dom (bt_get (live_tiers s))"
  proof (rule set_eqI)
    fix k show "k \<in> set (small s) \<union> set (main s) \<longleftrightarrow> k \<in> dom (bt_get (live_tiers s))"
      using live(4,5) [of k] by (cases "bt_get (live_tiers s) k"; cases "the (bt_get (live_tiers s) k)") auto
  qed
  moreover have "dom (bt_get (live_owners s)) = dom (bt_get (live_tiers s))"
    using s3_wfD(2) [OF wf] by (simp only: live_wf_def)
  ultimately show "set (small s) \<union> set (main s) = dom (bt_get (live_owners s))" by simp
  show "(set (small s) \<union> set (main s)) \<inter> dom (bt_get (ghost_lookup s)) = {}"
    unfolding tiers using s3_wfD(4) [OF wf] by (simp only: Int_commute)
  show "bt_len (ghost_lookup s) \<le> ghost_capacity (cfg s)"
    using s3_wfD(3) [OF wf] by (simp add: ghost_wf_def)
  have "finite {k. bt_get (live_owners s) k = Some ow}"
    using finite_owned [of "live_owners s" ow] by (simp add: owned_def)
  then show "bt_get (owner_live_counts s) ow =
      (let n = card {k. bt_get (live_owners s) k = Some ow} in if n = 0 then None else Some n)"
    using live(7) by (simp add: counts_ok_def owned_def Let_def)
  show "card {k. bt_get (live_owners s) k = Some ow} \<le> max_entries_per_owner (cfg s)"
    using assms by (simp add: s3_inv_def owned_def)
qed

text \<open>The equations that run the policy on concrete states.\<close>

lemmas s3_run = access_def classify_access_def Let_def s3_new_def admit_small_def admit_from_ghost_def
  promote_small_to_main_def purge_key_def remove_live_key_def remove_ghost_def remove_owner_for_key_def
  increment_owner_def decrement_owner_def owner_at_budget_def touch_main_def remove_from_queue_def
  enforce_live_capacity.simps enforce_small_capacity.simps enforce_main_capacity.simps
  main_capacity_def live_depth_def evict_small_front_to_ghost_def evict_main_front_to_ghost_def
  push_ghost_def trim_ghosts.simps s3_decision_of_def record_signal_def evaluate_fallback_def
  clear_fallback_def bt_contains_def bt_empty_def bt_len_def

section \<open>Properties\<close>

text \<open>
  C21: However many accesses of however many owners and however often the fallback is cleared, the
  two queues never hold a key twice, hold at most the configured number of live keys together,
  and share no key with the ghost list, which is within its own capacity; and the counter of an
  owner is the number of its live keys, never above the owner's budget.
\<close>

theorem s3_always_bounded:
  fixes es :: "'k::linorder s3_event list"
  shows "let s = fold s3_step es (s3_new config) in
         distinct (small s @ main s) \<and>
         live_depth s \<le> max (live_capacity config) 2 \<and>
         (set (small s) \<union> set (main s)) \<inter> dom (bt_get (ghost_lookup s)) = {} \<and>
         bt_len (ghost_lookup s) \<le> max (ghost_capacity config) 1 \<and>
         dom (bt_get (live_owners s)) = set (small s) \<union> set (main s) \<and>
         (case bt_get (owner_live_counts s) ow of None \<Rightarrow> 0 | Some n \<Rightarrow> n) =
           card {k. bt_get (live_owners s) k = Some ow} \<and>
         card {k. bt_get (live_owners s) k = Some ow} \<le> max (max_entries_per_owner config) 1"
proof -
  define s where "s = fold s3_step es (s3_new config)"
  have cfg: "live_capacity (cfg (s3_new config :: 'k s3_policy)) = max (live_capacity config) 2"
      "ghost_capacity (cfg (s3_new config :: 'k s3_policy)) = max (ghost_capacity config) 1"
      "max_entries_per_owner (cfg (s3_new config :: 'k s3_policy)) = max (max_entries_per_owner config) 1"
    by (simp_all add: s3_new_def Let_def)
  have inv: "s3_inv s" unfolding s_def by (rule s3.inv_run [OF s3_new_inv])
  have depth: "live_depth s \<le> max (live_capacity config) 2"
    using s3.depth_run [OF s3_new_inv, of es config] by (simp add: s_def cfg)
  have "cfg s = cfg (s3_new config :: 'k s3_policy)" unfolding s_def by (rule s3_run_cfg)
  then show ?thesis
    using depth s3_inv_fields(1-4) [OF inv] s3_inv_fields(5,6) [OF inv, of ow]
    unfolding s_def [symmetric] by (simp add: cfg Let_def)
qed

text \<open>
  A decision says where the key is. In a reachable state a hit, a promotion and an admission
  from the ghost list leave the key in the main queue and report the main tier, a first admission
  leaves it in the small queue, and a refusal for the owner's budget is given exactly to keys that
  are not live of owners at their budget, and leaves queues, ghosts and owners as they were.
\<close>

theorem access_places_key:
  fixes s :: "'k::linorder s3_policy"
  assumes "s = fold s3_step es (s3_new config)" and "fallback_reason s = None"
    and "access owner key s = (d, t)"
  shows "(dec_kind d \<in> {HitMain, PromoteSmallToMain, AdmitFromGhost} \<longrightarrow>
            key \<in> set (main t) \<and> dec_tier d = TierMain) \<and>
         (dec_kind d = AdmitSmall \<longrightarrow> key \<in> set (small t) \<and> dec_tier d = TierSmall) \<and>
         (dec_kind d = RejectFairnessBudget \<longleftrightarrow>
            key \<notin> set (small s) \<union> set (main s) \<and> owner_at_budget owner s) \<and>
         (dec_kind d = RejectFairnessBudget \<longrightarrow>
            (small t, main t, ghost_lookup t, live_owners t, owner_live_counts t) =
            (small s, main s, ghost_lookup s, live_owners s, owner_live_counts s)) \<and>
         dec_kind d \<noteq> FallbackBypass"
proof -
  have inv: "s3_inv s" unfolding assms(1) by (rule s3.inv_run [OF s3_new_inv])
  obtain kind hit u where c: "classify_access owner key s = (kind, hit, u)"
    and t: "t = evaluate_fallback (record_signal
           \<lparr>sig_ghost_hit = hit, sig_budget_rejected = (kind = RejectFairnessBudget)\<rparr> u)"
    and d: "dec_kind d = kind" "dec_tier d = resolve_tier kind hit"
    using access_cases [OF assms(2), of owner key] assms(3) by (metis fst_conv snd_conv)
  have placed: "placed kind key t" using access_inv [OF inv, of owner key] assms(3) d by simp
  have "s3_wf s" using inv by (simp add: s3_inv_def)
  note live = live_wfD(4,5) [OF s3_wfD(2) [OF this], of key]
  have refused: "kind = RejectFairnessBudget \<longleftrightarrow>
      key \<notin> set (small s) \<union> set (main s) \<and> owner_at_budget owner s"
    using c live by (auto simp: classify_access_def Let_def owner_at_budget_def
        split: option.splits live_tier.splits if_splits)
  have "(small u, main u, ghost_lookup u, live_owners u, owner_live_counts u) =
      (small s, main s, ghost_lookup s, live_owners s, owner_live_counts s)" if "kind = RejectFairnessBudget"
    using c that by (auto simp: classify_access_def Let_def
        split: option.splits live_tier.splits if_splits)
  moreover have "kind \<noteq> FallbackBypass" using c by (rule classify_access_frame)
  ultimately show ?thesis
    using placed refused d t by (cases kind) auto
qed

theorem access_places_key_witness:
  "dec_kind (fst (access ''a'' (7::nat) (fold s3_step [Access ''a'' 7] (s3_new s3_default_config)))) =
     PromoteSmallToMain \<and>
   7 \<in> set (main (snd (access ''a'' (7::nat) (fold s3_step [Access ''a'' 7] (s3_new s3_default_config)))))"
proof -
  let ?s = "fold s3_step [Access ''a'' (7::nat)] (s3_new s3_default_config)"
  have f: "fallback_reason ?s = None" and k: "dec_kind (fst (access ''a'' 7 ?s)) = PromoteSmallToMain"
    by (simp_all add: s3_run s3_default_config_def)
  then show ?thesis
    using access_places_key [OF refl f, of "''a''" 7 "fst (access ''a'' 7 ?s)" "snd (access ''a'' 7 ?s)"]
    by simp
qed

text \<open>
  Once the policy has fallen back it stays so: whatever is accessed, each decision is the
  bypass with the latched reason and the whole state is unchanged; clearing the fallback empties
  the window and lets the next access through.
\<close>

theorem fallback_latches:
  assumes "fallback_reason s = Some why"
  shows "fold s3_step (map (\<lambda>(owner, key). Access owner key) reqs) s = s \<and>
         dec_kind (fst (access owner key s)) = FallbackBypass \<and>
         dec_fallback_reason (fst (access owner key s)) = Some why \<and>
         fallback_reason (clear_fallback s) = None \<and> recent_signals (clear_fallback s) = [] \<and>
         dec_kind (fst (access owner key (clear_fallback s))) \<noteq> FallbackBypass"
proof -
  have "fold s3_step (map (\<lambda>(owner, key). Access owner key) reqs) s = s"
    using assms by (induction reqs) (auto simp: access_def)
  moreover have "dec_kind (fst (access owner key (clear_fallback s))) \<noteq> FallbackBypass"
  proof -
    have "fallback_reason (clear_fallback s) = None" by (simp add: clear_fallback_def)
    then obtain kind hit t where "classify_access owner key (clear_fallback s) = (kind, hit, t)"
      and "dec_kind (fst (access owner key (clear_fallback s))) = kind"
      by (rule access_cases)
    then show ?thesis using classify_access_frame(4) by metis
  qed
  ultimately show ?thesis
    using assms by (simp add: access_def s3_decision_of_def clear_fallback_def)
qed

theorem fallback_latches_witness:
  "\<exists>s :: nat s3_policy. fallback_reason s = Some FairnessInstability \<and>
     dec_kind (fst (access ''a'' 7 s)) = FallbackBypass \<and>
     dec_kind (fst (access ''a'' 7 (clear_fallback s))) \<noteq> FallbackBypass"
proof -
  let ?s = "(s3_new s3_default_config)\<lparr>fallback_reason := Some FairnessInstability\<rparr> :: nat s3_policy"
  show ?thesis
    using fallback_latches [of ?s FairnessInstability "[]" "''a''" 7] by (intro exI [of _ ?s]) simp
qed

text \<open>
  When the policy falls back. An access appends its signal to the window of the latest
  \<open>fallback_window\<close> decisions; the policy falls back with this access exactly when the window is
  full and holds too few ghost hits (reason: signal quality) or else too many refusals for the
  owner budget (reason: fairness), and the decision reports the reason.
\<close>

theorem fallback_trigger:
  assumes "fallback_reason s = None" and "access owner key s = (d, t)"
    and "length (recent_signals s) \<le> fallback_window (cfg s)"
  shows "let w = fallback_window (cfg s);
             signals = recent_signals s @
               [\<lparr>sig_ghost_hit = dec_ghost_hit d,
                 sig_budget_rejected = (dec_kind d = RejectFairnessBudget)\<rparr>];
             window = (if length signals \<le> w then signals else tl signals)
         in recent_signals t = window \<and> dec_fallback_reason d = fallback_reason t \<and>
            fallback_reason t =
              (if length window < w then None
               else if length (filter sig_ghost_hit window) < min_ghost_hits_in_window (cfg s)
               then Some SignalQualityInsufficient
               else if max_budget_rejections_in_window (cfg s) < length (filter sig_budget_rejected window)
               then Some FairnessInstability
               else None)"
proof -
  obtain kind hit u where c: "classify_access owner key s = (kind, hit, u)"
    and t: "t = evaluate_fallback (record_signal
           \<lparr>sig_ghost_hit = hit, sig_budget_rejected = (kind = RejectFairnessBudget)\<rparr> u)"
    and d: "dec_kind d = kind" "dec_ghost_hit d = hit" "dec_fallback_reason d = fallback_reason t"
    using access_cases [OF assms(1), of owner key] assms(2) by (metis fst_conv snd_conv)
  note frame = classify_access_frame(1-3) [OF c]
  have "recent_signals (record_signal sg u) =
      (if Suc (length (recent_signals s)) \<le> fallback_window (cfg s) then recent_signals s @ [sg]
       else tl (recent_signals s @ [sg]))" for sg
  proof (cases "length (recent_signals s) = fallback_window (cfg s)")
    case True
    then show ?thesis
      by (cases "recent_signals s") (simp_all add: record_signal_def frame True [symmetric])
  next
    case False
    with assms(3) show ?thesis by (simp add: record_signal_def frame)
  qed
  note window = this [of "\<lparr>sig_ghost_hit = hit, sig_budget_rejected = (kind = RejectFairnessBudget)\<rparr>"]
  show ?thesis
    unfolding t d Let_def evaluate_fallback_frame window
    using frame assms(1) by (simp add: evaluate_fallback_def window Let_def del: tl_append2)
qed

theorem fallback_trigger_witness:
  "\<exists>(d :: s3_decision) (t :: nat s3_policy).
     access ''a'' 7 (s3_new (s3_default_config\<lparr>fallback_window := 1\<rparr>)) = (d, t) \<and>
     fallback_reason t = Some SignalQualityInsufficient"
proof -
  let ?s = "s3_new (s3_default_config\<lparr>fallback_window := 1\<rparr>) :: nat s3_policy"
  obtain d t where a: "access ''a'' 7 ?s = (d, t)" by fastforce
  have k: "dec_ghost_hit (fst (access ''a'' 7 ?s)) = False" by (simp add: s3_run s3_default_config_def)
  have "fallback_reason t = Some SignalQualityInsufficient"
    using fallback_trigger [OF _ a] a k by (simp add: s3_new_def s3_default_config_def Let_def)
  with a show ?thesis by blast
qed

end
