(* ===== verification/Scheduler.thy ===== *)
theory Scheduler
  imports Machines "HOL-Library.Product_Lexorder"
begin

text \<open>
  The deterministic event loop of the extension runtime (\<open>src/src/scheduler.rs\<close>): the sequence
  counter, the timer heap, the macrotask queue and the tick. JSON payloads are a type variable;
  the clock is read once per operation and its answer is the argument \<open>now\<close>. The binary heap
  of the standard library is a list from which the greatest element in the order of
  \<open>TimerEntry\<close> (the earliest deadline, then the smallest sequence number) is taken.
\<close>

section \<open>Data\<close>

type_synonym seq = u64

definition seq_zero :: seq where
  "seq_zero = 0"

definition seq_next :: "seq \<Rightarrow> seq" where
  "seq_next n = sat_add64 n 1"

record timer_entry =
  timer_id :: u64
  deadline_ms :: u64
  timer_seq :: seq

datatype ordering = Less | Equal | Greater

definition compare_u64 :: "u64 \<Rightarrow> u64 \<Rightarrow> ordering" where
  "compare_u64 a b = (if a < b then Less else if a = b then Equal else Greater)"

definition timer_cmp :: "timer_entry \<Rightarrow> timer_entry \<Rightarrow> ordering" where
  "timer_cmp self other =
     (case compare_u64 (deadline_ms other) (deadline_ms self) of
        Equal \<Rightarrow> compare_u64 (timer_seq other) (timer_seq self)
      | ord \<Rightarrow> ord)"

datatype 'j hostcall_outcome =
    Success 'j
  | Error (err_code: string) (err_message: string)
  | StreamChunk (chunk_sequence: u64) (chunk: 'j) (is_final: bool)

datatype 'j macrotask_kind =
    TimerFired u64
  | HostcallComplete string "'j hostcall_outcome"
  | InboundEvent string 'j

record 'j macrotask =
  task_seq :: seq
  task_kind :: "'j macrotask_kind"

record 'j scheduler =
  sch_seq :: seq
  macrotask_queue :: "'j macrotask list"
  timer_heap :: "timer_entry list"
  next_timer_id :: u64
  cancelled_timers :: "u64 set"
  heap_timer_ids :: "u64 set"

text \<open>The clock the tests use: an atomic counter, wrapping on overflow.\<close>

definition clock_advance :: "u64 \<Rightarrow> u64 \<Rightarrow> u64" where
  "clock_advance ms current = (current + ms) mod 2 ^ 64"

definition clock_set :: "u64 \<Rightarrow> u64 \<Rightarrow> u64" where
  "clock_set ms current = ms"

section \<open>The heap\<close>

definition heap_push :: "timer_entry \<Rightarrow> timer_entry list \<Rightarrow> timer_entry list" where
  "heap_push e heap = e # heap"

fun heap_peek :: "timer_entry list \<Rightarrow> timer_entry option" where
  "heap_peek [] = None"
| "heap_peek (e # heap) =
     (case heap_peek heap of
        None \<Rightarrow> Some e
      | Some best \<Rightarrow> if timer_cmp e best = Less then Some best else Some e)"

definition heap_pop :: "timer_entry list \<Rightarrow> (timer_entry \<times> timer_entry list) option" where
  "heap_pop heap = map_option (\<lambda>e. (e, remove1 e heap)) (heap_peek heap)"

section \<open>Operations\<close>

definition sch_new :: "'j scheduler" where
  "sch_new = \<lparr>sch_seq = seq_zero, macrotask_queue = [], timer_heap = [], next_timer_id = 1,
     cancelled_timers = {}, heap_timer_ids = {}\<rparr>"

definition next_seq :: "'j scheduler \<Rightarrow> seq \<times> 'j scheduler" where
  "next_seq s = (sch_seq s, s\<lparr>sch_seq := seq_next (sch_seq s)\<rparr>)"

definition live_entries :: "'j scheduler \<Rightarrow> timer_entry list" where
  "live_entries s = filter (\<lambda>e. timer_id e \<notin> cancelled_timers s) (timer_heap s)"

definition has_pending :: "'j scheduler \<Rightarrow> bool" where
  "has_pending s =
     (macrotask_queue s \<noteq> [] \<or> list_ex (\<lambda>e. timer_id e \<notin> cancelled_timers s) (timer_heap s))"

definition macrotask_count :: "'j scheduler \<Rightarrow> usize" where
  "macrotask_count s = length (macrotask_queue s)"

definition timer_count :: "'j scheduler \<Rightarrow> usize" where
  "timer_count s = length (live_entries s)"

definition timer_id_in_use :: "u64 \<Rightarrow> 'j scheduler \<Rightarrow> bool" where
  "timer_id_in_use tid s = (tid \<in> heap_timer_ids s)"

definition succ_id :: "u64 \<Rightarrow> u64" where
  "succ_id candidate = (if candidate = u64_max then 1 else candidate + 1)"

text \<open>
  The loop of \<open>allocate_timer_id\<close> returns the identifier and the value left in
  \<open>next_timer_id\<close>. From a start between 1 and the maximum it comes back to the start after
  \<open>u64_max\<close> candidates, so that many rounds are all it can take (\<open>alloc_rounds_enough\<close>).
\<close>

primrec alloc_rounds :: "nat \<Rightarrow> u64 set \<Rightarrow> u64 \<Rightarrow> u64 \<Rightarrow> u64 \<times> u64" where
  "alloc_rounds 0 used start candidate = (u64_max, candidate)"
| "alloc_rounds (Suc n) used start candidate =
     (let following = succ_id candidate in
      if candidate \<notin> used then (candidate, following)
      else if following = start then (u64_max, following)
      else alloc_rounds n used start following)"

definition allocate_timer_id :: "'j scheduler \<Rightarrow> u64 \<times> 'j scheduler" where
  "allocate_timer_id s =
     (let (tid, following) = alloc_rounds u64_max (heap_timer_ids s) (next_timer_id s) (next_timer_id s)
      in (tid, s\<lparr>next_timer_id := following\<rparr>))"

definition set_timeout :: "u64 \<Rightarrow> u64 \<Rightarrow> 'j scheduler \<Rightarrow> u64 \<times> 'j scheduler" where
  "set_timeout now delay_ms s =
     (let (tid, s1) = allocate_timer_id s;
          deadline = sat_add64 now delay_ms;
          (n, s2) = next_seq s1
      in (tid, s2\<lparr>timer_heap := heap_push \<lparr>timer_id = tid, deadline_ms = deadline, timer_seq = n\<rparr>
                                (timer_heap s2),
                  heap_timer_ids := insert tid (heap_timer_ids s2)\<rparr>))"

definition clear_timeout :: "u64 \<Rightarrow> 'j scheduler \<Rightarrow> bool \<times> 'j scheduler" where
  "clear_timeout tid s =
     (let pending = (tid \<in> heap_timer_ids s \<and> tid \<notin> cancelled_timers s)
      in if pending then (True, s\<lparr>cancelled_timers := insert tid (cancelled_timers s)\<rparr>)
         else (False, s))"

definition enqueue_task :: "'j macrotask_kind \<Rightarrow> 'j scheduler \<Rightarrow> 'j scheduler" where
  "enqueue_task kind s =
     (let (n, s1) = next_seq s
      in s1\<lparr>macrotask_queue := macrotask_queue s1 @ [\<lparr>task_seq = n, task_kind = kind\<rparr>]\<rparr>)"

definition enqueue_hostcall_complete ::
  "string \<Rightarrow> 'j hostcall_outcome \<Rightarrow> 'j scheduler \<Rightarrow> 'j scheduler" where
  "enqueue_hostcall_complete call_id outcome s = enqueue_task (HostcallComplete call_id outcome) s"

definition enqueue_hostcall_completions ::
  "(string \<times> 'j hostcall_outcome) list \<Rightarrow> 'j scheduler \<Rightarrow> 'j scheduler" where
  "enqueue_hostcall_completions completions s =
     fold (\<lambda>(call_id, outcome). enqueue_hostcall_complete call_id outcome) completions s"

definition enqueue_stream_chunk ::
  "string \<Rightarrow> u64 \<Rightarrow> 'j \<Rightarrow> bool \<Rightarrow> 'j scheduler \<Rightarrow> 'j scheduler" where
  "enqueue_stream_chunk call_id n payload final s =
     enqueue_hostcall_complete call_id (StreamChunk n payload final) s"

definition enqueue_event :: "string \<Rightarrow> 'j \<Rightarrow> 'j scheduler \<Rightarrow> 'j scheduler" where
  "enqueue_event event_id payload s = enqueue_task (InboundEvent event_id payload) s"

lemma heap_peek_in: "heap_peek heap = Some e \<Longrightarrow> e \<in> set heap"
  by (induction heap arbitrary: e) (auto split: option.splits if_splits)

lemma heap_pop_shorter: "heap_pop heap = Some (e, rest) \<Longrightarrow> length rest < length heap"
  using length_pos_if_in_set [OF heap_peek_in, of heap e]
  by (auto simp: heap_pop_def length_remove1 heap_peek_in)

function move_due_timers :: "u64 \<Rightarrow> 'j scheduler \<Rightarrow> 'j scheduler" where
  "move_due_timers now s =
     (case heap_pop (timer_heap s) of
        None \<Rightarrow> s
      | Some (entry, rest) \<Rightarrow>
          if deadline_ms entry > now then s
          else
            let s1 = s\<lparr>timer_heap := rest, heap_timer_ids := heap_timer_ids s - {timer_id entry}\<rparr>
            in if timer_id entry \<in> cancelled_timers s1
               then move_due_timers now (s1\<lparr>cancelled_timers := cancelled_timers s1 - {timer_id entry}\<rparr>)
               else move_due_timers now (enqueue_task (TimerFired (timer_id entry)) s1))"
  by pat_completeness auto
termination
  by (relation "measure (\<lambda>(now, s). length (timer_heap s))")
    (auto simp: enqueue_task_def next_seq_def dest: heap_pop_shorter)

declare move_due_timers.simps [simp del]

definition tick :: "u64 \<Rightarrow> 'j scheduler \<Rightarrow> 'j macrotask option \<times> 'j scheduler" where
  "tick now s =
     (let s1 = move_due_timers now s
      in case macrotask_queue s1 of
           [] \<Rightarrow> (None, s1)
         | task # rest \<Rightarrow> (Some task, s1\<lparr>macrotask_queue := rest\<rparr>))"

definition next_timer_deadline :: "'j scheduler \<Rightarrow> u64 option" where
  "next_timer_deadline s =
     (case map deadline_ms (live_entries s) of
        [] \<Rightarrow> None
      | d # ds \<Rightarrow> Some (fold min ds d))"

definition time_until_next_timer :: "u64 \<Rightarrow> 'j scheduler \<Rightarrow> u64 option" where
  "time_until_next_timer now s = map_option (\<lambda>deadline. deadline - now) (next_timer_deadline s)"

section \<open>The order of the heap\<close>

abbreviation timer_key :: "timer_entry \<Rightarrow> u64 \<times> seq" where
  "timer_key e \<equiv> (deadline_ms e, timer_seq e)"

lemma timer_cmp_Less: "timer_cmp e best = Less \<longleftrightarrow> timer_key best < timer_key e"
  by (auto simp: timer_cmp_def compare_u64_def less_prod_def split: if_splits)

lemma heap_peek_None [simp]: "heap_peek heap = None \<longleftrightarrow> heap = []"
  by (cases heap) (auto split: option.splits)

text \<open>What the heap yields is the first element of the stable sort by deadline and sequence number.\<close>

lemma sort_heap_peek:
  "heap_peek heap = Some e \<Longrightarrow> sort_key timer_key heap = e # sort_key timer_key (remove1 e heap)"
proof (induction heap arbitrary: e)
  case (Cons a heap)
  show ?case
  proof (cases "heap_peek heap")
    case None
    then show ?thesis using Cons.prems by simp
  next
    case (Some best)
    note IH = Cons.IH [OF Some]
    show ?thesis
    proof (cases "timer_key best < timer_key a")
      case True
      then have "e = best" "best \<noteq> a" using Cons.prems Some by (auto simp: timer_cmp_Less)
      with IH True show ?thesis by (auto simp: not_le [symmetric])
    next
      case False
      then have "e = a" using Cons.prems Some by (auto simp: timer_cmp_Less)
      with IH False show ?thesis by (auto simp: not_less)
    qed
  qed
qed simp

lemma heap_peek_min: "heap_peek heap = Some e \<Longrightarrow> e' \<in> set heap \<Longrightarrow> deadline_ms e \<le> deadline_ms e'"
proof -
  assume "heap_peek heap = Some e" and "e' \<in> set heap"
  then have "sorted (map timer_key (e # sort_key timer_key (remove1 e heap)))"
      "e' \<in> set (e # sort_key timer_key (remove1 e heap))"
    using sort_heap_peek [of heap e] sorted_sort_key [of timer_key heap] set_sort [of timer_key heap] by metis+
  then show ?thesis by (auto simp: less_eq_prod_def)
qed

lemma heap_pop_SomeD:
  assumes "heap_pop heap = Some (e, rest)"
  shows "heap_peek heap = Some e" and "rest = remove1 e heap" and "e \<in> set heap"
  using assms heap_peek_in by (auto simp: heap_pop_def)

section \<open>Identifiers\<close>

lemma succ_id_range: "1 \<le> c \<Longrightarrow> c \<le> u64_max \<Longrightarrow> 1 \<le> succ_id c \<and> succ_id c \<le> u64_max"
  by (simp add: succ_id_def)

text \<open>The number of candidates from a candidate around to the start.\<close>

definition ahead :: "u64 \<Rightarrow> u64 \<Rightarrow> nat" where
  "ahead start candidate =
     (if start \<le> candidate then u64_max - candidate + start else start - candidate)"

lemma ahead_start: "1 \<le> start \<Longrightarrow> start \<le> u64_max \<Longrightarrow> ahead start start = u64_max"
  by (simp add: ahead_def)

lemma ahead_succ:
  assumes "1 \<le> start" "start \<le> u64_max" "1 \<le> c" "c \<le> u64_max" "succ_id c \<noteq> start"
  shows "Suc (ahead start (succ_id c)) = ahead start c"
  using assms by (auto simp: ahead_def succ_id_def split: if_splits)

lemma alloc_rounds_enough:
  assumes "1 \<le> start" "start \<le> u64_max" "1 \<le> c" "c \<le> u64_max" "ahead start c \<le> n"
  shows "alloc_rounds (n + k) used start c = alloc_rounds n used start c"
  using assms(3-)
proof (induction n arbitrary: c)
  case 0
  then show ?case using assms(1,2) by (auto simp: ahead_def split: if_splits)
next
  case (Suc n)
  then show ?case
    using succ_id_range [of c] ahead_succ [OF assms(1,2), of c] by (auto simp: Let_def)
qed

lemma alloc_rounds_unused:
  assumes "1 \<le> start" "start \<le> u64_max" "1 \<le> c" "c \<le> u64_max" "ahead start c \<le> n"
    and "alloc_rounds n used start c = (tid, following)"
    and "\<exists>free. 1 \<le> free \<and> free \<le> u64_max \<and> free \<notin> used \<and> ahead start free \<le> ahead start c"
  shows "tid \<notin> used \<and> 1 \<le> tid \<and> tid \<le> u64_max \<and> 1 \<le> following \<and> following \<le> u64_max"
  using assms(3-)
proof (induction n arbitrary: c)
  case 0
  then show ?case using assms(1,2) by (auto simp: ahead_def split: if_splits)
next
  case (Suc n)
  note range = succ_id_range [OF Suc.prems(1,2)]
  show ?case
  proof (cases "c \<in> used")
    case False
    with Suc.prems range show ?thesis by (auto simp: Let_def)
  next
    case True
    obtain free where free: "1 \<le> free" "free \<le> u64_max" "free \<notin> used" "ahead start free \<le> ahead start c"
      using Suc.prems(5) by blast
    have "free \<noteq> c" using free True by blast
    then have less: "ahead start free < ahead start c"
      using free Suc.prems(1,2) assms(1,2) by (auto simp: ahead_def split: if_splits)
    have more: "succ_id c \<noteq> start"
      using less Suc.prems(1,2) assms(1,2) free by (auto simp: ahead_def succ_id_def split: if_splits)
    have step: "Suc (ahead start (succ_id c)) = ahead start c"
      using ahead_succ [OF assms(1,2) Suc.prems(1,2) more] .
    show ?thesis
      by (rule Suc.IH [of "succ_id c"]) (use range step less free Suc.prems True more in \<open>auto simp: Let_def\<close>)
  qed
qed

lemma allocate_timer_id_unused:
  assumes "1 \<le> next_timer_id s" and "next_timer_id s \<le> u64_max"
    and "finite (heap_timer_ids s)" and "card (heap_timer_ids s) < u64_max"
    and "allocate_timer_id s = (tid, t)"
  shows "tid \<notin> heap_timer_ids s \<and> 1 \<le> tid \<and> tid \<le> u64_max \<and>
         (\<exists>n. t = s\<lparr>next_timer_id := n\<rparr> \<and> 1 \<le> n \<and> n \<le> u64_max)"
proof -
  obtain tid' n where a: "alloc_rounds u64_max (heap_timer_ids s) (next_timer_id s) (next_timer_id s) = (tid', n)"
    by fastforce
  have "\<not> {1..u64_max} \<subseteq> heap_timer_ids s"
    using card_mono [OF assms(3), of "{1..u64_max}"] assms(4) by auto
  then obtain free where "free \<in> {1..u64_max}" and unused: "free \<notin> heap_timer_ids s" by blast
  then have free: "1 \<le> free" "free \<le> u64_max" by auto
  have "ahead (next_timer_id s) free \<le> ahead (next_timer_id s) (next_timer_id s)"
    using free assms(1,2) by (auto simp: ahead_def)
  then show ?thesis
    using alloc_rounds_unused [OF assms(1,2,1,2) _ a] free unused assms(5) a ahead_start [OF assms(1,2)]
    by (fastforce simp: allocate_timer_id_def)
qed

section \<open>Well-formed schedulers\<close>

text \<open>
  The identifier sets describe the heap: each entry has its own identifier, \<open>heap_timer_ids\<close> holds
  exactly those, and only entries of the heap are marked as cancelled.
\<close>

definition sch_wf :: "'j scheduler \<Rightarrow> bool" where
  "sch_wf s \<longleftrightarrow>
     distinct (map timer_id (timer_heap s)) \<and>
     heap_timer_ids s = timer_id ` set (timer_heap s) \<and>
     cancelled_timers s \<subseteq> heap_timer_ids s \<and>
     1 \<le> next_timer_id s \<and> next_timer_id s \<le> u64_max"

lemma sch_new_wf: "sch_wf sch_new"
  by (simp add: sch_wf_def sch_new_def u64_max_def)

lemma sch_wfD:
  assumes "sch_wf s"
  shows "distinct (map timer_id (timer_heap s))" and "distinct (timer_heap s)"
    and "heap_timer_ids s = timer_id ` set (timer_heap s)"
    and "cancelled_timers s \<subseteq> timer_id ` set (timer_heap s)"
    and "1 \<le> next_timer_id s" and "next_timer_id s \<le> u64_max"
    and "e \<in> set (timer_heap s) \<Longrightarrow> e' \<in> set (timer_heap s) \<Longrightarrow> timer_id e = timer_id e' \<Longrightarrow> e = e'"
  using assms by (auto simp: sch_wf_def distinct_map inj_on_def)

lemma sch_wf_cong:
  "sch_wf s \<Longrightarrow> timer_heap t = timer_heap s \<Longrightarrow> heap_timer_ids t = heap_timer_ids s \<Longrightarrow>
     cancelled_timers t = cancelled_timers s \<Longrightarrow> next_timer_id t = next_timer_id s \<Longrightarrow> sch_wf t"
  by (auto simp: sch_wf_def)

lemma enqueue_task_fields [simp]:
  "timer_heap (enqueue_task k s) = timer_heap s" "heap_timer_ids (enqueue_task k s) = heap_timer_ids s"
  "cancelled_timers (enqueue_task k s) = cancelled_timers s"
  "next_timer_id (enqueue_task k s) = next_timer_id s"
  "sch_seq (enqueue_task k s) = seq_next (sch_seq s)"
  "macrotask_queue (enqueue_task k s) = macrotask_queue s @ [\<lparr>task_seq = sch_seq s, task_kind = k\<rparr>]"
  by (simp_all add: enqueue_task_def next_seq_def)

lemma enqueue_completions_fields [simp]:
  "timer_heap (enqueue_hostcall_completions cs s) = timer_heap s"
  "heap_timer_ids (enqueue_hostcall_completions cs s) = heap_timer_ids s"
  "cancelled_timers (enqueue_hostcall_completions cs s) = cancelled_timers s"
  "next_timer_id (enqueue_hostcall_completions cs s) = next_timer_id s"
  unfolding enqueue_hostcall_completions_def
  by (induction cs arbitrary: s) (auto simp: enqueue_hostcall_complete_def)

text \<open>The entries that are in the heap and not cancelled, as a map from identifier to deadline.\<close>

definition live_timers :: "'j scheduler \<Rightarrow> u64 \<rightharpoonup> u64" where
  "live_timers s = map_of (map (\<lambda>e. (timer_id e, deadline_ms e)) (live_entries s))"

lemma live_timers_Some:
  assumes "sch_wf s"
  shows "live_timers s tid = Some d \<longleftrightarrow>
     (\<exists>e \<in> set (timer_heap s). timer_id e = tid \<and> deadline_ms e = d \<and> tid \<notin> cancelled_timers s)"
proof -
  have "distinct (map timer_id (live_entries s))"
    using sch_wfD(1) [OF assms] unfolding live_entries_def
    by (induction "timer_heap s") (auto simp: distinct_map inj_on_def)
  then have "distinct (map fst (map (\<lambda>e. (timer_id e, deadline_ms e)) (live_entries s)))"
    by (simp add: comp_def)
  then show ?thesis
    unfolding live_timers_def by (subst map_of_eq_Some_iff) (auto simp: live_entries_def)
qed

lemma live_timers_cong:
  "timer_heap t = timer_heap s \<Longrightarrow> cancelled_timers t = cancelled_timers s \<Longrightarrow> live_timers t = live_timers s"
  by (simp add: live_timers_def live_entries_def)

subsection \<open>Setting and clearing a timer\<close>

lemma set_timeout_wf:
  assumes "sch_wf s" and "length (timer_heap s) < u64_max" and "set_timeout now delay s = (tid, t)"
  shows "sch_wf t \<and> tid \<notin> timer_id ` set (timer_heap s) \<and>
         (\<exists>n. timer_heap t = \<lparr>timer_id = tid, deadline_ms = sat_add64 now delay, timer_seq = n\<rparr> # timer_heap s) \<and>
         cancelled_timers t = cancelled_timers s"
proof -
  note wf = sch_wfD [OF assms(1)]
  obtain s1 where a: "allocate_timer_id s = (tid, s1)"
    using assms(3) by (auto simp: set_timeout_def Let_def split: prod.splits)
  have "card (heap_timer_ids s) < u64_max"
    using card_length [of "map timer_id (timer_heap s)"] assms(2) wf(3) by simp
  then have new: "tid \<notin> heap_timer_ids s" "\<exists>n. s1 = s\<lparr>next_timer_id := n\<rparr> \<and> 1 \<le> n \<and> n \<le> u64_max"
    using allocate_timer_id_unused [OF wf(5,6) _ _ a] wf(3) by auto
  show ?thesis
    using assms new a by (auto simp: set_timeout_def next_seq_def heap_push_def sch_wf_def)
qed

lemma clear_timeout_wf: "sch_wf s \<Longrightarrow> sch_wf (snd (clear_timeout tid s))"
  by (auto simp: clear_timeout_def sch_wf_def)

subsection \<open>Due timers\<close>

lemma pop_wf:
  assumes "sch_wf s" and "heap_pop (timer_heap s) = Some (e, rest)"
  shows "sch_wf (s\<lparr>timer_heap := rest, heap_timer_ids := heap_timer_ids s - {timer_id e},
                   cancelled_timers := cancelled_timers s - {timer_id e}\<rparr>)"
proof -
  note wf = sch_wfD [OF assms(1)] and pop = heap_pop_SomeD [OF assms(2)]
  have "set rest = set (timer_heap s) - {e}" using pop wf(2) by simp
  moreover have "timer_id ` (set (timer_heap s) - {e}) = timer_id ` set (timer_heap s) - {timer_id e}"
    using wf(7) pop(3) by auto
  moreover have "distinct (map timer_id rest)"
    using wf(1) pop(2) by (simp add: distinct_map inj_on_def distinct_remove1 set_remove1_eq)
  ultimately show ?thesis using assms(1) by (auto simp: sch_wf_def)
qed

definition due :: "u64 \<Rightarrow> 'j scheduler \<Rightarrow> timer_entry list" where
  "due now s = filter (\<lambda>e. deadline_ms e \<le> now) (live_entries s)"

lemma due_pop:
  assumes "sch_wf s" and "heap_pop (timer_heap s) = Some (e, rest)" and "deadline_ms e \<le> now"
    and "timer_heap t = rest" and "cancelled_timers t = cancelled_timers s - {timer_id e}"
  shows "sort_key timer_key (due now s) =
    (if timer_id e \<in> cancelled_timers s then [] else [e]) @ sort_key timer_key (due now t)"
proof -
  note wf = sch_wfD [OF assms(1)] and pop = heap_pop_SomeD [OF assms(2)]
  define P where "P = (\<lambda>e' :: timer_entry. deadline_ms e' \<le> now \<and> timer_id e' \<notin> cancelled_timers s)"
  have t: "due now t = filter P rest"
    using assms(4,5) wf(2,7) pop unfolding due_def live_entries_def P_def by (auto intro!: filter_cong)
  have "sort_key timer_key (due now s) = filter P (sort_key timer_key (timer_heap s))"
    by (simp add: due_def live_entries_def P_def filter_sort conj_commute)
  also have "\<dots> = filter P (e # sort_key timer_key rest)"
    using sort_heap_peek [OF pop(1)] pop(2) by simp
  also have "\<dots> = (if P e then [e] else []) @ sort_key timer_key (due now t)"
    by (simp add: t filter_sort)
  finally show ?thesis using assms(3) by (simp add: P_def)
qed

lemma filter_pop:
  "heap_pop heap = Some (e, rest) \<Longrightarrow> deadline_ms e \<le> now \<Longrightarrow>
     filter (\<lambda>e'. now < deadline_ms e') rest = filter (\<lambda>e'. now < deadline_ms e') heap"
  using filter_remove1 [of "\<lambda>e'. now < deadline_ms e'" e heap] heap_pop_SomeD(2) [of heap e rest]
  by (simp add: remove1_idem)

text \<open>
  One pass over the due timers: exactly the live ones fire, in the order of their deadlines and
  then of their sequence numbers; due entries leave the heap, cancelled or not; nothing else changes.
\<close>

lemma move_due_timers_spec:
  assumes "sch_wf s"
  shows "sch_wf (move_due_timers now s) \<and>
         timer_heap (move_due_timers now s) = filter (\<lambda>e. now < deadline_ms e) (timer_heap s) \<and>
         map task_kind (macrotask_queue (move_due_timers now s)) =
           map task_kind (macrotask_queue s) @
           map (\<lambda>e. TimerFired (timer_id e)) (sort_key timer_key (due now s)) \<and>
         cancelled_timers (move_due_timers now s) =
           cancelled_timers s - timer_id ` {e \<in> set (timer_heap s). deadline_ms e \<le> now}"
  using assms
proof (induction now s rule: move_due_timers.induct)
  case (1 now s)
  show ?case
  proof (cases "heap_pop (timer_heap s)")
    case None
    then have "timer_heap s = []" by (simp add: heap_pop_def)
    with None "1.prems" show ?thesis
      by (simp add: move_due_timers.simps [of now s] due_def live_entries_def)
  next
    case (Some p)
    obtain e rest where p: "p = (e, rest)" by fastforce
    note pop = heap_pop_SomeD [OF Some [unfolded p]] and some = Some [unfolded p]
    show ?thesis
    proof (cases "now < deadline_ms e")
      case True
      then have later: "\<forall>e' \<in> set (timer_heap s). now < deadline_ms e'"
        using heap_peek_min [OF pop(1)] by (meson less_le_trans)
      then have "due now s = []" "filter (\<lambda>e. now < deadline_ms e) (timer_heap s) = timer_heap s"
        and none: "{e \<in> set (timer_heap s). deadline_ms e \<le> now} = {}"
        by (auto simp: due_def live_entries_def filter_empty_conv filter_id_conv not_le)
      with True some "1.prems" show ?thesis unfolding none by (simp add: move_due_timers.simps [of now s])
    next
      case False
      let ?s1 = "s\<lparr>timer_heap := rest, heap_timer_ids := heap_timer_ids s - {timer_id e}\<rparr>"
      define t where "t = (if timer_id e \<in> cancelled_timers s
        then ?s1\<lparr>cancelled_timers := cancelled_timers s - {timer_id e}\<rparr>
        else enqueue_task (TimerFired (timer_id e)) ?s1)"
      have step: "move_due_timers now s = move_due_timers now t"
        using some False by (subst move_due_timers.simps) (simp add: t_def)
      have fields: "timer_heap t = rest" "cancelled_timers t = cancelled_timers s - {timer_id e}"
        "map task_kind (macrotask_queue t) = map task_kind (macrotask_queue s) @
           (if timer_id e \<in> cancelled_timers s then [] else [TimerFired (timer_id e)])"
        by (auto simp: t_def)
      have wf: "sch_wf t"
        by (rule sch_wf_cong [OF pop_wf [OF "1.prems" some]]) (auto simp: t_def)
      have IH: "sch_wf (move_due_timers now t) \<and>
         timer_heap (move_due_timers now t) = filter (\<lambda>e. now < deadline_ms e) (timer_heap t) \<and>
         map task_kind (macrotask_queue (move_due_timers now t)) =
           map task_kind (macrotask_queue t) @
           map (\<lambda>e. TimerFired (timer_id e)) (sort_key timer_key (due now t)) \<and>
         cancelled_timers (move_due_timers now t) =
           cancelled_timers t - timer_id ` {e \<in> set (timer_heap t). deadline_ms e \<le> now}"
        using "1.IH" [OF some refl False refl] wf by (auto simp: t_def split: if_splits)
      have "{e' \<in> set (timer_heap s). deadline_ms e' \<le> now} = insert e {e' \<in> set rest. deadline_ms e' \<le> now}"
        using pop False sch_wfD(2) [OF "1.prems"] by auto
      then show ?thesis
        using IH due_pop [OF "1.prems" some _ fields(1,2)] filter_pop [OF some] False
        by (auto simp: step fields)
    qed
  qed
qed

section \<open>Runs\<close>

datatype 'j sch_event =
    SetTimeout u64 u64
  | ClearTimeout u64
  | Completions "(string \<times> 'j hostcall_outcome) list"
  | Chunk string u64 'j bool
  | Inbound string 'j
  | Tick u64

text \<open>A run keeps the list of the macrotasks its ticks have executed beside the scheduler.\<close>

fun sch_exec :: "'j sch_event \<Rightarrow> 'j macrotask list \<times> 'j scheduler \<Rightarrow> 'j macrotask list \<times> 'j scheduler" where
  "sch_exec (SetTimeout now delay) (hist, s) = (hist, snd (set_timeout now delay s))"
| "sch_exec (ClearTimeout tid) (hist, s) = (hist, snd (clear_timeout tid s))"
| "sch_exec (Completions cs) (hist, s) = (hist, enqueue_hostcall_completions cs s)"
| "sch_exec (Chunk call_id n payload final) (hist, s) = (hist, enqueue_stream_chunk call_id n payload final s)"
| "sch_exec (Inbound event_id payload) (hist, s) = (hist, enqueue_event event_id payload s)"
| "sch_exec (Tick now) (hist, s) =
     (case tick now s of (None, t) \<Rightarrow> (hist, t) | (Some task, t) \<Rightarrow> (hist @ [task], t))"

subsection \<open>Sequence numbers\<close>

text \<open>
  Tasks carry increasing numbers below the counter, as long as the counter has not reached its
  maximum, where it stays.
\<close>

definition ordered_tasks :: "'j macrotask list \<times> 'j scheduler \<Rightarrow> bool" where
  "ordered_tasks p \<longleftrightarrow>
     sch_seq (snd p) \<le> u64_max \<and>
     (sch_seq (snd p) < u64_max \<longrightarrow>
        sorted_wrt (<) (map task_seq (fst p @ macrotask_queue (snd p))) \<and>
        (\<forall>task \<in> set (fst p @ macrotask_queue (snd p)). task_seq task < sch_seq (snd p)))"

lemma ordered_tasks_enqueue: "ordered_tasks (hist, s) \<Longrightarrow> ordered_tasks (hist, enqueue_task k s)"
  by (auto simp: ordered_tasks_def seq_next_def sorted_wrt_append sat_add64_def min_def less_Suc_eq
      split: if_splits)

lemma ordered_tasks_seq:
  "ordered_tasks (hist, s) \<Longrightarrow> macrotask_queue t = macrotask_queue s \<Longrightarrow>
     sch_seq t = sch_seq s \<or> sch_seq t = seq_next (sch_seq s) \<Longrightarrow> ordered_tasks (hist, t)"
  by (auto simp: ordered_tasks_def seq_next_def sat_add64_def min_def less_Suc_eq split: if_splits)

lemma ordered_tasks_completions:
  "ordered_tasks (hist, s) \<Longrightarrow> ordered_tasks (hist, enqueue_hostcall_completions cs s)"
  unfolding enqueue_hostcall_completions_def
  by (induction cs arbitrary: s) (auto simp: enqueue_hostcall_complete_def ordered_tasks_enqueue)

lemma ordered_tasks_move_due: "ordered_tasks (hist, s) \<Longrightarrow> ordered_tasks (hist, move_due_timers now s)"
proof (induction now s rule: move_due_timers.induct)
  case (1 now s)
  have queue: "ordered_tasks (hist, s\<lparr>timer_heap := h, heap_timer_ids := ids, cancelled_timers := c\<rparr>)" for h ids c
    by (rule ordered_tasks_seq [OF "1.prems"]) simp_all
  have step: "ordered_tasks (hist, move_due_timers now t)" if "heap_pop (timer_heap s) = Some (e, rest)"
      and "\<not> now < deadline_ms e"
      and "t = s\<lparr>timer_heap := rest, heap_timer_ids := heap_timer_ids s - {timer_id e},
                 cancelled_timers := cancelled_timers s - {timer_id e}\<rparr> \<and> timer_id e \<in> cancelled_timers s \<or>
           t = enqueue_task (TimerFired (timer_id e))
                 (s\<lparr>timer_heap := rest, heap_timer_ids := heap_timer_ids s - {timer_id e}\<rparr>) \<and>
               timer_id e \<notin> cancelled_timers s" for t e rest
    using "1.IH" [OF that(1) refl that(2) refl] that(3)
      queue [where h = rest and ids = "heap_timer_ids s - {timer_id e}"]
      queue [where h = rest and ids = "heap_timer_ids s - {timer_id e}" and c = "cancelled_timers s"]
    by (auto intro: ordered_tasks_enqueue)
  show ?case
    using "1.prems" step by (subst move_due_timers.simps) (auto simp: Let_def split: option.splits)
qed

lemma ordered_tasks_set_timeout:
  "ordered_tasks (hist, s) \<Longrightarrow> ordered_tasks (hist, snd (set_timeout now delay s))"
  by (erule ordered_tasks_seq)
    (auto simp: set_timeout_def allocate_timer_id_def next_seq_def Let_def split: prod.splits)

lemma ordered_tasks_tick: "ordered_tasks (hist, s) \<Longrightarrow> ordered_tasks (sch_exec (Tick now) (hist, s))"
  using ordered_tasks_move_due [of hist s now]
  by (auto simp: tick_def Let_def ordered_tasks_def split: list.splits)

interpretation sch: invariant_machine ordered_tasks sch_exec
proof
  fix p :: "'a macrotask list \<times> 'a scheduler" and e
  assume inv: "ordered_tasks p"
  obtain hist s where p: "p = (hist, s)" by fastforce
  show "ordered_tasks (sch_exec e p)"
  proof (cases e)
    case (ClearTimeout tid)
    have "ordered_tasks (hist, snd (clear_timeout tid s))"
      by (rule ordered_tasks_seq [OF inv [unfolded p]]) (simp_all add: clear_timeout_def Let_def)
    then show ?thesis by (simp add: p ClearTimeout)
  next
    case (Tick now)
    then show ?thesis using inv ordered_tasks_tick p by blast
  qed (use inv in \<open>simp_all add: p ordered_tasks_set_timeout ordered_tasks_completions ordered_tasks_enqueue
        enqueue_stream_chunk_def enqueue_hostcall_complete_def enqueue_event_def\<close>)
qed

subsection \<open>Timers over a run\<close>

lemma sch_exec_wf:
  assumes "sch_wf s" and "length (timer_heap s) < u64_max" and "sch_exec e (hist, s) = (hist', t)"
  shows "sch_wf t \<and> length (timer_heap t) \<le> Suc (length (timer_heap s))"
proof (cases e)
  case (SetTimeout now delay)
  obtain tid t' where "set_timeout now delay s = (tid, t')" by fastforce
  with SetTimeout set_timeout_wf [OF assms(1,2)] assms(3) show ?thesis by force
next
  case (ClearTimeout tid)
  with clear_timeout_wf [OF assms(1), of tid] assms(3) show ?thesis
    by (auto simp: clear_timeout_def Let_def split: if_splits)
next
  case (Tick now)
  note spec = move_due_timers_spec [OF assms(1), of now]
  have "length (timer_heap (move_due_timers now s)) \<le> length (timer_heap s)"
    using spec by simp
  moreover have "sch_wf t" "timer_heap t = timer_heap (move_due_timers now s)"
    using assms(3) Tick spec sch_wf_cong [of "move_due_timers now s" t]
    by (auto simp: tick_def Let_def split: list.splits)
  ultimately show ?thesis by simp
qed (use assms sch_wf_cong [OF assms(1), of t] in
    \<open>auto simp: enqueue_stream_chunk_def enqueue_hostcall_complete_def enqueue_event_def\<close>)

lemma sch_run_wf:
  assumes "length es \<le> u64_max" and "fold sch_exec es ([], sch_new) = (hist, s)"
  shows "sch_wf s \<and> length (timer_heap s) \<le> length es"
  using assms
proof (induction es arbitrary: hist s rule: rev_induct)
  case Nil
  then show ?case using sch_new_wf by (auto simp: sch_new_def)
next
  case (snoc e es)
  obtain hist' s' where r: "fold sch_exec es ([], sch_new) = (hist', s')" by fastforce
  with snoc have IH: "sch_wf s'" "length (timer_heap s') \<le> length es" by auto
  then show ?case
    using snoc.prems r sch_exec_wf [of s' e hist' hist s] by auto
qed

lemma map_eqI: "(\<And>i d. m i = Some d \<longleftrightarrow> m' i = Some d) \<Longrightarrow> m = m'"
  by (rule ext) (metis option.exhaust)

lemma clear_timeout_live:
  assumes "sch_wf s" and "clear_timeout tid s = (cleared, t)"
  shows "(cleared \<longleftrightarrow> live_timers s tid \<noteq> None) \<and> live_timers t = (live_timers s)(tid := None)"
proof
  note live = live_timers_Some [OF assms(1)]
  have wf: "sch_wf t" using clear_timeout_wf [OF assms(1), of tid] assms(2) by simp
  show "cleared \<longleftrightarrow> live_timers s tid \<noteq> None"
    using assms(2) live [of tid] sch_wfD(3) [OF assms(1)]
    by (auto simp: clear_timeout_def Let_def split: if_splits)
  show "live_timers t = (live_timers s)(tid := None)"
  proof (rule map_eqI)
    fix i d
    have "live_timers s i = Some d \<Longrightarrow> i = tid \<Longrightarrow> cleared"
      using \<open>cleared \<longleftrightarrow> live_timers s tid \<noteq> None\<close> by auto
    then show "live_timers t i = Some d \<longleftrightarrow> ((live_timers s)(tid := None)) i = Some d"
      unfolding live_timers_Some [OF wf] fun_upd_apply using live [of i d] assms(2)
      by (auto simp: clear_timeout_def Let_def split: if_splits)
  qed
qed

lemma move_due_live:
  assumes "sch_wf s"
  shows "live_timers (move_due_timers now s) =
           (\<lambda>i. case live_timers s i of None \<Rightarrow> None | Some d \<Rightarrow> if d \<le> now then None else Some d)"
proof (rule map_eqI)
  fix i d
  note spec = move_due_timers_spec [OF assms, of now]
  have cancelled: "i \<in> cancelled_timers (move_due_timers now s) \<longleftrightarrow> i \<in> cancelled_timers s"
    if e: "e \<in> set (timer_heap s)" "timer_id e = i" "now < deadline_ms e" for e
  proof -
    have "i \<notin> timer_id ` {e' \<in> set (timer_heap s). deadline_ms e' \<le> now}"
    proof
      assume "i \<in> timer_id ` {e' \<in> set (timer_heap s). deadline_ms e' \<le> now}"
      then obtain e' where e': "e' \<in> set (timer_heap s)" "timer_id e = timer_id e'" "deadline_ms e' \<le> now"
        using e(2) by auto
      have "e = e'" by (rule sch_wfD(7) [OF assms e(1) e'(1,2)])
      then show False using e(3) e'(3) by simp
    qed
    then show ?thesis using spec by blast
  qed
  have "live_timers (move_due_timers now s) i = Some d \<longleftrightarrow> live_timers s i = Some d \<and> now < d"
  proof -
    have "set (timer_heap (move_due_timers now s)) = {e \<in> set (timer_heap s). now < deadline_ms e}"
      using spec by simp
    then show ?thesis
      unfolding live_timers_Some [OF conjunct1 [OF spec]] live_timers_Some [OF assms]
      using cancelled by blast
  qed
  then show "live_timers (move_due_timers now s) i = Some d \<longleftrightarrow>
      (case live_timers s i of None \<Rightarrow> None | Some d \<Rightarrow> if d \<le> now then None else Some d) = Some d"
    by (cases "live_timers s i") auto
qed

lemma tick_timers:
  "timer_heap (snd (tick now s)) = timer_heap (move_due_timers now s)"
  "cancelled_timers (snd (tick now s)) = cancelled_timers (move_due_timers now s)"
  by (simp_all add: tick_def Let_def split: list.splits)

lemma next_timer_deadline_Min:
  "next_timer_deadline s =
     (if live_entries s = [] then None else Some (Min (deadline_ms ` set (live_entries s))))"
proof (cases "map deadline_ms (live_entries s)")
  case (Cons d ds)
  then have "deadline_ms ` set (live_entries s) = insert d (set ds)" by (metis list.set_map list.simps(15))
  moreover have "fold min ds d = Min (insert d (set ds))"
    using Min.set_eq_fold [of d ds] by simp
  ultimately show ?thesis using Cons by (auto simp: next_timer_deadline_def)
qed (simp add: next_timer_deadline_def)

section \<open>Properties\<close>

text \<open>
  C22: The observable order is the order of sequence numbers. In any run that has not exhausted the
  64-bit counter, the macrotasks that the ticks have executed, followed by those still queued, carry
  strictly increasing sequence numbers, whether they come from timers, hostcalls or events.
\<close>

theorem executed_in_sequence_order:
  assumes "fold sch_exec es ([], sch_new) = (hist, s)" and "sch_seq s < u64_max"
  shows "sorted_wrt (<) (map task_seq (hist @ macrotask_queue s)) \<and>
         (\<forall>task \<in> set (hist @ macrotask_queue s). task_seq task < sch_seq s)"
proof -
  have "ordered_tasks ([], sch_new :: 'a scheduler)"
    by (simp add: ordered_tasks_def sch_new_def seq_zero_def)
  then have "ordered_tasks (hist, s)"
    using sch.inv_run [of "([], sch_new)" es] assms(1) by simp
  with assms(2) show ?thesis by (simp add: ordered_tasks_def)
qed

lemma alloc_rounds_pos:
  "0 < n \<Longrightarrow> alloc_rounds n used start c =
     (if c \<notin> used then (c, succ_id c)
      else if succ_id c = start then (u64_max, succ_id c)
      else alloc_rounds (n - 1) used start (succ_id c))"
  by (cases n) (simp_all add: Let_def)

text \<open>The equations that run the scheduler on concrete states.\<close>

lemmas sch_run = sch_new_def seq_zero_def seq_next_def set_timeout_def allocate_timer_id_def
  alloc_rounds_pos succ_id_def next_seq_def heap_push_def heap_pop_def timer_cmp_def compare_u64_def
  tick_def move_due_timers.simps enqueue_task_def enqueue_event_def enqueue_hostcall_complete_def
  enqueue_stream_chunk_def clear_timeout_def Let_def sat_add64_def u64_max_def

theorem executed_in_sequence_order_witness:
  "\<exists>hist s. fold sch_exec [SetTimeout 0 5, Inbound ''e'' (), Tick 10, Tick 10] ([], sch_new) = (hist, s) \<and>
     length hist = 2 \<and> sorted_wrt (<) (map task_seq hist)"
proof -
  obtain hist s where r: "fold sch_exec [SetTimeout 0 5, Inbound ''e'' (), Tick 10, Tick 10] ([], sch_new) = (hist, s)"
    by fastforce
  have "length hist = 2" "sch_seq s < u64_max" using r by (auto simp: sch_run)
  with r executed_in_sequence_order [OF r] show ?thesis by (auto simp: sorted_wrt_append)
qed

text \<open>
  Timers fire in a stable order. A tick queues exactly the timers that are due and not
  cancelled, earliest deadline first and, for equal deadlines, in the order in which they were set;
  timers that are not due stay in the heap.
\<close>

theorem due_timers_fire_in_order:
  assumes "length es \<le> u64_max" and "fold sch_exec es ([], sch_new) = (hist, s)"
  shows "map task_kind (macrotask_queue (move_due_timers now s)) =
           map task_kind (macrotask_queue s) @
           map (\<lambda>e. TimerFired (timer_id e))
             (sort_key (\<lambda>e. (deadline_ms e, timer_seq e))
               (filter (\<lambda>e. deadline_ms e \<le> now \<and> timer_id e \<notin> cancelled_timers s) (timer_heap s))) \<and>
         timer_heap (move_due_timers now s) = filter (\<lambda>e. now < deadline_ms e) (timer_heap s)"
  using move_due_timers_spec [of s now] sch_run_wf [OF assms]
  by (simp add: due_def live_entries_def conj_commute)

theorem due_timers_fire_in_order_witness:
  "\<exists>hist (s :: unit scheduler).
     fold sch_exec [SetTimeout 0 7, SetTimeout 0 5, SetTimeout 0 5] ([], sch_new) = (hist, s) \<and>
     map task_kind (macrotask_queue (move_due_timers 10 s)) = [TimerFired 2, TimerFired 3, TimerFired 1]"
proof -
  let ?es = "[SetTimeout 0 7, SetTimeout 0 5, SetTimeout 0 5] :: unit sch_event list"
  obtain hist s where r: "fold sch_exec ?es ([], sch_new) = (hist, s)" by fastforce
  have "length ?es \<le> u64_max" by (simp add: u64_max_def)
  note fired = due_timers_fire_in_order [OF this r, of 10]
  have "timer_heap s = [\<lparr>timer_id = 3, deadline_ms = 5, timer_seq = 2\<rparr>,
      \<lparr>timer_id = 2, deadline_ms = 5, timer_seq = 1\<rparr>, \<lparr>timer_id = 1, deadline_ms = 7, timer_seq = 0\<rparr>]"
    "macrotask_queue s = []" "cancelled_timers s = {}"
    using r by (auto simp: sch_run)
  with fired r show ?thesis by simp
qed

text \<open>
  The timers refine a map from identifiers to deadlines. As long as a run has made fewer than
  \<open>2\<^sup>6\<^sup>4 - 1\<close> calls, setting a timer enters a fresh identifier (never one whose cancelled entry is
  still in the heap) with the saturated deadline, clearing removes exactly the given timer and
  answers whether it was live, and a tick removes exactly the timers whose deadline has passed.
\<close>

theorem timers_refine_map:
  assumes "length es < u64_max" and "fold sch_exec es ([], sch_new) = (hist, s)"
  shows "(case set_timeout now delay s of (tid, t) \<Rightarrow>
            live_timers s tid = None \<and> live_timers t = (live_timers s)(tid \<mapsto> sat_add64 now delay)) \<and>
         (case clear_timeout tid s of (cleared, t) \<Rightarrow>
            (cleared \<longleftrightarrow> live_timers s tid \<noteq> None) \<and> live_timers t = (live_timers s)(tid := None)) \<and>
         live_timers (snd (tick now s)) =
           (\<lambda>i. case live_timers s i of None \<Rightarrow> None | Some d \<Rightarrow> if d \<le> now then None else Some d)"
proof (intro conjI)
  have wf: "sch_wf s" and len: "length (timer_heap s) < u64_max"
    using sch_run_wf [OF _ assms(2)] assms(1) by auto
  note heap = sch_wfD [OF wf]
  obtain i t where set: "set_timeout now delay s = (i, t)" by fastforce
  show "case set_timeout now delay s of (tid, t) \<Rightarrow>
      live_timers s tid = None \<and> live_timers t = (live_timers s)(tid \<mapsto> sat_add64 now delay)"
  proof -
    note spec = set_timeout_wf [OF wf len set]
    then have fresh: "i \<notin> cancelled_timers s" using heap(4) by auto
    have none: "live_timers s i = None"
      using spec live_timers_Some [OF wf, of i] by (metis image_eqI not_Some_eq)
    have "live_timers t = (live_timers s)(i \<mapsto> sat_add64 now delay)"
      using spec fresh by (auto simp: live_timers_def live_entries_def)
    with none set show ?thesis by simp
  qed
  show "case clear_timeout tid s of (cleared, t) \<Rightarrow>
      (cleared \<longleftrightarrow> live_timers s tid \<noteq> None) \<and> live_timers t = (live_timers s)(tid := None)"
    using clear_timeout_live [OF wf] by (simp split: prod.splits)
  show "live_timers (snd (tick now s)) =
      (\<lambda>i. case live_timers s i of None \<Rightarrow> None | Some d \<Rightarrow> if d \<le> now then None else Some d)"
    using move_due_live [OF wf, of now] live_timers_cong [OF tick_timers] by metis
qed

theorem timers_refine_map_witness:
  "\<exists>hist (s :: unit scheduler).
     fold sch_exec [SetTimeout 0 7, ClearTimeout 1] ([], sch_new) = (hist, s) \<and>
     (case set_timeout 3 4 s of (tid, t) \<Rightarrow> live_timers t = (live_timers s)(tid \<mapsto> 7))"
proof -
  let ?es = "[SetTimeout 0 7, ClearTimeout 1] :: unit sch_event list"
  obtain hist s where r: "fold sch_exec ?es ([], sch_new) = (hist, s)" by fastforce
  have "length ?es < u64_max" by (simp add: u64_max_def)
  from timers_refine_map [OF this r, of 3 4] r show ?thesis
    by (auto simp: sat_add64_def u64_max_def split: prod.splits)
qed

lemma ran_live_timers: "sch_wf s \<Longrightarrow> Map.ran (live_timers s) = deadline_ms ` set (live_entries s)"
  unfolding Map.ran_def by (auto simp: live_timers_Some live_entries_def)

lemma live_timers_empty: "live_timers s = Map.empty \<longleftrightarrow> live_entries s = []"
  by (simp add: live_timers_def)

text \<open>
  Sleeping until the next deadline loses nothing. The next deadline is the earliest of the live
  timers; before it a tick fires no timer, and from it on a tick fires at least one, so that a loop
  which waits for \<open>time_until_next_timer\<close> makes progress at its next tick; and the scheduler reports
  pending work exactly while there is a queued task or a live timer.
\<close>

theorem next_deadline_exact:
  assumes "length es \<le> u64_max" and "fold sch_exec es ([], sch_new) = (hist, s)"
  shows "(case next_timer_deadline s of
            None \<Rightarrow> live_timers s = Map.empty \<and> length (macrotask_queue (move_due_timers now s)) = length (macrotask_queue s)
          | Some d \<Rightarrow>
              d \<in> Map.ran (live_timers s) \<and> (\<forall>d' \<in> Map.ran (live_timers s). d \<le> d') \<and>
              (length (macrotask_queue s) < length (macrotask_queue (move_due_timers now s)) \<longleftrightarrow> d \<le> now) \<and>
              time_until_next_timer now s = Some (d - now)) \<and>
         (has_pending s \<longleftrightarrow> macrotask_queue s \<noteq> [] \<or> live_timers s \<noteq> Map.empty)"
proof -
  have wf: "sch_wf s" using sch_run_wf [OF assms] by blast
  have pending: "has_pending s \<longleftrightarrow> macrotask_queue s \<noteq> [] \<or> live_timers s \<noteq> Map.empty"
    by (auto simp: has_pending_def live_timers_empty live_entries_def filter_empty_conv list_ex_iff)
  have fired: "length (macrotask_queue (move_due_timers now s)) = length (macrotask_queue s) + length (due now s)"
    using arg_cong [OF conjunct1 [OF conjunct2 [OF conjunct2 [OF move_due_timers_spec [OF wf, of now]]]], of length]
    by simp
  show ?thesis
  proof (cases "live_entries s")
    case Nil
    then show ?thesis
      using fired pending by (simp add: next_timer_deadline_Min live_timers_empty due_def)
  next
    case (Cons e es')
    let ?ds = "deadline_ms ` set (live_entries s)"
    have ne: "finite ?ds" "?ds \<noteq> {}" using Cons by simp_all
    have d: "next_timer_deadline s = Some (Min ?ds)" using Cons by (simp add: next_timer_deadline_Min)
    have "due now s = [] \<longleftrightarrow> \<not> Min ?ds \<le> now"
      using ne by (auto simp: due_def filter_empty_conv Min_le_iff)
    then show ?thesis
      using fired pending Min_in [OF ne] Min_le [OF ne(1)] ran_live_timers [OF wf]
      by (simp add: d time_until_next_timer_def del: Min_in)
  qed
qed

theorem next_deadline_exact_witness:
  "\<exists>hist (s :: unit scheduler). fold sch_exec [SetTimeout 0 7] ([], sch_new) = (hist, s) \<and>
     next_timer_deadline s = Some 7 \<and>
     length (macrotask_queue s) < length (macrotask_queue (move_due_timers 7 s))"
proof -
  let ?es = "[SetTimeout 0 7] :: unit sch_event list"
  obtain hist s where r: "fold sch_exec ?es ([], sch_new) = (hist, s)" by fastforce
  have len: "length ?es \<le> u64_max" by (simp add: u64_max_def)
  have d: "next_timer_deadline s = Some 7"
    using r by (auto simp: sch_run next_timer_deadline_def live_entries_def)
  have "length (macrotask_queue s) < length (macrotask_queue (move_due_timers 7 s))"
    using next_deadline_exact [OF len r, of 7] by (simp add: d)
  with r d show ?thesis by blast
qed

end
