(* ===== verification/Reactor.thy ===== *)
theory Reactor
  imports Scheduler Ordered_Map "HOL-Library.Multiset"
begin

text \<open>
  The reactor mesh of \<open>src/src/scheduler.rs\<close>: the placement of shards on the cores of a machine
  topology, the bounded single-producer single-consumer lanes, and the mesh that routes
  envelopes to lanes (hostcall completions by a hash of the call, events round robin) and drains
  them in the order of their global sequence numbers. The lane also provides the contract of a
  bounded ring, which the hostcall queue relies on for its fast path.
\<close>

section \<open>Placement\<close>

record topology_core =
  top_core_id :: usize
  top_numa_node :: usize

type_synonym topology_snapshot = "topology_core list"

definition core_key :: "topology_core \<Rightarrow> usize \<times> usize" where
  "core_key c = (top_core_id c, top_numa_node c)"

definition from_core_node_pairs :: "(usize \<times> usize) list \<Rightarrow> topology_snapshot" where
  "from_core_node_pairs pairs =
     remdups_adj (sort_key core_key
       (map (\<lambda>(c, n). \<lparr>top_core_id = c, top_numa_node = n\<rparr>) pairs))"

datatype placement_fallback_reason = TopologyUnavailable | TopologyEmpty | SingleNumaNode

fun placement_as_code :: "placement_fallback_reason \<Rightarrow> string" where
  "placement_as_code TopologyUnavailable = ''topology_unavailable''"
| "placement_as_code TopologyEmpty = ''topology_empty''"
| "placement_as_code SingleNumaNode = ''single_numa_node''"

record shard_binding =
  bind_shard :: usize
  bind_core :: usize
  bind_node :: usize

record placement_manifest =
  man_shard_count :: usize
  man_numa_node_count :: usize
  bindings :: "shard_binding list"
  man_fallback :: "placement_fallback_reason option"

text \<open>The bindings of every early return: shard \<open>i\<close> on core \<open>i\<close>, all on node 0.\<close>

definition identity_bindings :: "usize \<Rightarrow> shard_binding list" where
  "identity_bindings n = map (\<lambda>i. \<lparr>bind_shard = i, bind_core = i, bind_node = 0\<rparr>) [0..<n]"

definition push_core :: "topology_core \<Rightarrow> (usize, usize list) btree \<Rightarrow> (usize, usize list) btree" where
  "push_core c by_node =
     bt_insert (top_numa_node c)
       ((case bt_get by_node (top_numa_node c) of None \<Rightarrow> [] | Some cs \<Rightarrow> cs) @ [top_core_id c]) by_node"

definition topology_nodes :: "topology_snapshot \<Rightarrow> (usize \<times> usize list) list" where
  "topology_nodes topology =
     filter (\<lambda>(_, cs). cs \<noteq> [])
       (map (\<lambda>(n, cs). (n, remdups_adj (sort cs))) (fold push_core topology bt_empty))"

definition plan :: "usize \<Rightarrow> topology_snapshot option \<Rightarrow> placement_manifest" where
  "plan shard_count topology =
     (if shard_count = 0 then
        \<lparr>man_shard_count = 0, man_numa_node_count = 0, bindings = [], man_fallback = None\<rparr>
      else case topology of
        None \<Rightarrow>
          \<lparr>man_shard_count = shard_count, man_numa_node_count = 1,
           bindings = identity_bindings shard_count, man_fallback = Some TopologyUnavailable\<rparr>
      | Some cores \<Rightarrow>
          if cores = [] then
            \<lparr>man_shard_count = shard_count, man_numa_node_count = 1,
             bindings = identity_bindings shard_count, man_fallback = Some TopologyEmpty\<rparr>
          else
            let nodes = topology_nodes cores in
            if nodes = [] then
              \<lparr>man_shard_count = shard_count, man_numa_node_count = 1,
               bindings = identity_bindings shard_count, man_fallback = Some TopologyEmpty\<rparr>
            else
              let node_count = length nodes in
              \<lparr>man_shard_count = shard_count, man_numa_node_count = node_count,
               bindings = map (\<lambda>shard_id.
                 let (node, cs) = nodes ! (shard_id mod node_count);
                     core_idx = (shard_id div node_count) mod length cs
                 in \<lparr>bind_shard = shard_id, bind_core = cs ! core_idx, bind_node = node\<rparr>)
                 [0..<shard_count],
               man_fallback = (if node_count = 1 then Some SingleNumaNode else None)\<rparr>)"

section \<open>Lanes\<close>

record 't spsc_lane =
  lane_cap :: usize
  lane_queue :: "'t list"
  lane_max_depth :: usize

definition lane_new :: "usize \<Rightarrow> 't spsc_lane" where
  "lane_new capacity = \<lparr>lane_cap = capacity, lane_queue = [], lane_max_depth = 0\<rparr>"

definition lane_len :: "'t spsc_lane \<Rightarrow> usize" where
  "lane_len l = length (lane_queue l)"

definition lane_is_empty :: "'t spsc_lane \<Rightarrow> bool" where
  "lane_is_empty l = (lane_queue l = [])"

definition lane_push :: "'t \<Rightarrow> 't spsc_lane \<Rightarrow> usize + 't spsc_lane" where
  "lane_push x l =
     (if length (lane_queue l) \<ge> lane_cap l then Inl (length (lane_queue l))
      else let q = lane_queue l @ [x]
           in Inr (l\<lparr>lane_queue := q, lane_max_depth := max (lane_max_depth l) (length q)\<rparr>))"

definition lane_pop :: "'t spsc_lane \<Rightarrow> 't option \<times> 't spsc_lane" where
  "lane_pop l =
     (case lane_queue l of [] \<Rightarrow> (None, l) | x # q \<Rightarrow> (Some x, l\<lparr>lane_queue := q\<rparr>))"

definition lane_front :: "'t spsc_lane \<Rightarrow> 't option" where
  "lane_front l = (case lane_queue l of [] \<Rightarrow> None | x # _ \<Rightarrow> Some x)"

section \<open>The mesh\<close>

record mesh_config =
  cfg_shard_count :: usize
  cfg_lane_capacity :: usize
  cfg_topology :: "topology_snapshot option"

definition default_mesh_config :: mesh_config where
  "default_mesh_config = \<lparr>cfg_shard_count = 4, cfg_lane_capacity = 1024, cfg_topology = None\<rparr>"

record 'j envelope =
  global_seq :: seq
  env_shard_seq :: u64
  env_shard :: usize
  env_task :: "'j macrotask_kind"

record backpressure =
  bp_shard :: usize
  bp_depth :: usize
  bp_capacity :: usize

record mesh_telemetry =
  queue_depths :: "usize list"
  max_queue_depths :: "usize list"
  tel_rejected :: u64
  shard_bindings :: "shard_binding list"
  tel_fallback :: "placement_fallback_reason option"

record 'j mesh =
  mesh_seq :: seq
  lanes :: "'j envelope spsc_lane list"
  shard_seqs :: "u64 list"
  rr_cursor :: usize
  rejected_enqueues :: u64
  manifest :: placement_manifest

definition mesh_new :: "mesh_config \<Rightarrow> 'j mesh" where
  "mesh_new config =
     (if cfg_shard_count config = 0 \<or> cfg_lane_capacity config = 0 then
        \<lparr>mesh_seq = seq_zero, lanes = [], shard_seqs = [], rr_cursor = 0, rejected_enqueues = 0,
         manifest = plan 0 (cfg_topology config)\<rparr>
      else
        \<lparr>mesh_seq = seq_zero,
         lanes = map (\<lambda>_. lane_new (cfg_lane_capacity config)) [0..<cfg_shard_count config],
         shard_seqs = replicate (cfg_shard_count config) 0, rr_cursor = 0, rejected_enqueues = 0,
         manifest = plan (cfg_shard_count config) (cfg_topology config)\<rparr>)"

definition shard_count :: "'j mesh \<Rightarrow> usize" where
  "shard_count m = length (lanes m)"

definition total_depth :: "'j mesh \<Rightarrow> usize" where
  "total_depth m = sum_list (map lane_len (lanes m))"

definition mesh_has_pending :: "'j mesh \<Rightarrow> bool" where
  "mesh_has_pending m = (total_depth m > 0)"

definition queue_depth :: "usize \<Rightarrow> 'j mesh \<Rightarrow> usize option" where
  "queue_depth i m = (if i < length (lanes m) then Some (lane_len (lanes m ! i)) else None)"

definition mesh_telemetry_of :: "'j mesh \<Rightarrow> mesh_telemetry" where
  "mesh_telemetry_of m =
     \<lparr>queue_depths = map lane_len (lanes m), max_queue_depths = map lane_max_depth (lanes m),
      tel_rejected = rejected_enqueues m, shard_bindings = bindings (manifest m),
      tel_fallback = man_fallback (manifest m)\<rparr>"

definition next_global_seq :: "'j mesh \<Rightarrow> seq \<times> 'j mesh" where
  "next_global_seq m = (mesh_seq m, m\<lparr>mesh_seq := seq_next (mesh_seq m)\<rparr>)"

definition next_shard_seq :: "usize \<Rightarrow> 'j mesh \<Rightarrow> u64 \<times> 'j mesh" where
  "next_shard_seq i m =
     (if i < length (shard_seqs m)
      then (shard_seqs m ! i, m\<lparr>shard_seqs := (shard_seqs m)[i := sat_add64 (shard_seqs m ! i) 1]\<rparr>)
      else (0, m))"

text \<open>FNV-1a over the bytes of the call identifier, on 64-bit words.\<close>

definition fnv_step :: "char \<Rightarrow> 64 word \<Rightarrow> 64 word" where
  "fnv_step byte hash = xor hash (of_char byte) * 0x100000001b3"

definition stable_hash :: "string \<Rightarrow> 64 word" where
  "stable_hash input = fold fnv_step input 0xcbf29ce484222325"

definition hash_route :: "string \<Rightarrow> 'j mesh \<Rightarrow> usize" where
  "hash_route call_id m =
     (if length (lanes m) \<le> 1 then 0 else unat (stable_hash call_id) mod length (lanes m))"

definition rr_route :: "'j mesh \<Rightarrow> usize \<times> 'j mesh" where
  "rr_route m =
     (if length (lanes m) \<le> 1 then (0, m)
      else (rr_cursor m mod length (lanes m), m\<lparr>rr_cursor := (rr_cursor m + 1) mod 2 ^ 64\<rparr>))"

definition enqueue_with_route ::
  "usize \<Rightarrow> 'j macrotask_kind \<Rightarrow> 'j mesh \<Rightarrow> (backpressure + 'j envelope) \<times> 'j mesh" where
  "enqueue_with_route shard task m =
     (let (g, m1) = next_global_seq m;
          (n, m2) = next_shard_seq shard m1;
          env = \<lparr>global_seq = g, env_shard_seq = n, env_shard = shard, env_task = task\<rparr>
      in if shard < length (lanes m2) then
           (case lane_push env (lanes m2 ! shard) of
              Inr l \<Rightarrow> (Inr env, m2\<lparr>lanes := (lanes m2)[shard := l]\<rparr>)
            | Inl depth \<Rightarrow>
                (Inl \<lparr>bp_shard = shard, bp_depth = depth, bp_capacity = lane_cap (lanes m2 ! shard)\<rparr>,
                 m2\<lparr>rejected_enqueues := sat_add64 (rejected_enqueues m2) 1\<rparr>))
         else
           (Inl \<lparr>bp_shard = shard, bp_depth = 0, bp_capacity = 0\<rparr>,
            m2\<lparr>rejected_enqueues := sat_add64 (rejected_enqueues m2) 1\<rparr>))"

definition mesh_enqueue_hostcall_complete ::
  "string \<Rightarrow> 'j hostcall_outcome \<Rightarrow> 'j mesh \<Rightarrow> (backpressure + 'j envelope) \<times> 'j mesh" where
  "mesh_enqueue_hostcall_complete call_id outcome m =
     enqueue_with_route (hash_route call_id m) (HostcallComplete call_id outcome) m"

definition mesh_enqueue_event ::
  "string \<Rightarrow> 'j \<Rightarrow> 'j mesh \<Rightarrow> (backpressure + 'j envelope) \<times> 'j mesh" where
  "mesh_enqueue_event event_id payload m =
     (let (shard, m1) = rr_route m in enqueue_with_route shard (InboundEvent event_id payload) m1)"

primrec drain_lane :: "nat \<Rightarrow> 't spsc_lane \<Rightarrow> 't list \<times> 't spsc_lane" where
  "drain_lane 0 l = ([], l)"
| "drain_lane (Suc budget) l =
     (case lane_pop l of
        (None, l1) \<Rightarrow> ([], l1)
      | (Some x, l1) \<Rightarrow> (let (xs, l2) = drain_lane budget l1 in (x # xs, l2)))"

definition drain_shard :: "usize \<Rightarrow> usize \<Rightarrow> 'j mesh \<Rightarrow> 'j envelope list \<times> 'j mesh" where
  "drain_shard shard budget m =
     (if shard < length (lanes m)
      then (let (xs, l) = drain_lane budget (lanes m ! shard) in (xs, m\<lparr>lanes := (lanes m)[shard := l]\<rparr>))
      else ([], m))"

text \<open>The scan of the lane fronts: the index and sequence number of the best front so far.\<close>

fun best_front :: "nat \<Rightarrow> 'j envelope spsc_lane list \<Rightarrow> (nat \<times> seq) option \<Rightarrow> (nat \<times> seq) option" where
  "best_front i [] best = best"
| "best_front i (l # ls) best =
     (case lane_front l of
        None \<Rightarrow> best_front (Suc i) ls best
      | Some env \<Rightarrow>
          best_front (Suc i) ls
            (case best of
               None \<Rightarrow> Some (i, global_seq env)
             | Some (j, n) \<Rightarrow> if global_seq env < n then Some (i, global_seq env) else Some (j, n)))"

primrec drain_global_order :: "nat \<Rightarrow> 'j mesh \<Rightarrow> 'j envelope list \<times> 'j mesh" where
  "drain_global_order 0 m = ([], m)"
| "drain_global_order (Suc budget) m =
     (case best_front 0 (lanes m) None of
        None \<Rightarrow> ([], m)
      | Some (chosen, _) \<Rightarrow>
          (case lane_pop (lanes m ! chosen) of
             (None, l) \<Rightarrow> drain_global_order budget (m\<lparr>lanes := (lanes m)[chosen := l]\<rparr>)
           | (Some item, l) \<Rightarrow>
               (let (items, m1) = drain_global_order budget (m\<lparr>lanes := (lanes m)[chosen := l]\<rparr>)
                in (item # items, m1))))"

section \<open>The merge of the lanes\<close>

definition pending :: "'j mesh \<Rightarrow> 'j envelope list" where
  "pending m = concat (map lane_queue (lanes m))"

lemma total_depth_pending: "total_depth m = length (pending m)"
  by (simp add: total_depth_def pending_def length_concat comp_def lane_len_def [abs_def])

lemma mset_concat_update:
  "c < length ls \<Longrightarrow>
     mset (concat (map f (ls[c := l]))) + mset (f (ls ! c)) = mset (concat (map f ls)) + mset (f l)"
  by (induction ls arbitrary: c) (auto simp: nth_Cons' less_Suc_eq_0_disj split: nat.splits)

text \<open>Every lane is in the order of the global numbers, and no number occurs twice.\<close>

definition lanes_ordered :: "'j envelope spsc_lane list \<Rightarrow> bool" where
  "lanes_ordered ls \<longleftrightarrow>
     (\<forall>l \<in> set ls. sorted_wrt (<) (map global_seq (lane_queue l))) \<and>
     distinct (map global_seq (concat (map lane_queue ls)))"

lemma best_front_None: "best_front i ls best = None \<longleftrightarrow> best = None \<and> (\<forall>l \<in> set ls. lane_queue l = [])"
  by (induction i ls best rule: best_front.induct) (auto simp: lane_front_def split: list.splits option.splits if_splits)

definition front_at :: "nat \<Rightarrow> seq \<Rightarrow> 'j envelope spsc_lane list \<Rightarrow> bool" where
  "front_at k n ls \<longleftrightarrow> k < length ls \<and> (\<exists>e q. lane_queue (ls ! k) = e # q \<and> global_seq e = n)"

lemma front_at_Cons:
  "front_at 0 n (l # ls) \<longleftrightarrow> (\<exists>e q. lane_queue l = e # q \<and> global_seq e = n)"
  "front_at (Suc k) n (l # ls) \<longleftrightarrow> front_at k n ls"
  by (simp_all add: front_at_def)

lemma best_front_Some:
  "best_front i ls best = Some (j, n) \<Longrightarrow>
     (best = Some (j, n) \<or> i \<le> j \<and> front_at (j - i) n ls) \<and>
     (\<forall>l \<in> set ls. \<forall>e q. lane_queue l = e # q \<longrightarrow> n \<le> global_seq e) \<and>
     (\<forall>j' n'. best = Some (j', n') \<longrightarrow> n \<le> n')"
proof (induction ls arbitrary: i best)
  case (Cons l ls)
  have shift: "Suc i \<le> j \<Longrightarrow> front_at (j - Suc i) n ls \<Longrightarrow> front_at (j - i) n (l # ls)"
    using front_at_Cons(2) [of "j - Suc i" n l ls] by (simp add: Suc_diff_Suc)
  show ?case
  proof (cases "lane_queue l")
    case Nil
    with Cons.prems have "best_front (Suc i) ls best = Some (j, n)" by (simp add: lane_front_def)
    with Cons.IH [OF this] Nil shift show ?thesis by auto
  next
    case (Cons e q)
    define best' where "best' = (case best of None \<Rightarrow> Some (i, global_seq e)
      | Some (j, n) \<Rightarrow> if global_seq e < n then Some (i, global_seq e) else Some (j, n))"
    have "best_front (Suc i) ls best' = Some (j, n)"
      using Cons.prems Cons by (simp add: lane_front_def best'_def)
    note IH = Cons.IH [OF this]
    have zero: "front_at 0 (global_seq e) (l # ls)" using Cons by (simp add: front_at_Cons)
    show ?thesis
      using IH shift zero Cons by (auto simp: best'_def split: option.splits if_splits)
  qed
qed auto

text \<open>One step of the drain takes the smallest pending number out.\<close>

lemma pop_best:
  assumes "lanes_ordered ls" and "best_front 0 ls None = Some (j, n)"
  obtains e q where "j < length ls" and "lane_queue (ls ! j) = e # q"
    and "\<forall>e' \<in> set (concat (map lane_queue ls)). global_seq e \<le> global_seq e'"
proof -
  from best_front_Some [OF assms(2)] obtain e q where e: "j < length ls" "lane_queue (ls ! j) = e # q" "global_seq e = n"
    and least: "\<forall>l \<in> set ls. \<forall>e q. lane_queue l = e # q \<longrightarrow> n \<le> global_seq e"
    by (auto simp: front_at_def)
  have "global_seq e \<le> global_seq e'" if "l \<in> set ls" "e' \<in> set (lane_queue l)" for l e'
  proof (cases "lane_queue l")
    case (Cons f r)
    then have "n \<le> global_seq f" using least that(1) by blast
    moreover have "sorted_wrt (<) (map global_seq (lane_queue l))"
      using assms(1) that(1) by (simp add: lanes_ordered_def)
    then have "global_seq f \<le> global_seq e'" using that(2) Cons by auto
    ultimately show ?thesis using e(3) by simp
  qed (use that in simp)
  then show thesis using that [OF e(1,2)] by auto
qed

lemma lanes_ordered_pop:
  assumes "lanes_ordered ls" and "j < length ls" and "lane_queue (ls ! j) = e # q"
    and "lane_queue l = q"
  shows "lanes_ordered (ls[j := l])"
    and "mset (concat (map lane_queue ls)) = add_mset e (mset (concat (map lane_queue (ls[j := l]))))"
proof -
  show m: "mset (concat (map lane_queue ls)) = add_mset e (mset (concat (map lane_queue (ls[j := l]))))"
    using mset_concat_update [OF assms(2), of lane_queue l] assms(3,4) by simp
  have "mset (map global_seq (concat (map lane_queue ls))) =
      add_mset (global_seq e) (mset (map global_seq (concat (map lane_queue (ls[j := l])))))"
    unfolding mset_map m by simp
  then have "distinct (global_seq e # map global_seq (concat (map lane_queue (ls[j := l]))))"
    using assms(1) mset_eq_imp_distinct_iff [of "map global_seq (concat (map lane_queue ls))"
      "global_seq e # map global_seq (concat (map lane_queue (ls[j := l])))"]
    by (simp add: lanes_ordered_def)
  moreover have "sorted_wrt (<) (map global_seq q)"
    using assms(1,3) nth_mem [OF assms(2)] by (fastforce simp: lanes_ordered_def)
  ultimately show "lanes_ordered (ls[j := l])"
    using assms(1,4) by (auto simp: lanes_ordered_def dest!: set_update_subset_insert [THEN subsetD])
qed

lemma drain_global_order_merge:
  "lanes_ordered (lanes m) \<Longrightarrow> drain_global_order budget m = (items, m') \<Longrightarrow>
     items = take budget (sort_key global_seq (pending m)) \<and>
     mset (pending m') = mset (drop budget (sort_key global_seq (pending m))) \<and>
     lanes_ordered (lanes m')"
proof (induction budget arbitrary: m items)
  case (Suc budget)
  show ?case
  proof (cases "best_front 0 (lanes m) None")
    case None
    then have "pending m = []" by (auto simp: best_front_None pending_def)
    with None Suc.prems show ?thesis by simp
  next
    case (Some p)
    obtain j n where "p = (j, n)" by fastforce
    with Some have best: "best_front 0 (lanes m) None = Some (j, n)" by simp
    obtain e q where j: "j < length (lanes m)" and q: "lane_queue (lanes m ! j) = e # q"
      and least: "\<forall>e' \<in> set (pending m). global_seq e \<le> global_seq e'"
      using pop_best [OF Suc.prems(1) best] by (metis pending_def)
    define m1 where "m1 = m\<lparr>lanes := (lanes m)[j := (lanes m ! j)\<lparr>lane_queue := q\<rparr>]\<rparr>"
    note pop = lanes_ordered_pop [OF Suc.prems(1) j q, of "(lanes m ! j)\<lparr>lane_queue := q\<rparr>"]
    have ordered: "lanes_ordered (lanes m1)" and bag: "mset (pending m) = add_mset e (mset (pending m1))"
      using pop by (simp_all add: m1_def pending_def)
    obtain items1 where rest: "drain_global_order budget m1 = (items1, m')" and items: "items = e # items1"
      using Suc.prems(2) best q by (auto simp: lane_pop_def m1_def split: prod.splits)
    have "sort_key global_seq (pending m) = e # sort_key global_seq (pending m1)"
    proof (rule sort_key_inj_key_eq)
      show "mset (pending m) = mset (e # sort_key global_seq (pending m1))" using bag by simp
      show "inj_on global_seq (set (pending m))"
        using Suc.prems(1) by (simp add: lanes_ordered_def pending_def distinct_map)
      have "set (pending m1) \<subseteq> set (pending m)" using arg_cong [OF bag, of set_mset] by auto
      then show "sorted (map global_seq (e # sort_key global_seq (pending m1)))" using least by auto
    qed
    then show ?thesis using Suc.IH [OF ordered rest] items by simp
  qed
qed simp

section \<open>The invariant of the mesh\<close>

definition lane_wf :: "nat \<Rightarrow> 'j envelope spsc_lane \<Rightarrow> bool" where
  "lane_wf i l \<longleftrightarrow>
     length (lane_queue l) \<le> lane_max_depth l \<and> lane_max_depth l \<le> lane_cap l \<and>
     (\<forall>e \<in> set (lane_queue l). env_shard e = i)"

text \<open>The numbers of a lane are increasing and below the counter of its shard.\<close>

definition shard_ordered :: "u64 \<Rightarrow> 'j envelope spsc_lane \<Rightarrow> bool" where
  "shard_ordered n l \<longleftrightarrow>
     sorted_wrt (<) (map env_shard_seq (lane_queue l)) \<and> (\<forall>e \<in> set (lane_queue l). env_shard_seq e < n)"

definition mesh_inv :: "'j mesh \<Rightarrow> bool" where
  "mesh_inv m \<longleftrightarrow>
     length (shard_seqs m) = length (lanes m) \<and> mesh_seq m \<le> u64_max \<and>
     (\<forall>i < length (lanes m). lane_wf i (lanes m ! i) \<and> shard_seqs m ! i \<le> mesh_seq m) \<and>
     (mesh_seq m < u64_max \<longrightarrow>
        lanes_ordered (lanes m) \<and> (\<forall>e \<in> set (pending m). global_seq e < mesh_seq m) \<and>
        (\<forall>i < length (lanes m). shard_ordered (shard_seqs m ! i) (lanes m ! i)))"

definition caps :: "'j mesh \<Rightarrow> usize list" where
  "caps m = map lane_cap (lanes m)"

lemma map_update_same: "f l = f (ls ! j) \<Longrightarrow> map f (ls[j := l]) = map f ls"
  by (cases "j < length ls") (auto intro!: nth_equalityI simp: nth_list_update)

lemma mset_add_subset: "mset xs = add_mset e (mset ys) \<Longrightarrow> set ys \<subseteq> set xs"
  by (metis set_mset_mset set_mset_add_mset_insert subset_insertI)

lemma lane_wf_tail: "lane_wf i l \<Longrightarrow> lane_queue l = e # q \<Longrightarrow> lane_wf i (l\<lparr>lane_queue := q\<rparr>)"
  by (auto simp: lane_wf_def)

lemma shard_ordered_tail: "shard_ordered n l \<Longrightarrow> lane_queue l = e # q \<Longrightarrow> shard_ordered n (l\<lparr>lane_queue := q\<rparr>)"
  by (auto simp: shard_ordered_def)

lemma mesh_inv_pop:
  assumes "mesh_inv m" and "j < length (lanes m)" and "lane_queue (lanes m ! j) = e # q"
    and "m1 = m\<lparr>lanes := (lanes m)[j := (lanes m ! j)\<lparr>lane_queue := q\<rparr>]\<rparr>"
  shows "mesh_inv m1 \<and> caps m1 = caps m"
proof
  let ?l = "(lanes m ! j)\<lparr>lane_queue := q\<rparr>"
  have lanes: "lanes m1 = (lanes m)[j := ?l]" using assms(4) by simp
  have nth: "lanes m1 ! i = (if i = j then ?l else lanes m ! i)" if "i < length (lanes m)" for i
    using that lanes by simp
  have ordered: "lanes_ordered (lanes m1)" if "lanes_ordered (lanes m)"
    unfolding lanes by (rule lanes_ordered_pop(1) [OF that assms(2,3)]) simp
  have bag: "mset (pending m) = add_mset e (mset (pending m1))" if "lanes_ordered (lanes m)"
    using lanes_ordered_pop(2) [OF that assms(2,3), of ?l] by (simp add: pending_def lanes)
  have sub: "set (pending m1) \<subseteq> set (pending m)" if "lanes_ordered (lanes m)"
    by (rule mset_add_subset [OF bag [OF that]])
  note inv = assms(1) [unfolded mesh_inv_def]
  have same: "mesh_seq m1 = mesh_seq m" "shard_seqs m1 = shard_seqs m" "length (lanes m1) = length (lanes m)"
    using assms(4) by simp_all
  have wf: "lane_wf i (lanes m1 ! i)" if "i < length (lanes m)" for i
    using inv that nth [OF that] lane_wf_tail [OF _ assms(3), of i] by (cases "i = j") auto
  have shard: "shard_ordered (shard_seqs m ! i) (lanes m1 ! i)"
    if "i < length (lanes m)" "mesh_seq m < u64_max" for i
    using inv that nth [OF that(1)] shard_ordered_tail [OF _ assms(3), of "shard_seqs m ! i"]
    by (cases "i = j") auto
  show "mesh_inv m1"
    unfolding mesh_inv_def same using wf shard ordered sub inv by blast
  show "caps m1 = caps m"
    unfolding caps_def lanes by (rule map_update_same) simp
qed

lemma mesh_inv_push:
  assumes "mesh_inv m" and "shard < length (lanes m)"
    and "length (lane_queue (lanes m ! shard)) < lane_cap (lanes m ! shard)"
    and "e = \<lparr>global_seq = mesh_seq m, env_shard_seq = shard_seqs m ! shard, env_shard = shard, env_task = task\<rparr>"
    and "l = (lanes m ! shard)\<lparr>lane_queue := lane_queue (lanes m ! shard) @ [e],
            lane_max_depth := max (lane_max_depth (lanes m ! shard)) (Suc (length (lane_queue (lanes m ! shard))))\<rparr>"
    and "m1 = m\<lparr>mesh_seq := seq_next (mesh_seq m),
               shard_seqs := (shard_seqs m)[shard := sat_add64 (shard_seqs m ! shard) 1],
               lanes := (lanes m)[shard := l]\<rparr>"
  shows "mesh_inv m1 \<and> caps m1 = caps m"
proof
  note inv = assms(1) [unfolded mesh_inv_def]
  let ?old = "lanes m ! shard"
  have lanes: "lanes m1 = (lanes m)[shard := l]" using assms(6) by simp
  have nth: "lanes m1 ! i = (if i = shard then l else lanes m ! i)" if "i < length (lanes m)" for i
    using that lanes by simp
  have seqs: "shard_seqs m1 ! i = (if i = shard then sat_add64 (shard_seqs m ! shard) 1 else shard_seqs m ! i)"
    if "i < length (lanes m)" for i
    using that assms(6) inv by simp
  have le: "mesh_seq m \<le> mesh_seq m1" "mesh_seq m1 \<le> u64_max"
    using inv assms(6) by (auto simp: seq_next_def sat_add64_def)
  show "caps m1 = caps m" unfolding caps_def lanes by (rule map_update_same) (simp add: assms(5))
  have wf: "lane_wf i (lanes m1 ! i)" if "i < length (lanes m)" for i
    using inv assms(2-5) that by (auto simp: nth lane_wf_def)
  have old: "shard_seqs m ! i \<le> mesh_seq m" if "i < length (lanes m)" for i
    using inv that by blast
  have "sat_add64 (shard_seqs m ! shard) 1 \<le> mesh_seq m1"
    using old [OF assms(2)] assms(6) by (simp add: seq_next_def sat_add64_def min_le_iff_disj)
  then have bound: "shard_seqs m1 ! i \<le> mesh_seq m1" if "i < length (lanes m)" for i
    using old [OF that] le(1) seqs [OF that] by simp
  have "lanes_ordered (lanes m1) \<and> (\<forall>e \<in> set (pending m1). global_seq e < mesh_seq m1) \<and>
      (\<forall>i < length (lanes m). shard_ordered (shard_seqs m1 ! i) (lanes m1 ! i))" if "mesh_seq m1 < u64_max"
  proof -
    have less: "mesh_seq m < u64_max" and suc: "mesh_seq m1 = Suc (mesh_seq m)"
      using that le assms(6) by (auto simp: seq_next_def sat_add64_def)
    note ord = inv [THEN conjunct2, THEN conjunct2, THEN conjunct2, rule_format, OF less]
    have bag: "mset (pending m1) = add_mset e (mset (pending m))"
      using mset_concat_update [OF assms(2), of lane_queue l] by (simp add: pending_def lanes assms(5))
    then have "set (pending m1) = insert e (set (pending m))" by (metis set_mset_mset set_mset_add_mset_insert)
    then have below: "\<forall>e \<in> set (pending m1). global_seq e < mesh_seq m1"
      using ord suc assms(4) by (auto intro: less_SucI)
    have "mesh_seq m \<notin> global_seq ` set (pending m)" using ord by force
    then have "distinct (map global_seq (e # pending m))"
      using ord assms(4) by (simp add: lanes_ordered_def pending_def)
    moreover have "mset (map global_seq (pending m1)) = mset (map global_seq (e # pending m))"
      using bag by simp
    ultimately have distinct: "distinct (map global_seq (pending m1))"
      using mset_eq_imp_distinct_iff by blast
    have "\<forall>e' \<in> set (lane_queue ?old). global_seq e' < global_seq e"
      using ord assms(2,4) nth_mem [OF assms(2)] by (auto simp: pending_def)
    then have "sorted_wrt (<) (map global_seq (lane_queue l))"
      using ord nth_mem [OF assms(2)] by (auto simp: assms(5) sorted_wrt_append lanes_ordered_def)
    then have ordered: "lanes_ordered (lanes m1)"
      using ord distinct set_update_subset_insert [of "lanes m" shard l]
      by (auto simp: lanes_ordered_def pending_def lanes)
    have small: "shard_seqs m ! shard < u64_max" using inv assms(2) less by (meson le_less_trans)
    have "shard_ordered (shard_seqs m1 ! i) (lanes m1 ! i)" if "i < length (lanes m)" for i
      using ord that small assms(2,4,5)
      by (auto simp: nth seqs shard_ordered_def sorted_wrt_append intro: less_SucI)
    then show ?thesis using ordered below by blast
  qed
  then show "mesh_inv m1"
    unfolding mesh_inv_def using wf bound le inv assms(6) by simp
qed

text \<open>A rejected envelope consumes its numbers and counts; the lanes keep what they hold.\<close>

lemma mesh_inv_reject:
  assumes "mesh_inv m" and "lanes m1 = lanes m" and "mesh_seq m1 = seq_next (mesh_seq m)"
    and "shard_seqs m1 = shard_seqs m \<or>
         (\<exists>i < length (shard_seqs m). shard_seqs m1 = (shard_seqs m)[i := sat_add64 (shard_seqs m ! i) 1])"
  shows "mesh_inv m1 \<and> caps m1 = caps m"
proof
  note inv = assms(1) [unfolded mesh_inv_def]
  have pend: "pending m1 = pending m" using assms(2) by (simp add: pending_def)
  have seq: "mesh_seq m \<le> mesh_seq m1" "mesh_seq m1 \<le> u64_max" "mesh_seq m1 < u64_max \<Longrightarrow> mesh_seq m1 = Suc (mesh_seq m)"
    using inv assms(3) by (auto simp: seq_next_def sat_add64_def)
  have len: "length (shard_seqs m1) = length (lanes m1)" using inv assms(2,4) by auto
  have old: "shard_seqs m ! i \<le> mesh_seq m" if "i < length (lanes m)" for i using inv that by blast
  have new: "shard_seqs m1 ! i \<le> mesh_seq m1 \<and> (mesh_seq m1 < u64_max \<longrightarrow> shard_seqs m ! i \<le> shard_seqs m1 ! i)"
    if "i < length (lanes m)" for i
  proof (cases "shard_seqs m1 ! i = shard_seqs m ! i")
    case True
    then show ?thesis using old [OF that] seq(1) by simp
  next
    case False
    then have "shard_seqs m1 ! i = sat_add64 (shard_seqs m ! i) 1"
      using assms(4) that inv by (metis nth_list_update)
    then show ?thesis
      using old [OF that] inv unfolding assms(3) seq_next_def sat_add64_def by simp
  qed
  have "shard_ordered (shard_seqs m1 ! i) (lanes m ! i)" if "i < length (lanes m)" "mesh_seq m1 < u64_max" for i
  proof -
    have "shard_ordered (shard_seqs m ! i) (lanes m ! i)" using inv that seq by simp
    moreover have "shard_seqs m ! i \<le> shard_seqs m1 ! i" using new [OF that(1)] that(2) by simp
    ultimately show ?thesis by (auto simp: shard_ordered_def dest: less_le_trans)
  qed
  moreover have "\<forall>e \<in> set (pending m). global_seq e < mesh_seq m1" if "mesh_seq m1 < u64_max"
    using inv that seq(1) by (auto dest: less_le_trans)
  ultimately show "mesh_inv m1"
    unfolding mesh_inv_def assms(2) pend using len [unfolded assms(2)] inv new seq(1,2) by simp
qed (simp add: caps_def assms(2))

text \<open>What an enqueue does, on every branch.\<close>

lemma enqueue_with_route_spec:
  assumes "mesh_inv m"
  shows "case enqueue_with_route shard task m of (res, m1) \<Rightarrow>
      mesh_inv m1 \<and> caps m1 = caps m \<and>
      (case res of
         Inr env \<Rightarrow>
           shard < length (lanes m) \<and> lane_len (lanes m ! shard) < lane_cap (lanes m ! shard) \<and>
           env = \<lparr>global_seq = mesh_seq m, env_shard_seq = shard_seqs m ! shard, env_shard = shard, env_task = task\<rparr> \<and>
           map lane_queue (lanes m1) = (map lane_queue (lanes m))[shard := lane_queue (lanes m ! shard) @ [env]] \<and>
           rejected_enqueues m1 = rejected_enqueues m
       | Inl bp \<Rightarrow>
           lanes m1 = lanes m \<and> rejected_enqueues m1 = sat_add64 (rejected_enqueues m) 1 \<and> bp_shard bp = shard \<and>
           (if shard < length (lanes m)
            then bp_depth bp = lane_len (lanes m ! shard) \<and> bp_capacity bp = lane_cap (lanes m ! shard) \<and>
                 bp_depth bp = bp_capacity bp
            else bp_depth bp = 0 \<and> bp_capacity bp = 0))"
proof -
  note inv = assms [unfolded mesh_inv_def]
  have len: "length (shard_seqs m) = length (lanes m)" using inv by blast
  consider (room) "shard < length (lanes m)" "length (lane_queue (lanes m ! shard)) < lane_cap (lanes m ! shard)"
    | (full) "shard < length (lanes m)" "lane_cap (lanes m ! shard) \<le> length (lane_queue (lanes m ! shard))"
    | (none) "\<not> shard < length (lanes m)" by linarith
  then show ?thesis
  proof cases
    case room
    then show ?thesis
      using mesh_inv_push [OF assms room refl refl refl, of task] len
      by (simp add: enqueue_with_route_def next_global_seq_def next_shard_seq_def lane_push_def lane_len_def
          map_update Let_def)
  next
    case full
    then have "length (lane_queue (lanes m ! shard)) = lane_cap (lanes m ! shard)"
      using inv by (fastforce simp: lane_wf_def)
    with full show ?thesis
      using mesh_inv_reject [OF assms, of "m\<lparr>mesh_seq := seq_next (mesh_seq m),
          shard_seqs := (shard_seqs m)[shard := sat_add64 (shard_seqs m ! shard) 1],
          rejected_enqueues := sat_add64 (rejected_enqueues m) 1\<rparr>"] len
      by (auto simp: enqueue_with_route_def next_global_seq_def next_shard_seq_def lane_push_def lane_len_def Let_def)
  next
    case none
    with len show ?thesis
      using mesh_inv_reject [OF assms, of "m\<lparr>mesh_seq := seq_next (mesh_seq m),
          rejected_enqueues := sat_add64 (rejected_enqueues m) 1\<rparr>"]
      by (simp add: enqueue_with_route_def next_global_seq_def next_shard_seq_def Let_def)
  qed
qed

section \<open>Runs\<close>

datatype 'j mesh_event =
    MeshHostcall string "'j hostcall_outcome"
  | MeshInbound string 'j
  | DrainShard usize usize
  | DrainGlobal usize

fun mesh_step :: "'j mesh_event \<Rightarrow> 'j mesh \<Rightarrow> 'j mesh" where
  "mesh_step (MeshHostcall call_id outcome) m = snd (mesh_enqueue_hostcall_complete call_id outcome m)"
| "mesh_step (MeshInbound event_id payload) m = snd (mesh_enqueue_event event_id payload m)"
| "mesh_step (DrainShard shard budget) m = snd (drain_shard shard budget m)"
| "mesh_step (DrainGlobal budget) m = snd (drain_global_order budget m)"

lemma lane_pop_cases:
  obtains (empty) "lane_queue l = []" "lane_pop l = (None, l)"
  | (item) x q where "lane_queue l = x # q" "lane_pop l = (Some x, l\<lparr>lane_queue := q\<rparr>)"
  by (cases "lane_queue l") (auto simp: lane_pop_def)

lemma drain_lane_eq:
  "drain_lane budget l = (take budget (lane_queue l), l\<lparr>lane_queue := drop budget (lane_queue l)\<rparr>)"
proof (induction budget arbitrary: l)
  case (Suc budget)
  show ?case
    by (cases l rule: lane_pop_cases) (simp_all add: Suc.IH)
qed simp

lemma same_updates:
  "lane_queue l = q \<Longrightarrow> l\<lparr>lane_queue := q\<rparr> = l" "lanes m = ls \<Longrightarrow> m\<lparr>lanes := ls\<rparr> = m"
  by (cases l, simp) (cases m, simp)

lemma drain_shard_inv:
  "mesh_inv m \<Longrightarrow> mesh_inv (snd (drain_shard shard budget m)) \<and> caps (snd (drain_shard shard budget m)) = caps m"
proof (induction budget arbitrary: m)
  case 0
  then show ?case by (simp add: drain_shard_def)
next
  case (Suc budget)
  show ?case
  proof (cases "shard < length (lanes m)")
    case True
    show ?thesis
    proof (cases "lane_queue (lanes m ! shard)")
      case Nil
      then show ?thesis using Suc.prems True by (simp add: drain_shard_def drain_lane_eq same_updates)
    next
      case (Cons e q)
      let ?m1 = "m\<lparr>lanes := (lanes m)[shard := (lanes m ! shard)\<lparr>lane_queue := q\<rparr>]\<rparr>"
      have "snd (drain_shard shard (Suc budget) m) = snd (drain_shard shard budget ?m1)"
        using True Cons by (simp add: drain_shard_def drain_lane_eq)
      then show ?thesis
        using Suc.IH [of ?m1] mesh_inv_pop [OF Suc.prems True Cons refl] by simp
    qed
  qed (use Suc.prems in \<open>simp add: drain_shard_def\<close>)
qed

lemma drain_global_inv:
  "mesh_inv m \<Longrightarrow>
     mesh_inv (snd (drain_global_order budget m)) \<and> caps (snd (drain_global_order budget m)) = caps m"
proof (induction budget arbitrary: m)
  case (Suc budget)
  show ?case
  proof (cases "best_front 0 (lanes m) None")
    case None
    then show ?thesis using Suc.prems by simp
  next
    case (Some p)
    obtain j n where p: "p = (j, n)" by fastforce
    have "front_at j n (lanes m)" using best_front_Some [OF Some [unfolded p]] by simp
    then obtain e q where j: "j < length (lanes m)" and q: "lane_queue (lanes m ! j) = e # q"
      by (auto simp: front_at_def)
    let ?m1 = "m\<lparr>lanes := (lanes m)[j := (lanes m ! j)\<lparr>lane_queue := q\<rparr>]\<rparr>"
    have "snd (drain_global_order (Suc budget) m) = snd (drain_global_order budget ?m1)"
      using Some p q by (simp add: lane_pop_def split: prod.splits)
    then show ?thesis
      using Suc.IH [of ?m1] mesh_inv_pop [OF Suc.prems j q refl] by simp
  qed
qed simp

lemma rr_route_inv: "mesh_inv m \<Longrightarrow> mesh_inv (snd (rr_route m)) \<and> caps (snd (rr_route m)) = caps m"
  by (simp add: rr_route_def mesh_inv_def caps_def pending_def)

lemma enqueue_inv:
  "mesh_inv m \<Longrightarrow> mesh_inv (snd (enqueue_with_route shard task m)) \<and>
     caps (snd (enqueue_with_route shard task m)) = caps m"
  using enqueue_with_route_spec [of m shard task] by (cases "enqueue_with_route shard task m") simp

lemma mesh_step_inv: "mesh_inv m \<Longrightarrow> mesh_inv (mesh_step e m) \<and> caps (mesh_step e m) = caps m"
  using rr_route_inv [of m] enqueue_inv [of "snd (rr_route m)"]
  by (cases e) (simp_all add: drain_shard_inv drain_global_inv enqueue_inv
      mesh_enqueue_hostcall_complete_def mesh_enqueue_event_def case_prod_unfold Let_def)

lemma concat_map_Nil: "concat (map (\<lambda>_. []) xs) = []"
  by (induction xs) simp_all

lemma mesh_new_inv: "mesh_inv (mesh_new config)"
  by (auto simp: mesh_inv_def mesh_new_def seq_zero_def lane_new_def lane_wf_def lanes_ordered_def
      pending_def shard_ordered_def comp_def concat_map_Nil)

interpretation mesh: bounded_machine mesh_inv mesh_step total_depth "\<lambda>m. sum_list (caps m)"
proof
  fix m :: "'a mesh" and e
  assume inv: "mesh_inv m"
  show "mesh_inv (mesh_step e m)" using mesh_step_inv [OF inv] by blast
  show "sum_list (caps (mesh_step e m)) = sum_list (caps m)" using mesh_step_inv [OF inv, of e] by simp
  show "total_depth m \<le> sum_list (caps m)"
    unfolding total_depth_def caps_def
  proof (rule sum_list_mono)
    fix l assume "l \<in> set (lanes m)"
    then obtain i where "i < length (lanes m)" "l = lanes m ! i" by (metis in_set_conv_nth)
    with inv have "lane_wf i l" by (auto simp: mesh_inv_def)
    then show "lane_len l \<le> lane_cap l" by (simp add: lane_wf_def lane_len_def)
  qed
qed

lemma mesh_run_caps: "mesh_inv m \<Longrightarrow> caps (fold mesh_step es m) = caps m"
  by (induction es arbitrary: m) (auto simp: mesh_step_inv)

section \<open>Placement of shards\<close>

definition cores_on :: "topology_core list \<Rightarrow> usize \<Rightarrow> usize list" where
  "cores_on cores n = map top_core_id (filter (\<lambda>c. top_numa_node c = n) cores)"

lemma push_cores_get:
  "bt_wf by_node \<Longrightarrow>
     bt_wf (fold push_core cores by_node) \<and>
     bt_get (fold push_core cores by_node) n =
       (case bt_get by_node n of
          None \<Rightarrow> if cores_on cores n = [] then None else Some (cores_on cores n)
        | Some cs \<Rightarrow> Some (cs @ cores_on cores n))"
proof (induction cores arbitrary: by_node)
  case (Cons c cores)
  have "bt_wf (push_core c by_node)" using Cons.prems by (simp add: push_core_def)
  from Cons.IH [OF this] show ?case
    using Cons.prems by (auto simp: push_core_def cores_on_def split: option.splits)
qed (simp add: cores_on_def split: option.splits)

lemma sort_Nil: "sort xs = [] \<longleftrightarrow> xs = []"
  by (metis length_0_conv length_sort)

lemma set_cores_on: "set (cores_on cores n) = {top_core_id c |c. c \<in> set cores \<and> top_numa_node c = n}"
  by (auto simp: cores_on_def)

lemma topology_nodes_entries:
  "distinct (map fst (topology_nodes cores)) \<and>
   fst ` set (topology_nodes cores) = top_numa_node ` set cores \<and>
   (\<forall>(n, cs) \<in> set (topology_nodes cores). cs \<noteq> [] \<and> set cs = set (cores_on cores n))"
proof -
  define by_node where "by_node = fold push_core cores bt_empty"
  have wf: "bt_wf by_node" and get: "bt_get by_node n = (if cores_on cores n = [] then None else Some (cores_on cores n))" for n
    using push_cores_get [of bt_empty cores n] by (simp_all add: by_node_def)
  have entries: "(n, cs) \<in> set by_node \<longleftrightarrow> cores_on cores n = cs \<and> cs \<noteq> []" for n cs
    using get [of n] bt_entries [OF wf, of n cs] by auto
  have nodes: "topology_nodes cores = map (\<lambda>(n, cs). (n, remdups_adj (sort cs))) by_node"
    unfolding topology_nodes_def by_node_def [symmetric]
    by (auto simp: filter_id_conv entries sort_Nil)
  have "distinct (map fst by_node)" using wf by (rule bt_wf_distinct)
  moreover have "map fst (topology_nodes cores) = map fst by_node"
    unfolding nodes by (induction by_node) auto
  moreover have "fst ` set by_node = top_numa_node ` set cores"
  proof (rule set_eqI)
    fix n
    have "n \<in> fst ` set by_node \<longleftrightarrow> cores_on cores n \<noteq> []"
      using entries [of n "cores_on cores n"] entries [of n] by force
    then show "n \<in> fst ` set by_node \<longleftrightarrow> n \<in> top_numa_node ` set cores"
      by (auto simp: cores_on_def filter_empty_conv)
  qed
  moreover have "\<forall>(n, cs) \<in> set (topology_nodes cores). cs \<noteq> [] \<and> set cs = set (cores_on cores n)"
    unfolding nodes using entries by (auto simp: sort_Nil)
  moreover have "fst ` set (topology_nodes cores) = fst ` set by_node"
    using arg_cong [OF \<open>map fst (topology_nodes cores) = map fst by_node\<close>, of set] by simp
  ultimately show ?thesis by simp
qed

lemma count_residues:
  "0 < k \<Longrightarrow> a < k \<Longrightarrow>
     length (filter (\<lambda>i. i mod k = a) [0..<n]) = n div k + (if a < n mod k then 1 else 0)"
proof (induction n)
  case (Suc n)
  then show ?case by (auto simp: mod_Suc div_Suc)
qed simp

section \<open>A bounded ring\<close>

text \<open>
  The contract of a bounded first-in first-out ring as its clients use it: a push either appends
  or, on a full ring, hands the element back; a pop takes the oldest element. The lane meets it.
\<close>

record ('t, 'r) ring_ops =
  ring_new :: "usize \<Rightarrow> 'r"
  ring_push :: "'t \<Rightarrow> 'r \<Rightarrow> 'r option"
  ring_pop :: "'r \<Rightarrow> ('t \<times> 'r) option"
  ring_len :: "'r \<Rightarrow> usize"

locale bounded_ring =
  fixes R :: "('t, 'r) ring_ops"
    and view :: "'r \<Rightarrow> 't list"
    and limit :: "'r \<Rightarrow> usize"
  assumes new_view: "view (ring_new R n) = []"
    and new_limit: "limit (ring_new R n) = n"
    and push_room: "length (view r) < limit r \<Longrightarrow>
          \<exists>r'. ring_push R x r = Some r' \<and> view r' = view r @ [x] \<and> limit r' = limit r"
    and push_full: "limit r \<le> length (view r) \<Longrightarrow> ring_push R x r = None"
    and pop_empty: "view r = [] \<Longrightarrow> ring_pop R r = None"
    and pop_item: "view r = y # ys \<Longrightarrow> \<exists>r'. ring_pop R r = Some (y, r') \<and> view r' = ys \<and> limit r' = limit r"
    and len_view: "ring_len R r = length (view r)"
begin

lemma push_Some:
  assumes "ring_push R x r = Some r'"
  shows "view r' = view r @ [x]" and "limit r' = limit r" and "length (view r) < limit r"
  using assms push_room [of r x] push_full [of r x] by (cases "length (view r) < limit r"; force)+

lemma push_None: "ring_push R x r = None \<longleftrightarrow> limit r \<le> length (view r)"
  using push_room [of r x] push_full [of r x] by (cases "length (view r) < limit r") auto

lemma pop_Some:
  assumes "ring_pop R r = Some (y, r')"
  shows "view r = y # view r'" and "limit r' = limit r"
  using assms pop_empty [of r] pop_item [of r] by (cases "view r"; force)+

lemma pop_None: "ring_pop R r = None \<longleftrightarrow> view r = []"
  using pop_empty [of r] pop_item [of r] by (cases "view r") auto

end

definition lane_ring :: "('t, 't spsc_lane) ring_ops" where
  "lane_ring = \<lparr>ring_new = lane_new,
     ring_push = (\<lambda>x l. case lane_push x l of Inl _ \<Rightarrow> None | Inr l' \<Rightarrow> Some l'),
     ring_pop = (\<lambda>l. case lane_pop l of (None, _) \<Rightarrow> None | (Some x, l') \<Rightarrow> Some (x, l')),
     ring_len = lane_len\<rparr>"

interpretation lane: bounded_ring lane_ring lane_queue lane_cap
  by unfold_locales
    (auto simp: lane_ring_def lane_new_def lane_push_def lane_pop_def lane_len_def Let_def)

section \<open>Properties\<close>

text \<open>
  C23: Draining the mesh is a merge. In a mesh that has not exhausted its 64-bit counter, a drain
  with a budget yields the pending envelopes of all lanes in the order of their global sequence
  numbers, the smallest first and as many as the budget allows, and exactly the others stay.
\<close>

theorem drain_is_global_merge:
  assumes "m = fold mesh_step es (mesh_new config)" and "mesh_seq m < u64_max"
    and "drain_global_order budget m = (items, m')"
  shows "items = take budget (sort_key global_seq (concat (map lane_queue (lanes m)))) \<and>
         sorted_wrt (<) (map global_seq items) \<and>
         mset (concat (map lane_queue (lanes m'))) + mset items = mset (concat (map lane_queue (lanes m)))"
proof -
  have "mesh_inv m" unfolding assms(1) by (rule mesh.inv_run [OF mesh_new_inv])
  then have ord: "lanes_ordered (lanes m)" using assms(2) by (simp add: mesh_inv_def)
  note merge = drain_global_order_merge [OF ord assms(3)]
  let ?all = "sort_key global_seq (pending m)"
  have "sorted_wrt (<) (map global_seq ?all)" if "distinct (map global_seq (pending m))"
  proof -
    have "mset (map global_seq ?all) = mset (map global_seq (pending m))" by simp
    then have "distinct (map global_seq ?all)" using that mset_eq_imp_distinct_iff by blast
    then show ?thesis by (simp add: strict_sorted_iff)
  qed
  moreover have "distinct (map global_seq (pending m))" using ord by (simp add: lanes_ordered_def pending_def)
  ultimately have "sorted_wrt (<) (map global_seq items)"
    using merge by (simp add: take_map [symmetric] sorted_wrt_take)
  moreover have "mset (drop budget ?all) + mset (take budget ?all) = mset (pending m)"
    by (metis add.commute append_take_drop_id mset_append mset_sort)
  ultimately show ?thesis using merge by (simp add: pending_def)
qed

lemma replicate_two: "replicate 2 x = [x, x]"
  by (simp add: numeral_2_eq_2)

lemmas mesh_run = mesh_new_def seq_zero_def seq_next_def sat_add64_def u64_max_def lane_new_def
  mesh_enqueue_event_def mesh_enqueue_hostcall_complete_def rr_route_def enqueue_with_route_def
  next_global_seq_def next_shard_seq_def lane_push_def lane_pop_def lane_len_def lane_front_def Let_def
  upt_conv_Cons plan_def replicate_two

theorem drain_is_global_merge_witness:
  "\<exists>(m :: unit mesh) items m'. m = fold mesh_step [MeshInbound ''a'' (), MeshInbound ''b'' (), MeshInbound ''c'' ()]
        (mesh_new \<lparr>cfg_shard_count = 2, cfg_lane_capacity = 4, cfg_topology = None\<rparr>) \<and>
     drain_global_order 2 m = (items, m') \<and> length items = 2 \<and> sorted_wrt (<) (map global_seq items)"
proof -
  let ?m = "fold mesh_step [MeshInbound ''a'' (), MeshInbound ''b'' (), MeshInbound ''c'' ()]
        (mesh_new \<lparr>cfg_shard_count = 2, cfg_lane_capacity = 4, cfg_topology = None\<rparr>) :: unit mesh"
  obtain items m' where d: "drain_global_order 2 ?m = (items, m')" by fastforce
  have low: "mesh_seq ?m < u64_max" and len: "length (concat (map lane_queue (lanes ?m))) = 3"
    by (simp_all add: mesh_run)
  note merge = drain_is_global_merge [OF refl low d]
  then have "length items = 2" using len by (metis length_sort length_take min.absorb4 numeral_2_eq_2 numeral_3_eq_3 lessI)
  with merge d show ?thesis by blast
qed

text \<open>
  A mesh never holds more than its lanes were built for, and a lane is first in, first out. In
  any run every lane is within the configured capacity, holds only envelopes addressed to its own
  shard, and (until the counter is exhausted) in strictly increasing shard order.
\<close>

theorem mesh_lanes_bounded:
  fixes m :: "'j mesh"
  assumes "m = fold mesh_step es (mesh_new config)" and "i < length (lanes m)"
  shows "lane_len (lanes m ! i) \<le> cfg_lane_capacity config \<and>
         lane_max_depth (lanes m ! i) \<le> cfg_lane_capacity config \<and>
         (\<forall>e \<in> set (lane_queue (lanes m ! i)). env_shard e = i) \<and>
         (mesh_seq m < u64_max \<longrightarrow>
            sorted_wrt (<) (map env_shard_seq (lane_queue (lanes m ! i))) \<and>
            sorted_wrt (<) (map global_seq (lane_queue (lanes m ! i)))) \<and>
         total_depth m \<le> cfg_shard_count config * cfg_lane_capacity config"
proof -
  let ?n = "mesh_new config :: 'j mesh"
  have inv: "mesh_inv m" unfolding assms(1) by (rule mesh.inv_run [OF mesh_new_inv])
  have caps: "caps m = caps ?n" unfolding assms(1) by (rule mesh_run_caps [OF mesh_new_inv])
  have new: "caps ?n = (if cfg_shard_count config = 0 \<or> cfg_lane_capacity config = 0 then []
      else replicate (cfg_shard_count config) (cfg_lane_capacity config))"
    by (simp add: caps_def mesh_new_def lane_new_def comp_def map_replicate_const)
  then have cap: "lane_cap (lanes m ! i) = cfg_lane_capacity config"
    using arg_cong [OF caps, of "\<lambda>c. c ! i"] arg_cong [OF caps, of length] assms(2)
    by (simp add: caps_def split: if_splits)
  have "total_depth m \<le> sum_list (caps ?n)"
    using mesh.depth_run [OF mesh_new_inv, of es config] assms(1) by simp
  then have total: "total_depth m \<le> cfg_shard_count config * cfg_lane_capacity config"
    using new by (simp add: sum_list_replicate split: if_splits)
  have "lane_wf i (lanes m ! i)" using inv assms(2) by (simp add: mesh_inv_def)
  moreover have "mesh_seq m < u64_max \<longrightarrow>
      sorted_wrt (<) (map env_shard_seq (lane_queue (lanes m ! i))) \<and>
      sorted_wrt (<) (map global_seq (lane_queue (lanes m ! i)))"
    using inv assms(2) nth_mem [OF assms(2)] by (auto simp: mesh_inv_def shard_ordered_def lanes_ordered_def)
  ultimately show ?thesis using total cap by (simp add: lane_wf_def lane_len_def)
qed

theorem mesh_lanes_bounded_witness:
  "\<exists>m :: unit mesh. m = fold mesh_step [MeshInbound ''a'' (), MeshInbound ''b'' (), MeshInbound ''c'' ()]
        (mesh_new \<lparr>cfg_shard_count = 2, cfg_lane_capacity = 4, cfg_topology = None\<rparr>) \<and>
     lane_len (lanes m ! 0) \<le> 4 \<and> total_depth m \<le> 8"
proof -
  let ?m = "fold mesh_step [MeshInbound ''a'' (), MeshInbound ''b'' (), MeshInbound ''c'' ()]
        (mesh_new \<lparr>cfg_shard_count = 2, cfg_lane_capacity = 4, cfg_topology = None\<rparr>) :: unit mesh"
  have "0 < length (lanes ?m)" by (simp add: mesh_run)
  from mesh_lanes_bounded [OF refl this] show ?thesis by auto
qed

text \<open>
  Backpressure is exact. An enqueue succeeds exactly when the target lane has room; it appends the
  envelope it returns, with the next global number, to that lane alone. Otherwise no lane changes,
  the rejection is counted and the answer carries the lane's depth, which is its capacity.
  Completions of one call always go to the same shard.
\<close>

theorem mesh_backpressure_exact:
  assumes "m = fold mesh_step es (mesh_new config)"
    and "mesh_enqueue_hostcall_complete call_id outcome m = (res, m')"
  shows "let shard = hash_route call_id m in
         (case res of
            Inr env \<Rightarrow>
              shard < length (lanes m) \<and> lane_len (lanes m ! shard) < lane_cap (lanes m ! shard) \<and>
              global_seq env = mesh_seq m \<and> env_shard env = shard \<and>
              env_task env = HostcallComplete call_id outcome \<and>
              map lane_queue (lanes m') = (map lane_queue (lanes m))[shard := lane_queue (lanes m ! shard) @ [env]]
          | Inl bp \<Rightarrow>
              lanes m' = lanes m \<and> rejected_enqueues m' = sat_add64 (rejected_enqueues m) 1 \<and>
              bp_shard bp = shard \<and>
              (if lanes m = [] then bp_capacity bp = 0
               else bp_depth bp = lane_len (lanes m ! shard) \<and> bp_capacity bp = lane_cap (lanes m ! shard) \<and>
                    bp_depth bp = bp_capacity bp)) \<and>
         hash_route call_id m' = shard"
proof -
  have inv: "mesh_inv m" unfolding assms(1) by (rule mesh.inv_run [OF mesh_new_inv])
  have route: "lanes m \<noteq> [] \<Longrightarrow> hash_route call_id m < length (lanes m)"
    by (auto simp: hash_route_def)
  have "length (caps m') = length (caps m)"
    using enqueue_inv [OF inv] assms(2) by (metis mesh_enqueue_hostcall_complete_def snd_conv)
  then have "hash_route call_id m' = hash_route call_id m" by (simp add: hash_route_def caps_def)
  then show ?thesis
    using enqueue_with_route_spec [OF inv, of "hash_route call_id m" "HostcallComplete call_id outcome"]
      assms(2) route
    by (auto simp: mesh_enqueue_hostcall_complete_def Let_def split: sum.splits)
qed

theorem mesh_backpressure_exact_witness:
  "\<exists>(m :: unit mesh) bp m'. m = fold mesh_step [MeshInbound ''a'' ()]
        (mesh_new \<lparr>cfg_shard_count = 1, cfg_lane_capacity = 1, cfg_topology = None\<rparr>) \<and>
     mesh_enqueue_hostcall_complete ''c'' (Success ()) m = (Inl bp, m') \<and> bp_depth bp = 1 \<and> lanes m' = lanes m"
proof -
  let ?m = "fold mesh_step [MeshInbound ''a'' ()]
        (mesh_new \<lparr>cfg_shard_count = 1, cfg_lane_capacity = 1, cfg_topology = None\<rparr>) :: unit mesh"
  obtain res m' where r: "mesh_enqueue_hostcall_complete ''c'' (Success ()) ?m = (res, m')" by fastforce
  have full: "lanes ?m \<noteq> []" "hash_route ''c'' ?m = 0" "lane_len (lanes ?m ! 0) = 1" "lane_cap (lanes ?m ! 0) = 1"
    by (simp_all add: mesh_run hash_route_def)
  note exact = mesh_backpressure_exact [OF refl r]
  then obtain bp where "res = Inl bp" using full by (cases res) (auto simp: Let_def)
  with exact full r show ?thesis by (auto simp: Let_def)
qed

text \<open>
  Shard placement is valid and balanced. Given a topology with cores, every shard is bound, in
  order, to a core of the topology together with that core's own node; the plan counts the nodes
  of the topology, falls back exactly for a single node, and no node gets more than one shard more
  than another.
\<close>

theorem placement_valid_and_balanced:
  assumes "0 < n" and "cores \<noteq> []"
  shows "let p = plan n (Some cores);
             load = (\<lambda>x. length (filter (\<lambda>b. bind_node b = x) (bindings p)))
         in map bind_shard (bindings p) = [0..<n] \<and>
            (\<forall>b \<in> set (bindings p). \<exists>c \<in> set cores. top_core_id c = bind_core b \<and> top_numa_node c = bind_node b) \<and>
            man_numa_node_count p = card (top_numa_node ` set cores) \<and>
            (man_fallback p = Some SingleNumaNode \<longleftrightarrow> card (top_numa_node ` set cores) = 1) \<and>
            (\<forall>x \<in> top_numa_node ` set cores. \<forall>y \<in> top_numa_node ` set cores. load x \<le> load y + 1)"
proof -
  define nodes where "nodes = topology_nodes cores"
  define k where "k = length nodes"
  note entries = topology_nodes_entries [of cores, folded nodes_def]
  have keys: "fst ` set nodes = top_numa_node ` set cores" and dist: "distinct (map fst nodes)"
    using entries by auto
  have count: "k = card (top_numa_node ` set cores)"
    using distinct_card [OF dist] keys by (simp add: k_def)
  have "nodes \<noteq> []" using keys assms(2) by (cases cores) auto
  then have k: "0 < k" by (simp add: k_def)
  define bind where "bind = (\<lambda>i. let (node, cs) = nodes ! (i mod k) in
    \<lparr>bind_shard = i, bind_core = cs ! ((i div k) mod length cs), bind_node = node\<rparr>)"
  have p: "plan n (Some cores) = \<lparr>man_shard_count = n, man_numa_node_count = k, bindings = map bind [0..<n],
      man_fallback = (if k = 1 then Some SingleNumaNode else None)\<rparr>"
    using assms \<open>nodes \<noteq> []\<close> by (simp add: plan_def Let_def nodes_def [symmetric] k_def bind_def)
  have node: "bind_node (bind i) = fst (nodes ! (i mod k))" "bind_shard (bind i) = i" for i
    by (simp_all add: bind_def Let_def split: prod.splits)
  have "\<exists>c \<in> set cores. top_core_id c = bind_core (bind i) \<and> top_numa_node c = bind_node (bind i)" for i
  proof -
    obtain nd cs where e: "nodes ! (i mod k) = (nd, cs)" by fastforce
    then have "(nd, cs) \<in> set nodes" using k nth_mem [of "i mod k" nodes] by (simp add: k_def)
    then have "cs \<noteq> []" "set cs = set (cores_on cores nd)" using entries by auto
    then have "cs ! ((i div k) mod length cs) \<in> set (cores_on cores nd)" by (metis length_greater_0_conv mod_less_divisor nth_mem)
    then show ?thesis by (auto simp: bind_def e set_cores_on)
  qed
  moreover have load: "length (filter (\<lambda>b. bind_node b = x) (map bind [0..<n])) = n div k + (if a < n mod k then 1 else 0)"
    if "a < k" "x = fst (nodes ! a)" for x a
  proof -
    have "bind_node (bind i) = x \<longleftrightarrow> i mod k = a" for i
      using that k nth_eq_iff_index_eq [OF dist, of "i mod k" a] by (auto simp: node k_def)
    then show ?thesis using count_residues [OF k that(1), of n] by (simp add: filter_map comp_def)
  qed
  have "length (filter (\<lambda>b. bind_node b = x) (map bind [0..<n])) \<le> length (filter (\<lambda>b. bind_node b = y) (map bind [0..<n])) + 1"
    if "x \<in> fst ` set nodes" "y \<in> fst ` set nodes" for x y
  proof -
    have at: "\<exists>a < k. z = fst (nodes ! a)" if "z \<in> fst ` set nodes" for z
    proof -
      have "z \<in> set (map fst nodes)" using that by simp
      then show ?thesis by (auto simp only: in_set_conv_nth length_map nth_map k_def)
    qed
    from at [OF that(1)] at [OF that(2)] obtain a b
      where "a < k" "x = fst (nodes ! a)" "b < k" "y = fst (nodes ! b)" by blast
    then show ?thesis using load [of a x] load [of b y] by simp
  qed
  ultimately show ?thesis
    unfolding p Let_def keys [symmetric] by (simp add: comp_def node count [folded keys])
qed

theorem placement_valid_and_balanced_witness:
  "man_numa_node_count (plan 3 (Some (from_core_node_pairs [(0, 0), (1, 1)]))) = 2"
proof -
  have cores: "from_core_node_pairs [(0, 0), (1, 1)] =
      [\<lparr>top_core_id = 0, top_numa_node = 0\<rparr>, \<lparr>top_core_id = 1, top_numa_node = 1\<rparr>]"
    by (simp add: from_core_node_pairs_def core_key_def)
  show ?thesis
    unfolding cores using placement_valid_and_balanced [of 3 "[\<lparr>top_core_id = 0, top_numa_node = 0\<rparr>,
      \<lparr>top_core_id = 1, top_numa_node = 1\<rparr>]"] by (simp add: Let_def)
qed

end
