(* ===== verification/Bravo.thy ===== *)
theory Bravo
  imports Machines
begin

text \<open>
  The contention policy of the hostcall queue (\<open>BravoContentionState\<close> in
  \<open>src/src/hostcall_queue.rs\<close>): a state machine over fixed observation windows that favours
  readers while contention is read-heavy and hands the lock to writers when they starve or when
  the readers' budget of windows is used up.
\<close>

section \<open>Data\<close>

datatype bias_mode = Balanced | ReadBiased | WriterRecovery

datatype contention_signature =
    InsufficientSamples | ReadDominant | MixedContention | WriterStarvationRisk | WriteDominant

record contention_sample =
  read_acquires :: u64
  write_acquires :: u64
  read_wait_p95_us :: u64
  write_wait_p95_us :: u64
  write_timeouts :: u64

record bravo_config =
  min_total_acquires :: u64
  read_dominant_ratio_permille :: u32
  mixed_ratio_floor_permille :: u32
  mixed_ratio_ceiling_permille :: u32
  writer_starvation_wait_us :: u64
  writer_starvation_timeouts :: u64
  max_consecutive_read_bias_windows :: u32
  writer_recovery_windows :: u32

definition default_bravo_config :: bravo_config where
  "default_bravo_config =
     \<lparr>min_total_acquires = 32, read_dominant_ratio_permille = 800,
      mixed_ratio_floor_permille = 450, mixed_ratio_ceiling_permille = 799,
      writer_starvation_wait_us = 8000, writer_starvation_timeouts = 2,
      max_consecutive_read_bias_windows = 5, writer_recovery_windows = 2\<rparr>"

record bravo_decision =
  previous_mode :: bias_mode
  next_mode :: bias_mode
  dec_signature :: contention_signature
  switched :: bool
  rollback_triggered :: bool

record bravo_telemetry =
  tel_mode :: bias_mode
  tel_transitions :: u64
  tel_rollbacks :: u64
  tel_windows_observed :: u64
  tel_consecutive_read_bias_windows :: u32
  tel_writer_recovery_remaining :: u32
  tel_last_signature :: contention_signature

record bravo =
  br_config :: bravo_config
  br_mode :: bias_mode
  br_transitions :: u64
  br_rollbacks :: u64
  br_windows_observed :: u64
  br_consecutive :: u32
  br_remaining :: u32
  br_last_signature :: contention_signature

section \<open>Operations\<close>

definition total_acquires :: "contention_sample \<Rightarrow> u64" where
  "total_acquires s = sat_add64 (read_acquires s) (write_acquires s)"

definition read_ratio_permille :: "contention_sample \<Rightarrow> u32" where
  "read_ratio_permille s =
     (let total = total_acquires s in
      if total = 0 then 0
      else let ratio = (read_acquires s * 1000) div total
           in if ratio \<le> u32_max then ratio else 1000)"

definition bravo_new :: "bravo_config \<Rightarrow> bravo" where
  "bravo_new config =
     \<lparr>br_config = config, br_mode = Balanced, br_transitions = 0, br_rollbacks = 0,
      br_windows_observed = 0, br_consecutive = 0, br_remaining = 0,
      br_last_signature = InsufficientSamples\<rparr>"

definition bravo_default :: bravo where
  "bravo_default = bravo_new default_bravo_config"

definition bravo_snapshot :: "bravo \<Rightarrow> bravo_telemetry" where
  "bravo_snapshot s =
     \<lparr>tel_mode = br_mode s, tel_transitions = br_transitions s, tel_rollbacks = br_rollbacks s,
      tel_windows_observed = br_windows_observed s,
      tel_consecutive_read_bias_windows = br_consecutive s,
      tel_writer_recovery_remaining = br_remaining s, tel_last_signature = br_last_signature s\<rparr>"

definition classify :: "contention_sample \<Rightarrow> bravo_config \<Rightarrow> contention_signature" where
  "classify s c =
     (if total_acquires s < min_total_acquires c then InsufficientSamples
      else if write_wait_p95_us s \<ge> writer_starvation_wait_us c
              \<or> write_timeouts s \<ge> writer_starvation_timeouts c then WriterStarvationRisk
      else
        let read_ratio = read_ratio_permille s;
            read_dominant_floor = min (read_dominant_ratio_permille c) 1000
        in if read_ratio \<ge> read_dominant_floor then ReadDominant
           else
             let mixed_floor = min (mixed_ratio_floor_permille c) 1000;
                 mixed_ceiling = min (max (mixed_ratio_ceiling_permille c) mixed_floor) 1000
             in if read_ratio \<ge> mixed_floor \<and> read_ratio \<le> mixed_ceiling then MixedContention
                else WriteDominant)"

definition mode_changed :: "bias_mode \<Rightarrow> bias_mode \<Rightarrow> bool" where
  "mode_changed current previous = (current \<noteq> previous)"

text \<open>The three arms of \<open>observe\<close>, each giving the rollback flag and the state after the arm.\<close>

definition observe_balanced :: "contention_signature \<Rightarrow> bravo \<Rightarrow> bool \<times> bravo" where
  "observe_balanced signature s =
     (case signature of
        WriterStarvationRisk \<Rightarrow>
          (True, s\<lparr>br_mode := WriterRecovery,
                   br_remaining := max (writer_recovery_windows (br_config s)) 1,
                   br_consecutive := 0, br_rollbacks := sat_add64 (br_rollbacks s) 1\<rparr>)
      | ReadDominant \<Rightarrow> (False, s\<lparr>br_mode := ReadBiased, br_consecutive := 1\<rparr>)
      | MixedContention \<Rightarrow> (False, s\<lparr>br_mode := ReadBiased, br_consecutive := 1\<rparr>)
      | InsufficientSamples \<Rightarrow> (False, s\<lparr>br_consecutive := 0\<rparr>)
      | WriteDominant \<Rightarrow> (False, s\<lparr>br_consecutive := 0\<rparr>))"

definition observe_read_biased :: "contention_signature \<Rightarrow> bravo \<Rightarrow> bool \<times> bravo" where
  "observe_read_biased signature s =
     (let s1 = s\<lparr>br_consecutive := sat_add32 (br_consecutive s) 1\<rparr>;
          starvation = (signature = WriterStarvationRisk);
          exhausted = (br_consecutive s1 \<ge> max (max_consecutive_read_bias_windows (br_config s1)) 1)
      in if starvation \<or> exhausted then
           (let s2 = s1\<lparr>br_mode := WriterRecovery,
                        br_remaining := max (writer_recovery_windows (br_config s1)) 1,
                        br_consecutive := 0\<rparr>
            in (starvation,
                if starvation then s2\<lparr>br_rollbacks := sat_add64 (br_rollbacks s2) 1\<rparr> else s2))
         else if signature \<in> {InsufficientSamples, WriteDominant} then
           (False, s1\<lparr>br_mode := Balanced, br_consecutive := 0\<rparr>)
         else (False, s1))"

definition observe_recovery :: "contention_signature \<Rightarrow> bravo \<Rightarrow> bool \<times> bravo" where
  "observe_recovery signature s =
     (let s1 = s\<lparr>br_consecutive := 0\<rparr>;
          s2 = (if signature = WriterStarvationRisk
                then s1\<lparr>br_remaining := max (writer_recovery_windows (br_config s1)) 1\<rparr>
                else if br_remaining s1 > 0 then s1\<lparr>br_remaining := br_remaining s1 - 1\<rparr> else s1)
      in (False, if br_remaining s2 = 0 then s2\<lparr>br_mode := Balanced\<rparr> else s2))"

definition observe :: "contention_sample \<Rightarrow> bravo \<Rightarrow> bravo_decision \<times> bravo" where
  "observe sample s =
     (let previous = br_mode s;
          signature = classify sample (br_config s);
          s1 = s\<lparr>br_windows_observed := sat_add64 (br_windows_observed s) 1\<rparr>;
          (rollback, s2) = (case br_mode s1 of
             Balanced \<Rightarrow> observe_balanced signature s1
           | ReadBiased \<Rightarrow> observe_read_biased signature s1
           | WriterRecovery \<Rightarrow> observe_recovery signature s1);
          sw = mode_changed (br_mode s2) previous;
          s3 = (if sw then s2\<lparr>br_transitions := sat_add64 (br_transitions s2) 1\<rparr> else s2);
          s4 = s3\<lparr>br_last_signature := signature\<rparr>
      in (\<lparr>previous_mode = previous, next_mode = br_mode s4, dec_signature = signature,
           switched = sw, rollback_triggered = rollback\<rparr>, s4))"

definition bravo_step :: "contention_sample \<Rightarrow> bravo \<Rightarrow> bravo" where
  "bravo_step sample s = snd (observe sample s)"

section \<open>The invariant\<close>

lemmas observe_defs = bravo_step_def observe_def observe_balanced_def observe_read_biased_def
  observe_recovery_def mode_changed_def Let_def

text \<open>The read-bias counter runs only in read-biased mode and the recovery counter only in recovery.\<close>

definition bravo_inv :: "bravo \<Rightarrow> bool" where
  "bravo_inv s \<longleftrightarrow>
     max_consecutive_read_bias_windows (br_config s) \<le> u32_max \<and>
     (br_mode s = ReadBiased \<longrightarrow> 1 \<le> br_consecutive s) \<and>
     (br_mode s \<noteq> ReadBiased \<longrightarrow> br_consecutive s = 0) \<and>
     br_consecutive s \<le> max (max_consecutive_read_bias_windows (br_config s) - 1) 1 \<and>
     (br_mode s = WriterRecovery \<longrightarrow> 1 \<le> br_remaining s) \<and>
     br_remaining s \<le> max (writer_recovery_windows (br_config s)) 1"

text \<open>What a window does to the mode and its two counters.\<close>

lemma bravo_step_balanced:
  assumes "br_mode s = Balanced" and "sg = classify x (br_config s)"
  shows "br_config (bravo_step x s) = br_config s \<and>
    (br_mode (bravo_step x s), br_consecutive (bravo_step x s), br_remaining (bravo_step x s)) =
    (case sg of
       WriterStarvationRisk \<Rightarrow> (WriterRecovery, 0, max (writer_recovery_windows (br_config s)) 1)
     | ReadDominant \<Rightarrow> (ReadBiased, 1, br_remaining s)
     | MixedContention \<Rightarrow> (ReadBiased, 1, br_remaining s)
     | _ \<Rightarrow> (Balanced, 0, br_remaining s))"
  using assms by (cases sg) (simp_all add: observe_defs)

lemma bravo_step_read_biased:
  assumes "br_mode s = ReadBiased" and "sg = classify x (br_config s)"
  shows "br_config (bravo_step x s) = br_config s \<and>
    (br_mode (bravo_step x s), br_consecutive (bravo_step x s), br_remaining (bravo_step x s)) =
    (if sg = WriterStarvationRisk \<or>
        max (max_consecutive_read_bias_windows (br_config s)) 1 \<le> sat_add32 (br_consecutive s) 1
     then (WriterRecovery, 0, max (writer_recovery_windows (br_config s)) 1)
     else if sg \<in> {InsufficientSamples, WriteDominant} then (Balanced, 0, br_remaining s)
     else (ReadBiased, sat_add32 (br_consecutive s) 1, br_remaining s))"
  using assms by (simp add: observe_defs)

lemma bravo_step_recovery:
  assumes "br_mode s = WriterRecovery" and "sg = classify x (br_config s)"
  shows "br_config (bravo_step x s) = br_config s \<and>
    (br_mode (bravo_step x s), br_consecutive (bravo_step x s), br_remaining (bravo_step x s)) =
    (if sg = WriterStarvationRisk then (WriterRecovery, 0, max (writer_recovery_windows (br_config s)) 1)
     else (if br_remaining s \<le> 1 then Balanced else WriterRecovery, 0, br_remaining s - 1))"
  using assms by (auto simp: observe_defs)

lemmas bravo_step_fields = bravo_step_balanced [OF _ refl] bravo_step_read_biased [OF _ refl]
  bravo_step_recovery [OF _ refl]

lemma bravo_step_config [simp]: "br_config (bravo_step x s) = br_config s"
  using bravo_step_fields by (cases "br_mode s") blast+

lemma bravo_new_inv:
  "max_consecutive_read_bias_windows config \<le> u32_max \<Longrightarrow> bravo_inv (bravo_new config)"
  by (simp add: bravo_inv_def bravo_new_def)

lemma sat_add32_one: "n < u32_max \<Longrightarrow> sat_add32 n (Suc 0) = Suc n"
  by (simp add: sat_add32_def)

interpretation bravo: invariant_machine bravo_inv bravo_step
proof
  fix s x
  assume inv: "bravo_inv s"
  show "bravo_inv (bravo_step x s)"
  proof (cases "br_mode s")
    case Balanced
    from bravo_step_balanced [OF this refl, of x] inv Balanced show ?thesis
      by (cases "classify x (br_config s)") (auto simp: bravo_inv_def)
  next
    case ReadBiased
    have "br_consecutive s < u32_max \<or> br_consecutive s = 1"
      using inv by (auto simp: bravo_inv_def u32_max_def)
    then have "sat_add32 (br_consecutive s) 1 = Suc (br_consecutive s)"
      by (auto simp: sat_add32_def u32_max_def)
    with bravo_step_read_biased [OF ReadBiased refl, of x] inv ReadBiased show ?thesis
      by (auto simp: bravo_inv_def split: if_splits)
  next
    case WriterRecovery
    from bravo_step_recovery [OF this refl, of x] inv WriterRecovery show ?thesis
      by (auto simp: bravo_inv_def split: if_splits)
  qed
qed

section \<open>Properties\<close>

text \<open>The number of windows the counter can still run before the budget is used up.\<close>

lemma read_bias_run:
  assumes "bravo_inv s" and "br_mode s = ReadBiased"
    and "\<forall>k \<le> length xs. br_mode (fold bravo_step (take k xs) s) = ReadBiased"
  shows "br_consecutive (fold bravo_step xs s) = br_consecutive s + length xs"
  using assms(3)
proof (induction xs rule: rev_induct)
  case (snoc x xs)
  let ?s = "fold bravo_step xs s"
  have "\<forall>k \<le> length xs. br_mode (fold bravo_step (take k xs) s) = ReadBiased"
    using snoc.prems by (auto simp: le_Suc_eq)
  note IH = snoc.IH [OF this]
  have inv: "bravo_inv ?s" using assms(1) by (rule bravo.inv_run)
  have mode: "br_mode ?s = ReadBiased" "br_mode (bravo_step x ?s) = ReadBiased"
    using snoc.prems [rule_format, of "length xs"] snoc.prems [rule_format, of "Suc (length xs)"] by simp_all
  then have "br_consecutive (bravo_step x ?s) = sat_add32 (br_consecutive ?s) 1"
    using bravo_step_read_biased [OF mode(1) refl, of x] by (auto split: if_splits)
  moreover have "br_consecutive ?s < u32_max"
    using inv by (auto simp: bravo_inv_def u32_max_def)
  ultimately show ?case using IH by (simp add: sat_add32_one)
qed simp

text \<open>
  Readers cannot keep the bias. Whatever is observed, of any \<open>max M 2\<close> consecutive windows, where
  \<open>M\<close> is the configured maximum, at least one ends outside read-biased mode.
\<close>

theorem read_bias_bounded:
  assumes "max_consecutive_read_bias_windows config \<le> u32_max"
    and "s = fold bravo_step history (bravo_new config)"
    and "length xs = max (max_consecutive_read_bias_windows config) 2"
  shows "\<exists>k. 1 \<le> k \<and> k \<le> length xs \<and> br_mode (fold bravo_step (take k xs) s) \<noteq> ReadBiased"
proof (rule ccontr)
  assume none: "\<not> ?thesis"
  obtain x ys where xs: "xs = x # ys" using assms(3) by (cases xs) auto
  have inv: "bravo_inv s" unfolding assms(2) by (rule bravo.inv_run [OF bravo_new_inv [OF assms(1)]])
  let ?s = "bravo_step x s"
  have biased: "br_mode (fold bravo_step (take k ys) ?s) = ReadBiased" if "k \<le> length ys" for k
  proof -
    have "br_mode (fold bravo_step (take (Suc k) xs) s) = ReadBiased"
      using none that xs by auto
    then show ?thesis by (simp add: xs)
  qed
  have inv1: "bravo_inv ?s" using inv by (rule bravo.inv_step)
  have "br_consecutive (fold bravo_step ys ?s) = br_consecutive ?s + length ys"
    by (rule read_bias_run [OF inv1]) (use biased [of 0] biased in auto)
  moreover have "1 \<le> br_consecutive ?s" using inv1 biased [of 0] by (simp add: bravo_inv_def)
  moreover have "bravo_inv (fold bravo_step ys ?s)" using inv1 by (rule bravo.inv_run)
  moreover have "br_config (fold bravo_step ys ?s) = config"
  proof -
    have "br_config (fold bravo_step zs t) = br_config t" for zs t
      by (induction zs arbitrary: t) simp_all
    then show ?thesis using assms(2) by (simp add: bravo_new_def)
  qed
  ultimately show False using assms(3) xs by (auto simp: bravo_inv_def)
qed

theorem read_bias_bounded_witness:
  "\<exists>k. 1 \<le> k \<and> k \<le> 5 \<and>
     br_mode (fold bravo_step (take k (replicate 5 \<lparr>read_acquires = 90, write_acquires = 10,
       read_wait_p95_us = 0, write_wait_p95_us = 0, write_timeouts = 0\<rparr>)) bravo_default) \<noteq> ReadBiased"
  using read_bias_bounded [of default_bravo_config bravo_default "[]"
      "replicate 5 \<lparr>read_acquires = 90, write_acquires = 10,
       read_wait_p95_us = 0, write_wait_p95_us = 0, write_timeouts = 0\<rparr>"]
  by (simp add: bravo_default_def default_bravo_config_def u32_max_def)

text \<open>
  Starving writers get their windows. From any state, a window with starvation risk puts the
  policy into writer recovery and reports a rollback unless it was there already; recovery then
  lasts for exactly the configured number of windows without such risk and ends in balanced mode.
\<close>

theorem starvation_forces_recovery:
  assumes "classify x (br_config s) = WriterStarvationRisk"
    and "\<forall>y \<in> set ys. classify y (br_config s) \<noteq> WriterStarvationRisk"
    and "length ys \<le> max (writer_recovery_windows (br_config s)) 1"
  shows "br_mode (fold bravo_step (x # ys) s) =
           (if length ys < max (writer_recovery_windows (br_config s)) 1 then WriterRecovery else Balanced) \<and>
         (rollback_triggered (fst (observe x s)) \<longleftrightarrow> br_mode s \<noteq> WriterRecovery)"
proof -
  let ?w = "max (writer_recovery_windows (br_config s)) 1"
  have start: "br_mode (bravo_step x s) = WriterRecovery \<and> br_remaining (bravo_step x s) = ?w"
    using bravo_step_fields [of s x] assms(1) by (cases "br_mode s") auto
  have "br_config (fold bravo_step ys (bravo_step x s)) = br_config s \<and>
      br_remaining (fold bravo_step ys (bravo_step x s)) = ?w - length ys \<and>
      br_mode (fold bravo_step ys (bravo_step x s)) = (if length ys < ?w then WriterRecovery else Balanced)"
    using assms(2,3)
  proof (induction ys rule: rev_induct)
    case Nil
    then show ?case using start by (simp add: less_max_iff_disj)
  next
    case (snoc y ys)
    let ?t = "fold bravo_step ys (bravo_step x s)"
    have IH: "br_config ?t = br_config s" "br_remaining ?t = ?w - length ys" "br_mode ?t = WriterRecovery"
      using snoc by auto
    show ?case
      using bravo_step_recovery [OF IH(3) refl, of y] snoc.prems IH by auto
  qed
  moreover have "rollback_triggered (fst (observe x s)) \<longleftrightarrow> br_mode s \<noteq> WriterRecovery"
    using assms(1) by (cases "br_mode s") (simp_all add: observe_defs)
  ultimately show ?thesis by simp
qed

theorem starvation_forces_recovery_witness:
  "br_mode (fold bravo_step [\<lparr>read_acquires = 50, write_acquires = 50, read_wait_p95_us = 0,
       write_wait_p95_us = 9000, write_timeouts = 0\<rparr>] bravo_default) = WriterRecovery"
proof -
  let ?x = "\<lparr>read_acquires = 50, write_acquires = 50, read_wait_p95_us = 0, write_wait_p95_us = 9000, write_timeouts = 0\<rparr>"
  have "classify ?x (br_config bravo_default) = WriterStarvationRisk"
    by (simp add: classify_def bravo_default_def bravo_new_def default_bravo_config_def total_acquires_def
        sat_add64_def u64_max_def)
  from starvation_forces_recovery [OF this, of "[]"] show ?thesis by (auto split: if_splits)
qed

end
