(* ===== verification/Hostcall_Queue.thy ===== *)
theory Hostcall_Queue
  imports Reactor S3_Fifo Bravo
begin

text \<open>
  The hostcall request queue (\<open>src/src/hostcall_queue.rs\<close>): a bounded fast ring with a bounded
  overflow queue behind it, the per-tenant admission of the overflow, epoch-based retirement of
  the popped requests and the contention policy of theory \<open>Bravo\<close>. The ring is the lock-free
  queue of the crossbeam library, which the operations take as the argument \<open>R\<close> and of which
  they rely on the contract \<open>bounded_ring\<close> only; the tenant of a request is the argument
  \<open>tenant\<close>, the trait method \<open>tenant_key\<close>. The pins are the shared atomic counter.
\<close>

section \<open>Admission to the overflow queue\<close>

datatype admission_mode = AdmActive | ConservativeFifo

record admission_config =
  tenant_budget :: usize
  adm_ghost_capacity :: usize
  min_signal_samples :: u64
  max_signalless_streak :: u64
  max_unstable_rejections :: u64

definition from_capacities :: "usize \<Rightarrow> usize \<Rightarrow> admission_config" where
  "from_capacities fast overflow_cap =
     \<lparr>tenant_budget = max (overflow_cap div 2) 1,
      adm_ghost_capacity = max (sat_mul64 (sat_add64 fast overflow_cap) 2) 16,
      min_signal_samples = 32, max_signalless_streak = 64, max_unstable_rejections = 16\<rparr>"

record admission =
  adm_config :: admission_config
  adm_mode :: admission_mode
  adm_fallback :: "s3_fallback_reason option"
  adm_ghost_order :: "(u64, string) btree"
  adm_ghost_lookup :: "(string, u64) btree"
  adm_ghost_gen :: u64
  tenant_backlog :: "(string, usize) btree"
  adm_ghost_hits :: u64
  fairness_rejected :: u64
  signal_samples :: u64
  signalless_streak :: u64
  unstable_rejection_streak :: u64
  adm_transitions :: u64

definition admission_new :: "admission_config \<Rightarrow> admission" where
  "admission_new config =
     \<lparr>adm_config = config, adm_mode = AdmActive, adm_fallback = None, adm_ghost_order = bt_empty,
      adm_ghost_lookup = bt_empty, adm_ghost_gen = 0, tenant_backlog = bt_empty,
      adm_ghost_hits = 0, fairness_rejected = 0, signal_samples = 0, signalless_streak = 0,
      unstable_rejection_streak = 0, adm_transitions = 0\<rparr>"

definition transition_to_fallback :: "s3_fallback_reason \<Rightarrow> admission \<Rightarrow> admission" where
  "transition_to_fallback why a =
     (if adm_mode a = ConservativeFifo then a
      else a\<lparr>adm_mode := ConservativeFifo, adm_fallback := Some why,
             adm_transitions := sat_add64 (adm_transitions a) 1, adm_ghost_order := bt_empty,
             adm_ghost_lookup := bt_empty, adm_ghost_gen := 0, tenant_backlog := bt_empty\<rparr>)"

definition observe_signal :: "string option \<Rightarrow> admission \<Rightarrow> admission" where
  "observe_signal key a =
     (if adm_mode a \<noteq> AdmActive then a
      else case key of
        Some _ \<Rightarrow> a\<lparr>signal_samples := sat_add64 (signal_samples a) 1, signalless_streak := 0\<rparr>
      | None \<Rightarrow>
          (let a1 = a\<lparr>signalless_streak := sat_add64 (signalless_streak a) 1\<rparr> in
           if signalless_streak a1 \<ge> max_signalless_streak (adm_config a1)
              \<and> signal_samples a1 < min_signal_samples (adm_config a1)
           then transition_to_fallback SignalQualityInsufficient a1 else a1))"

definition consume_ghost_hit :: "string \<Rightarrow> admission \<Rightarrow> bool \<times> admission" where
  "consume_ghost_hit key a =
     (case bt_get (adm_ghost_lookup a) key of
        Some generation \<Rightarrow>
          (True, a\<lparr>adm_ghost_lookup := bt_remove key (adm_ghost_lookup a),
                   adm_ghost_order := bt_remove generation (adm_ghost_order a),
                   adm_ghost_hits := sat_add64 (adm_ghost_hits a) 1\<rparr>)
      | None \<Rightarrow> (False, a))"

text \<open>The trimming loop is that of the S3-FIFO ghost list (\<open>trim_ghosts\<close>).\<close>

definition record_ghost :: "string \<Rightarrow> admission \<Rightarrow> admission" where
  "record_ghost key a =
     (if key = [] then a
      else
        let a0 = (if adm_ghost_gen a = u64_max
                  then a\<lparr>adm_ghost_gen := 0, adm_ghost_order := bt_empty, adm_ghost_lookup := bt_empty\<rparr>
                  else a);
            a1 = a0\<lparr>adm_ghost_gen := sat_add64 (adm_ghost_gen a0) 1\<rparr>;
            a2 = (case bt_get (adm_ghost_lookup a1) key of
                    Some old_gen \<Rightarrow>
                      (let a2 = a1\<lparr>adm_ghost_lookup := bt_insert key (adm_ghost_gen a1) (adm_ghost_lookup a1)\<rparr>
                       in case bt_get (adm_ghost_order a2) old_gen of
                            Some k_reused \<Rightarrow>
                              a2\<lparr>adm_ghost_order := bt_insert (adm_ghost_gen a2) k_reused
                                                       (bt_remove old_gen (adm_ghost_order a2))\<rparr>
                          | None \<Rightarrow> a2)
                  | None \<Rightarrow>
                      a1\<lparr>adm_ghost_lookup := bt_insert key (adm_ghost_gen a1) (adm_ghost_lookup a1),
                         adm_ghost_order := bt_insert (adm_ghost_gen a1) key (adm_ghost_order a1)\<rparr>);
            (order, lookup) =
              trim_ghosts (adm_ghost_capacity (adm_config a2)) (adm_ghost_order a2) (adm_ghost_lookup a2)
        in a2\<lparr>adm_ghost_order := order, adm_ghost_lookup := lookup\<rparr>)"

definition bump_rejections :: "admission \<Rightarrow> admission" where
  "bump_rejections a =
     (if unstable_rejection_streak a \<ge> max_unstable_rejections (adm_config a)
      then transition_to_fallback FairnessInstability a else a)"

definition backlog_of :: "string \<Rightarrow> admission \<Rightarrow> usize" where
  "backlog_of key a = (case bt_get (tenant_backlog a) key of None \<Rightarrow> 0 | Some n \<Rightarrow> n)"

definition allow_main_admission :: "string option \<Rightarrow> admission \<Rightarrow> bool \<times> admission" where
  "allow_main_admission key a =
     (if adm_mode a \<noteq> AdmActive then (True, a)
      else case key of
        None \<Rightarrow> (True, a)
      | Some k \<Rightarrow>
          if backlog_of k a < tenant_budget (adm_config a) then (True, a)
          else
            let (hit, a1) = consume_ghost_hit k a in
            if hit then (True, a1\<lparr>unstable_rejection_streak := 0\<rparr>)
            else
              (False, bump_rejections (record_ghost k
                 (a1\<lparr>fairness_rejected := sat_add64 (fairness_rejected a1) 1,
                     unstable_rejection_streak := sat_add64 (unstable_rejection_streak a1) 1\<rparr>))))"

definition on_main_enqueued :: "string option \<Rightarrow> admission \<Rightarrow> admission" where
  "on_main_enqueued key a =
     (if adm_mode a \<noteq> AdmActive then a
      else
        let a1 = (case key of
                    None \<Rightarrow> a
                  | Some k \<Rightarrow>
                      (case bt_get (tenant_backlog a) k of
                         Some n \<Rightarrow> a\<lparr>tenant_backlog := bt_insert k (n + 1) (tenant_backlog a)\<rparr>
                       | None \<Rightarrow> a\<lparr>tenant_backlog := bt_insert k 1 (tenant_backlog a)\<rparr>))
        in a1\<lparr>unstable_rejection_streak := 0\<rparr>)"

definition on_main_dequeued :: "string option \<Rightarrow> admission \<Rightarrow> admission" where
  "on_main_dequeued key a =
     (if adm_mode a \<noteq> AdmActive then a
      else case key of
        None \<Rightarrow> a
      | Some k \<Rightarrow>
          record_ghost k
            (case bt_get (tenant_backlog a) k of
               None \<Rightarrow> a
             | Some n \<Rightarrow>
                 if n - 1 = 0 then a\<lparr>tenant_backlog := bt_remove k (tenant_backlog a)\<rparr>
                 else a\<lparr>tenant_backlog := bt_insert k (n - 1) (tenant_backlog a)\<rparr>))"

definition on_main_overflow_reject :: "string option \<Rightarrow> admission \<Rightarrow> admission" where
  "on_main_overflow_reject key a =
     (if adm_mode a \<noteq> AdmActive then a
      else
        let a1 = (case key of None \<Rightarrow> a | Some k \<Rightarrow> record_ghost k a);
            a2 = a1\<lparr>unstable_rejection_streak := sat_add64 (unstable_rejection_streak a1) 1\<rparr>
        in bump_rejections a2)"

record admission_telemetry =
  at_mode :: admission_mode
  at_fallback :: "s3_fallback_reason option"
  at_ghost_depth :: usize
  at_ghost_hits :: u64
  at_fairness_rejected :: u64
  at_signal_samples :: u64
  at_signalless_streak :: u64
  at_transitions :: u64
  at_tenant_budget :: usize
  at_active_tenants :: usize

definition admission_snapshot :: "admission \<Rightarrow> admission_telemetry" where
  "admission_snapshot a =
     \<lparr>at_mode = adm_mode a, at_fallback = adm_fallback a, at_ghost_depth = bt_len (adm_ghost_lookup a),
      at_ghost_hits = adm_ghost_hits a, at_fairness_rejected = fairness_rejected a,
      at_signal_samples = signal_samples a, at_signalless_streak = signalless_streak a,
      at_transitions = adm_transitions a, at_tenant_budget = tenant_budget (adm_config a),
      at_active_tenants = bt_len (tenant_backlog a)\<rparr>"

section \<open>The queue\<close>

datatype queue_mode = Ebr | SafeFallback

definition queue_mode_parse :: "ustr \<Rightarrow> queue_mode option" where
  "queue_mode_parse value =
     (let v = to_ascii_lowercase (trim value) in
      if v \<in> {lit ''ebr'', lit ''epoch'', lit ''epoch-based''} then Some Ebr
      else if v \<in> {lit ''fallback'', lit ''safe-fallback'', lit ''off'', lit ''disabled'', lit ''legacy''}
      then Some SafeFallback
      else None)"

definition queue_mode_from_env :: "ustr option \<Rightarrow> queue_mode" where
  "queue_mode_from_env var =
     (case Option.bind var queue_mode_parse of None \<Rightarrow> SafeFallback | Some mode \<Rightarrow> mode)"

datatype enqueue_result =
    FastPath (res_depth: usize)
  | OverflowPath (res_depth: usize) (res_overflow_depth: usize)
  | Rejected (res_depth: usize) (res_overflow_depth: usize)

record 't retired_node =
  node_value :: 't
  retired_epoch :: u64

record ('t, 'r) request_queue =
  fast :: 'r
  fast_capacity :: usize
  overflow :: "'t list"
  overflow_enqueued_total :: u64
  overflow_rejected_total :: u64
  max_depth_seen :: usize
  overflow_capacity :: usize
  reclamation_mode :: queue_mode
  active_epoch_pins :: usize
  current_epoch :: u64
  retired :: "'t retired_node list"
  reclaimed_total :: u64
  max_epoch_lag :: u64
  reclamation_latency_max_epochs :: u64
  fallback_transitions :: u64
  backlog_threshold :: usize
  contention_policy :: bravo
  s3fifo :: admission

definition with_mode :: "('t, 'r) ring_ops \<Rightarrow> usize \<Rightarrow> usize \<Rightarrow> queue_mode \<Rightarrow> ('t, 'r) request_queue" where
  "with_mode R fast_cap overflow_cap mode =
     (let fc = max fast_cap 1;
          oc = max overflow_cap 1
      in \<lparr>fast = ring_new R fc, fast_capacity = fc, overflow = [], overflow_enqueued_total = 0,
          overflow_rejected_total = 0, max_depth_seen = 0, overflow_capacity = oc,
          reclamation_mode = mode, active_epoch_pins = 0, current_epoch = 0, retired = [],
          reclaimed_total = 0, max_epoch_lag = 0, reclamation_latency_max_epochs = 0,
          fallback_transitions = 0,
          backlog_threshold = max (sat_mul64 (sat_add64 fc oc) 8) 32,
          contention_policy = bravo_default, s3fifo = admission_new (from_capacities fc oc)\<rparr>)"

definition with_capacities :: "('t, 'r) ring_ops \<Rightarrow> ustr option \<Rightarrow> usize \<Rightarrow> usize \<Rightarrow> ('t, 'r) request_queue" where
  "with_capacities R var fast_cap overflow_cap =
     with_mode R fast_cap overflow_cap (queue_mode_from_env var)"

definition queue_len :: "('t, 'r) ring_ops \<Rightarrow> ('t, 'r) request_queue \<Rightarrow> usize" where
  "queue_len R q = ring_len R (fast q) + length (overflow q)"

definition queue_is_empty :: "('t, 'r) ring_ops \<Rightarrow> ('t, 'r) request_queue \<Rightarrow> bool" where
  "queue_is_empty R q = (ring_len R (fast q) = 0 \<and> overflow q = [])"

definition pin_epoch :: "('t, 'r) request_queue \<Rightarrow> ('t, 'r) request_queue" where
  "pin_epoch q = q\<lparr>active_epoch_pins := (active_epoch_pins q + 1) mod 2 ^ 64\<rparr>"

definition drop_pin :: "('t, 'r) request_queue \<Rightarrow> ('t, 'r) request_queue" where
  "drop_pin q =
     q\<lparr>active_epoch_pins := (if active_epoch_pins q = 0 then 2 ^ 64 - 1 else active_epoch_pins q - 1)\<rparr>"

definition bump_epoch :: "('t, 'r) request_queue \<Rightarrow> ('t, 'r) request_queue" where
  "bump_epoch q = q\<lparr>current_epoch := sat_add64 (current_epoch q) 1\<rparr>"

definition retire_for_reclamation :: "'t \<Rightarrow> ('t, 'r) request_queue \<Rightarrow> ('t, 'r) request_queue" where
  "retire_for_reclamation x q =
     q\<lparr>retired := retired q @ [\<lparr>node_value = x, retired_epoch = current_epoch q\<rparr>]\<rparr>"

definition transition_to_safe_fallback :: "('t, 'r) request_queue \<Rightarrow> ('t, 'r) request_queue" where
  "transition_to_safe_fallback q =
     (if reclamation_mode q = SafeFallback then q
      else q\<lparr>reclamation_mode := SafeFallback,
             fallback_transitions := sat_add64 (fallback_transitions q) 1, retired := []\<rparr>)"

fun reclaim_loop :: "u64 \<Rightarrow> 't retired_node list \<Rightarrow> u64 \<Rightarrow> u64 \<Rightarrow> 't retired_node list \<times> u64 \<times> u64" where
  "reclaim_loop epoch [] latency_max reclaimed = ([], latency_max, reclaimed)"
| "reclaim_loop epoch (node # nodes) latency_max reclaimed =
     (if retired_epoch node < epoch
      then reclaim_loop epoch nodes (max latency_max (epoch - retired_epoch node)) (sat_add64 reclaimed 1)
      else (node # nodes, latency_max, reclaimed))"

definition try_reclaim :: "('t, 'r) request_queue \<Rightarrow> ('t, 'r) request_queue" where
  "try_reclaim q =
     (if reclamation_mode q \<noteq> Ebr then q
      else if active_epoch_pins q > 0 then
        (let q1 = (case retired q of
                     [] \<Rightarrow> q
                   | front # _ \<Rightarrow>
                       q\<lparr>max_epoch_lag := max (max_epoch_lag q) (current_epoch q - retired_epoch front)\<rparr>)
         in if length (retired q1) > backlog_threshold q1 then transition_to_safe_fallback q1 else q1)
      else
        (let (nodes, latency, reclaimed) =
               reclaim_loop (current_epoch q) (retired q) (reclamation_latency_max_epochs q) (reclaimed_total q)
         in q\<lparr>retired := nodes, reclamation_latency_max_epochs := latency, reclaimed_total := reclaimed\<rparr>))"

text \<open>The emptying loop of \<open>clear\<close>: as many rounds as the ring has elements.\<close>

primrec empty_ring :: "('t, 'r) ring_ops \<Rightarrow> nat \<Rightarrow> 'r \<Rightarrow> 'r" where
  "empty_ring R 0 r = r"
| "empty_ring R (Suc n) r = (case ring_pop R r of None \<Rightarrow> r | Some (_, r1) \<Rightarrow> empty_ring R n r1)"

definition clear_queue :: "('t, 'r) ring_ops \<Rightarrow> ('t, 'r) request_queue \<Rightarrow> ('t, 'r) request_queue" where
  "clear_queue R q =
     q\<lparr>fast := empty_ring R (ring_len R (fast q)) (fast q), overflow := [],
       overflow_enqueued_total := 0, overflow_rejected_total := 0, max_depth_seen := 0,
       current_epoch := 0, retired := [], reclaimed_total := 0, max_epoch_lag := 0,
       reclamation_latency_max_epochs := 0, fallback_transitions := 0,
       contention_policy := bravo_default,
       s3fifo := admission_new (from_capacities (fast_capacity q) (overflow_capacity q))\<rparr>"

definition note_depth :: "('t, 'r) ring_ops \<Rightarrow> ('t, 'r) request_queue \<Rightarrow> ('t, 'r) request_queue" where
  "note_depth R q = q\<lparr>max_depth_seen := max (max_depth_seen q) (queue_len R q)\<rparr>"

text \<open>The part of \<open>push_back\<close> after the fast ring was not available.\<close>

definition push_overflow :: "('t, 'r) ring_ops \<Rightarrow> ('t \<Rightarrow> string option) \<Rightarrow> 't \<Rightarrow>
  ('t, 'r) request_queue \<Rightarrow> enqueue_result \<times> ('t, 'r) request_queue" where
  "push_overflow R tenant request q =
     (let key = tenant request;
          (allowed, a) = allow_main_admission key (s3fifo q);
          q1 = q\<lparr>s3fifo := a\<rparr>
      in if \<not> allowed then
           (let q2 = q1\<lparr>overflow_rejected_total := sat_add64 (overflow_rejected_total q1) 1\<rparr>
            in (Rejected (queue_len R q2) (length (overflow q2)), q2))
         else if length (overflow q1) < overflow_capacity q1 then
           (let q2 = q1\<lparr>overflow := overflow q1 @ [request],
                        overflow_enqueued_total := sat_add64 (overflow_enqueued_total q1) 1,
                        s3fifo := on_main_enqueued key (s3fifo q1)\<rparr>;
                q3 = note_depth R (try_reclaim (bump_epoch q2))
            in (OverflowPath (queue_len R q3) (length (overflow q3)), q3))
         else
           (let q2 = q1\<lparr>overflow_rejected_total := sat_add64 (overflow_rejected_total q1) 1,
                        s3fifo := on_main_overflow_reject key (s3fifo q1)\<rparr>
            in (Rejected (queue_len R q2) (length (overflow q2)), q2)))"

definition push_back :: "('t, 'r) ring_ops \<Rightarrow> ('t \<Rightarrow> string option) \<Rightarrow> 't \<Rightarrow>
  ('t, 'r) request_queue \<Rightarrow> enqueue_result \<times> ('t, 'r) request_queue" where
  "push_back R tenant request q =
     (let q0 = q\<lparr>s3fifo := observe_signal (tenant request) (s3fifo q)\<rparr>
      in case (if overflow q0 = [] then ring_push R request (fast q0) else None) of
           Some r \<Rightarrow>
             (let q1 = note_depth R (try_reclaim (bump_epoch (q0\<lparr>fast := r\<rparr>)))
              in (FastPath (queue_len R q1), q1))
         | None \<Rightarrow> push_overflow R tenant request q0)"

definition pop_front :: "('t, 'r) ring_ops \<Rightarrow> ('t \<Rightarrow> string option) \<Rightarrow>
  ('t, 'r) request_queue \<Rightarrow> 't option \<times> ('t, 'r) request_queue" where
  "pop_front R tenant q =
     (let took = (case ring_pop R (fast q) of
                    Some (x, r) \<Rightarrow> Some (x, q\<lparr>fast := r\<rparr>)
                  | None \<Rightarrow>
                      (case overflow q of
                         [] \<Rightarrow> None
                       | x # rest \<Rightarrow>
                           Some (x, q\<lparr>overflow := rest, s3fifo := on_main_dequeued (tenant x) (s3fifo q)\<rparr>)))
      in case took of
           None \<Rightarrow> (None, q)
         | Some (x, q1) \<Rightarrow>
             (let q2 = bump_epoch q1;
                  q3 = (if reclamation_mode q2 = Ebr then retire_for_reclamation x q2 else q2)
              in (Some x, try_reclaim q3)))"

text \<open>The draining loop: as many rounds as the queue has requests.\<close>

primrec drain_loop :: "('t, 'r) ring_ops \<Rightarrow> ('t \<Rightarrow> string option) \<Rightarrow> nat \<Rightarrow>
  ('t, 'r) request_queue \<Rightarrow> 't list \<times> ('t, 'r) request_queue" where
  "drain_loop R tenant 0 q = ([], q)"
| "drain_loop R tenant (Suc n) q =
     (case pop_front R tenant q of
        (None, q1) \<Rightarrow> ([], q1)
      | (Some x, q1) \<Rightarrow> (let (xs, q2) = drain_loop R tenant n q1 in (x # xs, q2)))"

definition drain_all :: "('t, 'r) ring_ops \<Rightarrow> ('t \<Rightarrow> string option) \<Rightarrow>
  ('t, 'r) request_queue \<Rightarrow> 't list \<times> ('t, 'r) request_queue" where
  "drain_all R tenant q = drain_loop R tenant (queue_len R q) q"

definition force_reclaim :: "('t, 'r) request_queue \<Rightarrow> ('t, 'r) request_queue" where
  "force_reclaim q = try_reclaim (bump_epoch q)"

definition force_safe_fallback :: "('t, 'r) request_queue \<Rightarrow> ('t, 'r) request_queue" where
  "force_safe_fallback q = transition_to_safe_fallback q"

definition observe_contention_window ::
  "contention_sample \<Rightarrow> ('t, 'r) request_queue \<Rightarrow> bravo_decision \<times> ('t, 'r) request_queue" where
  "observe_contention_window sample q =
     (let (d, b) = observe sample (contention_policy q) in (d, q\<lparr>contention_policy := b\<rparr>))"

section \<open>What the steps leave alone\<close>

lemma bump_epoch_frame [simp]:
  "fast (bump_epoch q) = fast q"
  "overflow (bump_epoch q) = overflow q"
  "s3fifo (bump_epoch q) = s3fifo q"
  "fast_capacity (bump_epoch q) = fast_capacity q"
  "overflow_capacity (bump_epoch q) = overflow_capacity q"
  "backlog_threshold (bump_epoch q) = backlog_threshold q"
  "active_epoch_pins (bump_epoch q) = active_epoch_pins q"
  "retired (bump_epoch q) = retired q"
  "reclamation_mode (bump_epoch q) = reclamation_mode q"
  "reclaimed_total (bump_epoch q) = reclaimed_total q"
  by (simp_all add: bump_epoch_def)

lemma note_depth_frame [simp]:
  "fast (note_depth R q) = fast q"
  "overflow (note_depth R q) = overflow q"
  "s3fifo (note_depth R q) = s3fifo q"
  "fast_capacity (note_depth R q) = fast_capacity q"
  "overflow_capacity (note_depth R q) = overflow_capacity q"
  "backlog_threshold (note_depth R q) = backlog_threshold q"
  "active_epoch_pins (note_depth R q) = active_epoch_pins q"
  "retired (note_depth R q) = retired q"
  "reclamation_mode (note_depth R q) = reclamation_mode q"
  "reclaimed_total (note_depth R q) = reclaimed_total q"
  "current_epoch (note_depth R q) = current_epoch q"
  by (simp_all add: note_depth_def)

lemma retire_frame [simp]:
  "fast (retire_for_reclamation x q) = fast q"
  "overflow (retire_for_reclamation x q) = overflow q"
  "s3fifo (retire_for_reclamation x q) = s3fifo q"
  "fast_capacity (retire_for_reclamation x q) = fast_capacity q"
  "overflow_capacity (retire_for_reclamation x q) = overflow_capacity q"
  "backlog_threshold (retire_for_reclamation x q) = backlog_threshold q"
  "active_epoch_pins (retire_for_reclamation x q) = active_epoch_pins q"
  "reclamation_mode (retire_for_reclamation x q) = reclamation_mode q"
  "reclaimed_total (retire_for_reclamation x q) = reclaimed_total q"
  "current_epoch (retire_for_reclamation x q) = current_epoch q"
  by (simp_all add: retire_for_reclamation_def)

lemma safe_fallback_frame [simp]:
  "fast (transition_to_safe_fallback q) = fast q"
  "overflow (transition_to_safe_fallback q) = overflow q"
  "s3fifo (transition_to_safe_fallback q) = s3fifo q"
  "fast_capacity (transition_to_safe_fallback q) = fast_capacity q"
  "overflow_capacity (transition_to_safe_fallback q) = overflow_capacity q"
  "backlog_threshold (transition_to_safe_fallback q) = backlog_threshold q"
  "active_epoch_pins (transition_to_safe_fallback q) = active_epoch_pins q"
  "reclaimed_total (transition_to_safe_fallback q) = reclaimed_total q"
  "current_epoch (transition_to_safe_fallback q) = current_epoch q"
  by (simp_all add: transition_to_safe_fallback_def)

lemma try_reclaim_frame [simp]:
  "fast (try_reclaim q) = fast q"
  "overflow (try_reclaim q) = overflow q"
  "s3fifo (try_reclaim q) = s3fifo q"
  "fast_capacity (try_reclaim q) = fast_capacity q"
  "overflow_capacity (try_reclaim q) = overflow_capacity q"
  "backlog_threshold (try_reclaim q) = backlog_threshold q"
  "active_epoch_pins (try_reclaim q) = active_epoch_pins q"
  "current_epoch (try_reclaim q) = current_epoch q"
  by (simp_all add: try_reclaim_def Let_def split: list.splits prod.splits)

section \<open>Retirement\<close>

text \<open>
  Retired nodes carry increasing epochs, none of them in the future, and none once the queue is in
  the safe fallback. The strict order holds until the epoch counter saturates.
\<close>

definition epoch_wf :: "('t, 'r) request_queue \<Rightarrow> bool" where
  "epoch_wf q \<longleftrightarrow>
     current_epoch q \<le> u64_max \<and> (reclamation_mode q = SafeFallback \<longrightarrow> retired q = []) \<and>
     (current_epoch q < u64_max \<longrightarrow>
        sorted_wrt (<) (map retired_epoch (retired q)) \<and>
        (\<forall>node \<in> set (retired q). retired_epoch node \<le> current_epoch q))"

definition epoch_inv :: "('t, 'r) request_queue \<Rightarrow> bool" where
  "epoch_inv q \<longleftrightarrow>
     epoch_wf q \<and> 1 \<le> backlog_threshold q \<and>
     (current_epoch q < u64_max \<longrightarrow> length (retired q) \<le> backlog_threshold q)"

lemma reclaim_loop_drops: "fst (reclaim_loop e nodes l n) = dropWhile (\<lambda>node. retired_epoch node < e) nodes"
  by (induction e nodes l n rule: reclaim_loop.induct) auto

lemma epoch_wf_bump:
  assumes "epoch_wf q"
  shows "epoch_wf (bump_epoch q)"
    and "current_epoch (bump_epoch q) < u64_max \<Longrightarrow> node \<in> set (retired q) \<Longrightarrow>
           retired_epoch node < current_epoch (bump_epoch q)"
  using assms by (auto simp: epoch_wf_def bump_epoch_def sat_add64_def le_Suc_eq less_Suc_eq_le)

lemma epoch_wf_retire:
  assumes "epoch_wf q" and "reclamation_mode q = Ebr"
  shows "epoch_wf (retire_for_reclamation x (bump_epoch q))"
  using epoch_wf_bump [OF assms(1)] assms(2)
  by (auto simp: epoch_wf_def retire_for_reclamation_def sorted_wrt_append)

lemma sorted_at_most_one:
  "sorted_wrt (<) (map f xs) \<Longrightarrow> \<forall>x \<in> set xs. f x = (e :: nat) \<Longrightarrow> length xs \<le> 1"
proof (cases xs)
  case (Cons x ys)
  assume "sorted_wrt (<) (map f xs)" "\<forall>x \<in> set xs. f x = e"
  then show ?thesis using Cons by (cases ys) auto
qed simp

lemma sorted_dropWhile: "sorted_wrt (<) (map f xs) \<Longrightarrow> sorted_wrt (<) (map f (dropWhile P xs))"
  by (induction xs) auto

lemma dropWhile_sorted:
  "sorted_wrt (<) (map f xs) \<Longrightarrow> x \<in> set (dropWhile (\<lambda>x. f x < (e :: nat)) xs) \<Longrightarrow> e \<le> f x"
  by (induction xs) (auto split: if_splits)

lemma try_reclaim_retired:
  "retired (try_reclaim q) =
     (if reclamation_mode q \<noteq> Ebr then retired q
      else if active_epoch_pins q > 0
      then (if length (retired q) > backlog_threshold q then [] else retired q)
      else dropWhile (\<lambda>node. retired_epoch node < current_epoch q) (retired q))"
  "reclamation_mode (try_reclaim q) =
     (if reclamation_mode q = Ebr \<and> active_epoch_pins q > 0 \<and> length (retired q) > backlog_threshold q
      then SafeFallback else reclamation_mode q)"
  using reclaim_loop_drops [of "current_epoch q" "retired q" "reclamation_latency_max_epochs q" "reclaimed_total q"]
  by (auto simp: try_reclaim_def transition_to_safe_fallback_def Let_def split: list.splits prod.splits)

lemma try_reclaim_epoch_inv:
  assumes "epoch_wf q" and "1 \<le> backlog_threshold q"
  shows "epoch_inv (try_reclaim q)"
proof (cases "reclamation_mode q = Ebr \<and> active_epoch_pins q = 0 \<and> current_epoch q < u64_max")
  case True
  define left where "left = dropWhile (\<lambda>node. retired_epoch node < current_epoch q) (retired q)"
  have sorted: "sorted_wrt (<) (map retired_epoch (retired q))"
    and past: "\<forall>node \<in> set (retired q). retired_epoch node \<le> current_epoch q"
    using assms(1) True by (auto simp: epoch_wf_def)
  have now: "\<forall>node \<in> set left. retired_epoch node = current_epoch q"
  proof
    fix node assume "node \<in> set left"
    then have "node \<in> set (retired q)" "current_epoch q \<le> retired_epoch node"
      unfolding left_def using dropWhile_sorted [OF sorted] set_dropWhileD by fast+
    with past show "retired_epoch node = current_epoch q" by (simp add: le_antisym)
  qed
  have sorted': "sorted_wrt (<) (map retired_epoch left)"
    unfolding left_def using sorted by (rule sorted_dropWhile)
  have "retired (try_reclaim q) = left" "reclamation_mode (try_reclaim q) = Ebr"
    using True by (simp_all add: try_reclaim_retired left_def)
  then show ?thesis
    using sorted_at_most_one [OF sorted' now] now sorted' assms(2) True
    by (simp add: epoch_inv_def epoch_wf_def)
next
  case False
  from False assms show ?thesis
    by (cases "reclamation_mode q") (auto simp: epoch_inv_def epoch_wf_def try_reclaim_retired)
qed

lemma epoch_inv_wf: "epoch_inv q \<Longrightarrow> epoch_wf q \<and> 1 \<le> backlog_threshold q"
  by (simp add: epoch_inv_def)

lemma epoch_inv_cong:
  "epoch_inv q \<Longrightarrow> current_epoch q' = current_epoch q \<Longrightarrow> retired q' = retired q \<Longrightarrow>
     reclamation_mode q' = reclamation_mode q \<Longrightarrow> backlog_threshold q' = backlog_threshold q \<Longrightarrow> epoch_inv q'"
  by (simp add: epoch_inv_def epoch_wf_def)

lemma epoch_wf_cong:
  "epoch_wf q \<Longrightarrow> current_epoch q' = current_epoch q \<Longrightarrow> retired q' = retired q \<Longrightarrow>
     reclamation_mode q' = reclamation_mode q \<Longrightarrow> epoch_wf q'"
  by (simp add: epoch_wf_def)

lemma reclaim_step_inv: "epoch_inv q \<Longrightarrow> epoch_inv (try_reclaim (bump_epoch q))"
  using epoch_inv_wf [of q] epoch_wf_bump(1) [of q] by (intro try_reclaim_epoch_inv) auto

section \<open>Tenants\<close>

text \<open>While admission is active, the backlog of a tenant is the number of its requests in the overflow.\<close>

definition of_tenant :: "('t \<Rightarrow> string option) \<Rightarrow> string \<Rightarrow> 't list \<Rightarrow> nat" where
  "of_tenant tenant k xs = length (filter (\<lambda>x. tenant x = Some k) xs)"

definition backlog_ok :: "('t \<Rightarrow> string option) \<Rightarrow> 't list \<Rightarrow> admission \<Rightarrow> bool" where
  "backlog_ok tenant xs a \<longleftrightarrow>
     (adm_mode a = AdmActive \<longrightarrow>
        bt_wf (tenant_backlog a) \<and>
        (\<forall>k. bt_get (tenant_backlog a) k =
               (if of_tenant tenant k xs = 0 then None else Some (of_tenant tenant k xs))))"

definition keeps_backlog :: "admission \<Rightarrow> admission \<Rightarrow> bool" where
  "keeps_backlog a a' \<longleftrightarrow>
     adm_config a' = adm_config a \<and>
     (adm_mode a' = AdmActive \<longrightarrow> adm_mode a = AdmActive \<and> tenant_backlog a' = tenant_backlog a)"

lemma keeps_backlog_ok: "keeps_backlog a a' \<Longrightarrow> backlog_ok tenant xs a \<Longrightarrow> backlog_ok tenant xs a'"
  by (auto simp: keeps_backlog_def backlog_ok_def)

lemma keeps_backlog_refl [simp]: "keeps_backlog a a"
  by (simp add: keeps_backlog_def)

lemma keeps_backlog_trans: "keeps_backlog a b \<Longrightarrow> keeps_backlog b c \<Longrightarrow> keeps_backlog a c"
  by (simp add: keeps_backlog_def)

lemma record_ghost_frame [simp]:
  "adm_config (record_ghost k a) = adm_config a" "adm_mode (record_ghost k a) = adm_mode a"
  "tenant_backlog (record_ghost k a) = tenant_backlog a"
  "unstable_rejection_streak (record_ghost k a) = unstable_rejection_streak a"
  "adm_fallback (record_ghost k a) = adm_fallback a"
  by (auto simp: record_ghost_def Let_def split: option.splits prod.splits)

lemma fallback_keeps: "keeps_backlog a (transition_to_fallback why a)"
  by (simp add: transition_to_fallback_def keeps_backlog_def)

lemma bump_keeps: "keeps_backlog a (bump_rejections a)"
  by (simp add: bump_rejections_def fallback_keeps)

lemma observe_keeps: "keeps_backlog a (observe_signal key a)"
  by (auto simp: observe_signal_def keeps_backlog_def transition_to_fallback_def Let_def split: option.splits)

lemma allow_keeps: "keeps_backlog a (snd (allow_main_admission key a))"
proof -
  have "keeps_backlog a (record_ghost k (a\<lparr>fairness_rejected := m, unstable_rejection_streak := n\<rparr>))" for k m n
    by (simp add: keeps_backlog_def)
  from keeps_backlog_trans [OF this bump_keeps]
  have "keeps_backlog a (bump_rejections (record_ghost k (a\<lparr>fairness_rejected := m, unstable_rejection_streak := n\<rparr>)))" for k m n .
  moreover have "keeps_backlog a (a\<lparr>adm_ghost_lookup := l, adm_ghost_order := r, adm_ghost_hits := h,
      unstable_rejection_streak := n\<rparr>)" for l r h n
    by (simp add: keeps_backlog_def)
  ultimately show ?thesis
    by (simp add: allow_main_admission_def consume_ghost_hit_def Let_def split: option.splits)
qed

lemma reject_keeps: "keeps_backlog a (on_main_overflow_reject key a)"
proof -
  have "keeps_backlog a ((case key of None \<Rightarrow> a | Some k \<Rightarrow> record_ghost k a)\<lparr>unstable_rejection_streak := n\<rparr>)" for n
    by (simp add: keeps_backlog_def split: option.splits)
  from keeps_backlog_trans [OF this bump_keeps] show ?thesis
    by (auto simp: on_main_overflow_reject_def Let_def split: option.splits)
qed

lemma of_tenant_simps [simp]:
  "of_tenant tenant k [] = 0"
  "of_tenant tenant k (x # xs) = (if tenant x = Some k then 1 else 0) + of_tenant tenant k xs"
  "of_tenant tenant k (xs @ ys) = of_tenant tenant k xs + of_tenant tenant k ys"
  by (simp_all add: of_tenant_def)

lemma enqueued_backlog:
  assumes "backlog_ok tenant xs a"
  shows "backlog_ok tenant (xs @ [x]) (on_main_enqueued (tenant x) a)"
  using assms
  by (auto simp: backlog_ok_def on_main_enqueued_def Let_def split: option.splits if_splits)

lemma dequeued_backlog:
  assumes "backlog_ok tenant (x # xs) a"
  shows "backlog_ok tenant xs (on_main_dequeued (tenant x) a)"
  using assms
  by (auto simp: backlog_ok_def on_main_dequeued_def split: option.splits if_splits)

lemma admission_new_backlog: "backlog_ok tenant [] (admission_new config)"
  by (simp add: backlog_ok_def admission_new_def)

section \<open>Ghosts of the admission\<close>

definition adm_ghosts_ok :: "admission \<Rightarrow> bool" where
  "adm_ghosts_ok a \<longleftrightarrow>
     ghosts_ok (adm_ghost_gen a) (adm_ghost_order a) (adm_ghost_lookup a) \<and> adm_ghost_gen a \<le> u64_max \<and>
     bt_len (adm_ghost_lookup a) \<le> adm_ghost_capacity (adm_config a)"

lemma ghosts_ok_refresh:
  assumes "ghosts_ok gen order lookup" and "bt_get lookup k = Some g"
  shows "ghosts_ok (Suc gen) (bt_insert (Suc gen) k (bt_remove g order)) (bt_insert k (Suc gen) lookup)"
proof -
  note ok = ghosts_okD(1,2) [OF assms(1)]
  have "ghosts_ok (Suc gen) (bt_insert (Suc gen) k (bt_remove g order)) (bt_insert k (Suc gen) (bt_remove k lookup))"
    by (rule ghosts_ok_add [OF ghosts_ok_remove [OF assms]]) (simp add: ok)
  moreover have "bt_insert k (Suc gen) (bt_remove k lookup) = bt_insert k (Suc gen) lookup"
    by (rule bt_ext) (auto simp: ok)
  ultimately show ?thesis by simp
qed

text \<open>Trimming takes the oldest generations away, so the newest one survives any positive capacity.\<close>

lemma trim_ghosts_newest:
  assumes "ghosts_ok gen order lookup" and "bt_get lookup k = Some gen" and "1 \<le> c"
  shows "bt_get (snd (trim_ghosts c order lookup)) k = Some gen"
  using assms
proof (induction c order lookup rule: trim_ghosts.induct)
  case (1 c order lookup)
  show ?case
  proof (cases "bt_len lookup > c")
    case False
    with "1.prems" show ?thesis by (simp add: trim_ghosts.simps [of c order lookup])
  next
    case True
    note ok = ghosts_okD [OF "1.prems"(1)]
    have newest: "bt_get order gen = Some k" using ok(3) "1.prems"(2) by simp
    show ?thesis
    proof (cases order)
      case Nil
      with newest show ?thesis by simp
    next
      case (Cons e order')
      obtain g p where e: "e = (g, p)" by fastforce
      have look: "bt_get lookup p = Some g" using ok(3) Cons e by simp
      have rest: "ghosts_ok gen order' (bt_remove p lookup)"
        using ghosts_ok_remove [OF "1.prems"(1) look] Cons e by simp
      have "p \<noteq> k"
      proof
        assume "p = k"
        then have "g = gen" using look "1.prems"(2) by simp
        then have "order' = []"
          using ok(1,4) Cons e by (cases order') (fastforce simp: dom_bt_get)+
        then have "\<forall>k. bt_get (bt_remove p lookup) k = None"
          using rest by (auto simp: ghosts_ok_def)
        then have "bt_len (bt_remove p lookup) = 0"
          using ok(2) by (simp add: bt.len_zero_iff)
        then show False using bt.len_remove [OF ok(2), of p] look True "1.prems"(3) by simp
      qed
      then have "bt_get (bt_remove p lookup) k = Some gen" using ok(2) "1.prems"(2) by simp
      moreover have "trim_ghosts c order lookup = trim_ghosts c order' (bt_remove p lookup)"
        using True Cons e by (subst trim_ghosts.simps) simp
      ultimately show ?thesis
        using "1.IH" [OF True Cons e [symmetric] rest _ "1.prems"(3)] by simp
    qed
  qed
qed

lemma record_ghost_ok:
  assumes "adm_ghosts_ok a"
  shows "adm_ghosts_ok (record_ghost k a)"
    and "k \<noteq> [] \<Longrightarrow> 1 \<le> adm_ghost_capacity (adm_config a) \<Longrightarrow>
           bt_get (adm_ghost_lookup (record_ghost k a)) k \<noteq> None"
proof -
  define order where "order = (if adm_ghost_gen a = u64_max then bt_empty else adm_ghost_order a)"
  define lookup where "lookup = (if adm_ghost_gen a = u64_max then bt_empty else adm_ghost_lookup a)"
  define gen where "gen = (if adm_ghost_gen a = u64_max then 0 else adm_ghost_gen a)"
  have gen: "gen < u64_max" "sat_add64 gen 1 = Suc gen"
    using assms by (auto simp: gen_def adm_ghosts_ok_def)
  have ok: "ghosts_ok gen order lookup"
    using assms by (auto simp: order_def lookup_def gen_def adm_ghosts_ok_def ghosts_ok_def dom_def)
  define order' where "order' = (case bt_get lookup k of None \<Rightarrow> bt_insert (Suc gen) k order
    | Some g \<Rightarrow> bt_insert (Suc gen) k (bt_remove g order))"
  define lookup' where "lookup' = bt_insert k (Suc gen) lookup"
  have there: "bt_get order g = Some k" if "bt_get lookup k = Some g" for g
    using ghosts_okD(3) [OF ok] that by simp
  have ok': "ghosts_ok (Suc gen) order' lookup'"
    using ghosts_ok_add [OF ok] ghosts_ok_refresh [OF ok] by (auto simp: order'_def lookup'_def split: option.splits)
  let ?trim = "trim_ghosts (adm_ghost_capacity (adm_config a)) order' lookup'"
  have pushed: "k \<noteq> [] \<Longrightarrow> adm_ghost_order (record_ghost k a) = fst ?trim \<and>
      adm_ghost_lookup (record_ghost k a) = snd ?trim \<and> adm_ghost_gen (record_ghost k a) = Suc gen"
    using gen(2) there
    by (auto simp: record_ghost_def Let_def order_def lookup_def gen_def order'_def lookup'_def
        split: prod.splits if_splits option.splits)
  show "adm_ghosts_ok (record_ghost k a)"
  proof (cases "k = []")
    case True
    then show ?thesis using assms by (simp add: record_ghost_def)
  next
    case False
    then show ?thesis
      using pushed trim_ghosts_ok [OF ok', of "adm_ghost_capacity (adm_config a)"] gen(1)
      by (simp add: adm_ghosts_ok_def)
  qed
  show "bt_get (adm_ghost_lookup (record_ghost k a)) k \<noteq> None"
    if "k \<noteq> []" "1 \<le> adm_ghost_capacity (adm_config a)"
  proof -
    have "bt_get lookup' k = Some (Suc gen)" using ghosts_okD(2) [OF ok] by (simp add: lookup'_def)
    from trim_ghosts_newest [OF ok' this that(2)] pushed [OF that(1)] show ?thesis by simp
  qed
qed

lemma adm_ghosts_cong:
  "adm_ghosts_ok a \<Longrightarrow> adm_ghost_gen b = adm_ghost_gen a \<Longrightarrow> adm_ghost_order b = adm_ghost_order a \<Longrightarrow>
     adm_ghost_lookup b = adm_ghost_lookup a \<Longrightarrow> adm_config b = adm_config a \<Longrightarrow> adm_ghosts_ok b"
  by (simp add: adm_ghosts_ok_def)

lemma fallback_ghosts: "adm_ghosts_ok a \<Longrightarrow> adm_ghosts_ok (transition_to_fallback why a)"
  by (auto simp: transition_to_fallback_def adm_ghosts_ok_def ghosts_ok_def bt_len_def bt_empty_def)

lemma bump_ghosts: "adm_ghosts_ok a \<Longrightarrow> adm_ghosts_ok (bump_rejections a)"
  by (simp add: bump_rejections_def fallback_ghosts)

lemma consume_ghosts:
  assumes "adm_ghosts_ok a"
  shows "adm_ghosts_ok (snd (consume_ghost_hit k a))"
proof (cases "bt_get (adm_ghost_lookup a) k")
  case (Some g)
  have "bt_wf (adm_ghost_lookup a)" using assms by (simp add: adm_ghosts_ok_def ghosts_ok_def)
  then show ?thesis
    using Some assms ghosts_ok_remove [of _ _ _ k g]
    by (auto simp: consume_ghost_hit_def adm_ghosts_ok_def bt.len_remove)
qed (use assms in \<open>simp add: consume_ghost_hit_def\<close>)

datatype adm_event =
    Signal "string option" | Admit "string option" | Enqueued "string option"
  | Dequeued "string option" | OverflowReject "string option"

fun adm_step :: "adm_event \<Rightarrow> admission \<Rightarrow> admission" where
  "adm_step (Signal key) a = observe_signal key a"
| "adm_step (Admit key) a = snd (allow_main_admission key a)"
| "adm_step (Enqueued key) a = on_main_enqueued key a"
| "adm_step (Dequeued key) a = on_main_dequeued key a"
| "adm_step (OverflowReject key) a = on_main_overflow_reject key a"

lemma allow_ghosts:
  assumes "adm_ghosts_ok a"
  shows "adm_ghosts_ok (snd (allow_main_admission key a))"
proof -
  have "adm_ghosts_ok (b\<lparr>fairness_rejected := m, unstable_rejection_streak := n\<rparr>)"
      "adm_ghosts_ok (b\<lparr>unstable_rejection_streak := n\<rparr>)" if "adm_ghosts_ok b" for b m n
    by (rule adm_ghosts_cong [OF that]; simp)+
  then show ?thesis
    using assms consume_ghosts [OF assms] bump_ghosts record_ghost_ok(1)
    by (simp add: allow_main_admission_def Let_def case_prod_unfold split: option.splits)
qed

lemma reject_ghosts:
  assumes "adm_ghosts_ok a"
  shows "adm_ghosts_ok (on_main_overflow_reject key a)"
proof -
  have "adm_ghosts_ok ((case key of None \<Rightarrow> a | Some k \<Rightarrow> record_ghost k a)\<lparr>unstable_rejection_streak := n\<rparr>)" for n
    by (rule adm_ghosts_cong [of "case key of None \<Rightarrow> a | Some k \<Rightarrow> record_ghost k a"])
      (use assms record_ghost_ok(1) in \<open>auto split: option.splits\<close>)
  from bump_ghosts [OF this] show ?thesis
    using assms by (auto simp: on_main_overflow_reject_def Let_def)
qed

lemma dequeued_ghosts:
  assumes "adm_ghosts_ok a"
  shows "adm_ghosts_ok (on_main_dequeued key a)"
proof -
  have "adm_ghosts_ok (a\<lparr>tenant_backlog := b\<rparr>)" for b by (rule adm_ghosts_cong [OF assms]) simp_all
  then show ?thesis
    using assms by (auto simp: on_main_dequeued_def intro!: record_ghost_ok(1) split: option.splits)
qed

interpretation adm: bounded_machine adm_ghosts_ok adm_step "\<lambda>a. bt_len (adm_ghost_lookup a)"
  "\<lambda>a. adm_ghost_capacity (adm_config a)"
proof
  fix a e
  assume inv: "adm_ghosts_ok a"
  show "adm_ghosts_ok (adm_step e a)"
  proof (cases e)
    case (Signal key)
    have "adm_ghosts_ok (a\<lparr>signal_samples := m, signalless_streak := n\<rparr>)"
        "adm_ghosts_ok (a\<lparr>signalless_streak := n\<rparr>)" for m n
      by (rule adm_ghosts_cong [OF inv]; simp)+
    then show ?thesis
      using inv by (auto simp: Signal observe_signal_def Let_def fallback_ghosts split: option.splits)
  next
    case (Enqueued key)
    show ?thesis
      by (rule adm_ghosts_cong [OF inv]) (auto simp: Enqueued on_main_enqueued_def Let_def split: option.splits)
  qed (use inv in \<open>simp_all add: allow_ghosts reject_ghosts dequeued_ghosts\<close>)
  show "bt_len (adm_ghost_lookup a) \<le> adm_ghost_capacity (adm_config a)"
    using inv by (simp add: adm_ghosts_ok_def)
  have "adm_config (adm_step e a) = adm_config a"
    using observe_keeps [of a] allow_keeps [of a] reject_keeps [of a]
    by (cases e) (auto simp: keeps_backlog_def on_main_enqueued_def on_main_dequeued_def Let_def split: option.splits)
  then show "adm_ghost_capacity (adm_config (adm_step e a)) = adm_ghost_capacity (adm_config a)" by simp
qed

lemma admission_new_ghosts: "adm_ghosts_ok (admission_new config)"
  by (auto simp: adm_ghosts_ok_def admission_new_def ghosts_ok_def bt_len_def bt_empty_def)

section \<open>First in, first out\<close>

definition queue_contents :: "('r \<Rightarrow> 't list) \<Rightarrow> ('t, 'r) request_queue \<Rightarrow> 't list" where
  "queue_contents view q = view (fast q) @ overflow q"

text \<open>The client of the ring: the operations of the queue over any ring that keeps the contract.\<close>

locale hostcall_ring = bounded_ring R view limit
  for R :: "('t, 'r) ring_ops" and view :: "'r \<Rightarrow> 't list" and limit :: "'r \<Rightarrow> usize" +
  fixes tenant :: "'t \<Rightarrow> string option"
begin

lemma queue_len_contents: "queue_len R q = length (queue_contents view q)"
  by (simp add: queue_len_def queue_contents_def len_view)

lemma push_overflow_contents:
  assumes "push_overflow R tenant x q = (res, q')"
  shows "fast q' = fast q \<and>
         (case res of Rejected _ _ \<Rightarrow> overflow q' = overflow q
          | OverflowPath _ _ \<Rightarrow> overflow q' = overflow q @ [x] \<and> length (overflow q) < overflow_capacity q
          | FastPath _ \<Rightarrow> False)"
  using assms by (auto simp: push_overflow_def Let_def split: prod.splits if_splits)

lemma push_back_cases:
  assumes "push_back R tenant x q = (res, q')"
  shows "case res of
           FastPath n \<Rightarrow>
             overflow q = [] \<and> overflow q' = [] \<and> view (fast q') = view (fast q) @ [x] \<and>
             limit (fast q') = limit (fast q) \<and> length (view (fast q)) < limit (fast q)
         | OverflowPath n k \<Rightarrow>
             fast q' = fast q \<and> overflow q' = overflow q @ [x] \<and> length (overflow q) < overflow_capacity q \<and>
             (overflow q = [] \<longrightarrow> limit (fast q) \<le> length (view (fast q)))
         | Rejected n k \<Rightarrow>
             fast q' = fast q \<and> overflow q' = overflow q \<and>
             (overflow q = [] \<longrightarrow> limit (fast q) \<le> length (view (fast q)))"
proof (cases "if overflow q = [] then ring_push R x (fast q) else None")
  case None
  let ?q = "q\<lparr>s3fifo := observe_signal (tenant x) (s3fifo q)\<rparr>"
  have o: "push_overflow R tenant x ?q = (res, q')" using assms None
    by (cases "overflow q = []") (simp_all add: push_back_def Let_def)
  have "overflow q = [] \<longrightarrow> limit (fast q) \<le> length (view (fast q))"
    using None push_None [of x "fast q"] by auto
  with push_overflow_contents [OF o] show ?thesis by (cases res) auto
next
  case (Some r)
  then have "overflow q = []" and r: "ring_push R x (fast q) = Some r" by (auto split: if_splits)
  moreover have "res = FastPath (queue_len R q')" "fast q' = r" "overflow q' = overflow q"
    using assms r \<open>overflow q = []\<close> by (auto simp: push_back_def Let_def)
  ultimately show ?thesis using push_Some [OF r] by simp
qed

lemma push_back_contents:
  "push_back R tenant x q = (res, q') \<Longrightarrow>
     queue_contents view q' = (case res of Rejected _ _ \<Rightarrow> queue_contents view q | _ \<Rightarrow> queue_contents view q @ [x])"
  using push_back_cases [of x q res q'] by (cases res) (auto simp: queue_contents_def)

lemma pop_front_contents:
  assumes "pop_front R tenant q = (res, q')"
  shows "case queue_contents view q of
           [] \<Rightarrow> res = None \<and> q' = q
         | y # ys \<Rightarrow> res = Some y \<and> queue_contents view q' = ys \<and> limit (fast q') = limit (fast q)"
proof (cases "ring_pop R (fast q)")
  case None
  then have "view (fast q) = []" by (simp add: pop_None)
  with None assms show ?thesis
    by (cases "overflow q") (auto simp: pop_front_def queue_contents_def Let_def)
next
  case (Some p)
  obtain y r where p: "ring_pop R (fast q) = Some (y, r)" using Some by (cases p) auto
  from pop_Some [OF this] p assms show ?thesis
    by (auto simp: pop_front_def queue_contents_def Let_def)
qed

lemma drain_loop_contents:
  "drain_loop R tenant n q = (xs, q') \<Longrightarrow>
     xs = take n (queue_contents view q) \<and> queue_contents view q' = drop n (queue_contents view q) \<and> limit (fast q') = limit (fast q)"
proof (induction n arbitrary: q xs)
  case (Suc n)
  obtain res q1 where pop: "pop_front R tenant q = (res, q1)" by fastforce
  note front = pop_front_contents [OF pop]
  show ?case
  proof (cases "queue_contents view q")
    case Nil
    with front pop Suc.prems show ?thesis by (simp add: split: prod.splits)
  next
    case (Cons y ys)
    with front have res: "res = Some y" and ys: "queue_contents view q1 = ys" "limit (fast q1) = limit (fast q)" by auto
    obtain xs1 where "drain_loop R tenant n q1 = (xs1, q')" "xs = y # xs1"
      using Suc.prems pop res by (auto split: prod.splits)
    with Suc.IH [of q1 xs1] ys Cons show ?thesis by simp
  qed
qed simp

lemma drain_all_contents:
  "drain_all R tenant q = (xs, q') \<Longrightarrow>
     xs = queue_contents view q \<and> queue_contents view q' = [] \<and> limit (fast q') = limit (fast q)"
  using drain_loop_contents [of "queue_len R q" q xs q'] by (simp add: drain_all_def queue_len_contents)

lemma empty_ring_view:
  "view (empty_ring R n r) = drop n (view r) \<and> limit (empty_ring R n r) = limit r"
proof (induction n arbitrary: r)
  case (Suc n)
  show ?case
  proof (cases "ring_pop R r")
    case None
    then have "view r = []" by (simp add: pop_None)
    with None show ?thesis by simp
  next
    case (Some p)
    obtain y r1 where p: "ring_pop R r = Some (y, r1)" using Some by (cases p) auto
    from pop_Some [OF this] Suc.IH [of r1] p show ?thesis by simp
  qed
qed simp

end

section \<open>Runs\<close>

datatype 't queue_event =
    QPush 't | QPop | QDrain | QClear | QReclaim | QFallback | QPin | QUnpin
  | QObserve contention_sample

fun queue_step :: "('t, 'r) ring_ops \<Rightarrow> ('t \<Rightarrow> string option) \<Rightarrow> 't queue_event \<Rightarrow>
  ('t, 'r) request_queue \<Rightarrow> ('t, 'r) request_queue" where
  "queue_step R tenant (QPush x) q = snd (push_back R tenant x q)"
| "queue_step R tenant QPop q = snd (pop_front R tenant q)"
| "queue_step R tenant QDrain q = snd (drain_all R tenant q)"
| "queue_step R tenant QClear q = clear_queue R q"
| "queue_step R tenant QReclaim q = force_reclaim q"
| "queue_step R tenant QFallback q = force_safe_fallback q"
| "queue_step R tenant QPin q = pin_epoch q"
| "queue_step R tenant QUnpin q = drop_pin q"
| "queue_step R tenant (QObserve sample) q = snd (observe_contention_window sample q)"

definition queue_inv :: "('r \<Rightarrow> 't list) \<Rightarrow> ('r \<Rightarrow> usize) \<Rightarrow> ('t \<Rightarrow> string option) \<Rightarrow>
  ('t, 'r) request_queue \<Rightarrow> bool" where
  "queue_inv view limit tenant q \<longleftrightarrow>
     limit (fast q) = fast_capacity q \<and> length (view (fast q)) \<le> fast_capacity q \<and>
     length (overflow q) \<le> overflow_capacity q \<and>
     backlog_ok tenant (overflow q) (s3fifo q) \<and> epoch_inv q"

lemma queue_inv_cong:
  assumes "queue_inv view limit tenant q"
    and "fast q' = fast q" "overflow q' = overflow q" "fast_capacity q' = fast_capacity q"
    "overflow_capacity q' = overflow_capacity q" "s3fifo q' = s3fifo q" "epoch_inv q'"
  shows "queue_inv view limit tenant q'"
  using assms by (simp add: queue_inv_def)

lemma push_overflow_frame:
  assumes "push_overflow R tenant x q = (res, q')"
  shows "fast_capacity q' = fast_capacity q \<and> overflow_capacity q' = overflow_capacity q"
  using assms by (auto simp: push_overflow_def Let_def split: prod.splits if_splits)

lemma push_back_capacities:
  assumes "push_back R tenant x q = (res, q')"
  shows "fast_capacity q' = fast_capacity q \<and> overflow_capacity q' = overflow_capacity q"
  using assms push_overflow_frame [of R tenant x "q\<lparr>s3fifo := observe_signal (tenant x) (s3fifo q)\<rparr>" res q']
  by (auto simp: push_back_def Let_def split: option.splits if_splits)

text \<open>To the epochs, a push is a change of other fields, followed by a reclamation if it was accepted.\<close>

definition same_epochs :: "('t, 'r) request_queue \<Rightarrow> ('t, 'r) request_queue \<Rightarrow> bool" where
  "same_epochs q q' \<longleftrightarrow>
     current_epoch q' = current_epoch q \<and> retired q' = retired q \<and>
     reclamation_mode q' = reclamation_mode q \<and> backlog_threshold q' = backlog_threshold q \<and>
     active_epoch_pins q' = active_epoch_pins q \<and> reclaimed_total q' = reclaimed_total q"

lemma same_epochs_inv: "same_epochs q q' \<Longrightarrow> epoch_inv q \<Longrightarrow> epoch_inv q'"
  by (rule epoch_inv_cong [of q]) (simp_all add: same_epochs_def)

lemma push_overflow_form:
  assumes "push_overflow R tenant x q = (res, q')"
  shows "\<exists>q1. same_epochs q q1 \<and> (q' = q1 \<or> q' = note_depth R (try_reclaim (bump_epoch q1)))"
proof (cases "fst (allow_main_admission (tenant x) (s3fifo q)) \<and> length (overflow q) < overflow_capacity q")
  case True
  let ?a = "snd (allow_main_admission (tenant x) (s3fifo q))"
  let ?q1 = "q\<lparr>overflow := overflow q @ [x], overflow_enqueued_total := sat_add64 (overflow_enqueued_total q) 1,
               s3fifo := on_main_enqueued (tenant x) ?a\<rparr>"
  have "same_epochs q ?q1 \<and> q' = note_depth R (try_reclaim (bump_epoch ?q1))"
    using assms True by (auto simp: push_overflow_def Let_def same_epochs_def split: prod.splits)
  then show ?thesis by blast
next
  case False
  then have "same_epochs q q'"
    using assms by (auto simp: push_overflow_def Let_def same_epochs_def split: prod.splits if_splits)
  then show ?thesis by blast
qed

lemma push_back_form:
  assumes "push_back R tenant x q = (res, q')"
  shows "\<exists>q1. same_epochs q q1 \<and> (q' = q1 \<or> q' = note_depth R (try_reclaim (bump_epoch q1)))"
proof (cases "if overflow q = [] then ring_push R x (fast q) else None")
  case None
  let ?q = "q\<lparr>s3fifo := observe_signal (tenant x) (s3fifo q)\<rparr>"
  have o: "push_overflow R tenant x ?q = (res, q')" using assms None
    by (cases "overflow q = []") (simp_all add: push_back_def Let_def)
  have "same_epochs ?q q1 \<longleftrightarrow> same_epochs q q1" for q1 by (simp add: same_epochs_def)
  with push_overflow_form [OF o] show ?thesis by blast
next
  case (Some r)
  then have "overflow q = []" and r: "ring_push R x (fast q) = Some r" by (auto split: if_splits)
  let ?q1 = "q\<lparr>s3fifo := observe_signal (tenant x) (s3fifo q), fast := r\<rparr>"
  have "same_epochs q ?q1 \<and> q' = note_depth R (try_reclaim (bump_epoch ?q1))"
    using assms r \<open>overflow q = []\<close> by (auto simp: push_back_def Let_def same_epochs_def)
  then show ?thesis by blast
qed

lemma note_depth_epochs: "same_epochs q (note_depth R q)"
  by (simp add: same_epochs_def)

lemma push_back_epoch: "push_back R tenant x q = (res, q') \<Longrightarrow> epoch_inv q \<Longrightarrow> epoch_inv q'"
  using push_back_form [of R tenant x q res q'] same_epochs_inv reclaim_step_inv note_depth_epochs by metis

lemma pop_front_epoch:
  assumes "pop_front R tenant q = (res, q')" and "epoch_inv q"
  shows "epoch_inv q'"
proof -
  have step: "epoch_inv (try_reclaim (if reclamation_mode q1 = Ebr then retire_for_reclamation y (bump_epoch q1) else bump_epoch q1))"
    if "same_epochs q q1" for q1 y
  proof -
    note inv = same_epochs_inv [OF that assms(2)]
    show ?thesis
      using epoch_inv_wf [OF inv] epoch_wf_bump(1) [of q1] epoch_wf_retire [of q1 y]
      by (intro try_reclaim_epoch_inv) auto
  qed
  have same: "same_epochs q (q\<lparr>fast := r\<rparr>)" "same_epochs q (q\<lparr>overflow := w, s3fifo := a\<rparr>)" for r w a
    by (simp_all add: same_epochs_def)
  show ?thesis
  proof (cases "ring_pop R (fast q)")
    case None
    then show ?thesis
      using assms step [OF same(2)]
      by (cases "overflow q") (auto simp: pop_front_def Let_def)
  next
    case (Some p)
    then show ?thesis
      using assms(1) step [OF same(1)] by (cases p) (auto simp: pop_front_def Let_def)
  qed
qed

lemma drain_loop_epoch: "drain_loop R tenant n q = (xs, q') \<Longrightarrow> epoch_inv q \<Longrightarrow> epoch_inv q'"
proof (induction n arbitrary: q xs)
  case (Suc n)
  obtain res q1 where pop: "pop_front R tenant q = (res, q1)" by fastforce
  with pop_front_epoch [OF pop] Suc show ?case
    by (cases res) (auto split: prod.splits)
qed simp

lemma safe_fallback_epoch: "epoch_inv q \<Longrightarrow> epoch_inv (transition_to_safe_fallback q)"
  by (auto simp: transition_to_safe_fallback_def epoch_inv_def epoch_wf_def)

lemma clear_epoch: "epoch_inv q \<Longrightarrow> epoch_inv (clear_queue R q)"
  by (auto simp: clear_queue_def epoch_inv_def epoch_wf_def)

lemma queue_step_epoch: "epoch_inv q \<Longrightarrow> epoch_inv (queue_step R tenant e q)"
proof (cases e)
  case (QPush x)
  assume "epoch_inv q"
  with QPush show ?thesis
    using push_back_epoch [of R tenant x q "fst (push_back R tenant x q)" "snd (push_back R tenant x q)"] by simp
next
  case QPop
  assume "epoch_inv q"
  with QPop show ?thesis
    using pop_front_epoch [of R tenant q "fst (pop_front R tenant q)" "snd (pop_front R tenant q)"] by simp
next
  case QDrain
  assume "epoch_inv q"
  with QDrain show ?thesis
    using drain_loop_epoch [of R tenant "queue_len R q" q] by (metis drain_all_def prod.collapse queue_step.simps(3))
qed (auto simp: clear_epoch reclaim_step_inv force_reclaim_def force_safe_fallback_def safe_fallback_epoch
      observe_contention_window_def Let_def pin_epoch_def drop_pin_def case_prod_unfold
      intro: epoch_inv_cong)

lemma with_mode_epoch: "epoch_inv (with_mode R fc oc mode)"
  by (simp add: with_mode_def Let_def epoch_inv_def epoch_wf_def)

lemma push_overflow_backlog:
  assumes "push_overflow R tenant x q = (res, q')" and "backlog_ok tenant (overflow q) (s3fifo q)"
  shows "backlog_ok tenant (overflow q') (s3fifo q')"
proof -
  define a where "a = snd (allow_main_admission (tenant x) (s3fifo q))"
  have kept: "backlog_ok tenant (overflow q) a"
    unfolding a_def by (rule keeps_backlog_ok [OF allow_keeps assms(2)])
  show ?thesis
    using assms(1) kept enqueued_backlog [OF kept] keeps_backlog_ok [OF reject_keeps kept]
    by (auto simp: push_overflow_def Let_def a_def split: prod.splits if_splits)
qed

lemma push_back_backlog:
  assumes "push_back R tenant x q = (res, q')" and "backlog_ok tenant (overflow q) (s3fifo q)"
  shows "backlog_ok tenant (overflow q') (s3fifo q')"
proof -
  let ?q = "q\<lparr>s3fifo := observe_signal (tenant x) (s3fifo q)\<rparr>"
  have kept: "backlog_ok tenant (overflow q) (observe_signal (tenant x) (s3fifo q))"
    by (rule keeps_backlog_ok [OF observe_keeps assms(2)])
  then have "backlog_ok tenant (overflow q') (s3fifo q')" if "push_overflow R tenant x ?q = (res, q')"
    using push_overflow_backlog [OF that] by simp
  with kept assms(1) show ?thesis
    by (auto simp: push_back_def Let_def split: option.splits if_splits)
qed

lemma pop_front_backlog:
  assumes "pop_front R tenant q = (res, q')" and "backlog_ok tenant (overflow q) (s3fifo q)"
  shows "backlog_ok tenant (overflow q') (s3fifo q') \<and>
         fast_capacity q' = fast_capacity q \<and> overflow_capacity q' = overflow_capacity q \<and>
         length (overflow q') \<le> length (overflow q)"
proof (cases "ring_pop R (fast q)")
  case None
  show ?thesis
  proof (cases "overflow q")
    case Nil
    with None assms show ?thesis by (simp add: pop_front_def)
  next
    case (Cons y ys)
    with None assms dequeued_backlog [of tenant y ys "s3fifo q"] show ?thesis
      by (auto simp: pop_front_def Let_def)
  qed
next
  case (Some p)
  with assms show ?thesis by (cases p) (auto simp: pop_front_def Let_def)
qed

context hostcall_ring
begin

lemma push_back_inv:
  assumes "push_back R tenant x q = (res, q')" and "queue_inv view limit tenant q"
  shows "queue_inv view limit tenant q'"
  using push_back_cases [OF assms(1)] push_back_capacities [OF assms(1)] push_back_backlog [OF assms(1)]
    push_back_epoch [OF assms(1)] assms(2)
  by (cases res) (auto simp: queue_inv_def)

lemma pop_front_inv:
  assumes "pop_front R tenant q = (res, q')" and "queue_inv view limit tenant q"
  shows "queue_inv view limit tenant q' \<and> fast_capacity q' = fast_capacity q \<and>
         overflow_capacity q' = overflow_capacity q"
proof -
  have "length (view (fast q')) \<le> length (view (fast q)) \<and> limit (fast q') = limit (fast q)"
  proof (cases "ring_pop R (fast q)")
    case None
    with assms(1) show ?thesis by (cases "overflow q") (auto simp: pop_front_def Let_def)
  next
    case (Some p)
    obtain y r where "ring_pop R (fast q) = Some (y, r)" using Some by (cases p) auto
    with pop_Some [OF this] assms(1) show ?thesis by (auto simp: pop_front_def Let_def)
  qed
  then show ?thesis
    using pop_front_backlog [OF assms(1)] pop_front_epoch [OF assms(1)] assms(2)
    by (auto simp: queue_inv_def)
qed

lemma drain_loop_inv:
  "drain_loop R tenant n q = (xs, q') \<Longrightarrow> queue_inv view limit tenant q \<Longrightarrow>
     queue_inv view limit tenant q' \<and> fast_capacity q' = fast_capacity q \<and> overflow_capacity q' = overflow_capacity q"
proof (induction n arbitrary: q xs)
  case (Suc n)
  obtain res q1 where pop: "pop_front R tenant q = (res, q1)" by fastforce
  note inv = pop_front_inv [OF pop Suc.prems(2)]
  show ?case
  proof (cases res)
    case None
    with Suc.prems(1) pop inv show ?thesis by simp
  next
    case (Some y)
    obtain ys where "drain_loop R tenant n q1 = (ys, q')"
      using Suc.prems(1) pop Some by (auto split: prod.splits)
    from Suc.IH [OF this] inv show ?thesis by simp
  qed
qed simp

lemma clear_inv:
  assumes "queue_inv view limit tenant q"
  shows "queue_inv view limit tenant (clear_queue R q)"
  using assms clear_epoch [of q R] empty_ring_view [of "ring_len R (fast q)" "fast q"] admission_new_backlog
  by (simp add: queue_inv_def clear_queue_def len_view)

lemma queue_step_inv:
  assumes "queue_inv view limit tenant q"
  shows "queue_inv view limit tenant (queue_step R tenant e q) \<and>
         fast_capacity (queue_step R tenant e q) = fast_capacity q \<and>
         overflow_capacity (queue_step R tenant e q) = overflow_capacity q"
proof -
  have "epoch_inv q" using assms by (simp add: queue_inv_def)
  then have epoch: "epoch_inv (queue_step R tenant e q)" by (rule queue_step_epoch)
  show ?thesis
  proof (cases e)
    case (QPush x)
    obtain res q' where "push_back R tenant x q = (res, q')" by fastforce
    with QPush push_back_inv [OF this assms] push_back_capacities [OF this] show ?thesis by simp
  next
    case QPop
    obtain res q' where "pop_front R tenant q = (res, q')" by fastforce
    with QPop pop_front_inv [OF this assms] show ?thesis by simp
  next
    case QDrain
    obtain xs q' where "drain_loop R tenant (queue_len R q) q = (xs, q')" by fastforce
    with QDrain drain_loop_inv [OF this assms] show ?thesis by (simp add: drain_all_def)
  next
    case QClear
    with clear_inv [OF assms] show ?thesis by (simp add: clear_queue_def)
  qed (use queue_inv_cong [OF assms] epoch in \<open>auto simp: force_reclaim_def force_safe_fallback_def
        observe_contention_window_def pin_epoch_def drop_pin_def Let_def case_prod_unfold\<close>)
qed

lemma with_mode_inv: "queue_inv view limit tenant (with_mode R fc oc mode)"
  using with_mode_epoch [of R fc oc mode] admission_new_backlog
  by (simp add: queue_inv_def with_mode_def Let_def new_view new_limit)

end

sublocale hostcall_ring \<subseteq> machine: bounded_machine "queue_inv view limit tenant" "queue_step R tenant"
  "queue_len R" "\<lambda>q. fast_capacity q + overflow_capacity q"
proof
  fix q e
  assume inv: "queue_inv view limit tenant q"
  show "queue_inv view limit tenant (queue_step R tenant e q)" using queue_step_inv [OF inv] by blast
  show "queue_len R q \<le> fast_capacity q + overflow_capacity q"
    using inv by (simp add: queue_inv_def queue_len_def len_view add_mono)
  show "fast_capacity (queue_step R tenant e q) + overflow_capacity (queue_step R tenant e q) =
      fast_capacity q + overflow_capacity q"
    using queue_step_inv [OF inv, of e] by simp
qed

text \<open>Requests without tenants (the default of the trait) on the lanes of the reactor.\<close>

definition no_tenant :: "'t \<Rightarrow> string option" where
  "no_tenant x = None"

interpretation lane_queue: hostcall_ring lane_ring lane_queue lane_cap no_tenant
  by unfold_locales

section \<open>Properties\<close>

text \<open>The requests a run has accepted and those it has delivered, beside the queue.\<close>

fun queue_exec :: "('t, 'r) ring_ops \<Rightarrow> ('t \<Rightarrow> string option) \<Rightarrow> 't queue_event \<Rightarrow>
  't list \<times> 't list \<times> ('t, 'r) request_queue \<Rightarrow> 't list \<times> 't list \<times> ('t, 'r) request_queue" where
  "queue_exec R tenant (QPush x) (acc, out, q) =
     (case push_back R tenant x q of
        (Rejected _ _, q') \<Rightarrow> (acc, out, q')
      | (_, q') \<Rightarrow> (acc @ [x], out, q'))"
| "queue_exec R tenant QPop (acc, out, q) =
     (case pop_front R tenant q of
        (None, q') \<Rightarrow> (acc, out, q')
      | (Some x, q') \<Rightarrow> (acc, out @ [x], q'))"
| "queue_exec R tenant QDrain (acc, out, q) =
     (let (xs, q') = drain_all R tenant q in (acc, out @ xs, q'))"
| "queue_exec R tenant e (acc, out, q) = (acc, out, queue_step R tenant e q)"

context hostcall_ring
begin

lemma queue_run_inv:
  "queue_inv view limit tenant q \<Longrightarrow>
     queue_inv view limit tenant (fold (queue_step R tenant) es q) \<and>
     fast_capacity (fold (queue_step R tenant) es q) = fast_capacity q \<and>
     overflow_capacity (fold (queue_step R tenant) es q) = overflow_capacity q"
  by (induction es arbitrary: q) (auto simp: queue_step_inv)

lemma queue_exec_contents:
  assumes "queue_exec R tenant e (acc, out, q) = (acc', out', q')" and "e \<noteq> QClear"
    and "acc = out @ queue_contents view q"
  shows "acc' = out' @ queue_contents view q'"
proof (cases e)
  case (QPush x)
  obtain res q1 where push: "push_back R tenant x q = (res, q1)" by fastforce
  with push_back_contents [OF push] assms QPush show ?thesis by (cases res) auto
next
  case QPop
  obtain res q1 where pop: "pop_front R tenant q = (res, q1)" by fastforce
  with pop_front_contents [OF pop] assms QPop show ?thesis
    by (cases "queue_contents view q") auto
next
  case QDrain
  obtain xs q1 where drain: "drain_all R tenant q = (xs, q1)" by fastforce
  with drain_all_contents [OF drain] assms QDrain show ?thesis by auto
qed (use assms in \<open>auto simp: queue_contents_def force_reclaim_def force_safe_fallback_def
      observe_contention_window_def pin_epoch_def drop_pin_def Let_def case_prod_unfold\<close>)

lemma queue_run_contents:
  "fold (queue_exec R tenant) es (out @ queue_contents view q, out, q) = (acc', out', q') \<Longrightarrow>
     QClear \<notin> set es \<Longrightarrow> acc' = out' @ queue_contents view q'"
proof (induction es arbitrary: acc' out' q' rule: rev_induct)
  case (snoc e es)
  obtain acc1 out1 q1 where r: "fold (queue_exec R tenant) es (out @ queue_contents view q, out, q) = (acc1, out1, q1)"
    by (metis prod_cases3)
  with snoc.IH [OF r] snoc.prems queue_exec_contents [of e acc1 out1 q1 acc' out' q'] show ?case by auto
qed auto

end

text \<open>
  C13: The two lanes together are one first-in first-out queue. Over any run of pushes, pops, drains,
  reclamations, pins and mode changes, the requests that were accepted, in the order of their
  acceptance, are those that were delivered followed by those in the ring and then in the overflow:
  nothing is lost, duplicated or overtaken.
\<close>

theorem hostcall_queue_fifo:
  assumes "bounded_ring R view limit" and "QClear \<notin> set es"
    and "fold (queue_exec R tenant) es ([], [], with_mode R fast_cap overflow_cap mode) = (accepted, delivered, q)"
  shows "accepted = delivered @ view (fast q) @ overflow q"
proof -
  from assms(1) have ring: "hostcall_ring R view limit" by (simp add: hostcall_ring_def)
  have "queue_contents view (with_mode R fast_cap overflow_cap mode) = []"
    using bounded_ring.new_view [OF assms(1)] by (simp add: queue_contents_def with_mode_def Let_def)
  then show ?thesis
    using hostcall_ring.queue_run_contents [OF ring, of tenant es "[]" "with_mode R fast_cap overflow_cap mode"]
      assms(2,3)
    by (simp add: queue_contents_def)
qed

theorem hostcall_queue_fifo_witness:
  "\<exists>accepted delivered q.
     fold (queue_exec lane_ring no_tenant) [QPush (1::nat), QPush 2, QPop, QPush 3]
       ([], [], with_mode lane_ring 1 8 Ebr) = (accepted, delivered, q) \<and>
     accepted = delivered @ lane_queue (fast q) @ overflow q"
proof -
  obtain accepted delivered q where r:
    "fold (queue_exec lane_ring no_tenant) [QPush (1::nat), QPush 2, QPop, QPush 3]
       ([], [], with_mode lane_ring 1 8 Ebr) = (accepted, delivered, q)" by (metis prod_cases3)
  from hostcall_queue_fifo [OF lane.bounded_ring_axioms _ r] r show ?thesis by auto
qed

lemma allow_refuses:
  assumes "allow_main_admission key a = (False, a')"
  obtains t where "key = Some t" and "adm_mode a = AdmActive" and "tenant_budget (adm_config a) \<le> backlog_of t a"
    and "bt_get (adm_ghost_lookup a) t = None"
    and "a' = bump_rejections (record_ghost t (a\<lparr>fairness_rejected := sat_add64 (fairness_rejected a) 1,
           unstable_rejection_streak := sat_add64 (unstable_rejection_streak a) 1\<rparr>))"
  using assms
  by (auto simp: allow_main_admission_def consume_ghost_hit_def Let_def split: if_splits option.splits)

lemma backlog_of_tenant:
  "backlog_ok tenant xs a \<Longrightarrow> adm_mode a = AdmActive \<Longrightarrow> backlog_of t a = of_tenant tenant t xs"
  by (simp add: backlog_ok_def backlog_of_def)

lemma push_back_rejects:
  assumes "push_back R tenant x q = (Rejected n k, q')" and "backlog_ok tenant (overflow q) (s3fifo q)"
  shows "overflow_capacity q \<le> length (overflow q) \<or>
         adm_mode (s3fifo q) = AdmActive \<and>
         (\<exists>t. tenant x = Some t \<and> tenant_budget (adm_config (s3fifo q)) \<le> of_tenant tenant t (overflow q))"
proof -
  let ?a = "observe_signal (tenant x) (s3fifo q)"
  have push: "push_overflow R tenant x (q\<lparr>s3fifo := ?a\<rparr>) = (Rejected n k, q')"
    using assms(1) by (auto simp: push_back_def Let_def split: option.splits if_splits)
  show ?thesis
  proof (cases "fst (allow_main_admission (tenant x) ?a)")
    case True
    with push show ?thesis by (auto simp: push_overflow_def Let_def split: prod.splits if_splits)
  next
    case False
    then obtain b where "allow_main_admission (tenant x) ?a = (False, b)" by (metis (full_types) prod.collapse)
    then obtain t where t: "tenant x = Some t" "adm_mode ?a = AdmActive"
        "tenant_budget (adm_config ?a) \<le> backlog_of t ?a"
      by (rule allow_refuses)
    then show ?thesis
      using observe_keeps [of "s3fifo q" "tenant x"] backlog_of_tenant [OF assms(2), of t]
      by (auto simp: keeps_backlog_def backlog_of_def)
  qed
qed

text \<open>
  A request is placed and refused for exactly the stated reasons. The fast ring takes it if and only if
  the overflow is empty and the ring has room; otherwise it goes to the overflow or is rejected,
  a rejection changes neither lane, and it happens only when the overflow is full or when admission
  is active and the tenant has used up its budget of requests in the overflow. No lane ever
  exceeds its capacity.
\<close>

theorem push_back_outcome:
  assumes "bounded_ring R view limit"
    and "q = fold (queue_step R tenant) es (with_mode R fast_cap overflow_cap mode)"
    and "push_back R tenant x q = (res, q')"
  shows "length (view (fast q)) \<le> max fast_cap 1 \<and> length (overflow q) \<le> max overflow_cap 1 \<and>
         ((\<exists>n. res = FastPath n) \<longleftrightarrow> overflow q = [] \<and> length (view (fast q)) < max fast_cap 1) \<and>
         (\<forall>n k. res = Rejected n k \<longrightarrow>
            view (fast q') @ overflow q' = view (fast q) @ overflow q \<and>
            (length (overflow q) = max overflow_cap 1 \<or>
             adm_mode (s3fifo q) = AdmActive \<and>
             (\<exists>t. tenant x = Some t \<and> tenant_budget (adm_config (s3fifo q)) \<le> of_tenant tenant t (overflow q))))"
proof -
  from assms(1) have ring: "hostcall_ring R view limit" by (simp add: hostcall_ring_def)
  let ?n = "with_mode R fast_cap overflow_cap mode"
  have inv: "queue_inv view limit tenant q" and caps: "fast_capacity q = max fast_cap 1" "overflow_capacity q = max overflow_cap 1"
    using hostcall_ring.queue_run_inv [OF ring, of tenant ?n es] hostcall_ring.with_mode_inv [OF ring, of tenant]
    by (simp_all add: assms(2) with_mode_def Let_def)
  then have backlog: "backlog_ok tenant (overflow q) (s3fifo q)" by (simp add: queue_inv_def)
  note cases = hostcall_ring.push_back_cases [OF ring assms(3)]
  have "(\<exists>n. res = FastPath n) \<longleftrightarrow> overflow q = [] \<and> length (view (fast q)) < max fast_cap 1"
    using cases inv caps by (cases res) (auto simp: queue_inv_def)
  moreover have "\<forall>n k. res = Rejected n k \<longrightarrow>
      view (fast q') @ overflow q' = view (fast q) @ overflow q \<and>
      (length (overflow q) = max overflow_cap 1 \<or>
       adm_mode (s3fifo q) = AdmActive \<and>
       (\<exists>t. tenant x = Some t \<and> tenant_budget (adm_config (s3fifo q)) \<le> of_tenant tenant t (overflow q)))"
  proof (intro allI impI)
    fix n k assume res: "res = Rejected n k"
    from push_back_rejects [OF assms(3) [unfolded res] backlog] cases inv caps
    show "view (fast q') @ overflow q' = view (fast q) @ overflow q \<and>
      (length (overflow q) = max overflow_cap 1 \<or>
       adm_mode (s3fifo q) = AdmActive \<and>
       (\<exists>t. tenant x = Some t \<and> tenant_budget (adm_config (s3fifo q)) \<le> of_tenant tenant t (overflow q)))"
      unfolding res by (auto simp: queue_inv_def)
  qed
  ultimately show ?thesis using inv caps by (simp add: queue_inv_def)
qed

theorem push_back_outcome_witness:
  "\<exists>res q'. push_back lane_ring no_tenant (7::nat) (with_mode lane_ring 4 8 SafeFallback) = (res, q') \<and>
     (\<exists>n. res = FastPath n)"
proof -
  let ?q = "with_mode lane_ring 4 8 SafeFallback :: (nat, nat spsc_lane) request_queue"
  obtain res q' where p: "push_back lane_ring no_tenant 7 ?q = (res, q')" by fastforce
  have "?q = fold (queue_step lane_ring no_tenant) [] ?q" by simp
  from push_back_outcome [OF lane.bounded_ring_axioms this p] p show ?thesis
    by (auto simp: with_mode_def Let_def lane_ring_def lane_new_def)
qed

text \<open>
  The tenant budget delays but does not stop. In any run of the admission, a tenant that has
  just been refused for its budget (without this refusal disabling the admission) is admitted at
  its next request: the refusal leaves a ghost of the tenant, which is the newest and so survives
  the trimming, and a ghost hit overrides the budget. The ghost list stays within its capacity.
\<close>

theorem refused_tenant_gets_second_chance:
  assumes "a = fold adm_step es (admission_new config)" and "1 \<le> adm_ghost_capacity config" and "t \<noteq> []"
    and "allow_main_admission (Some t) a = (False, a')" and "adm_mode a' = AdmActive"
  shows "fst (allow_main_admission (Some t) a') \<and>
         adm_mode (snd (allow_main_admission (Some t) a')) = AdmActive \<and>
         unstable_rejection_streak (snd (allow_main_admission (Some t) a')) = 0 \<and>
         bt_len (adm_ghost_lookup a') \<le> adm_ghost_capacity config"
proof -
  have inv: "adm_ghosts_ok a" unfolding assms(1) by (rule adm.inv_run [OF admission_new_ghosts])
  have config: "adm_ghost_capacity (adm_config a) = adm_ghost_capacity config"
    using adm.capacity_run [OF admission_new_ghosts, of es config] by (simp add: assms(1) admission_new_def)
  obtain b where active: "adm_mode a = AdmActive" and over: "tenant_budget (adm_config a) \<le> backlog_of t a"
    and b: "b = a\<lparr>fairness_rejected := sat_add64 (fairness_rejected a) 1,
           unstable_rejection_streak := sat_add64 (unstable_rejection_streak a) 1\<rparr>"
    and a': "a' = bump_rejections (record_ghost t b)"
    using assms(4) by (rule allow_refuses) auto
  have "adm_ghosts_ok b" by (rule adm_ghosts_cong [OF inv]) (simp_all add: b)
  then have ghost: "bt_get (adm_ghost_lookup (record_ghost t b)) t \<noteq> None"
    using record_ghost_ok(2) [of b t] assms(2,3) config by (simp add: b)
  have same: "a' = record_ghost t b"
    using assms(5) active by (auto simp: a' bump_rejections_def transition_to_fallback_def b split: if_splits)
  have "tenant_budget (adm_config a') \<le> backlog_of t a'"
    using over by (simp add: same b backlog_of_def)
  moreover have "adm_ghosts_ok a'"
    using adm.inv_step [OF inv, of "Admit (Some t)"] assms(4) by simp
  ultimately show ?thesis
    using ghost assms(5) config
    by (auto simp: allow_main_admission_def consume_ghost_hit_def adm_ghosts_ok_def same b)
qed

lemma queue_run_epoch: "epoch_inv q \<Longrightarrow> epoch_inv (fold (queue_step R tenant) es q)"
  by (induction es arbitrary: q) (auto simp: queue_step_epoch)

definition keeps_retired :: "('t, 'r) request_queue \<Rightarrow> ('t, 'r) request_queue \<Rightarrow> bool" where
  "keeps_retired q q' \<longleftrightarrow>
     reclaimed_total q' = reclaimed_total q \<and>
     (if reclamation_mode q' = reclamation_mode q then \<exists>new. retired q' = retired q @ new
      else backlog_threshold q \<le> length (retired q))"

lemma reclaim_pinned:
  assumes "0 < active_epoch_pins q"
  shows "reclaimed_total (try_reclaim q) = reclaimed_total q \<and>
         (if reclamation_mode (try_reclaim q) = reclamation_mode q then retired (try_reclaim q) = retired q
          else backlog_threshold q < length (retired q))"
  using assms by (auto simp: try_reclaim_def transition_to_safe_fallback_def Let_def split: list.splits)

lemma pop_front_pinned:
  assumes "pop_front R tenant q = (res, q')" and "0 < active_epoch_pins q"
  shows "keeps_retired q q'"
proof -
  have step: "keeps_retired q (try_reclaim (if reclamation_mode q1 = Ebr then retire_for_reclamation y (bump_epoch q1) else bump_epoch q1))"
    if "same_epochs q q1" for q1 y
    using that assms(2) reclaim_pinned [of "bump_epoch q1"] reclaim_pinned [of "retire_for_reclamation y (bump_epoch q1)"]
    by (auto simp: keeps_retired_def same_epochs_def retire_for_reclamation_def split: if_splits)
  have same: "same_epochs q (q\<lparr>fast := r\<rparr>)" "same_epochs q (q\<lparr>overflow := w, s3fifo := a\<rparr>)" for r w a
    by (simp_all add: same_epochs_def)
  show ?thesis
  proof (cases "ring_pop R (fast q)")
    case None
    then show ?thesis
      using assms(1) step [OF same(2)] by (cases "overflow q") (auto simp: pop_front_def Let_def keeps_retired_def)
  next
    case (Some p)
    then show ?thesis
      using assms(1) step [OF same(1)] by (cases p) (auto simp: pop_front_def Let_def)
  qed
qed

text \<open>The equations that run the queue on concrete states.\<close>

lemmas queue_run = with_mode_def Let_def lane_ring_def lane_new_def lane_push_def lane_pop_def lane_len_def
  push_back_def push_overflow_def pop_front_def note_depth_def queue_len_def bump_epoch_def try_reclaim_def
  retire_for_reclamation_def pin_epoch_def drop_pin_def observe_signal_def admission_new_def
  from_capacities_def no_tenant_def allow_main_admission_def on_main_enqueued_def on_main_dequeued_def
  sat_add64_def u64_max_def

theorem refused_tenant_gets_second_chance_witness:
  "\<exists>a'. allow_main_admission (Some ''t'') (fold adm_step [Enqueued (Some ''t'')] (admission_new (from_capacities 1 2))) = (False, a') \<and>
     adm_mode a' = AdmActive \<and> fst (allow_main_admission (Some ''t'') a')"
proof -
  let ?a = "fold adm_step [Enqueued (Some ''t'')] (admission_new (from_capacities 1 2))"
  obtain r a' where p: "allow_main_admission (Some ''t'') ?a = (r, a')" by fastforce
  have f: "\<not> fst (allow_main_admission (Some ''t'') ?a)" "adm_mode (snd (allow_main_admission (Some ''t'') ?a)) = AdmActive"
    by (simp_all add: allow_main_admission_def consume_ghost_hit_def on_main_enqueued_def admission_new_def
        from_capacities_def backlog_of_def bt_empty_def bump_rejections_def record_ghost_def Let_def
        sat_add64_def u64_max_def trim_ghosts.simps bt_len_def)
  with p have "r = False" "adm_mode a' = AdmActive" by auto
  moreover have "1 \<le> adm_ghost_capacity (from_capacities 1 2)" by (simp add: from_capacities_def)
  ultimately show ?thesis
    using refused_tenant_gets_second_chance [OF refl, of "from_capacities 1 2" "''t''" "[Enqueued (Some ''t'')]" a'] p by auto
qed

text \<open>
  Epoch-based reclamation is safe and bounded. In every reachable queue the retired nodes are none
  in the safe fallback and, until the epoch counter saturates, at most the configured backlog
  threshold; and while an epoch is pinned, a push, a pop or a reclamation reclaims nothing: the
  retired nodes stay, in order, unless the backlog exceeded its threshold and the queue gave up
  retirement altogether.
\<close>

theorem retired_nodes_safe_and_bounded:
  assumes "q = fold (queue_step R tenant) es (with_mode R fast_cap overflow_cap mode)"
    and "e \<in> {QPush x, QPop, QReclaim}" and "q' = queue_step R tenant e q" and "0 < active_epoch_pins q"
  shows "(reclamation_mode q = SafeFallback \<longrightarrow> retired q = []) \<and>
         (current_epoch q < u64_max \<longrightarrow> length (retired q) \<le> backlog_threshold q) \<and>
         (reclamation_mode q' = reclamation_mode q \<longrightarrow>
            reclaimed_total q' = reclaimed_total q \<and> (\<exists>new. retired q' = retired q @ new)) \<and>
         (reclamation_mode q' \<noteq> reclamation_mode q \<longrightarrow> backlog_threshold q \<le> length (retired q))"
proof -
  have "epoch_inv q" unfolding assms(1) by (rule queue_run_epoch [OF with_mode_epoch])
  moreover have "keeps_retired q q'"
    using assms(2)
  proof (elim insertE emptyE)
    assume e: "e = QPush x"
    then obtain res where "push_back R tenant x q = (res, q')" using assms(3) by (metis prod.collapse queue_step.simps(1))
    from push_back_form [OF this] obtain q1 where "same_epochs q q1"
      "q' = q1 \<or> q' = note_depth R (try_reclaim (bump_epoch q1))" by blast
    then show ?thesis using reclaim_pinned [of "bump_epoch q1"] assms(4)
      by (auto simp: keeps_retired_def same_epochs_def split: if_splits)
  next
    assume e: "e = QPop"
    then obtain res where "pop_front R tenant q = (res, q')" using assms(3) by (metis prod.collapse queue_step.simps(2))
    then show ?thesis using assms(4) by (rule pop_front_pinned)
  next
    assume e: "e = QReclaim"
    then show ?thesis using reclaim_pinned [of "bump_epoch q"] assms(3,4)
      by (auto simp: keeps_retired_def force_reclaim_def split: if_splits)
  qed
  ultimately show ?thesis by (auto simp: epoch_inv_def epoch_wf_def keeps_retired_def)
qed

theorem retired_nodes_safe_and_bounded_witness:
  "\<exists>q q'. q = fold (queue_step lane_ring no_tenant) [QPush (1::nat), QPush 2, QPin, QPop] (with_mode lane_ring 4 8 Ebr) \<and>
     q' = queue_step lane_ring no_tenant QPop q \<and> 0 < active_epoch_pins q \<and>
     length (retired q) = 1 \<and>
     (reclamation_mode q' = reclamation_mode q \<longrightarrow> (\<exists>new. retired q' = retired q @ new))"
proof -
  let ?q = "fold (queue_step lane_ring no_tenant) [QPush (1::nat), QPush 2, QPin, QPop] (with_mode lane_ring 4 8 Ebr)"
  have q: "0 < active_epoch_pins ?q" "length (retired ?q) = 1"
    by (simp_all add: queue_run)
  from retired_nodes_safe_and_bounded [OF refl _ refl q(1), of QPop 1] q show ?thesis by auto
qed

end
