(* ===== verification/Utf8.thy ===== *)
theory Utf8
  imports Prelude
begin

text \<open>
  Text as its UTF-8 bytes, the way the code addresses it: the validation of the standard library,
  the boundaries between characters, and the facts about prefixes and suffixes that the stream
  decoder and the truncation of tool output rest on.
\<close>

type_synonym bytes = "nat list"

section \<open>UTF-8 validation\<close>

text \<open>
  \<open>std::str::from_utf8\<close> as the standard library documents it: the length of the longest valid
  prefix and, unless the input merely ends inside a character, how many bytes the invalid
  sequence has.
\<close>

datatype utf8_head = Whole nat | Broken nat | Cut

definition is_cont :: "nat \<Rightarrow> bool" where
  "is_cont b = (128 \<le> b \<and> b \<le> 191)"

definition second_ok :: "nat \<Rightarrow> nat \<Rightarrow> bool" where
  "second_ok b c =
     (if b = 224 then 160 \<le> c \<and> c \<le> 191
      else if b = 237 then 128 \<le> c \<and> c \<le> 159
      else if b = 240 then 144 \<le> c \<and> c \<le> 191
      else if b = 244 then 128 \<le> c \<and> c \<le> 143
      else is_cont c)"

fun cont_bytes :: "nat \<Rightarrow> nat \<Rightarrow> bytes \<Rightarrow> utf8_head" where
  "cont_bytes 0 seen bs = Whole seen"
| "cont_bytes (Suc n) seen [] = Cut"
| "cont_bytes (Suc n) seen (b # bs) = (if is_cont b then cont_bytes n (Suc seen) bs else Broken seen)"

definition utf8_head :: "nat \<Rightarrow> bytes \<Rightarrow> utf8_head" where
  "utf8_head b bs =
     (let width = (if b < 128 then 1 else if 194 \<le> b \<and> b \<le> 223 then 2
                   else if 224 \<le> b \<and> b \<le> 239 then 3 else if 240 \<le> b \<and> b \<le> 244 then 4 else 0)
      in if width = 0 then Broken 1
         else if width = 1 then Whole 1
         else case bs of [] \<Rightarrow> Cut | c # cs \<Rightarrow> if second_ok b c then cont_bytes (width - 2) 2 cs else Broken 1)"

lemma cont_bytes_bounds:
  "cont_bytes n seen bs = Whole w \<Longrightarrow> w = seen + n \<and> n \<le> length bs"
  "cont_bytes n seen bs = Broken k \<Longrightarrow> seen \<le> k \<and> k < seen + n \<and> k \<le> seen + length bs"
  by (induction n seen bs rule: cont_bytes.induct) (auto split: if_splits)

lemma utf8_head_whole: "utf8_head b bs = Whole w \<Longrightarrow> 0 < w \<and> w \<le> Suc (length bs)"
  by (auto simp: utf8_head_def Let_def split: if_splits list.splits dest: cont_bytes_bounds(1))

lemma utf8_head_broken: "utf8_head b bs = Broken k \<Longrightarrow> 0 < k \<and> k \<le> Suc (length bs)"
  by (auto simp: utf8_head_def Let_def split: if_splits list.splits dest: cont_bytes_bounds(2))

function from_utf8 :: "bytes \<Rightarrow> (nat \<times> nat option) option" where
  "from_utf8 [] = None"
| "from_utf8 (b # bs) =
     (case utf8_head b bs of
        Whole w \<Rightarrow> map_option (\<lambda>(valid, bad). (w + valid, bad)) (from_utf8 (drop w (b # bs)))
      | Broken k \<Rightarrow> Some (0, Some k)
      | Cut \<Rightarrow> Some (0, None))"
  by pat_completeness auto
termination
  by (relation "measure length") (auto dest: utf8_head_whole)

declare from_utf8.simps(2) [simp del]

lemma from_utf8_bounds:
  "from_utf8 bs = Some (v, bad) \<Longrightarrow> v \<le> length bs \<and> (case bad of None \<Rightarrow> v < length bs | Some k \<Rightarrow> 0 < k \<and> v + k \<le> length bs)"
proof (induction bs arbitrary: v rule: from_utf8.induct)
  case (2 b bs)
  show ?case
  proof (cases "utf8_head b bs")
    case (Whole w)
    then obtain v' where v: "from_utf8 (drop w (b # bs)) = Some (v', bad)" "v = w + v'"
      using 2(2) by (auto simp: from_utf8.simps(2))
    show ?thesis using 2(1) [OF Whole v(1)] utf8_head_whole [OF Whole] v(2) by (auto split: option.splits)
  next
    case (Broken k)
    then show ?thesis using 2(2) utf8_head_broken [OF Broken] by (auto simp: from_utf8.simps(2))
  next
    case Cut
    then show ?thesis using 2(2) by (auto simp: from_utf8.simps(2))
  qed
qed simp

definition utf8_valid :: "bytes \<Rightarrow> bool" where
  "utf8_valid bs \<longleftrightarrow> from_utf8 bs = None"

definition valid_up_to :: "bytes \<Rightarrow> nat" where
  "valid_up_to bs = (case from_utf8 bs of None \<Rightarrow> length bs | Some (v, bad) \<Rightarrow> v)"

text \<open>A prefix of valid text is valid, or valid up to a character that is cut.\<close>

lemma cont_bytes_prefix:
  "cont_bytes n seen (a @ b) = Whole w \<Longrightarrow> cont_bytes n seen a = Whole w \<or> cont_bytes n seen a = Cut"
  by (induction n seen a rule: cont_bytes.induct) (auto split: if_splits)

lemma utf8_head_prefix:
  "utf8_head x (a @ b) = Whole w \<Longrightarrow> utf8_head x a = Whole w \<or> utf8_head x a = Cut"
  using cont_bytes_prefix by (cases a) (auto simp: utf8_head_def Let_def split: if_splits list.splits)

lemma valid_prefix:
  "utf8_valid (a @ b) \<Longrightarrow>
   (case from_utf8 a of None \<Rightarrow> True | Some (v, bad) \<Rightarrow> bad = None) \<and> utf8_valid (drop (valid_up_to a) a @ b)"
proof (induction a rule: from_utf8.induct)
  case 1
  then show ?case by (simp add: valid_up_to_def)
next
  case (2 x xs)
  obtain w where w: "utf8_head x (xs @ b) = Whole w"
    using "2.prems" by (auto simp: utf8_valid_def from_utf8.simps(2) split: utf8_head.splits)
  show ?case
  proof (cases "utf8_head x xs = Whole w")
    case True
    have le: "w \<le> length (x # xs)" using utf8_head_whole [OF True] by simp
    have "drop w (x # xs @ b) = drop w (x # xs) @ b" using le drop_append [of w "x # xs" b] by simp
    then have "utf8_valid (drop w (x # xs) @ b)"
      using "2.prems" w by (auto simp: utf8_valid_def from_utf8.simps(2))
    note IH = "2.IH" [OF True this]
    have "valid_up_to (x # xs) = w + valid_up_to (drop w (x # xs))"
      using True le by (auto simp: valid_up_to_def from_utf8.simps(2) split: option.splits)
    then show ?thesis
      using IH True by (auto simp: from_utf8.simps(2) add.commute split: option.splits)
  next
    case False
    then have "utf8_head x xs = Cut" using utf8_head_prefix [OF w] by blast
    then show ?thesis using "2.prems" by (simp add: from_utf8.simps(2) valid_up_to_def)
  qed
qed

lemma cont_bytes_extend: "cont_bytes n seen a = Whole w \<Longrightarrow> cont_bytes n seen (take k a) = Whole w" if "n \<le> k"
  using that by (induction n seen a arbitrary: k rule: cont_bytes.induct)
    (auto split: if_splits simp: take_Cons' dest: cont_bytes_bounds(1))

lemma utf8_head_extend:
  assumes "utf8_head x a = Whole w" and "w \<le> Suc k"
  shows "utf8_head x (take k a) = Whole w"
proof (cases a)
  case (Cons c cs)
  show ?thesis
  proof (cases k)
    case 0
    then show ?thesis
      using assms Cons by (auto simp: utf8_head_def Let_def split: if_splits dest: cont_bytes_bounds(1))
  next
    case (Suc j)
    then show ?thesis
      using assms Cons
      by (auto simp: utf8_head_def Let_def split: if_splits intro!: cont_bytes_extend dest: cont_bytes_bounds(1))
  qed
qed (use assms in simp)

lemma take_valid: "utf8_valid (take (valid_up_to a) a)"
proof (induction a rule: from_utf8.induct)
  case (2 x xs)
  show ?case
  proof (cases "utf8_head x xs")
    case (Whole w)
    define v where "v = valid_up_to (drop w (x # xs))"
    have le: "0 < w" "w \<le> length (x # xs)" using utf8_head_whole [OF Whole] by simp_all
    have v: "valid_up_to (x # xs) = w + v"
      using Whole le by (auto simp: valid_up_to_def v_def from_utf8.simps(2) split: option.splits)
    have hd: "utf8_head x (take (w + v - 1) xs) = Whole w"
      by (rule utf8_head_extend [OF Whole]) simp
    have tk: "take (w + v) (x # xs) = x # take (w + v - 1) xs" using le(1) by (cases "w + v") auto
    have "drop w (x # take (w + v - 1) xs) = take v (drop w (x # xs))"
      using tk [symmetric] by (simp add: drop_take)
    then show ?thesis
      using "2.IH" [OF Whole] hd v tk by (simp add: utf8_valid_def from_utf8.simps(2) v_def)
  qed (simp_all add: valid_up_to_def from_utf8.simps(2) utf8_valid_def)
qed (simp add: utf8_valid_def)

lemma valid_up_to_rest: "valid_up_to (drop (valid_up_to a) a) = 0"
proof (induction a rule: from_utf8.induct)
  case (2 x xs)
  show ?case
  proof (cases "utf8_head x xs")
    case (Whole w)
    have "valid_up_to (x # xs) = w + valid_up_to (drop w (x # xs))"
      using Whole utf8_head_whole [OF Whole]
      by (auto simp: valid_up_to_def from_utf8.simps(2) split: option.splits)
    then show ?thesis using "2.IH" [OF Whole] by (simp add: add.commute)
  qed (simp_all add: valid_up_to_def from_utf8.simps(2))
qed (simp add: valid_up_to_def)

lemma valid_nothing_cut: "utf8_valid u \<Longrightarrow> valid_up_to u = 0 \<Longrightarrow> u = []"
  by (simp add: utf8_valid_def valid_up_to_def)

lemma ascii_valid: "\<forall>b \<in> set bs. b < 128 \<Longrightarrow> utf8_valid bs"
  by (induction bs) (simp_all add: utf8_valid_def from_utf8.simps(2) utf8_head_def)

section \<open>Character boundaries\<close>

text \<open>\<open>str::is_char_boundary\<close>: the two ends, and every byte that does not continue a character.\<close>

definition is_char_boundary :: "bytes \<Rightarrow> nat \<Rightarrow> bool" where
  "is_char_boundary s i \<longleftrightarrow> i = 0 \<or> i = length s \<or> i < length s \<and> \<not> is_cont (s ! i)"

definition utf8_char :: "bytes \<Rightarrow> bool" where
  "utf8_char c \<longleftrightarrow> (case c of [] \<Rightarrow> False | b # bs \<Rightarrow>
     utf8_head b bs = Whole (length c) \<and> \<not> is_cont b \<and> (\<forall>x \<in> set bs. is_cont x) \<and> (b < 128 \<longrightarrow> bs = []))"

lemma cont_bytes_all:
  assumes "cont_bytes n seen bs = Whole w"
  shows "\<forall>x \<in> set (take (w - seen) bs). is_cont x"
proof -
  have "cont_bytes n seen bs = Whole w \<Longrightarrow> \<forall>x \<in> set (take n bs). is_cont x"
    by (induction n seen bs rule: cont_bytes.induct) (auto split: if_splits)
  then show ?thesis using assms cont_bytes_bounds(1) [OF assms] by simp
qed

lemma second_ok_cont: "second_ok b c \<Longrightarrow> is_cont c"
  by (auto simp: second_ok_def is_cont_def split: if_splits)

lemma utf8_head_char:
  assumes "utf8_head b bs = Whole w"
  shows "utf8_char (take w (b # bs))"
proof -
  have w: "0 < w" "w \<le> Suc (length bs)" using utf8_head_whole [OF assms] by simp_all
  then obtain k where k: "w = Suc k" by (cases w) auto
  have hd: "utf8_head b (take k bs) = Whole w" using utf8_head_extend [OF assms] k by simp
  have lead: "\<not> is_cont b" using assms by (auto simp: utf8_head_def Let_def is_cont_def split: if_splits)
  have small: "b < 128 \<longrightarrow> k = 0" using assms k by (auto simp: utf8_head_def)
  have "\<forall>x \<in> set (take k bs). is_cont x"
  proof (cases bs)
    case (Cons c cs)
    show ?thesis
    proof (cases k)
      case (Suc j)
      then show ?thesis
        using assms k Cons second_ok_cont
        by (auto simp: utf8_head_def Let_def split: if_splits dest: cont_bytes_all)
    qed simp
  qed simp
  then show ?thesis using hd lead small k w by (simp add: utf8_char_def)
qed

lemma utf8_valid_Nil [simp]: "utf8_valid []"
  by (simp add: utf8_valid_def)

lemma utf8_head_append: "utf8_head b bs = Whole (Suc (length bs)) \<Longrightarrow> utf8_head b (bs @ r) = Whole (Suc (length bs))"
proof -
  have cont: "cont_bytes n seen bs = Whole w \<Longrightarrow> cont_bytes n seen (bs @ r) = Whole w" for n seen w bs
    by (induction n seen bs rule: cont_bytes.induct) (auto split: if_splits)
  show "utf8_head b bs = Whole (Suc (length bs)) \<Longrightarrow> ?thesis"
    by (cases bs) (auto simp: utf8_head_def Let_def split: if_splits intro: cont)
qed

lemma utf8_valid_char: "utf8_char c \<Longrightarrow> utf8_valid (c @ r) \<longleftrightarrow> utf8_valid r"
  using utf8_head_append [of "hd c" "tl c" r]
  by (auto simp: utf8_char_def utf8_valid_def from_utf8.simps(2) split: list.splits)

lemma utf8_valid_cases:
  assumes "utf8_valid s"
  obtains "s = []" | c r where "s = c @ r" and "utf8_char c" and "utf8_valid r"
proof (cases s)
  case (Cons b bs)
  then obtain w where w: "utf8_head b bs = Whole w"
    using assms by (auto simp: utf8_valid_def from_utf8.simps(2) split: utf8_head.splits)
  note c = utf8_head_char [OF w]
  have split: "s = take w (b # bs) @ drop w (b # bs)" using Cons by simp
  moreover have "utf8_valid (drop w (b # bs))" using assms utf8_valid_char [OF c] split by metis
  ultimately show ?thesis using c that(2) by metis
qed (use that in simp)

lemma utf8_valid_induct [consumes 1, case_names Empty Char]:
  assumes "utf8_valid s" and "P []" and "\<And>c r. utf8_char c \<Longrightarrow> utf8_valid r \<Longrightarrow> P r \<Longrightarrow> P (c @ r)"
  shows "P s"
  using assms(1)
proof (induction s rule: length_induct)
  case (1 s)
  show ?case using "1.prems"
  proof (cases rule: utf8_valid_cases)
    case (2 c r)
    have "length r < length s" using 2 by (cases c) (auto simp: utf8_char_def)
    then show ?thesis using "1.IH" 2 assms(3) by blast
  qed (simp add: assms(2))
qed

lemma char_inner:
  assumes "utf8_char c" and "is_char_boundary (c @ r) i" and "0 < i"
  shows "length c \<le> i \<and> is_char_boundary r (i - length c)"
proof -
  obtain b bs where c: "c = b # bs" using assms(1) by (cases c) (auto simp: utf8_char_def)
  have cont: "\<forall>x \<in> set bs. is_cont x" using assms(1) c by (simp add: utf8_char_def)
  have "is_cont ((c @ r) ! i)" if i: "i < length c"
  proof -
    obtain k where "i = Suc k" using assms(3) gr0_conv_Suc by blast
    then show ?thesis using i c cont by (simp add: nth_append)
  qed
  then have "\<not> i < length c" using assms(2,3) unfolding is_char_boundary_def by fastforce
  then show ?thesis using assms(2) by (auto simp: is_char_boundary_def nth_append)
qed

lemma boundary_valid:
  "utf8_valid s \<Longrightarrow> is_char_boundary s i \<Longrightarrow> utf8_valid (take i s) \<and> utf8_valid (drop i s)"
proof (induction s arbitrary: i rule: utf8_valid_induct)
  case (Char c r)
  show ?case
  proof (cases "i = 0")
    case False
    then have i: "length c \<le> i" "is_char_boundary r (i - length c)"
      using char_inner [OF Char(1) Char(4)] by simp_all
    then show ?thesis using Char(3) [OF i(2)] utf8_valid_char [OF Char(1)] by simp
  qed (use Char utf8_valid_char in simp)
qed simp

lemma valid_first: "utf8_valid r \<Longrightarrow> r = [] \<or> \<not> is_cont (r ! 0)"
  by (erule utf8_valid_cases) (auto simp: utf8_char_def split: list.splits)

lemma boundary_shift: "utf8_valid r \<Longrightarrow> is_char_boundary r j \<Longrightarrow> is_char_boundary (p @ r) (length p + j)"
  using valid_first [of r] by (auto simp: is_char_boundary_def nth_append)

lemma boundary_unshift: "is_char_boundary (p @ r) m \<Longrightarrow> length p \<le> m \<Longrightarrow> is_char_boundary r (m - length p)"
  by (auto simp: is_char_boundary_def nth_append)

lemma utf8_valid_append: "utf8_valid s \<Longrightarrow> utf8_valid t \<Longrightarrow> utf8_valid (s @ t)"
  by (induction s rule: utf8_valid_induct) (simp_all add: utf8_valid_char)

text \<open>In valid text an ASCII byte is a character, so that both its sides are boundaries.\<close>

lemma ascii_boundary:
  "utf8_valid s \<Longrightarrow> i < length s \<Longrightarrow> s ! i < 128 \<Longrightarrow> is_char_boundary s i \<and> is_char_boundary s (Suc i)"
proof (induction s arbitrary: i rule: utf8_valid_induct)
  case (Char c r)
  obtain b bs where c: "c = b # bs" using Char(1) by (cases c) (auto simp: utf8_char_def)
  note head = valid_first [OF Char(2)]
  show ?case
  proof (cases "i < length c")
    case True
    have "i = 0 \<and> bs = []"
    proof (cases i)
      case (Suc k)
      then have "is_cont (bs ! k)" using Char(1) True c by (simp add: utf8_char_def)
      then show ?thesis using Char(5) True Suc c by (simp add: is_cont_def nth_append)
    qed (use Char(1,5) c in \<open>simp add: utf8_char_def\<close>)
    then show ?thesis using c head by (auto simp: is_char_boundary_def)
  next
    case False
    have sub: "is_char_boundary r (i - length c) \<and> is_char_boundary r (Suc (i - length c))"
      using Char(3) [of "i - length c"] Char(4,5) False by (simp add: nth_append)
    then show ?thesis
      using boundary_shift [OF Char(2), of "i - length c" c] boundary_shift [OF Char(2), of "Suc (i - length c)" c] False
      by simp
  qed
qed simp

end
