(* ===== verification/Sse.thy ===== *)
theory Sse
  imports Machines Utf8
begin

text \<open>
  The parser of server-sent events (\<open>src/src/sse.rs\<close>) that turns the response stream of a provider
  into events: the line scanner over a growing buffer, the fields of an event, and the byte
  stream in front of it, which cuts the incoming chunks at UTF-8 boundaries. Text is modelled by
  its UTF-8 bytes, as the code addresses it. The byte search of the \<open>memchr\<close> library is the
  argument \<open>find2\<close>, with its documented contract as the locale \<open>byte_search\<close>; UTF-8 validation is
  that of the standard library.
\<close>

section \<open>Events\<close>

record sse_event =
  ev_event :: bytes
  ev_data :: bytes
  ev_id :: "bytes option"
  ev_retry :: "u64 option"

definition default_event :: sse_event where
  "default_event = \<lparr>ev_event = lit ''message'', ev_data = [], ev_id = None, ev_retry = None\<rparr>"

definition interned_names :: "bytes list" where
  "interned_names = map lit
     [''message'', ''message_start'', ''message_stop'', ''message_delta'', ''content_block_start'',
      ''content_block_delta'', ''content_block_stop'', ''response.completed'', ''response.done'',
      ''response.failed'', ''response.incomplete'', ''response.output_text.delta'',
      ''response.output_text.done'', ''response.output_item.added'', ''response.output_item.done'',
      ''response.content_part.done'', ''response.function_call_arguments.delta'',
      ''response.reasoning_text.delta'', ''response.reasoning_text.done'',
      ''response.reasoning_summary_text.delta'', ''response.reasoning_summary_text.done'',
      ''response.reasoning_summary_part.done'', ''response.created'', ''ping'', ''error'']"

definition intern_event_type :: "bytes \<Rightarrow> bytes" where
  "intern_event_type value =
     (case find (\<lambda>name. name = value) interned_names of Some name \<Rightarrow> name | None \<Rightarrow> value)"

definition append_data_line :: "usize \<Rightarrow> bytes \<Rightarrow> sse_event \<times> bool \<Rightarrow> sse_event \<times> bool" where
  "append_data_line cap value st =
     (let (current, has_data) = st;
          projected_len = length (ev_data current) + length value + 1
      in if projected_len > cap then (current, True)
         else (current\<lparr>ev_data := ev_data current @ value @ [10]\<rparr>, True))"

definition is_ascii_digit :: "nat \<Rightarrow> bool" where
  "is_ascii_digit b = (48 \<le> b \<and> b \<le> 57)"

definition parse_digits :: "bytes \<Rightarrow> u64 option" where
  "parse_digits value =
     (let n = foldl (\<lambda>acc b. acc * 10 + (b - 48)) 0 value in if n \<le> u64_max then Some n else None)"

definition parse_retry :: "bytes \<Rightarrow> u64 option" where
  "parse_retry value =
     (if value \<noteq> [] \<and> list_all is_ascii_digit value then parse_digits value else None)"

definition strip_space :: "bytes \<Rightarrow> bytes" where
  "strip_space value = (case value of [] \<Rightarrow> value | b # rest \<Rightarrow> if b = 32 then rest else value)"

definition process_line :: "usize \<Rightarrow> bytes \<Rightarrow> sse_event \<times> bool \<Rightarrow> sse_event \<times> bool" where
  "process_line cap line st =
     (let (current, has_data) = st in
      if line \<noteq> [] \<and> hd line = 58 then st
      else
          (case split_once 58 line of
             Some (field, raw) \<Rightarrow>
               (let value = strip_space raw in
                if field = lit ''event'' then (current\<lparr>ev_event := intern_event_type value\<rparr>, has_data)
                else if field = lit ''data'' then append_data_line cap value st
                else if field = lit ''id'' \<and> 0 \<notin> set value then (current\<lparr>ev_id := Some value\<rparr>, has_data)
                else if field = lit ''retry'' then (current\<lparr>ev_retry := parse_retry value\<rparr>, has_data)
                else st)
           | None \<Rightarrow>
               if line = lit ''event'' then (current\<lparr>ev_event := []\<rparr>, has_data)
               else if line = lit ''data'' then append_data_line cap [] st
               else if line = lit ''id'' then (current\<lparr>ev_id := Some []\<rparr>, has_data)
               else st))"

definition reset_current_for_next_event :: "sse_event \<Rightarrow> sse_event" where
  "reset_current_for_next_event current = current\<lparr>ev_event := lit ''message'', ev_data := []\<rparr>"

definition carry_forward_event_state :: "sse_event \<Rightarrow> sse_event" where
  "carry_forward_event_state current =
     default_event\<lparr>ev_id := ev_id current, ev_retry := ev_retry current\<rparr>"

text \<open>The event that is handed out: without the last newline, and never without a name.\<close>

definition finish_event :: "sse_event \<Rightarrow> sse_event" where
  "finish_event current =
     (let c1 = (if ev_data current \<noteq> [] \<and> last (ev_data current) = 10
                then current\<lparr>ev_data := butlast (ev_data current)\<rparr> else current)
      in if ev_event c1 = [] then c1\<lparr>ev_event := lit ''message''\<rparr> else c1)"

definition process_complete_line :: "usize \<Rightarrow> bytes \<Rightarrow> sse_event \<times> bool \<Rightarrow> sse_event list \<times> sse_event \<times> bool" where
  "process_complete_line cap line st =
     (let (current, has_data) = st in
      if line = [] then
        (if has_data then ([finish_event current], carry_forward_event_state current, False)
         else ([], reset_current_for_next_event current, has_data))
      else ([], process_line cap line st))"

section \<open>The scanner\<close>

text \<open>
  The loop of \<open>process_source\<close>, over the positions \<open>start\<close> of the current line and \<open>search_pos\<close> of the
  search. A search result beyond the end would be an out-of-bounds panic; the contract of the
  search excludes it, and the loop stops there.
\<close>

function source_loop :: "(nat \<Rightarrow> nat \<Rightarrow> bytes \<Rightarrow> nat option) \<Rightarrow> usize \<Rightarrow> bytes \<Rightarrow> nat \<Rightarrow> nat \<Rightarrow>
  sse_event \<times> bool \<Rightarrow> sse_event list \<times> (sse_event \<times> bool) \<times> nat" where
  "source_loop find2 cap source start search_pos st =
     (case find2 13 10 (drop search_pos source) of
        None \<Rightarrow> ([], st, start)
      | Some rel_pos \<Rightarrow>
          let pos = search_pos + rel_pos in
          if \<not> pos < length source then ([], st, start)
          else if source ! pos \<noteq> 10 \<and> \<not> pos + 1 < length source then ([], st, start)
          else
            let next_start = (if source ! pos = 10 then pos + 1
                              else if source ! (pos + 1) = 10 then pos + 2 else pos + 1);
                line = take (pos - start) (drop start source);
                (out, st1) = process_complete_line cap line st;
                (more, st2, stop) = source_loop find2 cap source next_start next_start st1
            in (out @ more, st2, stop))"
  by pat_completeness auto
termination
  by (relation "measure (\<lambda>(find2, cap, source, start, search_pos, st). length source - search_pos)")
    (auto split: if_splits)

declare source_loop.simps [simp del]

definition bom :: bytes where
  "bom = [239, 187, 191]"

definition process_source :: "(nat \<Rightarrow> nat \<Rightarrow> bytes \<Rightarrow> nat option) \<Rightarrow> usize \<Rightarrow> bytes \<Rightarrow> nat \<Rightarrow> bool \<Rightarrow>
  sse_event \<times> bool \<Rightarrow> sse_event list \<times> (sse_event \<times> bool) \<times> bool \<times> nat" where
  "process_source find2 cap source scan_start bom_checked st =
     (let fresh = (\<not> bom_checked \<and> source \<noteq> []);
          marked = (fresh \<and> take 3 source = bom);
          start = (if marked then 3 else 0);
          search_pos = (if marked \<and> scan_start < 3 then 3 else scan_start);
          (out, st1, consumed) = source_loop find2 cap source start search_pos st
      in (out, st1, bom_checked \<or> fresh, consumed))"

section \<open>The parser\<close>

record sse_parser =
  sp_buffer :: bytes
  sp_current :: sse_event
  sp_has_data :: bool
  sp_bom_checked :: bool
  sp_scanned_len :: usize
  sp_cap :: usize

definition MAX_EVENT_DATA_BYTES :: usize where
  "MAX_EVENT_DATA_BYTES = 100 * 1024 * 1024"

definition MAX_BUFFER_SIZE :: usize where
  "MAX_BUFFER_SIZE = 10 * 1024 * 1024"

definition parser_new :: sse_parser where
  "parser_new = \<lparr>sp_buffer = [], sp_current = default_event, sp_has_data = False,
     sp_bom_checked = False, sp_scanned_len = 0, sp_cap = MAX_EVENT_DATA_BYTES\<rparr>"

definition limit_event :: sse_event where
  "limit_event = default_event\<lparr>ev_event := lit ''error'', ev_data := lit ''SSE buffer limit exceeded''\<rparr>"

definition reset_after_buffer_limit :: "sse_parser \<Rightarrow> sse_event \<times> sse_parser" where
  "reset_after_buffer_limit p =
     (limit_event,
      p\<lparr>sp_buffer := [], sp_current := default_event, sp_has_data := False, sp_bom_checked := False,
        sp_scanned_len := 0\<rparr>)"

definition feed_into :: "(nat \<Rightarrow> nat \<Rightarrow> bytes \<Rightarrow> nat option) \<Rightarrow> bytes \<Rightarrow> sse_parser \<Rightarrow> sse_event list \<times> sse_parser" where
  "feed_into find2 data p =
     (if sp_buffer p = [] then
        let (out, (current, has_data), checked, consumed) =
              process_source find2 (sp_cap p) data 0 (sp_bom_checked p) (sp_current p, sp_has_data p);
            p1 = p\<lparr>sp_current := current, sp_has_data := has_data, sp_bom_checked := checked\<rparr>
        in if consumed < length data then
             let p2 = p1\<lparr>sp_buffer := drop consumed data\<rparr> in
             if length (sp_buffer p2) > MAX_BUFFER_SIZE then
               let (e, p3) = reset_after_buffer_limit p2 in (out @ [e], p3)
             else (out, p2\<lparr>sp_scanned_len := length (sp_buffer p2)\<rparr>)
           else (out, p1\<lparr>sp_scanned_len := length (sp_buffer p1)\<rparr>)
      else
        let combined = sp_buffer p @ data;
            scan_start = sp_scanned_len p - 1;
            (out, (current, has_data), checked, consumed) =
              process_source find2 (sp_cap p) combined scan_start (sp_bom_checked p)
                (sp_current p, sp_has_data p);
            p1 = p\<lparr>sp_current := current, sp_has_data := has_data, sp_bom_checked := checked,
                   sp_buffer := (if consumed < length combined then drop consumed combined else [])\<rparr>
        in if length (sp_buffer p1) > MAX_BUFFER_SIZE then
             let (e, p2) = reset_after_buffer_limit p1 in (out @ [e], p2)
           else (out, p1\<lparr>sp_scanned_len := length (sp_buffer p1)\<rparr>))"

definition feed :: "(nat \<Rightarrow> nat \<Rightarrow> bytes \<Rightarrow> nat option) \<Rightarrow> bytes \<Rightarrow> sse_parser \<Rightarrow> sse_event list \<times> sse_parser" where
  "feed find2 data p = feed_into find2 data p"

definition parser_has_pending :: "sse_parser \<Rightarrow> bool" where
  "parser_has_pending p = (sp_buffer p \<noteq> [] \<or> sp_has_data p)"

definition trim_end_cr :: "bytes \<Rightarrow> bytes" where
  "trim_end_cr line = rev (dropWhile (\<lambda>b. b = 13) (rev line))"

definition flush :: "sse_parser \<Rightarrow> sse_event option \<times> sse_parser" where
  "flush p =
     (let p1 = (if sp_buffer p \<noteq> [] then
                  let (current, has_data) =
                        process_line (sp_cap p) (trim_end_cr (sp_buffer p)) (sp_current p, sp_has_data p)
                  in p\<lparr>sp_buffer := [], sp_current := current, sp_has_data := has_data\<rparr>
                else p)
      in if sp_has_data p1
         then (Some (finish_event (sp_current p1)), p1\<lparr>sp_current := default_event, sp_has_data := False\<rparr>)
         else (None, p1))"


section \<open>The reference parser\<close>

text \<open>
  What the scanner computes, without positions: cut off the first complete line, process it, go
  on with the remainder. A carriage return at the very end is no complete line yet, for a line
  feed may follow.
\<close>

fun split_line :: "bytes \<Rightarrow> (bytes \<times> bytes) option" where
  "split_line [] = None"
| "split_line (b # bs) =
     (if b = 10 then Some ([], bs)
      else if b = 13 then (case bs of [] \<Rightarrow> None | c # cs \<Rightarrow> Some ([], if c = 10 then cs else bs))
      else map_option (\<lambda>(line, rest). (b # line, rest)) (split_line bs))"

lemma split_line_shorter: "split_line bs = Some (line, rest) \<Longrightarrow> length rest < length bs"
  by (induction bs arbitrary: line) (auto split: if_splits list.splits)

function parse_lines :: "usize \<Rightarrow> bytes \<Rightarrow> sse_event \<times> bool \<Rightarrow> sse_event list \<times> (sse_event \<times> bool) \<times> bytes" where
  "parse_lines cap source st =
     (case split_line source of
        None \<Rightarrow> ([], st, source)
      | Some (line, rest) \<Rightarrow>
          let (out, st1) = process_complete_line cap line st;
              (outs, st2, tail) = parse_lines cap rest st1
          in (out @ outs, st2, tail))"
  by pat_completeness auto
termination
  by (relation "measure (\<lambda>(cap, source, st). length source)") (auto dest: split_line_shorter)

declare parse_lines.simps [simp del]

lemma parse_lines_stop: "split_line source = None \<Longrightarrow> parse_lines cap source st = ([], st, source)"
  by (simp add: parse_lines.simps)

lemma parse_lines_step:
  "split_line source = Some (line, rest) \<Longrightarrow>
   parse_lines cap source st =
     (let (out, st1) = process_complete_line cap line st; (outs, st2, tail) = parse_lines cap rest st1
      in (out @ outs, st2, tail))"
  by (subst parse_lines.simps) simp

lemma split_line_append: "split_line a = Some (line, rest) \<Longrightarrow> split_line (a @ b) = Some (line, rest @ b)"
  by (induction a arbitrary: line) (auto split: if_splits list.splits)

lemma split_line_plain:
  "\<forall>x \<in> set line. x \<noteq> 10 \<and> x \<noteq> 13 \<Longrightarrow> split_line (line @ 10 # rest) = Some (line, rest)"
  by (induction line) auto

lemma split_line_cr:
  "\<forall>x \<in> set line. x \<noteq> 10 \<and> x \<noteq> 13 \<Longrightarrow>
   split_line (line @ 13 # c # rest) = Some (line, if c = 10 then rest else c # rest)"
  by (induction line) auto

lemma split_line_none_iff:
  "split_line bs = None \<longleftrightarrow> (\<forall>x \<in> set (butlast bs). x \<noteq> 10 \<and> x \<noteq> 13) \<and> (bs \<noteq> [] \<longrightarrow> last bs \<noteq> 10)"
  by (induction bs) (auto split: list.splits)

lemma split_line_plain_none: "\<forall>x \<in> set bs. x \<noteq> 10 \<and> x \<noteq> 13 \<Longrightarrow> split_line bs = None"
  by (induction bs) auto

text \<open>Cutting the input in two changes nothing: the unfinished tail is parsed with what follows.\<close>

lemma parse_lines_append:
  "parse_lines cap (a @ b) st =
     (let (out1, st1, rest) = parse_lines cap a st; (out2, st2, tail) = parse_lines cap (rest @ b) st1
      in (out1 @ out2, st2, tail))"
proof (induction cap a st rule: parse_lines.induct)
  case (1 cap a st)
  show ?case
  proof (cases "split_line a")
    case None
    then show ?thesis by (simp add: parse_lines_stop)
  next
    case (Some p)
    obtain line rest where p: "p = (line, rest)" by force
    obtain out st1 where pc: "process_complete_line cap line st = (out, st1)" by (metis surj_pair)
    have IH: "parse_lines cap (rest @ b) st1 =
        (let (out1, st2, r) = parse_lines cap rest st1; (out2, st3, tail) = parse_lines cap (r @ b) st2
         in (out1 @ out2, st3, tail))"
      using 1 [OF Some p [symmetric] refl pc [symmetric]] by simp
    show ?thesis
      using Some p pc IH
      by (simp add: parse_lines_step [of a line rest] parse_lines_step [of "a @ b" line "rest @ b"]
          split_line_append split: prod.splits)
  qed
qed

lemma parse_lines_tail: "snd (snd (parse_lines cap a st)) = r \<Longrightarrow> split_line r = None"
proof (induction cap a st arbitrary: r rule: parse_lines.induct)
  case (1 cap a st)
  show ?case
  proof (cases "split_line a")
    case None
    then show ?thesis using 1(2) by (simp add: parse_lines_stop)
  next
    case (Some p)
    obtain line rest where p: "p = (line, rest)" by force
    obtain out st1 where pc: "process_complete_line cap line st = (out, st1)" by (metis surj_pair)
    show ?thesis
      using 1(1) [OF Some p [symmetric] refl pc [symmetric] refl] 1(2) Some p pc
      by (simp add: parse_lines_step split: prod.splits)
  qed
qed

section \<open>The scanner computes the reference\<close>

definition without_bom :: "bytes \<Rightarrow> bytes" where
  "without_bom source = (if take 3 source = bom then drop 3 source else source)"

text \<open>
  Between two chunks the buffer holds no complete line, all of it has been scanned, and it is
  empty as long as the byte order mark has not been looked for.
\<close>

definition parser_ok :: "sse_parser \<Rightarrow> bool" where
  "parser_ok p \<longleftrightarrow> sp_buffer p = [] \<or>
     sp_bom_checked p \<and> sp_scanned_len p = length (sp_buffer p) \<and> split_line (sp_buffer p) = None"

definition feed_reference :: "bytes \<Rightarrow> sse_parser \<Rightarrow> sse_event list \<times> sse_parser" where
  "feed_reference data p =
     (let (out, (current, has_data), rest) =
            parse_lines (sp_cap p) (sp_buffer p @ (if sp_bom_checked p then data else without_bom data))
              (sp_current p, sp_has_data p);
          p1 = p\<lparr>sp_buffer := rest, sp_current := current, sp_has_data := has_data,
                 sp_bom_checked := sp_bom_checked p \<or> data \<noteq> [], sp_scanned_len := length rest\<rparr>
      in if length rest > MAX_BUFFER_SIZE
         then (out @ [limit_event], snd (reset_after_buffer_limit p1)) else (out, p1))"

lemma split_line_suffix: "split_line a = Some (line, r) \<Longrightarrow> \<exists>pre. a = pre @ r"
proof (induction a arbitrary: line)
  case (Cons b bs)
  show ?case
  proof (cases "b = 10 \<or> b = 13")
    case True
    then show ?thesis using Cons.prems
      by (auto split: if_splits list.splits intro: exI [of _ "[b]"] exI [of _ "[13, 10]"])
  next
    case False
    then obtain l where "split_line bs = Some (l, r)" using Cons.prems by auto
    then obtain pre where "bs = pre @ r" using Cons.IH by blast
    then show ?thesis by (intro exI [of _ "b # pre"]) simp
  qed
qed simp

lemma parse_lines_suffix: "parse_lines cap a st = (out, st1, rest) \<Longrightarrow> \<exists>pre. a = pre @ rest"
proof (induction cap a st arbitrary: out rule: parse_lines.induct)
  case (1 cap a st)
  show ?case
  proof (cases "split_line a")
    case None
    then show ?thesis using 1(2) by (simp add: parse_lines_stop)
  next
    case (Some p)
    obtain line r where p: "p = (line, r)" by force
    obtain o1 s1 where pc: "process_complete_line cap line st = (o1, s1)" by (metis surj_pair)
    obtain o2 where pl: "parse_lines cap r s1 = (o2, st1, rest)"
      using 1(2) Some p pc by (auto simp: parse_lines_step split: prod.splits)
    have "\<exists>pre. r = pre @ rest" by (rule 1(1) [OF Some p [symmetric] refl pc [symmetric] pl])
    moreover have "\<exists>pre. a = pre @ r" using split_line_suffix Some p by blast
    ultimately show ?thesis by (metis append.assoc)
  qed
qed

lemma feed_reference_ok: "parser_ok p \<Longrightarrow> parser_ok (snd (feed_reference data p))"
proof -
  assume ok: "parser_ok p"
  define content where "content = sp_buffer p @ (if sp_bom_checked p then data else without_bom data)"
  obtain out cur hd rest where pl: "parse_lines (sp_cap p) content (sp_current p, sp_has_data p) = (out, (cur, hd), rest)"
    by (metis surj_pair)
  have none: "split_line rest = None" using parse_lines_tail [of "sp_cap p" content "(sp_current p, sp_has_data p)"] pl by simp
  have "rest = []" if "data = []" "\<not> sp_bom_checked p"
  proof -
    have "content = []" using ok that by (auto simp: content_def parser_ok_def without_bom_def bom_def)
    then show ?thesis using parse_lines_suffix [OF pl] by simp
  qed
  then show ?thesis
    using pl none by (auto simp: feed_reference_def parser_ok_def content_def [symmetric] reset_after_buffer_limit_def Let_def)
qed

section \<open>Chunks\<close>

text \<open>Feeding one chunk after the other, as the stream does.\<close>

fun feed_all :: "(nat \<Rightarrow> nat \<Rightarrow> bytes \<Rightarrow> nat option) \<Rightarrow> bytes list \<Rightarrow> sse_parser \<Rightarrow> sse_event list \<times> sse_parser" where
  "feed_all find2 [] p = ([], p)"
| "feed_all find2 (c # cs) p =
     (let (out, p1) = feed find2 c p; (outs, p2) = feed_all find2 cs p1 in (out @ outs, p2))"

text \<open>The bytes after the last complete line.\<close>

function open_line :: "bytes \<Rightarrow> bytes" where
  "open_line source = (case split_line source of None \<Rightarrow> source | Some (line, rest) \<Rightarrow> open_line rest)"
  by pat_completeness auto
termination
  by (relation "measure length") (auto dest: split_line_shorter)

declare open_line.simps [simp del]

lemma parse_lines_open: "snd (snd (parse_lines cap a st)) = open_line a"
proof (induction cap a st rule: parse_lines.induct)
  case (1 cap a st)
  show ?case
  proof (cases "split_line a")
    case None
    then show ?thesis by (simp add: parse_lines_stop open_line.simps)
  next
    case (Some p)
    obtain line r where p: "p = (line, r)" by force
    obtain o1 s1 where pc: "process_complete_line cap line st = (o1, s1)" by (metis surj_pair)
    show ?thesis
      using 1 [OF Some p [symmetric] refl pc [symmetric]] Some p pc
      by (simp add: parse_lines_step open_line.simps [of a] split: prod.splits) auto
  qed
qed

lemma open_line_append: "open_line (a @ b) = open_line (open_line a @ b)"
proof -
  let ?st = "(default_event, False)"
  obtain out st1 rest where pl: "parse_lines 0 a ?st = (out, st1, rest)" by (metis surj_pair)
  then have "rest = open_line a" using parse_lines_open [of 0 a ?st] by simp
  then have "snd (snd (parse_lines 0 (a @ b) ?st)) = snd (snd (parse_lines 0 (open_line a @ b) st1))"
    using pl by (simp add: parse_lines_append [of 0 a b] split: prod.splits)
  then show ?thesis by (simp only: parse_lines_open)
qed

lemma open_line_length: "length (open_line a) \<le> length a"
  by (induction a rule: open_line.induct)
    (subst open_line.simps, force split: option.split dest: split_line_shorter)

text \<open>
  A chunk is a string, so it holds whole characters: the first one that is not empty cannot
  be a proper part of the byte order mark.
\<close>

definition bom_not_split :: "bytes list \<Rightarrow> bool" where
  "bom_not_split chunks \<longleftrightarrow>
     (case dropWhile (\<lambda>c. c = []) chunks of [] \<Rightarrow> True | c # cs \<Rightarrow> c \<noteq> take 1 bom \<and> c \<noteq> take 2 bom)"

lemma without_bom_first:
  assumes "c \<noteq> []" and "c \<noteq> take 1 bom" and "c \<noteq> take 2 bom"
  shows "without_bom (c @ rest) = without_bom c @ rest"
proof (cases "length c \<ge> 3")
  case True
  then show ?thesis by (simp add: without_bom_def)
next
  case False
  then consider a where "c = [a]" | a b where "c = [a, b]"
    using assms(1) by (cases c; cases "tl c"; cases "tl (tl c)") auto
  then show ?thesis
    using assms(2,3) by cases (auto simp: without_bom_def bom_def numeral_3_eq_3)
qed

section \<open>Sizes\<close>

text \<open>
  A run of the parser: chunks are fed, and the stream may flush at its end. The run collects
  what is handed out.
\<close>

datatype parser_op = Feed bytes | Flush

definition parser_step :: "(nat \<Rightarrow> nat \<Rightarrow> bytes \<Rightarrow> nat option) \<Rightarrow> parser_op \<Rightarrow>
  sse_parser \<times> sse_event list \<Rightarrow> sse_parser \<times> sse_event list" where
  "parser_step find2 opn s =
     (let (p, outs) = s in
      case opn of
        Feed data \<Rightarrow> let (out, p1) = feed find2 data p in (p1, outs @ out)
      | Flush \<Rightarrow> let (last_event, p1) = flush p in (p1, outs @ (case last_event of None \<Rightarrow> [] | Some e \<Rightarrow> [e])))"

definition small_event :: "usize \<Rightarrow> sse_event \<Rightarrow> bool" where
  "small_event cap e \<longleftrightarrow> length (ev_data e) \<le> cap"

definition parser_inv :: "sse_parser \<times> sse_event list \<Rightarrow> bool" where
  "parser_inv s \<longleftrightarrow>
     (let (p, outs) = s in parser_ok p \<and> length (sp_buffer p) \<le> MAX_BUFFER_SIZE \<and>
        25 \<le> sp_cap p \<and> small_event (sp_cap p) (sp_current p) \<and> list_all (small_event (sp_cap p)) outs)"

lemma small_event_update [simp]:
  "small_event cap (e\<lparr>ev_event := x\<rparr>) = small_event cap e"
  "small_event cap (e\<lparr>ev_id := i\<rparr>) = small_event cap e"
  "small_event cap (e\<lparr>ev_retry := r\<rparr>) = small_event cap e"
  by (simp_all add: small_event_def)

lemma small_append: "small_event cap (fst st) \<Longrightarrow> small_event cap (fst (append_data_line cap value st))"
  by (cases st) (auto simp: append_data_line_def small_event_def Let_def)

lemma small_process_line: "small_event cap (fst st) \<Longrightarrow> small_event cap (fst (process_line cap line st))"
  by (cases st; cases "split_once 58 line") (simp_all add: process_line_def Let_def split_beta small_append)

lemma small_finish: "small_event cap e \<Longrightarrow> small_event cap (finish_event e)"
  by (auto simp: finish_event_def small_event_def Let_def)

lemma small_complete:
  assumes "small_event cap (fst st)" and "process_complete_line cap line st = (out, st1)"
  shows "small_event cap (fst st1) \<and> list_all (small_event cap) out"
  using assms small_process_line [of cap st line] small_finish [of cap "fst st"]
  by (cases st)
    (auto simp: process_complete_line_def Let_def carry_forward_event_state_def default_event_def
       reset_current_for_next_event_def small_event_def split: if_splits)

lemma small_parse_lines:
  "small_event cap (fst st) \<Longrightarrow> parse_lines cap a st = (out, st1, rest) \<Longrightarrow>
   small_event cap (fst st1) \<and> list_all (small_event cap) out"
proof (induction cap a st arbitrary: out rule: parse_lines.induct)
  case (1 cap a st)
  show ?case
  proof (cases "split_line a")
    case None
    then show ?thesis using 1(2,3) by (simp add: parse_lines_stop)
  next
    case (Some p)
    obtain line r where p: "p = (line, r)" by force
    obtain o1 s1 where pc: "process_complete_line cap line st = (o1, s1)" by (metis surj_pair)
    obtain o2 where pl: "parse_lines cap r s1 = (o2, st1, rest)" and o: "out = o1 @ o2"
      using 1(3) Some p pc by (auto simp: parse_lines_step split: prod.splits)
    note sc = small_complete [OF 1(2) pc]
    show ?thesis
      using 1(1) [OF Some p [symmetric] refl pc [symmetric] _ pl] sc o by simp
  qed
qed

lemma inv_feed_reference:
  assumes "parser_inv (p, outs)"
  shows "parser_inv (snd (feed_reference data p), outs @ fst (feed_reference data p))"
    and "sp_cap (snd (feed_reference data p)) = sp_cap p"
proof -
  define content where "content = sp_buffer p @ (if sp_bom_checked p then data else without_bom data)"
  obtain out cur hd rest where pl: "parse_lines (sp_cap p) content (sp_current p, sp_has_data p) = (out, (cur, hd), rest)"
    by (metis surj_pair)
  have small: "small_event (sp_cap p) cur" "list_all (small_event (sp_cap p)) out"
    using small_parse_lines [OF _ pl] assms by (simp_all add: parser_inv_def)
  have lim: "25 \<le> sp_cap p \<Longrightarrow> small_event (sp_cap p) limit_event" "small_event (sp_cap p) default_event"
    by (simp_all add: small_event_def limit_event_def default_event_def lit_def)
  have ok: "parser_ok (snd (feed_reference data p))"
    using assms by (intro feed_reference_ok) (simp add: parser_inv_def)
  show "parser_inv (snd (feed_reference data p), outs @ fst (feed_reference data p))"
    using ok assms small lim pl unfolding parser_inv_def
    by (simp add: feed_reference_def content_def [symmetric] Let_def reset_after_buffer_limit_def)
  show "sp_cap (snd (feed_reference data p)) = sp_cap p"
    using pl by (simp add: feed_reference_def content_def [symmetric] Let_def reset_after_buffer_limit_def)
qed

lemma inv_flush:
  assumes "parser_inv (p, outs)" and "flush p = (last_event, p1)"
  shows "parser_inv (p1, outs @ (case last_event of None \<Rightarrow> [] | Some e \<Rightarrow> [e]))"
    and "sp_cap p1 = sp_cap p"
proof -
  obtain cur hd where pl: "process_line (sp_cap p) (trim_end_cr (sp_buffer p)) (sp_current p, sp_has_data p) = (cur, hd)"
    by (metis surj_pair)
  have small: "small_event (sp_cap p) cur"
    using small_process_line [of "sp_cap p" "(sp_current p, sp_has_data p)" "trim_end_cr (sp_buffer p)"] assms(1) pl
    by (simp add: parser_inv_def)
  have de: "small_event (sp_cap p) default_event" by (simp add: small_event_def default_event_def)
  show "parser_inv (p1, outs @ (case last_event of None \<Rightarrow> [] | Some e \<Rightarrow> [e]))"
    using assms small pl de
    by (auto simp: flush_def Let_def parser_inv_def parser_ok_def small_finish split: if_splits)
  show "sp_cap p1 = sp_cap p" using assms(2) pl by (auto simp: flush_def Let_def split: if_splits)
qed

locale byte_search =
  fixes find2 :: "nat \<Rightarrow> nat \<Rightarrow> bytes \<Rightarrow> nat option"
  assumes find2_none: "find2 a b bs = None \<longleftrightarrow> a \<notin> set bs \<and> b \<notin> set bs"
    and find2_some: "find2 a b bs = Some i \<Longrightarrow>
      i < length bs \<and> (bs ! i = a \<or> bs ! i = b) \<and> (\<forall>j < i. bs ! j \<noteq> a \<and> bs ! j \<noteq> b)"
begin

lemma found_split:
  assumes "find2 13 10 bs = Some i"
  shows "bs = take i bs @ bs ! i # drop (Suc i) bs" and "bs ! i = 13 \<or> bs ! i = 10"
    and "\<forall>x \<in> set (take i bs). x \<noteq> 10 \<and> x \<noteq> 13"
proof -
  note f = find2_some [OF assms]
  show "bs = take i bs @ bs ! i # drop (Suc i) bs" using f by (simp add: id_take_nth_drop)
  show "bs ! i = 13 \<or> bs ! i = 10" using f by simp
  show "\<forall>x \<in> set (take i bs). x \<noteq> 10 \<and> x \<noteq> 13" using f by (auto simp: in_set_conv_nth)
qed

text \<open>
  The scanner may start behind the start of the line, as long as no line ends in between; it
  stops at the first byte of the unfinished tail.
\<close>

lemma source_loop_reference:
  assumes "\<forall>x \<in> set (take (search_pos - start) (drop start source)). x \<noteq> 10 \<and> x \<noteq> 13"
    and "start \<le> search_pos" and "search_pos \<le> length source"
  shows "source_loop find2 cap source start search_pos st =
     (let (out, st1, rest) = parse_lines cap (drop start source) st in (out, st1, length source - length rest))"
  using assms
proof (induction "length source - search_pos" arbitrary: start search_pos st rule: less_induct)
  case less
  define skipped where "skipped = take (search_pos - start) (drop start source)"
  define ahead where "ahead = drop search_pos source"
  have ds: "drop start source = skipped @ ahead"
    using less.prems(2) unfolding skipped_def ahead_def by (metis append_take_drop_id drop_drop le_add_diff_inverse2)
  have lens: "length skipped = search_pos - start" "length ahead = length source - search_pos"
    using less.prems by (auto simp: skipped_def ahead_def)
  have plain: "\<forall>x \<in> set skipped. x \<noteq> 10 \<and> x \<noteq> 13" using less.prems(1) by (simp add: skipped_def)
  show ?case
  proof (cases "find2 13 10 ahead")
    case None
    then have "\<forall>x \<in> set (skipped @ ahead). x \<noteq> 10 \<and> x \<noteq> 13" using plain by (auto simp: find2_none)
    then have "split_line (drop start source) = None" using ds by (simp add: split_line_plain_none)
    then show ?thesis
      using None less.prems by (subst source_loop.simps) (simp add: parse_lines_stop ahead_def)
  next
    case (Some i)
    note f = found_split [OF Some]
    define line where "line = skipped @ take i ahead"
    have il: "i < length ahead" using find2_some [OF Some] by blast
    have pl: "\<forall>x \<in> set line. x \<noteq> 10 \<and> x \<noteq> 13" using plain f(3) by (auto simp: line_def)
    have dl: "drop start source = line @ ahead ! i # drop (Suc i) ahead"
      using ds f(1) by (simp add: line_def)
    have at: "source ! (search_pos + i) = ahead ! i" "search_pos + i < length source"
      using il lens less.prems by (auto simp: ahead_def)
    have tk: "take (search_pos + i - start) (drop start source) = line"
      using dl lens il less.prems(2) by (simp add: line_def)
    have lenline: "length line = search_pos - start + i" using lens il by (simp add: line_def)
    consider (wait) "ahead ! i = 13" "drop (Suc i) ahead = []"
      | (lf) "ahead ! i = 10" | (cr) c rest where "ahead ! i = 13" "drop (Suc i) ahead = c # rest"
      using f(2) by (cases "drop (Suc i) ahead") auto
    then show ?thesis
    proof cases
      case wait
      then have "split_line (drop start source) = None"
        using dl pl by (simp add: split_line_none_iff)
      moreover have "\<not> search_pos + i + 1 < length source" using wait(2) lens(2) less.prems by auto
      ultimately show ?thesis
        using Some wait at less.prems
        by (subst source_loop.simps) (simp add: parse_lines_stop ahead_def [symmetric])
    next
      case lf
      define nx where "nx = search_pos + i + 1"
      have spl: "split_line (drop start source) = Some (line, drop nx source)"
        using split_line_plain [OF pl] dl lf by (simp add: ahead_def nx_def add.commute)
      obtain out st1 where pc: "process_complete_line cap line st = (out, st1)" by (metis surj_pair)
      have IH: "source_loop find2 cap source nx nx st1 =
          (let (out, st1, rest) = parse_lines cap (drop nx source) st1 in (out, st1, length source - length rest))"
        by (rule less.hyps) (use at(2) nx_def in auto)
      have "source_loop find2 cap source start search_pos st =
          (let (outs, st2, stop) = source_loop find2 cap source nx nx st1 in (out @ outs, st2, stop))"
        using Some at lf tk pc
        by (subst source_loop.simps) (simp add: ahead_def [symmetric] nx_def Let_def)
      then show ?thesis
        using IH pc by (simp add: parse_lines_step [OF spl] split: prod.splits)
    next
      case cr
      define nx where "nx = (if c = 10 then search_pos + i + 2 else search_pos + i + 1)"
      have c: "source ! (search_pos + i + 1) = c" "search_pos + i + 1 < length source"
      proof -
        have "Suc i < length ahead" using cr(2) by (metis drop_all linorder_not_le list.distinct(1))
        then show "search_pos + i + 1 < length source" using lens(2) by simp
        have "ahead ! Suc i = c" using cr(2) \<open>Suc i < length ahead\<close> by (simp add: Cons_nth_drop_Suc [symmetric])
        then show "source ! (search_pos + i + 1) = c" using less.prems(3) by (simp add: ahead_def)
      qed
      have dr: "drop (search_pos + i + 1) source = c # rest"
        using cr(2) by (simp add: ahead_def add.commute)
      have "drop (search_pos + i + 2) source = rest"
        by (metis dr add_2_eq_Suc' add.right_neutral add_Suc_right One_nat_def drop_Suc tl_drop list.sel(3))
      then have dn: "drop nx source = (if c = 10 then rest else c # rest)" using dr by (simp add: nx_def)
      have spl: "split_line (drop start source) = Some (line, drop nx source)"
        using split_line_cr [OF pl, of c rest] dl cr dn by simp
      obtain out st1 where pc: "process_complete_line cap line st = (out, st1)" by (metis surj_pair)
      have IH: "source_loop find2 cap source nx nx st1 =
          (let (out, st1, rest) = parse_lines cap (drop nx source) st1 in (out, st1, length source - length rest))"
        by (rule less.hyps) (use at(2) c(2) nx_def in auto)
      have "source_loop find2 cap source start search_pos st =
          (let (outs, st2, stop) = source_loop find2 cap source nx nx st1 in (out @ outs, st2, stop))"
        using Some at cr(1) c tk pc
        by (subst source_loop.simps) (simp add: ahead_def [symmetric] nx_def Let_def)
      then show ?thesis
        using IH pc by (simp add: parse_lines_step [OF spl] split: prod.splits)
    qed
  qed
qed


lemma process_source_reference:
  assumes "scan_start \<noteq> 0 \<Longrightarrow> checked" and "scan_start \<le> length source"
    and "\<forall>x \<in> set (take scan_start source). x \<noteq> 10 \<and> x \<noteq> 13"
  shows "process_source find2 cap source scan_start checked st =
    (let text = (if checked then source else without_bom source);
         (out, st1, rest) = parse_lines cap text st
     in (out, st1, checked \<or> source \<noteq> [], length source - length rest))"
proof (cases "\<not> checked \<and> take 3 source = bom")
  case True
  then have len: "3 \<le> length source" by (cases "length source < 3") (auto simp: bom_def)
  have "source_loop find2 cap source 3 3 st =
     (let (out, st1, rest) = parse_lines cap (drop 3 source) st in (out, st1, length source - length rest))"
    by (rule source_loop_reference) (use len in auto)
  moreover have "scan_start = 0" "source \<noteq> []" using assms(1) True len by auto
  ultimately show ?thesis
    using True by (simp add: process_source_def without_bom_def split: prod.splits)
next
  case False
  have "source_loop find2 cap source 0 scan_start st =
     (let (out, st1, rest) = parse_lines cap (drop 0 source) st in (out, st1, length source - length rest))"
    by (rule source_loop_reference) (use assms in auto)
  moreover have "(if checked then source else without_bom source) = source"
    using False by (auto simp: without_bom_def)
  moreover have "\<not> (\<not> checked \<and> source \<noteq> [] \<and> take 3 source = bom)" using False by blast
  ultimately show ?thesis
    by (simp add: process_source_def Let_def split: prod.splits) blast
qed

lemma feed_fast:
  assumes "sp_buffer p = []"
  shows "feed_into find2 data p = feed_reference data p"
proof -
  define content where "content = (if sp_bom_checked p then data else without_bom data)"
  obtain out cur hd rest where pl: "parse_lines (sp_cap p) content (sp_current p, sp_has_data p) = (out, (cur, hd), rest)"
    by (metis surj_pair)
  have ps: "process_source find2 (sp_cap p) data 0 (sp_bom_checked p) (sp_current p, sp_has_data p) =
      (out, (cur, hd), sp_bom_checked p \<or> data \<noteq> [], length data - length rest)"
    using process_source_reference [of 0 "sp_bom_checked p" data] pl
    by (cases data) (auto simp: content_def)
  obtain pre where "data = pre @ rest"
    using parse_lines_suffix [OF pl] unfolding content_def without_bom_def
    by (metis append.assoc append_take_drop_id)
  then have dr: "drop (length data - length rest) data = rest" "length rest \<le> length data" by auto
  have less: "length data - length rest < length data \<longleftrightarrow> rest \<noteq> []" using dr(2) by (cases rest) auto
  show ?thesis
    using assms pl ps dr(1) less
    by (cases rest) (simp_all add: feed_into_def feed_reference_def content_def Let_def reset_after_buffer_limit_def)
qed

lemma feed_slow:
  assumes "sp_buffer p \<noteq> []" and "parser_ok p"
  shows "feed_into find2 data p = feed_reference data p"
proof -
  define source where "source = sp_buffer p @ data"
  have ok: "sp_bom_checked p" "sp_scanned_len p = length (sp_buffer p)" "split_line (sp_buffer p) = None"
    using assms by (auto simp: parser_ok_def)
  obtain out cur hd rest where pl: "parse_lines (sp_cap p) source (sp_current p, sp_has_data p) = (out, (cur, hd), rest)"
    by (metis surj_pair)
  have tk: "take (length (sp_buffer p) - 1) source = butlast (sp_buffer p)"
    by (simp add: source_def butlast_conv_take)
  have ps: "process_source find2 (sp_cap p) source (sp_scanned_len p - 1) (sp_bom_checked p) (sp_current p, sp_has_data p) =
      (out, (cur, hd), True, length source - length rest)"
    using process_source_reference [of "sp_scanned_len p - 1" "sp_bom_checked p" source] pl ok tk assms(1)
    by (simp add: split_line_none_iff source_def butlast_conv_take)
  obtain pre where "source = pre @ rest" using parse_lines_suffix [OF pl] by blast
  then have dr: "drop (length source - length rest) source = rest" "length rest \<le> length source" by auto
  have "source \<noteq> []" using assms(1) by (simp add: source_def)
  then have less: "length source - length rest < length source \<longleftrightarrow> rest \<noteq> []" using dr(2) by (cases rest) auto
  show ?thesis
    using assms(1) pl ps dr(1) less ok(1)
    by (cases rest) (simp_all add: feed_into_def feed_reference_def source_def [symmetric] Let_def reset_after_buffer_limit_def)
qed

lemma feed_is_reference: "parser_ok p \<Longrightarrow> feed find2 data p = feed_reference data p"
  using feed_fast feed_slow by (cases "sp_buffer p = []") (auto simp: feed_def)


text \<open>With the mark behind it, the parser's buffer and its state absorb any number of chunks.\<close>

lemma feed_all_checked:
  assumes "parser_ok p" and "sp_bom_checked p" and "sp_scanned_len p = length (sp_buffer p)"
    and "\<forall>n. length (open_line (take n (sp_buffer p @ concat chunks))) \<le> MAX_BUFFER_SIZE"
  shows "feed_all find2 chunks p =
    (let (out, (current, has_data), rest) =
           parse_lines (sp_cap p) (sp_buffer p @ concat chunks) (sp_current p, sp_has_data p)
     in (out, p\<lparr>sp_buffer := rest, sp_current := current, sp_has_data := has_data, sp_scanned_len := length rest\<rparr>))"
  using assms
proof (induction chunks arbitrary: p)
  case Nil
  have "split_line (sp_buffer p) = None" using Nil by (auto simp: parser_ok_def)
  then show ?case using Nil(3) by (simp add: parse_lines_stop)
next
  case (Cons c cs)
  obtain out cur hd rest
    where pl: "parse_lines (sp_cap p) (sp_buffer p @ c) (sp_current p, sp_has_data p) = (out, (cur, hd), rest)"
    by (metis surj_pair)
  have rest: "rest = open_line (sp_buffer p @ c)"
    using parse_lines_open [of "sp_cap p" "sp_buffer p @ c" "(sp_current p, sp_has_data p)"] pl by simp
  have small: "length rest \<le> MAX_BUFFER_SIZE"
    using Cons.prems(4)[rule_format, of "length (sp_buffer p @ c)"] rest by simp
  define q where "q = p\<lparr>sp_buffer := rest, sp_current := cur, sp_has_data := hd, sp_scanned_len := length rest\<rparr>"
  have fd: "feed find2 c p = (out, q)"
    using feed_is_reference [OF Cons.prems(1)] pl small Cons.prems(2)
    by (simp add: feed_reference_def q_def)
  have qok: "parser_ok q" using feed_reference_ok [OF Cons.prems(1), of c] feed_is_reference [OF Cons.prems(1), of c] fd
    by (metis snd_conv)
  have "\<forall>n. length (open_line (take n (rest @ concat cs))) \<le> MAX_BUFFER_SIZE"
  proof
    fix n
    have "open_line (take n (rest @ concat cs)) = open_line (sp_buffer p @ c @ take (n - length rest) (concat cs)) \<or>
      n < length rest"
    proof -
      have "open_line ((sp_buffer p @ c) @ y) = open_line (rest @ y)" for y
        using open_line_append [of "sp_buffer p @ c" y] rest by simp
      then show ?thesis by (cases "n < length rest") (auto simp: not_less)
    qed
    moreover have "length (open_line (sp_buffer p @ c @ take (n - length rest) (concat cs))) \<le> MAX_BUFFER_SIZE"
      using Cons.prems(4)[rule_format, of "length (sp_buffer p @ c) + (n - length rest)"] by simp
    moreover have "length (open_line (take n (rest @ concat cs))) \<le> MAX_BUFFER_SIZE" if "n < length rest"
      using open_line_length [of "take n (rest @ concat cs)"] small that by simp
    ultimately show "length (open_line (take n (rest @ concat cs))) \<le> MAX_BUFFER_SIZE" by auto
  qed
  then have IH: "feed_all find2 cs q =
    (let (out, (current, has_data), r) = parse_lines (sp_cap p) (rest @ concat cs) (cur, hd)
     in (out, q\<lparr>sp_buffer := r, sp_current := current, sp_has_data := has_data, sp_scanned_len := length r\<rparr>))"
    using Cons.IH [OF qok] Cons.prems(2) by (simp add: q_def)
  show ?case
    using fd IH pl parse_lines_append [of "sp_cap p" "sp_buffer p @ c" "concat cs" "(sp_current p, sp_has_data p)"]
    by (simp add: q_def split: prod.splits)
qed

lemma feed_all_new:
  assumes "bom_not_split chunks"
    and "\<forall>n. length (open_line (take n (without_bom (concat chunks)))) \<le> MAX_BUFFER_SIZE"
  shows "feed_all find2 chunks parser_new =
    (let (out, (current, has_data), rest) =
           parse_lines MAX_EVENT_DATA_BYTES (without_bom (concat chunks)) (default_event, False)
     in (out, \<lparr>sp_buffer = rest, sp_current = current, sp_has_data = has_data,
               sp_bom_checked = (concat chunks \<noteq> []), sp_scanned_len = length rest, sp_cap = MAX_EVENT_DATA_BYTES\<rparr>))"
  using assms
proof (induction chunks)
  case Nil
  then show ?case by (simp add: parser_new_def without_bom_def bom_def parse_lines_stop)
next
  case (Cons c cs)
  have new_ok: "parser_ok parser_new" by (simp add: parser_ok_def parser_new_def)
  show ?case
  proof (cases "c = []")
    case True
    have "feed find2 c parser_new = ([], parser_new)"
      using feed_is_reference [OF new_ok] True
      by (simp add: feed_reference_def parser_new_def without_bom_def bom_def parse_lines_stop)
    then show ?thesis using Cons True by (simp add: bom_not_split_def split: prod.splits)
  next
    case False
    have sb: "without_bom (c @ concat cs) = without_bom c @ concat cs"
      using Cons.prems(1) False by (intro without_bom_first) (auto simp: bom_not_split_def)
    define p where "p = parser_new\<lparr>sp_bom_checked := True\<rparr>"
    have "feed find2 c parser_new = feed find2 (without_bom c) p"
      using False by (simp add: feed_is_reference new_ok parser_ok_def p_def feed_reference_def parser_new_def)
    then have "feed_all find2 (c # cs) parser_new = feed_all find2 (without_bom c # cs) p" by simp
    then show ?thesis
      using feed_all_checked [of p "without_bom c # cs"] Cons.prems(2) False sb
      by (simp add: p_def parser_new_def parser_ok_def)
  qed
qed


lemma parser_inv_step: "parser_inv s \<Longrightarrow> parser_inv (parser_step find2 opn s)"
  and parser_cap_step: "parser_inv s \<Longrightarrow> sp_cap (fst (parser_step find2 opn s)) = sp_cap (fst s)"
proof -
  obtain p outs where s: "s = (p, outs)" by force
  assume inv: "parser_inv s"
  then have "parser_ok p" by (simp add: s parser_inv_def)
  note fd = feed_is_reference [OF this]
  show "parser_inv (parser_step find2 opn s)"
    using inv_feed_reference(1) [of p outs] inv_flush(1) [of p outs] inv fd
    by (cases opn) (simp_all add: parser_step_def s split_beta)
next
  obtain p outs where s: "s = (p, outs)" by force
  assume inv: "parser_inv s"
  then have "parser_ok p" by (simp add: s parser_inv_def)
  note fd = feed_is_reference [OF this]
  show "sp_cap (fst (parser_step find2 opn s)) = sp_cap (fst s)"
    using inv_feed_reference(2) [of p outs] inv_flush(2) [of p outs "fst (flush p)" "snd (flush p)"] inv fd
    by (cases opn) (simp_all add: parser_step_def s split_beta)
qed

end

sublocale byte_search \<subseteq> parsing: bounded_machine parser_inv "parser_step find2"
  "\<lambda>s. length (ev_data (sp_current (fst s)))" "\<lambda>s. sp_cap (fst s)"
proof
  show "parser_inv s \<Longrightarrow> length (ev_data (sp_current (fst s))) \<le> sp_cap (fst s)" for s
    by (auto simp: parser_inv_def small_event_def)
qed (simp_all add: parser_inv_step parser_cap_step)

context byte_search
begin

lemma parsing_run:
  assumes "parser_inv s"
  shows "parser_inv (fold (parser_step find2) ops s)"
    and "sp_cap (fst (fold (parser_step find2) ops s)) = sp_cap (fst s)"
  using assms by (rule parsing.inv_run parsing.capacity_run)+

end

text \<open>A search that meets the contract: the first position, byte by byte.\<close>

fun first_of :: "nat \<Rightarrow> nat \<Rightarrow> bytes \<Rightarrow> nat option" where
  "first_of a b [] = None"
| "first_of a b (c # cs) = (if c = a \<or> c = b then Some 0 else map_option Suc (first_of a b cs))"

lemma first_of_some:
  "first_of a b bs = Some i \<Longrightarrow>
   i < length bs \<and> (bs ! i = a \<or> bs ! i = b) \<and> (\<forall>j < i. bs ! j \<noteq> a \<and> bs ! j \<noteq> b)"
  by (induction bs arbitrary: i) (fastforce split: if_splits simp: less_Suc_eq_0_disj)+

interpretation scan: byte_search first_of
proof
  show "first_of a b bs = None \<longleftrightarrow> a \<notin> set bs \<and> b \<notin> set bs" for a b bs
    by (induction bs) auto
qed (rule first_of_some)

section \<open>The wire format\<close>

text \<open>
  How a server writes an event: its fields line by line, one \<open>data\<close> line per line of data, and a
  blank line. An identifier and a retry hint stay in force for later events that have none.
\<close>

definition field_line :: "string \<Rightarrow> bytes \<Rightarrow> bytes" where
  "field_line name value = lit name @ [58, 32] @ value @ [10]"

definition print_event :: "sse_event \<Rightarrow> bytes" where
  "print_event e =
     field_line ''event'' (ev_event e) @
     (case ev_id e of None \<Rightarrow> [] | Some i \<Rightarrow> field_line ''id'' i) @
     (case ev_retry e of None \<Rightarrow> [] | Some r \<Rightarrow> field_line ''retry'' (decimal r)) @
     concat (map (field_line ''data'') (split_lines (ev_data e))) @ [10]"

definition one_line :: "bytes \<Rightarrow> bool" where
  "one_line v \<longleftrightarrow> 10 \<notin> set v \<and> 13 \<notin> set v"

definition printable :: "usize \<Rightarrow> sse_event \<Rightarrow> bool" where
  "printable cap e \<longleftrightarrow> ev_event e \<noteq> [] \<and> one_line (ev_event e) \<and> 13 \<notin> set (ev_data e) \<and>
     length (ev_data e) < cap \<and>
     (case ev_id e of None \<Rightarrow> True | Some i \<Rightarrow> one_line i \<and> 0 \<notin> set i) \<and>
     (case ev_retry e of None \<Rightarrow> True | Some r \<Rightarrow> r \<le> u64_max)"

definition inherit_fields :: "sse_event \<Rightarrow> sse_event \<Rightarrow> sse_event" where
  "inherit_fields prev e =
     e\<lparr>ev_id := (case ev_id e of None \<Rightarrow> ev_id prev | Some i \<Rightarrow> Some i),
       ev_retry := (case ev_retry e of None \<Rightarrow> ev_retry prev | Some r \<Rightarrow> Some r)\<rparr>"

fun inherit_all :: "sse_event \<Rightarrow> sse_event list \<Rightarrow> sse_event list" where
  "inherit_all prev [] = []"
| "inherit_all prev (e # es) = inherit_fields prev e # inherit_all (inherit_fields prev e) es"

lemma decimal_digits: "list_all is_ascii_digit (decimal n) \<and> decimal n \<noteq> []"
  by (induction n rule: decimal.induct) (subst (1 2) decimal.simps, auto simp: is_ascii_digit_def list_all_iff)

lemma decimal_value: "foldl (\<lambda>acc b. acc * 10 + (b - 48)) 0 (decimal n) = n"
  by (induction n rule: decimal.induct) (subst decimal.simps, auto)

lemma parse_retry_decimal: "r \<le> u64_max \<Longrightarrow> parse_retry (decimal r) = Some r"
  by (simp add: parse_retry_def parse_digits_def decimal_digits decimal_value)

lemma digits_one_line: "list_all is_ascii_digit v \<Longrightarrow> one_line v"
  by (auto simp: one_line_def is_ascii_digit_def list_all_iff)

lemma split_lines_nonempty [simp]: "split_lines bs \<noteq> []"
  by (cases bs) (auto split: list.splits)

lemma split_lines_join: "concat (map (\<lambda>l. l @ [10]) (split_lines bs)) = bs @ [10]"
proof (induction bs)
  case (Cons b bs)
  then show ?case by (cases "split_lines bs") auto
qed simp

lemma split_lines_one_line: "13 \<notin> set bs \<Longrightarrow> list_all one_line (split_lines bs)"
proof (induction bs)
  case (Cons b bs)
  then show ?case by (cases "split_lines bs") (auto simp: one_line_def)
qed (simp add: one_line_def)

lemma intern_event_type_id [simp]: "intern_event_type v = v"
  by (auto simp: intern_event_type_def find_Some_iff split: option.splits)

text \<open>One field line, seen from the reference parser.\<close>

lemma parse_field_line:
  assumes "58 \<notin> set (lit name)" and "lit name \<noteq> []" and "one_line (lit name)" and "one_line value"
  shows "parse_lines cap (field_line name value @ rest) (current, has_data) =
    parse_lines cap rest
      (if lit name = lit ''event'' then (current\<lparr>ev_event := value\<rparr>, has_data)
       else if lit name = lit ''data'' then append_data_line cap value (current, has_data)
       else if lit name = lit ''id'' \<and> 0 \<notin> set value then (current\<lparr>ev_id := Some value\<rparr>, has_data)
       else if lit name = lit ''retry'' then (current\<lparr>ev_retry := parse_retry value\<rparr>, has_data)
       else (current, has_data))"
proof -
  define line where "line = lit name @ [58, 32] @ value"
  have plain: "\<forall>x \<in> set line. x \<noteq> 10 \<and> x \<noteq> 13" using assms by (auto simp: line_def one_line_def)
  have spl: "split_line (field_line name value @ rest) = Some (line, rest)"
    using split_line_plain [OF plain, of rest] by (simp add: field_line_def line_def)
  have so: "split_once 58 line = Some (lit name, 32 # value)"
    using split_once_append [OF assms(1), of "32 # value"] by (simp add: line_def)
  have hd: "line \<noteq> []" "hd line \<noteq> 58"
    using assms(1,2) by (auto simp: line_def hd_append) (metis list.set_sel(1))
  have pc: "process_complete_line cap line (current, has_data) = ([], process_line cap line (current, has_data))"
    using hd(1) by (simp add: process_complete_line_def)
  show ?thesis
    using so hd
    by (simp add: parse_lines_step [OF spl] pc process_line_def strip_space_def split: prod.splits)
qed

lemma lit_names:
  "lit ''event'' = [101, 118, 101, 110, 116]" "lit ''data'' = [100, 97, 116, 97]"
  "lit ''id'' = [105, 100]" "lit ''retry'' = [114, 101, 116, 114, 121]"
  by (simp_all add: lit_def)

lemma parse_data_lines:
  assumes "list_all one_line ls" and "length (ev_data current) + length (concat (map (\<lambda>l. l @ [10]) ls)) \<le> cap"
  shows "parse_lines cap (concat (map (field_line ''data'') ls) @ rest) (current, has_data) =
    parse_lines cap rest
      (current\<lparr>ev_data := ev_data current @ concat (map (\<lambda>l. l @ [10]) ls)\<rparr>, has_data \<or> ls \<noteq> [])"
  using assms
proof (induction ls arbitrary: current has_data)
  case (Cons l ls)
  have "parse_lines cap (concat (map (field_line ''data'') (l # ls)) @ rest) (current, has_data) =
      parse_lines cap (concat (map (field_line ''data'') ls) @ rest)
        (current\<lparr>ev_data := ev_data current @ l @ [10]\<rparr>, True)"
    using parse_field_line [of "''data''" l cap "concat (map (field_line ''data'') ls) @ rest" current has_data] Cons.prems
    by (simp add: lit_names one_line_def append_data_line_def)
  also have "\<dots> = parse_lines cap rest
      (current\<lparr>ev_data := ev_data current @ concat (map (\<lambda>l. l @ [10]) (l # ls))\<rparr>, has_data \<or> l # ls \<noteq> [])"
    using Cons.IH [of "current\<lparr>ev_data := ev_data current @ l @ [10]\<rparr>" True] Cons.prems by simp
  finally show ?case .
qed simp

lemma parse_printed:
  assumes "printable cap e" and "ev_data current = []"
  shows "parse_lines cap (print_event e @ rest) (current, False) =
    (let (outs, st, tail) = parse_lines cap rest (carry_forward_event_state (inherit_fields current e), False)
     in (inherit_fields current e # outs, st, tail))"
proof -
  define c1 where "c1 = current\<lparr>ev_event := ev_event e\<rparr>"
  define c2 where "c2 = c1\<lparr>ev_id := (case ev_id e of None \<Rightarrow> ev_id current | Some i \<Rightarrow> Some i)\<rparr>"
  define c3 where "c3 = c2\<lparr>ev_retry := (case ev_retry e of None \<Rightarrow> ev_retry current | Some r \<Rightarrow> Some r)\<rparr>"
  define dls where "dls = concat (map (field_line ''data'') (split_lines (ev_data e)))"
  have ok: "one_line (ev_event e)" "ev_event e \<noteq> []" "13 \<notin> set (ev_data e)" "length (ev_data e) < cap"
    using assms(1) by (simp_all add: printable_def)
  have s1: "parse_lines cap (field_line ''event'' (ev_event e) @ r) (current, False) = parse_lines cap r (c1, False)" for r
    using parse_field_line [of "''event''" "ev_event e"] ok(1) by (simp add: lit_names one_line_def c1_def)
  have s2: "parse_lines cap ((case ev_id e of None \<Rightarrow> [] | Some i \<Rightarrow> field_line ''id'' i) @ r) (c1, False) =
      parse_lines cap r (c2, False)" for r
    using parse_field_line [of "''id''" "the (ev_id e)"] assms(1)
    by (cases "ev_id e") (simp_all add: lit_names one_line_def c1_def c2_def printable_def)
  have s3: "parse_lines cap ((case ev_retry e of None \<Rightarrow> [] | Some n \<Rightarrow> field_line ''retry'' (decimal n)) @ r) (c2, False) =
      parse_lines cap r (c3, False)" for r
    using parse_field_line [of "''retry''" "decimal (the (ev_retry e))"] assms(1)
      digits_one_line [of "decimal (the (ev_retry e))"]
    by (cases "ev_retry e")
      (simp_all add: lit_names one_line_def c1_def c2_def c3_def printable_def decimal_digits parse_retry_decimal)
  have s4: "parse_lines cap (dls @ r) (c3, False) = parse_lines cap r (c3\<lparr>ev_data := ev_data e @ [10]\<rparr>, True)" for r
    using parse_data_lines [of "split_lines (ev_data e)" c3 cap r False] ok(3,4) assms(2)
    by (simp add: split_lines_join split_lines_one_line c1_def c2_def c3_def dls_def)
  have "finish_event (c3\<lparr>ev_data := ev_data e @ [10]\<rparr>) = inherit_fields current e"
    using ok(2) by (simp add: finish_event_def c1_def c2_def c3_def inherit_fields_def)
  moreover have "carry_forward_event_state (c3\<lparr>ev_data := ev_data e @ [10]\<rparr>) =
      carry_forward_event_state (inherit_fields current e)"
    by (simp add: carry_forward_event_state_def c1_def c2_def c3_def inherit_fields_def)
  ultimately have s5: "parse_lines cap (10 # rest) (c3\<lparr>ev_data := ev_data e @ [10]\<rparr>, True) =
     (let (outs, st, tail) = parse_lines cap rest (carry_forward_event_state (inherit_fields current e), False)
      in (inherit_fields current e # outs, st, tail))"
    using parse_lines_step [of "10 # rest" "[]" rest] by (simp add: process_complete_line_def)
  have "print_event e @ rest = field_line ''event'' (ev_event e) @
      (case ev_id e of None \<Rightarrow> [] | Some i \<Rightarrow> field_line ''id'' i) @
      (case ev_retry e of None \<Rightarrow> [] | Some n \<Rightarrow> field_line ''retry'' (decimal n)) @ dls @ 10 # rest"
    by (simp add: print_event_def dls_def)
  then show ?thesis by (simp only: s1 s2 s3 s4 s5)
qed

lemma inherit_carried: "inherit_fields (carry_forward_event_state p) e = inherit_fields p e"
  by (cases "ev_id e"; cases "ev_retry e") (simp_all add: inherit_fields_def carry_forward_event_state_def)

lemma parse_printed_all:
  assumes "list_all (printable cap) es" and "ev_data current = []"
  shows "\<exists>st. parse_lines cap (concat (map print_event es)) (current, False) = (inherit_all current es, st, [])"
  using assms
proof (induction es arbitrary: current)
  case Nil
  then show ?case by (intro exI) (simp add: parse_lines_stop)
next
  case (Cons e es)
  let ?next = "carry_forward_event_state (inherit_fields current e)"
  have "inherit_all ?next es = inherit_all (inherit_fields current e) es"
    by (cases es) (simp_all add: inherit_carried)
  moreover have "ev_data ?next = []" by (simp add: carry_forward_event_state_def default_event_def)
  ultimately obtain st where
    "parse_lines cap (concat (map print_event es)) (?next, False) = (inherit_all (inherit_fields current e) es, st, [])"
    using Cons.IH [of ?next] Cons.prems(1) by auto
  then show ?case
    using parse_printed [of cap e current "concat (map print_event es)"] Cons.prems by simp
qed

section \<open>Properties\<close>

text \<open>
  C8: However the text of a stream is cut into chunks, the parser hands out the events of the
  whole text and ends in the state of the whole text: the events are those that a plain
  line-by-line reading of the concatenated chunks gives, after one byte order mark at the
  start is removed; the buffer holds exactly the bytes after the last complete line, a trailing
  carriage return among them. The assumptions are the contract of the byte search, that no
  chunk cuts the byte order mark (chunks are strings), and that no line outgrows the buffer.
\<close>

theorem chunks_parse_as_whole:
  assumes "byte_search find2" and "bom_not_split chunks"
    and "\<forall>n. length (open_line (take n (without_bom (concat chunks)))) \<le> MAX_BUFFER_SIZE"
  shows "feed_all find2 chunks parser_new =
    (let (out, (current, has_data), rest) =
           parse_lines MAX_EVENT_DATA_BYTES (without_bom (concat chunks)) (default_event, False)
     in (out, \<lparr>sp_buffer = rest, sp_current = current, sp_has_data = has_data,
               sp_bom_checked = (concat chunks \<noteq> []), sp_scanned_len = length rest, sp_cap = MAX_EVENT_DATA_BYTES\<rparr>))"
  using assms by (rule byte_search.feed_all_new)

lemma short_text_in_limit:
  "length source \<le> MAX_BUFFER_SIZE \<Longrightarrow> \<forall>n. length (open_line (take n source)) \<le> MAX_BUFFER_SIZE"
  by (metis (no_types) open_line_length length_take min.cobounded1 order.trans)

lemmas sse_run = lit_def default_event_def bom_not_split_def bom_def MAX_BUFFER_SIZE_def MAX_EVENT_DATA_BYTES_def
  printable_def one_line_def print_event_def field_line_def decimal.simps without_bom_def

theorem chunks_parse_as_whole_witness:
  "map (\<lambda>e. (ev_event e, ev_data e)) (fst (feed_all first_of [bom @ lit ''da'', lit ''ta: a'', [13], [10, 13]] parser_new)) = [] \<and>
   sp_buffer (snd (feed_all first_of [bom @ lit ''da'', lit ''ta: a'', [13], [10, 13]] parser_new)) = [13]"
proof -
  let ?chunks = "[bom @ lit ''da'', lit ''ta: a'', [13], [10, 13]]"
  have "\<forall>n. length (open_line (take n (without_bom (concat ?chunks)))) \<le> MAX_BUFFER_SIZE"
    by (rule short_text_in_limit) (simp add: sse_run)
  from chunks_parse_as_whole [OF scan.byte_search_axioms _ this]
  show ?thesis
    by (simp add: sse_run parse_lines.simps process_complete_line_def process_line_def append_data_line_def strip_space_def)
qed

lemma printed_no_bom:
  "list_all (printable cap) es \<Longrightarrow> without_bom (concat (map print_event es)) = concat (map print_event es)"
  by (cases es) (simp_all add: without_bom_def bom_def print_event_def field_line_def lit_names)

lemma printed_chunks_no_bom:
  assumes "concat chunks = concat (map print_event es)"
  shows "bom_not_split chunks"
proof (cases "dropWhile (\<lambda>c. c = []) chunks")
  case (Cons c cs)
  have "concat (dropWhile (\<lambda>c. c = []) xs) = concat xs" for xs :: "bytes list" by (induction xs) auto
  then have eq: "c @ concat cs = concat (map print_event es)" using assms Cons by (metis concat.simps(2))
  have "c \<noteq> []" using Cons by (metis (mono_tags) hd_dropWhile list.distinct(1) list.sel(1))
  moreover have "concat (map print_event es) \<noteq> [] \<Longrightarrow> hd (concat (map print_event es)) = 101"
    by (cases es) (simp_all add: print_event_def field_line_def lit_names)
  ultimately have "hd c = 101" using eq by (metis append_is_Nil_conv hd_append2)
  then show ?thesis using Cons by (auto simp: bom_not_split_def bom_def)
next
  case Nil
  then show ?thesis unfolding bom_not_split_def by (simp only: list.case)
qed

text \<open>
  C24: Events written in the wire format are read back: when the text of any list of events,
  each written with its fields, one data line per line of data and a blank line, arrives in
  any chunks, the parser hands out exactly these events in order and keeps nothing in its
  buffer. An event without identifier or retry hint is read with those of the event before it.
\<close>

theorem printed_events_read_back:
  assumes "byte_search find2" and "list_all (printable MAX_EVENT_DATA_BYTES) es"
    and "concat chunks = concat (map print_event es)"
    and "\<forall>n. length (open_line (take n (concat chunks))) \<le> MAX_BUFFER_SIZE"
  shows "fst (feed_all find2 chunks parser_new) = inherit_all default_event es \<and>
    sp_buffer (snd (feed_all find2 chunks parser_new)) = []"
proof -
  have sb: "without_bom (concat chunks) = concat (map print_event es)"
    using printed_no_bom assms(2,3) by simp
  have lim: "\<forall>n. length (open_line (take n (without_bom (concat chunks)))) \<le> MAX_BUFFER_SIZE"
    using assms(3,4) sb by simp
  obtain c hd where "parse_lines MAX_EVENT_DATA_BYTES (concat (map print_event es)) (default_event, False) =
      (inherit_all default_event es, (c, hd), [])"
    using parse_printed_all [OF assms(2), of default_event] by (auto simp: default_event_def)
  then show ?thesis
    using byte_search.feed_all_new [OF assms(1) printed_chunks_no_bom [OF assms(3)] lim] sb by simp
qed

theorem printed_events_read_back_witness:
  "let a = default_event\<lparr>ev_data := lit ''x'' @ [10] @ lit ''y'', ev_id := Some (lit ''7''), ev_retry := Some 250\<rparr>;
       b = default_event\<lparr>ev_event := lit ''ping'', ev_data := lit ''z''\<rparr>;
       content = concat (map print_event [a, b])
   in fst (feed_all first_of [take 9 content, drop 9 content] parser_new) =
        [a, b\<lparr>ev_id := Some (lit ''7''), ev_retry := Some 250\<rparr>]"
proof -
  define a where "a = default_event\<lparr>ev_data := lit ''x'' @ [10] @ lit ''y'', ev_id := Some (lit ''7''), ev_retry := Some 250\<rparr>"
  define b where "b = default_event\<lparr>ev_event := lit ''ping'', ev_data := lit ''z''\<rparr>"
  define content where "content = concat (map print_event [a, b])"
  have ok: "list_all (printable MAX_EVENT_DATA_BYTES) [a, b]"
    by (simp add: a_def b_def sse_run u64_max_def)
  have lim: "\<forall>n. length (open_line (take n (concat [take 9 content, drop 9 content]))) \<le> MAX_BUFFER_SIZE"
    by (rule short_text_in_limit) (simp add: content_def a_def b_def sse_run)
  have "concat [take 9 content, drop 9 content] = content" by simp
  then have "concat [take 9 content, drop 9 content] = concat (map print_event [a, b])"
    by (simp only: content_def)
  from printed_events_read_back [OF scan.byte_search_axioms ok this lim]
  have "fst (feed_all first_of [take 9 content, drop 9 content] parser_new) = inherit_all default_event [a, b]" by simp
  moreover have "inherit_all default_event [a, b] = [a, b\<lparr>ev_id := Some (lit ''7''), ev_retry := Some 250\<rparr>]"
    by (simp add: a_def b_def inherit_fields_def default_event_def)
  ultimately have "fst (feed_all first_of [take 9 content, drop 9 content] parser_new) =
      [a, b\<lparr>ev_id := Some (lit ''7''), ev_retry := Some 250\<rparr>]" by (rule trans)
  then show ?thesis unfolding a_def b_def content_def Let_def .
qed

text \<open>
  The parser's memory is bounded whatever the stream sends: after any sequence of chunks
  and flushes the buffer holds at most 10 MiB, the event under construction at most 100 MiB of
  data, and so does every event that was handed out.
\<close>

theorem parser_memory_bounded:
  assumes "byte_search find2"
  shows "case fold (parser_step find2) ops (parser_new, []) of (p, outs) \<Rightarrow>
     length (sp_buffer p) \<le> MAX_BUFFER_SIZE \<and> length (ev_data (sp_current p)) \<le> MAX_EVENT_DATA_BYTES \<and>
     list_all (\<lambda>e. length (ev_data e) \<le> MAX_EVENT_DATA_BYTES) outs"
proof -
  have start: "parser_inv (parser_new, [])"
    by (simp add: parser_inv_def parser_new_def parser_ok_def small_event_def default_event_def MAX_EVENT_DATA_BYTES_def)
  obtain p outs where run: "fold (parser_step find2) ops (parser_new, []) = (p, outs)" by force
  have "parser_inv (p, outs)" and cap: "sp_cap p = MAX_EVENT_DATA_BYTES"
    using byte_search.parsing_run [OF assms start, of ops] run by (simp_all add: parser_new_def)
  then show ?thesis using cap run by (simp add: parser_inv_def small_event_def list_all_iff)
qed

theorem parser_memory_bounded_witness:
  "case fold (parser_step first_of) [Feed (lit ''data: a''), Flush] (parser_new, []) of (p, outs) \<Rightarrow>
     length (sp_buffer p) \<le> MAX_BUFFER_SIZE \<and> length (ev_data (sp_current p)) \<le> MAX_EVENT_DATA_BYTES \<and>
     list_all (\<lambda>e. length (ev_data e) \<le> MAX_EVENT_DATA_BYTES) outs"
  by (rule parser_memory_bounded [OF scan.byte_search_axioms])

end
