(* ===== verification/Sse_Stream.thy ===== *)
theory Sse_Stream
  imports Sse
begin

text \<open>
  The byte stream in front of the event parser (\<open>SseStream\<close> of \<open>src/src/sse.rs\<close>): it cuts the
  incoming chunks at UTF-8 boundaries, keeps an unfinished character for the next chunk, hands
  the text to the parser and gives out its events one per poll, with the errors of the inner
  stream and of the decoding in their place. The inner stream is the list of what its next
  polls answer; at its end it answers that it has ended.
\<close>

section \<open>The stream\<close>

datatype io_error = InvalidUtf8 | IncompleteUtf8 | Utf8Error | InnerError nat

datatype inner_poll = Chunk bytes | Failure nat | NotReady

datatype poll_result = PollPending | PollEvent sse_event | PollError io_error | PollEnd

record sse_stream =
  ss_inner :: "inner_poll list"
  ss_parser :: sse_parser
  ss_pending_events :: "sse_event list"
  ss_pending_error :: "io_error option"
  ss_pending_error_is_terminal :: bool
  ss_terminated :: bool
  ss_utf8_buffer :: bytes

definition stream_new :: "inner_poll list \<Rightarrow> sse_stream" where
  "stream_new inner = \<lparr>ss_inner = inner, ss_parser = parser_new, ss_pending_events = [],
     ss_pending_error = None, ss_pending_error_is_terminal = False, ss_terminated = False, ss_utf8_buffer = []\<rparr>"

definition feed_parsed_chunk :: "(nat \<Rightarrow> nat \<Rightarrow> bytes \<Rightarrow> nat option) \<Rightarrow> bytes \<Rightarrow>
  sse_parser \<times> sse_event list \<Rightarrow> sse_parser \<times> sse_event list" where
  "feed_parsed_chunk find2 s ps =
     (let (parser, pending) = ps; (out, parser1) = feed_into find2 s parser in (parser1, pending @ out))"

text \<open>
  The loop both chunk operations share, over the position of the next byte to decode. It ends
  with the position of an unfinished character, if there is one, and the first error. The
  re-validation of a prefix that was just found valid has an error branch in the code; it is
  kept here.
\<close>

datatype chunk_end = AllDecoded "io_error option" | TailAt nat "io_error option" | Abort io_error

function chunk_loop :: "(nat \<Rightarrow> nat \<Rightarrow> bytes \<Rightarrow> nat option) \<Rightarrow> bytes \<Rightarrow> nat \<Rightarrow> io_error option \<Rightarrow>
  sse_parser \<times> sse_event list \<Rightarrow> chunk_end \<times> sse_parser \<times> sse_event list" where
  "chunk_loop find2 bytes processed first_error ps =
     (case from_utf8 (drop processed bytes) of
        None \<Rightarrow>
          (AllDecoded first_error,
           if drop processed bytes \<noteq> [] then feed_parsed_chunk find2 (drop processed bytes) ps else ps)
      | Some (valid_len, error_len) \<Rightarrow>
          let s = take valid_len (drop processed bytes) in
          if valid_len > 0 \<and> from_utf8 s \<noteq> None then (Abort Utf8Error, ps)
          else
            let ps1 = (if valid_len > 0 then feed_parsed_chunk find2 s ps else ps);
                processed1 = processed + valid_len
            in case error_len of
                 Some invalid_len \<Rightarrow>
                   chunk_loop find2 bytes (processed1 + invalid_len)
                     (case first_error of None \<Rightarrow> Some InvalidUtf8 | Some e \<Rightarrow> Some e) ps1
               | None \<Rightarrow> (TailAt processed1 first_error, ps1))"
  by pat_completeness auto
termination
  by (relation "measure (\<lambda>(find2, bytes, processed, first_error, ps). length bytes - processed)")
    (auto dest!: from_utf8_bounds)

declare chunk_loop.simps [simp del]

definition process_chunk_without_utf8_tail :: "(nat \<Rightarrow> nat \<Rightarrow> bytes \<Rightarrow> nat option) \<Rightarrow> bytes \<Rightarrow> sse_stream \<Rightarrow>
  io_error option \<times> sse_stream" where
  "process_chunk_without_utf8_tail find2 bytes s =
     (let (ending, parser, pending) = chunk_loop find2 bytes 0 None (ss_parser s, ss_pending_events s);
          s1 = s\<lparr>ss_parser := parser, ss_pending_events := pending\<rparr>
      in case ending of
           AllDecoded e \<Rightarrow> (e, s1)
         | TailAt processed e \<Rightarrow> (e, s1\<lparr>ss_utf8_buffer := ss_utf8_buffer s1 @ drop processed bytes\<rparr>)
         | Abort e \<Rightarrow> (Some e, s1))"

definition process_chunk_with_utf8_tail :: "(nat \<Rightarrow> nat \<Rightarrow> bytes \<Rightarrow> nat option) \<Rightarrow> bytes \<Rightarrow> sse_stream \<Rightarrow>
  io_error option \<times> sse_stream" where
  "process_chunk_with_utf8_tail find2 bytes s =
     (let s0 = s\<lparr>ss_utf8_buffer := ss_utf8_buffer s @ bytes\<rparr>;
          (ending, parser, pending) =
            chunk_loop find2 (ss_utf8_buffer s0) 0 None (ss_parser s0, ss_pending_events s0);
          s1 = s0\<lparr>ss_parser := parser, ss_pending_events := pending\<rparr>
      in case ending of
           AllDecoded e \<Rightarrow> (e, s1\<lparr>ss_utf8_buffer := []\<rparr>)
         | TailAt processed e \<Rightarrow> (e, s1\<lparr>ss_utf8_buffer := drop processed (ss_utf8_buffer s1)\<rparr>)
         | Abort e \<Rightarrow> (Some e, s1))"

definition process_chunk :: "(nat \<Rightarrow> nat \<Rightarrow> bytes \<Rightarrow> nat option) \<Rightarrow> bytes \<Rightarrow> sse_stream \<Rightarrow>
  io_error option \<times> sse_stream" where
  "process_chunk find2 bytes s =
     (if ss_utf8_buffer s = [] then process_chunk_without_utf8_tail find2 bytes s
      else process_chunk_with_utf8_tail find2 bytes s)"

definition poll_stream_end :: "sse_stream \<Rightarrow> poll_result \<times> sse_stream" where
  "poll_stream_end s =
     (if ss_utf8_buffer s \<noteq> [] then
        (PollError IncompleteUtf8,
         s\<lparr>ss_utf8_buffer := [], ss_pending_events := [], ss_pending_error := None,
           ss_parser := parser_new, ss_terminated := True\<rparr>)
      else
        let (last_event, parser) = flush (ss_parser s);
            s1 = s\<lparr>ss_parser := parser, ss_terminated := True\<rparr>
        in case last_event of Some event \<Rightarrow> (PollEvent event, s1) | None \<Rightarrow> (PollEnd, s1))"

text \<open>The loop over the inner stream: until an event, an error, the end, or nothing to read.\<close>

fun poll_inner :: "(nat \<Rightarrow> nat \<Rightarrow> bytes \<Rightarrow> nat option) \<Rightarrow> inner_poll list \<Rightarrow> sse_stream \<Rightarrow> poll_result \<times> sse_stream" where
  "poll_inner find2 [] s = poll_stream_end (s\<lparr>ss_inner := []\<rparr>)"
| "poll_inner find2 (NotReady # inner) s = (PollPending, s\<lparr>ss_inner := inner\<rparr>)"
| "poll_inner find2 (Failure e # inner) s = (PollError (InnerError e), s\<lparr>ss_inner := inner\<rparr>)"
| "poll_inner find2 (Chunk bytes # inner) s =
     (let (err, s1) = process_chunk find2 bytes (s\<lparr>ss_inner := inner\<rparr>) in
      case err of
        Some e \<Rightarrow>
          (case ss_pending_events s1 of
             event # events \<Rightarrow>
               (PollEvent event,
                s1\<lparr>ss_pending_events := events, ss_pending_error := Some e, ss_pending_error_is_terminal := True\<rparr>)
           | [] \<Rightarrow>
               (PollError e,
                s1\<lparr>ss_pending_events := [], ss_utf8_buffer := [], ss_parser := parser_new, ss_terminated := True\<rparr>))
      | None \<Rightarrow>
          (case ss_pending_events s1 of
             event # events \<Rightarrow> (PollEvent event, s1\<lparr>ss_pending_events := events\<rparr>)
           | [] \<Rightarrow> poll_inner find2 inner s1))"

definition poll_next_event :: "(nat \<Rightarrow> nat \<Rightarrow> bytes \<Rightarrow> nat option) \<Rightarrow> sse_stream \<Rightarrow> poll_result \<times> sse_stream" where
  "poll_next_event find2 s =
     (case ss_pending_events s of
        event # events \<Rightarrow> (PollEvent event, s\<lparr>ss_pending_events := events\<rparr>)
      | [] \<Rightarrow>
          (case ss_pending_error s of
             Some err \<Rightarrow>
               (let s1 = s\<lparr>ss_pending_error := None\<rparr> in
                (PollError err,
                 if ss_pending_error_is_terminal s1
                 then s1\<lparr>ss_pending_error_is_terminal := False, ss_pending_events := [], ss_utf8_buffer := [],
                         ss_parser := parser_new, ss_terminated := True\<rparr>
                 else s1))
           | None \<Rightarrow> if ss_terminated s then (PollEnd, s) else poll_inner find2 (ss_inner s) s))"

text \<open>The consumer: a number of polls in a row.\<close>

fun poll_many :: "(nat \<Rightarrow> nat \<Rightarrow> bytes \<Rightarrow> nat option) \<Rightarrow> nat \<Rightarrow> sse_stream \<Rightarrow> poll_result list \<times> sse_stream" where
  "poll_many find2 0 s = ([], s)"
| "poll_many find2 (Suc n) s =
     (let (r, s1) = poll_next_event find2 s; (rs, s2) = poll_many find2 n s1 in (r # rs, s2))"

section \<open>After the end\<close>

definition terminal_result :: "poll_result \<Rightarrow> bool" where
  "terminal_result r =
     (case r of PollEnd \<Rightarrow> True
      | PollError e \<Rightarrow> (case e of InnerError k \<Rightarrow> False | _ \<Rightarrow> True)
      | _ \<Rightarrow> False)"

definition stream_ok :: "sse_stream \<Rightarrow> bool" where
  "stream_ok s \<longleftrightarrow> (ss_pending_error s \<noteq> None \<longrightarrow> ss_pending_error_is_terminal s)"

definition finished :: "sse_stream \<Rightarrow> bool" where
  "finished s \<longleftrightarrow> ss_pending_events s = [] \<and> ss_pending_error s = None \<and> ss_terminated s"

lemma process_chunk_frame:
  assumes "process_chunk find2 bytes s = (err, s1)"
  shows "ss_inner s1 = ss_inner s" and "ss_pending_error s1 = ss_pending_error s"
    and "ss_pending_error_is_terminal s1 = ss_pending_error_is_terminal s"
    and "ss_terminated s1 = ss_terminated s"
  using assms
  by (auto simp: process_chunk_def process_chunk_with_utf8_tail_def process_chunk_without_utf8_tail_def Let_def
      split: if_splits prod.splits chunk_end.splits)

lemma poll_stream_end_final:
  assumes "poll_stream_end s = (r, s1)" and "ss_pending_events s = []" and "ss_pending_error s = None"
  shows "finished s1" and "stream_ok s1"
  using assms by (auto simp: poll_stream_end_def finished_def stream_ok_def Let_def split: if_splits prod.splits option.splits)

lemma poll_inner_final:
  assumes "poll_inner find2 inner s = (r, s1)" and "ss_pending_events s = []" and "ss_pending_error s = None"
  shows "stream_ok s1 \<and> (terminal_result r \<longrightarrow> finished s1)"
  using assms
proof (induction find2 inner s rule: poll_inner.induct)
  case (1 find2 s)
  then show ?case using poll_stream_end_final [of "s\<lparr>ss_inner := []\<rparr>" r s1] by simp
next
  case (2 find2 inner s)
  then show ?case by (auto simp: stream_ok_def terminal_result_def)
next
  case (3 find2 e inner s)
  then show ?case by (auto simp: stream_ok_def terminal_result_def)
next
  case (4 find2 bytes inner s)
  obtain err s2 where pc: "process_chunk find2 bytes (s\<lparr>ss_inner := inner\<rparr>) = (err, s2)" by (metis surj_pair)
  note fr = process_chunk_frame [OF pc]
  show ?case
  proof (cases "err = None \<and> ss_pending_events s2 = []")
    case True
    then have "poll_inner find2 inner s2 = (r, s1)" using "4.prems"(1) pc by simp
    then show ?thesis using "4.IH" [OF pc [symmetric]] True fr(2) "4.prems"(3) by simp
  next
    case False
    then show ?thesis
      using "4.prems" pc fr
      by (auto simp: stream_ok_def terminal_result_def finished_def split: option.splits list.splits)
  qed
qed

lemma poll_final:
  assumes "poll_next_event find2 s = (r, s1)" and "stream_ok s"
  shows "stream_ok s1 \<and> (terminal_result r \<longrightarrow> finished s1)"
proof (cases "ss_pending_events s = [] \<and> ss_pending_error s = None \<and> \<not> ss_terminated s")
  case True
  then show ?thesis
    using assms poll_inner_final [of find2 "ss_inner s" s r s1] by (simp add: poll_next_event_def)
next
  case False
  then show ?thesis
    using assms
    by (auto simp: poll_next_event_def stream_ok_def terminal_result_def finished_def Let_def
        split: list.splits option.splits if_splits)
qed

lemma poll_finished: "finished s \<Longrightarrow> poll_next_event find2 s = (PollEnd, s)"
  by (simp add: finished_def poll_next_event_def)

lemma poll_many_finished: "finished s \<Longrightarrow> poll_many find2 m s = (replicate m PollEnd, s)"
  by (induction m) (simp_all add: poll_finished)

lemma poll_many_final:
  "poll_many find2 n s = (rs, s1) \<Longrightarrow> stream_ok s \<Longrightarrow>
   stream_ok s1 \<and> (rs \<noteq> [] \<longrightarrow> terminal_result (last rs) \<longrightarrow> finished s1)"
proof (induction n arbitrary: s rs)
  case (Suc n)
  obtain r s2 where p: "poll_next_event find2 s = (r, s2)" by (metis surj_pair)
  obtain rs2 where pm: "poll_many find2 n s2 = (rs2, s1)" and rs: "rs = r # rs2"
    using Suc.prems(1) p by (auto split: prod.splits)
  note pf = poll_final [OF p Suc.prems(2)]
  show ?case
  proof (cases n)
    case 0
    then show ?thesis using pm pf rs by simp
  next
    case (Suc k)
    then have "rs2 \<noteq> []" using pm by (auto split: prod.splits)
    then show ?thesis using Suc.IH [OF pm] pf rs by simp
  qed
qed simp

section \<open>What the stream will deliver\<close>

fun bytes_of :: "inner_poll list \<Rightarrow> bytes" where
  "bytes_of [] = []"
| "bytes_of (Chunk c # inner) = c @ bytes_of inner"
| "bytes_of (_ # inner) = bytes_of inner"

text \<open>The strings that reach the parser, one per chunk that completes a character.\<close>

fun pieces :: "bytes \<Rightarrow> inner_poll list \<Rightarrow> bytes list" where
  "pieces u [] = []"
| "pieces u (Chunk c # inner) =
     (let bs = u @ c; v = valid_up_to bs
      in (if v > 0 then [take v bs] else []) @ pieces (drop v bs) inner)"
| "pieces u (_ # inner) = pieces u inner"

definition flushed :: "sse_event list \<times> sse_parser \<Rightarrow> sse_event list" where
  "flushed r = fst r @ (case fst (flush (snd r)) of None \<Rightarrow> [] | Some e \<Rightarrow> [e])"

definition future :: "(nat \<Rightarrow> nat \<Rightarrow> bytes \<Rightarrow> nat option) \<Rightarrow> sse_stream \<Rightarrow> sse_event list" where
  "future find2 s = ss_pending_events s @
     (if ss_terminated s then []
      else flushed (feed_all find2 (pieces (ss_utf8_buffer s) (ss_inner s)) (ss_parser s)))"

definition good :: "sse_stream \<Rightarrow> bool" where
  "good s \<longleftrightarrow> ss_pending_error s = None \<and> valid_up_to (ss_utf8_buffer s) = 0 \<and>
     (\<not> ss_terminated s \<longrightarrow> utf8_valid (ss_utf8_buffer s @ bytes_of (ss_inner s)) \<and>
        (\<forall>e. Failure e \<notin> set (ss_inner s)))"

lemma chunk_loop_valid:
  assumes "utf8_valid (bs @ b)"
  defines "v \<equiv> valid_up_to bs"
  shows "chunk_loop find2 bs 0 None ps =
    (if v = length bs then AllDecoded None else TailAt v None,
     if v > 0 then feed_parsed_chunk find2 (take v bs) ps else ps)"
proof (cases "from_utf8 bs")
  case None
  then show ?thesis by (subst chunk_loop.simps) (simp add: v_def valid_up_to_def)
next
  case (Some p)
  obtain n bad where p: "p = (n, bad)" by force
  have "bad = None" using valid_prefix [OF assms(1)] Some p by simp
  moreover have "n = v" "n < length bs"
    using Some p \<open>bad = None\<close> from_utf8_bounds [of bs n bad] by (simp_all add: v_def valid_up_to_def)
  moreover have "from_utf8 (take v bs) = None" using take_valid [of bs] by (simp add: v_def utf8_valid_def)
  ultimately show ?thesis using Some p by (subst chunk_loop.simps) (simp add: Let_def)
qed

lemma process_chunk_valid:
  assumes "utf8_valid (ss_utf8_buffer s @ c @ rest)"
  defines "bs \<equiv> ss_utf8_buffer s @ c"
  shows "process_chunk find2 c s =
    (let (parser, pending) = (if valid_up_to bs > 0
           then feed_parsed_chunk find2 (take (valid_up_to bs) bs) (ss_parser s, ss_pending_events s)
           else (ss_parser s, ss_pending_events s))
     in (None, s\<lparr>ss_parser := parser, ss_pending_events := pending, ss_utf8_buffer := drop (valid_up_to bs) bs\<rparr>))"
proof -
  have "utf8_valid (bs @ rest)" using assms(1) by (simp add: bs_def)
  note cl = chunk_loop_valid [OF this, of find2 "(ss_parser s, ss_pending_events s)"]
  show ?thesis
  proof (cases "ss_utf8_buffer s = []")
    case True
    then show ?thesis
      using cl by (auto simp: process_chunk_def process_chunk_without_utf8_tail_def bs_def split: prod.splits)
  next
    case False
    then show ?thesis
      using cl by (auto simp: process_chunk_def process_chunk_with_utf8_tail_def bs_def split: prod.splits)
  qed
qed

fun waits :: "inner_poll list \<Rightarrow> nat" where
  "waits [] = 0"
| "waits (NotReady # inner) = Suc (waits inner)"
| "waits (_ # inner) = waits inner"

text \<open>
  One poll of a good stream: it hands out the next event of the stream's future, or waits for
  the inner stream, or the future is empty.
\<close>

definition poll_advances :: "(nat \<Rightarrow> nat \<Rightarrow> bytes \<Rightarrow> nat option) \<Rightarrow> sse_event list \<Rightarrow> nat \<Rightarrow> poll_result \<Rightarrow> sse_stream \<Rightarrow> bool" where
  "poll_advances find2 ahead w r s \<longleftrightarrow> good s \<and>
     (case r of
        PollPending \<Rightarrow> future find2 s = ahead \<and> waits (ss_inner s) < w
      | PollEvent e \<Rightarrow> ahead = e # future find2 s \<and> waits (ss_inner s) \<le> w
      | PollEnd \<Rightarrow> ahead = [] \<and> future find2 s = [] \<and> waits (ss_inner s) \<le> w
      | PollError e \<Rightarrow> False)"

text \<open>A chunk moves events from the parser's future to the queue and changes nothing else.\<close>

lemma process_chunk_future:
  assumes "good s" and "ss_inner s = Chunk c # inner" and "\<not> ss_terminated s" and "ss_pending_events s = []"
    and "process_chunk find2 c (s\<lparr>ss_inner := inner\<rparr>) = (err, s1)"
  shows "err = None" and "good s1" and "future find2 s1 = future find2 s" and "ss_inner s1 = inner"
    and "\<not> ss_terminated s1"
proof -
  define bs where "bs = ss_utf8_buffer s @ c"
  have v: "utf8_valid (bs @ bytes_of inner)" using assms(1-3) by (simp add: good_def bs_def)
  have pc: "(let (parser, pending) = (if valid_up_to bs > 0
           then feed_parsed_chunk find2 (take (valid_up_to bs) bs) (ss_parser s, [])
           else (ss_parser s, []))
     in (None, s\<lparr>ss_inner := inner, ss_parser := parser, ss_pending_events := pending,
                ss_utf8_buffer := drop (valid_up_to bs) bs\<rparr>)) = (err, s1)"
    using process_chunk_valid [of "s\<lparr>ss_inner := inner\<rparr>" c "bytes_of inner" find2] v assms(4,5)
    by (simp add: bs_def)
  show "err = None" and "ss_inner s1 = inner" and "\<not> ss_terminated s1"
    using pc assms(3) by (auto split: prod.splits)
  have ub: "ss_utf8_buffer s1 = drop (valid_up_to bs) bs" "ss_pending_error s1 = None"
    using pc assms(1) by (auto simp: good_def split: prod.splits)
  show "good s1"
    using ub \<open>ss_inner s1 = inner\<close> valid_prefix [OF v] valid_up_to_rest [of bs] assms(1,2,3)
    by (auto simp: good_def)
  show "future find2 s1 = future find2 s"
    using pc assms(2,3,4)
    by (auto simp: future_def bs_def [symmetric] feed_parsed_chunk_def flushed_def feed_def split_beta Let_def split: if_splits)
qed

lemma poll_inner_advances:
  assumes "good s" and "ss_inner s = inner" and "ss_pending_events s = []" and "\<not> ss_terminated s"
    and "poll_inner find2 inner s = (r, s1)"
  shows "poll_advances find2 (future find2 s) (waits inner) r s1"
  using assms
proof (induction find2 inner s rule: poll_inner.induct)
  case (1 find2 s)
  have u: "ss_utf8_buffer s = []" using "1.prems" by (intro valid_nothing_cut) (auto simp: good_def)
  obtain e p where fl: "flush (ss_parser s) = (e, p)" by force
  show ?case
    using "1.prems" u fl
    by (cases e) (auto simp: poll_advances_def poll_stream_end_def future_def flushed_def good_def)
next
  case (2 find2 inner s)
  then show ?case by (auto simp: poll_advances_def good_def future_def)
next
  case (3 find2 e inner s)
  then show ?case by (auto simp: good_def)
next
  case (4 find2 bytes inner s)
  obtain err s2 where pc: "process_chunk find2 bytes (s\<lparr>ss_inner := inner\<rparr>) = (err, s2)" by (metis surj_pair)
  note pf = process_chunk_future [OF "4.prems"(1,2,4,3) pc]
  show ?case
  proof (cases "ss_pending_events s2")
    case Nil
    then have "poll_inner find2 inner s2 = (r, s1)" using "4.prems"(5) pc pf(1) by simp
    from "4.IH" [OF refl pc [symmetric] pf(1) Nil pf(2,4) Nil pf(5) this] show ?thesis by (simp add: pf(3))
  next
    case (Cons e es)
    then have "r = PollEvent e" "s1 = s2\<lparr>ss_pending_events := es\<rparr>" using "4.prems"(5) pc pf(1) by auto
    then show ?thesis
      using Cons pf by (auto simp: poll_advances_def good_def future_def)
  qed
qed

lemma poll_advances:
  assumes "good s" and "poll_next_event find2 s = (r, s1)"
  shows "poll_advances find2 (future find2 s) (waits (ss_inner s)) r s1"
proof (cases "ss_pending_events s = [] \<and> \<not> ss_terminated s")
  case True
  then show ?thesis
    using assms poll_inner_advances [OF assms(1) refl] by (auto simp: poll_next_event_def good_def)
next
  case False
  then show ?thesis
    using assms
    by (auto simp: poll_next_event_def poll_advances_def good_def future_def split: list.splits)
qed

lemma take_padded: "m \<le> n \<Longrightarrow> take m (xs @ replicate n y) = take m (xs @ replicate (Suc n) y)"
  by (auto simp: take_replicate min_def simp del: replicate_Suc)

text \<open>Any number of polls: the future in order, then the end, with pauses where the inner stream waits.\<close>

lemma poll_many_delivers:
  assumes "good s"
  shows "\<exists>m. filter (\<lambda>r. r \<noteq> PollPending) (fst (poll_many find2 n s)) =
      take m (map PollEvent (future find2 s) @ replicate n PollEnd) \<and>
    m \<le> n \<and> n \<le> m + waits (ss_inner s)"
  using assms
proof (induction n arbitrary: s)
  case (Suc n)
  obtain r s1 where p: "poll_next_event find2 s = (r, s1)" by (metis surj_pair)
  note adv = poll_advances [OF Suc.prems p]
  then have "good s1" by (simp add: poll_advances_def)
  then obtain m where m: "filter (\<lambda>r. r \<noteq> PollPending) (fst (poll_many find2 n s1)) =
      take m (map PollEvent (future find2 s1) @ replicate n PollEnd)" "m \<le> n" "n \<le> m + waits (ss_inner s1)"
    using Suc.IH by blast
  have fil: "filter (\<lambda>r. r \<noteq> PollPending) (fst (poll_many find2 (Suc n) s)) =
      (if r = PollPending then [] else [r]) @ filter (\<lambda>r. r \<noteq> PollPending) (fst (poll_many find2 n s1))"
    by (simp add: p split_beta)
  show ?case
  proof (cases r)
    case PollPending
    have "take m (map PollEvent (future find2 s) @ replicate n PollEnd) =
        take m (map PollEvent (future find2 s) @ replicate (Suc n) PollEnd)"
      by (rule take_padded [OF m(2)])
    then show ?thesis using adv m PollPending fil by (intro exI [of _ m]) (auto simp: poll_advances_def)
  next
    case (PollEvent e)
    have "take m (map PollEvent (future find2 s1) @ replicate n PollEnd) =
        take m (map PollEvent (future find2 s1) @ replicate (Suc n) PollEnd)"
      by (rule take_padded [OF m(2)])
    then show ?thesis using adv m PollEvent fil by (intro exI [of _ "Suc m"]) (auto simp: poll_advances_def)
  next
    case PollEnd
    then show ?thesis using adv m fil by (intro exI [of _ "Suc m"]) (auto simp: poll_advances_def)
  next
    case (PollError e)
    then show ?thesis using adv by (simp add: poll_advances_def)
  qed
qed simp

lemma pieces_valid: "list_all (\<lambda>c. c \<noteq> [] \<and> utf8_valid c) (pieces u inner)"
proof (induction u inner rule: pieces.induct)
  case (2 u c inner)
  define bs where "bs = u @ c"
  have "take (valid_up_to bs) bs \<noteq> []" if "valid_up_to bs > 0"
    using that by (auto simp: valid_up_to_def)
  then show ?case
    using "2.IH" [OF bs_def refl] take_valid [of bs] by (simp only: pieces.simps Let_def bs_def [symmetric]) simp
qed simp_all

lemma pieces_concat:
  "utf8_valid (u @ bytes_of inner) \<Longrightarrow> valid_up_to u = 0 \<Longrightarrow> concat (pieces u inner) = u @ bytes_of inner"
proof (induction u inner rule: pieces.induct)
  case (1 u)
  then have "u = []" by (intro valid_nothing_cut) simp_all
  then show ?case by simp
next
  case (2 u c inner)
  define bs where "bs = u @ c"
  have "utf8_valid (bs @ bytes_of inner)" using "2.prems"(1) by (simp add: bs_def)
  note v = conjunct2 [OF valid_prefix [OF this]]
  have "concat (pieces (drop (valid_up_to bs) bs) inner) = drop (valid_up_to bs) bs @ bytes_of inner"
    using "2.IH" [OF bs_def refl v valid_up_to_rest [of bs]] by simp
  then show ?case by (simp add: Let_def bs_def [symmetric])
qed simp_all

lemma valid_not_bom_part: "utf8_valid c \<Longrightarrow> c \<noteq> take 1 bom \<and> c \<noteq> take 2 bom"
  by (auto simp: utf8_valid_def bom_def from_utf8.simps(2) utf8_head_def second_ok_def is_cont_def)

lemma pieces_bom: "bom_not_split (pieces u inner)"
proof -
  have "dropWhile (\<lambda>c. c = []) (pieces u inner) = pieces u inner"
    using pieces_valid [of u inner] by (cases "pieces u inner") auto
  then show ?thesis
    using pieces_valid [of u inner] valid_not_bom_part
    by (cases "pieces u inner") (auto simp: bom_not_split_def)
qed

section \<open>Properties\<close>

text \<open>
  C25: The stream delivers what the bytes say, however they arrive. When the bytes of the inner
  stream are valid UTF-8, cut into chunks at any byte, even inside a character, with any number
  of polls where nothing is ready, then the results of the polls that are ready are the events
  of the whole text in order, then the event that the end of the stream completes, then the end,
  again and again; no event is lost, repeated or reordered and no error is made up. Of n polls
  at most as many are idle as the inner stream was not ready.
\<close>

theorem stream_delivers_whole:
  assumes "byte_search find2" and "utf8_valid (bytes_of inner)" and "\<forall>e. Failure e \<notin> set inner"
    and "\<forall>n. length (open_line (take n (without_bom (bytes_of inner)))) \<le> MAX_BUFFER_SIZE"
  shows "\<exists>m. filter (\<lambda>r. r \<noteq> PollPending) (fst (poll_many find2 n (stream_new inner))) =
      take m (map PollEvent
        (let (out, (current, has_data), rest) =
               parse_lines MAX_EVENT_DATA_BYTES (without_bom (bytes_of inner)) (default_event, False);
             (current1, has_data1) =
               (if rest = [] then (current, has_data)
                else process_line MAX_EVENT_DATA_BYTES (trim_end_cr rest) (current, has_data))
         in out @ (if has_data1 then [finish_event current1] else [])) @ replicate n PollEnd) \<and>
    m \<le> n \<and> n \<le> m + waits inner"
proof -
  have ok: "good (stream_new inner)"
    using assms(2,3) by (simp add: good_def stream_new_def valid_up_to_def)
  have cat: "concat (pieces [] inner) = bytes_of inner"
    using pieces_concat [of "[]" inner] assms(2) by (simp add: valid_up_to_def)
  obtain out c hd rest where pl:
    "parse_lines MAX_EVENT_DATA_BYTES (without_bom (bytes_of inner)) (default_event, False) = (out, (c, hd), rest)"
    by (metis surj_pair)
  have fa: "feed_all find2 (pieces [] inner) parser_new =
      (out, \<lparr>sp_buffer = rest, sp_current = c, sp_has_data = hd, sp_bom_checked = (bytes_of inner \<noteq> []),
        sp_scanned_len = length rest, sp_cap = MAX_EVENT_DATA_BYTES\<rparr>)"
    using byte_search.feed_all_new [OF assms(1) pieces_bom, of "[]" inner] assms(4) pl cat by simp
  have "future find2 (stream_new inner) =
    (let (c1, h1) = (if rest = [] then (c, hd) else process_line MAX_EVENT_DATA_BYTES (trim_end_cr rest) (c, hd))
     in out @ (if h1 then [finish_event c1] else []))"
    using fa by (auto simp: future_def stream_new_def flushed_def flush_def split: prod.splits)
  then show ?thesis
    using poll_many_delivers [OF ok, of find2 n] pl by (simp add: stream_new_def)
qed

theorem stream_delivers_whole_witness:
  "\<exists>m. filter (\<lambda>r. r \<noteq> PollPending)
       (fst (poll_many first_of 3 (stream_new [Chunk (lit ''data: '' @ [195]), NotReady, Chunk [169, 10]]))) =
     take m (PollEvent (default_event\<lparr>ev_data := [195, 169]\<rparr>) # replicate 3 PollEnd) \<and> 2 \<le> m"
proof -
  let ?inner = "[Chunk (lit ''data: '' @ [195]), NotReady, Chunk [169, 10]]"
  have v: "utf8_valid (bytes_of ?inner)"
    by (simp add: utf8_valid_def from_utf8.simps(2) utf8_head_def second_ok_def is_cont_def lit_def)
  have lim: "\<forall>n. length (open_line (take n (without_bom (bytes_of ?inner)))) \<le> MAX_BUFFER_SIZE"
    by (rule short_text_in_limit) (simp add: sse_run)
  have pl: "parse_lines MAX_EVENT_DATA_BYTES (without_bom (bytes_of ?inner)) (default_event, False) =
      ([], (default_event\<lparr>ev_data := [195, 169, 10]\<rparr>, True), [])"
    by (simp add: sse_run parse_lines.simps process_complete_line_def process_line_def append_data_line_def strip_space_def)
  have fin: "finish_event (default_event\<lparr>ev_data := [195, 169, 10]\<rparr>) = default_event\<lparr>ev_data := [195, 169]\<rparr>"
    by (simp add: finish_event_def default_event_def lit_def)
  have nf: "\<forall>e. Failure e \<notin> set ?inner" by simp
  have "waits ?inner = 1" by simp
  then show ?thesis
    using stream_delivers_whole [OF scan.byte_search_axioms v nf lim, of 3] unfolding pl
    by (simp add: fin) (metis Suc_le_mono numeral_2_eq_2 numeral_3_eq_3)
qed

text \<open>
  The end of a stream and a decoding error are final: when a poll of a new stream, at any
  point, answered that the stream has ended or that its bytes are not UTF-8, every later poll
  answers that the stream has ended, so such an error is reported once and no event follows it.
  An error of the inner stream is not final.
\<close>

theorem terminal_results_final:
  assumes "poll_many find2 n (stream_new inner) = (rs, s)" and "rs \<noteq> []" and "terminal_result (last rs)"
  shows "poll_many find2 m s = (replicate m PollEnd, s)"
proof -
  have "stream_ok (stream_new inner)" by (simp add: stream_ok_def stream_new_def)
  then have "finished s" using poll_many_final [OF assms(1)] assms(2,3) by simp
  then show ?thesis by (rule poll_many_finished)
qed

theorem terminal_results_final_witness:
  "poll_many first_of 3 (snd (poll_many first_of 1 (stream_new [Chunk [255], Chunk (lit ''data: a'')]))) =
     (replicate 3 PollEnd, snd (poll_many first_of 1 (stream_new [Chunk [255], Chunk (lit ''data: a'')])))"
proof -
  let ?s = "stream_new [Chunk [255], Chunk (lit ''data: a'')]"
  have u: "from_utf8 [255] = Some (0, Some 1)" by (simp add: from_utf8.simps(2) utf8_head_def)
  have r: "fst (poll_many first_of 1 ?s) = [PollError InvalidUtf8]"
    using u by (simp add: poll_next_event_def stream_new_def process_chunk_def process_chunk_without_utf8_tail_def
        chunk_loop.simps)
  then have "poll_many first_of 1 ?s = ([PollError InvalidUtf8], snd (poll_many first_of 1 ?s))"
    by (metis prod.collapse)
  from terminal_results_final [OF this, of 3] show ?thesis by (simp add: terminal_result_def)
qed

end
