(* ===== verification/Session_Model.thy ===== *)
theory Session_Model
  imports Ordered_Map
begin

text \<open>
  The data of a session (\<open>src/src/model.rs\<close> and the entry types of \<open>src/src/session.rs\<close>): messages
  and their content blocks, session entries with their base fields, the session header, and how
  a session message becomes a message for the model. Text is a list of code points. JSON
  values are a datatype; numbers keep their text. Costs, which are floating point amounts that
  no modelled operation reads, are left out.
\<close>

section \<open>Messages\<close>

datatype json = JNull | JBool bool | JNumber ustr | JString ustr | JArray "json list" | JObject "(ustr \<times> json) list"

definition json_get :: "ustr \<Rightarrow> json \<Rightarrow> json option" where
  "json_get key v = (case v of JObject fields \<Rightarrow> map_of fields key | _ \<Rightarrow> None)"

definition json_as_str :: "json \<Rightarrow> ustr option" where
  "json_as_str v = (case v of JString s \<Rightarrow> Some s | _ \<Rightarrow> None)"

definition json_as_bool :: "json \<Rightarrow> bool option" where
  "json_as_bool v = (case v of JBool b \<Rightarrow> Some b | _ \<Rightarrow> None)"

definition json_as_array :: "json \<Rightarrow> json list option" where
  "json_as_array v = (case v of JArray xs \<Rightarrow> Some xs | _ \<Rightarrow> None)"

record tool_call_block =
  tcb_id :: ustr
  tcb_name :: ustr
  tcb_arguments :: json
  tcb_thought_signature :: "ustr option"

datatype content_block =
    TextBlock ustr "ustr option"
  | ThinkingBlock ustr "ustr option"
  | RedactedThinkingBlock ustr
  | ImageBlock ustr ustr
  | ToolCallBlock tool_call_block

datatype user_content = TextContent ustr | BlocksContent "content_block list"

datatype stop_reason = Stop | Length | ToolUse | StopError | Aborted | PauseTurn | Refusal

record stop_details =
  sd_kind :: ustr
  sd_category :: "ustr option"
  sd_explanation :: "ustr option"

record usage =
  us_input :: u64
  us_output :: u64
  us_cache_read :: u64
  us_cache_write :: u64
  us_total_tokens :: u64

record assistant_message =
  as_content :: "content_block list"
  as_api :: ustr
  as_provider :: ustr
  as_model :: ustr
  as_usage :: usage
  as_stop_reason :: stop_reason
  as_stop_details :: "stop_details option"
  as_error_message :: "ustr option"
  as_timestamp :: int

record tool_result_message =
  tr_tool_call_id :: ustr
  tr_tool_name :: ustr
  tr_content :: "content_block list"
  tr_details :: "json option"
  tr_is_error :: bool
  tr_timestamp :: int

record custom_message =
  cm_content :: ustr
  cm_custom_type :: ustr
  cm_display :: bool
  cm_details :: "json option"
  cm_timestamp :: int

datatype message =
    UserMessage user_content int
  | AssistantMessage assistant_message
  | ToolResultMessage tool_result_message
  | CustomMessage custom_message

section \<open>Session messages and entries\<close>

datatype session_message =
    SmUser user_content "int option"
  | SmAssistant assistant_message
  | SmToolResult ustr ustr "content_block list" "json option" bool "int option"
  | SmCustom ustr ustr bool "json option" "int option"
  | SmBashExecution ustr ustr int "bool option" "bool option" "ustr option" "int option" "(ustr \<times> json) list"
  | SmBranchSummary ustr ustr
  | SmCompactionSummary ustr u64

text \<open>The constructors' arguments stand in the order of the fields in the source.\<close>

definition session_message_from :: "message \<Rightarrow> session_message" where
  "session_message_from m =
     (case m of
        UserMessage content timestamp \<Rightarrow> SmUser content (Some timestamp)
      | AssistantMessage a \<Rightarrow> SmAssistant a
      | ToolResultMessage r \<Rightarrow>
          SmToolResult (tr_tool_call_id r) (tr_tool_name r) (tr_content r) (tr_details r) (tr_is_error r)
            (Some (tr_timestamp r))
      | CustomMessage c \<Rightarrow>
          SmCustom (cm_custom_type c) (cm_content c) (cm_display c) (cm_details c) (Some (cm_timestamp c)))"

record entry_base =
  eb_id :: "ustr option"
  eb_parent_id :: "ustr option"
  eb_timestamp :: ustr

definition entry_base_new :: "ustr \<Rightarrow> ustr option \<Rightarrow> ustr \<Rightarrow> entry_base" where
  "entry_base_new now parent i = \<lparr>eb_id = Some i, eb_parent_id = parent, eb_timestamp = now\<rparr>"

datatype session_entry =
    MessageEntry entry_base session_message
  | ModelChangeEntry entry_base ustr ustr
  | ThinkingLevelChangeEntry entry_base ustr
  | CompactionEntry entry_base ustr ustr u64 "json option" "bool option"
  | BranchSummaryEntry entry_base ustr ustr "json option" "bool option"
  | LabelEntry entry_base ustr "ustr option"
  | SessionInfoEntry entry_base "ustr option"
  | CustomEntry entry_base ustr "json option"

fun base_of :: "session_entry \<Rightarrow> entry_base" where
  "base_of (MessageEntry b m) = b"
| "base_of (ModelChangeEntry b p i) = b"
| "base_of (ThinkingLevelChangeEntry b t) = b"
| "base_of (CompactionEntry b s f t d h) = b"
| "base_of (BranchSummaryEntry b f s d h) = b"
| "base_of (LabelEntry b t l) = b"
| "base_of (SessionInfoEntry b n) = b"
| "base_of (CustomEntry b t d) = b"

fun with_base :: "entry_base \<Rightarrow> session_entry \<Rightarrow> session_entry" where
  "with_base b (MessageEntry _ m) = MessageEntry b m"
| "with_base b (ModelChangeEntry _ p i) = ModelChangeEntry b p i"
| "with_base b (ThinkingLevelChangeEntry _ t) = ThinkingLevelChangeEntry b t"
| "with_base b (CompactionEntry _ s f t d h) = CompactionEntry b s f t d h"
| "with_base b (BranchSummaryEntry _ f s d h) = BranchSummaryEntry b f s d h"
| "with_base b (LabelEntry _ t l) = LabelEntry b t l"
| "with_base b (SessionInfoEntry _ n) = SessionInfoEntry b n"
| "with_base b (CustomEntry _ t d) = CustomEntry b t d"

definition base_id :: "session_entry \<Rightarrow> ustr option" where
  "base_id e = eb_id (base_of e)"

definition parent_id :: "session_entry \<Rightarrow> ustr option" where
  "parent_id e = eb_parent_id (base_of e)"

lemma base_of_with_base [simp]: "base_of (with_base b e) = b"
  by (cases e) auto

section \<open>Text of messages\<close>

definition COMPACTION_SUMMARY_PREFIX :: ustr where
  "COMPACTION_SUMMARY_PREFIX =
     lit ''The conversation history before this point was compacted into the following summary:'' @ [10, 10] @
     lit ''<summary>'' @ [10]"

definition COMPACTION_SUMMARY_SUFFIX :: ustr where
  "COMPACTION_SUMMARY_SUFFIX = [10] @ lit ''</summary>''"

definition BRANCH_SUMMARY_PREFIX :: ustr where
  "BRANCH_SUMMARY_PREFIX =
     lit ''The following is a summary of a branch that this conversation came back from:'' @ [10, 10] @
     lit ''<summary>'' @ [10]"

definition BRANCH_SUMMARY_SUFFIX :: ustr where
  "BRANCH_SUMMARY_SUFFIX = lit ''</summary>''"

definition show_int :: "int \<Rightarrow> ustr" where
  "show_int n = (if n < 0 then 45 # decimal (nat (- n)) else decimal (nat n))"

definition bash_execution_to_text :: "ustr \<Rightarrow> ustr \<Rightarrow> int \<Rightarrow> bool \<Rightarrow> bool \<Rightarrow> ustr option \<Rightarrow> ustr" where
  "bash_execution_to_text command output exit_code cancelled truncated full_output_path =
     lit ''Ran `'' @ command @ lit ''`'' @ [10] @
     (if output = [] then lit ''(no output)''
      else lit ''```'' @ [10] @ output @ (if last output = 10 then [] else [10]) @ lit ''```'') @
     (if cancelled then [10, 10] @ lit ''(command cancelled)''
      else if exit_code \<noteq> 0 then [10, 10] @ lit ''Command exited with code '' @ show_int exit_code
      else []) @
     (if truncated then
        (case full_output_path of
           Some path \<Rightarrow> [10, 10] @ lit ''[Output truncated. Full output: '' @ path @ lit '']''
         | None \<Rightarrow> [10, 10] @ lit ''[Output truncated]'')
      else [])"

definition push_line :: "ustr \<Rightarrow> ustr \<Rightarrow> ustr" where
  "push_line line out = (if out \<noteq> [] then out @ [10] @ line else line)"

fun content_block_line :: "content_block \<Rightarrow> ustr" where
  "content_block_line (TextBlock t s) = t"
| "content_block_line (ImageBlock d mime) = lit ''[image: '' @ mime @ lit '']''"
| "content_block_line (ThinkingBlock t s) = t"
| "content_block_line (ToolCallBlock c) = lit ''[tool call: '' @ tcb_name c @ lit '']''"
| "content_block_line (RedactedThinkingBlock d) = lit ''[thinking: redacted]''"

definition content_blocks_to_text :: "content_block list \<Rightarrow> ustr" where
  "content_blocks_to_text blocks = fold (\<lambda>b. push_line (content_block_line b)) blocks []"

definition user_content_to_text :: "user_content \<Rightarrow> ustr" where
  "user_content_to_text c =
     (case c of TextContent t \<Rightarrow> t | BlocksContent blocks \<Rightarrow> content_blocks_to_text blocks)"

definition text_message :: "ustr \<Rightarrow> int \<Rightarrow> message" where
  "text_message t timestamp = UserMessage (BlocksContent [TextBlock t None]) timestamp"

text \<open>\<open>now\<close> is the clock, for messages without a time of their own.\<close>

fun session_message_to_model :: "int \<Rightarrow> session_message \<Rightarrow> message option" where
  "session_message_to_model now (SmUser content timestamp) =
     Some (UserMessage content (case timestamp of Some t \<Rightarrow> t | None \<Rightarrow> now))"
| "session_message_to_model now (SmAssistant m) = Some (AssistantMessage m)"
| "session_message_to_model now (SmToolResult call_id tool_name content details is_error timestamp) =
     Some (ToolResultMessage \<lparr>tr_tool_call_id = call_id, tr_tool_name = tool_name, tr_content = content,
       tr_details = details, tr_is_error = is_error, tr_timestamp = (case timestamp of Some t \<Rightarrow> t | None \<Rightarrow> now)\<rparr>)"
| "session_message_to_model now (SmCustom custom_type content display details timestamp) =
     Some (CustomMessage \<lparr>cm_content = content, cm_custom_type = custom_type, cm_display = display,
       cm_details = details, cm_timestamp = (case timestamp of Some t \<Rightarrow> t | None \<Rightarrow> now)\<rparr>)"
| "session_message_to_model now (SmBashExecution command output exit_code cancelled truncated path timestamp extra) =
     (if Option.bind (map_of extra (lit ''excludeFromContext'')) json_as_bool = Some True then None
      else Some (text_message
        (bash_execution_to_text command output exit_code (cancelled = Some True) (truncated = Some True) path)
        (case timestamp of Some t \<Rightarrow> t | None \<Rightarrow> now)))"
| "session_message_to_model now (SmBranchSummary summary from_id) =
     Some (text_message (BRANCH_SUMMARY_PREFIX @ summary @ BRANCH_SUMMARY_SUFFIX) now)"
| "session_message_to_model now (SmCompactionSummary summary tokens_before) =
     Some (text_message (COMPACTION_SUMMARY_PREFIX @ summary @ COMPACTION_SUMMARY_SUFFIX) now)"

section \<open>The header\<close>

record session_header =
  hd_type :: ustr
  hd_version :: "nat option"
  hd_id :: ustr
  hd_timestamp :: ustr
  hd_cwd :: ustr
  hd_provider :: "ustr option"
  hd_model_id :: "ustr option"
  hd_thinking_level :: "ustr option"
  hd_fallback_provider :: "ustr option"
  hd_fallback_model_id :: "ustr option"
  hd_fallback_thinking_level :: "ustr option"
  hd_current_leaf :: "ustr option"
  hd_parent_session :: "ustr option"

definition SESSION_VERSION :: nat where
  "SESSION_VERSION = 3"

definition ROOT_LEAF_OVERRIDE_SENTINEL :: ustr where
  "ROOT_LEAF_OVERRIDE_SENTINEL = []"

definition session_header_new :: "ustr \<Rightarrow> ustr \<Rightarrow> ustr \<Rightarrow> session_header" where
  "session_header_new i now cwd =
     \<lparr>hd_type = lit ''session'', hd_version = Some SESSION_VERSION, hd_id = i, hd_timestamp = now, hd_cwd = cwd,
      hd_provider = None, hd_model_id = None, hd_thinking_level = None, hd_fallback_provider = None,
      hd_fallback_model_id = None, hd_fallback_thinking_level = None, hd_current_leaf = None,
      hd_parent_session = None\<rparr>"

definition branch_fallback_model_fields :: "session_header \<Rightarrow> ustr option \<times> ustr option" where
  "branch_fallback_model_fields h =
     ((case hd_fallback_provider h of Some p \<Rightarrow> Some p | None \<Rightarrow> hd_provider h),
      (case hd_fallback_model_id h of Some m \<Rightarrow> Some m | None \<Rightarrow> hd_model_id h))"

definition materialize_branch_fallbacks :: "session_header \<Rightarrow> bool \<times> session_header" where
  "materialize_branch_fallbacks h =
     (let set_provider = (hd_fallback_provider h = None \<and> hd_provider h \<noteq> None);
          set_model_id = (hd_fallback_model_id h = None \<and> hd_model_id h \<noteq> None);
          set_thinking = (hd_fallback_thinking_level h = None \<and> hd_thinking_level h \<noteq> None);
          h1 = (if set_provider then h\<lparr>hd_fallback_provider := hd_provider h\<rparr> else h);
          h2 = (if set_model_id then h1\<lparr>hd_fallback_model_id := hd_model_id h1\<rparr> else h1);
          h3 = (if set_thinking then h2\<lparr>hd_fallback_thinking_level := hd_thinking_level h2\<rparr> else h2)
      in (set_provider \<or> set_model_id \<or> set_thinking, h3))"

datatype header_error = BadType ustr | BadVersion "nat option" | EmptyId | EmptyTimestamp | EmptyCwd

definition header_validate :: "session_header \<Rightarrow> header_error option" where
  "header_validate h =
     (if hd_type h \<noteq> lit ''session'' then Some (BadType (hd_type h))
      else if hd_version h \<noteq> Some SESSION_VERSION then Some (BadVersion (hd_version h))
      else if trim (hd_id h) = [] then Some EmptyId
      else if trim (hd_timestamp h) = [] then Some EmptyTimestamp
      else if trim (hd_cwd h) = [] then Some EmptyCwd
      else None)"

definition header_is_valid :: "session_header \<Rightarrow> bool" where
  "header_is_valid h = (header_validate h = None)"

end
