(* ===== verification/Autosave.thy ===== *)
theory Autosave
  imports Machines
begin

text \<open>
  The write-behind queue of a session (\<open>AutosaveQueue\<close> of \<open>src/src/session.rs\<close>): it counts the
  mutations that are not yet on disk, hands out a ticket when a flush begins and settles the
  ticket when the flush ends. A flush that is cancelled is a ticket that is never settled. The
  clock is an argument: a ticket carries the time it was started at, and settling it takes the
  current time.
\<close>

datatype flush_trigger = Manual | Periodic | Shutdown

datatype mutation_kind = MessageMutation | MetadataMutation | LabelMutation

record flush_ticket =
  batch_size :: usize
  through_sequence :: u64
  started_at :: nat
  ticket_trigger :: flush_trigger

record autosave_metrics =
  am_pending_mutations :: usize
  am_max_pending_mutations :: usize
  am_coalesced_mutations :: u64
  am_backpressure_events :: u64
  am_flush_started :: u64
  am_flush_succeeded :: u64
  am_flush_failed :: u64
  am_last_flush_batch_size :: usize
  am_last_flush_duration_ms :: "u64 option"
  am_last_flush_trigger :: "flush_trigger option"

record autosave_queue =
  pending_mutations :: usize
  max_pending_mutations :: usize
  mutation_sequence :: u64
  flushed_sequence :: u64
  coalesced_mutations :: u64
  backpressure_events :: u64
  flush_started :: u64
  flush_succeeded :: u64
  flush_failed :: u64
  last_flush_batch_size :: usize
  last_flush_duration_ms :: "u64 option"
  last_flush_trigger :: "flush_trigger option"

definition DEFAULT_AUTOSAVE_MAX_PENDING_MUTATIONS :: usize where
  "DEFAULT_AUTOSAVE_MAX_PENDING_MUTATIONS = 256"

text \<open>The limit from the environment: \<open>setting\<close> is the parsed variable, if it is set and parses.\<close>

definition autosave_max_pending_mutations :: "usize option \<Rightarrow> usize" where
  "autosave_max_pending_mutations setting =
     (case setting of
        Some value \<Rightarrow> if value > 0 then value else DEFAULT_AUTOSAVE_MAX_PENDING_MUTATIONS
      | None \<Rightarrow> DEFAULT_AUTOSAVE_MAX_PENDING_MUTATIONS)"

definition autosave_new :: "usize option \<Rightarrow> autosave_queue" where
  "autosave_new setting =
     \<lparr>pending_mutations = 0, max_pending_mutations = autosave_max_pending_mutations setting,
      mutation_sequence = 0, flushed_sequence = 0, coalesced_mutations = 0, backpressure_events = 0,
      flush_started = 0, flush_succeeded = 0, flush_failed = 0, last_flush_batch_size = 0,
      last_flush_duration_ms = None, last_flush_trigger = None\<rparr>"

definition autosave_metrics_of :: "autosave_queue \<Rightarrow> autosave_metrics" where
  "autosave_metrics_of q =
     \<lparr>am_pending_mutations = pending_mutations q, am_max_pending_mutations = max_pending_mutations q,
      am_coalesced_mutations = coalesced_mutations q, am_backpressure_events = backpressure_events q,
      am_flush_started = flush_started q, am_flush_succeeded = flush_succeeded q,
      am_flush_failed = flush_failed q, am_last_flush_batch_size = last_flush_batch_size q,
      am_last_flush_duration_ms = last_flush_duration_ms q, am_last_flush_trigger = last_flush_trigger q\<rparr>"

definition enqueue_mutation :: "mutation_kind \<Rightarrow> autosave_queue \<Rightarrow> autosave_queue" where
  "enqueue_mutation kind q =
     (let q1 = q\<lparr>mutation_sequence := sat_add64 (mutation_sequence q) 1\<rparr> in
      if pending_mutations q1 = 0 then q1\<lparr>pending_mutations := 1\<rparr>
      else
        let q2 = q1\<lparr>coalesced_mutations := sat_add64 (coalesced_mutations q1) 1\<rparr> in
        if pending_mutations q2 < max_pending_mutations q2
        then q2\<lparr>pending_mutations := pending_mutations q2 + 1\<rparr>
        else q2\<lparr>backpressure_events := sat_add64 (backpressure_events q2) 1\<rparr>)"

definition begin_flush :: "nat \<Rightarrow> flush_trigger \<Rightarrow> autosave_queue \<Rightarrow> flush_ticket option \<times> autosave_queue" where
  "begin_flush now trigger q =
     (if pending_mutations q = 0 then (None, q)
      else
        (Some \<lparr>batch_size = pending_mutations q, through_sequence = mutation_sequence q,
               started_at = now, ticket_trigger = trigger\<rparr>,
         q\<lparr>flush_started := sat_add64 (flush_started q) 1, last_flush_batch_size := pending_mutations q,
           last_flush_trigger := Some trigger\<rparr>))"

definition finish_flush :: "nat \<Rightarrow> flush_ticket \<Rightarrow> bool \<Rightarrow> autosave_queue \<Rightarrow> autosave_queue" where
  "finish_flush now ticket success q =
     (let elapsed = min (now - started_at ticket) u64_max;
          q1 = q\<lparr>last_flush_duration_ms := Some elapsed, last_flush_trigger := Some (ticket_trigger ticket)\<rparr>
      in if success then
           let flushed = max (flushed_sequence q1) (through_sequence ticket);
               remaining = mutation_sequence q1 - flushed
           in q1\<lparr>flushed_sequence := flushed, pending_mutations := min remaining (max_pending_mutations q1),
                 flush_succeeded := sat_add64 (flush_succeeded q1) 1\<rparr>
         else q1\<lparr>flush_failed := sat_add64 (flush_failed q1) 1\<rparr>)"

text \<open>
  \<open>flush_autosave\<close> and \<open>flush_autosave_on_shutdown\<close> around a save whose outcome is given. What the
  code reports is \<open>True\<close> for success.
\<close>

datatype durability_mode = Strict | Balanced | Throughput

definition should_flush_on_shutdown :: "durability_mode \<Rightarrow> bool" where
  "should_flush_on_shutdown m = (m \<in> {Strict, Balanced})"

definition best_effort_on_shutdown :: "durability_mode \<Rightarrow> bool" where
  "best_effort_on_shutdown m = (m = Balanced)"

definition durability_parse :: "ustr \<Rightarrow> durability_mode option" where
  "durability_parse raw =
     (let v = to_ascii_lowercase (trim raw) in
      if v = lit ''strict'' then Some Strict else if v = lit ''balanced'' then Some Balanced
      else if v = lit ''throughput'' then Some Throughput else None)"

definition durability_as_str :: "durability_mode \<Rightarrow> ustr" where
  "durability_as_str m =
     (case m of Strict \<Rightarrow> lit ''strict'' | Balanced \<Rightarrow> lit ''balanced'' | Throughput \<Rightarrow> lit ''throughput'')"

definition resolve_durability :: "ustr option \<Rightarrow> ustr option \<Rightarrow> ustr option \<Rightarrow> durability_mode" where
  "resolve_durability cli_mode config_mode env_mode =
     (case Option.bind cli_mode durability_parse of Some m \<Rightarrow> m
      | None \<Rightarrow> (case Option.bind config_mode durability_parse of Some m \<Rightarrow> m
        | None \<Rightarrow> (case Option.bind env_mode durability_parse of Some m \<Rightarrow> m | None \<Rightarrow> Balanced)))"

definition flush_autosave :: "nat \<Rightarrow> nat \<Rightarrow> bool \<Rightarrow> flush_trigger \<Rightarrow> autosave_queue \<Rightarrow> bool \<times> autosave_queue" where
  "flush_autosave t0 t1 saved trigger q =
     (case begin_flush t0 trigger q of
        (None, q1) \<Rightarrow> (True, q1)
      | (Some ticket, q1) \<Rightarrow> (saved, finish_flush t1 ticket saved q1))"

definition flush_autosave_on_shutdown :: "nat \<Rightarrow> nat \<Rightarrow> bool \<Rightarrow> durability_mode \<Rightarrow> autosave_queue \<Rightarrow> bool \<times> autosave_queue" where
  "flush_autosave_on_shutdown t0 t1 saved mode q =
     (if \<not> should_flush_on_shutdown mode then (True, q)
      else let (result, q1) = flush_autosave t0 t1 saved Shutdown q
           in if \<not> result \<and> best_effort_on_shutdown mode then (True, q1) else (result, q1))"

section \<open>Runs\<close>

text \<open>
  What can happen to the queue: mutations, flushes that begin, and open tickets that are
  settled in any order or never. The run keeps the tickets that were handed out.
\<close>

datatype autosave_event = Mutate mutation_kind | Begin nat flush_trigger | Settle nat nat bool

definition autosave_step :: "autosave_event \<Rightarrow> autosave_queue \<times> flush_ticket list \<Rightarrow> autosave_queue \<times> flush_ticket list" where
  "autosave_step e s =
     (let (q, ts) = s in
      case e of
        Mutate kind \<Rightarrow> (enqueue_mutation kind q, ts)
      | Begin now trigger \<Rightarrow>
          (case begin_flush now trigger q of (None, q1) \<Rightarrow> (q1, ts) | (Some t, q1) \<Rightarrow> (q1, ts @ [t]))
      | Settle i now success \<Rightarrow>
          if i < length ts then (finish_flush now (ts ! i) success q, take i ts @ drop (Suc i) ts) else (q, ts))"

text \<open>
  The specification: the number of mutations so far and how many of them are known to be on
  disk; a successful flush saves those that had happened when it began.
\<close>

definition saved_spec :: "autosave_event \<Rightarrow> nat \<times> nat \<times> nat list \<Rightarrow> nat \<times> nat \<times> nat list" where
  "saved_spec e s =
     (let (made, saved, begun) = s in
      case e of
        Mutate kind \<Rightarrow> (made + 1, saved, begun)
      | Begin now trigger \<Rightarrow> (made, saved, if made = saved then begun else begun @ [made])
      | Settle i now success \<Rightarrow>
          if i < length begun
          then (made, if success then max saved (begun ! i) else saved, take i begun @ drop (Suc i) begun)
          else (made, saved, begun))"

definition refines :: "usize \<Rightarrow> nat \<times> nat \<times> nat list \<Rightarrow> autosave_queue \<times> flush_ticket list \<Rightarrow> bool" where
  "refines limit a s \<longleftrightarrow>
     (let (made, saved, begun) = a; (q, ts) = s in
      mutation_sequence q = made \<and> flushed_sequence q = saved \<and> map through_sequence ts = begun \<and>
      max_pending_mutations q = limit \<and> pending_mutations q = min (made - saved) limit \<and>
      saved \<le> made \<and> (\<forall>b \<in> set begun. b \<le> made))"

lemma refines_step:
  assumes "refines limit a s" and "0 < limit" and "fst a < u64_max"
  shows "refines limit (saved_spec e a) (autosave_step e s)"
proof -
  obtain made saved begun where a: "a = (made, saved, begun)" by (metis prod_cases3)
  obtain q ts where s: "s = (q, ts)" by force
  note r = assms(1) [unfolded refines_def a s, simplified]
  show ?thesis
  proof (cases e)
    case (Mutate kind)
    then show ?thesis
      using r assms(2,3) by (auto simp: a s refines_def saved_spec_def autosave_step_def enqueue_mutation_def Let_def min_def)
  next
    case (Begin now trigger)
    then show ?thesis
      using r assms(2) by (auto simp: a s refines_def saved_spec_def autosave_step_def begin_flush_def min_def)
  next
    case (Settle i now success)
    have begun: "begun = map through_sequence ts" using r by blast
    show ?thesis
    proof (cases "i < length ts")
      case True
      have le: "through_sequence (ts ! i) \<le> made" using r True by (metis length_map nth_map nth_mem)
      have rest: "map through_sequence (take i ts @ drop (Suc i) ts) = take i begun @ drop (Suc i) begun"
        by (simp add: begun take_map drop_map)
      have sub: "\<forall>b \<in> set (take i begun @ drop (Suc i) begun). b \<le> made"
        using r by (auto dest: in_set_takeD in_set_dropD)
      show ?thesis
      proof (cases success)
        case True
        then show ?thesis
          using Settle r \<open>i < length ts\<close> le sub
          by (simp add: a s refines_def saved_spec_def autosave_step_def finish_flush_def Let_def begun take_map drop_map)
      next
        case False
        then show ?thesis
          using Settle r \<open>i < length ts\<close> sub
          by (simp add: a s refines_def saved_spec_def autosave_step_def finish_flush_def Let_def begun take_map drop_map)
      qed
    next
      case False
      then show ?thesis
        using Settle r by (simp add: a s refines_def saved_spec_def autosave_step_def begun)
    qed
  qed
qed

lemma made_step: "fst (saved_spec e a) \<le> Suc (fst a)"
  by (cases a) (auto simp: saved_spec_def Let_def split: autosave_event.splits)

lemma refines_run:
  assumes "refines limit a s" and "0 < limit" and "fst a + length es \<le> u64_max"
  shows "refines limit (fold saved_spec es a) (fold autosave_step es s)"
  using assms
proof (induction es arbitrary: a s)
  case (Cons e es)
  have "refines limit (saved_spec e a) (autosave_step e s)"
    using Cons.prems by (intro refines_step) auto
  moreover have "fst (saved_spec e a) + length es \<le> u64_max"
    using Cons.prems(3) made_step [of e a] by simp
  ultimately show ?case using Cons.IH Cons.prems(2) by simp
qed simp

section \<open>Properties\<close>

text \<open>
  C14: The autosave queue never forgets a change. Over any run of mutations and flushes, which
  may overlap, fail, be settled in any order or be cancelled without being settled, the number
  of pending mutations is the number of changes made minus those that a successful flush had
  covered when it began, cut off at the configured limit; in particular it is zero, so that
  no further flush starts, exactly when every change is on disk. (For runs of fewer than
  2^64 steps, so that no sequence number saturates.)
\<close>

theorem autosave_never_forgets:
  assumes "length es \<le> u64_max"
  shows "case fold saved_spec es (0, 0, []) of (made, saved, begun) \<Rightarrow>
     case fold autosave_step es (autosave_new setting, []) of (q, tickets) \<Rightarrow>
       pending_mutations q = min (made - saved) (autosave_max_pending_mutations setting) \<and>
       saved \<le> made \<and> (pending_mutations q = 0 \<longleftrightarrow> saved = made) \<and>
       (fst (begin_flush now trigger q) = None \<longleftrightarrow> saved = made)"
proof -
  have lim: "0 < autosave_max_pending_mutations setting"
    by (auto simp: autosave_max_pending_mutations_def DEFAULT_AUTOSAVE_MAX_PENDING_MUTATIONS_def split: option.splits)
  have "refines (autosave_max_pending_mutations setting) (0, 0, []) (autosave_new setting, [])"
    by (simp add: refines_def autosave_new_def)
  from refines_run [OF this lim, of es] assms
  have "refines (autosave_max_pending_mutations setting) (fold saved_spec es (0, 0, []))
      (fold autosave_step es (autosave_new setting, []))" by simp
  then show ?thesis
    using lim by (auto simp: refines_def begin_flush_def Let_def split: prod.splits)
qed

theorem autosave_never_forgets_witness:
  "pending_mutations (fst (fold autosave_step
     [Mutate MessageMutation, Begin 0 Periodic, Mutate LabelMutation, Begin 5 Manual, Settle 1 9 False, Settle 0 9 True]
     (autosave_new (Some 4), []))) = 1"
proof -
  let ?es = "[Mutate MessageMutation, Begin 0 Periodic, Mutate LabelMutation, Begin 5 Manual, Settle 1 9 False, Settle 0 9 True]"
  have "length ?es \<le> u64_max" by (simp add: u64_max_def)
  from autosave_never_forgets [OF this, of "Some 4" 0 Manual] show ?thesis
    by (auto simp: saved_spec_def autosave_max_pending_mutations_def split: prod.splits)
qed

end
