(* ===== verification/Session_Tree.thy ===== *)
theory Session_Tree
  imports Session_Model Autosave
begin

text \<open>
  A session as a tree of entries (\<open>Session\<close> of \<open>src/src/session.rs\<close>): entries are appended below the
  current leaf, navigation moves the leaf, and the conversation is the path from the root to the
  leaf. The state holds the entries and the caches the code maintains next to them: the index
  of the entry identifiers, the flag for a session without branches, the message count and the
  name. Hash maps and sets are modelled by their contents. Identifiers come from random UUIDs,
  which are the argument \<open>draws\<close>; files, and the fields of the session that only the file layer
  uses, are not part of this state.
\<close>

section \<open>State\<close>

record session =
  se_header :: session_header
  se_entries :: "session_entry list"
  se_leaf_id :: "ustr option"
  se_entry_ids :: "ustr set"
  se_is_linear :: bool
  se_entry_index :: "(ustr, usize) btree"
  se_cached_message_count :: u64
  se_cached_name :: "ustr option"
  se_autosave :: autosave_queue
  se_persisted_entry_count :: usize
  se_header_dirty :: bool
  se_message_count_offset :: u64

text \<open>
  What an operation takes from its surroundings: the UUIDs it draws, each as the simple and the
  hyphenated text, the clock as text and as milliseconds, and the switch for the identifier cache.
\<close>

record op_env =
  oe_draws :: "nat \<Rightarrow> ustr \<times> ustr"
  oe_now :: ustr
  oe_now_ms :: int
  oe_id_cache :: bool

definition in_memory :: "session_header \<Rightarrow> usize option \<Rightarrow> session" where
  "in_memory h setting =
     \<lparr>se_header = h, se_entries = [], se_leaf_id = None, se_entry_ids = {}, se_is_linear = True,
      se_entry_index = bt_empty, se_cached_message_count = 0, se_cached_name = None,
      se_autosave = autosave_new setting, se_persisted_entry_count = 0, se_header_dirty = False,
      se_message_count_offset = 0\<rparr>"

definition generate_entry_id :: "(nat \<Rightarrow> ustr \<times> ustr) \<Rightarrow> ustr set \<Rightarrow> ustr" where
  "generate_entry_id draws existing =
     (case find (\<lambda>i. i \<notin> existing) (map (\<lambda>n. take 8 (fst (draws n))) [0..<100]) of
        Some i \<Rightarrow> i
      | None \<Rightarrow> snd (draws 100))"

definition entry_id_set :: "session_entry list \<Rightarrow> ustr set" where
  "entry_id_set es = set (List.map_filter base_id es)"

definition next_entry_id :: "op_env \<Rightarrow> session \<Rightarrow> ustr" where
  "next_entry_id env s =
     (if oe_id_cache env then generate_entry_id (oe_draws env) (se_entry_ids s)
      else generate_entry_id (oe_draws env) (entry_id_set (se_entries s)))"

definition get_entry :: "session \<Rightarrow> ustr \<Rightarrow> session_entry option" where
  "get_entry s i =
     (case bt_get (se_entry_index s) i of
        None \<Rightarrow> None
      | Some idx \<Rightarrow> if idx < length (se_entries s) then Some (se_entries s ! idx) else None)"

section \<open>Paths\<close>

text \<open>
  The walks from an entry up to the root. Each keeps the identifiers it has visited and stops at
  the first one it meets again, so it also ends on a damaged session with a cycle.
\<close>

function index_walk :: "(ustr, usize) btree \<Rightarrow> session_entry list \<Rightarrow> ustr option \<Rightarrow> ustr set \<Rightarrow> usize list" where
  "index_walk index es current visited =
     (case current of
        None \<Rightarrow> []
      | Some i \<Rightarrow>
          if i \<in> visited then []
          else (case bt_get index i of
                  None \<Rightarrow> []
                | Some idx \<Rightarrow>
                    if idx < length es
                    then idx # index_walk index es (parent_id (es ! idx)) (insert i visited)
                    else []))"
  by pat_completeness auto

lemma unvisited_shrinks:
  assumes "i \<notin> visited" and "bt_get index i = Some v"
  shows "card (fst ` set index - insert i visited) < card (fst ` set index - visited)"
proof -
  have "i \<in> fst ` set index - visited" using assms bt_get_outside [of index i] by simp
  then show ?thesis by (intro psubset_card_mono) auto
qed

termination index_walk
  by (relation "measure (\<lambda>(index, es, current, visited). card (fst ` set index - visited))")
    (auto intro: unvisited_shrinks)

declare index_walk.simps [simp del]

definition entries_for_current_path :: "session \<Rightarrow> session_entry list" where
  "entries_for_current_path s =
     (case se_leaf_id s of
        None \<Rightarrow> []
      | Some leaf \<Rightarrow>
          if se_is_linear s then se_entries s
          else map (\<lambda>idx. se_entries s ! idx)
                 (rev (index_walk (se_entry_index s) (se_entries s) (Some leaf) {})))"

function id_walk :: "session \<Rightarrow> ustr option \<Rightarrow> ustr set \<Rightarrow> ustr list" where
  "id_walk s current visited =
     (case current of
        None \<Rightarrow> []
      | Some i \<Rightarrow>
          if i \<in> visited then []
          else i # (case get_entry s i of
                      None \<Rightarrow> []
                    | Some e \<Rightarrow> id_walk s (parent_id e) (insert i visited)))"
  by pat_completeness auto

lemma get_entry_index: "get_entry s i = Some e \<Longrightarrow> \<exists>idx. bt_get (se_entry_index s) i = Some idx"
  by (auto simp: get_entry_def split: option.splits)

termination id_walk
  by (relation "measure (\<lambda>(s, current, visited). card (fst ` set (se_entry_index s) - visited))")
    (auto dest!: get_entry_index intro: unvisited_shrinks)

declare id_walk.simps [simp del]

definition get_path_to_entry :: "session \<Rightarrow> ustr \<Rightarrow> ustr list" where
  "get_path_to_entry s i =
     (case (if se_is_linear s then bt_get (se_entry_index s) i else None) of
        Some idx \<Rightarrow> List.map_filter base_id (take (Suc idx) (se_entries s))
      | None \<Rightarrow> rev (id_walk s (Some i) {}))"

definition get_children :: "session \<Rightarrow> ustr option \<Rightarrow> ustr list" where
  "get_children s i =
     List.map_filter (\<lambda>e. if parent_id e = i then base_id e else None) (se_entries s)"

definition list_leaves :: "session \<Rightarrow> ustr list" where
  "list_leaves s =
     (let has_children = set (List.map_filter parent_id (se_entries s))
      in List.map_filter
           (\<lambda>e. case base_id e of None \<Rightarrow> None | Some i \<Rightarrow> if i \<in> has_children then None else Some i)
           (se_entries s))"

section \<open>Header and caches\<close>

definition find_last :: "('a \<Rightarrow> 'b option) \<Rightarrow> 'a list \<Rightarrow> 'b option" where
  "find_last f xs = (case List.map_filter f (rev xs) of [] \<Rightarrow> None | y # _ \<Rightarrow> Some y)"

definition model_change :: "session_entry \<Rightarrow> (ustr \<times> ustr) option" where
  "model_change e = (case e of ModelChangeEntry b p i \<Rightarrow> Some (p, i) | _ \<Rightarrow> None)"

definition thinking_change :: "session_entry \<Rightarrow> ustr option" where
  "thinking_change e = (case e of ThinkingLevelChangeEntry b t \<Rightarrow> Some t | _ \<Rightarrow> None)"

definition latest_model_change_for_current_path :: "session \<Rightarrow> (ustr \<times> ustr) option" where
  "latest_model_change_for_current_path s = find_last model_change (entries_for_current_path s)"

definition latest_thinking_level_for_current_path :: "session \<Rightarrow> ustr option" where
  "latest_thinking_level_for_current_path s = find_last thinking_change (entries_for_current_path s)"

definition has_any_model_change :: "session \<Rightarrow> bool" where
  "has_any_model_change s = list_ex (\<lambda>e. model_change e \<noteq> None) (se_entries s)"

definition has_any_thinking_level_change :: "session \<Rightarrow> bool" where
  "has_any_thinking_level_change s = list_ex (\<lambda>e. thinking_change e \<noteq> None) (se_entries s)"

definition option_zip :: "'a option \<Rightarrow> 'b option \<Rightarrow> ('a \<times> 'b) option" where
  "option_zip a b = (case (a, b) of (Some x, Some y) \<Rightarrow> Some (x, y) | _ \<Rightarrow> None)"

definition effective_model_for_current_path :: "session \<Rightarrow> (ustr \<times> ustr) option" where
  "effective_model_for_current_path s =
     (case latest_model_change_for_current_path s of
        Some m \<Rightarrow> Some m
      | None \<Rightarrow>
          if has_any_model_change s
          then option_zip (hd_fallback_provider (se_header s)) (hd_fallback_model_id (se_header s))
          else option_zip (hd_provider (se_header s)) (hd_model_id (se_header s)))"

definition effective_thinking_level_for_current_path :: "session \<Rightarrow> ustr option" where
  "effective_thinking_level_for_current_path s =
     (case latest_thinking_level_for_current_path s of
        Some t \<Rightarrow> Some t
      | None \<Rightarrow>
          if has_any_thinking_level_change s then hd_fallback_thinking_level (se_header s)
          else hd_thinking_level (se_header s))"

definition persisted_leaf_override :: "session \<Rightarrow> ustr option" where
  "persisted_leaf_override s =
     (if se_entries s = [] then None
      else case se_leaf_id s of
             None \<Rightarrow> Some ROOT_LEAF_OVERRIDE_SENTINEL
           | Some current \<Rightarrow> if base_id (last (se_entries s)) = Some current then None else Some current)"

definition enqueue_autosave_mutation :: "mutation_kind \<Rightarrow> session \<Rightarrow> session" where
  "enqueue_autosave_mutation kind s = s\<lparr>se_autosave := enqueue_mutation kind (se_autosave s)\<rparr>"

text \<open>The three parts of \<open>sync_navigation_state_to_header\<close>, each with whether it changed something.\<close>

definition sync_leaf :: "session \<Rightarrow> bool \<times> session" where
  "sync_leaf s =
     (let desired = persisted_leaf_override s in
      if hd_current_leaf (se_header s) \<noteq> desired
      then (True, s\<lparr>se_header := (se_header s)\<lparr>hd_current_leaf := desired\<rparr>\<rparr>) else (False, s))"

definition sync_model :: "session \<Rightarrow> bool \<times> session" where
  "sync_model s =
     (case effective_model_for_current_path s of
        Some (provider, model) \<Rightarrow>
          if hd_provider (se_header s) \<noteq> Some provider \<or> hd_model_id (se_header s) \<noteq> Some model
          then (True, s\<lparr>se_header := (se_header s)\<lparr>hd_provider := Some provider, hd_model_id := Some model\<rparr>\<rparr>)
          else (False, s)
      | None \<Rightarrow>
          if has_any_model_change s \<and> (hd_provider (se_header s) \<noteq> None \<or> hd_model_id (se_header s) \<noteq> None)
          then (True, s\<lparr>se_header := (se_header s)\<lparr>hd_provider := None, hd_model_id := None\<rparr>\<rparr>)
          else (False, s))"

definition sync_thinking :: "session \<Rightarrow> bool \<times> session" where
  "sync_thinking s =
     (case effective_thinking_level_for_current_path s of
        Some level \<Rightarrow>
          if hd_thinking_level (se_header s) \<noteq> Some level
          then (True, s\<lparr>se_header := (se_header s)\<lparr>hd_thinking_level := Some level\<rparr>\<rparr>)
          else (False, s)
      | None \<Rightarrow>
          if has_any_thinking_level_change s \<and> hd_thinking_level (se_header s) \<noteq> None
          then (True, s\<lparr>se_header := (se_header s)\<lparr>hd_thinking_level := None\<rparr>\<rparr>)
          else (False, s))"

definition sync_navigation_state_to_header :: "session \<Rightarrow> session" where
  "sync_navigation_state_to_header s =
     (let (c1, s1) = sync_leaf s; (c2, s2) = sync_model s1; (c3, s3) = sync_thinking s2
      in if c1 \<or> c2 \<or> c3 then enqueue_autosave_mutation MetadataMutation (s3\<lparr>se_header_dirty := True\<rparr>) else s3)"

definition clear_persisted_leaf_override_after_append :: "session \<Rightarrow> session" where
  "clear_persisted_leaf_override_after_append s =
     (let desired = persisted_leaf_override s in
      if hd_current_leaf (se_header s) \<noteq> desired
      then s\<lparr>se_header := (se_header s)\<lparr>hd_current_leaf := desired\<rparr>, se_header_dirty := True\<rparr> else s)"

section \<open>Appending\<close>

text \<open>The part that all appends share: a fresh identifier, the new leaf, the index.\<close>

definition push_entry :: "op_env \<Rightarrow> (entry_base \<Rightarrow> session_entry) \<Rightarrow> session \<Rightarrow> ustr \<times> session" where
  "push_entry env mk s =
     (let i = next_entry_id env s;
          entry = mk (entry_base_new (oe_now env) (se_leaf_id s) i);
          s1 = s\<lparr>se_leaf_id := Some i, se_entries := se_entries s @ [entry]\<rparr>
      in (i, s1\<lparr>se_entry_index := bt_insert i (length (se_entries s1) - 1) (se_entry_index s1),
                se_entry_ids := insert i (se_entry_ids s1)\<rparr>))"

definition append_message :: "op_env \<Rightarrow> session_message \<Rightarrow> session \<Rightarrow> ustr \<times> session" where
  "append_message env m s =
     (let (i, s1) = push_entry env (\<lambda>b. MessageEntry b m) s;
          s2 = clear_persisted_leaf_override_after_append
                 (s1\<lparr>se_cached_message_count := se_cached_message_count s1 + 1\<rparr>)
      in (i, enqueue_autosave_mutation MessageMutation s2))"

definition append_model_message :: "op_env \<Rightarrow> message \<Rightarrow> session \<Rightarrow> ustr \<times> session" where
  "append_model_message env m s = append_message env (session_message_from m) s"

definition append_metadata :: "op_env \<Rightarrow> (entry_base \<Rightarrow> session_entry) \<Rightarrow> session \<Rightarrow> ustr \<times> session" where
  "append_metadata env mk s =
     (let (i, s1) = push_entry env mk s
      in (i, enqueue_autosave_mutation MetadataMutation (clear_persisted_leaf_override_after_append s1)))"

definition append_model_change :: "op_env \<Rightarrow> ustr \<Rightarrow> ustr \<Rightarrow> session \<Rightarrow> ustr \<times> session" where
  "append_model_change env provider model s = append_metadata env (\<lambda>b. ModelChangeEntry b provider model) s"

definition append_thinking_level_change :: "op_env \<Rightarrow> ustr \<Rightarrow> session \<Rightarrow> ustr \<times> session" where
  "append_thinking_level_change env level s = append_metadata env (\<lambda>b. ThinkingLevelChangeEntry b level) s"

definition append_session_info :: "op_env \<Rightarrow> ustr option \<Rightarrow> session \<Rightarrow> ustr \<times> session" where
  "append_session_info env name s =
     append_metadata env (\<lambda>b. SessionInfoEntry b name)
       (if name \<noteq> None then s\<lparr>se_cached_name := name\<rparr> else s)"

definition append_custom_entry :: "op_env \<Rightarrow> ustr \<Rightarrow> json option \<Rightarrow> session \<Rightarrow> ustr \<times> session" where
  "append_custom_entry env custom_type data s = append_metadata env (\<lambda>b. CustomEntry b custom_type data) s"

definition append_bash_execution :: "op_env \<Rightarrow> ustr \<Rightarrow> ustr \<Rightarrow> int \<Rightarrow> bool \<Rightarrow> bool \<Rightarrow> ustr option \<Rightarrow> session \<Rightarrow> ustr \<times> session" where
  "append_bash_execution env command output exit_code cancelled truncated path s =
     (let (i, s1) = push_entry env (\<lambda>b. MessageEntry b
            (SmBashExecution command output exit_code (Some cancelled) (Some truncated) path (Some (oe_now_ms env)) [])) s;
          s2 = clear_persisted_leaf_override_after_append
                 (s1\<lparr>se_cached_message_count := se_cached_message_count s1 + 1\<rparr>)
      in (i, enqueue_autosave_mutation MessageMutation s2))"

definition get_name :: "session \<Rightarrow> ustr option" where
  "get_name s = se_cached_name s"

definition set_name :: "op_env \<Rightarrow> ustr \<Rightarrow> session \<Rightarrow> ustr \<times> session" where
  "set_name env name s = append_session_info env (Some name) s"

definition append_compaction :: "op_env \<Rightarrow> ustr \<Rightarrow> ustr \<Rightarrow> u64 \<Rightarrow> json option \<Rightarrow> bool option \<Rightarrow> session \<Rightarrow> ustr \<times> session" where
  "append_compaction env summary first_kept tokens_before details from_hook s =
     append_metadata env (\<lambda>b. CompactionEntry b summary first_kept tokens_before details from_hook) s"

definition append_branch_summary :: "op_env \<Rightarrow> ustr \<Rightarrow> ustr \<Rightarrow> json option \<Rightarrow> bool option \<Rightarrow> session \<Rightarrow> ustr \<times> session" where
  "append_branch_summary env from_id summary details from_hook s =
     append_metadata env (\<lambda>b. BranchSummaryEntry b from_id summary details from_hook) s"

definition add_label :: "op_env \<Rightarrow> ustr \<Rightarrow> ustr option \<Rightarrow> session \<Rightarrow> ustr option \<times> session" where
  "add_label env target label s =
     (case get_entry s target of
        None \<Rightarrow> (None, s)
      | Some e \<Rightarrow>
          let (i, s1) = push_entry env (\<lambda>b. LabelEntry b target label) s
          in (Some i, enqueue_autosave_mutation LabelMutation (clear_persisted_leaf_override_after_append s1)))"

section \<open>Loading\<close>

text \<open>
  The single pass over loaded entries. Entries without an identifier get one that depends only
  on their contents: \<open>digest\<close> stands for the first eight hexadecimal digits of the SHA-256 hash of
  an entry's JSON text and a counter.
\<close>

definition hex_digit :: "nat \<Rightarrow> uchar" where
  "hex_digit d = (if d < 10 then 48 + d else 87 + d)"

fun show_hex :: "nat \<Rightarrow> ustr" where
  "show_hex n = (if n < 16 then [hex_digit n] else show_hex (n div 16) @ [hex_digit (n mod 16)])"

declare show_hex.simps [simp del]

definition generate_loaded_entry_id :: "(session_entry \<Rightarrow> nat \<Rightarrow> ustr) \<Rightarrow> session_entry \<Rightarrow> ustr set \<Rightarrow> ustr option" where
  "generate_loaded_entry_id digest e existing =
     (case find (\<lambda>i. i \<notin> existing) (map (digest e) [0..<100]) of
        Some i \<Rightarrow> Some i
      | None \<Rightarrow>
          find (\<lambda>i. i \<notin> existing)
            (map (\<lambda>suffix. digest e 100 @ lit ''-'' @ show_hex suffix) [0..<card existing + 1]))"

fun assign_ids :: "(session_entry \<Rightarrow> nat \<Rightarrow> ustr) \<Rightarrow> session_entry list \<Rightarrow> ustr set \<Rightarrow> (session_entry list \<times> ustr set) option" where
  "assign_ids digest [] existing = Some ([], existing)"
| "assign_ids digest (e # es) existing =
     (if base_id e = None then
        (case generate_loaded_entry_id digest e existing of
           None \<Rightarrow> None
         | Some i \<Rightarrow>
             map_option (\<lambda>(es', ids). (with_base ((base_of e)\<lparr>eb_id := Some i\<rparr>) e # es', ids))
               (assign_ids digest es (insert i existing)))
      else map_option (\<lambda>(es', ids). (e # es', ids)) (assign_ids digest es existing))"

record load_scan =
  ls_index :: "(ustr, usize) btree"
  ls_message_count :: u64
  ls_name :: "ustr option"
  ls_leaf_id :: "ustr option"
  ls_orphans :: "(ustr \<times> ustr) list"
  ls_child_count :: "ustr option list"
  ls_has_branching :: bool
  ls_root_count :: u32
  ls_previous_id :: "ustr option"
  ls_storage_order_linear :: bool

definition load_scan_start :: load_scan where
  "load_scan_start =
     \<lparr>ls_index = bt_empty, ls_message_count = 0, ls_name = None, ls_leaf_id = None, ls_orphans = [],
      ls_child_count = [], ls_has_branching = False, ls_root_count = 0, ls_previous_id = None,
      ls_storage_order_linear = True\<rparr>"

text \<open>
  One step of the scan at position \<open>idx\<close>. The count of children per parent is a multiset of
  parents; branching is found when a parent is counted twice.
\<close>

definition load_scan_step :: "ustr set \<Rightarrow> usize \<Rightarrow> session_entry \<Rightarrow> load_scan \<Rightarrow> load_scan" where
  "load_scan_step ids idx e a =
     (case base_id e of
        None \<Rightarrow> a
      | Some i \<Rightarrow>
          let a1 = a\<lparr>ls_index := bt_insert i idx (ls_index a), ls_leaf_id := Some i\<rparr>;
              a2 = (case parent_id e of
                      Some p \<Rightarrow> if p \<notin> ids then a1\<lparr>ls_orphans := ls_orphans a1 @ [(i, p)]\<rparr> else a1
                    | None \<Rightarrow> a1\<lparr>ls_root_count := ls_root_count a1 + 1\<rparr>);
              a3 = (if parent_id e \<noteq> ls_previous_id a2 then a2\<lparr>ls_storage_order_linear := False\<rparr> else a2);
              a4 = a3\<lparr>ls_previous_id := Some i\<rparr>;
              a5 = (if \<not> ls_has_branching a4
                    then a4\<lparr>ls_child_count := parent_id e # ls_child_count a4,
                            ls_has_branching := parent_id e \<in> set (ls_child_count a4)\<rparr>
                    else a4)
          in case e of
               MessageEntry b m \<Rightarrow> a5\<lparr>ls_message_count := ls_message_count a5 + 1\<rparr>
             | SessionInfoEntry b (Some n) \<Rightarrow> a5\<lparr>ls_name := Some n\<rparr>
             | _ \<Rightarrow> a5)"

fun load_scan_from :: "ustr set \<Rightarrow> usize \<Rightarrow> session_entry list \<Rightarrow> load_scan \<Rightarrow> load_scan" where
  "load_scan_from ids idx [] a = a"
| "load_scan_from ids idx (e # es) a = load_scan_from ids (Suc idx) es (load_scan_step ids idx e a)"

record load_finalization =
  lf_leaf_id :: "ustr option"
  lf_entry_ids :: "ustr set"
  lf_entry_index :: "(ustr, usize) btree"
  lf_message_count :: u64
  lf_name :: "ustr option"
  lf_is_linear :: bool
  lf_orphans :: "(ustr \<times> ustr) list"

definition finalize_loaded_entries :: "(session_entry \<Rightarrow> nat \<Rightarrow> ustr) \<Rightarrow> session_entry list \<Rightarrow>
  (session_entry list \<times> load_finalization) option" where
  "finalize_loaded_entries digest es =
     (case assign_ids digest es (entry_id_set es) of
        None \<Rightarrow> None
      | Some (es1, ids) \<Rightarrow>
          let a = load_scan_from ids 0 es1 load_scan_start
          in Some (es1,
               \<lparr>lf_leaf_id = ls_leaf_id a, lf_entry_ids = ids, lf_entry_index = ls_index a,
                lf_message_count = ls_message_count a, lf_name = ls_name a,
                lf_is_linear = ls_storage_order_linear a \<and> \<not> ls_has_branching a \<and> ls_root_count a \<le> 1 \<and> ls_orphans a = [],
                lf_orphans = ls_orphans a\<rparr>))"

definition rebuild_all_caches :: "(session_entry \<Rightarrow> nat \<Rightarrow> ustr) \<Rightarrow> session \<Rightarrow> session option" where
  "rebuild_all_caches digest s =
     map_option (\<lambda>(es, f).
         s\<lparr>se_entries := es, se_entry_ids := lf_entry_ids f, se_entry_index := lf_entry_index f,
           se_cached_message_count := sat_add64 (lf_message_count f) (se_message_count_offset s),
           se_cached_name := lf_name f, se_is_linear := lf_is_linear f \<and> se_leaf_id s = lf_leaf_id f\<rparr>)
       (finalize_loaded_entries digest (se_entries s))"

definition ensure_entry_ids :: "(session_entry \<Rightarrow> nat \<Rightarrow> ustr) \<Rightarrow> session \<Rightarrow> session option" where
  "ensure_entry_ids digest s = rebuild_all_caches digest s"

definition accept_persisted_state :: "(session_entry \<Rightarrow> nat \<Rightarrow> ustr) \<Rightarrow> session_header \<Rightarrow> session_entry list \<Rightarrow>
  session \<Rightarrow> session option" where
  "accept_persisted_state digest h es s =
     map_option (\<lambda>(es1, f).
         let leaf = (case se_leaf_id s of
                       Some i \<Rightarrow> if bt_contains (lf_entry_index f) i then Some i else lf_leaf_id f
                     | None \<Rightarrow> lf_leaf_id f)
         in s\<lparr>se_header := h, se_entries := es1, se_entry_ids := lf_entry_ids f, se_entry_index := lf_entry_index f,
              se_cached_message_count := sat_add64 (lf_message_count f) (se_message_count_offset s),
              se_cached_name := lf_name f, se_leaf_id := leaf,
              se_is_linear := lf_is_linear f \<and> leaf = lf_leaf_id f,
              se_persisted_entry_count := length es1\<rparr>)
       (finalize_loaded_entries digest es)"

definition resolve_loaded_leaf_id :: "session_header \<Rightarrow> ustr option \<Rightarrow> (ustr, usize) btree \<Rightarrow> ustr option" where
  "resolve_loaded_leaf_id h natural index =
     (case hd_current_leaf h of
        Some leaf \<Rightarrow>
          if leaf = ROOT_LEAF_OVERRIDE_SENTINEL then None
          else if bt_contains index leaf then Some leaf else natural
      | None \<Rightarrow> natural)"

section \<open>Navigation\<close>

definition navigate_to :: "ustr \<Rightarrow> session \<Rightarrow> bool \<times> session" where
  "navigate_to i s =
     (if bt_contains (se_entry_index s) i then
        let is_tip = (se_entries s \<noteq> [] \<and> base_id (last (se_entries s)) = Some i);
            s1 = (if \<not> is_tip then s\<lparr>se_is_linear := False\<rparr> else s)
        in (True, sync_navigation_state_to_header (s1\<lparr>se_leaf_id := Some i\<rparr>))
      else (False, s))"

definition create_branch_from :: "ustr \<Rightarrow> session \<Rightarrow> bool \<times> session" where
  "create_branch_from i s = navigate_to i s"

definition reset_leaf :: "session \<Rightarrow> session" where
  "reset_leaf s = sync_navigation_state_to_header (s\<lparr>se_leaf_id := None, se_is_linear := False\<rparr>)"

definition is_user_entry :: "session_entry \<Rightarrow> bool" where
  "is_user_entry e = (case e of MessageEntry b (SmUser c t) \<Rightarrow> True | _ \<Rightarrow> False)"

definition is_incomplete_assistant :: "session_entry \<Rightarrow> bool" where
  "is_incomplete_assistant e =
     (case e of MessageEntry b (SmAssistant m) \<Rightarrow> as_stop_reason m \<in> {StopError, Aborted} | _ \<Rightarrow> False)"

text \<open>
  The loops of the two reverts. They keep no visited set, so on a session with a cycle they
  need not end: not ending is the value \<open>None\<close>.
\<close>

partial_function (option) revert_user_loop :: "ustr option \<Rightarrow> bool \<Rightarrow> session \<Rightarrow> (bool \<times> session) option" where
  "revert_user_loop current reverted s =
     (case current of
        None \<Rightarrow> Some (reverted, s)
      | Some i \<Rightarrow>
          (case get_entry s i of
             None \<Rightarrow> Some (reverted, s)
           | Some e \<Rightarrow>
               let s1 = s\<lparr>se_leaf_id := parent_id e, se_is_linear := False\<rparr>
               in if is_user_entry e then Some (True, s1) else revert_user_loop (parent_id e) True s1))"

partial_function (option) revert_response_loop :: "ustr option \<Rightarrow> bool \<Rightarrow> session \<Rightarrow> (bool \<times> session) option" where
  "revert_response_loop current reverted s =
     (case current of
        None \<Rightarrow> Some (reverted, s)
      | Some i \<Rightarrow>
          (case get_entry s i of
             None \<Rightarrow> Some (reverted, s)
           | Some e \<Rightarrow>
               if \<not> is_incomplete_assistant e then Some (reverted, s)
               else revert_response_loop (parent_id e) True (s\<lparr>se_leaf_id := parent_id e, se_is_linear := False\<rparr>)))"

definition after_revert :: "bool \<times> session \<Rightarrow> bool \<times> session" where
  "after_revert r = (fst r, if fst r then sync_navigation_state_to_header (snd r) else snd r)"

definition revert_last_user_message :: "session \<Rightarrow> (bool \<times> session) option" where
  "revert_last_user_message s = map_option after_revert (revert_user_loop (se_leaf_id s) False s)"

definition revert_incomplete_response :: "session \<Rightarrow> (bool \<times> session) option" where
  "revert_incomplete_response s = map_option after_revert (revert_response_loop (se_leaf_id s) False s)"

definition set_model_header :: "ustr option \<Rightarrow> ustr option \<Rightarrow> ustr option \<Rightarrow> session \<Rightarrow> session" where
  "set_model_header provider model level s =
     (let changed = (provider \<noteq> None \<or> model \<noteq> None \<or> level \<noteq> None);
          h = se_header s;
          h1 = (if provider \<noteq> None then h\<lparr>hd_provider := provider\<rparr> else h);
          h2 = (if model \<noteq> None then h1\<lparr>hd_model_id := model\<rparr> else h1);
          h3 = (if level \<noteq> None then h2\<lparr>hd_thinking_level := level\<rparr> else h2);
          s1 = s\<lparr>se_header := h3\<rparr>
      in if changed then enqueue_autosave_mutation MetadataMutation (s1\<lparr>se_header_dirty := True\<rparr>) else s1)"

definition set_branched_from :: "ustr option \<Rightarrow> session \<Rightarrow> session" where
  "set_branched_from path s =
     enqueue_autosave_mutation MetadataMutation
       (s\<lparr>se_header := (se_header s)\<lparr>hd_parent_session := path\<rparr>, se_header_dirty := True\<rparr>)"

section \<open>Forks\<close>

record fork_plan =
  fp_entries :: "session_entry list"
  fp_leaf_id :: "ustr option"
  fp_selected_text :: ustr

datatype fork_error = ForkTargetNotFound ustr | ForkTargetNotMessage ustr | ForkTargetNotUser ustr | ForkMissingEntry ustr

fun collect_entries :: "session \<Rightarrow> ustr list \<Rightarrow> fork_error + session_entry list" where
  "collect_entries s [] = Inr []"
| "collect_entries s (i # is) =
     (case get_entry s i of
        None \<Rightarrow> Inl (ForkMissingEntry i)
      | Some e \<Rightarrow> (case collect_entries s is of Inl err \<Rightarrow> Inl err | Inr es \<Rightarrow> Inr (e # es)))"

definition plan_fork_from_user_message :: "session \<Rightarrow> ustr \<Rightarrow> fork_error + fork_plan" where
  "plan_fork_from_user_message s i =
     (case get_entry s i of
        None \<Rightarrow> Inl (ForkTargetNotFound i)
      | Some e \<Rightarrow>
          (case e of
             MessageEntry b (SmUser content timestamp) \<Rightarrow>
               (let entries =
                      (case eb_parent_id b of
                         None \<Rightarrow> Inr []
                       | Some leaf \<Rightarrow>
                           if se_is_linear s then
                             (case bt_get (se_entry_index s) leaf of
                                None \<Rightarrow> Inl (ForkMissingEntry leaf)
                              | Some idx \<Rightarrow> Inr (take (Suc idx) (se_entries s)))
                           else collect_entries s (get_path_to_entry s leaf))
                in case entries of
                     Inl err \<Rightarrow> Inl err
                   | Inr es \<Rightarrow> Inr \<lparr>fp_entries = es, fp_leaf_id = eb_parent_id b,
                                  fp_selected_text = user_content_to_text content\<rparr>)
           | MessageEntry b m \<Rightarrow> Inl (ForkTargetNotUser i)
           | _ \<Rightarrow> Inl (ForkTargetNotMessage i)))"

definition init_from_fork_plan :: "(session_entry \<Rightarrow> nat \<Rightarrow> ustr) \<Rightarrow> fork_plan \<Rightarrow> session \<Rightarrow> session option" where
  "init_from_fork_plan digest plan s =
     map_option sync_navigation_state_to_header
       (rebuild_all_caches digest (s\<lparr>se_entries := fp_entries plan, se_leaf_id := fp_leaf_id plan\<rparr>))"

section \<open>The conversation for the model\<close>

definition append_model_message_for_entry :: "int \<Rightarrow> session_entry \<Rightarrow> message list" where
  "append_model_message_for_entry now e =
     (case e of
        MessageEntry b m \<Rightarrow> (case session_message_to_model now m of Some x \<Rightarrow> [x] | None \<Rightarrow> [])
      | BranchSummaryEntry b from_id summary details from_hook \<Rightarrow>
          (case session_message_to_model now (SmBranchSummary summary from_id) of Some x \<Rightarrow> [x] | None \<Rightarrow> [])
      | _ \<Rightarrow> [])"

definition compaction_of :: "session_entry \<Rightarrow> (ustr \<times> ustr \<times> u64) option" where
  "compaction_of e =
     (case e of CompactionEntry b summary first_kept tokens details hook \<Rightarrow> Some (summary, first_kept, tokens) | _ \<Rightarrow> None)"

text \<open>The last compaction on a path, with its position.\<close>

fun last_compaction :: "session_entry list \<Rightarrow> (nat \<times> ustr \<times> ustr \<times> u64) option" where
  "last_compaction [] = None"
| "last_compaction (e # es) =
     (case last_compaction es of
        Some (i, c) \<Rightarrow> Some (Suc i, c)
      | None \<Rightarrow> (case compaction_of e of Some c \<Rightarrow> Some (0, c) | None \<Rightarrow> None))"

text \<open>The loop over the path: \<open>keep\<close> and \<open>past_compaction\<close> are the loop's variables.\<close>

fun keep_loop :: "int \<Rightarrow> bool \<Rightarrow> ustr \<Rightarrow> nat \<Rightarrow> nat \<Rightarrow> bool \<Rightarrow> bool \<Rightarrow> session_entry list \<Rightarrow> message list" where
  "keep_loop now has_kept first_kept compaction_idx idx keep past [] = []"
| "keep_loop now has_kept first_kept compaction_idx idx keep past (e # es) =
     (let past1 = (past \<or> idx = compaction_idx);
          keep1 = (keep \<or> (if has_kept then base_id e = Some first_kept else past1))
      in (if keep1 then append_model_message_for_entry now e else []) @
         keep_loop now has_kept first_kept compaction_idx (Suc idx) keep1 past1 es)"

definition to_messages_from_path :: "int \<Rightarrow> session_entry list \<Rightarrow> message list" where
  "to_messages_from_path now path =
     (case last_compaction path of
        Some (idx, summary, first_kept, tokens) \<Rightarrow>
          (case session_message_to_model now (SmCompactionSummary summary tokens) of Some x \<Rightarrow> [x] | None \<Rightarrow> []) @
          keep_loop now (list_ex (\<lambda>e. base_id e = Some first_kept) path) first_kept idx 0 False False path
      | None \<Rightarrow> concat (map (append_model_message_for_entry now) path))"

definition to_messages_for_current_path :: "int \<Rightarrow> session \<Rightarrow> message list" where
  "to_messages_for_current_path now s =
     (if se_leaf_id s = None then []
      else if se_is_linear s then to_messages_from_path now (se_entries s)
      else to_messages_from_path now (entries_for_current_path s))"

definition to_messages :: "int \<Rightarrow> session \<Rightarrow> message list" where
  "to_messages now s =
     concat (map (\<lambda>e. case e of
         MessageEntry b m \<Rightarrow> (case session_message_to_model now m of Some x \<Rightarrow> [x] | None \<Rightarrow> [])
       | _ \<Rightarrow> []) (se_entries s))"

end
