(* ===== verification/Session_Path.thy ===== *)
theory Session_Path
  imports Session_Tree
begin

text \<open>
  Correctness of the session tree: the invariant that every operation keeps, and what the
  current path is. The invariant says that identifiers are present and distinct, that every
  parent is an earlier entry, and that the caches tell the truth about the entries; in
  particular the flag for a session without branches is only set when the entries form one
  chain that ends at the leaf, which is what makes the fast paths of the code correct.
\<close>

section \<open>The invariant\<close>

definition entries_ok :: "session_entry list \<Rightarrow> bool" where
  "entries_ok es \<longleftrightarrow> (\<forall>e \<in> set es. base_id e \<noteq> None) \<and> distinct (map base_id es) \<and>
     (\<forall>i < length es. \<forall>p. parent_id (es ! i) = Some p \<longrightarrow> (\<exists>j < i. base_id (es ! j) = Some p))"

definition index_ok :: "(ustr, usize) btree \<Rightarrow> session_entry list \<Rightarrow> bool" where
  "index_ok index es \<longleftrightarrow> bt_wf index \<and>
     (\<forall>i idx. bt_get index i = Some idx \<longleftrightarrow> idx < length es \<and> base_id (es ! idx) = Some i)"

definition tip_id :: "session_entry list \<Rightarrow> ustr option" where
  "tip_id es = (if es = [] then None else base_id (last es))"

definition one_chain :: "session_entry list \<Rightarrow> bool" where
  "one_chain es \<longleftrightarrow> (\<forall>i < length es. parent_id (es ! i) = tip_id (take i es))"

definition is_message_entry :: "session_entry \<Rightarrow> bool" where
  "is_message_entry e = (case e of MessageEntry b m \<Rightarrow> True | _ \<Rightarrow> False)"

definition session_name :: "session_entry \<Rightarrow> ustr option" where
  "session_name e = (case e of SessionInfoEntry b n \<Rightarrow> n | _ \<Rightarrow> None)"

definition leaf_ok :: "session_entry list \<Rightarrow> ustr option \<Rightarrow> bool" where
  "leaf_ok es leaf \<longleftrightarrow> leaf = None \<or> leaf \<in> base_id ` set es"

definition session_ok :: "session \<Rightarrow> bool" where
  "session_ok s \<longleftrightarrow>
     entries_ok (se_entries s) \<and> index_ok (se_entry_index s) (se_entries s) \<and>
     se_entry_ids s = entry_id_set (se_entries s) \<and> leaf_ok (se_entries s) (se_leaf_id s) \<and>
     (se_is_linear s \<longrightarrow> one_chain (se_entries s) \<and> se_leaf_id s = tip_id (se_entries s)) \<and>
     (length (se_entries s) + se_message_count_offset s \<le> u64_max \<longrightarrow>
        se_cached_message_count s = length (filter is_message_entry (se_entries s)) + se_message_count_offset s) \<and>
     se_cached_name s = find_last session_name (se_entries s)"

text \<open>The header and the autosave queue do not matter for it.\<close>

lemma session_ok_frame [simp]:
  "session_ok (s\<lparr>se_header := h\<rparr>) = session_ok s"
  "session_ok (s\<lparr>se_header_dirty := d\<rparr>) = session_ok s"
  "session_ok (s\<lparr>se_autosave := q\<rparr>) = session_ok s"
  "session_ok (s\<lparr>se_persisted_entry_count := n\<rparr>) = session_ok s"
  by (simp_all add: session_ok_def)

definition same_tree :: "session \<Rightarrow> session \<Rightarrow> bool" where
  "same_tree s t \<longleftrightarrow>
     se_entries t = se_entries s \<and> se_leaf_id t = se_leaf_id s \<and> se_entry_ids t = se_entry_ids s \<and>
     se_is_linear t = se_is_linear s \<and> se_entry_index t = se_entry_index s \<and>
     se_cached_message_count t = se_cached_message_count s \<and> se_cached_name t = se_cached_name s \<and>
     se_message_count_offset t = se_message_count_offset s"

lemma same_tree_trans: "same_tree s t \<Longrightarrow> same_tree t u \<Longrightarrow> same_tree s u"
  by (simp add: same_tree_def)

lemma same_tree_parts:
  "same_tree s (snd (sync_leaf s))" "same_tree s (snd (sync_model s))" "same_tree s (snd (sync_thinking s))"
  by (auto simp: sync_leaf_def sync_model_def sync_thinking_def Let_def same_tree_def split: option.split)

lemma same_tree_sync: "same_tree s (sync_navigation_state_to_header s)"
proof -
  define s3 where "s3 = snd (sync_thinking (snd (sync_model (snd (sync_leaf s)))))"
  have "same_tree s s3" unfolding s3_def by (blast intro: same_tree_trans same_tree_parts)
  moreover have "same_tree s3 (sync_navigation_state_to_header s)"
    by (simp add: sync_navigation_state_to_header_def split_beta Let_def s3_def enqueue_autosave_mutation_def same_tree_def)
  ultimately show ?thesis by (rule same_tree_trans)
qed

lemma same_tree_fields:
  assumes "same_tree s t"
  shows "se_entries t = se_entries s" and "se_leaf_id t = se_leaf_id s" and "se_is_linear t = se_is_linear s"
    and "se_entry_index t = se_entry_index s" and "session_ok t = session_ok s"
  using assms by (simp_all add: same_tree_def session_ok_def)

lemmas sync_fields [simp] = same_tree_fields [OF same_tree_sync]

lemma session_ok_clear [simp]: "session_ok (clear_persisted_leaf_override_after_append s) = session_ok s"
  by (simp add: clear_persisted_leaf_override_after_append_def Let_def)

lemma session_ok_enqueue [simp]: "session_ok (enqueue_autosave_mutation k s) = session_ok s"
  by (simp add: enqueue_autosave_mutation_def)

section \<open>Lists of entries\<close>

lemma tip_id_append [simp]: "tip_id (es @ [e]) = base_id e"
  by (simp add: tip_id_def)

lemma tip_id_Nil [simp]: "tip_id [] = None"
  by (simp add: tip_id_def)

lemma entry_id_set_iff: "i \<in> entry_id_set es \<longleftrightarrow> Some i \<in> base_id ` set es"
  by (induction es) (auto simp: entry_id_set_def map_filter_simps split: option.splits)

lemma entry_id_set_append [simp]:
  "entry_id_set (es @ [e]) = (case base_id e of None \<Rightarrow> entry_id_set es | Some i \<Rightarrow> insert i (entry_id_set es))"
  by (auto simp: entry_id_set_iff split: option.splits)

lemma entries_ok_snoc:
  assumes "entries_ok es" and "base_id e = Some i" and "i \<notin> entry_id_set es"
    and "leaf_ok es (parent_id e)"
  shows "entries_ok (es @ [e])"
proof -
  have "\<exists>j < length es. base_id (es ! j) = Some p" if "parent_id e = Some p" for p
    using assms(4) that by (auto simp: leaf_ok_def in_set_conv_nth)
  then have "\<forall>i < length (es @ [e]). \<forall>p. parent_id ((es @ [e]) ! i) = Some p \<longrightarrow> (\<exists>j < i. base_id ((es @ [e]) ! j) = Some p)"
    using assms(1) unfolding entries_ok_def by (auto simp: nth_append less_Suc_eq) (metis less_trans)+
  moreover have "distinct (map base_id (es @ [e]))"
    using assms(1-3) by (auto simp: entries_ok_def entry_id_set_iff)
  ultimately show ?thesis using assms(1,2) by (auto simp: entries_ok_def)
qed

lemma one_chain_snoc: "one_chain es \<Longrightarrow> parent_id e = tip_id es \<Longrightarrow> one_chain (es @ [e])"
  by (auto simp: one_chain_def nth_append less_Suc_eq)

lemma index_ok_snoc:
  assumes "index_ok index es" and "base_id e = Some i" and "i \<notin> entry_id_set es"
  shows "index_ok (bt_insert i (length es) index) (es @ [e])"
proof -
  have out: "base_id (es ! j) \<noteq> Some i" if "j < length es" for j
    using assms(3) that by (auto simp: entry_id_set_iff) (metis imageI nth_mem)
  show ?thesis
    using assms(1,2) out unfolding index_ok_def by (auto simp: nth_append less_Suc_eq split: if_splits)
qed

lemma find_last_snoc: "find_last f (xs @ [x]) = (case f x of Some y \<Rightarrow> Some y | None \<Rightarrow> find_last f xs)"
  by (simp add: find_last_def map_filter_simps split: option.splits)

lemma index_ok_contains:
  assumes "index_ok index es"
  shows "bt_get index i \<noteq> None \<longleftrightarrow> Some i \<in> base_id ` set es"
proof
  assume "bt_get index i \<noteq> None"
  then obtain idx where "bt_get index i = Some idx" by blast
  then have "idx < length es" "base_id (es ! idx) = Some i" using assms by (simp_all add: index_ok_def)
  then show "Some i \<in> base_id ` set es" by (metis imageI nth_mem)
next
  assume "Some i \<in> base_id ` set es"
  then obtain idx where "idx < length es" "base_id (es ! idx) = Some i" by (auto simp: in_set_conv_nth)
  then have "bt_get index i = Some idx" using assms by (simp add: index_ok_def)
  then show "bt_get index i \<noteq> None" by simp
qed

lemma get_entry_nth:
  "index_ok (se_entry_index s) (se_entries s) \<Longrightarrow> idx < length (se_entries s) \<Longrightarrow>
   base_id (se_entries s ! idx) = Some i \<Longrightarrow> get_entry s i = Some (se_entries s ! idx)"
  by (subgoal_tac "bt_get (se_entry_index s) i = Some idx") (simp add: get_entry_def, simp add: index_ok_def)

lemma get_entry_member:
  assumes "index_ok (se_entry_index s) (se_entries s)" and "e \<in> set (se_entries s)" and "base_id e = Some i"
  shows "get_entry s i = Some e"
  using get_entry_nth [OF assms(1)] assms(2,3) by (metis in_set_conv_nth)

lemma get_entry_SomeD:
  assumes "index_ok (se_entry_index s) (se_entries s)" and "get_entry s i = Some e"
  shows "e \<in> set (se_entries s)" and "base_id e = Some i"
  using assms by (auto simp: get_entry_def index_ok_def split: option.splits if_splits)

section \<open>Appending keeps the invariant\<close>

definition fresh_ids :: "op_env \<Rightarrow> session \<Rightarrow> bool" where
  "fresh_ids env s \<longleftrightarrow> snd (oe_draws env 100) \<notin> entry_id_set (se_entries s)"

lemma generate_fresh: "snd (draws 100) \<notin> existing \<Longrightarrow> generate_entry_id draws existing \<notin> existing"
  by (auto simp: generate_entry_id_def find_Some_iff split: option.splits)

lemma next_entry_id_fresh:
  "session_ok s \<Longrightarrow> fresh_ids env s \<Longrightarrow> next_entry_id env s \<notin> entry_id_set (se_entries s)"
  by (simp add: next_entry_id_def fresh_ids_def session_ok_def generate_fresh)

text \<open>
  What the shared part of the appends does, and that it keeps the invariant up to the message
  count and the name, which the callers maintain.
\<close>

lemma push_entry_ok:
  assumes ok: "session_ok s" and fresh: "fresh_ids env s"
    and mk: "\<And>b. base_of (mk b) = b" and p: "push_entry env mk s = (i, s1)"
  defines "e \<equiv> mk (entry_base_new (oe_now env) (se_leaf_id s) i)"
  defines "n \<equiv> length (filter is_message_entry [e])"
  defines "name \<equiv> (case session_name e of Some x \<Rightarrow> Some x | None \<Rightarrow> se_cached_name s)"
  shows "session_ok (s1\<lparr>se_cached_message_count := se_cached_message_count s1 + n, se_cached_name := name\<rparr>)"
    and "se_entries s1 = se_entries s @ [e]" and "base_id e = Some i" and "parent_id e = se_leaf_id s"
    and "se_leaf_id s1 = Some i" and "i \<notin> entry_id_set (se_entries s)"
proof -
  have i: "i = next_entry_id env s" using p by (auto simp: push_entry_def Let_def)
  show new: "i \<notin> entry_id_set (se_entries s)" using next_entry_id_fresh [OF ok fresh] i by simp
  show e: "base_id e = Some i" "parent_id e = se_leaf_id s"
    by (simp_all add: e_def base_id_def parent_id_def mk entry_base_new_def)
  have s1: "s1 = s\<lparr>se_leaf_id := Some i, se_entries := se_entries s @ [e],
      se_entry_index := bt_insert i (length (se_entries s)) (se_entry_index s),
      se_entry_ids := insert i (se_entry_ids s)\<rparr>"
    using p i by (auto simp: push_entry_def Let_def e_def)
  show "se_entries s1 = se_entries s @ [e]" "se_leaf_id s1 = Some i" using s1 by simp_all
  note inv = ok [unfolded session_ok_def]
  have "entries_ok (se_entries s @ [e])" using inv e new by (intro entries_ok_snoc) auto
  moreover have "index_ok (bt_insert i (length (se_entries s)) (se_entry_index s)) (se_entries s @ [e])"
    using inv e new by (intro index_ok_snoc) auto
  moreover have "se_is_linear s \<Longrightarrow> one_chain (se_entries s @ [e])"
    using inv e by (intro one_chain_snoc) auto
  moreover have "name = find_last session_name (se_entries s @ [e])"
    using inv by (cases "session_name e") (simp_all add: name_def find_last_snoc)
  moreover have "length (se_entries s) + se_message_count_offset s \<le> u64_max"
    if "length (se_entries s @ [e]) + se_message_count_offset s \<le> u64_max" using that by simp
  ultimately show "session_ok (s1\<lparr>se_cached_message_count := se_cached_message_count s1 + n, se_cached_name := name\<rparr>)"
    using inv e by (auto simp: session_ok_def s1 leaf_ok_def n_def)
qed

lemma append_message_ok:
  assumes "session_ok s" and "fresh_ids env s"
  shows "session_ok (snd (append_message env m s))"
proof -
  obtain i s1 where p: "push_entry env (\<lambda>b. MessageEntry b m) s = (i, s1)" by force
  from push_entry_ok(1) [OF assms _ p] have "session_ok (s1\<lparr>se_cached_message_count := se_cached_message_count s1 + 1, se_cached_name := se_cached_name s\<rparr>)"
    by (simp add: is_message_entry_def session_name_def)
  moreover have "s1\<lparr>se_cached_message_count := n, se_cached_name := se_cached_name s\<rparr> = s1\<lparr>se_cached_message_count := n\<rparr>" for n
    using p by (auto simp: push_entry_def Let_def)
  ultimately show ?thesis using p by (simp add: append_message_def)
qed

lemma append_metadata_ok:
  assumes "session_ok s" and "fresh_ids env s" and mk: "\<And>b. base_of (mk b) = b"
    and nm: "\<And>b. \<not> is_message_entry (mk b)" and name: "\<And>b. session_name (mk b) = n"
    and that: "name = (case n of Some x \<Rightarrow> Some x | None \<Rightarrow> se_cached_name s)"
  shows "session_ok (snd (append_metadata env mk (s\<lparr>se_cached_name := name\<rparr>)))"
proof -
  obtain i s1 where p: "push_entry env mk s = (i, s1)" by force
  have "push_entry env mk (s\<lparr>se_cached_name := name\<rparr>) = (i, s1\<lparr>se_cached_name := name\<rparr>)"
    using p by (auto simp: push_entry_def next_entry_id_def Let_def)
  moreover have "session_ok (s1\<lparr>se_cached_name := name\<rparr>)"
    using push_entry_ok(1) [OF assms(1,2) mk p] nm name that by simp
  ultimately show ?thesis by (simp add: append_metadata_def)
qed

lemma append_other_ok:
  assumes "session_ok s" and "fresh_ids env s" and "\<And>b. base_of (mk b) = b"
    and "\<And>b. \<not> is_message_entry (mk b)" and "\<And>b. session_name (mk b) = None"
  shows "session_ok (snd (append_metadata env mk s))"
  using append_metadata_ok [OF assms, of "se_cached_name s"] by simp

lemma add_label_ok:
  assumes "session_ok s" and "fresh_ids env s"
  shows "session_ok (snd (add_label env target label s))"
proof (cases "get_entry s target")
  case (Some e)
  have "session_ok (snd (append_metadata env (\<lambda>b. LabelEntry b target label) s))"
    using assms by (intro append_other_ok) (simp_all add: is_message_entry_def session_name_def)
  then show ?thesis using Some by (simp add: add_label_def append_metadata_def split_beta)
qed (use assms in \<open>simp add: add_label_def\<close>)

section \<open>Loading keeps the invariant\<close>

lemma assign_ids_id: "\<forall>e \<in> set es. base_id e \<noteq> None \<Longrightarrow> assign_ids digest es ids = Some (es, ids)"
  by (induction es) auto

definition scan_ok :: "session_entry list \<Rightarrow> load_scan \<Rightarrow> bool" where
  "scan_ok ds a \<longleftrightarrow> index_ok (ls_index a) ds \<and> ls_leaf_id a = tip_id ds \<and> ls_previous_id a = tip_id ds \<and>
     (ls_storage_order_linear a \<longrightarrow> one_chain ds) \<and> ls_message_count a = length (filter is_message_entry ds) \<and>
     ls_name a = find_last session_name ds"

lemma scan_ok_step:
  assumes "scan_ok ds a" and "base_id e = Some i" and "i \<notin> entry_id_set ds"
  shows "scan_ok (ds @ [e]) (load_scan_step ids (length ds) e a)"
proof -
  note a = assms(1) [unfolded scan_ok_def]
  have idx: "index_ok (bt_insert i (length ds) (ls_index a)) (ds @ [e])"
    using a assms(2,3) by (intro index_ok_snoc) auto
  have fields: "ls_index (load_scan_step ids (length ds) e a) = bt_insert i (length ds) (ls_index a)"
    "ls_leaf_id (load_scan_step ids (length ds) e a) = Some i"
    "ls_previous_id (load_scan_step ids (length ds) e a) = Some i"
    "ls_storage_order_linear (load_scan_step ids (length ds) e a) =
       (ls_storage_order_linear a \<and> parent_id e = ls_previous_id a)"
    "ls_message_count (load_scan_step ids (length ds) e a) = ls_message_count a + (if is_message_entry e then 1 else 0)"
    "ls_name (load_scan_step ids (length ds) e a) = (case session_name e of Some n \<Rightarrow> Some n | None \<Rightarrow> ls_name a)"
    using assms(2)
    by (simp_all add: load_scan_step_def Let_def is_message_entry_def session_name_def
        split: option.split session_entry.split)
  show ?thesis
    using a idx assms(2) one_chain_snoc [of ds e]
    by (auto simp: scan_ok_def fields find_last_snoc split: option.split)
qed

lemma scan_ok_run:
  assumes "scan_ok ds a" and "entries_ok (ds @ es)"
  shows "scan_ok (ds @ es) (load_scan_from ids (length ds) es a)"
  using assms
proof (induction es arbitrary: ds a)
  case (Cons e es)
  obtain i where i: "base_id e = Some i" using Cons.prems(2) by (auto simp: entries_ok_def)
  have "i \<notin> entry_id_set ds" using Cons.prems(2) i by (auto simp: entries_ok_def entry_id_set_iff)
  then have "scan_ok (ds @ [e]) (load_scan_step ids (length ds) e a)" using scan_ok_step Cons.prems(1) i by blast
  then show ?case using Cons.IH [of "ds @ [e]"] Cons.prems(2) by simp
qed simp

lemma finalize_ok:
  assumes "entries_ok es"
  obtains f where "finalize_loaded_entries digest es = Some (es, f)" and "lf_entry_ids f = entry_id_set es"
    and "index_ok (lf_entry_index f) es" and "lf_leaf_id f = tip_id es"
    and "lf_message_count f = length (filter is_message_entry es)" and "lf_name f = find_last session_name es"
    and "lf_is_linear f \<Longrightarrow> one_chain es"
proof -
  have ids: "assign_ids digest es (entry_id_set es) = Some (es, entry_id_set es)"
    using assms by (intro assign_ids_id) (simp add: entries_ok_def)
  have "scan_ok [] load_scan_start"
    by (simp add: scan_ok_def load_scan_start_def index_ok_def one_chain_def find_last_def map_filter_simps)
  from scan_ok_run [OF this, of es "entry_id_set es"] assms
  have "scan_ok es (load_scan_from (entry_id_set es) 0 es load_scan_start)" by simp
  then show ?thesis
    using that ids by (simp add: finalize_loaded_entries_def scan_ok_def Let_def)
qed

lemma filter_count_exact:
  "length xs + n \<le> u64_max \<Longrightarrow> sat_add64 (length (filter P xs)) n = length (filter P xs) + n"
  using length_filter_le [of P xs] by (intro sat_add64_exact) linarith

lemma rebuild_ok:
  assumes "entries_ok (se_entries s)" and "leaf_ok (se_entries s) (se_leaf_id s)"
  obtains t where "rebuild_all_caches digest s = Some t" and "session_ok t"
    and "se_entries t = se_entries s" and "se_leaf_id t = se_leaf_id s" and "se_header t = se_header s"
proof -
  obtain f where f: "finalize_loaded_entries digest (se_entries s) = Some (se_entries s, f)"
    "lf_entry_ids f = entry_id_set (se_entries s)" "index_ok (lf_entry_index f) (se_entries s)"
    "lf_leaf_id f = tip_id (se_entries s)" "lf_message_count f = length (filter is_message_entry (se_entries s))"
    "lf_name f = find_last session_name (se_entries s)" "lf_is_linear f \<Longrightarrow> one_chain (se_entries s)"
    using finalize_ok [OF assms(1)] by blast
  show ?thesis
    using that assms f by (auto simp: rebuild_all_caches_def session_ok_def filter_count_exact)
qed

lemma accept_ok:
  assumes "entries_ok es"
  obtains t where "accept_persisted_state digest h es s = Some t" and "session_ok t" and "se_entries t = es"
    and "se_leaf_id t = (if se_leaf_id s \<noteq> None \<and> leaf_ok es (se_leaf_id s) then se_leaf_id s else tip_id es)"
    and "se_header t = h"
proof -
  obtain f where f: "finalize_loaded_entries digest es = Some (es, f)"
    "lf_entry_ids f = entry_id_set es" "index_ok (lf_entry_index f) es" "lf_leaf_id f = tip_id es"
    "lf_message_count f = length (filter is_message_entry es)" "lf_name f = find_last session_name es"
    "lf_is_linear f \<Longrightarrow> one_chain es"
    using finalize_ok [OF assms] by blast
  have has: "bt_contains (lf_entry_index f) i \<longleftrightarrow> Some i \<in> base_id ` set es" for i
    using index_ok_contains [OF f(3)] by simp
  define leaf where "leaf = (case se_leaf_id s of Some i \<Rightarrow> if bt_contains (lf_entry_index f) i then Some i else lf_leaf_id f
                     | None \<Rightarrow> lf_leaf_id f)"
  have leaf: "leaf = (if se_leaf_id s \<noteq> None \<and> leaf_ok es (se_leaf_id s) then se_leaf_id s else tip_id es)"
    unfolding leaf_def has leaf_ok_def f(4) by (auto split: option.split)
  have lok: "leaf_ok es leaf" using leaf by (auto simp: leaf_ok_def tip_id_def)
  define t where "t = s\<lparr>se_header := h, se_entries := es, se_entry_ids := lf_entry_ids f, se_entry_index := lf_entry_index f,
              se_cached_message_count := sat_add64 (lf_message_count f) (se_message_count_offset s),
              se_cached_name := lf_name f, se_leaf_id := leaf,
              se_is_linear := lf_is_linear f \<and> leaf = lf_leaf_id f, se_persisted_entry_count := length es\<rparr>"
  have "accept_persisted_state digest h es s = Some t"
    unfolding accept_persisted_state_def f(1) t_def leaf_def by (simp add: Let_def)
  moreover have "session_ok t"
    using assms f lok by (auto simp: session_ok_def t_def filter_count_exact)
  ultimately show ?thesis using that leaf by (simp add: t_def)
qed

section \<open>Paths\<close>

text \<open>The path from an identifier up to the root, as a list of entries.\<close>

fun up_path :: "session_entry list \<Rightarrow> ustr option \<Rightarrow> session_entry list \<Rightarrow> bool" where
  "up_path es None zs = (zs = [])"
| "up_path es (Some i) [] = False"
| "up_path es (Some i) (e # zs) = (e \<in> set es \<and> base_id e = Some i \<and> up_path es (parent_id e) zs)"

lemma up_path_unique:
  "distinct (map base_id es) \<Longrightarrow> up_path es c ys \<Longrightarrow> up_path es c zs \<Longrightarrow> ys = zs"
proof (induction es c ys arbitrary: zs rule: up_path.induct)
  case (1 es zs)
  then show ?case by simp
next
  case (2 es i)
  then show ?case by simp
next
  case (3 es i e ys)
  then obtain e' zs' where z: "zs = e' # zs'" "e' \<in> set es" "base_id e' = Some i" "up_path es (parent_id e') zs'"
    by (cases zs) auto
  have "e \<in> set es" "base_id e = base_id e'" using "3.prems"(2) z(3) by simp_all
  then have "e = e'" using z(2) "3.prems"(1) by (metis distinct_map inj_onD)
  then show ?case using "3.IH" [of zs'] "3.prems"(1,2) z by simp
qed

lemma up_path_mono: "up_path es c zs \<Longrightarrow> set es \<subseteq> set fs \<Longrightarrow> up_path fs c zs"
  by (induction es c zs rule: up_path.induct) auto

lemma up_path_chain: "one_chain es \<Longrightarrow> \<forall>e \<in> set es. base_id e \<noteq> None \<Longrightarrow> up_path es (tip_id es) (rev es)"
proof (induction es rule: rev_induct)
  case (snoc e es)
  have "one_chain es"
    using snoc.prems(1) unfolding one_chain_def by (auto simp: nth_append less_Suc_eq)
  then have "up_path es (tip_id es) (rev es)" using snoc by simp
  then have "up_path (es @ [e]) (tip_id es) (rev es)" by (rule up_path_mono) auto
  moreover have "parent_id e = tip_id es" using snoc.prems(1) by (simp add: one_chain_def) (metis lessI nth_append_length take_append append_Nil2 diff_self_eq_0 take_0 take_all order_refl)
  ultimately show ?case using snoc.prems(2) by auto
qed simp

text \<open>The walk over the index visits exactly this path: parents are earlier entries, so none is met twice.\<close>

lemma index_walk_at:
  assumes ok: "entries_ok es" "index_ok index es"
    and n: "n < length es" "base_id (es ! n) = Some i" "\<forall>j \<le> n. base_id (es ! j) \<notin> Some ` visited"
  shows "up_path es (Some i) (map (\<lambda>k. es ! k) (index_walk index es (Some i) visited))"
  using n
proof (induction n arbitrary: i visited rule: less_induct)
  case (less n)
  have get: "bt_get index i = Some n" using ok(2) less.prems(1,2) by (simp add: index_ok_def)
  have new: "i \<notin> visited" using less.prems(2,3) by force
  have walk: "index_walk index es (Some i) visited = n # index_walk index es (parent_id (es ! n)) (insert i visited)"
    by (subst index_walk.simps) (simp add: get new less.prems(1))
  have rest: "up_path es (parent_id (es ! n)) (map (\<lambda>k. es ! k) (index_walk index es (parent_id (es ! n)) (insert i visited)))"
  proof (cases "parent_id (es ! n)")
    case None
    then show ?thesis by (simp add: index_walk.simps)
  next
    case (Some p)
    then obtain j where j: "j < n" "base_id (es ! j) = Some p"
      using ok(1) less.prems(1) unfolding entries_ok_def by blast
    have "base_id (es ! k) \<noteq> Some i" if "k \<le> j" for k
    proof -
      have "map base_id es ! k \<noteq> map base_id es ! n"
        using ok(1) that j(1) less.prems(1) by (intro distinct_conv_nth [THEN iffD1, rule_format]) (auto simp: entries_ok_def)
      then show ?thesis using that j(1) less.prems(1,2) by simp
    qed
    then have "\<forall>k \<le> j. base_id (es ! k) \<notin> Some ` insert i visited" using less.prems(3) j(1) by auto
    then show ?thesis using less.IH [OF j(1) _ j(2)] j(1) less.prems(1) Some by simp
  qed
  show ?case using walk rest less.prems(1,2) by simp
qed

lemma index_walk_up:
  assumes "entries_ok es" and "index_ok index es" and "leaf_ok es c"
  shows "up_path es c (map (\<lambda>k. es ! k) (index_walk index es c {}))"
proof (cases c)
  case None
  then show ?thesis by (simp add: index_walk.simps)
next
  case (Some i)
  then obtain n where "n < length es" "base_id (es ! n) = Some i"
    using assms(3) by (auto simp: leaf_ok_def in_set_conv_nth)
  then show ?thesis using index_walk_at [OF assms(1,2)] Some by simp
qed

lemma path_is_up_path:
  assumes "session_ok s"
  shows "up_path (se_entries s) (se_leaf_id s) (rev (entries_for_current_path s))"
proof -
  note ok = assms [unfolded session_ok_def]
  show ?thesis
  proof (cases "se_is_linear s")
    case True
    then have "up_path (se_entries s) (se_leaf_id s) (rev (se_entries s))"
      using ok up_path_chain [of "se_entries s"] by (simp add: entries_ok_def)
    then show ?thesis
      using True ok by (auto simp: entries_for_current_path_def tip_id_def split: option.splits)
  next
    case False
    then show ?thesis
      using index_walk_up [of "se_entries s" "se_entry_index s" "se_leaf_id s"] ok
      by (cases "se_leaf_id s") (simp_all add: entries_for_current_path_def rev_map)
  qed
qed

lemma path_unique:
  assumes "session_ok s" and "up_path (se_entries s) (se_leaf_id s) zs"
  shows "entries_for_current_path s = rev zs"
  using up_path_unique [OF _ path_is_up_path [OF assms(1)] assms(2)] assms(1)
  by (metis rev_rev_ident session_ok_def entries_ok_def)

section \<open>Reverts\<close>

definition leaf_of :: "session_entry list \<Rightarrow> ustr option" where
  "leaf_of zs = (case zs of [] \<Rightarrow> None | e # _ \<Rightarrow> base_id e)"

lemma up_path_leaf: "up_path es c zs \<Longrightarrow> c = leaf_of zs"
  by (cases c; cases zs) (auto simp: leaf_of_def)

lemma up_path_suffix: "up_path es c (ys @ zs) \<Longrightarrow> up_path es (leaf_of zs) zs"
proof (induction ys arbitrary: c)
  case Nil
  then show ?case using up_path_leaf [of es c zs] by simp
next
  case (Cons y ys)
  then show ?case by (cases c) auto
qed

lemma revert_response_run:
  assumes "index_ok (se_entry_index s) (se_entries s)" and "up_path (se_entries s) c zs"
  shows "revert_response_loop c r s =
    Some (if zs \<noteq> [] \<and> is_incomplete_assistant (hd zs)
          then (True, s\<lparr>se_leaf_id := leaf_of (dropWhile is_incomplete_assistant zs), se_is_linear := False\<rparr>)
          else (r, s))"
  using assms
proof (induction zs arbitrary: c r s)
  case Nil
  have "c = None" using Nil.prems(2) by (cases c) auto
  then show ?case by (simp add: revert_response_loop.simps)
next
  case (Cons e zs)
  obtain i where c: "c = Some i" "e \<in> set (se_entries s)" "base_id e = Some i" "up_path (se_entries s) (parent_id e) zs"
    using Cons.prems(2) by (cases c) auto
  have get: "get_entry s i = Some e" by (rule get_entry_member [OF Cons.prems(1) c(2,3)])
  show ?case
  proof (cases "is_incomplete_assistant e")
    case False
    then show ?thesis by (subst revert_response_loop.simps) (simp add: c(1) get)
  next
    case True
    define t where "t = s\<lparr>se_leaf_id := parent_id e, se_is_linear := False\<rparr>"
    have IH: "revert_response_loop (parent_id e) True t =
      Some (if zs \<noteq> [] \<and> is_incomplete_assistant (hd zs)
          then (True, t\<lparr>se_leaf_id := leaf_of (dropWhile is_incomplete_assistant zs), se_is_linear := False\<rparr>)
          else (True, t))"
      using Cons.prems(1) c(4) by (intro Cons.IH) (simp_all add: t_def)
    have leaf: "parent_id e = leaf_of zs" using up_path_leaf [OF c(4)] .
    have "revert_response_loop c r s = revert_response_loop (parent_id e) True t"
      using True by (subst revert_response_loop.simps) (simp add: c(1) get t_def)
    also have "\<dots> = Some (True, s\<lparr>se_leaf_id := leaf_of (dropWhile is_incomplete_assistant zs), se_is_linear := False\<rparr>)"
      using IH leaf by (cases zs) (simp_all add: t_def)
    finally show ?thesis using True by simp
  qed
qed

lemma revert_user_run:
  assumes "index_ok (se_entry_index s) (se_entries s)" and "up_path (se_entries s) c zs"
  shows "revert_user_loop c r s =
    Some (if zs = [] then (r, s)
          else (True, s\<lparr>se_leaf_id := leaf_of (tl (dropWhile (\<lambda>e. \<not> is_user_entry e) zs)), se_is_linear := False\<rparr>))"
  using assms
proof (induction zs arbitrary: c r s)
  case Nil
  have "c = None" using Nil.prems(2) by (cases c) auto
  then show ?case by (simp add: revert_user_loop.simps)
next
  case (Cons e zs)
  obtain i where c: "c = Some i" "e \<in> set (se_entries s)" "base_id e = Some i" "up_path (se_entries s) (parent_id e) zs"
    using Cons.prems(2) by (cases c) auto
  have get: "get_entry s i = Some e" by (rule get_entry_member [OF Cons.prems(1) c(2,3)])
  have leaf: "parent_id e = leaf_of zs" using up_path_leaf [OF c(4)] .
  define t where "t = s\<lparr>se_leaf_id := parent_id e, se_is_linear := False\<rparr>"
  show ?case
  proof (cases "is_user_entry e")
    case True
    then show ?thesis by (subst revert_user_loop.simps) (simp add: c(1) get leaf)
  next
    case False
    have IH: "revert_user_loop (parent_id e) True t =
      Some (if zs = [] then (True, t)
          else (True, t\<lparr>se_leaf_id := leaf_of (tl (dropWhile (\<lambda>e. \<not> is_user_entry e) zs)), se_is_linear := False\<rparr>))"
      using Cons.prems(1) c(4) by (intro Cons.IH) (simp_all add: t_def)
    have "revert_user_loop c r s = revert_user_loop (parent_id e) True t"
      using False by (subst revert_user_loop.simps) (simp add: c(1) get t_def)
    then show ?thesis using IH False leaf by (cases zs) (simp_all add: t_def leaf_of_def)
  qed
qed

text \<open>Moving the leaf to an entry of the current path, or above it, keeps the invariant.\<close>

lemma leaf_of_ok: "up_path es c zs \<Longrightarrow> leaf_ok es (leaf_of zs)"
  by (cases c; cases zs) (force simp: leaf_of_def leaf_ok_def)+

lemma move_leaf_ok: "session_ok s \<Longrightarrow> leaf_ok (se_entries s) c \<Longrightarrow> session_ok (s\<lparr>se_leaf_id := c, se_is_linear := False\<rparr>)"
  by (simp add: session_ok_def)

lemma move_leaf_path:
  assumes "session_ok s" and "up_path (se_entries s) (se_leaf_id s) (ys @ zs)"
  shows "session_ok (s\<lparr>se_leaf_id := leaf_of zs, se_is_linear := False\<rparr>)"
    and "entries_for_current_path (s\<lparr>se_leaf_id := leaf_of zs, se_is_linear := False\<rparr>) = rev zs"
proof -
  have up: "up_path (se_entries s) (leaf_of zs) zs" by (rule up_path_suffix [OF assms(2)])
  show ok: "session_ok (s\<lparr>se_leaf_id := leaf_of zs, se_is_linear := False\<rparr>)"
    by (rule move_leaf_ok [OF assms(1) leaf_of_ok [OF up]])
  show "entries_for_current_path (s\<lparr>se_leaf_id := leaf_of zs, se_is_linear := False\<rparr>) = rev zs"
    by (rule path_unique [OF ok]) (simp add: up)
qed

section \<open>Forks\<close>

lemma leaf_ok_nth: "j < length es \<Longrightarrow> base_id (es ! j) = Some l \<Longrightarrow> leaf_ok es (Some l)"
  unfolding leaf_ok_def by (metis imageI nth_mem)

lemma entries_ok_id:
  assumes "entries_ok es" and "n < length es"
  obtains i where "base_id (es ! n) = Some i"
  using assms unfolding entries_ok_def by (metis nth_mem not_None_eq)

lemma tip_ok: "leaf_ok es (tip_id es)"
  by (simp add: leaf_ok_def tip_id_def)

lemma id_walk_index_walk:
  assumes "entries_ok (se_entries s)" and "index_ok (se_entry_index s) (se_entries s)"
  shows "leaf_ok (se_entries s) c \<Longrightarrow>
    id_walk s c visited = map (\<lambda>k. the (base_id (se_entries s ! k))) (index_walk (se_entry_index s) (se_entries s) c visited)"
proof (induction "se_entry_index s" "se_entries s" c visited rule: index_walk.induct)
  case (1 c visited)
  show ?case
  proof (cases "\<exists>i. c = Some i \<and> i \<notin> visited")
    case False
    then show ?thesis by (cases c) (simp_all add: id_walk.simps index_walk.simps)
  next
    case True
    then obtain i where c: "c = Some i" "i \<notin> visited" by blast
    then obtain n where n: "n < length (se_entries s)" "base_id (se_entries s ! n) = Some i"
      using 1(2) by (auto simp: leaf_ok_def in_set_conv_nth)
    have get: "bt_get (se_entry_index s) i = Some n" using assms(2) n by (simp add: index_ok_def)
    have ge: "get_entry s i = Some (se_entries s ! n)" by (rule get_entry_nth [OF assms(2) n])
    have "leaf_ok (se_entries s) (parent_id (se_entries s ! n))"
    proof (cases "parent_id (se_entries s ! n)")
      case (Some p)
      then obtain j where "j < n" "base_id (se_entries s ! j) = Some p"
        using assms(1) n(1) unfolding entries_ok_def by blast
      then show ?thesis using n(1) Some leaf_ok_nth [of j "se_entries s" p] by simp
    qed (simp add: leaf_ok_def)
    from 1(1) [OF c get n(1) this]
    show ?thesis
      using get ge n c by (subst id_walk.simps, subst index_walk.simps) simp
  qed
qed

text \<open>Entries of a path lie in storage order, so their identifiers are distinct and they form a chain.\<close>

lemma up_path_positions:
  assumes "entries_ok es"
  shows "up_path es (base_id (es ! n)) zs \<Longrightarrow> n < length es \<Longrightarrow> \<forall>z \<in> set zs. \<exists>j \<le> n. z = es ! j"
proof (induction n arbitrary: zs rule: less_induct)
  case (less n)
  obtain i where i: "base_id (es ! n) = Some i" using entries_ok_id [OF assms less.prems(2)] .
  then obtain e ys where z: "zs = e # ys" "e \<in> set es" "base_id e = Some i" "up_path es (parent_id e) ys"
    using less.prems(1) by (cases zs) auto
  have e: "e = es ! n" using assms z(2,3) i less.prems(2) by (metis distinct_map entries_ok_def inj_onD nth_mem)
  show ?case
  proof (cases "parent_id e")
    case None
    then have "ys = []" using z(4) by simp
    then show ?thesis using z(1) e by auto
  next
    case (Some p)
    then obtain j where j: "j < n" "base_id (es ! j) = Some p"
      using assms less.prems(2) e unfolding entries_ok_def by blast
    have "\<forall>z \<in> set ys. \<exists>k \<le> j. z = es ! k"
      using less.IH [OF j(1)] z(4) Some j less.prems(2) by simp
    then have "\<forall>z \<in> set ys. \<exists>k \<le> n. z = es ! k" using j(1) by (metis less_imp_le order.trans)
    then show ?thesis using z(1) e by auto
  qed
qed

lemma up_path_entries_ok:
  assumes "entries_ok es"
  shows "up_path es c zs \<Longrightarrow> entries_ok (rev zs) \<and> one_chain (rev zs) \<and> c = tip_id (rev zs) \<and> set zs \<subseteq> set es"
proof (induction zs arbitrary: c)
  case Nil
  then show ?case by (cases c) (simp_all add: entries_ok_def one_chain_def)
next
  case (Cons e zs)
  obtain i where i: "c = Some i" "e \<in> set es" "base_id e = Some i" "up_path es (parent_id e) zs"
    using Cons.prems by (cases c) auto
  note IH = Cons.IH [OF i(4)]
  obtain n where n: "n < length es" "e = es ! n" using i(2) by (metis in_set_conv_nth)
  have "i \<notin> entry_id_set (rev zs)"
  proof (cases "parent_id e")
    case None
    then show ?thesis using i(4) by (simp add: entry_id_set_iff)
  next
    case (Some p)
    then obtain j where j: "j < n" "base_id (es ! j) = Some p" using assms n unfolding entries_ok_def by blast
    have pos: "\<forall>z \<in> set zs. \<exists>k \<le> j. z = es ! k" using up_path_positions [OF assms, of j zs] i(4) Some j n(1) by simp
    have "base_id (es ! k) \<noteq> Some i" if "k \<le> j" for k
    proof -
      have "map base_id es ! k \<noteq> map base_id es ! n"
        using assms that j(1) n(1) by (intro distinct_conv_nth [THEN iffD1, rule_format]) (auto simp: entries_ok_def)
      then show ?thesis using that j(1) n i(3) by simp
    qed
    then have "\<forall>z \<in> set zs. base_id z \<noteq> Some i" using pos by metis
    then show ?thesis by (force simp: entry_id_set_iff)
  qed
  moreover have "leaf_ok (rev zs) (parent_id e)" using IH tip_ok [of "rev zs"] by simp
  ultimately have "entries_ok (rev zs @ [e])" using IH i(3) by (intro entries_ok_snoc) auto
  then show ?case using IH i one_chain_snoc [of "rev zs" e] by simp
qed

lemma collect_entries_path:
  assumes "index_ok (se_entry_index s) (se_entries s)" and "set xs \<subseteq> set (se_entries s)" and "\<forall>e \<in> set xs. base_id e \<noteq> None"
  shows "collect_entries s (map (\<lambda>e. the (base_id e)) xs) = Inr xs"
  using assms(2,3)
proof (induction xs)
  case (Cons e xs)
  then show ?case using get_entry_member [OF assms(1), of e] by auto
qed simp

lemma one_chain_take: "one_chain es \<Longrightarrow> one_chain (take n es)"
  by (simp add: one_chain_def min_def)

lemma plan_fork_path:
  assumes "session_ok s" and "plan_fork_from_user_message s i = Inr plan"
  shows "up_path (se_entries s) (fp_leaf_id plan) (rev (fp_entries plan))"
proof -
  note ok = assms(1) [unfolded session_ok_def]
  define es where "es = se_entries s"
  obtain b content t where e: "get_entry s i = Some (MessageEntry b (SmUser content t))"
    using assms(2) by (auto simp: plan_fork_from_user_message_def split: option.splits session_entry.splits session_message.splits)
  have leaf: "fp_leaf_id plan = eb_parent_id b"
    using assms(2) e by (auto simp: plan_fork_from_user_message_def Let_def split: sum.splits)
  show ?thesis
  proof (cases "eb_parent_id b")
    case None
    then show ?thesis
      using assms(2) e by (auto simp: plan_fork_from_user_message_def)
  next
    case (Some l)
    have mem: "MessageEntry b (SmUser content t) \<in> set es"
      using get_entry_SomeD(1) [OF _ e] ok by (simp add: es_def)
    then obtain n where n: "n < length es" "es ! n = MessageEntry b (SmUser content t)" by (metis in_set_conv_nth)
    then have "parent_id (es ! n) = Some l" using Some by (simp add: parent_id_def)
    then obtain j where j: "j < n" "base_id (es ! j) = Some l"
      using ok n(1) unfolding entries_ok_def es_def by blast
    have jl: "j < length es" using j(1) n(1) by simp
    have get: "bt_get (se_entry_index s) l = Some j" using ok j(2) jl by (simp add: index_ok_def es_def)
    have lok: "leaf_ok es (Some l)" by (rule leaf_ok_nth [OF jl j(2)])
    show ?thesis
    proof (cases "se_is_linear s")
      case True
      then have pe: "fp_entries plan = take (Suc j) es"
        using assms(2) e Some get by (auto simp: plan_fork_from_user_message_def es_def)
      have "up_path (take (Suc j) es) (tip_id (take (Suc j) es)) (rev (take (Suc j) es))"
        using ok True by (intro up_path_chain one_chain_take) (auto simp: es_def entries_ok_def dest: in_set_takeD)
      moreover have "tip_id (take (Suc j) es) = Some l" using j(2) jl by (simp add: take_Suc_conv_app_nth)
      ultimately show ?thesis
        using pe leaf Some by (auto simp: es_def intro: up_path_mono dest: set_take_subset [THEN subsetD])
    next
      case False
      define zs where "zs = map (\<lambda>k. es ! k) (index_walk (se_entry_index s) es (Some l) {})"
      have up: "up_path es (Some l) zs" using index_walk_up [of es "se_entry_index s" "Some l"] ok lok by (simp add: zs_def es_def)
      have "id_walk s (Some l) {} = map (\<lambda>e. the (base_id e)) zs"
        using id_walk_index_walk [of s "Some l" "{}"] ok lok by (simp add: zs_def es_def)
      then have ids: "get_path_to_entry s l = map (\<lambda>e. the (base_id e)) (rev zs)"
        using False by (simp add: get_path_to_entry_def rev_map)
      have "set zs \<subseteq> set es" using up_path_entries_ok [of es "Some l" zs] up ok by (simp add: es_def)
      then have "collect_entries s (get_path_to_entry s l) = Inr (rev zs)"
        unfolding ids using ok by (intro collect_entries_path) (auto simp: es_def entries_ok_def)
      then show ?thesis
        using assms(2) e Some False leaf up by (auto simp: plan_fork_from_user_message_def es_def)
    qed
  qed
qed

section \<open>Runs\<close>

datatype session_op =
    OpMessage session_message
  | OpModelChange ustr ustr
  | OpThinking ustr
  | OpInfo "ustr option"
  | OpCustomEntry ustr "json option"
  | OpBash ustr ustr int bool bool "ustr option"
  | OpCompaction ustr ustr u64 "json option" "bool option"
  | OpBranchSummary ustr ustr "json option" "bool option"
  | OpLabel ustr "ustr option"
  | OpNavigate ustr
  | OpResetLeaf
  | OpRevertUser
  | OpRevertResponse
  | OpSetModel "ustr option" "ustr option" "ustr option"
  | OpBranchedFrom "ustr option"
  | OpEnsureIds

fun session_step :: "(session_entry \<Rightarrow> nat \<Rightarrow> ustr) \<Rightarrow> op_env \<Rightarrow> session_op \<Rightarrow> session \<Rightarrow> session option" where
  "session_step digest env (OpMessage m) s = Some (snd (append_message env m s))"
| "session_step digest env (OpModelChange p m) s = Some (snd (append_model_change env p m s))"
| "session_step digest env (OpThinking t) s = Some (snd (append_thinking_level_change env t s))"
| "session_step digest env (OpInfo n) s = Some (snd (append_session_info env n s))"
| "session_step digest env (OpCustomEntry t d) s = Some (snd (append_custom_entry env t d s))"
| "session_step digest env (OpBash c out x ca tr pth) s = Some (snd (append_bash_execution env c out x ca tr pth s))"
| "session_step digest env (OpCompaction su k t d h) s = Some (snd (append_compaction env su k t d h s))"
| "session_step digest env (OpBranchSummary f su d h) s = Some (snd (append_branch_summary env f su d h s))"
| "session_step digest env (OpLabel t l) s = Some (snd (add_label env t l s))"
| "session_step digest env (OpNavigate i) s = Some (snd (navigate_to i s))"
| "session_step digest env OpResetLeaf s = Some (reset_leaf s)"
| "session_step digest env OpRevertUser s = map_option snd (revert_last_user_message s)"
| "session_step digest env OpRevertResponse s = map_option snd (revert_incomplete_response s)"
| "session_step digest env (OpSetModel p m t) s = Some (set_model_header p m t s)"
| "session_step digest env (OpBranchedFrom pth) s = Some (set_branched_from pth s)"
| "session_step digest env OpEnsureIds s = ensure_entry_ids digest s"

text \<open>
  The sessions a process can have in hand: a new one, one that an operation was applied to, one
  that took over the entries a save returned (with those of other writers; in any order that
  has parents first), and one that was set up from a fork plan.
\<close>

inductive reachable :: "(session_entry \<Rightarrow> nat \<Rightarrow> ustr) \<Rightarrow> session \<Rightarrow> bool" for digest where
  start: "reachable digest (in_memory h setting)"
| step: "reachable digest s \<Longrightarrow> fresh_ids env s \<Longrightarrow> session_step digest env opn s = Some t \<Longrightarrow> reachable digest t"
| saved: "reachable digest s \<Longrightarrow> entries_ok es \<Longrightarrow> accept_persisted_state digest h es s = Some t \<Longrightarrow> reachable digest t"
| forked: "reachable digest s \<Longrightarrow> plan_fork_from_user_message s i = Inr plan \<Longrightarrow>
    init_from_fork_plan digest plan (in_memory h setting) = Some t \<Longrightarrow> reachable digest t"

lemma navigate_ok: "session_ok s \<Longrightarrow> session_ok (snd (navigate_to i s))"
proof -
  assume ok: "session_ok s"
  note inv = ok [unfolded session_ok_def]
  show ?thesis
  proof (cases "bt_contains (se_entry_index s) i")
    case True
    then have lok: "leaf_ok (se_entries s) (Some i)"
      using index_ok_contains [of "se_entry_index s" "se_entries s" i] inv by (simp add: leaf_ok_def)
    show ?thesis
    proof (cases "se_entries s \<noteq> [] \<and> base_id (last (se_entries s)) = Some i")
      case tip: True
      have "session_ok (s\<lparr>se_leaf_id := Some i\<rparr>)" using inv lok tip by (auto simp: session_ok_def tip_id_def)
      then show ?thesis using True tip by (simp add: navigate_to_def del: bt_contains_iff)
    next
      case False
      have "session_ok (s\<lparr>se_is_linear := False, se_leaf_id := Some i\<rparr>)" using inv lok by (simp add: session_ok_def)
      then show ?thesis using True False by (simp add: navigate_to_def del: bt_contains_iff)
    qed
  qed (simp add: navigate_to_def ok del: bt_contains_iff)
qed

lemma path_sync [simp]: "entries_for_current_path (sync_navigation_state_to_header s) = entries_for_current_path s"
  by (cases "se_leaf_id s") (simp_all add: entries_for_current_path_def)

lemma revert_response_ok:
  assumes "session_ok s"
  obtains r t where "revert_incomplete_response s = Some (r, t)" and "session_ok t" and "se_entries t = se_entries s"
    and "entries_for_current_path t = rev (dropWhile is_incomplete_assistant (rev (entries_for_current_path s)))"
    and "r \<longleftrightarrow> entries_for_current_path t \<noteq> entries_for_current_path s"
proof -
  define zs where "zs = rev (entries_for_current_path s)"
  define ws where "ws = dropWhile is_incomplete_assistant zs"
  have up: "up_path (se_entries s) (se_leaf_id s) zs" using path_is_up_path [OF assms] by (simp add: zs_def)
  have idx: "index_ok (se_entry_index s) (se_entries s)" using assms by (simp add: session_ok_def)
  note run = revert_response_run [OF idx up, of False]
  have path: "entries_for_current_path s = rev zs" by (simp add: zs_def)
  have split: "up_path (se_entries s) (se_leaf_id s) (takeWhile is_incomplete_assistant zs @ ws)"
    using up by (simp add: ws_def)
  show ?thesis
  proof (cases "zs \<noteq> [] \<and> is_incomplete_assistant (hd zs)")
    case True
    note mv = move_leaf_path [OF assms split]
    have "ws \<noteq> zs" using True by (auto simp: ws_def dropWhile_eq_self_iff)
    then show ?thesis
      using that [of True "sync_navigation_state_to_header (s\<lparr>se_leaf_id := leaf_of ws, se_is_linear := False\<rparr>)"]
        True run mv path
      by (simp add: revert_incomplete_response_def after_revert_def ws_def [symmetric] zs_def [symmetric])
  next
    case False
    then have "ws = zs" by (cases zs) (simp_all add: ws_def)
    then show ?thesis
      using that [of False s] False run path assms
      by (simp add: revert_incomplete_response_def after_revert_def ws_def [symmetric] zs_def [symmetric])
  qed
qed

lemma revert_user_ok:
  assumes "session_ok s"
  obtains r t where "revert_last_user_message s = Some (r, t)" and "session_ok t" and "se_entries t = se_entries s"
    and "entries_for_current_path t = rev (tl (dropWhile (\<lambda>e. \<not> is_user_entry e) (rev (entries_for_current_path s))))"
    and "r \<longleftrightarrow> entries_for_current_path s \<noteq> []"
proof -
  define zs where "zs = rev (entries_for_current_path s)"
  define ws where "ws = tl (dropWhile (\<lambda>e. \<not> is_user_entry e) zs)"
  have up: "up_path (se_entries s) (se_leaf_id s) zs" using path_is_up_path [OF assms] by (simp add: zs_def)
  have idx: "index_ok (se_entry_index s) (se_entries s)" using assms by (simp add: session_ok_def)
  note run = revert_user_run [OF idx up, of False]
  have path: "entries_for_current_path s = rev zs" by (simp add: zs_def)
  obtain ys where split: "zs = ys @ ws"
    using takeWhile_dropWhile_id [of "\<lambda>e. \<not> is_user_entry e" zs] unfolding ws_def
    by (metis append.assoc append_Cons append_Nil list.collapse list.sel(2) self_append_conv)
  show ?thesis
  proof (cases "zs = []")
    case True
    then have "ws = []" by (simp add: ws_def)
    then show ?thesis
      using that [of False s] True run path assms
      by (simp add: revert_last_user_message_def after_revert_def)
  next
    case False
    note mv = move_leaf_path [OF assms up [unfolded split]]
    show ?thesis
      using that [of True "sync_navigation_state_to_header (s\<lparr>se_leaf_id := leaf_of ws, se_is_linear := False\<rparr>)"]
        False run mv path
      by (simp add: revert_last_user_message_def after_revert_def ws_def [symmetric] zs_def [symmetric])
  qed
qed

lemma step_ok:
  assumes "session_ok s" and "fresh_ids env s"
  obtains t where "session_step digest env opn s = Some t" and "session_ok t"
proof (cases opn)
  case (OpMessage m)
  then show ?thesis using that append_message_ok [OF assms] by simp
next
  case (OpModelChange p m)
  have "session_ok (snd (append_model_change env p m s))"
    unfolding append_model_change_def using assms by (intro append_other_ok) (simp_all add: is_message_entry_def session_name_def)
  then show ?thesis using that OpModelChange by simp
next
  case (OpThinking t)
  have "session_ok (snd (append_thinking_level_change env t s))"
    unfolding append_thinking_level_change_def using assms by (intro append_other_ok) (simp_all add: is_message_entry_def session_name_def)
  then show ?thesis using that OpThinking by simp
next
  case (OpInfo n)
  have "session_ok (snd (append_metadata env (\<lambda>b. SessionInfoEntry b n)
      (s\<lparr>se_cached_name := (case n of Some x \<Rightarrow> Some x | None \<Rightarrow> se_cached_name s)\<rparr>)))"
    by (rule append_metadata_ok [OF assms, where n = n]) (simp_all add: is_message_entry_def session_name_def)
  then show ?thesis using that OpInfo by (cases n) (simp_all add: append_session_info_def)
next
  case (OpCustomEntry t d)
  have "session_ok (snd (append_custom_entry env t d s))"
    unfolding append_custom_entry_def using assms by (intro append_other_ok) (simp_all add: is_message_entry_def session_name_def)
  then show ?thesis using that OpCustomEntry by simp
next
  case (OpBash c out x ca tr pth)
  have "append_bash_execution env c out x ca tr pth s =
      append_message env (SmBashExecution c out x (Some ca) (Some tr) pth (Some (oe_now_ms env)) []) s"
    by (simp add: append_bash_execution_def append_message_def)
  then show ?thesis using that append_message_ok [OF assms] OpBash by simp
next
  case (OpCompaction su k t d h)
  have "session_ok (snd (append_compaction env su k t d h s))"
    unfolding append_compaction_def using assms by (intro append_other_ok) (simp_all add: is_message_entry_def session_name_def)
  then show ?thesis using that OpCompaction by simp
next
  case (OpBranchSummary f su d h)
  have "session_ok (snd (append_branch_summary env f su d h s))"
    unfolding append_branch_summary_def using assms by (intro append_other_ok) (simp_all add: is_message_entry_def session_name_def)
  then show ?thesis using that OpBranchSummary by simp
next
  case (OpLabel t l)
  then show ?thesis using that add_label_ok [OF assms] by simp
next
  case (OpNavigate i)
  then show ?thesis using that navigate_ok [OF assms(1)] by simp
next
  case OpResetLeaf
  then show ?thesis using that move_leaf_ok [OF assms(1), of None] by (simp add: reset_leaf_def leaf_ok_def)
next
  case OpRevertUser
  obtain r t where "revert_last_user_message s = Some (r, t)" "session_ok t" using revert_user_ok [OF assms(1)] .
  then show ?thesis using that OpRevertUser by simp
next
  case OpRevertResponse
  obtain r t where "revert_incomplete_response s = Some (r, t)" "session_ok t" using revert_response_ok [OF assms(1)] .
  then show ?thesis using that OpRevertResponse by simp
next
  case (OpSetModel p m t)
  then show ?thesis using that assms(1) by (simp add: set_model_header_def Let_def)
next
  case (OpBranchedFrom pth)
  then show ?thesis using that assms(1) by (simp add: set_branched_from_def)
next
  case OpEnsureIds
  have "entries_ok (se_entries s)" "leaf_ok (se_entries s) (se_leaf_id s)" using assms(1) by (simp_all add: session_ok_def)
  then obtain t where "rebuild_all_caches digest s = Some t" "session_ok t" by (rule rebuild_ok)
  then show ?thesis using that OpEnsureIds by (simp add: ensure_entry_ids_def)
qed

lemma in_memory_ok: "session_ok (in_memory h setting)"
  by (simp add: session_ok_def in_memory_def entries_ok_def index_ok_def entry_id_set_def leaf_ok_def one_chain_def
      find_last_def map_filter_simps)

lemma fork_ok:
  assumes "session_ok s" and "plan_fork_from_user_message s i = Inr plan"
  obtains t where "init_from_fork_plan digest plan (in_memory h setting) = Some t" and "session_ok t"
    and "entries_for_current_path t = fp_entries plan" and "se_entries t = fp_entries plan"
proof -
  have ok: "entries_ok (se_entries s)" using assms(1) by (simp add: session_ok_def)
  have pe: "entries_ok (fp_entries plan)" "one_chain (fp_entries plan)" "fp_leaf_id plan = tip_id (fp_entries plan)"
    using up_path_entries_ok [OF ok plan_fork_path [OF assms]] by simp_all
  have "leaf_ok (fp_entries plan) (fp_leaf_id plan)" using pe(3) tip_ok by simp
  then obtain t where t: "rebuild_all_caches digest ((in_memory h setting)\<lparr>se_entries := fp_entries plan, se_leaf_id := fp_leaf_id plan\<rparr>) = Some t"
    "session_ok t" "se_entries t = fp_entries plan" "se_leaf_id t = fp_leaf_id plan"
    using rebuild_ok [of "(in_memory h setting)\<lparr>se_entries := fp_entries plan, se_leaf_id := fp_leaf_id plan\<rparr>" digest] pe(1)
    by auto
  have "up_path (se_entries t) (se_leaf_id t) (rev (fp_entries plan))"
    using up_path_chain [OF pe(2)] pe(1,3) t(3,4) by (simp add: entries_ok_def)
  then have "entries_for_current_path t = fp_entries plan" using path_unique [OF t(2)] by simp
  then show ?thesis using that t by (simp add: init_from_fork_plan_def)
qed

lemma reachable_ok: "reachable digest s \<Longrightarrow> session_ok s"
proof (induction rule: reachable.induct)
  case (start h setting)
  show ?case by (rule in_memory_ok)
next
  case (step s env opn t)
  then show ?case using step_ok [of s env digest opn] by (metis option.inject)
next
  case (saved s es h t)
  then show ?case using accept_ok [of es digest h s] by (metis option.inject)
next
  case (forked s i plan h setting t)
  then show ?case using fork_ok [of s i plan digest h setting] by (metis option.inject)
qed

lemma append_path:
  assumes "session_ok s" and "fresh_ids env s" and "\<And>b. base_of (mk b) = b"
    and "push_entry env mk s = (i, s1)" and "session_ok t"
    and "se_entries t = se_entries s1" and "se_leaf_id t = se_leaf_id s1"
  shows "entries_for_current_path t =
    entries_for_current_path s @ [mk (entry_base_new (oe_now env) (se_leaf_id s) i)]"
proof -
  define e where "e = mk (entry_base_new (oe_now env) (se_leaf_id s) i)"
  note p = push_entry_ok [OF assms(1-4), folded e_def]
  have "up_path (se_entries s @ [e]) (se_leaf_id s) (rev (entries_for_current_path s))"
    by (rule up_path_mono [OF path_is_up_path [OF assms(1)]]) auto
  then have "up_path (se_entries t) (se_leaf_id t) (e # rev (entries_for_current_path s))"
    using assms(6,7) p(2-5) by simp
  from path_unique [OF assms(5) this] show ?thesis by (simp add: e_def)
qed

section \<open>Properties\<close>

text \<open>
  C5: The session's caches are never wrong and its tree never breaks. In every session that can
  be reached from a new one by the operations, by taking over what a save returned, and by
  forking: identifiers are present and distinct, every parent is an earlier entry (so there is
  no cycle), the index, the identifier set, the message count and the name agree with the entries,
  the leaf exists, and the flag for a session without branches is only set when the entries are
  one chain ending at the leaf. From every such session every operation returns; the two
  reverts, whose loops have no guard against cycles, included.
\<close>

theorem session_invariant:
  assumes "reachable digest s"
  shows "session_ok s \<and> (\<forall>env opn. fresh_ids env s \<longrightarrow> session_step digest env opn s \<noteq> None)"
proof -
  have "session_ok s" by (rule reachable_ok [OF assms])
  then show ?thesis using step_ok [of s _ digest] by (metis option.distinct(1))
qed

text \<open>
  C6: The current path is the conversation: in every reachable session, whether the fast path
  for a session without branches or the walk over the index is taken, the entries for the
  current path are the one list that ends at the leaf, in which each entry is followed by a
  child of it, and that begins at a root.
\<close>

theorem current_path_exact:
  assumes "reachable digest s"
  shows "up_path (se_entries s) (se_leaf_id s) zs \<longleftrightarrow> entries_for_current_path s = rev zs"
proof -
  have ok: "session_ok s" by (rule reachable_ok [OF assms])
  show ?thesis
    using path_unique [OF ok] path_is_up_path [OF ok] by (metis rev_rev_ident)
qed

text \<open>
  C26: What the operations do to the conversation. Appending a message extends the current path
  by exactly that message and stores it below the old leaf; undoing an incomplete response
  removes from the end of the path exactly the assistant messages that ended in an error or an
  abort, and nothing else; undoing the last user message cuts the path just before that message;
  neither undo deletes an entry from the session.
\<close>

theorem conversation_operations:
  assumes "reachable digest s" and "fresh_ids env s"
  shows "(case append_message env m s of (i, t) \<Rightarrow>
       entries_for_current_path t =
         entries_for_current_path s @ [MessageEntry (entry_base_new (oe_now env) (se_leaf_id s) i) m]) \<and>
     (\<exists>r t. revert_incomplete_response s = Some (r, t) \<and> se_entries t = se_entries s \<and>
       entries_for_current_path t = rev (dropWhile is_incomplete_assistant (rev (entries_for_current_path s))) \<and>
       (r \<longleftrightarrow> entries_for_current_path t \<noteq> entries_for_current_path s)) \<and>
     (\<exists>r t. revert_last_user_message s = Some (r, t) \<and> se_entries t = se_entries s \<and>
       entries_for_current_path t =
         rev (tl (dropWhile (\<lambda>e. \<not> is_user_entry e) (rev (entries_for_current_path s)))))"
proof -
  have ok: "session_ok s" by (rule reachable_ok [OF assms(1)])
  obtain i s1 where p: "push_entry env (\<lambda>b. MessageEntry b m) s = (i, s1)" by force
  obtain t where t: "append_message env m s = (i, t)" using p by (auto simp: append_message_def)
  have tok: "session_ok t" using append_message_ok [OF ok assms(2), of m] t by simp
  have same: "se_entries t = se_entries s1" "se_leaf_id t = se_leaf_id s1"
    using t p by (auto simp: append_message_def clear_persisted_leaf_override_after_append_def
        enqueue_autosave_mutation_def Let_def split: if_splits)
  have "entries_for_current_path t =
      entries_for_current_path s @ [MessageEntry (entry_base_new (oe_now env) (se_leaf_id s) i) m]"
    using append_path [OF ok assms(2) _ p tok same] by simp
  moreover have "\<exists>r t. revert_incomplete_response s = Some (r, t) \<and> se_entries t = se_entries s \<and>
       entries_for_current_path t = rev (dropWhile is_incomplete_assistant (rev (entries_for_current_path s))) \<and>
       (r \<longleftrightarrow> entries_for_current_path t \<noteq> entries_for_current_path s)"
    by (rule revert_response_ok [OF ok]) blast
  moreover have "\<exists>r t. revert_last_user_message s = Some (r, t) \<and> se_entries t = se_entries s \<and>
       entries_for_current_path t = rev (tl (dropWhile (\<lambda>e. \<not> is_user_entry e) (rev (entries_for_current_path s))))"
    by (rule revert_user_ok [OF ok]) blast
  ultimately show ?thesis using t by simp
qed

text \<open>
  A save moves a leaf that was reset to the root: what \<open>reset_leaf\<close> promises, that the next entry
  becomes a new root, does not survive a save, which takes over the entries on disk and, finding
  no leaf, selects the last entry.
\<close>

theorem save_undoes_reset_leaf:
  assumes "session_ok s" and "se_entries s \<noteq> []"
    and "accept_persisted_state digest h (se_entries s) (reset_leaf s) = Some t"
  shows "entries_for_current_path (reset_leaf s) = [] \<and> se_leaf_id t = base_id (last (se_entries s)) \<and>
    entries_for_current_path t \<noteq> []"
proof -
  have eo: "entries_ok (se_entries s)" using assms(1) by (simp add: session_ok_def)
  obtain t' where t': "accept_persisted_state digest h (se_entries s) (reset_leaf s) = Some t'" "session_ok t'"
    "se_leaf_id t' = (if se_leaf_id (reset_leaf s) \<noteq> None \<and> leaf_ok (se_entries s) (se_leaf_id (reset_leaf s))
        then se_leaf_id (reset_leaf s) else tip_id (se_entries s))"
    using accept_ok [OF eo, of digest h "reset_leaf s"] by metis
  have t: "session_ok t" "se_leaf_id t = tip_id (se_entries s)" using t' assms(3) by (simp_all add: reset_leaf_def)
  obtain i where i: "base_id (last (se_entries s)) = Some i"
    using eo assms(2) unfolding entries_ok_def by (metis last_in_set not_None_eq)
  have "entries_for_current_path t \<noteq> []"
    using path_is_up_path [OF t(1)] t(2) i assms(2) by (auto simp: tip_id_def)
  moreover have "entries_for_current_path (reset_leaf s) = []"
    by (simp add: reset_leaf_def entries_for_current_path_def)
  ultimately show ?thesis using t(2) assms(2) by (simp add: tip_id_def)
qed

section \<open>Witnesses\<close>

definition demo_env :: "ustr \<Rightarrow> op_env" where
  "demo_env i = \<lparr>oe_draws = (\<lambda>n. (i, i @ lit ''-full'')), oe_now = lit ''now'', oe_now_ms = 0, oe_id_cache = True\<rparr>"

definition demo_message :: session_message where
  "demo_message = SmUser (TextContent (lit ''hello'')) None"

definition demo_session :: session where
  "demo_session = snd (append_message (demo_env (lit ''a'')) demo_message
     (in_memory (session_header_new (lit ''s'') (lit ''now'') (lit ''/'')) None))"

lemma demo_reachable: "reachable digest demo_session"
proof -
  let ?s = "in_memory (session_header_new (lit ''s'') (lit ''now'') (lit ''/'')) None"
  have "fresh_ids (demo_env (lit ''a'')) ?s" by (simp add: fresh_ids_def in_memory_def entry_id_set_def map_filter_simps)
  then show ?thesis
    by (rule reachable.step [OF reachable.start, where opn = "OpMessage demo_message"]) (simp add: demo_session_def)
qed

lemma demo_entries:
  "se_entries demo_session = [MessageEntry (entry_base_new (lit ''now'') None (lit ''a'')) demo_message]"
  "se_leaf_id demo_session = Some (lit ''a'')" "se_is_linear demo_session"
  by (simp_all add: demo_session_def append_message_def push_entry_def next_entry_id_def generate_entry_id_def
      demo_env_def in_memory_def clear_persisted_leaf_override_after_append_def enqueue_autosave_mutation_def
      entry_base_new_def lit_def Let_def upt_rec)

theorem session_invariant_witness:
  "session_ok demo_session \<and> session_step (\<lambda>e n. []) (demo_env (lit ''b'')) OpRevertUser demo_session \<noteq> None"
proof -
  have "fresh_ids (demo_env (lit ''b'')) demo_session"
    by (simp add: fresh_ids_def demo_entries demo_env_def entry_id_set_def map_filter_simps base_id_def entry_base_new_def lit_def)
  then show ?thesis using session_invariant [OF demo_reachable [of "\<lambda>e n. []"]] by blast
qed

theorem current_path_exact_witness:
  "entries_for_current_path demo_session = [MessageEntry (entry_base_new (lit ''now'') None (lit ''a'')) demo_message]"
proof -
  have "up_path (se_entries demo_session) (se_leaf_id demo_session)
      [MessageEntry (entry_base_new (lit ''now'') None (lit ''a'')) demo_message]"
    by (simp add: demo_entries base_id_def parent_id_def entry_base_new_def)
  with current_path_exact [OF demo_reachable [of "\<lambda>e n. []"]] show ?thesis by simp
qed

theorem conversation_operations_witness:
  "\<exists>r t. revert_last_user_message demo_session = Some (r, t) \<and> entries_for_current_path t = []"
proof -
  have "fresh_ids (demo_env (lit ''b'')) demo_session"
    by (simp add: fresh_ids_def demo_entries demo_env_def entry_id_set_def map_filter_simps base_id_def entry_base_new_def lit_def)
  from conversation_operations [OF demo_reachable [of "\<lambda>e n. []"] this, of demo_message]
  obtain r t where "revert_last_user_message demo_session = Some (r, t)"
    "entries_for_current_path t =
       rev (tl (dropWhile (\<lambda>e. \<not> is_user_entry e) (rev (entries_for_current_path demo_session))))" by blast
  moreover have "entries_for_current_path demo_session = se_entries demo_session"
    by (simp add: entries_for_current_path_def demo_entries)
  ultimately show ?thesis by (simp add: demo_entries is_user_entry_def demo_message_def)
qed

end
