(* ===== verification/Session_Save.thy ===== *)
theory Session_Save
  imports Session_Path "HOL-Library.Multiset"
begin

text \<open>
  What a save does to the entries (\<open>src/src/session.rs\<close>): the entries on disk and those in memory
  are merged by identifier under the file lock, entries with one identifier and different
  contents are refused, and the result is put into an order in which parents come first. The
  serialisation of an entry is the argument \<open>encode\<close>, which may fail; reading and writing the
  file is not modelled.
\<close>

section \<open>Errors\<close>

datatype save_error =
    EntryMissingId
  | DuplicateId ustr
  | MissingParent "ustr option" ustr
  | ParentCycle
  | RowTakenTwice
  | PersistedMissingId
  | PersistedDuplicateId ustr
  | LocalMissingId
  | LocalDuplicateId ustr
  | ConflictingPayload ustr
  | EncodeFailed
  | LineTooLong
  | HeaderIdMismatch
  | OpenFailed

section \<open>Parent links\<close>

definition ensure_session_parent_links_closed :: "session_entry list \<Rightarrow> save_error option" where
  "ensure_session_parent_links_closed es =
     (let ids = entry_id_set es in
      case find (\<lambda>e. case parent_id e of Some p \<Rightarrow> p \<notin> ids | None \<Rightarrow> False) es of
        Some e \<Rightarrow> Some (MissingParent (base_id e) (the (parent_id e)))
      | None \<Rightarrow> None)"

text \<open>
  The positions of the identifiers; an entry without one or a repeated one is an error, which
  the callers word differently.
\<close>

fun positions_from :: "save_error \<Rightarrow> (ustr \<Rightarrow> save_error) \<Rightarrow> nat \<Rightarrow> session_entry list \<Rightarrow> (ustr, usize) btree \<Rightarrow>
  save_error + (ustr, usize) btree" where
  "positions_from missing duplicate k [] m = Inr m"
| "positions_from missing duplicate k (e # es) m =
     (case base_id e of
        None \<Rightarrow> Inl missing
      | Some i \<Rightarrow>
          if bt_contains m i then Inl (duplicate i)
          else positions_from missing duplicate (Suc k) es (bt_insert i k m))"

definition parent_index :: "(ustr, usize) btree \<Rightarrow> session_entry \<Rightarrow> usize option" where
  "parent_index positions e = Option.bind (parent_id e) (bt_get positions)"

text \<open>The tables of the ordering: how many parents an entry waits for, and its children.\<close>

definition indegree_table :: "usize option list \<Rightarrow> nat list" where
  "indegree_table pars = map (\<lambda>p. if p = None then 0 else 1) pars"

definition children_table :: "usize option list \<Rightarrow> usize list list" where
  "children_table pars = map (\<lambda>q. filter (\<lambda>c. pars ! c = Some q) [0..<length pars]) [0..<length pars]"

definition ready_start :: "nat list \<Rightarrow> usize list" where
  "ready_start indegree = filter (\<lambda>i. indegree ! i = 0) [0..<length indegree]"

text \<open>
  Taking an entry releases its children. The heap of the entries that are ready is the sorted
  list of their positions; the smallest is taken first.
\<close>

fun release :: "usize list \<Rightarrow> nat list \<times> usize list \<Rightarrow> nat list \<times> usize list" where
  "release [] st = st"
| "release (c # cs) (indegree, ready) =
     (let d = indegree ! c - 1
      in release cs (indegree[c := d], if d = 0 then insort c ready else ready))"

function topo_loop :: "usize list list \<Rightarrow> session_entry option list \<Rightarrow> nat list \<Rightarrow> usize list \<Rightarrow> session_entry list \<Rightarrow>
  save_error + session_entry list" where
  "topo_loop children slots indegree [] ordered = Inr ordered"
| "topo_loop children slots indegree (i # ready) ordered =
     (if i < length slots then
        (case slots ! i of
           None \<Rightarrow> Inl RowTakenTwice
         | Some e \<Rightarrow>
             (case release (children ! i) (indegree, ready) of
                (indegree1, ready1) \<Rightarrow> topo_loop children (slots[i := None]) indegree1 ready1 (ordered @ [e])))
      else Inl RowTakenTwice)"
  by pat_completeness auto

lemma free_slots_shrink:
  "i < length slots \<Longrightarrow> slots ! i = Some e \<Longrightarrow>
   length (filter (\<lambda>x. x \<noteq> None) (slots[i := None])) < length (filter (\<lambda>x. x \<noteq> None) slots)"
  by (induction slots arbitrary: i) (auto split: nat.splits)

termination topo_loop
  by (relation "measure (\<lambda>(children, slots, indegree, ready, ordered). length (filter (\<lambda>x. x \<noteq> None) slots))")
    (auto intro: free_slots_shrink simp del: not_None_eq)

declare topo_loop.simps [simp del]

definition stable_parent_topological_order :: "session_entry list \<Rightarrow> save_error + session_entry list" where
  "stable_parent_topological_order es =
     (if length es < 2 then Inr es
      else
        (case positions_from EntryMissingId DuplicateId 0 es bt_empty of
           Inl err \<Rightarrow> Inl err
         | Inr positions \<Rightarrow>
             let pars = map (parent_index positions) es;
                 indegree = indegree_table pars
             in case topo_loop (children_table pars) (map Some es) indegree (ready_start indegree) [] of
                  Inl err \<Rightarrow> Inl err
                | Inr ordered \<Rightarrow> if length ordered \<noteq> length es then Inl ParentCycle else Inr ordered))"

text \<open>
  The check of the backends that keep the order of the rows. It visits the entries from a stack
  and only counts them; its loop is a partial function, and that it ends is proved below.
\<close>

fun release_stack :: "usize list \<Rightarrow> nat list \<times> usize list \<Rightarrow> nat list \<times> usize list" where
  "release_stack [] st = st"
| "release_stack (c # cs) (indegree, stack) =
     (let d = indegree ! c - 1
      in release_stack cs (indegree[c := d], if d = 0 then c # stack else stack))"

partial_function (option) visit_loop :: "usize list list \<Rightarrow> nat list \<Rightarrow> usize list \<Rightarrow> u64 \<Rightarrow> u64 option" where
  "visit_loop children indegree stack visited =
     (case stack of
        [] \<Rightarrow> Some visited
      | i # rest \<Rightarrow>
          (case release_stack (children ! i) (indegree, rest) of
             (indegree1, stack1) \<Rightarrow> visit_loop children indegree1 stack1 (sat_add64 visited 1)))"

definition validate_session_entry_graph :: "session_entry list \<Rightarrow> save_error option option" where
  "validate_session_entry_graph es =
     (case positions_from EntryMissingId DuplicateId 0 es bt_empty of
        Inl err \<Rightarrow> Some (Some err)
      | Inr positions \<Rightarrow>
          (case find (\<lambda>e. parent_id e \<noteq> None \<and> parent_index positions e = None) es of
             Some e \<Rightarrow> Some (Some (MissingParent (base_id e) (the (parent_id e))))
           | None \<Rightarrow>
               let pars = map (parent_index positions) es;
                   indegree = indegree_table pars
               in map_option (\<lambda>visited. if visited \<noteq> length es then Some ParentCycle else None)
                    (visit_loop (children_table pars) indegree (rev (ready_start indegree)) 0)))"

section \<open>Merging\<close>

type_synonym encoder = "session_entry \<Rightarrow> nat list option"

definition MAX_JSONL_LINE_BYTES :: nat where
  "MAX_JSONL_LINE_BYTES = 100 * 1024 * 1024"

text \<open>
  The full rewrite. What is on disk is the argument \<open>disk\<close>: nothing, or the header and the entries of the
  file as it was read under the lock.
\<close>

fun merge_local :: "encoder \<Rightarrow> session_entry list \<Rightarrow> ustr set \<Rightarrow> (ustr, usize) btree \<Rightarrow> session_entry list \<Rightarrow>
  save_error + session_entry list" where
  "merge_local encode [] seen positions merged = Inr merged"
| "merge_local encode (e # es) seen positions merged =
     (case base_id e of
        None \<Rightarrow> Inl LocalMissingId
      | Some i \<Rightarrow>
          if i \<in> seen then Inl (LocalDuplicateId i)
          else (case bt_get positions i of
                  Some idx \<Rightarrow>
                    (case encode (merged ! idx) of
                       None \<Rightarrow> Inl EncodeFailed
                     | Some persisted \<Rightarrow>
                         (case encode e of
                            None \<Rightarrow> Inl EncodeFailed
                          | Some here \<Rightarrow>
                              if persisted \<noteq> here then Inl (ConflictingPayload i)
                              else merge_local encode es (insert i seen) positions merged))
                | None \<Rightarrow>
                    merge_local encode es (insert i seen) (bt_insert i (length merged) positions) (merged @ [e])))"

definition merge_and_order :: "encoder \<Rightarrow> session_entry list \<Rightarrow> session_entry list \<Rightarrow> save_error + session_entry list" where
  "merge_and_order encode disk_entries es =
     (case positions_from PersistedMissingId PersistedDuplicateId 0 disk_entries bt_empty of
        Inl err \<Rightarrow> Inl err
      | Inr positions \<Rightarrow>
          (case merge_local encode es {} positions disk_entries of
             Inl err \<Rightarrow> Inl err
           | Inr merged \<Rightarrow>
               (case ensure_session_parent_links_closed merged of
                  Some err \<Rightarrow> Inl err
                | None \<Rightarrow> stable_parent_topological_order merged)))"

definition prepare_jsonl_full_rewrite :: "encoder \<Rightarrow> save_error + (session_header \<times> session_entry list) option \<Rightarrow>
  session_header \<Rightarrow> session_entry list \<Rightarrow> bool \<Rightarrow> save_error + (session_header \<times> session_entry list)" where
  "prepare_jsonl_full_rewrite encode disk h es header_dirty =
     (case disk of
        Inl err \<Rightarrow> Inl err
      | Inr None \<Rightarrow> map_sum id (Pair h) (merge_and_order encode [] es)
      | Inr (Some (dh, des)) \<Rightarrow>
          if hd_id dh \<noteq> hd_id h then Inl HeaderIdMismatch
          else map_sum id (Pair (if header_dirty then h else dh)) (merge_and_order encode des es))"

text \<open>The append of new rows to the file.\<close>

fun persisted_rows :: "encoder \<Rightarrow> session_entry list \<Rightarrow> (ustr, nat list) btree \<Rightarrow> save_error + (ustr, nat list) btree" where
  "persisted_rows encode [] m = Inr m"
| "persisted_rows encode (e # es) m =
     (case base_id e of
        None \<Rightarrow> Inl PersistedMissingId
      | Some i \<Rightarrow>
          (case encode e of
             None \<Rightarrow> Inl EncodeFailed
           | Some row \<Rightarrow>
               if bt_contains m i then Inl (PersistedDuplicateId i)
               else persisted_rows encode es (bt_insert i row m)))"

fun pending_rows :: "encoder \<Rightarrow> session_entry list \<Rightarrow> ustr set \<Rightarrow> (ustr, nat list) btree \<Rightarrow> save_error + session_entry list" where
  "pending_rows encode [] seen m = Inr []"
| "pending_rows encode (e # es) seen m =
     (case base_id e of
        None \<Rightarrow> Inl LocalMissingId
      | Some i \<Rightarrow>
          if i \<in> seen then Inl (LocalDuplicateId i)
          else (case encode e of
                  None \<Rightarrow> Inl EncodeFailed
                | Some row \<Rightarrow>
                    if length row > MAX_JSONL_LINE_BYTES then Inl LineTooLong
                    else (case bt_get m i of
                            Some persisted \<Rightarrow>
                              if persisted \<noteq> row then Inl (ConflictingPayload i)
                              else pending_rows encode es (insert i seen) m
                          | None \<Rightarrow>
                              map_sum id ((#) e) (pending_rows encode es (insert i seen) (bt_insert i row m)))))"

record append_plan =
  ap_ordered_entries :: "session_entry list"
  ap_serialized_entries :: "nat list"
  ap_entries_appended :: "session_entry list"
  ap_message_count :: u64
  ap_session_name :: "ustr option"

definition append_plan_step :: "encoder \<Rightarrow> session_entry \<Rightarrow> save_error + append_plan \<Rightarrow> save_error + append_plan" where
  "append_plan_step encode e r =
     (case r of
        Inl err \<Rightarrow> Inl err
      | Inr p \<Rightarrow>
          (case encode e of
             None \<Rightarrow> Inl EncodeFailed
           | Some row \<Rightarrow>
               let p1 = p\<lparr>ap_serialized_entries := ap_serialized_entries p @ row @ [10],
                          ap_entries_appended := ap_entries_appended p @ [e]\<rparr>
               in Inr (case e of
                         MessageEntry b m \<Rightarrow> p1\<lparr>ap_message_count := sat_add64 (ap_message_count p1) 1\<rparr>
                       | SessionInfoEntry b (Some n) \<Rightarrow> p1\<lparr>ap_session_name := Some n\<rparr>
                       | _ \<Rightarrow> p1)))"

definition plan_jsonl_incremental_append :: "encoder \<Rightarrow> session \<Rightarrow> session_entry list \<Rightarrow> save_error + append_plan" where
  "plan_jsonl_incremental_append encode disk new_entries =
     (case persisted_rows encode (se_entries disk) bt_empty of
        Inl err \<Rightarrow> Inl err
      | Inr rows \<Rightarrow>
          (case pending_rows encode new_entries {} rows of
             Inl err \<Rightarrow> Inl err
           | Inr pending \<Rightarrow>
               let merged = se_entries disk @ pending in
               (case ensure_session_parent_links_closed merged of
                  Some err \<Rightarrow> Inl err
                | None \<Rightarrow>
                    (case stable_parent_topological_order merged of
                       Inl err \<Rightarrow> Inl err
                     | Inr ordered \<Rightarrow>
                         fold (append_plan_step encode)
                           (filter (\<lambda>e. base_id e \<in> base_id ` set pending) ordered)
                           (Inr \<lparr>ap_ordered_entries = ordered, ap_serialized_entries = [], ap_entries_appended = [],
                                 ap_message_count = se_cached_message_count disk,
                                 ap_session_name = se_cached_name disk\<rparr>)))))"

section \<open>The ordering\<close>

text \<open>
  Everything the loop keeps is determined by the list of positions taken so far: an entry waits
  until its parent is taken, the ready ones are those that wait for nothing.
\<close>

definition waiting :: "usize option list \<Rightarrow> usize list \<Rightarrow> usize \<Rightarrow> bool" where
  "waiting pars ord i \<longleftrightarrow> (case pars ! i of None \<Rightarrow> False | Some q \<Rightarrow> q \<notin> set ord)"

definition ready_set :: "usize option list \<Rightarrow> usize list \<Rightarrow> usize set" where
  "ready_set pars ord = {i. i < length pars \<and> i \<notin> set ord \<and> \<not> waiting pars ord i}"

definition parents_first :: "usize option list \<Rightarrow> usize list \<Rightarrow> bool" where
  "parents_first pars ord \<longleftrightarrow> (\<forall>k < length ord. \<not> waiting pars (take k ord) (ord ! k))"

definition degree_of :: "usize option list \<Rightarrow> usize list \<Rightarrow> nat list" where
  "degree_of pars ord = map (\<lambda>i. if waiting pars ord i then 1 else 0) [0..<length pars]"

definition slots_of :: "session_entry list \<Rightarrow> usize list \<Rightarrow> session_entry option list" where
  "slots_of es ord = map (\<lambda>i. if i \<in> set ord then None else Some (es ! i)) [0..<length es]"

definition taken_ok :: "usize option list \<Rightarrow> usize list \<Rightarrow> bool" where
  "taken_ok pars ord \<longleftrightarrow> distinct ord \<and> set ord \<subseteq> {..<length pars} \<and> parents_first pars ord"

lemma parents_first_snoc:
  "parents_first pars (ord @ [i]) \<longleftrightarrow> parents_first pars ord \<and> \<not> waiting pars ord i"
  by (auto simp: parents_first_def nth_append less_Suc_eq)

lemma child_not_taken:
  assumes "taken_ok pars ord" and "pars ! c = Some i" and "i \<notin> set ord"
  shows "c \<notin> set ord"
proof
  assume "c \<in> set ord"
  then obtain k where k: "k < length ord" "ord ! k = c" by (metis in_set_conv_nth)
  then have "\<not> waiting pars (take k ord) c" using assms(1) by (auto simp: taken_ok_def parents_first_def)
  then have "i \<in> set (take k ord)" using assms(2) by (simp add: waiting_def)
  then show False using assms(3) by (meson in_set_takeD)
qed

lemma release_spec:
  assumes "distinct cs" and "\<forall>c \<in> set cs. c < length indegree \<and> indegree ! c = 1"
  shows "release cs (indegree, ready) =
    (map (\<lambda>i. if i \<in> set cs then 0 else indegree ! i) [0..<length indegree], fold insort cs ready)"
  using assms
proof (induction cs arbitrary: indegree ready)
  case Nil
  then show ?case by (simp add: map_nth)
next
  case (Cons c cs)
  have c: "c < length indegree" "indegree ! c = 1" "c \<notin> set cs" using Cons.prems by auto
  have "release (c # cs) (indegree, ready) = release cs (indegree[c := 0], insort c ready)"
    using c by simp
  also have "\<dots> = (map (\<lambda>i. if i \<in> set cs then 0 else indegree[c := 0] ! i) [0..<length indegree], fold insort cs (insort c ready))"
  proof -
    have "\<forall>x \<in> set cs. x < length (indegree[c := 0]) \<and> indegree[c := 0] ! x = 1"
    proof
      fix x assume "x \<in> set cs"
      then show "x < length (indegree[c := 0]) \<and> indegree[c := 0] ! x = 1" using Cons.prems(2) c(3) by (auto simp: nth_list_update)
    qed
    from Cons.IH [OF _ this, of "insort c ready"] show ?thesis using Cons.prems(1) by simp
  qed
  also have "map (\<lambda>i. if i \<in> set cs then 0 else indegree[c := 0] ! i) [0..<length indegree] =
      map (\<lambda>i. if i \<in> set (c # cs) then 0 else indegree ! i) [0..<length indegree]"
    by (rule map_cong) (auto simp: nth_list_update)
  finally show ?case by simp
qed

lemma fold_insort_sorted: "sorted ready \<Longrightarrow> sorted (fold insort cs ready)"
  by (induction cs arbitrary: ready) (simp_all add: sorted_insort)

lemma fold_insort_set: "set (fold insort cs ready) = set cs \<union> set ready"
  by (induction cs arbitrary: ready) (auto simp: set_insort_key)

lemma fold_insort_distinct:
  "distinct ready \<Longrightarrow> distinct cs \<Longrightarrow> set cs \<inter> set ready = {} \<Longrightarrow> distinct (fold insort cs ready)"
  by (induction cs arbitrary: ready) (auto simp: distinct_insort set_insort_key)

text \<open>One round of the loop takes the smallest ready position.\<close>

lemma ready_set_step:
  assumes t: "taken_ok pars ord" and i: "i \<in> ready_set pars ord"
  defines "cs \<equiv> filter (\<lambda>c. pars ! c = Some i) [0..<length pars]"
  shows "taken_ok pars (ord @ [i])"
    and "ready_set pars (ord @ [i]) = set cs \<union> (ready_set pars ord - {i})"
    and "set cs \<inter> ready_set pars ord = {}"
    and "\<forall>c \<in> set cs. c < length (degree_of pars ord) \<and> degree_of pars ord ! c = 1"
    and "degree_of pars (ord @ [i]) = map (\<lambda>k. if k \<in> set cs then 0 else degree_of pars ord ! k) [0..<length pars]"
proof -
  have il: "i < length pars" "i \<notin> set ord" "\<not> waiting pars ord i" using i by (auto simp: ready_set_def)
  show "taken_ok pars (ord @ [i])"
    using t il by (auto simp: taken_ok_def parents_first_snoc)
  have wait: "waiting pars ord c" if "c \<in> set cs" for c
    using that il(2) by (simp add: cs_def waiting_def)
  have wait_iff: "waiting pars (ord @ [i]) c \<longleftrightarrow> waiting pars ord c \<and> pars ! c \<noteq> Some i" for c
    by (auto simp: waiting_def split: option.split)
  have nc: "c \<notin> set ord \<and> c \<noteq> i" if "c \<in> set cs" for c
    using child_not_taken [OF t _ il(2), of c] that wait [OF that] il(3) by (auto simp: cs_def)
  show "set cs \<inter> ready_set pars ord = {}" using wait by (auto simp: ready_set_def)
  show "ready_set pars (ord @ [i]) = set cs \<union> (ready_set pars ord - {i})"
  proof (rule set_eqI)
    fix c
    show "c \<in> ready_set pars (ord @ [i]) \<longleftrightarrow> c \<in> set cs \<union> (ready_set pars ord - {i})"
      using nc [of c] by (auto simp: ready_set_def wait_iff cs_def)
  qed
  show "\<forall>c \<in> set cs. c < length (degree_of pars ord) \<and> degree_of pars ord ! c = 1"
    using wait by (auto simp: degree_of_def cs_def)
  show "degree_of pars (ord @ [i]) = map (\<lambda>k. if k \<in> set cs then 0 else degree_of pars ord ! k) [0..<length pars]"
    by (auto simp: degree_of_def wait_iff cs_def intro!: map_cong)
qed

text \<open>The loop follows the positions: \<open>topo_order\<close> is the order it takes them in.\<close>

function topo_order :: "usize option list \<Rightarrow> usize list \<Rightarrow> usize list" where
  "topo_order pars ord =
     (if ready_set pars ord = {} then ord else topo_order pars (ord @ [Min (ready_set pars ord)]))"
  by pat_completeness auto

lemma ready_set_finite: "finite (ready_set pars ord)"
  by (rule finite_subset [of _ "{..<length pars}"]) (auto simp: ready_set_def)

termination topo_order
proof (relation "measure (\<lambda>(pars, ord). card ({..<length pars} - set ord))", goal_cases)
  case (2 pars ord)
  have "Min (ready_set pars ord) \<in> ready_set pars ord" using 2 ready_set_finite by (rule Min_in [rotated])
  then have "Min (ready_set pars ord) \<in> {..<length pars} - set ord" by (auto simp: ready_set_def)
  then have "{..<length pars} - set (ord @ [Min (ready_set pars ord)]) \<subset> {..<length pars} - set ord" by auto
  then show ?case by (simp add: psubset_card_mono del: set_append)
qed simp

declare topo_order.simps [simp del]

lemma ready_hd:
  assumes "sorted (i # ready)" and "set (i # ready) = ready_set pars ord"
  shows "Min (ready_set pars ord) = i" and "i \<in> ready_set pars ord"
proof -
  show "i \<in> ready_set pars ord" using assms(2) by auto
  show "Min (ready_set pars ord) = i"
    using assms by (intro Min_eqI) (auto simp: ready_set_finite)
qed

lemma topo_loop_order:
  assumes "length es = length pars" and "taken_ok pars ord"
    and "sorted ready" and "distinct ready" and "set ready = ready_set pars ord"
  shows "topo_loop (children_table pars) (slots_of es ord) (degree_of pars ord) ready (map (\<lambda>i. es ! i) ord) =
    Inr (map (\<lambda>i. es ! i) (topo_order pars ord))"
  using assms
proof (induction pars ord arbitrary: ready rule: topo_order.induct)
  case (1 pars ord)
  show ?case
  proof (cases ready)
    case Nil
    then have "ready_set pars ord = {}" using "1.prems"(5) by simp
    then show ?thesis using Nil by (simp add: topo_loop.simps topo_order.simps [of pars ord])
  next
    case (Cons i rs)
    note hd = ready_hd [of i rs pars ord]
    have i: "Min (ready_set pars ord) = i" "i \<in> ready_set pars ord" using hd "1.prems"(3,5) Cons by simp_all
    define cs where "cs = filter (\<lambda>c. pars ! c = Some i) [0..<length pars]"
    note rs = ready_set_step [OF "1.prems"(2) i(2), folded cs_def]
    have il: "i < length pars" "i \<notin> set ord" using i(2) by (auto simp: ready_set_def)
    have ch: "children_table pars ! i = cs" using il(1) by (simp add: children_table_def cs_def)
    have slot: "slots_of es ord ! i = Some (es ! i)" "(slots_of es ord)[i := None] = slots_of es (ord @ [i])"
      using il "1.prems"(1) by (auto simp: slots_of_def intro!: nth_equalityI simp: nth_list_update)
    have rel: "release cs (degree_of pars ord, rs) = (degree_of pars (ord @ [i]), fold insort cs rs)"
      using release_spec [OF _ rs(4), of rs] rs(5) by (simp add: cs_def degree_of_def)
    have "topo_loop (children_table pars) (slots_of es ord) (degree_of pars ord) ready (map (\<lambda>i. es ! i) ord) =
        topo_loop (children_table pars) (slots_of es (ord @ [i])) (degree_of pars (ord @ [i])) (fold insort cs rs)
          (map (\<lambda>i. es ! i) (ord @ [i]))"
      using Cons slot rel ch il(1) "1.prems"(1) by (simp add: topo_loop.simps slots_of_def)
    also have "\<dots> = Inr (map (\<lambda>i. es ! i) (topo_order pars (ord @ [i])))"
    proof -
      have "set (fold insort cs rs) = ready_set pars (ord @ [i])"
        using rs(2) "1.prems"(4,5) Cons by (auto simp: fold_insort_set)
      moreover have "sorted (fold insort cs rs)" "distinct (fold insort cs rs)"
        using "1.prems"(3,4,5) Cons rs(3) by (auto intro!: fold_insort_sorted fold_insort_distinct simp: cs_def)
      ultimately show ?thesis
        using "1.IH" [of "fold insort cs rs"] i rs(1) "1.prems"(1) by fastforce
    qed
    finally show ?thesis using i by (auto simp: topo_order.simps [of pars ord])
  qed
qed

lemma topo_order_taken: "taken_ok pars ord \<Longrightarrow> taken_ok pars (topo_order pars ord) \<and> ready_set pars (topo_order pars ord) = {}"
proof (induction pars ord rule: topo_order.induct)
  case (1 pars ord)
  show ?case
  proof (cases "ready_set pars ord = {}")
    case True
    then show ?thesis using 1 by (simp add: topo_order.simps [of pars ord])
  next
    case False
    then have "Min (ready_set pars ord) \<in> ready_set pars ord" by (simp add: ready_set_finite)
    from ready_set_step(1) [OF "1.prems" this] show ?thesis
      using "1.IH" [OF False] False by (simp add: topo_order.simps [of pars ord])
  qed
qed

text \<open>When the order stops early, the positions left are a set in which every parent is left too.\<close>

definition closed_cycle :: "usize option list \<Rightarrow> usize set \<Rightarrow> bool" where
  "closed_cycle pars S \<longleftrightarrow> S \<noteq> {} \<and> S \<subseteq> {..<length pars} \<and> (\<forall>i \<in> S. pars ! i \<in> Some ` S)"

lemma closed_cycle_never_taken:
  assumes "closed_cycle pars S" and "parents_first pars ord" and "set ord \<subseteq> {..<length pars}"
  shows "S \<inter> set ord = {}"
  using assms(2,3)
proof (induction ord rule: rev_induct)
  case (snoc i ord)
  have IH: "S \<inter> set ord = {}" using snoc by (simp add: parents_first_snoc)
  have "i \<notin> S"
  proof
    assume "i \<in> S"
    then obtain q where "q \<in> S" "pars ! i = Some q" using assms(1) by (auto simp: closed_cycle_def)
    then show False using IH snoc.prems(1) by (auto simp: parents_first_snoc waiting_def)
  qed
  then show ?case using IH by auto
qed simp

lemma complete_order_iff:
  assumes "\<forall>i < length pars. \<forall>q. pars ! i = Some q \<longrightarrow> q < length pars"
    and t: "taken_ok pars ord" "ready_set pars ord = {}"
  shows "length ord = length pars \<longleftrightarrow> (\<nexists>S. closed_cycle pars S)"
proof -
  have card: "card (set ord) = length ord" using t(1) by (simp add: taken_ok_def distinct_card)
  have sub: "set ord \<subseteq> {..<length pars}" using t(1) by (simp add: taken_ok_def)
  show ?thesis
  proof
    assume "length ord = length pars"
    then have "set ord = {..<length pars}" using card sub by (simp add: card_subset_eq)
    moreover have False if "closed_cycle pars S" and "set ord = {..<length pars}" for S
      using closed_cycle_never_taken [OF that(1), of ord] t(1) that by (auto simp: taken_ok_def closed_cycle_def)
    ultimately show "\<nexists>S. closed_cycle pars S" by blast
  next
    assume no: "\<nexists>S. closed_cycle pars S"
    have "{..<length pars} - set ord = {}"
    proof (rule ccontr)
      assume ne: "{..<length pars} - set ord \<noteq> {}"
      have "closed_cycle pars ({..<length pars} - set ord)"
        unfolding closed_cycle_def
      proof (intro conjI ballI ne Diff_subset)
        fix i assume i: "i \<in> {..<length pars} - set ord"
        then have "waiting pars ord i" using t(2) by (auto simp: ready_set_def)
        then obtain q where "pars ! i = Some q" "q \<notin> set ord" by (auto simp: waiting_def split: option.splits)
        then show "pars ! i \<in> Some ` ({..<length pars} - set ord)" using assms(1) i by auto
      qed
      then show False using no by blast
    qed
    then have "set ord = {..<length pars}" using sub by auto
    then show "length ord = length pars" using card by simp
  qed
qed

lemma taken_ok_Nil: "taken_ok pars []"
  by (simp add: taken_ok_def parents_first_def)

lemmas topo_order_final = topo_order_taken [OF taken_ok_Nil, THEN conjunct1] topo_order_taken [OF taken_ok_Nil, THEN conjunct2]

lemma topo_order_complete:
  assumes "\<forall>i < length pars. \<forall>q. pars ! i = Some q \<longrightarrow> q < length pars"
  shows "length (topo_order pars []) = length pars \<longleftrightarrow> (\<nexists>S. closed_cycle pars S)"
  by (rule complete_order_iff [OF assms topo_order_final])

text \<open>The loop over the stack takes every entry that can be taken too, in another order, and ends.\<close>

lemma release_stack_spec:
  assumes "distinct cs" and "\<forall>c \<in> set cs. c < length indegree \<and> indegree ! c = 1"
  shows "release_stack cs (indegree, stack) =
    (map (\<lambda>i. if i \<in> set cs then 0 else indegree ! i) [0..<length indegree], rev cs @ stack)"
  using assms
proof (induction cs arbitrary: indegree stack)
  case Nil
  then show ?case by (simp add: map_nth)
next
  case (Cons c cs)
  have c: "c < length indegree" "indegree ! c = 1" "c \<notin> set cs" using Cons.prems by auto
  have "\<forall>x \<in> set cs. x < length (indegree[c := 0]) \<and> indegree[c := 0] ! x = 1"
    using Cons.prems(2) c(3) by (metis length_list_update list.set_intros(2) nth_list_update_neq)
  from Cons.IH [OF _ this, of "c # stack"]
  have "release_stack cs (indegree[c := 0], c # stack) =
      (map (\<lambda>i. if i \<in> set cs then 0 else indegree[c := 0] ! i) [0..<length indegree], rev (c # cs) @ stack)"
    using Cons.prems(1) by simp
  moreover have "map (\<lambda>i. if i \<in> set cs then 0 else indegree[c := 0] ! i) [0..<length indegree] =
      map (\<lambda>i. if i \<in> set (c # cs) then 0 else indegree ! i) [0..<length indegree]"
    by (rule map_cong) (auto simp: nth_list_update)
  ultimately show ?case using c by simp
qed

lemma visit_loop_run:
  assumes "taken_ok pars ord" and "distinct stack" and "set stack = ready_set pars ord" and "length pars \<le> u64_max"
  shows "\<exists>ord'. visit_loop (children_table pars) (degree_of pars ord) stack (length ord) = Some (length ord') \<and>
    taken_ok pars ord' \<and> ready_set pars ord' = {}"
  using assms
proof (induction "card ({..<length pars} - set ord)" arbitrary: ord stack rule: less_induct)
  case less
  show ?case
  proof (cases stack)
    case Nil
    then have "visit_loop (children_table pars) (degree_of pars ord) stack (length ord) = Some (length ord)"
      by (simp add: visit_loop.simps)
    then show ?thesis using less.prems Nil by auto
  next
    case (Cons i rest)
    have i: "i \<in> ready_set pars ord" using less.prems(3) Cons by auto
    define cs where "cs = filter (\<lambda>c. pars ! c = Some i) [0..<length pars]"
    note rs = ready_set_step [OF less.prems(1) i, folded cs_def]
    have il: "i < length pars" "i \<notin> set ord" using i by (auto simp: ready_set_def)
    have ch: "children_table pars ! i = cs" using il(1) by (simp add: children_table_def cs_def)
    have rel: "release_stack cs (degree_of pars ord, rest) = (degree_of pars (ord @ [i]), rev cs @ rest)"
      using release_stack_spec [OF _ rs(4), of rest] rs(5) by (simp add: cs_def degree_of_def)
    have "length (ord @ [i]) = card (set (ord @ [i]))" using rs(1) by (simp add: taken_ok_def distinct_card del: set_append)
    also have "\<dots> \<le> card {..<length pars}" using rs(1) by (intro card_mono) (auto simp: taken_ok_def)
    finally have "sat_add64 (length ord) 1 = length (ord @ [i])" using less.prems(4) by (simp add: sat_add64_def)
    then have step: "visit_loop (children_table pars) (degree_of pars ord) stack (length ord) =
        visit_loop (children_table pars) (degree_of pars (ord @ [i])) (rev cs @ rest) (length (ord @ [i]))"
      using Cons rel ch by (simp add: visit_loop.simps [of _ "degree_of pars ord"])
    have "set (rev cs @ rest) = ready_set pars (ord @ [i])" "distinct (rev cs @ rest)"
      using rs(2,3) less.prems(2,3) Cons by (auto simp: cs_def)
    moreover have "card ({..<length pars} - set (ord @ [i])) < card ({..<length pars} - set ord)"
      using il by (intro psubset_card_mono) auto
    ultimately show ?thesis
      using less.hyps [of "ord @ [i]" "rev cs @ rest"] rs(1) less.prems(4) step by simp
  qed
qed

text \<open>Entries that already stand after their parents keep their places.\<close>

lemma topo_order_stable:
  assumes "\<forall>i < length pars. \<forall>q. pars ! i = Some q \<longrightarrow> q < i"
  shows "n \<le> length pars \<Longrightarrow> topo_order pars [0..<n] = [0..<length pars]"
proof (induction "length pars - n" arbitrary: n)
  case 0
  then have "ready_set pars [0..<n] = {}" by (auto simp: ready_set_def)
  then show ?case using 0 by (simp add: topo_order.simps)
next
  case (Suc k)
  then have n: "n < length pars" by simp
  have "\<not> waiting pars [0..<n] n" using assms n by (auto simp: waiting_def split: option.split)
  then have mem: "n \<in> ready_set pars [0..<n]" using n by (simp add: ready_set_def)
  have "Min (ready_set pars [0..<n]) = n"
    using mem by (intro Min_eqI) (auto simp: ready_set_finite ready_set_def)
  then have "topo_order pars [0..<n] = topo_order pars [0..<Suc n]"
    using mem by (auto simp: topo_order.simps [of pars "[0..<n]"])
  then show ?case using Suc.hyps(1) [of "Suc n"] Suc.hyps(2) n by simp
qed

text \<open>Entries of a prefix that stand after their parents stay in front.\<close>

lemma topo_order_prefix:
  assumes "\<forall>i < n. \<forall>q. pars ! i = Some q \<longrightarrow> q < i" and "n \<le> length pars"
  shows "k \<le> n \<Longrightarrow> topo_order pars [0..<k] = topo_order pars [0..<n]"
proof (induction "n - k" arbitrary: k)
  case (Suc d)
  then have k: "k < n" by simp
  have "\<not> waiting pars [0..<k] k" using assms(1) k by (auto simp: waiting_def split: option.split)
  then have mem: "k \<in> ready_set pars [0..<k]" using k assms(2) by (simp add: ready_set_def)
  have "Min (ready_set pars [0..<k]) = k"
    using mem by (intro Min_eqI) (auto simp: ready_set_finite ready_set_def)
  then have "topo_order pars [0..<k] = topo_order pars [0..<Suc k]"
    using mem by (auto simp: topo_order.simps [of pars "[0..<k]"])
  then show ?case using Suc.hyps(1) [of "Suc k"] Suc.hyps(2) k by simp
qed simp

lemma topo_order_extends: "\<exists>rest. topo_order pars ord = ord @ rest"
proof (induction pars ord rule: topo_order.induct)
  case (1 pars ord)
  then show ?case
    by (cases "ready_set pars ord = {}") (auto simp: topo_order.simps [of pars ord])
qed

section \<open>Positions\<close>

definition ids_ok :: "session_entry list \<Rightarrow> bool" where
  "ids_ok es \<longleftrightarrow> (\<forall>e \<in> set es. base_id e \<noteq> None) \<and> distinct (map base_id es)"

lemma ids_ok_append: "ids_ok (es @ fs) \<longleftrightarrow> ids_ok es \<and> ids_ok fs \<and> base_id ` set es \<inter> base_id ` set fs = {}"
  by (auto simp: ids_ok_def)

lemma ids_ok_nth_inj:
  "ids_ok es \<Longrightarrow> i < length es \<Longrightarrow> j < length es \<Longrightarrow> base_id (es ! i) = base_id (es ! j) \<Longrightarrow> i = j"
  by (auto simp: ids_ok_def distinct_conv_nth)

lemma positions_from_run:
  assumes "index_ok m ds" and "ids_ok ds" and "k = length ds"
  shows "ids_ok (ds @ es) \<and> (\<exists>m'. positions_from missing dup k es m = Inr m' \<and> index_ok m' (ds @ es)) \<or>
    \<not> ids_ok (ds @ es) \<and> (\<exists>err. positions_from missing dup k es m = Inl err)"
  using assms
proof (induction es arbitrary: ds m k)
  case (Cons e es)
  show ?case
  proof (cases "base_id e")
    case None
    then show ?thesis by (auto simp: ids_ok_def)
  next
    case (Some i)
    show ?thesis
    proof (cases "bt_contains m i")
      case True
      then have "Some i \<in> base_id ` set ds"
        using index_ok_contains [OF Cons.prems(1), of i] by (simp add: bt_contains_def)
      then have "\<not> ids_ok (ds @ e # es)" using Some by (force simp: ids_ok_def)
      then show ?thesis using Some True by simp
    next
      case False
      then have new: "Some i \<notin> base_id ` set ds"
        using index_ok_contains [OF Cons.prems(1), of i] by (simp add: bt_contains_def)
      then have "index_ok (bt_insert i k m) (ds @ [e])"
        using index_ok_snoc [OF Cons.prems(1) Some] Cons.prems(3) by (simp add: entry_id_set_iff)
      moreover have "ids_ok (ds @ [e])" using Cons.prems(2) Some new by (auto simp: ids_ok_def)
      ultimately show ?thesis
        using Cons.IH [of "bt_insert i k m" "ds @ [e]" "Suc k"] Cons.prems(3) Some False by simp
    qed
  qed
qed auto

lemma positions_from_iff:
  "(\<exists>m. positions_from missing dup 0 es bt_empty = Inr m) \<longleftrightarrow> ids_ok es"
  "positions_from missing dup 0 es bt_empty = Inr m \<Longrightarrow> index_ok m es"
proof -
  have "index_ok bt_empty []" "ids_ok []" by (simp_all add: index_ok_def ids_ok_def)
  from positions_from_run [OF this, of 0 es missing dup]
  show "(\<exists>m. positions_from missing dup 0 es bt_empty = Inr m) \<longleftrightarrow> ids_ok es"
    "positions_from missing dup 0 es bt_empty = Inr m \<Longrightarrow> index_ok m es" by auto
qed

lemma parent_index_Some:
  assumes "index_ok m es"
  shows "parent_index m e = Some q \<longleftrightarrow> q < length es \<and> parent_id e \<noteq> None \<and> base_id (es ! q) = parent_id e"
  using assms by (auto simp: parent_index_def index_ok_def bind_eq_Some_conv)

definition links_closed :: "session_entry list \<Rightarrow> bool" where
  "links_closed es \<longleftrightarrow> (\<forall>e \<in> set es. parent_id e \<noteq> None \<longrightarrow> parent_id e \<in> base_id ` set es)"

lemma links_closed_check: "ensure_session_parent_links_closed es = None \<longleftrightarrow> links_closed es"
proof -
  have "(case parent_id e of Some p \<Rightarrow> p \<notin> entry_id_set es | None \<Rightarrow> False) \<longleftrightarrow>
      \<not> (parent_id e \<noteq> None \<longrightarrow> parent_id e \<in> base_id ` set es)" for e
    by (cases "parent_id e") (simp_all add: entry_id_set_iff)
  then have "ensure_session_parent_links_closed es = None \<longleftrightarrow>
      find (\<lambda>e. \<not> (parent_id e \<noteq> None \<longrightarrow> parent_id e \<in> base_id ` set es)) es = None"
    by (simp only: ensure_session_parent_links_closed_def Let_def) (simp split: option.split)
  then show ?thesis by (simp only: find_None_ball links_closed_def) blast
qed

definition has_cycle :: "session_entry list \<Rightarrow> bool" where
  "has_cycle es \<longleftrightarrow>
     (\<exists>S. S \<noteq> {} \<and> S \<subseteq> set es \<and> (\<forall>e \<in> S. parent_id e \<noteq> None \<and> (\<exists>p \<in> S. base_id p = parent_id e)))"

text \<open>
  The parent positions of a list with distinct identifiers, and what the ordering makes of them.
\<close>

definition parents_of :: "session_entry list \<Rightarrow> usize option list \<Rightarrow> bool" where
  "parents_of es pars \<longleftrightarrow> length pars = length es \<and>
     (\<forall>i < length es. \<forall>q. pars ! i = Some q \<longleftrightarrow>
        q < length es \<and> parent_id (es ! i) \<noteq> None \<and> base_id (es ! q) = parent_id (es ! i))"

lemma parents_of_map: "index_ok m es \<Longrightarrow> parents_of es (map (parent_index m) es)"
  by (simp add: parents_of_def parent_index_Some)

lemma closed_cycle_iff:
  assumes "parents_of es pars"
  shows "(\<exists>S. closed_cycle pars S) \<longleftrightarrow> has_cycle es"
proof
  assume "\<exists>S. closed_cycle pars S"
  then obtain S where S: "S \<noteq> {}" "S \<subseteq> {..<length es}" "\<forall>i \<in> S. pars ! i \<in> Some ` S"
    using assms by (auto simp: closed_cycle_def parents_of_def)
  have "parent_id e \<noteq> None \<and> (\<exists>p \<in> (!) es ` S. base_id p = parent_id e)" if e: "e \<in> (!) es ` S" for e
  proof -
    obtain i q where "i \<in> S" "e = es ! i" "q \<in> S" "pars ! i = Some q" using e S(3) by auto
    moreover have "i < length es" using \<open>i \<in> S\<close> S(2) by auto
    ultimately show ?thesis using assms unfolding parents_of_def by (metis imageI)
  qed
  then show "has_cycle es" using S(1,2) unfolding has_cycle_def
    by (intro exI [of _ "(!) es ` S"]) (auto simp del: not_None_eq)
next
  assume "has_cycle es"
  then obtain S where S: "S \<noteq> {}" "S \<subseteq> set es"
    "\<forall>e \<in> S. parent_id e \<noteq> None \<and> (\<exists>p \<in> S. base_id p = parent_id e)" unfolding has_cycle_def by blast
  define T where "T = {i. i < length es \<and> es ! i \<in> S}"
  have "pars ! i \<in> Some ` T" if i: "i \<in> T" for i
  proof -
    have "i < length es" "es ! i \<in> S" using i by (simp_all add: T_def)
    then obtain p where p: "p \<in> S" "base_id p = parent_id (es ! i)" "parent_id (es ! i) \<noteq> None" using S(3) by blast
    then obtain q where "q < length es" "es ! q = p" using S(2) by (metis in_set_conv_nth subsetD)
    then have "pars ! i = Some q" "q \<in> T" using assms p \<open>i < length es\<close> by (auto simp: parents_of_def T_def)
    then show ?thesis by simp
  qed
  moreover have "T \<noteq> {}" using S(1,2) by (auto simp: T_def in_set_conv_nth subset_iff)
  ultimately have "closed_cycle pars T" using assms by (auto simp: closed_cycle_def parents_of_def T_def)
  then show "\<exists>S. closed_cycle pars S" ..
qed

lemma degree_of_start: "degree_of pars [] = indegree_table pars"
  by (rule nth_equalityI) (auto simp: degree_of_def indegree_table_def waiting_def split: option.split)

lemma ready_start_set: "set (ready_start (indegree_table pars)) = ready_set pars []"
  by (auto simp: ready_start_def indegree_table_def ready_set_def waiting_def split: option.splits if_splits)

lemma topo_loop_start:
  assumes "length es = length pars"
  shows "topo_loop (children_table pars) (map Some es) (indegree_table pars) (ready_start (indegree_table pars)) [] =
    Inr (map (\<lambda>i. es ! i) (topo_order pars []))"
proof -
  have slots: "slots_of es [] = map Some es" by (rule nth_equalityI) (simp_all add: slots_of_def)
  from topo_loop_order [OF assms taken_ok_Nil _ _ ready_start_set] show ?thesis
    by (simp add: slots degree_of_start) (simp add: ready_start_def sorted_wrt_filter)
qed

lemma stable_order_run:
  assumes "ids_ok es" and "2 \<le> length es"
  obtains pars where "parents_of es pars"
    and "stable_parent_topological_order es =
      (if length (topo_order pars []) \<noteq> length es then Inl ParentCycle else Inr (map (\<lambda>i. es ! i) (topo_order pars [])))"
proof -
  obtain m where m: "positions_from EntryMissingId DuplicateId 0 es bt_empty = Inr m"
    using assms(1) positions_from_iff(1) by blast
  have "parents_of es (map (parent_index m) es)" by (rule parents_of_map [OF positions_from_iff(2) [OF m]])
  then show ?thesis
    using that [of "map (parent_index m) es"] assms(2) m topo_loop_start [of es "map (parent_index m) es"]
    by (simp add: stable_parent_topological_order_def Let_def)
qed

lemma parents_of_bound:
  assumes "parents_of es pars"
  shows "\<forall>i < length pars. \<forall>q. pars ! i = Some q \<longrightarrow> q < length pars"
  using assms by (auto simp: parents_of_def)

lemma topo_complete_iff:
  assumes "parents_of es pars"
  shows "length (topo_order pars []) = length es \<longleftrightarrow> \<not> has_cycle es"
  using topo_order_complete [OF parents_of_bound [OF assms]] closed_cycle_iff [OF assms] assms
  by (simp add: parents_of_def)

lemma stable_order_iff:
  assumes "2 \<le> length es"
  shows "(\<exists>os. stable_parent_topological_order es = Inr os) \<longleftrightarrow> ids_ok es \<and> \<not> has_cycle es"
proof (cases "ids_ok es")
  case True
  then obtain pars where "parents_of es pars"
    "stable_parent_topological_order es =
      (if length (topo_order pars []) \<noteq> length es then Inl ParentCycle else Inr (map (\<lambda>i. es ! i) (topo_order pars [])))"
    using assms by (rule stable_order_run)
  then show ?thesis
    using True topo_complete_iff [of es pars] by simp
next
  case False
  then obtain err where "positions_from EntryMissingId DuplicateId 0 es bt_empty = Inl err"
    using positions_from_iff(1) by (metis sum.exhaust)
  then show ?thesis using False assms by (simp add: stable_parent_topological_order_def)
qed

text \<open>What a returned order is: the same entries, parents first, with a parent-first prefix left in place.\<close>

lemma order_entries_ok:
  assumes par: "parents_of es pars" and t: "taken_ok pars ord" and len: "length ord = length es"
    and ids: "ids_ok es" and lc: "links_closed es"
  shows "entries_ok (map (\<lambda>i. es ! i) ord)"
proof -
  have sub: "set ord \<subseteq> {..<length es}" "distinct ord" using t par by (auto simp: taken_ok_def parents_of_def)
  have par_ex: "\<exists>j < k. base_id (es ! (ord ! j)) = Some p"
    if k: "k < length ord" and p: "parent_id (es ! (ord ! k)) = Some p" for k p
  proof -
    have ok: "ord ! k < length es" using sub(1) k by (auto simp: subset_iff)
    then have "Some p \<in> base_id ` set es" using lc p nth_mem unfolding links_closed_def by (metis option.distinct(1))
    then obtain q where q: "q < length es" "base_id (es ! q) = Some p" by (auto simp: in_set_conv_nth)
    then have "pars ! (ord ! k) = Some q" using par ok p by (simp add: parents_of_def)
    then have "q \<in> set (take k ord)" using t k by (auto simp: taken_ok_def parents_first_def waiting_def)
    then obtain j where "j < k" "ord ! j = q" by (auto simp: in_set_conv_nth)
    then show ?thesis using q by auto
  qed
  have "distinct (map (\<lambda>i. base_id (es ! i)) ord)"
    using sub ids_ok_nth_inj [OF ids] by (auto simp: distinct_map inj_on_def subset_iff)
  moreover have "\<forall>i \<in> set ord. base_id (es ! i) \<noteq> None" using ids sub(1) by (auto simp: ids_ok_def subset_iff)
  moreover have "\<exists>j < k. base_id (map ((!) es) ord ! j) = Some p"
    if k: "k < length ord" and p: "parent_id (map ((!) es) ord ! k) = Some p" for k p
  proof -
    obtain j where "j < k" "base_id (es ! (ord ! j)) = Some p" using par_ex [OF k] p k by auto
    then show ?thesis using k by (intro exI [of _ j]) simp
  qed
  ultimately show ?thesis by (simp add: entries_ok_def comp_def del: not_None_eq nth_map)
qed

lemma order_permutation:
  assumes "distinct ord" and "set ord \<subseteq> {..<length es}" and "length ord = length es"
  shows "mset (map (\<lambda>i. es ! i) ord) = mset es"
proof -
  have "set ord = {..<length es}"
    using assms by (intro card_subset_eq) (simp_all add: distinct_card)
  then have "mset ord = mset [0..<length es]"
    using set_eq_iff_mset_eq_distinct [OF assms(1) distinct_upt, of 0 "length es"] by (simp add: atLeast0LessThan)
  then have "image_mset ((!) es) (mset ord) = mset (map ((!) es) [0..<length es])" by (simp only: mset_map)
  then show ?thesis by (simp only: map_nth mset_map)
qed

lemma entries_ok_prefix_order:
  assumes par: "parents_of es pars" and ids: "ids_ok es" and n: "n \<le> length es" and ok: "entries_ok (take n es)"
  shows "take n (map (\<lambda>i. es ! i) (topo_order pars [])) = take n es"
proof -
  have "\<forall>i < n. \<forall>q. pars ! i = Some q \<longrightarrow> q < i"
  proof (intro allI impI)
    fix i q assume i: "i < n" and q: "pars ! i = Some q"
    obtain p where p: "parent_id (es ! i) = Some p" "base_id (es ! q) = Some p" "q < length es"
      using par q i n by (auto simp: parents_of_def)
    then have "parent_id (take n es ! i) = Some p" using i by simp
    moreover have "i < length (take n es)" using i n by simp
    ultimately have "\<exists>j < i. base_id (take n es ! j) = Some p" using ok unfolding entries_ok_def by blast
    then obtain j where "j < i" "base_id (take n es ! j) = Some p" by blast
    then have "j < i" "base_id (es ! j) = Some p" using i by simp_all
    then show "q < i" using ids_ok_nth_inj [OF ids, of q j] p i n by simp
  qed
  then have "topo_order pars [] = topo_order pars [0..<n]"
    using topo_order_prefix [of n pars 0] n par by (simp add: parents_of_def)
  then obtain rest where "topo_order pars [] = [0..<n] @ rest" using topo_order_extends by metis
  moreover have "map ((!) es) [0..<n] = take n es" by (rule nth_equalityI) (use n in auto)
  ultimately show ?thesis using n by simp
qed

definition no_self_parent :: "session_entry list \<Rightarrow> bool" where
  "no_self_parent es \<longleftrightarrow> (\<forall>e \<in> set es. parent_id e = None \<or> parent_id e \<noteq> base_id e)"

lemma short_list_ok:
  assumes "length es < 2" and "ids_ok es" and "links_closed es" and "no_self_parent es"
  shows "entries_ok es" and "\<not> has_cycle es"
proof -
  have root: "parent_id e = None" if "e \<in> set es" for e
  proof -
    have "es = [e]" using assms(1) that by (cases es) auto
    then show ?thesis using assms(3,4) by (auto simp: links_closed_def no_self_parent_def)
  qed
  then show "entries_ok es" using assms(2) by (auto simp: entries_ok_def ids_ok_def)
  show "\<not> has_cycle es" using root by (auto simp: has_cycle_def)
qed

lemma stable_order_exact:
  assumes "ids_ok es" and "links_closed es" and "no_self_parent es"
  shows "(\<exists>os. stable_parent_topological_order es = Inr os) \<longleftrightarrow> \<not> has_cycle es"
    and "stable_parent_topological_order es = Inr os \<Longrightarrow>
      mset os = mset es \<and> entries_ok os \<and> (\<forall>n \<le> length es. entries_ok (take n es) \<longrightarrow> take n os = take n es)"
proof -
  consider "length es < 2" | "2 \<le> length es" by linarith
  then have "((\<exists>os. stable_parent_topological_order es = Inr os) \<longleftrightarrow> \<not> has_cycle es) \<and>
    (stable_parent_topological_order es = Inr os \<longrightarrow>
      mset os = mset es \<and> entries_ok os \<and> (\<forall>n \<le> length es. entries_ok (take n es) \<longrightarrow> take n os = take n es))"
  proof cases
    case 1
    then show ?thesis
      using short_list_ok [OF 1 assms] by (auto simp: stable_parent_topological_order_def)
  next
    case 2
    obtain pars where p: "parents_of es pars"
      "stable_parent_topological_order es =
        (if length (topo_order pars []) \<noteq> length es then Inl ParentCycle else Inr (map (\<lambda>i. es ! i) (topo_order pars [])))"
      using assms(1) 2 by (rule stable_order_run)
    note t = topo_order_final(1) [of pars]
    have sub: "distinct (topo_order pars [])" "set (topo_order pars []) \<subseteq> {..<length es}"
      using t p(1) by (auto simp: taken_ok_def parents_of_def)
    have "mset os = mset es \<and> entries_ok os \<and> (\<forall>n \<le> length es. entries_ok (take n es) \<longrightarrow> take n os = take n es)"
      if "stable_parent_topological_order es = Inr os"
    proof -
      have os: "length (topo_order pars []) = length es" "os = map (\<lambda>i. es ! i) (topo_order pars [])"
        using that p(2) by (auto split: if_splits)
      show ?thesis
        using order_permutation [OF sub os(1)] order_entries_ok [OF p(1) t os(1) assms(1,2)]
          entries_ok_prefix_order [OF p(1) assms(1)] by (simp add: os(2))
    qed
    then show ?thesis using stable_order_iff [OF 2] assms(1) by blast
  qed
  then show "(\<exists>os. stable_parent_topological_order es = Inr os) \<longleftrightarrow> \<not> has_cycle es"
    and "stable_parent_topological_order es = Inr os \<Longrightarrow>
      mset os = mset es \<and> entries_ok os \<and> (\<forall>n \<le> length es. entries_ok (take n es) \<longrightarrow> take n os = take n es)"
    by blast+
qed

lemma entries_ok_no_self: "entries_ok es \<Longrightarrow> no_self_parent es"
  unfolding no_self_parent_def
proof
  fix e assume ok: "entries_ok es" and "e \<in> set es"
  then obtain k where k: "k < length es" "es ! k = e" by (metis in_set_conv_nth)
  show "parent_id e = None \<or> parent_id e \<noteq> base_id e"
  proof (cases "parent_id e")
    case (Some p)
    then obtain j where j: "j < k" "base_id (es ! j) = Some p" using ok k unfolding entries_ok_def by blast
    then have "base_id (es ! j) \<noteq> base_id (es ! k)"
      using ids_ok_nth_inj [of es j k] ok k(1) by (auto simp: entries_ok_def ids_ok_def)
    then show ?thesis using j k(2) Some by simp
  qed simp
qed

section \<open>Merging\<close>

definition new_rows :: "session_entry list \<Rightarrow> session_entry list \<Rightarrow> session_entry list" where
  "new_rows ds es = filter (\<lambda>e. base_id e \<notin> base_id ` set ds) es"

definition rows_agree :: "encoder \<Rightarrow> session_entry list \<Rightarrow> session_entry list \<Rightarrow> bool" where
  "rows_agree encode ds es \<longleftrightarrow>
     (\<forall>d \<in> set ds. \<forall>e \<in> set es. base_id d = base_id e \<longrightarrow> encode d \<noteq> None \<and> encode d = encode e)"

lemma no_rows [simp]: "ids_ok []" "rows_agree encode ds []" "new_rows ds [] = []"
  by (simp_all add: ids_ok_def rows_agree_def new_rows_def)

lemma new_rows_ids: "ids_ok ds \<Longrightarrow> ids_ok es \<Longrightarrow> ids_ok (ds @ new_rows ds es)"
  unfolding ids_ok_append by (auto simp: ids_ok_def new_rows_def distinct_map_filter) (metis imageI)

lemma new_rows_snoc: "new_rows ds (es @ [e]) = new_rows ds es @ (if base_id e \<in> base_id ` set ds then [] else [e])"
  by (simp add: new_rows_def)

lemma merge_local_run:
  assumes "index_ok positions (ds @ new_rows ds ps)" and "ids_ok ds" and "ids_ok ps" and "rows_agree encode ds ps"
    and "\<And>i. i \<in> seen \<longleftrightarrow> Some i \<in> base_id ` set ps"
  shows "merge_local encode es seen positions (ds @ new_rows ds ps) = Inr r \<longleftrightarrow>
    ids_ok (ps @ es) \<and> rows_agree encode ds (ps @ es) \<and> r = ds @ new_rows ds (ps @ es)"
  using assms
proof (induction es arbitrary: ps seen positions)
  case Nil
  then show ?case by auto
next
  case (Cons e es)
  define M where "M = ds @ new_rows ds ps"
  show ?case
  proof (cases "base_id e = None \<or> base_id e \<in> base_id ` set ps")
    case True
    then have "\<not> ids_ok (ps @ e # es)" by (auto simp: ids_ok_def)
    moreover have "\<exists>err. merge_local encode (e # es) seen positions M = Inl err"
      using True Cons.prems(5) by (auto split: option.split)
    ultimately show ?thesis by (auto simp: M_def)
  next
    case False
    then obtain i where i: "base_id e = Some i" "i \<notin> seen" using Cons.prems(5) by auto
    have ps: "ids_ok (ps @ [e])" using False Cons.prems(3) by (auto simp: ids_ok_def)
    have seen: "j \<in> insert i seen \<longleftrightarrow> Some j \<in> base_id ` set (ps @ [e])" for j using Cons.prems(5) i by auto
    show ?thesis
    proof (cases "bt_get positions i")
      case None
      then have out: "Some i \<notin> base_id ` set M"
        using index_ok_contains [OF Cons.prems(1), of i] by (simp add: M_def del: set_append)
      then have od: "Some i \<notin> base_id ` set ds" by (auto simp: M_def)
      then have nr: "ds @ new_rows ds (ps @ [e]) = M @ [e]" by (simp add: i new_rows_snoc M_def)
      have ra: "rows_agree encode ds (ps @ [e])"
        unfolding rows_agree_def
      proof (intro ballI impI)
        fix d x assume dx: "d \<in> set ds" "x \<in> set (ps @ [e])" "base_id d = base_id x"
        have "x \<noteq> e" using od dx i by (metis imageI)
        then have "x \<in> set ps" using dx(2) by simp
        then show "encode d \<noteq> None \<and> encode d = encode x" using Cons.prems(4) dx(1,3) unfolding rows_agree_def by blast
      qed
      have "index_ok (bt_insert i (length M) positions) (ds @ new_rows ds (ps @ [e]))"
        using index_ok_snoc [OF Cons.prems(1) i(1)] out nr by (simp add: entry_id_set_iff M_def)
      from Cons.IH [OF this Cons.prems(2) ps ra seen]
      show ?thesis using i None nr by (simp add: M_def)
    next
      case (Some idx)
      then have idx: "idx < length M" "base_id (M ! idx) = Some i"
        using Cons.prems(1) by (simp_all add: index_ok_def M_def)
      have "idx < length ds"
      proof (rule ccontr)
        assume "\<not> idx < length ds"
        then have "M ! idx \<in> set ps" using idx(1) nth_mem [of "idx - length ds" "new_rows ds ps"]
          by (auto simp: M_def nth_append new_rows_def)
        then show False using idx(2) Cons.prems(5) [of i] i(2) by (metis imageI)
      qed
      then have d: "M ! idx \<in> set ds" by (simp add: M_def nth_append)
      have nr: "ds @ new_rows ds (ps @ [e]) = M"
        using d idx(2) i(1) by (simp add: new_rows_snoc M_def) (metis imageI)
      have uniq: "d' = M ! idx" if "d' \<in> set ds" "base_id d' = Some i" for d'
        using that d idx(2) Cons.prems(2) unfolding ids_ok_def distinct_map by (metis inj_onD)
      have agree: "rows_agree encode ds (ps @ [e]) \<longleftrightarrow> encode (M ! idx) \<noteq> None \<and> encode (M ! idx) = encode e"
      proof
        assume "rows_agree encode ds (ps @ [e])"
        then show "encode (M ! idx) \<noteq> None \<and> encode (M ! idx) = encode e"
          unfolding rows_agree_def using d idx(2) i(1) by (metis in_set_conv_decomp)
      next
        assume same: "encode (M ! idx) \<noteq> None \<and> encode (M ! idx) = encode e"
        show "rows_agree encode ds (ps @ [e])"
          unfolding rows_agree_def
        proof (intro ballI impI)
          fix d' x assume dx: "d' \<in> set ds" "x \<in> set (ps @ [e])" "base_id d' = base_id x"
          then consider "x \<in> set ps" | "x = e" by auto
          then show "encode d' \<noteq> None \<and> encode d' = encode x"
          proof cases
            case 1
            then show ?thesis using Cons.prems(4) dx(1,3) unfolding rows_agree_def by blast
          next
            case 2
            then show ?thesis using uniq [OF dx(1)] dx(3) i(1) same by metis
          qed
        qed
      qed
      show ?thesis
      proof (cases "rows_agree encode ds (ps @ [e])")
        case True
        have "index_ok positions (ds @ new_rows ds (ps @ [e]))" using nr Cons.prems(1) by (simp add: M_def)
        from Cons.IH [OF this Cons.prems(2) ps True seen] show ?thesis
          using True agree i Some nr by (auto simp: M_def)
      next
        case False
        then have "\<not> rows_agree encode ds (ps @ e # es)" by (auto simp: rows_agree_def)
        moreover have "\<exists>err. merge_local encode (e # es) seen positions M = Inl err"
          using False agree i Some by (auto split: option.split)
        ultimately show ?thesis by (auto simp: M_def)
      qed
    qed
  qed
qed

text \<open>The merge succeeds exactly when the identifiers are sound, nothing conflicts and the links make a forest.\<close>

lemma merge_and_order_eq:
  assumes "ids_ok ds" and "ids_ok es" and "rows_agree encode ds es" and "links_closed (ds @ new_rows ds es)"
  shows "merge_and_order encode ds es = stable_parent_topological_order (ds @ new_rows ds es)"
proof -
  obtain m where m: "positions_from PersistedMissingId PersistedDuplicateId 0 ds bt_empty = Inr m"
    using assms(1) positions_from_iff(1) by blast
  have "index_ok m (ds @ new_rows ds [])" using positions_from_iff(2) [OF m] by simp
  from merge_local_run [OF this assms(1), of encode "{}" es]
  have "merge_local encode es {} m ds = Inr (ds @ new_rows ds es)"
    using assms by simp
  moreover have "ensure_session_parent_links_closed (ds @ new_rows ds es) = None" using assms(4) links_closed_check by blast
  ultimately show ?thesis using m by (simp add: merge_and_order_def)
qed

lemma merge_and_order_Inr:
  assumes "merge_and_order encode ds es = Inr os"
  shows "ids_ok ds \<and> ids_ok es \<and> rows_agree encode ds es \<and> links_closed (ds @ new_rows ds es)"
proof -
  obtain m merged where m: "positions_from PersistedMissingId PersistedDuplicateId 0 ds bt_empty = Inr m"
    "merge_local encode es {} m ds = Inr merged" "ensure_session_parent_links_closed merged = None"
    using assms by (auto simp: merge_and_order_def split: sum.splits option.splits)
  have ids: "ids_ok ds" using m(1) positions_from_iff(1) by blast
  have "index_ok m (ds @ new_rows ds [])" using positions_from_iff(2) [OF m(1)] by simp
  from merge_local_run [OF this ids, of encode "{}" es merged]
  have "ids_ok es \<and> rows_agree encode ds es \<and> merged = ds @ new_rows ds es"
    using m(2) by simp
  then show ?thesis using ids m(3) links_closed_check by blast
qed

lemma merge_and_order_exact:
  assumes "no_self_parent (ds @ new_rows ds es)"
  shows "(\<exists>os. merge_and_order encode ds es = Inr os) \<longleftrightarrow>
      ids_ok ds \<and> ids_ok es \<and> rows_agree encode ds es \<and>
      links_closed (ds @ new_rows ds es) \<and> \<not> has_cycle (ds @ new_rows ds es)"
    and "merge_and_order encode ds es = Inr os \<Longrightarrow>
      mset os = mset (ds @ new_rows ds es) \<and> entries_ok os \<and> (entries_ok ds \<longrightarrow> take (length ds) os = ds)"
proof -
  note order = stable_order_exact [OF new_rows_ids _ assms]
  show "(\<exists>os. merge_and_order encode ds es = Inr os) \<longleftrightarrow>
      ids_ok ds \<and> ids_ok es \<and> rows_agree encode ds es \<and>
      links_closed (ds @ new_rows ds es) \<and> \<not> has_cycle (ds @ new_rows ds es)"
    using merge_and_order_Inr merge_and_order_eq order(1) by metis
  assume r: "merge_and_order encode ds es = Inr os"
  note c = merge_and_order_Inr [OF r]
  have "stable_parent_topological_order (ds @ new_rows ds es) = Inr os" using r c merge_and_order_eq by simp
  from order(2) [OF _ _ _ this] c
  have "mset os = mset (ds @ new_rows ds es)" "entries_ok os"
    "length ds \<le> length (ds @ new_rows ds es) \<Longrightarrow> entries_ok (take (length ds) (ds @ new_rows ds es)) \<Longrightarrow>
       take (length ds) os = take (length ds) (ds @ new_rows ds es)" by blast+
  then show "mset os = mset (ds @ new_rows ds es) \<and> entries_ok os \<and> (entries_ok ds \<longrightarrow> take (length ds) os = ds)"
    by simp
qed

text \<open>
  Without that condition: an entry that is its own parent is a cycle, which is refused in every list
  of more than one entry; a list of one entry is returned unchecked.
\<close>

lemma self_parent_cycle: "\<not> no_self_parent es \<Longrightarrow> has_cycle es"
  unfolding no_self_parent_def has_cycle_def by (metis empty_not_insert empty_subsetI insert_subset singletonD singletonI)

lemma lone_entry_order: "length es = 1 \<Longrightarrow> stable_parent_topological_order es = Inr es"
  by (simp add: stable_parent_topological_order_def)

lemma merge_and_order_outcome:
  shows "(\<exists>os. merge_and_order encode ds es = Inr os) \<longleftrightarrow>
      ids_ok ds \<and> ids_ok es \<and> rows_agree encode ds es \<and> links_closed (ds @ new_rows ds es) \<and>
      (has_cycle (ds @ new_rows ds es) \<longrightarrow> length (ds @ new_rows ds es) = 1)"
    and "merge_and_order encode ds es = Inr os \<Longrightarrow>
      mset os = mset (ds @ new_rows ds es) \<and> (\<not> has_cycle (ds @ new_rows ds es) \<longrightarrow> entries_ok os) \<and>
      (entries_ok ds \<longrightarrow> take (length ds) os = ds)"
proof -
  let ?m = "ds @ new_rows ds es"
  let ?sound = "ids_ok ds \<and> ids_ok es \<and> rows_agree encode ds es \<and> links_closed ?m"
  have both: "((\<exists>os. merge_and_order encode ds es = Inr os) \<longleftrightarrow> ?sound \<and> (has_cycle ?m \<longrightarrow> length ?m = 1)) \<and>
    (merge_and_order encode ds es = Inr os \<longrightarrow>
      mset os = mset ?m \<and> (\<not> has_cycle ?m \<longrightarrow> entries_ok os) \<and> (entries_ok ds \<longrightarrow> take (length ds) os = ds))"
  proof (cases "no_self_parent ?m")
    case True
    have "\<not> has_cycle ?m" if ?sound "length ?m = 1"
      using short_list_ok(2) [of ?m] that True new_rows_ids [of ds es] by linarith
    then show ?thesis using merge_and_order_exact [OF True, of encode] by blast
  next
    case False
    then have cycle: "has_cycle ?m" by (rule self_parent_cycle)
    have "?m \<noteq> []" using False by (auto simp: no_self_parent_def)
    then consider "length ?m = 1" | "2 \<le> length ?m" by (cases ?m; cases "tl ?m") auto
    then show ?thesis
    proof cases
      case 1
      have "merge_and_order encode ds es = Inr ?m" if ?sound
        using merge_and_order_eq [of ds es encode] lone_entry_order [OF 1] that by simp
      then show ?thesis using cycle 1 merge_and_order_Inr [of encode ds es] by fastforce
    next
      case 2
      have "\<nexists>os. merge_and_order encode ds es = Inr os"
        using merge_and_order_Inr [of encode ds es] merge_and_order_eq [of ds es encode]
          stable_order_iff [OF 2] cycle by metis
      then show ?thesis using cycle 2 by auto
    qed
  qed
  then show "(\<exists>os. merge_and_order encode ds es = Inr os) \<longleftrightarrow>
      ids_ok ds \<and> ids_ok es \<and> rows_agree encode ds es \<and> links_closed ?m \<and> (has_cycle ?m \<longrightarrow> length ?m = 1)"
    and "merge_and_order encode ds es = Inr os \<Longrightarrow>
      mset os = mset ?m \<and> (\<not> has_cycle ?m \<longrightarrow> entries_ok os) \<and> (entries_ok ds \<longrightarrow> take (length ds) os = ds)"
    by blast+
qed

section \<open>Appending to the file\<close>

text \<open>The rows of a list, by identifier.\<close>

definition rows_ok :: "encoder \<Rightarrow> (ustr, nat list) btree \<Rightarrow> session_entry list \<Rightarrow> bool" where
  "rows_ok encode m es \<longleftrightarrow> bt_wf m \<and>
     (\<forall>i row. bt_get m i = Some row \<longleftrightarrow> (\<exists>e \<in> set es. base_id e = Some i \<and> encode e = Some row)) \<and>
     (\<forall>e \<in> set es. encode e \<noteq> None)"

lemma rows_ok_snoc:
  assumes "rows_ok encode m es" and "base_id e = Some i" and "encode e = Some row" and "bt_get m i = None"
  shows "rows_ok encode (bt_insert i row m) (es @ [e])"
proof -
  have out: "base_id d \<noteq> Some i" if "d \<in> set es" for d
  proof
    assume d: "base_id d = Some i"
    obtain r where "encode d = Some r" using assms(1) \<open>d \<in> set es\<close> by (auto simp: rows_ok_def)
    then have "bt_get m i = Some r" using assms(1) \<open>d \<in> set es\<close> d unfolding rows_ok_def by blast
    then show False using assms(4) by simp
  qed
  show ?thesis using assms(1-3) out unfolding rows_ok_def by (auto split: if_splits)
qed

lemma persisted_rows_run:
  assumes "persisted_rows encode es m = Inr m'" and "rows_ok encode m ds" and "ids_ok ds"
  shows "rows_ok encode m' (ds @ es) \<and> ids_ok (ds @ es)"
  using assms
proof (induction es arbitrary: m ds)
  case (Cons e es)
  obtain i row where e: "base_id e = Some i" "encode e = Some row" "\<not> bt_contains m i"
    "persisted_rows encode es (bt_insert i row m) = Inr m'"
    using Cons.prems(1) by (auto split: option.splits if_splits)
  have n: "bt_get m i = None" using e(3) by (simp add: bt_contains_def)
  have "rows_ok encode (bt_insert i row m) (ds @ [e])" by (rule rows_ok_snoc [OF Cons.prems(2) e(1,2) n])
  moreover have "ids_ok (ds @ [e])"
  proof -
    have "base_id d \<noteq> Some i" if "d \<in> set ds" for d
      using Cons.prems(2) n that unfolding rows_ok_def by (metis not_None_eq)
    then show ?thesis using Cons.prems(3) e(1) by (auto simp: ids_ok_def)
  qed
  ultimately show ?case using Cons.IH [OF e(4), of "ds @ [e]"] by simp
qed simp

lemma pending_rows_run:
  assumes "pending_rows encode es seen m = Inr pending" and "rows_ok encode m (ds @ new_rows ds ps)"
    and "ids_ok ds" and "ids_ok ps" and "rows_agree encode ds ps"
    and "\<And>i. i \<in> seen \<longleftrightarrow> Some i \<in> base_id ` set ps"
  shows "ids_ok (ps @ es) \<and> rows_agree encode ds (ps @ es) \<and> pending = new_rows ds es"
  using assms
proof (induction es arbitrary: ps seen m pending)
  case (Cons e es)
  obtain i row where e: "base_id e = Some i" "i \<notin> seen" "encode e = Some row"
    using Cons.prems(1) by (auto split: option.splits if_splits)
  have out: "Some i \<notin> base_id ` set ps" using Cons.prems(6) e(2) by blast
  have ps: "ids_ok (ps @ [e])" using out Cons.prems(4) e(1) by (auto simp: ids_ok_def)
  have seen: "j \<in> insert i seen \<longleftrightarrow> Some j \<in> base_id ` set (ps @ [e])" for j using Cons.prems(6) e(1) by auto
  have known: "d \<in> set (ds @ new_rows ds ps) \<Longrightarrow> base_id d = Some i \<Longrightarrow> bt_get m i \<noteq> None" for d
    using Cons.prems(2) unfolding rows_ok_def by (metis not_None_eq)
  show ?case
  proof (cases "bt_get m i")
    case None
    have od: "Some i \<notin> base_id ` set ds" using known None by (metis UnI1 imageE set_append)
    obtain rest where rest: "pending_rows encode es (insert i seen) (bt_insert i row m) = Inr rest" "pending = e # rest"
      using Cons.prems(1) e None by (auto split: if_splits sum.splits simp: map_sum_def)
    have "rows_ok encode (bt_insert i row m) (ds @ new_rows ds (ps @ [e]))"
      using rows_ok_snoc [OF Cons.prems(2) e(1,3) None] od e(1) by (simp add: new_rows_snoc)
    moreover have "rows_agree encode ds (ps @ [e])"
      using Cons.prems(5) od e(1) unfolding rows_agree_def by (metis Un_iff imageI empty_iff insert_iff list.set set_append)
    ultimately show ?thesis
      using Cons.IH [OF rest(1) _ Cons.prems(3) ps _ seen] rest(2) od e(1) by (simp add: new_rows_def)
  next
    case (Some r)
    then have r: "r = row" "pending_rows encode es (insert i seen) m = Inr pending"
      using Cons.prems(1) e by (auto split: if_splits)
    obtain d where d: "d \<in> set (ds @ new_rows ds ps)" "base_id d = Some i" "encode d = Some row"
      using Cons.prems(2) Some r(1) unfolding rows_ok_def by blast
    have dd: "d \<in> set ds"
    proof (rule ccontr)
      assume "d \<notin> set ds"
      then have "d \<in> set ps" using d(1) by (simp add: new_rows_def)
      then show False using out d(2) by (metis imageI)
    qed
    have uniq: "d' = d" if "d' \<in> set ds" "base_id d' = Some i" for d'
      using that d(2) dd Cons.prems(3) unfolding ids_ok_def distinct_map by (metis inj_onD)
    have agree: "rows_agree encode ds (ps @ [e])"
      unfolding rows_agree_def
    proof (intro ballI impI)
      fix d' x assume dx: "d' \<in> set ds" "x \<in> set (ps @ [e])" "base_id d' = base_id x"
      then consider "x \<in> set ps" | "x = e" by auto
      then show "encode d' \<noteq> None \<and> encode d' = encode x"
      proof cases
        case 1
        then show ?thesis using Cons.prems(5) dx(1,3) unfolding rows_agree_def by blast
      next
        case 2
        then show ?thesis using uniq [OF dx(1)] dx(3) e(1,3) d(3) by simp
      qed
    qed
    have known_id: "base_id e \<in> base_id ` set ds" using dd d(2) e(1) by (metis imageI)
    then have "rows_ok encode m (ds @ new_rows ds (ps @ [e]))" using Cons.prems(2) by (simp add: new_rows_snoc)
    then show ?thesis
      using Cons.IH [OF r(2) _ Cons.prems(3) ps agree seen] known_id by (simp add: new_rows_def)
  qed
qed auto

definition count_messages :: "session_entry list \<Rightarrow> u64 \<Rightarrow> u64" where
  "count_messages es n = fold (\<lambda>e k. if is_message_entry e then sat_add64 k 1 else k) es n"

definition latest_name :: "session_entry list \<Rightarrow> ustr option \<Rightarrow> ustr option" where
  "latest_name es n = (case find_last session_name es of Some x \<Rightarrow> Some x | None \<Rightarrow> n)"

lemma find_last_append: "find_last f (xs @ ys) = (case find_last f ys of Some y \<Rightarrow> Some y | None \<Rightarrow> find_last f xs)"
  by (induction ys rule: rev_induct)
    (simp_all add: find_last_snoc append_assoc [symmetric] del: append_assoc split: option.split, simp add: find_last_def map_filter_simps)

lemma find_last_Cons: "find_last f (x # xs) = (case find_last f xs of Some y \<Rightarrow> Some y | None \<Rightarrow> f x)"
  using find_last_append [of f "[x]" xs] by (simp add: find_last_def map_filter_simps split: option.splits)

lemma append_plan_stuck: "fold (append_plan_step encode) es (Inl err) = Inl err"
  by (induction es) (simp_all add: append_plan_step_def)

lemma append_plan_step_Inr:
  assumes "append_plan_step encode e (Inr p) = Inr q"
  shows "encode e \<noteq> None \<and> ap_ordered_entries q = ap_ordered_entries p \<and>
    ap_serialized_entries q = ap_serialized_entries p @ the (encode e) @ [10] \<and>
    ap_entries_appended q = ap_entries_appended p @ [e] \<and>
    ap_message_count q = (if is_message_entry e then sat_add64 (ap_message_count p) 1 else ap_message_count p) \<and>
    ap_session_name q = (case session_name e of Some n \<Rightarrow> Some n | None \<Rightarrow> ap_session_name p)"
proof -
  obtain row where "encode e = Some row" using assms by (auto simp: append_plan_step_def split: option.splits)
  then show ?thesis using assms
    by (cases e) (auto simp: append_plan_step_def is_message_entry_def session_name_def split: option.splits)
qed

lemma append_plan_run:
  assumes "fold (append_plan_step encode) es (Inr p) = Inr q"
  shows "ap_ordered_entries q = ap_ordered_entries p \<and>
    ap_serialized_entries q = ap_serialized_entries p @ concat (map (\<lambda>e. the (encode e) @ [10]) es) \<and>
    ap_entries_appended q = ap_entries_appended p @ es \<and>
    ap_message_count q = count_messages es (ap_message_count p) \<and>
    ap_session_name q = latest_name es (ap_session_name p)"
  using assms
proof (induction es arbitrary: p)
  case Nil
  then show ?case by (simp add: count_messages_def latest_name_def find_last_def map_filter_simps)
next
  case (Cons e es)
  obtain p1 where p1: "append_plan_step encode e (Inr p) = Inr p1" "fold (append_plan_step encode) es (Inr p1) = Inr q"
    using Cons.prems by (cases "append_plan_step encode e (Inr p)") (auto simp: append_plan_stuck)
  have "latest_name es (case session_name e of Some n \<Rightarrow> Some n | None \<Rightarrow> n) = latest_name (e # es) n" for n
    by (simp add: latest_name_def find_last_Cons split: option.split)
  then show ?case using Cons.IH [OF p1(2)] append_plan_step_Inr [OF p1(1)] by (simp add: count_messages_def)
qed

lemma plan_merge:
  assumes "plan_jsonl_incremental_append encode disk es = Inr p"
  shows "merge_and_order encode (se_entries disk) es = Inr (ap_ordered_entries p)"
    and "ap_entries_appended p =
      filter (\<lambda>e. base_id e \<in> base_id ` set (new_rows (se_entries disk) es)) (ap_ordered_entries p)"
    and "ap_serialized_entries p = concat (map (\<lambda>e. the (encode e) @ [10]) (ap_entries_appended p))"
    and "ap_message_count p = count_messages (ap_entries_appended p) (se_cached_message_count disk)"
    and "ap_session_name p = latest_name (ap_entries_appended p) (se_cached_name disk)"
proof -
  let ?ds = "se_entries disk"
  obtain rows pending ordered where r: "persisted_rows encode ?ds bt_empty = Inr rows"
    "pending_rows encode es {} rows = Inr pending" "ensure_session_parent_links_closed (?ds @ pending) = None"
    "stable_parent_topological_order (?ds @ pending) = Inr ordered"
    "fold (append_plan_step encode) (filter (\<lambda>e. base_id e \<in> base_id ` set pending) ordered)
       (Inr \<lparr>ap_ordered_entries = ordered, ap_serialized_entries = [], ap_entries_appended = [],
             ap_message_count = se_cached_message_count disk, ap_session_name = se_cached_name disk\<rparr>) = Inr p"
    using assms by (auto simp: plan_jsonl_incremental_append_def Let_def split: sum.splits option.splits)
  have "rows_ok encode bt_empty []" by (simp add: rows_ok_def)
  from persisted_rows_run [OF r(1) this] have rows: "rows_ok encode rows (?ds @ new_rows ?ds [])" "ids_ok ?ds" by simp_all
  from pending_rows_run [OF r(2) rows] have pend: "ids_ok es" "rows_agree encode ?ds es" "pending = new_rows ?ds es" by simp_all
  note run = append_plan_run [OF r(5)]
  have "links_closed (?ds @ new_rows ?ds es)" using r(3) pend(3) links_closed_check by blast
  then show "merge_and_order encode ?ds es = Inr (ap_ordered_entries p)"
    using merge_and_order_eq [OF rows(2) pend(1,2)] r(4) run pend(3) by simp
  show "ap_entries_appended p = filter (\<lambda>e. base_id e \<in> base_id ` set (new_rows ?ds es)) (ap_ordered_entries p)"
    "ap_serialized_entries p = concat (map (\<lambda>e. the (encode e) @ [10]) (ap_entries_appended p))"
    "ap_message_count p = count_messages (ap_entries_appended p) (se_cached_message_count disk)"
    "ap_session_name p = latest_name (ap_entries_appended p) (se_cached_name disk)"
    using run pend(3) by simp_all
qed

lemma count_messages_exact:
  "length es + n \<le> u64_max \<Longrightarrow> count_messages es n = length (filter is_message_entry es) + n"
proof (induction es arbitrary: n)
  case (Cons e es)
  then show ?case using Cons.IH [of "n + 1"] Cons.IH [of n] by (auto simp: count_messages_def)
qed (simp add: count_messages_def)

lemma mset_append_cancel:
  assumes "mset os = mset (ds @ ns)" and "take (length ds) os = ds"
  shows "\<exists>rest. os = ds @ rest \<and> mset rest = mset ns"
proof -
  obtain rest where "os = ds @ rest" using assms(2) by (metis append_take_drop_id)
  then show ?thesis using assms(1) by auto
qed

text \<open>A planned append to entries in order leaves them in front and adds exactly the rows they lack.\<close>

lemma plan_extends:
  assumes "entries_ok (se_entries disk)" and "no_self_parent (se_entries disk @ new_rows (se_entries disk) es)"
    and "plan_jsonl_incremental_append encode disk es = Inr p"
  shows "ap_ordered_entries p = se_entries disk @ ap_entries_appended p" and "entries_ok (ap_ordered_entries p)"
    and "mset (ap_entries_appended p) = mset (new_rows (se_entries disk) es)"
proof -
  let ?ds = "se_entries disk" and ?ns = "new_rows (se_entries disk) es"
  note m = plan_merge [OF assms(3)]
  note ex = merge_and_order_exact(2) [OF assms(2) m(1)]
  obtain rest where rest: "ap_ordered_entries p = ?ds @ rest" "mset rest = mset ?ns"
    using mset_append_cancel ex assms(1) by metis
  have ids: "base_id ` set rest = base_id ` set ?ns" using rest(2) by (metis set_mset_mset)
  have "ap_entries_appended p = filter (\<lambda>e. base_id e \<in> base_id ` set ?ns) (?ds @ rest)" using m(2) rest(1) by simp
  moreover have "filter (\<lambda>e. base_id e \<in> base_id ` set ?ns) ?ds = []"
    by (auto simp: filter_empty_conv new_rows_def) (metis imageI)
  moreover have "filter (\<lambda>e. base_id e \<in> base_id ` set ?ns) rest = rest"
    using ids by (auto simp: filter_id_conv)
  ultimately have "ap_entries_appended p = rest" by simp
  then show "ap_ordered_entries p = ?ds @ ap_entries_appended p" and "entries_ok (ap_ordered_entries p)"
    and "mset (ap_entries_appended p) = mset ?ns" using rest ex by simp_all
qed

text \<open>A merge holds the rows of both sides, when the encoding tells apart rows of one identifier.\<close>

lemma merged_set:
  assumes "no_self_parent (des @ new_rows des es)" and "merge_and_order encode des es = Inr os"
    and "\<forall>d \<in> set des. \<forall>e \<in> set es. base_id d = base_id e \<longrightarrow> encode d = encode e \<longrightarrow> d = e"
  shows "set os = set des \<union> set es" and "entries_ok os"
proof -
  note c = merge_and_order_Inr [OF assms(2)] and ex = merge_and_order_exact(2) [OF assms(1,2)]
  have "e \<in> set des" if "e \<in> set es" "base_id e \<in> base_id ` set des" for e
    using that c assms(3) unfolding rows_agree_def by (metis imageE)
  then have "set (des @ new_rows des es) = set des \<union> set es" by (auto simp: new_rows_def)
  then show "set os = set des \<union> set es" and "entries_ok os" using ex by (metis set_mset_mset)+
qed

text \<open>A session that takes over entries with all its own among them keeps its leaf and its current path.\<close>

lemma accepted_keeps_path:
  assumes "session_ok s" and "se_leaf_id s \<noteq> None" and "entries_ok os" and "set (se_entries s) \<subseteq> set os"
  obtains t where "accept_persisted_state digest h os s = Some t" and "session_ok t" and "se_entries t = os"
    and "se_leaf_id t = se_leaf_id s" and "entries_for_current_path t = entries_for_current_path s"
proof -
  obtain t where t: "accept_persisted_state digest h os s = Some t" "session_ok t" "se_entries t = os"
    "se_leaf_id t = (if se_leaf_id s \<noteq> None \<and> leaf_ok os (se_leaf_id s) then se_leaf_id s else tip_id os)"
    using accept_ok [OF assms(3), of digest h s] by metis
  have "leaf_ok (se_entries s) (se_leaf_id s)" using assms(1) by (simp add: session_ok_def)
  then have "leaf_ok os (se_leaf_id s)" using assms(4) by (auto simp: leaf_ok_def)
  then have leaf: "se_leaf_id t = se_leaf_id s" using t(4) assms(2) by simp
  have "up_path os (se_leaf_id s) (rev (entries_for_current_path s))"
    using up_path_mono [OF path_is_up_path [OF assms(1)] assms(4)] .
  then have "entries_for_current_path t = entries_for_current_path s"
    using path_unique [OF t(2)] t(3) leaf by simp
  then show thesis using that t(1-3) leaf by blast
qed

section \<open>Properties\<close>

text \<open>
  C27: A full rewrite of the session file loses nothing, and what it refuses is exact. Given the
  entries read from the file and those in memory, it succeeds if and only if on both sides all
  identifiers are present and distinct, entries with one identifier have the same encoding,
  every parent exists and no set of entries is closed under taking parents (a cycle), except that a
  file of one entry which is its own parent is accepted. The result holds each entry of the
  file and each new one of memory exactly once, every parent before its children when there is no
  cycle, and leaves a file that already has this order untouched in front.
\<close>

theorem full_rewrite_exact:
  assumes "hd_id dh = hd_id h"
  shows "((\<exists>r. prepare_jsonl_full_rewrite encode (Inr (Some (dh, des))) h es dirty = Inr r) \<longleftrightarrow>
      ids_ok des \<and> ids_ok es \<and> rows_agree encode des es \<and> links_closed (des @ new_rows des es) \<and>
      (has_cycle (des @ new_rows des es) \<longrightarrow> length (des @ new_rows des es) = 1)) \<and>
    (\<forall>h' os. prepare_jsonl_full_rewrite encode (Inr (Some (dh, des))) h es dirty = Inr (h', os) \<longrightarrow>
      h' = (if dirty then h else dh) \<and> mset os = mset (des @ new_rows des es) \<and>
      (\<not> has_cycle (des @ new_rows des es) \<longrightarrow> entries_ok os) \<and>
      (entries_ok des \<longrightarrow> take (length des) os = des))"
proof -
  have eq: "prepare_jsonl_full_rewrite encode (Inr (Some (dh, des))) h es dirty =
      map_sum id (Pair (if dirty then h else dh)) (merge_and_order encode des es)"
    using assms by (simp add: prepare_jsonl_full_rewrite_def)
  have "(\<exists>r. map_sum id (Pair x) y = Inr r) \<longleftrightarrow> (\<exists>os. y = Inr os)"
    and "map_sum id (Pair x) y = Inr (h', os) \<longleftrightarrow> x = h' \<and> y = Inr os" for x h' :: session_header and y :: "save_error + session_entry list" and os
    by (cases y; auto)+
  then show ?thesis
    unfolding eq using merge_and_order_outcome [of encode] by auto
qed

text \<open>
  Appending rows to the file agrees with rewriting it. If the session read from the file is sound
  and the append is planned, then the bytes to write are the encodings, one per line, of
  exactly the entries that the file lacks; reading the file afterwards gives the planned
  entries, which are those that a full rewrite would have written, sound and in order; and
  the message count and the name that are reported to the index are those of the new file.
\<close>

theorem incremental_append_exact:
  assumes "session_ok disk" and "no_self_parent (se_entries disk @ new_rows (se_entries disk) es)"
    and "plan_jsonl_incremental_append encode disk es = Inr p"
  shows "ap_ordered_entries p = se_entries disk @ ap_entries_appended p \<and> entries_ok (ap_ordered_entries p) \<and>
    mset (ap_entries_appended p) = mset (new_rows (se_entries disk) es) \<and>
    ap_serialized_entries p = concat (map (\<lambda>e. the (encode e) @ [10]) (ap_entries_appended p)) \<and>
    prepare_jsonl_full_rewrite encode (Inr (Some (se_header disk, se_entries disk))) (se_header disk) es False =
      Inr (se_header disk, ap_ordered_entries p) \<and>
    (length (ap_ordered_entries p) + se_message_count_offset disk \<le> u64_max \<longrightarrow>
      ap_message_count p = length (filter is_message_entry (ap_ordered_entries p)) + se_message_count_offset disk) \<and>
    ap_session_name p = find_last session_name (ap_ordered_entries p)"
proof -
  let ?ds = "se_entries disk" and ?ns = "new_rows (se_entries disk) es"
  note m = plan_merge [OF assms(3)]
  have eo: "entries_ok ?ds" using assms(1) by (simp add: session_ok_def)
  note ext = plan_extends [OF eo assms(2,3)]
  define rest where "rest = ap_entries_appended p"
  have rest: "ap_ordered_entries p = ?ds @ rest" "mset rest = mset ?ns" using ext by (simp_all add: rest_def)
  have app: "ap_entries_appended p = rest" by (simp add: rest_def)
  have "prepare_jsonl_full_rewrite encode (Inr (Some (se_header disk, ?ds))) (se_header disk) es False =
      Inr (se_header disk, ap_ordered_entries p)"
    using m(1) by (simp add: prepare_jsonl_full_rewrite_def)
  moreover have "ap_message_count p = length (filter is_message_entry (ap_ordered_entries p)) + se_message_count_offset disk"
    if "length (ap_ordered_entries p) + se_message_count_offset disk \<le> u64_max"
  proof -
    have "se_cached_message_count disk = length (filter is_message_entry ?ds) + se_message_count_offset disk"
      using assms(1) that rest(1) by (simp add: session_ok_def)
    moreover have "length (filter is_message_entry ?ds) \<le> length ?ds" by simp
    ultimately have "length rest + se_cached_message_count disk \<le> u64_max"
      using that by (simp only: rest(1) length_append)
    from count_messages_exact [OF this] show ?thesis
      using m(4) app rest(1) \<open>se_cached_message_count disk = _\<close> by simp
  qed
  moreover have "ap_session_name p = find_last session_name (ap_ordered_entries p)"
    using m(5) app rest(1) assms(1) by (simp add: latest_name_def find_last_append session_ok_def split: option.split)
  ultimately show ?thesis using rest app ext(2) m(3) by blast
qed

text \<open>
  C28: The check of the entry graph always ends, although its loop has no bound of its own, and it
  passes exactly the lists in which identifiers are present and distinct, every parent exists
  and there is no cycle.
\<close>

theorem entry_graph_check_exact:
  assumes "length es \<le> u64_max"
  shows "\<exists>r. validate_session_entry_graph es = Some r \<and>
    (r = None \<longleftrightarrow> ids_ok es \<and> links_closed es \<and> \<not> has_cycle es)"
proof (cases "ids_ok es")
  case False
  then obtain err where "positions_from EntryMissingId DuplicateId 0 es bt_empty = Inl err"
    using positions_from_iff(1) by (metis sum.exhaust)
  then show ?thesis using False by (simp add: validate_session_entry_graph_def)
next
  case True
  then obtain m where m: "positions_from EntryMissingId DuplicateId 0 es bt_empty = Inr m"
    using positions_from_iff(1) by blast
  note idx = positions_from_iff(2) [OF m]
  define pars where "pars = map (parent_index m) es"
  have par: "parents_of es pars" using parents_of_map [OF idx] by (simp add: pars_def)
  have miss: "parent_id e \<noteq> None \<and> parent_index m e = None \<longleftrightarrow> \<not> (parent_id e \<noteq> None \<longrightarrow> parent_id e \<in> base_id ` set es)" for e
    using index_ok_contains [OF idx, of "the (parent_id e)"] by (cases "parent_id e") (auto simp: parent_index_def)
  show ?thesis
  proof (cases "links_closed es")
    case False
    then have "find (\<lambda>e. parent_id e \<noteq> None \<and> parent_index m e = None) es \<noteq> None"
      unfolding miss links_closed_def find_None_ball by blast
    then obtain e where "find (\<lambda>e. parent_id e \<noteq> None \<and> parent_index m e = None) es = Some e" by blast
    then show ?thesis using False m by (simp add: validate_session_entry_graph_def)
  next
    case lc: True
    then have nf: "find (\<lambda>e. parent_id e \<noteq> None \<and> parent_index m e = None) es = None"
      unfolding miss find_None_ball links_closed_def by blast
    have "set (rev (ready_start (indegree_table pars))) = ready_set pars []"
      by (simp add: ready_start_set)
    moreover have "distinct (rev (ready_start (indegree_table pars)))" by (simp add: ready_start_def)
    moreover have "length pars \<le> u64_max" using assms by (simp add: pars_def)
    ultimately obtain ord where ord: "visit_loop (children_table pars) (indegree_table pars)
        (rev (ready_start (indegree_table pars))) 0 = Some (length ord)" "taken_ok pars ord" "ready_set pars ord = {}"
      using visit_loop_run [OF taken_ok_Nil, of "rev (ready_start (indegree_table pars))" pars]
      by (auto simp: degree_of_start)
    have "length ord = length es \<longleftrightarrow> \<not> has_cycle es"
      using complete_order_iff [OF parents_of_bound [OF par] ord(2,3)] closed_cycle_iff [OF par] par
      by (simp add: parents_of_def)
    then show ?thesis
      using m nf ord(1) True lc by (auto simp: validate_session_entry_graph_def Let_def pars_def)
  qed
qed

text \<open>
  A merge that succeeds for a session with a leaf has no entry that is its own parent: it would be the
  only entry, hence the leaf's.
\<close>

lemma saved_no_self_parent:
  assumes "entries_ok es" and "es \<noteq> []" and "merge_and_order encode des es = Inr os"
    and "\<forall>d \<in> set des. \<forall>e \<in> set es. base_id d = base_id e \<longrightarrow> encode d = encode e \<longrightarrow> d = e"
  shows "no_self_parent (des @ new_rows des es)"
proof (rule ccontr)
  let ?m = "des @ new_rows des es"
  assume bad: "\<not> no_self_parent ?m"
  have good: "no_self_parent es" by (rule entries_ok_no_self [OF assms(1)])
  have "length ?m = 1"
    using merge_and_order_outcome(1) [of encode des es] self_parent_cycle [OF bad] assms(3) by blast
  moreover obtain x where x: "x \<in> set ?m" "parent_id x \<noteq> None" "parent_id x = base_id x"
    using bad unfolding no_self_parent_def by blast
  ultimately have only: "?m = [x]" by (cases ?m) auto
  obtain e where e: "e \<in> set es" using assms(2) by (cases es) auto
  have "e \<noteq> x" using good e x by (auto simp: no_self_parent_def)
  then have "e \<notin> set (new_rows des es)" using only by (auto simp: append_eq_Cons_conv)
  then obtain d where d: "d \<in> set des" "base_id d = base_id e" using e by (auto simp: new_rows_def)
  moreover have "encode d = encode e"
    using merge_and_order_Inr [OF assms(3)] d e by (auto simp: rows_agree_def)
  ultimately have "d = e" using assms(4) e by blast
  then show False using d only \<open>e \<noteq> x\<close> by (metis Un_iff empty_iff insert_iff list.set(1,2) set_append)
qed

text \<open>
  C7: A save keeps the conversation. Take any reachable session, a file that other processes may
  have extended, and an encoding that tells apart two entries of one identifier; when the session
  has no leaf, assume that no entry of the file is its own parent. If the full rewrite succeeds and
  the session takes over its result, the session is sound again and holds every entry of the
  file and every entry it had. If its leaf was set, the leaf and the entries of its current path
  are unchanged, in their order; if no leaf was set, as after \<open>reset_leaf\<close>, the save selects the last
  entry.
\<close>

theorem save_keeps_conversation:
  assumes "reachable digest s" and "se_leaf_id s = None \<longrightarrow> no_self_parent des"
    and "\<forall>d \<in> set des. \<forall>e \<in> set (se_entries s). base_id d = base_id e \<longrightarrow> encode d = encode e \<longrightarrow> d = e"
    and "prepare_jsonl_full_rewrite encode (Inr (Some (dh, des))) (se_header s) (se_entries s) dirty = Inr (h', os)"
  shows "\<exists>t. accept_persisted_state digest h' os s = Some t \<and> session_ok t \<and>
    set (se_entries t) = set des \<union> set (se_entries s) \<and>
    (if se_leaf_id s = None then se_leaf_id t = tip_id os
     else se_leaf_id t = se_leaf_id s \<and> entries_for_current_path t = entries_for_current_path s)"
proof -
  let ?es = "se_entries s"
  have ok: "session_ok s" by (rule reachable_ok [OF assms(1)])
  then have eo: "entries_ok ?es" "leaf_ok ?es (se_leaf_id s)" by (simp_all add: session_ok_def)
  have r: "merge_and_order encode des ?es = Inr os"
    using assms(4) by (cases "merge_and_order encode des ?es")
      (auto simp: prepare_jsonl_full_rewrite_def split: if_splits)
  have ns: "no_self_parent (des @ new_rows des ?es)"
  proof (cases "se_leaf_id s")
    case None
    then show ?thesis
      using assms(2) entries_ok_no_self [OF eo(1)] by (auto simp: no_self_parent_def new_rows_def)
  next
    case (Some l)
    then have "?es \<noteq> []" using eo(2) by (auto simp: leaf_ok_def)
    then show ?thesis using saved_no_self_parent [OF eo(1) _ r assms(3)] by blast
  qed
  note os = merged_set [OF ns r assms(3)]
  show ?thesis
  proof (cases "se_leaf_id s")
    case None
    then show ?thesis using accept_ok [OF os(2), of digest h' s] os(1) by metis
  next
    case (Some l)
    then have leaf: "se_leaf_id s \<noteq> None" by simp
    have "set ?es \<subseteq> set os" using os(1) by simp
    from accepted_keeps_path [OF ok leaf os(2) this, of digest h'] show ?thesis using leaf os(1) by metis
  qed
qed

text \<open>
  The ordering returns a list of one entry as it is, so an entry that is its own parent passes the
  rewrite, which refuses every longer cycle, while the check of the entry graph refuses it.
\<close>

theorem single_cycle_is_saved:
  assumes "base_id e = Some i" and "parent_id e = Some i"
  shows "prepare_jsonl_full_rewrite encode (Inr None) h [e] dirty = Inr (h, [e]) \<and>
    validate_session_entry_graph [e] = Some (Some ParentCycle)"
proof -
  have "visit_loop (children_table [Some 0]) (indegree_table [Some 0]) (rev (ready_start (indegree_table [Some 0]))) 0 = Some 0"
    by (simp add: visit_loop.simps ready_start_def indegree_table_def)
  then have "validate_session_entry_graph [e] = Some (Some ParentCycle)"
    using assms by (simp add: validate_session_entry_graph_def parent_index_def)
  moreover have "prepare_jsonl_full_rewrite encode (Inr None) h [e] dirty = Inr (h, [e])"
    using assms by (simp add: prepare_jsonl_full_rewrite_def merge_and_order_def ensure_session_parent_links_closed_def
        entry_id_set_def map_filter_simps stable_parent_topological_order_def)
  ultimately show ?thesis by blast
qed

section \<open>Witnesses\<close>

text \<open>A file with one entry, and a child of it in memory; the encoding spells out the identifier.\<close>

definition root_row :: session_entry where
  "root_row = MessageEntry (entry_base_new (lit ''now'') None (lit ''a'')) demo_message"

definition child_row :: session_entry where
  "child_row = SessionInfoEntry (entry_base_new (lit ''now'') (Some (lit ''a'')) (lit ''b'')) (Some (lit ''n''))"

definition demo_encode :: encoder where
  "demo_encode e = base_id e"

lemma demo_rows [simp]:
  "base_id root_row = Some (lit ''a'')" "parent_id root_row = None"
  "base_id child_row = Some (lit ''b'')" "parent_id child_row = Some (lit ''a'')"
  "lit ''a'' \<noteq> lit ''b''" "lit ''b'' \<noteq> lit ''a''"
  by (simp_all add: root_row_def child_row_def base_id_def parent_id_def entry_base_new_def lit_def)

lemma demo_merge: "new_rows [root_row] [root_row, child_row] = [child_row]"
  by (simp add: new_rows_def)

lemma demo_no_cycle: "\<not> has_cycle [root_row, child_row]"
  unfolding has_cycle_def
proof (intro notI)
  assume "\<exists>S. S \<noteq> {} \<and> S \<subseteq> set [root_row, child_row] \<and> (\<forall>e \<in> S. parent_id e \<noteq> None \<and> (\<exists>p \<in> S. base_id p = parent_id e))"
  then obtain S where S: "S \<noteq> {}" "S \<subseteq> {root_row, child_row}" "\<forall>e \<in> S. parent_id e \<noteq> None \<and> (\<exists>p \<in> S. base_id p = parent_id e)"
    by auto
  have "root_row \<notin> S" using S(3) demo_rows(2) by blast
  then have "S = {child_row}" using S(1,2) by blast
  then show False using S(3) by simp
qed

theorem full_rewrite_exact_witness:
  "\<exists>h' os. prepare_jsonl_full_rewrite demo_encode (Inr (Some (se_header demo_session, [root_row]))) (se_header demo_session)
     [root_row, child_row] True = Inr (h', os) \<and> entries_ok os \<and> mset os = {#root_row, child_row#}"
proof -
  note ex = full_rewrite_exact [OF refl, of demo_encode "se_header demo_session" "[root_row]" "[root_row, child_row]" True]
  have "ids_ok [root_row] \<and> ids_ok [root_row, child_row] \<and> rows_agree demo_encode [root_row] [root_row, child_row] \<and>
      links_closed [root_row, child_row]"
    by (simp add: ids_ok_def rows_agree_def links_closed_def demo_encode_def)
  then obtain h' os where r: "prepare_jsonl_full_rewrite demo_encode (Inr (Some (se_header demo_session, [root_row])))
      (se_header demo_session) [root_row, child_row] True = Inr (h', os)"
    using ex demo_no_cycle by (auto simp: demo_merge)
  then have "entries_ok os \<and> mset os = {#root_row, child_row#}" using ex demo_no_cycle by (auto simp: demo_merge)
  then show ?thesis using r by blast
qed

lemma demo_disk: "session_ok demo_session" "se_entries demo_session = [root_row]"
  using reachable_ok [OF demo_reachable [of "\<lambda>e n. []"]] by (simp_all add: demo_entries root_row_def)

theorem incremental_append_exact_witness:
  "\<exists>p. plan_jsonl_incremental_append demo_encode demo_session [child_row] = Inr p \<and>
     ap_ordered_entries p = [root_row, child_row] \<and> ap_serialized_entries p = lit ''b'' @ [10] \<and>
     ap_session_name p = Some (lit ''n'')"
proof -
  have nr: "new_rows [root_row] [child_row] = [child_row]" by (simp add: new_rows_def)
  have "no_self_parent (se_entries demo_session @ new_rows (se_entries demo_session) [child_row])"
    by (simp add: demo_disk nr no_self_parent_def)
  note ex = incremental_append_exact [OF demo_disk(1) this, of demo_encode]
  have lc: "ensure_session_parent_links_closed [root_row, child_row] = None"
    by (simp add: links_closed_check links_closed_def)
  have "\<exists>os. stable_parent_topological_order [root_row, child_row] = Inr os"
    using stable_order_exact(1) [of "[root_row, child_row]"] demo_no_cycle
    by (simp add: ids_ok_def links_closed_def no_self_parent_def)
  then obtain os where os: "stable_parent_topological_order [root_row, child_row] = Inr os" ..
  have total: "\<exists>p. fold (append_plan_step demo_encode) fs (Inr q) = Inr p" if "\<forall>e \<in> set fs. base_id e \<noteq> None" for fs q
    using that
    by (induction fs arbitrary: q) (auto simp: append_plan_step_def demo_encode_def Let_def)
  obtain p where "fold (append_plan_step demo_encode) (filter (\<lambda>e. base_id e = Some (lit ''b'')) os)
      (Inr \<lparr>ap_ordered_entries = os, ap_serialized_entries = [], ap_entries_appended = [],
            ap_message_count = se_cached_message_count demo_session, ap_session_name = se_cached_name demo_session\<rparr>) = Inr p"
    using total [of "filter (\<lambda>e. base_id e = Some (lit ''b'')) os"] by auto
  moreover have "length (lit ''b'') \<le> MAX_JSONL_LINE_BYTES" by (simp add: lit_def MAX_JSONL_LINE_BYTES_def)
  ultimately have p: "plan_jsonl_incremental_append demo_encode demo_session [child_row] = Inr p"
    using os lc by (simp add: plan_jsonl_incremental_append_def demo_disk demo_encode_def)
  note e = ex [OF p]
  have app: "ap_entries_appended p = [child_row]" using e by (simp add: demo_disk nr)
  have "ap_ordered_entries p = [root_row, child_row]" using e by (simp add: demo_disk app)
  moreover have "ap_serialized_entries p = lit ''b'' @ [10]" using e by (simp add: app demo_encode_def)
  moreover have "ap_session_name p = Some (lit ''n'')"
    using e \<open>ap_ordered_entries p = [root_row, child_row]\<close>
    by (simp add: find_last_def map_filter_simps session_name_def child_row_def)
  ultimately show ?thesis using p by blast
qed

theorem entry_graph_check_exact_witness:
  "validate_session_entry_graph [root_row, child_row] = Some None"
proof -
  have "length [root_row, child_row] \<le> u64_max" by (simp add: u64_max_def)
  from entry_graph_check_exact [OF this] show ?thesis
    using demo_no_cycle by (auto simp: ids_ok_def links_closed_def)
qed

theorem save_keeps_conversation_witness:
  "\<exists>h' os t. prepare_jsonl_full_rewrite demo_encode (Inr (Some (se_header demo_session, [root_row, child_row])))
       (se_header demo_session) (se_entries demo_session) False = Inr (h', os) \<and>
     accept_persisted_state (\<lambda>e n. []) h' os demo_session = Some t \<and>
     entries_for_current_path t = entries_for_current_path demo_session \<and> child_row \<in> set (se_entries t)"
proof -
  have nr: "new_rows [root_row, child_row] [root_row] = []" by (simp add: new_rows_def)
  have ns: "no_self_parent [root_row, child_row]" by (simp add: no_self_parent_def)
  have "\<exists>os. merge_and_order demo_encode [root_row, child_row] [root_row] = Inr os"
    using merge_and_order_exact(1) [of "[root_row, child_row]" "[root_row]" demo_encode] demo_no_cycle ns nr
    by (simp add: ids_ok_def links_closed_def rows_agree_def demo_encode_def)
  then obtain os where r: "prepare_jsonl_full_rewrite demo_encode (Inr (Some (se_header demo_session, [root_row, child_row])))
       (se_header demo_session) (se_entries demo_session) False = Inr (se_header demo_session, os)"
    by (auto simp: prepare_jsonl_full_rewrite_def demo_disk)
  have "\<forall>d \<in> set [root_row, child_row]. \<forall>e \<in> set (se_entries demo_session).
      base_id d = base_id e \<longrightarrow> demo_encode d = demo_encode e \<longrightarrow> d = e" by (simp add: demo_disk)
  from save_keeps_conversation [OF demo_reachable [of "\<lambda>e n. []"] _ this r] r ns show ?thesis
    by (auto simp: demo_entries)
qed

end
