(* ===== verification/Session_Flush.thy ===== *)
theory Session_Flush
  imports Session_Save
begin

text \<open>
  The save of a session as the rest of the program calls it (\<open>save\<close>, \<open>flush_autosave\<close>, \<open>save_inner\<close>,
  \<open>should_full_rewrite\<close> and the two writers of \<open>src/src/session.rs\<close>): the header is repaired and checked,
  the file is rewritten or extended, and the session takes over what was written. The session is one
  that was loaded in full and is kept in a JSONL file; the SQLite store and the loading of the missing
  entries of a partly loaded session are not modelled. What the file system answers is an argument, as
  are the encodings of the header and of the entries.
\<close>

section \<open>The surroundings of a save\<close>

datatype flush_error =
    SaveRefused save_error
  | InvalidHeader header_error
  | CorruptBeforeTail
  | IoError ustr

text \<open>
  A time at the start and at the end of the flush; a UUID; the errors of the path, of the directory and
  of the access to the file, if there is one; whether the file is known to be gone; the number of appends since the
  last rewrite with its limit; what opening the file under the lock gives (nothing, when there is no
  file), whether it ends with a newline, the lines that were skipped as corrupt and the number of the
  last line; and the error of the write, if there is one.
\<close>

record save_env =
  sv_begin_at :: nat
  sv_end_at :: nat
  sv_uuid :: ustr
  sv_resolve :: "ustr option"
  sv_directory :: "ustr option"
  sv_access :: "ustr option"
  sv_missing :: bool
  sv_appends_since_checkpoint :: u64
  sv_checkpoint_interval :: u64
  sv_opened :: "save_error + session option"
  sv_ends_with_newline :: "ustr + bool"
  sv_skipped_lines :: "nat list"
  sv_terminal_line :: nat
  sv_write :: "ustr option"
  sv_encode_header :: "session_header \<Rightarrow> nat list option"
  sv_encode :: encoder

section \<open>The writers\<close>

definition validate_jsonl_value_for_write :: "nat list option \<Rightarrow> save_error option" where
  "validate_jsonl_value_for_write row =
     (case row of
        None \<Rightarrow> Some EncodeFailed
      | Some bytes \<Rightarrow> if length bytes > MAX_JSONL_LINE_BYTES then Some LineTooLong else None)"

fun validate_jsonl_entries_for_write :: "encoder \<Rightarrow> session_entry list \<Rightarrow> save_error option" where
  "validate_jsonl_entries_for_write encode [] = None"
| "validate_jsonl_entries_for_write encode (e # es) =
     (case validate_jsonl_value_for_write (encode e) of
        Some err \<Rightarrow> Some err
      | None \<Rightarrow> validate_jsonl_entries_for_write encode es)"

definition validate_jsonl_full_rewrite_lines :: "save_env \<Rightarrow> session_header \<Rightarrow> session_entry list \<Rightarrow> save_error option" where
  "validate_jsonl_full_rewrite_lines sv h es =
     (case validate_jsonl_value_for_write (sv_encode_header sv h) of
        Some err \<Rightarrow> Some err
      | None \<Rightarrow> validate_jsonl_entries_for_write (sv_encode sv) es)"

definition persist_jsonl_snapshot_locked :: "save_env \<Rightarrow> session_header \<Rightarrow> session_entry list \<Rightarrow> flush_error option" where
  "persist_jsonl_snapshot_locked sv h es =
     (case validate_jsonl_full_rewrite_lines sv h es of
        Some err \<Rightarrow> Some (SaveRefused err)
      | None \<Rightarrow> map_option IoError (sv_write sv))"

definition validate_unterminated_jsonl_rewrite_scope :: "save_env \<Rightarrow> flush_error option" where
  "validate_unterminated_jsonl_rewrite_scope sv =
     (if sv_skipped_lines sv = [] \<or> sv_skipped_lines sv = [sv_terminal_line sv] then None else Some CorruptBeforeTail)"

definition save_jsonl_full_rewrite_blocking :: "save_env \<Rightarrow> session_header \<Rightarrow> session_entry list \<Rightarrow> bool \<Rightarrow>
  flush_error + (session_header \<times> session_entry list)" where
  "save_jsonl_full_rewrite_blocking sv h es header_dirty =
     (case validate_jsonl_full_rewrite_lines sv h es of
        Some err \<Rightarrow> Inl (SaveRefused err)
      | None \<Rightarrow>
          (case sv_access sv of
             Some err \<Rightarrow> Inl (IoError err)
           | None \<Rightarrow>
               (case prepare_jsonl_full_rewrite (sv_encode sv)
                       (map_sum id (map_option (\<lambda>d. (se_header d, se_entries d))) (sv_opened sv)) h es header_dirty of
                  Inl err \<Rightarrow> Inl (SaveRefused err)
                | Inr (header_to_write, entries_to_write) \<Rightarrow>
                    (case persist_jsonl_snapshot_locked sv header_to_write entries_to_write of
                       Some err \<Rightarrow> Inl err
                     | None \<Rightarrow> Inr (header_to_write, entries_to_write)))))"

text \<open>The rows a planned append leaves in the file: a file whose last line is torn is rewritten.\<close>

definition write_append_plan :: "save_env \<Rightarrow> session \<Rightarrow> append_plan \<Rightarrow> flush_error + session_entry list" where
  "write_append_plan sv disk p =
     (if ap_serialized_entries p = [] then Inr (se_entries disk @ ap_entries_appended p)
      else case sv_ends_with_newline sv of
             Inl err \<Rightarrow> Inl (IoError err)
           | Inr True \<Rightarrow>
               (case sv_write sv of
                  Some err \<Rightarrow> Inl (IoError err)
                | None \<Rightarrow> Inr (se_entries disk @ ap_entries_appended p))
           | Inr False \<Rightarrow>
               (case validate_unterminated_jsonl_rewrite_scope sv of
                  Some err \<Rightarrow> Inl err
                | None \<Rightarrow>
                    (case persist_jsonl_snapshot_locked sv (se_header disk) (ap_ordered_entries p) of
                       Some err \<Rightarrow> Inl err
                     | None \<Rightarrow> Inr (ap_ordered_entries p))))"

definition append_jsonl_entries_blocking :: "save_env \<Rightarrow> ustr \<Rightarrow> session_entry list \<Rightarrow>
  flush_error + (session_header \<times> session_entry list)" where
  "append_jsonl_entries_blocking sv expected_session_id new_entries =
     (case validate_jsonl_entries_for_write (sv_encode sv) new_entries of
        Some err \<Rightarrow> Inl (SaveRefused err)
      | None \<Rightarrow>
          (case sv_access sv of
             Some err \<Rightarrow> Inl (IoError err)
           | None \<Rightarrow>
               (case sv_opened sv of
                  Inl err \<Rightarrow> Inl (SaveRefused err)
                | Inr None \<Rightarrow> Inl (SaveRefused OpenFailed)
                | Inr (Some disk) \<Rightarrow>
                    if hd_id (se_header disk) \<noteq> expected_session_id then Inl (SaveRefused HeaderIdMismatch)
                    else
                      (case plan_jsonl_incremental_append (sv_encode sv) disk new_entries of
                         Inl err \<Rightarrow> Inl (SaveRefused err)
                       | Inr p \<Rightarrow> map_sum id (Pair (se_header disk)) (write_append_plan sv disk p)))))"

section \<open>The save\<close>

definition should_full_rewrite :: "save_env \<Rightarrow> session \<Rightarrow> bool" where
  "should_full_rewrite sv s =
     (se_persisted_entry_count s = 0 \<or> sv_missing sv \<or> se_header_dirty s \<or>
      sv_appends_since_checkpoint sv \<ge> sv_checkpoint_interval sv \<or>
      se_persisted_entry_count s > length (se_entries s))"

text \<open>The header before the write: an identifier, if it has none, and the leaf when it is not the last entry.\<close>

definition repair_header :: "save_env \<Rightarrow> session \<Rightarrow> session" where
  "repair_header sv s =
     (let s1 = (if trim (hd_id (se_header s)) = []
                then s\<lparr>se_header := (se_header s)\<lparr>hd_id := sv_uuid sv\<rparr>, se_header_dirty := True\<rparr> else s);
          desired = persisted_leaf_override s1
      in if hd_current_leaf (se_header s1) \<noteq> desired
         then s1\<lparr>se_header := (se_header s1)\<lparr>hd_current_leaf := desired\<rparr>, se_header_dirty := True\<rparr> else s1)"

text \<open>The write to the JSONL file; the error and the session that is left.\<close>

definition save_jsonl :: "(session_entry \<Rightarrow> nat \<Rightarrow> ustr) \<Rightarrow> save_env \<Rightarrow> session \<Rightarrow> (flush_error option \<times> session) option" where
  "save_jsonl digest sv s =
     (if should_full_rewrite sv s then
        (case save_jsonl_full_rewrite_blocking sv (se_header s) (se_entries s) (se_header_dirty s) of
           Inl err \<Rightarrow> Some (Some err, s)
         | Inr (saved_header, saved_entries) \<Rightarrow>
             map_option (\<lambda>t. (None, t\<lparr>se_header_dirty := False\<rparr>))
               (accept_persisted_state digest saved_header saved_entries s))
      else if se_persisted_entry_count s < length (se_entries s) then
        (case append_jsonl_entries_blocking sv (hd_id (se_header s)) (drop (se_persisted_entry_count s) (se_entries s)) of
           Inl err \<Rightarrow> Some (Some err, s)
         | Inr (saved_header, saved_entries) \<Rightarrow>
             map_option (Pair None) (accept_persisted_state digest saved_header saved_entries s))
      else Some (None, s))"

text \<open>\<open>None\<close> stands for a save that does not return.\<close>

definition save_inner :: "(session_entry \<Rightarrow> nat \<Rightarrow> ustr) \<Rightarrow> save_env \<Rightarrow> session \<Rightarrow> (flush_error option \<times> session) option" where
  "save_inner digest sv s =
     (case ensure_entry_ids digest s of
        None \<Rightarrow> None
      | Some s1 \<Rightarrow>
          (case sv_resolve sv of
             Some err \<Rightarrow> Some (Some (IoError err), s1)
           | None \<Rightarrow>
               let s2 = repair_header sv s1 in
               (case header_validate (se_header s2) of
                  Some err \<Rightarrow> Some (Some (InvalidHeader err), s2)
                | None \<Rightarrow>
                    (case sv_directory sv of
                       Some err \<Rightarrow> Some (Some (IoError err), s2)
                     | None \<Rightarrow> save_jsonl digest sv s2))))"

definition session_save :: "(session_entry \<Rightarrow> nat \<Rightarrow> ustr) \<Rightarrow> save_env \<Rightarrow> session \<Rightarrow> (flush_error option \<times> session) option" where
  "session_save digest sv s =
     (case begin_flush (sv_begin_at sv) Manual (se_autosave s) of
        (ticket, q) \<Rightarrow>
          map_option (\<lambda>(err, t).
              (err, case ticket of
                      None \<Rightarrow> t
                    | Some k \<Rightarrow> t\<lparr>se_autosave := finish_flush (sv_end_at sv) k (err = None) (se_autosave t)\<rparr>))
            (save_inner digest sv (s\<lparr>se_autosave := q\<rparr>)))"

definition session_flush :: "(session_entry \<Rightarrow> nat \<Rightarrow> ustr) \<Rightarrow> save_env \<Rightarrow> flush_trigger \<Rightarrow> session \<Rightarrow>
  (flush_error option \<times> session) option" where
  "session_flush digest sv trigger s =
     (case begin_flush (sv_begin_at sv) trigger (se_autosave s) of
        (None, q) \<Rightarrow> Some (None, s\<lparr>se_autosave := q\<rparr>)
      | (Some k, q) \<Rightarrow>
          map_option (\<lambda>(err, t).
              (err, t\<lparr>se_autosave := finish_flush (sv_end_at sv) k (err = None) (se_autosave t)\<rparr>))
            (save_inner digest sv (s\<lparr>se_autosave := q\<rparr>)))"

section \<open>What a save keeps\<close>

text \<open>
  The session before and after: sound again, with the same leaf and the same current path. A save keeps
  them whether it succeeds or not.
\<close>

definition same_conversation :: "session \<Rightarrow> session \<Rightarrow> bool" where
  "same_conversation s t \<longleftrightarrow> session_ok t \<and> se_leaf_id t = se_leaf_id s \<and>
     entries_for_current_path t = entries_for_current_path s"

text \<open>
  A file that was only extended since the session last saved: its rows are in order, the rows
  the session wrote are there, and the encoding tells apart two rows of one identifier.
\<close>

definition file_agrees :: "encoder \<Rightarrow> session \<Rightarrow> session \<Rightarrow> bool" where
  "file_agrees encode disk s \<longleftrightarrow> entries_ok (se_entries disk) \<and>
     set (take (se_persisted_entry_count s) (se_entries s)) \<subseteq> set (se_entries disk) \<and>
     (\<forall>d \<in> set (se_entries disk). \<forall>e \<in> set (se_entries s). base_id d = base_id e \<longrightarrow> encode d = encode e \<longrightarrow> d = e)"

definition files_agree :: "save_env \<Rightarrow> session \<Rightarrow> bool" where
  "files_agree sv s \<longleftrightarrow> (\<forall>disk. sv_opened sv = Inr (Some disk) \<longrightarrow> file_agrees (sv_encode sv) disk s)"

lemma same_conversation_trans:
  "same_conversation s t \<Longrightarrow> same_conversation t u \<Longrightarrow> same_conversation s u"
  by (simp add: same_conversation_def)

lemma same_tree_conversation:
  assumes "session_ok s" and "se_entries t = se_entries s" and "se_leaf_id t = se_leaf_id s" and "session_ok t"
  shows "same_conversation s t"
  using assms path_unique [OF assms(4), of "rev (entries_for_current_path s)"] path_is_up_path [OF assms(1)]
  by (simp add: same_conversation_def)

lemma same_conversation_frame:
  assumes "session_ok s"
  shows "same_conversation s s" and "same_conversation s (s\<lparr>se_header := h\<rparr>)" and "same_conversation s (s\<lparr>se_header_dirty := d\<rparr>)"
    and "same_conversation s (s\<lparr>se_autosave := q\<rparr>)"
  using assms by (auto intro: same_tree_conversation)

lemma repair_header_tree:
  "se_entries (repair_header sv s) = se_entries s" "se_leaf_id (repair_header sv s) = se_leaf_id s"
  "se_persisted_entry_count (repair_header sv s) = se_persisted_entry_count s"
  "session_ok (repair_header sv s) = session_ok s"
  by (simp_all add: repair_header_def Let_def)

lemma new_rows_no_self:
  "entries_ok ds \<Longrightarrow> entries_ok es \<Longrightarrow> set fs \<subseteq> set es \<Longrightarrow> no_self_parent (ds @ new_rows ds fs)"
  using entries_ok_no_self [of ds] entries_ok_no_self [of es] unfolding no_self_parent_def new_rows_def by fastforce

text \<open>What the writers hand back has every entry of the session, in order.\<close>

lemma full_rewrite_keeps:
  assumes "save_jsonl_full_rewrite_blocking sv h (se_entries s) dirty = Inr (h', os)" and "session_ok s" and "files_agree sv s"
  shows "entries_ok os" and "set (se_entries s) \<subseteq> set os"
proof -
  have eo: "entries_ok (se_entries s)" using assms(2) by (simp add: session_ok_def)
  obtain des where r: "merge_and_order (sv_encode sv) des (se_entries s) = Inr os"
    and des: "des = [] \<or> (\<exists>disk. sv_opened sv = Inr (Some disk) \<and> des = se_entries disk)"
  proof (cases "sv_opened sv")
    case (Inr od)
    show thesis
      using assms(1) Inr that [of "[]"] that [of "se_entries (the od)"]
      by (cases od; cases "merge_and_order (sv_encode sv) [] (se_entries s)";
          cases "merge_and_order (sv_encode sv) (se_entries (the od)) (se_entries s)")
        (auto simp: save_jsonl_full_rewrite_blocking_def prepare_jsonl_full_rewrite_def split: option.splits if_splits)
  qed (use assms(1) in \<open>auto simp: save_jsonl_full_rewrite_blocking_def prepare_jsonl_full_rewrite_def split: option.splits\<close>)
  have "entries_ok des \<and> (\<forall>d \<in> set des. \<forall>e \<in> set (se_entries s). base_id d = base_id e \<longrightarrow> sv_encode sv d = sv_encode sv e \<longrightarrow> d = e)"
    using des assms(3) by (auto simp: files_agree_def file_agrees_def entries_ok_def)
  then have d: "entries_ok des" "\<forall>d \<in> set des. \<forall>e \<in> set (se_entries s). base_id d = base_id e \<longrightarrow> sv_encode sv d = sv_encode sv e \<longrightarrow> d = e"
    by blast+
  note m = merged_set [OF new_rows_no_self [OF d(1) eo subset_refl] r d(2)]
  show "entries_ok os" and "set (se_entries s) \<subseteq> set os" using m by auto
qed

lemma write_plan_rows:
  assumes "write_append_plan sv disk p = Inr os" and "ap_ordered_entries p = se_entries disk @ ap_entries_appended p"
  shows "os = ap_ordered_entries p"
  using assms by (auto simp: write_append_plan_def split: if_splits sum.splits bool.splits option.splits)

lemma append_keeps:
  assumes "append_jsonl_entries_blocking sv i (drop (se_persisted_entry_count s) (se_entries s)) = Inr (h', os)"
    and "session_ok s" and "files_agree sv s"
  shows "entries_ok os" and "set (se_entries s) \<subseteq> set os"
proof -
  let ?n = "se_persisted_entry_count s" and ?es = "se_entries s"
  obtain disk p where p: "sv_opened sv = Inr (Some disk)" "plan_jsonl_incremental_append (sv_encode sv) disk (drop ?n ?es) = Inr p"
    "write_append_plan sv disk p = Inr os"
  proof (cases "sv_opened sv")
    case (Inr od)
    show thesis
      using assms(1) Inr that
      by (cases od; cases "plan_jsonl_incremental_append (sv_encode sv) (the od) (drop ?n ?es)";
          cases "write_append_plan sv (the od) (projr (plan_jsonl_incremental_append (sv_encode sv) (the od) (drop ?n ?es)))")
        (auto simp: append_jsonl_entries_blocking_def split: option.splits if_splits)
  qed (use assms(1) in \<open>auto simp: append_jsonl_entries_blocking_def split: option.splits\<close>)
  have eo: "entries_ok ?es" using assms(2) by (simp add: session_ok_def)
  have f: "entries_ok (se_entries disk)" "set (take ?n ?es) \<subseteq> set (se_entries disk)"
    "\<forall>d \<in> set (se_entries disk). \<forall>e \<in> set (drop ?n ?es). base_id d = base_id e \<longrightarrow> sv_encode sv d = sv_encode sv e \<longrightarrow> d = e"
    using assms(3) p(1) by (auto simp: files_agree_def file_agrees_def dest: in_set_dropD)
  note ns = new_rows_no_self [OF f(1) eo set_drop_subset]
  note ext = plan_extends [OF f(1) ns p(2)]
  have os: "os = ap_ordered_entries p" by (rule write_plan_rows [OF p(3) ext(1)])
  note m = merged_set [OF ns plan_merge(1) [OF p(2)] f(3)]
  have "set ?es = set (take ?n ?es) \<union> set (drop ?n ?es)" by (metis append_take_drop_id set_append)
  then show "entries_ok os" and "set ?es \<subseteq> set os" using m f(2) os by auto
qed

lemma save_jsonl_keeps:
  assumes "session_ok s" and "se_leaf_id s \<noteq> None" and "files_agree sv s"
  shows "\<exists>err t. save_jsonl digest sv s = Some (err, t) \<and> same_conversation s t"
proof -
  have acc: "\<exists>t. accept_persisted_state digest h os s = Some t \<and> same_conversation s t"
    if "entries_ok os" "set (se_entries s) \<subseteq> set os" for h os
    using accepted_keeps_path [OF assms(1,2) that, of digest h] unfolding same_conversation_def by metis
  have keep: "same_conversation s s" by (rule same_conversation_frame [OF assms(1)])
  show ?thesis
  proof (cases "should_full_rewrite sv s")
    case True
    show ?thesis
    proof (cases "save_jsonl_full_rewrite_blocking sv (se_header s) (se_entries s) (se_header_dirty s)")
      case (Inr b)
      obtain h' os where b: "b = (h', os)" by force
      obtain t where t: "accept_persisted_state digest h' os s = Some t" "same_conversation s t"
        using acc [of os h'] full_rewrite_keeps [OF Inr [unfolded b] assms(1,3)] by blast
      then have "session_ok t" by (simp add: same_conversation_def)
      then have "same_conversation s (t\<lparr>se_header_dirty := False\<rparr>)"
        using same_conversation_trans [OF t(2)] same_conversation_frame(3) by blast
      then show ?thesis using True Inr b t(1) by (simp add: save_jsonl_def)
    qed (use True keep in \<open>simp add: save_jsonl_def\<close>)
  next
    case False
    show ?thesis
    proof (cases "append_jsonl_entries_blocking sv (hd_id (se_header s)) (drop (se_persisted_entry_count s) (se_entries s))")
      case (Inr b)
      obtain h' os where b: "b = (h', os)" by force
      obtain t where "accept_persisted_state digest h' os s = Some t" "same_conversation s t"
        using acc [of os h'] append_keeps [OF Inr [unfolded b] assms(1,3)] by blast
      then show ?thesis using False Inr b keep by (simp add: save_jsonl_def)
    qed (use False keep in \<open>simp add: save_jsonl_def\<close>)
  qed
qed

lemma save_inner_keeps:
  assumes "session_ok s" and "se_leaf_id s \<noteq> None" and "files_agree sv s"
  shows "\<exists>err t. save_inner digest sv s = Some (err, t) \<and> same_conversation s t"
proof -
  have "entries_ok (se_entries s)" "leaf_ok (se_entries s) (se_leaf_id s)" using assms(1) by (simp_all add: session_ok_def)
  then obtain s1 where s1: "rebuild_all_caches digest s = Some s1" "session_ok s1" "se_entries s1 = se_entries s"
    "se_leaf_id s1 = se_leaf_id s" by (rule rebuild_ok)
  have count: "se_persisted_entry_count s1 = se_persisted_entry_count s"
    using s1(1) by (auto simp: rebuild_all_caches_def)
  let ?s2 = "repair_header sv s1"
  have c1: "same_conversation s s1" and c2: "same_conversation s ?s2"
    using assms(1) s1 by (auto intro!: same_tree_conversation simp: repair_header_tree)
  have "files_agree sv ?s2" using assms(3) s1 count by (simp add: files_agree_def file_agrees_def repair_header_tree)
  then obtain err t where "save_jsonl digest sv ?s2 = Some (err, t)" "same_conversation ?s2 t"
    using save_jsonl_keeps [of ?s2 sv digest] assms(2) s1 by (auto simp: repair_header_tree)
  then show ?thesis
    using c1 c2 same_conversation_trans [OF c2] s1(1)
    by (auto simp: save_inner_def ensure_entry_ids_def Let_def split: option.split)
qed

text \<open>
  A flush always returns and keeps the conversation of a session with a leaf: soundness, leaf and current
  path are those before it, whether the file was rewritten or extended, rows of other processes were
  taken over, or the flush failed at any point.
\<close>

lemma flush_keeps_conversation:
  assumes "session_ok s" and "se_leaf_id s \<noteq> None" and "files_agree sv s"
  shows "\<exists>err t. session_flush digest sv trigger s = Some (err, t) \<and> same_conversation s t"
proof -
  obtain ticket q where b: "begin_flush (sv_begin_at sv) trigger (se_autosave s) = (ticket, q)" by force
  let ?s = "s\<lparr>se_autosave := q\<rparr>"
  have c: "same_conversation s ?s" by (rule same_conversation_frame [OF assms(1)])
  have "files_agree sv ?s" using assms(3) by (simp add: files_agree_def file_agrees_def)
  then obtain err t where t: "save_inner digest sv ?s = Some (err, t)" "same_conversation ?s t"
    using save_inner_keeps [of ?s sv digest] assms(1,2) by auto
  have st: "same_conversation s t" by (rule same_conversation_trans [OF c t(2)])
  then have "session_ok t" by (simp add: same_conversation_def)
  then have "same_conversation s (t\<lparr>se_autosave := r\<rparr>)" for r
    using same_conversation_trans [OF st] same_conversation_frame(4) by blast
  then show ?thesis using b t(1) c by (cases ticket) (simp_all add: session_flush_def)
qed

end
