(* ===== verification/Compaction.thy ===== *)
theory Compaction
  imports Session_Path
begin

text \<open>
  Choosing what to compact (\<open>src/src/compaction.rs\<close>): estimates of the size of the context, the cut
  point between what is summarised and what is kept, the files touched by tool calls, and the
  preparation of a compaction from the current path of a session. The length of a JSON value as
  text is the argument \<open>json_len\<close>; the length of a text is that of its UTF-8 encoding.
\<close>

section \<open>Sizes\<close>

definition CHARS_PER_TOKEN_ESTIMATE :: nat where
  "CHARS_PER_TOKEN_ESTIMATE = 3"

definition IMAGE_TOKEN_ESTIMATE :: nat where
  "IMAGE_TOKEN_ESTIMATE = 1200"

definition IMAGE_CHAR_ESTIMATE :: nat where
  "IMAGE_CHAR_ESTIMATE = IMAGE_TOKEN_ESTIMATE * CHARS_PER_TOKEN_ESTIMATE"

definition utf8_char_len :: "uchar \<Rightarrow> nat" where
  "utf8_char_len c = (if c < 128 then 1 else if c < 2048 then 2 else if c < 65536 then 3 else 4)"

definition byte_len :: "ustr \<Rightarrow> nat" where
  "byte_len s = sum_list (map utf8_char_len s)"

record compaction_settings =
  cs_enabled :: bool
  cs_context_window_tokens :: u32
  cs_reserve_tokens :: u32
  cs_keep_recent_tokens :: u32

definition default_compaction_settings :: compaction_settings where
  "default_compaction_settings =
     \<lparr>cs_enabled = True, cs_context_window_tokens = 128000, cs_reserve_tokens = 10240, cs_keep_recent_tokens = 12800\<rparr>"

definition context_window_tokens_for_entry :: "u32 \<Rightarrow> u32" where
  "context_window_tokens_for_entry context_window =
     (if context_window = 0 then cs_context_window_tokens default_compaction_settings else context_window)"

definition add_block_chars :: "(json \<Rightarrow> nat) \<Rightarrow> content_block \<Rightarrow> usize \<Rightarrow> usize" where
  "add_block_chars json_len b chars =
     (case b of
        TextBlock t s \<Rightarrow> sat_add64 chars (byte_len t)
      | ImageBlock d mime \<Rightarrow> sat_add64 chars IMAGE_CHAR_ESTIMATE
      | ThinkingBlock t s \<Rightarrow> sat_add64 chars (byte_len t)
      | ToolCallBlock c \<Rightarrow> sat_add64 (sat_add64 chars (byte_len (tcb_name c))) (json_len (tcb_arguments c))
      | RedactedThinkingBlock d \<Rightarrow> chars)"

definition message_chars :: "(json \<Rightarrow> nat) \<Rightarrow> session_message \<Rightarrow> usize" where
  "message_chars json_len m =
     (case m of
        SmUser content ts \<Rightarrow>
          (case content of
             TextContent t \<Rightarrow> byte_len t
           | BlocksContent blocks \<Rightarrow> fold (add_block_chars json_len) blocks 0)
      | SmAssistant a \<Rightarrow> fold (add_block_chars json_len) (as_content a) 0
      | SmToolResult call name content details err ts \<Rightarrow> fold (add_block_chars json_len) content 0
      | SmCustom kind content display details ts \<Rightarrow> byte_len content
      | SmBashExecution command output code cancelled truncated path ts extra \<Rightarrow>
          sat_add64 (byte_len command) (byte_len output)
      | SmBranchSummary summary from_id \<Rightarrow> byte_len summary
      | SmCompactionSummary summary tokens \<Rightarrow> byte_len summary)"

definition div_ceil :: "nat \<Rightarrow> nat \<Rightarrow> nat" where
  "div_ceil a b = (if a mod b = 0 then a div b else a div b + 1)"

definition estimate_tokens :: "(json \<Rightarrow> nat) \<Rightarrow> session_message \<Rightarrow> u64" where
  "estimate_tokens json_len m = div_ceil (message_chars json_len m) CHARS_PER_TOKEN_ESTIMATE"

definition sum_estimates :: "(json \<Rightarrow> nat) \<Rightarrow> session_message list \<Rightarrow> u64" where
  "sum_estimates json_len ms = fold (\<lambda>m acc. sat_add64 acc (estimate_tokens json_len m)) ms 0"

definition calculate_context_tokens :: "usage \<Rightarrow> u64" where
  "calculate_context_tokens u =
     (if us_total_tokens u > 0 then us_total_tokens u else sat_add64 (us_input u) (us_output u))"

definition get_assistant_usage :: "session_message \<Rightarrow> usage option" where
  "get_assistant_usage m =
     (case m of
        SmAssistant a \<Rightarrow> if as_stop_reason a \<in> {Aborted, StopError} then None else Some (as_usage a)
      | _ \<Rightarrow> None)"

record context_usage_estimate =
  cu_tokens :: u64
  cu_last_usage_index :: "usize option"

text \<open>The last message with a usage report, with its position.\<close>

definition last_usage :: "session_message list \<Rightarrow> (usage \<times> usize) option" where
  "last_usage ms =
     (case find (\<lambda>i. get_assistant_usage (ms ! i) \<noteq> None) (rev [0..<length ms]) of
        None \<Rightarrow> None
      | Some i \<Rightarrow> Some (the (get_assistant_usage (ms ! i)), i))"

definition estimate_context_tokens :: "(json \<Rightarrow> nat) \<Rightarrow> session_message list \<Rightarrow> context_usage_estimate" where
  "estimate_context_tokens json_len ms =
     (case last_usage ms of
        None \<Rightarrow> \<lparr>cu_tokens = sum_estimates json_len ms, cu_last_usage_index = None\<rparr>
      | Some (u, i) \<Rightarrow>
          let usage_tokens = calculate_context_tokens u in
          if usage_tokens = 0 then \<lparr>cu_tokens = sum_estimates json_len ms, cu_last_usage_index = None\<rparr>
          else \<lparr>cu_tokens = sat_add64 usage_tokens (sum_estimates json_len (drop (i + 1) ms)),
                cu_last_usage_index = Some i\<rparr>)"

definition should_compact :: "u64 \<Rightarrow> u32 \<Rightarrow> compaction_settings \<Rightarrow> bool" where
  "should_compact context_tokens context_window settings =
     (cs_enabled settings \<and> context_tokens \<ge> context_window - cs_reserve_tokens settings)"

section \<open>The cut\<close>

definition message_from_entry :: "session_entry \<Rightarrow> session_message option" where
  "message_from_entry e =
     (case e of
        MessageEntry b m \<Rightarrow> Some m
      | BranchSummaryEntry b from_id summary details hook \<Rightarrow> Some (SmBranchSummary summary from_id)
      | CompactionEntry b summary first_kept tokens details hook \<Rightarrow> Some (SmCompactionSummary summary tokens)
      | _ \<Rightarrow> None)"

definition entry_is_message_like :: "session_entry \<Rightarrow> bool" where
  "entry_is_message_like e =
     (case e of MessageEntry b m \<Rightarrow> True | BranchSummaryEntry b f s d h \<Rightarrow> True | _ \<Rightarrow> False)"

definition entry_is_compaction_boundary :: "session_entry \<Rightarrow> bool" where
  "entry_is_compaction_boundary e = (case e of CompactionEntry b s f t d h \<Rightarrow> True | _ \<Rightarrow> False)"

definition is_tool_result :: "session_message \<Rightarrow> bool" where
  "is_tool_result m = (case m of SmToolResult call name content details err ts \<Rightarrow> True | _ \<Rightarrow> False)"

definition is_cut_point :: "session_entry \<Rightarrow> bool" where
  "is_cut_point e =
     (case e of
        MessageEntry b m \<Rightarrow> \<not> is_tool_result m
      | BranchSummaryEntry b f s d h \<Rightarrow> True
      | _ \<Rightarrow> False)"

definition find_valid_cut_points :: "session_entry list \<Rightarrow> usize \<Rightarrow> usize \<Rightarrow> usize list" where
  "find_valid_cut_points es start end = filter (\<lambda>i. is_cut_point (es ! i)) [start..<min end (length es)]"

definition entry_has_tool_calls :: "session_entry \<Rightarrow> bool" where
  "entry_has_tool_calls e =
     (case e of
        MessageEntry b (SmAssistant a) \<Rightarrow> list_ex (\<lambda>x. case x of ToolCallBlock c \<Rightarrow> True | _ \<Rightarrow> False) (as_content a)
      | _ \<Rightarrow> False)"

definition is_user_turn_start :: "session_entry \<Rightarrow> bool" where
  "is_user_turn_start e =
     (case e of
        BranchSummaryEntry b f s d h \<Rightarrow> True
      | MessageEntry b (SmUser c t) \<Rightarrow> True
      | MessageEntry b (SmBashExecution c out x ca tr p ts ex) \<Rightarrow> True
      | _ \<Rightarrow> False)"

definition find_turn_start_index :: "session_entry list \<Rightarrow> usize \<Rightarrow> usize \<Rightarrow> usize option" where
  "find_turn_start_index es entry_index start = find (\<lambda>i. is_user_turn_start (es ! i)) (rev [start..<Suc entry_index])"

text \<open>
  The scan from the end: it adds up the messages until enough are kept, and then takes the last cut
  point that is not behind. \<open>partition_point\<close> on the ascending cut points is the length of the prefix.
\<close>

definition partition_point :: "('a \<Rightarrow> bool) \<Rightarrow> 'a list \<Rightarrow> nat" where
  "partition_point P xs = length (takeWhile P xs)"

fun cut_scan :: "(json \<Rightarrow> nat) \<Rightarrow> session_entry list \<Rightarrow> usize list \<Rightarrow> u32 \<Rightarrow> u64 \<Rightarrow> usize \<Rightarrow> usize list \<Rightarrow> usize" where
  "cut_scan json_len es cut_points keep acc fallback [] = fallback"
| "cut_scan json_len es cut_points keep acc fallback (i # is) =
     (case message_from_entry (es ! i) of
        None \<Rightarrow> cut_scan json_len es cut_points keep acc fallback is
      | Some m \<Rightarrow>
          let acc1 = sat_add64 acc (estimate_tokens json_len m) in
          if acc1 \<ge> keep then
            let pos = partition_point (\<lambda>cp. cp \<le> i) cut_points
            in if pos > 0 then cut_points ! (pos - 1) else fallback
          else cut_scan json_len es cut_points keep acc1 fallback is)"

text \<open>The walk back over entries that are not messages.\<close>

fun walk_back :: "session_entry list \<Rightarrow> usize \<Rightarrow> usize \<Rightarrow> usize" where
  "walk_back es start 0 = 0"
| "walk_back es start (Suc c) =
     (if Suc c > start then
        if entry_is_compaction_boundary (es ! c) then Suc c
        else if entry_is_message_like (es ! c) then Suc c
        else walk_back es start c
      else Suc c)"

record cut_point_result =
  cp_first_kept_entry_index :: usize
  cp_turn_start_index :: "usize option"
  cp_is_split_turn :: bool

definition find_cut_point :: "(json \<Rightarrow> nat) \<Rightarrow> session_entry list \<Rightarrow> usize \<Rightarrow> usize \<Rightarrow> u32 \<Rightarrow> cut_point_result" where
  "find_cut_point json_len es start end keep =
     (let cut_points = find_valid_cut_points es start end in
      if cut_points = [] then
        \<lparr>cp_first_kept_entry_index = start, cp_turn_start_index = None, cp_is_split_turn = False\<rparr>
      else
        let cut0 = cut_scan json_len es cut_points keep 0 (cut_points ! 0) (rev [start..<end]);
            cut = walk_back es start cut0;
            is_user_message = is_user_turn_start (es ! cut);
            turn_start = (if is_user_message then None else find_turn_start_index es cut start)
        in \<lparr>cp_first_kept_entry_index = cut, cp_turn_start_index = turn_start,
            cp_is_split_turn = (\<not> is_user_message \<and> turn_start \<noteq> None)\<rparr>)"

section \<open>Files\<close>

record file_operations =
  fo_read :: "ustr set"
  fo_written :: "ustr set"
  fo_edited :: "ustr set"

definition no_file_operations :: file_operations where
  "no_file_operations = \<lparr>fo_read = {}, fo_written = {}, fo_edited = {}\<rparr>"

text \<open>The outcome of each tool call, the last one reported under an identifier.\<close>

definition add_tool_status :: "session_message \<Rightarrow> (ustr \<rightharpoonup> bool) \<Rightarrow> (ustr \<rightharpoonup> bool)" where
  "add_tool_status m status =
     (case m of SmToolResult call name content details err ts \<Rightarrow> status(call \<mapsto> \<not> err) | _ \<Rightarrow> status)"

definition build_tool_status_map :: "session_message list \<Rightarrow> (ustr \<rightharpoonup> bool)" where
  "build_tool_status_map ms = fold add_tool_status ms Map.empty"

definition add_file_op :: "(ustr \<rightharpoonup> bool) \<Rightarrow> content_block \<Rightarrow> file_operations \<Rightarrow> file_operations" where
  "add_file_op status b ops =
     (case b of
        ToolCallBlock c \<Rightarrow>
          if status (tcb_id c) \<noteq> Some True then ops
          else (case Option.bind (json_get (lit ''path'') (tcb_arguments c)) json_as_str of
                  None \<Rightarrow> ops
                | Some path \<Rightarrow>
                    if tcb_name c \<in> {lit ''read'', lit ''grep'', lit ''find'', lit ''ls''}
                    then ops\<lparr>fo_read := insert path (fo_read ops)\<rparr>
                    else if tcb_name c = lit ''write'' then ops\<lparr>fo_written := insert path (fo_written ops)\<rparr>
                    else if tcb_name c \<in> {lit ''edit'', lit ''hashline_edit''}
                    then ops\<lparr>fo_edited := insert path (fo_edited ops)\<rparr>
                    else ops)
      | _ \<Rightarrow> ops)"

definition extract_file_ops_from_message :: "(ustr \<rightharpoonup> bool) \<Rightarrow> session_message \<Rightarrow> file_operations \<Rightarrow> file_operations" where
  "extract_file_ops_from_message status m ops =
     (case m of SmAssistant a \<Rightarrow> fold (add_file_op status) (as_content a) ops | _ \<Rightarrow> ops)"

definition compute_file_lists :: "file_operations \<Rightarrow> ustr list \<times> ustr list" where
  "compute_file_lists ops =
     (let modified = fo_edited ops \<union> fo_written ops
      in (sorted_list_of_set (fo_read ops - modified), sorted_list_of_set modified))"

record compaction_details =
  cd_read_files :: "ustr list"
  cd_modified_files :: "ustr list"

definition compaction_details_to_value :: "compaction_details \<Rightarrow> json" where
  "compaction_details_to_value d =
     JObject [(lit ''readFiles'', JArray (map JString (cd_read_files d))),
              (lit ''modifiedFiles'', JArray (map JString (cd_modified_files d)))]"

section \<open>The preparation\<close>

record compaction_preparation =
  pr_first_kept_entry_id :: ustr
  pr_messages_to_summarize :: "session_message list"
  pr_turn_prefix_messages :: "session_message list"
  pr_is_split_turn :: bool
  pr_tokens_before :: u64
  pr_previous_summary :: "ustr option"
  pr_file_ops :: file_operations
  pr_settings :: compaction_settings

definition slice :: "nat \<Rightarrow> nat \<Rightarrow> 'a list \<Rightarrow> 'a list" where
  "slice a b xs = drop a (take b xs)"

definition prev_compaction_index :: "session_entry list \<Rightarrow> usize option" where
  "prev_compaction_index path = find (\<lambda>i. entry_is_compaction_boundary (path ! i)) (rev [0..<length path])"

definition json_strings :: "json option \<Rightarrow> ustr list" where
  "json_strings v = (case Option.bind v json_as_array of None \<Rightarrow> [] | Some xs \<Rightarrow> List.map_filter json_as_str xs)"

text \<open>The files recorded with the previous compaction, unless an extension made it.\<close>

definition previous_file_ops :: "session_entry option \<Rightarrow> file_operations" where
  "previous_file_ops prev =
     (case prev of
        Some (CompactionEntry b summary first_kept tokens details hook) \<Rightarrow>
          if hook = Some True then no_file_operations
          else (case details of
                  None \<Rightarrow> no_file_operations
                | Some v \<Rightarrow>
                    \<lparr>fo_read = set (json_strings (json_get (lit ''readFiles'') v)), fo_written = {},
                     fo_edited = set (json_strings (json_get (lit ''modifiedFiles'') v))\<rparr>)
      | _ \<Rightarrow> no_file_operations)"

definition prepare_compaction :: "(json \<Rightarrow> nat) \<Rightarrow> session_entry list \<Rightarrow> compaction_settings \<Rightarrow> compaction_preparation option" where
  "prepare_compaction json_len path settings =
     (if path = [] then None
      else if entry_is_compaction_boundary (last path) then None
      else
        let prev = prev_compaction_index path;
            boundary_start = (case prev of None \<Rightarrow> 0 | Some i \<Rightarrow> i + 1);
            boundary_end = length path;
            usage_start = (case prev of None \<Rightarrow> 0 | Some i \<Rightarrow> i);
            usage_messages = List.map_filter message_from_entry (slice usage_start boundary_end path);
            tokens_before = cu_tokens (estimate_context_tokens json_len usage_messages)
        in if \<not> should_compact tokens_before (cs_context_window_tokens settings) settings then None
           else
             let cut = find_cut_point json_len path boundary_start boundary_end (cs_keep_recent_tokens settings) in
             (case base_id (path ! cp_first_kept_entry_index cut) of
                None \<Rightarrow> None
              | Some first_kept \<Rightarrow>
                  (case (if cp_is_split_turn cut then cp_turn_start_index cut else Some (cp_first_kept_entry_index cut)) of
                     None \<Rightarrow> None
                   | Some history_end \<Rightarrow>
                       let to_summarize = List.map_filter message_from_entry (slice boundary_start history_end path);
                           turn_prefix = (if cp_is_split_turn cut
                             then List.map_filter message_from_entry (slice history_end (cp_first_kept_entry_index cut) path)
                             else [])
                       in if to_summarize = [] \<and> turn_prefix = [] then None
                          else
                            let status = build_tool_status_map to_summarize ++ build_tool_status_map turn_prefix;
                                ops0 = previous_file_ops (map_option ((!) path) prev);
                                ops1 = fold (extract_file_ops_from_message status) to_summarize ops0;
                                ops2 = fold (extract_file_ops_from_message status) turn_prefix ops1
                            in Some \<lparr>pr_first_kept_entry_id = first_kept, pr_messages_to_summarize = to_summarize,
                                 pr_turn_prefix_messages = turn_prefix, pr_is_split_turn = cp_is_split_turn cut,
                                 pr_tokens_before = tokens_before,
                                 pr_previous_summary = Option.bind prev (\<lambda>i. case compaction_of (path ! i) of
                                     Some (summary, first, tokens) \<Rightarrow> Some summary | None \<Rightarrow> None),
                                 pr_file_ops = ops2, pr_settings = settings\<rparr>)))"

section \<open>Where the cut is\<close>

lemma cut_scan_member:
  assumes "fallback \<in> set cut_points"
  shows "cut_scan json_len es cut_points keep acc fallback js \<in> set cut_points"
  using assms
proof (induction js arbitrary: acc)
  case (Cons i js)
  define pos where "pos = partition_point (\<lambda>cp. cp \<le> i) cut_points"
  have "pos \<le> length cut_points" by (simp add: pos_def partition_point_def length_takeWhile_le)
  then have "pos > 0 \<Longrightarrow> cut_points ! (pos - 1) \<in> set cut_points" by simp
  then show ?case using Cons by (auto simp: Let_def pos_def [symmetric] split: option.split)
qed simp

lemma walk_back_spec:
  assumes "start \<le> c"
  shows "start \<le> walk_back es start c" and "walk_back es start c \<le> c"
    and "walk_back es start c \<le> i \<Longrightarrow> i < c \<Longrightarrow> message_from_entry (es ! i) = None"
  using assms
proof (induction es start c rule: walk_back.induct)
  case (2 es start c)
  {
    case 1
    then show ?case using 2 by auto
  next
    case 2
    then show ?case using "2.IH"(2) by (auto intro: le_SucI)
  next
    case 3
    show ?case
    proof (cases "i = c")
      case True
      then have "\<not> entry_is_compaction_boundary (es ! c)" "\<not> entry_is_message_like (es ! c)"
        using 3 by (auto split: if_splits)
      then show ?thesis using True
        by (auto simp: entry_is_compaction_boundary_def entry_is_message_like_def message_from_entry_def
            split: session_entry.splits)
    next
      case False
      then show ?thesis using 3 "2.IH"(3) by (auto split: if_splits)
    qed
  }
qed auto

lemma is_cut_point_message:
  assumes "is_cut_point e"
  shows "\<exists>m. message_from_entry e = Some m \<and> \<not> is_tool_result m"
  using assms by (auto simp: is_cut_point_def message_from_entry_def is_tool_result_def split: session_entry.splits)

lemma find_cut_point_spec:
  assumes "find_valid_cut_points es start (length es) \<noteq> []"
  obtains c0 where "start \<le> cp_first_kept_entry_index (find_cut_point json_len es start (length es) keep)"
    and "cp_first_kept_entry_index (find_cut_point json_len es start (length es) keep) \<le> c0" and "c0 < length es"
    and "is_cut_point (es ! c0)"
    and "\<And>i. cp_first_kept_entry_index (find_cut_point json_len es start (length es) keep) \<le> i \<Longrightarrow> i < c0 \<Longrightarrow>
      message_from_entry (es ! i) = None"
proof -
  define cps where "cps = find_valid_cut_points es start (length es)"
  define c0 where "c0 = cut_scan json_len es cps keep 0 (cps ! 0) (rev [start..<length es])"
  have ne: "cps \<noteq> []" using assms by (simp add: cps_def)
  have "c0 \<in> set cps" unfolding c0_def using ne by (intro cut_scan_member) simp
  then have c0: "start \<le> c0" "c0 < length es" "is_cut_point (es ! c0)"
    by (auto simp: cps_def find_valid_cut_points_def)
  have "cp_first_kept_entry_index (find_cut_point json_len es start (length es) keep) = walk_back es start c0"
    using ne by (simp add: find_cut_point_def Let_def cps_def [symmetric] c0_def [symmetric])
  then show ?thesis using that [of c0] walk_back_spec [OF c0(1), of es] c0 by simp
qed

lemma turn_start_spec:
  assumes "cp_is_split_turn (find_cut_point json_len es start end keep)"
  obtains t where "cp_turn_start_index (find_cut_point json_len es start end keep) = Some t"
    and "start \<le> t" and "t \<le> cp_first_kept_entry_index (find_cut_point json_len es start end keep)"
    and "is_user_turn_start (es ! t)"
proof -
  define r where "r = find_cut_point json_len es start end keep"
  have "cp_turn_start_index r = find_turn_start_index es (cp_first_kept_entry_index r) start" "cp_turn_start_index r \<noteq> None"
    using assms by (auto simp: r_def find_cut_point_def Let_def split: if_splits)
  then obtain t where t: "cp_turn_start_index r = Some t"
    "find (\<lambda>i. is_user_turn_start (es ! i)) (rev [start..<Suc (cp_first_kept_entry_index r)]) = Some t"
    by (auto simp: find_turn_start_index_def)
  from find_SomeD' [OF t(2)] show ?thesis using that [of t] t(1) by (auto simp: r_def)
qed

section \<open>What a preparation holds\<close>

definition entry_messages :: "session_entry list \<Rightarrow> session_message list" where
  "entry_messages es = List.map_filter message_from_entry es"

definition compaction_start :: "session_entry list \<Rightarrow> usize" where
  "compaction_start path = (case prev_compaction_index path of None \<Rightarrow> 0 | Some i \<Rightarrow> i + 1)"

lemma map_filter_append: "List.map_filter f (xs @ ys) = List.map_filter f xs @ List.map_filter f ys"
  by (simp add: List.map_filter_def)

lemma entry_messages_slice:
  assumes "a \<le> b" and "b \<le> c"
  shows "entry_messages (slice a b es) @ entry_messages (slice b c es) = entry_messages (slice a c es)"
proof -
  have "take c es = take b es @ drop b (take c es)" using assms(2) by (metis append_take_drop_id min.absorb1 take_take)
  moreover have "drop (a - length (take b es)) (drop b (take c es)) = drop b (take c es)"
    using assms(1) by (cases "length es \<le> b") simp_all
  ultimately have "slice a c es = slice a b es @ slice b c es"
    unfolding slice_def by (metis drop_append)
  then show ?thesis by (simp add: entry_messages_def map_filter_append)
qed

lemma prev_compaction_SomeD:
  assumes "prev_compaction_index path = Some i"
  shows "i < length path" and "entry_is_compaction_boundary (path ! i)"
  using find_SomeD' [OF assms [unfolded prev_compaction_index_def]] by simp_all

lemma compaction_start_less:
  assumes "path \<noteq> []" and "\<not> entry_is_compaction_boundary (last path)"
  shows "compaction_start path < length path"
proof (cases "prev_compaction_index path")
  case None
  then show ?thesis using assms(1) by (simp add: compaction_start_def)
next
  case (Some i)
  note i = prev_compaction_SomeD [OF Some]
  have "i \<noteq> length path - 1" using i assms by (metis last_conv_nth)
  then show ?thesis using i(1) Some by (simp add: compaction_start_def)
qed

text \<open>The cut of a path, and the parts of a preparation in terms of it.\<close>

definition cut_of :: "(json \<Rightarrow> nat) \<Rightarrow> session_entry list \<Rightarrow> compaction_settings \<Rightarrow> cut_point_result" where
  "cut_of json_len path settings =
     find_cut_point json_len path (compaction_start path) (length path) (cs_keep_recent_tokens settings)"

lemma prepare_SomeD:
  assumes "prepare_compaction json_len path settings = Some p"
  defines "cp \<equiv> cut_of json_len path settings"
  defines "h \<equiv> (if cp_is_split_turn cp then the (cp_turn_start_index cp) else cp_first_kept_entry_index cp)"
  shows "path \<noteq> []" and "\<not> entry_is_compaction_boundary (last path)"
    and "base_id (path ! cp_first_kept_entry_index cp) = Some (pr_first_kept_entry_id p)"
    and "pr_is_split_turn p = cp_is_split_turn cp"
    and "pr_messages_to_summarize p = entry_messages (slice (compaction_start path) h path)"
    and "pr_turn_prefix_messages p =
      (if cp_is_split_turn cp then entry_messages (slice h (cp_first_kept_entry_index cp) path) else [])"
    and "pr_messages_to_summarize p \<noteq> [] \<or> pr_turn_prefix_messages p \<noteq> []"
    and "pr_file_ops p =
      (let status = build_tool_status_map (pr_messages_to_summarize p) ++ build_tool_status_map (pr_turn_prefix_messages p)
       in fold (extract_file_ops_from_message status) (pr_messages_to_summarize p @ pr_turn_prefix_messages p)
            (previous_file_ops (map_option ((!) path) (prev_compaction_index path))))"
    and "pr_previous_summary p = Option.bind (prev_compaction_index path) (\<lambda>i. map_option fst (compaction_of (path ! i)))"
proof -
  have ne: "path \<noteq> []" "\<not> entry_is_compaction_boundary (last path)"
    using assms(1) by (auto simp: prepare_compaction_def split: if_splits)
  obtain k where k: "base_id (path ! cp_first_kept_entry_index cp) = Some k"
    "\<not> (cp_is_split_turn cp \<and> cp_turn_start_index cp = None)"
    using assms(1) ne by (auto simp: prepare_compaction_def Let_def cp_def cut_of_def compaction_start_def split: if_splits option.splits)
  have h: "(if cp_is_split_turn cp then cp_turn_start_index cp else Some (cp_first_kept_entry_index cp)) = Some h"
    using k(2) by (auto simp: h_def)
  have sm: "(case compaction_of e of Some (summary, first, tokens) \<Rightarrow> Some summary | None \<Rightarrow> None) = map_option fst (compaction_of e)" for e
    by (auto split: option.split)
  show "path \<noteq> []" "\<not> entry_is_compaction_boundary (last path)" by (fact ne)+
  note body = assms(1) [unfolded prepare_compaction_def Let_def, folded compaction_start_def cut_of_def entry_messages_def]
  show "base_id (path ! cp_first_kept_entry_index cp) = Some (pr_first_kept_entry_id p)"
    "pr_is_split_turn p = cp_is_split_turn cp"
    "pr_messages_to_summarize p = entry_messages (slice (compaction_start path) h path)"
    "pr_turn_prefix_messages p =
      (if cp_is_split_turn cp then entry_messages (slice h (cp_first_kept_entry_index cp) path) else [])"
    "pr_messages_to_summarize p \<noteq> [] \<or> pr_turn_prefix_messages p \<noteq> []"
    "pr_file_ops p =
      (let status = build_tool_status_map (pr_messages_to_summarize p) ++ build_tool_status_map (pr_turn_prefix_messages p)
       in fold (extract_file_ops_from_message status) (pr_messages_to_summarize p @ pr_turn_prefix_messages p)
            (previous_file_ops (map_option ((!) path) (prev_compaction_index path))))"
    "pr_previous_summary p = Option.bind (prev_compaction_index path) (\<lambda>i. map_option fst (compaction_of (path ! i)))"
    using body ne k(1) h unfolding cp_def [symmetric]
    by (auto simp: sm Let_def split: if_splits)
qed

lemma entry_messages_none: "\<forall>e \<in> set es. message_from_entry e = None \<Longrightarrow> entry_messages es = []"
  by (induction es) (simp_all add: entry_messages_def map_filter_simps)

lemma entry_messages_Cons:
  "entry_messages (e # es) = (case message_from_entry e of None \<Rightarrow> [] | Some m \<Rightarrow> [m]) @ entry_messages es"
  by (simp add: entry_messages_def map_filter_simps split: option.split)

lemma entry_messages_append: "entry_messages (es @ fs) = entry_messages es @ entry_messages fs"
  by (simp add: entry_messages_def map_filter_append)

text \<open>
  In a conversation each tool result follows the assistant message that asked for it, with nothing
  but other results (and entries that are no messages) between.
\<close>

definition calls_tool :: "ustr \<Rightarrow> session_entry \<Rightarrow> bool" where
  "calls_tool call e =
     (case e of
        MessageEntry b (SmAssistant a) \<Rightarrow>
          list_ex (\<lambda>x. case x of ToolCallBlock c \<Rightarrow> tcb_id c = call | _ \<Rightarrow> False) (as_content a)
      | _ \<Rightarrow> False)"

definition result_of :: "session_entry \<Rightarrow> ustr option" where
  "result_of e = (case e of MessageEntry b (SmToolResult call name content details err ts) \<Rightarrow> Some call | _ \<Rightarrow> None)"

definition results_follow_calls :: "session_entry list \<Rightarrow> bool" where
  "results_follow_calls es \<longleftrightarrow>
     (\<forall>k < length es. \<forall>call. result_of (es ! k) = Some call \<longrightarrow>
        (\<exists>j < k. calls_tool call (es ! j) \<and>
          (\<forall>i. j < i \<and> i < k \<longrightarrow> message_from_entry (es ! i) = None \<or> result_of (es ! i) \<noteq> None)))"

lemma results_follow_drop:
  assumes "results_follow_calls es" and "c \<le> c0" and "c0 < length es" and "is_cut_point (es ! c0)"
    and "\<And>i. c \<le> i \<Longrightarrow> i < c0 \<Longrightarrow> message_from_entry (es ! i) = None"
  shows "results_follow_calls (drop c es)"
  unfolding results_follow_calls_def
proof (intro allI impI)
  fix k call assume k: "k < length (drop c es)" and r: "result_of (drop c es ! k) = Some call"
  have rk: "result_of (es ! (c + k)) = Some call" and ck: "c + k < length es" using k r by simp_all
  have c0: "result_of (es ! c0) = None" "message_from_entry (es ! c0) \<noteq> None"
    using assms(4) by (auto simp: is_cut_point_def result_of_def message_from_entry_def is_tool_result_def
        split: session_entry.splits session_message.splits)
  have "message_from_entry (es ! (c + k)) \<noteq> None"
    using rk by (auto simp: result_of_def message_from_entry_def split: session_entry.splits session_message.splits)
  then have "c0 \<le> c + k" using assms(5) [of "c + k"] by (metis le_add1 not_le)
  then have lt: "c0 < c + k" using rk c0(1) by (metis le_neq_implies_less option.distinct(1))
  obtain j where j: "j < c + k" "calls_tool call (es ! j)"
    "\<forall>i. j < i \<and> i < c + k \<longrightarrow> message_from_entry (es ! i) = None \<or> result_of (es ! i) \<noteq> None"
    using assms(1) rk ck unfolding results_follow_calls_def by blast
  have "c0 \<le> j" using j(3) lt c0 by (metis not_le)
  then have "c \<le> j" using assms(2) by simp
  have between: "message_from_entry (drop c es ! i) = None \<or> result_of (drop c es ! i) \<noteq> None" if "j - c < i \<and> i < k" for i
  proof -
    have "j < c + i \<and> c + i < c + k" using that \<open>c \<le> j\<close> by auto
    then show ?thesis using j(3) ck by simp
  qed
  have "j - c < k" "calls_tool call (drop c es ! (j - c))" using j(1,2) \<open>c \<le> j\<close> k by auto
  then show "\<exists>j < k. calls_tool call (drop c es ! j) \<and>
      (\<forall>i. j < i \<and> i < k \<longrightarrow> message_from_entry (drop c es ! i) = None \<or> result_of (drop c es ! i) \<noteq> None)"
    using between by blast
qed

lemma prepare_cut:
  assumes "prepare_compaction json_len path settings = Some p"
  obtains c c0 where "compaction_start path \<le> c" and "c \<le> c0" and "c0 < length path" and "is_cut_point (path ! c0)"
    and "\<And>i. c \<le> i \<Longrightarrow> i < c0 \<Longrightarrow> message_from_entry (path ! i) = None"
    and "base_id (path ! c) = Some (pr_first_kept_entry_id p)"
    and "pr_messages_to_summarize p @ pr_turn_prefix_messages p = entry_messages (slice (compaction_start path) c path)"
    and "c = cp_first_kept_entry_index (cut_of json_len path settings)"
proof -
  let ?cp = "cut_of json_len path settings"
  note d = prepare_SomeD [OF assms]
  have ne: "find_valid_cut_points path (compaction_start path) (length path) \<noteq> []"
  proof
    assume "find_valid_cut_points path (compaction_start path) (length path) = []"
    then have "cp_first_kept_entry_index ?cp = compaction_start path" "\<not> cp_is_split_turn ?cp"
      by (simp_all add: cut_of_def find_cut_point_def Let_def)
    then show False using d(5-7) by (simp add: slice_def entry_messages_def map_filter_simps)
  qed
  obtain c0 where c0: "compaction_start path \<le> cp_first_kept_entry_index ?cp" "cp_first_kept_entry_index ?cp \<le> c0"
    "c0 < length path" "is_cut_point (path ! c0)"
    "\<And>i. cp_first_kept_entry_index ?cp \<le> i \<Longrightarrow> i < c0 \<Longrightarrow> message_from_entry (path ! i) = None"
    using find_cut_point_spec [OF ne, of json_len "cs_keep_recent_tokens settings"] unfolding cut_of_def by metis
  have "pr_messages_to_summarize p @ pr_turn_prefix_messages p =
      entry_messages (slice (compaction_start path) (cp_first_kept_entry_index ?cp) path)"
  proof (cases "cp_is_split_turn ?cp")
    case True
    obtain t where "cp_turn_start_index ?cp = Some t" "compaction_start path \<le> t" "t \<le> cp_first_kept_entry_index ?cp"
      using turn_start_spec True unfolding cut_of_def by metis
    then show ?thesis using d(5,6) True entry_messages_slice by simp
  next
    case False
    then show ?thesis using d(5,6) by simp
  qed
  then show ?thesis using that c0 d(3) by blast
qed

section \<open>The conversation after a compaction\<close>

lemma keep_loop_true:
  "keep_loop now has_kept first_kept ci idx True past es = concat (map (append_model_message_for_entry now) es)"
  by (induction es arbitrary: idx past) (simp_all add: Let_def)

lemma keep_loop_from:
  assumes "distinct (map base_id es)" and "c < length es" and "base_id (es ! c) = Some first_kept"
  shows "keep_loop now True first_kept ci idx False past es = concat (map (append_model_message_for_entry now) (drop c es))"
  using assms
proof (induction es arbitrary: c idx past)
  case (Cons e es)
  show ?case
  proof (cases c)
    case 0
    then show ?thesis using Cons.prems(3) by (simp add: Let_def keep_loop_true)
  next
    case (Suc c')
    then have mem: "es ! c' \<in> set es" "base_id (es ! c') = Some first_kept" using Cons.prems by simp_all
    then have "base_id e \<noteq> Some first_kept" using Cons.prems(1) by (metis distinct.simps(2) image_eqI list.map(2) list.set_map)
    then show ?thesis using Cons.IH [of c'] Cons.prems Suc by (simp add: Let_def)
  qed
qed simp

lemma last_compaction_snoc:
  assumes "compaction_of e = Some x"
  shows "last_compaction (es @ [e]) = Some (length es, x)"
  by (induction es) (simp_all add: assms)

definition summary_message :: "int \<Rightarrow> ustr \<Rightarrow> message" where
  "summary_message now summary = text_message (COMPACTION_SUMMARY_PREFIX @ summary @ COMPACTION_SUMMARY_SUFFIX) now"

lemma path_after_compaction:
  assumes "distinct (map base_id path)" and "c < length path" and "base_id (path ! c) = Some first_kept"
    and "base_id (CompactionEntry b summary first_kept tokens details hook) \<notin> base_id ` set path"
  shows "to_messages_from_path now (path @ [CompactionEntry b summary first_kept tokens details hook]) =
    summary_message now summary # concat (map (append_model_message_for_entry now) (drop c path))"
proof -
  let ?e = "CompactionEntry b summary first_kept tokens details hook"
  have lc: "last_compaction (path @ [?e]) = Some (length path, summary, first_kept, tokens)"
    by (rule last_compaction_snoc) (simp add: compaction_of_def)
  have has: "list_ex (\<lambda>e. base_id e = Some first_kept) (path @ [?e])"
    using assms(2,3) by (auto simp: list_ex_iff)
  have "distinct (map base_id (path @ [?e]))" using assms(1,4) by simp
  moreover have "base_id ((path @ [?e]) ! c) = Some first_kept" using assms(2,3) by (simp add: nth_append)
  ultimately have "keep_loop now True first_kept (length path) 0 False False (path @ [?e]) =
      concat (map (append_model_message_for_entry now) (drop c (path @ [?e])))"
    using keep_loop_from [of "path @ [?e]" c] assms(2) by simp
  moreover have "append_model_message_for_entry now ?e = []" by (simp add: append_model_message_for_entry_def)
  ultimately show ?thesis
    using lc has assms(2) by (simp add: to_messages_from_path_def summary_message_def)
qed

lemma messages_of_path:
  assumes "session_ok s" and "se_leaf_id s \<noteq> None"
  shows "to_messages_for_current_path now s = to_messages_from_path now (entries_for_current_path s)"
  using assms by (auto simp: to_messages_for_current_path_def entries_for_current_path_def)

lemma current_path_ids:
  assumes "session_ok s"
  shows "distinct (map base_id (entries_for_current_path s))" and "set (entries_for_current_path s) \<subseteq> set (se_entries s)"
proof -
  have "entries_ok (se_entries s)" using assms by (simp add: session_ok_def)
  from up_path_entries_ok [OF this path_is_up_path [OF assms]]
  show "distinct (map base_id (entries_for_current_path s))" "set (entries_for_current_path s) \<subseteq> set (se_entries s)"
    by (simp_all add: entries_ok_def)
qed

lemma prev_compaction_snoc:
  "prev_compaction_index (es @ [e]) =
     (if entry_is_compaction_boundary e then Some (length es) else prev_compaction_index es)"
proof -
  have "find (\<lambda>i. entry_is_compaction_boundary ((es @ [e]) ! i)) (rev [0..<length es]) =
      find (\<lambda>i. entry_is_compaction_boundary (es ! i)) (rev [0..<length es])"
    by (rule find_cong) (auto simp: nth_append)
  then show ?thesis by (simp add: prev_compaction_index_def)
qed

lemma last_compaction_skip: "compaction_of e = None \<Longrightarrow> last_compaction (es @ [e]) = last_compaction es"
  by (induction es) simp_all

lemma boundary_iff: "entry_is_compaction_boundary e \<longleftrightarrow> compaction_of e \<noteq> None"
  by (cases e) (simp_all add: entry_is_compaction_boundary_def compaction_of_def)

lemma last_compaction_index:
  "last_compaction es = map_option (\<lambda>i. (i, the (compaction_of (es ! i)))) (prev_compaction_index es)"
proof (induction es rule: rev_induct)
  case Nil
  then show ?case by (simp add: prev_compaction_index_def)
next
  case (snoc e es)
  show ?case
  proof (cases "compaction_of e")
    case None
    have "(es @ [e]) ! i = es ! i" if "prev_compaction_index es = Some i" for i
      using prev_compaction_SomeD(1) [OF that] by (simp add: nth_append)
    then show ?thesis
      using snoc None by (cases "prev_compaction_index es")
        (simp_all add: last_compaction_skip prev_compaction_snoc boundary_iff)
  next
    case (Some x)
    then show ?thesis by (simp add: last_compaction_snoc prev_compaction_snoc boundary_iff)
  qed
qed

section \<open>Files\<close>

text \<open>The paths that successful calls of the named tools touch.\<close>

definition tool_path :: "content_block \<Rightarrow> (ustr \<times> ustr \<times> ustr) option" where
  "tool_path b =
     (case b of
        ToolCallBlock c \<Rightarrow>
          map_option (\<lambda>path. (tcb_id c, tcb_name c, path))
            (Option.bind (json_get (lit ''path'') (tcb_arguments c)) json_as_str)
      | _ \<Rightarrow> None)"

definition touched_paths :: "(ustr \<rightharpoonup> bool) \<Rightarrow> ustr set \<Rightarrow> session_message list \<Rightarrow> ustr set" where
  "touched_paths status names ms =
     {path. \<exists>a b call name. SmAssistant a \<in> set ms \<and> b \<in> set (as_content a) \<and>
        tool_path b = Some (call, name, path) \<and> status call = Some True \<and> name \<in> names}"

definition read_tools :: "ustr set" where
  "read_tools = {lit ''read'', lit ''grep'', lit ''find'', lit ''ls''}"

definition write_tools :: "ustr set" where
  "write_tools = {lit ''write'', lit ''edit'', lit ''hashline_edit''}"

definition modified_files :: "file_operations \<Rightarrow> ustr set" where
  "modified_files ops = fo_edited ops \<union> fo_written ops"

definition block_paths :: "(ustr \<rightharpoonup> bool) \<Rightarrow> ustr set \<Rightarrow> content_block \<Rightarrow> ustr set" where
  "block_paths status names b =
     (case tool_path b of
        Some (call, name, path) \<Rightarrow> if status call = Some True \<and> name \<in> names then {path} else {}
      | None \<Rightarrow> {})"

lemma tool_names:
  "lit ''write'' \<notin> read_tools" "lit ''edit'' \<notin> read_tools" "lit ''hashline_edit'' \<notin> read_tools"
  by (simp_all add: read_tools_def lit_def)

lemma add_file_op_sets:
  "fo_read (add_file_op status b ops) = fo_read ops \<union> block_paths status read_tools b"
  "modified_files (add_file_op status b ops) = modified_files ops \<union> block_paths status write_tools b"
proof (atomize (full), cases b)
  case (ToolCallBlock c)
  define path where "path = Option.bind (json_get (lit ''path'') (tcb_arguments c)) json_as_str"
  consider "tcb_name c \<in> read_tools" | "tcb_name c = lit ''write''" | "tcb_name c \<in> {lit ''edit'', lit ''hashline_edit''}"
    | "tcb_name c \<notin> read_tools" "tcb_name c \<notin> write_tools" by (auto simp: write_tools_def)
  then show "fo_read (add_file_op status b ops) = fo_read ops \<union> block_paths status read_tools b \<and>
      modified_files (add_file_op status b ops) = modified_files ops \<union> block_paths status write_tools b"
  proof cases
    case 1
    then have "tcb_name c \<notin> write_tools" using tool_names by (auto simp: write_tools_def)
    then show ?thesis using 1
      by (cases path) (auto simp: ToolCallBlock add_file_op_def block_paths_def tool_path_def modified_files_def
          path_def [symmetric] read_tools_def [symmetric])
  next
    case 2
    then show ?thesis using tool_names
      by (cases path) (auto simp: ToolCallBlock add_file_op_def block_paths_def tool_path_def modified_files_def
          path_def [symmetric] read_tools_def [symmetric] write_tools_def)
  next
    case 3
    moreover have "lit ''edit'' \<noteq> lit ''write''" "lit ''hashline_edit'' \<noteq> lit ''write''" by (simp_all add: lit_def)
    ultimately show ?thesis using tool_names
      by (cases path) (auto simp: ToolCallBlock add_file_op_def block_paths_def tool_path_def modified_files_def
          path_def [symmetric] read_tools_def [symmetric] write_tools_def)
  next
    case 4
    then show ?thesis
      by (cases path) (auto simp: ToolCallBlock add_file_op_def block_paths_def tool_path_def modified_files_def
          path_def [symmetric] read_tools_def [symmetric] write_tools_def)
  qed
qed (simp_all add: add_file_op_def block_paths_def tool_path_def)

lemma touched_Cons:
  "touched_paths status names (m # ms) =
     (case m of SmAssistant a \<Rightarrow> (\<Union>b \<in> set (as_content a). block_paths status names b) | _ \<Rightarrow> {}) \<union> touched_paths status names ms"
proof -
  have b: "path \<in> block_paths status names b \<longleftrightarrow>
      (\<exists>call name. tool_path b = Some (call, name, path) \<and> status call = Some True \<and> name \<in> names)" for path b
    by (auto simp: block_paths_def split: option.splits if_splits)
  show ?thesis by (rule set_eqI) (auto simp: touched_paths_def b split: session_message.splits; blast)
qed

lemma touched_Nil [simp]: "touched_paths status names [] = {}"
  by (simp add: touched_paths_def)

lemma fold_file_op_sets:
  "fo_read (fold (add_file_op status) bs ops) = fo_read ops \<union> (\<Union>b \<in> set bs. block_paths status read_tools b)"
  "modified_files (fold (add_file_op status) bs ops) = modified_files ops \<union> (\<Union>b \<in> set bs. block_paths status write_tools b)"
  by (induction bs arbitrary: ops) (auto simp: add_file_op_sets)

lemma fold_extract_sets:
  "fo_read (fold (extract_file_ops_from_message status) ms ops) = fo_read ops \<union> touched_paths status read_tools ms"
  "modified_files (fold (extract_file_ops_from_message status) ms ops) = modified_files ops \<union> touched_paths status write_tools ms"
  by (induction ms arbitrary: ops)
    (auto simp: touched_Cons extract_file_ops_from_message_def fold_file_op_sets split: session_message.splits)

lemma tool_status_fold: "fold add_tool_status ms st = st ++ build_tool_status_map ms"
proof (induction ms arbitrary: st)
  case (Cons m ms)
  have "add_tool_status m st = st ++ add_tool_status m Map.empty"
    by (auto simp: add_tool_status_def split: session_message.split)
  then show ?case using Cons [of "add_tool_status m st"] Cons [of "add_tool_status m Map.empty"]
    by (simp add: build_tool_status_map_def)
qed (simp add: build_tool_status_map_def)

lemma tool_status_append: "build_tool_status_map (ms @ ns) = build_tool_status_map ms ++ build_tool_status_map ns"
  using tool_status_fold [of ns "build_tool_status_map ms"] by (simp add: build_tool_status_map_def)

lemma block_paths_finite: "finite (block_paths status names b)"
  by (auto simp: block_paths_def split: option.split)

lemma touched_finite: "finite (touched_paths status names ms)"
  by (induction ms) (auto simp: touched_Cons block_paths_finite split: session_message.split)

lemma json_strings_list: "json_strings (Some (JArray (map JString xs))) = xs"
  by (induction xs) (simp_all add: json_strings_def json_as_array_def json_as_str_def map_filter_simps)

lemma previous_details:
  assumes "hook \<noteq> Some True"
  shows "previous_file_ops (Some (CompactionEntry b summary first tokens (Some (compaction_details_to_value d)) hook)) =
    \<lparr>fo_read = set (cd_read_files d), fo_written = {}, fo_edited = set (cd_modified_files d)\<rparr>"
  using assms by (simp add: previous_file_ops_def compaction_details_to_value_def json_get_def json_strings_list lit_def)

lemma drop_slice: "a \<le> b \<Longrightarrow> drop a xs = slice a b xs @ drop b xs"
  unfolding slice_def by (metis append_take_drop_id drop_drop drop_take le_add_diff_inverse2)

section \<open>Properties\<close>

text \<open>
  C29: A compaction cuts the conversation in two and loses no message. Of the messages since the
  last compaction, those before the cut are, in order, the ones to summarise followed by the
  prefix of a split turn, and the rest is kept. There is something on both sides, the kept part
  does not begin with a tool result, and if in the conversation every tool result follows its
  call then this also holds in the kept part, so no result is kept without its call.
\<close>

theorem compaction_cut_exact:
  assumes "prepare_compaction json_len path settings = Some p"
  shows "\<exists>c. compaction_start path \<le> c \<and> c < length path \<and> base_id (path ! c) = Some (pr_first_kept_entry_id p) \<and>
    (pr_messages_to_summarize p @ pr_turn_prefix_messages p) @ entry_messages (drop c path) =
      entry_messages (drop (compaction_start path) path) \<and>
    pr_messages_to_summarize p @ pr_turn_prefix_messages p \<noteq> [] \<and>
    (\<exists>m ms. entry_messages (drop c path) = m # ms \<and> \<not> is_tool_result m) \<and>
    (results_follow_calls path \<longrightarrow> results_follow_calls (drop c path))"
proof -
  obtain c c0 where c: "compaction_start path \<le> c" "c \<le> c0" "c0 < length path" "is_cut_point (path ! c0)"
    "\<And>i. c \<le> i \<Longrightarrow> i < c0 \<Longrightarrow> message_from_entry (path ! i) = None"
    "base_id (path ! c) = Some (pr_first_kept_entry_id p)"
    "pr_messages_to_summarize p @ pr_turn_prefix_messages p = entry_messages (slice (compaction_start path) c path)"
    using prepare_cut [OF assms] by metis
  obtain m where m: "message_from_entry (path ! c0) = Some m" "\<not> is_tool_result m"
    using is_cut_point_message [OF c(4)] by blast
  have "\<forall>e \<in> set (slice c c0 path). message_from_entry e = None"
    using c(3,5) by (auto simp: slice_def in_set_conv_nth)
  then have "entry_messages (drop c path) = entry_messages (drop c0 path)"
    using drop_slice [OF c(2), of path] by (simp add: entry_messages_append entry_messages_none)
  also have "\<dots> = m # entry_messages (drop (Suc c0) path)"
    using c(3) m(1) by (simp add: Cons_nth_drop_Suc [symmetric] entry_messages_Cons)
  finally have kept: "entry_messages (drop c path) = m # entry_messages (drop (Suc c0) path)" .
  moreover have "pr_messages_to_summarize p @ pr_turn_prefix_messages p \<noteq> []" using prepare_SomeD(7) [OF assms] by simp
  moreover have "(pr_messages_to_summarize p @ pr_turn_prefix_messages p) @ entry_messages (drop c path) =
      entry_messages (drop (compaction_start path) path)"
    using drop_slice [OF c(1), of path] c(7) by (simp add: entry_messages_append)
  moreover have "results_follow_calls path \<longrightarrow> results_follow_calls (drop c path)"
    using results_follow_drop [OF _ c(2-5)] by blast
  ultimately show ?thesis using c m(2) by (intro exI [of _ c]) auto
qed

text \<open>A compaction entry becomes the end of the current path, with an identifier of its own.\<close>

lemma compaction_appended:
  assumes "session_ok s" and "fresh_ids env s" and "append_compaction env summary first_kept tokens details hook s = (i, t)"
  defines "e \<equiv> CompactionEntry (entry_base_new (oe_now env) (se_leaf_id s) i) summary first_kept tokens details hook"
  shows "session_ok t" and "entries_for_current_path t = entries_for_current_path s @ [e]"
    and "base_id e = Some i" and "i \<notin> entry_id_set (se_entries s)"
    and "base_id e \<notin> base_id ` set (entries_for_current_path s)" and "se_leaf_id t \<noteq> None"
proof -
  let ?mk = "\<lambda>b. CompactionEntry b summary first_kept tokens details hook"
  obtain i' s1 where p: "push_entry env ?mk s = (i', s1)" by force
  have base: "\<And>b. base_of (?mk b) = b" by simp
  have i: "i' = i" and same: "se_entries t = se_entries s1" "se_leaf_id t = se_leaf_id s1"
    using assms(3) p by (auto simp: append_compaction_def append_metadata_def clear_persisted_leaf_override_after_append_def
        enqueue_autosave_mutation_def Let_def split: if_splits)
  show tok: "session_ok t"
    using append_other_ok [OF assms(1,2), of ?mk] assms(3)
    by (simp add: append_compaction_def is_message_entry_def session_name_def)
  show "entries_for_current_path t = entries_for_current_path s @ [e]"
    using append_path [OF assms(1,2) base p tok same] i by (simp add: e_def)
  show id: "base_id e = Some i" by (simp add: e_def base_id_def entry_base_new_def)
  show "i \<notin> entry_id_set (se_entries s)"
    using next_entry_id_fresh [OF assms(1,2)] p i by (auto simp: push_entry_def Let_def)
  then show "base_id e \<notin> base_id ` set (entries_for_current_path s)"
    using current_path_ids(2) [OF assms(1)] id by (auto simp: entry_id_set_iff image_iff)
  show "se_leaf_id t \<noteq> None" using same(2) p by (auto simp: push_entry_def Let_def)
qed

lemma compaction_appended_context:
  assumes "session_ok s" and "fresh_ids env s" and "append_compaction env summary first_kept tokens details hook s = (i, t)"
    and "c < length (entries_for_current_path s)" and "base_id (entries_for_current_path s ! c) = Some first_kept"
  shows "to_messages_for_current_path now t =
    summary_message now summary # concat (map (append_model_message_for_entry now) (drop c (entries_for_current_path s)))"
  using path_after_compaction [OF current_path_ids(1) [OF assms(1)] assms(4,5)] compaction_appended [OF assms(1-3)]
    messages_of_path by simp

text \<open>
  After a compaction the model sees the summary and everything from the cut on. The preparation is made on
  the current path of one session; when its result is stored, the path may have grown by any further
  entries, since the summary is written in the background. In the reachable session it is stored in, the
  conversation for the model is then the summary followed by exactly the messages of the old path from
  the first kept entry on and those of the entries that came in the meantime.
\<close>

theorem compaction_context:
  assumes "prepare_compaction json_len path settings = Some p"
    and "reachable digest s" and "fresh_ids env s" and "entries_for_current_path s = path @ later"
    and "append_compaction env summary (pr_first_kept_entry_id p) tokens details hook s = (i, t)"
  shows "\<exists>c < length path.
    base_id (path ! c) = Some (pr_first_kept_entry_id p) \<and>
    to_messages_for_current_path now t =
      summary_message now summary # concat (map (append_model_message_for_entry now) (drop c path @ later))"
proof -
  obtain c where c: "c < length path" "base_id (path ! c) = Some (pr_first_kept_entry_id p)"
    using prepare_cut [OF assms(1)] by (metis le_less_trans)
  then have "c < length (entries_for_current_path s)"
    "base_id (entries_for_current_path s ! c) = Some (pr_first_kept_entry_id p)"
    using assms(4) by (simp_all add: nth_append)
  note ctx = compaction_appended_context [OF reachable_ok [OF assms(2)] assms(3,5) this, where now = now]
  have "drop c (entries_for_current_path s) = drop c path @ later" using c(1) assms(4) by simp
  then show ?thesis using c ctx by metis
qed

text \<open>
  The files a session has touched_paths are remembered across compactions. If the previous
  compaction stored its lists of files, the lists for the next one are sorted and free of
  repetitions, the modified files are the earlier modified ones and those of the successful
  write and edit calls in what is summarised, and the files only read are the earlier ones and
  those of the successful read calls, less the modified ones.
\<close>

theorem file_lists_cumulative:
  assumes "prepare_compaction json_len path settings = Some p" and "prev_compaction_index path = Some k"
    and "path ! k = CompactionEntry b summary first tokens (Some (compaction_details_to_value d)) hook"
    and "hook \<noteq> Some True" and "compute_file_lists (pr_file_ops p) = (reads, modified)"
  shows "\<exists>status ms. ms = pr_messages_to_summarize p @ pr_turn_prefix_messages p \<and> status = build_tool_status_map ms \<and>
    set modified = set (cd_modified_files d) \<union> touched_paths status write_tools ms \<and>
    set reads = (set (cd_read_files d) \<union> touched_paths status read_tools ms) - set modified \<and>
    sorted modified \<and> distinct modified \<and> sorted reads \<and> distinct reads"
proof -
  define ms where "ms = pr_messages_to_summarize p @ pr_turn_prefix_messages p"
  define status where "status = build_tool_status_map (pr_messages_to_summarize p) ++ build_tool_status_map (pr_turn_prefix_messages p)"
  define ops where "ops = pr_file_ops p"
  have st: "status = build_tool_status_map ms" by (simp add: status_def ms_def tool_status_append)
  have "ops = fold (extract_file_ops_from_message status) ms
      \<lparr>fo_read = set (cd_read_files d), fo_written = {}, fo_edited = set (cd_modified_files d)\<rparr>"
    using prepare_SomeD(8) [OF assms(1)] assms(2,3) previous_details [OF assms(4)]
    by (simp add: ops_def status_def ms_def Let_def)
  then have sets: "fo_read ops = set (cd_read_files d) \<union> touched_paths status read_tools ms"
    "modified_files ops = set (cd_modified_files d) \<union> touched_paths status write_tools ms"
    by (simp_all add: fold_extract_sets) (simp add: modified_files_def)
  have fin: "finite (fo_read ops - modified_files ops)" "finite (modified_files ops)" by (simp_all add: sets touched_finite)
  have lists: "reads = sorted_list_of_set (fo_read ops - modified_files ops)" "modified = sorted_list_of_set (modified_files ops)"
    using assms(5) by (auto simp: compute_file_lists_def modified_files_def ops_def Let_def)
  then have "set modified = modified_files ops" "set reads = fo_read ops - modified_files ops" using fin by simp_all
  then show ?thesis using sets lists st fin
    by (intro exI [of _ status] exI [of _ ms]) (simp add: ms_def)
qed

text \<open>
  C30: A second compaction forgets what the first one kept. If the path already holds a compaction
  whose first kept entry stands before it, the model was shown that entry and all that follow;
  but what is now summarised and what is now kept both lie behind the old compaction, so the
  messages that it had kept are in neither.
\<close>

theorem second_compaction_forgets_kept:
  assumes "prepare_compaction json_len path settings = Some p" and "prev_compaction_index path = Some k"
    and "path ! k = CompactionEntry b summary first tokens details hook"
    and "distinct (map base_id path)" and "j < k" and "base_id (path ! j) = Some first"
  shows "to_messages_from_path now path =
      summary_message now summary # concat (map (append_model_message_for_entry now) (drop j path)) \<and>
    (\<exists>c > k. base_id (path ! c) = Some (pr_first_kept_entry_id p) \<and>
      pr_messages_to_summarize p @ pr_turn_prefix_messages p = entry_messages (slice (k + 1) c path))"
proof -
  have k: "k < length path" by (rule prev_compaction_SomeD(1) [OF assms(2)])
  have lc: "last_compaction path = Some (k, summary, first, tokens)"
    using assms(2,3) by (simp add: last_compaction_index compaction_of_def)
  have "list_ex (\<lambda>e. base_id e = Some first) path" using assms(5,6) k by (auto simp: list_ex_iff intro!: bexI [of _ "path ! j"])
  then have "to_messages_from_path now path =
      summary_message now summary # concat (map (append_model_message_for_entry now) (drop j path))"
    using lc keep_loop_from [OF assms(4) _ assms(6)] assms(5) k
    by (simp add: to_messages_from_path_def summary_message_def)
  moreover obtain c where "compaction_start path \<le> c" "base_id (path ! c) = Some (pr_first_kept_entry_id p)"
    "pr_messages_to_summarize p @ pr_turn_prefix_messages p = entry_messages (slice (compaction_start path) c path)"
    using prepare_cut [OF assms(1)] by metis
  moreover have "compaction_start path = k + 1" using assms(2) by (simp add: compaction_start_def)
  ultimately show ?thesis by (metis Suc_eq_plus1 Suc_le_lessD)
qed

section \<open>Witnesses\<close>

definition user_row :: "string \<Rightarrow> string option \<Rightarrow> session_entry" where
  "user_row i parent = MessageEntry (entry_base_new (lit ''now'') (map_option lit parent) (lit i)) demo_message"

definition demo_compaction :: session_entry where
  "demo_compaction = CompactionEntry (entry_base_new (lit ''now'') (Some (lit ''a'')) (lit ''k'')) (lit ''s'') (lit ''a'') 7
     (Some (compaction_details_to_value \<lparr>cd_read_files = [lit ''r''], cd_modified_files = [lit ''m'']\<rparr>)) None"

definition demo_settings :: compaction_settings where
  "demo_settings = \<lparr>cs_enabled = True, cs_context_window_tokens = 10, cs_reserve_tokens = 10, cs_keep_recent_tokens = 1\<rparr>"

definition demo_path :: "session_entry list" where
  "demo_path = [user_row ''a'' None, demo_compaction, user_row ''b'' (Some ''k''), user_row ''c'' (Some ''b'')]"

lemma user_row_simps [simp]:
  "message_from_entry (user_row i q) = Some demo_message" "is_cut_point (user_row i q)" "is_user_turn_start (user_row i q)"
  "base_id (user_row i q) = Some (lit i)" "\<not> entry_is_compaction_boundary (user_row i q)" "entry_is_message_like (user_row i q)"
  by (simp_all add: user_row_def message_from_entry_def is_cut_point_def is_user_turn_start_def base_id_def entry_base_new_def
      entry_is_compaction_boundary_def entry_is_message_like_def is_tool_result_def demo_message_def)

lemma demo_compaction_simps [simp]:
  "entry_is_compaction_boundary demo_compaction" "base_id demo_compaction = Some (lit ''k'')"
  by (simp_all add: demo_compaction_def entry_is_compaction_boundary_def base_id_def entry_base_new_def)

lemma demo_compacts [simp]: "should_compact tokens (cs_context_window_tokens demo_settings) demo_settings"
  by (simp add: should_compact_def demo_settings_def)

lemma demo_tokens [simp]: "estimate_tokens json_len demo_message = 2"
  by (simp add: estimate_tokens_def message_chars_def demo_message_def div_ceil_def CHARS_PER_TOKEN_ESTIMATE_def byte_len_def
      utf8_char_len_def lit_def)

text \<open>A path that ends in two user messages is cut between them.\<close>

lemma demo_cut:
  "find_cut_point json_len (es @ [user_row i q, user_row j r]) (length es) (Suc (Suc (length es)))
     (cs_keep_recent_tokens demo_settings) =
   \<lparr>cp_first_kept_entry_index = Suc (length es), cp_turn_start_index = None, cp_is_split_turn = False\<rparr>"
proof -
  have cps: "find_valid_cut_points (es @ [user_row i q, user_row j r]) (length es) (Suc (Suc (length es))) =
      [length es, Suc (length es)]"
    by (simp add: find_valid_cut_points_def nth_append)
  show ?thesis
    by (simp add: find_cut_point_def Let_def cps demo_settings_def nth_append sat_defs partition_point_def)
qed

lemma demo_prepare:
  assumes "n = length es" and "compaction_start (es @ [user_row i q, user_row j r]) = n"
  shows "\<exists>p. prepare_compaction json_len (es @ [user_row i q, user_row j r]) demo_settings = Some p"
proof -
  let ?path = "es @ [user_row i q, user_row j r]"
  have "base_id (?path ! Suc n) = Some (lit j)" using assms(1) by (simp add: nth_append)
  moreover have "slice n (Suc n) ?path = [user_row i q]" using assms(1) by (simp add: slice_def)
  ultimately show ?thesis
    using assms demo_cut [of json_len es i q j r]
    by (simp add: prepare_compaction_def Let_def compaction_start_def [symmetric] map_filter_simps)
qed

lemma demo_prev: "prev_compaction_index demo_path = Some 1"
  using prev_compaction_snoc [of "[user_row ''a'' None, demo_compaction, user_row ''b'' (Some ''k'')]" "user_row ''c'' (Some ''b'')"]
    prev_compaction_snoc [of "[user_row ''a'' None, demo_compaction]" "user_row ''b'' (Some ''k'')"]
    prev_compaction_snoc [of "[user_row ''a'' None]" demo_compaction]
  by (simp add: demo_path_def)

lemma demo_prepared: "\<exists>p. prepare_compaction (\<lambda>v. 0) demo_path demo_settings = Some p"
  using demo_prepare [of 2 "[user_row ''a'' None, demo_compaction]" "''b''" "Some ''k''" "''c''" "Some ''b''"] demo_prev
  by (simp add: demo_path_def compaction_start_def)

lemma demo_path_ids: "distinct (map base_id demo_path)"
  by (simp add: demo_path_def lit_def)

theorem compaction_cut_exact_witness:
  "\<exists>p c. prepare_compaction (\<lambda>v. 0) demo_path demo_settings = Some p \<and> c < 4 \<and>
     base_id (demo_path ! c) = Some (pr_first_kept_entry_id p) \<and>
     pr_messages_to_summarize p @ pr_turn_prefix_messages p \<noteq> []"
proof -
  obtain p where p: "prepare_compaction (\<lambda>v. 0) demo_path demo_settings = Some p" using demo_prepared ..
  have "length demo_path = 4" by (simp add: demo_path_def)
  then show ?thesis using compaction_cut_exact [OF p] p by auto
qed

definition two_messages :: session where
  "two_messages = snd (append_message (demo_env (lit ''b'')) demo_message demo_session)"

lemma two_messages_reachable: "reachable digest two_messages"
proof -
  have "fresh_ids (demo_env (lit ''b'')) demo_session"
    by (simp add: fresh_ids_def demo_entries demo_env_def entry_id_set_def map_filter_simps base_id_def entry_base_new_def lit_def)
  then show ?thesis
    by (rule reachable.step [OF demo_reachable, where opn = "OpMessage demo_message"]) (simp add: two_messages_def)
qed

lemma two_messages_entries:
  "se_entries two_messages = [user_row ''a'' None, user_row ''b'' (Some ''a'')]" "se_leaf_id two_messages = Some (lit ''b'')"
  "se_is_linear two_messages"
  using reachable_ok [OF demo_reachable [of "\<lambda>e n. []"]]
  by (simp_all add: two_messages_def append_message_def push_entry_def next_entry_id_def generate_entry_id_def session_ok_def
      demo_env_def clear_persisted_leaf_override_after_append_def enqueue_autosave_mutation_def demo_entries user_row_def
      entry_base_new_def lit_def Let_def upt_rec entry_id_set_def map_filter_simps base_id_def)

theorem compaction_context_witness:
  "\<exists>p c. prepare_compaction (\<lambda>v. 0) (entries_for_current_path two_messages) demo_settings = Some p \<and> c < 2 \<and>
     to_messages_for_current_path 0
       (snd (append_compaction (demo_env (lit ''k'')) (lit ''s'') (pr_first_kept_entry_id p) 7 None None two_messages)) =
     summary_message 0 (lit ''s'') #
       concat (map (append_model_message_for_entry 0) (drop c (entries_for_current_path two_messages)))"
proof -
  have path: "entries_for_current_path two_messages = [user_row ''a'' None, user_row ''b'' (Some ''a'')]"
    by (simp add: entries_for_current_path_def two_messages_entries)
  have "\<exists>p. prepare_compaction (\<lambda>v. 0) (entries_for_current_path two_messages) demo_settings = Some p"
    using demo_prepare [of 0 "[]" "''a''" None "''b''" "Some ''a''"] prev_compaction_snoc [of "[user_row ''a'' None]"] prev_compaction_snoc [of "[]"]
    by (simp add: path compaction_start_def prev_compaction_index_def)
  then obtain p where p: "prepare_compaction (\<lambda>v. 0) (entries_for_current_path two_messages) demo_settings = Some p" ..
  have "fresh_ids (demo_env (lit ''k'')) two_messages"
    by (simp add: fresh_ids_def two_messages_entries user_row_def demo_env_def entry_id_set_def map_filter_simps base_id_def entry_base_new_def lit_def)
  from compaction_context [OF p two_messages_reachable [of "\<lambda>e n. []"] this append_Nil2 [symmetric] surjective_pairing,
      where summary = "lit ''s''" and tokens = 7 and details = None and hook = None and now = 0]
  obtain c where c: "c < length (entries_for_current_path two_messages)"
    "to_messages_for_current_path 0
       (snd (append_compaction (demo_env (lit ''k'')) (lit ''s'') (pr_first_kept_entry_id p) 7 None None two_messages)) =
     summary_message 0 (lit ''s'') #
       concat (map (append_model_message_for_entry 0) (drop c (entries_for_current_path two_messages) @ []))" by blast
  then have "c < 2" by (simp add: path)
  then show ?thesis using p c(2) unfolding append_Nil2 by blast
qed

theorem file_lists_cumulative_witness:
  "\<exists>p reads modified. prepare_compaction (\<lambda>v. 0) demo_path demo_settings = Some p \<and>
     compute_file_lists (pr_file_ops p) = (reads, modified) \<and> lit ''m'' \<in> set modified"
proof -
  obtain p where p: "prepare_compaction (\<lambda>v. 0) demo_path demo_settings = Some p" using demo_prepared ..
  have k: "demo_path ! 1 = CompactionEntry (entry_base_new (lit ''now'') (Some (lit ''a'')) (lit ''k'')) (lit ''s'') (lit ''a'') 7
     (Some (compaction_details_to_value \<lparr>cd_read_files = [lit ''r''], cd_modified_files = [lit ''m'']\<rparr>)) None"
    by (simp add: demo_path_def demo_compaction_def)
  show ?thesis
    using file_lists_cumulative [OF p demo_prev k _ surjective_pairing] p by (metis UnI1 compaction_details.select_convs(2) list.set_intros(1) option.distinct(1) surjective_pairing)
qed

theorem second_compaction_forgets_kept_witness:
  "\<exists>p c. prepare_compaction (\<lambda>v. 0) demo_path demo_settings = Some p \<and> 1 < c \<and>
     pr_messages_to_summarize p @ pr_turn_prefix_messages p = entry_messages (slice 2 c demo_path)"
proof -
  obtain p where p: "prepare_compaction (\<lambda>v. 0) demo_path demo_settings = Some p" using demo_prepared ..
  have "demo_path ! 1 = demo_compaction" "base_id (demo_path ! 0) = Some (lit ''a'')"
    by (simp_all add: demo_path_def user_row_def base_id_def entry_base_new_def)
  then show ?thesis
    using second_compaction_forgets_kept [OF p demo_prev _ demo_path_ids, of _ "lit ''s''" "lit ''a''" 7 _ None 0] p
    unfolding demo_compaction_def by (auto simp: numeral_2_eq_2)
qed

end
