(* ===== verification/Compaction_Summary.thy ===== *)
theory Compaction_Summary
  imports Compaction
begin

text \<open>
  Writing the summary of a compaction (\<open>src/src/compaction.rs\<close>): the conversation as text, the prompts,
  the request to the model, and the result that the session stores. The provider of the model is the
  argument \<open>provider\<close>: for a request it gives an error or the events of its stream. The JSON text of
  a value is the argument \<open>json_text\<close> and \<open>now\<close> is the clock.
\<close>

section \<open>The conversation as text\<close>

definition push_message_separator :: "ustr \<Rightarrow> ustr" where
  "push_message_separator out = (if out \<noteq> [] then out @ [10, 10] else out)"

text \<open>The loops that write blocks with a separator before all but the first.\<close>

fun join_with :: "ustr \<Rightarrow> ustr list \<Rightarrow> ustr" where
  "join_with sep [] = []"
| "join_with sep [x] = x"
| "join_with sep (x # y # xs) = x @ sep @ join_with sep (y # xs)"

definition text_of :: "content_block \<Rightarrow> ustr option" where
  "text_of b = (case b of TextBlock t s \<Rightarrow> Some t | _ \<Rightarrow> None)"

definition thinking_of :: "content_block \<Rightarrow> ustr option" where
  "thinking_of b = (case b of ThinkingBlock t s \<Rightarrow> Some t | _ \<Rightarrow> None)"

definition call_of :: "content_block \<Rightarrow> tool_call_block option" where
  "call_of b = (case b of ToolCallBlock c \<Rightarrow> Some c | _ \<Rightarrow> None)"

definition has_text :: "content_block list \<Rightarrow> bool" where
  "has_text blocks = list_ex (\<lambda>b. case text_of b of Some t \<Rightarrow> t \<noteq> [] | None \<Rightarrow> False) blocks"

definition user_has_serializable_content :: "user_content \<Rightarrow> bool" where
  "user_has_serializable_content c = (case c of TextContent t \<Rightarrow> t \<noteq> [] | BlocksContent blocks \<Rightarrow> has_text blocks)"

definition append_user_message :: "user_content \<Rightarrow> ustr \<Rightarrow> ustr" where
  "append_user_message c out =
     (if \<not> user_has_serializable_content c then out
      else push_message_separator out @ lit ''[User]: '' @
        (case c of TextContent t \<Rightarrow> t | BlocksContent blocks \<Rightarrow> concat (List.map_filter text_of blocks)))"

definition append_custom_message :: "ustr \<Rightarrow> ustr \<Rightarrow> ustr \<Rightarrow> ustr" where
  "append_custom_message custom_type content out =
     (if trim content = [] then out
      else push_message_separator out @ lit ''['' @
        (if trim custom_type = [] then lit ''Custom'' else lit ''Custom:'' @ custom_type) @ lit '']: '' @ content)"

definition assistant_content_flags :: "assistant_message \<Rightarrow> bool \<times> bool \<times> bool" where
  "assistant_content_flags a =
     fold (\<lambda>b (thinking, text, tools).
         case b of
           ThinkingBlock t s \<Rightarrow> (True, text, tools)
         | TextBlock t s \<Rightarrow> (thinking, True, tools)
         | ToolCallBlock c \<Rightarrow> (thinking, text, True)
         | _ \<Rightarrow> (thinking, text, tools))
       (as_content a) (False, False, False)"

definition append_assistant_thinking :: "assistant_message \<Rightarrow> ustr \<Rightarrow> ustr" where
  "append_assistant_thinking a out =
     push_message_separator out @ lit ''[Assistant thinking]: '' @ join_with [10] (List.map_filter thinking_of (as_content a))"

definition append_assistant_text :: "assistant_message \<Rightarrow> ustr \<Rightarrow> ustr" where
  "append_assistant_text a out =
     push_message_separator out @ lit ''[Assistant]: '' @ join_with [10] (List.map_filter text_of (as_content a))"

definition tool_call_arguments :: "(json \<Rightarrow> ustr) \<Rightarrow> json \<Rightarrow> ustr" where
  "tool_call_arguments json_text v =
     (case v of
        JObject members \<Rightarrow> join_with (lit '', '') (map (\<lambda>(k, x). k @ lit ''='' @ json_text x) members)
      | _ \<Rightarrow> json_text v)"

definition append_assistant_tool_calls :: "(json \<Rightarrow> ustr) \<Rightarrow> assistant_message \<Rightarrow> ustr \<Rightarrow> ustr" where
  "append_assistant_tool_calls json_text a out =
     push_message_separator out @ lit ''[Assistant tool calls]: '' @
       join_with (lit ''; '')
         (map (\<lambda>c. tcb_name c @ lit ''('' @ tool_call_arguments json_text (tcb_arguments c) @ lit '')'')
           (List.map_filter call_of (as_content a)))"

definition append_assistant_message :: "(json \<Rightarrow> ustr) \<Rightarrow> assistant_message \<Rightarrow> ustr \<Rightarrow> ustr" where
  "append_assistant_message json_text a out =
     (case assistant_content_flags a of
        (thinking, text, tools) \<Rightarrow>
          let out1 = (if thinking then append_assistant_thinking a out else out);
              out2 = (if text then append_assistant_text a out1 else out1)
          in if tools then append_assistant_tool_calls json_text a out2 else out2)"

definition append_tool_result_message :: "content_block list \<Rightarrow> ustr \<Rightarrow> ustr" where
  "append_tool_result_message content out =
     (if \<not> has_text content then out
      else push_message_separator out @ lit ''[Tool result]: '' @ concat (List.map_filter text_of content))"

definition collect_text_blocks :: "content_block list \<Rightarrow> ustr" where
  "collect_text_blocks blocks = join_with [10] (List.map_filter text_of blocks)"

definition append_any_message :: "(json \<Rightarrow> ustr) \<Rightarrow> message \<Rightarrow> ustr \<Rightarrow> ustr" where
  "append_any_message json_text m out =
     (case m of
        UserMessage c ts \<Rightarrow> append_user_message c out
      | CustomMessage c \<Rightarrow> append_custom_message (cm_custom_type c) (cm_content c) out
      | AssistantMessage a \<Rightarrow> append_assistant_message json_text a out
      | ToolResultMessage r \<Rightarrow> append_tool_result_message (tr_content r) out)"

definition serialize_conversation :: "(json \<Rightarrow> ustr) \<Rightarrow> message list \<Rightarrow> ustr" where
  "serialize_conversation json_text ms = fold (append_any_message json_text) ms []"

section \<open>The lists of files\<close>

definition escape_angle :: "uchar \<Rightarrow> ustr" where
  "escape_angle c = (if c = 60 then lit ''&lt;'' else if c = 62 then lit ''&gt;'' else [c])"

definition escaped_file_list :: "ustr \<Rightarrow> ustr list \<Rightarrow> ustr" where
  "escaped_file_list tag files =
     lit ''<'' @ tag @ lit ''>'' @ [10] @ join_with [10] (map (\<lambda>f. concat (map escape_angle f)) files) @
     [10] @ lit ''</'' @ tag @ lit ''>''"

definition format_file_operations :: "ustr list \<Rightarrow> ustr list \<Rightarrow> ustr" where
  "format_file_operations reads modified =
     (if reads = [] \<and> modified = [] then []
      else [10, 10] @
        (if reads \<noteq> [] then escaped_file_list (lit ''read-files'') reads else []) @
        (if modified \<noteq> [] then
           (if reads \<noteq> [] then [10, 10] else []) @ escaped_file_list (lit ''modified-files'') modified
         else []))"

section \<open>Prompts\<close>

definition SUMMARIZATION_SYSTEM_PROMPT :: ustr where
  \<open>SUMMARIZATION_SYSTEM_PROMPT =
     lit ''You are a context summarization assistant. Your task is to read a conversation between a '' @
     lit ''user and an AI coding assistant, then produce a structured summary following the exact '' @
     lit ''format specified.'' @ [10, 10] @
     lit ''Do NOT continue the conversation. Do NOT respond to any questions in the conversation. '' @
     lit ''ONLY output the structured summary.''\<close>

definition SUMMARIZATION_PROMPT :: ustr where
  \<open>SUMMARIZATION_PROMPT =
     lit ''The messages above are a conversation to summarize. Create a structured context '' @
     lit ''checkpoint summary that another LLM will use to continue the work.'' @ [10, 10] @
     lit ''Use this EXACT format:'' @ [10, 10] @ lit ''## Goal'' @ [10] @
     lit ''[What is the user trying to accomplish? Can be multiple items if the session covers '' @
     lit ''different tasks.]'' @ [10, 10] @ lit ''## Constraints & Preferences'' @ [10] @
     lit ''- [Any constraints, preferences, or requirements mentioned by user]'' @ [10] @
     lit ''- [Or "(none)" if none were mentioned]'' @ [10, 10] @ lit ''## Progress'' @ [10] @ lit ''### Done'' @
     [10] @ lit ''- [x] [Completed tasks/changes]'' @ [10, 10] @ lit ''### In Progress'' @ [10] @
     lit ''- [ ] [Current work]'' @ [10, 10] @ lit ''### Blocked'' @ [10] @
     lit ''- [Issues preventing progress, if any]'' @ [10, 10] @ lit ''## Key Decisions'' @ [10] @
     lit ''- **[Decision]**: [Brief rationale]'' @ [10, 10] @ lit ''## Next Steps'' @ [10] @
     lit ''1. [Ordered list of what should happen next]'' @ [10, 10] @ lit ''## Critical Context'' @ [10] @
     lit ''- [Any data, examples, or references needed to continue]'' @ [10] @
     lit ''- [Or "(none)" if not applicable]'' @ [10, 10] @
     lit ''Keep each section concise. Preserve exact file paths, function names, and error messages.''\<close>

definition UPDATE_SUMMARIZATION_PROMPT :: ustr where
  \<open>UPDATE_SUMMARIZATION_PROMPT =
     lit ''The messages above are NEW conversation messages to incorporate into the existing summary '' @
     lit ''provided in <previous-summary> tags.'' @ [10, 10] @
     lit ''Update the existing structured summary with new information. RULES:'' @ [10] @
     lit ''- PRESERVE all existing information from the previous summary'' @ [10] @
     lit ''- ADD new progress, decisions, and context from the new messages'' @ [10] @
     lit ''- UPDATE the Progress section: move items from "In Progress" to "Done" when completed'' @ [10] @
     lit ''- UPDATE "Next Steps" based on what was accomplished'' @ [10] @
     lit ''- PRESERVE exact file paths, function names, and error messages'' @ [10] @
     lit ''- If something is no longer relevant, you may remove it'' @ [10, 10] @
     lit ''Use this EXACT format:'' @ [10, 10] @ lit ''## Goal'' @ [10] @
     lit ''[Preserve existing goals, add new ones if the task expanded]'' @ [10, 10] @
     lit ''## Constraints & Preferences'' @ [10] @ lit ''- [Preserve existing, add new ones discovered]'' @
     [10, 10] @ lit ''## Progress'' @ [10] @ lit ''### Done'' @ [10] @
     lit ''- [x] [Include previously done items AND newly completed items]'' @ [10, 10] @
     lit ''### In Progress'' @ [10] @ lit ''- [ ] [Current work - update based on progress]'' @ [10, 10] @
     lit ''### Blocked'' @ [10] @ lit ''- [Current blockers - remove if resolved]'' @ [10, 10] @
     lit ''## Key Decisions'' @ [10] @
     lit ''- **[Decision]**: [Brief rationale] (preserve all previous, add new)'' @ [10, 10] @
     lit ''## Next Steps'' @ [10] @ lit ''1. [Update based on current state]'' @ [10, 10] @
     lit ''## Critical Context'' @ [10] @ lit ''- [Preserve important context, add new if needed]'' @ [10, 10] @
     lit ''Keep each section concise. Preserve exact file paths, function names, and error messages.''\<close>

definition TURN_PREFIX_SUMMARIZATION_PROMPT :: ustr where
  \<open>TURN_PREFIX_SUMMARIZATION_PROMPT =
     lit ''This is the PREFIX of a turn that was too large to keep. The SUFFIX (recent work) is '' @
     lit ''retained.'' @ [10, 10] @ lit ''Summarize the prefix to provide context for the retained suffix:'' @
     [10, 10] @ lit ''## Original Request'' @ [10] @ lit ''[What did the user ask for in this turn?]'' @
     [10, 10] @ lit ''## Early Progress'' @ [10] @ lit ''- [Key decisions and work done in the prefix]'' @
     [10, 10] @ lit ''## Context for Suffix'' @ [10] @
     lit ''- [Information needed to understand the retained recent work]'' @ [10, 10] @
     lit ''Be concise. Focus on what's needed to understand the kept suffix.''\<close>

section \<open>Requests\<close>

datatype summary_error = ProviderFailed ustr | ApiError ustr

text \<open>The events of a model's stream.\<close>

datatype stream_event =
    StartEvent assistant_message
  | TextStart usize
  | TextDelta usize ustr
  | TextEnd usize ustr
  | ThinkingStart usize
  | ThinkingDelta usize ustr
  | ThinkingEnd usize ustr
  | ToolCallStart usize ustr ustr
  | ToolCallDelta usize ustr
  | ToolCallEnd usize tool_call_block
  | DoneEvent stop_reason assistant_message
  | ErrorEvent stop_reason assistant_message

record completion_request =
  rq_system_prompt :: ustr
  rq_prompt_text :: ustr
  rq_max_tokens :: u32

type_synonym summary_provider = "completion_request \<Rightarrow> summary_error + (summary_error + stream_event) list"

definition failure_text :: "assistant_message \<Rightarrow> ustr" where
  "failure_text a = (case as_error_message a of Some t \<Rightarrow> t | None \<Rightarrow> lit ''Summarization error'')"

fun read_events :: "(summary_error + stream_event) list \<Rightarrow> assistant_message option \<Rightarrow> summary_error + assistant_message option" where
  "read_events [] final = Inr final"
| "read_events (event # events) final =
     (case event of
        Inl err \<Rightarrow> Inl err
      | Inr (DoneEvent reason a) \<Rightarrow> read_events events (Some a)
      | Inr (ErrorEvent reason a) \<Rightarrow> Inl (ApiError (failure_text a))
      | Inr _ \<Rightarrow> read_events events final)"

text \<open>
  The factor for the token limit is a fraction \<open>num / den\<close>: 0.8 and 0.5 in the code. For a 32-bit
  reserve the rounded-down floating point product is the rounded-down fraction.
\<close>

definition complete_simple :: "summary_provider \<Rightarrow> ustr \<Rightarrow> ustr \<Rightarrow> u32 \<Rightarrow> nat \<Rightarrow> nat \<Rightarrow> summary_error + assistant_message" where
  "complete_simple provider system_prompt prompt_text reserve num den =
     (case provider \<lparr>rq_system_prompt = system_prompt, rq_prompt_text = prompt_text,
                     rq_max_tokens = max (reserve * num div den) 256\<rparr> of
        Inl err \<Rightarrow> Inl err
      | Inr events \<Rightarrow>
          (case read_events events None of
             Inl err \<Rightarrow> Inl err
           | Inr None \<Rightarrow> Inl (ApiError (lit ''Stream ended without Done event''))
           | Inr (Some a) \<Rightarrow>
               if as_stop_reason a \<in> {Aborted, StopError} then Inl (ApiError (failure_text a)) else Inr a))"

definition summary_text :: "ustr \<Rightarrow> summary_error + assistant_message \<Rightarrow> summary_error + ustr" where
  "summary_text complaint r =
     (case r of
        Inl err \<Rightarrow> Inl err
      | Inr a \<Rightarrow>
          let t = collect_text_blocks (as_content a)
          in if trim t = [] then Inl (ApiError complaint) else Inr t)"

definition conversation_text :: "(json \<Rightarrow> ustr) \<Rightarrow> int \<Rightarrow> session_message list \<Rightarrow> ustr" where
  "conversation_text json_text now ms =
     lit ''<conversation>'' @ [10] @ serialize_conversation json_text (List.map_filter (session_message_to_model now) ms) @
     [10] @ lit ''</conversation>'' @ [10, 10]"

definition summary_prompt :: "ustr option \<Rightarrow> ustr option \<Rightarrow> ustr" where
  "summary_prompt custom previous =
     (if previous \<noteq> None then UPDATE_SUMMARIZATION_PROMPT else SUMMARIZATION_PROMPT) @
     (case custom of
        Some c \<Rightarrow> if trim c \<noteq> [] then [10, 10] @ lit ''Additional focus: '' @ c else []
      | None \<Rightarrow> [])"

definition previous_summary_text :: "ustr option \<Rightarrow> ustr" where
  "previous_summary_text previous =
     (case previous of
        Some s \<Rightarrow> lit ''<previous-summary>'' @ [10] @ s @ [10] @ lit ''</previous-summary>'' @ [10, 10]
      | None \<Rightarrow> [])"

definition generate_summary :: "(json \<Rightarrow> ustr) \<Rightarrow> int \<Rightarrow> summary_provider \<Rightarrow> compaction_settings \<Rightarrow> ustr option \<Rightarrow>
  ustr option \<Rightarrow> session_message list \<Rightarrow> summary_error + ustr" where
  "generate_summary json_text now provider settings custom previous ms =
     summary_text (lit ''Summarization returned empty text; refusing to store empty compaction summary'')
       (complete_simple provider SUMMARIZATION_SYSTEM_PROMPT
          (conversation_text json_text now ms @ previous_summary_text previous @ summary_prompt custom previous)
          (cs_reserve_tokens settings) 4 5)"

definition generate_turn_prefix_summary :: "(json \<Rightarrow> ustr) \<Rightarrow> int \<Rightarrow> summary_provider \<Rightarrow> compaction_settings \<Rightarrow>
  session_message list \<Rightarrow> summary_error + ustr" where
  "generate_turn_prefix_summary json_text now provider settings ms =
     summary_text (lit ''Turn prefix summarization returned empty text; refusing to store empty summary'')
       (complete_simple provider SUMMARIZATION_SYSTEM_PROMPT
          (conversation_text json_text now ms @ TURN_PREFIX_SUMMARIZATION_PROMPT) (cs_reserve_tokens settings) 1 2)"

section \<open>The result\<close>

record compaction_result =
  cr_summary :: ustr
  cr_first_kept_entry_id :: ustr
  cr_tokens_before :: u64
  cr_details :: compaction_details

definition summary_body :: "(json \<Rightarrow> ustr) \<Rightarrow> int \<Rightarrow> summary_provider \<Rightarrow> ustr option \<Rightarrow> compaction_preparation \<Rightarrow> summary_error + ustr" where
  "summary_body json_text now provider custom p =
     (if pr_is_split_turn p \<and> pr_turn_prefix_messages p \<noteq> [] then
        (case (if pr_messages_to_summarize p = [] then Inr (lit ''No prior history.'')
               else generate_summary json_text now provider (pr_settings p) custom (pr_previous_summary p)
                      (pr_messages_to_summarize p)) of
           Inl err \<Rightarrow> Inl err
         | Inr history \<Rightarrow>
             (case generate_turn_prefix_summary json_text now provider (pr_settings p) (pr_turn_prefix_messages p) of
                Inl err \<Rightarrow> Inl err
              | Inr prefix \<Rightarrow>
                  Inr (history @ [10, 10] @ lit ''---'' @ [10, 10] @ lit ''**Turn Context (split turn):**'' @ [10, 10] @ prefix)))
      else generate_summary json_text now provider (pr_settings p) custom (pr_previous_summary p)
             (pr_messages_to_summarize p))"

definition compact :: "(json \<Rightarrow> ustr) \<Rightarrow> int \<Rightarrow> summary_provider \<Rightarrow> ustr option \<Rightarrow> compaction_preparation \<Rightarrow>
  summary_error + compaction_result" where
  "compact json_text now provider custom p =
     (case summary_body json_text now provider custom p of
        Inl err \<Rightarrow> Inl err
      | Inr summary \<Rightarrow>
          (case compute_file_lists (pr_file_ops p) of
             (reads, modified) \<Rightarrow>
               Inr \<lparr>cr_summary = summary @ format_file_operations reads modified,
                    cr_first_kept_entry_id = pr_first_kept_entry_id p, cr_tokens_before = pr_tokens_before p,
                    cr_details = \<lparr>cd_read_files = reads, cd_modified_files = modified\<rparr>\<rparr>))"

definition summarize_entries :: "(json \<Rightarrow> ustr) \<Rightarrow> int \<Rightarrow> summary_provider \<Rightarrow> u32 \<Rightarrow> ustr option \<Rightarrow> session_entry list \<Rightarrow>
  summary_error + ustr option" where
  "summarize_entries json_text now provider reserve custom es =
     (let ms = List.map_filter message_from_entry es in
      if ms = [] then Inr None
      else map_sum id Some
        (generate_summary json_text now provider
          (default_compaction_settings\<lparr>cs_enabled := True, cs_reserve_tokens := reserve, cs_keep_recent_tokens := 0\<rparr>)
          custom None ms))"

section \<open>The sections of the conversation\<close>

definition message_sections :: "(json \<Rightarrow> ustr) \<Rightarrow> message \<Rightarrow> ustr list" where
  "message_sections json_text m =
     (case m of
        UserMessage c ts \<Rightarrow>
          if user_has_serializable_content c
          then [lit ''[User]: '' @
            (case c of TextContent t \<Rightarrow> t | BlocksContent blocks \<Rightarrow> concat (List.map_filter text_of blocks))] else []
      | CustomMessage c \<Rightarrow>
          if trim (cm_content c) \<noteq> []
          then [lit ''['' @ (if trim (cm_custom_type c) = [] then lit ''Custom'' else lit ''Custom:'' @ cm_custom_type c) @
            lit '']: '' @ cm_content c] else []
      | AssistantMessage a \<Rightarrow>
          (if List.map_filter thinking_of (as_content a) \<noteq> []
           then [lit ''[Assistant thinking]: '' @ join_with [10] (List.map_filter thinking_of (as_content a))] else []) @
          (if List.map_filter text_of (as_content a) \<noteq> []
           then [lit ''[Assistant]: '' @ join_with [10] (List.map_filter text_of (as_content a))] else []) @
          (if List.map_filter call_of (as_content a) \<noteq> []
           then [lit ''[Assistant tool calls]: '' @
             join_with (lit ''; '')
               (map (\<lambda>c. tcb_name c @ lit ''('' @ tool_call_arguments json_text (tcb_arguments c) @ lit '')'')
                 (List.map_filter call_of (as_content a)))] else [])
      | ToolResultMessage r \<Rightarrow>
          if has_text (tr_content r) then [lit ''[Tool result]: '' @ concat (List.map_filter text_of (tr_content r))] else [])"

lemma join_with_snoc: "xs \<noteq> [] \<Longrightarrow> join_with sep (xs @ [x]) = join_with sep xs @ sep @ x"
  by (induction sep xs rule: join_with.induct) auto

lemma join_with_Nil_iff: "[] \<notin> set xs \<Longrightarrow> join_with sep xs = [] \<longleftrightarrow> xs = []"
  by (induction sep xs rule: join_with.induct) auto

lemma push_section:
  assumes "[] \<notin> set xs"
  shows "push_message_separator (join_with [10, 10] xs) @ x = join_with [10, 10] (xs @ [x])"
  using assms join_with_snoc [of xs "[10, 10]" x] join_with_Nil_iff [OF assms] by (simp add: push_message_separator_def)

lemma label_not_Nil: "lit (c # cs) @ x \<noteq> []"
  by (simp add: lit_def)

lemma sections_not_Nil: "[] \<notin> set (message_sections json_text m)"
  by (auto simp: message_sections_def lit_def split: message.split)

lemma flags_fold:
  "fold (\<lambda>b (thinking, text, tools).
         case b of
           ThinkingBlock t s \<Rightarrow> (True, text, tools)
         | TextBlock t s \<Rightarrow> (thinking, True, tools)
         | ToolCallBlock c \<Rightarrow> (thinking, text, True)
         | _ \<Rightarrow> (thinking, text, tools)) bs (x, y, z) =
   (x \<or> List.map_filter thinking_of bs \<noteq> [], y \<or> List.map_filter text_of bs \<noteq> [], z \<or> List.map_filter call_of bs \<noteq> [])"
  by (induction bs arbitrary: x y z)
    (auto simp: map_filter_simps thinking_of_def text_of_def call_of_def split: content_block.split)

lemma append_any_message_sections:
  assumes "[] \<notin> set xs"
  shows "append_any_message json_text m (join_with [10, 10] xs) = join_with [10, 10] (xs @ message_sections json_text m)"
proof (cases m)
  case (AssistantMessage a)
  define t u v where
    "t = lit ''[Assistant thinking]: '' @ join_with [10] (List.map_filter thinking_of (as_content a))" and
    "u = lit ''[Assistant]: '' @ join_with [10] (List.map_filter text_of (as_content a))" and
    "v = lit ''[Assistant tool calls]: '' @
       join_with (lit ''; '') (map (\<lambda>c. tcb_name c @ lit ''('' @ tool_call_arguments json_text (tcb_arguments c) @ lit '')'')
         (List.map_filter call_of (as_content a)))"
  have ne: "t \<noteq> []" "u \<noteq> []" "v \<noteq> []" by (simp_all add: t_def u_def v_def lit_def)
  have app: "append_assistant_thinking a out = push_message_separator out @ t"
    "append_assistant_text a out = push_message_separator out @ u"
    "append_assistant_tool_calls json_text a out = push_message_separator out @ v" for out
    by (simp_all add: append_assistant_thinking_def append_assistant_text_def append_assistant_tool_calls_def t_def u_def v_def)
  have push: "[] \<notin> set ys \<Longrightarrow> push_message_separator (join_with [10, 10] ys) @ x = join_with [10, 10] (ys @ [x])" for ys x
    by (rule push_section)
  show ?thesis
    using assms ne
    by (auto simp: AssistantMessage append_any_message_def append_assistant_message_def assistant_content_flags_def flags_fold
        message_sections_def app push t_def [symmetric] u_def [symmetric] v_def [symmetric] Let_def)
qed (use push_section [OF assms] in \<open>auto simp: append_any_message_def message_sections_def append_user_message_def
      append_custom_message_def append_tool_result_message_def\<close>)

lemma serialize_sections_run:
  assumes "[] \<notin> set xs"
  shows "fold (append_any_message json_text) ms (join_with [10, 10] xs) =
    join_with [10, 10] (xs @ concat (map (message_sections json_text) ms))"
  using assms
proof (induction ms arbitrary: xs)
  case (Cons m ms)
  have "[] \<notin> set (xs @ message_sections json_text m)" using Cons.prems sections_not_Nil by simp
  then show ?case using Cons.IH [of "xs @ message_sections json_text m"] append_any_message_sections [OF Cons.prems] by simp
qed simp

section \<open>Requests and results\<close>

lemma trim_Nil_iff: "trim s = [] \<longleftrightarrow> (\<forall>c \<in> set s. is_whitespace c)"
  by (auto simp: trim_def trim_end_def trim_start_def dropWhile_eq_Nil_conv dest: set_dropWhileD)
    (metis UnE append_Nil2 set_append set_takeWhileD takeWhile_dropWhile_id)

lemma summary_textD:
  assumes "summary_text complaint (complete_simple provider sys prompt reserve num den) = Inr t"
  shows "\<exists>req events a. provider req = Inr events \<and> rq_prompt_text req = prompt \<and>
    read_events events None = Inr (Some a) \<and> t = collect_text_blocks (as_content a) \<and> trim t \<noteq> []"
  using assms
  by (auto simp: summary_text_def complete_simple_def Let_def split: sum.splits option.splits if_splits)
    (metis completion_request.select_convs(2))

lemma summary_body_cases:
  assumes "summary_body json_text now provider custom p = Inr body"
  obtains t where "generate_summary json_text now provider (pr_settings p) custom (pr_previous_summary p) (pr_messages_to_summarize p) = Inr t"
      and "\<exists>rest. body = t @ rest"
    | "pr_messages_to_summarize p = []" and "\<exists>rest. body = lit ''No prior history.'' @ rest"
  using assms by (auto simp: summary_body_def split: if_splits sum.splits)

section \<open>Properties\<close>

text \<open>
  The text handed to the model for summarising holds every part of the conversation once and
  in order. Although the code builds it by appending with separators, it is the list of the sections
  of the messages (text of the user, thinking, text and tool calls of the assistant, results,
  custom messages) with one blank line between any two, and it is empty only if no message has a
  section.
\<close>

theorem conversation_sections_exact:
  "serialize_conversation json_text ms = join_with [10, 10] (concat (map (message_sections json_text) ms)) \<and>
   (serialize_conversation json_text ms = [] \<longleftrightarrow> concat (map (message_sections json_text) ms) = [])"
proof -
  have "serialize_conversation json_text ms = join_with [10, 10] (concat (map (message_sections json_text) ms))"
    using serialize_sections_run [of "[]" json_text ms] by (simp add: serialize_conversation_def)
  moreover have "[] \<notin> set (concat (map (message_sections json_text) ms))" using sections_not_Nil by auto
  ultimately show ?thesis using join_with_Nil_iff by simp
qed

text \<open>
  What a finished compaction stores. Its summary is never blank, it keeps the first kept entry and
  the token count of the preparation and the lists of files; and if there were messages to
  summarise, the summary begins with the text of an answer to a prompt that holds the
  conversation of exactly these messages followed by the previous summary, if there was one.
\<close>

theorem compact_result:
  assumes "compact json_text now provider custom p = Inr r"
  shows "trim (cr_summary r) \<noteq> [] \<and> cr_first_kept_entry_id r = pr_first_kept_entry_id p \<and>
    cr_tokens_before r = pr_tokens_before p \<and>
    compute_file_lists (pr_file_ops p) = (cd_read_files (cr_details r), cd_modified_files (cr_details r)) \<and>
    (pr_messages_to_summarize p \<noteq> [] \<longrightarrow>
      (\<exists>req events a more rest. provider req = Inr events \<and> read_events events None = Inr (Some a) \<and>
        rq_prompt_text req = conversation_text json_text now (pr_messages_to_summarize p) @
          previous_summary_text (pr_previous_summary p) @ more \<and>
        cr_summary r = collect_text_blocks (as_content a) @ rest))"
proof -
  obtain body where body: "summary_body json_text now provider custom p = Inr body"
    using assms by (auto simp: compact_def split: sum.splits)
  obtain reads modified where lists: "compute_file_lists (pr_file_ops p) = (reads, modified)" by force
  have r: "cr_summary r = body @ format_file_operations reads modified" "cr_first_kept_entry_id r = pr_first_kept_entry_id p"
    "cr_tokens_before r = pr_tokens_before p" "cr_details r = \<lparr>cd_read_files = reads, cd_modified_files = modified\<rparr>"
    using assms by (auto simp: compact_def body lists)
  have "trim (cr_summary r) \<noteq> [] \<and> (pr_messages_to_summarize p \<noteq> [] \<longrightarrow>
      (\<exists>req events a more rest. provider req = Inr events \<and> read_events events None = Inr (Some a) \<and>
        rq_prompt_text req = conversation_text json_text now (pr_messages_to_summarize p) @
          previous_summary_text (pr_previous_summary p) @ more \<and>
        cr_summary r = collect_text_blocks (as_content a) @ rest))"
    using body
  proof (cases rule: summary_body_cases)
    case (1 t)
    obtain req events a where "provider req = Inr events" "read_events events None = Inr (Some a)"
      "rq_prompt_text req = conversation_text json_text now (pr_messages_to_summarize p) @
         previous_summary_text (pr_previous_summary p) @ summary_prompt custom (pr_previous_summary p)"
      "t = collect_text_blocks (as_content a)" "trim t \<noteq> []"
      using summary_textD [OF 1(1) [unfolded generate_summary_def]] by auto
    moreover obtain rest where "cr_summary r = t @ rest" using 1(2) r(1) by auto
    moreover have "trim (cr_summary r) \<noteq> []" using calculation(5,6) by (auto simp: trim_Nil_iff)
    ultimately show ?thesis by blast
  next
    case 2
    have "\<exists>c \<in> set (lit ''No prior history.''). \<not> is_whitespace c" by (simp add: lit_def is_whitespace_def)
    then show ?thesis using 2 r(1) by (auto simp: trim_Nil_iff)
  qed
  then show ?thesis using r lists by simp
qed

text \<open>
  When a compaction splits the first turn after an earlier compaction, the earlier summary is
  lost. There is then nothing to summarise before the turn, and the new summary begins with the
  statement that there is no prior history; the previous summary, which stood for everything
  before, has no influence on the result.
\<close>

theorem split_turn_forgets_previous_summary:
  assumes "pr_is_split_turn p" and "pr_messages_to_summarize p = []" and "pr_turn_prefix_messages p \<noteq> []"
  shows "compact json_text now provider custom (p\<lparr>pr_previous_summary := previous\<rparr>) = compact json_text now provider custom p \<and>
    (\<forall>r. compact json_text now provider custom p = Inr r \<longrightarrow> (\<exists>rest. cr_summary r = lit ''No prior history.'' @ rest))"
  using assms by (auto simp: compact_def summary_body_def split: sum.splits prod.splits)

section \<open>Witnesses\<close>

definition answer_message :: assistant_message where
  "answer_message = \<lparr>as_content = [TextBlock (lit ''ok'') None], as_api = [], as_provider = [], as_model = [],
     as_usage = \<lparr>us_input = 0, us_output = 0, us_cache_read = 0, us_cache_write = 0, us_total_tokens = 0\<rparr>,
     as_stop_reason = Stop, as_stop_details = None, as_error_message = None, as_timestamp = 0\<rparr>"

definition demo_provider :: summary_provider where
  "demo_provider req = Inr [Inr (TextStart 0), Inr (DoneEvent Stop answer_message)]"

lemma demo_answer: "generate_summary (\<lambda>v. []) 0 demo_provider settings custom previous ms = Inr (lit ''ok'')"
  "generate_turn_prefix_summary (\<lambda>v. []) 0 demo_provider settings ms = Inr (lit ''ok'')"
  by (simp_all add: generate_summary_def generate_turn_prefix_summary_def summary_text_def complete_simple_def demo_provider_def
      answer_message_def collect_text_blocks_def map_filter_simps text_of_def trim_Nil_iff is_whitespace_def lit_def)

theorem compact_result_witness:
  "\<exists>p r. prepare_compaction (\<lambda>v. 0) demo_path demo_settings = Some p \<and>
     compact (\<lambda>v. []) 0 demo_provider None p = Inr r \<and> trim (cr_summary r) \<noteq> []"
proof -
  obtain p where p: "prepare_compaction (\<lambda>v. 0) demo_path demo_settings = Some p" using demo_prepared ..
  have "\<exists>r. compact (\<lambda>v. []) 0 demo_provider None p = Inr r"
    by (auto simp: compact_def summary_body_def demo_answer split: prod.split)
  then show ?thesis using p compact_result by blast
qed

text \<open>A path whose first turn after a compaction is split.\<close>

definition answer_row :: session_entry where
  "answer_row = MessageEntry (entry_base_new (lit ''now'') (Some (lit ''b'')) (lit ''c'')) (SmAssistant answer_message)"

definition split_path :: "session_entry list" where
  "split_path = [user_row ''a'' None, demo_compaction, user_row ''b'' (Some ''k''), answer_row]"

lemma answer_row_simps [simp]:
  "message_from_entry answer_row = Some (SmAssistant answer_message)" "is_cut_point answer_row" "\<not> is_user_turn_start answer_row"
  "base_id answer_row = Some (lit ''c'')" "\<not> entry_is_compaction_boundary answer_row"
  "estimate_tokens json_len (SmAssistant answer_message) = 1"
  by (simp_all add: answer_row_def message_from_entry_def is_cut_point_def is_user_turn_start_def base_id_def entry_base_new_def
      entry_is_compaction_boundary_def is_tool_result_def estimate_tokens_def message_chars_def answer_message_def
      add_block_chars_def byte_len_def utf8_char_len_def div_ceil_def CHARS_PER_TOKEN_ESTIMATE_def sat_defs lit_def)

lemma split_cut:
  "find_cut_point json_len (es @ [user_row i q, answer_row]) (length es) (Suc (Suc (length es)))
     (cs_keep_recent_tokens demo_settings) =
   \<lparr>cp_first_kept_entry_index = Suc (length es), cp_turn_start_index = Some (length es), cp_is_split_turn = True\<rparr>"
proof -
  have cps: "find_valid_cut_points (es @ [user_row i q, answer_row]) (length es) (Suc (Suc (length es))) =
      [length es, Suc (length es)]"
    by (simp add: find_valid_cut_points_def nth_append)
  show ?thesis
    by (simp add: find_cut_point_def Let_def cps demo_settings_def nth_append sat_defs partition_point_def find_turn_start_index_def)
qed

lemma split_prev: "prev_compaction_index split_path = Some 1"
  using prev_compaction_snoc [of "[user_row ''a'' None, demo_compaction, user_row ''b'' (Some ''k'')]" answer_row]
    prev_compaction_snoc [of "[user_row ''a'' None, demo_compaction]" "user_row ''b'' (Some ''k'')"]
    prev_compaction_snoc [of "[user_row ''a'' None]" demo_compaction]
  by (simp add: split_path_def)

lemma split_prepared:
  "\<exists>p. prepare_compaction (\<lambda>v. 0) split_path demo_settings = Some p \<and> pr_is_split_turn p \<and>
     pr_messages_to_summarize p = [] \<and> pr_turn_prefix_messages p \<noteq> [] \<and> pr_previous_summary p = Some (lit ''s'')"
proof -
  have cut: "find_cut_point (\<lambda>v. 0) split_path 2 4 (cs_keep_recent_tokens demo_settings) =
      \<lparr>cp_first_kept_entry_index = 3, cp_turn_start_index = Some 2, cp_is_split_turn = True\<rparr>"
    using split_cut [of "\<lambda>v. 0" "[user_row ''a'' None, demo_compaction]" "''b''" "Some ''k''"]
    by (simp add: split_path_def numeral_2_eq_2 numeral_3_eq_3 eval_nat_numeral)
  have path: "length split_path = 4" "split_path \<noteq> []" "\<not> entry_is_compaction_boundary (last split_path)"
    "base_id (split_path ! 3) = Some (lit ''c'')" "compaction_of (split_path ! 1) = Some (lit ''s'', lit ''a'', 7)"
    "slice 2 2 split_path = []" "slice 2 3 split_path = [user_row ''b'' (Some ''k'')]"
    by (simp_all add: split_path_def slice_def demo_compaction_def compaction_of_def)
  show ?thesis
    using path cut split_prev by (simp add: prepare_compaction_def Let_def map_filter_simps numeral_2_eq_2)
qed

theorem split_turn_forgets_previous_summary_witness:
  "\<exists>p. prepare_compaction (\<lambda>v. 0) split_path demo_settings = Some p \<and> pr_previous_summary p = Some (lit ''s'') \<and>
     compact (\<lambda>v. []) 0 demo_provider None (p\<lparr>pr_previous_summary := None\<rparr>) = compact (\<lambda>v. []) 0 demo_provider None p"
  using split_prepared split_turn_forgets_previous_summary by metis

end
