(* ===== verification/Compaction_Worker.thy ===== *)
theory Compaction_Worker
  imports Compaction_Summary Session_Flush
begin

text \<open>
  Compaction in the background: the worker with its quota (\<open>src/src/compaction_worker.rs\<close>) and the agent's
  two-phase step \<open>maybe_compact\<close> (\<open>src/src/agent.rs\<close>), which stores a finished result in the session and may
  start the next compaction. Times are nanoseconds of a monotonic clock and are arguments, as are the
  outcome of the background task, the answer of the hook that extensions have before a compaction, the
  lock of the session, the file system under the save of the session, and the runtime. Log lines are left
  out, and so is the notice of a stored compaction to the extensions, whose outcome is ignored.
\<close>

section \<open>Quota and admission signals\<close>

record compaction_quota =
  cq_cooldown :: nat
  cq_timeout :: nat
  cq_max_attempts_per_session :: u32

definition default_quota :: compaction_quota where
  "default_quota = \<lparr>cq_cooldown = 60 * 10 ^ 9, cq_timeout = 120 * 10 ^ 9, cq_max_attempts_per_session = 100\<rparr>"

record memory_signal =
  ms_available_bytes :: "u64 option"
  ms_required_headroom_bytes :: u64
  ms_pressure :: bool

definition is_pressure :: "memory_signal \<Rightarrow> bool" where
  "is_pressure m =
     (ms_pressure m \<or> (case ms_available_bytes m of Some a \<Rightarrow> a < ms_required_headroom_bytes m | None \<Rightarrow> False))"

record provider_signal =
  ps_p95_latency_ms :: "u64 option"
  ps_max_p95_latency_ms :: "u64 option"
  ps_error_rate_per_mille :: "nat option"
  ps_max_error_rate_per_mille :: "nat option"
  ps_stale :: bool
  ps_degraded :: bool

definition exceeds :: "nat option \<Rightarrow> nat option \<Rightarrow> bool" where
  "exceeds x limit = (case (x, limit) of (Some v, Some m) \<Rightarrow> v > m | _ \<Rightarrow> False)"

definition is_degraded :: "provider_signal \<Rightarrow> bool" where
  "is_degraded p =
     (ps_degraded p \<or> ps_stale p \<or> exceeds (ps_p95_latency_ms p) (ps_max_p95_latency_ms p) \<or>
      exceeds (ps_error_rate_per_mille p) (ps_max_error_rate_per_mille p))"

record queue_signal =
  qs_queued_requests :: u32
  qs_max_queued_requests :: u32
  qs_saturated :: bool

definition is_saturated :: "queue_signal \<Rightarrow> bool" where
  "is_saturated q = (qs_saturated q \<or> (qs_max_queued_requests q > 0 \<and> qs_queued_requests q \<ge> qs_max_queued_requests q))"

record admission_signals =
  as_memory :: "memory_signal option"
  as_provider :: "provider_signal option"
  as_queue :: "queue_signal option"

definition no_signals :: admission_signals where
  "no_signals = \<lparr>as_memory = None, as_provider = None, as_queue = None\<rparr>"

datatype admission_reason =
    Allowed
  | PendingCompaction
  | SessionAttemptLimit
  | Cooldown
  | NoPreparation
  | MemoryPressure
  | ProviderDegraded
  | QueueSaturated

definition reason_as_str :: "admission_reason \<Rightarrow> ustr" where
  "reason_as_str r =
     lit (case r of Allowed \<Rightarrow> ''allowed'' | PendingCompaction \<Rightarrow> ''pending'' | SessionAttemptLimit \<Rightarrow> ''session_attempt_limit''
       | Cooldown \<Rightarrow> ''cooldown'' | NoPreparation \<Rightarrow> ''no_preparation'' | MemoryPressure \<Rightarrow> ''memory_pressure''
       | ProviderDegraded \<Rightarrow> ''provider_degraded'' | QueueSaturated \<Rightarrow> ''queue_saturated'')"

record admission_decision =
  ad_allowed :: bool
  ad_reason :: admission_reason
  ad_tokens_before :: "u64 option"
  ad_attempt_count :: u32
  ad_max_attempts_per_session :: u32
  ad_cooldown_remaining_ms :: u64
  ad_signals :: admission_signals

definition duration_millis_saturating :: "nat \<Rightarrow> u64" where
  "duration_millis_saturating d = min u64_max (d div 10 ^ 6)"

section \<open>The worker\<close>

datatype worker_error =
    WorkerTimedOut
  | WorkerAborted
  | WorkerPanicked
  | CompactError summary_error

type_synonym worker_outcome = "worker_error + compaction_result"

record pending_compaction =
  pc_abort_tx :: bool
  pc_started_at :: nat

record worker_state =
  ws_pending :: "pending_compaction option"
  ws_last_start :: "nat option"
  ws_attempt_count :: u32
  ws_quota :: compaction_quota

definition worker_new :: "compaction_quota \<Rightarrow> worker_state" where
  "worker_new quota = \<lparr>ws_pending = None, ws_last_start = None, ws_attempt_count = 0, ws_quota = quota\<rparr>"

definition cooldown_remaining :: "nat \<Rightarrow> worker_state \<Rightarrow> nat" where
  "cooldown_remaining now w = (case ws_last_start w of None \<Rightarrow> 0 | Some l \<Rightarrow> cq_cooldown (ws_quota w) - (now - l))"

definition quota_block_reason :: "nat \<Rightarrow> worker_state \<Rightarrow> admission_reason option" where
  "quota_block_reason now w =
     (if ws_pending w \<noteq> None then Some PendingCompaction
      else if ws_attempt_count w \<ge> cq_max_attempts_per_session (ws_quota w) then Some SessionAttemptLimit
      else if cooldown_remaining now w \<noteq> 0 then Some Cooldown
      else None)"

definition can_start :: "nat \<Rightarrow> worker_state \<Rightarrow> bool" where
  "can_start now w = (quota_block_reason now w = None)"

definition signal_block_reason :: "compaction_preparation option \<Rightarrow> admission_signals \<Rightarrow> admission_reason" where
  "signal_block_reason prep s =
     (if prep = None then NoPreparation
      else if (case as_memory s of Some m \<Rightarrow> is_pressure m | None \<Rightarrow> False) then MemoryPressure
      else if (case as_provider s of Some p \<Rightarrow> is_degraded p | None \<Rightarrow> False) then ProviderDegraded
      else if (case as_queue s of Some q \<Rightarrow> is_saturated q | None \<Rightarrow> False) then QueueSaturated
      else Allowed)"

definition decide_admission :: "nat \<Rightarrow> compaction_preparation option \<Rightarrow> admission_signals \<Rightarrow> worker_state \<Rightarrow> admission_decision" where
  "decide_admission now prep signals w =
     (let reason = (case quota_block_reason now w of Some r \<Rightarrow> r | None \<Rightarrow> signal_block_reason prep signals) in
      \<lparr>ad_allowed = (reason = Allowed), ad_reason = reason, ad_tokens_before = map_option pr_tokens_before prep,
       ad_attempt_count = ws_attempt_count w, ad_max_attempts_per_session = cq_max_attempts_per_session (ws_quota w),
       ad_cooldown_remaining_ms = duration_millis_saturating (cooldown_remaining now w), ad_signals = signals\<rparr>)"

text \<open>
  The check for a result: \<open>joined\<close> is what the task returned, if it has finished. The flag in the result
  tells whether the abort signal was sent to a task that took too long.
\<close>

definition try_recv :: "nat \<Rightarrow> worker_outcome option \<Rightarrow> worker_state \<Rightarrow> worker_outcome option \<times> bool \<times> worker_state" where
  "try_recv now joined w =
     (case ws_pending w of
        None \<Rightarrow> (None, False, w)
      | Some p \<Rightarrow>
          if now - pc_started_at p > cq_timeout (ws_quota w) then
            (Some (Inl WorkerTimedOut), pc_abort_tx p, w\<lparr>ws_pending := None\<rparr>)
          else (case joined of
                  None \<Rightarrow> (None, False, w)
                | Some outcome \<Rightarrow> (Some outcome, False, w\<lparr>ws_pending := None\<rparr>)))"

definition worker_start :: "nat \<Rightarrow> worker_state \<Rightarrow> worker_state" where
  "worker_start now w =
     w\<lparr>ws_pending := Some \<lparr>pc_abort_tx = True, pc_started_at = now\<rparr>, ws_last_start := Some now,
       ws_attempt_count := sat_add32 (ws_attempt_count w) 1\<rparr>"

definition worker_drop :: "worker_state \<Rightarrow> bool" where
  "worker_drop w = (case ws_pending w of Some p \<Rightarrow> pc_abort_tx p | None \<Rightarrow> False)"

text \<open>
  The task: the abort signal wins over the compaction; a panic of the compaction becomes an error. The
  left side of \<open>finished\<close> is a panic.
\<close>

definition run_compaction_task :: "bool \<Rightarrow> unit + (summary_error + compaction_result) \<Rightarrow> worker_outcome" where
  "run_compaction_task abort finished =
     (if abort then Inl WorkerAborted
      else case finished of
             Inl _ \<Rightarrow> Inl WorkerPanicked
           | Inr (Inl err) \<Rightarrow> Inl (CompactError err)
           | Inr (Inr result) \<Rightarrow> Inr result)"

text \<open>The counts of the admission report: decisions, admissions, rejections and the rejections by reason.\<close>

record admission_evidence =
  ae_decision_count :: nat
  ae_admitted_count :: nat
  ae_rejected_count :: nat
  ae_rejected_by_reason :: "(ustr, nat) btree"

definition compaction_admission_evidence :: "admission_decision list \<Rightarrow> admission_evidence" where
  "compaction_admission_evidence ds =
     \<lparr>ae_decision_count = length ds, ae_admitted_count = length (filter ad_allowed ds),
      ae_rejected_count = length ds - length (filter ad_allowed ds),
      ae_rejected_by_reason =
        fold (\<lambda>d m. if ad_allowed d then m
                    else bt_insert (reason_as_str (ad_reason d))
                      (Suc (case bt_get m (reason_as_str (ad_reason d)) of Some n \<Rightarrow> n | None \<Rightarrow> 0)) m) ds bt_empty\<rparr>"

section \<open>The agent's step\<close>

datatype agent_error =
    WorkerError worker_error
  | SessionLockError ustr
  | SaveError flush_error
  | RuntimeError ustr

datatype compaction_event =
    AutoCompactionStart ustr
  | AutoCompactionEnd "json option" bool bool "agent_error option"

record extension_compaction =
  xc_summary :: ustr
  xc_first_kept_entry_id :: ustr
  xc_tokens_before :: u64
  xc_details :: "json option"

record before_outcome =
  bo_cancel :: bool
  bo_compaction :: "extension_compaction option"

record apply_env =
  ap_lock :: "ustr option"
  ap_env :: op_env
  ap_save :: save_env

record step_inputs =
  si_recv_at :: nat
  si_check_at :: nat
  si_admit_at :: nat
  si_start_at :: nat
  si_joined :: "worker_outcome option"
  si_apply :: apply_env
  si_prepare_lock :: "ustr option"
  si_before :: "compaction_preparation \<Rightarrow> session_entry list \<Rightarrow> before_outcome"
  si_apply_extension :: apply_env
  si_runtime :: "ustr option"

record compact_agent =
  ca_settings :: compaction_settings
  ca_save_enabled :: bool
  ca_worker :: worker_state
  ca_session :: session
  ca_is_compacting :: bool
  ca_events :: "compaction_event list"

definition emit :: "compaction_event \<Rightarrow> compact_agent \<Rightarrow> compact_agent" where
  "emit e a = a\<lparr>ca_events := ca_events a @ [e]\<rparr>"

definition auto_compaction_result_payload :: "ustr \<Rightarrow> ustr \<Rightarrow> u64 \<Rightarrow> json option \<Rightarrow> json" where
  "auto_compaction_result_payload summary first_kept tokens details =
     JObject ([(lit ''summary'', JString summary), (lit ''firstKeptEntryId'', JString first_kept),
               (lit ''tokensBefore'', JNumber (decimal tokens))] @
              (case details of Some d \<Rightarrow> [(lit ''details'', d)] | None \<Rightarrow> []))"

text \<open>From here on \<open>None\<close> stands for a step that does not return.\<close>

type_synonym step_result = "(agent_error option \<times> compact_agent) option"

definition apply_compaction_entry :: "(session_entry \<Rightarrow> nat \<Rightarrow> ustr) \<Rightarrow> apply_env \<Rightarrow> ustr \<Rightarrow> ustr \<Rightarrow> u64 \<Rightarrow> json option \<Rightarrow>
  bool \<Rightarrow> compact_agent \<Rightarrow> step_result" where
  "apply_compaction_entry digest ap summary first_kept tokens details from_extension a =
     (case ap_lock ap of
        Some err \<Rightarrow> Some (Some (SessionLockError err), a)
      | None \<Rightarrow>
          let s = snd (append_compaction (ap_env ap) summary first_kept tokens details
                         (if from_extension then Some True else None) (ca_session a))
          in if ca_save_enabled a
             then map_option (\<lambda>(err, s1). (map_option SaveError err, a\<lparr>ca_session := s1\<rparr>))
                    (session_flush digest (ap_save ap) Periodic s)
             else Some (None, a\<lparr>ca_session := s\<rparr>))"

definition apply_compaction_result :: "(session_entry \<Rightarrow> nat \<Rightarrow> ustr) \<Rightarrow> apply_env \<Rightarrow> compaction_result \<Rightarrow> compact_agent \<Rightarrow>
  step_result" where
  "apply_compaction_result digest ap result a =
     (let details = Some (compaction_details_to_value (cr_details result)) in
      case apply_compaction_entry digest ap (cr_summary result) (cr_first_kept_entry_id result) (cr_tokens_before result)
             details False a of
        None \<Rightarrow> None
      | Some (Some err, a1) \<Rightarrow> Some (Some err, a1)
      | Some (None, a1) \<Rightarrow>
          Some (None, emit (AutoCompactionEnd
             (Some (auto_compaction_result_payload (cr_summary result) (cr_first_kept_entry_id result)
                (cr_tokens_before result) details)) False False None) a1))"

text \<open>The first phase: a finished (or timed out) background compaction is taken from the worker and applied.\<close>

definition receive_phase :: "(session_entry \<Rightarrow> nat \<Rightarrow> ustr) \<Rightarrow> step_inputs \<Rightarrow> compact_agent \<Rightarrow> step_result" where
  "receive_phase digest si a =
     (case try_recv (si_recv_at si) (si_joined si) (ca_worker a) of
        (None, _, w) \<Rightarrow> Some (None, a\<lparr>ca_worker := w\<rparr>)
      | (Some outcome, _, w) \<Rightarrow>
          let a1 = a\<lparr>ca_worker := w, ca_is_compacting := False\<rparr> in
          (case outcome of
             Inr result \<Rightarrow> apply_compaction_result digest (si_apply si) result a1
           | Inl err \<Rightarrow> Some (None, emit (AutoCompactionEnd None False False (Some (WorkerError err))) a1)))"

definition apply_extension_compaction :: "(session_entry \<Rightarrow> nat \<Rightarrow> ustr) \<Rightarrow> apply_env \<Rightarrow> extension_compaction \<Rightarrow>
  compact_agent \<Rightarrow> step_result" where
  "apply_extension_compaction digest ap x a =
     (case apply_compaction_entry digest ap (xc_summary x) (xc_first_kept_entry_id x) (xc_tokens_before x) (xc_details x) True
             (a\<lparr>ca_is_compacting := True\<rparr>) of
        None \<Rightarrow> None
      | Some (Some err, a1) \<Rightarrow> Some (Some err, a1\<lparr>ca_is_compacting := False\<rparr>)
      | Some (None, a1) \<Rightarrow>
          Some (None, emit (AutoCompactionEnd
             (Some (auto_compaction_result_payload (xc_summary x) (xc_first_kept_entry_id x) (xc_tokens_before x) (xc_details x)))
             False False None) (a1\<lparr>ca_is_compacting := False\<rparr>)))"

text \<open>What happens once a preparation is there.\<close>

definition launch_phase :: "(session_entry \<Rightarrow> nat \<Rightarrow> ustr) \<Rightarrow> step_inputs \<Rightarrow> session_entry list \<Rightarrow> compaction_preparation \<Rightarrow>
  compact_agent \<Rightarrow> step_result" where
  "launch_phase digest si entries prep a =
     (let admission = decide_admission (si_admit_at si) (Some prep) no_signals (ca_worker a) in
      if \<not> ad_allowed admission then Some (None, a)
      else
        let a = emit (AutoCompactionStart (lit ''threshold;admission='' @ reason_as_str (ad_reason admission))) a;
            before = si_before si prep entries
        in if bo_cancel before then Some (None, emit (AutoCompactionEnd None True False None) a)
           else case bo_compaction before of
                  Some x \<Rightarrow> apply_extension_compaction digest (si_apply_extension si) x a
                | None \<Rightarrow>
                    (case si_runtime si of
                       Some err \<Rightarrow> Some (None, emit (AutoCompactionEnd None False False (Some (RuntimeError err))) a)
                     | None \<Rightarrow>
                         Some (None, a\<lparr>ca_worker := worker_start (si_start_at si) (ca_worker a), ca_is_compacting := True\<rparr>)))"

text \<open>The whole step; the identifiers the session lacks are assigned before the next compaction is prepared.\<close>

definition maybe_compact :: "(session_entry \<Rightarrow> nat \<Rightarrow> ustr) \<Rightarrow> (json \<Rightarrow> nat) \<Rightarrow> step_inputs \<Rightarrow> compact_agent \<Rightarrow> step_result" where
  "maybe_compact digest json_len si a =
     (if \<not> cs_enabled (ca_settings a) then Some (None, a)
      else case receive_phase digest si a of
             None \<Rightarrow> None
           | Some (Some err, a1) \<Rightarrow> Some (Some err, a1)
           | Some (None, a1) \<Rightarrow>
               if \<not> can_start (si_check_at si) (ca_worker a1) then Some (None, a1)
               else case si_prepare_lock si of
                      Some err \<Rightarrow> Some (Some (SessionLockError err), a1)
                    | None \<Rightarrow>
                        (case ensure_entry_ids digest (ca_session a1) of
                           None \<Rightarrow> None
                         | Some s \<Rightarrow>
                             let entries = entries_for_current_path s; a2 = a1\<lparr>ca_session := s\<rparr> in
                             (case prepare_compaction json_len entries (ca_settings a2) of
                                None \<Rightarrow> Some (None, a2)
                              | Some prep \<Rightarrow> launch_phase digest si entries prep a2)))"

section \<open>What the model sees after a stored compaction\<close>

text \<open>The entries from the first kept one on; none, when it is not on the path.\<close>

definition kept_from :: "ustr \<Rightarrow> session_entry list \<Rightarrow> session_entry list" where
  "kept_from first_kept path = dropWhile (\<lambda>e. base_id e \<noteq> Some first_kept) path"

lemma keep_loop_stale:
  assumes "Some first_kept \<notin> base_id ` set es" and "append_model_message_for_entry now e = []"
  shows "keep_loop now h first_kept (idx + length es) idx False False (es @ [e]) = []"
  using assms(1)
proof (induction es arbitrary: idx)
  case (Cons x es)
  then have "base_id x \<noteq> Some first_kept" and "Some first_kept \<notin> base_id ` set es" by (auto simp: image_iff)
  then show ?case using Cons.IH [of "Suc idx"] by (simp add: Let_def)
qed (simp add: Let_def assms(2))

lemma stored_compaction_context:
  assumes "session_ok s" and "fresh_ids env s" and "append_compaction env summary first_kept tokens details hook s = (i, t)"
  shows "to_messages_for_current_path now t =
    summary_message now summary #
      concat (map (append_model_message_for_entry now) (kept_from first_kept (entries_for_current_path s)))"
proof -
  let ?path = "entries_for_current_path s"
  show ?thesis
  proof (cases "Some first_kept \<in> base_id ` set ?path")
    case True
    then obtain c where c: "c < length ?path" "base_id (?path ! c) = Some first_kept" by (auto simp: in_set_conv_nth)
    have "base_id e \<noteq> Some first_kept" if e: "e \<in> set (take c ?path)" for e
    proof -
      obtain k where k: "k < c" "e = ?path ! k"
        using e c(1) by (auto simp: in_set_conv_nth)
      then have "map base_id ?path ! k \<noteq> map base_id ?path ! c"
        using current_path_ids(1) [OF assms(1)] c(1) by (simp add: nth_eq_iff_index_eq del: nth_map)
      then show ?thesis using k c by simp
    qed
    then have "kept_from first_kept (take c ?path @ drop c ?path) = drop c ?path"
      unfolding kept_from_def using c by (subst dropWhile_append2) (auto simp: Cons_nth_drop_Suc [symmetric])
    then show ?thesis using compaction_appended_context [OF assms c] by simp
  next
    case False
    note app = compaction_appended [OF assms]
    let ?e = "CompactionEntry (entry_base_new (oe_now env) (se_leaf_id s) i) summary first_kept tokens details hook"
    have "last_compaction (?path @ [?e]) = Some (length ?path, summary, first_kept, tokens)"
      by (rule last_compaction_snoc) (simp add: compaction_of_def)
    moreover have "append_model_message_for_entry now ?e = []" by (simp add: append_model_message_for_entry_def)
    ultimately have "to_messages_from_path now (?path @ [?e]) = [summary_message now summary]"
      using keep_loop_stale [OF False, of now ?e _ 0] by (simp add: to_messages_from_path_def summary_message_def)
    moreover have "kept_from first_kept ?path = []" 
      using False unfolding kept_from_def dropWhile_eq_Nil_conv by (metis imageI)
    ultimately show ?thesis using messages_of_path [OF app(1,6)] app(2) by simp
  qed
qed

text \<open>Assigning missing identifiers changes nothing in a session whose entries all have one.\<close>

lemma ensure_ids_keeps:
  assumes "session_ok s"
  obtains t where "ensure_entry_ids digest s = Some t" and "session_ok t"
    and "entries_for_current_path t = entries_for_current_path s" and "se_leaf_id t = se_leaf_id s"
proof -
  have "entries_ok (se_entries s)" "leaf_ok (se_entries s) (se_leaf_id s)" using assms by (simp_all add: session_ok_def)
  then obtain t where t: "rebuild_all_caches digest s = Some t" "session_ok t" "se_entries t = se_entries s"
    "se_leaf_id t = se_leaf_id s" by (rule rebuild_ok)
  have "entries_for_current_path t = entries_for_current_path s"
    using path_unique [OF t(2), of "rev (entries_for_current_path s)"] path_is_up_path [OF assms] t(3,4) by simp
  then show thesis using that t by (simp add: ensure_entry_ids_def)
qed

lemma messages_same:
  assumes "session_ok s" and "session_ok t" and "entries_for_current_path t = entries_for_current_path s"
    and "se_leaf_id t = se_leaf_id s"
  shows "to_messages_for_current_path now t = to_messages_for_current_path now s"
  using assms messages_of_path [of s now] messages_of_path [of t now]
  by (cases "se_leaf_id s") (simp_all add: to_messages_for_current_path_def)

lemma no_preparation_after_compaction:
  assumes "path \<noteq> []" and "entry_is_compaction_boundary (last path)"
  shows "prepare_compaction json_len path settings = None"
  using assms by (simp add: prepare_compaction_def)

text \<open>
  The file under a save that follows the append of an entry with identifier \<open>i\<close>: it agrees with the session as it was
  before the append, and no other process has used the identifier.
\<close>

definition save_ready :: "save_env \<Rightarrow> ustr \<Rightarrow> session \<Rightarrow> bool" where
  "save_ready sv i s \<longleftrightarrow> se_persisted_entry_count s \<le> length (se_entries s) \<and>
     (\<forall>disk. sv_opened sv = Inr (Some disk) \<longrightarrow>
        file_agrees (sv_encode sv) disk s \<and> Some i \<notin> base_id ` set (se_entries disk))"

lemma compaction_persisted:
  "se_persisted_entry_count (snd (append_compaction env su fk n d h s)) = se_persisted_entry_count s"
  "fst (append_compaction env su fk n d h s) = next_entry_id env s"
  "se_entries (snd (append_compaction env su fk n d h s)) =
     se_entries s @ [CompactionEntry (entry_base_new (oe_now env) (se_leaf_id s) (next_entry_id env s)) su fk n d h]"
  by (simp_all add: append_compaction_def append_metadata_def push_entry_def enqueue_autosave_mutation_def
    clear_persisted_leaf_override_after_append_def Let_def)

lemma append_files_agree:
  assumes "save_ready sv i s" and "se_entries t = se_entries s @ [e]" and "base_id e = Some i"
    and "se_persisted_entry_count t = se_persisted_entry_count s"
  shows "files_agree sv t"
  unfolding files_agree_def
proof (intro allI impI)
  fix disk assume "sv_opened sv = Inr (Some disk)"
  then have f: "file_agrees (sv_encode sv) disk s" "Some i \<notin> base_id ` set (se_entries disk)"
    and n: "se_persisted_entry_count s \<le> length (se_entries s)" using assms(1) by (auto simp: save_ready_def)
  have "base_id d \<noteq> base_id e" if "d \<in> set (se_entries disk)" for d using f(2) that assms(3) by (metis imageI)
  then show "file_agrees (sv_encode sv) disk t" using f(1) n assms(2,4) by (auto simp: file_agrees_def)
qed

text \<open>
  Storing the entry, with or without the save: the session is sound, its current path is the old one and the
  new entry, and only the save can fail.
\<close>

lemma entry_stored:
  assumes "session_ok (ca_session a)" and "fresh_ids (ap_env ap) (ca_session a)" and "ap_lock ap = None"
    and "ca_save_enabled a \<Longrightarrow> save_ready (ap_save ap) (next_entry_id (ap_env ap) (ca_session a)) (ca_session a)"
  obtains err s t where
    "apply_compaction_entry digest ap summary first_kept tokens details x a = Some (map_option SaveError err, a\<lparr>ca_session := t\<rparr>)"
    and "ca_save_enabled a \<or> err = None" and "same_conversation s t" and "session_ok s"
    and "append_compaction (ap_env ap) summary first_kept tokens details (if x then Some True else None) (ca_session a) =
      (next_entry_id (ap_env ap) (ca_session a), s)"
proof -
  let ?i = "next_entry_id (ap_env ap) (ca_session a)" and ?h = "if x then Some True else None"
  obtain s where app: "append_compaction (ap_env ap) summary first_kept tokens details ?h (ca_session a) = (?i, s)"
    using compaction_persisted(2) by (metis prod.collapse)
  note stored = compaction_appended [OF assms(1,2) app]
  show thesis
  proof (cases "ca_save_enabled a")
    case True
    note grown = compaction_persisted(1,3) [of "ap_env ap" summary first_kept tokens details ?h "ca_session a", unfolded app snd_conv]
    then have "files_agree (ap_save ap) s"
      using append_files_agree [OF assms(4) [OF True] grown(2) _ grown(1)] stored(3) by blast
    then obtain err t where "session_flush digest (ap_save ap) Periodic s = Some (err, t)" "same_conversation s t"
      using flush_keeps_conversation [of s "ap_save ap" digest Periodic] stored by auto
    then show thesis using that [of err t s] True app assms(3) stored(1)
      by (simp add: apply_compaction_entry_def Let_def)
  next
    case False
    then show thesis using that [of None s s] app assms(3) stored(1) same_conversation_frame(1) [OF stored(1)]
      by (simp add: apply_compaction_entry_def Let_def)
  qed
qed

text \<open>The step that finds a finished result: the entry is appended and no further compaction is begun.\<close>

lemma result_stored:
  assumes "cs_enabled (ca_settings a)" and "ws_pending (ca_worker a) = Some p"
    and "si_recv_at si - pc_started_at p \<le> cq_timeout (ws_quota (ca_worker a))"
    and "si_joined si = Some (Inr r)" and "ap_lock (si_apply si) = None" and "si_prepare_lock si = None"
    and "ca_save_enabled a \<Longrightarrow>
      save_ready (ap_save (si_apply si)) (next_entry_id (ap_env (si_apply si)) (ca_session a)) (ca_session a)"
    and "session_ok (ca_session a)" and "fresh_ids (ap_env (si_apply si)) (ca_session a)"
  obtains err a' where "maybe_compact digest json_len si a = Some (map_option SaveError err, a')"
    and "ca_save_enabled a \<or> err = None" and "session_ok (ca_session a')"
    and "ws_pending (ca_worker a') = None" and "\<not> ca_is_compacting a'"
    and "to_messages_for_current_path now (ca_session a') =
      summary_message now (cr_summary r) #
        concat (map (append_model_message_for_entry now)
          (kept_from (cr_first_kept_entry_id r) (entries_for_current_path (ca_session a))))"
proof -
  define d where "d = Some (compaction_details_to_value (cr_details r))"
  define b where "b = a\<lparr>ca_worker := (ca_worker a)\<lparr>ws_pending := None\<rparr>, ca_is_compacting := False\<rparr>"
  have sel: "ca_session b = ca_session a" "ca_save_enabled b = ca_save_enabled a" "ca_settings b = ca_settings a"
    by (simp_all add: b_def)
  obtain err s t where e: "apply_compaction_entry digest (si_apply si) (cr_summary r) (cr_first_kept_entry_id r)
      (cr_tokens_before r) d False b = Some (map_option SaveError err, b\<lparr>ca_session := t\<rparr>)"
    "ca_save_enabled a \<or> err = None" "same_conversation s t" "session_ok s"
    "append_compaction (ap_env (si_apply si)) (cr_summary r) (cr_first_kept_entry_id r) (cr_tokens_before r) d None
      (ca_session a) = (next_entry_id (ap_env (si_apply si)) (ca_session a), s)"
    by (rule entry_stored [of b "si_apply si" digest "cr_summary r" "cr_first_kept_entry_id r" "cr_tokens_before r" d False])
      (use assms(5,7-9) sel in auto)
  note stored = compaction_appended [OF assms(8,9) e(5)] and ctx = stored_compaction_context [OF assms(8,9) e(5), of now]
  have t: "session_ok t" "entries_for_current_path t = entries_for_current_path s" "se_leaf_id t = se_leaf_id s"
    using e(3) by (simp_all add: same_conversation_def)
  have msg: "to_messages_for_current_path now t = to_messages_for_current_path now s"
    by (rule messages_same [OF e(4) t])
  have recv: "receive_phase digest si a = apply_compaction_result digest (si_apply si) r b"
    using assms(2-4) by (simp add: receive_phase_def try_recv_def b_def Let_def)
  show thesis
  proof (cases err)
    case (Some x)
    then have "maybe_compact digest json_len si a = Some (map_option SaveError err, b\<lparr>ca_session := t\<rparr>)"
      using e(1) assms(1) by (simp add: maybe_compact_def recv apply_compaction_result_def d_def Let_def)
    then show thesis using that e(2) t(1) msg ctx by (simp add: b_def)
  next
    case None
    define a1 where "a1 = emit (AutoCompactionEnd (Some (auto_compaction_result_payload (cr_summary r)
        (cr_first_kept_entry_id r) (cr_tokens_before r) d)) False False None) (b\<lparr>ca_session := t\<rparr>)"
    have a1: "ca_session a1 = t" "ws_pending (ca_worker a1) = None" "\<not> ca_is_compacting a1"
      by (simp_all add: a1_def emit_def b_def)
    have r1: "receive_phase digest si a = Some (None, a1)"
      using e(1) None by (simp add: recv apply_compaction_result_def d_def a1_def Let_def)
    obtain u where u: "ensure_entry_ids digest t = Some u" "session_ok u"
      "entries_for_current_path u = entries_for_current_path t" "se_leaf_id u = se_leaf_id t"
      by (rule ensure_ids_keeps [OF t(1)])
    have "prepare_compaction json_len (entries_for_current_path u) st = None" for st
      by (rule no_preparation_after_compaction) (simp_all add: u(3) t(2) stored(2) entry_is_compaction_boundary_def)
    then have "maybe_compact digest json_len si a =
        Some (None, if can_start (si_check_at si) (ca_worker a1) then a1\<lparr>ca_session := u\<rparr> else a1)"
      using assms(1,6) u(1) a1(1) by (simp add: maybe_compact_def r1 Let_def)
    moreover have "to_messages_for_current_path now u = to_messages_for_current_path now t"
      by (rule messages_same [OF t(1) u(2-4)])
    ultimately show thesis
      using that [of None "if can_start (si_check_at si) (ca_worker a1) then a1\<lparr>ca_session := u\<rparr> else a1"]
        a1 ctx msg u(2) t(1) by auto
  qed
qed

section \<open>How often compactions start\<close>

text \<open>
  The steps of a session one after the other, with the start times of the compactions that were begun; a
  step that does not return ends the run. Within a step and from step to step the clock does not go
  back.
\<close>

fun run_steps :: "(session_entry \<Rightarrow> nat \<Rightarrow> ustr) \<Rightarrow> (json \<Rightarrow> nat) \<Rightarrow> step_inputs list \<Rightarrow> compact_agent \<Rightarrow> nat list \<times> compact_agent" where
  "run_steps digest json_len [] a = ([], a)"
| "run_steps digest json_len (si # sis) a =
     (case maybe_compact digest json_len si a of
        None \<Rightarrow> ([], a)
      | Some (err, a1) \<Rightarrow>
          (case run_steps digest json_len sis a1 of
             (starts, a2) \<Rightarrow>
               ((if ws_attempt_count (ca_worker a1) \<noteq> ws_attempt_count (ca_worker a) then [si_start_at si] else []) @ starts, a2)))"

fun clock_ok :: "nat \<Rightarrow> step_inputs list \<Rightarrow> bool" where
  "clock_ok t [] = True"
| "clock_ok t (si # sis) =
     (t \<le> si_recv_at si \<and> si_recv_at si \<le> si_check_at si \<and> si_check_at si \<le> si_admit_at si \<and>
      si_admit_at si \<le> si_start_at si \<and> clock_ok (si_start_at si) sis)"

lemma emit_sel [simp]:
  "ca_worker (emit e a) = ca_worker a" "ca_session (emit e a) = ca_session a" "ca_settings (emit e a) = ca_settings a"
  by (simp_all add: emit_def)

lemma apply_entry_worker:
  "apply_compaction_entry digest ap su fk n d x a = Some (err, b) \<Longrightarrow> ca_worker b = ca_worker a"
  by (auto simp: apply_compaction_entry_def Let_def split: option.splits if_splits)

lemma apply_result_worker:
  "apply_compaction_result digest ap r a = Some (err, b) \<Longrightarrow> ca_worker b = ca_worker a"
  by (auto simp: apply_compaction_result_def Let_def split: option.splits dest!: apply_entry_worker)

lemma apply_extension_worker:
  "apply_extension_compaction digest ap x a = Some (err, b) \<Longrightarrow> ca_worker b = ca_worker a"
  by (auto simp: apply_extension_compaction_def Let_def split: option.splits dest!: apply_entry_worker)

text \<open>Outside a start, only the pending task of the worker changes.\<close>

definition same_starts :: "worker_state \<Rightarrow> worker_state \<Rightarrow> bool" where
  "same_starts v w \<longleftrightarrow> ws_last_start v = ws_last_start w \<and> ws_attempt_count v = ws_attempt_count w \<and> ws_quota v = ws_quota w"

lemma receive_phase_starts:
  assumes "receive_phase digest si a = Some (err, b)"
  shows "same_starts (ca_worker b) (ca_worker a)"
proof -
  obtain r x w where t: "try_recv (si_recv_at si) (si_joined si) (ca_worker a) = (r, x, w)" by (metis prod.exhaust)
  then have "same_starts w (ca_worker a)"
    by (auto simp: try_recv_def same_starts_def split: option.splits if_splits)
  moreover have "ca_worker b = w"
    using assms t by (auto simp: receive_phase_def Let_def split: option.splits sum.splits dest!: apply_result_worker)
  ultimately show ?thesis by simp
qed

lemma launch_phase_starts:
  assumes "launch_phase digest si es prep a = Some (err, b)"
  shows "ca_worker b = ca_worker a \<or>
   (can_start (si_admit_at si) (ca_worker a) \<and> ca_worker b = worker_start (si_start_at si) (ca_worker a))"
proof -
  have "can_start (si_admit_at si) (ca_worker a)"
    if "ad_allowed (decide_admission (si_admit_at si) (Some prep) no_signals (ca_worker a))"
    using that by (auto simp: decide_admission_def can_start_def quota_block_reason_def Let_def split: if_splits)
  then show ?thesis
    using assms by (auto simp: launch_phase_def Let_def split: option.splits if_splits dest!: apply_extension_worker)
qed

lemma maybe_compact_starts:
  assumes "maybe_compact digest json_len si a = Some (err, a1)"
  obtains "same_starts (ca_worker a1) (ca_worker a)"
  | w where "same_starts w (ca_worker a)" and "can_start (si_admit_at si) w" and "ca_worker a1 = worker_start (si_start_at si) w"
proof (cases "cs_enabled (ca_settings a)")
  case True
  obtain e b where recv: "receive_phase digest si a = Some (e, b)"
    using assms True by (cases "receive_phase digest si a") (auto simp: maybe_compact_def)
  have b: "same_starts (ca_worker b) (ca_worker a)" by (rule receive_phase_starts [OF recv])
  consider "ca_worker a1 = ca_worker b"
    | es prep s where "launch_phase digest si es prep (b\<lparr>ca_session := s\<rparr>) = Some (err, a1)"
    using assms True by (auto simp: maybe_compact_def recv Let_def split: if_splits option.splits)
  then show thesis
  proof cases
    case 2
    then show thesis using launch_phase_starts [OF 2] that b by auto
  qed (use that b in auto)
next
  case False
  then show thesis using assms that by (simp add: maybe_compact_def same_starts_def)
qed

definition spaced_after :: "worker_state \<Rightarrow> nat \<Rightarrow> bool" where
  "spaced_after w x = (case ws_last_start w of Some l \<Rightarrow> l + cq_cooldown (ws_quota w) \<le> x | None \<Rightarrow> True)"

lemma start_spaced:
  assumes "same_starts w v" and "can_start now w" and "\<forall>l. ws_last_start v = Some l \<longrightarrow> l \<le> now" and "now \<le> at"
  shows "spaced_after v at" and "ws_attempt_count v < cq_max_attempts_per_session (ws_quota v)"
  using assms by (auto simp: same_starts_def can_start_def quota_block_reason_def cooldown_remaining_def spaced_after_def
    split: if_splits option.splits)

lemma run_starts:
  assumes "clock_ok t sis" and "\<forall>l. ws_last_start (ca_worker a) = Some l \<longrightarrow> l \<le> t"
    and "ws_attempt_count (ca_worker a) \<le> cq_max_attempts_per_session (ws_quota (ca_worker a))"
    and "cq_max_attempts_per_session (ws_quota (ca_worker a)) \<le> u32_max"
    and "run_steps digest json_len sis a = (starts, a')"
  shows "list_all (spaced_after (ca_worker a)) starts \<and>
    sorted_wrt (\<lambda>x y. x + cq_cooldown (ws_quota (ca_worker a)) \<le> y) starts \<and>
    ws_attempt_count (ca_worker a) + length starts \<le> cq_max_attempts_per_session (ws_quota (ca_worker a)) \<and>
    ws_attempt_count (ca_worker a') = ws_attempt_count (ca_worker a) + length starts"
  using assms
proof (induction sis arbitrary: t a starts a')
  case (Cons si sis)
  show ?case
  proof (cases "maybe_compact digest json_len si a")
    case None
    then show ?thesis using Cons.prems by simp
  next
    case (Some r)
    obtain err a1 where r: "maybe_compact digest json_len si a = Some (err, a1)" using Some by (cases r) auto
    obtain later a2 where rest: "run_steps digest json_len sis a1 = (later, a2)" by force
    have clock: "t \<le> si_admit_at si" "si_admit_at si \<le> si_start_at si" "clock_ok (si_start_at si) sis"
      using Cons.prems(1) by auto
    from r show ?thesis
    proof (cases rule: maybe_compact_starts)
      case 1
      then have "\<forall>l. ws_last_start (ca_worker a1) = Some l \<longrightarrow> l \<le> si_start_at si"
        using Cons.prems(2) clock by (auto simp: same_starts_def)
      moreover have "spaced_after (ca_worker a1) = spaced_after (ca_worker a)"
        using 1 by (auto simp: same_starts_def spaced_after_def fun_eq_iff split: option.splits)
      ultimately show ?thesis
        using Cons.IH [OF clock(3) _ _ _ rest] 1 Cons.prems(3-5) r rest by (auto simp: same_starts_def)
    next
      case (2 w)
      have last: "\<forall>l. ws_last_start (ca_worker a) = Some l \<longrightarrow> l \<le> si_admit_at si" using Cons.prems(2) clock by auto
      note sp = start_spaced [OF 2(1,2) last clock(2)]
      have w1: "ws_last_start (ca_worker a1) = Some (si_start_at si)" "ws_quota (ca_worker a1) = ws_quota (ca_worker a)"
        "ws_attempt_count (ca_worker a1) = Suc (ws_attempt_count (ca_worker a))"
        using 2 sp(2) Cons.prems(4) by (auto simp: same_starts_def worker_start_def sat_add32_def)
      have IH: "list_all (spaced_after (ca_worker a1)) later \<and>
          sorted_wrt (\<lambda>x y. x + cq_cooldown (ws_quota (ca_worker a)) \<le> y) later \<and>
          Suc (ws_attempt_count (ca_worker a)) + length later \<le> cq_max_attempts_per_session (ws_quota (ca_worker a)) \<and>
          ws_attempt_count (ca_worker a2) = Suc (ws_attempt_count (ca_worker a)) + length later"
        using Cons.IH [OF clock(3) _ _ _ rest] w1 sp(2) Cons.prems(4) by simp
      have "starts = si_start_at si # later" and "a' = a2" using Cons.prems(5) r rest w1(3) by auto
      moreover have "\<forall>x \<in> set later. si_start_at si + cq_cooldown (ws_quota (ca_worker a)) \<le> x"
        using IH w1 by (auto simp: list_all_iff spaced_after_def)
      moreover from this have "list_all (spaced_after (ca_worker a)) later"
        using sp(1) by (fastforce simp: list_all_iff spaced_after_def split: option.splits)
      ultimately show ?thesis using IH sp(1) by simp
    qed
  qed
qed simp

section \<open>Properties\<close>

text \<open>
  Background compactions are rationed. However often the agent takes its step and whatever tasks, hooks,
  locks, saves and runtimes answer, as long as the clock does not go back: at most
  \<open>max_attempts_per_session\<close> compactions are ever started in the session, any two starts lie at least
  the cooldown apart, and the attempt counter is exactly the number of starts.
\<close>

theorem compactions_rationed:
  assumes "ca_worker a = worker_new quota" and "cq_max_attempts_per_session quota \<le> u32_max" and "clock_ok 0 sis"
    and "run_steps digest json_len sis a = (starts, a')"
  shows "length starts \<le> cq_max_attempts_per_session quota \<and>
    sorted_wrt (\<lambda>x y. x + cq_cooldown quota \<le> y) starts \<and> ws_attempt_count (ca_worker a') = length starts"
  using run_starts [OF assms(3) _ _ _ assms(4)] assms(1,2) by (simp add: worker_new_def)

text \<open>
  C33: A finished background compaction is stored in the session the agent has now, and the model then sees its
  summary followed by the messages of the current path from the first kept entry on. In any reachable
  session, a step that finds the task finished within its time and obtains the session's lock returns,
  leaves no task pending, begins no other compaction, and keeps the session's invariant. The only
  error it can report is that of the save, when saving is enabled; what the model sees is the same
  whether the save rewrites the file, extends it or fails at any point, as long as other processes
  have only added rows to the file.
\<close>

theorem background_result_applied:
  assumes "reachable digest (ca_session a)" and "fresh_ids (ap_env (si_apply si)) (ca_session a)"
    and "cs_enabled (ca_settings a)" and "ws_pending (ca_worker a) = Some p"
    and "si_recv_at si - pc_started_at p \<le> cq_timeout (ws_quota (ca_worker a))" and "si_joined si = Some (Inr r)"
    and "ap_lock (si_apply si) = None" and "si_prepare_lock si = None"
    and "ca_save_enabled a \<longrightarrow>
      save_ready (ap_save (si_apply si)) (next_entry_id (ap_env (si_apply si)) (ca_session a)) (ca_session a)"
  shows "\<exists>err a'. maybe_compact digest json_len si a = Some (map_option SaveError err, a') \<and>
    (ca_save_enabled a \<or> err = None) \<and> ws_pending (ca_worker a') = None \<and>
    \<not> ca_is_compacting a' \<and> session_ok (ca_session a') \<and>
    to_messages_for_current_path now (ca_session a') =
      summary_message now (cr_summary r) #
        concat (map (append_model_message_for_entry now)
          (kept_from (cr_first_kept_entry_id r) (entries_for_current_path (ca_session a))))"
  by (rule result_stored [OF assms(3-8) _ reachable_ok [OF assms(1)] assms(2), of digest json_len now])
    (use assms(9) in blast)+


section \<open>Concrete steps\<close>

definition demo_result :: "ustr \<Rightarrow> compaction_result" where
  "demo_result first_kept =
     \<lparr>cr_summary = lit ''s'', cr_first_kept_entry_id = first_kept, cr_tokens_before = 7,
      cr_details = \<lparr>cd_read_files = [], cd_modified_files = []\<rparr>\<rparr>"

text \<open>A file that already has the two messages of the session.\<close>

definition demo_save :: save_env where
  "demo_save =
     \<lparr>sv_begin_at = 0, sv_end_at = 1, sv_uuid = lit ''u'', sv_resolve = None, sv_directory = None, sv_access = None,
      sv_missing = False, sv_appends_since_checkpoint = 0, sv_checkpoint_interval = 50, sv_opened = Inr (Some two_messages),
      sv_ends_with_newline = Inr True, sv_skipped_lines = [], sv_terminal_line = 3, sv_write = None,
      sv_encode_header = (\<lambda>h. Some (hd_id h)), sv_encode = base_id\<rparr>"

definition demo_apply :: apply_env where
  "demo_apply = \<lparr>ap_lock = None, ap_env = demo_env (lit ''k''), ap_save = demo_save\<rparr>"

definition demo_inputs :: "worker_outcome option \<Rightarrow> step_inputs" where
  "demo_inputs joined =
     \<lparr>si_recv_at = 5, si_check_at = 5, si_admit_at = 5, si_start_at = 6, si_joined = joined, si_apply = demo_apply,
      si_prepare_lock = None, si_before = (\<lambda>p es. \<lparr>bo_cancel = False, bo_compaction = None\<rparr>),
      si_apply_extension = demo_apply, si_runtime = None\<rparr>"

definition demo_agent :: "worker_state \<Rightarrow> compact_agent" where
  "demo_agent w =
     \<lparr>ca_settings = demo_settings\<lparr>cs_enabled := True\<rparr>, ca_save_enabled = True, ca_worker = w, ca_session = two_messages,
      ca_is_compacting = False, ca_events = []\<rparr>"

lemma demo_path_two: "entries_for_current_path two_messages = [user_row ''a'' None, user_row ''b'' (Some ''a'')]"
  by (simp add: entries_for_current_path_def two_messages_entries)

lemma demo_fresh: "fresh_ids (demo_env (lit ''k'')) two_messages"
  by (simp add: fresh_ids_def two_messages_entries user_row_def demo_env_def entry_id_set_def map_filter_simps base_id_def
    entry_base_new_def lit_def)

definition busy :: worker_state where
  "busy = worker_start 1 (worker_new default_quota)"

lemma demo_sel [simp]:
  "ws_pending busy = Some \<lparr>pc_abort_tx = True, pc_started_at = 1\<rparr>" "cq_timeout (ws_quota busy) = 120 * 10 ^ 9"
  "ca_worker (demo_agent w) = w" "ca_session (demo_agent w) = two_messages" "cs_enabled (ca_settings (demo_agent w))"
  "ap_save demo_apply = demo_save" "si_recv_at (demo_inputs x) = 5" "si_joined (demo_inputs x) = x"
  "si_apply (demo_inputs x) = demo_apply" "si_prepare_lock (demo_inputs x) = None" "ap_lock demo_apply = None"
  "ap_env demo_apply = demo_env (lit ''k'')" "cr_summary (demo_result f) = lit ''s''" "cr_first_kept_entry_id (demo_result f) = f"
  by (simp_all add: busy_def worker_start_def worker_new_def default_quota_def demo_agent_def demo_inputs_def demo_apply_def
    demo_result_def)

theorem compactions_rationed_witness:
  "length (fst (run_steps (\<lambda>e n. []) (\<lambda>v. 0) [demo_inputs None] (demo_agent (worker_new default_quota)))) \<le> 100 \<and>
   clock_ok 0 [demo_inputs None]"
proof -
  have clock: "clock_ok 0 [demo_inputs None]" by (simp add: demo_inputs_def)
  have "cq_max_attempts_per_session default_quota \<le> u32_max" by (simp add: default_quota_def u32_max_def)
  from compactions_rationed [OF _ this clock surjective_pairing, of "demo_agent (worker_new default_quota)"] clock
  show ?thesis by (simp add: demo_agent_def default_quota_def)
qed

lemma message_persisted: "se_persisted_entry_count (snd (append_message env m s)) = se_persisted_entry_count s"
  by (simp add: append_message_def push_entry_def enqueue_autosave_mutation_def
    clear_persisted_leaf_override_after_append_def Let_def)

lemma demo_persisted: "se_persisted_entry_count two_messages = 0"
  by (simp add: two_messages_def demo_session_def message_persisted in_memory_def)

lemma demo_ready: "save_ready demo_save (next_entry_id (demo_env (lit ''k'')) two_messages) two_messages"
proof -
  have ok: "session_ok two_messages" by (rule reachable_ok [OF two_messages_reachable])
  have "next_entry_id (demo_env (lit ''k'')) two_messages \<notin> entry_id_set (se_entries two_messages)"
    by (rule next_entry_id_fresh [OF ok demo_fresh])
  moreover have "d = e" if "d \<in> set (se_entries two_messages)" "e \<in> set (se_entries two_messages)" "base_id d = base_id e" for d e
    using that by (auto simp: two_messages_entries user_row_def base_id_def entry_base_new_def lit_def)
  ultimately show ?thesis
    using ok by (auto simp: save_ready_def file_agrees_def demo_save_def demo_persisted session_ok_def entry_id_set_iff)
qed

theorem background_result_applied_witness:
  "\<exists>err a'. maybe_compact (\<lambda>e n. []) (\<lambda>v. 0) (demo_inputs (Some (Inr (demo_result (lit ''b'')))))
      (demo_agent busy) = Some (map_option SaveError err, a') \<and>
    to_messages_for_current_path 0 (ca_session a') =
      summary_message 0 (lit ''s'') # concat (map (append_model_message_for_entry 0) [user_row ''b'' (Some ''a'')])"
proof -
  have kept: "kept_from (lit ''b'') [user_row ''a'' None, user_row ''b'' (Some ''a'')] = [user_row ''b'' (Some ''a'')]"
    by (simp add: kept_from_def user_row_def base_id_def entry_base_new_def lit_def)
  show ?thesis
    using background_result_applied [of "\<lambda>e n. []" "demo_agent busy" "demo_inputs (Some (Inr (demo_result (lit ''b''))))"
        "\<lparr>pc_abort_tx = True, pc_started_at = 1\<rparr>" "demo_result (lit ''b'')" "\<lambda>v. 0" 0]
      two_messages_reachable demo_fresh demo_ready
    by (simp add: demo_path_two kept) blast
qed


end
