(* ===== verification/Superinstructions.thy ===== *)
theory Superinstructions
  imports Ordered_Map "HOL-Library.Product_Lexorder" "HOL-Library.Sublist" "HOL-Library.Multiset"
begin

text \<open>
  The compiler for recurring traces of host calls (\<open>src/src/hostcall_superinstructions.rs\<close>): it counts the
  windows of opcodes that recur in recorded traces, makes a fused plan of each that recurs often
  enough, and selects a plan for a trace. Opcodes are texts; the counters saturate at 32 bits, the
  costs at 64 bits, and the signature is a 64-bit hash. The settings from the environment are
  arguments.
\<close>

section \<open>Plans\<close>

type_synonym opcode = ustr

definition HOSTCALL_SUPERINSTRUCTION_SCHEMA_VERSION :: ustr where
  "HOSTCALL_SUPERINSTRUCTION_SCHEMA_VERSION = lit ''pi.ext.hostcall_superinstruction.v1''"

definition HOSTCALL_SUPERINSTRUCTION_PLAN_VERSION :: nat where
  "HOSTCALL_SUPERINSTRUCTION_PLAN_VERSION = 1"

definition DEFAULT_MIN_SUPPORT :: u32 where
  "DEFAULT_MIN_SUPPORT = 3"

definition DEFAULT_MAX_WINDOW :: usize where
  "DEFAULT_MAX_WINDOW = 4"

definition BASE_OPCODE_COST_UNITS :: int where
  "BASE_OPCODE_COST_UNITS = 10"

definition FUSED_OPCODE_FIXED_COST_UNITS :: int where
  "FUSED_OPCODE_FIXED_COST_UNITS = 6"

definition FUSED_OPCODE_STEP_COST_UNITS :: int where
  "FUSED_OPCODE_STEP_COST_UNITS = 2"

record super_plan =
  sp_schema :: ustr
  sp_version :: nat
  sp_plan_id :: ustr
  sp_trace_signature :: ustr
  sp_opcode_window :: "opcode list"
  sp_support_count :: u32
  sp_cost_baseline :: int
  sp_cost_fused :: int
  sp_cost_delta :: int

definition plan_width :: "super_plan \<Rightarrow> usize" where
  "plan_width p = length (sp_opcode_window p)"

definition prefix_matches :: "opcode list \<Rightarrow> opcode list \<Rightarrow> bool" where
  "prefix_matches window trace = (length trace \<ge> length window \<and> list_all (\<lambda>(left, right). left = right) (zip trace window))"

definition matches_trace_prefix :: "super_plan \<Rightarrow> opcode list \<Rightarrow> bool" where
  "matches_trace_prefix p trace = prefix_matches (sp_opcode_window p) trace"

section \<open>Costs and signatures\<close>

definition sat_i64 :: "int \<Rightarrow> int" where
  "sat_i64 x = max (- i64_max - 1) (min i64_max x)"

definition width_units :: "usize \<Rightarrow> int" where
  "width_units width = min i64_max (int width)"

definition estimated_baseline_cost :: "usize \<Rightarrow> int" where
  "estimated_baseline_cost width = sat_i64 (width_units width * BASE_OPCODE_COST_UNITS)"

definition estimated_fused_cost :: "usize \<Rightarrow> int" where
  "estimated_fused_cost width =
     sat_i64 (FUSED_OPCODE_FIXED_COST_UNITS + sat_i64 (width_units width * FUSED_OPCODE_STEP_COST_UNITS))"

text \<open>The UTF-8 bytes of a character, and the FNV-1a hash over the opcodes, each followed by a bar.\<close>

definition utf8_bytes :: "uchar \<Rightarrow> nat list" where
  "utf8_bytes c =
     (if c < 128 then [c]
      else if c < 2048 then [192 + c div 64, 128 + c mod 64]
      else if c < 65536 then [224 + c div 4096, 128 + c div 64 mod 64, 128 + c mod 64]
      else [240 + c div 262144, 128 + c div 4096 mod 64, 128 + c div 64 mod 64, 128 + c mod 64])"

definition hash_byte :: "nat \<Rightarrow> 64 word \<Rightarrow> 64 word" where
  "hash_byte byte hash = xor hash (of_nat byte) * 0x100000001b3"

definition opcode_bytes :: "opcode \<Rightarrow> nat list" where
  "opcode_bytes opc = concat (map utf8_bytes opc) @ [124]"

definition hex16_digit :: "nat \<Rightarrow> uchar" where
  "hex16_digit d = (if d < 10 then 48 + d else 87 + d)"

definition hex16 :: "64 word \<Rightarrow> ustr" where
  "hex16 w = map (\<lambda>i. hex16_digit (unat w div 16 ^ i mod 16)) (rev [0..<16])"

definition opcode_window_signature :: "opcode list \<Rightarrow> ustr" where
  "opcode_window_signature window =
     hex16 (fold (\<lambda>opc hash. fold hash_byte (opcode_bytes opc) hash) window 0xcbf29ce484222325)"

section \<open>The compiler\<close>

record super_compiler =
  sc_enabled :: bool
  sc_min_support :: u32
  sc_max_window :: usize

definition compiler_from_settings :: "bool \<Rightarrow> u32 option \<Rightarrow> usize option \<Rightarrow> super_compiler" where
  "compiler_from_settings enabled min_support max_window =
     \<lparr>sc_enabled = enabled,
      sc_min_support = (case min_support of Some v \<Rightarrow> max v 2 | None \<Rightarrow> DEFAULT_MIN_SUPPORT),
      sc_max_window = (case max_window of Some v \<Rightarrow> max v 2 | None \<Rightarrow> DEFAULT_MAX_WINDOW)\<rparr>"

definition bool_setting :: "ustr option \<Rightarrow> bool \<Rightarrow> bool" where
  "bool_setting raw fallback =
     (case raw of
        None \<Rightarrow> fallback
      | Some v \<Rightarrow>
          let s = to_ascii_lowercase (trim v) in
          if s \<in> {lit ''1'', lit ''true'', lit ''on'', lit ''enabled'', lit ''yes''} then True
          else if s \<in> {lit ''0'', lit ''false'', lit ''off'', lit ''disabled'', lit ''no''} then False
          else fallback)"

definition window_at :: "opcode list \<Rightarrow> usize \<Rightarrow> usize \<Rightarrow> opcode list" where
  "window_at trace width start = take width (drop start trace)"

definition has_blank :: "opcode list \<Rightarrow> bool" where
  "has_blank window = list_ex (\<lambda>opc. trim opc = []) window"

text \<open>
  One pass over a trace at one width: \<open>next_valid\<close> tells from which position on a window may be counted
  again, so that overlapping occurrences are not counted twice.
\<close>

fun scan_width :: "opcode list \<Rightarrow> usize \<Rightarrow> usize list \<Rightarrow> (opcode list, usize) btree \<Rightarrow> (opcode list, u32) btree \<Rightarrow>
  (opcode list, u32) btree" where
  "scan_width trace width [] next_valid windows = windows"
| "scan_width trace width (start # starts) next_valid windows =
     (let window = window_at trace width start in
      if has_blank window then scan_width trace width starts next_valid windows
      else
        let min_start = (case bt_get next_valid window of Some v \<Rightarrow> v | None \<Rightarrow> 0) in
        if start \<ge> min_start then
          scan_width trace width starts (bt_insert window (start + width) next_valid)
            (bt_insert window (sat_add32 (case bt_get windows window of Some n \<Rightarrow> n | None \<Rightarrow> 0) 1) windows)
        else scan_width trace width starts next_valid windows)"

definition scan_trace :: "usize \<Rightarrow> opcode list \<Rightarrow> (opcode list, u32) btree \<Rightarrow> (opcode list, u32) btree" where
  "scan_trace max_window trace windows =
     (if length trace < 2 then windows
      else fold (\<lambda>width. scan_width trace width [0..<Suc (length trace - width)] bt_empty)
             [2..<Suc (min max_window (length trace))] windows)"

definition plan_of_window :: "u32 \<Rightarrow> opcode list \<times> u32 \<Rightarrow> super_plan option" where
  "plan_of_window min_support entry =
     (case entry of
        (window, support) \<Rightarrow>
          if support < min_support then None
          else
            let baseline = estimated_baseline_cost (length window);
                fused = estimated_fused_cost (length window);
                delta = sat_i64 (baseline - fused)
            in if delta \<le> 0 then None
               else Some \<lparr>sp_schema = HOSTCALL_SUPERINSTRUCTION_SCHEMA_VERSION,
                     sp_version = HOSTCALL_SUPERINSTRUCTION_PLAN_VERSION,
                     sp_plan_id = lit ''fuse_'' @ opcode_window_signature window,
                     sp_trace_signature = opcode_window_signature window, sp_opcode_window = window,
                     sp_support_count = support, sp_cost_baseline = baseline, sp_cost_fused = fused,
                     sp_cost_delta = delta\<rparr>)"

definition plan_rank :: "super_plan \<Rightarrow> int \<times> int \<times> int \<times> opcode list \<times> ustr" where
  "plan_rank p = (- sp_cost_delta p, - int (sp_support_count p), - int (plan_width p), sp_opcode_window p, sp_plan_id p)"

definition compile_plans :: "super_compiler \<Rightarrow> opcode list list \<Rightarrow> super_plan list" where
  "compile_plans c traces =
     (if \<not> sc_enabled c then []
      else sort_key plan_rank
        (List.map_filter (plan_of_window (sc_min_support c)) (fold (scan_trace (sc_max_window c)) traces bt_empty)))"

section \<open>Selection\<close>

datatype deopt_reason = EmptyTrace | NoMatchingPlan | AmbiguousTopPlan

record plan_selection =
  sl_trace_signature :: ustr
  sl_plan_id :: "ustr option"
  sl_window :: "opcode list option"
  sl_cost_delta :: int
  sl_deopt_reason :: "deopt_reason option"

definition selection_hit :: "plan_selection \<Rightarrow> bool" where
  "selection_hit s = (sl_plan_id s \<noteq> None)"

definition no_selection :: "opcode list \<Rightarrow> deopt_reason \<Rightarrow> plan_selection" where
  "no_selection trace reason =
     \<lparr>sl_trace_signature = opcode_window_signature trace, sl_plan_id = None, sl_window = None, sl_cost_delta = 0,
      sl_deopt_reason = Some reason\<rparr>"

definition match_rank :: "super_plan \<Rightarrow> int \<times> int \<times> int \<times> ustr" where
  "match_rank p = (- sp_cost_delta p, - int (sp_support_count p), - int (plan_width p), sp_plan_id p)"

definition same_rank :: "super_plan \<Rightarrow> super_plan \<Rightarrow> bool" where
  "same_rank p q =
     (sp_cost_delta p = sp_cost_delta q \<and> sp_support_count p = sp_support_count q \<and> plan_width p = plan_width q)"

definition select_plan_for_trace :: "opcode list \<Rightarrow> super_plan list \<Rightarrow> plan_selection" where
  "select_plan_for_trace trace plans =
     (if trace = [] then no_selection trace EmptyTrace
      else case sort_key match_rank (filter (\<lambda>p. matches_trace_prefix p trace) plans) of
             [] \<Rightarrow> no_selection trace NoMatchingPlan
           | best # others \<Rightarrow>
               if list_ex (same_rank best) others then no_selection trace AmbiguousTopPlan
               else \<lparr>sl_trace_signature = opcode_window_signature trace, sl_plan_id = Some (sp_plan_id best),
                     sl_window = Some (sp_opcode_window best), sl_cost_delta = sp_cost_delta best,
                     sl_deopt_reason = None\<rparr>)"

record super_execution =
  ex_canonical_trace :: "opcode list"
  ex_fused_trace :: "opcode list"
  ex_selection :: plan_selection

definition execute_with_superinstruction :: "opcode list \<Rightarrow> super_plan list \<Rightarrow> super_execution" where
  "execute_with_superinstruction trace plans =
     (let selection = select_plan_for_trace trace plans in
      if \<not> selection_hit selection then
        \<lparr>ex_canonical_trace = trace, ex_fused_trace = trace, ex_selection = selection\<rparr>
      else
        let marker = (case sl_plan_id selection of Some i \<Rightarrow> [lit ''@'' @ i] | None \<Rightarrow> []);
            consumed = min (case sl_window selection of Some w \<Rightarrow> length w | None \<Rightarrow> 0) (length trace)
        in \<lparr>ex_canonical_trace = trace, ex_fused_trace = marker @ drop consumed trace, ex_selection = selection\<rparr>)"

section \<open>How often a window recurs\<close>

text \<open>
  The reference for the support of a window: its occurrences in a trace are the positions at which it
  stands, and its support in the trace is the largest number of occurrences of which no two overlap.
\<close>

definition occurrences :: "opcode list \<Rightarrow> opcode list \<Rightarrow> usize set" where
  "occurrences trace w = {s. s + length w \<le> length trace \<and> window_at trace (length w) s = w}"

definition non_overlapping :: "usize \<Rightarrow> usize set \<Rightarrow> bool" where
  "non_overlapping width S = (\<forall>s \<in> S. \<forall>t \<in> S. s < t \<longrightarrow> s + width \<le> t)"

definition max_disjoint :: "opcode list \<Rightarrow> opcode list \<Rightarrow> nat" where
  "max_disjoint trace w = Max (card ` {S. S \<subseteq> occurrences trace w \<and> non_overlapping (length w) S})"

definition fusible :: "usize \<Rightarrow> opcode list \<Rightarrow> bool" where
  "fusible max_window w = (2 \<le> length w \<and> length w \<le> max_window \<and> \<not> has_blank w)"

definition support_of :: "opcode list list \<Rightarrow> opcode list \<Rightarrow> u32" where
  "support_of traces w = min u32_max (\<Sum>trace\<leftarrow>traces. max_disjoint trace w)"

text \<open>The greedy choice the scan makes for one window: from left to right, every occurrence that is still allowed.\<close>

fun greedy :: "(usize \<Rightarrow> bool) \<Rightarrow> usize \<Rightarrow> usize list \<Rightarrow> usize \<Rightarrow> nat" where
  "greedy P width [] m = 0"
| "greedy P width (s # ss) m =
     (if P s \<and> m \<le> s then Suc (greedy P width ss (s + width)) else greedy P width ss m)"

lemma greedy_achieves:
  assumes "sorted_wrt (<) ss"
  shows "\<exists>S. S \<subseteq> {s \<in> set ss. P s \<and> m \<le> s} \<and> non_overlapping width S \<and> finite S \<and> card S = greedy P width ss m"
  using assms
proof (induction ss arbitrary: m)
  case Nil
  then show ?case by (auto simp: non_overlapping_def)
next
  case (Cons s ss)
  show ?case
  proof (cases "P s \<and> m \<le> s")
    case True
    obtain S where S: "S \<subseteq> {t \<in> set ss. P t \<and> s + width \<le> t}" "non_overlapping width S" "finite S"
      "card S = greedy P width ss (s + width)"
      using Cons.IH [of "s + width"] Cons.prems by auto
    have new: "s \<notin> S" using S(1) Cons.prems by auto
    have below: "\<And>t. t \<in> S \<Longrightarrow> s < t \<and> s + width \<le> t" using S(1) Cons.prems by auto
    show ?thesis
    proof (intro exI [of _ "insert s S"] conjI)
      show "insert s S \<subseteq> {t \<in> set (s # ss). P t \<and> m \<le> t}"
        using S(1) True by auto
      show "non_overlapping width (insert s S)"
        using S(2) below unfolding non_overlapping_def by (metis insert_iff less_asym less_irrefl)
      show "card (insert s S) = greedy P width (s # ss) m"
        using S(3,4) new True by simp
    qed (use S(3) in simp)
  next
    case False
    obtain S where "S \<subseteq> {t \<in> set ss. P t \<and> m \<le> t}" "non_overlapping width S" "finite S"
      "card S = greedy P width ss m"
      using Cons.IH [of m] Cons.prems by auto
    moreover have "{t \<in> set ss. P t \<and> m \<le> t} \<subseteq> {t \<in> set (s # ss). P t \<and> m \<le> t}" by auto
    ultimately show ?thesis using False by (intro exI [of _ S]) auto
  qed
qed

lemma greedy_maximal:
  assumes "sorted_wrt (<) ss" and "S \<subseteq> {s \<in> set ss. P s \<and> m \<le> s}" and "non_overlapping width S"
  shows "card S \<le> greedy P width ss m"
  using assms
proof (induction ss arbitrary: m S)
  case Nil
  then show ?case by simp
next
  case (Cons s ss)
  have fin: "finite S" using Cons.prems(2) by (rule finite_subset) simp
  show ?case
  proof (cases "P s \<and> m \<le> s \<and> S \<noteq> {}")
    case True
    define x where "x = Min S"
    have x: "x \<in> S" "\<And>t. t \<in> S \<Longrightarrow> x \<le> t" unfolding x_def using fin True by auto
    have sx: "s \<le> x" using x(1) Cons.prems(1,2) by (fastforce dest: subsetD)
    have "S - {x} \<subseteq> {t \<in> set ss. P t \<and> s + width \<le> t}"
    proof
      fix t assume t: "t \<in> S - {x}"
      then have "x < t" using x(2) [of t] by auto
      then have "x + width \<le> t" using Cons.prems(3) x(1) t by (auto simp: non_overlapping_def)
      then show "t \<in> {t \<in> set ss. P t \<and> s + width \<le> t}"
        using t \<open>x < t\<close> sx Cons.prems(2) by auto
    qed
    moreover have "non_overlapping width (S - {x})"
      using Cons.prems(3) by (auto simp: non_overlapping_def)
    ultimately have "card (S - {x}) \<le> greedy P width ss (s + width)"
      using Cons.IH Cons.prems(1) by auto
    then show ?thesis using True x(1) fin by (simp add: card_Diff_singleton_if)
  next
    case False
    show ?thesis
    proof (cases "S = {}")
      case False': False
      then have "S \<subseteq> {t \<in> set ss. P t \<and> m \<le> t}" using False Cons.prems(2) by auto
      then have "card S \<le> greedy P width ss m" using Cons by auto
      then show ?thesis using False False' by auto
    qed simp
  qed
qed

lemma occurrences_finite: "finite (occurrences trace w)"
  by (rule finite_subset [of _ "{..length trace}"]) (auto simp: occurrences_def)

lemma occurrences_long: "length trace < length w \<Longrightarrow> max_disjoint trace w = 0"
proof -
  assume "length trace < length w"
  then have "{S. S \<subseteq> occurrences trace w \<and> non_overlapping (length w) S} = {{}}"
    by (auto simp: occurrences_def non_overlapping_def)
  then show ?thesis by (simp add: max_disjoint_def)
qed

lemma greedy_max_disjoint:
  assumes "length w \<le> length trace"
  shows "greedy (\<lambda>s. window_at trace (length w) s = w) (length w) [0..<Suc (length trace - length w)] 0 =
    max_disjoint trace w"
proof -
  let ?P = "\<lambda>s. window_at trace (length w) s = w"
  let ?ss = "[0..<Suc (length trace - length w)]"
  have asc: "sorted_wrt (<) ?ss" by (rule sorted_wrt_upt)
  have occ: "{s \<in> set ?ss. ?P s \<and> 0 \<le> s} = occurrences trace w"
    using assms by (auto simp: occurrences_def)
  let ?F = "{S. S \<subseteq> occurrences trace w \<and> non_overlapping (length w) S}"
  have "finite ?F" by (rule finite_subset [of _ "Pow (occurrences trace w)"]) (auto simp: occurrences_finite)
  moreover have "\<And>S. S \<in> ?F \<Longrightarrow> card S \<le> greedy ?P (length w) ?ss 0"
    using greedy_maximal [OF asc, of _ ?P 0 "length w"] unfolding occ by blast
  moreover obtain S where "S \<in> ?F" and "greedy ?P (length w) ?ss 0 = card S"
    using greedy_achieves [OF asc, of ?P 0 "length w"] unfolding occ by force
  then have "greedy ?P (length w) ?ss 0 \<in> card ` ?F" by (rule rev_image_eqI)
  ultimately have "Max (card ` ?F) = greedy ?P (length w) ?ss 0"
    by (intro Max_eqI) blast+
  then show ?thesis unfolding max_disjoint_def by (rule sym)
qed

section \<open>What the scan counts\<close>

definition get0 :: "('k::linorder, nat) btree \<Rightarrow> 'k \<Rightarrow> nat" where
  "get0 m k = (case bt_get m k of Some n \<Rightarrow> n | None \<Rightarrow> 0)"

lemma get0_insert [simp]: "bt_wf m \<Longrightarrow> get0 (bt_insert k n m) k' = (if k' = k then n else get0 m k')"
  by (simp add: get0_def)

lemma get0_empty [simp]: "get0 bt_empty k = 0"
  by (simp add: get0_def)

lemma min_add_left: "min (b::nat) (min b x + y) = min b (x + y)"
  by simp

text \<open>The counters of a map: in key order, every one positive and within its width.\<close>

definition counters :: "(opcode list, u32) btree \<Rightarrow> bool" where
  "counters ws \<longleftrightarrow> bt_wf ws \<and> (\<forall>k n. bt_get ws k = Some n \<longrightarrow> 0 < n \<and> n \<le> u32_max)"

lemma counters_wf [simp]: "counters ws \<Longrightarrow> bt_wf ws"
  by (simp add: counters_def)

lemma counters_empty [simp]: "counters bt_empty"
  by (simp add: counters_def)

lemma counters_bump: "counters ws \<Longrightarrow> counters (bt_insert w (sat_add32 n 1) ws)"
  by (auto simp: counters_def sat_add32_def u32_max_def split: if_splits)

lemma counters_get: "counters ws \<Longrightarrow> bt_get ws w = Some n \<longleftrightarrow> 0 < n \<and> get0 ws w = n"
  by (cases "bt_get ws w") (auto simp: counters_def get0_def)

lemma counters_le: "counters ws \<Longrightarrow> get0 ws w \<le> u32_max"
  by (cases "bt_get ws w") (auto simp: counters_def get0_def)

lemma counters_ext: "counters ws \<Longrightarrow> counters vs \<Longrightarrow> (\<And>w. get0 ws w = get0 vs w) \<Longrightarrow> ws = vs"
proof (rule bt_ext)
  fix w assume c: "counters ws" "counters vs" and "\<And>w. get0 ws w = get0 vs w"
  then have "\<And>n. bt_get ws w = Some n \<longleftrightarrow> bt_get vs w = Some n" by (simp add: counters_get)
  then show "bt_get ws w = bt_get vs w" by (metis option.exhaust)
qed auto

lemma scan_width_counters:
  "counters ws \<Longrightarrow> counters (scan_width trace width starts nv ws)"
  by (induction trace width starts nv ws rule: scan_width.induct)
    (auto simp: Let_def intro: counters_bump [simplified])

lemma scan_width_other:
  assumes "counters ws" and "bt_wf nv"
    and "length w \<noteq> width \<or> has_blank w" and "\<forall>s \<in> set starts. s + width \<le> length trace"
  shows "get0 (scan_width trace width starts nv ws) w = get0 ws w"
  using assms
proof (induction trace width starts nv ws rule: scan_width.induct)
  case (2 trace width s ss nv ws)
  have len: "length (window_at trace width s) = width"
    using "2.prems"(4) by (auto simp: window_at_def)
  show ?case
  proof (cases "has_blank (window_at trace width s)")
    case True
    then show ?thesis using "2.IH"(1) [OF refl] "2.prems" by (simp add: Let_def)
  next
    case False
    then have "w \<noteq> window_at trace width s" using len "2.prems"(3) by auto
    then show ?thesis
      using False "2.IH"(2,3) [OF refl False refl] "2.prems" by (auto simp: Let_def intro: counters_bump [simplified])
  qed
qed simp

lemma scan_width_counts:
  assumes "counters ws" and "bt_wf nv" and "length w = width" and "\<not> has_blank w"
  shows "get0 (scan_width trace width starts nv ws) w =
    min u32_max (get0 ws w + greedy (\<lambda>s. window_at trace width s = w) width starts (get0 nv w))"
  using assms
proof (induction trace width starts nv ws rule: scan_width.induct)
  case (1 trace width nv ws)
  then show ?case by (simp add: counters_le)
next
  case (2 trace width s ss nv ws)
  let ?win = "window_at trace width s"
  show ?case
  proof (cases "has_blank ?win")
    case True
    then have "?win \<noteq> w" using "2.prems"(4) by auto
    then show ?thesis using True "2.IH"(1) [OF refl] "2.prems" by (simp add: Let_def)
  next
    case False
    show ?thesis
    proof (cases "get0 nv ?win \<le> s")
      case True
      let ?nv = "bt_insert ?win (s + width) nv" and ?ws = "bt_insert ?win (sat_add32 (get0 ws ?win) 1) ws"
      have "scan_width trace width (s # ss) nv ws = scan_width trace width ss ?nv ?ws"
        using False True by (simp add: Let_def get0_def)
      moreover have "get0 (scan_width trace width ss ?nv ?ws) w =
        min u32_max (get0 ?ws w + greedy (\<lambda>s. window_at trace width s = w) width ss (get0 ?nv w))"
        using "2.IH"(2) [OF refl False refl] True "2.prems" counters_bump [OF "2.prems"(1)]
        unfolding get0_def by simp
      ultimately show ?thesis
        using "2.prems"(1,2) True by (auto simp: sat_add32_def)
    next
      case False': False
      then have "scan_width trace width (s # ss) nv ws = scan_width trace width ss nv ws"
        using False by (simp add: Let_def get0_def)
      then show ?thesis
        using "2.IH"(3) [OF refl False refl] False' "2.prems" unfolding get0_def by auto
    qed
  qed
qed

lemma scan_widths_count:
  assumes "counters ws" and "distinct widths" and "\<forall>d \<in> set widths. d \<le> length trace"
  defines "res \<equiv> fold (\<lambda>width. scan_width trace width [0..<Suc (length trace - width)] bt_empty) widths ws"
  shows "counters res \<and>
    get0 res w = min u32_max (get0 ws w + (if length w \<in> set widths \<and> \<not> has_blank w then max_disjoint trace w else 0))"
  using assms(1-3) unfolding res_def
proof (induction widths arbitrary: ws)
  case Nil
  then show ?case by (simp add: counters_le)
next
  case (Cons d ds)
  let ?ws = "scan_width trace d [0..<Suc (length trace - d)] bt_empty ws"
  have starts: "\<forall>s \<in> set [0..<Suc (length trace - d)]. s + d \<le> length trace" using Cons.prems(3) by auto
  have c: "counters ?ws" by (rule scan_width_counters [OF Cons.prems(1)])
  have step: "get0 ?ws w = min u32_max (get0 ws w + (if length w = d \<and> \<not> has_blank w then max_disjoint trace w else 0))"
  proof (cases "length w = d \<and> \<not> has_blank w")
    case True
    then show ?thesis
      using scan_width_counts [OF Cons.prems(1), of bt_empty w d trace "[0..<Suc (length trace - d)]"]
        greedy_max_disjoint [of w trace] Cons.prems(3) by simp
  next
    case False
    then have "get0 ?ws w = get0 ws w"
      using scan_width_other [OF Cons.prems(1) bt.wf_empty _ starts] by blast
    then show ?thesis using False counters_le [OF Cons.prems(1), of w] by auto
  qed
  note rec = Cons.IH [OF c]
  show ?case
    using rec Cons.prems(2,3) unfolding step fold_simps by (auto simp: min_add_left simp del: upt_Suc)
qed

lemma scan_trace_count:
  assumes "counters ws"
  shows "counters (scan_trace mw trace ws) \<and>
    get0 (scan_trace mw trace ws) w = min u32_max (get0 ws w + (if fusible mw w then max_disjoint trace w else 0))"
proof (cases "length trace < 2")
  case True
  then show ?thesis
    using assms counters_le [OF assms, of w] occurrences_long [of trace w] by (auto simp: scan_trace_def fusible_def)
next
  case False
  define widths where "widths = [2..<Suc (min mw (length trace))]"
  have mem: "length w \<in> set widths \<longleftrightarrow> 2 \<le> length w \<and> length w \<le> mw \<and> length w \<le> length trace"
    by (auto simp: widths_def)
  have wd: "distinct widths" and wl: "\<forall>d \<in> set widths. d \<le> length trace" by (auto simp: widths_def)
  have run: "scan_trace mw trace ws =
      fold (\<lambda>width. scan_width trace width [0..<Suc (length trace - width)] bt_empty) widths ws"
    using False by (simp add: scan_trace_def widths_def del: upt_Suc)
  have "(if length w \<in> set widths \<and> \<not> has_blank w then max_disjoint trace w else 0) =
      (if fusible mw w then max_disjoint trace w else 0)"
    using mem occurrences_long [of trace w] by (cases "length w \<le> length trace") (auto simp: fusible_def)
  then show ?thesis
    using scan_widths_count [OF assms wd wl, of w] unfolding run by simp
qed

lemma scan_all_count:
  assumes "counters ws"
  shows "counters (fold (scan_trace mw) traces ws) \<and>
    get0 (fold (scan_trace mw) traces ws) w =
      min u32_max (get0 ws w + (if fusible mw w then \<Sum>trace\<leftarrow>traces. max_disjoint trace w else 0))"
  using assms
proof (induction traces arbitrary: ws)
  case Nil
  then show ?case by (simp add: counters_le)
next
  case (Cons t ts)
  note step = scan_trace_count [OF Cons.prems, of mw t w]
  note rec = Cons.IH [OF conjunct1 [OF step]]
  show ?case
    using rec unfolding conjunct2 [OF step] fold_simps
    by (cases "fusible mw w") (simp_all add: min_add_left add.assoc)
qed

lemma scanned_windows:
  "bt_get (fold (scan_trace mw) traces bt_empty) w = Some n \<longleftrightarrow> fusible mw w \<and> n = support_of traces w \<and> 0 < n"
  using scan_all_count [OF counters_empty, of mw traces w]
  by (auto simp: counters_get support_of_def)

section \<open>The compiled plans\<close>

text \<open>
  The plan of a window: ten cost units for every opcode against six and two for every opcode of the
  fused form. A vector of opcodes holds fewer than \<open>2 ^ 59\<close> of them (24 bytes each in an address
  space of \<open>2 ^ 63\<close> bytes), so the costs of the code never saturate.
\<close>

definition fused_plan :: "opcode list \<Rightarrow> u32 \<Rightarrow> super_plan" where
  "fused_plan w n =
     \<lparr>sp_schema = HOSTCALL_SUPERINSTRUCTION_SCHEMA_VERSION, sp_version = HOSTCALL_SUPERINSTRUCTION_PLAN_VERSION,
      sp_plan_id = lit ''fuse_'' @ opcode_window_signature w, sp_trace_signature = opcode_window_signature w,
      sp_opcode_window = w, sp_support_count = n, sp_cost_baseline = 10 * int (length w),
      sp_cost_fused = 6 + 2 * int (length w), sp_cost_delta = 8 * int (length w) - 6\<rparr>"

definition fits_in_memory :: "opcode list list \<Rightarrow> bool" where
  "fits_in_memory traces = (\<forall>t \<in> set traces. length t < 2 ^ 59)"

lemma fused_plan_sel [simp]:
  "sp_opcode_window (fused_plan w n) = w" "sp_support_count (fused_plan w n) = n"
  "sp_cost_delta (fused_plan w n) = 8 * int (length w) - 6" "plan_width (fused_plan w n) = length w"
  by (simp_all add: fused_plan_def plan_width_def)

lemma plan_of_window_exact:
  assumes "2 \<le> length w" and "length w < 2 ^ 59"
  shows "plan_of_window m (w, n) = (if n < m then None else Some (fused_plan w n))"
proof -
  have "int (length w) < 576460752303423488" and "2 \<le> int (length w)" using assms by simp_all
  then show ?thesis
    by (simp add: plan_of_window_def fused_plan_def estimated_baseline_cost_def estimated_fused_cost_def sat_i64_def
      width_units_def BASE_OPCODE_COST_UNITS_def FUSED_OPCODE_FIXED_COST_UNITS_def FUSED_OPCODE_STEP_COST_UNITS_def
      i64_max_def Let_def)
qed

lemma support_in_memory:
  assumes "fits_in_memory traces" and "0 < support_of traces w"
  shows "length w < 2 ^ 59"
proof -
  have "\<exists>t \<in> set traces. max_disjoint t w \<noteq> 0"
  proof (rule ccontr)
    assume "\<not> ?thesis"
    then have "(\<Sum>t\<leftarrow>traces. max_disjoint t w) = 0" by (induction traces) auto
    then have "support_of traces w = 0" unfolding support_of_def by (simp only: min_0R)
    then show False using assms(2) by simp
  qed
  then obtain t where "t \<in> set traces" and "max_disjoint t w \<noteq> 0" by blast
  then show ?thesis using occurrences_long [of t w] assms(1) unfolding fits_in_memory_def by fastforce
qed

lemma map_filter_set: "y \<in> set (List.map_filter f xs) \<longleftrightarrow> (\<exists>x \<in> set xs. f x = Some y)"
  by (induction xs) (auto simp: List.map_filter_def)

lemma map_filter_distinct:
  assumes "distinct (map g xs)" and "\<And>x y. x \<in> set xs \<Longrightarrow> f x = Some y \<Longrightarrow> h y = g x"
  shows "distinct (map h (List.map_filter f xs))"
  using assms
proof (induction xs)
  case (Cons x xs)
  then have rec: "distinct (map h (List.map_filter f xs))" by simp
  show ?case
  proof (cases "f x")
    case (Some y)
    have "h y \<notin> h ` set (List.map_filter f xs)"
    proof
      assume "h y \<in> h ` set (List.map_filter f xs)"
      then obtain x' y' where "x' \<in> set xs" "f x' = Some y'" "h y' = h y"
        by (auto simp: map_filter_set)
      then have "g x' = g x" using Cons.prems(2) [of x y] Cons.prems(2) [of x' y'] Some by auto
      then show False using Cons.prems(1) \<open>x' \<in> set xs\<close> by (metis distinct.simps(2) image_eqI list.simps(9) set_map)
    qed
    then show ?thesis using rec Some by (simp add: List.map_filter_simps)
  qed (use rec in \<open>simp add: List.map_filter_simps\<close>)
qed (simp add: List.map_filter_simps)

lemma compiled_iff:
  assumes "sc_enabled c" and "fits_in_memory traces"
  shows "p \<in> set (compile_plans c traces) \<longleftrightarrow>
    (\<exists>w. fusible (sc_max_window c) w \<and> max 1 (sc_min_support c) \<le> support_of traces w \<and>
      p = fused_plan w (support_of traces w))"
proof -
  define ws where "ws = fold (scan_trace (sc_max_window c)) traces bt_empty"
  have wf: "bt_wf ws" unfolding ws_def using scan_all_count [OF counters_empty] counters_wf by blast
  have mem: "(w, n) \<in> set ws \<longleftrightarrow> fusible (sc_max_window c) w \<and> n = support_of traces w \<and> 0 < n" for w n
    using bt_entries [OF wf, of w n] scanned_windows [of "sc_max_window c" traces w n] unfolding ws_def by simp
  have "p \<in> set (compile_plans c traces) \<longleftrightarrow> (\<exists>(w, n) \<in> set ws. plan_of_window (sc_min_support c) (w, n) = Some p)"
    using assms(1) by (auto simp: compile_plans_def map_filter_set ws_def)
  also have "\<dots> \<longleftrightarrow> (\<exists>w. fusible (sc_max_window c) w \<and> 0 < support_of traces w \<and>
      plan_of_window (sc_min_support c) (w, support_of traces w) = Some p)"
    unfolding Bex_def split_paired_Ex by (auto simp: mem)
  also have "\<dots> \<longleftrightarrow> (\<exists>w. fusible (sc_max_window c) w \<and> max 1 (sc_min_support c) \<le> support_of traces w \<and>
      p = fused_plan w (support_of traces w))"
    using support_in_memory [OF assms(2)]
    by (intro ex_cong1) (auto simp: plan_of_window_exact fusible_def split: if_splits)
  finally show ?thesis .
qed

lemma plan_of_window_keeps: "plan_of_window m x = Some p \<Longrightarrow> sp_opcode_window p = fst x"
  by (cases x) (auto simp: plan_of_window_def Let_def split: if_splits)

lemma compiled_distinct: "distinct (map sp_opcode_window (compile_plans c traces))"
proof -
  define ws where "ws = fold (scan_trace (sc_max_window c)) traces bt_empty"
  have wf: "bt_wf ws" unfolding ws_def using scan_all_count [OF counters_empty] counters_wf by blast
  have "distinct (map sp_opcode_window (List.map_filter (plan_of_window (sc_min_support c)) ws))"
    by (rule map_filter_distinct [OF bt_wf_distinct [OF wf]]) (rule plan_of_window_keeps)
  then have "distinct (map sp_opcode_window (sort_key plan_rank (List.map_filter (plan_of_window (sc_min_support c)) ws)))"
    by (simp add: distinct_map)
  then show ?thesis by (simp add: compile_plans_def ws_def)
qed

lemma compiled_order_irrelevant:
  assumes "mset traces' = mset traces"
  shows "compile_plans c traces' = compile_plans c traces"
proof -
  have "(\<Sum>t\<leftarrow>traces'. max_disjoint t w) = (\<Sum>t\<leftarrow>traces. max_disjoint t w)" for w
    using assms by (metis mset_map sum_mset_sum_list)
  then have "fold (scan_trace (sc_max_window c)) traces' bt_empty = fold (scan_trace (sc_max_window c)) traces bt_empty"
    using scan_all_count [OF counters_empty, of "sc_max_window c" traces]
      scan_all_count [OF counters_empty, of "sc_max_window c" traces']
    by (intro counters_ext) auto
  then show ?thesis by (simp add: compile_plans_def)
qed

section \<open>What is selected\<close>

lemma prefix_matches_iff: "prefix_matches w trace \<longleftrightarrow> prefix w trace"
proof -
  have "list_all (\<lambda>(l, r). l = r) (zip trace w) \<longleftrightarrow> take (length w) trace = w" if "length w \<le> length trace"
    using that by (induction w arbitrary: trace) (auto simp: Suc_le_length_iff)
  then show ?thesis
    by (auto simp: prefix_matches_def take_is_prefix prefix_length_le dest: append_eq_conv_conj [THEN iffD1] elim!: prefixE)
      (metis take_is_prefix)
qed

lemma compiled_width:
  assumes "sc_enabled c" and "fits_in_memory traces" and "p \<in> set (compile_plans c traces)"
  shows "sp_cost_delta p = 8 * int (plan_width p) - 6" and "plan_width p \<ge> 2"
  using assms(3) compiled_iff [OF assms(1,2)] by (auto simp: fusible_def)

lemma compiled_prefix_unique:
  assumes "p \<in> set (compile_plans c traces)" and "q \<in> set (compile_plans c traces)"
    and "prefix (sp_opcode_window p) trace" and "prefix (sp_opcode_window q) trace" and "plan_width p = plan_width q"
  shows "p = q"
proof -
  have "sp_opcode_window p = sp_opcode_window q"
    using assms(3-5) by (metis plan_width_def prefix_length_prefix prefix_order.antisym order_refl)
  moreover have "inj_on sp_opcode_window (set (compile_plans c traces))"
    using compiled_distinct by (simp add: distinct_map)
  ultimately show ?thesis using assms(1,2) by (simp add: inj_on_def)
qed

lemma sort_key_head:
  assumes "sort_key f xs = x # ys"
  shows "x \<in> set xs" and "y \<in> set xs \<Longrightarrow> f x \<le> f y" and "distinct xs \<Longrightarrow> x \<notin> set ys" and "set ys \<subseteq> set xs"
proof -
  have set: "set xs = insert x (set ys)" using assms by (metis list.simps(15) set_sort)
  then show "x \<in> set xs" and "set ys \<subseteq> set xs" by auto
  have "sorted (map f (x # ys))" using assms by (metis sorted_sort_key)
  then show "y \<in> set xs \<Longrightarrow> f x \<le> f y" using set by auto
  assume "distinct xs"
  then have "distinct (x # ys)" using assms by (metis distinct_sort)
  then show "x \<notin> set ys" by simp
qed

lemma compiled_selection:
  assumes "sc_enabled c" and "fits_in_memory traces" and "p \<in> set (compile_plans c traces)"
    and "prefix (sp_opcode_window p) trace"
  obtains best where "best \<in> set (compile_plans c traces)" and "prefix (sp_opcode_window best) trace"
    and "\<And>q. q \<in> set (compile_plans c traces) \<Longrightarrow> prefix (sp_opcode_window q) trace \<Longrightarrow>
      length (sp_opcode_window q) \<le> length (sp_opcode_window best)"
    and "select_plan_for_trace trace (compile_plans c traces) =
      \<lparr>sl_trace_signature = opcode_window_signature trace, sl_plan_id = Some (sp_plan_id best),
       sl_window = Some (sp_opcode_window best), sl_cost_delta = sp_cost_delta best, sl_deopt_reason = None\<rparr>"
proof -
  define plans where "plans = compile_plans c traces"
  define ms where "ms = filter (\<lambda>p. matches_trace_prefix p trace) plans"
  have ms: "q \<in> set ms \<longleftrightarrow> q \<in> set plans \<and> prefix (sp_opcode_window q) trace" for q
    by (simp add: ms_def matches_trace_prefix_def prefix_matches_iff)
  have dist: "distinct ms" using compiled_distinct [of c traces] by (simp add: ms_def plans_def distinct_map)
  have "p \<in> set ms" using assms(3,4) ms by (simp add: plans_def)
  then have "sort_key match_rank ms \<noteq> []" by (metis empty_iff list.set(1) set_sort)
  then obtain best others where sorted: "sort_key match_rank ms = best # others"
    by (metis list.exhaust)
  note head = sort_key_head [OF sorted]
  have best: "best \<in> set plans" "prefix (sp_opcode_window best) trace" using head(1) ms by auto
  have longest: "plan_width q \<le> plan_width best" if "q \<in> set ms" for q
    using head(2) [OF that] that best(1) ms compiled_width(1) [OF assms(1,2)]
    unfolding match_rank_def plans_def less_eq_prod_def by fastforce
  have alone: "\<not> list_ex (same_rank best) others"
  proof
    assume "list_ex (same_rank best) others"
    then obtain q where q: "q \<in> set others" "plan_width q = plan_width best"
      by (auto simp: list_ex_iff same_rank_def)
    then have "q = best"
      using compiled_prefix_unique [of q c traces best trace] head(4) ms best unfolding plans_def by auto
    then show False using q(1) head(3) [OF dist] by simp
  qed
  have "trace \<noteq> []"
    using best compiled_width(2) [OF assms(1,2), of best] unfolding plans_def plan_width_def by auto
  then have "select_plan_for_trace trace plans =
      \<lparr>sl_trace_signature = opcode_window_signature trace, sl_plan_id = Some (sp_plan_id best),
       sl_window = Some (sp_opcode_window best), sl_cost_delta = sp_cost_delta best, sl_deopt_reason = None\<rparr>"
    using alone unfolding select_plan_for_trace_def ms_def [symmetric] sorted by simp
  then show thesis
    using that [of best] best longest ms unfolding plans_def plan_width_def by auto
qed

lemma unmatched_selection:
  assumes "\<And>p. p \<in> set plans \<Longrightarrow> \<not> prefix (sp_opcode_window p) trace"
  shows "select_plan_for_trace trace plans = no_selection trace (if trace = [] then EmptyTrace else NoMatchingPlan)"
proof -
  have "filter (\<lambda>p. matches_trace_prefix p trace) plans = []"
    using assms by (simp add: filter_empty_conv matches_trace_prefix_def prefix_matches_iff)
  then show ?thesis by (simp add: select_plan_for_trace_def)
qed

section \<open>Properties\<close>

text \<open>
  C31: The compiler finds exactly the recurring windows. Over any traces that fit in memory it makes one
  plan for every window of two to \<open>max_window\<close> opcodes without a blank one whose support reaches the
  minimum (and is not zero), and for no other, where the support is the sum over the traces of the
  largest number of occurrences of which no two overlap (up to the 32-bit bound); the plan's saving is
  eight units for every opcode less six. No window has two plans, and the order in which the traces
  were recorded does not matter.
\<close>

theorem compile_plans_exact:
  assumes "sc_enabled c" and "fits_in_memory traces"
  shows "set (compile_plans c traces) =
      (\<lambda>w. fused_plan w (support_of traces w)) `
        {w. fusible (sc_max_window c) w \<and> max 1 (sc_min_support c) \<le> support_of traces w} \<and>
    distinct (map sp_opcode_window (compile_plans c traces)) \<and>
    (mset traces' = mset traces \<longrightarrow> compile_plans c traces' = compile_plans c traces)"
  using compiled_iff [OF assms] compiled_distinct compiled_order_irrelevant by blast

definition demo_compiler :: super_compiler where
  "demo_compiler = \<lparr>sc_enabled = True, sc_min_support = 2, sc_max_window = 3\<rparr>"

definition demo_traces :: "opcode list list" where
  "demo_traces = [[[97], [97], [97], [97]], [[97], [97], [98]]]"

lemmas compile_eval = compile_plans_def demo_compiler_def demo_traces_def scan_trace_def upt_rec window_at_def has_blank_def
  trim_def trim_start_def trim_end_def is_whitespace_def bt_empty_def sat_add32_def u32_max_def Let_def
  List.map_filter_simps plan_of_window_def estimated_baseline_cost_def estimated_fused_cost_def sat_i64_def
  width_units_def BASE_OPCODE_COST_UNITS_def FUSED_OPCODE_FIXED_COST_UNITS_def FUSED_OPCODE_STEP_COST_UNITS_def
  i64_max_def

theorem compile_plans_exact_witness:
  "set (compile_plans demo_compiler demo_traces) =
      (\<lambda>w. fused_plan w (support_of demo_traces w)) `
        {w. fusible 3 w \<and> 2 \<le> support_of demo_traces w} \<and>
    compile_plans demo_compiler (rev demo_traces) = compile_plans demo_compiler demo_traces \<and>
    map (\<lambda>p. (sp_opcode_window p, sp_support_count p, sp_cost_delta p)) (compile_plans demo_compiler demo_traces) =
      [([[97], [97]], 3, 10)]"
proof (intro conjI)
  have *: "sc_enabled demo_compiler" "fits_in_memory demo_traces"
    by (simp_all add: demo_compiler_def demo_traces_def fits_in_memory_def)
  note use = compile_plans_exact [OF *, of "rev demo_traces"]
  show "set (compile_plans demo_compiler demo_traces) =
      (\<lambda>w. fused_plan w (support_of demo_traces w)) ` {w. fusible 3 w \<and> 2 \<le> support_of demo_traces w}"
    using use by (simp add: demo_compiler_def numeral_2_eq_2)
  show "compile_plans demo_compiler (rev demo_traces) = compile_plans demo_compiler demo_traces"
    using use by simp
  show "map (\<lambda>p. (sp_opcode_window p, sp_support_count p, sp_cost_delta p)) (compile_plans demo_compiler demo_traces) =
      [([[97], [97]], 3, 10)]"
    by (simp add: compile_eval)
qed

text \<open>
  On compiled plans, executing a trace fuses its longest known beginning and nothing else. When some
  compiled window is a prefix of the trace, the longest such window is selected, the fused trace is the
  plan's marker followed by exactly what the trace has after that window, and the choice is never
  ambiguous; when no compiled window is a prefix, the trace is left as it is and the reason names the
  empty trace or the missing plan. The canonical trace is always the trace itself.
\<close>

theorem execution_fuses_longest_prefix:
  fixes c :: super_compiler and traces :: "opcode list list" and trace :: "opcode list"
  defines "plans \<equiv> compile_plans c traces"
  defines "run \<equiv> execute_with_superinstruction trace plans"
  assumes "sc_enabled c" and "fits_in_memory traces"
  shows "ex_canonical_trace run = trace \<and>
    (if \<exists>p \<in> set plans. prefix (sp_opcode_window p) trace
     then \<exists>best \<in> set plans. \<exists>rest.
            trace = sp_opcode_window best @ rest \<and>
            (\<forall>q \<in> set plans. prefix (sp_opcode_window q) trace \<longrightarrow>
               length (sp_opcode_window q) \<le> length (sp_opcode_window best)) \<and>
            ex_fused_trace run = (lit ''@'' @ sp_plan_id best) # rest \<and>
            sl_window (ex_selection run) = Some (sp_opcode_window best) \<and>
            sl_cost_delta (ex_selection run) = 8 * int (length (sp_opcode_window best)) - 6
     else ex_fused_trace run = trace \<and>
          ex_selection run = no_selection trace (if trace = [] then EmptyTrace else NoMatchingPlan))"
proof (cases "\<exists>p \<in> set plans. prefix (sp_opcode_window p) trace")
  case True
  then obtain best where best: "best \<in> set plans" "prefix (sp_opcode_window best) trace"
    "\<And>q. q \<in> set plans \<Longrightarrow> prefix (sp_opcode_window q) trace \<Longrightarrow>
      length (sp_opcode_window q) \<le> length (sp_opcode_window best)"
    "select_plan_for_trace trace plans =
      \<lparr>sl_trace_signature = opcode_window_signature trace, sl_plan_id = Some (sp_plan_id best),
       sl_window = Some (sp_opcode_window best), sl_cost_delta = sp_cost_delta best, sl_deopt_reason = None\<rparr>"
    unfolding plans_def by (metis compiled_selection assms(3,4))
  from best(2) obtain rest where rest: "trace = sp_opcode_window best @ rest" by (auto elim: prefixE)
  have "ex_canonical_trace run = trace" "ex_fused_trace run = (lit ''@'' @ sp_plan_id best) # rest"
    "ex_selection run = select_plan_for_trace trace plans"
    by (simp_all add: run_def execute_with_superinstruction_def best(4) selection_hit_def Let_def) (simp_all add: rest)
  moreover have "sp_cost_delta best = 8 * int (length (sp_opcode_window best)) - 6"
    using compiled_width(1) [OF assms(3,4), of best] best(1) by (simp add: plans_def plan_width_def)
  ultimately show ?thesis using True best rest by auto
next
  case False
  then have "select_plan_for_trace trace plans = no_selection trace (if trace = [] then EmptyTrace else NoMatchingPlan)"
    by (intro unmatched_selection) blast
  then show ?thesis
    using False by (auto simp: run_def execute_with_superinstruction_def selection_hit_def no_selection_def)
qed

theorem execution_fuses_longest_prefix_witness:
  "\<exists>best \<in> set (compile_plans demo_compiler demo_traces). \<exists>rest.
     [[97], [97], [98]] = sp_opcode_window best @ rest \<and>
     ex_fused_trace (execute_with_superinstruction [[97], [97], [98]] (compile_plans demo_compiler demo_traces)) =
       (lit ''@'' @ sp_plan_id best) # rest"
proof -
  have *: "sc_enabled demo_compiler" "fits_in_memory demo_traces"
    by (simp_all add: demo_compiler_def demo_traces_def fits_in_memory_def)
  have "map sp_opcode_window (compile_plans demo_compiler demo_traces) = [[[97], [97]]]"
    by (simp add: compile_eval)
  then obtain p where "p \<in> set (compile_plans demo_compiler demo_traces)" "sp_opcode_window p = [[97], [97]]"
    by auto
  then have "\<exists>p \<in> set (compile_plans demo_compiler demo_traces). prefix (sp_opcode_window p) [[97], [97], [98]]"
    by (auto intro!: bexI [of _ p])
  then show ?thesis
    using execution_fuses_longest_prefix [OF *, of "[[97], [97], [98]]"] by (simp only: if_True) blast
qed

end
