(* ===== verification/Trace_Jit.thy ===== *)
theory Trace_Jit
  imports Superinstructions Machines
begin

text \<open>
  The second tier above the superinstruction plans (\<open>src/src/hostcall_trace_jit.rs\<close>): a plan that has been
  executed often enough becomes a compiled trace in a bounded cache, which is entered only when all its
  guards hold and is thrown away for good after too many guard failures in a row. The clock of the cache
  is a generation counter. It, the counters of a profile and the telemetry are \<open>u64\<close> values counted up by
  \<open>+= 1\<close>, which wraps around in a release build (\<open>inc64\<close>). No counter is ahead of the generation, so that
  all of them are exact until it has counted \<open>2 ^ 64 - 1\<close> calls since the start or the last reset; what
  needs exact counters says so.
\<close>

definition inc64 :: "u64 \<Rightarrow> u64" where
  "inc64 n = (n + 1) mod 2 ^ 64"

lemma inc64_exact [simp]: "n < u64_max \<Longrightarrow> inc64 n = Suc n"
  by (simp add: inc64_def u64_max_def)

lemma inc64_le: "inc64 n \<le> Suc n"
  by (simp add: inc64_def)

section \<open>Configuration and guards\<close>

definition DEFAULT_MIN_JIT_EXECUTIONS :: u64 where
  "DEFAULT_MIN_JIT_EXECUTIONS = 8"

definition DEFAULT_MAX_COMPILED_TRACES :: usize where
  "DEFAULT_MAX_COMPILED_TRACES = 64"

definition DEFAULT_MAX_GUARD_FAILURES :: u64 where
  "DEFAULT_MAX_GUARD_FAILURES = 4"

definition JIT_DISPATCH_COST_UNITS :: int where
  "JIT_DISPATCH_COST_UNITS = 3"

definition JIT_DISPATCH_STEP_COST_UNITS :: int where
  "JIT_DISPATCH_STEP_COST_UNITS = 1"

record jit_config =
  jc_enabled :: bool
  jc_min_jit_executions :: u64
  jc_max_compiled_traces :: usize
  jc_max_guard_failures :: u64

definition jit_bool_setting :: "ustr option \<Rightarrow> bool \<Rightarrow> bool" where
  "jit_bool_setting raw fallback =
     (case raw of
        None \<Rightarrow> fallback
      | Some v \<Rightarrow> to_ascii_lowercase (trim v) \<notin> {lit ''0'', lit ''false'', lit ''off'', lit ''disabled''})"

definition jit_config_from_settings :: "ustr option \<Rightarrow> u64 option \<Rightarrow> usize option \<Rightarrow> u64 option \<Rightarrow> jit_config" where
  "jit_config_from_settings enabled executions traces failures =
     \<lparr>jc_enabled = jit_bool_setting enabled True,
      jc_min_jit_executions = (case executions of Some v \<Rightarrow> v | None \<Rightarrow> DEFAULT_MIN_JIT_EXECUTIONS),
      jc_max_compiled_traces = (case traces of Some v \<Rightarrow> v | None \<Rightarrow> DEFAULT_MAX_COMPILED_TRACES),
      jc_max_guard_failures = (case failures of Some v \<Rightarrow> v | None \<Rightarrow> DEFAULT_MAX_GUARD_FAILURES)\<rparr>"

datatype trace_guard =
    OpcodePrefix "opcode list"
  | SafetyEnvelopeNotVetoing
  | MinSupportCount u32

record guard_context =
  gc_vetoing :: bool
  gc_support :: u32

definition guard_check :: "trace_guard \<Rightarrow> opcode list \<Rightarrow> guard_context \<Rightarrow> bool" where
  "guard_check g trace ctx =
     (case g of
        OpcodePrefix window \<Rightarrow> prefix_matches window trace
      | SafetyEnvelopeNotVetoing \<Rightarrow> \<not> gc_vetoing ctx
      | MinSupportCount m \<Rightarrow> gc_support ctx \<ge> m)"

section \<open>Compiled traces\<close>

datatype compilation_tier = Superinstruction | TraceJit

record compiled_trace =
  ct_plan_id :: ustr
  ct_trace_signature :: ustr
  ct_guards :: "trace_guard list"
  ct_opcode_window :: "opcode list"
  ct_width :: usize
  ct_cost_jit :: int
  ct_cost_fused :: int
  ct_tier_improvement_delta :: int
  ct_tier :: compilation_tier

definition estimated_jit_cost :: "usize \<Rightarrow> int" where
  "estimated_jit_cost width =
     sat_i64 (JIT_DISPATCH_COST_UNITS + sat_i64 (width_units width * JIT_DISPATCH_STEP_COST_UNITS))"

definition from_plan :: "super_plan \<Rightarrow> compiled_trace" where
  "from_plan p =
     (let width = plan_width p; jit = estimated_jit_cost width in
      \<lparr>ct_plan_id = sp_plan_id p, ct_trace_signature = sp_trace_signature p,
       ct_guards = [OpcodePrefix (sp_opcode_window p), SafetyEnvelopeNotVetoing, MinSupportCount (sp_support_count p div 2)],
       ct_opcode_window = sp_opcode_window p, ct_width = width, ct_cost_jit = jit, ct_cost_fused = sp_cost_fused p,
       ct_tier_improvement_delta = sat_i64 (sp_cost_fused p - jit), ct_tier = TraceJit\<rparr>)"

definition guards_pass :: "compiled_trace \<Rightarrow> opcode list \<Rightarrow> guard_context \<Rightarrow> bool" where
  "guards_pass t trace ctx = list_all (\<lambda>g. guard_check g trace ctx) (ct_guards t)"

datatype jit_deopt =
    GuardFailure usize ustr
  | TraceInvalidated u64
  | JitDisabled
  | NotCompiled
  | SafetyVeto

record jit_result =
  jr_hit :: bool
  jr_plan_id :: "ustr option"
  jr_deopt :: "jit_deopt option"
  jr_cost_delta :: int

definition deopt_result :: "ustr \<Rightarrow> jit_deopt \<Rightarrow> jit_result" where
  "deopt_result plan_id reason =
     \<lparr>jr_hit = False, jr_plan_id = Some plan_id, jr_deopt = Some reason, jr_cost_delta = 0\<rparr>"

section \<open>The compiler and its cache\<close>

record plan_profile =
  pp_execution_count :: u64
  pp_consecutive_guard_failures :: u64
  pp_invalidated :: bool
  pp_last_access_generation :: u64

definition default_profile :: plan_profile where
  "default_profile =
     \<lparr>pp_execution_count = 0, pp_consecutive_guard_failures = 0, pp_invalidated = False, pp_last_access_generation = 0\<rparr>"

record jit_telemetry =
  jt_plans_evaluated :: u64
  jt_traces_compiled :: u64
  jt_jit_hits :: u64
  jt_jit_misses :: u64
  jt_deopts :: u64
  jt_invalidations :: u64
  jt_evictions :: u64
  jt_cache_size :: u64

definition default_jit_telemetry :: jit_telemetry where
  "default_jit_telemetry =
     \<lparr>jt_plans_evaluated = 0, jt_traces_compiled = 0, jt_jit_hits = 0, jt_jit_misses = 0, jt_deopts = 0,
      jt_invalidations = 0, jt_evictions = 0, jt_cache_size = 0\<rparr>"

record trace_jit =
  tj_config :: jit_config
  tj_cache :: "(ustr, compiled_trace) btree"
  tj_profiles :: "(ustr, plan_profile) btree"
  tj_generation :: u64
  tj_telemetry :: jit_telemetry

definition new_jit :: "jit_config \<Rightarrow> trace_jit" where
  "new_jit config =
     \<lparr>tj_config = config, tj_cache = bt_empty, tj_profiles = bt_empty, tj_generation = 0,
      tj_telemetry = default_jit_telemetry\<rparr>"

definition jit_reset :: "trace_jit \<Rightarrow> trace_jit" where
  "jit_reset j =
     j\<lparr>tj_cache := bt_empty, tj_profiles := bt_empty, tj_generation := 0, tj_telemetry := default_jit_telemetry\<rparr>"

definition cache_size :: "trace_jit \<Rightarrow> usize" where
  "cache_size j = bt_len (tj_cache j)"

definition get_compiled_trace :: "trace_jit \<Rightarrow> ustr \<Rightarrow> compiled_trace option" where
  "get_compiled_trace j plan_id = bt_get (tj_cache j) plan_id"

definition is_invalidated :: "trace_jit \<Rightarrow> ustr \<Rightarrow> bool" where
  "is_invalidated j plan_id = (case bt_get (tj_profiles j) plan_id of Some p \<Rightarrow> pp_invalidated p | None \<Rightarrow> False)"

text \<open>\<open>Iterator::min_by_key\<close>: the first of the elements with the smallest key.\<close>

definition min_by_key :: "('a \<Rightarrow> 'b::linorder) \<Rightarrow> 'a list \<Rightarrow> 'a option" where
  "min_by_key f xs = (case xs of [] \<Rightarrow> None | y # ys \<Rightarrow> Some (fold (\<lambda>x best. if f x < f best then x else best) ys y))"

definition last_access :: "trace_jit \<Rightarrow> ustr \<Rightarrow> u64" where
  "last_access j plan_id = (case bt_get (tj_profiles j) plan_id of Some p \<Rightarrow> pp_last_access_generation p | None \<Rightarrow> 0)"

definition evict_lru :: "trace_jit \<Rightarrow> trace_jit" where
  "evict_lru j =
     (case min_by_key (last_access j) (map fst (tj_cache j)) of
        None \<Rightarrow> j
      | Some plan_id \<Rightarrow>
          let cache = bt_remove plan_id (tj_cache j) in
          j\<lparr>tj_cache := cache,
            tj_telemetry := (tj_telemetry j)\<lparr>jt_evictions := inc64 (jt_evictions (tj_telemetry j)),
              jt_cache_size := min u64_max (bt_len cache)\<rparr>\<rparr>)"

definition compile_trace :: "super_plan \<Rightarrow> trace_jit \<Rightarrow> trace_jit" where
  "compile_trace plan j =
     (let j = (if bt_len (tj_cache j) \<ge> jc_max_compiled_traces (tj_config j) then evict_lru j else j);
          cache = bt_insert (sp_plan_id plan) (from_plan plan) (tj_cache j)
      in j\<lparr>tj_cache := cache,
           tj_telemetry := (tj_telemetry j)\<lparr>jt_traces_compiled := inc64 (jt_traces_compiled (tj_telemetry j)),
             jt_cache_size := min u64_max (bt_len cache)\<rparr>\<rparr>)"

definition record_plan_execution :: "super_plan \<Rightarrow> trace_jit \<Rightarrow> bool \<times> trace_jit" where
  "record_plan_execution plan j =
     (if \<not> jc_enabled (tj_config j) then (False, j)
      else
        let generation = inc64 (tj_generation j);
            profile = (case bt_get (tj_profiles j) (sp_plan_id plan) of Some p \<Rightarrow> p | None \<Rightarrow> default_profile);
            profile = profile\<lparr>pp_execution_count := inc64 (pp_execution_count profile), pp_last_access_generation := generation\<rparr>;
            j = j\<lparr>tj_telemetry := (tj_telemetry j)\<lparr>jt_plans_evaluated := inc64 (jt_plans_evaluated (tj_telemetry j))\<rparr>,
                  tj_generation := generation, tj_profiles := bt_insert (sp_plan_id plan) profile (tj_profiles j)\<rparr>
        in if pp_invalidated profile then (False, j)
           else if pp_execution_count profile \<ge> jc_min_jit_executions (tj_config j) \<and>
                   \<not> bt_contains (tj_cache j) (sp_plan_id plan)
           then (True, compile_trace plan j)
           else (False, j))"

definition record_guard_failure :: "ustr \<Rightarrow> trace_jit \<Rightarrow> u64 option \<times> trace_jit" where
  "record_guard_failure plan_id j =
     (let j = j\<lparr>tj_telemetry := (tj_telemetry j)\<lparr>jt_deopts := inc64 (jt_deopts (tj_telemetry j)),
                jt_jit_misses := inc64 (jt_jit_misses (tj_telemetry j))\<rparr>\<rparr>
      in case bt_get (tj_profiles j) plan_id of
           None \<Rightarrow> (None, j)
         | Some profile \<Rightarrow>
             let failures = inc64 (pp_consecutive_guard_failures profile) in
             if \<not> pp_invalidated profile \<and> failures \<ge> jc_max_guard_failures (tj_config j) then
               let cache = bt_remove plan_id (tj_cache j) in
               (Some failures,
                j\<lparr>tj_profiles := bt_insert plan_id
                    (profile\<lparr>pp_consecutive_guard_failures := failures, pp_invalidated := True\<rparr>) (tj_profiles j),
                  tj_cache := cache,
                  tj_telemetry := (tj_telemetry j)\<lparr>jt_invalidations := inc64 (jt_invalidations (tj_telemetry j)),
                    jt_cache_size := min u64_max (bt_len cache)\<rparr>\<rparr>)
             else
               (None, j\<lparr>tj_profiles :=
                  bt_insert plan_id (profile\<lparr>pp_consecutive_guard_failures := failures\<rparr>) (tj_profiles j)\<rparr>))"

definition guard_failure_text :: "trace_guard \<Rightarrow> ustr" where
  "guard_failure_text g =
     (case g of
        OpcodePrefix _ \<Rightarrow> lit ''opcode_prefix_mismatch''
      | SafetyEnvelopeNotVetoing \<Rightarrow> lit ''safety_envelope_vetoing''
      | MinSupportCount _ \<Rightarrow> lit ''support_count_below_threshold'')"

definition failed_guard :: "compiled_trace \<Rightarrow> opcode list \<Rightarrow> guard_context \<Rightarrow> (usize \<times> ustr) option" where
  "failed_guard t trace ctx =
     map_option (\<lambda>(idx, g). (idx, guard_failure_text g))
       (find (\<lambda>(idx, g). \<not> guard_check g trace ctx) (enumerate 0 (ct_guards t)))"

definition update_profile :: "ustr \<Rightarrow> (plan_profile \<Rightarrow> plan_profile) \<Rightarrow> trace_jit \<Rightarrow> trace_jit" where
  "update_profile plan_id f j =
     (case bt_get (tj_profiles j) plan_id of
        Some p \<Rightarrow> j\<lparr>tj_profiles := bt_insert plan_id (f p) (tj_profiles j)\<rparr>
      | None \<Rightarrow> j)"

definition try_jit_dispatch :: "ustr \<Rightarrow> opcode list \<Rightarrow> guard_context \<Rightarrow> trace_jit \<Rightarrow> jit_result \<times> trace_jit" where
  "try_jit_dispatch plan_id trace ctx j =
     (if \<not> jc_enabled (tj_config j) then (deopt_result plan_id JitDisabled, j)
      else
        let j = j\<lparr>tj_generation := inc64 (tj_generation j)\<rparr> in
        case bt_get (tj_cache j) plan_id of
          None \<Rightarrow> (deopt_result plan_id NotCompiled, j)
        | Some compiled \<Rightarrow>
            let j = update_profile plan_id (\<lambda>p. p\<lparr>pp_last_access_generation := tj_generation j\<rparr>) j in
            case failed_guard compiled trace ctx of
              Some (idx, description) \<Rightarrow>
                (case record_guard_failure plan_id j of
                   (None, j) \<Rightarrow> (deopt_result plan_id (GuardFailure idx description), j)
                 | (Some failures, j) \<Rightarrow> (deopt_result plan_id (TraceInvalidated failures), j))
            | None \<Rightarrow>
                let j = j\<lparr>tj_telemetry := (tj_telemetry j)\<lparr>jt_jit_hits := inc64 (jt_jit_hits (tj_telemetry j))\<rparr>\<rparr>;
                    j = update_profile plan_id (\<lambda>p. p\<lparr>pp_consecutive_guard_failures := 0\<rparr>) j
                in (\<lparr>jr_hit = True, jr_plan_id = Some plan_id, jr_deopt = None,
                     jr_cost_delta = ct_tier_improvement_delta compiled\<rparr>, j))"

section \<open>The invariant\<close>

text \<open>
  What holds whatever the calls were. The profiles carry pairwise different access times, none in the
  future; a profile that is not invalidated has fewer failures than invalidate it. The cache holds
  traces compiled from a plan of the same identifier that ran often enough and is not invalidated, never
  more than its bound (a bound of zero admits one). The telemetry accounts for every compiled trace, and
  no counter exceeds the number of generations.
\<close>

definition failure_bound :: "trace_jit \<Rightarrow> u64" where
  "failure_bound j = max 1 (jc_max_guard_failures (tj_config j))"

definition cache_bound :: "trace_jit \<Rightarrow> usize" where
  "cache_bound j = max 1 (jc_max_compiled_traces (tj_config j))"

definition profiles_ok :: "trace_jit \<Rightarrow> bool" where
  "profiles_ok j \<longleftrightarrow> bt_wf (tj_profiles j) \<and>
     (\<forall>i p. bt_get (tj_profiles j) i = Some p \<longrightarrow>
        0 < pp_last_access_generation p \<and> pp_last_access_generation p \<le> tj_generation j \<and>
        (pp_invalidated p \<or> pp_consecutive_guard_failures p < failure_bound j)) \<and>
     (\<forall>i k p q. bt_get (tj_profiles j) i = Some p \<longrightarrow> bt_get (tj_profiles j) k = Some q \<longrightarrow>
        pp_last_access_generation p = pp_last_access_generation q \<longrightarrow> i = k)"

definition cached_ok :: "trace_jit \<Rightarrow> bool" where
  "cached_ok j \<longleftrightarrow> bt_wf (tj_cache j) \<and>
     (\<forall>i t. bt_get (tj_cache j) i = Some t \<longrightarrow>
        (\<exists>plan. t = from_plan plan \<and> sp_plan_id plan = i) \<and>
        (\<exists>p. bt_get (tj_profiles j) i = Some p \<and> \<not> pp_invalidated p \<and>
           jc_min_jit_executions (tj_config j) \<le> pp_execution_count p))"

definition telemetry_ok :: "trace_jit \<Rightarrow> bool" where
  "telemetry_ok j \<longleftrightarrow> jt_cache_size (tj_telemetry j) = min u64_max (cache_size j) \<and>
     jt_traces_compiled (tj_telemetry j) =
       cache_size j + jt_evictions (tj_telemetry j) + jt_invalidations (tj_telemetry j) \<and>
     jt_deopts (tj_telemetry j) = jt_jit_misses (tj_telemetry j)"

definition telemetry_le :: "jit_telemetry \<Rightarrow> u64 \<Rightarrow> bool" where
  "telemetry_le t n \<longleftrightarrow> jt_plans_evaluated t \<le> n \<and> jt_traces_compiled t \<le> n \<and> jt_jit_hits t \<le> n \<and>
     jt_jit_misses t \<le> n \<and> jt_deopts t \<le> n \<and> jt_invalidations t \<le> n \<and> jt_evictions t \<le> n"

definition counts_le :: "trace_jit \<Rightarrow> bool" where
  "counts_le j \<longleftrightarrow> telemetry_le (tj_telemetry j) (tj_generation j) \<and>
     (\<forall>i p. bt_get (tj_profiles j) i = Some p \<longrightarrow>
        pp_execution_count p \<le> tj_generation j \<and> pp_consecutive_guard_failures p \<le> tj_generation j)"

definition jit_inv :: "trace_jit \<Rightarrow> bool" where
  "jit_inv j \<longleftrightarrow> profiles_ok j \<and> cached_ok j \<and> cache_size j \<le> cache_bound j \<and> telemetry_ok j \<and> counts_le j"

text \<open>No counter has reached its end.\<close>

definition roomy :: "trace_jit \<Rightarrow> bool" where
  "roomy j \<longleftrightarrow> counts_le j \<and> tj_generation j < u64_max"

lemma roomy_exact:
  assumes "roomy j"
  shows "inc64 (tj_generation j) = Suc (tj_generation j)"
    and "inc64 (jt_plans_evaluated (tj_telemetry j)) = Suc (jt_plans_evaluated (tj_telemetry j))"
    and "inc64 (jt_jit_hits (tj_telemetry j)) = Suc (jt_jit_hits (tj_telemetry j))"
    and "inc64 (jt_jit_misses (tj_telemetry j)) = Suc (jt_jit_misses (tj_telemetry j))"
    and "inc64 (jt_deopts (tj_telemetry j)) = Suc (jt_deopts (tj_telemetry j))"
    and "inc64 (jt_invalidations (tj_telemetry j)) = Suc (jt_invalidations (tj_telemetry j))"
    and "bt_get (tj_profiles j) i = Some p \<Longrightarrow> inc64 (pp_execution_count p) = Suc (pp_execution_count p)"
    and "bt_get (tj_profiles j) i = Some p \<Longrightarrow>
           inc64 (pp_consecutive_guard_failures p) = Suc (pp_consecutive_guard_failures p)"
proof -
  have le: "n \<le> tj_generation j \<Longrightarrow> inc64 n = Suc n" for n
    using assms by (simp add: roomy_def)
  show "bt_get (tj_profiles j) i = Some p \<Longrightarrow> inc64 (pp_execution_count p) = Suc (pp_execution_count p)"
    and "bt_get (tj_profiles j) i = Some p \<Longrightarrow>
           inc64 (pp_consecutive_guard_failures p) = Suc (pp_consecutive_guard_failures p)"
    using assms by (auto simp: roomy_def counts_le_def intro!: le)
qed (use assms in \<open>auto simp: roomy_def counts_le_def telemetry_le_def\<close>)

lemma counts_step:
  assumes "counts_le j" and "tj_generation j' = Suc (tj_generation j)"
    and "telemetry_le (tj_telemetry j') (Suc (tj_generation j))"
    and "bt_wf (tj_profiles j)" and "tj_profiles j' = bt_insert i p (tj_profiles j)"
    and "pp_execution_count p \<le> Suc (tj_generation j)" and "pp_consecutive_guard_failures p \<le> Suc (tj_generation j)"
  shows "counts_le j'"
  using assms by (auto simp: counts_le_def intro: le_SucI split: if_splits)

lemma new_jit_inv: "jit_inv (new_jit config)"
  by (simp add: jit_inv_def new_jit_def profiles_ok_def cached_ok_def telemetry_ok_def cache_size_def
    default_jit_telemetry_def bt.len_empty counts_le_def telemetry_le_def)

lemma reset_new: "jit_reset j = new_jit (tj_config j)"
  by (simp add: jit_reset_def new_jit_def)

lemma profiles_touch:
  assumes "profiles_ok j" and "pp_invalidated p \<or> pp_consecutive_guard_failures p < failure_bound j"
    and "pp_last_access_generation p = Suc (tj_generation j)"
    and "tj_profiles j' = bt_insert i p (tj_profiles j)" and "tj_generation j' = Suc (tj_generation j)"
    and "tj_config j' = tj_config j"
  shows "profiles_ok j'"
proof -
  have wf: "bt_wf (tj_profiles j)" using assms(1) by (simp add: profiles_ok_def)
  have old: "pp_last_access_generation q \<le> tj_generation j" if "bt_get (tj_profiles j) k = Some q" for k q
    using assms(1) that by (auto simp: profiles_ok_def)
  have get': "bt_get (tj_profiles j') k = (if k = i then Some p else bt_get (tj_profiles j) k)" for k
    using wf assms(4) by simp
  have inj: "k = m" if "bt_get (tj_profiles j) k = Some q" and "bt_get (tj_profiles j) m = Some r"
    and "pp_last_access_generation q = pp_last_access_generation r" for k m q r
    using assms(1) that unfolding profiles_ok_def by blast
  have neq: "pp_last_access_generation q \<noteq> pp_last_access_generation p" if "bt_get (tj_profiles j) k = Some q" for k q
    using old [OF that] assms(3) by simp
  show ?thesis
    unfolding profiles_ok_def
  proof (intro conjI allI impI)
    show "bt_wf (tj_profiles j')" using wf assms(4) by simp
    fix k q assume q: "bt_get (tj_profiles j') k = Some q"
    then show "0 < pp_last_access_generation q" and "pp_last_access_generation q \<le> tj_generation j'"
      and "pp_invalidated q \<or> pp_consecutive_guard_failures q < failure_bound j'"
      using assms wf old [of k q] by (auto simp: profiles_ok_def failure_bound_def split: if_splits intro: le_SucI)
    fix m r assume "bt_get (tj_profiles j') m = Some r" and "pp_last_access_generation q = pp_last_access_generation r"
    then show "k = m"
      using q unfolding get' by (metis inj neq option.inject)
  qed
qed

lemma profiles_keep_time:
  assumes "profiles_ok j" and "bt_get (tj_profiles j) i = Some q"
    and "pp_invalidated p \<or> pp_consecutive_guard_failures p < failure_bound j"
    and "pp_last_access_generation p = pp_last_access_generation q"
    and "tj_profiles j' = bt_insert i p (tj_profiles j)" and "tj_generation j' = tj_generation j"
    and "tj_config j' = tj_config j"
  shows "profiles_ok j'"
proof -
  have wf: "bt_wf (tj_profiles j)" using assms(1) by (simp add: profiles_ok_def)
  show ?thesis
    unfolding profiles_ok_def
  proof (intro conjI allI impI)
    show "bt_wf (tj_profiles j')" using wf assms(5) by simp
    fix k r assume r: "bt_get (tj_profiles j') k = Some r"
    then show "0 < pp_last_access_generation r" and "pp_last_access_generation r \<le> tj_generation j'"
      and "pp_invalidated r \<or> pp_consecutive_guard_failures r < failure_bound j'"
      using assms wf by (auto simp: profiles_ok_def failure_bound_def split: if_splits)
    fix m t assume "bt_get (tj_profiles j') m = Some t" and "pp_last_access_generation r = pp_last_access_generation t"
    then show "k = m"
      using r assms(1,2,4,5) wf unfolding profiles_ok_def by (auto split: if_splits)
  qed
qed

lemma profiles_same:
  assumes "profiles_ok j" and "tj_profiles j' = tj_profiles j" and "tj_generation j \<le> tj_generation j'"
    and "tj_config j' = tj_config j"
  shows "profiles_ok j'"
  using assms by (simp add: profiles_ok_def failure_bound_def) (meson order_trans)

lemma cached_update:
  assumes "cached_ok j" and "bt_wf (tj_profiles j)" and "tj_cache j' = tj_cache j" and "tj_config j' = tj_config j"
    and "tj_profiles j' = bt_insert i p (tj_profiles j)"
    and "\<And>q. bt_get (tj_profiles j) i = Some q \<Longrightarrow>
      \<not> pp_invalidated q \<Longrightarrow> \<not> pp_invalidated p \<and> pp_execution_count q \<le> pp_execution_count p"
  shows "cached_ok j'"
  unfolding cached_ok_def
proof (intro conjI allI impI)
  show "bt_wf (tj_cache j')" using assms(1,3) by (simp add: cached_ok_def)
  fix k t assume "bt_get (tj_cache j') k = Some t"
  then have t: "bt_get (tj_cache j) k = Some t" using assms(3) by simp
  then show "\<exists>plan. t = from_plan plan \<and> sp_plan_id plan = k" using assms(1) by (simp add: cached_ok_def)
  obtain q where q: "bt_get (tj_profiles j) k = Some q" "\<not> pp_invalidated q"
    "jc_min_jit_executions (tj_config j) \<le> pp_execution_count q"
    using assms(1) t unfolding cached_ok_def by blast
  then show "\<exists>p. bt_get (tj_profiles j') k = Some p \<and> \<not> pp_invalidated p \<and>
      jc_min_jit_executions (tj_config j') \<le> pp_execution_count p"
    using assms(2,4,5) assms(6) [of q] by (cases "k = i") auto
qed

lemma min_by_key_None [simp]: "min_by_key f xs = None \<longleftrightarrow> xs = []"
  by (cases xs) (auto simp: min_by_key_def)

lemma min_by_key_Some:
  assumes "min_by_key f xs = Some x"
  shows "x \<in> set xs" and "y \<in> set xs \<Longrightarrow> f x \<le> f y"
proof -
  have *: "b \<in> insert a (set ys) \<and> (\<forall>y \<in> insert a (set ys). f b \<le> f y)"
    if "b = fold (\<lambda>x best. if f x < f best then x else best) ys a" for a b ys
    using that by (induction ys arbitrary: a) (auto split: if_splits, force+)
  from assms obtain a ys where xs: "xs = a # ys" and "x = fold (\<lambda>x best. if f x < f best then x else best) ys a"
    by (cases xs) (auto simp: min_by_key_def)
  from * [OF this(2)] xs show "x \<in> set xs" and "y \<in> set xs \<Longrightarrow> f x \<le> f y" by auto
qed

text \<open>What an eviction does to a cache that is not empty: the trace accessed longest ago goes.\<close>

lemma evict_lru_inv:
  assumes "profiles_ok j" and "cached_ok j" and "telemetry_ok j" and "jt_evictions (tj_telemetry j) < u64_max"
    and "tj_cache j \<noteq> []"
  obtains i where "bt_get (tj_cache j) i \<noteq> None" and "\<And>k. bt_get (tj_cache j) k \<noteq> None \<Longrightarrow> last_access j i \<le> last_access j k"
    and "tj_cache (evict_lru j) = bt_remove i (tj_cache j)" and "tj_profiles (evict_lru j) = tj_profiles j"
    and "tj_generation (evict_lru j) = tj_generation j" and "tj_config (evict_lru j) = tj_config j"
    and "telemetry_ok (evict_lru j)" and "cached_ok (evict_lru j)" and "Suc (cache_size (evict_lru j)) = cache_size j"
proof -
  have wf: "bt_wf (tj_cache j)" using assms(2) by (simp add: cached_ok_def)
  obtain i where i: "min_by_key (last_access j) (map fst (tj_cache j)) = Some i"
    using assms(5) by (cases "min_by_key (last_access j) (map fst (tj_cache j))") auto
  note keys = dom_bt_get [of "tj_cache j", unfolded dom_def, symmetric]
  have mem: "bt_get (tj_cache j) i \<noteq> None" using min_by_key_Some(1) [OF i] keys by auto
  have least: "last_access j i \<le> last_access j k" if "bt_get (tj_cache j) k \<noteq> None" for k
    using min_by_key_Some(2) [OF i, of k] that keys by auto
  have pos: "0 < bt_len (tj_cache j)" using assms(5) by (simp add: bt_len_def)
  have len: "bt_len (bt_remove i (tj_cache j)) = bt_len (tj_cache j) - 1"
    using mem wf by (auto simp: bt.len_remove)
  have cache: "tj_cache (evict_lru j) = bt_remove i (tj_cache j)"
    by (simp add: evict_lru_def i Let_def)
  show thesis
  proof (rule that [OF mem least cache])
    show "telemetry_ok (evict_lru j)"
      using assms(3,4) pos by (simp add: evict_lru_def i Let_def telemetry_ok_def cache_size_def len)
    show "Suc (cache_size (evict_lru j)) = cache_size j" using pos by (simp add: cache_size_def cache len)
    show "cached_ok (evict_lru j)"
      using assms(2) wf by (simp add: cached_ok_def evict_lru_def i Let_def)
  qed (auto simp: evict_lru_def i Let_def)
qed

lemma compile_trace_inv:
  assumes "profiles_ok j" and "cached_ok j" and "telemetry_ok j" and "cache_size j \<le> cache_bound j"
    and "bt_get (tj_cache j) (sp_plan_id plan) = None" and "bt_get (tj_profiles j) (sp_plan_id plan) = Some p"
    and "\<not> pp_invalidated p" and "jc_min_jit_executions (tj_config j) \<le> pp_execution_count p"
    and "counts_le j" and "tj_generation j \<le> u64_max"
    and "jt_traces_compiled (tj_telemetry j) < tj_generation j" and "jt_evictions (tj_telemetry j) < tj_generation j"
  shows "jit_inv (compile_trace plan j)"
proof -
  define j1 where "j1 = (if bt_len (tj_cache j) \<ge> jc_max_compiled_traces (tj_config j) then evict_lru j else j)"
  have j1: "cached_ok j1 \<and> telemetry_ok j1 \<and> tj_profiles j1 = tj_profiles j \<and> tj_config j1 = tj_config j \<and>
      tj_generation j1 = tj_generation j \<and> bt_get (tj_cache j1) (sp_plan_id plan) = None \<and>
      cache_size j1 < cache_bound j \<and> telemetry_le (tj_telemetry j1) (tj_generation j) \<and>
      jt_traces_compiled (tj_telemetry j1) = jt_traces_compiled (tj_telemetry j)"
  proof (cases "bt_len (tj_cache j) \<ge> jc_max_compiled_traces (tj_config j) \<and> tj_cache j \<noteq> []")
    case True
    have wf: "bt_wf (tj_cache j)" using assms(2) by (simp add: cached_ok_def)
    have tel: "jt_evictions (tj_telemetry j) < u64_max" "tj_cache j \<noteq> []" using assms(10,12) True by simp_all
    have "telemetry_le (tj_telemetry (evict_lru j)) (tj_generation j)"
      "jt_traces_compiled (tj_telemetry (evict_lru j)) = jt_traces_compiled (tj_telemetry j)"
      using assms(9,12) inc64_le [of "jt_evictions (tj_telemetry j)"]
      by (auto simp: evict_lru_def Let_def counts_le_def telemetry_le_def split: option.split)
    then show ?thesis
      using True assms(4,5) wf unfolding j1_def
      by - (rule evict_lru_inv [OF assms(1-3) tel], auto)
  next
    case False
    then show ?thesis
      using assms unfolding j1_def
      by (auto simp: cache_size_def cache_bound_def bt_len_def evict_lru_def min_by_key_def counts_le_def)
  qed
  define j2 where "j2 = compile_trace plan j"
  have j2: "j2 = j1\<lparr>tj_cache := bt_insert (sp_plan_id plan) (from_plan plan) (tj_cache j1),
      tj_telemetry := (tj_telemetry j1)\<lparr>jt_traces_compiled := Suc (jt_traces_compiled (tj_telemetry j1)),
        jt_cache_size := min u64_max (bt_len (bt_insert (sp_plan_id plan) (from_plan plan) (tj_cache j1)))\<rparr>\<rparr>"
    using j1 assms(10,11) by (simp add: j2_def compile_trace_def j1_def [symmetric] Let_def)
  have wf: "bt_wf (tj_cache j1)" using j1 by (simp add: cached_ok_def)
  have len: "cache_size j2 = Suc (cache_size j1)"
    using j1 wf by (simp add: j2 cache_size_def bt.len_insert)
  have "profiles_ok j2" using assms(1) j1 by (auto intro: profiles_same simp: j2)
  moreover have "cached_ok j2"
    using j1 wf assms(6-8) unfolding cached_ok_def by (auto simp: j2)
  moreover have "telemetry_ok j2"
    using j1 len wf by (auto simp: telemetry_ok_def j2 cache_size_def)
  moreover have "cache_size j2 \<le> cache_bound j2"
    using j1 len by (simp add: cache_bound_def j2)
  moreover have "counts_le j2"
    using j1 assms(9,11) by (simp add: counts_le_def telemetry_le_def j2)
  ultimately show ?thesis by (simp add: jit_inv_def j2_def)
qed

text \<open>The state after an execution has been noted, before any promotion.\<close>

definition noted_profile :: "super_plan \<Rightarrow> trace_jit \<Rightarrow> plan_profile" where
  "noted_profile plan j =
     (let q = (case bt_get (tj_profiles j) (sp_plan_id plan) of Some p \<Rightarrow> p | None \<Rightarrow> default_profile)
      in q\<lparr>pp_execution_count := Suc (pp_execution_count q), pp_last_access_generation := Suc (tj_generation j)\<rparr>)"

definition noted :: "super_plan \<Rightarrow> trace_jit \<Rightarrow> trace_jit" where
  "noted plan j =
     j\<lparr>tj_telemetry := (tj_telemetry j)\<lparr>jt_plans_evaluated := Suc (jt_plans_evaluated (tj_telemetry j))\<rparr>,
       tj_generation := Suc (tj_generation j),
       tj_profiles := bt_insert (sp_plan_id plan) (noted_profile plan j) (tj_profiles j)\<rparr>"

definition executions :: "trace_jit \<Rightarrow> ustr \<Rightarrow> u64" where
  "executions j i = (case bt_get (tj_profiles j) i of Some p \<Rightarrow> pp_execution_count p | None \<Rightarrow> 0)"

lemma noted_sel [simp]:
  "tj_config (noted plan j) = tj_config j" "tj_cache (noted plan j) = tj_cache j"
  "cache_size (noted plan j) = cache_size j" "tj_generation (noted plan j) = Suc (tj_generation j)"
  "tj_profiles (noted plan j) = bt_insert (sp_plan_id plan) (noted_profile plan j) (tj_profiles j)"
  by (simp_all add: noted_def cache_size_def)

lemma noted_profile_sel [simp]:
  "pp_invalidated (noted_profile plan j) = is_invalidated j (sp_plan_id plan)"
  "pp_execution_count (noted_profile plan j) = Suc (executions j (sp_plan_id plan))"
  "pp_last_access_generation (noted_profile plan j) = Suc (tj_generation j)"
  by (auto simp: noted_profile_def is_invalidated_def executions_def default_profile_def Let_def split: option.splits)

lemma record_plan_execution_noted:
  assumes "roomy j"
  shows "record_plan_execution plan j =
     (if \<not> jc_enabled (tj_config j) then (False, j)
      else if \<not> is_invalidated j (sp_plan_id plan) \<and>
        jc_min_jit_executions (tj_config j) \<le> Suc (executions j (sp_plan_id plan)) \<and>
        bt_get (tj_cache j) (sp_plan_id plan) = None
      then (True, compile_trace plan (noted plan j)) else (False, noted plan j))"
proof -
  have "record_plan_execution plan j =
     (if \<not> jc_enabled (tj_config j) then (False, j)
      else if pp_invalidated (noted_profile plan j) then (False, noted plan j)
      else if jc_min_jit_executions (tj_config j) \<le> pp_execution_count (noted_profile plan j) \<and>
        bt_get (tj_cache j) (sp_plan_id plan) = None
      then (True, compile_trace plan (noted plan j)) else (False, noted plan j))"
  proof (cases "bt_get (tj_profiles j) (sp_plan_id plan)")
    case None
    have "inc64 0 = Suc 0" by simp
    with None show ?thesis
      by (simp add: record_plan_execution_def Let_def noted_def noted_profile_def roomy_exact [OF assms] default_profile_def)
  next
    case (Some p)
    then show ?thesis
      by (simp add: record_plan_execution_def Let_def noted_def noted_profile_def roomy_exact [OF assms])
  qed
  then show ?thesis by simp
qed

lemma noted_ok:
  assumes "jit_inv j"
  shows "profiles_ok (noted plan j)" and "cached_ok (noted plan j)" and "telemetry_ok (noted plan j)"
    and "counts_le (noted plan j)"
proof -
  have ok: "profiles_ok j" "cached_ok j" "telemetry_ok j" using assms by (simp_all add: jit_inv_def)
  have wf: "bt_wf (tj_profiles j)" using ok(1) by (simp add: profiles_ok_def)
  have "pp_invalidated (noted_profile plan j) \<or>
      pp_consecutive_guard_failures (noted_profile plan j) < failure_bound j"
    using ok(1) by (auto simp: noted_profile_def is_invalidated_def Let_def profiles_ok_def default_profile_def
      failure_bound_def split: option.splits)
  then show "profiles_ok (noted plan j)"
    by (intro profiles_touch [OF ok(1), of "noted_profile plan j" _ "sp_plan_id plan"]) simp_all
  show "cached_ok (noted plan j)"
    by (rule cached_update [OF ok(2) wf, of _ "sp_plan_id plan" "noted_profile plan j"])
      (auto simp: noted_profile_def)
  show "telemetry_ok (noted plan j)" using ok(3) by (simp add: telemetry_ok_def cache_size_def noted_def)
  have counts: "counts_le j" using assms by (simp add: jit_inv_def)
  show "counts_le (noted plan j)"
  proof (rule counts_step [OF counts])
    show "telemetry_le (tj_telemetry (noted plan j)) (Suc (tj_generation j))"
      using counts by (auto simp: noted_def counts_le_def telemetry_le_def)
    show "pp_execution_count (noted_profile plan j) \<le> Suc (tj_generation j)"
      "pp_consecutive_guard_failures (noted_profile plan j) \<le> Suc (tj_generation j)"
      using counts by (auto simp: noted_profile_def counts_le_def default_profile_def Let_def intro: le_SucI split: option.split)
  qed (simp_all add: wf)
qed

lemma jit_inv_roomy: "jit_inv j \<Longrightarrow> tj_generation j < u64_max \<Longrightarrow> roomy j"
  by (simp add: jit_inv_def roomy_def)

lemma record_plan_execution_inv:
  assumes "jit_inv j" and "tj_generation j < u64_max"
  shows "jit_inv (snd (record_plan_execution plan j))"
proof -
  have wf: "bt_wf (tj_profiles j)" and bound: "cache_size (noted plan j) \<le> cache_bound (noted plan j)"
    using assms(1) by (simp_all add: jit_inv_def profiles_ok_def cache_bound_def)
  have get: "bt_get (tj_profiles (noted plan j)) (sp_plan_id plan) = Some (noted_profile plan j)" using wf by simp
  have counts: "jt_traces_compiled (tj_telemetry (noted plan j)) < tj_generation (noted plan j)"
    "jt_evictions (tj_telemetry (noted plan j)) < tj_generation (noted plan j)"
    using assms(1) by (auto simp: jit_inv_def counts_le_def telemetry_le_def noted_def)
  have "jit_inv (noted plan j)" using noted_ok [OF assms(1)] bound by (simp add: jit_inv_def)
  then show ?thesis
    using assms compile_trace_inv [OF noted_ok(1-3) [OF assms(1)] bound _ get _ _ noted_ok(4) [OF assms(1)] _ counts]
    by (auto simp: record_plan_execution_noted [OF jit_inv_roomy [OF assms]])
qed

lemma bt_insert_insert [simp]: "bt_wf m \<Longrightarrow> bt_insert k v (bt_insert k w m) = bt_insert k v m"
  by (rule bt_ext) auto

lemma failed_guard_None: "failed_guard t trace ctx = None \<longleftrightarrow> guards_pass t trace ctx"
proof -
  have "(\<forall>x \<in> set (enumerate n gs). guard_check (snd x) trace ctx) \<longleftrightarrow>
      list_all (\<lambda>g. guard_check g trace ctx) gs" for n gs
    by (induction gs arbitrary: n) auto
  then show ?thesis
    by (simp add: failed_guard_def find_None_ball guards_pass_def case_prod_unfold)
qed

lemma from_plan_guards:
  "guards_pass (from_plan plan) trace ctx \<longleftrightarrow>
     prefix (sp_opcode_window plan) trace \<and> \<not> gc_vetoing ctx \<and> sp_support_count plan div 2 \<le> gc_support ctx"
  by (simp add: guards_pass_def from_plan_def Let_def guard_check_def prefix_matches_iff)

text \<open>A dispatch, in one piece: not compiled, hit, guard failure, or the failure that invalidates.\<close>

definition touched :: "trace_jit \<Rightarrow> ustr \<Rightarrow> plan_profile \<Rightarrow> trace_jit" where
  "touched j i p =
     j\<lparr>tj_generation := Suc (tj_generation j),
       tj_profiles := bt_insert i (p\<lparr>pp_last_access_generation := Suc (tj_generation j)\<rparr>) (tj_profiles j)\<rparr>"

lemma dispatch_hit:
  assumes "jc_enabled (tj_config j)" and "bt_wf (tj_profiles j)" and "bt_get (tj_cache j) i = Some t"
    and "bt_get (tj_profiles j) i = Some q" and "guards_pass t trace ctx"
    and "roomy j"
  shows "try_jit_dispatch i trace ctx j =
    (\<lparr>jr_hit = True, jr_plan_id = Some i, jr_deopt = None, jr_cost_delta = ct_tier_improvement_delta t\<rparr>,
     (touched j i (q\<lparr>pp_consecutive_guard_failures := 0\<rparr>))
       \<lparr>tj_telemetry := (tj_telemetry j)\<lparr>jt_jit_hits := Suc (jt_jit_hits (tj_telemetry j))\<rparr>\<rparr>)"
proof -
  have "failed_guard t trace ctx = None" using assms(5) by (simp add: failed_guard_None)
  then show ?thesis
    using assms(1-4) roomy_exact(1,3) [OF assms(6)]
    by (cases j; cases q) (simp add: try_jit_dispatch_def update_profile_def touched_def Let_def)
qed

lemma dispatch_fail:
  assumes "jc_enabled (tj_config j)" and "bt_wf (tj_profiles j)" and "bt_get (tj_cache j) i = Some t"
    and "bt_get (tj_profiles j) i = Some q" and "failed_guard t trace ctx = Some (idx, d)"
    and "\<not> pp_invalidated q" and "Suc (pp_consecutive_guard_failures q) < jc_max_guard_failures (tj_config j)"
    and "roomy j"
  shows "try_jit_dispatch i trace ctx j =
    (deopt_result i (GuardFailure idx d),
     (touched j i (q\<lparr>pp_consecutive_guard_failures := Suc (pp_consecutive_guard_failures q)\<rparr>))
       \<lparr>tj_telemetry := (tj_telemetry j)\<lparr>jt_deopts := Suc (jt_deopts (tj_telemetry j)),
         jt_jit_misses := Suc (jt_jit_misses (tj_telemetry j))\<rparr>\<rparr>)"
  using assms(1-7) roomy_exact(1,4-6) [OF assms(8)] roomy_exact(8) [OF assms(8,4)]
  by (cases j; cases q) (simp add: try_jit_dispatch_def update_profile_def record_guard_failure_def touched_def Let_def)

lemma dispatch_invalidate:
  assumes "jc_enabled (tj_config j)" and "bt_wf (tj_profiles j)" and "bt_get (tj_cache j) i = Some t"
    and "bt_get (tj_profiles j) i = Some q" and "failed_guard t trace ctx = Some (idx, d)"
    and "\<not> pp_invalidated q" and "jc_max_guard_failures (tj_config j) \<le> Suc (pp_consecutive_guard_failures q)"
    and "roomy j"
  shows "try_jit_dispatch i trace ctx j =
    (deopt_result i (TraceInvalidated (Suc (pp_consecutive_guard_failures q))),
     (touched j i (q\<lparr>pp_consecutive_guard_failures := Suc (pp_consecutive_guard_failures q), pp_invalidated := True\<rparr>))
       \<lparr>tj_cache := bt_remove i (tj_cache j),
        tj_telemetry := (tj_telemetry j)\<lparr>jt_deopts := Suc (jt_deopts (tj_telemetry j)),
          jt_jit_misses := Suc (jt_jit_misses (tj_telemetry j)),
          jt_invalidations := Suc (jt_invalidations (tj_telemetry j)),
          jt_cache_size := min u64_max (bt_len (bt_remove i (tj_cache j)))\<rparr>\<rparr>)"
  using assms(1-7) roomy_exact(1,4-6) [OF assms(8)] roomy_exact(8) [OF assms(8,4)]
  by (cases j; cases q) (simp add: try_jit_dispatch_def update_profile_def record_guard_failure_def touched_def Let_def)

lemma dispatch_fails_with:
  assumes "jc_enabled (tj_config j)" and "bt_wf (tj_profiles j)" and "bt_get (tj_cache j) i = Some t"
    and "bt_get (tj_profiles j) i = Some q" and "\<not> guards_pass t trace ctx" and "\<not> pp_invalidated q"
    and "roomy j"
  shows "\<exists>reason. fst (try_jit_dispatch i trace ctx j) = deopt_result i reason"
proof -
  obtain idx d where f: "failed_guard t trace ctx = Some (idx, d)"
    using assms(5) failed_guard_None [of t trace ctx] by (cases "failed_guard t trace ctx") auto
  show ?thesis
    using dispatch_fail [OF assms(1-4) f assms(6) _ assms(7)] dispatch_invalidate [OF assms(1-4) f assms(6) _ assms(7)]
    by (cases "Suc (pp_consecutive_guard_failures q) < jc_max_guard_failures (tj_config j)") auto
qed

lemma compiled_saving:
  assumes "sc_enabled c" and "fits_in_memory traces" and "plan \<in> set (compile_plans c traces)"
  shows "ct_tier_improvement_delta (from_plan plan) = 3 + int (plan_width plan)"
proof -
  obtain w where w: "plan = fused_plan w (support_of traces w)" "0 < support_of traces w"
    using assms(3) compiled_iff [OF assms(1,2)] by (auto simp: max_def split: if_splits)
  have "int (length w) < 576460752303423488" using support_in_memory [OF assms(2) w(2)] by simp
  then show ?thesis
    by (simp add: w(1) from_plan_def Let_def estimated_jit_cost_def sat_i64_def width_units_def
      JIT_DISPATCH_COST_UNITS_def JIT_DISPATCH_STEP_COST_UNITS_def i64_max_def)
      (simp add: fused_plan_def)
qed

lemma dispatch_not_compiled:
  "jc_enabled (tj_config j) \<Longrightarrow> bt_get (tj_cache j) i = None \<Longrightarrow>
   try_jit_dispatch i trace ctx j = (deopt_result i NotCompiled, j\<lparr>tj_generation := inc64 (tj_generation j)\<rparr>)"
  by (simp add: try_jit_dispatch_def Let_def)

lemma dispatch_disabled:
  "\<not> jc_enabled (tj_config j) \<Longrightarrow> try_jit_dispatch i trace ctx j = (deopt_result i JitDisabled, j)"
  by (simp add: try_jit_dispatch_def)

lemma jit_cachedE:
  assumes "jit_inv j" and "bt_get (tj_cache j) i = Some t"
  obtains plan q where "t = from_plan plan" and "sp_plan_id plan = i" and "bt_get (tj_profiles j) i = Some q"
    and "\<not> pp_invalidated q" and "pp_consecutive_guard_failures q < failure_bound j"
    and "jc_min_jit_executions (tj_config j) \<le> pp_execution_count q"
proof -
  obtain plan q where *: "t = from_plan plan" "sp_plan_id plan = i" "bt_get (tj_profiles j) i = Some q"
    "\<not> pp_invalidated q" "jc_min_jit_executions (tj_config j) \<le> pp_execution_count q"
    using assms unfolding jit_inv_def cached_ok_def by blast
  moreover have "pp_consecutive_guard_failures q < failure_bound j"
    using assms(1) *(3,4) unfolding jit_inv_def profiles_ok_def by blast
  ultimately show thesis using that by blast
qed

lemma jit_inv_wf: "jit_inv j \<Longrightarrow> bt_wf (tj_profiles j)" "jit_inv j \<Longrightarrow> bt_wf (tj_cache j)"
  by (simp_all add: jit_inv_def profiles_ok_def cached_ok_def)

lemma touched_sel [simp]:
  "tj_config (touched j i p) = tj_config j" "tj_cache (touched j i p) = tj_cache j"
  "tj_telemetry (touched j i p) = tj_telemetry j" "tj_generation (touched j i p) = Suc (tj_generation j)"
  "tj_profiles (touched j i p) = bt_insert i (p\<lparr>pp_last_access_generation := Suc (tj_generation j)\<rparr>) (tj_profiles j)"
  by (simp_all add: touched_def)

lemma touched_inv:
  assumes "jit_inv j" and "bt_get (tj_profiles j) i = Some q"
    and "pp_invalidated p \<or> pp_consecutive_guard_failures p < failure_bound j"
    and "tj_profiles j' = tj_profiles (touched j i p)" and "tj_generation j' = Suc (tj_generation j)"
    and "tj_config j' = tj_config j" and "tj_cache j' = (if pp_invalidated p then bt_remove i (tj_cache j) else tj_cache j)"
    and "pp_execution_count p = pp_execution_count q"
  shows "profiles_ok j'" and "cached_ok j'" and "cache_size j' \<le> cache_bound j'"
proof -
  note wf = jit_inv_wf [OF assms(1)]
  show "profiles_ok j'"
    using assms(1,3,5,6)
    by (intro profiles_touch [of j "p\<lparr>pp_last_access_generation := Suc (tj_generation j)\<rparr>" j' i])
      (auto simp: jit_inv_def assms(4))
  show "cached_ok j'"
  proof (cases "pp_invalidated p")
    case True
    then show ?thesis
      using assms(1,4,6,7) wf unfolding jit_inv_def cached_ok_def by auto
  next
    case False
    then show ?thesis
      using assms(1,2,4-8) wf
      by (intro cached_update [of j j' i "p\<lparr>pp_last_access_generation := Suc (tj_generation j)\<rparr>"])
        (auto simp: jit_inv_def)
  qed
  show "cache_size j' \<le> cache_bound j'"
    using assms(1,6,7) wf(2) by (auto simp: jit_inv_def cache_size_def cache_bound_def bt.len_remove split: if_splits)
qed

lemma try_jit_dispatch_inv:
  assumes "jit_inv j" and "tj_generation j < u64_max"
  shows "jit_inv (snd (try_jit_dispatch i trace ctx j))"
proof -
  note wf = jit_inv_wf [OF assms(1)]
  note room = jit_inv_roomy [OF assms]
  have counts: "counts_le j" using assms(1) by (simp add: jit_inv_def)
  then have count: "telemetry_le (tj_telemetry j) (tj_generation j)" by (simp add: counts_le_def)
  consider "\<not> jc_enabled (tj_config j)" | "jc_enabled (tj_config j)" "bt_get (tj_cache j) i = None"
    | t where "jc_enabled (tj_config j)" "bt_get (tj_cache j) i = Some t"
    by (cases "bt_get (tj_cache j) i") auto
  then show ?thesis
  proof cases
    case 1
    then show ?thesis using assms(1) by (simp add: dispatch_disabled)
  next
    case 2
    then show ?thesis
      using assms profiles_same [of j "j\<lparr>tj_generation := Suc (tj_generation j)\<rparr>"]
      by (auto simp: dispatch_not_compiled jit_inv_def cached_ok_def telemetry_ok_def cache_size_def cache_bound_def
          counts_le_def telemetry_le_def intro: le_SucI)
  next
    case (3 t)
    obtain q where q: "bt_get (tj_profiles j) i = Some q" "\<not> pp_invalidated q"
      "pp_consecutive_guard_failures q < failure_bound j"
      by (rule jit_cachedE [OF assms(1) 3(2)])
    have pos: "0 < failure_bound j" by (simp add: failure_bound_def)
    have tel: "telemetry_ok j" using assms(1) by (simp add: jit_inv_def)
    have few: "pp_execution_count q \<le> tj_generation j" "pp_consecutive_guard_failures q \<le> tj_generation j"
      using counts q(1) by (auto simp: counts_le_def)
    show ?thesis
    proof (cases "failed_guard t trace ctx")
      case None
      then have pass: "guards_pass t trace ctx" by (simp add: failed_guard_None)
      show ?thesis
        using touched_inv [OF assms(1) q(1), of "q\<lparr>pp_consecutive_guard_failures := 0\<rparr>"] pos q(2) tel
        unfolding dispatch_hit [OF 3(1) wf(1) 3(2) q(1) pass room] jit_inv_def
        using few count
        by (auto simp: telemetry_ok_def cache_size_def telemetry_le_def intro!: counts_step [OF counts _ _ wf(1)])
    next
      case (Some f)
      then obtain idx d where f: "failed_guard t trace ctx = Some (idx, d)" by (cases f) auto
      show ?thesis
      proof (cases "Suc (pp_consecutive_guard_failures q) < jc_max_guard_failures (tj_config j)")
        case True
        then have "Suc (pp_consecutive_guard_failures q) < failure_bound j" by (simp add: failure_bound_def)
        then show ?thesis
          using touched_inv [OF assms(1) q(1), of "q\<lparr>pp_consecutive_guard_failures := Suc (pp_consecutive_guard_failures q)\<rparr>"] q(2) tel
          unfolding dispatch_fail [OF 3(1) wf(1) 3(2) q(1) f q(2) True room] jit_inv_def
          using few count
        by (auto simp: telemetry_ok_def cache_size_def telemetry_le_def intro!: counts_step [OF counts _ _ wf(1)])
      next
        case False
        then have bound: "jc_max_guard_failures (tj_config j) \<le> Suc (pp_consecutive_guard_failures q)" by simp
        have "0 < bt_len (tj_cache j)" using 3(2) wf(2) by (metis bt.len_zero_iff gr0I option.distinct(1))
        then have "Suc (bt_len (bt_remove i (tj_cache j))) = bt_len (tj_cache j)"
          using 3(2) wf(2) by (simp add: bt.len_remove)
        then show ?thesis
          using touched_inv [OF assms(1) q(1), of "q\<lparr>pp_consecutive_guard_failures := Suc (pp_consecutive_guard_failures q),
              pp_invalidated := True\<rparr>"] tel
          unfolding dispatch_invalidate [OF 3(1) wf(1) 3(2) q(1) f q(2) bound room] jit_inv_def
          using few count
        by (auto simp: telemetry_ok_def cache_size_def telemetry_le_def intro!: counts_step [OF counts _ _ wf(1)])
      qed
    qed
  qed
qed

section \<open>Sequences of calls\<close>

datatype jit_event =
    Executed super_plan
  | Dispatched ustr "opcode list" guard_context
  | Reset

definition jit_step :: "jit_event \<Rightarrow> trace_jit \<Rightarrow> trace_jit" where
  "jit_step e j =
     (case e of
        Executed plan \<Rightarrow> snd (record_plan_execution plan j)
      | Dispatched i trace ctx \<Rightarrow> snd (try_jit_dispatch i trace ctx j)
      | Reset \<Rightarrow> jit_reset j)"

lemma evict_lru_config [simp]: "tj_config (evict_lru j) = tj_config j" "tj_profiles (evict_lru j) = tj_profiles j"
  by (auto simp: evict_lru_def Let_def split: option.splits)

lemma compile_trace_config [simp]:
  "tj_config (compile_trace plan j) = tj_config j" "tj_profiles (compile_trace plan j) = tj_profiles j"
  by (auto simp: compile_trace_def Let_def)

lemma record_plan_execution_config [simp]: "tj_config (snd (record_plan_execution plan j)) = tj_config j"
  by (auto simp: record_plan_execution_def Let_def)

lemma record_guard_failure_config [simp]: "tj_config (snd (record_guard_failure i j)) = tj_config j"
  by (auto simp: record_guard_failure_def Let_def split: option.splits)

lemma update_profile_config [simp]: "tj_config (update_profile i f j) = tj_config j"
  by (auto simp: update_profile_def split: option.splits)

lemma try_jit_dispatch_config [simp]: "tj_config (snd (try_jit_dispatch i trace ctx j)) = tj_config j"
proof -
  have *: "tj_config (snd (case r of (None, s) \<Rightarrow> (a, s) | (Some n, s) \<Rightarrow> (b n, s))) = tj_config (snd r)"
    for r :: "u64 option \<times> trace_jit" and a :: jit_result and b
    by (auto split: prod.splits option.splits)
  show ?thesis
    by (auto simp: try_jit_dispatch_def Let_def * split: option.splits)
qed

lemma jit_step_config [simp]: "tj_config (jit_step e j) = tj_config j"
  by (cases e) (simp_all add: jit_step_def reset_new new_jit_def)

text \<open>
  What holds for any number of calls, with counters that wrap: the tables are sound, the cache is
  within its bound and no invalidated plan is in it.
\<close>

definition cache_inv :: "trace_jit \<Rightarrow> bool" where
  "cache_inv j \<longleftrightarrow> bt_wf (tj_cache j) \<and> bt_wf (tj_profiles j) \<and> cache_size j \<le> cache_bound j \<and>
     (\<forall>i. is_invalidated j i \<longrightarrow> bt_get (tj_cache j) i = None)"

lemma new_cache_inv: "cache_inv (new_jit config)"
  by (simp add: cache_inv_def new_jit_def cache_size_def is_invalidated_def bt.len_empty)

lemma evict_cache:
  assumes "bt_wf (tj_cache j)" and "cache_size j \<le> cache_bound j"
    and "bt_len (tj_cache j) \<ge> jc_max_compiled_traces (tj_config j)"
  shows "bt_wf (tj_cache (evict_lru j))" and "cache_size (evict_lru j) < cache_bound j"
    and "bt_get (tj_cache j) k = None \<Longrightarrow> bt_get (tj_cache (evict_lru j)) k = None"
proof -
  have "bt_wf (tj_cache (evict_lru j)) \<and> cache_size (evict_lru j) < cache_bound j \<and>
      (bt_get (tj_cache j) k = None \<longrightarrow> bt_get (tj_cache (evict_lru j)) k = None)"
  proof (cases "min_by_key (last_access j) (map fst (tj_cache j))")
    case None
    then have "evict_lru j = j" "tj_cache j = []" by (simp_all add: evict_lru_def del: min_by_key_None) simp
    then show ?thesis using assms by (simp add: cache_size_def cache_bound_def bt_len_def)
  next
    case (Some i)
    have mem: "bt_get (tj_cache j) i \<noteq> None"
      using min_by_key_Some(1) [OF Some] dom_bt_get [of "tj_cache j"] by (auto simp: dom_def)
    then have "0 < bt_len (tj_cache j)" using assms(1) by (metis bt.len_zero_iff gr0I)
    with Some mem assms show ?thesis
      by (auto simp: evict_lru_def Let_def cache_size_def cache_bound_def bt.len_remove)
  qed
  then show "bt_wf (tj_cache (evict_lru j))" "cache_size (evict_lru j) < cache_bound j"
    "bt_get (tj_cache j) k = None \<Longrightarrow> bt_get (tj_cache (evict_lru j)) k = None" by blast+
qed

lemma compile_cache_inv:
  assumes "cache_inv j" and "\<not> is_invalidated j (sp_plan_id plan)" and "bt_get (tj_cache j) (sp_plan_id plan) = None"
  shows "cache_inv (compile_trace plan j)"
proof -
  define j1 where "j1 = (if bt_len (tj_cache j) \<ge> jc_max_compiled_traces (tj_config j) then evict_lru j else j)"
  have ok: "bt_wf (tj_cache j)" "bt_wf (tj_profiles j)" "cache_size j \<le> cache_bound j"
    "\<And>i. is_invalidated j i \<Longrightarrow> bt_get (tj_cache j) i = None"
    using assms(1) by (auto simp: cache_inv_def)
  have j1: "bt_wf (tj_cache j1)" "cache_size j1 < cache_bound j" "bt_get (tj_cache j) k = None \<Longrightarrow> bt_get (tj_cache j1) k = None"
    "tj_profiles j1 = tj_profiles j" for k
    using evict_cache(1,2) [OF ok(1,3)] evict_cache(3) [OF ok(1,3), of k] ok by (auto simp: j1_def cache_size_def cache_bound_def)
  have "compile_trace plan j = j1\<lparr>tj_cache := bt_insert (sp_plan_id plan) (from_plan plan) (tj_cache j1),
      tj_telemetry := tj_telemetry (compile_trace plan j)\<rparr>"
    by (simp add: compile_trace_def j1_def Let_def)
  then obtain t where eq: "compile_trace plan j = j1\<lparr>tj_cache := bt_insert (sp_plan_id plan) (from_plan plan) (tj_cache j1),
      tj_telemetry := t\<rparr>" by blast
  show ?thesis
    using j1 ok assms(2,3) unfolding cache_inv_def eq
    by (auto simp: cache_size_def cache_bound_def is_invalidated_def bt.len_insert j1_def)
qed

lemma record_cache_inv:
  assumes "cache_inv j"
  shows "cache_inv (snd (record_plan_execution plan j))"
proof (cases "jc_enabled (tj_config j)")
  case True
  define q where "q = (case bt_get (tj_profiles j) (sp_plan_id plan) of Some p \<Rightarrow> p | None \<Rightarrow> default_profile)"
  define p where "p = q\<lparr>pp_execution_count := inc64 (pp_execution_count q), pp_last_access_generation := inc64 (tj_generation j)\<rparr>"
  define j1 where "j1 = j\<lparr>tj_telemetry := (tj_telemetry j)\<lparr>jt_plans_evaluated := inc64 (jt_plans_evaluated (tj_telemetry j))\<rparr>,
      tj_generation := inc64 (tj_generation j), tj_profiles := bt_insert (sp_plan_id plan) p (tj_profiles j)\<rparr>"
  have wf: "bt_wf (tj_profiles j)" using assms by (simp add: cache_inv_def)
  have flag: "is_invalidated j1 i = is_invalidated j i" for i
    using wf by (auto simp: j1_def p_def q_def is_invalidated_def default_profile_def split: option.splits)
  have ok: "cache_inv j1"
    using assms flag wf unfolding cache_inv_def by (simp add: j1_def cache_size_def cache_bound_def)
  have "pp_invalidated p = is_invalidated j1 (sp_plan_id plan)" using wf by (simp add: j1_def is_invalidated_def)
  then have "record_plan_execution plan j =
      (if is_invalidated j1 (sp_plan_id plan) then (False, j1)
       else if pp_execution_count p \<ge> jc_min_jit_executions (tj_config j1) \<and> \<not> bt_contains (tj_cache j1) (sp_plan_id plan)
       then (True, compile_trace plan j1) else (False, j1))"
    using True by (simp add: record_plan_execution_def Let_def j1_def p_def q_def)
  then show ?thesis using ok compile_cache_inv [OF ok] by simp
qed (use assms in \<open>simp add: record_plan_execution_def\<close>)

lemma update_cache_inv:
  assumes "cache_inv j" and "\<And>p. pp_invalidated (f p) = pp_invalidated p"
  shows "cache_inv (update_profile i f j)"
  using assms
  by (auto simp: cache_inv_def update_profile_def cache_size_def cache_bound_def is_invalidated_def
      split: option.splits)

lemma failure_cache_inv:
  assumes "cache_inv j"
  shows "cache_inv (snd (record_guard_failure i j))"
  using assms
  by (auto simp: cache_inv_def record_guard_failure_def Let_def cache_size_def cache_bound_def is_invalidated_def
      bt.len_remove split: option.splits)

lemma dispatch_cache_inv:
  assumes "cache_inv j"
  shows "cache_inv (snd (try_jit_dispatch i trace ctx j))"
proof -
  have pair: "snd (case r of (None, s) \<Rightarrow> (a, s) | (Some n, s) \<Rightarrow> (b n, s)) = snd r"
    for r :: "u64 option \<times> trace_jit" and a :: jit_result and b
    by (auto split: prod.splits option.splits)
  have same: "cache_inv j'" if "cache_inv j1" "tj_cache j' = tj_cache j1" "tj_profiles j' = tj_profiles j1"
    "tj_config j' = tj_config j1" for j' j1
    using that by (simp add: cache_inv_def cache_size_def cache_bound_def is_invalidated_def)
  have gen: "cache_inv (j\<lparr>tj_generation := n\<rparr>)" for n by (rule same [OF assms]) simp_all
  have touch: "cache_inv (update_profile i (\<lambda>p. p\<lparr>pp_last_access_generation := m\<rparr>) (j\<lparr>tj_generation := n\<rparr>))" for m n
    by (rule update_cache_inv [OF gen]) simp
  have hit: "cache_inv (update_profile i (\<lambda>p. p\<lparr>pp_consecutive_guard_failures := 0\<rparr>) (j1\<lparr>tj_telemetry := t\<rparr>))"
    if "cache_inv j1" for j1 t
    by (rule update_cache_inv [OF same [OF that]]) simp_all
  show ?thesis
    using assms gen by (auto simp: try_jit_dispatch_def Let_def pair intro!: failure_cache_inv touch hit
        split: option.splits)
qed

interpretation jit: bounded_machine cache_inv jit_step cache_size cache_bound
proof
  fix j e assume "cache_inv j"
  then show "cache_inv (jit_step e j)"
    by (cases e) (simp_all add: jit_step_def record_cache_inv dispatch_cache_inv reset_new new_cache_inv)
next
  fix j assume "cache_inv j"
  then show "cache_size j \<le> cache_bound j" by (simp add: cache_inv_def)
next
  fix j e show "cache_bound (jit_step e j) = cache_bound j" by (simp add: cache_bound_def)
qed

text \<open>The counters count every call until one of them is full.\<close>

lemma evict_lru_generation [simp]: "tj_generation (evict_lru j) = tj_generation j"
  by (simp add: evict_lru_def Let_def split: option.split)

lemma compile_trace_generation [simp]: "tj_generation (compile_trace plan j) = tj_generation j"
  by (simp add: compile_trace_def Let_def)

lemma record_guard_failure_generation [simp]: "tj_generation (snd (record_guard_failure i j)) = tj_generation j"
  by (auto simp: record_guard_failure_def Let_def split: option.splits)

lemma update_profile_generation [simp]: "tj_generation (update_profile i f j) = tj_generation j"
  by (auto simp: update_profile_def split: option.splits)

lemma jit_step_generation: "tj_generation (jit_step e j) \<le> Suc (tj_generation j)"
proof (cases e)
  case (Executed plan)
  then show ?thesis
    using inc64_le [of "tj_generation j"] by (auto simp: jit_step_def record_plan_execution_def Let_def)
next
  case (Dispatched i trace ctx)
  have pair: "tj_generation (snd (case r of (None, s) \<Rightarrow> (a, s) | (Some n, s) \<Rightarrow> (b n, s))) = tj_generation (snd r)"
    for r :: "u64 option \<times> trace_jit" and a :: jit_result and b
    by (auto split: prod.splits option.splits)
  show ?thesis
    using Dispatched inc64_le [of "tj_generation j"]
    by (auto simp: jit_step_def try_jit_dispatch_def Let_def pair split: option.splits)
qed (simp add: jit_step_def jit_reset_def)

lemma jit_step_inv: "jit_inv j \<Longrightarrow> tj_generation j < u64_max \<Longrightarrow> jit_inv (jit_step e j)"
  by (cases e) (simp_all add: jit_step_def record_plan_execution_inv try_jit_dispatch_inv reset_new new_jit_inv)

lemma last_access_inj:
  assumes "jit_inv j" and "bt_get (tj_profiles j) i = Some p" and "bt_get (tj_profiles j) k = Some q"
    and "last_access j i \<le> last_access j k" and "i \<noteq> k"
  shows "last_access j i < last_access j k"
proof -
  have "pp_last_access_generation p \<noteq> pp_last_access_generation q"
    using assms(1-3,5) unfolding jit_inv_def profiles_ok_def by blast
  then show ?thesis using assms(2-4) by (simp add: last_access_def)
qed

lemma profile_survives:
  assumes "is_invalidated j i" and "cache_inv j" and "e \<noteq> Reset"
  shows "is_invalidated (jit_step e j) i"
proof -
  obtain p where p: "bt_get (tj_profiles j) i = Some p" "pp_invalidated p"
    using assms(1) by (auto simp: is_invalidated_def split: option.splits)
  have wf: "bt_wf (tj_profiles j)" "bt_wf (tj_cache j)" using assms(2) by (simp_all add: cache_inv_def)
  have uncached: "bt_get (tj_cache j) i = None"
    using assms(1,2) by (simp add: cache_inv_def)
  show ?thesis
  proof (cases e)
    case (Executed plan)
    then show ?thesis
      using p wf by (auto simp: jit_step_def is_invalidated_def record_plan_execution_def Let_def)
  next
    case (Dispatched k trace ctx)
    have keep: "bt_get (tj_profiles (update_profile k f j')) i = bt_get (tj_profiles j') i"
      if "k \<noteq> i" and "bt_wf (tj_profiles j')" for f j'
      using that by (auto simp: update_profile_def split: option.splits)
    have keep_wf: "bt_wf (tj_profiles (update_profile k f j'))" if "bt_wf (tj_profiles j')" for f j'
      using that by (auto simp: update_profile_def split: option.splits)
    have fail: "bt_get (tj_profiles (snd (record_guard_failure k j'))) i = bt_get (tj_profiles j') i"
      if "k \<noteq> i" and "bt_wf (tj_profiles j')" for j'
      using that by (auto simp: record_guard_failure_def Let_def split: option.splits)
    have pair: "tj_profiles (snd (case r of (None, s) \<Rightarrow> (a, s) | (Some n, s) \<Rightarrow> (b n, s))) = tj_profiles (snd r)"
      for r :: "u64 option \<times> trace_jit" and a :: jit_result and b
      by (auto split: prod.splits option.splits)
    have "bt_get (tj_profiles (snd (try_jit_dispatch k trace ctx j))) i = bt_get (tj_profiles j) i"
    proof (cases "k = i")
      case True
      then show ?thesis using uncached by (simp add: try_jit_dispatch_def Let_def)
    next
      case False
      then show ?thesis
        using wf by (auto simp: try_jit_dispatch_def Let_def keep keep_wf fail pair split: option.splits)
    qed
    then show ?thesis using Dispatched assms(1) by (simp add: jit_step_def is_invalidated_def)
  qed (use assms(3) in simp)
qed

lemma invalidated_forever:
  assumes "is_invalidated j i" and "cache_inv j" and "jc_enabled (tj_config j)" and "Reset \<notin> set es"
  shows "fst (try_jit_dispatch i trace ctx (fold jit_step es j)) = deopt_result i NotCompiled"
  using assms
proof (induction es arbitrary: j)
  case Nil
  then have "bt_get (tj_cache j) i = None" by (simp add: cache_inv_def)
  then show ?case using Nil(3) by (simp add: dispatch_not_compiled)
next
  case (Cons e es)
  then have "e \<noteq> Reset" by auto
  then show ?case using Cons profile_survives [of j i e] by (simp add: jit.inv_step)
qed

text \<open>Several dispatches of one plan, with their results.\<close>

fun dispatch_all :: "ustr \<Rightarrow> (opcode list \<times> guard_context) list \<Rightarrow> trace_jit \<Rightarrow> jit_result list \<times> trace_jit" where
  "dispatch_all i [] j = ([], j)"
| "dispatch_all i ((trace, ctx) # calls) j =
     (case try_jit_dispatch i trace ctx j of
        (r, j1) \<Rightarrow> (case dispatch_all i calls j1 of (rs, j2) \<Rightarrow> (r # rs, j2)))"

definition guard_failed :: "jit_result \<Rightarrow> bool" where
  "guard_failed r = (\<not> jr_hit r \<and> (case jr_deopt r of Some (GuardFailure idx d) \<Rightarrow> True | _ \<Rightarrow> False))"

lemma failures_accumulate:
  assumes "jit_inv j" and "jc_enabled (tj_config j)" and "bt_get (tj_cache j) i = Some t"
    and "bt_get (tj_profiles j) i = Some q"
    and "\<forall>(trace, ctx) \<in> set calls. \<not> guards_pass t trace ctx"
    and "pp_consecutive_guard_failures q + length calls < failure_bound j"
    and "tj_generation j + length calls \<le> u64_max" and "cache_inv j"
  obtains rs j' q' where "dispatch_all i calls j = (rs, j')" and "list_all guard_failed rs" and "jit_inv j'"
    and "tj_config j' = tj_config j" and "bt_get (tj_cache j') i = Some t" and "bt_get (tj_profiles j') i = Some q'"
    and "pp_consecutive_guard_failures q' = pp_consecutive_guard_failures q + length calls"
    and "tj_generation j' = tj_generation j + length calls" and "cache_inv j'"
  using assms
proof (induction calls arbitrary: j q thesis)
  case Nil
  then show ?case by simp
next
  case (Cons call calls)
  obtain trace ctx where call: "call = (trace, ctx)" by (cases call)
  note wf = jit_inv_wf [OF Cons.prems(2)]
  obtain q0 where "bt_get (tj_profiles j) i = Some q0" "\<not> pp_invalidated q0" by (rule jit_cachedE [OF Cons.prems(2,4)])
  then have ni: "\<not> pp_invalidated q" using Cons.prems(5) by simp
  have "failed_guard t trace ctx \<noteq> None" using Cons.prems(6) call by (simp add: failed_guard_None)
  then obtain idx d where f: "failed_guard t trace ctx = Some (idx, d)" by auto
  have "Suc (pp_consecutive_guard_failures q) < jc_max_guard_failures (tj_config j)"
    using Cons.prems(7) by (simp add: failure_bound_def)
  have gen: "tj_generation j < u64_max" using Cons.prems(8) by simp
  note step = dispatch_fail [OF Cons.prems(3) wf(1) Cons.prems(4,5) f ni
      \<open>Suc (pp_consecutive_guard_failures q) < jc_max_guard_failures (tj_config j)\<close> jit_inv_roomy [OF Cons.prems(2) gen]]
  define j1 where "j1 = snd (try_jit_dispatch i trace ctx j)"
  define q1 where "q1 = q\<lparr>pp_consecutive_guard_failures := Suc (pp_consecutive_guard_failures q),
    pp_last_access_generation := Suc (tj_generation j)\<rparr>"
  have j1: "jit_inv j1" "tj_config j1 = tj_config j" "bt_get (tj_cache j1) i = Some t"
    "bt_get (tj_profiles j1) i = Some q1" "failure_bound j1 = failure_bound j"
    "tj_generation j1 = Suc (tj_generation j)"
    using try_jit_dispatch_inv [OF Cons.prems(2) gen, of i trace ctx] Cons.prems(4) wf
    by (simp_all add: j1_def step failure_bound_def q1_def)
  obtain rs j' q' where rec: "dispatch_all i calls j1 = (rs, j')" "list_all guard_failed rs" "jit_inv j'"
    "tj_config j' = tj_config j1" "bt_get (tj_cache j') i = Some t" "bt_get (tj_profiles j') i = Some q'"
    "pp_consecutive_guard_failures q' = pp_consecutive_guard_failures q1 + length calls"
    "tj_generation j' = tj_generation j1 + length calls" "cache_inv j'"
  proof (rule Cons.IH [OF _ j1(1) _ j1(3,4)])
    show "cache_inv j1" using dispatch_cache_inv [OF Cons.prems(9)] by (simp add: j1_def)
    show "jc_enabled (tj_config j1)" using Cons.prems(3) j1(2) by simp
    show "\<forall>(trace, ctx) \<in> set calls. \<not> guards_pass t trace ctx" using Cons.prems(6) by simp
    show "pp_consecutive_guard_failures q1 + length calls < failure_bound j1"
      using Cons.prems(7) j1(5) by (simp add: q1_def)
    show "tj_generation j1 + length calls \<le> u64_max" using Cons.prems(8) j1(6) by simp
  qed
  show ?case
  proof (rule Cons.prems(1))
    show "dispatch_all i (call # calls) j = (deopt_result i (GuardFailure idx d) # rs, j')"
      using rec(1) by (simp add: call j1_def step)
    show "list_all guard_failed (deopt_result i (GuardFailure idx d) # rs)"
      using rec(2) by (simp add: guard_failed_def deopt_result_def)
  qed (use rec j1 q1_def in auto)
qed

section \<open>Properties\<close>

definition jit_run :: "jit_config \<Rightarrow> jit_event list \<Rightarrow> trace_jit" where
  "jit_run config es = fold jit_step es (new_jit config)"

lemma jit_run_counts:
  "length es \<le> u64_max \<Longrightarrow> jit_inv (jit_run config es) \<and> tj_generation (jit_run config es) \<le> length es"
proof (induction es rule: rev_induct)
  case Nil
  then show ?case by (simp add: jit_run_def new_jit_inv) (simp add: new_jit_def)
next
  case (snoc e es)
  let ?j = "jit_run config es"
  have ok: "jit_inv ?j" "tj_generation ?j \<le> length es" using snoc by simp_all
  moreover have "jit_run config (es @ [e]) = jit_step e ?j" by (simp add: jit_run_def)
  ultimately show ?case
    using jit_step_inv [of ?j e] jit_step_generation [of e ?j] snoc.prems by simp
qed

lemmas jit_run_inv = jit_run_counts [THEN conjunct1] and jit_run_generation = jit_run_counts [THEN conjunct2]

lemma jit_run_roomy: "length es < u64_max \<Longrightarrow> roomy (jit_run config es)"
  using jit_run_counts [of es config] by (intro jit_inv_roomy) auto

lemma jit_run_cache_inv: "cache_inv (jit_run config es)"
  by (simp add: jit_run_def jit.inv_run new_cache_inv)

lemma jit_run_config [simp]: "tj_config (jit_run config es) = config"
proof -
  have "tj_config (fold jit_step es j) = tj_config j" for j
    by (induction es arbitrary: j) auto
  then show ?thesis by (simp add: jit_run_def new_jit_def)
qed

text \<open>
  C32: Whatever is executed, dispatched and reset, and however often, the cache of compiled traces stays
  within its bound and holds no invalidated plan. As long as there were fewer than \<open>2 ^ 64\<close> calls, so that
  no counter has wrapped around, every trace in the cache was compiled from a plan of that identifier
  which ran at least \<open>min_jit_executions\<close> times, and the telemetry accounts for the cache: its size is
  the reported one, and every trace ever compiled is in the cache, evicted or invalidated.
\<close>

theorem jit_cache_accounted:
  fixes config :: jit_config and es :: "jit_event list"
  defines "j \<equiv> jit_run config es"
  shows "cache_size j \<le> max 1 (jc_max_compiled_traces config) \<and>
    (\<forall>i. is_invalidated j i \<longrightarrow> get_compiled_trace j i = None) \<and>
    (length es < 2 ^ 64 \<longrightarrow>
      (\<forall>i t. get_compiled_trace j i = Some t \<longrightarrow>
         (\<exists>plan. t = from_plan plan \<and> sp_plan_id plan = i) \<and>
         (\<exists>p. bt_get (tj_profiles j) i = Some p \<and> jc_min_jit_executions config \<le> pp_execution_count p \<and>
            pp_consecutive_guard_failures p < max 1 (jc_max_guard_failures config))) \<and>
      jt_cache_size (tj_telemetry j) = min u64_max (cache_size j) \<and>
      jt_traces_compiled (tj_telemetry j) =
        cache_size j + jt_evictions (tj_telemetry j) + jt_invalidations (tj_telemetry j))"
proof (intro conjI impI)
  have cfg: "tj_config j = config" by (simp add: j_def)
  show "cache_size j \<le> max 1 (jc_max_compiled_traces config)"
    using jit.depth_run [OF new_cache_inv, of es config] unfolding j_def jit_run_def
    by (simp add: cache_bound_def new_jit_def)
  show "\<forall>i. is_invalidated j i \<longrightarrow> get_compiled_trace j i = None"
    using jit_run_cache_inv [of config es] by (simp add: j_def cache_inv_def get_compiled_trace_def)
  assume "length es < 2 ^ 64"
  then have ok: "jit_inv j" by (simp add: j_def jit_run_inv u64_max_def)
  then show "jt_cache_size (tj_telemetry j) = min u64_max (cache_size j)"
    and "jt_traces_compiled (tj_telemetry j) =
      cache_size j + jt_evictions (tj_telemetry j) + jt_invalidations (tj_telemetry j)"
    by (simp_all add: jit_inv_def telemetry_ok_def)
  show "\<forall>i t. get_compiled_trace j i = Some t \<longrightarrow>
      (\<exists>plan. t = from_plan plan \<and> sp_plan_id plan = i) \<and>
      (\<exists>p. bt_get (tj_profiles j) i = Some p \<and> jc_min_jit_executions config \<le> pp_execution_count p \<and>
         pp_consecutive_guard_failures p < max 1 (jc_max_guard_failures config))"
    unfolding get_compiled_trace_def
    using jit_cachedE [OF ok] by (metis cfg failure_bound_def)
qed

text \<open>What a compilation does to the cache: room is made, if needed, by the trace accessed longest ago.\<close>

lemma compile_trace_room:
  assumes "cache_size j < jc_max_compiled_traces (tj_config j) \<or> cache_size j = 0"
  shows "tj_cache (compile_trace plan j) = bt_insert (sp_plan_id plan) (from_plan plan) (tj_cache j)"
  using assms by (auto simp: compile_trace_def Let_def cache_size_def bt_len_def evict_lru_def min_by_key_def)

lemma compile_trace_full:
  assumes "profiles_ok j" and "cached_ok j" and "telemetry_ok j" and "jt_evictions (tj_telemetry j) < u64_max"
    and "\<not> (cache_size j < jc_max_compiled_traces (tj_config j) \<or> cache_size j = 0)"
  obtains old where "bt_get (tj_cache j) old \<noteq> None"
    and "\<And>k. bt_get (tj_cache j) k \<noteq> None \<Longrightarrow> last_access j old \<le> last_access j k"
    and "tj_cache (compile_trace plan j) = bt_insert (sp_plan_id plan) (from_plan plan) (bt_remove old (tj_cache j))"
proof -
  have ne: "tj_cache j \<noteq> []" using assms(5) by (auto simp: cache_size_def bt_len_def)
  obtain old where old: "bt_get (tj_cache j) old \<noteq> None"
    "\<And>k. bt_get (tj_cache j) k \<noteq> None \<Longrightarrow> last_access j old \<le> last_access j k"
    "tj_cache (evict_lru j) = bt_remove old (tj_cache j)"
    by (rule evict_lru_inv [OF assms(1-4) ne]) blast
  moreover have "tj_cache (compile_trace plan j) = bt_insert (sp_plan_id plan) (from_plan plan) (bt_remove old (tj_cache j))"
    using assms(5) old(3) by (simp add: compile_trace_def Let_def cache_size_def)
  ultimately show thesis using that by blast
qed

lemma noted_victim_older:
  assumes "jit_inv j" and "bt_get (tj_cache j) (sp_plan_id plan) = None"
    and "bt_get (tj_cache j) old \<noteq> None" and "bt_get (tj_cache j) k \<noteq> None" and "k \<noteq> old"
    and "last_access (noted plan j) old \<le> last_access (noted plan j) k"
  shows "last_access j old < last_access j k"
proof -
  note wf = jit_inv_wf [OF assms(1)]
  have "old \<noteq> sp_plan_id plan" and "k \<noteq> sp_plan_id plan" using assms(2-4) by auto
  then have le: "last_access j old \<le> last_access j k" using assms(6) wf by (simp add: last_access_def)
  obtain a b where "bt_get (tj_profiles j) old = Some a" "bt_get (tj_profiles j) k = Some b"
    using assms(3,4) jit_cachedE [OF assms(1), of old] jit_cachedE [OF assms(1), of k] by (metis not_None_eq)
  then show ?thesis using last_access_inj [OF assms(1) _ _ le] assms(5) by blast
qed

text \<open>
  An execution promotes a plan to a compiled trace exactly when the tier is enabled, the plan is not
  invalidated, this is at least its \<open>min_jit_executions\<close>-th execution and it is not compiled already.
  The promoted plan is then in the cache; when the cache was full (and not empty), exactly one other
  trace left it, the one whose last access is strictly older than that of every other trace, and when it
  was not full, none did.
\<close>

theorem promotion_exact:
  fixes config :: jit_config and es :: "jit_event list" and plan :: super_plan
  defines "j \<equiv> jit_run config es"
  defines "j' \<equiv> snd (record_plan_execution plan j)"
  assumes few: "length es < u64_max"
  shows "(fst (record_plan_execution plan j) \<longleftrightarrow>
      jc_enabled config \<and> \<not> is_invalidated j (sp_plan_id plan) \<and>
      jc_min_jit_executions config \<le> Suc (executions j (sp_plan_id plan)) \<and>
      get_compiled_trace j (sp_plan_id plan) = None) \<and>
    (fst (record_plan_execution plan j) \<longrightarrow>
      get_compiled_trace j' (sp_plan_id plan) = Some (from_plan plan) \<and>
      (if cache_size j < jc_max_compiled_traces config \<or> cache_size j = 0
       then \<forall>k. k \<noteq> sp_plan_id plan \<longrightarrow> get_compiled_trace j' k = get_compiled_trace j k
       else \<exists>old. get_compiled_trace j old \<noteq> None \<and>
         (\<forall>k. k \<noteq> sp_plan_id plan \<longrightarrow>
            get_compiled_trace j' k = (if k = old then None else get_compiled_trace j k)) \<and>
         (\<forall>k. get_compiled_trace j k \<noteq> None \<and> k \<noteq> old \<longrightarrow> last_access j old < last_access j k)))"
proof -
  note ok = jit_run_inv [OF less_imp_le [OF few], of config, folded j_def]
  note room = jit_run_roomy [OF few, of config, folded j_def]
  have evicted: "jt_evictions (tj_telemetry (noted plan j)) < u64_max"
    using room by (simp add: roomy_def counts_le_def telemetry_le_def noted_def)
  have cfg: "tj_config j = config" by (simp add: j_def)
  note wf = jit_inv_wf [OF ok] and run = record_plan_execution_noted [OF room, of plan, unfolded cfg]
  have iff: "fst (record_plan_execution plan j) \<longleftrightarrow> jc_enabled config \<and> \<not> is_invalidated j (sp_plan_id plan) \<and>
      jc_min_jit_executions config \<le> Suc (executions j (sp_plan_id plan)) \<and> get_compiled_trace j (sp_plan_id plan) = None"
    by (auto simp: run get_compiled_trace_def)
  show ?thesis
  proof (cases "fst (record_plan_execution plan j)")
    case True
    then have j': "j' = compile_trace plan (noted plan j)" and fresh: "bt_get (tj_cache j) (sp_plan_id plan) = None"
      by (auto simp: j'_def run split: if_splits)
    show ?thesis
    proof (cases "cache_size j < jc_max_compiled_traces config \<or> cache_size j = 0")
      case room: True
      then have "tj_cache j' = bt_insert (sp_plan_id plan) (from_plan plan) (tj_cache j)"
        unfolding j' by (subst compile_trace_room) (auto simp: cfg)
      then show ?thesis using True iff room wf by (auto simp: get_compiled_trace_def)
    next
      case full: False
      obtain old where old: "bt_get (tj_cache j) old \<noteq> None"
        "\<And>k. bt_get (tj_cache j) k \<noteq> None \<Longrightarrow> last_access (noted plan j) old \<le> last_access (noted plan j) k"
        "tj_cache j' = bt_insert (sp_plan_id plan) (from_plan plan) (bt_remove old (tj_cache j))"
        using compile_trace_full [OF noted_ok(1-3) [OF ok, of plan] evicted, of plan thesis] full unfolding j' noted_sel cfg by blast
      have "last_access j old < last_access j k" if "bt_get (tj_cache j) k \<noteq> None" "k \<noteq> old" for k
        by (rule noted_victim_older [OF ok fresh old(1) that old(2) [OF that(1)]])
      then show ?thesis
        using True iff full wf old(1) unfolding get_compiled_trace_def old(3) by auto
    qed
  next
    case False
    then show ?thesis using iff by blast
  qed
qed

text \<open>
  A compiled trace runs only behind its guards. A dispatch is a hit exactly when the tier is enabled and the
  plan is compiled with a window that the trace begins with, no safety envelope vetoes, and the current
  support is at least half of the support the plan was compiled with; for a plan of the superinstruction
  compiler a hit saves three units and one for every opcode over the fused form. A dispatch that is not
  a hit names the reason and saves nothing.
\<close>

theorem jit_hit_exact:
  fixes config :: jit_config and es :: "jit_event list" and i :: ustr and trace :: "opcode list" and ctx :: guard_context
  defines "j \<equiv> jit_run config es"
  defines "r \<equiv> fst (try_jit_dispatch i trace ctx j)"
  assumes few: "length es < u64_max"
  shows "(jr_hit r \<longleftrightarrow>
      jc_enabled config \<and>
      (\<exists>plan. get_compiled_trace j i = Some (from_plan plan) \<and> sp_plan_id plan = i \<and>
         prefix (sp_opcode_window plan) trace \<and> \<not> gc_vetoing ctx \<and> sp_support_count plan div 2 \<le> gc_support ctx)) \<and>
    (\<not> jr_hit r \<longrightarrow> jr_deopt r \<noteq> None \<and> jr_cost_delta r = 0) \<and>
    (jr_hit r \<and> sc_enabled c \<and> fits_in_memory traces \<and> plan \<in> set (compile_plans c traces) \<and>
      get_compiled_trace j i = Some (from_plan plan) \<longrightarrow>
      jr_cost_delta r = 3 + int (plan_width plan))"
proof -
  note ok = jit_run_inv [OF less_imp_le [OF few], of config, folded j_def]
  note room = jit_run_roomy [OF few, of config, folded j_def]
  have cfg: "tj_config j = config" by (simp add: j_def)
  note wf = jit_inv_wf [OF ok]
  show ?thesis
  proof (cases "jc_enabled config")
    case False
    then show ?thesis by (simp add: r_def dispatch_disabled cfg deopt_result_def)
  next
    case enabled: True
    show ?thesis
    proof (cases "bt_get (tj_cache j) i")
      case None
      then show ?thesis
        using enabled by (simp add: r_def dispatch_not_compiled cfg deopt_result_def get_compiled_trace_def)
    next
      case (Some t)
      obtain p q where p: "t = from_plan p" "sp_plan_id p = i" "bt_get (tj_profiles j) i = Some q" "\<not> pp_invalidated q"
        by (rule jit_cachedE [OF ok Some])
      have en: "jc_enabled (tj_config j)" using enabled cfg by simp
      note gp = from_plan_guards [of _ trace ctx]
      have same: "guards_pass t trace ctx \<longleftrightarrow>
          (\<exists>plan. get_compiled_trace j i = Some (from_plan plan) \<and> sp_plan_id plan = i \<and>
            prefix (sp_opcode_window plan) trace \<and> \<not> gc_vetoing ctx \<and> sp_support_count plan div 2 \<le> gc_support ctx)"
        using Some p(1,2) unfolding get_compiled_trace_def by (metis gp option.inject)
      show ?thesis
      proof (cases "guards_pass t trace ctx")
        case True
        have r: "r = \<lparr>jr_hit = True, jr_plan_id = Some i, jr_deopt = None, jr_cost_delta = ct_tier_improvement_delta t\<rparr>"
          by (simp add: r_def dispatch_hit [OF en wf(1) Some p(3) True room])
        show ?thesis
          using True same enabled Some compiled_saving [of c traces plan]
          by (auto simp: r get_compiled_trace_def)
      next
        case False
        have "\<exists>reason. r = deopt_result i reason"
          by (simp add: r_def) (rule dispatch_fails_with [OF en wf(1) Some p(3) False p(4) room])
        then show ?thesis using False same by (auto simp: deopt_result_def)
      qed
    qed
  qed
qed

lemma dispatch_all_snoc:
  "dispatch_all i (calls @ [(trace, ctx)]) j =
     (case dispatch_all i calls j of
        (rs, j1) \<Rightarrow> (case try_jit_dispatch i trace ctx j1 of (r, j2) \<Rightarrow> (rs @ [r], j2)))"
  by (induction i calls j rule: dispatch_all.induct) (auto split: prod.splits)

lemma last_failure_invalidates:
  assumes "jit_inv j" and "jc_enabled (tj_config j)" and "bt_get (tj_cache j) i = Some t"
    and "bt_get (tj_profiles j) i = Some q" and "\<not> guards_pass t trace ctx"
    and "Suc (pp_consecutive_guard_failures q) = failure_bound j" and "tj_generation j < u64_max"
  shows "fst (try_jit_dispatch i trace ctx j) = deopt_result i (TraceInvalidated (failure_bound j))"
    and "is_invalidated (snd (try_jit_dispatch i trace ctx j)) i"
proof -
  note wf = jit_inv_wf [OF assms(1)]
  obtain idx d where f: "failed_guard t trace ctx = Some (idx, d)"
    using assms(5) failed_guard_None [of t trace ctx] by (cases "failed_guard t trace ctx") auto
  obtain q0 where "bt_get (tj_profiles j) i = Some q0" "\<not> pp_invalidated q0" by (rule jit_cachedE [OF assms(1,3)])
  then have ni: "\<not> pp_invalidated q" using assms(4) by simp
  have "jc_max_guard_failures (tj_config j) \<le> Suc (pp_consecutive_guard_failures q)"
    using assms(6) by (simp add: failure_bound_def)
  note step = dispatch_invalidate [OF assms(2) wf(1) assms(3,4) f ni this jit_inv_roomy [OF assms(1,7)]]
  show "fst (try_jit_dispatch i trace ctx j) = deopt_result i (TraceInvalidated (failure_bound j))"
    and "is_invalidated (snd (try_jit_dispatch i trace ctx j)) i"
    using wf assms(6) by (simp_all add: step is_invalidated_def)
qed

text \<open>
  A trace survives fewer guard failures in a row than the configured number and not one more. From a
  reachable state in which a compiled plan has no failure since its last hit, as many failing dispatches
  as \<open>max_guard_failures\<close> (at least one) report a guard failure each except for the last, which reports
  the invalidation; from then on every dispatch of the plan finds no compiled trace, whatever happens in
  between, however often the plan is executed, unless the compiler is reset.
\<close>

theorem invalidation_exact:
  assumes "jc_enabled config" and "get_compiled_trace (jit_run config es) i = Some t"
    and "bt_get (tj_profiles (jit_run config es)) i = Some q" and "pp_consecutive_guard_failures q = 0"
    and "\<forall>(trace, ctx) \<in> set calls. \<not> guards_pass t trace ctx"
    and "length calls = max 1 (jc_max_guard_failures config)" and "length es + length calls \<le> u64_max"
  shows "\<exists>rs r j'. dispatch_all i calls (jit_run config es) = (rs @ [r], j') \<and> list_all guard_failed rs \<and>
    r = deopt_result i (TraceInvalidated (length calls)) \<and>
    (\<forall>later trace ctx. Reset \<notin> set later \<longrightarrow>
       fst (try_jit_dispatch i trace ctx (fold jit_step later j')) = deopt_result i NotCompiled)"
proof -
  have few: "length es \<le> u64_max" using assms(7) by simp
  note ok = jit_run_inv [OF few, of config]
  have gen: "tj_generation (jit_run config es) + length calls \<le> u64_max"
    using jit_run_generation [OF few, of config] assms(7) by linarith
  obtain cs trace ctx where calls: "calls = cs @ [(trace, ctx)]"
    using assms(6) by (cases calls rule: rev_cases) auto
  have len: "Suc (length cs) = failure_bound (jit_run config es)" using assms(6) by (simp add: calls failure_bound_def)
  obtain rs j1 q1 where run: "dispatch_all i cs (jit_run config es) = (rs, j1)" "list_all guard_failed rs" "jit_inv j1"
    "tj_config j1 = config" "bt_get (tj_cache j1) i = Some t" "bt_get (tj_profiles j1) i = Some q1"
    "pp_consecutive_guard_failures q1 = length cs" "tj_generation j1 < u64_max" "cache_inv j1"
  proof (rule failures_accumulate [OF ok _ _ assms(3) _ _ _ jit_run_cache_inv, of t cs])
    show "\<forall>(trace, ctx) \<in> set cs. \<not> guards_pass t trace ctx" using assms(5) by (simp add: calls)
    show "pp_consecutive_guard_failures q + length cs < failure_bound (jit_run config es)" using len assms(4) by simp
    show "tj_generation (jit_run config es) + length cs \<le> u64_max" using gen by (simp add: calls)
    fix rs j1 q1
    assume "dispatch_all i cs (jit_run config es) = (rs, j1)" "list_all guard_failed rs" "jit_inv j1"
      "tj_config j1 = tj_config (jit_run config es)" "bt_get (tj_cache j1) i = Some t" "bt_get (tj_profiles j1) i = Some q1"
      "pp_consecutive_guard_failures q1 = pp_consecutive_guard_failures q + length cs"
      "tj_generation j1 = tj_generation (jit_run config es) + length cs" "cache_inv j1"
    then show thesis using that gen assms(4) by (simp add: calls)
  qed (use assms(1,2) in \<open>simp_all add: get_compiled_trace_def\<close>)
  have fail: "\<not> guards_pass t trace ctx" using assms(5) by (simp add: calls)
  have bound: "failure_bound j1 = length calls" using assms(6) run(4) by (simp add: failure_bound_def)
  have "Suc (pp_consecutive_guard_failures q1) = failure_bound j1" using run(7) bound by (simp add: calls)
  note last = last_failure_invalidates [OF run(3) _ run(5,6) fail this run(8)]
  define j' where "j' = snd (try_jit_dispatch i trace ctx j1)"
  have "cache_inv j'" "tj_config j' = config" using run(4,9) by (simp_all add: j'_def dispatch_cache_inv)
  moreover have "is_invalidated j' i" using last(2) assms(1) run(4) by (simp add: j'_def)
  ultimately have never: "\<forall>later trace ctx. Reset \<notin> set later \<longrightarrow>
      fst (try_jit_dispatch i trace ctx (fold jit_step later j')) = deopt_result i NotCompiled"
    using invalidated_forever [of j' i] assms(1) by simp
  moreover have "dispatch_all i calls (jit_run config es) = (rs @ [deopt_result i (TraceInvalidated (length calls))], j')"
    using last(1) assms(1) run(1,4) bound
    by (cases "try_jit_dispatch i trace ctx j1") (auto simp: calls dispatch_all_snoc j'_def)
  ultimately show ?thesis using run(2) by blast
qed

section \<open>A concrete run\<close>

definition demo_plan :: super_plan where
  "demo_plan = \<lparr>sp_schema = [], sp_version = 1, sp_plan_id = [112], sp_trace_signature = [],
     sp_opcode_window = [[97], [98]], sp_support_count = 4, sp_cost_baseline = 20, sp_cost_fused = 10, sp_cost_delta = 10\<rparr>"

definition demo_plan2 :: super_plan where
  "demo_plan2 = demo_plan\<lparr>sp_plan_id := [113]\<rparr>"

definition demo_config :: jit_config where
  "demo_config = \<lparr>jc_enabled = True, jc_min_jit_executions = 2, jc_max_compiled_traces = 1, jc_max_guard_failures = 2\<rparr>"

definition calm :: guard_context where
  "calm = \<lparr>gc_vetoing = False, gc_support = 3\<rparr>"

lemmas jit_eval = inc64_def jit_run_def new_jit_def jit_step_def record_plan_execution_def compile_trace_def evict_lru_def
  min_by_key_def Let_def bt_empty_def bt_len_def default_profile_def default_jit_telemetry_def get_compiled_trace_def
  is_invalidated_def executions_def cache_size_def last_access_def demo_config_def

lemma demo_plan_sel [simp]:
  "sp_plan_id demo_plan = [112]" "sp_plan_id demo_plan2 = [113]" "sp_opcode_window demo_plan = [[97], [98]]"
  "sp_support_count demo_plan = 4"
  by (simp_all add: demo_plan_def demo_plan2_def)

theorem jit_cache_accounted_witness:
  "get_compiled_trace (jit_run demo_config [Executed demo_plan, Executed demo_plan]) [112] = Some (from_plan demo_plan) \<and>
   (\<exists>p. bt_get (tj_profiles (jit_run demo_config [Executed demo_plan, Executed demo_plan])) [112] = Some p \<and>
      2 \<le> pp_execution_count p) \<and>
   jt_cache_size (tj_telemetry (jit_run demo_config [Executed demo_plan, Executed demo_plan])) =
     min u64_max (cache_size (jit_run demo_config [Executed demo_plan, Executed demo_plan]))"
proof -
  let ?es = "[Executed demo_plan, Executed demo_plan]"
  have t: "get_compiled_trace (jit_run demo_config ?es) [112] = Some (from_plan demo_plan)"
    by (simp add: jit_eval)
  have "length ?es < 2 ^ 64" by simp
  then have "(\<exists>p. bt_get (tj_profiles (jit_run demo_config ?es)) [112] = Some p \<and>
      jc_min_jit_executions demo_config \<le> pp_execution_count p) \<and>
    jt_cache_size (tj_telemetry (jit_run demo_config ?es)) = min u64_max (cache_size (jit_run demo_config ?es))"
    using jit_cache_accounted [of demo_config ?es] t by blast
  moreover have "jc_min_jit_executions demo_config = 2" by (simp add: demo_config_def)
  ultimately show ?thesis using t by auto
qed

theorem promotion_exact_witness:
  "fst (record_plan_execution demo_plan2 (jit_run demo_config [Executed demo_plan, Executed demo_plan, Executed demo_plan2])) \<and>
   get_compiled_trace (snd (record_plan_execution demo_plan2
     (jit_run demo_config [Executed demo_plan, Executed demo_plan, Executed demo_plan2]))) [113] = Some (from_plan demo_plan2)"
proof -
  have "fst (record_plan_execution demo_plan2 (jit_run demo_config [Executed demo_plan, Executed demo_plan, Executed demo_plan2]))"
    by (simp add: jit_eval)
  then show ?thesis
    using promotion_exact [where plan = demo_plan2 and config = demo_config and es = "[Executed demo_plan, Executed demo_plan, Executed demo_plan2]"] by (simp add: u64_max_def)
qed

theorem jit_hit_exact_witness:
  "jr_hit (fst (try_jit_dispatch [112] [[97], [98], [99]] calm (jit_run demo_config [Executed demo_plan, Executed demo_plan]))) \<and>
   \<not> jr_hit (fst (try_jit_dispatch [113] [] calm (jit_run demo_config []))) \<and>
   jr_deopt (fst (try_jit_dispatch [113] [] calm (jit_run demo_config []))) \<noteq> None"
proof -
  have "get_compiled_trace (jit_run demo_config [Executed demo_plan, Executed demo_plan]) [112] = Some (from_plan demo_plan)"
    by (simp add: jit_eval)
  then have "\<exists>plan. get_compiled_trace (jit_run demo_config [Executed demo_plan, Executed demo_plan]) [112] = Some (from_plan plan) \<and>
      sp_plan_id plan = [112] \<and> prefix (sp_opcode_window plan) [[97], [98], [99]] \<and> \<not> gc_vetoing calm \<and>
      sp_support_count plan div 2 \<le> gc_support calm"
    by (intro exI [of _ demo_plan]) (simp add: calm_def)
  then have hit: "jr_hit (fst (try_jit_dispatch [112] [[97], [98], [99]] calm (jit_run demo_config [Executed demo_plan, Executed demo_plan])))"
    using jit_hit_exact [where i = "[112]" and trace = "[[97], [98], [99]]" and ctx = calm and config = demo_config
        and es = "[Executed demo_plan, Executed demo_plan]"]
    by (simp add: demo_config_def u64_max_def)
  have none: "get_compiled_trace (jit_run demo_config []) [113] = None" by (simp add: jit_eval)
  show ?thesis
    using hit none jit_hit_exact [where i = "[113]" and trace = "[]" and ctx = calm and config = demo_config and es = "[]"] by (auto simp: u64_max_def)
qed

theorem invalidation_exact_witness:
  "\<exists>rs r j'. dispatch_all [112] [([], calm), ([[98]], calm)] (jit_run demo_config [Executed demo_plan, Executed demo_plan]) =
     (rs @ [r], j') \<and> r = deopt_result [112] (TraceInvalidated 2) \<and>
   fst (try_jit_dispatch [112] [[97], [98]] calm (fold jit_step [Executed demo_plan] j')) = deopt_result [112] NotCompiled"
proof -
  let ?es = "[Executed demo_plan, Executed demo_plan]"
  have t: "get_compiled_trace (jit_run demo_config ?es) [112] = Some (from_plan demo_plan)" by (simp add: jit_eval)
  obtain q where q: "bt_get (tj_profiles (jit_run demo_config ?es)) [112] = Some q" "pp_consecutive_guard_failures q = 0"
    by (simp add: jit_eval)
  have calls: "\<forall>(trace, ctx) \<in> set [([], calm), ([[98]], calm)]. \<not> guards_pass (from_plan demo_plan) trace ctx"
    by (simp add: from_plan_guards)
  have len: "length [([], calm), ([[98]], calm)] = max 1 (jc_max_guard_failures demo_config)"
    by (simp add: demo_config_def numeral_2_eq_2)
  obtain rs r j' where *: "dispatch_all [112] [([], calm), ([[98]], calm)] (jit_run demo_config ?es) = (rs @ [r], j')"
    "r = deopt_result [112] (TraceInvalidated (length [([], calm), ([[98]], calm)]))"
    "\<forall>later trace ctx. Reset \<notin> set later \<longrightarrow>
       fst (try_jit_dispatch [112] trace ctx (fold jit_step later j')) = deopt_result [112] NotCompiled"
    using invalidation_exact [OF _ t q calls len] by (auto simp: demo_config_def u64_max_def)
  have two: "length [([], calm), ([[98]], calm)] = 2" by simp
  have "Reset \<notin> set [Executed demo_plan]" by simp
  then have "fst (try_jit_dispatch [112] [[97], [98]] calm (fold jit_step [Executed demo_plan] j')) =
      deopt_result [112] NotCompiled"
    using *(3) by blast
  then show ?thesis using *(1,2) unfolding two by blast
qed

end
