(* ===== verification/Rewrite_Planner.thy ===== *)
theory Rewrite_Planner
  imports Prelude
begin

text \<open>
  The rewrite planner for host calls (\<open>src/src/hostcall_rewrite.rs\<close>): among candidate plans it takes the one
  that is strictly cheapest and cheaper than the canonical plan, and falls back to the canonical plan when
  there is none or when the cheapest is not unique. The setting from the environment is an argument.
\<close>

section \<open>The planner\<close>

datatype rewrite_plan_kind = BaselineCanonical | FastOpcodeFusion

record rewrite_plan =
  rp_kind :: rewrite_plan_kind
  rp_estimated_cost :: u32
  rp_rule_id :: ustr

datatype rewrite_fallback = RewriteDisabled | NoBetterCandidate | AmbiguousMinCost

record rewrite_decision =
  rd_selected :: rewrite_plan
  rd_expected_cost_delta :: int
  rd_fallback_reason :: "rewrite_fallback option"

definition engine_from_opt :: "ustr option \<Rightarrow> bool" where
  "engine_from_opt value =
     (case value of
        None \<Rightarrow> True
      | Some v \<Rightarrow> to_ascii_lowercase (trim v) \<notin> {lit ''0'', lit ''false'', lit ''off'', lit ''disabled''})"

text \<open>The loop over the candidates: the best plan so far and whether another plan ties with it.\<close>

definition rewrite_step :: "rewrite_plan \<Rightarrow> rewrite_plan \<Rightarrow> rewrite_plan option \<times> bool \<Rightarrow> rewrite_plan option \<times> bool" where
  "rewrite_step baseline candidate st =
     (case st of
        (best, ambiguous) \<Rightarrow>
          if rp_estimated_cost candidate \<ge> rp_estimated_cost baseline then (best, ambiguous)
          else (case best of
                  None \<Rightarrow> (Some candidate, ambiguous)
                | Some current \<Rightarrow>
                    if rp_estimated_cost candidate < rp_estimated_cost current then (Some candidate, False)
                    else if rp_estimated_cost candidate = rp_estimated_cost current \<and>
                      (rp_kind candidate \<noteq> rp_kind current \<or> rp_rule_id candidate \<noteq> rp_rule_id current)
                    then (best, True)
                    else (best, ambiguous)))"

definition fall_back :: "rewrite_plan \<Rightarrow> rewrite_fallback \<Rightarrow> rewrite_decision" where
  "fall_back baseline reason =
     \<lparr>rd_selected = baseline, rd_expected_cost_delta = 0, rd_fallback_reason = Some reason\<rparr>"

definition select_plan :: "bool \<Rightarrow> rewrite_plan \<Rightarrow> rewrite_plan list \<Rightarrow> rewrite_decision" where
  "select_plan enabled baseline candidates =
     (if \<not> enabled then fall_back baseline RewriteDisabled
      else case fold (rewrite_step baseline) candidates (None, False) of
             (None, _) \<Rightarrow> fall_back baseline NoBetterCandidate
           | (Some selected, True) \<Rightarrow> fall_back baseline AmbiguousMinCost
           | (Some selected, False) \<Rightarrow>
               \<lparr>rd_selected = selected,
                rd_expected_cost_delta = int (rp_estimated_cost baseline) - int (rp_estimated_cost selected),
                rd_fallback_reason = None\<rparr>)"

section \<open>What the loop computes\<close>

definition cheaper :: "rewrite_plan \<Rightarrow> rewrite_plan list \<Rightarrow> rewrite_plan set" where
  "cheaper baseline cs = {p \<in> set cs. rp_estimated_cost p < rp_estimated_cost baseline}"

definition cheapest :: "rewrite_plan set \<Rightarrow> rewrite_plan set" where
  "cheapest P = {p \<in> P. \<forall>q \<in> P. rp_estimated_cost p \<le> rp_estimated_cost q}"

text \<open>The loop's state after some candidates: the best is one of the cheapest, and the flag tells whether it is alone.\<close>

definition loop_inv :: "rewrite_plan \<Rightarrow> rewrite_plan list \<Rightarrow> rewrite_plan option \<times> bool \<Rightarrow> bool" where
  "loop_inv baseline cs st \<longleftrightarrow>
     (case st of
        (None, ambiguous) \<Rightarrow> \<not> ambiguous \<and> cheaper baseline cs = {}
      | (Some best, ambiguous) \<Rightarrow>
          best \<in> cheapest (cheaper baseline cs) \<and> (ambiguous \<longleftrightarrow> cheapest (cheaper baseline cs) \<noteq> {best}))"

lemma plan_eq_iff: "(p :: rewrite_plan) = q \<longleftrightarrow>
    rp_kind p = rp_kind q \<and> rp_estimated_cost p = rp_estimated_cost q \<and> rp_rule_id p = rp_rule_id q"
  by (cases p; cases q) auto

lemma cheaper_snoc:
  "cheaper baseline (cs @ [c]) =
     (if rp_estimated_cost c < rp_estimated_cost baseline then insert c (cheaper baseline cs) else cheaper baseline cs)"
  by (auto simp: cheaper_def)

lemma cheapest_insert:
  assumes "b \<in> cheapest P"
  shows "cheapest (insert c P) =
    (if rp_estimated_cost c < rp_estimated_cost b then {c}
     else if rp_estimated_cost c = rp_estimated_cost b then insert c (cheapest P) else cheapest P)"
proof -
  have b: "b \<in> P" "\<And>q. q \<in> P \<Longrightarrow> rp_estimated_cost b \<le> rp_estimated_cost q" using assms by (auto simp: cheapest_def)
  consider "rp_estimated_cost c < rp_estimated_cost b" | "rp_estimated_cost c = rp_estimated_cost b"
    | "rp_estimated_cost b < rp_estimated_cost c" by linarith
  then show ?thesis
  proof cases
    case 1
    then show ?thesis using b by (force simp: cheapest_def)
  next
    case 2
    then show ?thesis using b by (auto simp: cheapest_def)
  next
    case 3
    then show ?thesis using b by (force simp: cheapest_def)
  qed
qed

lemma loop_inv_step:
  assumes "loop_inv baseline cs st"
  shows "loop_inv baseline (cs @ [c]) (rewrite_step baseline c st)"
proof (cases st)
  case (Pair best ambiguous)
  show ?thesis
  proof (cases "rp_estimated_cost c < rp_estimated_cost baseline")
    case False
    then have same: "cheaper baseline (cs @ [c]) = cheaper baseline cs" "rewrite_step baseline c st = st"
      using Pair by (auto simp: cheaper_snoc rewrite_step_def)
    show ?thesis using assms unfolding loop_inv_def same .
  next
    case True
    show ?thesis
    proof (cases best)
      case None
      then have "cheapest (cheaper baseline (cs @ [c])) = {c}"
        using assms Pair True by (auto simp: loop_inv_def cheaper_snoc cheapest_def)
      then show ?thesis using assms Pair True None by (auto simp: loop_inv_def rewrite_step_def)
    next
      case (Some b)
      have b: "b \<in> cheapest (cheaper baseline cs)" "ambiguous \<longleftrightarrow> cheapest (cheaper baseline cs) \<noteq> {b}"
        using assms Pair Some by (auto simp: loop_inv_def)
      have "cheapest (cheaper baseline (cs @ [c])) =
          (if rp_estimated_cost c < rp_estimated_cost b then {c}
           else if rp_estimated_cost c = rp_estimated_cost b then insert c (cheapest (cheaper baseline cs))
           else cheapest (cheaper baseline cs))"
        using True by (simp add: cheaper_snoc cheapest_insert [OF b(1)])
      then show ?thesis
        using b True Pair Some plan_eq_iff [of c b] by (auto simp: loop_inv_def rewrite_step_def)
    qed
  qed
qed

lemma loop_inv_all: "loop_inv baseline cs (fold (rewrite_step baseline) cs (None, False))"
proof (induction cs rule: rev_induct)
  case Nil
  then show ?case by (simp add: loop_inv_def cheaper_def)
qed (simp add: loop_inv_step)

text \<open>The plan a rewrite should take: cheaper than the canonical one, and strictly cheaper than every other.\<close>

definition best_rewrite :: "rewrite_plan \<Rightarrow> rewrite_plan list \<Rightarrow> rewrite_plan \<Rightarrow> bool" where
  "best_rewrite baseline cs p \<longleftrightarrow>
     p \<in> set cs \<and> rp_estimated_cost p < rp_estimated_cost baseline \<and>
     (\<forall>q \<in> set cs. q \<noteq> p \<longrightarrow> rp_estimated_cost p < rp_estimated_cost q)"

lemma best_rewrite_iff: "best_rewrite baseline cs p \<longleftrightarrow> cheapest (cheaper baseline cs) = {p}"
proof
  assume *: "best_rewrite baseline cs p"
  have "q = p" if "q \<in> cheapest (cheaper baseline cs)" for q
    using that * by (cases "q = p") (auto simp: best_rewrite_def cheapest_def cheaper_def dest: leD)
  moreover have "p \<in> cheapest (cheaper baseline cs)"
    using * by (force simp: best_rewrite_def cheapest_def cheaper_def)
  ultimately show "cheapest (cheaper baseline cs) = {p}" by blast
next
  assume *: "cheapest (cheaper baseline cs) = {p}"
  then have p: "p \<in> set cs" "rp_estimated_cost p < rp_estimated_cost baseline"
    and le: "\<And>q. q \<in> cheaper baseline cs \<Longrightarrow> rp_estimated_cost p \<le> rp_estimated_cost q"
    by (auto simp: cheapest_def cheaper_def)
  have "rp_estimated_cost p < rp_estimated_cost q" if q: "q \<in> set cs" "q \<noteq> p" for q
  proof (rule ccontr)
    assume "\<not> ?thesis"
    then have "q \<in> cheapest (cheaper baseline cs)"
      using q p le by (force simp: cheapest_def cheaper_def)
    then show False using * q(2) by simp
  qed
  then show "best_rewrite baseline cs p" using p by (simp add: best_rewrite_def)
qed

section \<open>Properties\<close>

text \<open>
  The planner rewrites a call exactly to the unique cheapest plan. When the engine is enabled and one
  candidate is cheaper than the canonical plan and strictly cheaper than every different candidate, it is
  selected with the difference of the costs; in all other cases the canonical plan stays, with no saving,
  and the reason tells whether the engine is off, no candidate is cheaper, or two different candidates
  share the least cost.
\<close>

theorem rewrite_unique_cheapest:
  "(best_rewrite baseline cs p \<longrightarrow>
      select_plan True baseline cs =
        \<lparr>rd_selected = p, rd_expected_cost_delta = int (rp_estimated_cost baseline) - int (rp_estimated_cost p),
         rd_fallback_reason = None\<rparr>) \<and>
   ((\<nexists>p. best_rewrite baseline cs p) \<longrightarrow>
      select_plan True baseline cs =
        fall_back baseline (if \<forall>c \<in> set cs. rp_estimated_cost baseline \<le> rp_estimated_cost c
          then NoBetterCandidate else AmbiguousMinCost)) \<and>
   select_plan False baseline cs = fall_back baseline RewriteDisabled"
proof (intro conjI impI)
  show "select_plan False baseline cs = fall_back baseline RewriteDisabled" by (simp add: select_plan_def)
  obtain best ambiguous where loop: "fold (rewrite_step baseline) cs (None, False) = (best, ambiguous)" by force
  note ok = loop_inv_all [of baseline cs, unfolded loop loop_inv_def]
  {
    assume "best_rewrite baseline cs p"
    then have "cheapest (cheaper baseline cs) = {p}" by (simp add: best_rewrite_iff)
    then have "best = Some p" and "\<not> ambiguous" using ok by (auto simp: cheapest_def split: option.splits)
    then show "select_plan True baseline cs =
        \<lparr>rd_selected = p, rd_expected_cost_delta = int (rp_estimated_cost baseline) - int (rp_estimated_cost p),
         rd_fallback_reason = None\<rparr>"
      by (simp add: select_plan_def loop)
  next
    assume none: "\<nexists>p. best_rewrite baseline cs p"
    have empty: "cheaper baseline cs = {} \<longleftrightarrow> (\<forall>c \<in> set cs. rp_estimated_cost baseline \<le> rp_estimated_cost c)"
      by (auto simp: cheaper_def not_less)
    show "select_plan True baseline cs =
        fall_back baseline (if \<forall>c \<in> set cs. rp_estimated_cost baseline \<le> rp_estimated_cost c
          then NoBetterCandidate else AmbiguousMinCost)"
    proof (cases best)
      case None
      then show ?thesis using ok empty by (simp add: select_plan_def loop)
    next
      case (Some b)
      then have "b \<in> cheapest (cheaper baseline cs)" and "ambiguous"
        using ok none by (auto simp: best_rewrite_iff)
      moreover from this have "cheaper baseline cs \<noteq> {}" by (auto simp: cheapest_def)
      ultimately show ?thesis using empty Some by (auto simp: select_plan_def loop)
    qed
  }
qed

definition plain_plan :: rewrite_plan where
  "plain_plan = \<lparr>rp_kind = BaselineCanonical, rp_estimated_cost = 10, rp_rule_id = []\<rparr>"

definition fused_plan_of :: "u32 \<Rightarrow> rewrite_plan" where
  "fused_plan_of cost = \<lparr>rp_kind = FastOpcodeFusion, rp_estimated_cost = cost, rp_rule_id = [cost]\<rparr>"

theorem rewrite_unique_cheapest_witness:
  "rd_selected (select_plan True plain_plan [fused_plan_of 7, fused_plan_of 5, fused_plan_of 12]) = fused_plan_of 5 \<and>
   select_plan True plain_plan [fused_plan_of 12] = fall_back plain_plan NoBetterCandidate"
proof -
  have "best_rewrite plain_plan [fused_plan_of 7, fused_plan_of 5, fused_plan_of 12] (fused_plan_of 5)"
    by (simp add: best_rewrite_def plain_plan_def fused_plan_of_def)
  moreover have "\<nexists>p. best_rewrite plain_plan [fused_plan_of 12] p"
    by (simp add: best_rewrite_def plain_plan_def fused_plan_of_def)
  moreover have "\<forall>c \<in> set [fused_plan_of 12]. rp_estimated_cost plain_plan \<le> rp_estimated_cost c"
    by (simp add: plain_plan_def fused_plan_of_def)
  ultimately show ?thesis
    using rewrite_unique_cheapest [of plain_plan "[fused_plan_of 7, fused_plan_of 5, fused_plan_of 12]" "fused_plan_of 5"]
      rewrite_unique_cheapest [of plain_plan "[fused_plan_of 12]"] by simp
qed

end
