(* ===== verification/Tool_Edit.thy ===== *)
theory Tool_Edit
  imports Prelude "HOL-Library.Sublist"
begin

text \<open>
  The text transformation of the edit tool (\<open>src/src/tools.rs\<close>): the file's text is matched against the old
  text, exactly or after normalising spaces, quotes, dashes and trailing whitespace, and the one match is
  replaced, in the original text, by the new text with the file's line endings. Texts are lists of code
  points, and offsets count characters: every byte offset the code computes lies between two characters,
  and it only compares, adds and cuts at such offsets. The Unicode normal forms come from a library and
  are the parameters \<open>nfc\<close> and \<open>nfd\<close>; reading and writing the file is not modelled here.
\<close>

section \<open>Line endings\<close>

definition strip_bom :: "ustr \<Rightarrow> ustr \<times> bool" where
  "strip_bom s = (case strip_prefix [65279] s of None \<Rightarrow> (s, False) | Some stripped \<Rightarrow> (stripped, True))"

fun detect_line_ending :: "ustr \<Rightarrow> ustr" where
  "detect_line_ending [] = [10]"
| "detect_line_ending (c # cs) =
     (if c = 13 then (case cs of d # _ \<Rightarrow> if d = 10 then [13, 10] else [13] | [] \<Rightarrow> [13])
      else if c = 10 then [10]
      else detect_line_ending cs)"

fun lf_loop :: "ustr \<Rightarrow> ustr" where
  "lf_loop [] = []"
| "lf_loop (c # cs) =
     (if c = 13 then 10 # (case cs of d # ds \<Rightarrow> if d = 10 then lf_loop ds else lf_loop cs | [] \<Rightarrow> lf_loop cs)
      else c # lf_loop cs)"

definition normalize_to_lf :: "ustr \<Rightarrow> ustr" where
  "normalize_to_lf t = (if 13 \<notin> set t then t else lf_loop t)"

text \<open>The same for a text that arrives in chunks: a carriage return at the end of a chunk is held back.\<close>

fun ending_loop :: "ustr \<Rightarrow> ustr \<times> bool" where
  "ending_loop [] = ([], False)"
| "ending_loop (c # cs) =
     (if c = 13 then
        (case cs of
           d # ds \<Rightarrow> (if d = 10 then (case ending_loop ds of (out, pending) \<Rightarrow> (10 # out, pending))
                      else (case ending_loop cs of (out, pending) \<Rightarrow> (10 # out, pending)))
         | [] \<Rightarrow> ([], True))
      else (case ending_loop cs of (out, pending) \<Rightarrow> (c # out, pending)))"

definition normalize_line_endings_chunk :: "ustr \<Rightarrow> bool \<Rightarrow> ustr \<times> bool" where
  "normalize_line_endings_chunk chunk pending =
     (if \<not> pending \<and> 13 \<notin> set chunk then (chunk, pending)
      else
        let rest = (if pending \<and> chunk \<noteq> [] \<and> hd chunk = 10 then tl chunk else chunk) in
        case ending_loop rest of (out, held) \<Rightarrow> ((if pending then 10 # out else out), held))"

definition restore_line_endings :: "ustr \<Rightarrow> ustr \<Rightarrow> ustr" where
  "restore_line_endings t ending =
     (if ending = [13, 10] then concat (map (\<lambda>c. if c = 10 then [13, 10] else [c]) t)
      else if ending = [13] then map (\<lambda>c. if c = 10 then 13 else c) t
      else t)"

section \<open>Normalised content\<close>

definition is_special_unicode_space :: "uchar \<Rightarrow> bool" where
  "is_special_unicode_space c = (c = 160 \<or> c = 8239 \<or> c = 8287 \<or> c = 12288 \<or> (8192 \<le> c \<and> c \<le> 8202))"

definition normalized_char :: "uchar \<Rightarrow> uchar" where
  "normalized_char c =
     (if is_special_unicode_space c then 32
      else if c = 8216 \<or> c = 8217 then 39
      else if c = 8220 \<or> c = 8221 \<or> c = 8222 \<or> c = 8223 then 34
      else if c = 8208 \<or> c = 8209 \<or> c = 8210 \<or> c = 8211 \<or> c = 8212 \<or> c = 8213 \<or> c = 8722 then 45
      else c)"

definition trimmed_length :: "ustr \<Rightarrow> usize" where
  "trimmed_length line = length (dropWhile (\<lambda>c. is_whitespace c \<or> is_special_unicode_space c) (rev line))"

text \<open>\<open>str::split_inclusive\<close> at line feeds.\<close>

fun split_inclusive :: "ustr \<Rightarrow> ustr list" where
  "split_inclusive [] = []"
| "split_inclusive (c # cs) =
     (if c = 10 then [c] # split_inclusive cs else (case split_inclusive cs of l # ls \<Rightarrow> (c # l) # ls | [] \<Rightarrow> [[c]]))"

definition build_normalized_content :: "ustr \<Rightarrow> ustr" where
  "build_normalized_content content =
     join_lines (map (\<lambda>line. map normalized_char (take (trimmed_length line) line)) (split_lines content))"

section \<open>Back to the original text\<close>

text \<open>
  The loop over the characters of one line: the position in the normalised text, and the start and the end
  of the match in the original once they are known. The loop ends when both are.
\<close>

fun map_chars :: "usize \<Rightarrow> usize \<Rightarrow> usize \<Rightarrow> usize \<Rightarrow> usize \<Rightarrow> ustr \<Rightarrow> usize \<times> usize option \<times> usize option \<Rightarrow>
  usize \<times> usize option \<times> usize option" where
  "map_chars s e orig trimmed off [] st = st"
| "map_chars s e orig trimmed off (c # cs) (n, ms, me) =
     (let me = (if n = e \<and> me = None then Some (orig + off) else me) in
      if off \<ge> trimmed then map_chars s e orig trimmed (Suc off) cs (n, ms, me)
      else
        let ms = (if n = s \<and> ms = None then Some (orig + off) else ms) in
        if ms \<noteq> None \<and> me \<noteq> None then (n, ms, me)
        else map_chars s e orig trimmed (Suc off) cs (n + 1, ms, me))"

record range_state =
  rs_norm :: usize
  rs_orig :: usize
  rs_start :: "usize option"
  rs_end :: "usize option"
  rs_last_trimmed_end :: usize
  rs_last_has_newline :: bool

definition map_line :: "usize \<Rightarrow> usize \<Rightarrow> ustr \<Rightarrow> range_state \<Rightarrow> range_state" where
  "map_line s e line st =
     (let has_newline = (line \<noteq> [] \<and> last line = 10);
          content = (if has_newline then butlast line else line);
          trimmed = trimmed_length content;
          trimmed_end = rs_orig st + trimmed
      in case map_chars s e (rs_orig st) trimmed 0 content (rs_norm st, rs_start st, rs_end st) of
           (n, ms, me) \<Rightarrow>
             let orig = rs_orig st + length content in
             \<lparr>rs_norm = (if has_newline then n + 1 else n), rs_orig = (if has_newline then orig + 1 else orig),
              rs_start = (if has_newline \<and> n = s \<and> ms = None then Some orig else ms),
              rs_end = (if has_newline \<and> n = e \<and> me = None then Some trimmed_end else me),
              rs_last_trimmed_end = trimmed_end, rs_last_has_newline = has_newline\<rparr>)"

fun map_lines :: "usize \<Rightarrow> usize \<Rightarrow> ustr list \<Rightarrow> range_state \<Rightarrow> range_state" where
  "map_lines s e [] st = st"
| "map_lines s e (line # ls) st =
     (let st1 = map_line s e line st in
      if rs_start st1 \<noteq> None \<and> rs_end st1 \<noteq> None then st1 else map_lines s e ls st1)"

definition map_normalized_range_to_original :: "ustr \<Rightarrow> usize \<Rightarrow> usize \<Rightarrow> usize \<times> usize" where
  "map_normalized_range_to_original content s len =
     (let e = s + len;
          st = map_lines s e (split_inclusive content)
                 \<lparr>rs_norm = 0, rs_orig = 0, rs_start = None, rs_end = None, rs_last_trimmed_end = 0, rs_last_has_newline = False\<rparr>;
          me = (if rs_norm st = e \<and> rs_end st = None
                then Some (if rs_last_has_newline st then rs_orig st else rs_last_trimmed_end st) else rs_end st);
          first = (case rs_start st of Some i \<Rightarrow> i | None \<Rightarrow> 0);
          stop = (case me of Some i \<Rightarrow> i | None \<Rightarrow> length content)
      in (first, stop - first))"

section \<open>Matching\<close>

definition str_find :: "ustr \<Rightarrow> ustr \<Rightarrow> usize option" where
  "str_find hay needle = find (\<lambda>i. prefix needle (drop i hay)) [0..<Suc (length hay)]"

record fuzzy_match =
  fm_index :: usize
  fm_length :: usize
  fm_exact :: bool

definition fuzzy_find_text_with_normalized :: "ustr \<Rightarrow> ustr \<Rightarrow> ustr \<Rightarrow> ustr \<Rightarrow> fuzzy_match option" where
  "fuzzy_find_text_with_normalized content old_text normalized_content normalized_old =
     (case str_find content old_text of
        Some i \<Rightarrow> Some \<lparr>fm_index = i, fm_length = length old_text, fm_exact = True\<rparr>
      | None \<Rightarrow>
          (case str_find normalized_content normalized_old of
             Some i \<Rightarrow>
               (case map_normalized_range_to_original content i (length normalized_old) of
                  (first, len) \<Rightarrow> Some \<lparr>fm_index = first, fm_length = len, fm_exact = False\<rparr>)
           | None \<Rightarrow> None))"

definition count_overlapping_occurrences :: "ustr \<Rightarrow> ustr \<Rightarrow> nat" where
  "count_overlapping_occurrences hay needle =
     (if needle = [] then 0 else length (filter (\<lambda>i. prefix needle (drop i hay)) [0..<length hay]))"

section \<open>The edit\<close>

datatype edit_error =
    EmptyOldText
  | BlankOldText
  | OldTextNotFound
  | AmbiguousOldText nat
  | NoChanges

definition content_for_matching :: "ustr \<Rightarrow> ustr" where
  "content_for_matching content =
     (if 13 \<in> set content \<and> 10 \<notin> set content then map (\<lambda>c. if c = 13 then 10 else c) content else content)"

definition old_text_variants :: "(ustr \<Rightarrow> ustr) \<Rightarrow> (ustr \<Rightarrow> ustr) \<Rightarrow> ustr \<Rightarrow> ustr list" where
  "old_text_variants nfc nfd old =
     [old] @ (if nfc old \<noteq> old then [nfc old] else []) @ (if nfd old \<noteq> old then [nfd old] else [])"

fun best_match :: "ustr \<Rightarrow> ustr list \<Rightarrow> (fuzzy_match \<times> ustr) option" where
  "best_match content [] = None"
| "best_match content (v # vs) =
     (case fuzzy_find_text_with_normalized content v (build_normalized_content content) (build_normalized_content v) of
        Some r \<Rightarrow> Some (r, v)
      | None \<Rightarrow> best_match content vs)"

definition edit_text :: "(ustr \<Rightarrow> ustr) \<Rightarrow> (ustr \<Rightarrow> ustr) \<Rightarrow> ustr \<Rightarrow> ustr \<Rightarrow> ustr \<Rightarrow> edit_error + ustr" where
  "edit_text nfc nfd old_text new_text raw =
     (let (content, had_bom) = strip_bom raw;
          ending = detect_line_ending content;
          hay = content_for_matching content;
          old = normalize_to_lf old_text
      in if old = [] then Inl EmptyOldText
         else if build_normalized_content old = [] then Inl BlankOldText
         else case best_match hay (old_text_variants nfc nfd old) of
                None \<Rightarrow> Inl OldTextNotFound
              | Some (r, v) \<Rightarrow>
                  let occurrences = (if fm_exact r then count_overlapping_occurrences hay v
                        else count_overlapping_occurrences (build_normalized_content hay) (build_normalized_content v))
                  in if occurrences > 1 then Inl (AmbiguousOldText occurrences)
                     else
                       let adapted = restore_line_endings (normalize_to_lf new_text) ending;
                           new_content = take (fm_index r) content @ adapted @ drop (fm_index r + fm_length r) content
                       in if content = new_content then Inl NoChanges
                          else Inr (if had_bom then 65279 # new_content else new_content))"

section \<open>Line endings in chunks\<close>

fun feed_chunks :: "ustr list \<Rightarrow> bool \<Rightarrow> ustr \<times> bool" where
  "feed_chunks [] pending = ([], pending)"
| "feed_chunks (c # cs) pending =
     (case normalize_line_endings_chunk c pending of
        (out, held) \<Rightarrow> (case feed_chunks cs held of (rest, p) \<Rightarrow> (out @ rest, p)))"

definition after_cr :: "ustr \<Rightarrow> ustr" where
  "after_cr t = 10 # lf_loop (case t of d # ds \<Rightarrow> if d = 10 then ds else t | [] \<Rightarrow> [])"

lemma lf_loop_cr: "lf_loop (13 # t) = after_cr t"
  by (cases t) (auto simp: after_cr_def)

lemma lf_loop_id: "13 \<notin> set t \<Longrightarrow> lf_loop (t @ u) = t @ lf_loop u"
  by (induction t) auto

lemma normalize_to_lf_loop: "normalize_to_lf t = lf_loop t"
  using lf_loop_id [of t "[]"] by (simp add: normalize_to_lf_def)

lemma ending_loop_append:
  "ending_loop c = (out, held) \<Longrightarrow> lf_loop (c @ d) = out @ (if held then after_cr d else lf_loop d)"
proof (induction c arbitrary: out held rule: ending_loop.induct)
  case (2 c cs)
  show ?case
  proof (cases "c = 13")
    case True
    show ?thesis
    proof (cases cs)
      case Nil
      then show ?thesis using "2.prems" True lf_loop_cr [of d] by (simp del: lf_loop.simps)
    next
      case (Cons e es)
      then show ?thesis
        using "2.IH"(1,2) [OF True Cons] "2.prems" True
        by (cases "e = 10") (auto split: prod.splits)
    qed
  next
    case False
    then show ?thesis using "2.IH"(3) "2.prems" by (auto split: prod.splits)
  qed
qed simp

lemma chunk_append:
  assumes "normalize_line_endings_chunk c pending = (out, held)" and "c \<noteq> []"
  shows "(if pending then after_cr (c @ d) else lf_loop (c @ d)) = out @ (if held then after_cr d else lf_loop d)"
proof (cases "\<not> pending \<and> 13 \<notin> set c")
  case True
  then show ?thesis using assms(1) lf_loop_id [of c d] by (simp add: normalize_line_endings_chunk_def)
next
  case False
  define rest where "rest = (if pending \<and> c \<noteq> [] \<and> hd c = 10 then tl c else c)"
  obtain o1 h where loop: "ending_loop rest = (o1, h)" by force
  then have res: "out = (if pending then 10 # o1 else o1)" "held = h"
    using assms(1) False by (auto simp: normalize_line_endings_chunk_def Let_def rest_def)
  have "pending \<Longrightarrow> after_cr (c @ d) = 10 # lf_loop (rest @ d)"
    using assms(2) by (cases c) (auto simp: after_cr_def rest_def)
  moreover have "\<not> pending \<Longrightarrow> rest = c" by (auto simp: rest_def)
  ultimately show ?thesis
    using ending_loop_append [OF loop, of d] res by auto
qed

lemma feed_chunks_whole:
  assumes "feed_chunks cs pending = (out, held)" and "[] \<notin> set cs"
  shows "(if pending then after_cr (concat cs) else lf_loop (concat cs)) = out @ (if held then [10] else [])"
  using assms
proof (induction cs arbitrary: pending out)
  case Nil
  then show ?case by (auto simp: after_cr_def)
next
  case (Cons c cs)
  obtain o1 h1 o2 where run: "normalize_line_endings_chunk c pending = (o1, h1)" "feed_chunks cs h1 = (o2, held)"
    and out: "out = o1 @ o2" using Cons.prems(1) by (auto split: prod.splits)
  show ?case
    using chunk_append [OF run(1), of "concat cs"] Cons.IH [OF run(2)] Cons.prems(2) out by auto
qed

lemma detect_line_ending_cases: "detect_line_ending u \<in> {[10], [13], [13, 10]}"
  by (induction u) (auto split: list.splits)

lemma restored_back: "13 \<notin> set t \<Longrightarrow> normalize_to_lf (restore_line_endings t (detect_line_ending u)) = t"
proof -
  assume t: "13 \<notin> set t"
  have crlf: "lf_loop (concat (map (\<lambda>c. if c = 10 then [13, 10] else [c]) t)) = t" using t by (induction t) auto
  have head: "lf_loop (map (\<lambda>c. if c = 10 then 13 else c) t) = t"
    using t
  proof (induction t)
    case (Cons c t)
    then show ?case by (cases t) (auto split: list.splits)
  qed simp
  show ?thesis
    using detect_line_ending_cases [of u] crlf head t by (auto simp: restore_line_endings_def normalize_to_lf_loop) (metis append_Nil2 lf_loop.simps(1) lf_loop_id)
qed

section \<open>Which characters count\<close>

text \<open>
  The positions of the characters that the normalised content keeps: in every line those before its
  trailing whitespace, and its line feed.
\<close>

fun kept_at :: "usize \<Rightarrow> ustr list \<Rightarrow> usize list" where
  "kept_at orig [] = []"
| "kept_at orig (line # ls) =
     (if line \<noteq> [] \<and> last line = 10
      then [orig..<orig + trimmed_length (butlast line)] @ [orig + length (butlast line)] @ kept_at (orig + length line) ls
      else [orig..<orig + trimmed_length line] @ kept_at (orig + length line) ls)"

definition kept :: "ustr \<Rightarrow> usize list" where
  "kept content = kept_at 0 (split_inclusive content)"

lemma trimmed_length_le: "trimmed_length line \<le> length line"
proof -
  have "length (dropWhile P xs) \<le> length xs" for P and xs :: ustr
    by (simp add: length_dropWhile_le)
  then show ?thesis by (metis trimmed_length_def length_rev)
qed

text \<open>
  What the loop over a line's characters finds: the start, if it lies before the trailing whitespace, and
  the end, if a character stands there, be it of the trailing whitespace.
\<close>

definition start_in :: "usize \<Rightarrow> usize \<Rightarrow> usize \<Rightarrow> usize \<Rightarrow> usize option" where
  "start_in s n trimmed orig = (if n \<le> s \<and> s < n + trimmed then Some (orig + (s - n)) else None)"

definition end_in :: "usize \<Rightarrow> usize \<Rightarrow> usize \<Rightarrow> usize \<Rightarrow> usize \<Rightarrow> usize option" where
  "end_in e n trimmed len orig =
     (if n \<le> e \<and> (e < n + trimmed \<or> e = n + trimmed \<and> trimmed < len) then Some (orig + (e - n)) else None)"

lemma map_chars_trailing:
  "trimmed \<le> off \<Longrightarrow> map_chars s e orig trimmed off cs (n, ms, Some x) = (n, ms, Some x)"
  by (induction cs arbitrary: off) (auto simp: Let_def)

lemma map_chars_trailing_none:
  "trimmed \<le> off \<Longrightarrow> map_chars s e orig trimmed off cs (n, ms, None) =
     (n, ms, if n = e \<and> cs \<noteq> [] then Some (orig + off) else None)"
proof (induction cs arbitrary: off)
  case (Cons c cs)
  then show ?case by (cases "n = e") (auto simp: Let_def map_chars_trailing)
qed simp

lemma map_chars_result:
  assumes "s < e" and "off \<le> trimmed" and "trimmed \<le> off + length cs" and "ms \<noteq> None \<longleftrightarrow> s < n0 + off" and "n0 + off \<le> e"
  obtains n where "map_chars s e orig trimmed off cs (n0 + off, ms, None) =
      (n, if ms = None then start_in s n0 trimmed orig else ms, end_in e n0 trimmed (off + length cs) orig)"
    and "end_in e n0 trimmed (off + length cs) orig = None \<longrightarrow> n = n0 + trimmed"
  using assms
proof (induction cs arbitrary: off ms thesis)
  case Nil
  then have "off = trimmed" by simp
  then show ?case using Nil by (auto simp: start_in_def end_in_def)
next
  case (Cons c cs)
  show ?case
  proof (cases "off = trimmed")
    case True
    then show ?thesis
      using Cons.prems map_chars_trailing_none [of trimmed off s e orig "c # cs" "n0 + off" ms]
      by (auto simp: start_in_def end_in_def)
  next
    case off: False
    then have lt: "off < trimmed" using Cons.prems(3) by simp
    show ?thesis
    proof (cases "n0 + off = e")
      case True
      then have "ms \<noteq> None" using Cons.prems(2,5) by simp
      then show ?thesis
        using Cons.prems(1) True lt by (auto simp: Let_def end_in_def)
    next
      case False
      define ms1 where "ms1 = (if n0 + off = s \<and> ms = None then Some (orig + off) else ms)"
      have iff: "ms1 \<noteq> None \<longleftrightarrow> s < n0 + Suc off" using Cons.prems(5) by (auto simp: ms1_def)
      have p: "Suc off \<le> trimmed" "trimmed \<le> Suc off + length cs" "n0 + Suc off \<le> e"
        using lt Cons.prems(4,6) False by simp_all
      obtain n where n: "map_chars s e orig trimmed (Suc off) cs (n0 + Suc off, ms1, None) =
          (n, if ms1 = None then start_in s n0 trimmed orig else ms1, end_in e n0 trimmed (Suc off + length cs) orig)"
        "end_in e n0 trimmed (Suc off + length cs) orig = None \<longrightarrow> n = n0 + trimmed"
        by (rule Cons.IH [OF _ Cons.prems(2) p(1,2) iff p(3)])
      have step: "map_chars s e orig trimmed off (c # cs) (n0 + off, ms, None) =
          map_chars s e orig trimmed (Suc off) cs (n0 + Suc off, ms1, None)"
        using False lt by (simp add: Let_def ms1_def)
      have "(if ms1 = None then start_in s n0 trimmed orig else ms1) = (if ms = None then start_in s n0 trimmed orig else ms)"
        using Cons.prems(5) lt by (auto simp: ms1_def start_in_def)
      then show ?thesis using Cons.prems(1) [of n] n step by simp
    qed
  qed
qed

text \<open>What one line contributes: the start and the end by the positions it keeps.\<close>

lemma map_line_result:
  assumes "s < e" and "rs_end st = None" and "rs_start st \<noteq> None \<longleftrightarrow> s < rs_norm st" and "rs_norm st \<le> e" and "line \<noteq> []"
  defines "K \<equiv> kept_at (rs_orig st) [line]"
  defines "nl \<equiv> last line = 10"
  shows "rs_start (map_line s e line st) =
      (if rs_start st \<noteq> None then rs_start st
       else if s < rs_norm st + length K then Some (K ! (s - rs_norm st)) else None)"
    and "rs_end (map_line s e line st) =
      (if e < rs_norm st + length K \<or> \<not> nl \<and> e = rs_norm st + length K \<and> length K < length line
       then Some (rs_orig st + (e - rs_norm st)) else None)"
    and "rs_end (map_line s e line st) = None \<Longrightarrow> rs_norm (map_line s e line st) = rs_norm st + length K"
    and "rs_orig (map_line s e line st) = rs_orig st + length line"
    and "rs_last_has_newline (map_line s e line st) = nl"
    and "\<not> nl \<Longrightarrow> rs_last_trimmed_end (map_line s e line st) = rs_orig st + length K"
proof -
  define content where "content = (if nl then butlast line else line)"
  define t where "t = trimmed_length content"
  define n0 where "n0 = rs_norm st"
  have t: "t \<le> length content" by (simp add: t_def trimmed_length_le)
  have K: "K = [rs_orig st..<rs_orig st + t] @ (if nl then [rs_orig st + length content] else [])"
    using assms(5) by (simp add: K_def nl_def content_def t_def)
  have len: "length line = length content + (if nl then 1 else 0)" using assms(5) by (simp add: content_def)
  obtain n where run: "map_chars s e (rs_orig st) t 0 content (n0 + 0, rs_start st, None) =
      (n, if rs_start st = None then start_in s n0 t (rs_orig st) else rs_start st,
       end_in e n0 t (0 + length content) (rs_orig st))"
    and n: "end_in e n0 t (0 + length content) (rs_orig st) = None \<longrightarrow> n = n0 + t"
    by (rule map_chars_result [of s e 0 t content "rs_start st" n0 "rs_orig st"]) (use assms(1-4) t n0_def in auto)
  have step: "map_line s e line st =
      \<lparr>rs_norm = (if nl then n + 1 else n), rs_orig = (if nl then rs_orig st + length content + 1 else rs_orig st + length content),
       rs_start = (if nl \<and> n = s \<and> (if rs_start st = None then start_in s n0 t (rs_orig st) else rs_start st) = None
         then Some (rs_orig st + length content) else if rs_start st = None then start_in s n0 t (rs_orig st) else rs_start st),
       rs_end = (if nl \<and> n = e \<and> end_in e n0 t (length content) (rs_orig st) = None then Some (rs_orig st + t)
         else end_in e n0 t (length content) (rs_orig st)),
       rs_last_trimmed_end = rs_orig st + t, rs_last_has_newline = nl\<rparr>"
    using run assms(2,5) unfolding map_line_def n0_def nl_def content_def t_def by (simp add: Let_def)
  show "rs_start (map_line s e line st) =
      (if rs_start st \<noteq> None then rs_start st
       else if s < rs_norm st + length K then Some (K ! (s - rs_norm st)) else None)"
    using n assms(1,3,4) unfolding step
    by (auto simp: K start_in_def end_in_def nth_append n0_def split: if_splits)
  show "rs_end (map_line s e line st) =
      (if e < rs_norm st + length K \<or> \<not> nl \<and> e = rs_norm st + length K \<and> length K < length line
       then Some (rs_orig st + (e - rs_norm st)) else None)"
  proof -
    have lenK: "length K = t + (if nl then 1 else 0)" by (simp add: K)
    have ei: "end_in e n0 t (length content) (rs_orig st) =
        (if e < n0 + t \<or> e = n0 + t \<and> t < length content then Some (rs_orig st + (e - n0)) else None)"
      using assms(4) by (simp add: end_in_def n0_def)
    consider "e < n0 + t" | "e = n0 + t" "t < length content" | "e = n0 + t" "t = length content" | "n0 + t < e"
      using t by linarith
    then show ?thesis
    proof cases
      case 3
      then have none: "end_in e n0 t (length content) (rs_orig st) = None" unfolding ei by simp
      then have "n = e" using n 3 by simp
      then show ?thesis using 3 unfolding step n0_def [symmetric] lenK len none by simp
    next
      case 4
      then have "n \<noteq> e" using n ei by simp
      then show ?thesis using 4 unfolding step n0_def [symmetric] lenK len by (simp add: ei)
    next
      case 2
      then have some: "end_in e n0 t (length content) (rs_orig st) = Some (rs_orig st + (e - n0))" unfolding ei by simp
      show ?thesis using 2 unfolding step n0_def [symmetric] lenK len some by simp
    qed (simp add: step n0_def [symmetric] lenK len ei)
  qed
  show "rs_end (map_line s e line st) = None \<Longrightarrow> rs_norm (map_line s e line st) = rs_norm st + length K"
    using n assms(4) t unfolding step by (auto simp: K n0_def split: if_splits)
  show "rs_orig (map_line s e line st) = rs_orig st + length line" by (simp add: step len)
  show "rs_last_has_newline (map_line s e line st) = nl" by (simp add: step)
  show "\<not> nl \<Longrightarrow> rs_last_trimmed_end (map_line s e line st) = rs_orig st + length K" by (simp add: step K)
qed

fun pieces_ok :: "ustr list \<Rightarrow> bool" where
  "pieces_ok [] = True"
| "pieces_ok (l # ls) = (l \<noteq> [] \<and> (ls \<noteq> [] \<longrightarrow> last l = 10) \<and> 10 \<notin> set (butlast l) \<and> pieces_ok ls)"

definition range_end :: "usize \<Rightarrow> range_state \<Rightarrow> usize option" where
  "range_end e st =
     (if rs_norm st = e \<and> rs_end st = None
      then Some (if rs_last_has_newline st then rs_orig st else rs_last_trimmed_end st) else rs_end st)"

lemma kept_at_Cons: "kept_at orig (l # ls) = kept_at orig [l] @ kept_at (orig + length l) ls"
  by simp

lemma kept_at_line_last:
  "l \<noteq> [] \<Longrightarrow> last l = 10 \<Longrightarrow> kept_at orig [l] \<noteq> [] \<and> Suc (last (kept_at orig [l])) = orig + length l"
  by simp

text \<open>The state in which the loop meets a line while the end is unknown.\<close>

definition searching :: "usize \<Rightarrow> usize \<Rightarrow> range_state \<Rightarrow> bool" where
  "searching s e st \<longleftrightarrow> s < e \<and> rs_end st = None \<and> (rs_start st \<noteq> None \<longleftrightarrow> s < rs_norm st) \<and> rs_norm st \<le> e"

definition start_by :: "usize \<Rightarrow> range_state \<Rightarrow> usize list \<Rightarrow> usize option" where
  "start_by s st K = (if rs_start st \<noteq> None then rs_start st else Some (K ! (s - rs_norm st)))"

definition end_by :: "usize \<Rightarrow> range_state \<Rightarrow> usize list \<Rightarrow> usize" where
  "end_by e st K = (if e = rs_norm st then rs_orig st else Suc (K ! (e - rs_norm st - 1)))"

lemma kept_line_nth:
  "l \<noteq> [] \<Longrightarrow> i < length (kept_at orig [l]) - 1 \<or> last l \<noteq> 10 \<and> i < length (kept_at orig [l]) \<Longrightarrow>
   kept_at orig [l] ! i = orig + i"
  by (auto simp: nth_append)

lemma end_in_line:
  assumes "searching s e st" and "l \<noteq> []" and "rs_end (map_line s e l st) \<noteq> None"
  defines "K \<equiv> kept_at (rs_orig st) [l]"
  shows "rs_start (map_lines s e (l # ls) st) = start_by s st (K @ K')"
    and "range_end e (map_lines s e (l # ls) st) = Some (end_by e st (K @ K'))"
proof -
  define st1 where "st1 = map_line s e l st"
  note prems = assms(1) [unfolded searching_def]
  note line = map_line_result [OF _ _ _ _ assms(2), of s e st, folded st1_def K_def]
  have e: "rs_end st1 = Some (rs_orig st + (e - rs_norm st))"
    "e < rs_norm st + length K \<or> last l \<noteq> 10 \<and> e = rs_norm st + length K"
    using line(2) prems assms(3) by (auto simp: st1_def split: if_splits)
  have start: "rs_start st1 = start_by s st K" "rs_start st1 \<noteq> None" "rs_start st = None \<longrightarrow> s - rs_norm st < length K"
    using line(1) prems e(2) by (auto simp: start_by_def)
  have "rs_orig st + (e - rs_norm st) = end_by e st (K @ K')"
  proof (cases "e = rs_norm st")
    case False
    then have at: "e - rs_norm st - 1 < length K - 1 \<or> last l \<noteq> 10 \<and> e - rs_norm st - 1 < length K"
      using e(2) prems by linarith
    then have "K ! (e - rs_norm st - 1) = rs_orig st + (e - rs_norm st - 1)"
      using kept_line_nth [OF assms(2), of "e - rs_norm st - 1" "rs_orig st"] by (simp add: K_def)
    then show ?thesis using at False prems by (auto simp: end_by_def nth_append)
  qed (simp add: end_by_def)
  then show "range_end e (map_lines s e (l # ls) st) = Some (end_by e st (K @ K'))"
    using e(1) start(2) by (simp add: st1_def [symmetric] range_end_def Let_def)
  show "rs_start (map_lines s e (l # ls) st) = start_by s st (K @ K')"
    using e(1) start by (auto simp: st1_def [symmetric] start_by_def nth_append Let_def)
qed

lemma searching_next:
  assumes "searching s e st" and "l \<noteq> []" and "rs_end (map_line s e l st) = None"
  defines "K \<equiv> kept_at (rs_orig st) [l]" and "st1 \<equiv> map_line s e l st"
  shows "searching s e st1" and "rs_norm st1 = rs_norm st + length K" and "rs_orig st1 = rs_orig st + length l"
    and "rs_last_has_newline st1 \<longleftrightarrow> last l = 10" and "map_lines s e (l # ls) st = map_lines s e ls st1"
    and "last l \<noteq> 10 \<Longrightarrow> rs_last_trimmed_end st1 = rs_orig st + length K"
    and "rs_start st1 = (if s < rs_norm st1 then start_by s st (K @ K') else None)"
proof -
  note prems = assms(1) [unfolded searching_def]
  note line = map_line_result [OF _ _ _ _ assms(2), of s e st, folded st1_def K_def]
  show n1: "rs_norm st1 = rs_norm st + length K" "rs_orig st1 = rs_orig st + length l"
    "rs_last_has_newline st1 \<longleftrightarrow> last l = 10" "last l \<noteq> 10 \<Longrightarrow> rs_last_trimmed_end st1 = rs_orig st + length K"
    using line(3-6) prems assms(3) by (auto simp: st1_def)
  have "rs_norm st + length K \<le> e" using line(2) prems assms(3) by (auto simp: st1_def split: if_splits)
  then show "searching s e st1" using line(1) prems n1(1) assms(3) by (auto simp: searching_def st1_def)
  show "rs_start st1 = (if s < rs_norm st1 then start_by s st (K @ K') else None)"
    using line(1) prems n1(1) by (auto simp: start_by_def nth_append)
  show "map_lines s e (l # ls) st = map_lines s e ls st1" using assms(3) by (simp add: st1_def Let_def)
qed

lemma map_lines_result:
  assumes "searching s e st" and "pieces_ok ls" and "e \<le> rs_norm st + length (kept_at (rs_orig st) ls)"
    and "e = rs_norm st \<longrightarrow> rs_last_has_newline st"
  shows "rs_start (map_lines s e ls st) = start_by s st (kept_at (rs_orig st) ls) \<and>
    range_end e (map_lines s e ls st) = Some (end_by e st (kept_at (rs_orig st) ls))"
  using assms
proof (induction ls arbitrary: st)
  case Nil
  then show ?case by (auto simp: range_end_def searching_def start_by_def end_by_def)
next
  case (Cons l ls)
  define K1 where "K1 = kept_at (rs_orig st) [l]"
  define K2 where "K2 = kept_at (rs_orig st + length l) ls"
  define st1 where "st1 = map_line s e l st"
  have K: "kept_at (rs_orig st) (l # ls) = K1 @ K2" unfolding K1_def K2_def by (rule kept_at_Cons)
  have l: "l \<noteq> []" and ok: "pieces_ok ls" and nl: "ls \<noteq> [] \<longrightarrow> last l = 10" using Cons.prems(2) by auto
  show ?case
  proof (cases "rs_end st1 = None")
    case False
    then show ?thesis
      using end_in_line [OF Cons.prems(1) l] unfolding K st1_def K1_def by blast
  next
    case True
    note nx = searching_next [OF Cons.prems(1) l True [unfolded st1_def], folded st1_def K1_def]
    show ?thesis
    proof (cases "last l = 10")
      case nl10: True
      have last: "K1 \<noteq> []" "Suc (K1 ! (length K1 - 1)) = rs_orig st + length l"
        using kept_at_line_last [OF l nl10, of "rs_orig st"] unfolding K1_def [symmetric] by (metis last_conv_nth)+
      have "e \<le> rs_norm st1 + length (kept_at (rs_orig st1) ls)" using Cons.prems(3) K nx(2,3) by (simp add: K2_def)
      then have IH: "rs_start (map_lines s e ls st1) = start_by s st1 K2" "range_end e (map_lines s e ls st1) = Some (end_by e st1 K2)"
        using Cons.IH [OF nx(1) ok] nx(3,4) nl10 by (simp_all add: K2_def)
      have "start_by s st1 K2 = start_by s st (K1 @ K2)"
        using nx(1,2) nx(7) [of K2] Cons.prems(1) by (auto simp: searching_def start_by_def nth_append)
      moreover have "end_by e st1 K2 = end_by e st (K1 @ K2)"
        using nx(1-3) last by (auto simp: searching_def end_by_def nth_append)
      ultimately show ?thesis using IH nx(5) [of ls] K by simp
    next
      case False
      then have K2: "K2 = []" "ls = []" using nl by (auto simp: K2_def)
      then have e: "e = rs_norm st + length K1" using Cons.prems(3) K nx(1,2) by (simp add: searching_def)
      have "K1 \<noteq> [] \<Longrightarrow> Suc (K1 ! (length K1 - 1)) = rs_orig st + length K1"
        using kept_line_nth [OF l, of "length K1 - 1" "rs_orig st"] False by (simp add: K1_def)
      then have "end_by e st (K1 @ K2) = rs_orig st + length K1" using e K2 by (auto simp: end_by_def)
      then show ?thesis
        using nx(1-4,6) nx(5) [of ls] nx(7) [of K2] K K2 e True False Cons.prems(1) by (auto simp: range_end_def searching_def st1_def)
    qed
  qed
qed

section \<open>The normalised content by position\<close>

definition line_part :: "ustr \<Rightarrow> ustr" where
  "line_part l = (if l \<noteq> [] \<and> last l = 10 then butlast l else l)"

lemma split_inclusive_pieces: "pieces_ok (split_inclusive c) \<and> concat (split_inclusive c) = c"
proof (induction c)
  case (Cons x c)
  then show ?case by (cases "split_inclusive c") auto
qed simp

lemma split_lines_pieces:
  "split_lines c = map line_part (split_inclusive c) @ (if c = [] \<or> last c = 10 then [[]] else [])"
proof (induction c)
  case (Cons x c)
  show ?case
  proof (cases "split_inclusive c")
    case Nil
    then have "c = []" using split_inclusive_pieces [of c] by simp
    then show ?thesis by (simp add: line_part_def)
  next
    case (Cons l ls)
    then have "l \<noteq> []" "c \<noteq> []" using split_inclusive_pieces [of c] by auto
    then show ?thesis using Cons.IH Cons by (auto simp: line_part_def)
  qed
qed simp

definition norm_line :: "ustr \<Rightarrow> ustr" where
  "norm_line line = map normalized_char (take (trimmed_length line) line)"

lemma norm_line_Nil [simp]: "norm_line [] = []"
  by (simp add: norm_line_def)

lemma join_pieces:
  "pieces_ok ls \<Longrightarrow>
   join_lines (map norm_line (map line_part ls) @ (if ls = [] \<or> last (last ls) = 10 then [[]] else [])) =
     concat (map (\<lambda>l. norm_line (line_part l) @ (if last l = 10 then [10] else [])) ls)"
proof (induction ls)
  case (Cons l ls)
  show ?case
  proof (cases ls)
    case Nil
    then show ?thesis by simp
  next
    case ls: (Cons m ms)
    define rest where "rest = map norm_line (map line_part ls) @ (if last (last ls) = 10 then [[]] else [])"
    have "rest \<noteq> []" by (simp add: rest_def ls)
    then have "join_lines (norm_line (line_part l) # rest) = norm_line (line_part l) @ 10 # join_lines rest"
      by (cases rest) simp_all
    moreover have "join_lines rest = concat (map (\<lambda>l. norm_line (line_part l) @ (if last l = 10 then [10] else [])) ls)"
      using Cons ls by (simp add: rest_def)
    ultimately show ?thesis using Cons.prems ls by (simp add: rest_def)
  qed
qed simp

lemma normalized_pieces:
  "build_normalized_content c =
     concat (map (\<lambda>l. norm_line (line_part l) @ (if last l = 10 then [10] else [])) (split_inclusive c))"
proof -
  have "c = [] \<or> last c = 10 \<longleftrightarrow> split_inclusive c = [] \<or> last (last (split_inclusive c)) = 10"
  proof (cases "split_inclusive c" rule: rev_cases)
    case Nil
    then show ?thesis using split_inclusive_pieces [of c] by simp
  next
    case (snoc ls l)
    moreover have "pieces_ok (ls @ [l]) \<Longrightarrow> l \<noteq> []" by (induction ls) auto
    ultimately have "l \<noteq> []" and "c = concat ls @ l" using split_inclusive_pieces [of c] by auto
    then show ?thesis using snoc by simp
  qed
  then have "split_lines c = map line_part (split_inclusive c) @
      (if split_inclusive c = [] \<or> last (last (split_inclusive c)) = 10 then [[]] else [])"
    using split_lines_pieces [of c] by simp
  then have "build_normalized_content c = join_lines (map norm_line (map line_part (split_inclusive c)) @
      (if split_inclusive c = [] \<or> last (last (split_inclusive c)) = 10 then [[]] else []))"
    unfolding build_normalized_content_def norm_line_def [abs_def, symmetric] by (auto simp: norm_line_def)
  then show ?thesis using join_pieces split_inclusive_pieces by simp
qed

lemma normalized_newline [simp]: "normalized_char 10 = 10"
  by (simp add: normalized_char_def is_special_unicode_space_def)

lemma kept_at_chars:
  assumes "pieces_ok ls"
  shows "map (\<lambda>i. normalized_char ((pre @ concat ls) ! i)) (kept_at (length pre) ls) =
    concat (map (\<lambda>l. norm_line (line_part l) @ (if last l = 10 then [10] else [])) ls)"
  using assms
proof (induction ls arbitrary: pre)
  case (Cons l ls)
  have l: "l \<noteq> []" using Cons.prems by simp
  have first: "map (\<lambda>i. normalized_char ((pre @ l @ concat ls) ! i)) [length pre..<length pre + trimmed_length m] = norm_line m"
    if m: "prefix m l" for m
  proof -
    obtain r where "l = m @ r" using m by (auto elim: prefixE)
    then show ?thesis
      using trimmed_length_le [of m] by (intro nth_equalityI) (auto simp: norm_line_def nth_append)
  qed
  have rec: "map (\<lambda>i. normalized_char ((pre @ l @ concat ls) ! i)) (kept_at (length pre + length l) ls) =
      concat (map (\<lambda>l. norm_line (line_part l) @ (if last l = 10 then [10] else [])) ls)"
    using Cons.IH [of "pre @ l"] Cons.prems by simp
  show ?case
  proof (cases "last l = 10")
    case True
    have "(pre @ l @ concat ls) ! (length pre + (length l - 1)) = 10"
      using l True by (simp add: nth_append last_conv_nth)
    then show ?thesis
      using first [of "butlast l"] l rec True by (simp add: line_part_def prefixeq_butlast)
  next
    case False
    then show ?thesis using first [of l] l rec by (simp add: line_part_def)
  qed
qed simp

lemma sorted_ranges:
  fixes A B :: "nat list"
  assumes "sorted_wrt (<) A" and "set A \<subseteq> {a..<m}" and "sorted_wrt (<) B" and "set B \<subseteq> {m..<n}" and "a \<le> m" and "m \<le> n"
  shows "sorted_wrt (<) (A @ B) \<and> set (A @ B) \<subseteq> {a..<n}"
  using assms by (fastforce simp: sorted_wrt_append subset_iff)

lemma kept_at_line:
  "sorted_wrt (<) (kept_at orig [l]) \<and> set (kept_at orig [l]) \<subseteq> {orig..<orig + length l}"
proof (cases "l \<noteq> [] \<and> last l = 10")
  case True
  then have l: "kept_at orig [l] = [orig..<orig + trimmed_length (butlast l)] @ [orig + length (butlast l)]" by auto
  have "trimmed_length (butlast l) \<le> length (butlast l)" "Suc (length (butlast l)) = length l"
    using trimmed_length_le [of "butlast l"] True by simp_all
  then show ?thesis unfolding l by (intro sorted_ranges [of _ _ "orig + trimmed_length (butlast l)"]) auto
next
  case False
  then have l: "kept_at orig [l] = [orig..<orig + trimmed_length l]" by auto
  show ?thesis unfolding l using trimmed_length_le [of l] by auto
qed

lemma kept_at_range:
  "sorted_wrt (<) (kept_at orig ls) \<and> set (kept_at orig ls) \<subseteq> {orig..<orig + length (concat ls)}"
proof (induction ls arbitrary: orig)
  case (Cons l ls)
  have len: "orig + length (concat (l # ls)) = orig + length l + length (concat ls)" by simp
  show ?case
    unfolding kept_at_Cons [of orig l ls] len
    by (rule sorted_ranges [OF conjunct1 [OF kept_at_line] conjunct2 [OF kept_at_line] conjunct1 [OF Cons.IH]
      conjunct2 [OF Cons.IH]]) simp_all
qed simp

lemma normalized_kept: "build_normalized_content c = map (\<lambda>i. normalized_char (c ! i)) (kept c)"
  using kept_at_chars [of "split_inclusive c" "[]"] split_inclusive_pieces [of c]
  by (simp add: kept_def normalized_pieces)

lemma kept_sorted: "sorted_wrt (<) (kept c)" and kept_bound: "i \<in> set (kept c) \<Longrightarrow> i < length c"
  using kept_at_range [of 0 "split_inclusive c"] split_inclusive_pieces [of c] by (auto simp: kept_def)

lemma mapped_range:
  assumes "0 < len" and "s + len \<le> length (kept c)"
  shows "map_normalized_range_to_original c s len = (kept c ! s, Suc (kept c ! (s + len - 1)) - kept c ! s)"
proof -
  let ?st = "\<lparr>rs_norm = 0, rs_orig = 0, rs_start = None, rs_end = None, rs_last_trimmed_end = 0, rs_last_has_newline = False\<rparr>"
  have "searching s (s + len) ?st" "pieces_ok (split_inclusive c)"
    "s + len \<le> rs_norm ?st + length (kept_at (rs_orig ?st) (split_inclusive c))" "s + len = rs_norm ?st \<longrightarrow> rs_last_has_newline ?st"
    using assms split_inclusive_pieces [of c] by (auto simp: kept_def searching_def)
  from map_lines_result [OF this]
  show ?thesis
    using assms(1) by (simp add: map_normalized_range_to_original_def Let_def range_end_def kept_def start_by_def end_by_def)
qed

section \<open>What a match is\<close>

lemma str_find_Some: "str_find hay needle = Some i \<Longrightarrow> \<exists>a b. hay = a @ needle @ b \<and> length a = i"
proof -
  assume "str_find hay needle = Some i"
  then have "prefix needle (drop i hay)" and "i \<le> length hay" by (auto simp: str_find_def find_Some_iff simp del: upt_Suc)
  then show ?thesis by (metis append_take_drop_id length_take min.absorb2 prefixE)
qed

lemma str_find_None: "str_find hay needle = None \<longleftrightarrow> \<not> sublist needle hay"
proof -
  have "str_find hay needle = None \<longleftrightarrow> (\<forall>i \<le> length hay. \<not> prefix needle (drop i hay))"
    by (auto simp: str_find_def find_None_iff simp del: upt_Suc)
  also have "\<dots> \<longleftrightarrow> \<not> sublist needle hay"
    by (metis append_eq_conv_conj append_take_drop_id nat_le_linear drop_all prefix_def sublist_def sublist_append_leftI prefix_imp_sublist)
  finally show ?thesis .
qed

text \<open>
  The region of the original text that a normalised match stands for: the characters in it that the
  normalised content keeps are exactly the matched ones, and the region begins and ends with one of
  them.
\<close>

definition kept_in :: "ustr \<Rightarrow> usize \<Rightarrow> usize \<Rightarrow> usize list" where
  "kept_in c i len = filter (\<lambda>k. i \<le> k \<and> k < i + len) (kept c)"

definition matches_normalized :: "ustr \<Rightarrow> usize \<Rightarrow> usize \<Rightarrow> ustr \<Rightarrow> bool" where
  "matches_normalized c i len needle \<longleftrightarrow>
     0 < len \<and> i + len \<le> length c \<and> map (\<lambda>k. normalized_char (c ! k)) (kept_in c i len) = needle \<and>
     i \<in> set (kept c) \<and> i + len - 1 \<in> set (kept c)"

lemma filter_sorted_range:
  fixes ks :: "nat list"
  assumes "sorted_wrt (<) ks" and "s < e" and "e \<le> length ks"
  shows "filter (\<lambda>k. ks ! s \<le> k \<and> k < Suc (ks ! (e - 1))) ks = take (e - s) (drop s ks)"
proof -
  have le: "ks ! i \<le> ks ! k \<longleftrightarrow> i \<le> k" if "i < length ks" "k < length ks" for i k
    using sorted_wrt_nth_less [OF assms(1)] that by (metis linorder_not_less nat_less_le order.asym)
  have mid: "\<forall>k \<in> set (take (e - s) (drop s ks)). ks ! s \<le> k \<and> k < Suc (ks ! (e - 1))"
  proof
    fix k assume "k \<in> set (take (e - s) (drop s ks))"
    then obtain n where "n < e - s" "k = ks ! (s + n)" using assms by (auto simp: in_set_conv_nth)
    moreover from this have "s + n \<le> e - 1" "s + n < length ks" "e - 1 < length ks" using assms(2,3) by linarith+
    ultimately show "ks ! s \<le> k \<and> k < Suc (ks ! (e - 1))"
      using le [of s "s + n"] le [of "s + n" "e - 1"] by (simp add: le_imp_less_Suc)
  qed
  have low: "\<forall>k \<in> set (take s ks). \<not> ks ! s \<le> k"
  proof
    fix k assume "k \<in> set (take s ks)"
    then obtain n where "n < s" "k = ks ! n" using assms by (auto simp: in_set_conv_nth)
    then show "\<not> ks ! s \<le> k" using le [of s n] assms by auto
  qed
  have high: "\<forall>k \<in> set (drop e ks). \<not> k < Suc (ks ! (e - 1))"
  proof
    fix k assume "k \<in> set (drop e ks)"
    then obtain n where "n < length ks - e" "k = ks ! (e + n)" by (auto simp: in_set_conv_nth)
    moreover from this have "e + n < length ks" "e - 1 < length ks" "\<not> e + n \<le> e - 1" using assms(2,3) by linarith+
    ultimately show "\<not> k < Suc (ks ! (e - 1))" using le [of "e + n" "e - 1"] by (simp add: less_Suc_eq_le)
  qed
  have "ks = take s ks @ take (e - s) (drop s ks) @ drop e ks"
    using assms by (metis append_take_drop_id drop_drop le_add_diff_inverse2 less_imp_le_nat)
  then have "filter P ks = filter P (take s ks) @ filter P (take (e - s) (drop s ks)) @ filter P (drop e ks)" for P
    by (metis filter_append)
  moreover have "filter (\<lambda>k. ks ! s \<le> k \<and> k < Suc (ks ! (e - 1))) (take s ks) = []"
    and "filter (\<lambda>k. ks ! s \<le> k \<and> k < Suc (ks ! (e - 1))) (drop e ks) = []"
    and "filter (\<lambda>k. ks ! s \<le> k \<and> k < Suc (ks ! (e - 1))) (take (e - s) (drop s ks)) = take (e - s) (drop s ks)"
    using low high mid by (auto simp: filter_empty_conv filter_id_conv)
  ultimately show ?thesis by simp
qed

lemma normalized_match_region:
  assumes "str_find (build_normalized_content c) needle = Some s" and "needle \<noteq> []"
    and "map_normalized_range_to_original c s (length needle) = (i, len)"
  shows "matches_normalized c i len needle"
proof -
  define e where "e = s + length needle"
  obtain a b where ab: "build_normalized_content c = a @ needle @ b" "length a = s" using str_find_Some [OF assms(1)] by blast
  have "length (kept c) = length (build_normalized_content c)" by (simp add: normalized_kept)
  then have bound: "s < e" "e \<le> length (kept c)" using ab assms(2) by (simp_all add: e_def)
  have range: "i = kept c ! s" "len = Suc (kept c ! (e - 1)) - kept c ! s"
    using mapped_range [of "length needle" s c] assms(2,3) bound by (auto simp: e_def)
  have "kept c ! s \<le> kept c ! (e - 1)"
  proof (cases "s = e - 1")
    case False
    then have "s < e - 1" "e - 1 < length (kept c)" using bound by linarith+
    then show ?thesis using sorted_wrt_nth_less [OF kept_sorted] by (simp add: less_imp_le)
  qed simp
  then have len: "i + len = Suc (kept c ! (e - 1))" "0 < len" using range by auto
  have "kept_in c i len = take (e - s) (drop s (kept c))"
    using filter_sorted_range [OF kept_sorted bound] by (simp add: kept_in_def len(1)) (simp add: range(1))
  moreover have "map (\<lambda>k. normalized_char (c ! k)) (take (e - s) (drop s (kept c))) =
      take (e - s) (drop s (build_normalized_content c))" by (simp add: normalized_kept take_map drop_map)
  moreover have "take (e - s) (drop s (build_normalized_content c)) = needle" using ab by (simp add: e_def)
  moreover have "kept c ! (e - 1) \<in> set (kept c)" using bound by (intro nth_mem) linarith
  moreover from this have "kept c ! (e - 1) < length c" by (rule kept_bound)
  ultimately show ?thesis
    using len bound range(1) unfolding matches_normalized_def by (auto intro: nth_mem)
qed

section \<open>The chosen match\<close>

lemma best_match_Some:
  "best_match hay vs = Some (r, v) \<Longrightarrow>
   v \<in> set vs \<and> fuzzy_find_text_with_normalized hay v (build_normalized_content hay) (build_normalized_content v) = Some r"
  by (induction vs) (auto split: option.splits)

lemma once:
  assumes "length (filter P [0..<n]) \<le> 1" and "P i" and "i < n" and "P k" and "k < n"
  shows "k = i"
proof -
  have "{x. x < length [0..<n] \<and> P ([0..<n] ! x)} = {x. x < n \<and> P x}" by auto
  then have "card {x. x < n \<and> P x} \<le> 1"
    using assms(1) length_filter_conv_card [of P "[0..<n]"] by simp
  moreover have "i \<in> {x. x < n \<and> P x}" "k \<in> {x. x < n \<and> P x}" using assms by auto
  ultimately show ?thesis using card_le_Suc0_iff_eq [of "{x. x < n \<and> P x}"] by auto
qed

text \<open>The positions at which a text occurs in another.\<close>

definition occurs_at :: "ustr \<Rightarrow> ustr \<Rightarrow> usize set" where
  "occurs_at hay needle = {k. k \<le> length hay \<and> prefix needle (drop k hay)}"

lemma occurs_once:
  assumes "count_overlapping_occurrences hay needle \<le> 1" and "needle \<noteq> []" and "str_find hay needle = Some i"
  shows "occurs_at hay needle = {i}"
proof -
  obtain a b where ab: "hay = a @ needle @ b" "length a = i" using str_find_Some [OF assms(3)] by blast
  have at: "prefix needle (drop i hay)" "i < length hay"
    using assms(2) unfolding ab(1) ab(2) [symmetric] by (simp_all add: prefix_def)
  have one: "length (filter (\<lambda>i. prefix needle (drop i hay)) [0..<length hay]) \<le> 1"
    using assms(1,2) by (simp add: count_overlapping_occurrences_def)
  have uniq: "k = i" if "prefix needle (drop k hay)" "k \<le> length hay" for k
  proof -
    have "k < length hay" using that assms(2) by (cases "k = length hay") auto
    then show ?thesis by (rule once [OF one at that(1)])
  qed
  have "i \<le> length hay" using at(2) by (rule less_imp_le)
  then show ?thesis unfolding occurs_at_def using uniq at(1) by blast
qed

text \<open>What the tool replaces: the one exact occurrence, or else the region of the one normalised occurrence.\<close>

definition matched_region :: "ustr \<Rightarrow> ustr \<Rightarrow> usize \<Rightarrow> usize \<Rightarrow> bool" where
  "matched_region hay v i len \<longleftrightarrow>
     (if sublist v hay then occurs_at hay v = {i} \<and> len = length v
      else matches_normalized hay i len (build_normalized_content v) \<and>
        (\<exists>k. occurs_at (build_normalized_content hay) (build_normalized_content v) = {k}))"

lemma found_region:
  assumes "fuzzy_find_text_with_normalized hay v (build_normalized_content hay) (build_normalized_content v) = Some r"
    and "v \<noteq> []" and "build_normalized_content v \<noteq> []"
    and "(if fm_exact r then count_overlapping_occurrences hay v
      else count_overlapping_occurrences (build_normalized_content hay) (build_normalized_content v)) \<le> 1"
  shows "matched_region hay v (fm_index r) (fm_length r) \<and> 0 < fm_length r \<and> fm_index r + fm_length r \<le> length hay"
proof (cases "str_find hay v")
  case (Some i)
  then obtain a b where ab: "hay = a @ v @ b" "length a = i" using str_find_Some by blast
  then have "sublist v hay" by auto
  moreover have "r = \<lparr>fm_index = i, fm_length = length v, fm_exact = True\<rparr>"
    using assms(1) Some by (simp add: fuzzy_find_text_with_normalized_def)
  ultimately show ?thesis
    using assms(2,4) occurs_once [OF _ assms(2) Some] ab by (simp add: matched_region_def)
next
  case None
  then have no: "\<not> sublist v hay" by (simp add: str_find_None)
  obtain s i len where s: "str_find (build_normalized_content hay) (build_normalized_content v) = Some s"
    and range: "map_normalized_range_to_original hay s (length (build_normalized_content v)) = (i, len)"
    and r: "r = \<lparr>fm_index = i, fm_length = len, fm_exact = False\<rparr>"
    using assms(1) None by (auto simp: fuzzy_find_text_with_normalized_def split: option.splits prod.splits)
  have "matches_normalized hay i len (build_normalized_content v)" by (rule normalized_match_region [OF s assms(3) range])
  then show ?thesis
    using no r assms(4) occurs_once [OF _ assms(3) s] by (auto simp: matched_region_def matches_normalized_def)
qed

lemma content_for_matching_length [simp]: "length (content_for_matching c) = length c"
  by (simp add: content_for_matching_def)

lemma strip_bom_parts: "strip_bom raw = (content, had) \<Longrightarrow> raw = (if had then [65279] else []) @ content"
  by (auto simp: strip_bom_def strip_prefix_Some_iff split: option.splits)

lemmas edit_eval = edit_text_def strip_bom_def content_for_matching_def normalize_to_lf_def restore_line_endings_def
  build_normalized_content_def trimmed_length_def is_whitespace_def is_special_unicode_space_def normalized_char_def
  old_text_variants_def fuzzy_find_text_with_normalized_def str_find_def count_overlapping_occurrences_def upt_rec
  map_normalized_range_to_original_def map_line_def Let_def

section \<open>Properties\<close>

text \<open>
  Line endings are normalised the same way whether a text is read whole or in pieces. However a text is cut
  into chunks that are not empty, the normalised chunks, followed by the line feed for a carriage return
  still held back, are the normalised text, which holds no carriage return; and giving a text without
  carriage returns the file's line ending and normalising it again yields that text.
\<close>

theorem line_endings_chunked:
  assumes "feed_chunks cs False = (out, held)" and "[] \<notin> set cs"
  shows "out @ (if held then [10] else []) = normalize_to_lf (concat cs) \<and> 13 \<notin> set (normalize_to_lf (concat cs)) \<and>
    (13 \<notin> set t \<longrightarrow> normalize_to_lf (restore_line_endings t (detect_line_ending u)) = t)"
proof -
  have no_cr: "13 \<notin> set (lf_loop x)" for x
    by (induction x rule: lf_loop.induct) (auto split: list.splits)
  show ?thesis
    using feed_chunks_whole [OF assms] restored_back [of t u] no_cr [of "concat cs"] unfolding normalize_to_lf_loop
    by (metis (full_types))
qed

theorem line_endings_chunked_witness:
  "feed_chunks [[97, 13], [10, 98, 13]] False = ([97, 10, 98], True) \<and>
   [97, 10, 98, 10] = normalize_to_lf (concat [[97, 13], [10, 98, 13]])"
proof
  show run: "feed_chunks [[97, 13], [10, 98, 13]] False = ([97, 10, 98], True)"
    by (simp add: normalize_line_endings_chunk_def Let_def)
  show "[97, 10, 98, 10] = normalize_to_lf (concat [[97, 13], [10, 98, 13]])"
    using line_endings_chunked [OF run, of "[]" "[]"] by simp
qed

definition normal_forms :: "(ustr \<Rightarrow> ustr) \<Rightarrow> bool" where
  "normal_forms f = (\<forall>t. build_normalized_content t \<noteq> [] \<longrightarrow> build_normalized_content (f t) \<noteq> [])"

text \<open>
  C35: An edit replaces one unambiguous region and nothing else. When the edit succeeds, the new file is the old
  one, byte order mark included, with a single region exchanged for the new text, written with the line
  ending the file uses first. The region is the only exact occurrence of the old text (in one of its
  Unicode forms), or, when there is no exact one, the region whose characters, leaving out trailing
  whitespace and with spaces, quotes and dashes normalised, are the normalised old text, which then
  occurs only once in the normalised file; that region begins and ends with a matched character.
\<close>

theorem edit_replaces_only_the_match:
  assumes "edit_text nfc nfd old new raw = Inr out" and "normal_forms nfc" and "normal_forms nfd"
  shows "\<exists>bom content v i len.
    raw = bom @ content \<and> (bom = [65279] \<or> bom = []) \<and>
    v \<in> set (old_text_variants nfc nfd (normalize_to_lf old)) \<and>
    matched_region (content_for_matching content) v i len \<and> 0 < len \<and> i + len \<le> length content \<and>
    out = bom @ take i content @ restore_line_endings (normalize_to_lf new) (detect_line_ending content) @
      drop (i + len) content \<and> out \<noteq> raw"
proof -
  obtain content had where bom: "strip_bom raw = (content, had)" by force
  let ?old = "normalize_to_lf old" and ?hay = "content_for_matching content"
  note run = assms(1) [unfolded edit_text_def bom Let_def prod.case]
  obtain r v where r: "best_match ?hay (old_text_variants nfc nfd ?old) = Some (r, v)"
    and old: "build_normalized_content ?old \<noteq> []"
    using run by (auto split: if_splits option.splits)
  have v: "v \<in> set (old_text_variants nfc nfd ?old)"
    and found: "fuzzy_find_text_with_normalized ?hay v (build_normalized_content ?hay) (build_normalized_content v) = Some r"
    using best_match_Some [OF r] by auto
  have ne: "build_normalized_content v \<noteq> []"
    using v old assms(2,3) by (auto simp: old_text_variants_def normal_forms_def split: if_splits)
  then have "v \<noteq> []" by (auto simp: build_normalized_content_def)
  have "(if fm_exact r then count_overlapping_occurrences ?hay v
      else count_overlapping_occurrences (build_normalized_content ?hay) (build_normalized_content v)) \<le> 1"
    using run r by (simp add: not_less split: if_splits)
  note region = found_region [OF found \<open>v \<noteq> []\<close> ne this]
  define new_content where "new_content = take (fm_index r) content @
    restore_line_endings (normalize_to_lf new) (detect_line_ending content) @ drop (fm_index r + fm_length r) content"
  have out: "out = (if had then [65279] else []) @ new_content" "content \<noteq> new_content"
    using run r unfolding new_content_def by (auto split: if_splits)
  then show ?thesis
    using region v strip_bom_parts [OF bom] unfolding new_content_def
    by (intro exI [of _ "if had then [65279] else []"] exI [of _ content] exI [of _ v] exI [of _ "fm_index r"]
      exI [of _ "fm_length r"]) auto
qed

text \<open>
  In a file with carriage return and line feed, an old text that begins with a line break matches from the
  line feed on, and the new text brings its own carriage return: the edit doubles the one that was
  there, although the tool promises to normalise line endings.
\<close>

theorem edit_doubles_carriage_return:
  "edit_text nfc nfd [10, 98] [10, 99] [97, 13, 10, 98] = Inr [97, 13, 13, 10, 99]"
  by (simp add: edit_eval)

definition same_text :: "ustr \<Rightarrow> ustr" where
  "same_text t = t"

theorem edit_replaces_only_the_match_witness:
  "edit_text same_text same_text [34, 97] [99] [98, 8220, 97] = Inr [98, 99] \<and>
   (\<exists>bom content v i len. [98, 8220, 97] = bom @ content \<and>
      matched_region (content_for_matching content) v i len \<and>
      [98, 99] = bom @ take i content @ restore_line_endings (normalize_to_lf [99]) (detect_line_ending content) @
        drop (i + len) content)"
proof
  show run: "edit_text same_text same_text [34, 97] [99] [98, 8220, 97] = Inr [98, 99]"
    by (simp add: edit_eval same_text_def)
  have "normal_forms same_text" by (simp add: normal_forms_def same_text_def)
  then show "\<exists>bom content v i len. [98, 8220, 97] = bom @ content \<and>
      matched_region (content_for_matching content) v i len \<and>
      [98, 99] = bom @ take i content @ restore_line_endings (normalize_to_lf [99]) (detect_line_ending content) @
        drop (i + len) content"
    using edit_replaces_only_the_match [OF run] by blast
qed

end
