(* ===== verification/Truncation.thy ===== *)
theory Truncation
  imports Utf8
begin

text \<open>
  How tool output is cut to its limits of lines and bytes (\<open>truncate_head\<close>, \<open>truncate_tail\<close> and
  \<open>HeadTruncatingLineWriter\<close> of \<open>src/src/tools.rs\<close>). Text is its UTF-8 bytes. The searches of the
  \<open>memchr\<close> library are the argument \<open>mc\<close>, with their documented results as the locale
  \<open>memchr_contract\<close>. The backward loop of \<open>truncate_tail\<close> only ends because a search answers a
  position inside the slice it was given, so it is a partial function, and that it returns is
  proved.
\<close>

section \<open>Data\<close>

record memchr =
  mc_first :: "nat \<Rightarrow> bytes \<Rightarrow> nat option"
  mc_last :: "nat \<Rightarrow> bytes \<Rightarrow> nat option"
  mc_all :: "nat \<Rightarrow> bytes \<Rightarrow> nat list"

datatype truncated_by = ByLines | ByBytes

record truncation_result =
  tr_content :: bytes
  tr_truncated :: bool
  tr_truncated_by :: "truncated_by option"
  tr_total_lines :: usize
  tr_total_bytes :: usize
  tr_output_lines :: usize
  tr_output_bytes :: usize
  tr_last_line_partial :: bool
  tr_first_line_exceeds_limit :: bool
  tr_max_lines :: usize
  tr_max_bytes :: usize

definition ends_with_newline :: "bytes \<Rightarrow> bool" where
  "ends_with_newline s \<longleftrightarrow> s \<noteq> [] \<and> last s = 10"

section \<open>The head of a text\<close>

definition head_line_total :: "memchr \<Rightarrow> bytes \<Rightarrow> usize" where
  "head_line_total mc content =
     (let nl = length (mc_all mc 10 content)
      in if content = [] then 0 else if ends_with_newline content then nl else nl + 1)"

text \<open>The loop that steps back to a character boundary, not below \<open>low\<close>.\<close>

fun boundary_loop :: "bytes \<Rightarrow> nat \<Rightarrow> nat \<Rightarrow> nat" where
  "boundary_loop content low limit =
     (if low < limit \<and> \<not> is_char_boundary content limit then boundary_loop content low (limit - 1) else limit)"

declare boundary_loop.simps [simp del]

definition utf8_prefix_len :: "bytes \<Rightarrow> usize \<Rightarrow> usize" where
  "utf8_prefix_len s max_bytes = boundary_loop s 0 (min max_bytes (length s))"

function head_loop :: "memchr \<Rightarrow> bytes \<Rightarrow> usize \<Rightarrow> usize \<Rightarrow> usize \<Rightarrow> usize \<Rightarrow> usize \<Rightarrow>
  usize \<times> usize \<times> truncated_by option \<times> bool" where
  "head_loop mc content max_lines max_bytes line_count byte_count current_offset =
     (if length content \<le> current_offset then (line_count, byte_count, None, False)
      else if max_lines \<le> line_count then (line_count, byte_count, Some ByLines, False)
      else
        let next_newline = mc_first mc 10 (drop current_offset content);
            line_end_without_nl = (case next_newline of None \<Rightarrow> length content | Some i \<Rightarrow> current_offset + i);
            line_end_with_nl = (case next_newline of None \<Rightarrow> length content | Some i \<Rightarrow> current_offset + i + 1)
        in if max_bytes < line_end_without_nl then
             let byte_limit = min max_bytes (length content)
             in if byte_limit < current_offset then (line_count, byte_count, Some ByBytes, False)
                else let valid = boundary_loop content current_offset byte_limit
                     in if current_offset < valid then (line_count + 1, valid, Some ByBytes, True)
                        else (line_count, byte_count, Some ByBytes, False)
           else if max_bytes < line_end_with_nl then
             (if current_offset < line_end_without_nl then (line_count + 1, line_end_without_nl, Some ByBytes, False)
              else (line_count, byte_count, Some ByBytes, False))
           else head_loop mc content max_lines max_bytes (line_count + 1) line_end_with_nl line_end_with_nl)"
  by pat_completeness auto
termination
  by (relation "measure (\<lambda>(mc, content, ml, mb, lc, bc, offset). length content - offset)")
    (auto split: option.splits)

declare head_loop.simps [simp del]

definition truncate_head :: "memchr \<Rightarrow> bytes \<Rightarrow> usize \<Rightarrow> usize \<Rightarrow> truncation_result" where
  "truncate_head mc content max_lines max_bytes =
     (let total_bytes = length content; total_lines = head_line_total mc content
      in if max_lines = 0 then
           \<lparr>tr_content = [], tr_truncated = (content \<noteq> []),
             tr_truncated_by = (if content \<noteq> [] then Some ByLines else None),
             tr_total_lines = total_lines, tr_total_bytes = total_bytes, tr_output_lines = 0, tr_output_bytes = 0,
             tr_last_line_partial = False, tr_first_line_exceeds_limit = False,
             tr_max_lines = max_lines, tr_max_bytes = max_bytes\<rparr>
         else if max_bytes = 0 then
           \<lparr>tr_content = [], tr_truncated = (content \<noteq> []),
             tr_truncated_by = (if content \<noteq> [] then Some ByBytes else None),
             tr_total_lines = total_lines, tr_total_bytes = total_bytes, tr_output_lines = 0, tr_output_bytes = 0,
             tr_last_line_partial = False, tr_first_line_exceeds_limit = (content \<noteq> []),
             tr_max_lines = max_lines, tr_max_bytes = max_bytes\<rparr>
         else if total_lines \<le> max_lines \<and> total_bytes \<le> max_bytes then
           \<lparr>tr_content = content, tr_truncated = False, tr_truncated_by = None,
             tr_total_lines = total_lines, tr_total_bytes = total_bytes,
             tr_output_lines = total_lines, tr_output_bytes = total_bytes,
             tr_last_line_partial = False, tr_first_line_exceeds_limit = False,
             tr_max_lines = max_lines, tr_max_bytes = max_bytes\<rparr>
         else
           let first_line_bytes = (case mc_first mc 10 content of None \<Rightarrow> length content | Some i \<Rightarrow> i)
           in if max_bytes < first_line_bytes then
                let valid_bytes = boundary_loop content 0 max_bytes
                in \<lparr>tr_content = take valid_bytes content, tr_truncated = True, tr_truncated_by = Some ByBytes,
                     tr_total_lines = total_lines, tr_total_bytes = total_bytes,
                     tr_output_lines = (if 0 < valid_bytes then 1 else 0), tr_output_bytes = valid_bytes,
                     tr_last_line_partial = True, tr_first_line_exceeds_limit = True,
                     tr_max_lines = max_lines, tr_max_bytes = max_bytes\<rparr>
              else
                let (line_count, byte_count, truncated_by, last_line_partial) =
                      head_loop mc content max_lines max_bytes 0 0 0
                in \<lparr>tr_content = take byte_count content, tr_truncated = (truncated_by \<noteq> None),
                     tr_truncated_by = truncated_by,
                     tr_total_lines = total_lines, tr_total_bytes = total_bytes,
                     tr_output_lines = line_count, tr_output_bytes = byte_count,
                     tr_last_line_partial = last_line_partial, tr_first_line_exceeds_limit = False,
                     tr_max_lines = max_lines, tr_max_bytes = max_bytes\<rparr>)"

section \<open>The tail of a text\<close>

definition tail_line_count :: "memchr \<Rightarrow> bytes \<Rightarrow> usize" where
  "tail_line_count mc content =
     (let n = length (mc_all mc 10 content);
          n1 = (if \<not> ends_with_newline content \<and> content \<noteq> [] then n + 1 else n)
      in if content = [] then 0 else n1)"

fun skip_continuation :: "bytes \<Rightarrow> bytes" where
  "skip_continuation [] = []"
| "skip_continuation (b # bs) = (if is_cont b then skip_continuation bs else b # bs)"

definition truncate_string_to_bytes_from_end :: "bytes \<Rightarrow> usize \<Rightarrow> bytes" where
  "truncate_string_to_bytes_from_end s max_bytes =
     (if length s \<le> max_bytes then s
      else let rest = skip_continuation (drop (length s - max_bytes) s)
           in if from_utf8 rest = None then rest else [])"

partial_function (option) tail_loop :: "memchr \<Rightarrow> bytes \<Rightarrow> usize \<Rightarrow> usize \<Rightarrow> usize \<Rightarrow> usize \<Rightarrow> usize \<Rightarrow> usize \<Rightarrow>
  (usize \<times> usize \<times> bytes option \<times> truncated_by option \<times> bool) option" where
  "tail_loop mc content max_lines max_bytes line_count byte_count start_idx search_limit =
     (let line_start = (case mc_last mc 10 (take search_limit content) of None \<Rightarrow> 0 | Some i \<Rightarrow> i + 1);
          added_bytes = start_idx - line_start
      in if max_bytes < byte_count + added_bytes then
           let remaining = max_bytes - byte_count;
               truncated_chunk = truncate_string_to_bytes_from_end (take added_bytes (drop line_start content)) remaining
           in Some (if 0 < remaining \<and> truncated_chunk \<noteq> []
                    then (line_count, start_idx, Some truncated_chunk, Some ByBytes, line_count = 0)
                    else (line_count, start_idx, None, Some ByBytes, False))
         else if max_lines \<le> line_count + 1 then Some (line_count + 1, line_start, None, Some ByLines, False)
         else if line_start = 0 then Some (line_count + 1, line_start, None, None, False)
         else tail_loop mc content max_lines max_bytes (line_count + 1) (byte_count + added_bytes) line_start (line_start - 1))"

declare tail_loop.simps [code]

definition truncate_tail :: "memchr \<Rightarrow> bytes \<Rightarrow> usize \<Rightarrow> usize \<Rightarrow> truncation_result option" where
  "truncate_tail mc content max_lines max_bytes =
     (let total_bytes = length content; total_lines = tail_line_count mc content
      in if max_lines = 0 then
           Some \<lparr>tr_content = [], tr_truncated = (content \<noteq> []),
             tr_truncated_by = (if content \<noteq> [] then Some ByLines else None),
             tr_total_lines = total_lines, tr_total_bytes = total_bytes, tr_output_lines = 0, tr_output_bytes = 0,
             tr_last_line_partial = False, tr_first_line_exceeds_limit = False,
             tr_max_lines = max_lines, tr_max_bytes = max_bytes\<rparr>
         else if total_lines \<le> max_lines \<and> total_bytes \<le> max_bytes then
           Some \<lparr>tr_content = content, tr_truncated = False, tr_truncated_by = None,
             tr_total_lines = total_lines, tr_total_bytes = total_bytes,
             tr_output_lines = total_lines, tr_output_bytes = total_bytes,
             tr_last_line_partial = False, tr_first_line_exceeds_limit = False,
             tr_max_lines = max_lines, tr_max_bytes = max_bytes\<rparr>
         else
           let search_limit = (if ends_with_newline content then length content - 1 else length content)
           in case tail_loop mc content max_lines max_bytes 0 0 (length content) search_limit of
                None \<Rightarrow> None
              | Some (line_count, start_idx, partial_output, truncated_by, last_line_partial) \<Rightarrow>
                  let output = (case partial_output of
                                  Some chunk \<Rightarrow> chunk @ drop start_idx content
                                | None \<Rightarrow> drop start_idx content);
                      lines = (case partial_output of Some chunk \<Rightarrow> tail_line_count mc output | None \<Rightarrow> line_count)
                  in Some \<lparr>tr_content = output, tr_truncated = (truncated_by \<noteq> None), tr_truncated_by = truncated_by,
                       tr_total_lines = total_lines, tr_total_bytes = total_bytes,
                       tr_output_lines = lines, tr_output_bytes = length output,
                       tr_last_line_partial = last_line_partial, tr_first_line_exceeds_limit = False,
                       tr_max_lines = max_lines, tr_max_bytes = max_bytes\<rparr>)"

section \<open>The line writer\<close>

record line_writer =
  lw_content :: bytes
  lw_max_bytes :: usize
  lw_total_lines :: usize
  lw_total_bytes :: usize
  lw_output_lines :: usize
  lw_truncated :: bool
  lw_last_line_partial :: bool
  lw_first_line_exceeds_limit :: bool

definition writer_new :: "usize \<Rightarrow> line_writer" where
  "writer_new max_bytes = \<lparr>lw_content = [], lw_max_bytes = max_bytes, lw_total_lines = 0, lw_total_bytes = 0,
     lw_output_lines = 0, lw_truncated = False, lw_last_line_partial = False, lw_first_line_exceeds_limit = False\<rparr>"

definition writer_push :: "bytes \<Rightarrow> line_writer \<Rightarrow> line_writer" where
  "writer_push line w0 =
     (let line_index = lw_total_lines w0;
          separator_len = (if 0 < line_index then 1 else 0);
          piece_bytes = sat_add64 separator_len (length line);
          w = w0\<lparr>lw_total_lines := sat_add64 (lw_total_lines w0) 1,
                 lw_total_bytes := sat_add64 (lw_total_bytes w0) piece_bytes\<rparr>
      in if lw_truncated w then w
         else if lw_max_bytes w = 0 then
           w\<lparr>lw_truncated := True, lw_first_line_exceeds_limit := (line_index = 0 \<and> line \<noteq> [])\<rparr>
         else
           let remaining = lw_max_bytes w - length (lw_content w);
               sep = (if 0 < separator_len then [10] else [])
           in if piece_bytes \<le> remaining then
                w\<lparr>lw_content := lw_content w @ sep @ line, lw_output_lines := sat_add64 (lw_output_lines w) 1\<rparr>
              else
                let w1 = w\<lparr>lw_truncated := True,
                           lw_first_line_exceeds_limit :=
                             (line_index = 0 \<and> lw_max_bytes w < length line \<or> lw_first_line_exceeds_limit w)\<rparr>
                in if 0 < separator_len \<and> remaining = 0 then w1
                   else
                     let w2 = w1\<lparr>lw_content := lw_content w1 @ sep\<rparr>;
                         line_budget = (if 0 < separator_len then remaining - 1 else remaining);
                         valid_bytes = utf8_prefix_len line line_budget
                     in if 0 < valid_bytes then
                          w2\<lparr>lw_content := lw_content w2 @ take valid_bytes line,
                             lw_output_lines := sat_add64 (lw_output_lines w2) 1,
                             lw_last_line_partial := (valid_bytes < length line)\<rparr>
                        else w2)"

definition writer_finish :: "line_writer \<Rightarrow> truncation_result" where
  "writer_finish w = \<lparr>tr_content = lw_content w, tr_truncated = lw_truncated w,
     tr_truncated_by = (if lw_truncated w then Some ByBytes else None),
     tr_total_lines = lw_total_lines w, tr_total_bytes = lw_total_bytes w,
     tr_output_lines = lw_output_lines w, tr_output_bytes = length (lw_content w),
     tr_last_line_partial = lw_last_line_partial w, tr_first_line_exceeds_limit = lw_first_line_exceeds_limit w,
     tr_max_lines = u64_max, tr_max_bytes = lw_max_bytes w\<rparr>"

section \<open>Lines and cuts\<close>

text \<open>
  The specification: the lines of a text, a trailing line feed ending the last one; the prefixes
  (and suffixes) that respect both limits and the characters; and why the text was not kept whole.
\<close>

definition line_total :: "bytes \<Rightarrow> nat" where
  "line_total s = (if s = [] then 0 else length (filter (\<lambda>b. b = 10) s) + (if last s = 10 then 0 else 1))"

definition head_fits :: "bytes \<Rightarrow> nat \<Rightarrow> nat \<Rightarrow> nat \<Rightarrow> bool" where
  "head_fits s max_lines max_bytes n \<longleftrightarrow>
     n \<le> length s \<and> n \<le> max_bytes \<and> is_char_boundary s n \<and> line_total (take n s) \<le> max_lines"

definition tail_fits :: "bytes \<Rightarrow> nat \<Rightarrow> nat \<Rightarrow> nat \<Rightarrow> bool" where
  "tail_fits s max_lines max_bytes n \<longleftrightarrow>
     n \<le> length s \<and> length s - n \<le> max_bytes \<and> is_char_boundary s n \<and> line_total (drop n s) \<le> max_lines"

definition longest_head :: "bytes \<Rightarrow> nat \<Rightarrow> nat \<Rightarrow> nat \<Rightarrow> bool" where
  "longest_head s max_lines max_bytes n \<longleftrightarrow>
     head_fits s max_lines max_bytes n \<and> (\<forall>m. head_fits s max_lines max_bytes m \<longrightarrow> m \<le> n)"

definition longest_tail :: "bytes \<Rightarrow> nat \<Rightarrow> nat \<Rightarrow> nat \<Rightarrow> bool" where
  "longest_tail s max_lines max_bytes n \<longleftrightarrow>
     tail_fits s max_lines max_bytes n \<and> (\<forall>m. tail_fits s max_lines max_bytes m \<longrightarrow> n \<le> m)"

definition cut_reason :: "bool \<Rightarrow> bytes \<Rightarrow> nat \<Rightarrow> truncated_by option" where
  "cut_reason whole one_more max_lines =
     (if whole then None else if max_lines < line_total one_more then Some ByLines else Some ByBytes)"

lemma line_total_Nil [simp]: "line_total [] = 0"
  by (simp add: line_total_def)

lemma line_total_Cons:
  "line_total (b # s) = (if b = 10 then Suc (line_total s) else if s = [] then 1 else line_total s)"
  by (auto simp: line_total_def)

lemma line_total_pos: "s \<noteq> [] \<Longrightarrow> 0 < line_total s"
  by (induction s) (auto simp: line_total_Cons)

lemma line_total_append:
  "s = [] \<or> last s = 10 \<Longrightarrow> line_total (s @ t) = line_total s + line_total t"
  by (induction s) (auto simp: line_total_Cons)

lemma line_total_prefix: "line_total s \<le> line_total (s @ t)"
  by (induction s) (auto simp: line_total_Cons Suc_le_eq line_total_pos)

lemma line_total_suffix: "line_total t \<le> line_total (s @ t)"
  by (induction s) (auto simp: line_total_Cons)

lemma line_total_one: "10 \<notin> set s \<Longrightarrow> line_total s = (if s = [] then 0 else 1)"
  by (induction s) (auto simp: line_total_Cons)

lemma line_total_take_mono: "m \<le> n \<Longrightarrow> line_total (take m s) \<le> line_total (take n s)"
  using line_total_prefix [of "take m s" "take (n - m) (drop m s)"] by (simp add: take_add [symmetric])

lemma line_total_drop_mono: "m \<le> n \<Longrightarrow> line_total (drop n s) \<le> line_total (drop m s)"
  using line_total_suffix [of "drop n s" "take (n - m) (drop m s)"] append_take_drop_id [of "n - m" "drop m s"] by simp

definition line_start :: "bytes \<Rightarrow> nat \<Rightarrow> bool" where
  "line_start s c \<longleftrightarrow> c = 0 \<or> c \<le> length s \<and> s ! (c - 1) = 10"

lemma slice_member:
  assumes "c \<le> i" and "i < e" and "e \<le> length s"
  shows "s ! i \<in> set (take (e - c) (drop c s))"
proof -
  have "i - c < length (take (e - c) (drop c s))" using assms by (simp add: diff_less_mono)
  then have "take (e - c) (drop c s) ! (i - c) \<in> set (take (e - c) (drop c s))" by (rule nth_mem)
  moreover have "take (e - c) (drop c s) ! (i - c) = s ! i" using assms by (simp add: diff_less_mono)
  ultimately show ?thesis by simp
qed

lemma line_start_lines:
  assumes "line_start s c" and "c \<le> m"
  shows "line_total (take m s) = line_total (take c s) + line_total (take (m - c) (drop c s))"
proof -
  have "take c s = [] \<or> last (take c s) = 10"
    using assms(1) last_conv_nth [of "take c s"] by (cases "c = 0"; cases "s = []") (auto simp: line_start_def min_def split: if_splits)
  moreover have "take m s = take c s @ take (m - c) (drop c s)" using assms(2) take_add [of c "m - c" s] by simp
  ultimately show ?thesis using line_total_append by metis
qed

lemma line_start_boundary: "utf8_valid s \<Longrightarrow> line_start s c \<Longrightarrow> is_char_boundary s c"
  using ascii_boundary [of s "c - 1"] by (cases c) (auto simp: line_start_def is_char_boundary_def)

lemma boundary_loop_exact:
  assumes "low \<le> limit" and "is_char_boundary s low"
  shows "low \<le> boundary_loop s low limit \<and> boundary_loop s low limit \<le> limit \<and>
    is_char_boundary s (boundary_loop s low limit) \<and>
    (\<forall>m. boundary_loop s low limit < m \<and> m \<le> limit \<longrightarrow> \<not> is_char_boundary s m)"
  using assms
proof (induction s low limit rule: boundary_loop.induct)
  case (1 s low limit)
  show ?case
  proof (cases "low < limit \<and> \<not> is_char_boundary s limit")
    case True
    then have step: "boundary_loop s low limit = boundary_loop s low (limit - 1)"
      by (subst boundary_loop.simps) simp
    have "low \<le> limit - 1" using True by arith
    note IH = "1.IH" [OF True this "1.prems"(2)]
    have "\<not> is_char_boundary s m" if "boundary_loop s low (limit - 1) < m" "m \<le> limit" for m
      using IH that True by (cases "m = limit") auto
    then show ?thesis using IH step by auto
  next
    case False
    then have "boundary_loop s low limit = limit" by (subst boundary_loop.simps) auto
    moreover have "is_char_boundary s limit" using False "1.prems" by (cases "low = limit") auto
    ultimately show ?thesis using "1.prems"(1) by auto
  qed
qed

section \<open>The byte searches\<close>

locale memchr_contract =
  fixes mc :: memchr
  assumes first_none: "mc_first mc b s = None \<longleftrightarrow> b \<notin> set s"
    and first_some: "mc_first mc b s = Some i \<Longrightarrow> i < length s \<and> s ! i = b \<and> b \<notin> set (take i s)"
    and last_none: "mc_last mc b s = None \<longleftrightarrow> b \<notin> set s"
    and last_some: "mc_last mc b s = Some i \<Longrightarrow> i < length s \<and> s ! i = b \<and> b \<notin> set (drop (Suc i) s)"
    and all_positions: "mc_all mc b s = filter (\<lambda>i. s ! i = b) [0..<length s]"
begin

lemma all_length: "length (mc_all mc b s) = length (filter (\<lambda>x. x = b) s)"
proof -
  have "filter (\<lambda>x. x = b) (map ((!) s) [0..<length s]) = map ((!) s) (mc_all mc b s)"
    by (simp add: all_positions filter_map comp_def)
  then show ?thesis by (metis length_map map_nth)
qed

lemma head_line_total [simp]: "head_line_total mc s = line_total s"
  by (simp add: head_line_total_def line_total_def all_length ends_with_newline_def Let_def)

lemma tail_line_count [simp]: "tail_line_count mc s = line_total s"
  by (simp add: tail_line_count_def line_total_def all_length ends_with_newline_def Let_def)

text \<open>The end of the line that starts at a position.\<close>

lemma next_line:
  assumes "c < length s"
  obtains e where "c \<le> e" and "e \<le> length s" and "10 \<notin> set (take (e - c) (drop c s))"
    and "e < length s \<longrightarrow> s ! e = 10"
    and "(case mc_first mc 10 (drop c s) of None \<Rightarrow> length s | Some i \<Rightarrow> c + i) = e"
    and "(case mc_first mc 10 (drop c s) of None \<Rightarrow> length s | Some i \<Rightarrow> c + i + 1) = min (Suc e) (length s)"
proof (cases "mc_first mc 10 (drop c s)")
  case None
  moreover have "10 \<notin> set (drop c s)" using None first_none by simp
  ultimately show ?thesis using that [of "length s"] assms by simp
next
  case (Some i)
  have "drop c s ! i = s ! (c + i)" using assms by simp
  moreover have "c + i < length s" using first_some [OF Some] by auto
  ultimately show ?thesis using that [of "c + i"] first_some [OF Some] Some by simp
qed

end

lemma one_line:
  assumes "10 \<notin> set (take (e - c) (drop c s))" and "e < length s \<longrightarrow> s ! e = 10" and "c < m" and "m \<le> Suc e" and "m \<le> length s"
  shows "line_total (take (m - c) (drop c s)) = 1"
proof (cases "m \<le> e")
  case True
  have "set (take (m - c) (drop c s)) \<subseteq> set (take (e - c) (drop c s))"
    using True by (intro set_take_subset_set_take) simp
  then show ?thesis using assms line_total_one [of "take (m - c) (drop c s)"] by auto
next
  case False
  then have m: "m = Suc e" "e < length s" "c \<le> e" using assms by auto
  then have "take (m - c) (drop c s) = take (e - c) (drop c s) @ [10]"
    using assms(2) by (simp add: Suc_diff_le take_Suc_conv_app_nth)
  moreover have "line_total (xs @ [10]) = 1" if "10 \<notin> set xs" for xs
    using that by (induction xs) (auto simp: line_total_Cons)
  ultimately show ?thesis using assms(1) by simp
qed

context memchr_contract
begin

lemma head_loop_exact:
  assumes "utf8_valid s" and "c = length s \<or> line_start s c" and "c \<le> length s" and "c \<le> B"
    and "line_total (take c s) \<le> L" and "head_loop mc s L B (line_total (take c s)) c c = (lc, n, r, p)"
  shows "longest_head s L B n \<and> lc = line_total (take n s) \<and> r = cut_reason (n = length s) (take (Suc n) s) L \<and>
    (p \<longleftrightarrow> 0 < n \<and> n < length s \<and> s ! (n - 1) \<noteq> 10 \<and> s ! n \<noteq> 10)"
  using assms(2-)
proof (induction "length s - c" arbitrary: c rule: less_induct)
  case less
  note loop = less.prems(5) [unfolded head_loop.simps [of mc s L B _ c c]]
  show ?case
  proof (cases "c = length s")
    case True
    then show ?thesis
      using loop less.prems by (auto simp: longest_head_def head_fits_def is_char_boundary_def cut_reason_def)
  next
    case False
    then have c: "c < length s" "line_start s c" using less.prems(1,2) by simp_all
    have bc: "is_char_boundary s c" using line_start_boundary [OF assms(1) c(2)] .
    note ls = line_start_lines [OF c(2)]
    have grow: "line_total (take c s) < line_total (take m s)" if "c < m" "m \<le> length s" for m
      using ls [of m] line_total_pos [of "take (m - c) (drop c s)"] that by auto
    show ?thesis
    proof (cases "L \<le> line_total (take c s)")
      case True
      have "m \<le> c" if "head_fits s L B m" for m
        using grow [of m] that True by (force simp: head_fits_def not_less [symmetric])
      then show ?thesis
        using loop c bc True grow [of "Suc c"] less.prems(3,4)
        by (auto simp: longest_head_def head_fits_def cut_reason_def line_start_def)
    next
      case room: False
      obtain e where e: "c \<le> e" "e \<le> length s" "10 \<notin> set (take (e - c) (drop c s))" "e < length s \<longrightarrow> s ! e = 10"
        and ends: "(case mc_first mc 10 (drop c s) of None \<Rightarrow> length s | Some i \<Rightarrow> c + i) = e"
          "(case mc_first mc 10 (drop c s) of None \<Rightarrow> length s | Some i \<Rightarrow> c + i + 1) = min (Suc e) (length s)"
        using next_line [OF c(1)] by metis
      have one: "line_total (take m s) = Suc (line_total (take c s))" if "c < m" "m \<le> Suc e" "m \<le> length s" for m
        using ls [of m] one_line [OF e(3,4) that] that by simp
      note loop' = loop [unfolded ends Let_def]
      consider (cut_line) "B < e" | (cut_feed) "e \<le> B" "B < min (Suc e) (length s)" | (whole) "min (Suc e) (length s) \<le> B"
        by fastforce
      then show ?thesis
      proof cases
        case cut_line
        note v = boundary_loop_exact [OF less.prems(3) bc]
        define v where "v = boundary_loop s c B"
        have inner: "s ! i \<noteq> 10" if "c \<le> i" "i < e" for i
          using e(3) slice_member [OF that e(2)] by metis
        have "min B (length s) = B" using cut_line e(2) by simp
        note loop'' = loop' [unfolded this v_def [symmetric]]
        note vb = v [folded v_def]
        have res: "n = v" "lc = line_total (take v s)" "r = Some ByBytes" "p = (c < v)"
          using loop'' cut_line c room less.prems(3) e(2) one [of v] vb by (auto split: if_splits)
        have lines: "line_total (take m s) \<le> L" if "m \<le> e" for m
          using one [of m] room that e(2) line_total_take_mono [of m c s] by (cases "c < m") auto
        have "longest_head s L B v"
          using vb cut_line e(2) lines [of v] by (auto simp: longest_head_def head_fits_def not_less [symmetric])
        moreover have "c < v \<longrightarrow> s ! (v - 1) \<noteq> 10" using inner [of "v - 1"] vb cut_line by fastforce
        ultimately show ?thesis
          using res vb cut_line e(2) lines [of "Suc v"] inner [of v] c(2)
          by (auto simp: cut_reason_def line_start_def)
      next
        case cut_feed
        then have B: "B = e" "e < length s" by auto
        have res: "n = e" "lc = line_total (take e s)" "r = Some ByBytes" "\<not> p"
          using loop' cut_feed B c room e(1) one [of e] by (auto split: if_splits)
        have lines: "line_total (take m s) \<le> L" if "m \<le> Suc e" for m
          using one [of m] room that B line_total_take_mono [of m c s] by (cases "c < m") auto
        have "is_char_boundary s e" using ascii_boundary [OF assms(1) B(2)] e(4) B by simp
        then show ?thesis
          using res B e(4) lines [of e] lines [of "Suc e"] by (auto simp: longest_head_def head_fits_def cut_reason_def)
      next
        case whole
        define d where "d = min (Suc e) (length s)"
        have d: "c < d" "d \<le> length s" "d \<le> B" "d \<le> Suc e" "d = length s \<or> line_start s d"
          using whole c e(1,4) by (auto simp: d_def line_start_def min_def)
        have lines: "line_total (take d s) = Suc (line_total (take c s))" using one d by simp
        have "e \<le> B" using whole e(2) by (auto simp: min_def split: if_splits)
        have "head_loop mc s L B (line_total (take d s)) d d = (lc, n, r, p)"
          using loop' [folded d_def] d(3) c(1) room \<open>e \<le> B\<close> lines by (simp add: not_le)
        then show ?thesis using less.hyps [of d] d lines room c(1) by (simp add: diff_less_mono2)
      qed
    qed
  qed
qed

lemma truncate_head_cut:
  assumes "utf8_valid s" and res_def: "res = truncate_head mc s L B"
  shows "\<exists>n. tr_content res = take n s \<and> longest_head s L B n \<and>
    tr_output_bytes res = n \<and> tr_output_lines res = line_total (take n s) \<and>
    tr_total_bytes res = length s \<and> tr_total_lines res = line_total s \<and>
    tr_truncated res = (n < length s) \<and> tr_truncated_by res = cut_reason (n = length s) (take (Suc n) s) L \<and>
    (0 < n \<or> \<not> tr_first_line_exceeds_limit res \<longrightarrow>
      tr_last_line_partial res = (0 < n \<and> n < length s \<and> s ! (n - 1) \<noteq> 10 \<and> s ! n \<noteq> 10)) \<and>
    tr_first_line_exceeds_limit res = (0 < L \<and> s \<noteq> [] \<and> (B = 0 \<or> B < length (takeWhile (\<lambda>b. b \<noteq> 10) s)))"
proof -
  have zero: "longest_head s L B 0" if "L = 0 \<or> B = 0"
    using that line_total_pos [of "take _ s"]
    by (fastforce simp: longest_head_def head_fits_def is_char_boundary_def)
  have one: "s \<noteq> [] \<Longrightarrow> line_total (take (Suc 0) s) = 1" by (cases s) (auto simp: line_total_Cons)
  consider (none) "L = 0" | (empty) "0 < L" "B = 0" | (all) "0 < L" "0 < B" "line_total s \<le> L" "length s \<le> B"
    | (cut) "0 < L" "0 < B" "\<not> (line_total s \<le> L \<and> length s \<le> B)" by linarith
  then show ?thesis
  proof cases
    case none
    then show ?thesis
      using zero one by (intro exI [of _ 0]) (auto simp: res_def truncate_head_def Let_def cut_reason_def)
  next
    case empty
    then show ?thesis
      using zero one by (intro exI [of _ 0]) (auto simp: res_def truncate_head_def Let_def cut_reason_def)
  next
    case all
    have "\<not> B < length (takeWhile (\<lambda>b. b \<noteq> 10) s)" 
      using all(4) length_takeWhile_le [of "\<lambda>b. b \<noteq> 10" s] by linarith
    then show ?thesis
      using all by (intro exI [of _ "length s"])
        (auto simp: res_def truncate_head_def Let_def cut_reason_def longest_head_def head_fits_def is_char_boundary_def)
  next
    case cut
    then have ne: "0 < length s" by (cases s) auto
    obtain e where e: "e \<le> length s" "10 \<notin> set (take e s)" "e < length s \<longrightarrow> s ! e = 10"
      and first: "(case mc_first mc 10 s of None \<Rightarrow> length s | Some i \<Rightarrow> i) = e"
      by (rule next_line [OF ne]) (simp cong: option.case_cong)
    have tw: "length (takeWhile (\<lambda>b. b \<noteq> 10) s) = e"
    proof (cases "e < length s")
      case True
      have "takeWhile (\<lambda>b. b \<noteq> 10) s = take e s"
        using e True by (intro takeWhile_eq_take_P_nth) (auto dest: nth_mem simp: in_set_conv_nth)
      then show ?thesis using e(1) by simp
    next
      case False
      then have "takeWhile (\<lambda>b. b \<noteq> 10) s = s" using e(1,2) by (auto simp: takeWhile_eq_all_conv)
      then show ?thesis using False e(1) by (metis le_neq_implies_less)
    qed
    obtain lc n r p where loop: "head_loop mc s L B 0 0 0 = (lc, n, r, p)" by (metis prod_cases4)
    note ex = head_loop_exact [OF assms(1), of 0 B L lc n r p, simplified, OF _ loop, unfolded line_start_def, simplified]
    have "head_fits s L B n" using ex unfolding longest_head_def by blast
    then have "n < length s" using cut(3) unfolding head_fits_def by (cases "n = length s") auto
    then have some: "r \<noteq> None \<and> n < length s" using ex by (simp add: cut_reason_def)
    show ?thesis
    proof (cases "B < e")
      case True
      define v where "v = boundary_loop s 0 B"
      have "min B (length s) = B" using True e(1) by simp
      moreover have "(case mc_first mc 10 (drop 0 s) of None \<Rightarrow> length s | Some i \<Rightarrow> 0 + i) = e"
        using first by (simp cong: option.case_cong)
      ultimately have same: "n = v" "lc = (if 0 < v then 1 else 0)" "r = Some ByBytes" "p = (0 < v)"
        using loop True cut(1) ne unfolding head_loop.simps [of mc s L B 0 0 0] Let_def v_def
        by (auto split: if_splits)
      show ?thesis using True cut first tw ex some same
        by (intro exI [of _ n]) (auto simp: res_def truncate_head_def Let_def v_def [symmetric])
    next
      case False
      then show ?thesis using cut first tw ex some loop
        by (intro exI [of _ n]) (auto simp: res_def truncate_head_def Let_def)
    qed
  qed
qed

end

text \<open>The line before a position that ends a line: its start, and what the suffixes from inside it hold.\<close>

definition line_end :: "bytes \<Rightarrow> nat \<Rightarrow> nat \<Rightarrow> bool" where
  "line_end s start limit \<longleftrightarrow>
     (limit = start \<and> start = length s \<and> s ! (start - 1) \<noteq> 10 \<or> Suc limit = start \<and> s ! limit = 10) \<and>
     0 < start \<and> start \<le> length s"

context memchr_contract
begin

lemma previous_line:
  assumes "line_end s start limit"
  obtains ls where "(case mc_last mc 10 (take limit s) of None \<Rightarrow> 0 | Some i \<Rightarrow> i + 1) = ls"
    and "line_start s ls" and "ls < start" and "10 \<notin> set (take (limit - ls) (drop ls s))"
proof (cases "mc_last mc 10 (take limit s)")
  case None
  then show ?thesis
    using that [of 0] last_none [of 10 "take limit s"] assms by (simp add: line_end_def line_start_def)
next
  case (Some i)
  note l = last_some [OF Some]
  have "s ! i = 10" using l by auto
  then have "s ! (Suc i - 1) = 10" by simp
  then have "Suc i \<noteq> start \<or> Suc limit = start" using assms unfolding line_end_def by metis
  then have "Suc i < start" using l assms by (auto simp: line_end_def)
  moreover have "drop (Suc i) (take limit s) = take (limit - Suc i) (drop (Suc i) s)" by (simp add: drop_take)
  ultimately show ?thesis
    using that [of "Suc i"] Some l assms \<open>s ! i = 10\<close> by (simp add: line_start_def line_end_def)
qed

end

lemma line_suffix:
  assumes "line_end s start limit" and "10 \<notin> set (take (limit - ls) (drop ls s))" and "ls \<le> m" and "m < start"
  shows "line_total (drop m s) = Suc (line_total (drop start s))"
proof -
  have "take (limit - m) (drop m s) = drop (m - ls) (take (limit - ls) (drop ls s))"
    using assms(3) by (simp add: drop_take)
  then have no: "10 \<notin> set (take (limit - m) (drop m s))" using assms(2) in_set_dropD by metis
  have one: "line_total (take (start - m) (drop m s)) = 1"
    using one_line [OF no _ assms(4)] assms(1) by (auto simp: line_end_def)
  have split: "drop m s = take (start - m) (drop m s) @ drop start s"
    using assms(4) append_take_drop_id [of "start - m" "drop m s"] by simp
  show ?thesis
  proof (cases "Suc limit = start")
    case True
    have "last (take (start - m) (drop m s)) = s ! limit"
      using True assms(1,4) by (subst last_conv_nth) (auto simp: line_end_def)
    then have "last (take (start - m) (drop m s)) = 10" using True assms(1) by (auto simp: line_end_def)
    then show ?thesis using line_total_append [of _ "drop start s"] one split by (metis add_Suc plus_1_eq_Suc)
  next
    case False
    then have "drop start s = []" using assms(1) by (auto simp: line_end_def)
    then show ?thesis using one split by simp
  qed
qed

lemma earlier_line:
  assumes "line_start s ls" and "0 < ls" and "m < ls"
  shows "line_total (drop ls s) < line_total (drop m s)"
proof -
  have split: "drop m s = take (ls - m) (drop m s) @ drop ls s"
    using assms(3) append_take_drop_id [of "ls - m" "drop m s"] by simp
  have ne: "take (ls - m) (drop m s) \<noteq> []" using assms by (auto simp: line_start_def)
  have "length (take (ls - m) (drop m s)) = ls - m" using assms by (auto simp: line_start_def)
  then have "last (take (ls - m) (drop m s)) = 10"
    using assms last_conv_nth [OF ne] by (auto simp: line_start_def)
  then show ?thesis using line_total_append [of _ "drop ls s"] line_total_pos [OF ne] split
    by (metis less_add_same_cancel2)
qed

lemma skip_continuation_exact:
  "\<exists>j \<le> length xs. skip_continuation xs = drop j xs \<and> (\<forall>i < j. is_cont (xs ! i)) \<and> (j < length xs \<longrightarrow> \<not> is_cont (xs ! j))"
proof (induction xs)
  case (Cons x xs)
  then obtain j where j: "j \<le> length xs" "skip_continuation xs = drop j xs" "\<forall>i < j. is_cont (xs ! i)"
    "j < length xs \<longrightarrow> \<not> is_cont (xs ! j)" by blast
  show ?case
  proof (cases "is_cont x")
    case True
    then show ?thesis using j by (intro exI [of _ "Suc j"]) (auto simp: less_Suc_eq_0_disj)
  qed (intro exI [of _ 0], simp)
qed simp

lemma skipped_chunk:
  assumes "a \<le> start" and "start \<le> length s"
  shows "\<exists>n. a \<le> n \<and> n \<le> start \<and> skip_continuation (take (start - a) (drop a s)) = take (start - n) (drop n s) \<and>
    (\<forall>i. a \<le> i \<and> i < n \<longrightarrow> is_cont (s ! i)) \<and> (n < start \<longrightarrow> \<not> is_cont (s ! n))"
proof -
  define xs where "xs = take (start - a) (drop a s)"
  have len: "length xs = start - a" using assms by (simp add: xs_def)
  have nth: "xs ! i = s ! (a + i)" if "i < start - a" for i using that assms by (simp add: xs_def)
  obtain j where j: "j \<le> length xs" "skip_continuation xs = drop j xs" "\<forall>i < j. is_cont (xs ! i)"
    "j < length xs \<longrightarrow> \<not> is_cont (xs ! j)" using skip_continuation_exact [of xs] by blast
  have "drop j xs = take (start - (a + j)) (drop (a + j) s)" by (simp add: xs_def drop_take add.commute)
  moreover have "is_cont (s ! i)" if "a \<le> i" "i < a + j" for i
  proof -
    have "i - a < j" using that by arith
    then show ?thesis using j(1,3) nth [of "i - a"] that(1) len by auto
  qed
  moreover have "a + j < start \<longrightarrow> \<not> is_cont (s ! (a + j))" using j(4) nth [of j] len by auto
  ultimately show ?thesis using j(1,2) len assms unfolding xs_def [symmetric] by (intro exI [of _ "a + j"]) auto
qed

context memchr_contract
begin

lemma tail_loop_exact:
  assumes valid: "utf8_valid s" and cut: "\<not> (line_total s \<le> L \<and> length s \<le> B)"
    and "line_end s start limit" and "length s - start \<le> B" and "line_total (drop start s) < L"
  shows "\<exists>lc n0 chunk r p n. tail_loop mc s L B (line_total (drop start s)) (length s - start) start limit = Some (lc, n0, chunk, r, p) \<and>
    (case chunk of None \<Rightarrow> n0 = n \<and> lc = line_total (drop n s) | Some c \<Rightarrow> c @ drop n0 s = drop n s) \<and>
    0 < n \<and> longest_tail s L B n \<and> r = cut_reason False (drop (n - 1) s) L \<and>
    (p \<longleftrightarrow> line_total (drop n s) = 1 \<and> s ! (n - 1) \<noteq> 10)"
  using assms(3-)
proof (induction start arbitrary: limit rule: less_induct)
  case (less start)
  define k where "k = line_total (drop start s)"
  obtain ls where ls: "(case mc_last mc 10 (take limit s) of None \<Rightarrow> 0 | Some i \<Rightarrow> i + 1) = ls"
    "line_start s ls" "ls < start" "10 \<notin> set (take (limit - ls) (drop ls s))"
    using previous_line [OF less.prems(1)] by metis
  have bounds: "start \<le> length s" using less.prems(1) by (simp add: line_end_def)
  have suf: "line_total (drop m s) = Suc k" if "ls \<le> m" "m < start" for m
    using line_suffix [OF less.prems(1) ls(4) that] by (simp add: k_def)
  have bytes: "length s - start + (start - ls) = length s - ls" using ls(3) bounds by simp
  note loop = tail_loop.simps [of mc s L B k "length s - start" start limit, unfolded ls(1) Let_def bytes]
  consider (bytes) "B < length s - ls" | (lines) "length s - ls \<le> B" "L \<le> Suc k" | (on) "length s - ls \<le> B" "Suc k < L"
    by linarith
  then show ?case
  proof cases
    case bytes
    define a where "a = length s - B"
    have a: "ls < a" "a \<le> start" "length s - a \<le> B" using bytes less.prems(2) bounds by (simp_all add: a_def)
    have rest: "B - (length s - start) = start - a" using a bounds less.prems(2) by (simp add: a_def)
    obtain n where n: "a \<le> n" "n \<le> start" "skip_continuation (take (start - a) (drop a s)) = take (start - n) (drop n s)"
      "\<forall>i. a \<le> i \<and> i < n \<longrightarrow> is_cont (s ! i)" "n < start \<longrightarrow> \<not> is_cont (s ! n)"
      using skipped_chunk [OF a(2) bounds] by metis
    have bs: "is_char_boundary s start"
      using less.prems(1) ascii_boundary [OF valid, of limit] by (auto simp: line_end_def is_char_boundary_def)
    have bn: "is_char_boundary s n" using n bs bounds by (cases "n = start") (auto simp: is_char_boundary_def)
    have chunk: "truncate_string_to_bytes_from_end (take (start - ls) (drop ls s)) (start - a) = take (start - n) (drop n s)"
    proof -
      have "is_char_boundary (drop n s) (start - n)" using bs n(2) bounds by (auto simp: is_char_boundary_def)
      then have "utf8_valid (take (start - n) (drop n s))" using boundary_valid valid bn by blast
      moreover have "drop (a - ls) (take (start - ls) (drop ls s)) = take (start - a) (drop a s)"
        using a by (simp add: drop_take)
      ultimately show ?thesis
        using a bounds ls(3) n(3) by (simp add: truncate_string_to_bytes_from_end_def Let_def utf8_valid_def)
    qed
    have fits: "longest_tail s L B n"
    proof -
      have "line_total (drop n s) \<le> L"
        using suf [of n] less.prems(3) n(1,2) a(1) by (cases "n = start") (auto simp: k_def)
      moreover have "n \<le> m" if "tail_fits s L B m" for m
      proof (rule ccontr)
        assume "\<not> n \<le> m"
        moreover have "a \<le> m" using that by (auto simp: tail_fits_def a_def)
        ultimately show False using that n(2,4) a(1) bounds by (auto simp: tail_fits_def is_char_boundary_def)
      qed
      ultimately show ?thesis using n(1,2) a(3) bn bounds by (auto simp: longest_tail_def tail_fits_def)
    qed
    have before: "ls \<le> n - 1" "n - 1 < start" "0 < n" using a(1) n(1,2) by simp_all
    have reason: "Some ByBytes = cut_reason False (drop (n - 1) s) L"
      using suf [OF before(1,2)] less.prems(3) by (simp add: cut_reason_def k_def)
    show ?thesis
    proof (cases "n < start")
      case True
      have "n - 1 < limit" using True before(3) less.prems(1) by (auto simp: line_end_def)
      then have "s ! (n - 1) \<in> set (take (limit - ls) (drop ls s))"
        using slice_member [OF before(1)] less.prems(1) by (auto simp: line_end_def)
      then have "s ! (n - 1) \<noteq> 10" using ls(4) by metis
      have "take (start - n) (drop n s) \<noteq> []" "a < start" using True n(1) bounds by auto
      then have "tail_loop mc s L B k (length s - start) start limit =
          Some (k, start, Some (take (start - n) (drop n s)), Some ByBytes, k = 0)"
        using loop bytes rest chunk by simp
      moreover have "take (start - n) (drop n s) @ drop start s = drop n s"
        using True append_take_drop_id [of "start - n" "drop n s"] by simp
      ultimately show ?thesis
        using fits before(3) reason \<open>s ! (n - 1) \<noteq> 10\<close> suf [of n] True a(1) n(1) unfolding k_def [symmetric] by auto
    next
      case False
      then have "n = start" using n(2) by simp
      then have "tail_loop mc s L B k (length s - start) start limit = Some (k, start, None, Some ByBytes, False)"
        using loop bytes rest chunk by simp
      moreover have "line_total (drop start s) = 1 \<longrightarrow> s ! (start - 1) = 10"
        using less.prems(1) by (auto simp: line_end_def)
      ultimately show ?thesis
        using fits before(3) reason \<open>n = start\<close> unfolding k_def by auto
    qed
  next
    case lines
    then have L: "L = Suc k" using less.prems(3) by (simp add: k_def)
    have ls0: "0 < ls" using cut lines L suf [of ls] ls(3) by (cases ls) auto
    have "longest_tail s L B ls"
      using lines L suf [of ls] ls(3) bounds line_start_boundary [OF valid ls(2)] earlier_line [OF ls(2) ls0]
      by (force simp: longest_tail_def tail_fits_def not_less [symmetric])
    then show ?thesis
      using loop lines L ls0 ls(2,3) suf [of ls] earlier_line [OF ls(2) ls0, of "ls - 1"]
      unfolding k_def [symmetric] by (simp add: cut_reason_def line_start_def)
  next
    case on
    have ls0: "0 < ls" using cut on suf [of ls] ls(3) by (cases ls) auto
    have "line_end s ls (ls - 1)" using ls0 ls(2) by (auto simp: line_end_def line_start_def)
    note IH = less.IH [OF ls(3) this on(1)]
    show ?thesis using IH suf [of ls] ls(3) on loop ls0 unfolding k_def [symmetric] by simp
  qed
qed

lemma truncate_tail_cut:
  assumes valid: "utf8_valid s"
  shows "\<exists>res n. truncate_tail mc s L B = Some res \<and> tr_content res = drop n s \<and> longest_tail s L B n \<and>
    tr_output_bytes res = length s - n \<and> tr_output_lines res = line_total (drop n s) \<and>
    tr_total_bytes res = length s \<and> tr_total_lines res = line_total s \<and>
    tr_truncated res = (0 < n) \<and> tr_truncated_by res = cut_reason (n = 0) (drop (n - 1) s) L \<and>
    tr_last_line_partial res = (0 < n \<and> line_total (drop n s) = 1 \<and> s ! (n - 1) \<noteq> 10)"
proof -
  consider (none) "L = 0" | (all) "0 < L" "line_total s \<le> L" "length s \<le> B"
    | (cut) "0 < L" "\<not> (line_total s \<le> L \<and> length s \<le> B)" by linarith
  then show ?thesis
  proof cases
    case none
    have "longest_tail s L B (length s)"
      using none line_total_pos [of "drop _ s"]
      by (fastforce simp: longest_tail_def tail_fits_def is_char_boundary_def)
    moreover have "0 < line_total (drop (length s - 1) s)" if "s \<noteq> []"
      using that by (intro line_total_pos) (simp add: not_le)
    ultimately show ?thesis
      using none by (intro exI [of _ "the (truncate_tail mc s L B)"] exI [of _ "length s"])
        (auto simp: truncate_tail_def Let_def cut_reason_def)
  next
    case all
    then show ?thesis
      by (intro exI [of _ "the (truncate_tail mc s L B)"] exI [of _ 0])
        (auto simp: truncate_tail_def Let_def cut_reason_def longest_tail_def tail_fits_def is_char_boundary_def)
  next
    case cut
    define limit where "limit = (if ends_with_newline s then length s - 1 else length s)"
    have "s \<noteq> []" using cut by auto
    then have "line_end s (length s) limit"
      by (auto simp: line_end_def limit_def ends_with_newline_def last_conv_nth)
    from tail_loop_exact [OF valid cut(2) this] cut(1) obtain lc n0 chunk r p n where
      loop: "tail_loop mc s L B 0 0 (length s) limit = Some (lc, n0, chunk, r, p)"
      and res: "case chunk of None \<Rightarrow> n0 = n \<and> lc = line_total (drop n s) | Some c \<Rightarrow> c @ drop n0 s = drop n s"
        "0 < n" "longest_tail s L B n" "r = cut_reason False (drop (n - 1) s) L"
        "p \<longleftrightarrow> line_total (drop n s) = 1 \<and> s ! (n - 1) \<noteq> 10"
      by auto
    have r: "r \<noteq> None" using res(4) by (simp add: cut_reason_def)
    have out: "(case chunk of Some c \<Rightarrow> c @ drop n0 s | None \<Rightarrow> drop n0 s) = drop n s"
      "(case chunk of Some c \<Rightarrow> line_total (case chunk of Some c \<Rightarrow> c @ drop n0 s | None \<Rightarrow> drop n0 s) | None \<Rightarrow> lc)
        = line_total (drop n s)"
      using res(1) by (auto split: option.splits)
    show ?thesis
      by (intro exI [of _ "the (truncate_tail mc s L B)"] exI [of _ n])
        (use cut loop res(2-5) r out in \<open>simp add: truncate_tail_def Let_def limit_def [symmetric] cut_reason_def
            cong: option.case_cong\<close>)
  qed
qed

end

section \<open>Lines written one by one\<close>

definition longest_cut :: "bytes \<Rightarrow> nat \<Rightarrow> nat \<Rightarrow> bool" where
  "longest_cut s B n \<longleftrightarrow> n \<le> length s \<and> n \<le> B \<and> is_char_boundary s n \<and>
     (\<forall>m. m \<le> length s \<and> m \<le> B \<and> is_char_boundary s m \<longrightarrow> m \<le> n)"

lemma join_lines_snoc: "join_lines (ls @ [l]) = (if ls = [] then l else join_lines ls @ 10 # l)"
  by (induction ls rule: join_lines.induct) auto

lemma join_lines_valid: "list_all utf8_valid ls \<Longrightarrow> utf8_valid (join_lines ls)"
proof (induction ls rule: join_lines.induct)
  case (3 l m ls)
  have "utf8_valid [10]" by (rule ascii_valid) simp
  then have "utf8_valid ([10] @ join_lines (m # ls))" using 3 by (intro utf8_valid_append) auto
  then show ?case using 3 by (auto intro: utf8_valid_append)
qed auto

lemma line_total_length: "line_total s \<le> length s"
  by (induction s) (auto simp: line_total_Cons)

lemma longest_cut_head: "length s \<le> L \<Longrightarrow> longest_head s L B n \<longleftrightarrow> longest_cut s B n"
proof -
  assume "length s \<le> L"
  then have "line_total (take m s) \<le> L" for m
    using line_total_length [of "take m s"] by (simp add: min_def split: if_splits)
  then show ?thesis by (auto simp: longest_head_def head_fits_def longest_cut_def)
qed

lemma longest_cut_unique: "longest_cut s B n \<Longrightarrow> longest_cut s B m \<Longrightarrow> n = m"
  by (auto simp: longest_cut_def intro: antisym)

lemma longest_cut_whole: "length s \<le> B \<Longrightarrow> longest_cut s B (length s)"
  by (simp add: longest_cut_def is_char_boundary_def)

lemma longest_cut_extend:
  assumes "longest_cut s B n" and "n < length s \<or> B = 0"
  shows "longest_cut (s @ t) B n"
proof -
  have "m \<le> n" if "m \<le> B" "is_char_boundary (s @ t) m" for m
  proof (cases "m < length s")
    case True
    then have "is_char_boundary s m" using that(2) by (auto simp: is_char_boundary_def nth_append)
    then show ?thesis using assms(1) that(1) True by (auto simp: longest_cut_def)
  next
    case False
    moreover have "is_char_boundary s (length s)" by (simp add: is_char_boundary_def)
    ultimately show ?thesis using assms that(1) unfolding longest_cut_def by fastforce
  qed
  moreover have "is_char_boundary (s @ t) n"
    using assms by (auto simp: longest_cut_def is_char_boundary_def nth_append)
  ultimately show ?thesis using assms(1) by (auto simp: longest_cut_def)
qed

lemma longest_cut_inside:
  assumes "utf8_valid l" and "length p \<le> B" and "B - length p < length l"
  shows "longest_cut (p @ l) B (length p + utf8_prefix_len l (B - length p))"
proof -
  define v where "v = utf8_prefix_len l (B - length p)"
  have zero: "is_char_boundary l 0" by (simp add: is_char_boundary_def)
  have v: "v \<le> B - length p" "is_char_boundary l v" "\<forall>m. v < m \<and> m \<le> B - length p \<longrightarrow> \<not> is_char_boundary l m"
    using boundary_loop_exact [of 0 "B - length p" l] assms(3) zero by (simp_all add: v_def utf8_prefix_len_def)
  have "m \<le> length p + v" if "m \<le> B" "is_char_boundary (p @ l) m" for m
  proof (rule ccontr)
    assume m: "\<not> m \<le> length p + v"
    then have "is_char_boundary l (m - length p)" using boundary_unshift [OF that(2)] by simp
    moreover have "v < m - length p" "m - length p \<le> B - length p" using m that(1) by auto
    ultimately show False using v(3) by blast
  qed
  then show ?thesis
    using v(1,2) assms boundary_shift [OF assms(1) v(2), of p] unfolding v_def [symmetric] by (auto simp: longest_cut_def)
qed

text \<open>What the writer holds after some lines.\<close>

definition writer_holds :: "usize \<Rightarrow> bytes list \<Rightarrow> line_writer \<Rightarrow> bool" where
  "writer_holds B ls w \<longleftrightarrow> lw_max_bytes w = B \<and> (0 < lw_total_lines w \<longleftrightarrow> ls \<noteq> []) \<and>
     lw_total_bytes w = min u64_max (length (join_lines ls)) \<and>
     (if lw_truncated w
      then \<exists>n. lw_content w = take n (join_lines ls) \<and> longest_cut (join_lines ls) B n \<and> (n < length (join_lines ls) \<or> B = 0)
      else lw_content w = join_lines ls \<and> length (join_lines ls) \<le> B)"

lemma sat_add64_fits: "r < u64_max \<Longrightarrow> sat_add64 a b \<le> r \<longleftrightarrow> a + b \<le> r"
  by (auto simp: sat_add64_def)

lemma writer_push_holds:
  assumes "B < u64_max" and "utf8_valid l" and "writer_holds B ls w"
  shows "writer_holds B (ls @ [l]) (writer_push l w)"
proof -
  define sep :: bytes where "sep = (if ls = [] then [] else [10])"
  define p where "p = join_lines ls @ sep"
  have next_text: "join_lines (ls @ [l]) = p @ l" by (simp add: join_lines_snoc p_def sep_def)
  have idx: "0 < lw_total_lines w \<longleftrightarrow> ls \<noteq> []" and mb: "lw_max_bytes w = B"
    using assms(3) by (simp_all add: writer_holds_def)
  have lines: "0 < lw_total_lines (writer_push l w)"
    by (simp add: writer_push_def Let_def sat_add64_def u64_max_def)
  have total: "lw_total_bytes (writer_push l w) = min u64_max (length (p @ l))"
  proof -
    have "lw_total_bytes (writer_push l w) =
        sat_add64 (lw_total_bytes w) (sat_add64 (if 0 < lw_total_lines w then 1 else 0) (length l))"
      by (simp add: writer_push_def Let_def)
    then show ?thesis using assms(3) idx by (auto simp: writer_holds_def sat_add64_def p_def sep_def min_def)
  qed
  have max: "lw_max_bytes (writer_push l w) = B" using mb by (simp add: writer_push_def Let_def)
  have frame: "writer_holds B (ls @ [l]) (writer_push l w) \<longleftrightarrow>
    (if lw_truncated (writer_push l w)
     then \<exists>n. lw_content (writer_push l w) = take n (p @ l) \<and> longest_cut (p @ l) B n \<and> (n < length (p @ l) \<or> B = 0)
     else lw_content (writer_push l w) = p @ l \<and> length (p @ l) \<le> B)"
    using lines total max by (simp add: writer_holds_def next_text)
  have old: "lw_content w = join_lines ls" "length (join_lines ls) \<le> B" if "\<not> lw_truncated w"
    using assms(3) that by (simp_all add: writer_holds_def)
  have piece: "sat_add64 c (length l) \<le> B - d \<longleftrightarrow> c + length l \<le> B - d" for c d
    using assms(1) by (intro sat_add64_fits) simp
  consider (was) "lw_truncated w" | (none) "\<not> lw_truncated w" "B = 0"
    | (fits) "\<not> lw_truncated w" "0 < B" "length (p @ l) \<le> B"
    | (full) "\<not> lw_truncated w" "0 < B" "B < length p"
    | (inside) "\<not> lw_truncated w" "0 < B" "length p \<le> B" "B < length (p @ l)" by linarith
  then show ?thesis
  proof cases
    case was
    then obtain n where n: "lw_content w = take n (join_lines ls)" "longest_cut (join_lines ls) B n" "n < length (join_lines ls) \<or> B = 0"
      using assms(3) by (auto simp: writer_holds_def)
    have "lw_content (writer_push l w) = lw_content w" "lw_truncated (writer_push l w)"
      using was by (simp_all add: writer_push_def Let_def)
    moreover have "longest_cut (p @ l) B n" using longest_cut_extend [OF n(2,3), of "sep @ l"] by (simp add: p_def)
    moreover have "n \<le> length (join_lines ls)" using n(2) by (simp add: longest_cut_def)
    ultimately show ?thesis using frame n by (auto simp: p_def intro!: exI [of _ n])
  next
    case none
    then show ?thesis
      using frame old mb longest_cut_extend [of "[]" 0 0 "p @ l"]
      by (simp add: writer_push_def Let_def longest_cut_def is_char_boundary_def)
  next
    case fits
    then have "lw_content (writer_push l w) = p @ l" "\<not> lw_truncated (writer_push l w)"
      using old idx mb piece by (auto simp: writer_push_def Let_def p_def sep_def)
    then show ?thesis using frame fits by simp
  next
    case full
    then have sep: "ls \<noteq> []" "B = length (join_lines ls)" using old by (auto simp: p_def sep_def split: if_splits)
    then have "lw_content (writer_push l w) = join_lines ls" "lw_truncated (writer_push l w)"
      using old idx mb piece full by (auto simp: writer_push_def Let_def sat_add64_def)
    moreover have "longest_cut (p @ l) B B"
      using sep by (simp add: longest_cut_def is_char_boundary_def p_def sep_def nth_append is_cont_def)
    ultimately show ?thesis using frame sep by (auto simp: p_def sep_def intro!: exI [of _ B])
  next
    case inside
    define v where "v = utf8_prefix_len l (B - length p)"
    have "lw_content (writer_push l w) = p @ take v l" "lw_truncated (writer_push l w)"
      using old idx mb piece inside by (auto simp: writer_push_def Let_def p_def sep_def v_def)
    moreover have cut: "longest_cut (p @ l) B (length p + v)"
      using longest_cut_inside [OF assms(2), of p B] inside by (simp add: v_def)
    moreover have "length p + v < length (p @ l)" using cut inside by (simp add: longest_cut_def)
    ultimately show ?thesis using frame by (auto intro!: exI [of _ "length p + v"])
  qed
qed

lemma writer_new_holds: "writer_holds B [] (writer_new B)"
  by (simp add: writer_holds_def writer_new_def)

lemma writer_run:
  assumes "B < u64_max" and "list_all utf8_valid ls"
  shows "writer_holds B ls (fold writer_push ls (writer_new B))"
  using assms(2) by (induction ls rule: rev_induct) (simp_all add: writer_new_holds writer_push_holds [OF assms(1)])

section \<open>A search that keeps the contract\<close>

primrec first_index :: "nat \<Rightarrow> bytes \<Rightarrow> nat option" where
  "first_index b [] = None"
| "first_index b (x # xs) = (if x = b then Some 0 else map_option Suc (first_index b xs))"

definition last_index :: "nat \<Rightarrow> bytes \<Rightarrow> nat option" where
  "last_index b s = map_option (\<lambda>i. length s - 1 - i) (first_index b (rev s))"

definition linear_memchr :: memchr where
  "linear_memchr = \<lparr>mc_first = first_index, mc_last = last_index, mc_all = (\<lambda>b s. filter (\<lambda>i. s ! i = b) [0..<length s])\<rparr>"

lemma first_index_none: "first_index b s = None \<longleftrightarrow> b \<notin> set s"
  by (induction s) auto

lemma first_index_some: "first_index b s = Some i \<Longrightarrow> i < length s \<and> s ! i = b \<and> b \<notin> set (take i s)"
  by (induction s arbitrary: i) (auto split: if_splits)

lemma last_index_some:
  assumes "last_index b s = Some i"
  shows "i < length s \<and> s ! i = b \<and> b \<notin> set (drop (Suc i) s)"
proof -
  obtain j where j: "first_index b (rev s) = Some j" "i = length s - 1 - j" using assms by (auto simp: last_index_def)
  note f = first_index_some [OF j(1)]
  have "j < length s" using f by simp
  then have "Suc i = length s - j" using j(2) by simp
  then have "drop (Suc i) s = rev (take j (rev s))" by (simp add: take_rev)
  moreover have "rev s ! j = s ! i" using \<open>j < length s\<close> j(2) by (simp add: rev_nth)
  ultimately show ?thesis using f j(2) \<open>j < length s\<close> by auto
qed

interpretation linear: memchr_contract linear_memchr
proof
  show "mc_last linear_memchr b s = None \<longleftrightarrow> b \<notin> set s" for b s
    by (simp add: linear_memchr_def last_index_def first_index_none)
  show "mc_last linear_memchr b s = Some i \<Longrightarrow> i < length s \<and> s ! i = b \<and> b \<notin> set (drop (Suc i) s)" for b s i
    by (rule last_index_some) (simp add: linear_memchr_def)
  show "mc_first linear_memchr b s = Some i \<Longrightarrow> i < length s \<and> s ! i = b \<and> b \<notin> set (take i s)" for b s i
    by (rule first_index_some) (simp add: linear_memchr_def)
qed (simp_all add: linear_memchr_def first_index_none)

section \<open>Properties\<close>

text \<open>
  C36: For every valid text and every limit, truncating the head keeps exactly the longest prefix
  that has at most the allowed lines and bytes and does not cut a character. It is valid text, the
  counts that are reported are those of the texts, and the reported reason is the number of lines
  exactly when one more byte would begin a line too many. The last line is reported as partial
  exactly when the cut lies strictly inside it.
\<close>

theorem truncate_head_longest_prefix:
  assumes "memchr_contract mc" and "utf8_valid s"
  shows "let r = truncate_head mc s L B; n = tr_output_bytes r in
    tr_content r = take n s \<and> utf8_valid (tr_content r) \<and> longest_head s L B n \<and>
    tr_output_lines r = line_total (take n s) \<and> tr_total_bytes r = length s \<and> tr_total_lines r = line_total s \<and>
    tr_truncated r = (n < length s) \<and> tr_truncated_by r = cut_reason (n = length s) (take (Suc n) s) L \<and>
    (0 < n \<or> \<not> tr_first_line_exceeds_limit r \<longrightarrow>
      tr_last_line_partial r = (0 < n \<and> n < length s \<and> s ! (n - 1) \<noteq> 10 \<and> s ! n \<noteq> 10)) \<and>
    tr_first_line_exceeds_limit r = (0 < L \<and> s \<noteq> [] \<and> (B = 0 \<or> B < length (takeWhile (\<lambda>b. b \<noteq> 10) s)))"
proof (rule exE [OF memchr_contract.truncate_head_cut [OF assms refl, of L B]], goal_cases)
  case (1 n)
  then have n: "tr_output_bytes (truncate_head mc s L B) = n" "is_char_boundary s n"
    by (simp_all add: longest_head_def head_fits_def)
  then show ?case unfolding Let_def n(1) using boundary_valid [OF assms(2) n(2)] 1 by simp
qed

theorem truncate_head_longest_prefix_witness:
  "memchr_contract linear_memchr \<and> utf8_valid [97, 10, 195, 169, 98] \<and>
   longest_head [97, 10, 195, 169, 98] 5 3 2 \<and>
   tr_truncated_by (truncate_head linear_memchr [97, 10, 195, 169, 98] 5 3) = Some ByBytes"
proof -
  have v: "utf8_valid [97, 10, 195, 169, 98]" by code_simp
  have n: "tr_output_bytes (truncate_head linear_memchr [97, 10, 195, 169, 98] 5 3) = 2" by code_simp
  show ?thesis
    using truncate_head_longest_prefix [OF linear.memchr_contract_axioms v, of 5 3] v linear.memchr_contract_axioms
    unfolding Let_def n by (simp add: cut_reason_def line_total_Cons)
qed

text \<open>
  C37: Truncating the tail always returns, and keeps exactly the longest suffix of the text that has
  at most the allowed lines and bytes and does not begin inside a character; the counts and the
  reason are reported as for the head, and the last line is reported as partial exactly when the
  suffix lies strictly inside it.
\<close>

theorem truncate_tail_longest_suffix:
  assumes "memchr_contract mc" and "utf8_valid s"
  shows "\<exists>r n. truncate_tail mc s L B = Some r \<and>
    tr_content r = drop n s \<and> utf8_valid (tr_content r) \<and> longest_tail s L B n \<and>
    tr_output_bytes r = length s - n \<and> tr_output_lines r = line_total (drop n s) \<and>
    tr_total_bytes r = length s \<and> tr_total_lines r = line_total s \<and>
    tr_truncated r = (0 < n) \<and> tr_truncated_by r = cut_reason (n = 0) (drop (n - 1) s) L \<and>
    tr_last_line_partial r = (0 < n \<and> line_total (drop n s) = 1 \<and> s ! (n - 1) \<noteq> 10)"
proof -
  obtain r n where n: "truncate_tail mc s L B = Some r" "longest_tail s L B n" "tr_content r = drop n s"
    and rest: "tr_output_bytes r = length s - n \<and> tr_output_lines r = line_total (drop n s) \<and>
      tr_total_bytes r = length s \<and> tr_total_lines r = line_total s \<and>
      tr_truncated r = (0 < n) \<and> tr_truncated_by r = cut_reason (n = 0) (drop (n - 1) s) L \<and>
      tr_last_line_partial r = (0 < n \<and> line_total (drop n s) = 1 \<and> s ! (n - 1) \<noteq> 10)"
    using memchr_contract.truncate_tail_cut [OF assms, of L B] by blast
  have "utf8_valid (drop n s)"
    using boundary_valid [OF assms(2)] n(2) by (simp add: longest_tail_def tail_fits_def)
  then show ?thesis using n rest by metis
qed

theorem truncate_tail_longest_suffix_witness:
  "memchr_contract linear_memchr \<and> utf8_valid [97, 10, 195, 169, 98] \<and>
   (\<exists>r n. truncate_tail linear_memchr [97, 10, 195, 169, 98] 5 2 = Some r \<and> tr_content r = [98] \<and>
      tr_content r = drop n [97, 10, 195, 169, 98] \<and> longest_tail [97, 10, 195, 169, 98] 5 2 n)"
proof -
  have v: "utf8_valid [97, 10, 195, 169, 98]" by code_simp
  have c: "map_option tr_content (truncate_tail linear_memchr [97, 10, 195, 169, 98] 5 2) = Some [98]" by code_simp
  show ?thesis
    using truncate_tail_longest_suffix [OF linear.memchr_contract_axioms v, of 5 2] v linear.memchr_contract_axioms c
    by auto
qed

text \<open>
  Writing lines one by one gives what truncating the head of the joined lines gives: the same
  content and byte counts and, for a limit above zero, the same verdict and reason.
\<close>

theorem line_writer_is_truncate_head:
  assumes "memchr_contract mc" and "list_all utf8_valid ls" and "B < u64_max" and "length (join_lines ls) \<le> u64_max"
  shows "let r = writer_finish (fold writer_push ls (writer_new B)); h = truncate_head mc (join_lines ls) u64_max B in
    tr_content r = tr_content h \<and> tr_output_bytes r = tr_output_bytes h \<and> tr_total_bytes r = tr_total_bytes h \<and>
    (0 < B \<longrightarrow> tr_truncated r = tr_truncated h \<and> tr_truncated_by r = tr_truncated_by h)"
proof -
  define w where "w = fold writer_push ls (writer_new B)"
  note holds = writer_run [OF assms(3,2), folded w_def]
  note valid = join_lines_valid [OF assms(2)]
  obtain n where n: "tr_content (truncate_head mc (join_lines ls) u64_max B) = take n (join_lines ls)"
      "longest_head (join_lines ls) u64_max B n" "tr_output_bytes (truncate_head mc (join_lines ls) u64_max B) = n"
      "tr_total_bytes (truncate_head mc (join_lines ls) u64_max B) = length (join_lines ls)"
      "tr_truncated (truncate_head mc (join_lines ls) u64_max B) = (n < length (join_lines ls))"
      "tr_truncated_by (truncate_head mc (join_lines ls) u64_max B) =
         cut_reason (n = length (join_lines ls)) (take (Suc n) (join_lines ls)) u64_max"
    using memchr_contract.truncate_head_cut [OF assms(1) valid refl, of u64_max B] by blast
  have cut: "longest_cut (join_lines ls) B n" using n(2) longest_cut_head [OF assms(4)] by simp
  then have le: "n \<le> length (join_lines ls)" by (simp add: longest_cut_def)
  have few: "line_total (take (Suc n) (join_lines ls)) \<le> u64_max"
    using line_total_length [of "take (Suc n) (join_lines ls)"] assms(4) by simp
  have "lw_content w = take n (join_lines ls) \<and> (0 < B \<longrightarrow> lw_truncated w = (n < length (join_lines ls)))"
  proof (cases "lw_truncated w")
    case True
    then obtain m where m: "lw_content w = take m (join_lines ls)" "longest_cut (join_lines ls) B m" "m < length (join_lines ls) \<or> B = 0"
      using holds by (auto simp: writer_holds_def)
    then show ?thesis using longest_cut_unique [OF cut m(2)] True by auto
  next
    case False
    then have "length (join_lines ls) \<le> B" "lw_content w = join_lines ls" using holds by (simp_all add: writer_holds_def)
    then show ?thesis using longest_cut_unique [OF cut longest_cut_whole] False by simp
  qed
  moreover have "lw_total_bytes w = length (join_lines ls)" using holds assms(4) by (simp add: writer_holds_def)
  ultimately show ?thesis
    using n le few unfolding Let_def w_def [symmetric] by (auto simp: writer_finish_def cut_reason_def)
qed

theorem line_writer_is_truncate_head_witness:
  "tr_content (writer_finish (fold writer_push [[97], [195, 169], [98]] (writer_new 3))) =
   tr_content (truncate_head linear_memchr [97, 10, 195, 169, 10, 98] u64_max 3)"
proof -
  have v: "list_all utf8_valid [[97], [195, 169], [98]]" by code_simp
  have "3 < u64_max" "length (join_lines [[97], [195, 169], [98]]) \<le> u64_max" by (simp_all add: u64_max_def)
  from line_writer_is_truncate_head [OF linear.memchr_contract_axioms v this] show ?thesis by (simp add: Let_def)
qed

end
