(* ===== verification/Agent_Queue.thy ===== *)
theory Agent_Queue
  imports Session_Model
begin

text \<open>
  What the agent (\<open>src/src/agent.rs\<close>) decides about the length of a run and about the messages
  that wait for it: the limit of tool rounds and the warning before it, and \<open>MessageQueue\<close>, the
  two bounded queues of steering and follow-up messages with their delivery modes. The locale
  \<open>bounded_fifo\<close> is the contract the run loop relies on; both queues are interpreted in it.
\<close>

section \<open>The limit of tool rounds\<close>

definition MAX_TOOL_ITERATIONS_DEFAULT :: usize where "MAX_TOOL_ITERATIONS_DEFAULT = 50"
definition MAX_TOOL_ITERATIONS_CEILING :: usize where "MAX_TOOL_ITERATIONS_CEILING = 1000"
definition MAX_PAUSE_TURN_CONTINUATIONS :: usize where "MAX_PAUSE_TURN_CONTINUATIONS = 3"
definition ITERATION_WARN_NUMERATOR :: usize where "ITERATION_WARN_NUMERATOR = 4"
definition ITERATION_WARN_DENOMINATOR :: usize where "ITERATION_WARN_DENOMINATOR = 5"
definition ITERATION_WARN_MIN_CAP :: usize where "ITERATION_WARN_MIN_CAP = 5"

text \<open>
  \<open>str::parse::<usize>\<close>: an optional plus sign and at least one decimal digit, refused above the
  largest value.
\<close>

definition is_digit :: "uchar \<Rightarrow> bool" where
  "is_digit c \<longleftrightarrow> 48 \<le> c \<and> c \<le> 57"

definition digits_value :: "ustr \<Rightarrow> nat" where
  "digits_value s = fold (\<lambda>c n. 10 * n + (c - 48)) s 0"

definition parse_usize :: "ustr \<Rightarrow> usize option" where
  "parse_usize s =
     (let digits = (case s of [] \<Rightarrow> [] | c # rest \<Rightarrow> if c = 43 then rest else s)
      in if digits = [] \<or> \<not> list_all is_digit digits \<or> digits_value digits > u64_max then None
         else Some (digits_value digits))"

definition resolve_max_tool_iterations :: "ustr option \<Rightarrow> usize" where
  "resolve_max_tool_iterations raw_override =
     (case raw_override of
        None \<Rightarrow> MAX_TOOL_ITERATIONS_DEFAULT
      | Some text \<Rightarrow>
          (let raw = trim text
           in if raw = [] then MAX_TOOL_ITERATIONS_DEFAULT
              else (case parse_usize raw of
                      None \<Rightarrow> MAX_TOOL_ITERATIONS_DEFAULT
                    | Some n \<Rightarrow>
                        if n = 0 then MAX_TOOL_ITERATIONS_DEFAULT
                        else if n > MAX_TOOL_ITERATIONS_CEILING then MAX_TOOL_ITERATIONS_CEILING
                        else n)))"

definition clamp_max_tool_iterations :: "usize option \<Rightarrow> usize" where
  "clamp_max_tool_iterations value =
     (case value of
        None \<Rightarrow> MAX_TOOL_ITERATIONS_DEFAULT
      | Some n \<Rightarrow>
          if n = 0 then MAX_TOOL_ITERATIONS_DEFAULT
          else if n > MAX_TOOL_ITERATIONS_CEILING then MAX_TOOL_ITERATIONS_CEILING
          else n)"

definition should_warn_at_iteration_threshold :: "usize \<Rightarrow> usize \<Rightarrow> bool" where
  "should_warn_at_iteration_threshold current max_iterations \<longleftrightarrow>
     max_iterations \<ge> ITERATION_WARN_MIN_CAP \<and>
     current \<ge> sat_mul64 max_iterations ITERATION_WARN_NUMERATOR div ITERATION_WARN_DENOMINATOR"

definition iteration_handoff_steering_text :: "usize \<Rightarrow> usize \<Rightarrow> ustr" where
  "iteration_handoff_steering_text current max_iterations =
     lit ''[runtime] Tool-iteration budget at >=80% (used '' @ decimal current @ lit '' of '' @
     decimal max_iterations @
     lit ''). Per the iteration-aware-handoff protocol in your spec, begin graceful handoff now: '' @
     lit ''commit current work, post a one-line status note, and write an incomplete-handoff envelope '' @
     lit ''with what's done / what remains / next-agent starting position. '' @
     lit ''Do NOT compress remaining work into the last few iterations.''"

section \<open>The message queue\<close>

datatype queue_mode = All | OneAtATime

datatype queue_kind = Steering | FollowUp

record queued_message =
  qm_seq :: u64
  qm_enqueued_at :: int
  qm_message :: message

record message_queue =
  mq_steering :: "queued_message list"
  mq_follow_up :: "queued_message list"
  mq_steering_mode :: queue_mode
  mq_follow_up_mode :: queue_mode
  mq_next_seq :: u64

definition MAX_STEERING_QUEUE_SIZE :: usize where "MAX_STEERING_QUEUE_SIZE = 100"
definition MAX_FOLLOW_UP_QUEUE_SIZE :: usize where "MAX_FOLLOW_UP_QUEUE_SIZE = 100"

definition queue_new :: "queue_mode \<Rightarrow> queue_mode \<Rightarrow> message_queue" where
  "queue_new steering_mode follow_up_mode =
     \<lparr>mq_steering = [], mq_follow_up = [], mq_steering_mode = steering_mode,
      mq_follow_up_mode = follow_up_mode, mq_next_seq = 0\<rparr>"

definition set_modes :: "queue_mode \<Rightarrow> queue_mode \<Rightarrow> message_queue \<Rightarrow> message_queue" where
  "set_modes steering_mode follow_up_mode q =
     q\<lparr>mq_steering_mode := steering_mode, mq_follow_up_mode := follow_up_mode\<rparr>"

definition pending_count :: "message_queue \<Rightarrow> usize" where
  "pending_count q = length (mq_steering q) + length (mq_follow_up q)"

text \<open>\<open>now\<close> is the clock, read when the message is queued; the result is the message's number.\<close>

definition push :: "queue_kind \<Rightarrow> int \<Rightarrow> message \<Rightarrow> message_queue \<Rightarrow> u64 \<times> message_queue" where
  "push kind now m q =
     (let seq = mq_next_seq q;
          q1 = q\<lparr>mq_next_seq := sat_add64 (mq_next_seq q) 1\<rparr>;
          e = \<lparr>qm_seq = seq, qm_enqueued_at = now, qm_message = m\<rparr>
      in (seq,
          case kind of
            Steering \<Rightarrow>
              q1\<lparr>mq_steering :=
                   (if length (mq_steering q1) \<ge> MAX_STEERING_QUEUE_SIZE then tl (mq_steering q1)
                    else mq_steering q1) @ [e]\<rparr>
          | FollowUp \<Rightarrow>
              q1\<lparr>mq_follow_up :=
                   (if length (mq_follow_up q1) \<ge> MAX_FOLLOW_UP_QUEUE_SIZE then tl (mq_follow_up q1)
                    else mq_follow_up q1) @ [e]\<rparr>))"

definition push_steering :: "int \<Rightarrow> message \<Rightarrow> message_queue \<Rightarrow> message_queue" where
  "push_steering now m q = snd (push Steering now m q)"

definition push_follow_up :: "int \<Rightarrow> message \<Rightarrow> message_queue \<Rightarrow> message_queue" where
  "push_follow_up now m q = snd (push FollowUp now m q)"

definition taken :: "queue_mode \<Rightarrow> 'a list \<Rightarrow> 'a list" where
  "taken mode entries = (case mode of All \<Rightarrow> entries | OneAtATime \<Rightarrow> take 1 entries)"

definition left_over :: "queue_mode \<Rightarrow> 'a list \<Rightarrow> 'a list" where
  "left_over mode entries = (case mode of All \<Rightarrow> [] | OneAtATime \<Rightarrow> drop 1 entries)"

definition pop_kind :: "queue_kind \<Rightarrow> message_queue \<Rightarrow> message list \<times> message_queue" where
  "pop_kind kind q =
     (case kind of
        Steering \<Rightarrow>
          (map qm_message (taken (mq_steering_mode q) (mq_steering q)),
           q\<lparr>mq_steering := left_over (mq_steering_mode q) (mq_steering q)\<rparr>)
      | FollowUp \<Rightarrow>
          (map qm_message (taken (mq_follow_up_mode q) (mq_follow_up q)),
           q\<lparr>mq_follow_up := left_over (mq_follow_up_mode q) (mq_follow_up q)\<rparr>))"

definition pop_steering :: "message_queue \<Rightarrow> message list \<times> message_queue" where
  "pop_steering q = pop_kind Steering q"

definition pop_follow_up :: "message_queue \<Rightarrow> message list \<times> message_queue" where
  "pop_follow_up q = pop_kind FollowUp q"

lemma taken_left_over [simp]: "taken mode xs @ left_over mode xs = xs"
  by (cases mode) (simp_all add: taken_def left_over_def)

lemma taken_Nil [simp]: "taken mode xs = [] \<longleftrightarrow> xs = []"
  by (cases mode; cases xs) (simp_all add: taken_def)

lemma taken_map: "map f (taken mode xs) = taken mode (map f xs)"
  by (cases mode) (simp_all add: taken_def take_map)

lemma left_over_map: "map f (left_over mode xs) = left_over mode (map f xs)"
  by (cases mode) (simp_all add: left_over_def drop_map)

lemma length_left_over: "length (left_over mode xs) = length xs - length (taken mode xs)"
  by (cases mode) (simp_all add: taken_def left_over_def)

section \<open>A bounded queue that drops its oldest element\<close>

text \<open>
  The contract of one of the two queues: \<open>waiting\<close> is what it holds, oldest first, \<open>cap\<close> its
  bound. Adding to a full queue gives up the oldest element; taking removes a prefix, which is
  empty only when nothing waits.
\<close>

definition keep_last :: "nat \<Rightarrow> 'a list \<Rightarrow> 'a list" where
  "keep_last n xs = drop (length xs - n) xs"

lemma keep_last_short [simp]: "length xs \<le> n \<Longrightarrow> keep_last n xs = xs"
  by (simp add: keep_last_def)

lemma length_keep_last [simp]: "length (keep_last n xs) = min n (length xs)"
  by (simp add: keep_last_def)

lemma keep_last_append: "keep_last n (keep_last n xs @ ys) = keep_last n (xs @ ys)"
  by (cases "length xs \<le> n") (simp_all add: keep_last_def add.commute)

locale bounded_fifo =
  fixes waiting :: "'q \<Rightarrow> 'm list"
    and add :: "'t \<Rightarrow> 'm \<Rightarrow> 'q \<Rightarrow> 'q"
    and remove :: "'q \<Rightarrow> 'm list \<times> 'q"
    and cap :: nat
  assumes cap_pos: "0 < cap"
    and waiting_add: "length (waiting q) \<le> cap \<Longrightarrow> waiting (add t m q) = keep_last cap (waiting q @ [m])"
    and waiting_remove: "remove q = (ms, q') \<Longrightarrow> waiting q = ms @ waiting q'"
    and remove_progress: "remove q = (ms, q') \<Longrightarrow> waiting q \<noteq> [] \<Longrightarrow> ms \<noteq> []"
begin

lemma bounded_add:
  assumes "length (waiting q) \<le> cap"
  shows "length (waiting (add t m q)) \<le> cap"
  by (simp add: waiting_add [OF assms])

lemma waiting_add_all:
  "length (waiting q) \<le> cap \<Longrightarrow>
     waiting (fold (\<lambda>(t, m). add t m) ms q) = keep_last cap (waiting q @ map snd ms)"
proof (induction ms arbitrary: q)
  case (Cons tm ms)
  obtain t m where tm: "tm = (t, m)" by (cases tm)
  have "waiting (fold (\<lambda>(t, m). add t m) ms (add t m q)) =
          keep_last cap (keep_last cap (waiting q @ [m]) @ map snd ms)"
    using Cons.IH [OF bounded_add [OF Cons.prems]] by (simp add: waiting_add [OF Cons.prems])
  then show ?case by (simp add: keep_last_append tm)
qed simp

lemma bounded_add_all:
  "length (waiting q) \<le> cap \<Longrightarrow> length (waiting (fold (\<lambda>(t, m). add t m) ms q)) \<le> cap"
  by (simp add: waiting_add_all)

lemma removed_from_add_all:
  assumes "length (waiting q) \<le> cap" and "remove (fold (\<lambda>(t, m). add t m) ms q) = (delivered, q')"
  shows "delivered @ waiting q' = keep_last cap (waiting q @ map snd ms) \<and>
         (delivered = [] \<longleftrightarrow> waiting q = [] \<and> ms = [])"
proof -
  have eq: "delivered @ waiting q' = keep_last cap (waiting q @ map snd ms)"
    using waiting_remove [OF assms(2)] waiting_add_all [OF assms(1)] by simp
  have "delivered = [] \<longleftrightarrow> waiting (fold (\<lambda>(t, m). add t m) ms q) = []"
    using remove_progress [OF assms(2)] waiting_remove [OF assms(2)] by auto
  also have "\<dots> \<longleftrightarrow> waiting q = [] \<and> ms = []"
    using cap_pos by (simp add: waiting_add_all [OF assms(1)] flip: length_0_conv) (auto simp: min_def)
  finally show ?thesis using eq by simp
qed

end

lemma keep_last_drop_oldest:
  "0 < n \<Longrightarrow> length xs \<le> n \<Longrightarrow> (if n \<le> length xs then tl xs else xs) @ [x] = keep_last n (xs @ [x])"
  by (cases xs) (auto simp: keep_last_def)

definition waiting_steering :: "message_queue \<Rightarrow> message list" where
  "waiting_steering q = map qm_message (mq_steering q)"

definition waiting_follow_up :: "message_queue \<Rightarrow> message list" where
  "waiting_follow_up q = map qm_message (mq_follow_up q)"

lemmas queue_ops =
  push_def push_steering_def push_follow_up_def pop_kind_def pop_steering_def pop_follow_up_def Let_def

lemma steering_apart [simp]:
  "mq_follow_up (push_steering now m q) = mq_follow_up q"
  "mq_follow_up (snd (pop_steering q)) = mq_follow_up q"
  "mq_steering (push_follow_up now m q) = mq_steering q"
  "mq_steering (snd (pop_follow_up q)) = mq_steering q"
  by (simp_all add: queue_ops)

lemma queue_modes_kept [simp]:
  "mq_steering_mode (push_steering now m q) = mq_steering_mode q"
  "mq_follow_up_mode (push_steering now m q) = mq_follow_up_mode q"
  by (simp_all add: queue_ops)

interpretation steer: bounded_fifo waiting_steering push_steering pop_steering MAX_STEERING_QUEUE_SIZE
proof unfold_locales
  show "0 < MAX_STEERING_QUEUE_SIZE" by (simp add: MAX_STEERING_QUEUE_SIZE_def)
next
  fix q t m
  assume "length (waiting_steering q) \<le> MAX_STEERING_QUEUE_SIZE"
  then show "waiting_steering (push_steering t m q) =
      keep_last MAX_STEERING_QUEUE_SIZE (waiting_steering q @ [m])"
    using keep_last_drop_oldest [of MAX_STEERING_QUEUE_SIZE "waiting_steering q" m]
    by (auto simp: waiting_steering_def queue_ops map_tl MAX_STEERING_QUEUE_SIZE_def)
qed (auto simp: waiting_steering_def queue_ops taken_left_over simp flip: map_append)

interpretation follow: bounded_fifo waiting_follow_up push_follow_up pop_follow_up MAX_FOLLOW_UP_QUEUE_SIZE
proof unfold_locales
  show "0 < MAX_FOLLOW_UP_QUEUE_SIZE" by (simp add: MAX_FOLLOW_UP_QUEUE_SIZE_def)
next
  fix q t m
  assume "length (waiting_follow_up q) \<le> MAX_FOLLOW_UP_QUEUE_SIZE"
  then show "waiting_follow_up (push_follow_up t m q) =
      keep_last MAX_FOLLOW_UP_QUEUE_SIZE (waiting_follow_up q @ [m])"
    using keep_last_drop_oldest [of MAX_FOLLOW_UP_QUEUE_SIZE "waiting_follow_up q" m]
    by (auto simp: waiting_follow_up_def queue_ops map_tl MAX_FOLLOW_UP_QUEUE_SIZE_def)
qed (auto simp: waiting_follow_up_def queue_ops taken_left_over simp flip: map_append)

lemma clamp_range:
  "1 \<le> clamp_max_tool_iterations v \<and> clamp_max_tool_iterations v \<le> MAX_TOOL_ITERATIONS_CEILING"
  by (auto simp: clamp_max_tool_iterations_def MAX_TOOL_ITERATIONS_DEFAULT_def
        MAX_TOOL_ITERATIONS_CEILING_def split: option.split)

lemma resolve_is_clamp:
  "resolve_max_tool_iterations raw = clamp_max_tool_iterations (Option.bind raw (\<lambda>s. parse_usize (trim s)))"
  by (auto simp: resolve_max_tool_iterations_def clamp_max_tool_iterations_def parse_usize_def Let_def
        split: option.split)


text \<open>An override above the ceiling gives the ceiling.\<close>

lemma resolve_above_ceiling:
  assumes "parse_usize (trim raw) = Some n" and "n > MAX_TOOL_ITERATIONS_CEILING"
  shows "resolve_max_tool_iterations (Some raw) = MAX_TOOL_ITERATIONS_CEILING"
  using assms by (simp add: resolve_is_clamp clamp_max_tool_iterations_def)

end
