(* ===== verification/Tool_Budget.thy ===== *)
theory Tool_Budget
  imports Compaction
begin

text \<open>
  The budget of one tool result (\<open>src/src/agent.rs\<close>): the number of bytes that follows from the
  context window, cutting the middle out of a text that exceeds it, and \<open>budgeted_tool_result\<close>,
  through which every tool result is built. Text is a list of code points, so an index into the
  text is a number of bytes of its UTF-8 encoding and may fall inside a character.
\<close>

section \<open>Indexing text by bytes\<close>

text \<open>\<open>str::is_char_boundary\<close>, and the slices \<open>&text[..i]\<close> and \<open>&text[i..]\<close> at a boundary.\<close>

definition is_str_boundary :: "ustr \<Rightarrow> usize \<Rightarrow> bool" where
  "is_str_boundary s i \<longleftrightarrow> i \<in> set (map (\<lambda>k. byte_len (take k s)) [0..<Suc (length s)])"

fun str_take :: "usize \<Rightarrow> ustr \<Rightarrow> ustr" where
  "str_take i [] = []"
| "str_take i (c # cs) = (if utf8_char_len c \<le> i then c # str_take (i - utf8_char_len c) cs else [])"

definition str_drop :: "usize \<Rightarrow> ustr \<Rightarrow> ustr" where
  "str_drop i s = drop (length (str_take i s)) s"

fun floor_loop :: "ustr \<Rightarrow> usize \<Rightarrow> usize" where
  "floor_loop s i = (if i > 0 \<and> \<not> is_str_boundary s i then floor_loop s (i - 1) else i)"

definition floor_char_boundary :: "ustr \<Rightarrow> usize \<Rightarrow> usize" where
  "floor_char_boundary s i = floor_loop s (min i (byte_len s))"

function ceil_loop :: "ustr \<Rightarrow> usize \<Rightarrow> usize" where
  "ceil_loop s i = (if i < byte_len s \<and> \<not> is_str_boundary s i then ceil_loop s (i + 1) else i)"
  by pat_completeness auto
termination by (relation "measure (\<lambda>(s, i). byte_len s - i)") auto

declare floor_loop.simps [simp del] ceil_loop.simps [simp del]

definition ceil_char_boundary :: "ustr \<Rightarrow> usize \<Rightarrow> usize" where
  "ceil_char_boundary s i = ceil_loop s (min i (byte_len s))"

section \<open>Cutting the middle out\<close>

definition elision_note :: "usize \<Rightarrow> usize \<Rightarrow> usize \<Rightarrow> ustr" where
  "elision_note dropped_bytes dropped_lines budget =
     [10, 10] @ lit ''[... '' @ decimal dropped_bytes @ lit '' bytes / '' @ decimal dropped_lines @
     lit '' lines elided from the middle of this tool result, which exceeded the '' @ decimal budget @
     lit ''-byte per-result budget. The head above and the tail below are intact. '' @
     lit ''If you need the elided part, re-run the command with its output redirected to a file (`'' @
     [8230] @ lit '' > /tmp/out.txt 2>&1`) and read that file in slices; bash already writes a full-output '' @
     lit ''file and names its path whenever it truncates. ...]'' @ [10, 10]"

definition elide_middle :: "ustr \<Rightarrow> usize \<Rightarrow> ustr option" where
  "elide_middle s budget =
     (if byte_len s \<le> budget then None
      else
        (let head_end = floor_char_boundary s (budget div 2);
             tail_start = ceil_char_boundary s (byte_len s - (budget - head_end))
         in if tail_start \<le> head_end then None
            else
              (let dropped = str_drop head_end (str_take tail_start s)
               in Some (str_take head_end s @
                        elision_note (byte_len dropped) (length (filter (\<lambda>b. b = 10) dropped)) budget @
                        str_drop tail_start s))))"

fun block_text :: "content_block \<Rightarrow> ustr option" where
  "block_text (TextBlock t s) = Some t"
| "block_text _ = None"

definition apply_tool_result_budget :: "content_block list \<Rightarrow> usize \<Rightarrow> content_block list" where
  "apply_tool_result_budget content budget =
     (let texts = List.map_filter block_text content
      in if sum_list (map byte_len texts) \<le> budget then content
         else
           (let joined = concat texts;
                others = filter (\<lambda>b. block_text b = None) content;
                cut = (case elide_middle joined budget of None \<Rightarrow> joined | Some t \<Rightarrow> t)
            in TextBlock cut None # others))"

definition TOOL_RESULT_BUDGET_PERCENT :: usize where "TOOL_RESULT_BUDGET_PERCENT = 15"
definition TOOL_RESULT_BUDGET_MIN_BYTES :: usize where "TOOL_RESULT_BUDGET_MIN_BYTES = 16 * 1024"

definition tool_result_budget_bytes :: "u32 \<Rightarrow> usize" where
  "tool_result_budget_bytes context_window_tokens =
     max (sat_mul64 (sat_mul64 context_window_tokens CHARS_PER_TOKEN_ESTIMATE) TOOL_RESULT_BUDGET_PERCENT div 100)
       TOOL_RESULT_BUDGET_MIN_BYTES"

definition budgeted_tool_result ::
  "u32 \<Rightarrow> int \<Rightarrow> tool_call_block \<Rightarrow> content_block list \<Rightarrow> json option \<Rightarrow> bool \<Rightarrow> tool_result_message" where
  "budgeted_tool_result context_window_tokens now call content details is_error =
     \<lparr>tr_tool_call_id = tcb_id call, tr_tool_name = tcb_name call,
      tr_content = apply_tool_result_budget content (tool_result_budget_bytes context_window_tokens),
      tr_details = details, tr_is_error = is_error, tr_timestamp = now\<rparr>"

section \<open>Boundaries\<close>

lemma byte_len_simps [simp]:
  "byte_len [] = 0" "byte_len (c # cs) = utf8_char_len c + byte_len cs"
  "byte_len (s @ t) = byte_len s + byte_len t"
  by (simp_all add: byte_len_def)

lemma utf8_char_len_bounds [simp]: "0 < utf8_char_len c" "utf8_char_len c \<le> 4"
  by (simp_all add: utf8_char_len_def)

lemma utf8_char_len_not_0 [simp]: "utf8_char_len c \<noteq> 0"
  by (simp add: utf8_char_len_def)

lemma str_take_0 [simp]: "str_take 0 s = []"
  by (cases s) simp_all

lemma byte_len_concat: "byte_len (concat ts) = sum_list (map byte_len ts)"
  by (induction ts) simp_all

lemma str_take_drop [simp]: "str_take i s @ str_drop i s = s"
proof -
  have "str_take i s = take (length (str_take i s)) s" by (induction i s rule: str_take.induct) auto
  then show ?thesis by (metis append_take_drop_id str_drop_def)
qed

lemma byte_len_str_take: "byte_len (str_take i s) \<le> i"
  by (induction i s rule: str_take.induct) auto

lemma byte_len_str_drop: "byte_len (str_drop i s) = byte_len s - byte_len (str_take i s)"
  by (metis add_diff_cancel_left' byte_len_simps(3) str_take_drop)

lemma is_str_boundary_ex: "is_str_boundary s i \<longleftrightarrow> (\<exists>k\<le>length s. i = byte_len (take k s))"
  by (auto simp: is_str_boundary_def image_iff less_Suc_eq_le Bex_def simp del: upt_Suc)

lemma ex_le_Suc: "(\<exists>k\<le>Suc n. P k) \<longleftrightarrow> P 0 \<or> (\<exists>k\<le>n. P (Suc k))"
  by (metis Suc_le_mono not0_implies_Suc zero_le)

lemma is_str_boundary_simps [simp]:
  "is_str_boundary [] i \<longleftrightarrow> i = 0"
  "is_str_boundary (c # cs) i \<longleftrightarrow> i = 0 \<or> utf8_char_len c \<le> i \<and> is_str_boundary cs (i - utf8_char_len c)"
  by (auto simp: is_str_boundary_ex ex_le_Suc)

lemma str_boundary_iff: "is_str_boundary s i \<longleftrightarrow> byte_len (str_take i s) = i"
  by (induction i s rule: str_take.induct) auto

lemma boundary_bound: "is_str_boundary s i \<Longrightarrow> i \<le> byte_len s"
  by (metis str_boundary_iff byte_len_simps(3) le_add1 str_take_drop)

lemma str_take_inside: "\<not> is_str_boundary s i \<Longrightarrow> str_take i s = str_take (i - 1) s"
proof (induction i s rule: str_take.induct)
  case (2 i c cs)
  show ?case
  proof (cases "utf8_char_len c \<le> i")
    case True
    with 2 have "\<not> is_str_boundary cs (i - utf8_char_len c)"
      and "str_take (i - utf8_char_len c) cs = str_take (i - utf8_char_len c - 1) cs" by auto
    moreover from this(1) True have "utf8_char_len c \<le> i - 1"
      by (cases "i = utf8_char_len c") (auto simp: str_boundary_iff)
    ultimately show ?thesis using True by (simp add: diff_right_commute)
  qed simp
qed simp

lemma floor_loop_eq: "floor_loop s i = byte_len (str_take i s)"
proof (induction i)
  case 0
  then show ?case using byte_len_str_take [of 0 s] by (simp add: floor_loop.simps)
next
  case (Suc i)
  show ?case
  proof (cases "is_str_boundary s (Suc i)")
    case True
    then show ?thesis by (simp add: floor_loop.simps [of s "Suc i"]) (simp add: str_boundary_iff)
  next
    case False
    then show ?thesis using Suc str_take_inside [OF False] by (simp add: floor_loop.simps [of s "Suc i"])
  qed
qed

lemma str_take_near: "i \<le> byte_len s \<Longrightarrow> i \<le> byte_len (str_take i s) + 3"
proof (induction i s rule: str_take.induct)
  case (2 i c cs)
  show ?case
  proof (cases "utf8_char_len c \<le> i")
    case True
    with 2 have "i - utf8_char_len c \<le> byte_len (str_take (i - utf8_char_len c) cs) + 3" by simp
    with True show ?thesis by simp
  next
    case False
    then have "i \<le> 3" using utf8_char_len_bounds(2) [of c] by linarith
    with False show ?thesis by simp
  qed
qed simp

lemma boundary_above: "i \<le> byte_len s \<Longrightarrow> \<exists>b. is_str_boundary s b \<and> i \<le> b \<and> b \<le> i + 3"
proof (induction s arbitrary: i)
  case (Cons c cs)
  show ?case
  proof (cases "i = 0 \<or> utf8_char_len c < i")
    case True
    then show ?thesis
    proof
      assume "utf8_char_len c < i"
      with Cons.prems have "i - utf8_char_len c \<le> byte_len cs" by simp
      then obtain b where "is_str_boundary cs b" "i - utf8_char_len c \<le> b" "b \<le> i - utf8_char_len c + 3"
        using Cons.IH by blast
      then show ?thesis using \<open>utf8_char_len c < i\<close> by (intro exI [of _ "b + utf8_char_len c"]) auto
    qed auto
  next
    case False
    then have "is_str_boundary (c # cs) (utf8_char_len c) \<and> i \<le> utf8_char_len c \<and> utf8_char_len c \<le> i + 3"
      using utf8_char_len_bounds(2) [of c] by (intro conjI, simp add: str_boundary_iff) linarith+
    then show ?thesis by blast
  qed
qed simp

lemma ceil_loop_least:
  "is_str_boundary s b \<Longrightarrow> i \<le> b \<Longrightarrow> is_str_boundary s (ceil_loop s i) \<and> i \<le> ceil_loop s i \<and> ceil_loop s i \<le> b"
proof (induction s i rule: ceil_loop.induct)
  case (1 s i)
  show ?case
  proof (cases "is_str_boundary s i")
    case True
    then show ?thesis using 1 by (simp add: ceil_loop.simps [of s i])
  next
    case False
    with 1 have "i + 1 \<le> b" by (metis Suc_eq_plus1 le_neq_implies_less Suc_leI)
    moreover from this boundary_bound [OF "1.prems"(1)] have "i < byte_len s" by simp
    ultimately show ?thesis using 1 False by (simp add: ceil_loop.simps [of s i])
  qed
qed

lemma ceil_loop_near:
  assumes "i \<le> byte_len s"
  shows "is_str_boundary s (ceil_loop s i) \<and> i \<le> ceil_loop s i \<and> ceil_loop s i \<le> i + 3"
proof -
  obtain b where "is_str_boundary s b" "i \<le> b" "b \<le> i + 3" using boundary_above [OF assms] by blast
  then show ?thesis using ceil_loop_least [of s b i] by auto
qed


lemma str_take_floor [simp]: "str_take (byte_len (str_take i s)) s = str_take i s"
  by (induction i s rule: str_take.induct) auto

lemma str_take_take: "i \<le> j \<Longrightarrow> str_take i (str_take j s) = str_take i s"
proof (induction j s arbitrary: i rule: str_take.induct)
  case (2 j c cs)
  then show ?case by (cases "utf8_char_len c \<le> i") auto
qed simp

lemma elide_middle_exact:
  assumes "budget < byte_len s"
  shows "\<exists>head dropped tail. s = head @ dropped @ tail \<and> dropped \<noteq> [] \<and>
           elide_middle s budget =
             Some (head @ elision_note (byte_len dropped) (length (filter (\<lambda>b. b = 10) dropped)) budget @ tail) \<and>
           byte_len head \<le> budget div 2 \<and> byte_len head + byte_len tail \<le> budget \<and>
           budget \<le> byte_len head + byte_len tail + 3"
proof -
  define h where "h = floor_char_boundary s (budget div 2)"
  define t where "t = ceil_char_boundary s (byte_len s - (budget - h))"
  have h: "h = byte_len (str_take (budget div 2) s)"
    using assms by (simp add: h_def floor_char_boundary_def floor_loop_eq min_absorb1)
  then have h_le: "h \<le> budget div 2" using byte_len_str_take by simp
  have t: "is_str_boundary s t" "byte_len s - (budget - h) \<le> t" "t \<le> byte_len s - (budget - h) + 3"
    using ceil_loop_near [of "byte_len s - (budget - h)" s] by (simp_all add: t_def ceil_char_boundary_def min_absorb1)
  have less: "h < t" using t(2) assms h_le by linarith
  define dropped where "dropped = str_drop h (str_take t s)"
  have front: "str_take t s = str_take h s @ dropped"
    using str_take_drop [of h "str_take t s"] less by (simp add: dropped_def str_take_take)
  have sizes: "byte_len (str_take h s) = h" "byte_len (str_take t s) = t"
    using t(1) by (simp_all add: h str_boundary_iff)
  have "s = str_take h s @ dropped @ str_drop t s"
    using front str_take_drop [of t s] by (metis append_assoc)
  moreover have "dropped \<noteq> []" using front sizes less by auto
  moreover have "elide_middle s budget =
      Some (str_take h s @ elision_note (byte_len dropped) (length (filter (\<lambda>b. b = 10) dropped)) budget @ str_drop t s)"
    using assms less by (simp add: elide_middle_def Let_def dropped_def flip: h_def t_def)
  moreover have "byte_len (str_drop t s) = byte_len s - t" by (simp add: byte_len_str_drop sizes)
  ultimately show ?thesis
    using assms h_le t less sizes boundary_bound [OF t(1)] by (intro exI conjI) (assumption | simp)+
qed

section \<open>Properties\<close>

text \<open>
  C40: A tool result whose texts fit the budget is left alone. One that exceeds it becomes a single
  text, followed by its other blocks in their order: a head of the joined texts, a note with the
  number of bytes and of lines that were cut, and a tail. Head and tail are whole characters, the
  head takes at most half of the budget, both together at most the budget and no less than three
  bytes below it, and nothing else of the text is lost.
\<close>

theorem tool_result_budget_keeps_both_ends:
  "(if byte_len (concat (List.map_filter block_text content)) \<le> budget
    then apply_tool_result_budget content budget = content
    else (\<exists>head dropped tail.
            concat (List.map_filter block_text content) = head @ dropped @ tail \<and> dropped \<noteq> [] \<and>
            apply_tool_result_budget content budget =
              TextBlock (head @ elision_note (byte_len dropped) (length (filter (\<lambda>b. b = 10) dropped)) budget @ tail) None
                # filter (\<lambda>b. block_text b = None) content \<and>
            byte_len head \<le> budget div 2 \<and> byte_len head + byte_len tail \<le> budget \<and>
            budget \<le> byte_len head + byte_len tail + 3))"
proof (cases "byte_len (concat (List.map_filter block_text content)) \<le> budget")
  case True
  then show ?thesis by (simp add: apply_tool_result_budget_def byte_len_concat)
next
  case False
  obtain head dropped tail where cut: "concat (List.map_filter block_text content) = head @ dropped @ tail"
    "dropped \<noteq> []" "elide_middle (concat (List.map_filter block_text content)) budget =
       Some (head @ elision_note (byte_len dropped) (length (filter (\<lambda>b. b = 10) dropped)) budget @ tail)"
    "byte_len head \<le> budget div 2" "byte_len head + byte_len tail \<le> budget"
    "budget \<le> byte_len head + byte_len tail + 3"
    using elide_middle_exact [of budget "concat (List.map_filter block_text content)"] False by auto
  have "apply_tool_result_budget content budget =
      TextBlock (head @ elision_note (byte_len dropped) (length (filter (\<lambda>b. b = 10) dropped)) budget @ tail) None
        # filter (\<lambda>b. block_text b = None) content"
    using False cut(3) by (simp add: apply_tool_result_budget_def Let_def byte_len_concat)
  with cut False show ?thesis by (simp only: if_False) blast
qed

end
