(* ===== verification/Agent_State.thy ===== *)
theory Agent_State
  imports Agent_Queue Tool_Budget Tool_Gate
begin

text \<open>
  The state the agent (\<open>src/src/agent.rs\<close>) keeps during a run, the events it emits, and the
  operations on it that the streaming of a response, the execution of tool calls and the run loop
  share: delivering a message and draining the queues of steering and follow-up messages.

  What happens outside the agent is the environment. Its answers may differ each time, so they are
  functions of a counter, \<open>ag_tick\<close>, that advances whenever the environment is consulted: the
  clock, the fetchers of queued messages, the provider's stream, the tools, and the abort signal,
  which once set stays set and is therefore given by the tick from which on it is set. Every run
  of the agent is the run of some environment.
\<close>

section \<open>Events\<close>

record tool_answer =
  ta_content :: "content_block list"
  ta_details :: "json option"
  ta_is_error :: bool

datatype assistant_event =
    AeStart assistant_message
  | AeTextStart usize assistant_message
  | AeTextDelta usize ustr assistant_message
  | AeTextEnd usize ustr assistant_message
  | AeThinkingStart usize assistant_message
  | AeThinkingDelta usize ustr assistant_message
  | AeThinkingEnd usize ustr assistant_message
  | AeToolCallStart usize assistant_message
  | AeToolCallDelta usize ustr assistant_message
  | AeToolCallEnd usize tool_call_block assistant_message
  | AeError stop_reason assistant_message

text \<open>The session id, which is the same in every event, and the latency figures are left out.\<close>

datatype agent_event =
    AgentStart
  | AgentEnd "message list" "ustr option"
  | TurnStart usize int
  | TurnEnd usize message "message list"
  | MessageStart message
  | MessageUpdate message assistant_event
  | MessageEnd message
  | ToolExecutionStart ustr ustr json
  | ToolExecutionUpdate ustr ustr json tool_answer
  | ToolExecutionEnd ustr ustr tool_answer bool

datatype stream_event =
    StreamStart assistant_message
  | TextStart usize
  | TextDelta usize ustr
  | TextEnd usize ustr
  | ThinkingStart usize
  | ThinkingDelta usize ustr
  | ThinkingEnd usize ustr
  | ToolCallStart usize ustr ustr
  | ToolCallDelta usize ustr
  | ToolCallEnd usize tool_call_block
  | StreamDone stop_reason assistant_message
  | StreamError stop_reason assistant_message

section \<open>Environment and state\<close>

text \<open>
  The configuration of the agent and its surroundings. \<open>ae_stream\<close> answers a request with an error
  or with the items of the response, each an error or an event; \<open>ae_cancelled\<close> says whether the
  task's checkpoint fails, \<open>ae_abort_first\<close> whether an abort that falls into the wait for an answer
  is seen before the answer. \<open>ae_run\<close> is the outcome of one tool call (\<open>execute_tool\<close>),
  \<open>ae_completion\<close> the order in which the calls of a batch finish. \<open>ae_json_from_str\<close> is
  \<open>serde_json::from_str\<close>; the fingerprints hash serialized JSON with std's hasher.
\<close>

record agent_env =
  ae_api :: ustr
  ae_provider :: ustr
  ae_model :: ustr
  ae_max_tool_iterations :: usize
  ae_context_window_tokens :: u32
  ae_block_images :: bool
  ae_effects :: "ustr \<Rightarrow> tool_effects option"
  ae_now :: "nat \<Rightarrow> int"
  ae_abort_at :: "nat option"
  ae_abort_first :: "nat \<Rightarrow> bool"
  ae_cancelled :: "nat \<Rightarrow> bool"
  ae_steering_fetchers :: "(nat \<Rightarrow> message list) list"
  ae_follow_up_fetchers :: "(nat \<Rightarrow> message list) list"
  ae_context_hook :: "nat \<Rightarrow> message list \<Rightarrow> message list option"
  ae_stream :: "nat \<Rightarrow> message list \<Rightarrow> ustr + (ustr + stream_event) list"
  ae_run :: "nat \<Rightarrow> tool_call_block \<Rightarrow> tool_answer \<times> bool"
  ae_completion :: "nat \<Rightarrow> (usize \<times> tool_call_block) list \<Rightarrow> (usize \<times> tool_call_block) list"
  ae_json_from_str :: "ustr \<Rightarrow> json option"
  ae_call_fingerprint :: "tool_call_block \<Rightarrow> u64"
  ae_result_fingerprint :: "tool_result_message \<Rightarrow> u64"

text \<open>
  \<open>ag_new_messages\<close> is the list of the same name that the run loop passes along, \<open>ag_events\<close> what
  was handed to \<open>on_event\<close>, \<open>ag_requests\<close> the messages of every request sent to the provider.
\<close>

record agent =
  ag_messages :: "message list"
  ag_new_messages :: "message list"
  ag_queue :: message_queue
  ag_recent :: "recent_tool_call list"
  ag_tick :: nat
  ag_events :: "agent_event list"
  ag_requests :: "message list list"

definition is_aborted :: "agent_env \<Rightarrow> nat \<Rightarrow> bool" where
  "is_aborted env t = (case ae_abort_at env of None \<Rightarrow> False | Some a \<Rightarrow> a \<le> t)"

definition tick :: "agent \<Rightarrow> agent" where
  "tick st = st\<lparr>ag_tick := Suc (ag_tick st)\<rparr>"

definition emit :: "agent_event \<Rightarrow> agent \<Rightarrow> agent" where
  "emit e st = st\<lparr>ag_events := ag_events st @ [e]\<rparr>"

definition push_message :: "message \<Rightarrow> agent \<Rightarrow> agent" where
  "push_message m st = st\<lparr>ag_messages := ag_messages st @ [m]\<rparr>"

definition push_new_message :: "message \<Rightarrow> agent \<Rightarrow> agent" where
  "push_new_message m st = st\<lparr>ag_new_messages := ag_new_messages st @ [m]\<rparr>"

text \<open>What is done to the agent between runs.\<close>

definition MAX_AGENT_MESSAGES :: usize where "MAX_AGENT_MESSAGES = 10000"

definition add_message :: "message \<Rightarrow> agent \<Rightarrow> agent" where
  "add_message m st =
     push_message m
       (if length (ag_messages st) \<ge> MAX_AGENT_MESSAGES then st\<lparr>ag_messages := tl (ag_messages st)\<rparr> else st)"

definition replace_messages :: "message list \<Rightarrow> agent \<Rightarrow> agent" where
  "replace_messages ms st = st\<lparr>ag_messages := ms\<rparr>"

definition clear_messages :: "agent \<Rightarrow> agent" where
  "clear_messages st = st\<lparr>ag_messages := []\<rparr>"

definition queue_steering :: "int \<Rightarrow> message \<Rightarrow> agent \<Rightarrow> agent" where
  "queue_steering now m st = st\<lparr>ag_queue := push_steering now m (ag_queue st)\<rparr>"

definition queue_follow_up :: "int \<Rightarrow> message \<Rightarrow> agent \<Rightarrow> agent" where
  "queue_follow_up now m st = st\<lparr>ag_queue := push_follow_up now m (ag_queue st)\<rparr>"

definition set_queue_modes :: "queue_mode \<Rightarrow> queue_mode \<Rightarrow> agent \<Rightarrow> agent" where
  "set_queue_modes steering follow_up st = st\<lparr>ag_queue := set_modes steering follow_up (ag_queue st)\<rparr>"

text \<open>The body of the loops that deliver prompts, steering and follow-up messages.\<close>

definition deliver :: "message \<Rightarrow> agent \<Rightarrow> agent" where
  "deliver m st = push_new_message m (emit (MessageEnd m) (emit (MessageStart m) (push_message m st)))"

definition deliver_all :: "message list \<Rightarrow> agent \<Rightarrow> agent" where
  "deliver_all ms st = fold deliver ms st"

section \<open>Draining the queues\<close>

definition fetch_into ::
  "(int \<Rightarrow> message \<Rightarrow> message_queue \<Rightarrow> message_queue) \<Rightarrow> agent_env \<Rightarrow> (nat \<Rightarrow> message list) \<Rightarrow> agent \<Rightarrow> agent" where
  "fetch_into push_kind env fetcher st =
     (let t = ag_tick st
      in tick (st\<lparr>ag_queue := fold (push_kind (ae_now env t)) (fetcher t) (ag_queue st)\<rparr>))"

definition drain_steering_messages :: "agent_env \<Rightarrow> agent \<Rightarrow> message list \<times> agent" where
  "drain_steering_messages env st =
     (let st1 = tick (fold (fetch_into push_steering env) (ae_steering_fetchers env) st);
          (ms, q) = pop_steering (ag_queue st1)
      in (ms, st1\<lparr>ag_queue := q\<rparr>))"

definition drain_follow_up_messages :: "agent_env \<Rightarrow> agent \<Rightarrow> message list \<times> agent" where
  "drain_follow_up_messages env st =
     (let st1 = tick (fold (fetch_into push_follow_up env) (ae_follow_up_fetchers env) st);
          (ms, q) = pop_follow_up (ag_queue st1)
      in (ms, st1\<lparr>ag_queue := q\<rparr>))"

text \<open>What the fetchers hand over when they are asked one after the other from tick \<open>t\<close> on.\<close>

primrec fetched :: "agent_env \<Rightarrow> (nat \<Rightarrow> message list) list \<Rightarrow> nat \<Rightarrow> (int \<times> message) list" where
  "fetched env [] t = []"
| "fetched env (f # fs) t = map (Pair (ae_now env t)) (f t) @ fetched env fs (Suc t)"

section \<open>What delivering and draining change\<close>

named_theorems agent_ops "how the small operations act on the fields of the agent"

lemma small_ops [agent_ops]:
  "ag_messages (tick st) = ag_messages st" "ag_new_messages (tick st) = ag_new_messages st"
  "ag_queue (tick st) = ag_queue st" "ag_events (tick st) = ag_events st"
  "ag_requests (tick st) = ag_requests st" "ag_tick (tick st) = Suc (ag_tick st)"
  "ag_recent (tick st) = ag_recent st"
  "ag_messages (emit e st) = ag_messages st" "ag_new_messages (emit e st) = ag_new_messages st"
  "ag_queue (emit e st) = ag_queue st" "ag_events (emit e st) = ag_events st @ [e]"
  "ag_requests (emit e st) = ag_requests st" "ag_tick (emit e st) = ag_tick st"
  "ag_recent (emit e st) = ag_recent st"
  "ag_messages (push_message m st) = ag_messages st @ [m]"
  "ag_new_messages (push_message m st) = ag_new_messages st"
  "ag_queue (push_message m st) = ag_queue st" "ag_events (push_message m st) = ag_events st"
  "ag_requests (push_message m st) = ag_requests st" "ag_tick (push_message m st) = ag_tick st"
  "ag_recent (push_message m st) = ag_recent st"
  "ag_messages (push_new_message m st) = ag_messages st"
  "ag_new_messages (push_new_message m st) = ag_new_messages st @ [m]"
  "ag_queue (push_new_message m st) = ag_queue st" "ag_events (push_new_message m st) = ag_events st"
  "ag_requests (push_new_message m st) = ag_requests st" "ag_tick (push_new_message m st) = ag_tick st"
  "ag_recent (push_new_message m st) = ag_recent st"
  by (simp_all add: tick_def emit_def push_message_def push_new_message_def)

definition delivery_events :: "message list \<Rightarrow> agent_event list" where
  "delivery_events ms = concat (map (\<lambda>m. [MessageStart m, MessageEnd m]) ms)"

lemma deliver_ops [agent_ops]:
  "ag_messages (deliver m st) = ag_messages st @ [m]"
  "ag_new_messages (deliver m st) = ag_new_messages st @ [m]"
  "ag_queue (deliver m st) = ag_queue st"
  "ag_events (deliver m st) = ag_events st @ [MessageStart m, MessageEnd m]"
  "ag_requests (deliver m st) = ag_requests st"
  "ag_tick (deliver m st) = ag_tick st" "ag_recent (deliver m st) = ag_recent st"
  by (simp_all add: deliver_def agent_ops)

lemma deliver_all_ops [agent_ops]:
  "ag_messages (deliver_all ms st) = ag_messages st @ ms"
  "ag_new_messages (deliver_all ms st) = ag_new_messages st @ ms"
  "ag_queue (deliver_all ms st) = ag_queue st"
  "ag_events (deliver_all ms st) = ag_events st @ delivery_events ms"
  "ag_requests (deliver_all ms st) = ag_requests st"
  "ag_tick (deliver_all ms st) = ag_tick st"
  by (induction ms arbitrary: st) (simp_all add: deliver_all_def delivery_events_def agent_ops)

text \<open>A fetcher touches nothing but the queue and the tick.\<close>

definition same_but_queue :: "agent \<Rightarrow> agent \<Rightarrow> bool" where
  "same_but_queue st st' \<longleftrightarrow> (\<exists>q t. st' = st\<lparr>ag_queue := q, ag_tick := t\<rparr>)"

lemma same_but_queue_fields:
  "same_but_queue st st' \<Longrightarrow>
     ag_messages st' = ag_messages st \<and> ag_new_messages st' = ag_new_messages st \<and>
     ag_events st' = ag_events st \<and> ag_requests st' = ag_requests st \<and> ag_recent st' = ag_recent st"
  by (auto simp: same_but_queue_def)

lemma fetch_all:
  "fold (fetch_into push_kind env) fs st =
     st\<lparr>ag_queue := fold (\<lambda>(t, m). push_kind t m) (fetched env fs (ag_tick st)) (ag_queue st),
       ag_tick := ag_tick st + length fs\<rparr>"
proof (induction fs arbitrary: st)
  case (Cons f fs)
  have "fold (\<lambda>(t, m). push_kind t m) (map (Pair n) ms) q = fold (push_kind n) ms q" for n ms q
    by (induction ms arbitrary: q) simp_all
  then show ?case by (simp add: Cons) (simp add: fetch_into_def tick_def Let_def)
qed simp

lemma drain_steering_eq:
  "drain_steering_messages env st =
     (let r = pop_steering (fold (\<lambda>(t, m). push_steering t m)
                (fetched env (ae_steering_fetchers env) (ag_tick st)) (ag_queue st))
      in (fst r, st\<lparr>ag_queue := snd r, ag_tick := Suc (ag_tick st + length (ae_steering_fetchers env))\<rparr>))"
  by (simp add: drain_steering_messages_def fetch_all tick_def Let_def case_prod_unfold)

lemma drain_follow_up_eq:
  "drain_follow_up_messages env st =
     (let r = pop_follow_up (fold (\<lambda>(t, m). push_follow_up t m)
                (fetched env (ae_follow_up_fetchers env) (ag_tick st)) (ag_queue st))
      in (fst r, st\<lparr>ag_queue := snd r, ag_tick := Suc (ag_tick st + length (ae_follow_up_fetchers env))\<rparr>))"
  by (simp add: drain_follow_up_messages_def fetch_all tick_def Let_def case_prod_unfold)

lemma drain_same:
  "drain_steering_messages env st = (ms, st') \<Longrightarrow> same_but_queue st st' \<and> ag_tick st < ag_tick st'"
  "drain_follow_up_messages env st = (ms, st') \<Longrightarrow> same_but_queue st st' \<and> ag_tick st < ag_tick st'"
  by (auto simp: drain_steering_eq drain_follow_up_eq Let_def same_but_queue_def)

definition queue_bounded :: "message_queue \<Rightarrow> bool" where
  "queue_bounded q \<longleftrightarrow>
     length (mq_steering q) \<le> MAX_STEERING_QUEUE_SIZE \<and> length (mq_follow_up q) \<le> MAX_FOLLOW_UP_QUEUE_SIZE"

lemma steering_adds_keep_follow_up [simp]:
  "mq_follow_up (fold (\<lambda>(t, m). push_steering t m) tms q) = mq_follow_up q"
  "mq_steering (fold (\<lambda>(t, m). push_follow_up t m) tms q) = mq_steering q"
  by (induction tms arbitrary: q) auto

lemma drain_steering_delivers:
  assumes "length (waiting_steering (ag_queue st)) \<le> MAX_STEERING_QUEUE_SIZE"
    and "drain_steering_messages env st = (ms, st')"
  shows "ms @ waiting_steering (ag_queue st') =
           keep_last MAX_STEERING_QUEUE_SIZE
             (waiting_steering (ag_queue st) @ map snd (fetched env (ae_steering_fetchers env) (ag_tick st))) \<and>
         (ms = [] \<longleftrightarrow> waiting_steering (ag_queue st) = [] \<and> fetched env (ae_steering_fetchers env) (ag_tick st) = []) \<and>
         mq_follow_up (ag_queue st') = mq_follow_up (ag_queue st)"
proof -
  define q where "q = fold (\<lambda>(t, m). push_steering t m) (fetched env (ae_steering_fetchers env) (ag_tick st)) (ag_queue st)"
  have r: "pop_steering q = (ms, ag_queue st')"
    using assms(2) by (auto simp: drain_steering_eq Let_def q_def)
  have apart: "mq_follow_up (ag_queue st') = mq_follow_up q"
    using r by (metis snd_conv steering_apart(2))
  show ?thesis
    using steer.removed_from_add_all [OF assms(1) r [unfolded q_def]] apart by (simp add: q_def)
qed

lemma drain_follow_up_delivers:
  assumes "length (waiting_follow_up (ag_queue st)) \<le> MAX_FOLLOW_UP_QUEUE_SIZE"
    and "drain_follow_up_messages env st = (ms, st')"
  shows "ms @ waiting_follow_up (ag_queue st') =
           keep_last MAX_FOLLOW_UP_QUEUE_SIZE
             (waiting_follow_up (ag_queue st) @ map snd (fetched env (ae_follow_up_fetchers env) (ag_tick st))) \<and>
         (ms = [] \<longleftrightarrow> waiting_follow_up (ag_queue st) = [] \<and> fetched env (ae_follow_up_fetchers env) (ag_tick st) = []) \<and>
         mq_steering (ag_queue st') = mq_steering (ag_queue st)"
proof -
  define q where "q = fold (\<lambda>(t, m). push_follow_up t m) (fetched env (ae_follow_up_fetchers env) (ag_tick st)) (ag_queue st)"
  have r: "pop_follow_up q = (ms, ag_queue st')"
    using assms(2) by (auto simp: drain_follow_up_eq Let_def q_def)
  have apart: "mq_steering (ag_queue st') = mq_steering q"
    using r by (metis snd_conv steering_apart(4))
  show ?thesis
    using follow.removed_from_add_all [OF assms(1) r [unfolded q_def]] apart by (simp add: q_def)
qed

lemma drain_bounded:
  assumes "queue_bounded (ag_queue st)"
  shows "drain_steering_messages env st = (ms, st') \<Longrightarrow> queue_bounded (ag_queue st')"
    and "drain_follow_up_messages env st = (ms, st') \<Longrightarrow> queue_bounded (ag_queue st')"
proof -
  have w: "length (waiting_steering (ag_queue st)) \<le> MAX_STEERING_QUEUE_SIZE"
    "length (waiting_follow_up (ag_queue st)) \<le> MAX_FOLLOW_UP_QUEUE_SIZE"
    using assms by (simp_all add: queue_bounded_def waiting_steering_def waiting_follow_up_def)
  show "queue_bounded (ag_queue st')" if "drain_steering_messages env st = (ms, st')"
  proof -
    have "length (waiting_steering (ag_queue st')) \<le> length (ms @ waiting_steering (ag_queue st'))" by simp
    also have "\<dots> \<le> MAX_STEERING_QUEUE_SIZE" using drain_steering_delivers [OF w(1) that] by simp
    finally show ?thesis
      using assms drain_steering_delivers [OF w(1) that] by (simp add: queue_bounded_def waiting_steering_def)
  qed
  show "queue_bounded (ag_queue st')" if "drain_follow_up_messages env st = (ms, st')"
  proof -
    have "length (waiting_follow_up (ag_queue st')) \<le> length (ms @ waiting_follow_up (ag_queue st'))" by simp
    also have "\<dots> \<le> MAX_FOLLOW_UP_QUEUE_SIZE" using drain_follow_up_delivers [OF w(2) that] by simp
    finally show ?thesis
      using assms drain_follow_up_delivers [OF w(2) that] by (simp add: queue_bounded_def waiting_follow_up_def)
  qed
qed


section \<open>The queues during a run\<close>

text \<open>
  What waits is written by users and extensions: it holds no assistant message as long as the
  fetchers hand over none. \<open>quiet_from\<close> says that from some tick on no fetcher has anything left.
\<close>

definition plain_message :: "message \<Rightarrow> bool" where
  "plain_message m = (case m of AssistantMessage a \<Rightarrow> False | _ \<Rightarrow> True)"

definition plain_fetchers :: "agent_env \<Rightarrow> bool" where
  "plain_fetchers env \<longleftrightarrow>
     (\<forall>f \<in> set (ae_steering_fetchers env @ ae_follow_up_fetchers env). \<forall>t. list_all plain_message (f t))"

definition queue_ok :: "message_queue \<Rightarrow> bool" where
  "queue_ok q \<longleftrightarrow>
     queue_bounded q \<and> list_all plain_message (waiting_steering q @ waiting_follow_up q)"

definition quiet_from :: "agent_env \<Rightarrow> nat \<Rightarrow> bool" where
  "quiet_from env t \<longleftrightarrow>
     (\<forall>f \<in> set (ae_steering_fetchers env @ ae_follow_up_fetchers env). \<forall>u\<ge>t. f u = [])"

lemma quiet_from_mono: "quiet_from env t \<Longrightarrow> t \<le> u \<Longrightarrow> quiet_from env u"
  by (auto simp: quiet_from_def)

lemma fetched_plain:
  "\<forall>f \<in> set fs. \<forall>t. list_all plain_message (f t) \<Longrightarrow> list_all plain_message (map snd (fetched env fs t))"
  by (induction fs arbitrary: t) (auto simp: list_all_iff)

lemma fetched_quiet: "\<forall>f \<in> set fs. \<forall>u\<ge>t. f u = [] \<Longrightarrow> fetched env fs t = []"
  by (induction fs arbitrary: t) auto

lemma keep_last_all: "list_all P xs \<Longrightarrow> list_all P (keep_last n xs)"
  by (auto simp: list_all_iff keep_last_def dest: in_set_dropD)

lemma pending_count_waiting: "pending_count q = length (waiting_steering q) + length (waiting_follow_up q)"
  by (simp add: pending_count_def waiting_steering_def waiting_follow_up_def)

text \<open>One drain: what comes out was waiting or fetched, and without a fetcher's help the queue shrinks by it.\<close>

definition drains :: "agent_env \<Rightarrow> message_queue \<Rightarrow> nat \<Rightarrow> message list \<Rightarrow> message_queue \<Rightarrow> bool" where
  "drains env q t ms q' \<longleftrightarrow>
     (queue_bounded q \<longrightarrow> queue_bounded q') \<and>
     (plain_fetchers env \<and> queue_ok q \<longrightarrow> queue_ok q' \<and> list_all plain_message ms) \<and>
     (quiet_from env t \<and> queue_bounded q \<longrightarrow> length ms + pending_count q' = pending_count q)"

lemma drains_refl [simp]: "drains env q t [] q"
  by (simp add: drains_def)

lemma drains_trans:
  "drains env q t ms q' \<Longrightarrow> drains env q' u ms' q'' \<Longrightarrow> t \<le> u \<Longrightarrow> drains env q t (ms @ ms') q''"
  by (auto simp: drains_def dest: quiet_from_mono)

lemma drain_steering_drains:
  assumes "drain_steering_messages env st = (ms, st')"
  shows "drains env (ag_queue st) (ag_tick st) ms (ag_queue st')"
proof (cases "queue_bounded (ag_queue st)")
  case True
  then have "length (waiting_steering (ag_queue st)) \<le> MAX_STEERING_QUEUE_SIZE"
    by (simp add: queue_bounded_def waiting_steering_def)
  note out = drain_steering_delivers [OF this assms]
  have apart: "waiting_follow_up (ag_queue st') = waiting_follow_up (ag_queue st)"
    using out by (simp add: waiting_follow_up_def)
  have plain: "list_all plain_message (ms @ waiting_steering (ag_queue st'))"
    if "plain_fetchers env" "list_all plain_message (waiting_steering (ag_queue st))"
    unfolding conjunct1 [OF out]
    using that fetched_plain [of "ae_steering_fetchers env" env "ag_tick st"]
    by (intro keep_last_all) (auto simp: plain_fetchers_def)
  have "length (ms @ waiting_steering (ag_queue st')) = length (waiting_steering (ag_queue st))"
    if "quiet_from env (ag_tick st)"
    unfolding conjunct1 [OF out]
    using that fetched_quiet [of "ae_steering_fetchers env" "ag_tick st" env] True
    by (auto simp: quiet_from_def queue_bounded_def waiting_steering_def)
  then show ?thesis
    using True plain apart drain_bounded(1) [OF True assms]
    by (auto simp: drains_def queue_ok_def pending_count_waiting)
qed (simp add: drains_def queue_ok_def)

lemma drain_follow_up_drains:
  assumes "drain_follow_up_messages env st = (ms, st')"
  shows "drains env (ag_queue st) (ag_tick st) ms (ag_queue st')"
proof (cases "queue_bounded (ag_queue st)")
  case True
  then have "length (waiting_follow_up (ag_queue st)) \<le> MAX_FOLLOW_UP_QUEUE_SIZE"
    by (simp add: queue_bounded_def waiting_follow_up_def)
  note out = drain_follow_up_delivers [OF this assms]
  have apart: "waiting_steering (ag_queue st') = waiting_steering (ag_queue st)"
    using out by (simp add: waiting_steering_def)
  have plain: "list_all plain_message (ms @ waiting_follow_up (ag_queue st'))"
    if "plain_fetchers env" "list_all plain_message (waiting_follow_up (ag_queue st))"
    unfolding conjunct1 [OF out]
    using that fetched_plain [of "ae_follow_up_fetchers env" env "ag_tick st"]
    by (intro keep_last_all) (auto simp: plain_fetchers_def)
  have "length (ms @ waiting_follow_up (ag_queue st')) = length (waiting_follow_up (ag_queue st))"
    if "quiet_from env (ag_tick st)"
    unfolding conjunct1 [OF out]
    using that fetched_quiet [of "ae_follow_up_fetchers env" "ag_tick st" env] True
    by (auto simp: quiet_from_def queue_bounded_def waiting_follow_up_def)
  then show ?thesis
    using True plain apart drain_bounded(2) [OF True assms]
    by (auto simp: drains_def queue_ok_def pending_count_waiting)
qed (simp add: drains_def queue_ok_def)

lemma push_steering_queue:
  assumes "queue_bounded q"
  shows "queue_bounded (push_steering now m q)"
    and "waiting_steering (push_steering now m q) = keep_last MAX_STEERING_QUEUE_SIZE (waiting_steering q @ [m])"
    and "waiting_follow_up (push_steering now m q) = waiting_follow_up q"
    and "pending_count (push_steering now m q) \<le> Suc (pending_count q)"
proof -
  have w: "length (waiting_steering q) \<le> MAX_STEERING_QUEUE_SIZE"
    using assms by (simp add: queue_bounded_def waiting_steering_def)
  show eq: "waiting_steering (push_steering now m q) = keep_last MAX_STEERING_QUEUE_SIZE (waiting_steering q @ [m])"
    by (rule steer.waiting_add [OF w])
  show same: "waiting_follow_up (push_steering now m q) = waiting_follow_up q" by (simp add: waiting_follow_up_def)
  have "length (mq_steering (push_steering now m q)) \<le> MAX_STEERING_QUEUE_SIZE"
    using steer.bounded_add [OF w, of now m] by (simp only: waiting_steering_def length_map)
  then show "queue_bounded (push_steering now m q)" using assms by (simp add: queue_bounded_def)
  show "pending_count (push_steering now m q) \<le> Suc (pending_count q)" by (simp add: pending_count_waiting eq same)
qed

section \<open>An example\<close>

definition demo_env :: agent_env where
  "demo_env =
     \<lparr>ae_api = lit ''api'', ae_provider = lit ''p'', ae_model = lit ''m'', ae_max_tool_iterations = 2,
      ae_context_window_tokens = 0, ae_block_images = False, ae_effects = (\<lambda>name. Some effects_read),
      ae_now = (\<lambda>t. 0), ae_abort_at = None, ae_abort_first = (\<lambda>t. False), ae_cancelled = (\<lambda>t. False),
      ae_steering_fetchers = [\<lambda>t. if t = 0 then [UserMessage (TextContent (lit ''wait'')) 0] else []],
      ae_follow_up_fetchers = [], ae_context_hook = (\<lambda>t ms. None),
      ae_stream = (\<lambda>t ms. Inr []), ae_run = (\<lambda>t c. (\<lparr>ta_content = [], ta_details = None, ta_is_error = False\<rparr>, False)),
      ae_completion = (\<lambda>t batch. rev batch), ae_json_from_str = (\<lambda>s. None), ae_call_fingerprint = (\<lambda>c. 0),
      ae_result_fingerprint = (\<lambda>r. 0)\<rparr>"

definition idle_agent :: agent where
  "idle_agent =
     \<lparr>ag_messages = [], ag_new_messages = [], ag_queue = queue_new All All, ag_recent = [], ag_tick = 0,
      ag_events = [], ag_requests = []\<rparr>"

lemma idle_queue_ok [simp]: "queue_ok (ag_queue idle_agent)"
  by (simp add: idle_agent_def queue_ok_def queue_bounded_def queue_new_def waiting_steering_def
      waiting_follow_up_def)

section \<open>Properties\<close>

text \<open>
  Draining the steering queue hands out a first part of what waited followed by what the fetchers
  brought, oldest first, of which at most the last hundred messages are kept; the rest stays in
  the queue in its order. Nothing is handed out only when nothing waited and nothing was fetched,
  and the follow-up queue is not touched.
\<close>

theorem steering_drained_in_order:
  assumes "length (mq_steering (ag_queue st)) \<le> MAX_STEERING_QUEUE_SIZE"
    and "drain_steering_messages env st = (ms, st')"
  shows "ms @ map qm_message (mq_steering (ag_queue st')) =
           keep_last MAX_STEERING_QUEUE_SIZE
             (map qm_message (mq_steering (ag_queue st)) @
              map snd (fetched env (ae_steering_fetchers env) (ag_tick st))) \<and>
         (ms = [] \<longleftrightarrow> mq_steering (ag_queue st) = [] \<and> fetched env (ae_steering_fetchers env) (ag_tick st) = []) \<and>
         mq_follow_up (ag_queue st') = mq_follow_up (ag_queue st)"
  using drain_steering_delivers [of st env ms st'] assms by (simp add: waiting_steering_def)

theorem steering_drained_in_order_witness:
  "fst (drain_steering_messages demo_env idle_agent) @
     map qm_message (mq_steering (ag_queue (snd (drain_steering_messages demo_env idle_agent)))) =
   keep_last 100 ([] @ map snd (fetched demo_env (ae_steering_fetchers demo_env) 0))"
  using steering_drained_in_order [of idle_agent demo_env "fst (drain_steering_messages demo_env idle_agent)"
      "snd (drain_steering_messages demo_env idle_agent)"]
  by (simp add: idle_agent_def queue_new_def MAX_STEERING_QUEUE_SIZE_def)

end
