(* ===== verification/Partial_Json.thy ===== *)
theory Partial_Json
  imports Session_Model "HOL-Library.Sublist"
begin

text \<open>
  Completing the arguments of a tool call that is still being streamed
  (\<open>complete_partial_json\<close> in \<open>src/src/providers/openai.rs\<close>): the text received so far is closed so
  that it parses, after a dangling comma, key or escape at its end is dropped. The scans of the
  code go over bytes; they look for ASCII characters only, which occur in UTF-8 text exactly where
  the code points do, so they are modelled over code points. \<open>serde_json::from_str\<close> is the argument
  \<open>from_str\<close>.
\<close>

section \<open>What is still open\<close>

record json_scan =
  js_closers :: "uchar list"
  js_in_string :: bool
  js_escaped :: bool

text \<open>One step of the scan; the stack of closers has its top first.\<close>

definition scan_byte :: "uchar \<Rightarrow> json_scan \<Rightarrow> json_scan" where
  "scan_byte c sc =
     (if js_in_string sc then
        (if js_escaped sc then sc\<lparr>js_escaped := False\<rparr>
         else if c = 92 then sc\<lparr>js_escaped := True\<rparr>
         else if c = 34 then sc\<lparr>js_in_string := False\<rparr>
         else sc)
      else if c = 34 then sc\<lparr>js_in_string := True\<rparr>
      else if c = 123 then sc\<lparr>js_closers := 125 # js_closers sc\<rparr>
      else if c = 91 then sc\<lparr>js_closers := 93 # js_closers sc\<rparr>
      else if c = 125 \<or> c = 93 then sc\<lparr>js_closers := tl (js_closers sc)\<rparr>
      else sc)"

definition scan_json :: "ustr \<Rightarrow> json_scan" where
  "scan_json s = fold scan_byte s \<lparr>js_closers = [], js_in_string = False, js_escaped = False\<rparr>"

section \<open>Dropping what dangles at the end\<close>

definition ends_with_char :: "uchar \<Rightarrow> ustr \<Rightarrow> bool" where
  "ends_with_char c s \<longleftrightarrow> s \<noteq> [] \<and> last s = c"

definition trailing_json_string_start :: "ustr \<Rightarrow> usize option" where
  "trailing_json_string_start out =
     (if \<not> ends_with_char 34 out then None
      else find (\<lambda>i. out ! i = 34 \<and> even (length (takeWhile (\<lambda>c. c = 92) (rev (take i out)))))
             (rev [0..<length out - 1]))"

definition remove_trailing_json_string :: "ustr \<Rightarrow> ustr" where
  "remove_trailing_json_string out =
     (case trailing_json_string_start out of None \<Rightarrow> out | Some start \<Rightarrow> take start out)"

lemma trim_end_prefix: "prefix (trim_end s) s"
proof -
  have "s = rev (dropWhile is_whitespace (rev s)) @ rev (takeWhile is_whitespace (rev s))"
    by (metis rev_append rev_rev_ident takeWhile_dropWhile_id)
  then show ?thesis unfolding trim_end_def by (rule prefixI)
qed

lemmas trim_end_le [simp] = prefix_length_le [OF trim_end_prefix]

lemma trailing_start_less:
  assumes "trailing_json_string_start out = Some start"
  shows "start < length out"
proof -
  have "start \<in> set (rev [0..<length out - 1])"
    using assms find_Some_iff nth_mem unfolding trailing_json_string_start_def
    by (metis (no_types, lifting) option.distinct(1))
  then show ?thesis by auto
qed

lemma remove_trailing_prefix: "prefix (remove_trailing_json_string s) s"
  by (simp add: remove_trailing_json_string_def take_is_prefix split: option.split)

lemmas remove_trailing_le [simp] = prefix_length_le [OF remove_trailing_prefix]

lemma ends_with_char_length: "ends_with_char c s \<Longrightarrow> 0 < length s"
  by (simp add: ends_with_char_def)

function trim_dangling_json_tail :: "ustr \<Rightarrow> bool \<Rightarrow> ustr" where
  "trim_dangling_json_tail s is_object =
     (let out = trim_end s
      in if ends_with_char 44 out then trim_dangling_json_tail (butlast out) is_object
         else if is_object \<and> ends_with_char 58 out then
           trim_dangling_json_tail (remove_trailing_json_string (trim_end (butlast out))) is_object
         else
           (case (if is_object then trailing_json_string_start out else None) of
              Some start \<Rightarrow>
                if ends_with_char 58 (trim_end (take start out)) then out
                else trim_dangling_json_tail (take start out) is_object
            | None \<Rightarrow>
                if length out = length s then out else trim_dangling_json_tail out is_object))"
  by pat_completeness auto
termination
proof (relation "measure (\<lambda>(s, is_object). length s)", goal_cases)
  case (2 s is_object out)
  then have "0 < length out" by (blast dest: ends_with_char_length)
  moreover have "length out \<le> length s" by (simp add: 2)
  ultimately have "length (butlast out) < length s" by (simp only: length_butlast)
  then show ?case by simp
next
  case (3 s is_object out)
  then have "0 < length out" by (blast dest: ends_with_char_length)
  moreover have "length out \<le> length s" by (simp add: 3)
  moreover have "length (remove_trailing_json_string (trim_end (butlast out))) \<le> length out - 1"
    by (metis length_butlast order_trans remove_trailing_le trim_end_le)
  ultimately have "length (remove_trailing_json_string (trim_end (butlast out))) < length s" by linarith
  then show ?case by simp
next
  case (4 s is_object out)
  then have "length out \<le> length s" "length out \<noteq> length s" by simp_all
  then show ?case by simp
next
  case (5 s is_object out start)
  then have "start < length out" by (auto dest: trailing_start_less split: if_splits)
  moreover have "length out \<le> length s" by (simp add: 5)
  ultimately show ?case by simp
qed simp

declare trim_dangling_json_tail.simps [simp del]

section \<open>The completion\<close>

definition close_string :: "json_scan \<Rightarrow> ustr \<Rightarrow> ustr" where
  "close_string sc s = (if js_in_string sc then (if js_escaped sc then butlast s else s) @ [34] else s)"

definition close_containers :: "uchar list \<Rightarrow> ustr \<Rightarrow> ustr" where
  "close_containers closers out =
     fold (\<lambda>closer out. trim_dangling_json_tail out (closer = 125) @ [closer]) closers out"

definition complete_partial_json :: "(ustr \<Rightarrow> json option) \<Rightarrow> ustr \<Rightarrow> json option" where
  "complete_partial_json from_str input =
     (let s = trim input
      in if s = [] then None
         else (case from_str s of
                 Some v \<Rightarrow> Some v
               | None \<Rightarrow>
                   (let sc = scan_json s in from_str (close_containers (js_closers sc) (close_string sc s)))))"

section \<open>Nothing but a dangling end is dropped\<close>

lemma trim_dangling_prefix: "prefix (trim_dangling_json_tail s is_object) s"
proof (induction s is_object rule: trim_dangling_json_tail.induct)
  case (1 s is_object)
  let ?out = "trim_end s"
  note IH = 1(1) [OF refl] 1(2) [OF refl] 1(3) [OF refl] 1(4) [OF refl]
  have via: "prefix x y \<Longrightarrow> prefix y ?out \<Longrightarrow> prefix x s" for x y
    using trim_end_prefix by (blast intro: prefix_order.trans)
  have inner: "prefix (remove_trailing_json_string (trim_end (butlast ?out))) ?out"
    by (meson prefix_order.trans prefixeq_butlast remove_trailing_prefix trim_end_prefix)
  show ?case
  proof (cases "ends_with_char 44 ?out \<or> is_object \<and> ends_with_char 58 ?out")
    case True
    then show ?thesis
      using IH(1,2) via [OF _ prefixeq_butlast] via [OF _ inner]
      by (subst trim_dangling_json_tail.simps) (simp add: Let_def, blast)
  next
    case plain: False
    show ?thesis
    proof (cases "if is_object then trailing_json_string_start ?out else None")
      case None
      then show ?thesis
        using plain IH(3) [OF _ _ None] trim_end_prefix via [OF _ prefix_order.refl]
        by (subst trim_dangling_json_tail.simps) (auto simp: Let_def)
    next
      case (Some start)
      then show ?thesis
        using plain IH(4) [OF _ _ Some] trim_end_prefix via [OF _ take_is_prefix]
        by (subst trim_dangling_json_tail.simps) (auto simp: Let_def)
    qed
  qed
qed

lemma trim_dangling_closed:
  assumes "c = 125 \<or> c = 93"
  shows "trim_dangling_json_tail (s @ [c]) is_object = s @ [c]"
proof -
  have "trim_end (s @ [c]) = s @ [c]" using assms by (auto simp: trim_end_def is_whitespace_def)
  moreover have "trailing_json_string_start (s @ [c]) = None"
    using assms by (auto simp: trailing_json_string_start_def ends_with_char_def)
  ultimately show ?thesis
    using assms by (subst trim_dangling_json_tail.simps) (auto simp: ends_with_char_def Let_def)
qed

lemma close_containers_closed:
  "set closers \<subseteq> {125, 93} \<Longrightarrow> c = 125 \<or> c = 93 \<Longrightarrow> close_containers closers (s @ [c]) = s @ [c] @ closers"
proof (induction closers arbitrary: s c)
  case (Cons d closers)
  then have "close_containers (d # closers) (s @ [c]) = close_containers closers ((s @ [c]) @ [d])"
    by (simp add: close_containers_def trim_dangling_closed)
  also have "\<dots> = (s @ [c]) @ [d] @ closers" using Cons by (intro Cons.IH) auto
  finally show ?case by simp
qed (simp add: close_containers_def)

lemma close_containers_once:
  assumes "set closers \<subseteq> {125, 93}"
  shows "close_containers closers s =
     (case closers of [] \<Rightarrow> s | c # _ \<Rightarrow> trim_dangling_json_tail s (c = 125) @ closers)"
proof (cases closers)
  case (Cons c rest)
  then have "close_containers closers s = close_containers rest (trim_dangling_json_tail s (c = 125) @ [c])"
    by (simp add: close_containers_def)
  also have "\<dots> = trim_dangling_json_tail s (c = 125) @ [c] @ rest"
    using assms Cons by (intro close_containers_closed) auto
  finally show ?thesis by (simp add: Cons)
qed (simp add: close_containers_def)

lemma scan_closers: "set (js_closers (scan_json s)) \<subseteq> {125, 93}"
proof -
  have "set (js_closers sc) \<subseteq> {125, 93} \<Longrightarrow> set (js_closers (fold scan_byte s sc)) \<subseteq> {125, 93}" for sc
  proof (induction s arbitrary: sc)
    case (Cons c s)
    have "set (js_closers (scan_byte c sc)) \<subseteq> {125, 93}"
      using Cons.prems by (cases "js_closers sc") (auto simp: scan_byte_def)
    then show ?case using Cons.IH by simp
  qed simp
  then show ?thesis by (simp add: scan_json_def)
qed

text \<open>
  Completing streamed arguments parses the text itself when it is whole. Otherwise it parses a
  beginning of the received text, with an open string closed, followed by exactly the closers of
  the containers that are still open, innermost first: nothing that was received is changed, only
  an end of it can be left out, and without an open container nothing is left out.
\<close>

theorem completion_keeps_received_text:
  "complete_partial_json from_str input =
     (if trim input = [] then None
      else (case from_str (trim input) of
              Some v \<Rightarrow> Some v
            | None \<Rightarrow> (let sc = scan_json (trim input);
                           kept = (case js_closers sc of
                                     [] \<Rightarrow> close_string sc (trim input)
                                   | c # _ \<Rightarrow> trim_dangling_json_tail (close_string sc (trim input)) (c = 125))
                       in from_str (kept @ js_closers sc)))) \<and>
   prefix (trim_dangling_json_tail s is_object) s"
  using close_containers_once [OF scan_closers [of "trim input"]] trim_dangling_prefix
  by (auto simp: complete_partial_json_def Let_def split: option.split list.split)

end
