(* ===== verification/Agent_Stream.thy ===== *)
theory Agent_Stream
  imports Agent_State Partial_Json
begin

text \<open>
  Streaming one response of the provider (\<open>stream_assistant_response\<close> of \<open>src/src/agent.rs\<close>): the
  context of the request, the partial message that grows in the history while events arrive, and
  its replacement by the final message at the end, on an error, or when the run is aborted.
  A response is a finite list of items; nothing is assumed of their order or their indices.
\<close>

section \<open>The context of a request\<close>

definition BLOCK_IMAGES_PLACEHOLDER :: ustr where
  "BLOCK_IMAGES_PLACEHOLDER = lit ''Image reading is disabled.''"

definition is_placeholder :: "content_block \<Rightarrow> bool" where
  "is_placeholder b = (case b of TextBlock t s \<Rightarrow> t = BLOCK_IMAGES_PLACEHOLDER | _ \<Rightarrow> False)"

definition filter_image_step :: "content_block \<Rightarrow> content_block list \<Rightarrow> content_block list" where
  "filter_image_step b filtered =
     (case b of
        ImageBlock d mime \<Rightarrow>
          if filtered \<noteq> [] \<and> is_placeholder (last filtered) then filtered
          else filtered @ [TextBlock BLOCK_IMAGES_PLACEHOLDER None]
      | _ \<Rightarrow> filtered @ [b])"

definition filter_image_blocks :: "content_block list \<Rightarrow> content_block list" where
  "filter_image_blocks blocks = fold filter_image_step blocks []"

definition filter_images_from_message :: "message \<Rightarrow> message" where
  "filter_images_from_message m =
     (case m of
        UserMessage content ts \<Rightarrow>
          (case content of
             TextContent t \<Rightarrow> m
           | BlocksContent blocks \<Rightarrow> UserMessage (BlocksContent (filter_image_blocks blocks)) ts)
      | AssistantMessage a \<Rightarrow> AssistantMessage (a\<lparr>as_content := filter_image_blocks (as_content a)\<rparr>)
      | ToolResultMessage r \<Rightarrow> ToolResultMessage (r\<lparr>tr_content := filter_image_blocks (tr_content r)\<rparr>)
      | CustomMessage c \<Rightarrow> m)"

definition is_shown :: "message \<Rightarrow> bool" where
  "is_shown m = (case m of CustomMessage c \<Rightarrow> cm_display c | _ \<Rightarrow> True)"

definition build_context :: "agent_env \<Rightarrow> message list \<Rightarrow> message list" where
  "build_context env ms =
     (if ae_block_images env then map filter_images_from_message (filter is_shown ms)
      else if list_ex (\<lambda>m. \<not> is_shown m) ms then filter is_shown ms
      else ms)"

section \<open>Final messages\<close>

definition no_usage :: usage where
  "no_usage = \<lparr>us_input = 0, us_output = 0, us_cache_read = 0, us_cache_write = 0, us_total_tokens = 0\<rparr>"

definition empty_assistant :: "agent_env \<Rightarrow> int \<Rightarrow> stop_reason \<Rightarrow> ustr option \<Rightarrow> assistant_message" where
  "empty_assistant env now stop err =
     \<lparr>as_content = [], as_api = ae_api env, as_provider = ae_provider env, as_model = ae_model env,
      as_usage = no_usage, as_stop_reason = stop, as_stop_details = None, as_error_message = err,
      as_timestamp = now\<rparr>"

definition build_abort_message :: "agent_env \<Rightarrow> int \<Rightarrow> assistant_message option \<Rightarrow> assistant_message" where
  "build_abort_message env now partial =
     (case partial of
        Some a \<Rightarrow> a
      | None \<Rightarrow> empty_assistant env now Aborted (Some (lit ''Aborted'')))
     \<lparr>as_stop_reason := Aborted, as_error_message := Some (lit ''Aborted''), as_timestamp := now\<rparr>"

definition build_error_message :: "agent_env \<Rightarrow> int \<Rightarrow> assistant_message option \<Rightarrow> ustr \<Rightarrow> assistant_message" where
  "build_error_message env now partial err =
     (case partial of
        Some a \<Rightarrow> a
      | None \<Rightarrow> empty_assistant env now StopError (Some err))
     \<lparr>as_stop_reason := StopError, as_error_message := Some err, as_timestamp := now\<rparr>"

definition TRUNCATED_TOOL_CALL_ERROR :: ustr where
  "TRUNCATED_TOOL_CALL_ERROR =
     lit ''Model output truncated before tool call completed (provider stop reason: length); '' @
     lit ''the incomplete tool call was not executed''"

definition NO_DONE_ERROR :: ustr where
  "NO_DONE_ERROR = lit ''Stream ended without Done event''"

definition extract_tool_calls :: "content_block list \<Rightarrow> tool_call_block list" where
  "extract_tool_calls content =
     List.map_filter (\<lambda>b. case b of ToolCallBlock c \<Rightarrow> Some c | _ \<Rightarrow> None) content"

definition is_complete_tool_call :: "tool_call_block \<Rightarrow> bool" where
  "is_complete_tool_call c \<longleftrightarrow> trim (tcb_name c) \<noteq> [] \<and> tcb_arguments c \<noteq> JNull"

definition is_truncated_before_tool_call :: "assistant_message \<Rightarrow> bool \<Rightarrow> bool" where
  "is_truncated_before_tool_call a tool_call_started =
     (if as_stop_reason a \<noteq> Length then False
      else if list_ex is_complete_tool_call (extract_tool_calls (as_content a)) then False
      else tool_call_started \<or> extract_tool_calls (as_content a) \<noteq> [])"

section \<open>The last assistant message of the history\<close>

fun first_assistant :: "message list \<Rightarrow> assistant_message option" where
  "first_assistant [] = None"
| "first_assistant (AssistantMessage a # ms) = Some a"
| "first_assistant (m # ms) = first_assistant ms"

definition last_assistant :: "message list \<Rightarrow> assistant_message option" where
  "last_assistant ms = first_assistant (rev ms)"

fun set_first_assistant :: "assistant_message \<Rightarrow> message list \<Rightarrow> message list" where
  "set_first_assistant x [] = []"
| "set_first_assistant x (AssistantMessage a # ms) = AssistantMessage x # ms"
| "set_first_assistant x (m # ms) = m # set_first_assistant x ms"

definition set_last_assistant :: "assistant_message \<Rightarrow> message list \<Rightarrow> message list" where
  "set_last_assistant x ms = rev (set_first_assistant x (rev ms))"

definition replace_last :: "assistant_message \<Rightarrow> agent \<Rightarrow> agent" where
  "replace_last x st = st\<lparr>ag_messages := set_last_assistant x (ag_messages st)\<rparr>"

text \<open>The variables of the loop.\<close>

record stream_vars =
  sv_added_partial :: bool
  sv_sent_start :: bool
  sv_raw_args :: "usize \<rightharpoonup> ustr"
  sv_tool_call_started :: bool

definition seed_partial_message_if_missing :: "agent_env \<Rightarrow> stream_vars \<times> agent \<Rightarrow> stream_vars \<times> agent" where
  "seed_partial_message_if_missing env = (\<lambda>(sv, st).
     if sv_added_partial sv then (sv, st)
     else (sv\<lparr>sv_added_partial := True\<rparr>,
           push_message (AssistantMessage (empty_assistant env (ae_now env (ag_tick st)) Stop None)) st))"

definition update_partial_message :: "assistant_message \<Rightarrow> stream_vars \<times> agent \<Rightarrow> stream_vars \<times> agent" where
  "update_partial_message a = (\<lambda>(sv, st).
     if sv_added_partial sv then
       (sv, case last_assistant (ag_messages st) of
              Some _ \<Rightarrow> replace_last a st
            | None \<Rightarrow> push_message (AssistantMessage a) st)
     else (sv\<lparr>sv_added_partial := True\<rparr>, push_message (AssistantMessage a) st))"

definition finalize_assistant_message :: "assistant_message \<Rightarrow> bool \<Rightarrow> agent \<Rightarrow> assistant_message \<times> agent" where
  "finalize_assistant_message a added_partial st =
     (let st1 =
        (if added_partial then
           (case last_assistant (ag_messages st) of
              Some _ \<Rightarrow> replace_last a st
            | None \<Rightarrow> emit (MessageStart (AssistantMessage a)) (push_message (AssistantMessage a) st))
         else emit (MessageStart (AssistantMessage a)) (push_message (AssistantMessage a) st))
      in (a, emit (MessageEnd (AssistantMessage a)) st1))"

section \<open>Events of the stream\<close>

definition ensure_block :: "usize \<Rightarrow> content_block \<Rightarrow> content_block list \<Rightarrow> content_block list" where
  "ensure_block i b content = (if i = length content then content @ [b] else content)"

definition modify_block :: "usize \<Rightarrow> (content_block \<Rightarrow> content_block) \<Rightarrow> content_block list \<Rightarrow> content_block list" where
  "modify_block i f content = (if i < length content then content[i := f (content ! i)] else content)"

definition edit_text :: "(ustr \<Rightarrow> ustr) \<Rightarrow> content_block \<Rightarrow> content_block" where
  "edit_text f b = (case b of TextBlock t s \<Rightarrow> TextBlock (f t) s | _ \<Rightarrow> b)"

definition edit_thinking :: "(ustr \<Rightarrow> ustr) \<Rightarrow> content_block \<Rightarrow> content_block" where
  "edit_thinking f b = (case b of ThinkingBlock t s \<Rightarrow> ThinkingBlock (f t) s | _ \<Rightarrow> b)"

definition edit_call :: "(tool_call_block \<Rightarrow> tool_call_block) \<Rightarrow> content_block \<Rightarrow> content_block" where
  "edit_call f b = (case b of ToolCallBlock c \<Rightarrow> ToolCallBlock (f c) | _ \<Rightarrow> b)"

definition new_call :: "ustr \<Rightarrow> ustr \<Rightarrow> tool_call_block" where
  "new_call i name = \<lparr>tcb_id = i, tcb_name = name, tcb_arguments = JNull, tcb_thought_signature = None\<rparr>"

text \<open>
  What the arms for deltas share: the partial message is created when it is missing, its content
  edited, and the start announced once.
\<close>

definition edit_partial ::
  "agent_env \<Rightarrow> (content_block list \<Rightarrow> content_block list) \<Rightarrow> (assistant_message \<Rightarrow> assistant_event) \<Rightarrow>
     stream_vars \<times> agent \<Rightarrow> stream_vars \<times> agent" where
  "edit_partial env f ev vs =
     (let (sv, st) = seed_partial_message_if_missing env vs
      in case last_assistant (ag_messages st) of
           None \<Rightarrow> (sv, st)
         | Some a \<Rightarrow>
             (let a' = a\<lparr>as_content := f (as_content a)\<rparr>;
                  st1 = replace_last a' st;
                  st2 = (if sv_sent_start sv then st1 else emit (MessageStart (AssistantMessage a')) st1)
              in (sv\<lparr>sv_sent_start := True\<rparr>, emit (MessageUpdate (AssistantMessage a') (ev a')) st2)))"

definition merge_start :: "assistant_message \<Rightarrow> assistant_message \<Rightarrow> assistant_message" where
  "merge_start partial a =
     (if as_content a = [] then partial
      else a\<lparr>as_api := as_api partial, as_provider := as_provider partial, as_model := as_model partial,
             as_usage := as_usage partial, as_stop_reason := as_stop_reason partial,
             as_error_message := as_error_message partial, as_timestamp := as_timestamp partial\<rparr>)"

definition announce_new :: "assistant_message \<Rightarrow> stream_vars \<times> agent \<Rightarrow> stream_vars \<times> agent" where
  "announce_new a vs =
     (let (sv, st) = update_partial_message a vs
      in (sv\<lparr>sv_sent_start := True\<rparr>,
          emit (MessageUpdate (AssistantMessage a) (AeStart a)) (emit (MessageStart (AssistantMessage a)) st)))"

definition handle_start :: "assistant_message \<Rightarrow> stream_vars \<times> agent \<Rightarrow> stream_vars \<times> agent" where
  "handle_start partial = (\<lambda>(sv, st).
     if sv_added_partial sv then
       (case last_assistant (ag_messages st) of
          Some a \<Rightarrow>
            (let a' = merge_start partial a;
                 st1 = replace_last a' st;
                 st2 = (if sv_sent_start sv then st1 else emit (MessageStart (AssistantMessage a')) st1)
             in (sv\<lparr>sv_sent_start := True\<rparr>, emit (MessageUpdate (AssistantMessage a') (AeStart a')) st2))
        | None \<Rightarrow> announce_new partial (sv, st))
     else announce_new partial (sv, st))"

definition handle_text_start :: "agent_env \<Rightarrow> usize \<Rightarrow> stream_vars \<times> agent \<Rightarrow> stream_vars \<times> agent" where
  "handle_text_start env i vs = edit_partial env (ensure_block i (TextBlock [] None)) (AeTextStart i) vs"

definition handle_text_delta :: "agent_env \<Rightarrow> usize \<Rightarrow> ustr \<Rightarrow> stream_vars \<times> agent \<Rightarrow> stream_vars \<times> agent" where
  "handle_text_delta env i delta vs =
     edit_partial env
       (\<lambda>c. modify_block i (edit_text (\<lambda>t. t @ delta)) (ensure_block i (TextBlock [] None) c))
       (AeTextDelta i delta) vs"

definition handle_text_end :: "agent_env \<Rightarrow> usize \<Rightarrow> ustr \<Rightarrow> stream_vars \<times> agent \<Rightarrow> stream_vars \<times> agent" where
  "handle_text_end env i content vs =
     edit_partial env
       (\<lambda>c. modify_block i (edit_text (\<lambda>t. content)) (ensure_block i (TextBlock [] None) c))
       (AeTextEnd i content) vs"

definition handle_thinking_start :: "agent_env \<Rightarrow> usize \<Rightarrow> stream_vars \<times> agent \<Rightarrow> stream_vars \<times> agent" where
  "handle_thinking_start env i vs = edit_partial env (ensure_block i (ThinkingBlock [] None)) (AeThinkingStart i) vs"

definition handle_thinking_delta :: "agent_env \<Rightarrow> usize \<Rightarrow> ustr \<Rightarrow> stream_vars \<times> agent \<Rightarrow> stream_vars \<times> agent" where
  "handle_thinking_delta env i delta vs =
     edit_partial env
       (\<lambda>c. modify_block i (edit_thinking (\<lambda>t. t @ delta)) (ensure_block i (ThinkingBlock [] None) c))
       (AeThinkingDelta i delta) vs"

definition handle_thinking_end :: "agent_env \<Rightarrow> usize \<Rightarrow> ustr \<Rightarrow> stream_vars \<times> agent \<Rightarrow> stream_vars \<times> agent" where
  "handle_thinking_end env i content vs =
     edit_partial env
       (\<lambda>c. modify_block i (edit_thinking (\<lambda>t. content)) (ensure_block i (ThinkingBlock [] None) c))
       (AeThinkingEnd i content) vs"

text \<open>A call's id and name are filled in when the start event is the first to know them.\<close>

definition handle_tool_call_start ::
  "agent_env \<Rightarrow> usize \<Rightarrow> ustr \<Rightarrow> ustr \<Rightarrow> stream_vars \<times> agent \<Rightarrow> stream_vars \<times> agent" where
  "handle_tool_call_start env i call_id name = (\<lambda>(sv, st).
     edit_partial env
       (\<lambda>c. if i = length c then c @ [ToolCallBlock (new_call call_id name)]
            else modify_block i
                   (edit_call (\<lambda>tc. tc\<lparr>tcb_id := (if tcb_id tc = [] then call_id else tcb_id tc),
                                     tcb_name := (if tcb_name tc = [] then name else tcb_name tc)\<rparr>)) c)
       (AeToolCallStart i) (sv\<lparr>sv_tool_call_started := True\<rparr>, st))"

definition handle_tool_call_delta :: "agent_env \<Rightarrow> usize \<Rightarrow> ustr \<Rightarrow> stream_vars \<times> agent \<Rightarrow> stream_vars \<times> agent" where
  "handle_tool_call_delta env i delta = (\<lambda>(sv, st).
     let raw = (case sv_raw_args sv i of None \<Rightarrow> [] | Some r \<Rightarrow> r) @ delta;
         args = complete_partial_json (ae_json_from_str env) raw
     in edit_partial env
          (\<lambda>c. (let c1 = ensure_block i (ToolCallBlock (new_call [] [])) c
                in case args of
                     None \<Rightarrow> c1
                   | Some v \<Rightarrow> modify_block i (edit_call (\<lambda>tc. tc\<lparr>tcb_arguments := v\<rparr>)) c1))
          (AeToolCallDelta i delta)
          (sv\<lparr>sv_tool_call_started := True, sv_raw_args := (sv_raw_args sv)(i \<mapsto> raw)\<rparr>, st))"

definition handle_tool_call_end ::
  "agent_env \<Rightarrow> usize \<Rightarrow> tool_call_block \<Rightarrow> stream_vars \<times> agent \<Rightarrow> stream_vars \<times> agent" where
  "handle_tool_call_end env i call = (\<lambda>(sv, st).
     edit_partial env
       (\<lambda>c. modify_block i (edit_call (\<lambda>tc. call)) (ensure_block i (ToolCallBlock (new_call [] [])) c))
       (AeToolCallEnd i call) (sv\<lparr>sv_tool_call_started := True\<rparr>, st))"

text \<open>The events that do not end the response.\<close>

definition handle_event :: "agent_env \<Rightarrow> stream_event \<Rightarrow> stream_vars \<times> agent \<Rightarrow> stream_vars \<times> agent" where
  "handle_event env ev vs =
     (case ev of
        StreamStart partial \<Rightarrow> handle_start partial vs
      | TextStart i \<Rightarrow> handle_text_start env i vs
      | TextDelta i delta \<Rightarrow> handle_text_delta env i delta vs
      | TextEnd i content \<Rightarrow> handle_text_end env i content vs
      | ThinkingStart i \<Rightarrow> handle_thinking_start env i vs
      | ThinkingDelta i delta \<Rightarrow> handle_thinking_delta env i delta vs
      | ThinkingEnd i content \<Rightarrow> handle_thinking_end env i content vs
      | ToolCallStart i call_id name \<Rightarrow> handle_tool_call_start env i call_id name vs
      | ToolCallDelta i delta \<Rightarrow> handle_tool_call_delta env i delta vs
      | ToolCallEnd i call \<Rightarrow> handle_tool_call_end env i call vs
      | StreamDone r a \<Rightarrow> vs
      | StreamError r a \<Rightarrow> vs)"

section \<open>The loop\<close>

text \<open>
  An abort is taken before the next item when the task was cancelled, when the signal is already
  set, or when it is set during the wait and seen first.
\<close>

definition interrupted :: "agent_env \<Rightarrow> nat \<Rightarrow> bool" where
  "interrupted env t \<longleftrightarrow>
     ae_cancelled env t \<or> is_aborted env t \<or> ae_abort_first env t \<and> is_aborted env (Suc t)"

definition partial_of :: "stream_vars \<Rightarrow> agent \<Rightarrow> assistant_message option" where
  "partial_of sv st = (if sv_added_partial sv then last_assistant (ag_messages st) else None)"

definition stream_abort :: "agent_env \<Rightarrow> stream_vars \<Rightarrow> agent \<Rightarrow> assistant_message \<times> agent" where
  "stream_abort env sv st =
     (let a = build_abort_message env (ae_now env (ag_tick st)) (partial_of sv st);
          st1 = (if sv_sent_start sv then st
                 else push_message (AssistantMessage a) (emit (MessageStart (AssistantMessage a)) st));
          added = (if sv_sent_start sv then sv_added_partial sv else True);
          st2 = emit (MessageUpdate (AssistantMessage a) (AeError Aborted a)) st1
      in finalize_assistant_message a added st2)"

definition stream_finished :: "stream_vars \<Rightarrow> agent \<Rightarrow> (ustr + assistant_message) \<times> agent" where
  "stream_finished sv st =
     (case partial_of sv st of
        Some a \<Rightarrow>
          map_prod Inr id
            (finalize_assistant_message
               (a\<lparr>as_stop_reason := StopError,
                  as_error_message :=
                    Some (if is_truncated_before_tool_call a (sv_tool_call_started sv)
                          then TRUNCATED_TOOL_CALL_ERROR else NO_DONE_ERROR)\<rparr>) True st)
      | None \<Rightarrow> (Inl NO_DONE_ERROR, st))"

definition stream_done :: "assistant_message \<Rightarrow> stream_vars \<Rightarrow> agent \<Rightarrow> assistant_message \<times> agent" where
  "stream_done a sv st =
     finalize_assistant_message
       (if is_truncated_before_tool_call a (sv_tool_call_started sv)
        then a\<lparr>as_stop_reason := StopError, as_error_message := Some TRUNCATED_TOOL_CALL_ERROR\<rparr>
        else a)
       (sv_added_partial sv) st"

fun stream_loop ::
  "agent_env \<Rightarrow> (ustr + stream_event) list \<Rightarrow> stream_vars \<times> agent \<Rightarrow> (ustr + assistant_message) \<times> agent" where
  "stream_loop env [] (sv, st) =
     (if interrupted env (ag_tick st) then map_prod Inr id (stream_abort env sv (tick st))
      else stream_finished sv (tick st))"
| "stream_loop env (item # items) (sv, st) =
     (if interrupted env (ag_tick st) then map_prod Inr id (stream_abort env sv (tick st))
      else
        (case item of
           Inl err \<Rightarrow>
             map_prod Inr id
               (finalize_assistant_message
                  (build_error_message env (ae_now env (ag_tick st)) (partial_of sv st) err)
                  (sv_added_partial sv) (tick st))
         | Inr (StreamDone r a) \<Rightarrow> map_prod Inr id (stream_done a sv (tick st))
         | Inr (StreamError r a) \<Rightarrow>
             map_prod Inr id (finalize_assistant_message a (sv_added_partial sv) (tick st))
         | Inr ev \<Rightarrow> stream_loop env items (handle_event env ev (sv, tick st))))"

definition fresh_vars :: stream_vars where
  "fresh_vars = \<lparr>sv_added_partial = False, sv_sent_start = False, sv_raw_args = Map.empty, sv_tool_call_started = False\<rparr>"

definition stream_assistant_response :: "agent_env \<Rightarrow> agent \<Rightarrow> (ustr + assistant_message) \<times> agent" where
  "stream_assistant_response env st =
     (let t = ag_tick st;
          base_messages = build_context env (ag_messages st);
          messages = (case ae_context_hook env t base_messages of Some ms \<Rightarrow> ms | None \<Rightarrow> base_messages);
          st1 = (tick st)\<lparr>ag_requests := ag_requests st @ [messages]\<rparr>
      in case ae_stream env (Suc t) messages of
           Inl err \<Rightarrow> (Inl err, tick st1)
         | Inr items \<Rightarrow> stream_loop env items (fresh_vars, tick st1))"


section \<open>What a response leaves behind\<close>

lemmas handle_event_defs =
  handle_event_def handle_text_start_def handle_text_delta_def handle_text_end_def handle_thinking_start_def
  handle_thinking_delta_def handle_thinking_end_def handle_tool_call_start_def handle_tool_call_delta_def
  handle_tool_call_end_def


lemma last_assistant_snoc [simp]:
  "last_assistant (ms @ [AssistantMessage a]) = Some a"
  "set_last_assistant x (ms @ [AssistantMessage a]) = ms @ [AssistantMessage x]"
  by (simp_all add: last_assistant_def set_last_assistant_def)

lemma replace_last_ops [agent_ops]:
  "ag_messages (replace_last x st) = set_last_assistant x (ag_messages st)"
  "ag_new_messages (replace_last x st) = ag_new_messages st" "ag_queue (replace_last x st) = ag_queue st"
  "ag_events (replace_last x st) = ag_events st" "ag_requests (replace_last x st) = ag_requests st"
  "ag_tick (replace_last x st) = ag_tick st" "ag_recent (replace_last x st) = ag_recent st"
  by (simp_all add: replace_last_def)

definition is_update :: "agent_event \<Rightarrow> bool" where
  "is_update e = (case e of MessageUpdate m ev \<Rightarrow> True | _ \<Rightarrow> False)"

lemma is_update_simps [simp]: "is_update (MessageUpdate m ev)"
  by (simp add: is_update_def)

text \<open>Everything but the history and the events is as in \<open>st0\<close>, and time has not gone back.\<close>

definition same_rest :: "agent \<Rightarrow> agent \<Rightarrow> bool" where
  "same_rest st0 st \<longleftrightarrow>
     ag_new_messages st = ag_new_messages st0 \<and> ag_queue st = ag_queue st0 \<and> ag_recent st = ag_recent st0 \<and>
     ag_requests st = ag_requests st0 \<and> ag_tick st0 \<le> ag_tick st"

definition opened :: "agent_event list \<Rightarrow> agent_event list \<Rightarrow> bool" where
  "opened es0 es \<longleftrightarrow> (\<exists>a ups. es = es0 @ MessageStart (AssistantMessage a) # ups \<and> list_all is_update ups)"

lemma opened_start [simp]:
  "list_all is_update ups \<Longrightarrow> opened es0 (es0 @ MessageStart (AssistantMessage a) # ups)"
  unfolding opened_def by auto

lemma opened_update [simp]: "opened es0 es \<Longrightarrow> opened es0 (es @ [MessageUpdate m ev])"
  unfolding opened_def by fastforce

text \<open>The invariant of the loop: \<open>p\<close> is the partial message, the last of the history once it exists.\<close>

definition stream_at :: "agent \<Rightarrow> assistant_message option \<Rightarrow> stream_vars \<Rightarrow> agent \<Rightarrow> bool" where
  "stream_at st0 p sv st \<longleftrightarrow>
     same_rest st0 st \<and> sv_added_partial sv = (p \<noteq> None) \<and> sv_sent_start sv = (p \<noteq> None) \<and>
     (case p of
        None \<Rightarrow> ag_messages st = ag_messages st0 \<and> ag_events st = ag_events st0
      | Some a \<Rightarrow> ag_messages st = ag_messages st0 @ [AssistantMessage a] \<and> opened (ag_events st0) (ag_events st))"

lemma stream_at_simps:
  "stream_at st0 None sv st \<longleftrightarrow>
     same_rest st0 st \<and> \<not> sv_added_partial sv \<and> \<not> sv_sent_start sv \<and>
     ag_messages st = ag_messages st0 \<and> ag_events st = ag_events st0"
  "stream_at st0 (Some a) sv st \<longleftrightarrow>
     same_rest st0 st \<and> sv_added_partial sv \<and> sv_sent_start sv \<and>
     ag_messages st = ag_messages st0 @ [AssistantMessage a] \<and> opened (ag_events st0) (ag_events st)"
  by (simp_all add: stream_at_def)

lemma stream_at_tick: "stream_at st0 p sv st \<Longrightarrow> stream_at st0 p sv (tick st)"
  by (cases p) (auto simp: stream_at_simps same_rest_def agent_ops)

lemma stream_at_vars:
  "stream_at st0 p sv st \<Longrightarrow> stream_at st0 p (sv\<lparr>sv_raw_args := r, sv_tool_call_started := b\<rparr>) st"
  "stream_at st0 p sv st \<Longrightarrow> stream_at st0 p (sv\<lparr>sv_tool_call_started := b, sv_raw_args := r\<rparr>) st"
  "stream_at st0 p sv st \<Longrightarrow> stream_at st0 p (sv\<lparr>sv_tool_call_started := b\<rparr>) st"
  by (simp_all add: stream_at_def)

definition seeded :: "agent_env \<Rightarrow> int \<Rightarrow> assistant_message option \<Rightarrow> assistant_message" where
  "seeded env now p = (case p of None \<Rightarrow> empty_assistant env now Stop None | Some a \<Rightarrow> a)"

definition both_set :: "stream_vars \<Rightarrow> stream_vars" where
  "both_set sv = sv\<lparr>sv_added_partial := True, sv_sent_start := True\<rparr>"

lemma both_set_id: "stream_at st0 (Some a) sv st \<Longrightarrow> both_set sv = sv"
  by (simp add: stream_at_simps both_set_def)

lemma edit_partial_at:
  fixes env st p
  defines "a \<equiv> seeded env (ae_now env (ag_tick st)) p"
  assumes "stream_at st0 p sv st"
  shows "fst (edit_partial env f ev (sv, st)) = both_set sv \<and>
         stream_at st0 (Some (a\<lparr>as_content := f (as_content a)\<rparr>)) (both_set sv) (snd (edit_partial env f ev (sv, st))) \<and>
         ag_tick (snd (edit_partial env f ev (sv, st))) = ag_tick st"
proof (cases p)
  case None
  with assms(2) show ?thesis
    by (auto simp: a_def edit_partial_def seed_partial_message_if_missing_def stream_at_simps
        same_rest_def agent_ops seeded_def Let_def both_set_def)
next
  case (Some b)
  with assms(2) both_set_id [of st0 b sv st] show ?thesis
    by (auto simp: a_def edit_partial_def seed_partial_message_if_missing_def stream_at_simps
        same_rest_def agent_ops seeded_def Let_def)
qed

lemma handle_start_at:
  assumes "stream_at st0 p sv st"
  shows "fst (handle_start partial (sv, st)) = both_set sv \<and>
         stream_at st0 (Some (case p of None \<Rightarrow> partial | Some a \<Rightarrow> merge_start partial a))
           (both_set sv) (snd (handle_start partial (sv, st))) \<and>
         ag_tick (snd (handle_start partial (sv, st))) = ag_tick st"
proof (cases p)
  case None
  with assms show ?thesis
    by (auto simp: handle_start_def announce_new_def update_partial_message_def
        stream_at_simps same_rest_def agent_ops Let_def both_set_def)
next
  case (Some b)
  with assms both_set_id [of st0 b sv st] show ?thesis
    by (auto simp: handle_start_def stream_at_simps same_rest_def agent_ops Let_def)
qed

definition is_terminal :: "stream_event \<Rightarrow> bool" where
  "is_terminal ev = (case ev of StreamDone r a \<Rightarrow> True | StreamError r a \<Rightarrow> True | _ \<Rightarrow> False)"

lemma edit_partial_some:
  assumes "stream_at st0 p sv st"
  shows "\<exists>p' sv' st'. edit_partial env f ev (sv, st) = (sv', st') \<and> stream_at st0 (Some p') sv' st' \<and> ag_tick st' = ag_tick st"
  using edit_partial_at [OF assms, of env f ev] by (metis prod.collapse)

lemma handle_event_at:
  assumes "stream_at st0 p sv st" and "\<not> is_terminal ev"
  shows "\<exists>p' sv' st'. handle_event env ev (sv, st) = (sv', st') \<and> stream_at st0 (Some p') sv' st' \<and> ag_tick st' = ag_tick st"
proof (cases ev)
  case (StreamStart partial)
  then show ?thesis
    using handle_start_at [OF assms(1), of partial] by (simp add: handle_event_defs) (metis prod.collapse)
qed (use assms(2) in \<open>auto simp: handle_event_defs is_terminal_def Let_def
      intro!: edit_partial_some assms(1) stream_at_vars\<close>)

text \<open>The end of a response: one message more in the history, its events closed.\<close>

definition response_ends :: "agent \<Rightarrow> assistant_message \<Rightarrow> agent \<Rightarrow> bool" where
  "response_ends st0 a st \<longleftrightarrow>
     same_rest st0 st \<and> ag_messages st = ag_messages st0 @ [AssistantMessage a] \<and>
     (\<exists>es. opened (ag_events st0) es \<and> ag_events st = es @ [MessageEnd (AssistantMessage a)])"

lemma finalize_at:
  assumes "stream_at st0 p sv st"
  shows "fst (finalize_assistant_message a (sv_added_partial sv) st) = a"
    and "response_ends st0 a (snd (finalize_assistant_message a (sv_added_partial sv) st))"
  using assms
  by (cases p; auto simp: finalize_assistant_message_def response_ends_def stream_at_simps same_rest_def
      agent_ops Let_def)+

lemma stream_abort_at:
  assumes "stream_at st0 p sv st"
  shows "fst (stream_abort env sv st) = build_abort_message env (ae_now env (ag_tick st)) p"
    and "response_ends st0 (fst (stream_abort env sv st)) (snd (stream_abort env sv st))"
  using assms
  by (cases p; auto simp: stream_abort_def finalize_assistant_message_def response_ends_def stream_at_simps
      same_rest_def partial_of_def agent_ops Let_def)+

lemma partial_of_at: "stream_at st0 p sv st \<Longrightarrow> partial_of sv st = p"
  by (cases p) (auto simp: partial_of_def stream_at_simps)

definition response_leaves :: "agent \<Rightarrow> (ustr + assistant_message) \<times> agent \<Rightarrow> bool" where
  "response_leaves st0 r =
     (case r of
        (Inr a, st) \<Rightarrow> response_ends st0 a st
      | (Inl err, st) \<Rightarrow> same_rest st0 st \<and> ag_messages st = ag_messages st0 \<and> ag_events st = ag_events st0)"

lemma response_leaves_finalize:
  "stream_at st0 p sv st \<Longrightarrow>
     response_leaves st0 (map_prod Inr id (finalize_assistant_message a (sv_added_partial sv) st))"
  using finalize_at [of st0 p sv st a] by (simp add: response_leaves_def map_prod_def case_prod_unfold)

lemma response_leaves_abort:
  "stream_at st0 p sv st \<Longrightarrow> response_leaves st0 (map_prod Inr id (stream_abort env sv st))"
  using stream_abort_at [of st0 p sv st env] by (simp add: response_leaves_def map_prod_def case_prod_unfold)

lemma response_leaves_finished:
  assumes "stream_at st0 p sv st"
  shows "response_leaves st0 (stream_finished sv st)"
proof (cases p)
  case None
  with assms show ?thesis
    by (simp add: stream_finished_def partial_of_at [OF assms] response_leaves_def stream_at_simps)
next
  case (Some a)
  then have "sv_added_partial sv" using assms by (simp add: stream_at_simps)
  with Some response_leaves_finalize [OF assms] show ?thesis
    by (simp add: stream_finished_def partial_of_at [OF assms])
qed

lemma stream_loop_leaves:
  "stream_at st0 p sv st \<Longrightarrow> response_leaves st0 (stream_loop env items (sv, st))"
proof (induction env items "(sv, st)" arbitrary: p sv st rule: stream_loop.induct)
  case (1 env sv st)
  then show ?case
    using response_leaves_abort [OF stream_at_tick] response_leaves_finished [OF stream_at_tick] by auto
next
  case (2 env item items sv st)
  note at = stream_at_tick [OF "2.prems"]
  show ?case
  proof (cases "interrupted env (ag_tick st)")
    case True
    then show ?thesis using response_leaves_abort [OF at] by simp
  next
    case False
    show ?thesis
    proof (cases "\<exists>ev. item = Inr ev \<and> \<not> is_terminal ev")
      case True
      then obtain ev where ev: "item = Inr ev" "\<not> is_terminal ev" by blast
      obtain p' sv' st' where step: "handle_event env ev (sv, tick st) = (sv', st')" "stream_at st0 (Some p') sv' st'"
        using handle_event_at [OF at ev(2)] by blast
      have "stream_loop env (item # items) (sv, st) = stream_loop env items (sv', st')"
        using False ev step(1) by (cases ev) (auto simp: is_terminal_def)
      moreover have "response_leaves st0 (stream_loop env items (sv', st'))"
        using "2.hyps" False ev step by (cases ev) (auto simp: is_terminal_def)
      ultimately show ?thesis by simp
    next
      case terminal: False
      then show ?thesis
        using False response_leaves_finalize [OF at]
        by (auto simp: is_terminal_def stream_done_def split: sum.split stream_event.split)
    qed
  qed
qed


section \<open>What a broken stream keeps\<close>

text \<open>
  What a stream of events means, block by block and without the message it grows in. The index of
  an event names its block; the blocks are numbered in the order in which they first appear, and
  the events of different blocks may be mixed.
\<close>

datatype block_kind = TextKind | ThinkingKind | CallKind

fun event_block :: "stream_event \<Rightarrow> (usize \<times> block_kind) option" where
  "event_block (TextStart i) = Some (i, TextKind)"
| "event_block (TextDelta i d) = Some (i, TextKind)"
| "event_block (TextEnd i c) = Some (i, TextKind)"
| "event_block (ThinkingStart i) = Some (i, ThinkingKind)"
| "event_block (ThinkingDelta i d) = Some (i, ThinkingKind)"
| "event_block (ThinkingEnd i c) = Some (i, ThinkingKind)"
| "event_block (ToolCallStart i x y) = Some (i, CallKind)"
| "event_block (ToolCallDelta i d) = Some (i, CallKind)"
| "event_block (ToolCallEnd i c) = Some (i, CallKind)"
| "event_block ev = None"

definition add_kind :: "stream_event \<Rightarrow> block_kind list \<Rightarrow> block_kind list" where
  "add_kind ev ks =
     (case event_block ev of Some (i, k) \<Rightarrow> if i = length ks then ks @ [k] else ks | None \<Rightarrow> ks)"

definition block_kinds :: "stream_event list \<Rightarrow> block_kind list" where
  "block_kinds evs = fold add_kind evs []"

text \<open>A stream in order: an event belongs to a block seen before, of its kind, or to the next one.\<close>

fun in_order :: "block_kind list \<Rightarrow> stream_event list \<Rightarrow> bool" where
  "in_order ks [] = True"
| "in_order ks (ev # evs) =
     ((case event_block ev of
         Some (i, k) \<Rightarrow> i \<le> length ks \<and> (i < length ks \<longrightarrow> ks ! i = k)
       | None \<Rightarrow> True) \<and> in_order (add_kind ev ks) evs)"

text \<open>The pieces of a text; its text so far, which an end event replaces by the whole.\<close>

definition piece_of :: "usize \<Rightarrow> stream_event \<Rightarrow> ustr option" where
  "piece_of i ev =
     (case ev of
        TextDelta j d \<Rightarrow> if j = i then Some d else None
      | ThinkingDelta j d \<Rightarrow> if j = i then Some d else None
      | _ \<Rightarrow> None)"

definition end_of :: "usize \<Rightarrow> stream_event \<Rightarrow> ustr option" where
  "end_of i ev =
     (case ev of
        TextEnd j c \<Rightarrow> if j = i then Some c else None
      | ThinkingEnd j c \<Rightarrow> if j = i then Some c else None
      | _ \<Rightarrow> None)"

definition pieces :: "usize \<Rightarrow> stream_event list \<Rightarrow> ustr list" where
  "pieces i evs = List.map_filter (piece_of i) evs"

definition text_step :: "usize \<Rightarrow> stream_event \<Rightarrow> ustr \<Rightarrow> ustr" where
  "text_step i ev t =
     (case end_of i ev of
        Some c \<Rightarrow> c
      | None \<Rightarrow> (case piece_of i ev of Some d \<Rightarrow> t @ d | None \<Rightarrow> t))"

definition streamed_text :: "usize \<Rightarrow> stream_event list \<Rightarrow> ustr" where
  "streamed_text i evs = fold (text_step i) evs []"

text \<open>An end event that repeats the pieces before it, as the providers send it.\<close>

definition ends_repeat :: "usize \<Rightarrow> stream_event list \<Rightarrow> bool" where
  "ends_repeat i evs \<longleftrightarrow>
     (\<forall>n < length evs. \<forall>c. end_of i (evs ! n) = Some c \<longrightarrow> c = concat (pieces i (take n evs)))"

text \<open>
  A tool call: its id and name from its start, its arguments the latest readable completion of what
  has arrived of them, and the whole call once its end arrives.
\<close>

definition call_step ::
  "agent_env \<Rightarrow> usize \<Rightarrow> stream_event \<Rightarrow> ustr \<times> tool_call_block \<Rightarrow> ustr \<times> tool_call_block" where
  "call_step env i ev = (\<lambda>(raw, tc).
     case ev of
       ToolCallStart j x y \<Rightarrow>
         if j = i then (raw, tc\<lparr>tcb_id := (if tcb_id tc = [] then x else tcb_id tc),
                              tcb_name := (if tcb_name tc = [] then y else tcb_name tc)\<rparr>)
         else (raw, tc)
     | ToolCallDelta j d \<Rightarrow>
         if j = i then
           (raw @ d, case complete_partial_json (ae_json_from_str env) (raw @ d) of
                       None \<Rightarrow> tc | Some v \<Rightarrow> tc\<lparr>tcb_arguments := v\<rparr>)
         else (raw, tc)
     | ToolCallEnd j c \<Rightarrow> if j = i then (raw, c) else (raw, tc)
     | _ \<Rightarrow> (raw, tc))"

definition block_call :: "agent_env \<Rightarrow> usize \<Rightarrow> stream_event list \<Rightarrow> ustr \<times> tool_call_block" where
  "block_call env i evs = fold (call_step env i) evs ([], new_call [] [])"

definition streamed_block :: "agent_env \<Rightarrow> stream_event list \<Rightarrow> block_kind \<Rightarrow> usize \<Rightarrow> content_block" where
  "streamed_block env evs k i =
     (case k of
        TextKind \<Rightarrow> TextBlock (streamed_text i evs) None
      | ThinkingKind \<Rightarrow> ThinkingBlock (streamed_text i evs) None
      | CallKind \<Rightarrow> ToolCallBlock (snd (block_call env i evs)))"

definition streamed_content :: "agent_env \<Rightarrow> stream_event list \<Rightarrow> content_block list" where
  "streamed_content env evs =
     map (\<lambda>i. streamed_block env evs (block_kinds evs ! i) i) [0..<length (block_kinds evs)]"

text \<open>The message a start event carries has no content yet.\<close>

definition starts_empty :: "stream_event list \<Rightarrow> bool" where
  "starts_empty evs \<longleftrightarrow> (\<forall>a. StreamStart a \<in> set evs \<longrightarrow> as_content a = [])"

lemma text_pieces:
  "ends_repeat i evs \<Longrightarrow> streamed_text i evs = concat (pieces i evs)"
proof (induction evs rule: rev_induct)
  case (snoc ev evs)
  have "end_of i (evs ! n) = Some c \<Longrightarrow> c = concat (pieces i (take n evs))" if "n < length evs" for n c
  proof -
    assume "end_of i (evs ! n) = Some c"
    then have "end_of i ((evs @ [ev]) ! n) = Some c" using that by (simp add: nth_append)
    moreover have "n < length (evs @ [ev])" using that by simp
    ultimately have "c = concat (pieces i (take n (evs @ [ev])))"
      using snoc.prems unfolding ends_repeat_def by blast
    then show ?thesis using that by simp
  qed
  then have IH: "streamed_text i evs = concat (pieces i evs)" using snoc.IH by (simp add: ends_repeat_def)
  have "c = concat (pieces i evs)" if "end_of i ev = Some c" for c
    using snoc.prems that unfolding ends_repeat_def by (auto dest: spec [of _ "length evs"])
  moreover have "end_of i ev = Some c \<Longrightarrow> piece_of i ev = None" for c
    by (cases ev) (simp_all add: end_of_def piece_of_def)
  ultimately show ?case
    using IH by (auto simp: streamed_text_def text_step_def pieces_def map_filter_def split: option.split)
qed (simp add: streamed_text_def pieces_def map_filter_simps)

text \<open>An event changes its own block only.\<close>

lemma block_snoc:
  "block_kinds (evs @ [ev]) = add_kind ev (block_kinds evs)"
  "streamed_text i (evs @ [ev]) = text_step i ev (streamed_text i evs)"
  "block_call env i (evs @ [ev]) = call_step env i ev (block_call env i evs)"
  by (simp_all add: block_kinds_def streamed_text_def block_call_def)

lemma other_block:
  assumes "\<forall>k. event_block ev \<noteq> Some (i, k)"
  shows "text_step i ev t = t" and "call_step env i ev rc = rc"
  using assms
  by (cases ev; auto simp: text_step_def end_of_def piece_of_def call_step_def)+

lemma in_order_append: "in_order ks (xs @ ys) \<longleftrightarrow> in_order ks xs \<and> in_order (fold add_kind xs ks) ys"
  by (induction xs arbitrary: ks) auto

lemma unseen_block:
  "in_order [] evs \<Longrightarrow> length (block_kinds evs) \<le> i \<Longrightarrow>
     streamed_text i evs = [] \<and> block_call env i evs = ([], new_call [] [])"
proof (induction evs rule: rev_induct)
  case (snoc ev evs)
  have order: "in_order [] evs" "in_order (block_kinds evs) [ev]"
    using snoc.prems(1) unfolding in_order_append block_kinds_def by auto
  then have "length (block_kinds evs) \<le> i" "\<forall>k. event_block ev \<noteq> Some (i, k)"
    using snoc.prems(2) by (auto simp: block_snoc add_kind_def split: option.splits if_splits)
  with snoc.IH [OF order(1)] show ?case by (simp add: block_snoc other_block)
qed (simp add: streamed_text_def block_call_def)

definition run_event :: "agent_env \<Rightarrow> stream_event \<Rightarrow> stream_vars \<times> agent \<Rightarrow> stream_vars \<times> agent" where
  "run_event env ev = (\<lambda>(sv, st). handle_event env ev (sv, tick st))"

definition holds_content :: "agent \<Rightarrow> content_block list \<Rightarrow> stream_vars \<times> agent \<Rightarrow> bool" where
  "holds_content st0 c = (\<lambda>(sv, st).
     \<exists>p. stream_at st0 p sv st \<and> (case p of None \<Rightarrow> [] | Some a \<Rightarrow> as_content a) = c)"

lemma seeded_content: "as_content (seeded env now p) = (case p of None \<Rightarrow> [] | Some a \<Rightarrow> as_content a)"
  by (simp add: seeded_def empty_assistant_def split: option.split)

lemma edit_holds:
  assumes "holds_content st0 c (sv, st)"
  shows "holds_content st0 (f c) (edit_partial env f ev (sv, st))"
proof -
  obtain p where p: "stream_at st0 p sv st" "(case p of None \<Rightarrow> [] | Some a \<Rightarrow> as_content a) = c"
    using assms by (auto simp: holds_content_def)
  note after = edit_partial_at [OF p(1), of env f ev]
  show ?thesis
    unfolding holds_content_def case_prod_unfold
    using after p(2) by (intro exI [of _ "Some _"]) (auto simp: seeded_content)
qed

lemma edit_holds_eq:
  "holds_content st0 c (sv, st) \<Longrightarrow> c' = f c \<Longrightarrow> holds_content st0 c' (edit_partial env f ev (sv, st))"
  by (simp add: edit_holds)

lemma holds_content_tick: "holds_content st0 c (sv, st) \<Longrightarrow> holds_content st0 c (sv, tick st)"
  by (auto simp: holds_content_def intro: stream_at_tick)

lemma holds_content_vars:
  "holds_content st0 c (sv, st) \<Longrightarrow> holds_content st0 c (sv\<lparr>sv_tool_call_started := b, sv_raw_args := r\<rparr>, st)"
  "holds_content st0 c (sv, st) \<Longrightarrow> holds_content st0 c (sv\<lparr>sv_tool_call_started := b\<rparr>, st)"
  unfolding holds_content_def by (auto intro: stream_at_vars)

lemma modify_last [simp]: "modify_block (length c) f (c @ [b]) = c @ [f b]"
  by (simp add: modify_block_def)

lemma ensure_last [simp]: "ensure_block (length c) b' (c @ [b]) = c @ [b]" "ensure_block (length c) b c = c @ [b]"
  by (simp_all add: ensure_block_def)

text \<open>The edit of the content that the arm of an event makes, and the variables it starts from.\<close>

definition event_edit ::
  "agent_env \<Rightarrow> (usize \<rightharpoonup> ustr) \<Rightarrow> stream_event \<Rightarrow> content_block list \<Rightarrow> content_block list" where
  "event_edit env raws ev c =
     (case ev of
        TextStart i \<Rightarrow> ensure_block i (TextBlock [] None) c
      | TextDelta i d \<Rightarrow> modify_block i (edit_text (\<lambda>t. t @ d)) (ensure_block i (TextBlock [] None) c)
      | TextEnd i x \<Rightarrow> modify_block i (edit_text (\<lambda>t. x)) (ensure_block i (TextBlock [] None) c)
      | ThinkingStart i \<Rightarrow> ensure_block i (ThinkingBlock [] None) c
      | ThinkingDelta i d \<Rightarrow> modify_block i (edit_thinking (\<lambda>t. t @ d)) (ensure_block i (ThinkingBlock [] None) c)
      | ThinkingEnd i x \<Rightarrow> modify_block i (edit_thinking (\<lambda>t. x)) (ensure_block i (ThinkingBlock [] None) c)
      | ToolCallStart i x y \<Rightarrow>
          if i = length c then c @ [ToolCallBlock (new_call x y)]
          else modify_block i
                 (edit_call (\<lambda>tc. tc\<lparr>tcb_id := (if tcb_id tc = [] then x else tcb_id tc),
                                   tcb_name := (if tcb_name tc = [] then y else tcb_name tc)\<rparr>)) c
      | ToolCallDelta i d \<Rightarrow>
          (case complete_partial_json (ae_json_from_str env)
                  ((case raws i of None \<Rightarrow> [] | Some r \<Rightarrow> r) @ d) of
             None \<Rightarrow> ensure_block i (ToolCallBlock (new_call [] [])) c
           | Some v \<Rightarrow> modify_block i (edit_call (\<lambda>tc. tc\<lparr>tcb_arguments := v\<rparr>))
                         (ensure_block i (ToolCallBlock (new_call [] [])) c))
      | ToolCallEnd i x \<Rightarrow> modify_block i (edit_call (\<lambda>tc. x)) (ensure_block i (ToolCallBlock (new_call [] [])) c)
      | _ \<Rightarrow> c)"

lemma content_nth:
  "i < length (block_kinds evs) \<Longrightarrow>
     streamed_content env evs ! i = streamed_block env evs (block_kinds evs ! i) i"
  "length (streamed_content env evs) = length (block_kinds evs)"
  by (simp_all add: streamed_content_def)

lemma content_snoc_other:
  assumes "event_block ev = Some (i, k)" and "j \<noteq> i"
  shows "streamed_block env (evs @ [ev]) k' j = streamed_block env evs k' j"
  using assms other_block [of ev j] by (simp add: streamed_block_def block_snoc split: block_kind.split)

lemma content_snoc_old:
  assumes "event_block ev = Some (i, k)" and "i < length (block_kinds evs)"
  shows "streamed_content env (evs @ [ev]) =
     (streamed_content env evs)[i := streamed_block env (evs @ [ev]) (block_kinds evs ! i) i]"
proof (rule nth_equalityI)
  have kinds: "block_kinds (evs @ [ev]) = block_kinds evs"
    using assms by (simp add: block_snoc add_kind_def)
  then show "length (streamed_content env (evs @ [ev])) =
      length ((streamed_content env evs)[i := streamed_block env (evs @ [ev]) (block_kinds evs ! i) i])"
    by (simp add: content_nth)
  fix j assume "j < length (streamed_content env (evs @ [ev]))"
  then show "streamed_content env (evs @ [ev]) ! j =
      (streamed_content env evs)[i := streamed_block env (evs @ [ev]) (block_kinds evs ! i) i] ! j"
    using kinds content_snoc_other [OF assms(1), of j env evs] assms(2)
    by (cases "j = i") (simp_all add: content_nth)
qed

lemma content_snoc_new:
  assumes "event_block ev = Some (length (block_kinds evs), k)"
  shows "streamed_content env (evs @ [ev]) =
     streamed_content env evs @ [streamed_block env (evs @ [ev]) k (length (block_kinds evs))]"
proof -
  have kinds: "block_kinds (evs @ [ev]) = block_kinds evs @ [k]"
    using assms by (simp add: block_snoc add_kind_def)
  show ?thesis
    unfolding streamed_content_def kinds
    using content_snoc_other [OF assms] by (simp add: nth_append)
qed

definition raws_agree :: "agent_env \<Rightarrow> stream_event list \<Rightarrow> (usize \<rightharpoonup> ustr) \<Rightarrow> bool" where
  "raws_agree env evs raws \<longleftrightarrow>
     (\<forall>i. (case raws i of None \<Rightarrow> [] | Some r \<Rightarrow> r) = fst (block_call env i evs))"

text \<open>The edit of an event makes the content of the stream up to the event from that before it.\<close>

lemma event_edit_content:
  assumes "in_order [] evs" and "event_block ev = Some (i, k)" and "i \<le> length (block_kinds evs)"
    and "i < length (block_kinds evs) \<Longrightarrow> block_kinds evs ! i = k" and "raws_agree env evs raws"
  shows "event_edit env raws ev (streamed_content env evs) = streamed_content env (evs @ [ev])"
proof -
  obtain raw tc where call: "block_call env i evs = (raw, tc)" by fastforce
  have raws: "(case raws i of None \<Rightarrow> [] | Some r \<Rightarrow> r) = raw"
    using assms(5) call by (simp add: raws_agree_def)
  show ?thesis
  proof (cases "i = length (block_kinds evs)")
    case True
    define c where "c = streamed_content env evs"
    have len: "i = length c" using True by (simp add: c_def content_nth)
    have fresh: "streamed_text i evs = []" "raw = []" "tc = new_call [] []"
      using unseen_block [OF assms(1), of i env] True call by auto
    have new: "streamed_content env (evs @ [ev]) = c @ [streamed_block env (evs @ [ev]) k i]"
      using content_snoc_new [of ev evs k env] assms(2) True by (simp add: c_def)
    show ?thesis
      unfolding new using assms(2) len raws call fresh
      by (cases ev) (auto simp: event_edit_def streamed_block_def c_def [symmetric]
          block_snoc text_step_def end_of_def piece_of_def call_step_def edit_text_def edit_thinking_def
          edit_call_def new_call_def split: option.splits)
  next
    case False
    then have i: "i < length (block_kinds evs)" "block_kinds evs ! i = k" using assms(3,4) by auto
    have old: "streamed_content env (evs @ [ev]) =
        (streamed_content env evs)[i := streamed_block env (evs @ [ev]) k i]"
      using content_snoc_old [OF assms(2) i(1), of env] i(2) by simp
    have same: "(streamed_content env evs)[i := streamed_block env evs k i] = streamed_content env evs"
      using content_nth(1) [OF i(1), of env] i(2) by (metis list_update_id)
    show ?thesis
      unfolding old using assms(2) i raws call same
      by (cases ev) (auto simp: event_edit_def ensure_block_def modify_block_def content_nth streamed_block_def
          block_snoc text_step_def end_of_def piece_of_def call_step_def edit_text_def edit_thinking_def
          edit_call_def split: option.splits)
  qed
qed

lemma run_event_holds:
  assumes "holds_content st0 c (sv, st)" and "event_block ev = Some ik"
  shows "holds_content st0 (event_edit env (sv_raw_args sv) ev c) (run_event env ev (sv, st))"
proof -
  note at = holds_content_tick [OF assms(1)]
  note edit = edit_holds_eq [OF at] edit_holds_eq [OF holds_content_vars(1) [OF at]]
    edit_holds_eq [OF holds_content_vars(2) [OF at]]
  show ?thesis
    using assms(2)
    by (cases ev) (auto simp: run_event_def handle_event_defs event_edit_def Let_def split: option.splits
        intro!: edit)
qed

lemma start_event_holds:
  assumes "holds_content st0 c (sv, st)" and "as_content partial = []"
  shows "holds_content st0 c (run_event env (StreamStart partial) (sv, st))"
proof -
  obtain p where p: "stream_at st0 p sv (tick st)" "(case p of None \<Rightarrow> [] | Some a \<Rightarrow> as_content a) = c"
    using holds_content_tick [OF assms(1)] by (auto simp: holds_content_def)
  have "as_content (case p of None \<Rightarrow> partial | Some a \<Rightarrow> merge_start partial a) = c"
    using p(2) assms(2) by (auto simp: merge_start_def split: option.splits)
  then show ?thesis
    using handle_start_at [OF p(1), of partial]
    unfolding holds_content_def run_event_def handle_event_def case_prod_unfold fst_conv snd_conv stream_event.case
    by (intro exI [of _ "Some _"]) auto
qed

lemma run_event_raws:
  assumes "stream_at st0 p sv st" and "\<not> is_terminal ev"
  shows "sv_raw_args (fst (run_event env ev (sv, st))) =
     (case ev of
        ToolCallDelta i d \<Rightarrow>
          (sv_raw_args sv)(i \<mapsto> (case sv_raw_args sv i of None \<Rightarrow> [] | Some r \<Rightarrow> r) @ d)
      | _ \<Rightarrow> sv_raw_args sv)"
proof -
  note at = stream_at_tick [OF assms(1)]
  note vars = edit_partial_at [OF at] edit_partial_at [OF stream_at_vars(2) [OF at]]
    edit_partial_at [OF stream_at_vars(3) [OF at]] handle_start_at [OF at]
  show ?thesis
    using assms(2)
    by (cases ev) (simp_all add: run_event_def handle_event_defs is_terminal_def Let_def vars both_set_def)
qed

lemma raws_agree_step:
  assumes "stream_at st0 p sv st" and "\<not> is_terminal ev" and "raws_agree env evs (sv_raw_args sv)"
  shows "raws_agree env (evs @ [ev]) (sv_raw_args (fst (run_event env ev (sv, st))))"
  using assms(3) unfolding run_event_raws [OF assms(1,2)]
  by (cases ev) (auto simp: raws_agree_def block_snoc call_step_def case_prod_unfold)

text \<open>After every event the partial message holds exactly what has been streamed.\<close>

lemma events_hold:
  assumes "holds_content st0 (streamed_content env pre) vs" and "raws_agree env pre (sv_raw_args (fst vs))"
    and "in_order [] pre" and "in_order (block_kinds pre) evs" and "starts_empty evs"
    and "list_all (\<lambda>ev. \<not> is_terminal ev) evs"
  shows "holds_content st0 (streamed_content env (pre @ evs)) (fold (run_event env) evs vs)"
  using assms
proof (induction evs arbitrary: pre vs)
  case (Cons ev evs)
  obtain sv st where vs: "vs = (sv, st)" by fastforce
  obtain p where at: "stream_at st0 p sv st" using Cons.prems(1) vs by (auto simp: holds_content_def)
  have live: "\<not> is_terminal ev" using Cons.prems(6) by simp
  have content: "holds_content st0 (streamed_content env (pre @ [ev])) (run_event env ev (sv, st))"
  proof (cases "event_block ev")
    case None
    then obtain a where a: "ev = StreamStart a" using live by (cases ev) (auto simp: is_terminal_def)
    have "streamed_block env (pre @ [ev]) k i = streamed_block env pre k i" for k i
      using other_block [of ev i] None by (simp add: streamed_block_def block_snoc split: block_kind.split)
    then have "streamed_content env (pre @ [ev]) = streamed_content env pre"
      using None by (simp add: streamed_content_def block_snoc add_kind_def)
    then show ?thesis
      using start_event_holds [of st0 _ sv st a env] Cons.prems(1,5) a vs by (simp add: starts_empty_def)
  next
    case (Some ik)
    obtain i k where ik: "event_block ev = Some (i, k)" using Some by (cases ik) simp
    have "event_edit env (sv_raw_args sv) ev (streamed_content env pre) = streamed_content env (pre @ [ev])"
      using Cons.prems(2,4) ik vs by (intro event_edit_content [OF Cons.prems(3) ik]) auto
    then show ?thesis using run_event_holds [OF Cons.prems(1) [unfolded vs] Some, of env] by simp
  qed
  have order: "in_order [] (pre @ [ev])" "in_order (block_kinds (pre @ [ev])) evs"
    using Cons.prems(3,4) by (auto simp: in_order_append block_snoc block_kinds_def)
  show ?case
    using Cons.IH [OF content _ order] raws_agree_step [OF at live, of env pre] Cons.prems(2,5,6) vs
    by (simp add: starts_empty_def)
qed simp

lemma stream_loop_events:
  assumes "list_all (\<lambda>ev. \<not> is_terminal ev) evs" and "stream_at st0 p sv st"
    and "\<forall>u. ag_tick st \<le> u \<and> u < ag_tick st + length evs \<longrightarrow> \<not> interrupted env u"
  shows "stream_loop env (map Inr evs @ rest) (sv, st) = stream_loop env rest (fold (run_event env) evs (sv, st)) \<and>
         ag_tick (snd (fold (run_event env) evs (sv, st))) = ag_tick st + length evs"
  using assms
proof (induction evs arbitrary: p sv st)
  case (Cons ev evs)
  obtain p' sv' st' where step: "handle_event env ev (sv, tick st) = (sv', st')"
    "stream_at st0 (Some p') sv' st'" "ag_tick st' = Suc (ag_tick st)"
    using handle_event_at [OF stream_at_tick [OF Cons.prems(2)], of ev env] Cons.prems(1) by (auto simp: agent_ops)
  have "\<not> interrupted env (ag_tick st)" using Cons.prems(3) by simp
  then have "stream_loop env (map Inr (ev # evs) @ rest) (sv, st) = stream_loop env (map Inr evs @ rest) (sv', st')"
    using Cons.prems(1) step(1) by (cases ev) (auto simp: is_terminal_def)
  moreover have "fold (run_event env) (ev # evs) (sv, st) = fold (run_event env) evs (sv', st')"
    using step(1) by (simp add: run_event_def)
  moreover have "\<forall>u. ag_tick st' \<le> u \<and> u < ag_tick st' + length evs \<longrightarrow> \<not> interrupted env u"
    using Cons.prems(3) step(3) by simp
  ultimately show ?case
    using Cons.IH [of "Some p'" sv' st'] Cons.prems(1) step(2,3) by simp
qed simp

lemma fold_events_added:
  assumes "list_all (\<lambda>ev. \<not> is_terminal ev) evs" and "stream_at st0 p sv st"
  shows "sv_added_partial (fst (fold (run_event env) evs (sv, st))) \<longleftrightarrow> p \<noteq> None \<or> evs \<noteq> []"
  using assms
proof (induction evs arbitrary: p sv st)
  case Nil
  then show ?case by (simp add: stream_at_def)
next
  case (Cons ev evs)
  obtain p' sv' st' where step: "handle_event env ev (sv, tick st) = (sv', st')" "stream_at st0 (Some p') sv' st'"
    using handle_event_at [OF stream_at_tick [OF Cons.prems(2)], of ev env] Cons.prems(1) by auto
  then show ?case using Cons.IH [of "Some p'" sv' st'] Cons.prems(1) by (simp add: run_event_def)
qed

text \<open>The three ways a stream breaks off keep the partial message.\<close>

lemma broken_off_keeps:
  assumes at: "stream_at st0 (Some p) sv st"
    and broken: "interrupted env (ag_tick st) \<or> rest = [] \<or> (\<exists>err later. rest = Inl err # later)"
  shows "\<exists>a st'. stream_loop env rest (sv, st) = (Inr a, st') \<and> as_content a = as_content p \<and>
           as_stop_reason a \<in> {StopError, Aborted} \<and> response_ends st0 a st'"
proof -
  let ?r = "stream_loop env rest (sv, st)"
  have leaves: "response_leaves st0 ?r" by (rule stream_loop_leaves [OF at])
  have added: "sv_added_partial sv" using at by (simp add: stream_at_simps)
  have abort: "fst (stream_abort env sv (tick st)) = build_abort_message env (ae_now env (ag_tick (tick st))) (Some p)"
    by (rule stream_abort_at(1) [OF stream_at_tick [OF at]])
  have "\<exists>a st'. ?r = (Inr a, st') \<and> as_content a = as_content p \<and> as_stop_reason a \<in> {StopError, Aborted}"
  proof (cases "interrupted env (ag_tick st)")
    case True
    then have "?r = map_prod Inr id (stream_abort env sv (tick st))" by (cases rest) auto
    with abort show ?thesis by (auto simp: build_abort_message_def map_prod_def case_prod_unfold)
  next
    case False
    with broken show ?thesis
      using partial_of_at [OF at] partial_of_at [OF stream_at_tick [OF at]]
      by (auto simp: stream_finished_def finalize_assistant_message_def build_error_message_def Let_def)
  qed
  with leaves show ?thesis by (auto simp: response_leaves_def)
qed

definition sent_messages :: "agent_env \<Rightarrow> agent \<Rightarrow> message list" where
  "sent_messages env st =
     (case ae_context_hook env (ag_tick st) (build_context env (ag_messages st)) of
        Some ms \<Rightarrow> ms
      | None \<Rightarrow> build_context env (ag_messages st))"

definition requested :: "agent_env \<Rightarrow> agent \<Rightarrow> agent" where
  "requested env st = tick ((tick st)\<lparr>ag_requests := ag_requests st @ [sent_messages env st]\<rparr>)"

lemma response_leaves_request: "response_leaves (requested env st) (stream_assistant_response env st)"
proof -
  have start: "stream_at (requested env st) None fresh_vars (requested env st)"
    by (simp add: stream_at_simps same_rest_def fresh_vars_def)
  have eq: "stream_assistant_response env st =
      (case ae_stream env (Suc (ag_tick st)) (sent_messages env st) of
         Inl err \<Rightarrow> (Inl err, requested env st)
       | Inr items \<Rightarrow> stream_loop env items (fresh_vars, requested env st))"
    unfolding stream_assistant_response_def sent_messages_def requested_def Let_def by (rule refl)
  show ?thesis
    unfolding eq using stream_loop_leaves [OF start]
    by (simp add: response_leaves_def same_rest_def split: sum.split)
qed

section \<open>Properties\<close>

text \<open>
  C11: Streaming a response makes one request. A response that is returned, whether it is whole, was
  aborted or broke off, is exactly one assistant message more at the end of the history, the one
  returned, and is announced by one start, then updates, then one end with that message; a request
  that failed leaves history and events alone. The queues and the new messages of the run are not
  touched.
\<close>

theorem response_is_one_message:
  "case stream_assistant_response env st of (r, st') \<Rightarrow>
     (case r of
        Inr a \<Rightarrow>
          ag_messages st' = ag_messages st @ [AssistantMessage a] \<and>
          (\<exists>b ups. ag_events st' =
             ag_events st @ MessageStart (AssistantMessage b) # ups @ [MessageEnd (AssistantMessage a)] \<and>
             list_all is_update ups)
      | Inl err \<Rightarrow> ag_messages st' = ag_messages st \<and> ag_events st' = ag_events st) \<and>
     (\<exists>ms. ag_requests st' = ag_requests st @ [ms]) \<and>
     ag_queue st' = ag_queue st \<and> ag_new_messages st' = ag_new_messages st"
proof -
  obtain r st' where r: "stream_assistant_response env st = (r, st')" by fastforce
  show ?thesis
    using response_leaves_request [of env st] unfolding r
    by (cases r) (auto simp: response_leaves_def response_ends_def opened_def same_rest_def requested_def agent_ops)
qed

text \<open>
  C12: A stream that breaks off after some events, because the run is aborted, the connection fails or
  it ends without its final event, loses none of them: the message that is kept and returned is
  marked as aborted or failed and holds the blocks streamed so far, in their order. The text of a
  block is the pieces that arrived for it, or what its end event said last, which is the same when
  ends repeat the pieces; a tool call that has not ended is kept with its id, its name and the
  latest arguments that could be read. Events of different blocks may be mixed, calls and texts
  may be unfinished, and start events may come anywhere. Taken for granted of the provider: the
  message in a start event has no content, and an event belongs to a block of its kind seen before
  or to the next one.
\<close>

theorem broken_stream_keeps_blocks:
  assumes "evs \<noteq> []" and "list_all (\<lambda>ev. \<not> is_terminal ev) evs" and "in_order [] evs" and "starts_empty evs"
    and "\<forall>u. ag_tick st \<le> u \<and> u < ag_tick st + length evs \<longrightarrow> \<not> interrupted env u"
    and "interrupted env (ag_tick st + length evs) \<or> rest = [] \<or> (\<exists>err later. rest = Inl err # later)"
  shows "\<exists>a st'. stream_loop env (map Inr evs @ rest) (fresh_vars, st) = (Inr a, st') \<and>
           as_content a = streamed_content env evs \<and> as_stop_reason a \<in> {StopError, Aborted} \<and>
           ag_messages st' = ag_messages st @ [AssistantMessage a] \<and>
           (\<forall>i. ends_repeat i evs \<longrightarrow> streamed_text i evs = concat (pieces i evs))"
proof -
  have start: "stream_at st None fresh_vars st" by (simp add: stream_at_simps same_rest_def fresh_vars_def)
  obtain sv1 st1 where run: "fold (run_event env) evs (fresh_vars, st) = (sv1, st1)" by fastforce
  have go: "stream_loop env (map Inr evs @ rest) (fresh_vars, st) = stream_loop env rest (sv1, st1)"
    "ag_tick st1 = ag_tick st + length evs"
    using stream_loop_events [OF assms(2) start assms(5), of rest] run by simp_all
  have "holds_content st (streamed_content env []) (fresh_vars, st)"
    using start by (auto simp: holds_content_def streamed_content_def block_kinds_def)
  moreover have "raws_agree env [] (sv_raw_args fresh_vars)"
    by (simp add: raws_agree_def fresh_vars_def block_call_def)
  ultimately have "holds_content st (streamed_content env evs) (sv1, st1)"
    using events_hold [of st env "[]" "(fresh_vars, st)" evs] assms(2-4) run by (simp add: block_kinds_def)
  moreover have "sv_added_partial sv1"
    using fold_events_added [OF assms(2) start, of env] assms(1) run by simp
  ultimately obtain p where p: "stream_at st (Some p) sv1 st1" "as_content p = streamed_content env evs"
    by (auto simp: holds_content_def stream_at_def split: option.splits)
  show ?thesis
    using broken_off_keeps [OF p(1), of env rest] go p(2) assms(6) text_pieces
    by (auto simp: response_ends_def)
qed


lemma demo_not_interrupted: "\<not> interrupted demo_env t"
  by (simp add: interrupted_def is_aborted_def demo_env_def)

text \<open>
  The connection fails after the start, half a text and the first pieces of a tool call, whose
  events are mixed.
\<close>

definition demo_stream :: "stream_event list" where
  "demo_stream =
     [StreamStart (empty_assistant demo_env 0 Stop None), TextStart 0, TextDelta 0 (lit ''he''),
      ToolCallStart 1 (lit ''c1'') (lit ''read''), TextDelta 0 (lit ''llo''), ToolCallDelta 1 (lit ''{'')]"

theorem broken_stream_keeps_blocks_witness:
  "\<exists>a st'. stream_loop demo_env (map Inr demo_stream @ [Inl (lit ''reset'')]) (fresh_vars, idle_agent) = (Inr a, st') \<and>
     as_content a = [TextBlock (lit ''hello'') None, ToolCallBlock (new_call (lit ''c1'') (lit ''read''))] \<and>
     as_stop_reason a \<in> {StopError, Aborted} \<and> ag_messages st' = ag_messages idle_agent @ [AssistantMessage a]"
proof -
  have evs: "demo_stream \<noteq> []" "list_all (\<lambda>ev. \<not> is_terminal ev) demo_stream" "in_order [] demo_stream"
    "starts_empty demo_stream"
    by (simp_all add: demo_stream_def is_terminal_def add_kind_def starts_empty_def empty_assistant_def)
  have kinds: "block_kinds demo_stream = [TextKind, CallKind]"
    by (simp add: demo_stream_def block_kinds_def add_kind_def)
  have "ae_json_from_str demo_env = (\<lambda>s. None)" by (simp add: demo_env_def)
  then have "snd (block_call demo_env 1 demo_stream) = new_call (lit ''c1'') (lit ''read'')"
    by (simp add: demo_stream_def block_call_def call_step_def new_call_def complete_partial_json_def Let_def lit_def)
  moreover have "streamed_text 0 demo_stream = lit ''hello''"
    by (simp add: demo_stream_def streamed_text_def text_step_def end_of_def piece_of_def lit_def)
  ultimately have "streamed_content demo_env demo_stream =
      [TextBlock (lit ''hello'') None, ToolCallBlock (new_call (lit ''c1'') (lit ''read''))]"
    by (simp add: streamed_content_def kinds streamed_block_def upt_rec)
  then show ?thesis
    using broken_stream_keeps_blocks [OF evs, of idle_agent demo_env "[Inl (lit ''reset'')]"] demo_not_interrupted
    by auto
qed

end
