(* ===== verification/Agent_Tools.thy ===== *)
theory Agent_Tools
  imports Agent_State "HOL-Library.Multiset"
begin

text \<open>
  Executing the tool calls of one response (\<open>execute_tool_calls\<close> of \<open>src/src/agent.rs\<close>): the calls
  run in the batches of the effect plan, every outcome is recorded in the order of the calls, and
  calls that were not run, because a steering message arrived or the run was aborted, are answered
  all the same. What a single call does (\<open>execute_tool\<close>) is the gate of \<open>Tool_Gate\<close>; here it is the
  environment's answer to the call.
\<close>

section \<open>Results\<close>

definition TOOL_CANCELLATION_SCHEMA_V1 :: ustr where
  "TOOL_CANCELLATION_SCHEMA_V1 = lit ''pi.tool.cancellation.v1''"

definition tool_cancellation_details :: "ustr \<Rightarrow> ustr \<Rightarrow> json" where
  "tool_cancellation_details tool_name why =
     JObject [(lit ''schema'', JString TOOL_CANCELLATION_SCHEMA_V1),
              (lit ''status'', JString (lit ''cancelled'')),
              (lit ''reason'', JString why),
              (lit ''toolName'', JString tool_name),
              (lit ''cleanup'', JString (lit ''tool_result_recorded_no_success''))]"

definition denies :: "tool_answer \<Rightarrow> bool" where
  "denies ans =
     (case ta_details ans of
        None \<Rightarrow> False
      | Some d \<Rightarrow> Option.bind (json_get (lit ''schema'') d) json_as_str = Some TOOL_APPROVAL_DENIED_SCHEMA_V1)"

text \<open>The result message enters the history and the new messages, with its two events.\<close>

definition add_result :: "tool_result_message \<Rightarrow> agent \<Rightarrow> agent" where
  "add_result r st =
     (let m = ToolResultMessage r
      in emit (MessageEnd m) (push_new_message m (emit (MessageStart m) (push_message m st))))"

definition call_updated :: "tool_call_block \<Rightarrow> tool_answer \<Rightarrow> agent_event" where
  "call_updated call ans = ToolExecutionUpdate (tcb_id call) (tcb_name call) (tcb_arguments call) ans"

definition record_result ::
  "agent_env \<Rightarrow> tool_call_block \<Rightarrow> tool_answer \<Rightarrow> bool \<Rightarrow> agent \<Rightarrow> tool_result_message \<times> agent" where
  "record_result env call output is_error st =
     (let st1 = emit (call_updated call (output\<lparr>ta_is_error := is_error\<rparr>)) st;
          r = budgeted_tool_result (ae_context_window_tokens env) (ae_now env (ag_tick st)) call
                (ta_content output) (ta_details output) is_error;
          st2 = st1\<lparr>ag_recent := ring_push \<lparr>rc_call = ae_call_fingerprint env call,
                                            rc_result = ae_result_fingerprint env r,
                                            rc_is_error = is_error, rc_denied = denies output\<rparr> (ag_recent st1)\<rparr>;
          st3 = emit (ToolExecutionEnd (tr_tool_call_id r) (tr_tool_name r)
                        \<lparr>ta_content = tr_content r, ta_details = tr_details r, ta_is_error = is_error\<rparr> is_error) st2
      in (r, add_result r st3))"

text \<open>What \<open>skip_tool_call\<close> and the abort branch share: an answer that no tool gave.\<close>

definition answer_without_running ::
  "agent_env \<Rightarrow> tool_call_block \<Rightarrow> tool_answer \<Rightarrow> agent \<Rightarrow> tool_result_message \<times> agent" where
  "answer_without_running env call output st =
     (let st1 = emit (ToolExecutionEnd (tcb_id call) (tcb_name call) output True)
                  (emit (call_updated call output) st);
          r = budgeted_tool_result (ae_context_window_tokens env) (ae_now env (ag_tick st)) call
                (ta_content output) (ta_details output) True
      in (r, add_result r st1))"

definition skipped_output :: tool_answer where
  "skipped_output =
     \<lparr>ta_content = [TextBlock (lit ''Skipped due to queued user message.'') None], ta_details = None, ta_is_error = True\<rparr>"

definition aborted_output :: "tool_call_block \<Rightarrow> tool_answer" where
  "aborted_output call =
     \<lparr>ta_content = [TextBlock (lit ''Tool execution aborted'') None],
      ta_details = Some (tool_cancellation_details (tcb_name call) (lit ''abort_signal'')), ta_is_error = True\<rparr>"

definition skip_tool_call :: "agent_env \<Rightarrow> tool_call_block \<Rightarrow> agent \<Rightarrow> tool_result_message \<times> agent" where
  "skip_tool_call env call st = answer_without_running env call skipped_output st"

section \<open>Batches\<close>

definition execute_tool_batch ::
  "agent_env \<Rightarrow> (usize \<times> tool_call_block) list \<Rightarrow> agent \<Rightarrow> (usize \<times> tool_answer \<times> bool) list \<times> agent" where
  "execute_tool_batch env batch st =
     (let t = ag_tick st
      in (if ae_abort_first env t \<and> is_aborted env (Suc t) then []
          else map (\<lambda>(idx, tc). (idx, ae_run env t tc)) (ae_completion env t batch),
          tick st))"

definition record_one ::
  "agent_env \<Rightarrow> tool_call_block list \<Rightarrow> usize \<times> tool_answer \<times> bool \<Rightarrow>
     tool_result_message option list \<times> agent \<Rightarrow> tool_result_message option list \<times> agent" where
  "record_one env calls = (\<lambda>(idx, output, is_error) (recorded, st).
     if idx < length calls \<and> idx < length recorded then
       (let (r, st1) = record_result env (calls ! idx) output is_error st
        in (recorded[idx := Some r], st1))
     else (recorded, st))"

fun run_batches ::
  "agent_env \<Rightarrow> tool_call_block list \<Rightarrow> tool_effect_batch list \<Rightarrow> tool_result_message option list \<Rightarrow> agent \<Rightarrow>
     message list option \<times> tool_result_message option list \<times> agent" where
  "run_batches env calls [] recorded st = (None, recorded, st)"
| "run_batches env calls (b # bs) recorded st =
     (if is_aborted env (ag_tick st) then (None, recorded, st)
      else
        (let (steering, st1) = drain_steering_messages env st
         in if steering \<noteq> [] then (Some steering, recorded, st1)
            else
              (let batch = take (batch_end b - batch_start b) (drop (batch_start b) (List.enumerate 0 calls));
                   (batch_results, st2) = execute_tool_batch env batch st1;
                   (recorded1, st3) = fold (record_one env calls) (sort_key fst batch_results) (recorded, st2)
               in run_batches env calls bs recorded1 st3)))"

section \<open>The calls of a response\<close>

definition check_steering :: "agent_env \<Rightarrow> message list option \<Rightarrow> agent \<Rightarrow> message list option \<times> agent" where
  "check_steering env steering st =
     (if steering = None \<and> \<not> is_aborted env (ag_tick st) then
        (let (ms, st1) = drain_steering_messages env st
         in (if ms \<noteq> [] then Some ms else None, st1))
      else (steering, st))"

fun finish_calls ::
  "agent_env \<Rightarrow> tool_result_message option list \<Rightarrow> (usize \<times> tool_call_block) list \<Rightarrow> message list option \<Rightarrow> agent \<Rightarrow>
     tool_result_message list \<times> message list option \<times> agent" where
  "finish_calls env recorded [] steering st = ([], steering, st)"
| "finish_calls env recorded ((i, call) # rest) steering st =
     (let (steering1, st1) = check_steering env steering st;
          (r, st2) =
            (case (if i < length recorded then recorded ! i else None) of
               Some r \<Rightarrow> (r, st1)
             | None \<Rightarrow>
                 if steering1 \<noteq> None then skip_tool_call env call st1
                 else answer_without_running env call (aborted_output call) st1);
          (rs, steering2, st3) = finish_calls env recorded rest steering1 st2
      in (r # rs, steering2, st3))"

definition effect_plan :: "agent_env \<Rightarrow> tool_call_block list \<Rightarrow> tool_effects list" where
  "effect_plan env calls =
     map (\<lambda>c. case ae_effects env (tcb_name c) of None \<Rightarrow> effects_write | Some e \<Rightarrow> e) calls"

definition announce_calls :: "tool_call_block list \<Rightarrow> agent \<Rightarrow> agent" where
  "announce_calls calls st =
     fold (\<lambda>c. emit (ToolExecutionStart (tcb_id c) (tcb_name c) (tcb_arguments c))) calls st"

definition execute_tool_calls ::
  "agent_env \<Rightarrow> tool_call_block list \<Rightarrow> agent \<Rightarrow> tool_result_message list \<times> message list option \<times> agent" where
  "execute_tool_calls env calls st =
     (let st1 = announce_calls calls st;
          batches = plan_tool_effect_batches (effect_plan env calls);
          (steering, recorded, st2) = run_batches env calls batches (replicate (length calls) None) st1
      in finish_calls env recorded (List.enumerate 0 calls) steering st2)"

section \<open>What answering adds\<close>

definition start_ids :: "agent_event list \<Rightarrow> ustr list" where
  "start_ids es = List.map_filter (\<lambda>e. case e of ToolExecutionStart i n a \<Rightarrow> Some i | _ \<Rightarrow> None) es"

definition end_ids :: "agent_event list \<Rightarrow> ustr list" where
  "end_ids es = List.map_filter (\<lambda>e. case e of ToolExecutionEnd i n a b \<Rightarrow> Some i | _ \<Rightarrow> None) es"

text \<open>The events of tool execution: anything but the start and end of turns and of the run.\<close>

definition is_tool_event :: "agent_event \<Rightarrow> bool" where
  "is_tool_event e =
     (case e of
        AgentStart \<Rightarrow> False | AgentEnd ms err \<Rightarrow> False | TurnStart i now \<Rightarrow> False | TurnEnd i m rs \<Rightarrow> False
      | _ \<Rightarrow> True)"

lemma ids_append [simp]:
  "start_ids (es @ es') = start_ids es @ start_ids es'" "end_ids (es @ es') = end_ids es @ end_ids es'"
  by (simp_all add: start_ids_def end_ids_def List.map_filter_def)

lemma ids_simps [simp]:
  "start_ids [] = []" "end_ids [] = []"
  "start_ids (ToolExecutionStart i n a # es) = i # start_ids es"
  "end_ids (ToolExecutionStart i n a # es) = end_ids es"
  "start_ids (ToolExecutionEnd i n x b # es) = start_ids es"
  "end_ids (ToolExecutionEnd i n x b # es) = i # end_ids es"
  "start_ids (ToolExecutionUpdate i n a x # es) = start_ids es"
  "end_ids (ToolExecutionUpdate i n a x # es) = end_ids es"
  "start_ids (MessageStart m # es) = start_ids es" "end_ids (MessageStart m # es) = end_ids es"
  "start_ids (MessageEnd m # es) = start_ids es" "end_ids (MessageEnd m # es) = end_ids es"
  by (simp_all add: start_ids_def end_ids_def List.map_filter_def)

text \<open>
  From \<open>st\<close> to \<open>st'\<close> exactly the results \<open>rs\<close> were added, each with its end event, and exactly the
  messages \<open>ds\<close> were taken from the queue.
\<close>

definition adds :: "agent_env \<Rightarrow> agent \<Rightarrow> tool_result_message list \<Rightarrow> message list \<Rightarrow> agent \<Rightarrow> bool" where
  "adds env st rs ds st' \<longleftrightarrow>
     ag_messages st' = ag_messages st @ map ToolResultMessage rs \<and>
     ag_new_messages st' = ag_new_messages st @ map ToolResultMessage rs \<and>
     ag_requests st' = ag_requests st \<and> ag_tick st \<le> ag_tick st' \<and>
     (\<exists>es. ag_events st' = ag_events st @ es \<and> list_all is_tool_event es \<and> start_ids es = [] \<and>
           end_ids es = map tr_tool_call_id rs) \<and>
     drains env (ag_queue st) (ag_tick st) ds (ag_queue st')"

lemma adds_refl [simp]: "adds env st [] [] st"
  by (auto simp: adds_def)

lemma adds_trans:
  assumes "adds env st rs ds st'" and "adds env st' rs' ds' st''"
  shows "adds env st (rs @ rs') (ds @ ds') st''"
proof -
  obtain es es' where "ag_events st' = ag_events st @ es" "list_all is_tool_event es" "start_ids es = []"
    "end_ids es = map tr_tool_call_id rs" "ag_events st'' = ag_events st' @ es'" "list_all is_tool_event es'"
    "start_ids es' = []" "end_ids es' = map tr_tool_call_id rs'"
    using assms unfolding adds_def by blast
  then have "ag_events st'' = ag_events st @ (es @ es') \<and> list_all is_tool_event (es @ es') \<and> start_ids (es @ es') = [] \<and>
      end_ids (es @ es') = map tr_tool_call_id (rs @ rs')" by simp
  then have "\<exists>es. ag_events st'' = ag_events st @ es \<and> list_all is_tool_event es \<and> start_ids es = [] \<and>
      end_ids es = map tr_tool_call_id (rs @ rs')" by blast
  then show ?thesis using assms drains_trans unfolding adds_def by auto
qed

lemma adds_tick: "adds env st [] [] (tick st)"
  by (auto simp: adds_def agent_ops)

lemma adds_drain: "drain_steering_messages env st = (ms, st') \<Longrightarrow> adds env st [] ms st'"
  using drain_same(1) [of env st ms st'] drain_steering_drains [of env st ms st']
  by (auto simp: adds_def dest: same_but_queue_fields)

lemma budgeted_ids [simp]:
  "tr_tool_call_id (budgeted_tool_result w now call c d e) = tcb_id call"
  "tr_tool_name (budgeted_tool_result w now call c d e) = tcb_name call"
  "tr_is_error (budgeted_tool_result w now call c d e) = e"
  by (simp_all add: budgeted_tool_result_def)

lemma record_result_adds:
  assumes "record_result env call output is_error st = (r, st')"
  shows "adds env st [r] [] st'"
    and "r = budgeted_tool_result (ae_context_window_tokens env) (ae_now env (ag_tick st)) call
               (ta_content output) (ta_details output) is_error"
    and "ag_tick st' = ag_tick st"
  using assms by (auto simp: record_result_def Let_def adds_def add_result_def agent_ops call_updated_def is_tool_event_def)

lemma answer_adds:
  assumes "answer_without_running env call output st = (r, st')"
  shows "adds env st [r] [] st'"
    and "r = budgeted_tool_result (ae_context_window_tokens env) (ae_now env (ag_tick st)) call
               (ta_content output) (ta_details output) True"
    and "ag_tick st' = ag_tick st"
  using assms by (auto simp: answer_without_running_def Let_def adds_def add_result_def agent_ops call_updated_def is_tool_event_def)


text \<open>The steering messages that an execution hands back.\<close>

definition handed :: "message list option \<Rightarrow> message list" where
  "handed steering = (case steering of None \<Rightarrow> [] | Some ms \<Rightarrow> ms)"

lemma handed_simps [simp]: "handed None = []" "handed (Some ms) = ms"
  by (simp_all add: handed_def)

section \<open>The recorded results are a prefix of the calls\<close>

definition run_answer :: "agent_env \<Rightarrow> tool_call_block \<Rightarrow> tool_result_message \<Rightarrow> bool" where
  "run_answer env call r \<longleftrightarrow>
     (\<exists>t now ans is_error. ae_run env t call = (ans, is_error) \<and>
        r = budgeted_tool_result (ae_context_window_tokens env) now call (ta_content ans) (ta_details ans) is_error)"

definition unrun_answer :: "agent_env \<Rightarrow> bool \<Rightarrow> tool_call_block \<Rightarrow> tool_result_message \<Rightarrow> bool" where
  "unrun_answer env steered call r \<longleftrightarrow>
     (\<exists>now. r = budgeted_tool_result (ae_context_window_tokens env) now call
               (ta_content (if steered then skipped_output else aborted_output call))
               (ta_details (if steered then skipped_output else aborted_output call)) True)"

text \<open>The order in which a batch finishes is some order of the batch.\<close>

definition completes_all :: "agent_env \<Rightarrow> bool" where
  "completes_all env \<longleftrightarrow> (\<forall>t batch. mset (ae_completion env t batch) = mset batch)"

lemma is_aborted_mono: "is_aborted env t \<Longrightarrow> t \<le> u \<Longrightarrow> is_aborted env u"
  by (auto simp: is_aborted_def split: option.splits)

definition recorded_prefix ::
  "agent_env \<Rightarrow> tool_call_block list \<Rightarrow> tool_result_message option list \<Rightarrow> tool_result_message list \<Rightarrow> bool" where
  "recorded_prefix env calls recorded rs \<longleftrightarrow>
     length rs \<le> length calls \<and> recorded = map Some rs @ replicate (length calls - length rs) None \<and>
     list_all2 (run_answer env) (take (length rs) calls) rs"

lemma recorded_prefix_nth:
  "recorded_prefix env calls recorded rs \<Longrightarrow> i < length calls \<Longrightarrow>
     i < length recorded \<and> recorded ! i = (if i < length rs then Some (rs ! i) else None)"
  by (auto simp: recorded_prefix_def nth_append)

lemma record_next:
  assumes "recorded_prefix env calls recorded rs" and "length rs < length calls"
  shows "\<exists>r recorded1 st1. record_one env calls (length rs, ae_run env t (calls ! length rs)) (recorded, st) = (recorded1, st1) \<and>
           recorded_prefix env calls recorded1 (rs @ [r]) \<and> adds env st [r] [] st1 \<and> ag_tick st1 = ag_tick st"
proof -
  obtain ans e where run: "ae_run env t (calls ! length rs) = (ans, e)" by fastforce
  obtain r st1 where rec: "record_result env (calls ! length rs) ans e st = (r, st1)" by fastforce
  have "run_answer env (calls ! length rs) r"
    unfolding run_answer_def using run record_result_adds(2) [OF rec] by blast
  moreover have "recorded[length rs := Some r] = map Some (rs @ [r]) @ replicate (length calls - length (rs @ [r])) None"
    using assms Suc_diff_Suc [OF assms(2), symmetric] by (auto simp: recorded_prefix_def list_update_append)
  ultimately have "recorded_prefix env calls (recorded[length rs := Some r]) (rs @ [r])"
    using assms by (simp add: recorded_prefix_def take_Suc_conv_app_nth list_all2_appendI)
  then show ?thesis
    using assms run rec record_result_adds(1,3) [OF rec] recorded_prefix_nth [OF assms]
    by (intro exI [of _ r]) (simp add: record_one_def)
qed

lemma record_range:
  assumes "recorded_prefix env calls recorded rs" and "length rs + d \<le> length calls"
  shows "\<exists>rs' recorded1 st1.
           fold (record_one env calls) (map (\<lambda>i. (i, ae_run env t (calls ! i))) [length rs..<length rs + d]) (recorded, st)
             = (recorded1, st1) \<and>
           recorded_prefix env calls recorded1 (rs @ rs') \<and> length rs' = d \<and> adds env st rs' [] st1 \<and> ag_tick st1 = ag_tick st"
  using assms
proof (induction d arbitrary: recorded rs st)
  case 0
  then show ?case by simp
next
  case (Suc d)
  obtain r recorded1 st1 where step: "record_one env calls (length rs, ae_run env t (calls ! length rs)) (recorded, st) = (recorded1, st1)"
    "recorded_prefix env calls recorded1 (rs @ [r])" "adds env st [r] [] st1" "ag_tick st1 = ag_tick st"
    using record_next [OF Suc.prems(1)] Suc.prems(2) by fastforce
  obtain rs' recorded2 st2 where rest:
    "fold (record_one env calls) (map (\<lambda>i. (i, ae_run env t (calls ! i))) [length (rs @ [r])..<length (rs @ [r]) + d]) (recorded1, st1)
       = (recorded2, st2)"
    "recorded_prefix env calls recorded2 ((rs @ [r]) @ rs')" "length rs' = d" "adds env st1 rs' [] st2" "ag_tick st2 = ag_tick st1"
    using Suc.IH [OF step(2), of st1] Suc.prems(2) by auto
  have "fold (record_one env calls) (map (\<lambda>i. (i, ae_run env t (calls ! i))) [length rs..<length rs + Suc d]) (recorded, st)
      = (recorded2, st2)"
    using step(1) rest(1) by (simp add: upt_conv_Cons del: upt_Suc)
  then show ?case
    using rest(2-5) adds_trans [OF step(3) rest(4)] step(4) by (intro exI [of _ "r # rs'"]) auto
qed

lemma batch_results_in_order:
  assumes "completes_all env" and "k \<le> e" and "e \<le> length calls"
  shows "sort_key fst (map (\<lambda>(idx, tc). (idx, ae_run env t tc))
           (ae_completion env t (take (e - k) (drop k (List.enumerate 0 calls)))))
         = map (\<lambda>i. (i, ae_run env t (calls ! i))) [k..<e]"
proof -
  have batch: "take (e - k) (drop k (List.enumerate 0 calls)) = map (\<lambda>i. (i, calls ! i)) [k..<e]"
    using assms(2,3) by (intro nth_equalityI) (auto simp: nth_enumerate_eq)
  let ?run = "\<lambda>(idx, tc). (idx, ae_run env t tc)"
  have "mset (map ?run (ae_completion env t (map (\<lambda>i. (i, calls ! i)) [k..<e]))) =
        mset (map ?run (map (\<lambda>i. (i, calls ! i)) [k..<e]))"
    using assms(1) unfolding completes_all_def by (metis mset_map)
  then have "mset (map ?run (ae_completion env t (map (\<lambda>i. (i, calls ! i)) [k..<e]))) =
        mset (map (\<lambda>i. (i, ae_run env t (calls ! i))) [k..<e])"
    by (simp add: comp_def)
  moreover from this have "inj_on fst (set (map ?run (ae_completion env t (map (\<lambda>i. (i, calls ! i)) [k..<e]))))"
    by (metis (no_types, lifting) distinct_map distinct_upt fst_conv map_idI map_map comp_apply mset_eq_setD)
  ultimately show ?thesis
    unfolding batch by (intro sort_key_inj_key_eq) (simp_all add: comp_def)
qed

lemma run_batches_prefix:
  assumes "completes_all env" and "contiguous_from (length rs) bs (length calls)"
    and "recorded_prefix env calls recorded rs"
    and "run_batches env calls bs recorded st = (steering, recorded', st')"
  shows "\<exists>rs'. recorded_prefix env calls recorded' (rs @ rs') \<and> adds env st rs' (handed steering) st' \<and> steering \<noteq> Some [] \<and>
           (length (rs @ rs') < length calls \<longrightarrow> steering \<noteq> None \<or> is_aborted env (ag_tick st'))"
  using assms
proof (induction bs arbitrary: rs recorded st)
  case Nil
  then show ?case by (intro exI [of _ "[]"]) auto
next
  case (Cons b bs)
  show ?case
  proof (cases "is_aborted env (ag_tick st)")
    case True
    with Cons.prems show ?thesis by (intro exI [of _ "[]"]) auto
  next
    case go: False
    obtain ms st1 where drain: "drain_steering_messages env st = (ms, st1)" by fastforce
    show ?thesis
    proof (cases "ms = []")
      case False
      with Cons.prems go drain show ?thesis by (intro exI [of _ "[]"]) (auto simp: handed_def dest: adds_drain)
    next
      case True
      let ?e = "batch_end b"
      have b: "batch_start b = length rs" "length rs < ?e" "contiguous_from ?e bs (length calls)" "?e \<le> length calls"
        using Cons.prems(2) contiguous_le by auto
      define batch where "batch = take (?e - length rs) (drop (length rs) (List.enumerate 0 calls))"
      obtain res st2 where ex: "execute_tool_batch env batch st1 = (res, st2)" by fastforce
      have st2: "st2 = tick st1" using ex by (auto simp: execute_tool_batch_def Let_def)
      obtain recorded1 st3 where recs: "fold (record_one env calls) (sort_key fst res) (recorded, st2) = (recorded1, st3)"
        by fastforce
      have rest: "run_batches env calls bs recorded1 st3 = (steering, recorded', st')"
        using Cons.prems(4) go drain True ex recs b(1) by (simp add: batch_def)
      have here: "adds env st [] [] st2"
        using adds_trans [OF adds_drain [OF drain] adds_tick [of env st1]] True by (simp add: st2)
      show ?thesis
      proof (cases "ae_abort_first env (ag_tick st1) \<and> is_aborted env (Suc (ag_tick st1))")
        case True
        then have "res = []" using ex by (auto simp: execute_tool_batch_def Let_def)
        then have "recorded1 = recorded" "st3 = st2" using recs by auto
        moreover have "is_aborted env (ag_tick st2)" using True by (simp add: st2 agent_ops)
        ultimately have "steering = None \<and> recorded' = recorded \<and> st' = st2"
          using rest by (cases bs) auto
        then show ?thesis
          using Cons.prems(3) here \<open>is_aborted env (ag_tick st2)\<close> by (intro exI [of _ "[]"]) auto
      next
        case False
        then have "res = map (\<lambda>(idx, tc). (idx, ae_run env (ag_tick st1) tc)) (ae_completion env (ag_tick st1) batch)"
          using ex by (auto simp: execute_tool_batch_def Let_def)
        then have "sort_key fst res = map (\<lambda>i. (i, ae_run env (ag_tick st1) (calls ! i))) [length rs..<length rs + (?e - length rs)]"
          using batch_results_in_order [OF Cons.prems(1), of "length rs" ?e calls "ag_tick st1"] b by (simp add: batch_def)
        then obtain rs1 where rs1: "recorded_prefix env calls recorded1 (rs @ rs1)" "length rs1 = ?e - length rs" "adds env st2 rs1 [] st3"
          using record_range [OF Cons.prems(3), of "?e - length rs" "ag_tick st1" st2] recs b by auto
        have "contiguous_from (length (rs @ rs1)) bs (length calls)" using b rs1(2) by simp
        then obtain rs2 where rs2: "recorded_prefix env calls recorded' ((rs @ rs1) @ rs2)" "adds env st3 rs2 (handed steering) st'"
          "steering \<noteq> Some []" "length ((rs @ rs1) @ rs2) < length calls \<longrightarrow> steering \<noteq> None \<or> is_aborted env (ag_tick st')"
          using Cons.IH [OF Cons.prems(1) _ rs1(1) rest] by blast
        have "adds env st (rs1 @ rs2) (handed steering) st'" using adds_trans [OF here adds_trans [OF rs1(3) rs2(2)]] by simp
        then show ?thesis using rs2 by (intro exI [of _ "rs1 @ rs2"]) auto
      qed
    qed
  qed
qed


section \<open>Every call is answered\<close>

lemma check_steering_adds:
  assumes "check_steering env steering st = (steering1, st1)"
  shows "\<exists>ds. adds env st [] ds st1 \<and> handed steering1 = handed steering @ ds"
proof (cases "steering = None \<and> \<not> is_aborted env (ag_tick st)")
  case True
  obtain ms st2 where d: "drain_steering_messages env st = (ms, st2)" by fastforce
  with True assms have "st1 = st2" "steering1 = (if ms \<noteq> [] then Some ms else None)"
    by (auto simp: check_steering_def)
  with True adds_drain [OF d] show ?thesis by auto
next
  case False
  with assms have "steering1 = steering" "st1 = st" by (auto simp: check_steering_def split: if_splits)
  then show ?thesis by auto
qed

lemma check_steering_kept:
  assumes "check_steering env steering st = (steering1, st1)" and "steering \<noteq> None \<or> is_aborted env (ag_tick st)"
  shows "steering1 = steering \<and> st1 = st"
  using assms by (auto simp: check_steering_def)

lemma check_steering_some:
  "check_steering env steering st = (steering1, st1) \<Longrightarrow> steering \<noteq> Some [] \<Longrightarrow> steering1 \<noteq> Some []"
  by (auto simp: check_steering_def split: if_splits prod.splits)

lemma finish_recorded:
  assumes "recorded_prefix env calls recorded rs" and "length rs = length calls"
    and "finish_calls env recorded (List.enumerate k (drop k calls)) steering st = (results, steering', st')"
    and "steering \<noteq> Some []"
  shows "\<exists>ds. results = drop k rs \<and> adds env st [] ds st' \<and> handed steering' = handed steering @ ds \<and> steering' \<noteq> Some []"
  using assms
proof (induction "length calls - k" arbitrary: k steering st results)
  case 0
  then show ?case by auto
next
  case (Suc n)
  then have k: "k < length calls" by simp
  obtain steering1 st1 where c: "check_steering env steering st = (steering1, st1)" by fastforce
  obtain results1 where f: "finish_calls env recorded (List.enumerate (Suc k) (drop (Suc k) calls)) steering1 st1
      = (results1, steering', st')" "results = rs ! k # results1"
    using Suc.prems(3) c recorded_prefix_nth [OF Suc.prems(1) k] Suc.prems(2) k
    by (auto simp: Cons_nth_drop_Suc [OF k, symmetric] Let_def split: prod.splits)
  have left: "n = length calls - Suc k" using Suc.hyps(2) by simp
  obtain ds2 where ds2: "results1 = drop (Suc k) rs" "adds env st1 [] ds2 st'" "handed steering' = handed steering1 @ ds2"
    "steering' \<noteq> Some []"
    using Suc.hyps(1) [OF left Suc.prems(1,2) f(1) check_steering_some [OF c Suc.prems(4)]] by blast
  obtain ds1 where ds1: "adds env st [] ds1 st1" "handed steering1 = handed steering @ ds1"
    using check_steering_adds [OF c] by blast
  have "results = drop k rs" using f(2) ds2(1) Suc.prems(2) Cons_nth_drop_Suc [of k rs] k by simp
  then show ?case
    using adds_trans [OF ds1(1) ds2(2)] ds1(2) ds2(3,4) by (intro exI [of _ "ds1 @ ds2"]) simp
qed

lemma finish_unrun:
  assumes "recorded_prefix env calls recorded rs" and "steering \<noteq> None \<or> is_aborted env (ag_tick st)"
    and "finish_calls env recorded (List.enumerate k (drop k calls)) steering st = (results, steering', st')"
  shows "\<exists>us. results = drop k rs @ us \<and> adds env st us [] st' \<and> steering' = steering \<and>
           list_all2 (unrun_answer env (steering \<noteq> None)) (drop (max k (length rs)) calls) us"
  using assms
proof (induction "length calls - k" arbitrary: k st results)
  case 0
  then show ?case by (intro exI [of _ "[]"]) (auto simp: recorded_prefix_def)
next
  case (Suc n)
  then have k: "k < length calls" by simp
  obtain steering1 st1 where c: "check_steering env steering st = (steering1, st1)" by fastforce
  then have same: "steering1 = steering" "st1 = st" using check_steering_kept [OF _ Suc.prems(2)] by auto
  let ?out = "if steering \<noteq> None then skipped_output else aborted_output (calls ! k)"
  define step where "step = (if k < length rs then (rs ! k, st) else answer_without_running env (calls ! k) ?out st)"
  obtain r st2 where step2: "step = (r, st2)" by fastforce
  obtain results1 where f: "finish_calls env recorded (List.enumerate (Suc k) (drop (Suc k) calls)) steering st2
      = (results1, steering', st')" "results = r # results1"
    using Suc.prems(3) c same recorded_prefix_nth [OF Suc.prems(1) k] k step2
    by (auto simp: Cons_nth_drop_Suc [OF k, symmetric] Let_def step_def skip_tool_call_def
        split: prod.splits if_splits)
  have left: "n = length calls - Suc k" using Suc.hyps(2) by simp
  have tick: "ag_tick st2 = ag_tick st"
    using step2 answer_adds(3) [of env "calls ! k" ?out st r st2] by (auto simp: step_def split: if_splits)
  then obtain us where us: "results1 = drop (Suc k) rs @ us" "adds env st2 us [] st'" "steering' = steering"
    "list_all2 (unrun_answer env (steering \<noteq> None)) (drop (max (Suc k) (length rs)) calls) us"
    using Suc.hyps(1) [OF left Suc.prems(1) _ f(1)] Suc.prems(2) by auto
  show ?case
  proof (cases "k < length rs")
    case True
    then show ?thesis
      using us f(2) step2 Cons_nth_drop_Suc [OF True] by (intro exI [of _ us]) (auto simp: step_def max_def)
  next
    case False
    then have ans: "answer_without_running env (calls ! k) ?out st = (r, st2)" using step2 by (simp add: step_def)
    have "unrun_answer env (steering \<noteq> None) (calls ! k) r"
      unfolding unrun_answer_def using answer_adds(2) [OF ans] by blast
    moreover have "drop (max k (length rs)) calls = calls ! k # drop (max (Suc k) (length rs)) calls"
      using False Cons_nth_drop_Suc [OF k] by (simp add: max_def)
    ultimately show ?thesis
      using False us f(2) adds_trans [OF answer_adds(1) [OF ans] us(2)] by (intro exI [of _ "r # us"]) auto
  qed
qed

lemma announce_adds:
  "ag_messages (announce_calls calls st) = ag_messages st \<and>
   ag_new_messages (announce_calls calls st) = ag_new_messages st \<and>
   ag_requests (announce_calls calls st) = ag_requests st \<and> ag_queue (announce_calls calls st) = ag_queue st \<and>
   ag_tick (announce_calls calls st) = ag_tick st \<and>
   start_ids (ag_events (announce_calls calls st)) = start_ids (ag_events st) @ map tcb_id calls \<and>
   end_ids (ag_events (announce_calls calls st)) = end_ids (ag_events st)"
  by (induction calls arbitrary: st) (simp_all add: announce_calls_def agent_ops)

lemma answers_keep_ids:
  "list_all2 (run_answer env) cs rs \<Longrightarrow> map tr_tool_call_id rs = map tcb_id cs"
  "list_all2 (unrun_answer env b) cs rs \<Longrightarrow> map tr_tool_call_id rs = map tcb_id cs"
  by (auto simp: run_answer_def unrun_answer_def list_all2_conv_all_nth intro!: nth_equalityI)

lemma execute_tool_calls_answers:
  assumes "completes_all env" and "execute_tool_calls env calls st = (results, steering, st')"
  shows "\<exists>ran unrun. results = ran @ unrun \<and> list_all2 (run_answer env) (take (length ran) calls) ran \<and>
           list_all2 (unrun_answer env (steering \<noteq> None)) (drop (length ran) calls) unrun \<and>
           (unrun \<noteq> [] \<longrightarrow> steering \<noteq> None \<or> is_aborted env (ag_tick st')) \<and> steering \<noteq> Some [] \<and>
           adds env (announce_calls calls st) results (handed steering) st'"
proof -
  define st1 where "st1 = announce_calls calls st"
  obtain steering0 recorded st2 where rb: "run_batches env calls (plan_tool_effect_batches (effect_plan env calls))
      (replicate (length calls) None) st1 = (steering0, recorded, st2)"
    by (cases "run_batches env calls (plan_tool_effect_batches (effect_plan env calls)) (replicate (length calls) None) st1")
  have fin: "finish_calls env recorded (List.enumerate 0 (drop 0 calls)) steering0 st2 = (results, steering, st')"
    using assms(2) rb by (simp add: execute_tool_calls_def st1_def)
  have "contiguous_from (length []) (plan_tool_effect_batches (effect_plan env calls)) (length calls)"
    using plan_contiguous [of "effect_plan env calls"] by (simp add: effect_plan_def)
  then obtain ran where ran: "recorded_prefix env calls recorded ran" "adds env st1 ran (handed steering0) st2" "steering0 \<noteq> Some []"
    "length ran < length calls \<longrightarrow> steering0 \<noteq> None \<or> is_aborted env (ag_tick st2)"
    using run_batches_prefix [OF assms(1) _ _ rb, of "[]"] by (auto simp: recorded_prefix_def)
  have answered: "list_all2 (run_answer env) (take (length ran) calls) ran" "length ran \<le> length calls"
    using ran(1) by (auto simp: recorded_prefix_def)
  show ?thesis
  proof (cases "length ran < length calls")
    case True
    then obtain us where us: "results = ran @ us" "adds env st2 us [] st'" "steering = steering0"
      "list_all2 (unrun_answer env (steering \<noteq> None)) (drop (length ran) calls) us"
      using finish_unrun [OF ran(1) _ fin] ran(4) by auto
    have "steering \<noteq> None \<or> is_aborted env (ag_tick st')"
      using True ran(4) us(2,3) is_aborted_mono by (auto simp: adds_def)
    then show ?thesis
      using us answered ran(3) adds_trans [OF ran(2) us(2)] by (auto simp: st1_def)
  next
    case False
    then obtain ds where ds: "results = ran" "adds env st2 [] ds st'" "handed steering = handed steering0 @ ds" "steering \<noteq> Some []"
      using finish_recorded [OF ran(1) _ fin ran(3)] answered(2) by auto
    then show ?thesis
      using False answered adds_trans [OF ran(2) ds(2)] by (intro exI [of _ ran] exI [of _ "[]"]) (auto simp: st1_def)
  qed
qed

section \<open>Properties\<close>

text \<open>
  C2: Executing the tool calls of a response answers every call exactly once and in the order of the
  calls, whatever order the calls of a batch finish in: the results carry the calls' ids, and
  exactly they are appended to the history and to the new messages of the run. A first part of the
  calls was run and is answered by the tool's outcome within the budget; the rest, which is empty
  unless a steering message arrived or the run was aborted, is answered as skipped or as aborted.
  Every call has one start and one end event.
\<close>

theorem tool_calls_answered_in_order:
  assumes "completes_all env" and "execute_tool_calls env calls st = (results, steering, st')"
  shows "map tr_tool_call_id results = map tcb_id calls \<and>
         ag_messages st' = ag_messages st @ map ToolResultMessage results \<and>
         ag_new_messages st' = ag_new_messages st @ map ToolResultMessage results \<and>
         start_ids (ag_events st') = start_ids (ag_events st) @ map tcb_id calls \<and>
         end_ids (ag_events st') = end_ids (ag_events st) @ map tcb_id calls \<and>
         steering \<noteq> Some [] \<and>
         (\<exists>ran unrun. results = ran @ unrun \<and>
            list_all2 (run_answer env) (take (length ran) calls) ran \<and>
            list_all2 (unrun_answer env (steering \<noteq> None)) (drop (length ran) calls) unrun \<and>
            (unrun \<noteq> [] \<longrightarrow> steering \<noteq> None \<or> is_aborted env (ag_tick st')))"
proof -
  obtain ran unrun where r: "results = ran @ unrun" "list_all2 (run_answer env) (take (length ran) calls) ran"
    "list_all2 (unrun_answer env (steering \<noteq> None)) (drop (length ran) calls) unrun"
    "unrun \<noteq> [] \<longrightarrow> steering \<noteq> None \<or> is_aborted env (ag_tick st')" "steering \<noteq> Some []"
    "adds env (announce_calls calls st) results (handed steering) st'"
    using execute_tool_calls_answers [OF assms] by blast
  have ids: "map tr_tool_call_id results = map tcb_id calls"
    using answers_keep_ids(1) [OF r(2)] answers_keep_ids(2) [OF r(3)]
    by (metis append_take_drop_id map_append r(1))
  obtain es where es: "ag_events st' = ag_events (announce_calls calls st) @ es" "start_ids es = []"
    "end_ids es = map tr_tool_call_id results"
    using r(6) unfolding adds_def by blast
  have "start_ids (ag_events st') = start_ids (ag_events st) @ map tcb_id calls"
    "end_ids (ag_events st') = end_ids (ag_events st) @ map tcb_id calls"
    using es ids announce_adds [of calls st] by simp_all
  then show ?thesis
    using r ids announce_adds [of calls st] by (auto simp: adds_def)
qed


lemma demo_completes [simp]: "completes_all demo_env"
  by (simp add: completes_all_def demo_env_def)

definition demo_call :: "string \<Rightarrow> tool_call_block" where
  "demo_call i = \<lparr>tcb_id = lit i, tcb_name = lit ''read'', tcb_arguments = JObject [], tcb_thought_signature = None\<rparr>"

theorem tool_calls_answered_in_order_witness:
  "map tr_tool_call_id (fst (execute_tool_calls demo_env [demo_call ''a'', demo_call ''b''] (tick idle_agent))) =
     [lit ''a'', lit ''b'']"
  using tool_calls_answered_in_order [OF demo_completes, of "[demo_call ''a'', demo_call ''b'']" "tick idle_agent"]
  by (cases "execute_tool_calls demo_env [demo_call ''a'', demo_call ''b''] (tick idle_agent)")
    (simp add: demo_call_def)

end
