(* ===== verification/Agent_Loop.thy ===== *)
theory Agent_Loop
  imports Agent_Stream Agent_Tools
begin

text \<open>
  The run loop of the agent (\<open>run_loop_inner\<close> of \<open>src/src/agent.rs\<close>): turns of one response and
  its tool calls, until the model asks for no more tools and nothing waits in the queues, an error
  or an abort ends the run, or the limit of tool rounds is reached. The two nested loops of the
  code are one recursion over turns; whether it ends depends on the environment, so not returning
  is the value \<open>None\<close>. Hooks that only observe the run (the extension's lifecycle events, the
  shell hooks, the rewind journal) are left out.
\<close>

section \<open>The end of a run\<close>

text \<open>\<open>AgentEnd\<close> takes the new messages of the run.\<close>

definition agent_end :: "ustr option \<Rightarrow> agent \<Rightarrow> agent" where
  "agent_end err st = (emit (AgentEnd (ag_new_messages st) err) st)\<lparr>ag_new_messages := []\<rparr>"

definition drain_and_deliver :: "agent_env \<Rightarrow> agent \<Rightarrow> agent" where
  "drain_and_deliver env st = (let (ms, st1) = drain_steering_messages env st in deliver_all ms st1)"

definition end_aborted :: "agent_env \<Rightarrow> usize \<Rightarrow> agent \<Rightarrow> assistant_message \<times> agent" where
  "end_aborted env idx st =
     (let a = build_abort_message env (ae_now env (ag_tick st)) None;
          st1 = deliver (AssistantMessage a) st;
          st2 = emit (TurnEnd idx (AssistantMessage a) []) st1
      in (a, agent_end (Some (case as_error_message a of Some e \<Rightarrow> e | None \<Rightarrow> lit ''Aborted'')) st2))"

definition end_failed :: "agent_env \<Rightarrow> usize \<Rightarrow> ustr \<Rightarrow> agent \<Rightarrow> agent" where
  "end_failed env idx err st =
     (let st1 = drain_and_deliver env st;
          a = build_error_message env (ae_now env (ag_tick st1)) None err;
          st2 = deliver (AssistantMessage a) st1
      in agent_end (Some err) (emit (TurnEnd idx (AssistantMessage a) []) st2))"

definition end_stopped :: "agent_env \<Rightarrow> usize \<Rightarrow> assistant_message \<Rightarrow> agent \<Rightarrow> agent" where
  "end_stopped env idx a st =
     agent_end (as_error_message a)
       (emit (TurnEnd idx (AssistantMessage a) []) (drain_and_deliver env st))"

definition max_iterations_error :: "agent_env \<Rightarrow> ustr" where
  "max_iterations_error env =
     lit ''Maximum tool iterations ('' @ decimal (ae_max_tool_iterations env) @ lit '') exceeded''"

definition stop_message :: "agent_env \<Rightarrow> assistant_message \<Rightarrow> assistant_message" where
  "stop_message env a =
     a\<lparr>as_stop_reason := StopError, as_error_message := Some (max_iterations_error env),
       as_content := filter (\<lambda>b. case b of ToolCallBlock c \<Rightarrow> False | _ \<Rightarrow> True) (as_content a)\<rparr>"

definition replace_last_new :: "assistant_message \<Rightarrow> agent \<Rightarrow> agent" where
  "replace_last_new a st =
     (if ag_new_messages st \<noteq> [] \<and> \<not> plain_message (last (ag_new_messages st))
      then st\<lparr>ag_new_messages := butlast (ag_new_messages st) @ [AssistantMessage a]\<rparr> else st)"

definition end_capped :: "agent_env \<Rightarrow> usize \<Rightarrow> assistant_message \<Rightarrow> agent \<Rightarrow> assistant_message \<times> agent" where
  "end_capped env idx a st =
     (let stop = stop_message env a;
          st1 = replace_last_new stop (replace_last stop st);
          st2 = drain_and_deliver env st1
      in (stop, agent_end (Some (max_iterations_error env)) (emit (TurnEnd idx (AssistantMessage stop) []) st2)))"

section \<open>A turn\<close>

record loop_vars =
  lv_iterations :: usize
  lv_pauses :: usize
  lv_warned :: bool
  lv_turn_index :: usize
  lv_pending :: "message list"
  lv_last :: "assistant_message option"

type_synonym run_result = "(ustr + assistant_message) \<times> agent"

text \<open>The one-shot warning before the limit of tool rounds; \<open>iterations\<close> counts the round about to run.\<close>

definition warn_once :: "agent_env \<Rightarrow> usize \<Rightarrow> bool \<Rightarrow> agent \<Rightarrow> bool \<times> agent" where
  "warn_once env iterations warned st =
     (if \<not> warned \<and> should_warn_at_iteration_threshold iterations (ae_max_tool_iterations env) then
        (let now = ae_now env (ag_tick st);
             warning = UserMessage (TextContent (iteration_handoff_steering_text iterations (ae_max_tool_iterations env))) now
         in (True, st\<lparr>ag_queue := push_steering now warning (ag_queue st)\<rparr>))
      else (warned, st))"

text \<open>
  What a turn does after a response that is neither an error nor an abort. The result is the end of
  the run, or whether more tool calls are due, with the loop's variables.
\<close>

definition close_turn ::
  "agent_env \<Rightarrow> assistant_message \<Rightarrow> tool_result_message list \<Rightarrow> message list option \<Rightarrow> loop_vars \<Rightarrow> agent \<Rightarrow>
     loop_vars \<times> agent" where
  "close_turn env a results steering lv st =
     (let st1 = emit (TurnEnd (lv_turn_index lv) (AssistantMessage a) (map ToolResultMessage results)) st;
          lv1 = lv\<lparr>lv_turn_index := sat_add64 (lv_turn_index lv) 1\<rparr>
      in case steering of
           Some ms \<Rightarrow> (lv1\<lparr>lv_pending := ms\<rparr>, st1)
         | None \<Rightarrow> (let (ms, st2) = drain_steering_messages env st1 in (lv1\<lparr>lv_pending := ms\<rparr>, st2)))"

definition after_response ::
  "agent_env \<Rightarrow> assistant_message \<Rightarrow> loop_vars \<Rightarrow> agent \<Rightarrow> run_result + bool \<times> loop_vars \<times> agent" where
  "after_response env a lv st =
     (let tool_calls = extract_tool_calls (as_content a);
          pause_turn = (as_stop_reason a = PauseTurn);
          execute_local_tools = (\<not> pause_turn \<and> tool_calls \<noteq> []);
          pauses = (if pause_turn then sat_add64 (lv_pauses lv) 1 else lv_pauses lv);
          has_more = (execute_local_tools \<or> pause_turn \<and> pauses \<le> MAX_PAUSE_TURN_CONTINUATIONS);
          lv1 = lv\<lparr>lv_pauses := pauses\<rparr>
      in if execute_local_tools then
           (let iterations = lv_iterations lv + 1;
                (warned, st1) = warn_once env iterations (lv_warned lv) st;
                lv2 = lv1\<lparr>lv_iterations := iterations, lv_warned := warned\<rparr>
            in if iterations > ae_max_tool_iterations env
               then Inl (map_prod Inr id (end_capped env (lv_turn_index lv) a st1))
               else (let (results, steering, st2) = execute_tool_calls env tool_calls st1
                     in Inr (has_more, close_turn env a results steering lv2 st2)))
         else Inr (has_more, close_turn env a [] None lv1 st))"

definition open_turn :: "agent_env \<Rightarrow> loop_vars \<Rightarrow> agent \<Rightarrow> agent" where
  "open_turn env lv st =
     deliver_all (lv_pending lv) (emit (TurnStart (lv_turn_index lv) (ae_now env (ag_tick st))) st)"

definition turn :: "agent_env \<Rightarrow> loop_vars \<Rightarrow> agent \<Rightarrow> run_result + bool \<times> loop_vars \<times> agent" where
  "turn env lv st =
     (let idx = lv_turn_index lv;
          st1 = open_turn env lv st
      in if is_aborted env (ag_tick st1) then Inl (map_prod Inr id (end_aborted env idx st1))
         else
           (case stream_assistant_response env st1 of
              (Inl err, st2) \<Rightarrow> Inl (Inl err, end_failed env idx err st2)
            | (Inr a, st2) \<Rightarrow>
                (let st3 = push_new_message (AssistantMessage a) st2
                 in if as_stop_reason a \<in> {StopError, Aborted}
                    then Inl (Inr a, end_stopped env idx a st3)
                    else after_response env a (lv\<lparr>lv_pending := [], lv_last := Some a\<rparr>) st3)))"

section \<open>The run\<close>

definition finish_run :: "loop_vars \<Rightarrow> agent \<Rightarrow> run_result" where
  "finish_run lv st =
     (case lv_last lv of
        None \<Rightarrow> (Inl (lit ''Agent completed without assistant message''), st)
      | Some a \<Rightarrow> (Inr a, agent_end None st))"

text \<open>
  A turn and the conditions of the two loops: the inner one goes on while tool calls are due or
  messages are pending, the outer one while the follow-up queue has messages.
\<close>

definition run_step :: "agent_env \<Rightarrow> loop_vars \<Rightarrow> agent \<Rightarrow> run_result + loop_vars \<times> agent" where
  "run_step env lv st =
     (case turn env lv st of
        Inl r \<Rightarrow> Inl r
      | Inr (has_more, lv1, st1) \<Rightarrow>
          if has_more \<or> lv_pending lv1 \<noteq> [] then Inr (lv1, st1)
          else (let (follow_up, st2) = drain_follow_up_messages env st1
                in if follow_up = [] then Inl (finish_run lv1 st2)
                   else Inr (lv1\<lparr>lv_pending := follow_up\<rparr>, st2)))"

partial_function (option) run_turns :: "agent_env \<Rightarrow> loop_vars \<Rightarrow> agent \<Rightarrow> run_result option" where
  [code]: "run_turns env lv st =
     (case run_step env lv st of
        Inl r \<Rightarrow> Some r
      | Inr (lv1, st1) \<Rightarrow> run_turns env lv1 st1)"

definition run_loop_inner :: "agent_env \<Rightarrow> message list \<Rightarrow> agent \<Rightarrow> run_result option" where
  "run_loop_inner env prompts st =
     (let st1 = emit AgentStart (st\<lparr>ag_new_messages := []\<rparr>);
          st2 = deliver_all prompts st1;
          (pending, st3) = drain_steering_messages env st2
      in run_turns env \<lparr>lv_iterations = 0, lv_pauses = 0, lv_warned = False, lv_turn_index = 0,
                        lv_pending = pending, lv_last = None\<rparr> st3)"

text \<open>\<open>run_loop\<close> forgets the recent tool calls first.\<close>

definition run_loop :: "agent_env \<Rightarrow> message list \<Rightarrow> agent \<Rightarrow> run_result option" where
  "run_loop env prompts st = run_loop_inner env prompts (st\<lparr>ag_recent := []\<rparr>)"


section \<open>Answered histories\<close>

definition result_id :: "message \<Rightarrow> ustr option" where
  "result_id m = (case m of ToolResultMessage r \<Rightarrow> Some (tr_tool_call_id r) | _ \<Rightarrow> None)"

definition answers_first :: "assistant_message \<Rightarrow> message list \<Rightarrow> bool" where
  "answers_first a ms \<longleftrightarrow>
     (let ids = map tcb_id (extract_tool_calls (as_content a))
      in map result_id (take (length ids) ms) = map Some ids)"

text \<open>
  Every assistant message, a paused one apart, is followed at once by the results of its tool
  calls, in the order of the calls.
\<close>

fun calls_answered :: "message list \<Rightarrow> bool" where
  "calls_answered [] = True"
| "calls_answered (AssistantMessage a # ms) =
     ((as_stop_reason a = PauseTurn \<or> answers_first a ms) \<and> calls_answered ms)"
| "calls_answered (m # ms) = calls_answered ms"

lemma answers_first_append: "answers_first a xs \<Longrightarrow> answers_first a (xs @ ys)"
proof -
  assume *: "answers_first a xs"
  define ids where "ids = map tcb_id (extract_tool_calls (as_content a))"
  have eq: "map result_id (take (length ids) xs) = map Some ids"
    using * by (simp add: answers_first_def ids_def)
  then have "length (take (length ids) xs) = length ids" by (metis length_map)
  then have "take (length ids) (xs @ ys) = take (length ids) xs" by simp
  with eq show ?thesis by (simp add: answers_first_def ids_def)
qed

lemma calls_answered_append: "calls_answered xs \<Longrightarrow> calls_answered ys \<Longrightarrow> calls_answered (xs @ ys)"
  by (induction xs rule: calls_answered.induct) (auto intro: answers_first_append)

lemma calls_answered_plain: "list_all plain_message ms \<Longrightarrow> calls_answered ms"
  by (induction ms rule: calls_answered.induct) (auto simp: plain_message_def)

lemma plain_results: "list_all plain_message (map ToolResultMessage rs)"
  by (simp add: list_all_iff plain_message_def)

lemma calls_answered_turn:
  assumes "map tr_tool_call_id rs = map tcb_id (extract_tool_calls (as_content a))"
  shows "calls_answered (AssistantMessage a # map ToolResultMessage rs)"
proof -
  have "length rs = length (extract_tool_calls (as_content a))" using assms by (metis length_map)
  moreover have "map result_id (map ToolResultMessage rs) = map Some (map tr_tool_call_id rs)"
    by (simp add: result_id_def)
  ultimately have "answers_first a (map ToolResultMessage rs)"
    using assms by (simp add: answers_first_def Let_def)
  then show ?thesis by (simp add: calls_answered_plain [OF plain_results])
qed

lemma calls_answered_paused: "as_stop_reason a = PauseTurn \<Longrightarrow> calls_answered [AssistantMessage a]"
  by simp

lemma stop_message_calls [simp]: "extract_tool_calls (as_content (stop_message env a)) = []"
proof -
  have "List.map_filter (\<lambda>b. case b of ToolCallBlock c \<Rightarrow> Some c | _ \<Rightarrow> None)
      (filter (\<lambda>b. case b of ToolCallBlock c \<Rightarrow> False | _ \<Rightarrow> True) bs) = []" for bs
    by (induction bs) (auto simp: map_filter_simps split: content_block.split)
  then show ?thesis by (simp add: extract_tool_calls_def stop_message_def)
qed

section \<open>The invariant of the run\<close>

definition is_agent_end :: "agent_event \<Rightarrow> bool" where
  "is_agent_end e = (case e of AgentEnd ms err \<Rightarrow> True | _ \<Rightarrow> False)"

definition is_tool_turn :: "agent_event \<Rightarrow> bool" where
  "is_tool_turn e = (case e of TurnEnd i m results \<Rightarrow> results \<noteq> [] | _ \<Rightarrow> False)"

definition context_sent :: "agent_env \<Rightarrow> nat \<Rightarrow> message list \<Rightarrow> message list" where
  "context_sent env t ms =
     (case ae_context_hook env t (build_context env ms) of Some ms' \<Rightarrow> ms' | None \<Rightarrow> build_context env ms)"

text \<open>The request was made from the history at the start of the run and an answered continuation.\<close>

definition good_request :: "agent_env \<Rightarrow> message list \<Rightarrow> message list \<Rightarrow> bool" where
  "good_request env before req \<longleftrightarrow> (\<exists>t hist. calls_answered hist \<and> req = context_sent env t (before @ hist))"

definition run_events_ok :: "agent_event list \<Rightarrow> usize \<Rightarrow> agent_event list \<Rightarrow> bool" where
  "run_events_ok es0 k es \<longleftrightarrow>
     (\<exists>mid. es = es0 @ AgentStart # mid \<and> list_all (\<lambda>e. \<not> is_agent_end e) mid \<and>
            length (filter is_tool_turn mid) \<le> k)"

definition run_inv :: "agent_env \<Rightarrow> agent \<Rightarrow> usize \<Rightarrow> agent \<Rightarrow> bool" where
  "run_inv env st0 k st \<longleftrightarrow>
     ag_messages st = ag_messages st0 @ ag_new_messages st \<and>
     run_events_ok (ag_events st0) k (ag_events st) \<and> queue_ok (ag_queue st) \<and>
     (\<exists>reqs. ag_requests st = ag_requests st0 @ reqs \<and> list_all (good_request env (ag_messages st0)) reqs)"

lemma run_events_append:
  "run_events_ok es0 k es \<Longrightarrow> list_all (\<lambda>e. \<not> is_agent_end e) es' \<Longrightarrow>
     run_events_ok es0 (k + length (filter is_tool_turn es')) (es @ es')"
  unfolding run_events_ok_def by fastforce

lemma run_events_quiet:
  assumes "run_events_ok es0 k es" and "list_all (\<lambda>e. \<not> is_agent_end e \<and> \<not> is_tool_turn e) es'"
  shows "run_events_ok es0 k (es @ es')"
proof -
  have "filter is_tool_turn es' = []" "list_all (\<lambda>e. \<not> is_agent_end e) es'"
    using assms(2) by (auto simp: list_all_iff filter_empty_conv)
  then show ?thesis using run_events_append [OF assms(1), of es'] by simp
qed

lemma run_inv_emit:
  "run_inv env st0 k st \<Longrightarrow> \<not> is_agent_end e \<Longrightarrow> \<not> is_tool_turn e \<Longrightarrow> run_inv env st0 k (emit e st)"
  "run_inv env st0 k st \<Longrightarrow> \<not> is_agent_end e \<Longrightarrow> run_inv env st0 (Suc k) (emit e st)"
  using run_events_quiet [of "ag_events st0" k "ag_events st" "[e]"]
    run_events_append [of "ag_events st0" k "ag_events st" "[e]"]
  by (auto simp: run_inv_def agent_ops run_events_ok_def split: if_splits)

lemma delivery_quiet: "list_all (\<lambda>e. \<not> is_agent_end e \<and> \<not> is_tool_turn e) (delivery_events ms)"
  by (auto simp: delivery_events_def list_all_iff is_agent_end_def is_tool_turn_def)

lemma run_inv_deliver_all: "run_inv env st0 k st \<Longrightarrow> run_inv env st0 k (deliver_all ms st)"
  using run_events_quiet [OF _ delivery_quiet] by (auto simp: run_inv_def agent_ops)

lemma run_inv_drain:
  assumes "plain_fetchers env" and "run_inv env st0 k st" and "drain_steering_messages env st = (ms, st')"
  shows "run_inv env st0 k st'" and "list_all plain_message ms" and "ag_new_messages st' = ag_new_messages st"
  using assms drain_same(1) [OF assms(3)] drain_steering_drains [OF assms(3)]
  by (auto simp: run_inv_def drains_def dest!: same_but_queue_fields)

lemma run_inv_drain_follow_up:
  assumes "plain_fetchers env" and "run_inv env st0 k st" and "drain_follow_up_messages env st = (ms, st')"
  shows "run_inv env st0 k st'" and "list_all plain_message ms" and "ag_new_messages st' = ag_new_messages st"
  using assms drain_same(2) [OF assms(3)] drain_follow_up_drains [OF assms(3)]
  by (auto simp: run_inv_def drains_def dest!: same_but_queue_fields)


lemma response_events_quiet:
  assumes "opened es0 es"
  obtains es' where "es @ [MessageEnd m] = es0 @ es'" "list_all (\<lambda>e. \<not> is_agent_end e \<and> \<not> is_tool_turn e) es'"
proof -
  obtain a ups where "es = es0 @ MessageStart (AssistantMessage a) # ups" "list_all is_update ups"
    using assms by (auto simp: opened_def)
  then show ?thesis
    by (intro that [of "MessageStart (AssistantMessage a) # ups @ [MessageEnd m]"])
      (auto simp: list_all_iff is_update_def is_agent_end_def is_tool_turn_def split: agent_event.splits)
qed

lemma run_inv_request:
  assumes "run_inv env st0 k st" and "calls_answered (ag_new_messages st)"
  shows "run_inv env st0 k (requested env st)" and "ag_new_messages (requested env st) = ag_new_messages st"
proof -
  have "good_request env (ag_messages st0) (sent_messages env st)"
    using assms unfolding good_request_def run_inv_def context_sent_def sent_messages_def by metis
  then show "run_inv env st0 k (requested env st)"
    using assms(1) by (auto simp: run_inv_def requested_def agent_ops)
qed (simp add: requested_def agent_ops)

lemma run_inv_response:
  assumes "run_inv env st0 k st" and "response_leaves st (Inr a, st')"
  shows "run_inv env st0 k (push_new_message (AssistantMessage a) st')"
    and "ag_new_messages st' = ag_new_messages st"
proof -
  have ends: "response_ends st a st'" using assms(2) by (simp add: response_leaves_def)
  then obtain es where "opened (ag_events st) es" "ag_events st' = es @ [MessageEnd (AssistantMessage a)]"
    by (auto simp: response_ends_def)
  then obtain es' where "ag_events st' = ag_events st @ es'" "list_all (\<lambda>e. \<not> is_agent_end e \<and> \<not> is_tool_turn e) es'"
    by (metis response_events_quiet)
  then have "run_events_ok (ag_events st0) k (ag_events st')"
    using assms(1) run_events_quiet by (simp add: run_inv_def)
  then show "run_inv env st0 k (push_new_message (AssistantMessage a) st')"
    using assms(1) ends by (simp add: run_inv_def response_ends_def same_rest_def agent_ops)
  show "ag_new_messages st' = ag_new_messages st" using ends by (simp add: response_ends_def same_rest_def)
qed

lemma run_inv_no_response:
  "run_inv env st0 k st \<Longrightarrow> response_leaves st (Inl err, st') \<Longrightarrow>
     run_inv env st0 k st' \<and> ag_new_messages st' = ag_new_messages st"
  by (auto simp: run_inv_def response_leaves_def same_rest_def)

lemma run_inv_warn:
  assumes "run_inv env st0 k st" and "warn_once env n warned st = (warned', st')"
  shows "run_inv env st0 k st'" and "ag_new_messages st' = ag_new_messages st"
proof -
  have "queue_ok (push_steering now m q)" if "queue_ok q" "plain_message m" for now m q
    using that push_steering_queue [of q now m] keep_last_all [of plain_message "waiting_steering q @ [m]"]
    by (simp add: queue_ok_def)
  then show "run_inv env st0 k st'" "ag_new_messages st' = ag_new_messages st"
    using assms by (auto simp: run_inv_def warn_once_def Let_def plain_message_def split: if_splits)
qed

lemma tool_events_quiet: "is_tool_event e \<Longrightarrow> \<not> is_agent_end e \<and> \<not> is_tool_turn e"
  by (auto simp: is_tool_event_def is_agent_end_def is_tool_turn_def split: agent_event.splits)

lemma is_tool_event_start [simp]: "is_tool_event (ToolExecutionStart i n a)"
  by (simp add: is_tool_event_def)

lemma announce_events:
  "\<exists>es. ag_events (announce_calls calls st) = ag_events st @ es \<and> list_all is_tool_event es"
proof (induction calls arbitrary: st)
  case (Cons c calls)
  obtain es where "ag_events (announce_calls calls (emit (ToolExecutionStart (tcb_id c) (tcb_name c) (tcb_arguments c)) st)) =
      ag_events (emit (ToolExecutionStart (tcb_id c) (tcb_name c) (tcb_arguments c)) st) @ es" "list_all is_tool_event es"
    using Cons.IH by blast
  then show ?case
    by (intro exI [of _ "ToolExecutionStart (tcb_id c) (tcb_name c) (tcb_arguments c) # es"])
      (simp add: announce_calls_def agent_ops)
qed (auto simp: announce_calls_def)

lemma run_inv_execute:
  assumes "completes_all env" and "plain_fetchers env" and "run_inv env st0 k st"
    and "execute_tool_calls env calls st = (results, steering, st')"
  shows "run_inv env st0 k st'" and "ag_new_messages st' = ag_new_messages st @ map ToolResultMessage results"
    and "list_all plain_message (handed steering)" and "map tr_tool_call_id results = map tcb_id calls"
proof -
  obtain ran unrun where r: "results = ran @ unrun" "list_all2 (run_answer env) (take (length ran) calls) ran"
    "list_all2 (unrun_answer env (steering \<noteq> None)) (drop (length ran) calls) unrun"
    and a: "adds env (announce_calls calls st) results (handed steering) st'"
    using execute_tool_calls_answers [OF assms(1,4)] by blast
  obtain es1 where es1: "ag_events (announce_calls calls st) = ag_events st @ es1" "list_all is_tool_event es1"
    using announce_events by blast
  obtain es2 where "ag_events st' = ag_events (announce_calls calls st) @ es2" "list_all is_tool_event es2"
    using a unfolding adds_def by blast
  with es1 have "ag_events st' = ag_events st @ (es1 @ es2)"
    "list_all (\<lambda>e. \<not> is_agent_end e \<and> \<not> is_tool_turn e) (es1 @ es2)"
    by (auto simp: list_all_iff dest: tool_events_quiet)
  then have "run_events_ok (ag_events st0) k (ag_events st')"
    using assms(3) run_events_quiet by (metis run_inv_def)
  then show "run_inv env st0 k st'"
    using assms(2,3) a announce_adds [of calls st] by (auto simp: run_inv_def adds_def drains_def)
  show "ag_new_messages st' = ag_new_messages st @ map ToolResultMessage results"
    "list_all plain_message (handed steering)"
    using assms(2,3) a announce_adds [of calls st] by (auto simp: run_inv_def adds_def drains_def)
  show "map tr_tool_call_id results = map tcb_id calls"
    using answers_keep_ids(1) [OF r(2)] answers_keep_ids(2) [OF r(3)] by (metis append_take_drop_id map_append r(1))
qed

section \<open>How a run ends\<close>

definition run_ended :: "agent_env \<Rightarrow> agent \<Rightarrow> run_result \<Rightarrow> bool" where
  "run_ended env st0 r =
     (case r of (res, st) \<Rightarrow>
        \<exists>mid new err. ag_events st = ag_events st0 @ AgentStart # mid @ [AgentEnd new err] \<and>
          list_all (\<lambda>e. \<not> is_agent_end e) mid \<and>
          length (filter is_tool_turn mid) \<le> ae_max_tool_iterations env \<and>
          ag_messages st = ag_messages st0 @ new \<and>
          (\<exists>reqs. ag_requests st = ag_requests st0 @ reqs \<and> list_all (good_request env (ag_messages st0)) reqs) \<and>
          (case res of
             Inr a \<Rightarrow> AssistantMessage a \<in> set new \<and>
                      (as_stop_reason a \<notin> {StopError, Aborted} \<longrightarrow> calls_answered new)
           | Inl e \<Rightarrow> err = Some e))"

lemma run_ended_agent_end:
  assumes "run_inv env st0 k st" and "k \<le> ae_max_tool_iterations env"
    and "case res of
           Inr a \<Rightarrow> AssistantMessage a \<in> set (ag_new_messages st) \<and>
                    (as_stop_reason a \<notin> {StopError, Aborted} \<longrightarrow> calls_answered (ag_new_messages st))
         | Inl e \<Rightarrow> err = Some e"
  shows "run_ended env st0 (res, agent_end err st)"
proof -
  obtain mid where "ag_events st = ag_events st0 @ AgentStart # mid" "list_all (\<lambda>e. \<not> is_agent_end e) mid"
    "length (filter is_tool_turn mid) \<le> k"
    using assms(1) by (auto simp: run_inv_def run_events_ok_def)
  then show ?thesis
    using assms unfolding run_ended_def run_inv_def agent_end_def by (auto simp: agent_ops split: sum.split)
qed

lemma turn_end_quiet [simp]: "\<not> is_tool_turn (TurnEnd i m [])" "\<not> is_agent_end (TurnEnd i m rs)"
  by (simp_all add: is_tool_turn_def is_agent_end_def)

lemma run_inv_drain_and_deliver:
  assumes "plain_fetchers env" and "run_inv env st0 k st"
  shows "run_inv env st0 k (drain_and_deliver env st)"
    and "\<exists>ms. ag_new_messages (drain_and_deliver env st) = ag_new_messages st @ ms"
proof -
  obtain ms st1 where d: "drain_steering_messages env st = (ms, st1)" by fastforce
  show "run_inv env st0 k (drain_and_deliver env st)"
    "\<exists>ms. ag_new_messages (drain_and_deliver env st) = ag_new_messages st @ ms"
    using run_inv_drain [OF assms d] d by (auto simp: drain_and_deliver_def agent_ops intro: run_inv_deliver_all)
qed


lemma run_inv_deliver: "run_inv env st0 k st \<Longrightarrow> run_inv env st0 k (deliver m st)"
  using run_inv_deliver_all [of env st0 k st "[m]"] by (simp add: deliver_all_def)

lemmas run_inv_steps = run_inv_emit(1) run_inv_deliver run_inv_deliver_all run_inv_drain_and_deliver(1)

lemma end_aborted_ended:
  assumes "run_inv env st0 k st" and "k \<le> ae_max_tool_iterations env"
  shows "run_ended env st0 (map_prod Inr id (end_aborted env idx st))"
  unfolding end_aborted_def Let_def map_prod_simp id_apply
  using assms by (intro run_ended_agent_end [where k = k]) (auto intro!: run_inv_steps simp: agent_ops build_abort_message_def)

lemma end_failed_ended:
  assumes "plain_fetchers env" and "run_inv env st0 k st" and "k \<le> ae_max_tool_iterations env"
  shows "run_ended env st0 (Inl err, end_failed env idx err st)"
  unfolding end_failed_def Let_def
  using assms by (intro run_ended_agent_end [where k = k]) (auto intro!: run_inv_steps)

lemma end_stopped_ended:
  assumes "plain_fetchers env" and "run_inv env st0 k st" and "k \<le> ae_max_tool_iterations env"
    and "AssistantMessage a \<in> set (ag_new_messages st)" and "as_stop_reason a \<in> {StopError, Aborted}"
  shows "run_ended env st0 (Inr a, end_stopped env idx a st)"
proof -
  obtain ms where "ag_new_messages (drain_and_deliver env st) = ag_new_messages st @ ms"
    using run_inv_drain_and_deliver(2) [OF assms(1,2)] by blast
  then show ?thesis
    unfolding end_stopped_def
    using assms by (intro run_ended_agent_end [where k = k]) (auto intro!: run_inv_steps simp: agent_ops)
qed

lemma run_inv_replace:
  assumes "run_inv env st0 k st" and "ag_new_messages st = new @ [AssistantMessage a]"
  shows "run_inv env st0 k (replace_last_new x (replace_last x st))"
    and "ag_new_messages (replace_last_new x (replace_last x st)) = new @ [AssistantMessage x]"
proof -
  have "ag_messages st = (ag_messages st0 @ new) @ [AssistantMessage a]" using assms by (simp add: run_inv_def)
  then show "run_inv env st0 k (replace_last_new x (replace_last x st))"
    "ag_new_messages (replace_last_new x (replace_last x st)) = new @ [AssistantMessage x]"
    using assms by (simp_all add: run_inv_def replace_last_new_def replace_last_def plain_message_def
        del: append_assoc)
qed

lemma end_capped_ended:
  assumes "plain_fetchers env" and "run_inv env st0 k st" and "k \<le> ae_max_tool_iterations env"
    and "ag_new_messages st = new @ [AssistantMessage a]"
  shows "run_ended env st0 (map_prod Inr id (end_capped env idx a st))"
proof -
  note inv = run_inv_replace [OF assms(2,4), of "stop_message env a"]
  obtain ms where "ag_new_messages (drain_and_deliver env (replace_last_new (stop_message env a) (replace_last (stop_message env a) st)))
      = (new @ [AssistantMessage (stop_message env a)]) @ ms"
    using run_inv_drain_and_deliver(2) [OF assms(1) inv(1)] inv(2) by auto
  then show ?thesis
    unfolding end_capped_def Let_def map_prod_simp id_apply
    using assms(1,3) inv(1)
    by (intro run_ended_agent_end [where k = k]) (auto intro!: run_inv_steps simp: agent_ops stop_message_def)
qed

section \<open>One turn keeps the invariant\<close>

definition loop_inv :: "agent_env \<Rightarrow> agent \<Rightarrow> loop_vars \<Rightarrow> agent \<Rightarrow> bool" where
  "loop_inv env st0 lv st \<longleftrightarrow>
     run_inv env st0 (lv_iterations lv) st \<and> lv_iterations lv \<le> ae_max_tool_iterations env \<and>
     list_all plain_message (lv_pending lv) \<and> calls_answered (ag_new_messages st) \<and>
     (case lv_last lv of None \<Rightarrow> True | Some a \<Rightarrow> AssistantMessage a \<in> set (ag_new_messages st))"

lemma close_turn_inv:
  assumes "plain_fetchers env" and "run_inv env st0 k st" and "lv_iterations lv \<le> ae_max_tool_iterations env"
    and "results = [] \<and> lv_iterations lv = k \<or> lv_iterations lv = Suc k"
    and "list_all plain_message (handed steering)" and "calls_answered (ag_new_messages st)"
    and "lv_last lv = Some a" and "AssistantMessage a \<in> set (ag_new_messages st)"
    and "close_turn env a results steering lv st = (lv', st')"
  shows "loop_inv env st0 lv' st' \<and> lv_last lv' \<noteq> None"
proof -
  define st1 where "st1 = emit (TurnEnd (lv_turn_index lv) (AssistantMessage a) (map ToolResultMessage results)) st"
  have inv: "run_inv env st0 (lv_iterations lv) st1"
    using assms(4)
  proof
    assume "results = [] \<and> lv_iterations lv = k"
    then show ?thesis using run_inv_emit(1) [OF assms(2)] by (simp add: st1_def)
  next
    assume "lv_iterations lv = Suc k"
    then show ?thesis using run_inv_emit(2) [OF assms(2)] by (simp add: st1_def)
  qed
  have new: "ag_new_messages st1 = ag_new_messages st" by (simp add: st1_def agent_ops)
  show ?thesis
  proof (cases steering)
    case None
    obtain ms st2 where d: "drain_steering_messages env st1 = (ms, st2)" by fastforce
    with None assms(9) have "lv' = lv\<lparr>lv_turn_index := sat_add64 (lv_turn_index lv) 1, lv_pending := ms\<rparr>" "st' = st2"
      by (simp_all add: close_turn_def Let_def st1_def)
    then show ?thesis
      using run_inv_drain [OF assms(1) inv d] assms new by (simp add: loop_inv_def)
  next
    case (Some ms)
    with assms(9) have "lv' = lv\<lparr>lv_turn_index := sat_add64 (lv_turn_index lv) 1, lv_pending := ms\<rparr>" "st' = st1"
      by (simp_all add: close_turn_def Let_def st1_def)
    then show ?thesis using inv assms new Some by (simp add: loop_inv_def)
  qed
qed


definition turn_keeps :: "agent_env \<Rightarrow> agent \<Rightarrow> run_result + bool \<times> loop_vars \<times> agent \<Rightarrow> bool" where
  "turn_keeps env st0 r =
     (case r of
        Inl e \<Rightarrow> run_ended env st0 e
      | Inr (has_more, lv, st) \<Rightarrow> loop_inv env st0 lv st \<and> lv_last lv \<noteq> None)"

lemma after_response_keeps:
  assumes env: "completes_all env" "plain_fetchers env"
    and inv: "run_inv env st0 (lv_iterations lv) st" "lv_iterations lv \<le> ae_max_tool_iterations env"
    and new: "ag_new_messages st = new @ [AssistantMessage a]" "calls_answered new" and last: "lv_last lv = Some a"
  shows "turn_keeps env st0 (after_response env a lv st)"
proof (cases "as_stop_reason a \<noteq> PauseTurn \<and> extract_tool_calls (as_content a) \<noteq> []")
  case False
  let ?p = "if as_stop_reason a = PauseTurn then sat_add64 (lv_pauses lv) 1 else lv_pauses lv"
  obtain lv' st' where c: "close_turn env a [] None (lv\<lparr>lv_pauses := ?p\<rparr>) st = (lv', st')" by fastforce
  have "calls_answered [AssistantMessage a]"
    using False calls_answered_turn [of "[]" a] by auto
  then have "calls_answered (ag_new_messages st)" using calls_answered_append [OF new(2)] by (simp add: new(1))
  then have "loop_inv env st0 lv' st' \<and> lv_last lv' \<noteq> None"
    using inv new(1) last by (intro close_turn_inv [OF env(2) inv(1) _ _ _ _ _ _ c]) auto
  moreover have "after_response env a lv st =
      Inr (as_stop_reason a = PauseTurn \<and> ?p \<le> MAX_PAUSE_TURN_CONTINUATIONS, lv', st')"
    using False c by (auto simp: after_response_def Let_def)
  ultimately show ?thesis by (simp add: turn_keeps_def)
next
  case True
  let ?calls = "extract_tool_calls (as_content a)"
  obtain warned st1 where w: "warn_once env (lv_iterations lv + 1) (lv_warned lv) st = (warned, st1)" by fastforce
  note inv1 = run_inv_warn [OF inv(1) w]
  show ?thesis
  proof (cases "lv_iterations lv + 1 > ae_max_tool_iterations env")
    case capped: True
    then have "after_response env a lv st = Inl (map_prod Inr id (end_capped env (lv_turn_index lv) a st1))"
      using True w by (simp add: after_response_def Let_def)
    then show ?thesis
      using end_capped_ended [OF env(2) inv1(1) inv(2)] inv1(2) new(1) by (simp add: turn_keeps_def)
  next
    case False
    obtain results steering st2 where ex: "execute_tool_calls env ?calls st1 = (results, steering, st2)"
      by (cases "execute_tool_calls env ?calls st1")
    note inv2 = run_inv_execute [OF env inv1(1) ex]
    let ?lv = "lv\<lparr>lv_pauses := lv_pauses lv, lv_iterations := lv_iterations lv + 1, lv_warned := warned\<rparr>"
    obtain lv' st' where c: "close_turn env a results steering ?lv st2 = (lv', st')" by fastforce
    have "ag_new_messages st2 = new @ AssistantMessage a # map ToolResultMessage results"
      using inv2(2) inv1(2) new(1) by simp
    moreover from this have "calls_answered (ag_new_messages st2)"
      using calls_answered_append [OF new(2) calls_answered_turn [OF inv2(4)]] by simp
    ultimately have "loop_inv env st0 lv' st' \<and> lv_last lv' \<noteq> None"
      using inv(2) False last inv2(3) by (intro close_turn_inv [OF env(2) inv2(1) _ _ _ _ _ _ c]) auto
    moreover have "after_response env a lv st = Inr (True, lv', st')"
      using True False w ex c by (simp add: after_response_def Let_def)
    ultimately show ?thesis by (simp add: turn_keeps_def)
  qed
qed

lemma turn_keeps_inv:
  assumes env: "completes_all env" "plain_fetchers env" and inv: "loop_inv env st0 lv st"
  shows "turn_keeps env st0 (turn env lv st)"
proof -
  define st1 where "st1 = open_turn env lv st"
  have inv1: "run_inv env st0 (lv_iterations lv) st1" and le: "lv_iterations lv \<le> ae_max_tool_iterations env"
    using inv by (auto simp: st1_def open_turn_def loop_inv_def is_agent_end_def is_tool_turn_def intro!: run_inv_steps)
  have new1: "ag_new_messages st1 = ag_new_messages st @ lv_pending lv" by (simp add: st1_def open_turn_def agent_ops)
  then have answered: "calls_answered (ag_new_messages st1)"
    using inv calls_answered_append calls_answered_plain by (simp add: loop_inv_def)
  note req = run_inv_request [OF inv1 answered]
  show ?thesis
  proof (cases "is_aborted env (ag_tick st1)")
    case True
    then show ?thesis
      using end_aborted_ended [OF inv1 le] by (simp add: turn_def turn_keeps_def Let_def flip: st1_def)
  next
    case go: False
    obtain r st2 where r: "stream_assistant_response env st1 = (r, st2)" by fastforce
    note leaves = response_leaves_request [of env st1, unfolded r]
    show ?thesis
    proof (cases r)
      case (Inl err)
      have "run_inv env st0 (lv_iterations lv) st2"
        using run_inv_no_response [OF req(1)] leaves Inl by blast
      then show ?thesis
        using go r Inl end_failed_ended [OF env(2) _ le] by (simp add: turn_def turn_keeps_def Let_def flip: st1_def)
    next
      case (Inr a)
      define st3 where "st3 = push_new_message (AssistantMessage a) st2"
      note resp = run_inv_response [OF req(1) leaves [unfolded Inr]]
      have inv3: "run_inv env st0 (lv_iterations lv) st3" using resp(1) by (simp add: st3_def)
      have new3: "ag_new_messages st3 = ag_new_messages st1 @ [AssistantMessage a]"
        using resp(2) req(2) by (simp add: st3_def agent_ops)
      show ?thesis
      proof (cases "as_stop_reason a \<in> {StopError, Aborted}")
        case True
        then show ?thesis
          using go r Inr end_stopped_ended [OF env(2) inv3 le _ True] new3
          by (simp add: turn_def turn_keeps_def Let_def flip: st1_def st3_def)
      next
        case False
        have "turn_keeps env st0 (after_response env a (lv\<lparr>lv_pending := [], lv_last := Some a\<rparr>) st3)"
          using inv3 le new3 answered by (intro after_response_keeps [OF env]) auto
        with False show ?thesis
          using go r Inr by (simp add: turn_def Let_def flip: st1_def st3_def)
      qed
    qed
  qed
qed

lemma run_step_keeps:
  assumes env: "completes_all env" "plain_fetchers env" and inv: "loop_inv env st0 lv st"
  shows "case run_step env lv st of Inl r \<Rightarrow> run_ended env st0 r | Inr (lv', st') \<Rightarrow> loop_inv env st0 lv' st'"
proof (cases "turn env lv st")
  case (Inl r)
  then show ?thesis using turn_keeps_inv [OF assms] by (simp add: run_step_def turn_keeps_def)
next
  case (Inr x)
  obtain has_more lv1 st1 where x: "x = (has_more, lv1, st1)" by (cases x)
  have inv1: "loop_inv env st0 lv1 st1" "lv_last lv1 \<noteq> None"
    using turn_keeps_inv [OF assms] Inr x by (simp_all add: turn_keeps_def)
  obtain ms st2 where d: "drain_follow_up_messages env st1 = (ms, st2)" by fastforce
  have inv2: "run_inv env st0 (lv_iterations lv1) st2" "list_all plain_message ms" "ag_new_messages st2 = ag_new_messages st1"
    using run_inv_drain_follow_up [OF env(2) _ d] inv1 by (auto simp: loop_inv_def)
  obtain a where last: "lv_last lv1 = Some a" using inv1(2) by auto
  have "run_ended env st0 (finish_run lv1 st2)"
    unfolding finish_run_def last option.case
    using inv1 inv2 last by (intro run_ended_agent_end [OF inv2(1)]) (auto simp: loop_inv_def)
  then show ?thesis
    using Inr x d inv1 inv2 by (auto simp: run_step_def loop_inv_def)
qed

lemma run_turns_ended:
  assumes "run_turns env lv st = Some r" and "completes_all env" and "plain_fetchers env" and "loop_inv env st0 lv st"
  shows "run_ended env st0 r"
  using assms
proof (induction env lv st r rule: run_turns.raw_induct)
  case (1 run env lv st r)
  show ?case
  proof (cases "run_step env lv st")
    case (Inl r')
    with "1.prems"(1) "1.hyps" "1.prems" show ?thesis using run_step_keeps [of env st0 lv st] by simp
  next
    case (Inr x)
    obtain lv1 st1 where x: "x = (lv1, st1)" by (cases x)
    then have "loop_inv env st0 lv1 st1" using Inr run_step_keeps [of env st0 lv st] "1.prems" by simp
    moreover have "run_turns env lv1 st1 = Some r"
      using "1.prems"(1) Inr x by (simp add: run_turns.simps [of env lv st])
    ultimately show ?thesis using "1.IH" [of env lv1 st1 r] "1.hyps" "1.prems" Inr x by simp
  qed
qed (rule assms(1))

section \<open>Runs end\<close>

text \<open>
  What a run can still do once the fetchers are quiet: tool rounds and continuations of a pause that
  are left, and the messages that wait. A round may add its warning to the queue.
\<close>

definition weight :: "agent_env \<Rightarrow> loop_vars \<Rightarrow> agent \<Rightarrow> nat" where
  "weight env lv st =
     3 * (ae_max_tool_iterations env - lv_iterations lv) + 3 * (MAX_PAUSE_TURN_CONTINUATIONS - lv_pauses lv) +
     pending_count (ag_queue st)"

lemma close_turn_progress:
  assumes "close_turn env a results steering lv st = (lv', st')" and "queue_bounded (ag_queue st)"
  shows "queue_bounded (ag_queue st') \<and> ag_tick st \<le> ag_tick st' \<and> lv_iterations lv' = lv_iterations lv \<and>
         lv_pauses lv' = lv_pauses lv \<and>
         (quiet_from env (ag_tick st) \<longrightarrow>
            length (lv_pending lv') + pending_count (ag_queue st') = length (handed steering) + pending_count (ag_queue st))"
proof (cases steering)
  case None
  define st1 where "st1 = emit (TurnEnd (lv_turn_index lv) (AssistantMessage a) (map ToolResultMessage results)) st"
  obtain ms st2 where d: "drain_steering_messages env st1 = (ms, st2)" by fastforce
  have eq: "lv' = lv\<lparr>lv_turn_index := sat_add64 (lv_turn_index lv) 1, lv_pending := ms\<rparr>" "st' = st2"
    using assms(1) None d by (simp_all add: close_turn_def Let_def st1_def)
  have same: "ag_queue st1 = ag_queue st" "ag_tick st1 = ag_tick st" by (simp_all add: st1_def agent_ops)
  show ?thesis
    using eq None assms(2) drain_steering_drains [OF d] drain_same(1) [OF d] by (auto simp: drains_def same)
next
  case (Some ms)
  with assms show ?thesis by (auto simp: close_turn_def Let_def agent_ops)
qed

lemma warn_once_progress:
  assumes "warn_once env n warned st = (warned', st')" and "queue_bounded (ag_queue st)"
  shows "queue_bounded (ag_queue st') \<and> ag_tick st' = ag_tick st \<and>
         pending_count (ag_queue st') \<le> Suc (pending_count (ag_queue st))"
  using assms push_steering_queue(1,4) by (auto simp: warn_once_def Let_def split: if_splits)

lemma after_response_progress:
  assumes "completes_all env" and "queue_bounded (ag_queue st)"
    and "after_response env a lv st = Inr (has_more, lv', st')"
  shows "queue_bounded (ag_queue st') \<and> ag_tick st \<le> ag_tick st' \<and>
         (quiet_from env (ag_tick st) \<longrightarrow>
            weight env lv' st' + length (lv_pending lv') \<le> weight env lv st \<and>
            (has_more \<longrightarrow> weight env lv' st' < weight env lv st))"
proof (cases "as_stop_reason a \<noteq> PauseTurn \<and> extract_tool_calls (as_content a) \<noteq> []")
  case False
  let ?p = "if as_stop_reason a = PauseTurn then sat_add64 (lv_pauses lv) 1 else lv_pauses lv"
  have more: "has_more \<longleftrightarrow> as_stop_reason a = PauseTurn \<and> ?p \<le> MAX_PAUSE_TURN_CONTINUATIONS"
    and c: "close_turn env a [] None (lv\<lparr>lv_pauses := ?p\<rparr>) st = (lv', st')"
    using False assms(3) by (auto simp: after_response_def Let_def)
  have "MAX_PAUSE_TURN_CONTINUATIONS - ?p \<le> MAX_PAUSE_TURN_CONTINUATIONS - lv_pauses lv"
    "has_more \<Longrightarrow> MAX_PAUSE_TURN_CONTINUATIONS - ?p < MAX_PAUSE_TURN_CONTINUATIONS - lv_pauses lv"
    using more by (auto simp: sat_defs MAX_PAUSE_TURN_CONTINUATIONS_def min_def split: if_splits)
  then show ?thesis
    using close_turn_progress [OF c assms(2)] by (auto simp: weight_def)
next
  case True
  let ?calls = "extract_tool_calls (as_content a)"
  obtain warned st1 where w: "warn_once env (lv_iterations lv + 1) (lv_warned lv) st = (warned, st1)" by fastforce
  obtain results steering st2 where ex: "execute_tool_calls env ?calls st1 = (results, steering, st2)"
    by (cases "execute_tool_calls env ?calls st1")
  let ?lv = "lv\<lparr>lv_pauses := lv_pauses lv, lv_iterations := lv_iterations lv + 1, lv_warned := warned\<rparr>"
  have le: "lv_iterations lv + 1 \<le> ae_max_tool_iterations env"
    and c: "close_turn env a results steering ?lv st2 = (lv', st')"
    using assms(3) True w ex by (auto simp: after_response_def Let_def split: if_splits)
  note p1 = warn_once_progress [OF w assms(2)]
  have a: "adds env (announce_calls ?calls st1) results (handed steering) st2"
    using execute_tool_calls_answers [OF assms(1) ex] by blast
  then have p2: "queue_bounded (ag_queue st2)" "ag_tick st1 \<le> ag_tick st2"
    "quiet_from env (ag_tick st1) \<longrightarrow> length (handed steering) + pending_count (ag_queue st2) = pending_count (ag_queue st1)"
    using p1 announce_adds [of ?calls st1] by (auto simp: adds_def drains_def)
  note p3 = close_turn_progress [OF c p2(1)]
  show ?thesis
    using p1 p2 p3 le quiet_from_mono [of env "ag_tick st" "ag_tick st2"] by (auto simp: weight_def)
qed

lemma turn_progress:
  assumes "completes_all env" and "queue_bounded (ag_queue st)" and "turn env lv st = Inr (has_more, lv', st')"
  shows "queue_bounded (ag_queue st') \<and> ag_tick st < ag_tick st' \<and>
         (quiet_from env (ag_tick st) \<longrightarrow>
            weight env lv' st' + length (lv_pending lv') \<le> weight env lv st \<and>
            (has_more \<longrightarrow> weight env lv' st' < weight env lv st))"
proof -
  define st1 where "st1 = open_turn env lv st"
  obtain r st2 where r: "stream_assistant_response env st1 = (r, st2)" by fastforce
  obtain a where a: "r = Inr a" and after: "after_response env a (lv\<lparr>lv_pending := [], lv_last := Some a\<rparr>)
      (push_new_message (AssistantMessage a) st2) = Inr (has_more, lv', st')"
    using assms(3) r by (auto simp: turn_def Let_def split: if_splits sum.splits simp flip: st1_def)
  have st1: "ag_queue st1 = ag_queue st" "ag_tick st1 = ag_tick st"
    by (simp_all add: st1_def open_turn_def agent_ops)
  have st2: "ag_queue st2 = ag_queue st" "ag_tick st < ag_tick st2"
    using response_leaves_request [of env st1] r a st1
    by (auto simp: response_leaves_def response_ends_def same_rest_def requested_def agent_ops)
  show ?thesis
    using after_response_progress [OF assms(1) _ after] assms(2) st2 quiet_from_mono [of env "ag_tick st" "ag_tick st2"]
    by (auto simp: agent_ops weight_def)
qed

lemma run_step_progress:
  assumes "completes_all env" and "queue_bounded (ag_queue st)" and "run_step env lv st = Inr (lv', st')"
  shows "queue_bounded (ag_queue st') \<and> ag_tick st < ag_tick st' \<and>
         (quiet_from env (ag_tick st) \<longrightarrow> weight env lv' st' < weight env lv st)"
proof -
  obtain has_more lv1 st1 where t: "turn env lv st = Inr (has_more, lv1, st1)"
    using assms(3) by (auto simp: run_step_def split: sum.splits)
  note p = turn_progress [OF assms(1,2) t]
  show ?thesis
  proof (cases "has_more \<or> lv_pending lv1 \<noteq> []")
    case True
    with assms(3) t have "lv' = lv1" "st' = st1" by (auto simp: run_step_def)
    with p True show ?thesis by (auto simp flip: length_greater_0_conv)
  next
    case False
    obtain ms st2 where d: "drain_follow_up_messages env st1 = (ms, st2)" by fastforce
    with assms(3) t False have eq: "ms \<noteq> []" "lv' = lv1\<lparr>lv_pending := ms\<rparr>" "st' = st2"
      by (auto simp: run_step_def split: if_splits)
    have "ag_tick st < ag_tick st2" using p drain_same(2) [OF d] by simp
    moreover have "queue_bounded (ag_queue st2)" using p drain_follow_up_drains [OF d] by (simp add: drains_def)
    moreover have "quiet_from env (ag_tick st) \<Longrightarrow> length ms + pending_count (ag_queue st2) = pending_count (ag_queue st1)"
      using p drain_follow_up_drains [OF d] quiet_from_mono [of env "ag_tick st" "ag_tick st1"] by (simp add: drains_def)
    ultimately show ?thesis using p eq by (auto simp: weight_def simp flip: length_greater_0_conv)
  qed
qed

lemma run_turns_end_quiet:
  assumes "completes_all env" and "quiet_from env (ag_tick st)" and "queue_bounded (ag_queue st)"
  shows "\<exists>r. run_turns env lv st = Some r"
  using assms(2,3)
proof (induction "weight env lv st" arbitrary: lv st rule: less_induct)
  case less
  show ?case
  proof (cases "run_step env lv st")
    case (Inr x)
    obtain lv1 st1 where x: "x = (lv1, st1)" by (cases x)
    note p = run_step_progress [OF assms(1) less.prems(2) Inr [unfolded x]]
    then have "\<exists>r. run_turns env lv1 st1 = Some r"
      using less.prems(1) quiet_from_mono [of env "ag_tick st" "ag_tick st1"] by (intro less.hyps) auto
    then show ?thesis using Inr x by (simp add: run_turns.simps [of env lv st])
  qed (simp add: run_turns.simps [of env lv st])
qed

lemma run_turns_end:
  assumes "completes_all env" and "quiet_from env T" and "queue_bounded (ag_queue st)"
  shows "\<exists>r. run_turns env lv st = Some r"
  using assms(3)
proof (induction "T - ag_tick st" arbitrary: lv st rule: less_induct)
  case less
  show ?case
  proof (cases "ag_tick st < T")
    case False
    then show ?thesis
      using run_turns_end_quiet [OF assms(1) _ less.prems] quiet_from_mono [OF assms(2)] by simp
  next
    case True
    show ?thesis
    proof (cases "run_step env lv st")
      case (Inr x)
      obtain lv1 st1 where x: "x = (lv1, st1)" by (cases x)
      note p = run_step_progress [OF assms(1) less.prems Inr [unfolded x]]
      then have "\<exists>r. run_turns env lv1 st1 = Some r" using True by (intro less.hyps) auto
      then show ?thesis using Inr x by (simp add: run_turns.simps [of env lv st])
    qed (simp add: run_turns.simps [of env lv st])
  qed
qed


section \<open>Whole runs\<close>

text \<open>The variables at the start of a run.\<close>

definition first_vars :: "message list \<Rightarrow> loop_vars" where
  "first_vars pending =
     \<lparr>lv_iterations = 0, lv_pauses = 0, lv_warned = False, lv_turn_index = 0, lv_pending = pending, lv_last = None\<rparr>"

lemma run_loop_first:
  obtains pending st1 where "run_loop env prompts st = run_turns env (first_vars pending) st1"
    and "drain_steering_messages env
           (deliver_all prompts (emit AgentStart (st\<lparr>ag_recent := [], ag_new_messages := []\<rparr>))) = (pending, st1)"
proof -
  obtain pending st1 where d: "drain_steering_messages env
      (deliver_all prompts (emit AgentStart (st\<lparr>ag_recent := [], ag_new_messages := []\<rparr>))) = (pending, st1)"
    by fastforce
  then have "run_loop env prompts st = run_turns env (first_vars pending) st1"
    by (simp add: run_loop_def run_loop_inner_def first_vars_def Let_def)
  then show ?thesis using d by (rule that)
qed

lemma run_loop_ended:
  assumes env: "completes_all env" "plain_fetchers env" and plain: "list_all plain_message prompts"
    and queue: "queue_ok (ag_queue st)" and run: "run_loop env prompts st = Some r"
  shows "run_ended env st r"
proof -
  define st0 where "st0 = emit AgentStart (st\<lparr>ag_recent := [], ag_new_messages := []\<rparr>)"
  obtain pending st1 where first: "run_loop env prompts st = run_turns env (first_vars pending) st1"
    and d: "drain_steering_messages env (deliver_all prompts st0) = (pending, st1)"
    unfolding st0_def by (rule run_loop_first)
  have "run_inv env st 0 st0"
    using queue by (auto simp: run_inv_def st0_def agent_ops run_events_ok_def)
  then have inv: "run_inv env st 0 (deliver_all prompts st0)" by (rule run_inv_deliver_all)
  have "ag_new_messages (deliver_all prompts st0) = prompts" by (simp add: st0_def agent_ops)
  then have "loop_inv env st (first_vars pending) st1"
    using run_inv_drain [OF env(2) inv d] calls_answered_plain [OF plain] by (simp add: loop_inv_def first_vars_def)
  then show ?thesis using run_turns_ended env first run by metis
qed

lemma run_loop_ends:
  assumes "completes_all env" and "quiet_from env T" and "queue_bounded (ag_queue st)"
  shows "\<exists>r. run_loop env prompts st = Some r"
proof -
  obtain pending st1 where first: "run_loop env prompts st = run_turns env (first_vars pending) st1"
    and d: "drain_steering_messages env
      (deliver_all prompts (emit AgentStart (st\<lparr>ag_recent := [], ag_new_messages := []\<rparr>))) = (pending, st1)"
    by (rule run_loop_first)
  have "queue_bounded (ag_queue st1)"
    using drain_steering_drains [OF d] assms(3) by (simp add: drains_def agent_ops)
  then show ?thesis using run_turns_end [OF assms(1,2)] first by simp
qed

section \<open>The round of the warning\<close>

lemma drain_nonempty:
  assumes "queue_bounded (ag_queue st)" and "waiting_steering (ag_queue st) \<noteq> []"
    and "drain_steering_messages env st = (ms, st')"
  shows "ms \<noteq> []"
  using drain_steering_delivers [of st env ms st'] assms by (simp add: queue_bounded_def waiting_steering_def)

lemma waiting_steering_skips_all:
  assumes "queue_bounded (ag_queue st)" and "waiting_steering (ag_queue st) \<noteq> []" and "\<not> is_aborted env (ag_tick st)"
    and "execute_tool_calls env calls st = (results, steering, st')"
  shows "list_all2 (unrun_answer env True) calls results"
proof (cases calls)
  case Nil
  then show ?thesis
    using assms(4) by (auto simp: execute_tool_calls_def announce_calls_def effect_plan_def plan_tool_effect_batches_def
        Let_def)
next
  case (Cons c cs)
  define st1 where "st1 = announce_calls calls st"
  have same: "ag_queue st1 = ag_queue st" "ag_tick st1 = ag_tick st" using announce_adds by (simp_all add: st1_def)
  obtain ms st2 where d: "drain_steering_messages env st1 = (ms, st2)" by fastforce
  have ms: "ms \<noteq> []" using drain_nonempty [OF _ _ d] assms(1,2) same by simp
  have "plan_tool_effect_batches (effect_plan env calls) \<noteq> []"
    using plan_contiguous [of "effect_plan env calls"] Cons by (auto simp: effect_plan_def)
  then obtain b bs where plan: "plan_tool_effect_batches (effect_plan env calls) = b # bs" by (meson list.exhaust)
  have fin: "finish_calls env (replicate (length calls) None) (List.enumerate 0 (drop 0 calls)) (Some ms) st2
      = (results, steering, st')"
    using assms(3,4) d ms plan same by (simp add: execute_tool_calls_def Let_def flip: st1_def)
  have "recorded_prefix env calls (replicate (length calls) None) []" by (simp add: recorded_prefix_def)
  from finish_unrun [OF this _ fin] show ?thesis by auto
qed

section \<open>Properties\<close>

text \<open>
  C1: Every request of a run is made, by \<open>build_context\<close> and the context hook of the extensions, from the
  history at the start of the run and a continuation in which each response, a paused one apart, is
  followed at once by the results of its tool calls, in the order of the calls, so that no call of
  such a response is shown without its result. The calls of a response that paused its turn
  (\<open>PauseTurn\<close>) are the provider's own: they are never run and are shown without results. A run that
  does not end in an error or an abort leaves such a history behind.
\<close>

theorem requests_show_answered_calls:
  assumes "completes_all env" and "plain_fetchers env" and "list_all plain_message prompts"
    and "queue_ok (ag_queue st)" and "run_loop env prompts st = Some (res, st')"
  shows "\<exists>reqs new. ag_requests st' = ag_requests st @ reqs \<and> ag_messages st' = ag_messages st @ new \<and>
           list_all (\<lambda>req. \<exists>t hist. calls_answered hist \<and> req = context_sent env t (ag_messages st @ hist)) reqs \<and>
           (case res of
              Inr a \<Rightarrow> as_stop_reason a \<notin> {StopError, Aborted} \<longrightarrow> calls_answered new
            | Inl err \<Rightarrow> True)"
proof -
  have "good_request env (ag_messages st) =
      (\<lambda>req. \<exists>t hist. calls_answered hist \<and> req = context_sent env t (ag_messages st @ hist))"
    by (simp add: fun_eq_iff good_request_def)
  then show ?thesis
    using run_loop_ended [OF assms] unfolding run_ended_def by (cases res) auto
qed

text \<open>
  C10: The events of a run begin with the start of the agent and end with its end, the only one, which
  reports exactly the messages that the run added to the history; the message that is returned is
  among them, and an error that is returned is the one reported.
\<close>

theorem agent_end_reports_history:
  assumes "completes_all env" and "plain_fetchers env" and "list_all plain_message prompts"
    and "queue_ok (ag_queue st)" and "run_loop env prompts st = Some (res, st')"
  shows "\<exists>mid new err. ag_events st' = ag_events st @ AgentStart # mid @ [AgentEnd new err] \<and>
           list_all (\<lambda>e. \<not> is_agent_end e) mid \<and> ag_messages st' = ag_messages st @ new \<and>
           (case res of Inr a \<Rightarrow> AssistantMessage a \<in> set new | Inl e \<Rightarrow> err = Some e)"
  using run_loop_ended [OF assms] unfolding run_ended_def by (cases res) auto

text \<open>
  C15: A run executes at most as many rounds of tool calls as configured: no more of its turns end with
  tool results.
\<close>

theorem tool_rounds_bounded:
  assumes "completes_all env" and "plain_fetchers env" and "list_all plain_message prompts"
    and "queue_ok (ag_queue st)" and "run_loop env prompts st = Some (res, st')"
  shows "\<exists>es. ag_events st' = ag_events st @ es \<and> length (filter is_tool_turn es) \<le> ae_max_tool_iterations env"
proof -
  obtain mid new err where "ag_events st' = ag_events st @ AgentStart # mid @ [AgentEnd new err]"
    "length (filter is_tool_turn mid) \<le> ae_max_tool_iterations env"
    using run_loop_ended [OF assms] unfolding run_ended_def by auto
  then show ?thesis by (intro exI [of _ "AgentStart # mid @ [AgentEnd new err]"]) (simp add: is_tool_turn_def)
qed

text \<open>
  C9: A run ends once nobody queues messages any more: when from some time on the fetchers bring
  nothing, the run returns, whatever the provider answers, whichever tools are called and whenever
  it is aborted.
\<close>

theorem runs_end:
  assumes "completes_all env" and "quiet_from env T" and "queue_bounded (ag_queue st)"
  shows "\<exists>res st'. run_loop env prompts st = Some (res, st')"
  using run_loop_ends [OF assms] by auto

text \<open>
  C16: The warning before the limit of tool rounds keeps the round it is issued in from running: it is
  queued as a steering message before the calls of the round are executed, and a waiting steering
  message skips them, so that every call of that round is answered as skipped because of a queued
  user message and no tool runs.
\<close>

theorem warning_skips_its_round:
  assumes "queue_bounded (ag_queue st)" and "should_warn_at_iteration_threshold n (ae_max_tool_iterations env)"
    and "warn_once env n False st = (warned, st1)" and "\<not> is_aborted env (ag_tick st)"
    and "execute_tool_calls env calls st1 = (results, steering, st2)"
  shows "list_all2 (unrun_answer env True) calls results"
proof -
  obtain now m where st1: "st1 = st\<lparr>ag_queue := push_steering now m (ag_queue st)\<rparr>"
    using assms(2,3) by (auto simp: warn_once_def Let_def)
  have "waiting_steering (ag_queue st1) \<noteq> []"
    using push_steering_queue(2) [OF assms(1), of now m] st1
    by (simp add: MAX_STEERING_QUEUE_SIZE_def flip: length_greater_0_conv)
  moreover have "queue_bounded (ag_queue st1)" using push_steering_queue(1) [OF assms(1)] st1 by simp
  moreover have "\<not> is_aborted env (ag_tick st1)" using assms(4) st1 by simp
  ultimately show ?thesis using waiting_steering_skips_all [OF _ _ _ assms(5)] by blast
qed

section \<open>Example runs\<close>

lemma demo_plain [simp]: "plain_fetchers demo_env"
  by (simp add: plain_fetchers_def demo_env_def plain_message_def)

lemma demo_quiet: "quiet_from demo_env 1"
  by (simp add: quiet_from_def demo_env_def)

lemma idle_bounded [simp]: "queue_bounded (ag_queue idle_agent)"
  using idle_queue_ok by (simp add: queue_ok_def)

theorem runs_end_witness: "\<exists>res st'. run_loop demo_env [UserMessage (TextContent (lit ''hi'')) 0] idle_agent = Some (res, st')"
  using runs_end [OF demo_completes demo_quiet idle_bounded] by simp

lemma demo_run:
  obtains res st' where "run_loop demo_env [UserMessage (TextContent (lit ''hi'')) 0] idle_agent = Some (res, st')"
  using run_loop_ends [OF demo_completes demo_quiet idle_bounded] by (metis surj_pair)

lemma demo_prompt: "list_all plain_message [UserMessage (TextContent (lit ''hi'')) 0]"
  by (simp add: plain_message_def)

text \<open>
  A provider that first asks for a tool and, once a request shows a result, answers with an empty text.
\<close>

definition tool_env :: agent_env where
  "tool_env = demo_env\<lparr>ae_steering_fetchers := [],
     ae_stream := (\<lambda>t ms.
       if list_ex (\<lambda>m. result_id m \<noteq> None) ms
       then Inr [Inr (StreamDone Stop (empty_assistant demo_env 0 Stop None))]
       else Inr [Inr (StreamDone ToolUse
              ((empty_assistant demo_env 0 ToolUse None)\<lparr>as_content := [ToolCallBlock (demo_call ''a'')]\<rparr>))])\<rparr>"

lemma tool_env_fields:
  "ae_max_tool_iterations tool_env = 2" "ae_context_window_tokens tool_env = 0" "ae_block_images tool_env = False"
  "ae_effects tool_env = (\<lambda>name. Some effects_read)" "ae_now tool_env = (\<lambda>t. 0)" "ae_abort_at tool_env = None"
  "ae_abort_first tool_env = (\<lambda>t. False)" "ae_cancelled tool_env = (\<lambda>t. False)" "ae_steering_fetchers tool_env = []"
  "ae_follow_up_fetchers tool_env = []" "ae_context_hook tool_env = (\<lambda>t ms. None)"
  "ae_run tool_env = (\<lambda>t c. (\<lparr>ta_content = [], ta_details = None, ta_is_error = False\<rparr>, False))"
  "ae_completion tool_env = (\<lambda>t batch. rev batch)"
  "ae_stream tool_env = (\<lambda>t ms.
       if list_ex (\<lambda>m. result_id m \<noteq> None) ms
       then Inr [Inr (StreamDone Stop (empty_assistant demo_env 0 Stop None))]
       else Inr [Inr (StreamDone ToolUse
              ((empty_assistant demo_env 0 ToolUse None)\<lparr>as_content := [ToolCallBlock (demo_call ''a'')]\<rparr>))])"
  by (simp_all add: tool_env_def demo_env_def)

lemmas idle_evaluation = drain_steering_messages_def drain_follow_up_messages_def pop_steering_def pop_follow_up_def pop_kind_def
  taken_def left_over_def queue_new_def is_aborted_def interrupted_def emit_def tick_def push_message_def
  push_new_message_def deliver_def deliver_all_def Let_def idle_agent_def

lemmas stream_evaluation = stream_assistant_response_def build_context_def is_shown_def stream_done_def
  finalize_assistant_message_def is_truncated_before_tool_call_def extract_tool_calls_def map_filter_simps fresh_vars_def
  empty_assistant_def no_usage_def

lemmas tool_evaluation = execute_tool_calls_def announce_calls_def effect_plan_def plan_tool_effect_batches_def
  execute_tool_batch_def record_one_def record_result_def add_result_def call_updated_def budgeted_tool_result_def
  apply_tool_result_budget_def check_steering_def ring_push_def DOOM_LOOP_RING_def denies_def tool_result_budget_bytes_def

lemmas turn_evaluation = turn_def open_turn_def after_response_def warn_once_def should_warn_at_iteration_threshold_def
  ITERATION_WARN_MIN_CAP_def close_turn_def run_step_def finish_run_def agent_end_def MAX_PAUSE_TURN_CONTINUATIONS_def

lemma tool_run:
  "\<exists>r st'. run_loop tool_env [UserMessage (TextContent (lit ''hi'')) 0] idle_agent = Some (r, st') \<and>
     map (map result_id) (ag_requests st') = [[None], [None, None, Some (lit ''a'')]]"
  unfolding run_loop_def run_loop_inner_def
  apply (simp add: tool_env_fields idle_evaluation)
  apply (subst run_turns.simps)
  apply (simp add: tool_env_fields idle_evaluation stream_evaluation tool_evaluation turn_evaluation demo_call_def result_id_def)
  apply (subst run_turns.simps)
  apply (simp add: tool_env_fields idle_evaluation stream_evaluation tool_evaluation turn_evaluation demo_call_def result_id_def)
  done

theorem requests_show_answered_calls_witness:
  "\<exists>res st' reqs. run_loop tool_env [UserMessage (TextContent (lit ''hi'')) 0] idle_agent = Some (res, st') \<and>
     ag_requests st' = reqs \<and> map (map result_id) reqs = [[None], [None, None, Some (lit ''a'')]] \<and>
     list_all (\<lambda>req. \<exists>t hist. calls_answered hist \<and> req = context_sent tool_env t (ag_messages idle_agent @ hist)) reqs"
proof -
  obtain res st' where run: "run_loop tool_env [UserMessage (TextContent (lit ''hi'')) 0] idle_agent = Some (res, st')"
    and shown: "map (map result_id) (ag_requests st') = [[None], [None, None, Some (lit ''a'')]]"
    using tool_run by (elim exE conjE) (rule that)
  have env: "completes_all tool_env" "plain_fetchers tool_env"
    by (simp_all add: completes_all_def plain_fetchers_def tool_env_fields)
  have "ag_requests idle_agent = []" by (simp add: idle_agent_def)
  then show ?thesis
    using requests_show_answered_calls [OF env demo_prompt idle_queue_ok run] run shown by auto
qed

theorem agent_end_reports_history_witness:
  "\<exists>res st' mid new err. run_loop demo_env [UserMessage (TextContent (lit ''hi'')) 0] idle_agent = Some (res, st') \<and>
     ag_events st' = ag_events idle_agent @ AgentStart # mid @ [AgentEnd new err] \<and>
     ag_messages st' = ag_messages idle_agent @ new"
proof -
  obtain res st' where run: "run_loop demo_env [UserMessage (TextContent (lit ''hi'')) 0] idle_agent = Some (res, st')"
    by (rule demo_run)
  show ?thesis
    using agent_end_reports_history [OF demo_completes demo_plain demo_prompt idle_queue_ok run] run by blast
qed

theorem tool_rounds_bounded_witness:
  "\<exists>res st' es. run_loop demo_env [UserMessage (TextContent (lit ''hi'')) 0] idle_agent = Some (res, st') \<and>
     ag_events st' = ag_events idle_agent @ es \<and> length (filter is_tool_turn es) \<le> 2"
proof -
  obtain res st' where run: "run_loop demo_env [UserMessage (TextContent (lit ''hi'')) 0] idle_agent = Some (res, st')"
    by (rule demo_run)
  have "ae_max_tool_iterations demo_env = 2" by (simp add: demo_env_def)
  then show ?thesis
    using tool_rounds_bounded [OF demo_completes demo_plain demo_prompt idle_queue_ok run] run by auto
qed

theorem warning_skips_its_round_witness:
  "list_all2 (unrun_answer (demo_env\<lparr>ae_max_tool_iterations := 5\<rparr>) True) [demo_call ''a'']
     (fst (execute_tool_calls (demo_env\<lparr>ae_max_tool_iterations := 5\<rparr>) [demo_call ''a'']
            (snd (warn_once (demo_env\<lparr>ae_max_tool_iterations := 5\<rparr>) 4 False idle_agent))))"
proof -
  let ?env = "demo_env\<lparr>ae_max_tool_iterations := 5\<rparr>"
  have warn: "should_warn_at_iteration_threshold 4 (ae_max_tool_iterations ?env)"
    by (simp add: should_warn_at_iteration_threshold_def sat_defs ITERATION_WARN_MIN_CAP_def
        ITERATION_WARN_NUMERATOR_def ITERATION_WARN_DENOMINATOR_def)
  have live: "\<not> is_aborted ?env (ag_tick idle_agent)" by (simp add: is_aborted_def demo_env_def)
  show ?thesis
    by (rule warning_skips_its_round [OF idle_bounded warn surjective_pairing live,
          of _ _ "fst (snd (execute_tool_calls ?env [demo_call ''a''] (snd (warn_once ?env 4 False idle_agent))))"
             "snd (snd (execute_tool_calls ?env [demo_call ''a''] (snd (warn_once ?env 4 False idle_agent))))"]) simp
qed

end
