(* ===== verification/Read_Tool.thy ===== *)
theory Read_Tool
  imports Truncation Tool_Edit
begin

text \<open>
  How the read tool shows a text file (\<open>ReadTool::execute\<close> of \<open>src/src/tools.rs\<close>, from the first read to
  the text of the answer): the file arrives in pieces, is scanned for the requested window of lines,
  decoded, numbered, cut to the limits, and followed by a note with the offset to continue at. The
  pieces are what successive reads return. The tag of a line in hash-line mode (an xxHash digest) and
  the human-readable size are the parameters \<open>tag\<close> and \<open>format_size\<close>. Opening the file, images, the
  cache, and the artifact that is stored beside a large answer are not modelled.
\<close>

section \<open>The scan\<close>

definition DEFAULT_MAX_LINES :: usize where
  "DEFAULT_MAX_LINES = 2000"

definition DEFAULT_MAX_BYTES :: usize where
  "DEFAULT_MAX_BYTES = 1000000"

record read_input =
  ri_path :: bytes
  ri_offset :: "int option"
  ri_limit :: "int option"
  ri_hashline :: bool

record read_scan =
  sc_raw_content :: bytes
  sc_newlines_seen :: usize
  sc_collecting :: bool
  sc_last_byte_was_newline :: bool
  sc_pending_cr :: bool
  sc_total_bytes_read :: u64

definition start_line_idx :: "read_input \<Rightarrow> usize" where
  "start_line_idx input = (case ri_offset input of Some n \<Rightarrow> if 0 < n then nat (n - 1) else 0 | None \<Rightarrow> 0)"

definition limit_lines :: "read_input \<Rightarrow> usize" where
  "limit_lines input = (case ri_limit input of None \<Rightarrow> u64_max | Some l \<Rightarrow> if 0 \<le> l then nat l else u64_max)"

definition end_line_idx :: "read_input \<Rightarrow> usize" where
  "end_line_idx input = sat_add64 (start_line_idx input) (limit_lines input)"

text \<open>Bytes are only collected up to the limit.\<close>

definition collect :: "bytes \<Rightarrow> bytes \<Rightarrow> bytes" where
  "collect raw piece =
     (if length raw < DEFAULT_MAX_BYTES then raw @ take (DEFAULT_MAX_BYTES - length raw) piece else raw)"

definition newline_step :: "usize \<Rightarrow> usize \<Rightarrow> bytes \<Rightarrow> usize \<Rightarrow> bytes \<times> usize \<times> bool \<times> usize \<Rightarrow> bytes \<times> usize \<times> bool \<times> usize" where
  "newline_step start_idx end_idx chunk pos st =
     (case st of (raw, newlines, collecting, cursor) \<Rightarrow>
        let (raw1, collecting1, cursor1) =
              (if collecting \<and> newlines + 1 = end_idx
               then (collect raw (take (pos + 1 - cursor) (drop cursor chunk)), False, pos + 1)
               else (raw, collecting, cursor));
            newlines1 = newlines + 1
        in if \<not> collecting1 \<and> newlines1 = start_idx then (raw1, newlines1, True, pos + 1)
           else (raw1, newlines1, collecting1, cursor1))"

definition scan_chunk :: "memchr \<Rightarrow> usize \<Rightarrow> usize \<Rightarrow> bytes \<Rightarrow> read_scan \<Rightarrow> read_scan" where
  "scan_chunk mc start_idx end_idx buf s0 =
     (let s = s0\<lparr>sc_total_bytes_read := sat_add64 (sc_total_bytes_read s0) (length buf)\<rparr>;
          (chunk, pending) = normalize_line_endings_chunk buf (sc_pending_cr s);
          s = s\<lparr>sc_pending_cr := pending\<rparr>
      in if chunk = [] then s
         else
           let (raw, newlines, collecting, cursor) =
                 fold (newline_step start_idx end_idx chunk) (mc_all mc 10 chunk)
                   (sc_raw_content s, sc_newlines_seen s, sc_collecting s, 0);
               raw1 = (if collecting \<and> cursor < length chunk then collect raw (drop cursor chunk) else raw)
           in s\<lparr>sc_raw_content := raw1, sc_newlines_seen := newlines, sc_collecting := collecting,
                sc_last_byte_was_newline := (last chunk = 10)\<rparr>)"

fun scan_loop :: "memchr \<Rightarrow> usize \<Rightarrow> usize \<Rightarrow> bytes list \<Rightarrow> read_scan \<Rightarrow> read_scan" where
  "scan_loop mc start_idx end_idx [] s = s"
| "scan_loop mc start_idx end_idx (buf # bufs) s =
     (if buf = [] then s else scan_loop mc start_idx end_idx bufs (scan_chunk mc start_idx end_idx buf s))"

definition scan_end :: "read_scan \<Rightarrow> read_scan" where
  "scan_end s =
     (if sc_pending_cr s then
        s\<lparr>sc_last_byte_was_newline := True,
          sc_raw_content := (if sc_collecting s \<and> length (sc_raw_content s) < DEFAULT_MAX_BYTES
                             then sc_raw_content s @ [10] else sc_raw_content s),
          sc_newlines_seen := sc_newlines_seen s + 1\<rparr>
      else s)"

definition scan_file :: "memchr \<Rightarrow> read_input \<Rightarrow> bytes list \<Rightarrow> read_scan" where
  "scan_file mc input bufs =
     scan_end (scan_loop mc (start_line_idx input) (end_line_idx input) bufs
       \<lparr>sc_raw_content = [], sc_newlines_seen = 0, sc_collecting = (start_line_idx input = 0),
        sc_last_byte_was_newline = False, sc_pending_cr = False, sc_total_bytes_read = 0\<rparr>)"

definition scanned_lines :: "read_scan \<Rightarrow> usize" where
  "scanned_lines s =
     (if sc_total_bytes_read s = 0 then 0
      else if sc_last_byte_was_newline s then sc_newlines_seen s else sc_newlines_seen s + 1)"

section \<open>The answer\<close>

text \<open>\<open>String::from_utf8_lossy\<close>: every invalid sequence becomes the replacement character.\<close>

function from_utf8_lossy :: "bytes \<Rightarrow> bytes" where
  "from_utf8_lossy s =
     (case from_utf8 s of
        None \<Rightarrow> s
      | Some (valid, bad) \<Rightarrow>
          take valid s @ [239, 191, 189] @
          (case bad of None \<Rightarrow> [] | Some k \<Rightarrow> from_utf8_lossy (drop (valid + k) s)))"
  by pat_completeness auto
termination
  by (relation "measure length") (auto dest!: from_utf8_bounds)

declare from_utf8_lossy.simps [simp del]

definition strip_cr :: "bytes \<Rightarrow> bytes" where
  "strip_cr line = (if line \<noteq> [] \<and> last line = 13 then butlast line else line)"

definition padded :: "usize \<Rightarrow> bytes \<Rightarrow> bytes" where
  "padded width s = replicate (width - length s) 32 @ s"

definition render_line :: "(usize \<Rightarrow> bytes \<Rightarrow> bytes) \<Rightarrow> bool \<Rightarrow> usize \<Rightarrow> usize \<Rightarrow> bytes \<Rightarrow> bytes" where
  "render_line tag hashline width line_idx line =
     (if hashline then tag line_idx line @ [58] @ line
      else padded width (decimal (line_idx + 1)) @ [226, 134, 146] @ line)"

fun select_loop :: "(usize \<Rightarrow> bytes \<Rightarrow> bytes) \<Rightarrow> bool \<Rightarrow> usize \<Rightarrow> usize \<Rightarrow> usize \<Rightarrow> usize \<Rightarrow> usize \<Rightarrow> bytes list \<Rightarrow> bytes \<Rightarrow> bytes" where
  "select_loop tag hashline width start_line total_lines lines_to_take i [] selected = selected"
| "select_loop tag hashline width start_line total_lines lines_to_take i (line # lines) selected =
     (if lines_to_take \<le> i \<or> total_lines \<le> start_line + i then selected
      else
        let selected1 = (if 0 < i then selected @ [10] else selected) @
              render_line tag hashline width (start_line + i) (strip_cr line)
        in if 2 * DEFAULT_MAX_BYTES < length selected1 then selected1
           else select_loop tag hashline width start_line total_lines lines_to_take (i + 1) lines selected1)"

datatype read_error = LimitNotPositive | NegativeOffset | OffsetBeyondEnd int usize

definition max_lines_for_truncation :: "read_input \<Rightarrow> usize" where
  "max_lines_for_truncation input =
     (case ri_limit input of Some l \<Rightarrow> if 0 \<le> l then nat l else DEFAULT_MAX_LINES | None \<Rightarrow> DEFAULT_MAX_LINES)"

definition lines_to_take :: "read_input \<Rightarrow> usize" where
  "lines_to_take input = min (limit_lines input) (sat_add64 (max_lines_for_truncation input) 1)"

definition line_num_width :: "read_input \<Rightarrow> usize \<Rightarrow> usize" where
  "line_num_width input total_lines =
     max (length (decimal (min (sat_add64 (start_line_idx input) (lines_to_take input)) total_lines))) 5"

definition selected_content :: "(usize \<Rightarrow> bytes \<Rightarrow> bytes) \<Rightarrow> read_input \<Rightarrow> usize \<Rightarrow> bytes \<Rightarrow> bytes" where
  "selected_content tag input total_lines text_content =
     (let pieces = split_lines text_content;
          effective = (if ends_with_newline text_content then take (lines_to_take input) pieces else pieces)
      in select_loop tag (ri_hashline input) (line_num_width input total_lines) (start_line_idx input) total_lines
           (lines_to_take input) 0 effective [])"

definition quoted_path :: "bytes \<Rightarrow> bytes" where
  "quoted_path path = concat (map (\<lambda>b. if b = 39 then [39, 92, 39, 39] else [b]) path)"

definition start_line_display :: "read_input \<Rightarrow> usize" where
  "start_line_display input = sat_add64 (start_line_idx input) 1"

definition end_line_display :: "read_input \<Rightarrow> truncation_result \<Rightarrow> usize" where
  "end_line_display input truncation = sat_add64 (start_line_display input) (tr_output_lines truncation) - 1"

definition next_offset :: "read_input \<Rightarrow> truncation_result \<Rightarrow> usize" where
  "next_offset input truncation = sat_add64 (end_line_display input truncation) 1"

definition output_text :: "(usize \<Rightarrow> bytes) \<Rightarrow> read_input \<Rightarrow> usize \<Rightarrow> bytes \<Rightarrow> truncation_result \<Rightarrow> bytes" where
  "output_text format_size input total_lines text_content truncation =
     (if tr_first_line_exceeds_limit truncation then
           lit ''[Line '' @ decimal (start_line_display input) @ lit '' is '' @
           format_size (length (strip_cr (hd (split_lines text_content)))) @ lit '', exceeds '' @
           format_size DEFAULT_MAX_BYTES @ lit '' limit. Use bash: sed -n '' @ [39] @ decimal (start_line_display input) @ lit ''p'' @ [39] @
           lit '' '' @ [39] @ quoted_path (ri_path input) @ [39] @ lit '' | head -c '' @ decimal DEFAULT_MAX_BYTES @ lit '']''
         else if tr_truncated truncation then
           tr_content truncation @ [10, 10] @ lit ''[Showing lines '' @ decimal (start_line_display input) @ lit ''-'' @ decimal (end_line_display input truncation) @
           lit '' of '' @ decimal total_lines @
           (if tr_truncated_by truncation = Some ByLines then []
            else lit '' ('' @ format_size DEFAULT_MAX_BYTES @ lit '' limit)'') @
           lit ''. Use offset='' @ decimal (next_offset input truncation) @ lit '' to continue.]''
         else if end_line_display input truncation < total_lines then
           tr_content truncation @ [10, 10] @ lit ''['' @ decimal (total_lines - end_line_display input truncation) @
           lit '' more lines in file. Use offset='' @ decimal (next_offset input truncation) @ lit '' to continue.]''
         else tr_content truncation)"

definition read_text :: "memchr \<Rightarrow> (usize \<Rightarrow> bytes \<Rightarrow> bytes) \<Rightarrow> (usize \<Rightarrow> bytes) \<Rightarrow> read_input \<Rightarrow> bytes list \<Rightarrow> read_error + bytes" where
  "read_text mc tag format_size input bufs =
     (if \<exists>l \<in> set_option (ri_limit input). l \<le> 0 then Inl LimitNotPositive
      else if \<exists>n \<in> set_option (ri_offset input). n < 0 then Inl NegativeOffset
      else
        let s = scan_file mc input bufs;
            total_lines = scanned_lines s;
            text_content = from_utf8_lossy (sc_raw_content s);
            offset_display = (case ri_offset input of Some n \<Rightarrow> n | None \<Rightarrow> 0)
        in if total_lines = 0 then (if 0 < offset_display then Inl (OffsetBeyondEnd offset_display total_lines) else Inr [])
           else if total_lines \<le> start_line_idx input then Inl (OffsetBeyondEnd offset_display total_lines)
           else
             let truncation = truncate_head mc (selected_content tag input total_lines text_content)
                   (max_lines_for_truncation input) DEFAULT_MAX_BYTES
             in Inr (output_text format_size input total_lines text_content
                       (truncation\<lparr>tr_total_lines := total_lines\<rparr>)))"

section \<open>What the scan collects\<close>

text \<open>The bytes of the lines from \<open>a\<close> on and before \<open>b\<close>, \<open>k\<close> being the number of the first line.\<close>

fun line_window :: "nat \<Rightarrow> nat \<Rightarrow> nat \<Rightarrow> bytes \<Rightarrow> bytes" where
  "line_window a b k [] = []"
| "line_window a b k (x # xs) =
     (if a \<le> k \<and> k < b then [x] else []) @ line_window a b (if x = 10 then k + 1 else k) xs"

abbreviation feeds :: "bytes \<Rightarrow> nat" where
  "feeds s \<equiv> length (filter (\<lambda>x. x = 10) s)"

lemma line_window_append: "line_window a b k (s @ t) = line_window a b k s @ line_window a b (k + feeds s) t"
  by (induction s arbitrary: k) auto

lemma collect_take: "length raw \<le> DEFAULT_MAX_BYTES \<Longrightarrow> collect raw piece = take DEFAULT_MAX_BYTES (raw @ piece)"
  by (auto simp: collect_def)

lemma feeds_take_Suc: "p < length s \<Longrightarrow> feeds (take (Suc p) s) = feeds (take p s) + (if s ! p = 10 then 1 else 0)"
  by (simp add: take_Suc_conv_app_nth)

lemma take_extend:
  assumes "take M u = take M z"
  shows "take M (u @ c) = take M (z @ c)"
proof -
  have "min M (length u) = min M (length z)" using assms by (metis length_take min.commute)
  then have "M - length u = M - length z" by linarith
  then show ?thesis using assms by simp
qed

definition segment :: "nat \<Rightarrow> nat \<Rightarrow> bytes \<Rightarrow> bytes" where
  "segment i j s = take (j - i) (drop i s)"

lemma segment_Suc: "i \<le> p \<Longrightarrow> p < length s \<Longrightarrow> segment i (Suc p) s = segment i p s @ [s ! p]"
  by (simp add: segment_def Suc_diff_le take_Suc_conv_app_nth)

definition scan_position :: "nat \<Rightarrow> nat \<Rightarrow> nat \<Rightarrow> bytes \<Rightarrow> bytes \<Rightarrow> nat \<Rightarrow> bytes \<times> nat \<times> bool \<times> nat \<Rightarrow> bool" where
  "scan_position a b k raw0 chunk p st \<longleftrightarrow> (case st of (raw, newlines, collecting, cursor) \<Rightarrow>
     newlines = k + feeds (take p chunk) \<and> (collecting \<longleftrightarrow> a \<le> newlines \<and> newlines < b) \<and> cursor \<le> p \<and>
     length raw \<le> DEFAULT_MAX_BYTES \<and>
     take DEFAULT_MAX_BYTES (raw @ (if collecting then segment cursor p chunk else [])) =
       take DEFAULT_MAX_BYTES (raw0 @ line_window a b k (take p chunk)))"

lemma newline_step_position:
  assumes "scan_position a b k raw0 chunk p st" and "p < length chunk" and "a < b"
  shows "scan_position a b k raw0 chunk (Suc p) (if chunk ! p = 10 then newline_step a b chunk p st else st)"
proof -
  obtain raw newlines collecting cursor where st: "st = (raw, newlines, collecting, cursor)" by (metis prod_cases4)
  note pos = assms(1) [unfolded scan_position_def st prod.case]
  define W where "W = raw0 @ line_window a b k (take p chunk)"
  have eq: "take DEFAULT_MAX_BYTES (raw @ (if collecting then segment cursor p chunk else [])) = take DEFAULT_MAX_BYTES W"
    using pos unfolding W_def by blast
  have W: "raw0 @ line_window a b k (take (Suc p) chunk) = W @ (if collecting then [chunk ! p] else [])"
    using assms(2) pos by (simp add: W_def take_Suc_conv_app_nth line_window_append)
  have sl: "segment cursor (Suc p) chunk = segment cursor p chunk @ [chunk ! p]" using segment_Suc pos assms(2) by blast
  have cont: "take DEFAULT_MAX_BYTES (raw @ (if collecting then segment cursor (Suc p) chunk else [])) =
      take DEFAULT_MAX_BYTES (raw0 @ line_window a b k (take (Suc p) chunk))"
  proof (cases collecting)
    case True
    note take_extend [OF eq [unfolded if_P [OF True]], of "[chunk ! p]"]
    then show ?thesis using True W sl by (simp only: append_assoc if_True)
  qed (use eq W in simp)
  have nl: "feeds (take (Suc p) chunk) = feeds (take p chunk) + (if chunk ! p = 10 then 1 else 0)"
    using feeds_take_Suc [OF assms(2)] .
  show ?thesis
  proof (cases "chunk ! p = 10")
    case False
    then show ?thesis using pos cont nl by (simp add: scan_position_def st)
  next
    case True
    consider (stop) "collecting" "newlines + 1 = b" | (stay) "collecting" "newlines + 1 \<noteq> b"
      | (enter) "\<not> collecting" "newlines + 1 = a" | (skip) "\<not> collecting" "newlines + 1 \<noteq> a" by blast
    then show ?thesis
    proof cases
      case stop
      define Z where "Z = raw0 @ line_window a b k (take (Suc p) chunk)"
      have "length raw \<le> DEFAULT_MAX_BYTES" using pos by blast
      then have "collect raw (take (Suc p - cursor) (drop cursor chunk)) = take DEFAULT_MAX_BYTES Z"
        using cont stop(1) unfolding Z_def [symmetric] segment_def by (simp add: collect_take del: take_append)
      then show ?thesis
        using stop True pos nl assms(3) unfolding scan_position_def st newline_step_def Let_def Z_def [symmetric]
        by (simp del: take_append)
    next
      case stay
      then show ?thesis
        using True pos nl cont by (simp add: scan_position_def st newline_step_def Let_def)
    next
      case enter
      then show ?thesis
        using True pos nl cont assms(3) by (simp add: scan_position_def st newline_step_def Let_def segment_def del: take_append)
    next
      case skip
      then show ?thesis
        using True pos nl cont assms(3)
        by (simp add: scan_position_def st newline_step_def Let_def del: take_append) linarith
    qed
  qed
qed

lemma chunk_positions:
  assumes "a < b" and "length raw0 \<le> DEFAULT_MAX_BYTES" and "collecting0 \<longleftrightarrow> a \<le> k \<and> k < b" and "p \<le> length chunk"
  shows "scan_position a b k raw0 chunk p
    (fold (newline_step a b chunk) (filter (\<lambda>i. chunk ! i = 10) [0..<p]) (raw0, k, collecting0, 0))"
  using assms(4)
proof (induction p)
  case 0
  then show ?case using assms(2,3) by (simp add: scan_position_def segment_def)
next
  case (Suc p)
  then show ?case using newline_step_position [OF _ _ assms(1)] by (simp add: if_distrib [of "\<lambda>f. f _"] split: if_splits) fastforce
qed

text \<open>The state after a text \<open>T\<close>, read as \<open>n\<close> bytes.\<close>

definition scanned :: "nat \<Rightarrow> nat \<Rightarrow> bytes \<Rightarrow> nat \<Rightarrow> read_scan \<Rightarrow> bool" where
  "scanned a b T n s \<longleftrightarrow>
     sc_newlines_seen s = feeds T \<and> (sc_collecting s \<longleftrightarrow> a \<le> feeds T \<and> feeds T < b) \<and>
     sc_raw_content s = take DEFAULT_MAX_BYTES (line_window a b 0 T) \<and>
     sc_last_byte_was_newline s = (T \<noteq> [] \<and> last T = 10) \<and> sc_total_bytes_read s = min u64_max n"

context memchr_contract
begin

lemma scan_chunk_scanned:
  assumes "scanned a b T n s" and "a < b" and "normalize_line_endings_chunk buf (sc_pending_cr s) = (chunk, pending)"
  shows "scanned a b (T @ chunk) (n + length buf) (scan_chunk mc a b buf s) \<and> sc_pending_cr (scan_chunk mc a b buf s) = pending"
proof (cases "chunk = []")
  case True
  then show ?thesis using assms by (simp add: scan_chunk_def scanned_def sat_add64_def min_def Let_def)
next
  case False
  define raw0 where "raw0 = sc_raw_content s"
  have s: "sc_newlines_seen s = feeds T" "sc_collecting s \<longleftrightarrow> a \<le> feeds T \<and> feeds T < b"
    "raw0 = take DEFAULT_MAX_BYTES (line_window a b 0 T)" "sc_total_bytes_read s = min u64_max n"
    using assms(1) by (simp_all add: scanned_def raw0_def)
  obtain raw newlines collecting cursor where
    run: "fold (newline_step a b chunk) (mc_all mc 10 chunk) (raw0, feeds T, sc_collecting s, 0) = (raw, newlines, collecting, cursor)"
    by (metis prod_cases4)
  have "length raw0 \<le> DEFAULT_MAX_BYTES" using s(3) by simp
  from chunk_positions [OF assms(2) this s(2) order_refl [of "length chunk"], folded all_positions, unfolded run]
  have pos: "newlines = feeds T + feeds chunk" "collecting \<longleftrightarrow> a \<le> newlines \<and> newlines < b" "cursor \<le> length chunk"
    "length raw \<le> DEFAULT_MAX_BYTES"
    "take DEFAULT_MAX_BYTES (raw @ (if collecting then segment cursor (length chunk) chunk else [])) =
       take DEFAULT_MAX_BYTES (raw0 @ line_window a b (feeds T) chunk)"
    unfolding scan_position_def prod.case take_all [OF order_refl] by blast+
  define raw1 where "raw1 = (if collecting \<and> cursor < length chunk then collect raw (drop cursor chunk) else raw)"
  have "raw1 = take DEFAULT_MAX_BYTES (raw @ (if collecting then segment cursor (length chunk) chunk else []))"
    using pos(3,4) by (auto simp: raw1_def collect_take segment_def)
  also have "\<dots> = take DEFAULT_MAX_BYTES (line_window a b 0 (T @ chunk))"
    unfolding pos(5) line_window_append s(3) by (simp add: min_def)
  finally have raw1: "raw1 = take DEFAULT_MAX_BYTES (line_window a b 0 (T @ chunk))" .
  have "scan_chunk mc a b buf s = s\<lparr>sc_total_bytes_read := sat_add64 (sc_total_bytes_read s) (length buf), sc_pending_cr := pending,
      sc_raw_content := raw1, sc_newlines_seen := newlines, sc_collecting := collecting, sc_last_byte_was_newline := (last chunk = 10)\<rparr>"
    using False assms(3) run s(1) by (simp add: scan_chunk_def Let_def raw0_def raw1_def)
  then show ?thesis
    using raw1 pos(1,2) s(4) False by (simp add: scanned_def sat_add64_def min_def)
qed

lemma scan_loop_scanned:
  assumes "a < b" and "[] \<notin> set bufs" and "feed_chunks bufs (sc_pending_cr s) = (out, held)" and "scanned a b T n s"
  shows "scanned a b (T @ out) (n + length (concat bufs)) (scan_loop mc a b bufs s) \<and>
    sc_pending_cr (scan_loop mc a b bufs s) = held"
  using assms(2-)
proof (induction bufs arbitrary: s T n out)
  case (Cons buf bufs)
  obtain o1 h1 o2 where run: "normalize_line_endings_chunk buf (sc_pending_cr s) = (o1, h1)" "feed_chunks bufs h1 = (o2, held)"
    and out: "out = o1 @ o2" using Cons.prems(2) by (auto split: prod.splits)
  note step = scan_chunk_scanned [OF Cons.prems(3) assms(1) run(1)]
  show ?case
    using Cons.IH [of "scan_chunk mc a b buf s" o2 "T @ o1" "n + length buf"] Cons.prems(1) step run(2) out
    by (auto simp: add.assoc)
qed simp

lemma scan_file_exact:
  assumes "[] \<notin> set bufs" and "start_line_idx input < end_line_idx input"
  shows "sc_raw_content (scan_file mc input bufs) = take DEFAULT_MAX_BYTES
      (line_window (start_line_idx input) (end_line_idx input) 0 (normalize_to_lf (concat bufs)))"
    and "scanned_lines (scan_file mc input bufs) = line_total (normalize_to_lf (concat bufs))"
proof -
  define a b where "a = start_line_idx input" and "b = end_line_idx input"
  define s0 where "s0 = \<lparr>sc_raw_content = [], sc_newlines_seen = 0, sc_collecting = (a = 0),
        sc_last_byte_was_newline = False, sc_pending_cr = False, sc_total_bytes_read = 0\<rparr>"
  define s where "s = scan_loop mc a b bufs s0"
  define N where "N = normalize_to_lf (concat bufs)"
  have ab: "a < b" using assms(2) by (simp add: a_def b_def)
  obtain out held where fed: "feed_chunks bufs False = (out, held)" by force
  have "scanned a b [] 0 s0" using ab by (simp add: scanned_def s0_def)
  from scan_loop_scanned [OF ab assms(1) _ this] fed
  have sc: "scanned a b out (length (concat bufs)) s" "sc_pending_cr s = held" by (simp_all add: s_def s0_def)
  have N: "N = out @ (if held then [10] else [])"
    using feed_chunks_whole [OF fed assms(1)] by (simp add: N_def normalize_to_lf_loop)
  have whole: "scan_file mc input bufs = scan_end s" by (simp add: scan_file_def s_def s0_def a_def b_def)
  have empty: "min u64_max (length (concat bufs)) = 0 \<longleftrightarrow> N = []"
  proof -
    have "lf_loop t = [] \<longleftrightarrow> t = []" for t by (cases t) auto
    then have "N = [] \<longleftrightarrow> concat bufs = []" unfolding N_def normalize_to_lf_loop by blast
    moreover have "min u64_max k = 0 \<longleftrightarrow> k = 0" for k by (simp add: min_def u64_max_def)
    ultimately show ?thesis using length_0_conv [of "concat bufs"] by blast
  qed
  show "sc_raw_content (scan_file mc input bufs) = take DEFAULT_MAX_BYTES
      (line_window (start_line_idx input) (end_line_idx input) 0 (normalize_to_lf (concat bufs)))"
    unfolding whole N_def [symmetric] N a_def [symmetric] b_def [symmetric]
    using sc by (auto simp: scan_end_def scanned_def line_window_append)
  show "scanned_lines (scan_file mc input bufs) = line_total (normalize_to_lf (concat bufs))"
  proof -
    have "scanned_lines (scan_end s) = (if N = [] then 0 else feeds N + (if last N = 10 then 0 else 1))"
    proof (cases held)
      case True
      then show ?thesis using sc N empty by (simp add: scan_end_def scanned_def scanned_lines_def)
    next
      case False
      then show ?thesis using sc N empty by (auto simp: scan_end_def scanned_def scanned_lines_def)
    qed
    then show ?thesis unfolding whole N_def [symmetric] by (simp add: line_total_def)
  qed
qed

end

section \<open>Lines of a text\<close>

text \<open>The lines of a file: a trailing line feed ends the last one.\<close>

definition text_lines :: "bytes \<Rightarrow> bytes list" where
  "text_lines s = (if s = [] then [] else if last s = 10 then butlast (split_lines s) else split_lines s)"

lemma split_lines_ne [simp]: "split_lines s \<noteq> []"
  by (cases s) (auto split: list.splits)

lemma split_lines_Cons: "c \<noteq> 10 \<Longrightarrow> split_lines (c # s) = (c # hd (split_lines s)) # tl (split_lines s)"
  by (simp split: list.splits)

lemma split_lines_append:
  "split_lines (s @ t) = butlast (split_lines s) @ (last (split_lines s) @ hd (split_lines t)) # tl (split_lines t)"
proof (induction s)
  case Nil
  then show ?case by simp
next
  case (Cons c s)
  show ?case
  proof (cases "c = 10")
    case False
    obtain l ls where l: "split_lines s = l # ls" by (meson list.exhaust split_lines_ne)
    show ?thesis using Cons False l by (cases ls) (simp_all add: split_lines_Cons)
  qed (use Cons in simp)
qed

lemma split_lines_length: "length (split_lines s) = Suc (feeds s)"
  by (induction s) (auto split: list.splits)

lemma split_lines_last: "s \<noteq> [] \<Longrightarrow> last s = 10 \<Longrightarrow> last (split_lines s) = []"
  using split_lines_append [of "butlast s" "[10]"] append_butlast_last_id [of s] by (simp del: append_butlast_last_id)

lemma join_lines_Cons: "ls \<noteq> [] \<Longrightarrow> join_lines (l # ls) = l @ 10 # join_lines ls"
  by (cases ls) auto

lemma join_split: "join_lines (split_lines s) = s"
proof (induction s)
  case (Cons c s)
  obtain l ls where l: "split_lines s = l # ls" by (meson list.exhaust split_lines_ne)
  then show ?case using Cons by (cases "c = 10"; cases ls) (auto simp: join_lines_Cons)
qed simp

lemma text_lines_length: "length (text_lines s) = line_total s"
  by (simp add: text_lines_def line_total_def split_lines_length)

lemma split_text_lines:
  "s \<noteq> [] \<Longrightarrow> split_lines s = text_lines s @ (if last s = 10 then [[]] else [])"
  using split_lines_last [of s] by (simp add: text_lines_def) (metis append_butlast_last_id split_lines_ne)

lemma split_lines_no_feed: "l \<in> set (split_lines s) \<Longrightarrow> 10 \<notin> set l"
proof (induction s arbitrary: l)
  case (Cons c s)
  obtain k ks where "split_lines s = k # ks" by (meson list.exhaust split_lines_ne)
  then show ?case using Cons by (cases "c = 10") auto
qed simp

lemma feed_in_char: "utf8_char c \<Longrightarrow> 10 \<in> set c \<Longrightarrow> c = [10]"
  by (cases c) (auto simp: utf8_char_def is_cont_def)

lemma split_no_feed: "10 \<notin> set c \<Longrightarrow> split_lines c = [c]"
  by (induction c) (auto simp: split_lines_Cons)

lemma split_lines_valid: "utf8_valid s \<Longrightarrow> list_all utf8_valid (split_lines s)"
proof (induction s rule: utf8_valid_induct)
  case (Char c r)
  obtain l ls where l: "split_lines r = l # ls" by (meson list.exhaust split_lines_ne)
  show ?case
  proof (cases "10 \<in> set c")
    case True
    then show ?thesis using feed_in_char [OF Char(1)] Char(3) by simp
  next
    case False
    then show ?thesis
      using Char(3) l utf8_valid_char [OF Char(1)] by (simp add: split_lines_append split_no_feed)
  qed
qed simp

lemma valid_feed: "utf8_valid (10 # t) \<longleftrightarrow> utf8_valid t"
  using utf8_valid_char [of "[10]" t] by (simp add: utf8_char_def utf8_head_def is_cont_def)

lemma normalize_valid: "utf8_valid s \<Longrightarrow> utf8_valid (normalize_to_lf s)"
proof -
  note nl = valid_feed
  have "utf8_valid s \<Longrightarrow> utf8_valid (lf_loop s) \<and> utf8_valid (after_cr s)"
  proof (induction s rule: utf8_valid_induct)
    case (Char c r)
    have lf: "utf8_valid (lf_loop (c @ r))"
    proof (cases "13 \<in> set c")
      case True
      then have "c = [13]" using Char(1) by (cases c) (auto simp: utf8_char_def is_cont_def)
      then show ?thesis using Char(3) lf_loop_cr [of r] by simp
    qed (use Char lf_loop_id [of c r] utf8_valid_char [OF Char(1)] in simp)
    have "utf8_valid (after_cr (c @ r))"
    proof (cases "10 \<in> set c")
      case True
      then show ?thesis using feed_in_char [OF Char(1)] Char(3) by (simp add: after_cr_def nl)
    next
      case False
      then have "after_cr (c @ r) = 10 # lf_loop (c @ r)"
        using Char(1) by (cases c) (auto simp: after_cr_def utf8_char_def)
      then show ?thesis using lf by (simp add: nl)
    qed
    then show ?case using lf by simp
  qed (simp add: after_cr_def nl)
  then show "utf8_valid s \<Longrightarrow> ?thesis" by (simp add: normalize_to_lf_loop)
qed

lemma split_join: "ls \<noteq> [] \<Longrightarrow> \<forall>l \<in> set ls. 10 \<notin> set l \<Longrightarrow> split_lines (join_lines ls) = ls"
proof (induction ls)
  case (Cons l ls)
  then show ?case
    by (cases "ls = []") (simp_all add: join_lines_Cons split_lines_append split_no_feed)
qed simp

lemma line_window_line: "10 \<notin> set l \<Longrightarrow> line_window a b k l = (if a \<le> k \<and> k < b then l else [])"
  by (induction l) auto

lemma line_window_Cons:
  assumes "10 \<notin> set l"
  shows "line_window a b k (join_lines (l # ls)) =
    (if a \<le> k \<and> k < b then (if ls = [] then l else l @ [10]) else []) @
    (if ls = [] then [] else line_window a b (Suc k) (join_lines ls))"
proof (cases "ls = []")
  case False
  have "feeds l = 0" using assms by (auto simp: filter_empty_conv)
  then show ?thesis using False assms by (simp add: join_lines_Cons line_window_append line_window_line)
qed (use assms in \<open>simp add: line_window_line\<close>)

lemma line_window_skip:
  assumes "\<forall>l \<in> set ls. 10 \<notin> set l" and "n < length ls" and "k + n \<le> a"
  shows "line_window a b k (join_lines ls) = line_window a b (k + n) (join_lines (drop n ls))"
  using assms
proof (induction n arbitrary: ls k)
  case (Suc n)
  obtain l m ls' where ls: "ls = l # m # ls'" using Suc.prems(2) by (cases ls; cases "tl ls") auto
  have "line_window a b k (join_lines ls) = line_window a b (Suc k) (join_lines (m # ls'))"
    using line_window_Cons [of l a b k "m # ls'"] Suc.prems ls by simp
  then show ?case using Suc.IH [of "m # ls'" "Suc k"] Suc.prems ls by simp
qed simp

lemma line_window_keep:
  assumes "\<forall>l \<in> set ls. 10 \<notin> set l" and "ls \<noteq> []" and "a \<le> k" and "k \<le> b"
  shows "line_window a b k (join_lines ls) =
    join_lines (if length ls \<le> b - k then ls else take (b - k) ls @ [[]])"
  using assms
proof (induction ls arbitrary: k)
  case (Cons l ls)
  show ?case
  proof (cases "k = b")
    case True
    have none: "line_window a b j u = []" if "b \<le> j" for j u using that by (induction u arbitrary: j) auto
    show ?thesis using True none [of k] by simp
  next
    case False
    then have b: "b - k = Suc (b - Suc k)" using Cons.prems(4) by simp
    show ?thesis
    proof (cases "ls = []")
      case True
      then show ?thesis using Cons.prems False b line_window_Cons [of l a b k ls] by simp
    next
      case ne: False
      then show ?thesis
        using Cons.IH [of "Suc k"] Cons.prems False b line_window_Cons [of l a b k ls]
        by (auto simp: join_lines_Cons)
    qed
  qed
qed simp

lemma window_join:
  assumes "a < line_total N" and "a \<le> b"
  shows "line_window a b 0 N = join_lines (if length (drop a (split_lines N)) \<le> b - a then drop a (split_lines N)
    else take (b - a) (drop a (split_lines N)) @ [[]])"
proof -
  have N: "N \<noteq> []" using assms(1) by auto
  have no: "\<forall>l \<in> set (split_lines N). 10 \<notin> set l" using split_lines_no_feed by blast
  have a: "a < length (split_lines N)" using assms(1) by (simp add: split_text_lines [OF N] text_lines_length)
  then have ls: "drop a (split_lines N) \<noteq> []" "\<forall>l \<in> set (drop a (split_lines N)). 10 \<notin> set l"
    using no by (auto dest: in_set_dropD)
  have "line_window a b 0 N = line_window a b a (join_lines (drop a (split_lines N)))"
    using line_window_skip [OF no a, of 0 a b] by (simp add: join_split)
  also have "\<dots> = join_lines (if length (drop a (split_lines N)) \<le> b - a then drop a (split_lines N)
    else take (b - a) (drop a (split_lines N)) @ [[]])"
    by (rule line_window_keep [OF ls(2,1) order_refl assms(2)])
  finally show ?thesis .
qed

text \<open>The first lines of the window are the requested lines of the file.\<close>

lemma window_lines:
  assumes "a < line_total N" and "a \<le> b" and "k \<le> b - a" and "k \<le> line_total N - a"
  shows "take k (split_lines (line_window a b 0 N)) = take k (drop a (text_lines N))"
proof -
  have N: "N \<noteq> []" using assms(1) by auto
  define ls where "ls = drop a (split_lines N)"
  have "\<forall>l \<in> set ls. 10 \<notin> set l" using split_lines_no_feed by (auto simp: ls_def dest: in_set_dropD)
  moreover have "ls \<noteq> []" using assms(1) by (simp add: ls_def split_text_lines [OF N] text_lines_length)
  ultimately have "split_lines (line_window a b 0 N) = (if length ls \<le> b - a then ls else take (b - a) ls @ [[]])"
    using window_join [OF assms(1,2)] split_join [of ls] split_join [of "take (b - a) ls @ [[]]"]
    unfolding ls_def [symmetric] by (auto dest: in_set_takeD)
  moreover have "take k ls = take k (drop a (text_lines N))"
    using assms(4) by (simp add: ls_def split_text_lines [OF N] text_lines_length)
  ultimately show ?thesis using assms(3) by (auto simp: min_def)
qed

lemma window_valid:
  assumes "utf8_valid N" and "a < line_total N" and "a \<le> b"
  shows "utf8_valid (line_window a b 0 N)"
  unfolding window_join [OF assms(2,3)] using split_lines_valid [OF assms(1)]
  by (intro join_lines_valid) (auto simp: list_all_iff dest!: in_set_takeD in_set_dropD)

section \<open>Numbered lines\<close>

fun rendered :: "(nat \<Rightarrow> bytes \<Rightarrow> bytes) \<Rightarrow> nat \<Rightarrow> bytes list \<Rightarrow> bytes list" where
  "rendered R i [] = []"
| "rendered R i (l # ls) = R i l # rendered R (Suc i) ls"

lemma rendered_append: "rendered R i (xs @ ys) = rendered R i xs @ rendered R (i + length xs) ys"
  by (induction xs arbitrary: i) auto

lemma rendered_length [simp]: "length (rendered R i xs) = length xs"
  by (induction xs arbitrary: i) auto

lemma rendered_take: "take n (rendered R i xs) = rendered R i (take n xs)"
  by (induction xs arbitrary: i n) (auto simp: take_Cons split: nat.splits)

definition glued :: "bytes list \<Rightarrow> bytes" where
  "glued xs = concat (map (\<lambda>x. 10 # x) xs)"

lemma join_glued: "join_lines xs = drop 1 (glued xs)"
proof (induction xs)
  case (Cons x xs)
  then show ?case by (cases xs) (auto simp: glued_def)
qed (simp add: glued_def)

text \<open>The loop writes the numbered lines, all of them or more than enough.\<close>

lemma select_loop_lines:
  assumes "\<forall>l \<in> set lines. 13 \<notin> set l"
  shows "\<exists>rest. acc @ (if i = 0 then drop 1 else id)
      (glued (rendered (render_line tag h w) (a + i) (take (min t (tot - a) - i) lines))) =
      select_loop tag h w a tot t i lines acc @ rest \<and>
    (rest \<noteq> [] \<longrightarrow> 2 * DEFAULT_MAX_BYTES < length (select_loop tag h w a tot t i lines acc))"
  using assms
proof (induction lines arbitrary: i acc)
  case Nil
  then show ?case by (simp add: glued_def)
next
  case (Cons l ls)
  have "l = [] \<or> last l \<noteq> 13" using Cons.prems last_in_set [of l] by (metis list.set_intros(1))
  then have cr: "strip_cr l = l" by (auto simp: strip_cr_def)
  show ?case
  proof (cases "t \<le> i \<or> tot \<le> a + i")
    case True
    then have "min t (tot - a) - i = 0" by auto
    then show ?thesis using True by (simp add: glued_def)
  next
    case False
    then have m: "min t (tot - a) - i = Suc (min t (tot - a) - Suc i)" by auto
    define acc1 where "acc1 = (if 0 < i then acc @ [10] else acc) @ render_line tag h w (a + i) l"
    define tail where "tail = glued (rendered (render_line tag h w) (a + Suc i) (take (min t (tot - a) - Suc i) ls))"
    have whole: "acc @ (if i = 0 then drop 1 else id)
        (glued (rendered (render_line tag h w) (a + i) (take (min t (tot - a) - i) (l # ls)))) = acc1 @ tail"
      unfolding m by (simp add: acc1_def tail_def glued_def)
    show ?thesis
    proof (cases "2 * DEFAULT_MAX_BYTES < length acc1")
      case True
      then have "select_loop tag h w a tot t i (l # ls) acc = acc1"
        using False by (simp add: cr acc1_def Let_def)
      then show ?thesis using whole True by blast
    next
      case small: False
      then have "select_loop tag h w a tot t i (l # ls) acc = select_loop tag h w a tot t (Suc i) ls acc1"
        using False by (simp add: cr acc1_def Let_def)
      then show ?thesis using Cons.IH [of acc1 "Suc i"] Cons.prems whole by (simp add: tail_def)
    qed
  qed
qed

definition shown :: "(nat \<Rightarrow> bytes) \<Rightarrow> nat \<Rightarrow> nat \<Rightarrow> bytes \<Rightarrow> bytes" where
  "shown pre a k text = join_lines (rendered (\<lambda>i l. pre i @ l) a (take k (split_lines text)))"

lemma shown_complete: "k < length (split_lines u) \<Longrightarrow> shown pre a k (u @ x) = shown pre a k u"
  by (simp add: shown_def split_lines_append take_butlast)

lemma shown_extends:
  assumes "length (split_lines u) \<le> k"
  shows "\<exists>y. shown pre a k (u @ x) = shown pre a k u @ y"
proof -
  define bs where "bs = butlast (split_lines u)"
  define c where "c = last (split_lines u)"
  have sp: "split_lines u = bs @ [c]" by (simp add: bs_def c_def)
  obtain j where j: "k = length bs + Suc j" using assms sp by (metis add_Suc_right le_Suc_ex length_append_singleton add_Suc)
  have "split_lines (u @ x) = bs @ (c @ hd (split_lines x)) # tl (split_lines x)"
    by (simp add: split_lines_append bs_def c_def)
  then show ?thesis
    unfolding shown_def by (cases bs) (simp_all add: sp j rendered_append join_glued glued_def)
qed

lemma glued_rendered_length:
  assumes "\<forall>i. p \<le> length (pre i)"
  shows "length (glued ls) + p * length ls \<le> length (glued (rendered (\<lambda>i l. pre i @ l) a ls))"
proof (induction ls arbitrary: a)
  case (Cons l ls)
  show ?case using assms [rule_format, of a] Cons.IH [of "Suc a"] by (simp add: glued_def)
qed (simp add: glued_def)

lemma shown_length:
  assumes "length (split_lines u) \<le> k" and "\<forall>i. p \<le> length (pre i)"
  shows "length u + p \<le> length (shown pre a k u)"
proof -
  obtain l ls where l: "split_lines u = l # ls" by (meson list.exhaust split_lines_ne)
  have "length u = length (glued (split_lines u)) - 1"
    using arg_cong [OF join_split [of u], of length] by (simp add: join_glued)
  moreover have "length (glued (split_lines u)) + p \<le> length (glued (rendered (\<lambda>i l. pre i @ l) a (split_lines u)))"
    using glued_rendered_length [OF assms(2), of "split_lines u" a] l by simp
  moreover have "0 < length (glued (split_lines u))" using l by (simp add: glued_def)
  ultimately show ?thesis unfolding shown_def join_glued take_all [OF assms(1)] length_drop by linarith
qed

lemma cont_bytes_cut: "cont_bytes n seen bs = Cut \<Longrightarrow> length bs < n"
  by (induction n seen bs rule: cont_bytes.induct) (auto split: if_splits)

lemma cut_short: "from_utf8 s = Some (v, None) \<Longrightarrow> length s \<le> v + 3"
proof (induction s arbitrary: v rule: from_utf8.induct)
  case (2 b bs)
  show ?case
  proof (cases "utf8_head b bs")
    case (Whole w)
    then obtain v' where v: "from_utf8 (drop w (b # bs)) = Some (v', None)" "v = w + v'"
      using 2(2) by (auto simp: from_utf8.simps(2))
    then show ?thesis using 2(1) [OF Whole v(1)] by simp
  next
    case Cut
    then have "length bs < 3"
      by (cases bs) (auto simp: utf8_head_def Let_def split: if_splits dest!: cont_bytes_cut)
    then show ?thesis using Cut 2(2) by (simp add: from_utf8.simps(2))
  qed (use 2(2) in \<open>auto simp: from_utf8.simps(2)\<close>)
qed simp

text \<open>Cutting the raw text at the limit does not show in the first bytes of the answer.\<close>

lemma lossy_cut:
  assumes "utf8_valid W"
  obtains V x y where "from_utf8_lossy (take M W) = V @ x" and "W = V @ y" and "utf8_valid (V @ x)"
    and "length W \<le> M \<and> x = y \<or> M \<le> length V + 3"
proof (cases "length W \<le> M")
  case True
  then have "from_utf8_lossy (take M W) = W" using assms by (simp add: from_utf8_lossy.simps utf8_valid_def)
  then show ?thesis using that [of W "[]" "[]"] True assms by simp
next
  case False
  define U where "U = take M W"
  have pre: "case from_utf8 U of None \<Rightarrow> True | Some (v, bad) \<Rightarrow> bad = None"
    using valid_prefix [of U "drop M W"] assms by (simp add: U_def)
  show ?thesis
  proof (cases "from_utf8 U")
    case None
    then have "from_utf8_lossy U = U" by (simp add: from_utf8_lossy.simps)
    then show ?thesis using that [of U "[]" "drop M W"] False None by (simp add: U_def utf8_valid_def)
  next
    case (Some r)
    then obtain v where v: "from_utf8 U = Some (v, None)" using pre by (cases r) auto
    have lossy: "from_utf8_lossy U = take v U @ [239, 191, 189]"
      unfolding from_utf8_lossy.simps [of U] using v by simp
    have "utf8_valid (take v U)" using take_valid [of U] v by (simp add: valid_up_to_def)
    moreover have "utf8_valid [239, 191, 189]" by code_simp
    ultimately have "utf8_valid (take v U @ [239, 191, 189])" by (rule utf8_valid_append)
    moreover have "W = take v U @ drop v U @ drop M W"
      unfolding U_def append_assoc [symmetric] append_take_drop_id by simp
    moreover have "v \<le> length U" using from_utf8_bounds [OF v] by simp
    moreover have "length U \<le> v + 3" by (rule cut_short [OF v])
    ultimately show ?thesis using that [of "take v U" "[239, 191, 189]" "drop v U @ drop M W"] lossy False
      by (simp add: U_def)
  qed
qed

lemma shown_cut:
  assumes "utf8_valid W" and "\<forall>i. 8 \<le> length (pre i)"
  shows "take (Suc M) (shown pre a k (from_utf8_lossy (take M W))) = take (Suc M) (shown pre a k W)"
proof -
  obtain V x y where V: "from_utf8_lossy (take M W) = V @ x" "W = V @ y" "length W \<le> M \<and> x = y \<or> M \<le> length V + 3"
    using lossy_cut [OF assms(1)] by metis
  show ?thesis
  proof (cases "x = y \<or> k < length (split_lines V)")
    case True
    then show ?thesis using V(1,2) shown_complete [of k V] by auto
  next
    case False
    then have len: "length (split_lines V) \<le> k" "M \<le> length V + 3" using V(3) by auto
    obtain p q where "shown pre a k (V @ x) = shown pre a k V @ p" "shown pre a k (V @ y) = shown pre a k V @ q"
      using shown_extends [OF len(1)] by metis
    moreover have "Suc M \<le> length (shown pre a k V)" using shown_length [OF len(1) assms(2), of a] len(2) by simp
    ultimately show ?thesis using V(1,2) by simp
  qed
qed

section \<open>The answer is that of the whole window\<close>

definition number_prefix :: "nat \<Rightarrow> nat \<Rightarrow> bytes" where
  "number_prefix w i = padded w (decimal (i + 1)) @ [226, 134, 146]"

lemma render_numbered: "render_line tag False w = (\<lambda>i l. number_prefix w i @ l)"
  by (simp add: fun_eq_iff render_line_def number_prefix_def)

lemma number_prefix_length: "5 \<le> w \<Longrightarrow> 8 \<le> length (number_prefix w i)"
  by (simp add: number_prefix_def padded_def)

lemma decimal_ascii: "\<forall>b \<in> set (decimal n). 48 \<le> b \<and> b < 58"
  by (induction n rule: decimal.induct) (subst decimal.simps, auto)

lemma number_prefix_valid: "utf8_valid (number_prefix w i)"
proof -
  have "utf8_valid (padded w (decimal (i + 1)))"
    using decimal_ascii [of "i + 1"] by (intro ascii_valid) (auto simp: padded_def)
  moreover have "utf8_valid [226, 134, 146]" by code_simp
  ultimately show ?thesis unfolding number_prefix_def by (rule utf8_valid_append)
qed

lemma number_prefix_line: "number_prefix w i \<noteq> [] \<and> 10 \<notin> set (number_prefix w i)"
proof -
  have "10 \<notin> set (decimal (i + 1))" using decimal_ascii [of "i + 1"] by force
  then show ?thesis by (simp add: number_prefix_def padded_def)
qed

lemma rendered_lines:
  "list_all (\<lambda>l. 10 \<notin> set l) ls \<Longrightarrow> \<forall>x \<in> set (rendered (\<lambda>i l. number_prefix w i @ l) a ls). x \<noteq> [] \<and> 10 \<notin> set x"
  by (induction ls arbitrary: a) (simp_all add: number_prefix_line)

lemma rendered_valid: "list_all utf8_valid ls \<Longrightarrow> list_all utf8_valid (rendered (\<lambda>i l. number_prefix w i @ l) a ls)"
  by (induction ls arbitrary: a) (auto intro: utf8_valid_append number_prefix_valid)

lemma shown_valid:
  assumes "utf8_valid u"
  shows "utf8_valid (shown (number_prefix w) a k u)"
  unfolding shown_def using split_lines_valid [OF assms]
  by (intro join_lines_valid rendered_valid) (auto simp: list_all_iff dest: in_set_takeD)

lemma select_loop_valid:
  "utf8_valid acc \<Longrightarrow> list_all utf8_valid lines \<Longrightarrow> \<forall>l \<in> set lines. 13 \<notin> set l \<Longrightarrow>
   utf8_valid (select_loop tag False w a tot t i lines acc)"
proof (induction lines arbitrary: i acc)
  case (Cons l ls)
  have "l = [] \<or> last l \<noteq> 13" using Cons.prems(3) last_in_set [of l] by (metis list.set_intros(1))
  then have cr: "strip_cr l = l" by (auto simp: strip_cr_def)
  define acc1 where "acc1 = (if 0 < i then acc @ [10] else acc) @ number_prefix w (a + i) @ l"
  have acc1: "utf8_valid acc1"
    using Cons.prems(1,2) by (auto simp: acc1_def valid_feed intro!: utf8_valid_append number_prefix_valid)
  have "select_loop tag False w a tot t i (l # ls) acc =
      (if t \<le> i \<or> tot \<le> a + i then acc else if 2 * DEFAULT_MAX_BYTES < length acc1 then acc1
       else select_loop tag False w a tot t (Suc i) ls acc1)"
    by (simp add: Let_def render_numbered cr acc1_def)
  then show ?case using Cons.IH [OF acc1, of "Suc i"] Cons.prems acc1 by simp
qed simp

lemma split_lines_sub: "l \<in> set (split_lines s) \<Longrightarrow> set l \<subseteq> set s"
proof (induction s arbitrary: l)
  case (Cons c s)
  obtain k ks where "split_lines s = k # ks" by (meson list.exhaust split_lines_ne)
  then show ?case using Cons.IH [of k] Cons.IH [of l] Cons.prems by (cases "c = 10") auto
qed simp

lemma lossy_set: "set (from_utf8_lossy s) \<subseteq> set s \<union> {239, 191, 189}"
proof (induction s rule: from_utf8_lossy.induct)
  case (1 s)
  show ?case
  proof (cases "from_utf8 s")
    case None
    then show ?thesis by (auto simp: from_utf8_lossy.simps [of s])
  next
    case (Some r)
    obtain v bad where r: "r = (v, bad)" by force
    have "set (case bad of None \<Rightarrow> [] | Some k \<Rightarrow> from_utf8_lossy (drop (v + k) s)) \<subseteq> set s \<union> {239, 191, 189}"
    proof (cases bad)
      case (Some k)
      show ?thesis using 1 [OF \<open>from_utf8 s = Some r\<close> r [symmetric] Some] set_drop_subset [of "v + k" s] by (auto simp: Some)
    qed simp
    then show ?thesis
      using Some r set_take_subset [of v s] unfolding from_utf8_lossy.simps [of s] by auto
  qed
qed

lemma selected_shown:
  assumes "\<not> ri_hashline input" and "13 \<notin> set u"
  shows "\<exists>rest. shown (number_prefix (line_num_width input tot)) (start_line_idx input)
      (min (lines_to_take input) (tot - start_line_idx input)) u = selected_content tag input tot u @ rest \<and>
    (rest \<noteq> [] \<longrightarrow> 2 * DEFAULT_MAX_BYTES < length (selected_content tag input tot u))"
proof -
  define t a where "t = lines_to_take input" and "a = start_line_idx input"
  define eff where "eff = (if ends_with_newline u then take t (split_lines u) else split_lines u)"
  have "\<forall>l \<in> set (split_lines u). 13 \<notin> set l" using split_lines_sub assms(2) by blast
  then have "\<forall>l \<in> set eff. 13 \<notin> set l" by (auto simp: eff_def dest: in_set_takeD)
  moreover have "take (min t (tot - a)) eff = take (min t (tot - a)) (split_lines u)" by (simp add: eff_def min_def)
  moreover have "selected_content tag input tot u = select_loop tag False (line_num_width input tot) a tot t 0 eff []"
    using assms(1) by (simp add: selected_content_def t_def a_def eff_def)
  ultimately show ?thesis
    using select_loop_lines [of eff "[]" 0 tag False "line_num_width input tot" a t tot]
    by (simp add: shown_def join_glued render_numbered t_def [symmetric] a_def [symmetric])
qed

lemma selected_valid:
  assumes "\<not> ri_hashline input" and "13 \<notin> set u" and "utf8_valid u"
  shows "utf8_valid (selected_content tag input tot u)"
proof -
  have "\<forall>l \<in> set (split_lines u). 13 \<notin> set l" using split_lines_sub assms(2) by blast
  then show ?thesis
    unfolding selected_content_def Let_def using assms(1) split_lines_valid [OF assms(3)]
    by (auto intro!: select_loop_valid simp: list_all_iff) (auto dest!: in_set_takeD)
qed

text \<open>What is kept of a text only depends on its first bytes, one more than the limit.\<close>

lemma longest_head_same:
  assumes "take (Suc B) s = take (Suc B) t" and "B < length s" and "B < length t"
  shows "longest_head s L B n \<longleftrightarrow> longest_head t L B n"
proof -
  have eq: "take m s = take m t" if "m \<le> Suc B" for m
    using arg_cong [OF assms(1), of "take m"] that by (simp add: min_def)
  have nth: "s ! m = t ! m" if "m \<le> B" for m
    using arg_cong [OF assms(1), of "\<lambda>u. u ! m"] that by simp
  have "head_fits s L B m \<longleftrightarrow> head_fits t L B m" for m
    using eq [of m] nth [of m] assms(2,3) by (auto simp: head_fits_def is_char_boundary_def)
  then show ?thesis by (simp add: longest_head_def)
qed

lemma longest_head_unique: "longest_head s L B n \<Longrightarrow> longest_head s L B m \<Longrightarrow> n = m"
  by (auto simp: longest_head_def intro: antisym)

lemma first_line_same:
  assumes "take (Suc B) s = take (Suc B) t"
  shows "B < length (takeWhile P s) \<longleftrightarrow> B < length (takeWhile P t)"
proof -
  have *: "B < length (takeWhile P u) \<longleftrightarrow> B < length u \<and> (\<forall>x \<in> set (take (Suc B) u). P x)" for u
  proof (induction u arbitrary: B)
    case (Cons x u)
    then show ?case by (cases B) auto
  qed simp
  have "B < length s \<longleftrightarrow> B < length t" using arg_cong [OF assms, of length] by (simp add: min_def split: if_splits)
  then show ?thesis unfolding * using assms by simp
qed

lemma output_text_cong:
  assumes "tr_content r = tr_content q" and "tr_output_lines r = tr_output_lines q" and "tr_truncated r = tr_truncated q"
    and "tr_truncated_by r = tr_truncated_by q" and "tr_first_line_exceeds_limit r = tr_first_line_exceeds_limit q"
  shows "output_text fs input tot text r = output_text fs input tot text q"
  unfolding output_text_def end_line_display_def next_offset_def assms by (rule refl)

context memchr_contract
begin

lemma truncate_head_same:
  assumes "utf8_valid s" and "utf8_valid t" and "take (Suc B) s = take (Suc B) t"
  shows "output_text fs input tot text (truncate_head mc s L B\<lparr>tr_total_lines := x\<rparr>) =
    output_text fs input tot text (truncate_head mc t L B)"
proof (cases "length s \<le> B")
  case True
  then have "length t \<le> B" using arg_cong [OF assms(3), of length] by (simp add: min_def split: if_splits)
  then have "s = t" using True assms(3) by simp
  then show ?thesis by (intro output_text_cong) simp_all
next
  case False
  then have len: "B < length s" "B < length t"
    using arg_cong [OF assms(3), of length] by (auto simp: min_def split: if_splits)
  obtain n where n: "tr_content (truncate_head mc s L B) = take n s" "longest_head s L B n"
    "tr_output_lines (truncate_head mc s L B) = line_total (take n s)"
    "tr_truncated (truncate_head mc s L B) = (n < length s)"
    "tr_truncated_by (truncate_head mc s L B) = cut_reason (n = length s) (take (Suc n) s) L"
    "tr_first_line_exceeds_limit (truncate_head mc s L B) = (0 < L \<and> s \<noteq> [] \<and> (B = 0 \<or> B < length (takeWhile (\<lambda>b. b \<noteq> 10) s)))"
    using truncate_head_cut [OF assms(1) refl, of L B] by blast
  obtain m where m: "tr_content (truncate_head mc t L B) = take m t" "longest_head t L B m"
    "tr_output_lines (truncate_head mc t L B) = line_total (take m t)"
    "tr_truncated (truncate_head mc t L B) = (m < length t)"
    "tr_truncated_by (truncate_head mc t L B) = cut_reason (m = length t) (take (Suc m) t) L"
    "tr_first_line_exceeds_limit (truncate_head mc t L B) = (0 < L \<and> t \<noteq> [] \<and> (B = 0 \<or> B < length (takeWhile (\<lambda>b. b \<noteq> 10) t)))"
    using truncate_head_cut [OF assms(2) refl, of L B] by blast
  have "n = m" using n(2) m(2) longest_head_same [OF assms(3) len] longest_head_unique by blast
  have nB: "n \<le> B" using n(2) by (simp add: longest_head_def head_fits_def)
  then have tk: "take n s = take n t" "take (Suc n) s = take (Suc n) t"
    using arg_cong [OF assms(3), of "take n"] arg_cong [OF assms(3), of "take (Suc n)"] by (simp_all add: min_def)
  have ne: "s \<noteq> [] \<and> t \<noteq> []" "n < length s" "n < length t" using len nB by auto
  show ?thesis
  proof (rule output_text_cong)
    show "tr_first_line_exceeds_limit (truncate_head mc s L B\<lparr>tr_total_lines := x\<rparr>) =
        tr_first_line_exceeds_limit (truncate_head mc t L B)"
      using n(6) m(6) ne(1) first_line_same [OF assms(3), of "\<lambda>b. b \<noteq> 10"] by simp
  qed (use n(1,3-5) m(1,3-5) \<open>n = m\<close> tk ne in simp_all)
qed

end

section \<open>Cutting a list of lines\<close>

definition cut_inside :: "bytes \<Rightarrow> nat \<Rightarrow> bool" where
  "cut_inside s n \<longleftrightarrow> 0 < n \<and> n < length s \<and> s ! (n - 1) \<noteq> 10 \<and> s ! n \<noteq> 10"

definition lines_kept :: "bytes list \<Rightarrow> nat \<Rightarrow> bool \<Rightarrow> bytes \<Rightarrow> bool" where
  "lines_kept rs m inside content \<longleftrightarrow> m \<le> length rs \<and>
     (if inside then \<exists>p q. p \<noteq> [] \<and> q \<noteq> [] \<and> 0 < m \<and> rs ! (m - 1) = p @ q \<and> content = join_lines (take (m - 1) rs @ [p])
      else content = join_lines (take m rs) \<or> content = join_lines (take m rs) @ [10])"

lemma lines_kept_insideI:
  "p \<noteq> [] \<Longrightarrow> q \<noteq> [] \<Longrightarrow> inside \<Longrightarrow> 0 < m \<Longrightarrow> m \<le> length rs \<Longrightarrow> rs ! (m - 1) = p @ q \<Longrightarrow>
   content = join_lines (take (m - 1) rs @ [p]) \<Longrightarrow> lines_kept rs m inside content"
  by (auto simp: lines_kept_def)

lemma line_total_first: "10 \<notin> set x \<Longrightarrow> line_total (x @ 10 # t) = Suc (line_total t)"
  by (induction x) (auto simp: line_total_Cons)

lemma lines_kept_Cons:
  assumes "lines_kept rs m inside content" and "content \<noteq> []" and "rs \<noteq> []" and "\<forall>r \<in> set rs. r \<noteq> []" and "0 < m"
  shows "lines_kept (r # rs) (Suc m) inside (r @ 10 # content)"
proof -
  obtain k where k: "m = Suc k" using assms(5) gr0_conv_Suc by blast
  obtain y ys where rs: "rs = y # ys" using assms(3) by (cases rs) auto
  show ?thesis
  proof (cases inside)
    case True
    then obtain p q where pq: "p \<noteq> []" "q \<noteq> []" "rs ! (m - 1) = p @ q" "content = join_lines (take (m - 1) rs @ [p])" "m \<le> length rs"
      using assms(1) by (auto simp: lines_kept_def)
    then have "r @ 10 # content = join_lines (take (Suc m - 1) (r # rs) @ [p])" using k by (simp add: join_lines_Cons)
    then show ?thesis using pq True k unfolding lines_kept_def by auto
  next
    case False
    then show ?thesis using assms(1) k rs by (auto simp: lines_kept_def)
  qed
qed

lemma cut_join:
  assumes "\<forall>r \<in> set rs. r \<noteq> [] \<and> 10 \<notin> set r" and "n \<le> length (join_lines rs)"
  shows "lines_kept rs (line_total (take n (join_lines rs))) (cut_inside (join_lines rs) n) (take n (join_lines rs))"
  using assms
proof (induction rs arbitrary: n)
  case Nil
  then show ?case by (simp add: lines_kept_def cut_inside_def)
next
  case (Cons x rs)
  define s where "s = join_lines (x # rs)"
  have x: "x \<noteq> []" "10 \<notin> set x" using Cons.prems(1) by simp_all
  have s: "s = (if rs = [] then x else x @ 10 # join_lines rs)" by (simp add: s_def join_lines_Cons)
  have nth: "s ! i = x ! i \<and> x ! i \<noteq> 10" if "i < length x" for i
    using that s x(2) by (metis nth_append nth_mem)
  have one: "line_total (take n x) = 1" if "0 < n"
    using that x line_total_one [of "take n x"] by (auto dest: in_set_takeD)
  consider (none) "n = 0" | (inner) "0 < n" "n < length x" | (line) "n = length x"
    | (feed) "rs \<noteq> []" "n = Suc (length x)" | (more) "rs \<noteq> []" "Suc (length x) < n"
    using Cons.prems(2) s unfolding s_def [symmetric] by (cases "rs = []") (simp, linarith+)
  then show ?case unfolding s_def [symmetric]
  proof cases
    case none
    then show "lines_kept (x # rs) (line_total (take n s)) (cut_inside s n) (take n s)"
      by (simp add: lines_kept_def cut_inside_def)
  next
    case inner
    then have "take n s = take n x" "cut_inside s n" using s nth [of n] nth [of "n - 1"] by (auto simp: cut_inside_def)
    then show "lines_kept (x # rs) (line_total (take n s)) (cut_inside s n) (take n s)"
      using inner one x(1) by (intro lines_kept_insideI [of "take n x" "drop n x"]) simp_all
  next
    case line
    then have "take n s = x" "\<not> cut_inside s n" using s by (auto simp: cut_inside_def nth_append)
    then show "lines_kept (x # rs) (line_total (take n s)) (cut_inside s n) (take n s)"
      using line one x(1) by (simp add: lines_kept_def)
  next
    case feed
    then have "take n s = x @ [10]" "\<not> cut_inside s n" using s by (auto simp: cut_inside_def nth_append)
    then show "lines_kept (x # rs) (line_total (take n s)) (cut_inside s n) (take n s)"
      using line_total_first [OF x(2), of "[]"] by (simp add: lines_kept_def)
  next
    case more
    define k where "k = n - Suc (length x)"
    have k: "n = length x + Suc k" "0 < k" using more by (simp_all add: k_def)
    have le: "k \<le> length (join_lines rs)" using Cons.prems(2) s k more(1) by (simp add: s_def [symmetric])
    have tk: "take n s = x @ 10 # take k (join_lines rs)" using s k more(1) by simp
    have ne: "take k (join_lines rs) \<noteq> []" using k(2) le by auto
    have "cut_inside s n = cut_inside (join_lines rs) k"
      using s k more(1) by (cases k) (auto simp: cut_inside_def nth_append)
    moreover have "lines_kept rs (line_total (take k (join_lines rs))) (cut_inside (join_lines rs) k) (take k (join_lines rs))"
      using Cons.IH [OF _ le] Cons.prems(1) by simp
    ultimately show "lines_kept (x # rs) (line_total (take n s)) (cut_inside s n) (take n s)"
      unfolding tk line_total_first [OF x(2)]
      using lines_kept_Cons [OF _ ne more(1) _ line_total_pos [OF ne]] Cons.prems(1) by simp
  qed
qed

section \<open>Properties\<close>

definition input_ok :: "read_input \<Rightarrow> bool" where
  "input_ok input \<longleftrightarrow> \<not> ri_hashline input \<and> (\<forall>l \<in> set_option (ri_limit input). 0 < l \<and> l \<le> i64_max) \<and>
     (\<forall>n \<in> set_option (ri_offset input). 0 \<le> n \<and> n \<le> i64_max)"

lemma window_bounds:
  assumes "input_ok input"
  shows "start_line_idx input < end_line_idx input"
    and "tot < u64_max \<Longrightarrow> min (lines_to_take input) (tot - start_line_idx input) \<le> end_line_idx input - start_line_idx input"
proof -
  define a l where "a = start_line_idx input" and "l = limit_lines input"
  have "a < u64_max"
  proof (cases "ri_offset input")
    case (Some n)
    then have "n \<le> i64_max" using assms by (simp add: input_ok_def)
    then show ?thesis using Some by (simp add: a_def start_line_idx_def i64_max_def u64_max_def nat_less_iff)
  qed (simp add: a_def start_line_idx_def)
  moreover have "0 < l" using assms by (auto simp: l_def limit_lines_def input_ok_def split: option.splits)
  ultimately show "start_line_idx input < end_line_idx input"
    unfolding end_line_idx_def a_def [symmetric] l_def [symmetric] by (simp add: sat_add64_def)
  show "min (lines_to_take input) (tot - start_line_idx input) \<le> end_line_idx input - start_line_idx input" if "tot < u64_max"
    using that unfolding end_line_idx_def lines_to_take_def a_def [symmetric] l_def [symmetric]
    by (auto simp: sat_add64_def min_def)
qed

lemma normalize_length: "length (normalize_to_lf s) \<le> length s"
proof -
  have "length (lf_loop s) \<le> length s"
    by (induction s rule: lf_loop.induct) (auto split: list.splits if_splits)
  then show ?thesis by (simp add: normalize_to_lf_loop)
qed

lemma normalize_no_cr: "13 \<notin> set (normalize_to_lf s)"
proof -
  have "13 \<notin> set (lf_loop s)"
    by (induction s rule: lf_loop.induct) (auto split: list.splits if_splits)
  then show ?thesis by (simp add: normalize_to_lf_loop)
qed

lemma line_window_sub: "set (line_window a b k s) \<subseteq> set s"
  by (induction s arbitrary: k) (auto split: if_splits)

lemma selected_window:
  assumes "utf8_valid (concat bufs)" and "length (concat bufs) < u64_max" and "input_ok input"
    and N_def: "N = normalize_to_lf (concat bufs)" and a_def: "a = start_line_idx input" and inside: "a < line_total N"
    and u_def: "u = from_utf8_lossy (take DEFAULT_MAX_BYTES (line_window a (end_line_idx input) 0 N))"
    and numbered_def: "numbered = rendered (render_line tag False (line_num_width input (line_total N))) a
      (take (lines_to_take input) (drop a (text_lines N)))"
  shows "utf8_valid (selected_content tag input (line_total N) u)" and "utf8_valid (join_lines numbered)"
    and "take (Suc DEFAULT_MAX_BYTES) (selected_content tag input (line_total N) u) = take (Suc DEFAULT_MAX_BYTES) (join_lines numbered)"
proof -
  define W where "W = line_window a (end_line_idx input) 0 N"
  define k where "k = min (lines_to_take input) (line_total N - a)"
  define pre where "pre = number_prefix (line_num_width input (line_total N))"
  define sel where "sel = selected_content tag input (line_total N) u"
  have hash: "\<not> ri_hashline input" using assms(3) by (simp add: input_ok_def)
  have ab: "a \<le> end_line_idx input" using window_bounds(1) [OF assms(3)] by (simp add: a_def)
  have small: "line_total N < u64_max"
    using assms(2) line_total_length [of N] normalize_length [of "concat bufs"] by (simp add: N_def)
  have k: "k \<le> end_line_idx input - a" "k \<le> line_total N - a"
    using window_bounds(2) [OF assms(3) small] by (simp_all add: k_def a_def)
  have valid: "utf8_valid W"
    unfolding W_def by (rule window_valid [OF _ inside ab]) (simp add: N_def normalize_valid assms(1))
  obtain V x y where V: "u = V @ x" "utf8_valid (V @ x)"
    using lossy_cut [OF valid, of DEFAULT_MAX_BYTES] unfolding u_def W_def by metis
  have "13 \<notin> set N" using normalize_no_cr by (simp add: N_def)
  then have "13 \<notin> set (take DEFAULT_MAX_BYTES W)" using line_window_sub in_set_takeD unfolding W_def by fastforce
  then have cr: "13 \<notin> set u" using lossy_set [of "take DEFAULT_MAX_BYTES W"] by (auto simp: u_def W_def)
  show "utf8_valid (selected_content tag input (line_total N) u)" using selected_valid [OF hash cr] V by simp
  have "take k (split_lines W) = take (lines_to_take input) (drop a (text_lines N))"
    using window_lines [OF inside ab k] by (simp add: W_def k_def text_lines_length min_def)
  then have full: "shown pre a k W = join_lines numbered"
    by (simp add: shown_def numbered_def render_numbered pre_def)
  then show "utf8_valid (join_lines numbered)" using shown_valid [OF valid] by (metis pre_def)
  obtain rest where rest: "shown pre a k u = sel @ rest" "rest \<noteq> [] \<longrightarrow> 2 * DEFAULT_MAX_BYTES < length sel"
    using selected_shown [OF hash cr, of "line_total N" tag] unfolding pre_def k_def sel_def a_def by blast
  have "take (Suc DEFAULT_MAX_BYTES) sel = take (Suc DEFAULT_MAX_BYTES) (shown pre a k u)"
    using rest by (cases "rest = []") (auto simp: DEFAULT_MAX_BYTES_def)
  also have "\<dots> = take (Suc DEFAULT_MAX_BYTES) (shown pre a k W)"
    unfolding u_def W_def [symmetric]
    by (rule shown_cut [OF valid]) (simp add: pre_def number_prefix_length line_num_width_def)
  finally show "take (Suc DEFAULT_MAX_BYTES) (selected_content tag input (line_total N) u) =
      take (Suc DEFAULT_MAX_BYTES) (join_lines numbered)"
    unfolding full sel_def .
qed

text \<open>
  C38: Reading a file of valid UTF-8 text with line numbers, however its bytes arrive, shows the
  requested lines of the file with their numbers, cut to the limits as if the whole window had been
  rendered: in the lines that are shown neither the cap on the bytes that are collected nor the early
  end of the numbering loop nor a character cut in two by the cap is visible. The cap does show in one
  place: when the first line alone exceeds the limit, nothing of it is shown and the size that is
  reported for it is that of the collected part. The total that is reported is the number of lines of
  the file, and an offset behind the end is refused. Line endings of every kind count as line ends. Not covered are the
  hash-line mode, files that are not valid UTF-8, and limits and offsets that are refused or exceed
  64 bits (\<open>input_ok\<close>).
\<close>

theorem read_shows_window:
  assumes "memchr_contract mc" and "[] \<notin> set bufs" and "utf8_valid (concat bufs)" and "length (concat bufs) < u64_max"
    and "input_ok input"
  shows "let N = normalize_to_lf (concat bufs); ls = text_lines N; a = start_line_idx input;
      offset = (case ri_offset input of Some n \<Rightarrow> n | None \<Rightarrow> 0);
      numbered = rendered (render_line tag False (line_num_width input (length ls))) a (take (lines_to_take input) (drop a ls))
    in read_text mc tag format_size input bufs =
      (if ls = [] then (if 0 < offset then Inl (OffsetBeyondEnd offset 0) else Inr [])
       else if length ls \<le> a then Inl (OffsetBeyondEnd offset (length ls))
       else Inr (output_text format_size input (length ls)
              (from_utf8_lossy (take DEFAULT_MAX_BYTES (line_window a (end_line_idx input) 0 N)))
              (truncate_head mc (join_lines numbered) (max_lines_for_truncation input) DEFAULT_MAX_BYTES)))"
proof -
  define N where "N = normalize_to_lf (concat bufs)"
  define ls where "ls = text_lines N"
  have tot: "length ls = line_total N" by (simp add: ls_def text_lines_length)
  note scan = memchr_contract.scan_file_exact [OF assms(1,2) window_bounds(1) [OF assms(5)], folded N_def]
  have guards: "\<not> (\<exists>l \<in> set_option (ri_limit input). l \<le> 0)" "\<not> (\<exists>n \<in> set_option (ri_offset input). n < 0)"
    using assms(5) by (auto simp: input_ok_def)
  show ?thesis
  proof (cases "ls = [] \<or> length ls \<le> start_line_idx input")
    case True
    then show ?thesis
      unfolding Let_def N_def [symmetric] ls_def [symmetric] read_text_def if_not_P [OF guards(1)] if_not_P [OF guards(2)]
      by (auto simp: scan tot [symmetric])
  next
    case False
    then have inside: "line_total N \<noteq> 0" "start_line_idx input < line_total N" by (auto simp: tot [symmetric])
    note win = selected_window [OF assms(3-5) N_def refl inside(2) refl refl, of tag]
    show ?thesis
      using False inside memchr_contract.truncate_head_same [OF assms(1) win]
      unfolding Let_def N_def [symmetric] ls_def [symmetric] read_text_def if_not_P [OF guards(1)] if_not_P [OF guards(2)]
        scan tot
      by simp
  qed
qed

theorem read_shows_window_witness:
  "\<exists>text. read_text linear_memchr (\<lambda>i l. []) decimal
     \<lparr>ri_path = [], ri_offset = Some 2, ri_limit = Some 1, ri_hashline = False\<rparr> [[97, 13], [10, 98, 10], [99]] =
   Inr (output_text decimal \<lparr>ri_path = [], ri_offset = Some 2, ri_limit = Some 1, ri_hashline = False\<rparr> 3 text
     (truncate_head linear_memchr [32, 32, 32, 32, 50, 226, 134, 146, 98] 1 DEFAULT_MAX_BYTES))"
proof -
  define input where "input = \<lparr>ri_path = [], ri_offset = Some 2, ri_limit = Some 1, ri_hashline = False\<rparr>"
  have bufs: "[] \<notin> set [[97, 13], [10, 98, 10], [99 :: nat]]" by simp
  have v: "utf8_valid (concat [[97, 13], [10, 98, 10], [99]])" by (rule ascii_valid) simp
  have len: "length (concat [[97, 13], [10, 98, 10], [99 :: nat]]) < u64_max" by (simp add: u64_max_def)
  have ok: "input_ok input" by (simp add: input_ok_def input_def i64_max_def)
  have ls: "text_lines (normalize_to_lf (concat [[97, 13], [10, 98, 10], [99]])) = [[97], [98], [99]]"
    by (simp add: text_lines_def normalize_to_lf_def)
  have a: "start_line_idx input = 1" "max_lines_for_truncation input = 1" "lines_to_take input = 1"
    by (simp_all add: input_def start_line_idx_def max_lines_for_truncation_def lines_to_take_def limit_lines_def
        sat_add64_def u64_max_def)
  have w: "length [[97], [98], [99 :: nat]] = 3" "line_num_width input 3 = 5"
    by (simp_all add: line_num_width_def a sat_add64_def u64_max_def decimal.simps)
  have num: "join_lines (rendered (render_line (\<lambda>i l. []) False 5) 1 (take 1 (drop 1 [[97], [98], [99]]))) =
      [32, 32, 32, 32, 50, 226, 134, 146, 98]" by code_simp
  show ?thesis
    using read_shows_window [OF linear.memchr_contract_axioms bufs v len ok, of "\<lambda>i l. []" decimal]
    unfolding Let_def ls input_def [symmetric] a w num by auto
qed

text \<open>
  C39: The offset that is given to continue at is the line after the last one that is shown. When the
  cut does not lie inside a line, the answer is exactly the first lines of the window, so that
  reading on there neither repeats nor skips a line. When the byte limit cuts a line in two, the
  offset is still the line after it: the rest of that line is on none of the pages.
\<close>

theorem read_continues_after_shown:
  assumes "memchr_contract mc" and "list_all utf8_valid ls" and "list_all (\<lambda>l. 10 \<notin> set l) ls" and "0 < B"
    and "start_line_idx input + length ls + 1 \<le> u64_max"
  shows "let numbered = rendered (render_line tag False w) (start_line_idx input) ls;
      r = truncate_head mc (join_lines numbered) L B; m = tr_output_lines r
    in \<not> tr_first_line_exceeds_limit r \<longrightarrow>
      next_offset input r = start_line_idx input + m + 1 \<and> lines_kept numbered m (tr_last_line_partial r) (tr_content r)"
proof -
  define numbered where "numbered = rendered (render_line tag False w) (start_line_idx input) ls"
  define r where "r = truncate_head mc (join_lines numbered) L B"
  have lines: "\<forall>x \<in> set numbered. x \<noteq> [] \<and> 10 \<notin> set x"
    using rendered_lines [OF assms(3)] unfolding numbered_def render_numbered by blast
  have "utf8_valid (join_lines numbered)"
    using rendered_valid [OF assms(2)] unfolding numbered_def render_numbered by (intro join_lines_valid)
  from memchr_contract.truncate_head_cut [OF assms(1) this refl, of L B] obtain n where
    n: "tr_content r = take n (join_lines numbered)" "longest_head (join_lines numbered) L B n"
      "tr_output_lines r = line_total (take n (join_lines numbered))"
      "\<not> tr_first_line_exceeds_limit r \<longrightarrow> tr_last_line_partial r = cut_inside (join_lines numbered) n"
    unfolding r_def cut_inside_def by blast
  have le: "n \<le> length (join_lines numbered)" using n(2) by (simp add: longest_head_def head_fits_def)
  note kept = cut_join [OF lines le]
  have "lines_kept numbered (tr_output_lines r) (tr_last_line_partial r) (tr_content r)"
    if "\<not> tr_first_line_exceeds_limit r" using kept n that by simp
  moreover have "next_offset input r = start_line_idx input + tr_output_lines r + 1"
    using kept assms(5)
    by (auto simp: n(3) lines_kept_def numbered_def next_offset_def end_line_display_def start_line_display_def sat_add64_def)
  ultimately show ?thesis unfolding Let_def numbered_def [symmetric] r_def [symmetric] by blast
qed

theorem read_continues_after_shown_witness:
  "let numbered = rendered (render_line (\<lambda>i l. []) False 5) 0 [[97, 98, 99], [100, 101, 102]];
       r = truncate_head linear_memchr (join_lines numbered) 5 22;
       input = \<lparr>ri_path = [], ri_offset = None, ri_limit = None, ri_hashline = False\<rparr>
   in next_offset input r = 3 \<and> tr_last_line_partial r \<and> lines_kept numbered 2 True (tr_content r)"
proof -
  define input where "input = \<lparr>ri_path = [], ri_offset = None, ri_limit = None, ri_hashline = False\<rparr>"
  define numbered where "numbered = rendered (render_line (\<lambda>i l. []) False 5) 0 [[97, 98, 99], [100, 101, 102]]"
  define r where "r = truncate_head linear_memchr (join_lines numbered) 5 22"
  have v: "list_all utf8_valid [[97, 98, 99], [100, 101, 102]]" by (simp add: ascii_valid)
  have nl: "list_all (\<lambda>l. 10 \<notin> set l) [[97, 98, 99], [100, 101, 102 :: nat]]" by simp
  have a: "start_line_idx input = 0" by (simp add: input_def start_line_idx_def)
  have room: "start_line_idx input + length [[97, 98, 99], [100, 101, 102 :: nat]] + 1 \<le> u64_max"
    by (simp add: a u64_max_def)
  have r: "\<not> tr_first_line_exceeds_limit r" "tr_output_lines r = 2" "tr_last_line_partial r"
    unfolding r_def numbered_def by code_simp+
  have "0 < (22 :: nat)" by simp
  note main = read_continues_after_shown [OF linear.memchr_contract_axioms v nl this room, of "\<lambda>i l. []" 5 5,
    unfolded Let_def a, folded numbered_def, folded r_def]
  show ?thesis
    unfolding Let_def numbered_def [symmetric] r_def [symmetric] input_def [symmetric] using main r by simp
qed

end
