(* ===== verification/Spec2Isabelle.thy ===== *)
theory Spec2Isabelle
  imports Tool_Gate Ordered_Map S3_Fifo Scheduler Reactor Bravo Hostcall_Queue Sse_Stream Session_Save Session_Flush Compaction_Worker
    Trace_Jit Rewrite_Planner Tool_Edit Truncation Agent_Loop Read_Tool
begin

text \<open>
  KOOMPI KESA is a coding agent for the terminal. A session holds the conversation as a tree of
  entries; an agent loop sends the current path of it to a model, reads the answer as server-sent
  events, checks and runs the tool calls in it, and appends what happened; long conversations are
  compacted into summaries, and everything is saved in the background. Extensions run beside it in
  an embedded engine whose calls go through a queue, a scheduler and a small optimising compiler.

  This development models those parts of \<open>src/src\<close> and proves what makes them correct. A theory
  models one part; its definitions carry the names of the code and come in its order.

  \<^bold>\<open>Foundations.\<close>
  \<^item> \<open>Prelude\<close>: machine integers as naturals with the bound each operation saturates or wraps at,
    text as code points, the list and string operations of the standard library the code calls.
  \<^item> \<open>Machines\<close>: the locales of state machines with an invariant and with a bounded quantity; the
    components interpret them with their own operations.
  \<^item> \<open>Ordered_Map\<close>: ordered maps as association lists, for Rust's \<open>BTreeMap\<close>.
  \<^item> \<open>Utf8\<close>: UTF-8 validation and character boundaries of byte texts.

  \<^bold>\<open>Tool calls.\<close>
  \<^item> \<open>Tool_Effects\<close> (\<open>tools.rs\<close>, \<open>agent.rs\<close>): effect declarations and the planner that groups calls
    into concurrent batches. The batches are a partition of the calls in order, and a call that may
    write stands alone.
  \<^item> \<open>Tool_Policy\<close> (\<open>tool_policy.rs\<close>): rules, globs, command normalisation and the decision of each
    mode. The glob matcher agrees with the meaning of a pattern, deny rules win, and a deny rule on
    a word also catches the listed spellings of the separator behind it.
  \<^item> \<open>Tool_Gate\<close> (\<open>agent.rs\<close>, \<open>interactive/state.rs\<close>): one call through policy, extension and
    shell hooks, approval, the registry and the ring that stops repeated failures. A tool runs exactly
    when it is authorised and registered; rules on words read only the start of a command line.
  \<^item> \<open>Tool_Edit\<close> (\<open>tools.rs\<close>): the edit tool, from the text read to the text written. A successful
    edit exchanges the one match and nothing else.
  \<^item> \<open>Truncation\<close> (\<open>tools.rs\<close>): the limits on tool output. The head and the tail that are kept are the
    longest within both limits that cut no character; the line writer agrees with them.
  \<^item> \<open>Read_Tool\<close> (\<open>tools.rs\<close>): the read tool on a text file that arrives in pieces. For valid UTF-8 in the
    plain numbered mode the lines shown are those of rendering the whole window and cutting it, while
    the size reported for a first line beyond the limit is that of the part collected; the offset to
    continue at is the line after the last one shown. The artifact that is attached for large windows
    is left out.

  \<^bold>\<open>The model stream.\<close>
  \<^item> \<open>Sse\<close>, \<open>Sse_Stream\<close> (\<open>sse.rs\<close>): the event parser over a growing buffer and the byte stream in
    front of it. However the bytes are cut into chunks, the events are those of the whole text; what
    a printer writes is read back; memory stays bounded; every event is delivered, errors end the
    stream.

  \<^bold>\<open>The agent.\<close>
  \<^item> \<open>Agent_Queue\<close>, \<open>Agent_State\<close> (\<open>agent.rs\<close>): the limit of tool rounds, the bounded queues of steering
    and follow-up messages, the state of a run with the events it emits, and its environment: the
    provider, the tools, the fetchers, the clock and the abort signal, as functions of a counter of
    consultations. A drain delivers in order and forgets nothing but the oldest beyond the bound.
  \<^item> \<open>Tool_Budget\<close> (\<open>agent.rs\<close>): the byte budget of a tool result; what exceeds it loses its middle, by
    whole characters and with a note.
  \<^item> \<open>Agent_Stream\<close>, \<open>Partial_Json\<close> (\<open>agent.rs\<close>, \<open>providers/openai.rs\<close>): one response, event by event. It
    is one message in the history and one bracket of events however it ends, and a response that
    breaks off keeps every block that was streamed, text, thinking and calls in any mixture, finished or not.
  \<^item> \<open>Agent_Tools\<close> (\<open>agent.rs\<close>): the tool calls of one response in the batches of \<open>Tool_Effects\<close>. Every
    call is answered once and in order, run or skipped.
  \<^item> \<open>Agent_Loop\<close> (\<open>agent.rs\<close>): the run of turns. No request shows an unanswered call of the run, except those of
    a response that the provider paused and that is sent back to it as it is; the end of a run
    reports what it added, tool rounds are bounded, and a run ends once no more messages come. The
    warning before the limit turns out to skip the round it is issued in.

  \<^bold>\<open>The session.\<close>
  \<^item> \<open>Session_Model\<close>, \<open>Session_Tree\<close>, \<open>Session_Path\<close> (\<open>model.rs\<close>, \<open>session.rs\<close>): messages and entries,
    every operation that changes the tree, and the current path with its caches. The invariant is
    kept by all of them, the cached path is the real one, and each operation changes the
    conversation as it says.
  \<^item> \<open>Session_Save\<close>, \<open>Session_Flush\<close>, \<open>Autosave\<close> (\<open>session.rs\<close>): merging with the entries on disk,
    validation and ordering for the rewrite and the append, the save of a JSONL session around them,
    and the write-behind queue. Saving keeps the conversation, and selects the last entry when no leaf
    was set; the checks refuse exactly the broken graphs, but for a lone entry that is its own parent;
    a flush returns and keeps the current path even when it fails; nothing queued is forgotten.
  \<^item> \<open>Compaction\<close>, \<open>Compaction_Summary\<close>, \<open>Compaction_Worker\<close> (\<open>compaction.rs\<close>, \<open>compaction_worker.rs\<close>,
    \<open>agent.rs\<close>): where the conversation is cut, what is summarised and stored, and the background
    worker with its quota and the two-phase step of the agent, which saves the session by \<open>Session_Flush\<close>.

  \<^bold>\<open>Extension calls.\<close>
  \<^item> \<open>Scheduler\<close>, \<open>Reactor\<close> (\<open>scheduler.rs\<close>): the event loop with its timers and macrotasks, shard
    placement, and the mesh of lanes whose drain is the merge by global sequence number.
  \<^item> \<open>Hostcall_Queue\<close>, \<open>Bravo\<close> (\<open>hostcall_queue.rs\<close>): the two-lane queue with tenant admission and epoch
    retirement, and the contention policy. The queue refines a bounded FIFO queue.
  \<^item> \<open>S3_Fifo\<close> (\<open>hostcall_s3_fifo.rs\<close>): the admission policy; all its queues stay within their bounds.
  \<^item> \<open>Superinstructions\<close>, \<open>Trace_Jit\<close>, \<open>Rewrite_Planner\<close> (\<open>hostcall_superinstructions.rs\<close>,
    \<open>hostcall_trace_jit.rs\<close>, \<open>hostcall_rewrite.rs\<close>): mining of recurring call sequences, their compiled
    traces with guards and a bounded cache, and the choice of a rewrite.

  \<^bold>\<open>Interfaces.\<close> What a part relies on is a locale: the searches of the \<open>memchr\<close> library
  (\<open>byte_search\<close>, \<open>memchr_contract\<close>), the queues a run drains (\<open>bounded_fifo\<close>), the ring buffers under lanes and queue (\<open>bounded_ring\<close>,
  \<open>hostcall_ring\<close>), the permission policy the gate consults (\<open>permission_policy\<close>), ordered maps, and
  machines with an invariant or a bounded quantity. Each is interpreted on the model's own definitions or, for a library, on a plain
  implementation that satisfies its documented contract; the properties outside the locales are
  stated over the interpreted definitions or name the contract as a hypothesis.

  \<^bold>\<open>Loops and bounds.\<close> Loops are structural recursion or functions with a measure. Loops whose end is
  not evident are partial functions into \<open>option\<close>, and that they return is proved: the revert loop
  and the graph walk of the session (\<open>revert_user_loop\<close>, \<open>revert_response_loop\<close>, \<open>visit_loop\<close>),
  the backward loop of \<open>truncate_tail\<close> (\<open>tail_loop\<close>), and the run of the agent (\<open>run_turns\<close>), which
  returns when the fetchers fall silent.
  The search for a fresh identifier is bounded by the number of identifiers, the drains by the
  lengths of what they drain. Counters saturate where the code does; those of the trace compiler (\<open>Trace_Jit\<close>), which the
  code increments without a check, wrap at 64 bits; counts of things held in memory that the code
  increments without a check, such as the cached message count, are naturals, as are lengths of
  collections, and where a theorem needs that a collection fits in
  memory it says so (\<open>fits_in_memory\<close>).

  \<^bold>\<open>Inputs.\<close> The clock, identifiers, results of file and network operations, the tasks of other
  threads, the JSON text of values and the Unicode normal forms are arguments of the definitions:
  every theorem holds for whatever they are, or for those that satisfy the hypothesis it states.

  \<^bold>\<open>Not modelled.\<close> Terminal rendering, command line and remote protocols; the wire formats of the
  model providers and HTTP; authentication and cryptography; the JavaScript and WebAssembly engines
  and the extension tooling around them; file locking, the SQLite store and the V2
  store with the completion of partly loaded sessions; configuration
  files, packages and migrations; the remaining tools, which are processes and file system calls;
  and sub-agents, retries and the tasks around the run of the agent. They are input and output, libraries, or code that
  only passes values between the parts above. Floating point costs and the memory model of the
  lock-free structures are outside HOL's view of the code and are left out where they appear.
\<close>

end
